(* ===== verification/Prelude.thy ===== *)
theory Prelude
  imports Complex_Main "HOL-Library.Multiset" "HOL-Library.Word"
begin

text \<open>
  Shared vocabulary of the development: the Go standard-library values the sources use
  (instants and durations of package \<open>time\<close>, single-separator operations of package
  \<open>strings\<close>, the read-modify-write idioms on Go maps) and the generic lemmas on lists, sums
  and maps that the component theories rest on.

  Conventions.  A \<open>time.Time\<close> is the number of nanoseconds since Go's zero time, so
  \<open>t.IsZero()\<close> is \<open>t = 0\<close>; a \<open>time.Duration\<close> is a number of nanoseconds, and
  \<open>t.Sub(u)\<close> saturates at the 64-bit limits exactly as the library documents.  Counters of
  type \<open>int\<close> and \<open>int64\<close> are unbounded \<open>int\<close> where no reachable value comes near
  the 64-bit limits; where the width matters the theories use \<open>64 word\<close>.  Values of type
  \<open>float64\<close> are \<open>real\<close>: rounding of the last bit is not modelled.
\<close>

section \<open>Lemma collections\<close>

named_theorems inv_defs \<open>definitions of the components' invariants\<close>
named_theorems sum_upd \<open>sums over a list after an update by index\<close>

section \<open>Instants and durations\<close>

type_synonym time = int
type_synonym duration = int

abbreviation max_int64 :: int where
  "max_int64 \<equiv> 9223372036854775807"

abbreviation min_int64 :: int where
  "min_int64 \<equiv> - 9223372036854775808"

definition Millisecond :: duration where
  "Millisecond = 1000000"

definition Second :: duration where
  "Second = 1000000000"

definition Minute :: duration where
  "Minute = 60 * Second"

definition Hour :: duration where
  "Hour = 60 * Minute"

text \<open>\<open>t.Sub(u)\<close>: the difference, saturated to the range of \<open>time.Duration\<close>.\<close>

definition time_Sub :: "time \<Rightarrow> time \<Rightarrow> duration" where
  "time_Sub t u = max min_int64 (min max_int64 (t - u))"

text \<open>\<open>t.Unix()\<close> and \<open>time.Unix(sec, 0)\<close>: seconds since 1970.\<close>

definition Unix :: "time \<Rightarrow> int" where
  "Unix t = t div Second - 62135596800"

definition time_Unix :: "int \<Rightarrow> time" where
  "time_Unix sec = (sec + 62135596800) * Second"

definition is_duration :: "duration \<Rightarrow> bool" where
  "is_duration d \<longleftrightarrow> min_int64 < d \<and> d \<le> max_int64"

lemma time_Sub_ge_iff: "is_duration w \<Longrightarrow> w \<le> time_Sub t u \<longleftrightarrow> u + w \<le> t"
  by (auto simp: time_Sub_def is_duration_def)

lemma time_Sub_gt_iff:
  "min_int64 \<le> w \<Longrightarrow> w < max_int64 \<Longrightarrow> w < time_Sub t u \<longleftrightarrow> u + w < t"
  by (auto simp: time_Sub_def)

lemma time_Sub_exact: "min_int64 \<le> t - u \<Longrightarrow> t - u \<le> max_int64 \<Longrightarrow> time_Sub t u = t - u"
  by (simp add: time_Sub_def)

section \<open>Integer division\<close>

text \<open>Go's \<open>/\<close> and \<open>%\<close> on integers truncate towards zero.\<close>

definition go_div :: "int \<Rightarrow> int \<Rightarrow> int" where
  "go_div a b = sgn a * sgn b * (\<bar>a\<bar> div \<bar>b\<bar>)"

lemma go_div_pos: "0 \<le> a \<Longrightarrow> 0 < b \<Longrightarrow> go_div a b = a div b"
  by (cases "a = 0") (simp_all add: go_div_def)

definition go_mod :: "int \<Rightarrow> int \<Rightarrow> int" where
  "go_mod a b = a - go_div a b * b"

lemma go_mod_pos: "0 \<le> a \<Longrightarrow> 0 < b \<Longrightarrow> go_mod a b = a mod b"
  by (simp add: go_mod_def go_div_pos minus_div_mult_eq_mod)

section \<open>Strings with a one-character separator\<close>

definition strings_HasPrefix :: "string \<Rightarrow> string \<Rightarrow> bool" where
  "strings_HasPrefix s p \<longleftrightarrow> take (length p) s = p"

definition strings_HasSuffix :: "string \<Rightarrow> string \<Rightarrow> bool" where
  "strings_HasSuffix s p \<longleftrightarrow> length p \<le> length s \<and> drop (length s - length p) s = p"

definition strings_TrimPrefix :: "string \<Rightarrow> string \<Rightarrow> string" where
  "strings_TrimPrefix s p = (if strings_HasPrefix s p then drop (length p) s else s)"

fun strings_Contains :: "string \<Rightarrow> string \<Rightarrow> bool" where
  "strings_Contains [] p \<longleftrightarrow> p = []"
| "strings_Contains (x # xs) p \<longleftrightarrow> strings_HasPrefix (x # xs) p \<or> strings_Contains xs p"

text \<open>\<open>strings.Cut(s, sep)\<close>: before, after, found.\<close>

fun strings_Cut :: "string \<Rightarrow> char \<Rightarrow> string \<times> string \<times> bool" where
  "strings_Cut [] c = ([], [], False)"
| "strings_Cut (x # xs) c =
     (if x = c then ([], xs, True)
      else (case strings_Cut xs c of (before, after, ok) \<Rightarrow> (x # before, after, ok)))"

text \<open>\<open>strings.Split(s, sep)\<close>: one part more than there are separators.\<close>

fun strings_Split :: "string \<Rightarrow> char \<Rightarrow> string list" where
  "strings_Split [] c = [[]]"
| "strings_Split (x # xs) c =
     (if x = c then [] # strings_Split xs c
      else (case strings_Split xs c of [] \<Rightarrow> [[x]] | p # ps \<Rightarrow> (x # p) # ps))"

definition is_space :: "char \<Rightarrow> bool" where
  "is_space c \<longleftrightarrow> c \<in> {CHR 0x09, CHR 0x0A, CHR 0x0B, CHR 0x0C, CHR 0x0D, CHR 0x20}"

definition strings_TrimSpace :: "string \<Rightarrow> string" where
  "strings_TrimSpace s = rev (dropWhile is_space (rev (dropWhile is_space s)))"

lemma strings_Split_ne [simp]: "strings_Split s c \<noteq> []"
  by (induction s) (auto split: list.splits)

lemma HasPrefix_append [simp]: "strings_HasPrefix (p @ s) p"
  by (simp add: strings_HasPrefix_def)

lemma HasSuffix_append [simp]: "strings_HasSuffix (s @ p) p"
  by (simp add: strings_HasSuffix_def)

section \<open>Go maps\<close>

text \<open>\<open>m[k]++\<close> on a \<open>map[K]int64\<close>: a missing key reads as zero.\<close>

definition map_incr :: "('k \<rightharpoonup> int) \<Rightarrow> 'k \<Rightarrow> ('k \<rightharpoonup> int)" where
  "map_incr m k = m(k \<mapsto> (case m k of None \<Rightarrow> 1 | Some n \<Rightarrow> n + 1))"

text \<open>Delete every entry whose value satisfies a predicate.\<close>

definition map_delete_if :: "('v \<Rightarrow> bool) \<Rightarrow> ('k \<rightharpoonup> 'v) \<Rightarrow> ('k \<rightharpoonup> 'v)" where
  "map_delete_if p m =
     (\<lambda>k. case m k of None \<Rightarrow> None | Some v \<Rightarrow> if p v then None else Some v)"

lemma map_delete_if_Some [simp]:
  "map_delete_if p m k = Some v \<longleftrightarrow> m k = Some v \<and> \<not> p v"
  by (auto simp: map_delete_if_def split: option.splits)

definition map_all :: "('v \<Rightarrow> bool) \<Rightarrow> ('k \<rightharpoonup> 'v) \<Rightarrow> bool" where
  "map_all p m \<longleftrightarrow> (\<forall>k v. m k = Some v \<longrightarrow> p v)"

lemma map_all_empty [simp]: "map_all p Map.empty"
  by (simp add: map_all_def)

lemma map_all_upd: "map_all p m \<Longrightarrow> p v \<Longrightarrow> map_all p (m(k \<mapsto> v))"
  by (simp add: map_all_def)

lemma map_all_delete_if: "map_all p m \<Longrightarrow> map_all p (map_delete_if q m)"
  by (auto simp: map_all_def)

lemma map_allD: "map_all p m \<Longrightarrow> m k = Some v \<Longrightarrow> p v"
  by (simp add: map_all_def)

text \<open>The sum of a quantity over the values of a map.\<close>

definition map_sum :: "('v \<Rightarrow> 'a::comm_monoid_add) \<Rightarrow> ('k \<rightharpoonup> 'v) \<Rightarrow> 'a" where
  "map_sum f m = (\<Sum>k \<in> dom m. f (the (m k)))"

lemma map_sum_empty [simp]: "map_sum f Map.empty = 0"
  by (simp add: map_sum_def)

lemma map_sum_upd:
  assumes "finite (dom m)"
  shows "map_sum f (m(k \<mapsto> v)) = f v + map_sum f (m(k := None))"
proof -
  have "(\<Sum>x \<in> dom m - {k}. f (the ((m(k \<mapsto> v)) x))) = (\<Sum>x \<in> dom m - {k}. f (the ((m(k := None)) x)))"
    by (rule sum.cong) auto
  then show ?thesis using assms by (simp add: map_sum_def sum.insert_remove)
qed

lemma map_sum_at:
  assumes "finite (dom m)"
  shows "map_sum f m = (case m k of None \<Rightarrow> 0 | Some v \<Rightarrow> f v) + map_sum f (m(k := None))"
proof (cases "m k")
  case None
  then have "m(k := None) = m" by auto
  then show ?thesis using None by simp
next
  case (Some v)
  then have "m(k \<mapsto> v) = m" by auto
  then show ?thesis using map_sum_upd [OF assms, of f k v] Some by simp
qed

lemma map_sum_restrict:
  assumes "finite (dom m)" and "distinct ks" and "set ks \<subseteq> dom m"
  shows "map_sum f m = sum_list (map (\<lambda>k. f (the (m k))) ks) + map_sum f (m |` (- set ks))"
proof -
  have "(\<Sum>k \<in> dom m. f (the (m k))) = (\<Sum>k \<in> dom m - set ks. f (the (m k))) + (\<Sum>k \<in> set ks. f (the (m k)))"
    using assms(1,3) by (intro sum.subset_diff)
  moreover have "(\<Sum>k \<in> dom m - set ks. f (the (m k))) = map_sum f (m |` (- set ks))"
    unfolding map_sum_def by (rule sum.cong) (auto simp: restrict_map_def split: if_splits)
  moreover have "(\<Sum>k \<in> set ks. f (the (m k))) = sum_list (map (\<lambda>k. f (the (m k))) ks)"
    using assms(2) by (simp add: sum_list_distinct_conv_sum_set)
  ultimately show ?thesis by (simp add: map_sum_def add.commute)
qed

section \<open>Lists\<close>

lemma sum_list_update_int [sum_upd]:
  fixes f :: "'a \<Rightarrow> int"
  shows "i < length xs \<Longrightarrow>
     sum_list (map f (xs[i := y])) = sum_list (map f xs) - f (xs ! i) + f y"
proof (induction xs arbitrary: i)
  case Nil
  then show ?case by simp
next
  case (Cons x xs)
  then show ?case by (cases i) auto
qed

text \<open>A sum over positions after an update by index.\<close>

lemma length_filter_update:
  assumes "i < length xs"
  shows "int (length (filter p (xs[i := x]))) = int (length (filter p xs)) - (if p (xs ! i) then 1 else 0) + (if p x then 1 else 0)"
proof -
  have l: "int (length (filter p ys)) = sum_list (map (\<lambda>x. if p x then 1 else 0) ys)" for ys
    by (induction ys) simp_all
  show ?thesis unfolding l by (rule sum_list_update_int [OF assms])
qed

lemma sum_index_update:
  fixes f :: "'a \<Rightarrow> nat \<Rightarrow> int"
  assumes "i < length ps"
  shows "(\<Sum>j < length ps. f (ps[i := p] ! j) j) = (\<Sum>j < length ps. f (ps ! j) j) - f (ps ! i) i + f p i"
proof -
  have i: "i \<in> {..<length ps}" using assms by simp
  have "(\<Sum>j \<in> {..<length ps} - {i}. f (ps[i := p] ! j) j) = (\<Sum>j \<in> {..<length ps} - {i}. f (ps ! j) j)"
    by (rule sum.cong) auto
  then show ?thesis
    using sum.remove [OF _ i, of "\<lambda>j. f (ps[i := p] ! j) j"] sum.remove [OF _ i, of "\<lambda>j. f (ps ! j) j"] assms by simp
qed

lemma set_update_in: "x \<in> set (xs[k := y]) \<Longrightarrow> x = y \<or> x \<in> set xs"
  using set_update_subset_insert [of xs k y] by blast

lemma nth_list_update': "xs[i := x] ! n = (if i = n \<and> n < length xs then x else xs ! n)"
  by (cases "i < length xs") (auto simp: nth_list_update not_less list_update_beyond)

text \<open>A list without its element at an index.\<close>

definition drop_at :: "nat \<Rightarrow> 'a list \<Rightarrow> 'a list" where
  "drop_at i xs = take i xs @ drop (Suc i) xs"

lemma count_drop_at:
  "i < length xs \<Longrightarrow> count_list xs x = count_list (drop_at i xs) x + (if xs ! i = x then 1 else 0)"
proof -
  assume "i < length xs"
  then have "xs = take i xs @ xs ! i # drop (Suc i) xs" by (rule id_take_nth_drop)
  then have "count_list xs x = count_list (take i xs @ xs ! i # drop (Suc i) xs) x" by (rule arg_cong)
  then show ?thesis by (simp add: drop_at_def)
qed

lemma set_drop_at: "set (drop_at i xs) \<subseteq> set xs"
  by (auto simp: drop_at_def dest: in_set_takeD in_set_dropD)

lemma all_set_update:
  "\<forall>x \<in> set xs. p x \<Longrightarrow> p y \<Longrightarrow> \<forall>x \<in> set (xs[i := y]). p x"
  using set_update_subset_insert [of xs i y] by blast

lemma sum_list_replicate_0 [simp]: "f x = (0::int) \<Longrightarrow> sum_list (map f (replicate n x)) = 0"
  by (simp add: sum_list_replicate)

section \<open>Runs of a step function\<close>

text \<open>
  A component whose operations may be interleaved in any order is a step function \<open>step s e\<close>
  (\<open>None\<close>: the event \<open>e\<close> is not possible in the state \<open>s\<close>); its behaviours are the
  runs over a list of events.
\<close>

fun run_steps :: "('s \<Rightarrow> 'e \<Rightarrow> 's option) \<Rightarrow> 's \<Rightarrow> 'e list \<Rightarrow> 's option" where
  "run_steps step s [] = Some s"
| "run_steps step s (e # es) = (case step s e of None \<Rightarrow> None | Some s' \<Rightarrow> run_steps step s' es)"

lemma run_steps_append:
  "run_steps step s (xs @ ys) = (case run_steps step s xs of None \<Rightarrow> None | Some s' \<Rightarrow> run_steps step s' ys)"
  by (induction xs arbitrary: s) (auto split: option.split)

text \<open>What a component owes for an invariant: it holds at the start, and every step keeps it.\<close>

locale step_invariant =
  fixes step :: "'s \<Rightarrow> 'e \<Rightarrow> 's option" and start :: "'c \<Rightarrow> 's" and inv :: "'c \<Rightarrow> 's \<Rightarrow> bool"
    and good :: "'c \<Rightarrow> bool"
  assumes inv_start: "good c \<Longrightarrow> inv c (start c)"
    and inv_step: "good c \<Longrightarrow> inv c s \<Longrightarrow> step s e = Some s' \<Longrightarrow> inv c s'"
begin

lemma inv_from: "good c \<Longrightarrow> inv c s \<Longrightarrow> run_steps step s es = Some s' \<Longrightarrow> inv c s'"
proof (induction es arbitrary: s)
  case Nil
  then show ?case by simp
next
  case (Cons e es)
  then obtain s1 where "step s e = Some s1" "run_steps step s1 es = Some s'"
    by (auto split: option.splits)
  then show ?case using Cons.IH Cons.prems(1) inv_step [OF Cons.prems(1,2)] by blast
qed

lemma inv_run: "good c \<Longrightarrow> run_steps step (start c) es = Some s \<Longrightarrow> inv c s"
  using inv_from inv_start by blast

end

text \<open>The last \<open>n\<close> elements: what an append followed by a trim of a Go slice keeps.\<close>

definition lastn :: "nat \<Rightarrow> 'a list \<Rightarrow> 'a list" where
  "lastn n xs = drop (length xs - n) xs"

lemma lastn_all: "length xs \<le> n \<Longrightarrow> lastn n xs = xs"
  by (simp add: lastn_def)

lemma lastn_lastn: "lastn n (lastn n xs @ ys) = lastn n (xs @ ys)"
proof (cases "n \<le> length xs")
  case True
  define as where "as = take (length xs - n) xs"
  have l: "length xs - n = length as" "length (lastn n xs) = n" using True by (simp_all add: as_def lastn_def)
  have e: "length xs + length ys - n = length ys + length as" using l(1) True by linarith
  have app: "xs @ ys = as @ (lastn n xs @ ys)" by (simp add: as_def lastn_def)
  have "lastn n (xs @ ys) = drop (length ys + length as) (xs @ ys)" by (simp only: lastn_def length_append e)
  also have "\<dots> = drop (length ys + length as) (as @ (lastn n xs @ ys))" using app by (rule arg_cong)
  also have "\<dots> = drop (length ys) (lastn n xs @ ys)" by (simp flip: drop_drop)
  also have "\<dots> = lastn n (lastn n xs @ ys)" using l(2) by (simp add: lastn_def [of n "lastn n xs @ ys"])
  finally show ?thesis ..
next
  case False
  then show ?thesis by (simp add: lastn_all)
qed

lemma length_lastn [simp]: "length (lastn n xs) = min n (length xs)"
  by (simp add: lastn_def)

lemma set_lastn: "set (lastn n xs) \<subseteq> set xs"
  by (simp add: lastn_def set_drop_subset)

section \<open>Chunks of a list\<close>

text \<open>What \<open>slices.Chunk\<close> yields for a positive size.\<close>

function chunks_of :: "nat \<Rightarrow> 'r list \<Rightarrow> 'r list list" where
  "chunks_of n xs = (if n = 0 \<or> xs = [] then [] else take n xs # chunks_of n (drop n xs))"
  by pat_completeness auto
termination by (relation "measure (\<lambda>(n, xs). length xs)") auto

declare chunks_of.simps [simp del]

lemma chunks_of_stop [simp]: "n = 0 \<or> xs = [] \<Longrightarrow> chunks_of n xs = []"
  by (subst chunks_of.simps) simp

lemma chunks_of_next: "0 < n \<Longrightarrow> xs \<noteq> [] \<Longrightarrow> chunks_of n xs = take n xs # chunks_of n (drop n xs)"
  by (subst chunks_of.simps) simp

lemma concat_chunks: "0 < n \<Longrightarrow> concat (chunks_of n xs) = xs"
proof (induction n xs rule: chunks_of.induct)
  case (1 n xs)
  then show ?case by (cases "xs = []") (simp_all add: chunks_of_next)
qed

lemma chunk_sizes:
  "c \<in> set (chunks_of n xs) \<Longrightarrow> 1 \<le> length c \<and> length c \<le> n"
proof (induction n xs rule: chunks_of.induct)
  case (1 n xs)
  show ?case
  proof (cases "n = 0 \<or> xs = []")
    case True
    from chunks_of_stop [OF this] show ?thesis using 1(2) by simp
  next
    case False
    then have ne: "0 < n" "xs \<noteq> []" by simp_all
    have "c = take n xs \<or> c \<in> set (chunks_of n (drop n xs))" using 1(2) unfolding chunks_of_next [OF ne] by simp
    then show ?thesis
    proof
      assume "c = take n xs"
      then show ?thesis using ne by (simp add: Suc_le_eq)
    next
      assume "c \<in> set (chunks_of n (drop n xs))"
      then show ?thesis by (rule 1(1) [OF False])
    qed
  qed
qed

lemma number_of_chunks: "0 < n \<Longrightarrow> length (chunks_of n xs) = (length xs + n - 1) div n"
proof (induction n xs rule: chunks_of.induct)
  case (1 n xs)
  show ?case
  proof (cases "xs = []")
    case True
    then show ?thesis using 1(2) by simp
  next
    case False
    then have ne: "\<not> (n = 0 \<or> xs = [])" "0 < n" "xs \<noteq> []" using 1(2) by simp_all
    have l: "length (chunks_of n xs) = Suc ((length (drop n xs) + n - 1) div n)"
      unfolding chunks_of_next [OF ne(2,3)] using 1(1) [OF ne(1,2)] by simp
    show ?thesis
    proof (cases "n \<le> length xs")
      case True
      then have e: "length xs + n - 1 = (length (drop n xs) + n - 1) + n" using ne(2) by simp
      show ?thesis unfolding l e using div_add_self2 [of n "length (drop n xs) + n - 1"] ne(2) by (simp only:)
    next
      case short: False
      have "0 < length xs" using ne(3) by simp
      then have "n * 1 \<le> length xs + n - 1" using short ne(2) by linarith
      moreover have "length xs + n - 1 < n * Suc 1" using short ne(2) by simp
      ultimately have "(length xs + n - 1) div n = 1" by (rule div_nat_eqI)
      moreover have "(n - 1) div n = 0" using ne(2) by simp
      ultimately show ?thesis using l short by simp
    qed
  qed
qed

section \<open>64-bit integers\<close>

text \<open>The value of an \<open>int64\<close> operation whose exact result is \<open>x\<close>.\<close>

definition wrap64 :: "int \<Rightarrow> int" where
  "wrap64 x = (x + 9223372036854775808) mod 18446744073709551616 - 9223372036854775808"

definition is_int64 :: "int \<Rightarrow> bool" where
  "is_int64 x \<longleftrightarrow> min_int64 \<le> x \<and> x \<le> max_int64"

lemma wrap64_id [simp]: "is_int64 x \<Longrightarrow> wrap64 x = x"
  by (simp add: wrap64_def is_int64_def)

lemma wrap64_range [simp]: "is_int64 (wrap64 x)"
  using pos_mod_bound [of 18446744073709551616 "x + 9223372036854775808"]
    pos_mod_sign [of 18446744073709551616 "x + 9223372036854775808"]
  unfolding wrap64_def is_int64_def by linarith

end
