(* ===== verification/FixedWindow.thy ===== *)
theory FixedWindow
  imports Prelude
begin

text \<open>
  The interface of a fixed-window counter, the discipline behind the request window and the
  burst window of the API rate limiter.  A state carries the start of its current window and
  the number of admissions in it; one operation decides one arrival.  The laws say when the
  window restarts, that only admissions are counted, and that an admission needs room.  The
  client's result is proved once, from the laws alone: never more than the limit inside one
  window, and never more than twice the limit in any interval of one window's length.
\<close>

fun nondecreasing :: "time \<Rightarrow> time list \<Rightarrow> bool" where
  "nondecreasing t0 [] = True"
| "nondecreasing t0 (t # ts) = (t0 \<le> t \<and> nondecreasing t ts)"

lemma nondecreasing_le: "nondecreasing t0 ts \<Longrightarrow> t \<in> set ts \<Longrightarrow> t0 \<le> t"
  by (induction ts arbitrary: t0) force+

text \<open>The decisions on a sequence of arrival times.\<close>

fun decisions :: "('b \<Rightarrow> time \<Rightarrow> 'b \<times> bool) \<Rightarrow> 'b \<Rightarrow> time list \<Rightarrow> (time \<times> bool) list" where
  "decisions decide b [] = []"
| "decisions decide b (t # ts) =
     (t, snd (decide b t)) # decisions decide (fst (decide b t)) ts"

definition admitted :: "time \<Rightarrow> time \<Rightarrow> (time \<times> bool) list \<Rightarrow> int" where
  "admitted lo hi ds = int (length (filter (\<lambda>(t, ok). ok \<and> lo \<le> t \<and> t < hi) ds))"

lemma admitted_Nil: "admitted lo hi [] = 0"
  by (simp add: admitted_def)

lemma admitted_Cons: "admitted lo hi ((t, ok) # ds) =
    (if ok \<and> lo \<le> t \<and> t < hi then 1 else 0) + admitted lo hi ds"
  by (simp add: admitted_def)

lemmas admitted_simps = admitted_Nil admitted_Cons

locale fixed_window =
  fixes valid :: "'r \<Rightarrow> bool"
    and decide :: "'r \<Rightarrow> 'b \<Rightarrow> time \<Rightarrow> 'b \<times> bool"
    and start :: "'b \<Rightarrow> time"
    and cnt :: "'b \<Rightarrow> int"
    and width :: "'r \<Rightarrow> duration"
    and limit :: "'r \<Rightarrow> int"
  assumes width_pos: "valid r \<Longrightarrow> 0 < width r"
    and limit_nonneg: "valid r \<Longrightarrow> 0 \<le> limit r"
    and restart_start: "valid r \<Longrightarrow> start b + width r \<le> t \<Longrightarrow> start (fst (decide r b t)) = t"
    and restart_cnt: "valid r \<Longrightarrow> start b + width r \<le> t \<Longrightarrow>
      cnt (fst (decide r b t)) = (if snd (decide r b t) then 1 else 0)"
    and restart_room: "valid r \<Longrightarrow> start b + width r \<le> t \<Longrightarrow> snd (decide r b t) \<Longrightarrow> 0 < limit r"
    and keep_start: "valid r \<Longrightarrow> t < start b + width r \<Longrightarrow> start (fst (decide r b t)) = start b"
    and keep_cnt: "valid r \<Longrightarrow> t < start b + width r \<Longrightarrow>
      cnt (fst (decide r b t)) = cnt b + (if snd (decide r b t) then 1 else 0)"
    and keep_room: "valid r \<Longrightarrow> t < start b + width r \<Longrightarrow> snd (decide r b t) \<Longrightarrow> cnt b < limit r"
begin

lemma cnt_le_limit: "valid r \<Longrightarrow> cnt b \<le> limit r \<Longrightarrow> cnt (fst (decide r b t)) \<le> limit r"
  using restart_cnt [of r, where b=b and t=t] restart_room [of r, where b=b and t=t] keep_cnt [of r, where b=b and t=t] keep_room [of r, where b=b and t=t]
    limit_nonneg [of r]
  by (cases "start b + width r \<le> t") (auto simp: not_le split: if_splits)

text \<open>Inside the current window only the remaining room is admitted.\<close>

lemma admitted_past: "nondecreasing t0 ts \<Longrightarrow> hi \<le> t0 \<Longrightarrow> admitted lo hi (decisions (decide r) b ts) = 0"
  by (induction ts arbitrary: b t0) (fastforce simp: admitted_simps)+

lemma admitted_in_window:
  assumes v: "valid r"
  shows "cnt b \<le> limit r \<Longrightarrow> nondecreasing t0 ts \<Longrightarrow> hi \<le> start b + width r \<Longrightarrow>
   admitted lo hi (decisions (decide r) b ts) \<le> limit r - cnt b"
proof (induction ts arbitrary: b t0)
  case Nil
  then show ?case by (simp add: admitted_simps)
next
  case (Cons t ts)
  show ?case
  proof (cases "start b + width r \<le> t")
    case True
    have "admitted lo hi (decisions (decide r) (fst (decide r b t)) ts) = 0"
      by (rule admitted_past [where ?t0.0 = t]) (use Cons.prems True in auto)
    with True Cons.prems show ?thesis by (simp add: admitted_simps)
  next
    case False
    then have "t < start b + width r" by simp
    note keep = keep_start [OF v this] keep_cnt [OF v this] keep_room [OF v this]
    have "admitted lo hi (decisions (decide r) (fst (decide r b t)) ts) \<le> limit r - cnt (fst (decide r b t))"
      by (rule Cons.IH [where ?t0.0 = t]) (use Cons.prems keep v cnt_le_limit in auto)
    with keep show ?thesis by (auto simp: admitted_simps split: if_splits)
  qed
qed

text \<open>From a window that began before \<open>lo\<close>: its remaining room and one full window.\<close>

lemma admitted_from:
  assumes v: "valid r"
  shows "cnt b \<le> limit r \<Longrightarrow> nondecreasing t0 ts \<Longrightarrow> lo \<le> t0 \<Longrightarrow>
   admitted lo (lo + width r) (decisions (decide r) b ts) \<le> (limit r - cnt b) + limit r"
proof (induction ts arbitrary: b t0)
  case Nil
  then show ?case using v limit_nonneg [of r] by (simp add: admitted_simps)
next
  case (Cons t ts)
  let ?b = "fst (decide r b t)"
  have ok: "cnt ?b \<le> limit r" using v Cons.prems(1) by (rule cnt_le_limit)
  show ?case
  proof (cases "start b + width r \<le> t")
    case True
    note restart = restart_start [OF v True] restart_cnt [OF v True]
    have "admitted lo (lo + width r) (decisions (decide r) ?b ts) \<le> limit r - cnt ?b"
      by (rule admitted_in_window [OF v, where ?t0.0 = t]) (use Cons.prems ok restart in auto)
    with restart Cons.prems(1) show ?thesis by (auto simp: admitted_simps split: if_splits)
  next
    case False
    then have "t < start b + width r" by simp
    note keep = keep_cnt [OF v this]
    have "admitted lo (lo + width r) (decisions (decide r) ?b ts) \<le> (limit r - cnt ?b) + limit r"
      by (rule Cons.IH [where ?t0.0 = t]) (use Cons.prems ok in auto)
    with keep show ?thesis by (auto simp: admitted_simps split: if_splits)
  qed
qed

theorem admitted_any_interval:
  assumes v: "valid r"
  shows "0 \<le> cnt b \<Longrightarrow> cnt b \<le> limit r \<Longrightarrow> nondecreasing t0 ts \<Longrightarrow>
   admitted lo (lo + width r) (decisions (decide r) b ts) \<le> 2 * limit r"
proof (induction ts arbitrary: b t0)
  case Nil
  then show ?case using v limit_nonneg [of r] by (simp add: admitted_simps)
next
  case (Cons t ts)
  let ?b = "fst (decide r b t)"
  have nn: "0 \<le> cnt ?b"
    using v Cons.prems(1) restart_cnt [of r, where b=b and t=t] keep_cnt [of r, where b=b and t=t]
    by (cases "start b + width r \<le> t") auto
  show ?case
  proof (cases "lo \<le> t")
    case True
    have "admitted lo (lo + width r) (decisions (decide r) b (t # ts)) \<le> (limit r - cnt b) + limit r"
      by (rule admitted_from [OF v, where ?t0.0 = t]) (use Cons.prems True in auto)
    with Cons.prems(1) show ?thesis by simp
  next
    case False
    have "admitted lo (lo + width r) (decisions (decide r) ?b ts) \<le> 2 * limit r"
      by (rule Cons.IH [where ?t0.0 = t]) (use Cons.prems nn v cnt_le_limit in auto)
    with False show ?thesis by (simp add: admitted_simps)
  qed
qed

end

end
