(* ===== verification/RateLimiter.thy ===== *)
theory RateLimiter
  imports FixedWindow
begin

text \<open>
  The API rate limiter of chapter 4,
  \<^verbatim>\<open>04_concurrent_programming_for_web_processing/03_api_rate_limiter/api_rate_limiter.go\<close>:
  rules with priorities, one bucket per client and API key with a request window and a burst
  window, the buffered request queue and its workers, the statistics, the clean-up of idle
  buckets and the HTTP middleware.  Each method that runs under a mutex is one function on the
  state; the goroutines' interleavings are the sequences of steps of \<open>limiter_step\<close>.
  A method that reads the clock several times reads one instant here.
\<close>

section \<open>Data\<close>

record rate_limit_request =
  rq_ClientID :: string
  rq_APIKey :: string
  rq_Endpoint :: string
  rq_Method :: string
  rq_UserTier :: string
  rq_ClientIP :: string
  rq_UserAgent :: string
  rq_RequestTime :: time

record rate_limit_result =
  rs_Allowed :: bool
  rs_Remaining :: int
  rs_ResetTime :: time
  rs_RetryAfter :: duration
  rs_LimitRule :: string
  rs_WindowStart :: time
  rs_WindowEnd :: time
  rs_RequestCount :: int
  rs_BurstAvailable :: int

record rate_limit_rule =
  rl_Name :: string
  rl_Limit :: int
  rl_Window :: duration
  rl_BurstLimit :: int
  rl_BurstWindow :: duration
  rl_UserTiers :: "string list"
  rl_Endpoints :: "string list"
  rl_Methods :: "string list"
  rl_Priority :: int

record client_bucket =
  bk_ClientID :: string
  bk_APIKey :: string
  bk_UserTier :: string
  bk_RequestCount :: int
  bk_BurstCount :: int
  bk_WindowStart :: time
  bk_BurstStart :: time
  bk_LastRequest :: time
  bk_TotalRequests :: int
  bk_BlockedRequests :: int
  bk_AllowedRequests :: int

record endpoint_stats =
  es_Endpoint :: string
  es_TotalRequests :: int
  es_AllowedRequests :: int
  es_BlockedRequests :: int
  es_BlockRate :: real

record tier_stats =
  ts_Tier :: string
  ts_TotalRequests :: int
  ts_AllowedRequests :: int
  ts_BlockedRequests :: int
  ts_ActiveClients :: int

record limiter_stats =
  st_totalRequests :: int
  st_allowedRequests :: int
  st_blockedRequests :: int
  st_topBlockedClients :: "string \<rightharpoonup> int"
  st_topAllowedClients :: "string \<rightharpoonup> int"
  st_endpointStats :: "string \<rightharpoonup> endpoint_stats"
  st_tierStats :: "string \<rightharpoonup> tier_stats"
  st_startTime :: time

record worker_stats =
  ws_WorkerID :: nat
  ws_ProcessedRequests :: int
  ws_AllowedRequests :: int
  ws_BlockedRequests :: int
  ws_TotalProcessTime :: duration

record limiter_config =
  cf_WorkerCount :: nat
  cf_RequestBufferSize :: nat
  cf_BucketTTL :: duration
  cf_DefaultRules :: "rate_limit_rule list"

record limiter =
  lm_config :: limiter_config
  lm_rules :: "rate_limit_rule list"
  lm_buckets :: "string \<rightharpoonup> client_bucket"
  lm_requestQueue :: "rate_limit_request list"
  lm_workers :: "worker_stats list"
  lm_stats :: limiter_stats
  lm_cancelled :: bool
  lm_isRunning :: bool
  lm_startTime :: time

datatype limiter_error =
  LimiterNotRunning | LimiterShuttingDown | RequestQueueFull | RateLimitCheckTimeout
| LimiterAlreadyRunning | ShutdownTimedOut

section \<open>Rules\<close>

definition endpointMatches :: "string \<Rightarrow> string \<Rightarrow> bool" where
  "endpointMatches pattern endpoint =
     (if CHR ''*'' \<in> set pattern \<and> length (strings_Split pattern CHR ''*'') = 2
      then strings_HasPrefix endpoint (strings_Split pattern CHR ''*'' ! 0) \<and>
           strings_HasSuffix endpoint (strings_Split pattern CHR ''*'' ! 1)
      else pattern = endpoint)"

definition ruleMatches :: "rate_limit_rule \<Rightarrow> rate_limit_request \<Rightarrow> bool" where
  "ruleMatches rule request =
     (if rl_UserTiers rule \<noteq> [] \<and> rq_UserTier request \<notin> set (rl_UserTiers rule) then False
      else if rl_Endpoints rule \<noteq> [] \<and>
              \<not> (\<exists>e \<in> set (rl_Endpoints rule). endpointMatches e (rq_Endpoint request)) then False
      else if rl_Methods rule \<noteq> [] \<and> rq_Method request \<notin> set (rl_Methods rule) then False
      else True)"

fun findApplicableRule :: "rate_limit_rule list \<Rightarrow> rate_limit_request \<Rightarrow> rate_limit_rule option" where
  "findApplicableRule [] request = None"
| "findApplicableRule (rule # rules) request =
     (if ruleMatches rule request then Some rule else findApplicableRule rules request)"

text \<open>
  \<open>slices.SortFunc\<close> by descending priority.  Go sorts up to twelve elements by insertion, which
  is stable like \<open>sort_key\<close>; for more, the order among equal priorities is Go's choice, and the
  properties below rest on the order by priority only.
\<close>

definition AddRule :: "rate_limit_rule \<Rightarrow> limiter \<Rightarrow> limiter" where
  "AddRule rule l = l\<lparr>lm_rules := sort_key (\<lambda>r. - rl_Priority r) (lm_rules l @ [rule])\<rparr>"

definition getDefaultRateLimitRules :: "rate_limit_rule list" where
  "getDefaultRateLimitRules =
    [\<lparr>rl_Name = ''free_tier_general'', rl_Limit = 100, rl_Window = 1 * Hour,
      rl_BurstLimit = 10, rl_BurstWindow = 1 * Minute,
      rl_UserTiers = [''free''], rl_Endpoints = [], rl_Methods = [], rl_Priority = 100\<rparr>,
     \<lparr>rl_Name = ''premium_tier_general'', rl_Limit = 1000, rl_Window = 1 * Hour,
      rl_BurstLimit = 50, rl_BurstWindow = 1 * Minute,
      rl_UserTiers = [''premium''], rl_Endpoints = [], rl_Methods = [], rl_Priority = 90\<rparr>,
     \<lparr>rl_Name = ''enterprise_tier_general'', rl_Limit = 10000, rl_Window = 1 * Hour,
      rl_BurstLimit = 200, rl_BurstWindow = 1 * Minute,
      rl_UserTiers = [''enterprise''], rl_Endpoints = [], rl_Methods = [], rl_Priority = 80\<rparr>,
     \<lparr>rl_Name = ''auth_endpoints_strict'', rl_Limit = 20, rl_Window = 1 * Hour,
      rl_BurstLimit = 5, rl_BurstWindow = 1 * Minute,
      rl_UserTiers = [], rl_Endpoints = [''/api/auth/login'', ''/api/auth/register''],
      rl_Methods = [], rl_Priority = 200\<rparr>,
     \<lparr>rl_Name = ''write_operations_limit'', rl_Limit = 500, rl_Window = 1 * Hour,
      rl_BurstLimit = 20, rl_BurstWindow = 1 * Minute,
      rl_UserTiers = [], rl_Endpoints = [], rl_Methods = [''POST'', ''PUT'', ''DELETE''],
      rl_Priority = 150\<rparr>]"

section \<open>Buckets\<close>

definition bucketKey :: "string \<Rightarrow> string \<Rightarrow> string" where
  "bucketKey clientID apiKey = clientID @ '':'' @ apiKey"

definition newBucket :: "string \<Rightarrow> string \<Rightarrow> string \<Rightarrow> time \<Rightarrow> client_bucket" where
  "newBucket clientID apiKey userTier now =
     \<lparr>bk_ClientID = clientID, bk_APIKey = apiKey, bk_UserTier = userTier,
      bk_RequestCount = 0, bk_BurstCount = 0,
      bk_WindowStart = now, bk_BurstStart = now, bk_LastRequest = now,
      bk_TotalRequests = 0, bk_BlockedRequests = 0, bk_AllowedRequests = 0\<rparr>"

definition getOrCreateBucket ::
  "string \<Rightarrow> string \<Rightarrow> string \<Rightarrow> time \<Rightarrow> (string \<rightharpoonup> client_bucket) \<Rightarrow> client_bucket \<times> (string \<rightharpoonup> client_bucket)" where
  "getOrCreateBucket clientID apiKey userTier now buckets =
     (case buckets (bucketKey clientID apiKey) of
        Some bucket \<Rightarrow> (bucket, buckets)
      | None \<Rightarrow> (let bucket = newBucket clientID apiKey userTier now
                in (bucket, buckets(bucketKey clientID apiKey \<mapsto> bucket))))"

definition checkRateLimit ::
  "time \<Rightarrow> client_bucket \<Rightarrow> rate_limit_rule \<Rightarrow> rate_limit_request \<Rightarrow> client_bucket \<times> rate_limit_result" where
  "checkRateLimit clock bucket0 rule request =
    (let now = (if rq_RequestTime request = 0 then clock else rq_RequestTime request);
         bucket1 = (if time_Sub now (bk_WindowStart bucket0) \<ge> rl_Window rule
                    then bucket0\<lparr>bk_RequestCount := 0, bk_WindowStart := now\<rparr> else bucket0);
         bucket = (if time_Sub now (bk_BurstStart bucket1) \<ge> rl_BurstWindow rule
                   then bucket1\<lparr>bk_BurstCount := 0, bk_BurstStart := now\<rparr> else bucket1)
     in if bk_BurstCount bucket \<ge> rl_BurstLimit rule then
          (bucket,
           \<lparr>rs_Allowed = False, rs_Remaining = 0,
            rs_ResetTime = bk_BurstStart bucket + rl_BurstWindow rule,
            rs_RetryAfter = time_Sub (bk_BurstStart bucket + rl_BurstWindow rule) now,
            rs_LimitRule = rl_Name rule @ ''_burst'',
            rs_WindowStart = bk_BurstStart bucket,
            rs_WindowEnd = bk_BurstStart bucket + rl_BurstWindow rule,
            rs_RequestCount = bk_BurstCount bucket, rs_BurstAvailable = 0\<rparr>)
        else if bk_RequestCount bucket \<ge> rl_Limit rule then
          (bucket,
           \<lparr>rs_Allowed = False, rs_Remaining = 0,
            rs_ResetTime = bk_WindowStart bucket + rl_Window rule,
            rs_RetryAfter = time_Sub (bk_WindowStart bucket + rl_Window rule) now,
            rs_LimitRule = rl_Name rule,
            rs_WindowStart = bk_WindowStart bucket,
            rs_WindowEnd = bk_WindowStart bucket + rl_Window rule,
            rs_RequestCount = bk_RequestCount bucket,
            rs_BurstAvailable = rl_BurstLimit rule - bk_BurstCount bucket\<rparr>)
        else
          (let b = bucket\<lparr>bk_RequestCount := bk_RequestCount bucket + 1,
                          bk_BurstCount := bk_BurstCount bucket + 1,
                          bk_LastRequest := now,
                          bk_TotalRequests := bk_TotalRequests bucket + 1,
                          bk_AllowedRequests := bk_AllowedRequests bucket + 1\<rparr>
           in (b,
               \<lparr>rs_Allowed = True, rs_Remaining = rl_Limit rule - bk_RequestCount b,
                rs_ResetTime = bk_WindowStart b + rl_Window rule, rs_RetryAfter = 0,
                rs_LimitRule = rl_Name rule,
                rs_WindowStart = bk_WindowStart b,
                rs_WindowEnd = bk_WindowStart b + rl_Window rule,
                rs_RequestCount = bk_RequestCount b,
                rs_BurstAvailable = rl_BurstLimit rule - bk_BurstCount b\<rparr>)))"

section \<open>Statistics\<close>

definition endpoint_entry :: "limiter_stats \<Rightarrow> string \<Rightarrow> endpoint_stats" where
  "endpoint_entry st e = (case st_endpointStats st e of Some s \<Rightarrow> s
     | None \<Rightarrow> \<lparr>es_Endpoint = e, es_TotalRequests = 0, es_AllowedRequests = 0,
                es_BlockedRequests = 0, es_BlockRate = 0\<rparr>)"

definition tier_entry :: "limiter_stats \<Rightarrow> string \<Rightarrow> tier_stats" where
  "tier_entry st t = (case st_tierStats st t of Some s \<Rightarrow> s
     | None \<Rightarrow> \<lparr>ts_Tier = t, ts_TotalRequests = 0, ts_AllowedRequests = 0,
                ts_BlockedRequests = 0, ts_ActiveClients = 0\<rparr>)"

definition updateAllowedStats :: "rate_limit_request \<Rightarrow> limiter_stats \<Rightarrow> limiter_stats" where
  "updateAllowedStats request st =
    (let es = endpoint_entry st (rq_Endpoint request);
         ts = tier_entry st (rq_UserTier request)
     in st\<lparr>st_allowedRequests := st_allowedRequests st + 1,
           st_topAllowedClients := map_incr (st_topAllowedClients st) (rq_ClientID request),
           st_endpointStats := (st_endpointStats st)(rq_Endpoint request \<mapsto>
             es\<lparr>es_TotalRequests := es_TotalRequests es + 1,
                es_AllowedRequests := es_AllowedRequests es + 1\<rparr>),
           st_tierStats := (st_tierStats st)(rq_UserTier request \<mapsto>
             ts\<lparr>ts_TotalRequests := ts_TotalRequests ts + 1,
                ts_AllowedRequests := ts_AllowedRequests ts + 1\<rparr>)\<rparr>)"

definition updateBlockedStats :: "rate_limit_request \<Rightarrow> limiter_stats \<Rightarrow> limiter_stats" where
  "updateBlockedStats request st =
    (let es0 = endpoint_entry st (rq_Endpoint request);
         es = es0\<lparr>es_TotalRequests := es_TotalRequests es0 + 1,
                  es_BlockedRequests := es_BlockedRequests es0 + 1\<rparr>;
         es' = (if es_TotalRequests es > 0
                then es\<lparr>es_BlockRate :=
                       real_of_int (es_BlockedRequests es) / real_of_int (es_TotalRequests es) * 100\<rparr>
                else es);
         ts = tier_entry st (rq_UserTier request)
     in st\<lparr>st_blockedRequests := st_blockedRequests st + 1,
           st_topBlockedClients := map_incr (st_topBlockedClients st) (rq_ClientID request),
           st_endpointStats := (st_endpointStats st)(rq_Endpoint request \<mapsto> es'),
           st_tierStats := (st_tierStats st)(rq_UserTier request \<mapsto>
             ts\<lparr>ts_TotalRequests := ts_TotalRequests ts + 1,
                ts_BlockedRequests := ts_BlockedRequests ts + 1\<rparr>)\<rparr>)"

definition updateProcessingTime :: "duration \<Rightarrow> worker_stats \<Rightarrow> worker_stats" where
  "updateProcessingTime d w = w\<lparr>ws_TotalProcessTime := ws_TotalProcessTime w + d\<rparr>"

text \<open>\<open>Snapshot\<close>'s average, guarded against division by zero (Go truncates towards zero).\<close>

definition averageProcessTime :: "worker_stats \<Rightarrow> duration" where
  "averageProcessTime w =
     (if ws_ProcessedRequests w > 0
      then sgn (ws_TotalProcessTime w) * (\<bar>ws_TotalProcessTime w\<bar> div ws_ProcessedRequests w)
      else 0)"

section \<open>The limiter\<close>

definition NewAPIRateLimiter :: "limiter_config \<Rightarrow> time \<Rightarrow> limiter" where
  "NewAPIRateLimiter config now =
     fold AddRule (cf_DefaultRules config)
       \<lparr>lm_config = config, lm_rules = [], lm_buckets = Map.empty, lm_requestQueue = [],
        lm_workers = map (\<lambda>i. \<lparr>ws_WorkerID = i, ws_ProcessedRequests = 0,
            ws_AllowedRequests = 0, ws_BlockedRequests = 0, ws_TotalProcessTime = 0\<rparr>)
          [0..<cf_WorkerCount config],
        lm_stats = \<lparr>st_totalRequests = 0, st_allowedRequests = 0, st_blockedRequests = 0,
            st_topBlockedClients = Map.empty, st_topAllowedClients = Map.empty,
            st_endpointStats = Map.empty, st_tierStats = Map.empty, st_startTime = now\<rparr>,
        lm_cancelled = False, lm_isRunning = False, lm_startTime = 0\<rparr>"

definition Start_limiter :: "time \<Rightarrow> limiter \<Rightarrow> limiter_error + limiter" where
  "Start_limiter now l =
     (if lm_isRunning l then Inl LimiterAlreadyRunning
      else Inr (l\<lparr>lm_isRunning := True, lm_startTime := now,
                  lm_stats := (lm_stats l)\<lparr>st_startTime := now\<rparr>\<rparr>))"

text \<open>The admission to the request queue (the first select of \<open>CheckRateLimit\<close>).\<close>

definition CheckRateLimit_submit :: "rate_limit_request \<Rightarrow> limiter \<Rightarrow> limiter_error + limiter" where
  "CheckRateLimit_submit request l =
     (if lm_cancelled l \<or> \<not> lm_isRunning l then Inl LimiterNotRunning
      else if length (lm_requestQueue l) < cf_RequestBufferSize (lm_config l)
      then Inr (l\<lparr>lm_requestQueue := lm_requestQueue l @ [request],
                  lm_stats := (lm_stats l)\<lparr>st_totalRequests := st_totalRequests (lm_stats l) + 1\<rparr>\<rparr>)
      else Inl RequestQueueFull)"

definition processRateLimitCheck ::
  "nat \<Rightarrow> time \<Rightarrow> duration \<Rightarrow> rate_limit_request \<Rightarrow> limiter \<Rightarrow> limiter \<times> rate_limit_result" where
  "processRateLimitCheck i now elapsed request l =
    (let w = lm_workers l ! i;
         w1 = w\<lparr>ws_ProcessedRequests := ws_ProcessedRequests w + 1\<rparr>
     in case findApplicableRule (lm_rules l) request of
          None \<Rightarrow>
            (l\<lparr>lm_workers := (lm_workers l)[i := updateProcessingTime elapsed
                 (w1\<lparr>ws_AllowedRequests := ws_AllowedRequests w1 + 1\<rparr>)]\<rparr>,
             \<lparr>rs_Allowed = True, rs_Remaining = max_int64, rs_ResetTime = now + 24 * Hour,
              rs_RetryAfter = 0, rs_LimitRule = ''no_rule'', rs_WindowStart = now,
              rs_WindowEnd = now + 24 * Hour, rs_RequestCount = 0, rs_BurstAvailable = 0\<rparr>)
        | Some rule \<Rightarrow>
            (let (bucket, buckets) = getOrCreateBucket (rq_ClientID request) (rq_APIKey request)
                                       (rq_UserTier request) now (lm_buckets l);
                 (bucket', result) = checkRateLimit now bucket rule request;
                 w2 = (if rs_Allowed result
                       then w1\<lparr>ws_AllowedRequests := ws_AllowedRequests w1 + 1\<rparr>
                       else w1\<lparr>ws_BlockedRequests := ws_BlockedRequests w1 + 1\<rparr>);
                 st = (if rs_Allowed result then updateAllowedStats request (lm_stats l)
                       else updateBlockedStats request (lm_stats l))
             in (l\<lparr>lm_buckets := buckets(bucketKey (rq_ClientID request) (rq_APIKey request) \<mapsto> bucket'),
                   lm_stats := st,
                   lm_workers := (lm_workers l)[i := updateProcessingTime elapsed w2]\<rparr>,
                 result)))"

definition cleanupBuckets :: "time \<Rightarrow> limiter \<Rightarrow> limiter" where
  "cleanupBuckets now l =
     l\<lparr>lm_buckets := map_delete_if
         (\<lambda>b. bk_LastRequest b < now + - cf_BucketTTL (lm_config l)) (lm_buckets l)\<rparr>"

text \<open>\<open>Shutdown\<close>; \<open>stopped\<close> says whether the goroutines end within the two waits.\<close>

definition Shutdown_limiter :: "bool \<Rightarrow> limiter \<Rightarrow> limiter_error option \<times> limiter" where
  "Shutdown_limiter stopped l =
     (if \<not> lm_isRunning l then (Some LimiterNotRunning, l)
      else (let l' = l\<lparr>lm_isRunning := False, lm_cancelled := True\<rparr>
            in (if stopped then None else Some ShutdownTimedOut, l')))"

inductive limiter_step :: "limiter \<Rightarrow> limiter \<Rightarrow> bool" where
  start: "Start_limiter now l = Inr l' \<Longrightarrow> limiter_step l l'"
| submit: "CheckRateLimit_submit request l = Inr l' \<Longrightarrow> limiter_step l l'"
| work: "lm_requestQueue l = request # rest \<Longrightarrow> lm_isRunning l \<or> lm_cancelled l \<Longrightarrow>
     i < length (lm_workers l) \<Longrightarrow>
     processRateLimitCheck i now elapsed request (l\<lparr>lm_requestQueue := rest\<rparr>) = (l', result) \<Longrightarrow>
     limiter_step l l'"
| cleanup: "limiter_step l (cleanupBuckets now l)"
| addRule: "limiter_step l (AddRule rule l)"
| shutdown: "Shutdown_limiter stopped l = (e, l') \<Longrightarrow> limiter_step l l'"

inductive limiter_reachable :: "limiter_config \<Rightarrow> limiter \<Rightarrow> bool" for config where
  init: "limiter_reachable config (NewAPIRateLimiter config now)"
| step: "limiter_reachable config l \<Longrightarrow> limiter_step l l' \<Longrightarrow> limiter_reachable config l'"

section \<open>The HTTP middleware\<close>

text \<open>
  What the middleware reads of an \<open>http.Request\<close>; \<open>http_Header\<close> and \<open>http_Query\<close> are the
  library's \<open>Get\<close>, which is the empty string for a missing key.
\<close>

record http_request =
  http_Header :: "string \<Rightarrow> string"
  http_Query :: "string \<Rightarrow> string"
  http_Path :: string
  http_Method :: string
  http_RemoteAddr :: string
  http_UserAgent :: string

definition extractClientIP :: "http_request \<Rightarrow> string" where
  "extractClientIP r =
     (if http_Header r ''X-Forwarded-For'' \<noteq> ''''
      then strings_TrimSpace (hd (strings_Split (http_Header r ''X-Forwarded-For'') CHR '',''))
      else if http_Header r ''X-Real-IP'' \<noteq> '''' then http_Header r ''X-Real-IP''
      else if fst (strings_Cut (http_RemoteAddr r) CHR '':'') \<noteq> ''''
      then fst (strings_Cut (http_RemoteAddr r) CHR '':'')
      else ''unknown'')"

definition extractClientID :: "http_request \<Rightarrow> string" where
  "extractClientID r =
     (let auth = http_Header r ''Authorization''
      in if auth \<noteq> '''' then
           (case strings_Cut auth CHR '' '' of
              (_, token, ok) \<Rightarrow> if ok then take (min (length token) 10) token else extractClientIP r)
         else extractClientIP r)"

definition extractAPIKey :: "http_request \<Rightarrow> string" where
  "extractAPIKey r =
     (if http_Header r ''X-API-Key'' \<noteq> '''' then http_Header r ''X-API-Key''
      else if http_Query r ''api_key'' \<noteq> '''' then http_Query r ''api_key''
      else ''default'')"

definition extractUserTier :: "http_request \<Rightarrow> string" where
  "extractUserTier r =
     (if http_Header r ''X-User-Tier'' \<noteq> '''' then http_Header r ''X-User-Tier''
      else if strings_HasPrefix (extractAPIKey r) ''ent_'' then ''enterprise''
      else if strings_HasPrefix (extractAPIKey r) ''pre_'' then ''premium''
      else ''free'')"

definition middleware_request :: "http_request \<Rightarrow> time \<Rightarrow> rate_limit_request" where
  "middleware_request r now =
     \<lparr>rq_ClientID = extractClientID r, rq_APIKey = extractAPIKey r, rq_Endpoint = http_Path r,
      rq_Method = http_Method r, rq_UserTier = extractUserTier r,
      rq_ClientIP = extractClientIP r, rq_UserAgent = http_UserAgent r, rq_RequestTime = now\<rparr>"

text \<open>The headers the middleware sets, before its text formatting.\<close>

record rate_headers =
  hd_Limit :: int
  hd_Remaining :: int
  hd_Reset :: int
  hd_Rule :: string

datatype middleware_response =
  ServiceError500
| TooManyRequests429 rate_headers duration
| ForwardToNext rate_headers

definition HTTPMiddleware :: "limiter_error + rate_limit_result \<Rightarrow> middleware_response" where
  "HTTPMiddleware res =
     (case res of
        Inl _ \<Rightarrow> ServiceError500
      | Inr result \<Rightarrow>
          (let h = \<lparr>hd_Limit = rs_RequestCount result + rs_Remaining result,
                    hd_Remaining = rs_Remaining result, hd_Reset = Unix (rs_ResetTime result),
                    hd_Rule = rs_LimitRule result\<rparr>
           in if \<not> rs_Allowed result then TooManyRequests429 h (rs_RetryAfter result)
              else ForwardToNext h))"

end
