(* ===== verification/RateLimiterProps.thy ===== *)
theory RateLimiterProps
  imports RateLimiter
begin

text \<open>
  What the rate limiter guarantees: the fixed-window bounds (by interpreting the interface of
  \<open>FixedWindow\<close> on \<open>checkRateLimit\<close>, once per window), the meaning of \<open>RetryAfter\<close>, the
  safety of the bucket clean-up, the choice of rules, and the accounting invariant of every
  reachable limiter.
\<close>

section \<open>One check, field by field\<close>

definition rule_ok :: "rate_limit_rule \<Rightarrow> bool" where
  "rule_ok rule \<longleftrightarrow> 0 < rl_Window rule \<and> is_duration (rl_Window rule) \<and>
     0 < rl_BurstWindow rule \<and> is_duration (rl_BurstWindow rule) \<and>
     0 \<le> rl_Limit rule \<and> 0 \<le> rl_BurstLimit rule"

definition check_time :: "time \<Rightarrow> rate_limit_request \<Rightarrow> time" where
  "check_time clock request = (if rq_RequestTime request = 0 then clock else rq_RequestTime request)"

definition eff_requests :: "rate_limit_rule \<Rightarrow> client_bucket \<Rightarrow> time \<Rightarrow> int" where
  "eff_requests rule b t = (if bk_WindowStart b + rl_Window rule \<le> t then 0 else bk_RequestCount b)"

definition eff_burst :: "rate_limit_rule \<Rightarrow> client_bucket \<Rightarrow> time \<Rightarrow> int" where
  "eff_burst rule b t = (if bk_BurstStart b + rl_BurstWindow rule \<le> t then 0 else bk_BurstCount b)"

definition admits :: "rate_limit_rule \<Rightarrow> client_bucket \<Rightarrow> time \<Rightarrow> bool" where
  "admits rule b t \<longleftrightarrow> eff_burst rule b t < rl_BurstLimit rule \<and> eff_requests rule b t < rl_Limit rule"

lemmas eff_defs = eff_requests_def eff_burst_def admits_def check_time_def

lemma rule_ok_cmp:
  "rule_ok rule \<Longrightarrow> rl_Window rule \<le> time_Sub t u \<longleftrightarrow> u + rl_Window rule \<le> t"
  "rule_ok rule \<Longrightarrow> rl_BurstWindow rule \<le> time_Sub t u \<longleftrightarrow> u + rl_BurstWindow rule \<le> t"
  by (simp_all add: rule_ok_def time_Sub_ge_iff)

definition rolled :: "rate_limit_rule \<Rightarrow> client_bucket \<Rightarrow> time \<Rightarrow> client_bucket" where
  "rolled rule b t = b\<lparr>bk_RequestCount := eff_requests rule b t, bk_BurstCount := eff_burst rule b t,
     bk_WindowStart := (if bk_WindowStart b + rl_Window rule \<le> t then t else bk_WindowStart b),
     bk_BurstStart := (if bk_BurstStart b + rl_BurstWindow rule \<le> t then t else bk_BurstStart b)\<rparr>"

lemma rolled_eq:
  assumes "rule_ok rule"
  shows "(let b1 = (if time_Sub t (bk_WindowStart b) \<ge> rl_Window rule
               then b\<lparr>bk_RequestCount := 0, bk_WindowStart := t\<rparr> else b)
          in if time_Sub t (bk_BurstStart b1) \<ge> rl_BurstWindow rule
             then b1\<lparr>bk_BurstCount := 0, bk_BurstStart := t\<rparr> else b1) = rolled rule b t"
  using assms by (simp add: rule_ok_cmp rolled_def eff_requests_def eff_burst_def Let_def)

lemma rolled_sel [simp]:
  "bk_BurstCount (rolled rule b t) = eff_burst rule b t"
  "bk_RequestCount (rolled rule b t) = eff_requests rule b t"
  by (simp_all add: rolled_def)

text \<open>The code of one check once the two window roll-overs are settled.\<close>

lemma check_rolled:
  assumes "rule_ok rule" and "t = check_time clock rq"
  shows "checkRateLimit clock b rule rq =
    (let c = rolled rule b t
     in if \<not> eff_burst rule b t < rl_BurstLimit rule then
          (c, \<lparr>rs_Allowed = False, rs_Remaining = 0,
               rs_ResetTime = bk_BurstStart c + rl_BurstWindow rule,
               rs_RetryAfter = time_Sub (bk_BurstStart c + rl_BurstWindow rule) t,
               rs_LimitRule = rl_Name rule @ ''_burst'', rs_WindowStart = bk_BurstStart c,
               rs_WindowEnd = bk_BurstStart c + rl_BurstWindow rule,
               rs_RequestCount = eff_burst rule b t, rs_BurstAvailable = 0\<rparr>)
        else if \<not> eff_requests rule b t < rl_Limit rule then
          (c, \<lparr>rs_Allowed = False, rs_Remaining = 0,
               rs_ResetTime = bk_WindowStart c + rl_Window rule,
               rs_RetryAfter = time_Sub (bk_WindowStart c + rl_Window rule) t,
               rs_LimitRule = rl_Name rule, rs_WindowStart = bk_WindowStart c,
               rs_WindowEnd = bk_WindowStart c + rl_Window rule,
               rs_RequestCount = eff_requests rule b t,
               rs_BurstAvailable = rl_BurstLimit rule - eff_burst rule b t\<rparr>)
        else
          (c\<lparr>bk_RequestCount := eff_requests rule b t + 1, bk_BurstCount := eff_burst rule b t + 1,
             bk_LastRequest := t, bk_TotalRequests := bk_TotalRequests c + 1,
             bk_AllowedRequests := bk_AllowedRequests c + 1\<rparr>,
           \<lparr>rs_Allowed = True, rs_Remaining = rl_Limit rule - (eff_requests rule b t + 1),
               rs_ResetTime = bk_WindowStart c + rl_Window rule, rs_RetryAfter = 0,
               rs_LimitRule = rl_Name rule, rs_WindowStart = bk_WindowStart c,
               rs_WindowEnd = bk_WindowStart c + rl_Window rule,
               rs_RequestCount = eff_requests rule b t + 1,
               rs_BurstAvailable = rl_BurstLimit rule - (eff_burst rule b t + 1)\<rparr>))"
  unfolding checkRateLimit_def check_time_def [symmetric] assms(2) [symmetric]
  using rolled_eq [OF assms(1), of t b]
  by (simp add: Let_def not_less)

lemma check_Allowed:
  "rule_ok rule \<Longrightarrow>
   rs_Allowed (snd (checkRateLimit clock b rule rq)) = admits rule b (check_time clock rq)"
  by (simp add: check_rolled [OF _ refl] admits_def Let_def)

lemma check_bucket:
  assumes "rule_ok rule" and "t = check_time clock rq"
  shows "fst (checkRateLimit clock b rule rq) =
    (let ok = admits rule b t; d = (if ok then 1 else 0)
     in b\<lparr>bk_RequestCount := eff_requests rule b t + d,
          bk_BurstCount := eff_burst rule b t + d,
          bk_WindowStart := (if bk_WindowStart b + rl_Window rule \<le> t then t else bk_WindowStart b),
          bk_BurstStart := (if bk_BurstStart b + rl_BurstWindow rule \<le> t then t else bk_BurstStart b),
          bk_LastRequest := (if ok then t else bk_LastRequest b),
          bk_TotalRequests := bk_TotalRequests b + d,
          bk_AllowedRequests := bk_AllowedRequests b + d\<rparr>)"
  by (simp add: check_rolled [OF assms] admits_def Let_def rolled_def)

section \<open>The two windows as fixed-window counters\<close>

text \<open>The decision on a request that arrives at time \<open>t\<close>.\<close>

definition bucket_decide ::
  "rate_limit_rule \<Rightarrow> rate_limit_request \<Rightarrow> client_bucket \<Rightarrow> time \<Rightarrow> client_bucket \<times> bool" where
  "bucket_decide rule rq b t =
     (case checkRateLimit t b rule (rq\<lparr>rq_RequestTime := t\<rparr>) of (b', r) \<Rightarrow> (b', rs_Allowed r))"

lemma bucket_decide_fst:
  "fst (bucket_decide rule rq b t) = fst (checkRateLimit t b rule (rq\<lparr>rq_RequestTime := t\<rparr>))"
  by (simp add: bucket_decide_def split: prod.splits)

lemma bucket_decide_snd:
  "rule_ok rule \<Longrightarrow> snd (bucket_decide rule rq b t) = admits rule b t"
  using check_Allowed [of rule t b "rq\<lparr>rq_RequestTime := t\<rparr>"]
  by (cases "checkRateLimit t b rule (rq\<lparr>rq_RequestTime := t\<rparr>)")
    (simp add: bucket_decide_def check_time_def split: if_splits)

lemma bucket_decide_bucket:
  assumes "rule_ok rule"
  shows "fst (bucket_decide rule rq b t) =
    (let ok = admits rule b t; d = (if ok then 1 else 0)
     in b\<lparr>bk_RequestCount := eff_requests rule b t + d,
          bk_BurstCount := eff_burst rule b t + d,
          bk_WindowStart := (if bk_WindowStart b + rl_Window rule \<le> t then t else bk_WindowStart b),
          bk_BurstStart := (if bk_BurstStart b + rl_BurstWindow rule \<le> t then t else bk_BurstStart b),
          bk_LastRequest := (if ok then t else bk_LastRequest b),
          bk_TotalRequests := bk_TotalRequests b + d,
          bk_AllowedRequests := bk_AllowedRequests b + d\<rparr>)"
  using check_bucket [OF assms, of t t "rq\<lparr>rq_RequestTime := t\<rparr>" b]
  by (simp add: bucket_decide_fst check_time_def)

lemma bucket_decide_fields:
  assumes "rule_ok rule"
  shows "bk_WindowStart (fst (bucket_decide rule rq b t)) =
           (if bk_WindowStart b + rl_Window rule \<le> t then t else bk_WindowStart b)"
    and "bk_BurstStart (fst (bucket_decide rule rq b t)) =
           (if bk_BurstStart b + rl_BurstWindow rule \<le> t then t else bk_BurstStart b)"
    and "bk_RequestCount (fst (bucket_decide rule rq b t)) =
           eff_requests rule b t + (if admits rule b t then 1 else 0)"
    and "bk_BurstCount (fst (bucket_decide rule rq b t)) =
           eff_burst rule b t + (if admits rule b t then 1 else 0)"
    and "bk_LastRequest (fst (bucket_decide rule rq b t)) =
           (if admits rule b t then t else bk_LastRequest b)"
  by (simp_all add: bucket_decide_bucket [OF assms] Let_def)

lemma eff_requests_cases:
  "bk_WindowStart b + rl_Window rule \<le> t \<Longrightarrow> eff_requests rule b t = 0"
  "t < bk_WindowStart b + rl_Window rule \<Longrightarrow> eff_requests rule b t = bk_RequestCount b"
  by (simp_all add: eff_requests_def)

lemma eff_burst_cases:
  "bk_BurstStart b + rl_BurstWindow rule \<le> t \<Longrightarrow> eff_burst rule b t = 0"
  "t < bk_BurstStart b + rl_BurstWindow rule \<Longrightarrow> eff_burst rule b t = bk_BurstCount b"
  by (simp_all add: eff_burst_def)

interpretation request_window: fixed_window rule_ok "\<lambda>rule. bucket_decide rule rq"
    bk_WindowStart bk_RequestCount rl_Window rl_Limit for rq
  by unfold_locales
    (simp_all add: bucket_decide_fields bucket_decide_snd eff_requests_cases admits_def rule_ok_def)

interpretation burst_window: fixed_window rule_ok "\<lambda>rule. bucket_decide rule rq"
    bk_BurstStart bk_BurstCount rl_BurstWindow rl_BurstLimit for rq
  by unfold_locales
    (simp_all add: bucket_decide_fields bucket_decide_snd eff_burst_cases admits_def rule_ok_def)

definition counts_ok :: "rate_limit_rule \<Rightarrow> client_bucket \<Rightarrow> bool" where
  "counts_ok rule b \<longleftrightarrow> 0 \<le> bk_RequestCount b \<and> bk_RequestCount b \<le> rl_Limit rule \<and>
     0 \<le> bk_BurstCount b \<and> bk_BurstCount b \<le> rl_BurstLimit rule"

text \<open>
  C30. However requests of one client arrive under one rule, any interval of one window's
  length admits at most twice the rule's limit, and any interval of one burst window's length
  at most twice its burst limit.
\<close>

theorem window_bounds:
  assumes "rule_ok rule" and "counts_ok rule b" and "nondecreasing t0 ts"
  shows "admitted lo (lo + rl_Window rule) (decisions (bucket_decide rule rq) b ts) \<le> 2 * rl_Limit rule
    \<and> admitted lo (lo + rl_BurstWindow rule) (decisions (bucket_decide rule rq) b ts)
        \<le> 2 * rl_BurstLimit rule"
  using assms request_window.admitted_any_interval [of rule b t0 ts lo rq]
    burst_window.admitted_any_interval [of rule b t0 ts lo rq]
  by (simp add: counts_ok_def)

text \<open>A rule of two requests per ten nanoseconds, for the concrete instances.\<close>

definition example_rule :: rate_limit_rule where
  "example_rule = \<lparr>rl_Name = ''r'', rl_Limit = 2, rl_Window = 10, rl_BurstLimit = 2,
     rl_BurstWindow = 10, rl_UserTiers = [], rl_Endpoints = [], rl_Methods = [], rl_Priority = 1\<rparr>"

definition example_request :: rate_limit_request where
  "example_request = \<lparr>rq_ClientID = ''c'', rq_APIKey = ''k'', rq_Endpoint = ''/x'', rq_Method = ''GET'',
     rq_UserTier = ''free'', rq_ClientIP = ''1'', rq_UserAgent = ''u'', rq_RequestTime = 0\<rparr>"

text \<open>
  The instance reaches the bound: with requests at 8, 9, 10, 11 and 12 the interval from 8 to
  18 admits four requests, twice the limit.
\<close>

lemma example_rule_ok: "rule_ok example_rule"
  by (simp add: rule_ok_def example_rule_def is_duration_def)

lemma window_bounds_witness:
  "admitted 8 (8 + rl_Window example_rule)
     (decisions (bucket_decide example_rule example_request) (newBucket ''c'' ''k'' ''free'' 0)
        [8, 9, 10, 11, 12]) = 2 * rl_Limit example_rule
   \<and> admitted 8 (8 + rl_Window example_rule)
     (decisions (bucket_decide example_rule example_request) (newBucket ''c'' ''k'' ''free'' 0)
        [8, 9, 10, 11, 12]) \<le> 2 * rl_Limit example_rule"
proof -
  have "counts_ok example_rule (newBucket ''c'' ''k'' ''free'' 0)"
    by (simp add: counts_ok_def newBucket_def example_rule_def)
  moreover have "nondecreasing 8 [8, 9, 10, 11, 12]" by simp
  moreover have "admitted 8 (8 + rl_Window example_rule)
     (decisions (bucket_decide example_rule example_request) (newBucket ''c'' ''k'' ''free'' 0)
        [8, 9, 10, 11, 12]) = 2 * rl_Limit example_rule"
    by code_simp
  ultimately show ?thesis
    using window_bounds [OF example_rule_ok, of _ 8 "[8, 9, 10, 11, 12]" 8 example_request] by blast
qed

section \<open>The meaning of a rejection\<close>

lemma rejected_retry:
  assumes ok: "rule_ok rule"
    and start: "bk_WindowStart b \<le> t" "bk_BurstStart b \<le> t"
    and chk: "checkRateLimit t b rule (rq\<lparr>rq_RequestTime := t\<rparr>) = (b', r)"
    and rej: "\<not> rs_Allowed r"
  shows "bk_WindowStart b' \<le> t \<and> bk_BurstStart b' \<le> t \<and>
    (rs_RetryAfter r = bk_BurstStart b' + rl_BurstWindow rule - t \<and>
       rl_BurstLimit rule \<le> bk_BurstCount b' \<and> t < bk_BurstStart b' + rl_BurstWindow rule \<or>
     rs_RetryAfter r = bk_WindowStart b' + rl_Window rule - t \<and>
       rl_Limit rule \<le> bk_RequestCount b' \<and> t < bk_WindowStart b' + rl_Window rule)"
proof -
  have t: "t = check_time t (rq\<lparr>rq_RequestTime := t\<rparr>)" by (simp add: check_time_def)
  have pos: "0 < rl_Window rule" "0 < rl_BurstWindow rule"
    and dur: "rl_Window rule \<le> max_int64" "rl_BurstWindow rule \<le> max_int64"
    using ok by (simp_all add: rule_ok_def is_duration_def)
  have b': "b' = rolled rule b t" and r: "rs_RetryAfter r =
      (if \<not> eff_burst rule b t < rl_BurstLimit rule
       then time_Sub (bk_BurstStart b' + rl_BurstWindow rule) t
       else time_Sub (bk_WindowStart b' + rl_Window rule) t)"
    and no: "\<not> admits rule b t"
    using chk rej check_Allowed [OF ok, of t b "rq\<lparr>rq_RequestTime := t\<rparr>"] t
    by (auto simp: check_rolled [OF ok t] Let_def admits_def split: if_splits)
  have st: "bk_WindowStart b' \<le> t" "bk_BurstStart b' \<le> t"
    "t < bk_BurstStart b' + rl_BurstWindow rule" "t < bk_WindowStart b' + rl_Window rule"
    using start pos by (simp_all add: b' rolled_def)
  then have sub: "time_Sub (bk_BurstStart b' + rl_BurstWindow rule) t = bk_BurstStart b' + rl_BurstWindow rule - t"
    "time_Sub (bk_WindowStart b' + rl_Window rule) t = bk_WindowStart b' + rl_Window rule - t"
    using dur by (simp_all add: time_Sub_exact)
  show ?thesis
    using no r st sub by (auto simp: admits_def b' not_less)
qed

text \<open>
  A rejected request's \<open>RetryAfter\<close> is exact: until it has passed, every further request
  on the bucket the rejection leaves behind is rejected too, and once both windows have passed
  it is admitted.
\<close>

theorem retry_after_exact:
  assumes "rule_ok rule" and "0 < rl_Limit rule" and "0 < rl_BurstLimit rule"
    and "bk_WindowStart b \<le> t" and "bk_BurstStart b \<le> t"
    and "checkRateLimit t b rule (rq\<lparr>rq_RequestTime := t\<rparr>) = (b', r)" and "\<not> rs_Allowed r"
  shows "0 < rs_RetryAfter r \<and>
    (\<forall>t'. t \<le> t' \<and> t' < t + rs_RetryAfter r \<longrightarrow> \<not> snd (bucket_decide rule rq' b' t')) \<and>
    (\<forall>t'. t + max (rl_Window rule) (rl_BurstWindow rule) \<le> t' \<longrightarrow> snd (bucket_decide rule rq' b' t'))"
  using rejected_retry [OF assms(1,4-7)] assms(1-3)
  by (auto simp: bucket_decide_snd admits_def eff_requests_def eff_burst_def)

definition full_bucket :: client_bucket where
  "full_bucket = (newBucket ''c'' ''k'' ''free'' 5)\<lparr>bk_RequestCount := 2, bk_BurstCount := 1\<rparr>"

lemma retry_after_exact_witness:
  "snd (bucket_decide example_rule example_request full_bucket 9) = False \<and>
   rs_RetryAfter (snd (checkRateLimit 9 full_bucket example_rule
     (example_request\<lparr>rq_RequestTime := 9\<rparr>))) = 6 \<and>
   0 < rs_RetryAfter (snd (checkRateLimit 9 full_bucket example_rule
     (example_request\<lparr>rq_RequestTime := 9\<rparr>)))"
proof -
  define res where "res = checkRateLimit 9 full_bucket example_rule (example_request\<lparr>rq_RequestTime := 9\<rparr>)"
  have "\<not> rs_Allowed (snd res)" unfolding res_def by code_simp
  moreover have "0 < rl_Limit example_rule" "0 < rl_BurstLimit example_rule"
    "bk_WindowStart full_bucket \<le> 9" "bk_BurstStart full_bucket \<le> 9"
    by (simp_all add: example_rule_def full_bucket_def newBucket_def)
  ultimately have "0 < rs_RetryAfter (snd res)"
    using retry_after_exact [OF example_rule_ok, of full_bucket 9 example_request "fst res" "snd res"]
    by (simp add: res_def)
  moreover have "rs_RetryAfter (snd res) = 6" unfolding res_def by code_simp
  moreover have "snd (bucket_decide example_rule example_request full_bucket 9) = False"
    by code_simp
  ultimately show ?thesis by (simp add: res_def)
qed

section \<open>Cleaning up idle buckets\<close>

fun run_bucket ::
  "rate_limit_rule \<Rightarrow> rate_limit_request \<Rightarrow> client_bucket \<Rightarrow> time list \<Rightarrow> client_bucket" where
  "run_bucket rule rq b [] = b"
| "run_bucket rule rq b (t # ts) = run_bucket rule rq (fst (bucket_decide rule rq b t)) ts"

text \<open>A counted request is never newer than the last admitted one.\<close>

definition idle_inv :: "client_bucket \<Rightarrow> time \<Rightarrow> bool" where
  "idle_inv b t \<longleftrightarrow> bk_WindowStart b \<le> t \<and> bk_BurstStart b \<le> t \<and>
     (bk_RequestCount b = 0 \<or> bk_WindowStart b \<le> bk_LastRequest b) \<and>
     (bk_BurstCount b = 0 \<or> bk_BurstStart b \<le> bk_LastRequest b)"

lemma idle_inv_decide:
  "rule_ok rule \<Longrightarrow> idle_inv b t0 \<Longrightarrow> t0 \<le> t \<Longrightarrow> idle_inv (fst (bucket_decide rule rq b t)) t"
  by (auto simp: idle_inv_def bucket_decide_fields eff_requests_def eff_burst_def)

lemma idle_inv_run:
  "rule_ok rule \<Longrightarrow> idle_inv b t0 \<Longrightarrow> nondecreasing t0 ts \<Longrightarrow> \<exists>t. idle_inv (run_bucket rule rq b ts) t"
  by (induction ts arbitrary: b t0) (auto intro: idle_inv_decide)

lemma idle_inv_new: "idle_inv (newBucket c k u t0) t0"
  by (simp add: idle_inv_def newBucket_def)

lemma idle_inv_expired:
  assumes "idle_inv b t0" and "bk_LastRequest b < now - ttl"
    and "rl_Window rule \<le> ttl" "rl_BurstWindow rule \<le> ttl" and "now \<le> t"
  shows "eff_requests rule b t = 0 \<and> eff_burst rule b t = 0"
  using assms by (auto simp: idle_inv_def eff_requests_def eff_burst_def)

text \<open>
  Dropping an idle bucket never changes an answer, provided the time to live is at least
  both windows: whatever a client did before, a bucket that the clean-up at \<open>now\<close> removes gives
  any later request the same decision, remainder and burst allowance as the fresh bucket that
  replaces it.
\<close>

theorem cleanup_transparent:
  assumes "rule_ok rule" and "rl_Window rule \<le> cf_BucketTTL (lm_config l)"
    and "rl_BurstWindow rule \<le> cf_BucketTTL (lm_config l)"
    and "nondecreasing t0 ts" and "b = run_bucket rule rq (newBucket c k u t0) ts"
    and "lm_buckets l key = Some b" and "lm_buckets (cleanupBuckets now l) key = None"
    and "now \<le> t"
  shows "snd (bucket_decide rule rq' b t) = snd (bucket_decide rule rq' (newBucket c k u created) t) \<and>
    bk_RequestCount (fst (bucket_decide rule rq' b t)) =
      bk_RequestCount (fst (bucket_decide rule rq' (newBucket c k u created) t)) \<and>
    bk_BurstCount (fst (bucket_decide rule rq' b t)) =
      bk_BurstCount (fst (bucket_decide rule rq' (newBucket c k u created) t))"
proof -
  obtain t1 where "idle_inv b t1"
    using idle_inv_run [OF assms(1) idle_inv_new assms(4)] assms(5) by blast
  moreover have "bk_LastRequest b < now - cf_BucketTTL (lm_config l)"
    using assms(6,7) by (simp add: cleanupBuckets_def map_delete_if_def split: if_splits)
  ultimately have "eff_requests rule b t = 0 \<and> eff_burst rule b t = 0"
    using assms(2,3,8) by (rule idle_inv_expired)
  moreover have "eff_requests rule (newBucket c k u created) t = 0"
    "eff_burst rule (newBucket c k u created) t = 0"
    by (simp_all add: eff_requests_def eff_burst_def newBucket_def)
  ultimately show ?thesis
    using assms(1) by (simp add: bucket_decide_fields bucket_decide_snd admits_def)
qed

definition example_config :: limiter_config where
  "example_config = \<lparr>cf_WorkerCount = 2, cf_RequestBufferSize = 1, cf_BucketTTL = 20,
     cf_DefaultRules = [example_rule]\<rparr>"

definition idle_limiter :: limiter where
  "idle_limiter = (NewAPIRateLimiter example_config 0)\<lparr>lm_buckets := [''c:k'' \<mapsto>
     run_bucket example_rule example_request (newBucket ''c'' ''k'' ''free'' 0) [1, 2]]\<rparr>"

lemma cleanup_transparent_witness:
  "snd (bucket_decide example_rule example_request
      (run_bucket example_rule example_request (newBucket ''c'' ''k'' ''free'' 0) [1, 2]) 30) =
   snd (bucket_decide example_rule example_request (newBucket ''c'' ''k'' ''free'' 29) 30)"
proof -
  let ?b = "run_bucket example_rule example_request (newBucket ''c'' ''k'' ''free'' 0) [1, 2]"
  have cfg: "lm_config idle_limiter = example_config" unfolding idle_limiter_def
    by (simp add: NewAPIRateLimiter_def example_config_def AddRule_def)
  have "bk_LastRequest ?b = 2" by code_simp
  then have "lm_buckets (cleanupBuckets 25 idle_limiter) ''c:k'' = None"
    by (simp add: cleanupBuckets_def cfg map_delete_if_def example_config_def, simp add: idle_limiter_def)
  moreover have "lm_buckets idle_limiter ''c:k'' = Some ?b" by (simp add: idle_limiter_def)
  moreover have "rl_Window example_rule \<le> cf_BucketTTL (lm_config idle_limiter)"
    "rl_BurstWindow example_rule \<le> cf_BucketTTL (lm_config idle_limiter)"
    "nondecreasing 0 [1, 2]" "(25::int) \<le> 30"
    by (simp_all add: cfg example_config_def example_rule_def)
  ultimately show ?thesis
    using cleanup_transparent [OF example_rule_ok, of idle_limiter 0 "[1, 2]" ?b example_request
        "''c''" "''k''" "''free''" "''c:k''" 25 30 example_request 29] by blast
qed

section \<open>The choice of the rule\<close>

definition rules_sorted :: "rate_limit_rule list \<Rightarrow> bool" where
  "rules_sorted rules \<longleftrightarrow> sorted (map (\<lambda>r. - rl_Priority r) rules)"

lemma rules_sorted_Nil: "rules_sorted []"
  by (simp add: rules_sorted_def)

lemma rules_sorted_AddRule: "rules_sorted (lm_rules (AddRule rule l))"
  by (simp add: rules_sorted_def AddRule_def)

lemma findApplicableRule_None:
  "findApplicableRule rules rq = None \<longleftrightarrow> (\<forall>r \<in> set rules. \<not> ruleMatches r rq)"
  by (induction rules) auto

lemma findApplicableRule_Some:
  "rules_sorted rules \<Longrightarrow> findApplicableRule rules rq = Some r \<Longrightarrow>
   r \<in> set rules \<and> ruleMatches r rq \<and>
   (\<forall>r' \<in> set rules. ruleMatches r' rq \<longrightarrow> rl_Priority r' \<le> rl_Priority r)"
  by (induction rules) (auto simp: rules_sorted_def split: if_splits)

section \<open>The accounting invariant\<close>

definition worker_ok :: "worker_stats \<Rightarrow> bool" where
  "worker_ok w \<longleftrightarrow> ws_ProcessedRequests w = ws_AllowedRequests w + ws_BlockedRequests w"

definition endpoint_ok :: "endpoint_stats \<Rightarrow> bool" where
  "endpoint_ok s \<longleftrightarrow> es_TotalRequests s = es_AllowedRequests s + es_BlockedRequests s"

definition tier_ok :: "tier_stats \<Rightarrow> bool" where
  "tier_ok s \<longleftrightarrow> ts_TotalRequests s = ts_AllowedRequests s + ts_BlockedRequests s \<and> ts_ActiveClients s = 0"

definition bucket_ok :: "client_bucket \<Rightarrow> bool" where
  "bucket_ok b \<longleftrightarrow> bk_TotalRequests b = bk_AllowedRequests b \<and> bk_BlockedRequests b = 0"

definition counters_ok :: "limiter \<Rightarrow> bool" where
  "counters_ok l \<longleftrightarrow>
     st_totalRequests (lm_stats l) =
       int (length (lm_requestQueue l)) + sum_list (map ws_ProcessedRequests (lm_workers l)) \<and>
     st_blockedRequests (lm_stats l) = sum_list (map ws_BlockedRequests (lm_workers l)) \<and>
     st_allowedRequests (lm_stats l) \<le> sum_list (map ws_AllowedRequests (lm_workers l)) \<and>
     (\<forall>w \<in> set (lm_workers l). worker_ok w)"

definition maps_ok :: "limiter \<Rightarrow> bool" where
  "maps_ok l \<longleftrightarrow> map_all bucket_ok (lm_buckets l) \<and>
     map_all endpoint_ok (st_endpointStats (lm_stats l)) \<and>
     map_all tier_ok (st_tierStats (lm_stats l)) \<and> rules_sorted (lm_rules l)"

lemma stats_counters [simp]:
  "st_totalRequests (updateAllowedStats rq st) = st_totalRequests st"
  "st_totalRequests (updateBlockedStats rq st) = st_totalRequests st"
  "st_allowedRequests (updateAllowedStats rq st) = st_allowedRequests st + 1"
  "st_allowedRequests (updateBlockedStats rq st) = st_allowedRequests st"
  "st_blockedRequests (updateAllowedStats rq st) = st_blockedRequests st"
  "st_blockedRequests (updateBlockedStats rq st) = st_blockedRequests st + 1"
  by (simp_all add: updateAllowedStats_def updateBlockedStats_def Let_def)

lemma endpoint_entry_ok: "map_all endpoint_ok (st_endpointStats st) \<Longrightarrow> endpoint_ok (endpoint_entry st e)"
  by (auto simp: endpoint_entry_def endpoint_ok_def map_all_def split: option.splits)

lemma tier_entry_ok: "map_all tier_ok (st_tierStats st) \<Longrightarrow> tier_ok (tier_entry st t)"
  by (auto simp: tier_entry_def tier_ok_def map_all_def split: option.splits)

lemma stats_maps:
  assumes "map_all endpoint_ok (st_endpointStats st)" and "map_all tier_ok (st_tierStats st)"
  shows "map_all endpoint_ok (st_endpointStats (updateAllowedStats rq st))"
    and "map_all endpoint_ok (st_endpointStats (updateBlockedStats rq st))"
    and "map_all tier_ok (st_tierStats (updateAllowedStats rq st))"
    and "map_all tier_ok (st_tierStats (updateBlockedStats rq st))"
  using assms endpoint_entry_ok [OF assms(1), of "rq_Endpoint rq"] tier_entry_ok [OF assms(2), of "rq_UserTier rq"]
  by (simp_all add: updateAllowedStats_def updateBlockedStats_def Let_def map_all_upd endpoint_ok_def tier_ok_def)

lemma check_counters:
  "bucket_ok b \<Longrightarrow> bucket_ok (fst (checkRateLimit clock b rule rq))"
  by (simp add: checkRateLimit_def Let_def bucket_ok_def)

lemma getOrCreateBucket_ok:
  "map_all bucket_ok m \<Longrightarrow> getOrCreateBucket c k u now m = (b, m') \<Longrightarrow> bucket_ok b \<and> map_all bucket_ok m'"
  by (auto simp: getOrCreateBucket_def newBucket_def bucket_ok_def Let_def map_all_def split: option.splits if_splits)

text \<open>What handling one request does to the counters, whichever branch it takes.\<close>

definition counted :: "worker_stats \<Rightarrow> worker_stats \<Rightarrow> rate_limit_request \<Rightarrow> limiter_stats \<Rightarrow> limiter_stats \<Rightarrow> bool" where
  "counted w w' rq st st' \<longleftrightarrow> ws_ProcessedRequests w' = ws_ProcessedRequests w + 1 \<and>
     (ws_AllowedRequests w' = ws_AllowedRequests w + 1 \<and> ws_BlockedRequests w' = ws_BlockedRequests w \<and>
        (st' = st \<or> st' = updateAllowedStats rq st) \<or>
      ws_AllowedRequests w' = ws_AllowedRequests w \<and> ws_BlockedRequests w' = ws_BlockedRequests w + 1 \<and>
        st' = updateBlockedStats rq st)"

lemma process_effect:
  assumes "processRateLimitCheck i now elapsed rq l = (l', r)"
  shows "\<exists>w'. lm_workers l' = (lm_workers l)[i := w'] \<and> lm_requestQueue l' = lm_requestQueue l \<and>
    lm_rules l' = lm_rules l \<and> counted (lm_workers l ! i) w' rq (lm_stats l) (lm_stats l')"
proof (cases "findApplicableRule (lm_rules l) rq")
  case None
  let ?w = "lm_workers l ! i"
  let ?w' = "updateProcessingTime elapsed (?w\<lparr>ws_ProcessedRequests := ws_ProcessedRequests ?w + 1,
     ws_AllowedRequests := ws_AllowedRequests ?w + 1\<rparr>)"
  have "l' = l\<lparr>lm_workers := (lm_workers l)[i := ?w']\<rparr>"
    using assms None by (simp add: processRateLimitCheck_def Let_def)
  then show ?thesis
    by (intro exI [of _ ?w']) (simp add: counted_def updateProcessingTime_def)
next
  case (Some rule)
  obtain b m where bm: "getOrCreateBucket (rq_ClientID rq) (rq_APIKey rq) (rq_UserTier rq) now
      (lm_buckets l) = (b, m)" by fastforce
  obtain b' res where c: "checkRateLimit now b rule rq = (b', res)" by fastforce
  define w where "w = lm_workers l ! i"
  define w' where "w' = updateProcessingTime elapsed (if rs_Allowed res
     then w\<lparr>ws_ProcessedRequests := ws_ProcessedRequests w + 1, ws_AllowedRequests := ws_AllowedRequests w + 1\<rparr>
     else w\<lparr>ws_ProcessedRequests := ws_ProcessedRequests w + 1, ws_BlockedRequests := ws_BlockedRequests w + 1\<rparr>)"
  define st where "st = (if rs_Allowed res then updateAllowedStats rq (lm_stats l)
     else updateBlockedStats rq (lm_stats l))"
  have "processRateLimitCheck i now elapsed rq l =
      (l\<lparr>lm_buckets := m(bucketKey (rq_ClientID rq) (rq_APIKey rq) \<mapsto> b'), lm_stats := st,
         lm_workers := (lm_workers l)[i := w']\<rparr>, res)"
    by (simp add: Some bm c processRateLimitCheck_def Let_def w'_def w_def st_def)
  with assms have l': "l' = l\<lparr>lm_buckets := m(bucketKey (rq_ClientID rq) (rq_APIKey rq) \<mapsto> b'),
      lm_stats := st, lm_workers := (lm_workers l)[i := w']\<rparr>"
    by simp
  have "counted w w' rq (lm_stats l) st"
    by (cases "rs_Allowed res") (simp_all add: counted_def w'_def st_def updateProcessingTime_def)
  then show ?thesis by (intro exI [of _ w']) (simp add: l' w_def)
qed

lemma process_counters:
  assumes "processRateLimitCheck i now elapsed rq l = (l', r)" and i: "i < length (lm_workers l)"
    and "counters_ok (l\<lparr>lm_requestQueue := rq # lm_requestQueue l\<rparr>)"
  shows "counters_ok l'"
proof -
  obtain w' where w': "lm_workers l' = (lm_workers l)[i := w']" "lm_requestQueue l' = lm_requestQueue l"
    and alt: "counted (lm_workers l ! i) w' rq (lm_stats l) (lm_stats l')"
    using process_effect [OF assms(1)] by blast
  have all: "\<forall>w \<in> set (lm_workers l). worker_ok w"
    using assms(3) by (simp add: counters_ok_def)
  then have "worker_ok (lm_workers l ! i)" using i by simp
  then have "worker_ok w'" using alt by (auto simp: worker_ok_def counted_def)
  with all have "\<forall>w \<in> set ((lm_workers l)[i := w']). worker_ok w" by (rule all_set_update)
  then show ?thesis
    using alt w' i assms(3) by (auto simp: counters_ok_def sum_upd counted_def)
qed

lemma process_maps:
  assumes "processRateLimitCheck i now elapsed rq l = (l', r)" and "maps_ok l"
  shows "maps_ok l'"
proof -
  from assms(1) have st: "lm_stats l' \<in>
      {lm_stats l, updateAllowedStats rq (lm_stats l), updateBlockedStats rq (lm_stats l)}"
    and rules: "lm_rules l' = lm_rules l"
    using process_effect [OF assms(1)] by (auto simp: counted_def)
  have "map_all bucket_ok (lm_buckets l')"
  proof (cases "findApplicableRule (lm_rules l) rq")
    case None
    then show ?thesis using assms by (auto simp: processRateLimitCheck_def Let_def maps_ok_def)
  next
    case (Some rule)
    obtain b m where bm: "getOrCreateBucket (rq_ClientID rq) (rq_APIKey rq) (rq_UserTier rq) now
        (lm_buckets l) = (b, m)" by fastforce
    have "bucket_ok b" "map_all bucket_ok m"
      using getOrCreateBucket_ok [OF _ bm] assms(2) by (simp_all add: maps_ok_def)
    moreover have "lm_buckets l' = m(bucketKey (rq_ClientID rq) (rq_APIKey rq) \<mapsto>
        fst (checkRateLimit now b rule rq))"
      using assms(1) Some bm by (auto simp: processRateLimitCheck_def Let_def split: prod.splits)
    ultimately show ?thesis by (simp add: map_all_upd check_counters)
  qed
  then show ?thesis
    using st rules assms(2) by (auto simp: maps_ok_def stats_maps)
qed

lemma fold_AddRule_frame:
  "lm_workers (fold AddRule rs l) = lm_workers l"
  "lm_stats (fold AddRule rs l) = lm_stats l"
  "lm_buckets (fold AddRule rs l) = lm_buckets l"
  "lm_requestQueue (fold AddRule rs l) = lm_requestQueue l"
  "lm_config (fold AddRule rs l) = lm_config l"
  by (induction rs arbitrary: l) (simp_all add: AddRule_def)

lemma fold_AddRule_sorted: "rules_sorted (lm_rules l) \<Longrightarrow> rules_sorted (lm_rules (fold AddRule rs l))"
  by (induction rs arbitrary: l) (simp_all add: rules_sorted_AddRule)

lemma new_limiter_inv: "counters_ok (NewAPIRateLimiter config now) \<and> maps_ok (NewAPIRateLimiter config now)"
  using fold_AddRule_sorted
  by (auto simp: NewAPIRateLimiter_def counters_ok_def maps_ok_def fold_AddRule_frame worker_ok_def
      o_def map_replicate_const sum_list_replicate rules_sorted_Nil)

inductive_cases limiter_stepE: "limiter_step l l'"

lemma limiter_step_counters:
  assumes "limiter_step l l'" and "counters_ok l"
  shows "counters_ok l'"
  using assms(1)
proof cases
  case (work request rest i now elapsed result)
  then show ?thesis
    using assms(2) by (intro process_counters [OF work(4)]) (simp_all add: counters_ok_def)
qed (use assms(2) in \<open>auto simp: counters_ok_def Start_limiter_def CheckRateLimit_submit_def
      cleanupBuckets_def AddRule_def Shutdown_limiter_def Let_def split: if_splits\<close>)

lemma limiter_step_maps:
  assumes "limiter_step l l'" and "maps_ok l"
  shows "maps_ok l'"
  using assms(1)
proof cases
  case (work request rest i now elapsed result)
  then show ?thesis
    using assms(2) by (intro process_maps [OF work(4)]) (simp add: maps_ok_def)
next
  case (addRule rule)
  then show ?thesis
    using assms(2) rules_sorted_AddRule [of rule l] by (simp add: maps_ok_def AddRule_def)
qed (use assms(2) in \<open>auto simp: maps_ok_def Start_limiter_def CheckRateLimit_submit_def
      cleanupBuckets_def Shutdown_limiter_def Let_def map_all_delete_if split: if_splits\<close>)

lemma limiter_reachable_inv: "limiter_reachable config l \<Longrightarrow> counters_ok l \<and> maps_ok l"
  by (induction rule: limiter_reachable.induct)
    (use new_limiter_inv limiter_step_counters limiter_step_maps in blast)+

text \<open>A reachable limiter that handled three requests of one client, the third rejected.\<close>

definition example_handle :: "time \<Rightarrow> limiter \<Rightarrow> limiter" where
  "example_handle now l = fst (processRateLimitCheck 0 now 1 example_request
     (l\<lparr>lm_stats := (lm_stats l)\<lparr>st_totalRequests := st_totalRequests (lm_stats l) + 1\<rparr>\<rparr>))"

definition example_started :: limiter where
  "example_started = (NewAPIRateLimiter example_config 0)\<lparr>lm_isRunning := True, lm_startTime := 1,
     lm_stats := (lm_stats (NewAPIRateLimiter example_config 0))\<lparr>st_startTime := 1\<rparr>\<rparr>"

definition example_limiter :: limiter where
  "example_limiter = example_handle 4 (example_handle 3 (example_handle 2 example_started))"

definition example_ready :: "limiter \<Rightarrow> bool" where
  "example_ready l \<longleftrightarrow> limiter_reachable example_config l \<and> lm_isRunning l \<and> \<not> lm_cancelled l \<and>
     lm_requestQueue l = [] \<and> lm_config l = example_config \<and> length (lm_workers l) = 2"

lemma process_frame:
  "processRateLimitCheck i now elapsed rq l = (l', r) \<Longrightarrow>
   lm_isRunning l' = lm_isRunning l \<and> lm_cancelled l' = lm_cancelled l \<and> lm_config l' = lm_config l \<and>
   lm_requestQueue l' = lm_requestQueue l \<and> length (lm_workers l') = length (lm_workers l)"
  by (auto simp: processRateLimitCheck_def Let_def split: option.splits prod.splits)

lemma example_ready_handle:
  assumes "example_ready l"
  shows "example_ready (example_handle now l)"
proof -
  let ?l = "l\<lparr>lm_stats := (lm_stats l)\<lparr>st_totalRequests := st_totalRequests (lm_stats l) + 1\<rparr>\<rparr>"
  let ?q = "?l\<lparr>lm_requestQueue := [example_request]\<rparr>"
  obtain l' r where p: "processRateLimitCheck 0 now 1 example_request ?l = (l', r)" by fastforce
  have l: "limiter_reachable example_config l" "lm_isRunning l" "\<not> lm_cancelled l"
    "lm_requestQueue l = []" "lm_config l = example_config" "length (lm_workers l) = 2"
    using assms by (simp_all add: example_ready_def)
  have "CheckRateLimit_submit example_request l = Inr ?q"
    using l by (simp add: CheckRateLimit_submit_def example_config_def)
  then have q: "limiter_reachable example_config ?q"
    by (rule limiter_reachable.step [OF l(1) limiter_step.submit])
  have "?q\<lparr>lm_requestQueue := []\<rparr> = ?l" using l(4) by simp
  then have p': "processRateLimitCheck 0 now 1 example_request (?q\<lparr>lm_requestQueue := []\<rparr>) = (l', r)"
    using p by (simp only:)
  have "limiter_step ?q l'"
    by (rule limiter_step.work [OF _ _ _ p']) (use l in simp_all)
  then have "limiter_reachable example_config l'" by (rule limiter_reachable.step [OF q])
  then show ?thesis
    using process_frame [OF p] l p by (simp add: example_ready_def example_handle_def)
qed

lemma example_limiter_reachable: "limiter_reachable example_config example_limiter"
proof -
  have "Start_limiter 1 (NewAPIRateLimiter example_config 0) = Inr example_started"
    by (simp add: Start_limiter_def example_started_def NewAPIRateLimiter_def example_config_def AddRule_def)
  then have "limiter_reachable example_config example_started"
    by (rule limiter_reachable.step [OF limiter_reachable.init limiter_step.start])
  then have "example_ready example_started"
    by (simp add: example_ready_def example_started_def NewAPIRateLimiter_def example_config_def AddRule_def)
  then have "example_ready example_limiter"
    by (simp add: example_limiter_def example_ready_handle)
  then show ?thesis by (simp add: example_ready_def)
qed

text \<open>
  In every reachable limiter, under any interleaving of submissions, workers, clean-ups,
  rule changes, start and shutdown, no request is lost or counted twice: the accepted requests
  are the queued ones plus the processed ones, the processed ones are the allowed plus the
  blocked ones, and the blocked total agrees with the workers'.
\<close>

theorem limiter_accounting:
  assumes "limiter_reachable config l"
  shows "st_totalRequests (lm_stats l) =
      int (length (lm_requestQueue l)) + sum_list (map ws_AllowedRequests (lm_workers l)) +
      sum_list (map ws_BlockedRequests (lm_workers l)) \<and>
    st_blockedRequests (lm_stats l) = sum_list (map ws_BlockedRequests (lm_workers l))"
proof -
  have c: "counters_ok l" using limiter_reachable_inv [OF assms] by simp
  then have "\<forall>w \<in> set (lm_workers l). ws_ProcessedRequests w = ws_AllowedRequests w + ws_BlockedRequests w"
    by (simp add: counters_ok_def worker_ok_def)
  then have "map ws_ProcessedRequests (lm_workers l) =
      map (\<lambda>w. ws_AllowedRequests w + ws_BlockedRequests w) (lm_workers l)"
    by simp
  with c show ?thesis
    by (simp add: counters_ok_def sum_list_addf)
qed

lemma limiter_accounting_witness:
  "st_totalRequests (lm_stats example_limiter) = 3 \<and> st_blockedRequests (lm_stats example_limiter) = 1 \<and>
   st_totalRequests (lm_stats example_limiter) = int (length (lm_requestQueue example_limiter)) +
     sum_list (map ws_AllowedRequests (lm_workers example_limiter)) +
     sum_list (map ws_BlockedRequests (lm_workers example_limiter))"
proof -
  have "st_totalRequests (lm_stats example_limiter) = 3" by code_simp
  moreover have "st_blockedRequests (lm_stats example_limiter) = 1" by code_simp
  ultimately show ?thesis using limiter_accounting [OF example_limiter_reachable] by simp
qed

text \<open>
  Every request is judged by the rule of highest priority among those that match it, and
  passes unlimited only when no rule matches; reachable limiters keep their rules so ordered.
\<close>

theorem rule_choice:
  assumes "limiter_reachable config l"
  shows "case findApplicableRule (lm_rules l) rq of
      None \<Rightarrow> \<not> (\<exists>r \<in> set (lm_rules l). ruleMatches r rq)
    | Some r \<Rightarrow> r \<in> set (lm_rules l) \<and> ruleMatches r rq \<and>
        Max (rl_Priority ` {r' \<in> set (lm_rules l). ruleMatches r' rq}) = rl_Priority r"
proof (cases "findApplicableRule (lm_rules l) rq")
  case None
  then show ?thesis using findApplicableRule_None [of "lm_rules l" rq] by simp
next
  case (Some r)
  have "rules_sorted (lm_rules l)"
    using limiter_reachable_inv [OF assms] by (simp add: maps_ok_def)
  note found = findApplicableRule_Some [OF this Some]
  have "Max (rl_Priority ` {r' \<in> set (lm_rules l). ruleMatches r' rq}) = rl_Priority r"
    by (rule Max_eqI) (use found in auto)
  with Some found show ?thesis by simp
qed

lemma rule_choice_witness:
  "findApplicableRule (lm_rules example_limiter) example_request = Some example_rule \<and>
   Max (rl_Priority ` {r' \<in> set (lm_rules example_limiter). ruleMatches r' example_request}) = 1"
proof -
  have f: "findApplicableRule (lm_rules example_limiter) example_request = Some example_rule"
    by code_simp
  then show ?thesis
    using rule_choice [OF example_limiter_reachable, of example_request]
    by (simp add: example_rule_def)
qed

text \<open>
  The bucket's own statistics never see a rejection: in every reachable limiter a bucket's
  blocked count is zero and its total is its allowed count.
\<close>

theorem bucket_statistics_miss_blocked:
  assumes "limiter_reachable config l" and "lm_buckets l key = Some b"
  shows "bk_BlockedRequests b = 0 \<and> bk_TotalRequests b = bk_AllowedRequests b"
  using limiter_reachable_inv [OF assms(1)] map_allD [where m = "lm_buckets l" and k = key and v = b and p = bucket_ok] assms(2)
  by (simp add: maps_ok_def bucket_ok_def)

lemma bucket_statistics_miss_blocked_witness:
  "\<exists>b. lm_buckets example_limiter ''c:k'' = Some b \<and> bk_TotalRequests b = 2 \<and> bk_BlockedRequests b = 0 \<and>
       bk_TotalRequests b = bk_AllowedRequests b"
proof -
  have "map_option bk_TotalRequests (lm_buckets example_limiter ''c:k'') = Some 2" by code_simp
  then obtain b where b: "lm_buckets example_limiter ''c:k'' = Some b" "bk_TotalRequests b = 2" by auto
  then show ?thesis
    using bucket_statistics_miss_blocked [OF example_limiter_reachable b(1)] by auto
qed

end
