(* ===== verification/Breaker.thy ===== *)
theory Breaker
  imports Prelude
begin

text \<open>
  The interface the repository's circuit breakers share: three abstract states, an admission
  test, and the completion of an admitted call by success or failure.  The laws are the ones
  every implementation keeps; what a caller may rely on is proved once from them: an open
  breaker fails fast until its deadline, whatever attempts and late failures arrive, and it
  recovers through half-open by successes alone.
\<close>

datatype breaker_status = BClosed | BOpen | BHalfOpen

text \<open>What can reach an open breaker: attempts, and failures of calls admitted earlier.\<close>

datatype open_event = Attempt time | LateFailure time

fun event_time :: "open_event \<Rightarrow> time" where
  "event_time (Attempt t) = t"
| "event_time (LateFailure t) = t"

fun events_between :: "time \<Rightarrow> time \<Rightarrow> open_event list \<Rightarrow> bool" where
  "events_between lo hi [] = True"
| "events_between lo hi (e # es) =
     (lo \<le> event_time e \<and> event_time e \<le> hi \<and> events_between (event_time e) hi es)"

fun run_open ::
  "(time \<Rightarrow> 'b \<Rightarrow> 'b \<times> bool) \<Rightarrow> (time \<Rightarrow> 'b \<Rightarrow> 'b) \<Rightarrow> 'b \<Rightarrow> open_event list \<Rightarrow> 'b \<times> bool list" where
  "run_open admit failure b [] = (b, [])"
| "run_open admit failure b (Attempt t # es) =
     (case admit t b of (b1, ok) \<Rightarrow>
        (case run_open admit failure b1 es of (b2, oks) \<Rightarrow> (b2, ok # oks)))"
| "run_open admit failure b (LateFailure t # es) = run_open admit failure (failure t b) es"

lemma events_between_mono: "events_between lo hi es \<Longrightarrow> hi \<le> hi' \<Longrightarrow> events_between lo hi' es"
  by (induction es arbitrary: lo) auto

locale breaker =
  fixes status :: "'b \<Rightarrow> breaker_status"
    and admit :: "time \<Rightarrow> 'b \<Rightarrow> 'b \<times> bool"
    and success :: "time \<Rightarrow> 'b \<Rightarrow> 'b"
    and failure :: "time \<Rightarrow> 'b \<Rightarrow> 'b"
    and deadline :: "'b \<Rightarrow> time"
    and timeout :: "'b \<Rightarrow> duration"
    and idle :: "'b \<Rightarrow> bool"
    and needed :: "'b \<Rightarrow> nat"
    and inv :: "'b \<Rightarrow> bool"
  assumes inv_admit: "inv b \<Longrightarrow> inv (fst (admit now b))"
    and inv_success: "inv b \<Longrightarrow> inv (success now b)"
    and inv_failure: "inv b \<Longrightarrow> inv (failure now b)"
    and timeout_failure: "timeout (failure now b) = timeout b"
    and open_rejects: "inv b \<Longrightarrow> status b = BOpen \<Longrightarrow> now \<le> deadline b \<Longrightarrow> admit now b = (b, False)"
    and open_probes: "inv b \<Longrightarrow> status b = BOpen \<Longrightarrow> deadline b < now \<Longrightarrow> idle b \<Longrightarrow>
      status (fst (admit now b)) = BHalfOpen \<and> snd (admit now b)"
    and open_late: "inv b \<Longrightarrow> status b = BOpen \<Longrightarrow> now \<le> deadline b \<Longrightarrow> deadline b \<le> now + timeout b \<Longrightarrow>
      status (failure now b) = BOpen \<and> deadline b \<le> deadline (failure now b) \<and>
      deadline (failure now b) \<le> now + timeout b"
    and half_failure: "inv b \<Longrightarrow> status b = BHalfOpen \<Longrightarrow>
      status (failure now b) = BOpen \<and> deadline (failure now b) = now + timeout b"
    and half_success: "inv b \<Longrightarrow> status b = BHalfOpen \<Longrightarrow>
      (if needed b \<le> 1 then status (success now b) = BClosed
       else status (success now b) = BHalfOpen \<and> needed (success now b) < needed b)"
begin

lemma fail_fast:
  "inv b \<Longrightarrow> status b = BOpen \<Longrightarrow> deadline b \<le> t0 + timeout b \<Longrightarrow> events_between t0 (deadline b) es \<Longrightarrow>
   status (fst (run_open admit failure b es)) = BOpen \<and>
   deadline b \<le> deadline (fst (run_open admit failure b es)) \<and>
   (\<forall>ok \<in> set (snd (run_open admit failure b es)). \<not> ok)"
proof (induction es arbitrary: b t0)
  case Nil
  then show ?case by simp
next
  case (Cons e es)
  show ?case
  proof (cases e)
    case (Attempt t)
    have adm: "admit t b = (b, False)"
      using Cons.prems Attempt by (intro open_rejects) simp_all
    have "events_between t (deadline b) es" "deadline b \<le> t + timeout b"
      using Cons.prems Attempt by simp_all
    then show ?thesis
      using Cons.IH [of b t] Cons.prems(1,2) Attempt adm
      by (cases "run_open admit failure b es") auto
  next
    case (LateFailure t)
    have bounds: "t \<le> deadline b" "deadline b \<le> t + timeout b" "events_between t (deadline b) es"
      using Cons.prems LateFailure by simp_all
    note late = open_late [OF Cons.prems(1,2) bounds(1,2)]
    then have ev: "events_between t (deadline (failure t b)) es"
      using bounds(3) events_between_mono by blast
    have "deadline (failure t b) \<le> t + timeout (failure t b)"
      using late by (simp add: timeout_failure)
    then show ?thesis
      using Cons.IH [OF inv_failure [OF Cons.prems(1)] _ _ ev] late LateFailure by auto
  qed
qed

text \<open>A failed probe closes the door again for a whole timeout.\<close>

lemma failed_probe_fails_fast:
  assumes "inv b" and "status b = BHalfOpen" and "events_between now (now + timeout b) es"
  shows "\<forall>ok \<in> set (snd (run_open admit failure (failure now b) es)). \<not> ok"
  using fail_fast [OF inv_failure [OF assms(1)], of now now es] half_failure [OF assms(1,2), of now]
    assms(3) timeout_failure [of now b]
  by auto

fun succeed :: "nat \<Rightarrow> time \<Rightarrow> 'b \<Rightarrow> 'b" where
  "succeed 0 now b = b"
| "succeed (Suc n) now b = succeed n now (success now b)"

lemma half_open_recovers:
  "inv b \<Longrightarrow> status b = BHalfOpen \<Longrightarrow>
   \<exists>n. 0 < n \<and> n \<le> max 1 (needed b) \<and> status (succeed n now b) = BClosed"
proof (induction "needed b" arbitrary: b rule: less_induct)
  case less
  show ?case
  proof (cases "needed b \<le> 1")
    case True
    with half_success [OF less.prems, of now] show ?thesis
      by (intro exI [of _ 1]) simp
  next
    case False
    with half_success [OF less.prems, of now]
    have s: "status (success now b) = BHalfOpen" "needed (success now b) < needed b" by simp_all
    then obtain n where "0 < n" "n \<le> max 1 (needed (success now b))"
        "status (succeed n now (success now b)) = BClosed"
      using less.hyps [OF s(2) inv_success [OF less.prems(1)] s(1)] by blast
    with s(2) False show ?thesis by (intro exI [of _ "Suc n"]) simp
  qed
qed

lemma recovers:
  assumes "inv b" and "status b = BOpen" and "deadline b < now" and "idle b"
  shows "snd (admit now b) \<and> (\<exists>n. status (succeed n now (fst (admit now b))) = BClosed)"
  using open_probes [OF assms] half_open_recovers [OF inv_admit [OF assms(1)], of now now] by blast

end

end
