(* ===== verification/PoolBreaker.thy ===== *)
theory PoolBreaker
  imports Breaker
begin

text \<open>
  The HTTP worker pool of chapter 2 and its circuit breaker,
  \<^verbatim>\<open>02_practical_application_of_the_worker_pool_pattern/ans_03/circuit_breaker_pool.go\<close>:
  the breaker's three methods, the execution of one task against it, the retry schedule with
  its exponential back-off in 64-bit nanoseconds, the queues and the statistics.
\<close>

section \<open>The breaker\<close>

datatype CircuitState = CircuitClosed | CircuitOpen | CircuitHalfOpen

record pool_breaker =
  pb_state :: CircuitState
  pb_failureCount :: int
  pb_successCount :: int
  pb_consecutiveFailures :: int
  pb_lastFailureTime :: time
  pb_lastSuccessTime :: time
  pb_failureThreshold :: int
  pb_recoveryTimeout :: duration
  pb_halfOpenMaxCalls :: int
  pb_halfOpenCalls :: int

definition New_pool_breaker :: "int \<Rightarrow> duration \<Rightarrow> pool_breaker" where
  "New_pool_breaker failureThreshold recoveryTimeout =
     \<lparr>pb_state = CircuitClosed, pb_failureCount = 0, pb_successCount = 0,
      pb_consecutiveFailures = 0, pb_lastFailureTime = 0, pb_lastSuccessTime = 0,
      pb_failureThreshold = failureThreshold, pb_recoveryTimeout = recoveryTimeout,
      pb_halfOpenMaxCalls = 5, pb_halfOpenCalls = 0\<rparr>"

definition CanExecute :: "time \<Rightarrow> pool_breaker \<Rightarrow> pool_breaker \<times> bool" where
  "CanExecute now cb =
     (case pb_state cb of
        CircuitClosed \<Rightarrow> (cb, True)
      | CircuitOpen \<Rightarrow>
          (if time_Sub now (pb_lastFailureTime cb) > pb_recoveryTimeout cb
           then (cb\<lparr>pb_state := CircuitHalfOpen, pb_halfOpenCalls := 0\<rparr>, True)
           else (cb, False))
      | CircuitHalfOpen \<Rightarrow> (cb, pb_halfOpenCalls cb < pb_halfOpenMaxCalls cb))"

definition RecordSuccess :: "time \<Rightarrow> pool_breaker \<Rightarrow> pool_breaker" where
  "RecordSuccess now cb0 =
    (let cb = cb0\<lparr>pb_successCount := pb_successCount cb0 + 1, pb_consecutiveFailures := 0,
                  pb_lastSuccessTime := now\<rparr>
     in if pb_state cb = CircuitHalfOpen then
          (let cb' = cb\<lparr>pb_halfOpenCalls := pb_halfOpenCalls cb + 1\<rparr>
           in if pb_halfOpenCalls cb' \<ge> pb_halfOpenMaxCalls cb'
              then cb'\<lparr>pb_state := CircuitClosed\<rparr> else cb')
        else cb)"

definition RecordFailure :: "time \<Rightarrow> pool_breaker \<Rightarrow> pool_breaker" where
  "RecordFailure now cb0 =
    (let cb = cb0\<lparr>pb_failureCount := pb_failureCount cb0 + 1,
                  pb_consecutiveFailures := pb_consecutiveFailures cb0 + 1,
                  pb_lastFailureTime := now\<rparr>
     in if pb_state cb = CircuitHalfOpen then cb\<lparr>pb_state := CircuitOpen\<rparr>
        else if pb_state cb = CircuitClosed \<and> pb_consecutiveFailures cb \<ge> pb_failureThreshold cb
        then cb\<lparr>pb_state := CircuitOpen\<rparr> else cb)"

section \<open>Executing a task\<close>

record http_task =
  ht_ID :: int
  ht_Method :: string
  ht_URL :: string
  ht_Headers :: "string \<rightharpoonup> string"
  ht_Body :: string
  ht_Timeout :: duration
  ht_MaxRetries :: int
  ht_RetryCount :: int

datatype http_error =
  BreakerOpen | RequestCreationFailed | RequestFailed | ServerError int | ClientError int

record http_result =
  hr_TaskID :: int
  hr_StatusCode :: int
  hr_Duration :: duration
  hr_Success :: bool
  hr_Error :: "http_error option"
  hr_RetryCount :: int
  hr_WorkerID :: int

record http_stats =
  hs_totalRequests :: int
  hs_successfulRequests :: int
  hs_failedRequests :: int
  hs_retryRequests :: int
  hs_circuitOpenCount :: int
  hs_averageResponseTime :: duration
  hs_statusCodeCounts :: "int \<rightharpoonup> int"

text \<open>What the HTTP library answers: no request, no response, or a status code.\<close>

datatype http_answer = BadRequest | NoResponse | Response int

text \<open>
  The worker's side of the pool: the breaker, the statistics and the retries waiting for their
  back-off, each with its delay.
\<close>

record http_pool =
  hp_breaker :: pool_breaker
  hp_taskQueue :: "http_task list"
  hp_retryQueue :: "http_task list"
  hp_scheduled :: "(http_task \<times> duration) list"
  hp_capacity :: nat
  hp_cancelled :: bool
  hp_stats :: http_stats

text \<open>
  The exponential back-off: \<open>2^n\<close> whole seconds in 64-bit nanoseconds, capped at thirty
  seconds by a signed comparison, then up to one second of jitter.  (\<open>math.Pow\<close> is exact here
  and its conversion to 64 bits is defined for \<open>n\<close> up to 62; a negative power truncates to 0.)
\<close>

definition backoff_base :: "int \<Rightarrow> int" where
  "backoff_base n =
     min (sint ((if n < 0 then 0 else 2 ^ nat n :: 64 word) * 1000000000)) (30 * Second)"

definition scheduleRetry :: "duration \<Rightarrow> http_task \<Rightarrow> http_pool \<Rightarrow> http_pool" where
  "scheduleRetry jitter task p =
     (if ht_RetryCount task \<ge> ht_MaxRetries task then p
      else (let retryTask = task\<lparr>ht_RetryCount := ht_RetryCount task + 1\<rparr>;
                backoffDelay = backoff_base (ht_RetryCount retryTask) + jitter
            in p\<lparr>hp_stats := (hp_stats p)\<lparr>hs_retryRequests := hs_retryRequests (hp_stats p) + 1\<rparr>,
                 hp_scheduled := hp_scheduled p @ [(retryTask, backoffDelay)]\<rparr>))"

definition executeHTTPTask ::
  "int \<Rightarrow> time \<Rightarrow> time \<Rightarrow> duration \<Rightarrow> http_answer \<Rightarrow> http_task \<Rightarrow> http_pool \<Rightarrow> http_pool \<times> http_result" where
  "executeHTTPTask workerID start finish jitter answer task p =
    (let result = \<lparr>hr_TaskID = ht_ID task, hr_StatusCode = 0, hr_Duration = time_Sub finish start,
                   hr_Success = False, hr_Error = None, hr_RetryCount = ht_RetryCount task,
                   hr_WorkerID = workerID\<rparr>;
         (cb, ok) = CanExecute start (hp_breaker p);
         p1 = p\<lparr>hp_breaker := cb\<rparr>;
         failed = p1\<lparr>hp_breaker := RecordFailure finish cb\<rparr>
     in if \<not> ok then
          (p1\<lparr>hp_stats := (hp_stats p1)\<lparr>hs_circuitOpenCount := hs_circuitOpenCount (hp_stats p1) + 1\<rparr>\<rparr>,
           result\<lparr>hr_Error := Some BreakerOpen\<rparr>)
        else (case answer of
            BadRequest \<Rightarrow> (failed, result\<lparr>hr_Error := Some RequestCreationFailed\<rparr>)
          | NoResponse \<Rightarrow> (scheduleRetry jitter task failed, result\<lparr>hr_Error := Some RequestFailed\<rparr>)
          | Response code \<Rightarrow>
              (if 200 \<le> code \<and> code < 300 then
                 (p1\<lparr>hp_breaker := RecordSuccess finish cb\<rparr>,
                  result\<lparr>hr_StatusCode := code, hr_Success := True\<rparr>)
               else if code \<ge> 500 then
                 (scheduleRetry jitter task failed,
                  result\<lparr>hr_StatusCode := code, hr_Error := Some (ServerError code)\<rparr>)
               else
                 (failed, result\<lparr>hr_StatusCode := code, hr_Error := Some (ClientError code)\<rparr>))))"

text \<open>The retry timer fires: the task moves to the retry queue, and from there to the task
  queue if there is room.\<close>

definition retry_fires :: "nat \<Rightarrow> http_pool \<Rightarrow> http_pool" where
  "retry_fires i p =
     (if i < length (hp_scheduled p) \<and> \<not> hp_cancelled p \<and> length (hp_retryQueue p) < hp_capacity p
      then p\<lparr>hp_retryQueue := hp_retryQueue p @ [fst (hp_scheduled p ! i)],
             hp_scheduled := take i (hp_scheduled p) @ drop (Suc i) (hp_scheduled p)\<rparr>
      else p)"

definition retryHandler :: "http_pool \<Rightarrow> http_pool" where
  "retryHandler p =
     (case hp_retryQueue p of
        [] \<Rightarrow> p
      | retryTask # rest \<Rightarrow>
          (let p1 = p\<lparr>hp_retryQueue := rest\<rparr>
           in if length (hp_taskQueue p1) < hp_capacity p1
              then p1\<lparr>hp_taskQueue := hp_taskQueue p1 @ [retryTask]\<rparr> else p1))"

datatype pool_error = PoolShuttingDown | TaskQueueFull

definition SubmitTask_http :: "http_task \<Rightarrow> http_pool \<Rightarrow> pool_error + http_pool" where
  "SubmitTask_http task p =
     (if hp_cancelled p then Inl PoolShuttingDown
      else if length (hp_taskQueue p) < hp_capacity p
      then Inr (p\<lparr>hp_taskQueue := hp_taskQueue p @ [task],
                  hp_stats := (hp_stats p)\<lparr>hs_totalRequests := hs_totalRequests (hp_stats p) + 1\<rparr>\<rparr>)
      else Inl TaskQueueFull)"

text \<open>Go's integer division truncates towards zero.\<close>

definition updateStats_http :: "http_result \<Rightarrow> http_stats \<Rightarrow> http_stats" where
  "updateStats_http result s0 =
    (let s1 = (if hr_Success result then s0\<lparr>hs_successfulRequests := hs_successfulRequests s0 + 1\<rparr>
               else s0\<lparr>hs_failedRequests := hs_failedRequests s0 + 1\<rparr>);
         s2 = (if hr_StatusCode result > 0
               then s1\<lparr>hs_statusCodeCounts := map_incr (hs_statusCodeCounts s1) (hr_StatusCode result)\<rparr>
               else s1);
         total = hs_totalRequests s2;
         n = hs_averageResponseTime s2 * total + hr_Duration result
     in s2\<lparr>hs_averageResponseTime := sgn n * (\<bar>n\<bar> div (total + 1))\<rparr>)"

section \<open>The breaker keeps the interface's laws\<close>

definition pool_status :: "pool_breaker \<Rightarrow> breaker_status" where
  "pool_status cb = (case pb_state cb of CircuitClosed \<Rightarrow> BClosed | CircuitOpen \<Rightarrow> BOpen
     | CircuitHalfOpen \<Rightarrow> BHalfOpen)"

definition pool_deadline :: "pool_breaker \<Rightarrow> time" where
  "pool_deadline cb = pb_lastFailureTime cb + pb_recoveryTimeout cb"

definition pool_needed :: "pool_breaker \<Rightarrow> nat" where
  "pool_needed cb = nat (pb_halfOpenMaxCalls cb - pb_halfOpenCalls cb)"

definition pool_inv :: "pool_breaker \<Rightarrow> bool" where
  "pool_inv cb \<longleftrightarrow> 0 < pb_recoveryTimeout cb \<and> pb_recoveryTimeout cb < max_int64"

lemmas pool_defs = pool_status_def pool_deadline_def pool_needed_def pool_inv_def
  CanExecute_def RecordSuccess_def RecordFailure_def

lemma pool_timeout_passed:
  "pool_inv cb \<Longrightarrow> pb_recoveryTimeout cb < time_Sub now (pb_lastFailureTime cb) \<longleftrightarrow> pool_deadline cb < now"
  by (simp add: pool_inv_def pool_deadline_def time_Sub_gt_iff)

interpretation pool: breaker pool_status CanExecute RecordSuccess RecordFailure pool_deadline
    pb_recoveryTimeout "\<lambda>_. True" pool_needed pool_inv
proof (unfold_locales, goal_cases)
  case (5 b now)
  then show ?case
    by (auto simp: CanExecute_def pool_timeout_passed pool_status_def split: CircuitState.splits)
next
  case (6 b now)
  then show ?case
    by (auto simp: CanExecute_def pool_timeout_passed pool_status_def split: CircuitState.splits)
qed (auto simp: pool_defs Let_def split: CircuitState.splits if_splits)

text \<open>
  While the circuit is open, no sequence of attempts and late failures before the recovery
  deadline gets a call through, and the circuit stays open.
\<close>

theorem pool_fails_fast:
  assumes "0 < pb_recoveryTimeout cb" and "pb_recoveryTimeout cb < max_int64"
    and "pb_state cb = CircuitOpen" and "pb_lastFailureTime cb \<le> t0"
    and "events_between t0 (pb_lastFailureTime cb + pb_recoveryTimeout cb) es"
  shows "pb_state (fst (run_open CanExecute RecordFailure cb es)) = CircuitOpen \<and>
    True \<notin> set (snd (run_open CanExecute RecordFailure cb es))"
  using pool.fail_fast [of cb t0 es] assms
  by (auto simp: pool_status_def pool_inv_def pool_deadline_def split: CircuitState.splits)

definition open_pool_breaker :: pool_breaker where
  "open_pool_breaker = (New_pool_breaker 5 30)\<lparr>pb_state := CircuitOpen, pb_lastFailureTime := 100\<rparr>"

lemma pool_fails_fast_witness:
  "True \<notin> set (snd (run_open CanExecute RecordFailure open_pool_breaker
     [Attempt 110, LateFailure 120, Attempt 130]))"
  using pool_fails_fast [of open_pool_breaker 100 "[Attempt 110, LateFailure 120, Attempt 130]"]
  by (simp add: open_pool_breaker_def New_pool_breaker_def)

text \<open>A run of admission tests with no completion in between.\<close>

fun admissions :: "nat \<Rightarrow> time \<Rightarrow> pool_breaker \<Rightarrow> bool list" where
  "admissions 0 now cb = []"
| "admissions (Suc n) now cb = (case CanExecute now cb of (cb', ok) \<Rightarrow> ok # admissions n now cb')"

lemma admissions_half_open:
  "pb_state cb = CircuitHalfOpen \<Longrightarrow> pb_halfOpenCalls cb < pb_halfOpenMaxCalls cb \<Longrightarrow>
   admissions n now cb = replicate n True"
  by (induction n) (simp_all add: CanExecute_def)

text \<open>
  The half-open limit does not bound concurrent probes: once the recovery timeout has
  passed, any number of calls in a row is admitted as long as none of them has completed,
  although the breaker is configured for at most \<open>halfOpenMaxCalls\<close>.
\<close>

theorem half_open_probes_unbounded:
  assumes "pb_state cb = CircuitOpen" and "0 < pb_halfOpenMaxCalls cb"
    and "pb_recoveryTimeout cb < time_Sub now (pb_lastFailureTime cb)"
  shows "admissions n now cb = replicate n True"
  using assms
  by (cases n) (simp_all add: CanExecute_def admissions_half_open)

lemma half_open_probes_unbounded_witness:
  "pb_halfOpenMaxCalls open_pool_breaker = 5 \<and> admissions 100 200 open_pool_breaker = replicate 100 True"
  using half_open_probes_unbounded [of open_pool_breaker 200 100]
  by (simp add: open_pool_breaker_def New_pool_breaker_def time_Sub_def)

section \<open>Back-off and retries\<close>

lemma small_product_no_wrap:
  assumes "n \<le> 33"
  shows "sint ((2 ^ n :: 64 word) * 1000000000) = 2 ^ n * 1000000000"
proof -
  have "(2::int) ^ n \<le> 2 ^ 33" using assms by (intro power_increasing) simp_all
  then have b: "(2::int) ^ n * 1000000000 < 2 ^ 63" by simp
  have "(2 ^ n :: 64 word) * 1000000000 = word_of_int (2 ^ n * 1000000000)" by simp
  then have "sint ((2 ^ n :: 64 word) * 1000000000) =
      ((2::int) ^ n * 1000000000 + 2 ^ 63) mod 2 ^ 64 - 2 ^ 63"
    by (simp only: int_word_sint) simp
  also have "\<dots> = 2 ^ n * 1000000000"
    using b by simp
  finally show ?thesis .
qed

text \<open>
  The retry delay is the capped doubling for the first thirty-three retries, and its 64-bit
  product wraps to a negative delay at the thirty-fourth, which the cap does not catch.
\<close>

theorem backoff_capped_doubling:
  "(\<forall>n. n \<le> 33 \<longrightarrow> backoff_base (int n) = min (2 ^ n * Second) (30 * Second)) \<and> backoff_base 34 < 0"
proof (intro conjI allI impI)
  fix n :: nat
  assume "n \<le> 33"
  then show "backoff_base (int n) = min (2 ^ n * Second) (30 * Second)"
    by (simp add: backoff_base_def small_product_no_wrap Second_def)
next
  show "backoff_base 34 < 0"
    by (simp add: backoff_base_def Second_def)
qed

lemma backoff_capped_doubling_witness: "backoff_base 3 = 8 * Second \<and> backoff_base 5 = 30 * Second"
proof -
  have "backoff_base (int 3) = min (2 ^ 3 * Second) (30 * Second)"
    "backoff_base (int 5) = min (2 ^ 5 * Second) (30 * Second)"
    using backoff_capped_doubling by (auto simp del: of_nat_numeral)
  then show ?thesis by (simp add: Second_def)
qed

text \<open>
  One execution adds at most one retry.  It adds one exactly when the breaker admitted the
  call, the server did not answer or answered with a 5xx status, and the task has retries left;
  the retry carries the next count, which is within the task's limit.
\<close>

theorem retry_scheduled_iff:
  "hp_scheduled (fst (executeHTTPTask w start finish jitter answer task p)) =
     hp_scheduled p @
     (if snd (CanExecute start (hp_breaker p)) \<and>
         (answer = NoResponse \<or> (\<exists>code. answer = Response code \<and> code \<ge> 500)) \<and>
         ht_RetryCount task < ht_MaxRetries task
      then [(task\<lparr>ht_RetryCount := ht_RetryCount task + 1\<rparr>,
             backoff_base (ht_RetryCount task + 1) + jitter)]
      else [])"
  by (cases "CanExecute start (hp_breaker p)"; cases answer)
    (auto simp: executeHTTPTask_def scheduleRetry_def Let_def)

end
