(* ===== verification/GrpcClient.thy ===== *)
theory GrpcClient
  imports Breaker "HOL-Library.Word"
begin

text \<open>
  The gRPC client of chapter 6, \<^verbatim>\<open>06_grpc_concurrent_programming/client/client.go\<close>: its circuit
  breaker, the retry loop with capped exponential back-off, the round-robin connection pool
  with its 64-bit counter, and the unary calls with their metrics.  The gRPC library is the
  parameter \<open>operation\<close> (the answer of each attempt) and the server's connections.
\<close>

section \<open>The circuit breaker\<close>

datatype CircuitBreakerState = CircuitBreakerClosed | CircuitBreakerOpen | CircuitBreakerHalfOpen

record client_breaker =
  cb_threshold :: int
  cb_timeout :: duration
  cb_failures :: int
  cb_lastFailTime :: time
  cb_state :: CircuitBreakerState

definition New_client_breaker :: "int \<Rightarrow> duration \<Rightarrow> client_breaker" where
  "New_client_breaker threshold timeout =
     \<lparr>cb_threshold = threshold, cb_timeout = timeout, cb_failures = 0, cb_lastFailTime = 0,
      cb_state = CircuitBreakerClosed\<rparr>"

definition client_CanExecute :: "time \<Rightarrow> client_breaker \<Rightarrow> client_breaker \<times> bool" where
  "client_CanExecute now cb =
     (case cb_state cb of
        CircuitBreakerClosed \<Rightarrow> (cb, True)
      | CircuitBreakerOpen \<Rightarrow>
          (if time_Sub now (cb_lastFailTime cb) > cb_timeout cb
           then (cb\<lparr>cb_state := CircuitBreakerHalfOpen\<rparr>, True) else (cb, False))
      | CircuitBreakerHalfOpen \<Rightarrow> (cb, True))"

definition OnSuccess :: "client_breaker \<Rightarrow> client_breaker" where
  "OnSuccess cb = cb\<lparr>cb_failures := 0, cb_state := CircuitBreakerClosed\<rparr>"

definition OnFailure :: "time \<Rightarrow> client_breaker \<Rightarrow> client_breaker" where
  "OnFailure now cb0 =
    (let cb = cb0\<lparr>cb_failures := cb_failures cb0 + 1, cb_lastFailTime := now\<rparr>
     in if cb_failures cb \<ge> cb_threshold cb then cb\<lparr>cb_state := CircuitBreakerOpen\<rparr> else cb)"

definition client_status :: "client_breaker \<Rightarrow> breaker_status" where
  "client_status cb = (case cb_state cb of CircuitBreakerClosed \<Rightarrow> BClosed
     | CircuitBreakerOpen \<Rightarrow> BOpen | CircuitBreakerHalfOpen \<Rightarrow> BHalfOpen)"

definition client_inv :: "client_breaker \<Rightarrow> bool" where
  "client_inv cb \<longleftrightarrow> 0 < cb_timeout cb \<and> cb_timeout cb < max_int64 \<and>
     (cb_state cb \<noteq> CircuitBreakerClosed \<longrightarrow> cb_threshold cb \<le> cb_failures cb)"

lemma client_timeout_passed:
  "client_inv cb \<Longrightarrow> cb_timeout cb < time_Sub now (cb_lastFailTime cb) \<longleftrightarrow>
     cb_lastFailTime cb + cb_timeout cb < now"
  by (simp add: client_inv_def time_Sub_gt_iff)

lemmas client_defs = client_status_def client_inv_def client_CanExecute_def OnSuccess_def OnFailure_def

interpretation client: breaker client_status client_CanExecute "\<lambda>_. OnSuccess" OnFailure
    "\<lambda>cb. cb_lastFailTime cb + cb_timeout cb" cb_timeout "\<lambda>_. True" "\<lambda>_. 0" client_inv
proof (unfold_locales, goal_cases)
  case (5 b now)
  then show ?case
    by (auto simp: client_CanExecute_def client_timeout_passed client_status_def
        split: CircuitBreakerState.splits)
next
  case (6 b now)
  then show ?case
    by (auto simp: client_CanExecute_def client_timeout_passed client_status_def
        split: CircuitBreakerState.splits)
qed (auto simp: client_defs Let_def split: CircuitBreakerState.splits if_splits)

section \<open>The retry loop\<close>

datatype grpc_code = Unavailable | DeadlineExceeded | OtherCode nat

datatype client_error = NoAvailableClient | Rpc grpc_code | CircuitOpenError | ContextDone

definition isRetryableError :: "client_error \<Rightarrow> bool" where
  "isRetryableError e \<longleftrightarrow> e = Rpc Unavailable \<or> e = Rpc DeadlineExceeded"

record retry_policy =
  rp_maxRetries :: int
  rp_initialBackoff :: duration
  rp_maxBackoff :: duration
  rp_multiplier :: real

text \<open>\<open>time.Duration(float64(b) * m)\<close> truncates towards zero.\<close>

definition trunc :: "real \<Rightarrow> int" where
  "trunc x = (if x < 0 then - \<lfloor>- x\<rfloor> else \<lfloor>x\<rfloor>)"

definition next_backoff :: "retry_policy \<Rightarrow> duration \<Rightarrow> duration" where
  "next_backoff rp b = min (trunc (real_of_int b * rp_multiplier rp)) (rp_maxBackoff rp)"

datatype loop_end = LoopSucceeded | LoopExhausted "client_error option" | LoopContextDone

text \<open>
  One run of \<open>for attempt := range maxRetries + 1\<close>: the remaining iterations, the attempt
  number, the current back-off and the last error.  \<open>ended k\<close> says that the context ends while
  attempt \<open>k\<close> waits.  The result carries the number of calls and the waits it slept through.
\<close>

fun retry_loop ::
  "retry_policy \<Rightarrow> (nat \<Rightarrow> bool) \<Rightarrow> (nat \<Rightarrow> client_error option) \<Rightarrow> nat \<Rightarrow> nat \<Rightarrow> duration \<Rightarrow>
   client_error option \<Rightarrow> loop_end \<times> nat \<times> duration list" where
  "retry_loop rp ended operation 0 k backoff lastError = (LoopExhausted lastError, 0, [])"
| "retry_loop rp ended operation (Suc n) k backoff lastError =
     (if k > 0 \<and> ended k then (LoopContextDone, 0, [])
      else (let backoff' = (if k > 0 then next_backoff rp backoff else backoff);
                waited = (if k > 0 then [backoff] else [])
            in case operation k of
                 None \<Rightarrow> (LoopSucceeded, 1, waited)
               | Some e \<Rightarrow>
                   (if \<not> isRetryableError e then (LoopExhausted (Some e), 1, waited)
                    else (case retry_loop rp ended operation n (Suc k) backoff' (Some e) of
                            (r, calls, waits) \<Rightarrow> (r, Suc calls, waited @ waits)))))"

record grpc_client =
  gc_breaker :: client_breaker
  gc_policy :: retry_policy
  gc_TotalRequests :: int
  gc_SuccessfulRequests :: int
  gc_FailedRequests :: int
  gc_AverageLatency :: int
  gc_MaxLatency :: int
  gc_CircuitBreakerTrips :: int

definition executeWithRetry ::
  "time \<Rightarrow> time \<Rightarrow> (nat \<Rightarrow> bool) \<Rightarrow> (nat \<Rightarrow> client_error option) \<Rightarrow> grpc_client \<Rightarrow>
   grpc_client \<times> client_error option \<times> nat" where
  "executeWithRetry now1 now2 ended operation c =
    (case client_CanExecute now1 (gc_breaker c) of
       (cb, ok) \<Rightarrow>
        (let c1 = c\<lparr>gc_breaker := cb\<rparr>
         in if \<not> ok then
              (c1\<lparr>gc_CircuitBreakerTrips := gc_CircuitBreakerTrips c1 + 1\<rparr>, Some CircuitOpenError, 0)
            else
              (case retry_loop (gc_policy c1) ended operation (nat (rp_maxRetries (gc_policy c1) + 1)) 0
                      (rp_initialBackoff (gc_policy c1)) None of
                 (LoopSucceeded, calls, waits) \<Rightarrow> (c1\<lparr>gc_breaker := OnSuccess cb\<rparr>, None, calls)
               | (LoopContextDone, calls, waits) \<Rightarrow> (c1, Some ContextDone, calls)
               | (LoopExhausted lastError, calls, waits) \<Rightarrow>
                   (c1\<lparr>gc_breaker := OnFailure now2 cb\<rparr>, lastError, calls))))"

text \<open>Go's \<open>(avg + elapsed) / 2\<close> truncates towards zero.\<close>

definition updateLatencyMetrics :: "duration \<Rightarrow> grpc_client \<Rightarrow> grpc_client" where
  "updateLatencyMetrics elapsed c =
    (let n = gc_AverageLatency c + elapsed
     in c\<lparr>gc_AverageLatency := sgn n * (\<bar>n\<bar> div 2), gc_MaxLatency := max (gc_MaxLatency c) elapsed\<rparr>)"

text \<open>The shape of \<open>GetUser\<close> and \<open>CreateUser\<close>.\<close>

definition unary_call ::
  "time \<Rightarrow> time \<Rightarrow> duration \<Rightarrow> (nat \<Rightarrow> bool) \<Rightarrow> (nat \<Rightarrow> client_error option) \<Rightarrow> grpc_client \<Rightarrow>
   grpc_client \<times> client_error option" where
  "unary_call now1 now2 elapsed ended operation c0 =
    (let c1 = c0\<lparr>gc_TotalRequests := gc_TotalRequests c0 + 1\<rparr>
     in case executeWithRetry now1 now2 ended operation c1 of
          (c2, err, calls) \<Rightarrow>
            (updateLatencyMetrics elapsed
               (case err of
                  Some e \<Rightarrow> c2\<lparr>gc_FailedRequests := gc_FailedRequests c2 + 1\<rparr>
                | None \<Rightarrow> c2\<lparr>gc_SuccessfulRequests := gc_SuccessfulRequests c2 + 1\<rparr>), err))"

section \<open>The connection pool\<close>

text \<open>
  \<open>dial addr j\<close> is whether the \<open>j\<close>-th connection to an address can be created; the first
  failure closes what was opened and is returned.
\<close>

fun open_all :: "(string \<Rightarrow> nat \<Rightarrow> bool) \<Rightarrow> (string \<times> nat) list \<Rightarrow> (string \<times> nat) list \<Rightarrow>
    (string \<times> (string \<times> nat) list) + (string \<times> nat) list" where
  "open_all dial [] opened = Inr opened"
| "open_all dial ((addr, j) # rest) opened =
     (if dial addr j then open_all dial rest (opened @ [(addr, j)]) else Inl (addr, opened))"

definition NewConnectionPool :: "(string \<Rightarrow> nat \<Rightarrow> bool) \<Rightarrow> string list \<Rightarrow> int \<Rightarrow>
    (string \<times> (string \<times> nat) list) + (string \<times> nat) list" where
  "NewConnectionPool dial addresses maxConnections =
     open_all dial (concat (map (\<lambda>a. map (\<lambda>j. (a, j)) [0..<nat maxConnections]) addresses)) []"

datatype 'c picked = NoClient | Picked 'c | IndexOutOfRange

text \<open>
  \<open>cp.current.Add(1) % int64(len(cp.clients))\<close>: the counter wraps at 64 bits and Go's
  remainder keeps the dividend's sign, so a wrapped counter gives a negative index (a panic).
\<close>

definition GetClient :: "'c list \<Rightarrow> 64 word \<Rightarrow> 64 word \<times> 'c picked" where
  "GetClient clients current =
    (if clients = [] then (current, NoClient)
     else (let current' = current + 1;
               n = sint current';
               index = sgn n * (\<bar>n\<bar> mod int (length clients))
           in (current', if 0 \<le> index \<and> index < int (length clients)
                         then Picked (clients ! nat index) else IndexOutOfRange)))"

fun picks :: "nat \<Rightarrow> 'c list \<Rightarrow> 64 word \<Rightarrow> 'c picked list" where
  "picks 0 clients current = []"
| "picks (Suc n) clients current =
     (case GetClient clients current of (current', p) \<Rightarrow> p # picks n clients current')"

section \<open>What a call returns\<close>

text \<open>Attempt \<open>k + j\<close> is the first to succeed, after retryable errors only and in time.\<close>

fun succeeds_at :: "(nat \<Rightarrow> bool) \<Rightarrow> (nat \<Rightarrow> client_error option) \<Rightarrow> nat \<Rightarrow> nat \<Rightarrow> bool" where
  "succeeds_at ended operation k 0 \<longleftrightarrow> (0 < k \<longrightarrow> \<not> ended k) \<and> operation k = None"
| "succeeds_at ended operation k (Suc j) \<longleftrightarrow> (0 < k \<longrightarrow> \<not> ended k) \<and>
     (case operation k of None \<Rightarrow> False | Some e \<Rightarrow> isRetryableError e) \<and>
     succeeds_at ended operation (Suc k) j"

lemma one_more_call [simp]:
  "fst (case t of (r, calls, waits) \<Rightarrow> (r, Suc calls, waits)) = fst t"
  "fst (case t of (r, calls, waits) \<Rightarrow> (r, Suc calls, w # waits)) = fst t"
  "fst (snd (case t of (r, calls, waits) \<Rightarrow> (r, Suc calls, waits))) = Suc (fst (snd t))"
  "fst (snd (case t of (r, calls, waits) \<Rightarrow> (r, Suc calls, w # waits))) = Suc (fst (snd t))"
  by (simp_all split: prod.splits)

lemma retry_loop_success:
  "fst (retry_loop rp ended operation n k b err0) = LoopSucceeded \<longleftrightarrow>
   (\<exists>j < n. succeeds_at ended operation k j)"
proof (induction n arbitrary: k b err0)
  case 0
  then show ?case by simp
next
  case (Suc n)
  have "(\<exists>j < Suc n. succeeds_at ended operation k j) \<longleftrightarrow>
      succeeds_at ended operation k 0 \<or> (\<exists>j < n. succeeds_at ended operation k (Suc j))"
    by (auto simp: less_Suc_eq_0_disj)
  then show ?case
    using Suc.IH by (cases "operation k") (simp_all add: Let_def)
qed

lemma retry_loop_calls: "fst (snd (retry_loop rp ended operation n k b err0)) \<le> n"
proof (induction n arbitrary: k b err0)
  case 0
  then show ?case by simp
next
  case (Suc n)
  then show ?case
    using Suc.IH by (cases "operation k") (simp_all add: Let_def)
qed

lemma retry_loop_exhausted:
  "0 < n \<or> err0 \<noteq> None \<Longrightarrow> fst (retry_loop rp ended operation n k b err0) \<noteq> LoopExhausted None"
proof (induction n arbitrary: k b err0)
  case 0
  then show ?case by simp
next
  case (Suc n)
  have "fst (retry_loop rp ended operation n k' b' (Some e)) \<noteq> LoopExhausted None" for k' b' e
    by (rule Suc.IH) simp
  then show ?case
    by (cases "operation k") (simp_all add: Let_def)
qed

text \<open>
  With a nonnegative retry budget a call returns no error exactly when the breaker admits it
  and some attempt within the budget succeeds after nothing but retryable errors and before its
  context ends; it never makes more attempts than the budget plus one.
\<close>

theorem executeWithRetry_result:
  assumes "0 \<le> rp_maxRetries (gc_policy c)"
  shows "(fst (snd (executeWithRetry now1 now2 ended operation c)) = None \<longleftrightarrow>
      snd (client_CanExecute now1 (gc_breaker c)) \<and>
      (\<exists>j \<le> nat (rp_maxRetries (gc_policy c)). succeeds_at ended operation 0 j)) \<and>
    snd (snd (executeWithRetry now1 now2 ended operation c)) \<le> nat (rp_maxRetries (gc_policy c)) + 1"
proof -
  let ?n = "nat (rp_maxRetries (gc_policy c) + 1)"
  have n: "?n = Suc (nat (rp_maxRetries (gc_policy c)))" using assms by simp
  obtain r calls waits where loop: "retry_loop (gc_policy c) ended operation ?n 0
      (rp_initialBackoff (gc_policy c)) None = (r, calls, waits)" by (metis prod_cases3)
  have s: "r = LoopSucceeded \<longleftrightarrow> (\<exists>j < ?n. succeeds_at ended operation 0 j)"
    using retry_loop_success [of "gc_policy c" ended operation ?n 0 "rp_initialBackoff (gc_policy c)" None]
    by (simp add: loop)
  have e: "r \<noteq> LoopExhausted None"
    using retry_loop_exhausted [of ?n None "gc_policy c" ended operation 0 "rp_initialBackoff (gc_policy c)"]
    unfolding loop by (simp add: n)
  have k: "calls \<le> ?n"
    using retry_loop_calls [of "gc_policy c" ended operation ?n 0 "rp_initialBackoff (gc_policy c)" None]
    by (simp add: loop)
  obtain cb ok where ce: "client_CanExecute now1 (gc_breaker c) = (cb, ok)" by fastforce
  show ?thesis
    using s e k loop
    by (cases ok; cases r) (auto simp: executeWithRetry_def ce Let_def n less_Suc_eq_le)
qed

definition example_client :: grpc_client where
  "example_client = \<lparr>gc_breaker = New_client_breaker 3 1000,
     gc_policy = \<lparr>rp_maxRetries = 2, rp_initialBackoff = 10, rp_maxBackoff = 15, rp_multiplier = 2\<rparr>,
     gc_TotalRequests = 0, gc_SuccessfulRequests = 0, gc_FailedRequests = 0, gc_AverageLatency = 0,
     gc_MaxLatency = 0, gc_CircuitBreakerTrips = 0\<rparr>"

lemma executeWithRetry_result_witness:
  "fst (snd (executeWithRetry 1 2 (\<lambda>_. False) (\<lambda>k. if k < 2 then Some (Rpc Unavailable) else None)
     example_client)) = None \<and>
   snd (snd (executeWithRetry 1 2 (\<lambda>_. False) (\<lambda>k. if k < 2 then Some (Rpc Unavailable) else None)
     example_client)) \<le> 3"
proof -
  have "succeeds_at (\<lambda>_. False) (\<lambda>k. if k < 2 then Some (Rpc Unavailable) else None) 0 2"
    by (simp add: numeral_2_eq_2 isRetryableError_def)
  moreover have "snd (client_CanExecute 1 (gc_breaker example_client))"
    by (simp add: example_client_def New_client_breaker_def client_CanExecute_def)
  moreover have p: "rp_maxRetries (gc_policy example_client) = 2" by (simp add: example_client_def)
  ultimately show ?thesis
    using executeWithRetry_result [of example_client 1 2 "\<lambda>_. False"
        "\<lambda>k. if k < 2 then Some (Rpc Unavailable) else None"] by auto
qed

text \<open>
  A negative retry budget makes an admitted call report success without a single attempt,
  while its breaker records a failure.
\<close>

theorem negative_budget_reports_success:
  assumes "rp_maxRetries (gc_policy c) < 0" and "snd (client_CanExecute now1 (gc_breaker c))"
  shows "fst (snd (executeWithRetry now1 now2 ended operation c)) = None \<and>
    snd (snd (executeWithRetry now1 now2 ended operation c)) = 0 \<and>
    gc_breaker (fst (executeWithRetry now1 now2 ended operation c)) =
      OnFailure now2 (fst (client_CanExecute now1 (gc_breaker c)))"
  using assms by (cases "client_CanExecute now1 (gc_breaker c)") (simp add: executeWithRetry_def Let_def)

definition negative_client :: grpc_client where
  "negative_client = example_client\<lparr>gc_policy := (gc_policy example_client)\<lparr>rp_maxRetries := -1\<rparr>\<rparr>"

lemma negative_budget_reports_success_witness:
  "fst (snd (executeWithRetry 1 2 (\<lambda>_. False) (\<lambda>_. Some NoAvailableClient) negative_client)) = None \<and>
   cb_failures (gc_breaker (fst (executeWithRetry 1 2 (\<lambda>_. False) (\<lambda>_. Some NoAvailableClient)
     negative_client))) = 1"
proof -
  have c: "client_CanExecute 1 (gc_breaker negative_client) = (New_client_breaker 3 1000, True)"
    by (simp add: negative_client_def example_client_def New_client_breaker_def client_CanExecute_def)
  have "rp_maxRetries (gc_policy negative_client) < 0" by (simp add: negative_client_def)
  from negative_budget_reports_success [OF this, of 1 2 "\<lambda>_. False" "\<lambda>_. Some NoAvailableClient"] c
  show ?thesis by (simp add: OnFailure_def New_client_breaker_def)
qed

text \<open>
  The failure that reaches the client breaker's threshold opens it for a whole timeout: no
  attempt until then is admitted, whatever late failures arrive in between.
\<close>

theorem client_breaker_fails_fast:
  assumes "0 < cb_timeout cb" and "cb_timeout cb < max_int64"
    and "cb_threshold cb \<le> cb_failures cb + 1"
    and "events_between now (now + cb_timeout cb) es"
  shows "True \<notin> set (snd (run_open client_CanExecute OnFailure (OnFailure now cb) es))"
proof -
  have o: "cb_state (OnFailure now cb) = CircuitBreakerOpen" "client_inv (OnFailure now cb)"
    "cb_lastFailTime (OnFailure now cb) = now" "cb_timeout (OnFailure now cb) = cb_timeout cb"
    using assms(1-3) by (simp_all add: OnFailure_def Let_def client_inv_def)
  then show ?thesis
    using client.fail_fast [of "OnFailure now cb" now es] assms(4)
    by (auto simp: client_status_def)
qed

lemma client_breaker_fails_fast_witness:
  "True \<notin> set (snd (run_open client_CanExecute OnFailure (OnFailure 5 (New_client_breaker 1 100))
     [Attempt 6, LateFailure 50, Attempt 105]))"
  by (rule client_breaker_fails_fast) (simp_all add: New_client_breaker_def)

section \<open>Round robin\<close>

lemma sint_plus_1: "sint (w :: 64 word) < max_int64 \<Longrightarrow> sint (w + 1) = sint w + 1"
proof -
  assume a: "sint w < max_int64"
  have "- (2 ^ 63) \<le> sint w" using sint_ge [of w] by simp
  then have "signed_take_bit 63 (sint w + 1) = sint w + 1"
    using a by (intro signed_take_bit_int_eq_self) simp_all
  then show ?thesis by (simp add: sint_word_ariths)
qed

lemma GetClient_in_range:
  assumes "clients \<noteq> []" and "0 \<le> sint current" and "sint current < max_int64"
  shows "GetClient clients current =
    (current + 1, Picked (clients ! (nat (sint current + 1) mod length clients)))"
proof -
  have "nat ((sint current + 1) mod int (length clients)) = nat (sint current + 1) mod length clients"
    using assms by (simp add: nat_mod_distrib)
  then show ?thesis
    using assms by (simp add: GetClient_def Let_def sint_plus_1 sgn_if)
qed

lemma picks_in_range:
  "clients \<noteq> [] \<Longrightarrow> 0 \<le> sint current \<Longrightarrow> sint current + int n \<le> max_int64 \<Longrightarrow>
   picks n clients current =
     map (\<lambda>i. Picked (clients ! ((nat (sint current + 1) + i) mod length clients))) [0..<n]"
proof (induction n arbitrary: current)
  case 0
  then show ?case by simp
next
  case (Suc n)
  have s: "sint (current + 1) = sint current + 1" using Suc.prems by (simp add: sint_plus_1)
  have ih: "picks n clients (current + 1) =
      map (\<lambda>i. Picked (clients ! ((nat (sint (current + 1) + 1) + i) mod length clients))) [0..<n]"
    using Suc.prems s by (intro Suc.IH) simp_all
  have n: "nat (sint (current + 1) + 1) + i = nat (sint current + 1) + Suc i" for i
    using Suc.prems(2) by (simp add: s nat_add_distrib)
  have "picks (Suc n) clients current =
      Picked (clients ! ((nat (sint current + 1) + 0) mod length clients)) # picks n clients (current + 1)"
    using Suc.prems by (simp add: GetClient_in_range)
  also have "\<dots> = Picked (clients ! ((nat (sint current + 1) + 0) mod length clients)) #
      map (\<lambda>i. Picked (clients ! ((nat (sint current + 1) + Suc i) mod length clients))) [0..<n]"
    by (simp only: ih n)
  also have "\<dots> = map (\<lambda>i. Picked (clients ! ((nat (sint current + 1) + i) mod length clients))) [0..<Suc n]"
    by (simp only: upt_conv_Cons [of 0 "Suc n"] map_Suc_upt [symmetric] list.map map_map o_def zero_less_Suc)
  finally show ?case .
qed

text \<open>
  The pool is fair: until its 64-bit counter overflows, any as many consecutive picks as
  there are clients hand out every client exactly once, in cyclic order.
\<close>

theorem round_robin_fair:
  assumes "clients \<noteq> []" and "0 \<le> sint current" and "sint current + int (length clients) \<le> max_int64"
  shows "picks (length clients) clients current = map Picked (rotate (nat (sint current + 1)) clients)"
proof -
  have "map (\<lambda>i. clients ! ((nat (sint current + 1) + i) mod length clients)) [0..<length clients] =
      rotate (nat (sint current + 1)) clients"
    by (rule nth_equalityI) (simp_all add: nth_rotate)
  then have "map Picked (map (\<lambda>i. clients ! ((nat (sint current + 1) + i) mod length clients))
      [0..<length clients]) = map Picked (rotate (nat (sint current + 1)) clients)"
    by simp
  then show ?thesis by (simp only: picks_in_range [OF assms] map_map o_def)
qed

lemma round_robin_fair_witness:
  "picks (length [''a'', ''b'', ''c'']) [''a'', ''b'', ''c''] (4 :: 64 word) =
     map Picked [''c'', ''a'', ''b'']"
proof -
  have "rotate 5 [''a'', ''b'', ''c''] = [''c'', ''a'', ''b'']" by (simp add: eval_nat_numeral)
  then show ?thesis
    using round_robin_fair [of "[''a'', ''b'', ''c'']" 4] by (simp del: picks.simps)
qed

end
