(* ===== verification/GenBreaker.thy ===== *)
theory GenBreaker
  imports Breaker
begin

text \<open>
  The generation-counting circuit breaker of chapter 7,
  \<^verbatim>\<open>07_error_handling_and_monitoring/01_circuit_breaker/circuit_breaker.go\<close>: settings and
  their defaults, the counts of the current generation, the admission and completion of calls,
  \<^verbatim>\<open>Execute\<close>, \<^verbatim>\<open>ExecuteWithTimeout\<close>, \<^verbatim>\<open>Reset\<close> and the HTTP wrapper.  The request and the
  callbacks of the settings are arguments; what other goroutines do to the breaker while a
  request runs is the argument \<open>others\<close>.
\<close>

section \<open>State\<close>

datatype State = StateClosed | StateHalfOpen | StateOpen

record gen_counts =
  ct_Requests :: int
  ct_TotalSuccesses :: int
  ct_TotalFailures :: int
  ct_ConsecutiveSuccesses :: int
  ct_ConsecutiveFailures :: int
  ct_TotalDuration :: duration

definition zero_counts :: gen_counts where
  "zero_counts = \<lparr>ct_Requests = 0, ct_TotalSuccesses = 0, ct_TotalFailures = 0,
     ct_ConsecutiveSuccesses = 0, ct_ConsecutiveFailures = 0, ct_TotalDuration = 0\<rparr>"

datatype gen_error =
  ErrCircuitBreakerOpen | ErrTooManyRequests | ErrOpenTimeout | ErrContext | PanicRecovered | ReqError nat

text \<open>A value of Go's type \<^verbatim>\<open>any\<close>: the HTTP response the wrapper expects, or something else.\<close>

datatype go_any = AnyResponse int | AnyOther string

record gen_settings =
  gs_MaxRequests :: int
  gs_Interval :: duration
  gs_Timeout :: duration
  gs_ReadyToTrip :: "(gen_counts \<Rightarrow> bool) option"
  gs_IsSuccessful :: "(gen_error option \<Rightarrow> bool) option"
  gs_Fallback :: "(gen_error \<Rightarrow> go_any option \<times> gen_error option) option"
  gs_SlowCallThreshold :: duration
  gs_FailureThreshold :: real
  gs_MinRequestThreshold :: int

text \<open>\<open>gb_changes\<close> records the calls of \<^verbatim>\<open>OnStateChange\<close>.\<close>

record gen_breaker =
  gb_maxRequests :: int
  gb_interval :: duration
  gb_timeout :: duration
  gb_readyToTrip :: "gen_counts \<Rightarrow> bool"
  gb_isSuccessful :: "gen_error option \<Rightarrow> bool"
  gb_fallback :: "(gen_error \<Rightarrow> go_any option \<times> gen_error option) option"
  gb_slowCallThreshold :: duration
  gb_state :: State
  gb_generation :: int
  gb_counts :: gen_counts
  gb_expiry :: time
  gb_changes :: "(State \<times> State) list"

definition toNewGeneration :: "time \<Rightarrow> gen_breaker \<Rightarrow> gen_breaker" where
  "toNewGeneration now cb =
     cb\<lparr>gb_generation := gb_generation cb + 1, gb_counts := zero_counts,
        gb_expiry := (case gb_state cb of
            StateClosed \<Rightarrow> if gb_interval cb = 0 then 0 else now + gb_interval cb
          | StateOpen \<Rightarrow> now + gb_timeout cb
          | StateHalfOpen \<Rightarrow> 0)\<rparr>"

definition defaultReadyToTrip :: "int \<Rightarrow> real \<Rightarrow> gen_counts \<Rightarrow> bool" where
  "defaultReadyToTrip minRequestThreshold failureThreshold counts \<longleftrightarrow>
     ct_Requests counts \<ge> minRequestThreshold \<and>
     real_of_int (ct_TotalFailures counts) / real_of_int (ct_Requests counts) \<ge> failureThreshold"

definition New_gen_breaker :: "time \<Rightarrow> gen_settings \<Rightarrow> gen_breaker" where
  "New_gen_breaker now st =
    (let minReq = (if gs_MinRequestThreshold st = 0 then 10 else gs_MinRequestThreshold st);
         failTh = (if gs_FailureThreshold st \<le> 0 then 1 / 2 else gs_FailureThreshold st)
     in toNewGeneration now
       \<lparr>gb_maxRequests = (if gs_MaxRequests st = 0 then 1 else gs_MaxRequests st),
        gb_interval = (if gs_Interval st \<le> 0 then 60 * Second else gs_Interval st),
        gb_timeout = (if gs_Timeout st \<le> 0 then 60 * Second else gs_Timeout st),
        gb_readyToTrip = (case gs_ReadyToTrip st of None \<Rightarrow> defaultReadyToTrip minReq failTh | Some f \<Rightarrow> f),
        gb_isSuccessful = (case gs_IsSuccessful st of None \<Rightarrow> (\<lambda>err. err = None) | Some f \<Rightarrow> f),
        gb_fallback = gs_Fallback st,
        gb_slowCallThreshold = (if gs_SlowCallThreshold st \<le> 0 then 5 * Second else gs_SlowCallThreshold st),
        gb_state = StateClosed, gb_generation = 0, gb_counts = zero_counts, gb_expiry = 0,
        gb_changes = []\<rparr>)"

definition setState :: "State \<Rightarrow> time \<Rightarrow> gen_breaker \<Rightarrow> gen_breaker" where
  "setState s now cb =
     (if gb_state cb = s then cb
      else (toNewGeneration now (cb\<lparr>gb_state := s\<rparr>))\<lparr>gb_changes := gb_changes cb @ [(gb_state cb, s)]\<rparr>)"

text \<open>The state and generation Go returns are the ones of the updated breaker.\<close>

definition currentState :: "time \<Rightarrow> gen_breaker \<Rightarrow> gen_breaker" where
  "currentState now cb =
     (case gb_state cb of
        StateClosed \<Rightarrow> if gb_expiry cb \<noteq> 0 \<and> gb_expiry cb < now then toNewGeneration now cb else cb
      | StateOpen \<Rightarrow> if gb_expiry cb < now then setState StateHalfOpen now cb else cb
      | StateHalfOpen \<Rightarrow> cb)"

section \<open>Operations\<close>

definition beforeRequest :: "time \<Rightarrow> gen_breaker \<Rightarrow> gen_breaker \<times> int \<times> gen_error option" where
  "beforeRequest now cb0 =
    (let cb = currentState now cb0
     in if gb_state cb = StateOpen then (cb, gb_generation cb, Some ErrCircuitBreakerOpen)
        else if gb_state cb = StateHalfOpen \<and> ct_Requests (gb_counts cb) \<ge> gb_maxRequests cb
        then (cb, gb_generation cb, Some ErrTooManyRequests)
        else (cb\<lparr>gb_counts := (gb_counts cb)\<lparr>ct_Requests := ct_Requests (gb_counts cb) + 1\<rparr>\<rparr>,
              gb_generation cb, None))"

definition gen_onSuccess :: "State \<Rightarrow> time \<Rightarrow> gen_breaker \<Rightarrow> gen_breaker" where
  "gen_onSuccess s now cb0 =
    (let c = gb_counts cb0;
         cb = cb0\<lparr>gb_counts := c\<lparr>ct_TotalSuccesses := ct_TotalSuccesses c + 1,
                                 ct_ConsecutiveSuccesses := ct_ConsecutiveSuccesses c + 1,
                                 ct_ConsecutiveFailures := 0\<rparr>\<rparr>
     in if s = StateHalfOpen then setState StateClosed now cb else cb)"

definition gen_onFailure :: "State \<Rightarrow> time \<Rightarrow> gen_breaker \<Rightarrow> gen_breaker" where
  "gen_onFailure s now cb0 =
    (let c = gb_counts cb0;
         cb = cb0\<lparr>gb_counts := c\<lparr>ct_TotalFailures := ct_TotalFailures c + 1,
                                 ct_ConsecutiveFailures := ct_ConsecutiveFailures c + 1,
                                 ct_ConsecutiveSuccesses := 0\<rparr>\<rparr>
     in case s of
          StateClosed \<Rightarrow> if gb_readyToTrip cb (gb_counts cb) then setState StateOpen now cb else cb
        | StateHalfOpen \<Rightarrow> setState StateOpen now cb
        | StateOpen \<Rightarrow> cb)"

text \<open>The duration is added after the state change: a call that changes the state leaves its
  duration in the new generation.\<close>

definition afterRequest :: "time \<Rightarrow> int \<Rightarrow> bool \<Rightarrow> duration \<Rightarrow> gen_breaker \<Rightarrow> gen_breaker" where
  "afterRequest now before success duration cb0 =
    (let cb = currentState now cb0
     in if gb_generation cb \<noteq> before then cb
        else (let cb1 = (if success then gen_onSuccess (gb_state cb) now cb
                         else gen_onFailure (gb_state cb) now cb)
              in cb1\<lparr>gb_counts := (gb_counts cb1)
                       \<lparr>ct_TotalDuration := ct_TotalDuration (gb_counts cb1) + duration\<rparr>\<rparr>))"

datatype req_outcome = Returns "go_any option" "gen_error option" duration | Panics

datatype exec_result = Returned "go_any option" "gen_error option" | Panicked

definition rejected :: "gen_breaker \<Rightarrow> gen_error \<Rightarrow> exec_result" where
  "rejected cb err =
     (case gb_fallback cb of
        Some f \<Rightarrow> (case f err of (v, e) \<Rightarrow> Returned v e)
      | None \<Rightarrow> Returned None (Some err))"

definition Execute ::
  "time \<Rightarrow> (gen_breaker \<Rightarrow> gen_breaker) \<Rightarrow> time \<Rightarrow> req_outcome \<Rightarrow> gen_breaker \<Rightarrow> gen_breaker \<times> exec_result" where
  "Execute now1 others now2 outcome cb =
     (case beforeRequest now1 cb of
        (cb1, generation, Some err) \<Rightarrow> (cb1, rejected cb1 err)
      | (cb1, generation, None) \<Rightarrow>
          (case outcome of
             Panics \<Rightarrow> (afterRequest now2 generation False 0 (others cb1), Panicked)
           | Returns v err duration \<Rightarrow>
               (let isSuccess = gb_isSuccessful cb1 err;
                    isSuccess' = (if isSuccess \<and> duration > gb_slowCallThreshold cb1 then False else isSuccess)
                in (afterRequest now2 generation isSuccess' duration (others cb1), Returned v err))))"

text \<open>What the \<^verbatim>\<open>select\<close> of \<^verbatim>\<open>ExecuteWithTimeout\<close> receives.\<close>

datatype wait_outcome = Finished req_outcome | TimeoutFires | ContextEnds

definition ExecuteWithTimeout ::
  "time \<Rightarrow> (gen_breaker \<Rightarrow> gen_breaker) \<Rightarrow> time \<Rightarrow> duration \<Rightarrow> wait_outcome \<Rightarrow> gen_breaker \<Rightarrow>
   gen_breaker \<times> exec_result" where
  "ExecuteWithTimeout now1 others now2 timeout outcome cb =
     (case beforeRequest now1 cb of
        (cb1, generation, Some err) \<Rightarrow> (cb1, rejected cb1 err)
      | (cb1, generation, None) \<Rightarrow>
          (case outcome of
             Finished r \<Rightarrow>
               (case (case r of Returns v err d \<Rightarrow> (v, err, d) | Panics \<Rightarrow> (None, Some PanicRecovered, 0)) of
                  (v, err, d) \<Rightarrow>
                    (afterRequest now2 generation (gb_isSuccessful cb1 err \<and> d \<le> gb_slowCallThreshold cb1) d
                       (others cb1), Returned v err))
           | TimeoutFires \<Rightarrow>
               (afterRequest now2 generation False timeout (others cb1), rejected cb1 ErrOpenTimeout)
           | ContextEnds \<Rightarrow>
               (afterRequest now2 generation False 0 (others cb1), Returned None (Some ErrContext))))"

definition Reset :: "time \<Rightarrow> gen_breaker \<Rightarrow> gen_breaker" where
  "Reset now cb = (toNewGeneration now cb)\<lparr>gb_state := StateClosed\<rparr>"

text \<open>
  \<^verbatim>\<open>HTTPClientWrapper.Get\<close> and \<^verbatim>\<open>Post\<close>: the result of \<^verbatim>\<open>Execute\<close> is asserted to be a
  response, and a failed type assertion panics.
\<close>

datatype http_got = GotResponse int | GotError gen_error | GotPanic

definition wrapper_Get ::
  "time \<Rightarrow> (gen_breaker \<Rightarrow> gen_breaker) \<Rightarrow> time \<Rightarrow> req_outcome \<Rightarrow> gen_breaker \<Rightarrow> gen_breaker \<times> http_got" where
  "wrapper_Get now1 others now2 outcome cb =
     (case Execute now1 others now2 outcome cb of
        (cb', Panicked) \<Rightarrow> (cb', GotPanic)
      | (cb', Returned v (Some err)) \<Rightarrow> (cb', GotError err)
      | (cb', Returned (Some (AnyResponse r)) None) \<Rightarrow> (cb', GotResponse r)
      | (cb', Returned _ None) \<Rightarrow> (cb', GotPanic))"

section \<open>The configuration is constant, and the interface's laws\<close>

lemma config_toNewGeneration [simp]:
  "gb_maxRequests (toNewGeneration now cb) = gb_maxRequests cb"
  "gb_interval (toNewGeneration now cb) = gb_interval cb"
  "gb_timeout (toNewGeneration now cb) = gb_timeout cb"
  "gb_state (toNewGeneration now cb) = gb_state cb"
  "gb_generation (toNewGeneration now cb) = gb_generation cb + 1"
  "gb_counts (toNewGeneration now cb) = zero_counts"
  by (simp_all add: toNewGeneration_def)

lemma config_setState [simp]:
  "gb_maxRequests (setState s now cb) = gb_maxRequests cb"
  "gb_interval (setState s now cb) = gb_interval cb"
  "gb_timeout (setState s now cb) = gb_timeout cb"
  "gb_state (setState s now cb) = s"
  by (simp_all add: setState_def)

lemma config_currentState [simp]:
  "gb_maxRequests (currentState now cb) = gb_maxRequests cb"
  "gb_interval (currentState now cb) = gb_interval cb"
  "gb_timeout (currentState now cb) = gb_timeout cb"
  by (simp_all add: currentState_def split: State.splits)

lemma config_completion [simp]:
  "gb_maxRequests (gen_onSuccess s now cb) = gb_maxRequests cb"
  "gb_interval (gen_onSuccess s now cb) = gb_interval cb"
  "gb_timeout (gen_onSuccess s now cb) = gb_timeout cb"
  "gb_maxRequests (gen_onFailure s now cb) = gb_maxRequests cb"
  "gb_interval (gen_onFailure s now cb) = gb_interval cb"
  "gb_timeout (gen_onFailure s now cb) = gb_timeout cb"
  by (simp_all add: gen_onSuccess_def gen_onFailure_def Let_def split: State.splits)

lemma config_afterRequest [simp]:
  "gb_maxRequests (afterRequest now g ok d cb) = gb_maxRequests cb"
  "gb_interval (afterRequest now g ok d cb) = gb_interval cb"
  "gb_timeout (afterRequest now g ok d cb) = gb_timeout cb"
  by (simp_all add: afterRequest_def Let_def)

lemma config_beforeRequest [simp]:
  "gb_maxRequests (fst (beforeRequest now cb)) = gb_maxRequests cb"
  "gb_interval (fst (beforeRequest now cb)) = gb_interval cb"
  "gb_timeout (fst (beforeRequest now cb)) = gb_timeout cb"
  by (simp_all add: beforeRequest_def Let_def)

lemma currentState_open [simp]:
  "gb_state cb = StateOpen \<Longrightarrow> now \<le> gb_expiry cb \<Longrightarrow> currentState now cb = cb"
  by (simp add: currentState_def)

lemma currentState_half_open [simp]: "gb_state cb = StateHalfOpen \<Longrightarrow> currentState now cb = cb"
  by (simp add: currentState_def)

definition gen_status :: "gen_breaker \<Rightarrow> breaker_status" where
  "gen_status cb = (case gb_state cb of StateClosed \<Rightarrow> BClosed | StateOpen \<Rightarrow> BOpen
     | StateHalfOpen \<Rightarrow> BHalfOpen)"

definition gen_admit :: "time \<Rightarrow> gen_breaker \<Rightarrow> gen_breaker \<times> bool" where
  "gen_admit now cb = (case beforeRequest now cb of (cb', g, err) \<Rightarrow> (cb', err = None))"

definition gen_finish :: "bool \<Rightarrow> time \<Rightarrow> gen_breaker \<Rightarrow> gen_breaker" where
  "gen_finish ok now cb = afterRequest now (gb_generation cb) ok 0 cb"

definition gen_inv :: "gen_breaker \<Rightarrow> bool" where
  "gen_inv cb \<longleftrightarrow> 0 < gb_timeout cb \<and> 0 < gb_maxRequests cb"

lemma fst_gen_admit [simp]: "fst (gen_admit now cb) = fst (beforeRequest now cb)"
  by (simp add: gen_admit_def split: prod.splits)

lemma config_gen_finish [simp]:
  "gb_maxRequests (gen_finish ok now cb) = gb_maxRequests cb"
  "gb_timeout (gen_finish ok now cb) = gb_timeout cb"
  by (simp_all add: gen_finish_def)

lemma gen_finish_half_open:
  "gb_state cb = StateHalfOpen \<Longrightarrow>
   gb_state (gen_finish ok now cb) = (if ok then StateClosed else StateOpen) \<and>
   (\<not> ok \<longrightarrow> gb_expiry (gen_finish ok now cb) = now + gb_timeout cb)"
  by (simp add: gen_finish_def afterRequest_def gen_onSuccess_def gen_onFailure_def Let_def
      setState_def toNewGeneration_def)

lemma gen_finish_open:
  "gb_state cb = StateOpen \<Longrightarrow> now \<le> gb_expiry cb \<Longrightarrow>
   gb_state (gen_finish ok now cb) = StateOpen \<and> gb_expiry (gen_finish ok now cb) = gb_expiry cb"
  by (simp add: gen_finish_def afterRequest_def gen_onSuccess_def gen_onFailure_def Let_def)

lemma gen_admit_open:
  "gb_state cb = StateOpen \<Longrightarrow> now \<le> gb_expiry cb \<Longrightarrow> gen_admit now cb = (cb, False)"
  by (simp add: gen_admit_def beforeRequest_def Let_def)

lemma gen_admit_probe:
  "gen_inv cb \<Longrightarrow> gb_state cb = StateOpen \<Longrightarrow> gb_expiry cb < now \<Longrightarrow>
   gb_state (fst (beforeRequest now cb)) = StateHalfOpen \<and> snd (gen_admit now cb)"
  by (simp add: gen_admit_def beforeRequest_def Let_def currentState_def setState_def gen_inv_def
      toNewGeneration_def zero_counts_def)

interpretation gen: breaker gen_status gen_admit "gen_finish True" "gen_finish False" gb_expiry
    gb_timeout "\<lambda>_. True" "\<lambda>_. 0" gen_inv
proof (unfold_locales, goal_cases)
  case (7 b now)
  then show ?case
    using gen_finish_open [of b now False] by (simp add: gen_status_def split: State.splits)
qed (auto simp: gen_status_def gen_inv_def gen_finish_half_open gen_admit_open gen_admit_probe
    split: State.splits)

section \<open>Calls in flight\<close>

text \<open>
  The breaker with the tokens (generations) of the requests that are running.  Each event is
  one critical section of the code: the admission of a call, the completion of the \<open>i\<close>-th
  running call, a reset, or a query of the state.
\<close>

datatype gen_event = Ask time | Complete nat time bool duration | ResetNow time | Query time

fun ev_time :: "gen_event \<Rightarrow> time" where
  "ev_time (Ask now) = now"
| "ev_time (Complete i now ok d) = now"
| "ev_time (ResetNow now) = now"
| "ev_time (Query now) = now"

fun gen_step :: "gen_breaker \<times> int list \<Rightarrow> gen_event \<Rightarrow> gen_breaker \<times> int list" where
  "gen_step (cb, pending) (Ask now) =
     (case beforeRequest now cb of
        (cb', g, None) \<Rightarrow> (cb', pending @ [g])
      | (cb', g, Some err) \<Rightarrow> (cb', pending))"
| "gen_step (cb, pending) (Complete i now ok d) =
     (if i < length pending then (afterRequest now (pending ! i) ok d cb, drop_at i pending)
      else (cb, pending))"
| "gen_step (cb, pending) (ResetNow now) = (Reset now cb, pending)"
| "gen_step (cb, pending) (Query now) = (currentState now cb, pending)"

definition gen_run :: "gen_breaker \<times> int list \<Rightarrow> gen_event list \<Rightarrow> gen_breaker \<times> int list" where
  "gen_run = foldl gen_step"

definition tokens_ok :: "gen_breaker \<Rightarrow> int list \<Rightarrow> bool" where
  "tokens_ok cb pending \<longleftrightarrow> 0 < gb_maxRequests cb \<and> (\<forall>g \<in> set pending. g \<le> gb_generation cb) \<and>
     (let c = gb_counts cb in
      0 \<le> ct_TotalSuccesses c \<and> 0 \<le> ct_TotalFailures c \<and>
      ct_Requests c = ct_TotalSuccesses c + ct_TotalFailures c + int (count_list pending (gb_generation cb)) \<and>
      (gb_state cb = StateHalfOpen \<longrightarrow> ct_Requests c \<le> gb_maxRequests cb))"

lemma tokens_new_generation:
  assumes "tokens_ok cb pending" and "gb_generation cb' = gb_generation cb + 1"
    and "gb_counts cb' = zero_counts" and "gb_maxRequests cb' = gb_maxRequests cb"
  shows "tokens_ok cb' pending"
proof -
  have "gb_generation cb + 1 \<notin> set pending" using assms(1) by (force simp: tokens_ok_def)
  then have "count_list pending (gb_generation cb + 1) = 0" by (simp add: count_list_0_iff)
  then show ?thesis
    using assms by (force simp: tokens_ok_def Let_def zero_counts_def)
qed

lemma tokens_setState: "tokens_ok cb pending \<Longrightarrow> tokens_ok (setState s now cb) pending"
  by (cases "gb_state cb = s")
    (simp_all add: setState_def tokens_new_generation [of cb])

lemma tokens_currentState: "tokens_ok cb pending \<Longrightarrow> tokens_ok (currentState now cb) pending"
  by (simp add: currentState_def tokens_setState tokens_new_generation [of cb] split: State.splits)

lemma tokens_beforeRequest:
  assumes "tokens_ok cb pending"
  shows "case beforeRequest now cb of
      (cb', g, None) \<Rightarrow> tokens_ok cb' (pending @ [g])
    | (cb', g, Some err) \<Rightarrow> tokens_ok cb' pending"
  using tokens_currentState [OF assms, of now]
  by (auto simp: beforeRequest_def Let_def tokens_ok_def)

text \<open>Completing a call first removes its token and counts it, then may change the state.\<close>

lemma tokens_counted:
  assumes "tokens_ok cb pending" and "i < length pending"
    and "gb_generation cb' = gb_generation cb" and "gb_maxRequests cb' = gb_maxRequests cb"
    and "gb_state cb' = gb_state cb"
    and "ct_Requests (gb_counts cb') = ct_Requests (gb_counts cb)"
    and "ct_TotalSuccesses (gb_counts cb') + ct_TotalFailures (gb_counts cb') =
      ct_TotalSuccesses (gb_counts cb) + ct_TotalFailures (gb_counts cb) +
      (if pending ! i = gb_generation cb then 1 else 0)"
    and "ct_TotalSuccesses (gb_counts cb) \<le> ct_TotalSuccesses (gb_counts cb')"
    and "ct_TotalFailures (gb_counts cb) \<le> ct_TotalFailures (gb_counts cb')"
  shows "tokens_ok cb' (drop_at i pending)"
  using assms set_drop_at [of i pending] count_drop_at [OF assms(2), of "gb_generation cb"]
  by (auto simp: tokens_ok_def Let_def)

lemma tokens_duration:
  "tokens_ok cb pending \<Longrightarrow> tokens_ok (cb\<lparr>gb_counts := (gb_counts cb)\<lparr>ct_TotalDuration := d\<rparr>\<rparr>) pending"
  by (auto simp: tokens_ok_def Let_def)

lemma tokens_afterRequest:
  assumes "tokens_ok cb0 pending" and "i < length pending"
  shows "tokens_ok (afterRequest now (pending ! i) ok d cb0) (drop_at i pending)"
proof -
  define cb where "cb = currentState now cb0"
  have ok: "tokens_ok cb pending" unfolding cb_def by (rule tokens_currentState) (rule assms(1))
  show ?thesis
  proof (cases "pending ! i = gb_generation cb")
    case False
    then have "afterRequest now (pending ! i) ok d cb0 = cb"
      by (simp add: afterRequest_def cb_def Let_def)
    then show ?thesis using tokens_counted [OF ok assms(2), of cb] False by simp
  next
    case True
    have s: "tokens_ok (gen_onSuccess (gb_state cb) now cb) (drop_at i pending)"
      unfolding gen_onSuccess_def Let_def
      by (auto intro!: tokens_setState intro: tokens_counted [OF ok assms(2)] simp: True)
    have f: "tokens_ok (gen_onFailure (gb_state cb) now cb) (drop_at i pending)"
      unfolding gen_onFailure_def Let_def
      by (auto intro!: tokens_setState intro: tokens_counted [OF ok assms(2)] simp: True split: State.splits)
    show ?thesis
      using s f by (auto simp: afterRequest_def True cb_def [symmetric] Let_def intro: tokens_duration)
  qed
qed

lemma tokens_step: "tokens_ok cb pending \<Longrightarrow> case_prod tokens_ok (gen_step (cb, pending) e)"
proof (cases e)
  case (Ask now)
  assume "tokens_ok cb pending"
  from tokens_beforeRequest [OF this, of now] show ?thesis
    using Ask by (auto split: prod.splits option.splits)
next
  case (ResetNow now)
  assume "tokens_ok cb pending"
  then show ?thesis using ResetNow by (simp add: Reset_def tokens_new_generation [of cb])
qed (simp_all add: tokens_afterRequest tokens_currentState)

lemma tokens_run: "case_prod tokens_ok sys \<Longrightarrow> case_prod tokens_ok (gen_run sys es)"
proof (induction es arbitrary: sys)
  case Nil
  then show ?case by (simp add: gen_run_def)
next
  case (Cons e es)
  then have "case_prod tokens_ok (gen_step sys e)" by (cases sys) (simp add: tokens_step)
  from Cons.IH [OF this] show ?case by (simp add: gen_run_def)
qed

lemma tokens_new:
  assumes "0 \<le> gs_MaxRequests st"
  shows "tokens_ok (New_gen_breaker now st) []"
  using assms by (simp add: tokens_ok_def New_gen_breaker_def Let_def zero_counts_def)

text \<open>
  C31. Whatever sequence of admissions, completions in any order, resets and queries the breaker
  goes through, the requests counted in the current generation are its completed ones plus the
  ones in flight, and a half-open breaker never has more probes in flight than \<open>MaxRequests\<close>.
\<close>

theorem half_open_probes_bounded:
  assumes "0 \<le> gs_MaxRequests st" and "gen_run (New_gen_breaker now st, []) es = (cb, pending)"
  shows "ct_Requests (gb_counts cb) = ct_TotalSuccesses (gb_counts cb) + ct_TotalFailures (gb_counts cb) +
      int (count_list pending (gb_generation cb)) \<and>
    (gb_state cb = StateHalfOpen \<longrightarrow> int (count_list pending (gb_generation cb)) \<le> gb_maxRequests cb)"
  using tokens_run [of "(New_gen_breaker now st, [])" es] tokens_new [OF assms(1), of now] assms(2)
  by (auto simp: tokens_ok_def Let_def)

definition quick_settings :: gen_settings where
  "quick_settings = \<lparr>gs_MaxRequests = 2, gs_Interval = 1000, gs_Timeout = 100,
     gs_ReadyToTrip = Some (\<lambda>c. ct_ConsecutiveFailures c \<ge> 1), gs_IsSuccessful = None,
     gs_Fallback = None, gs_SlowCallThreshold = 50, gs_FailureThreshold = 0, gs_MinRequestThreshold = 0\<rparr>"

definition quick_history :: "gen_event list" where
  "quick_history = [Ask 2, Ask 3, Complete 0 10 False 5, Ask 120, Complete 0 121 True 5, Ask 122, Ask 123]"

lemma half_open_probes_bounded_witness:
  "gb_state (fst (gen_run (New_gen_breaker 1 quick_settings, []) quick_history)) = StateHalfOpen \<and>
   int (count_list (snd (gen_run (New_gen_breaker 1 quick_settings, []) quick_history))
     (gb_generation (fst (gen_run (New_gen_breaker 1 quick_settings, []) quick_history)))) \<le> 2"
proof -
  let ?r = "gen_run (New_gen_breaker 1 quick_settings, []) quick_history"
  have "0 \<le> gs_MaxRequests quick_settings" by (simp add: quick_settings_def)
  moreover have "?r = (fst ?r, snd ?r)" by simp
  ultimately have "gb_state (fst ?r) = StateHalfOpen \<longrightarrow>
      int (count_list (snd ?r) (gb_generation (fst ?r))) \<le> gb_maxRequests (fst ?r)"
    using half_open_probes_bounded [of quick_settings 1 quick_history "fst ?r" "snd ?r"] by simp
  moreover have "gb_state (fst ?r) = StateHalfOpen" by code_simp
  moreover have "gb_maxRequests (fst ?r) = 2" by code_simp
  ultimately show ?thesis by simp
qed

section \<open>The open state\<close>

text \<open>
  Until an open breaker's deadline, no sequence of requests, completions of earlier requests
  (successful or not) and queries changes its state or lets a request through: the running
  requests only dwindle.
\<close>

theorem gen_open_is_shut:
  assumes "gb_state cb = StateOpen" and "\<forall>e \<in> set es. ev_time e \<le> gb_expiry cb"
    and "\<forall>e \<in> set es. \<nexists>now. e = ResetNow now"
  shows "gb_state (fst (gen_run (cb, pending) es)) = StateOpen \<and>
    gb_expiry (fst (gen_run (cb, pending) es)) = gb_expiry cb \<and>
    length (snd (gen_run (cb, pending) es)) \<le> length pending \<and>
    set (snd (gen_run (cb, pending) es)) \<subseteq> set pending"
  using assms
proof (induction es arbitrary: cb pending)
  case Nil
  then show ?case by (simp add: gen_run_def)
next
  case (Cons e es)
  obtain cb1 pending1 where step: "gen_step (cb, pending) e = (cb1, pending1)" by fastforce
  have t: "ev_time e \<le> gb_expiry cb" using Cons.prems by simp
  have 1: "gb_state cb1 = StateOpen \<and> gb_expiry cb1 = gb_expiry cb \<and>
      length pending1 \<le> length pending \<and> set pending1 \<subseteq> set pending"
  proof (cases e)
    case (Ask now)
    then show ?thesis using step t Cons.prems(1) by (auto simp: beforeRequest_def Let_def)
  next
    case (Complete i now ok d)
    then show ?thesis
      using step t Cons.prems(1) set_drop_at [of i pending]
      by (auto simp: afterRequest_def gen_onSuccess_def gen_onFailure_def Let_def drop_at_def
          dest: in_set_takeD in_set_dropD split: if_splits)
  next
    case (ResetNow now)
    then show ?thesis using Cons.prems(3) by auto
  next
    case (Query now)
    then show ?thesis using step t Cons.prems(1) by auto
  qed
  have "gen_run (cb, pending) (e # es) = gen_run (cb1, pending1) es" by (simp add: gen_run_def step)
  then show ?case using Cons.IH [of cb1 pending1] 1 Cons.prems by fastforce
qed

definition tripped_breaker :: gen_breaker where
  "tripped_breaker = setState StateOpen 10 (New_gen_breaker 1 quick_settings)"

lemma gen_open_is_shut_witness:
  "gb_state (fst (gen_run (tripped_breaker, [1]) [Ask 20, Complete 0 30 True 5, Ask 110])) = StateOpen \<and>
   length (snd (gen_run (tripped_breaker, [1]) [Ask 20, Complete 0 30 True 5, Ask 110])) \<le> 1"
proof -
  have "gb_state tripped_breaker = StateOpen" by code_simp
  moreover have "gb_expiry tripped_breaker = 110" by code_simp
  ultimately show ?thesis
    using gen_open_is_shut [of tripped_breaker "[Ask 20, Complete 0 30 True 5, Ask 110]" "[1]"] by simp
qed

text \<open>
  After its deadline an open breaker admits a request and its success closes the breaker;
  its failure instead opens it again for a whole timeout in which nothing is admitted.
\<close>

theorem gen_probe_decides:
  assumes "0 < gb_timeout cb" and "0 < gb_maxRequests cb" and "gb_state cb = StateOpen"
    and "gb_expiry cb < now" and "events_between later (later + gb_timeout cb) es"
  shows "snd (gen_admit now cb) \<and>
    gb_state (gen_finish True later (fst (gen_admit now cb))) = StateClosed \<and>
    (\<forall>ok \<in> set (snd (run_open gen_admit (gen_finish False)
        (gen_finish False later (fst (gen_admit now cb))) es)). \<not> ok)"
proof -
  have inv: "gen_inv cb" using assms(1,2) by (simp add: gen_inv_def)
  from gen_admit_probe [OF this assms(3,4)]
  have half: "gb_state (fst (gen_admit now cb)) = StateHalfOpen" "snd (gen_admit now cb)"
    by simp_all
  then show ?thesis
    using gen_finish_half_open [of "fst (gen_admit now cb)" True later]
      gen.failed_probe_fails_fast [of "fst (gen_admit now cb)" later es]
      gen.inv_admit [OF inv, of now] assms(5)
    by (auto simp: gen_status_def)
qed

lemma gen_probe_decides_witness:
  "snd (gen_admit 111 tripped_breaker) \<and>
   gb_state (gen_finish True 115 (fst (gen_admit 111 tripped_breaker))) = StateClosed"
proof -
  have "gb_timeout tripped_breaker = 100" by code_simp
  moreover have "gb_maxRequests tripped_breaker = 2" by code_simp
  moreover have "gb_state tripped_breaker = StateOpen" by code_simp
  moreover have "gb_expiry tripped_breaker = 110" by code_simp
  ultimately show ?thesis using gen_probe_decides [of tripped_breaker 111 115 "[Attempt 120]"] by simp
qed

section \<open>Reset\<close>

text \<open>Successful calls one after the other at given times.\<close>

fun successful_calls :: "time list \<Rightarrow> gen_breaker \<Rightarrow> gen_breaker" where
  "successful_calls [] cb = cb"
| "successful_calls (t # ts) cb =
     (case beforeRequest t cb of (cb', g, err) \<Rightarrow> successful_calls ts (afterRequest t g True 0 cb'))"

lemma successful_calls_unexpiring:
  "gb_state cb = StateClosed \<Longrightarrow> gb_expiry cb = 0 \<Longrightarrow>
   ct_Requests (gb_counts (successful_calls ts cb)) = ct_Requests (gb_counts cb) + int (length ts)"
proof (induction ts arbitrary: cb)
  case Nil
  then show ?case by simp
next
  case (Cons t ts)
  obtain cb' g err where b: "beforeRequest t cb = (cb', g, err)" by (metis prod_cases3)
  have cur: "currentState t cb = cb" using Cons.prems by (simp add: currentState_def)
  then have cb': "gb_state cb' = StateClosed" "gb_expiry cb' = 0" "g = gb_generation cb'"
      "ct_Requests (gb_counts cb') = ct_Requests (gb_counts cb) + 1"
    using b Cons.prems by (auto simp: beforeRequest_def Let_def)
  then have "currentState t cb' = cb'" by (simp add: currentState_def)
  then have "gb_state (afterRequest t g True 0 cb') = StateClosed"
      "gb_expiry (afterRequest t g True 0 cb') = 0"
      "ct_Requests (gb_counts (afterRequest t g True 0 cb')) = ct_Requests (gb_counts cb) + 1"
    using cb' by (simp_all add: afterRequest_def gen_onSuccess_def Let_def)
  with Cons.IH [of "afterRequest t g True 0 cb'"] show ?case by (simp add: b)
qed

text \<open>
  \<open>Reset\<close> renews the deadline before it sets the state.  So a reset of a closed breaker
  starts a new interval, but a reset of a half-open one leaves the closed breaker without any
  interval: its counts are never cleared again, however far apart the calls are.
\<close>

theorem reset_half_open_loses_interval:
  assumes "gb_interval cb \<noteq> 0"
  shows "gb_state (Reset now cb) = StateClosed \<and>
    gb_expiry (Reset now cb) = (case gb_state cb of StateClosed \<Rightarrow> now + gb_interval cb
       | StateOpen \<Rightarrow> now + gb_timeout cb | StateHalfOpen \<Rightarrow> 0) \<and>
    (gb_state cb = StateHalfOpen \<longrightarrow>
       ct_Requests (gb_counts (successful_calls ts (Reset now cb))) = int (length ts))"
  using assms successful_calls_unexpiring [of "Reset now cb" ts]
  by (auto simp: Reset_def toNewGeneration_def zero_counts_def split: State.splits)

lemma reset_half_open_loses_interval_witness:
  "ct_Requests (gb_counts (successful_calls [200, 100000, 200000]
     (Reset 130 (currentState 120 tripped_breaker)))) = 3"
proof -
  have "gb_interval (currentState 120 tripped_breaker) \<noteq> 0" by code_simp
  moreover have "gb_state (currentState 120 tripped_breaker) = StateHalfOpen" by code_simp
  ultimately show ?thesis
    using reset_half_open_loses_interval [of "currentState 120 tripped_breaker" 130 "[200, 100000, 200000]"]
    by simp
qed

section \<open>The HTTP wrapper\<close>

text \<open>
  The wrapper panics on a rejected call whose fallback answers, without an error, anything
  but a response, as the fallback of the program's own example does.
\<close>

theorem wrapper_fallback_panics:
  assumes "gb_state cb = StateOpen" and "now1 \<le> gb_expiry cb" and "gb_fallback cb = Some f"
    and "f ErrCircuitBreakerOpen = (Some (AnyOther s), None)"
  shows "wrapper_Get now1 others now2 outcome cb = (cb, GotPanic)"
  using assms by (simp add: wrapper_Get_def Execute_def beforeRequest_def Let_def rejected_def)

lemma wrapper_fallback_panics_witness:
  "wrapper_Get 50 id 60 Panics (tripped_breaker\<lparr>gb_fallback := Some (\<lambda>_. (Some (AnyOther ''fallback response''), None))\<rparr>) =
   (tripped_breaker\<lparr>gb_fallback := Some (\<lambda>_. (Some (AnyOther ''fallback response''), None))\<rparr>, GotPanic)"
proof -
  have "gb_state tripped_breaker = StateOpen" by code_simp
  moreover have "gb_expiry tripped_breaker = 110" by code_simp
  ultimately show ?thesis by (intro wrapper_fallback_panics) simp_all
qed

end
