(* ===== verification/RingBuffer.thy ===== *)
theory RingBuffer
  imports Prelude
begin

text \<open>
  The sliding windows of the repository: a slice of fixed length, the index of the next slot and
  a flag that the slice has been filled once.  The interface \<open>sliding_window\<close> says that adding
  a result keeps the most recent ones, as many as the window holds; the ring buffer provides it.
\<close>

text \<open>The loop over the slots below the window's size, as the rate functions write it.\<close>

fun count_slots :: "('a \<Rightarrow> bool) \<Rightarrow> 'a list \<Rightarrow> nat \<Rightarrow> nat" where
  "count_slots P w 0 = 0"
| "count_slots P w (Suc i) = count_slots P w i + (if P (w ! i) then 1 else 0)"

lemma count_slots_eq: "n \<le> length w \<Longrightarrow> count_slots P w n = length (filter P (take n w))"
  by (induction n) (simp_all add: take_Suc_conv_app_nth)

section \<open>The interface\<close>

locale sliding_window =
  fixes ok :: "'s \<Rightarrow> bool"
    and capacity :: "'s \<Rightarrow> nat"
    and view :: "'s \<Rightarrow> 'r list"
    and add :: "'r \<Rightarrow> 's \<Rightarrow> 's"
  assumes ok_add: "ok s \<Longrightarrow> ok (add r s)"
    and capacity_add: "ok s \<Longrightarrow> capacity (add r s) = capacity s"
    and view_add: "ok s \<Longrightarrow> view (add r s) = lastn (capacity s) (view s @ [r])"
begin

lemma view_adds:
  "ok s \<Longrightarrow> length (view s) \<le> capacity s \<Longrightarrow>
   ok (fold add rs s) \<and> capacity (fold add rs s) = capacity s \<and>
   view (fold add rs s) = lastn (capacity s) (view s @ rs)"
proof (induction rs arbitrary: s)
  case Nil
  then show ?case by (simp add: lastn_all)
next
  case (Cons r rs)
  have "length (view (add r s)) \<le> capacity (add r s)"
    using Cons.prems by (simp add: view_add capacity_add lastn_def)
  with Cons.IH [of "add r s"] Cons.prems show ?case
    by (simp add: ok_add capacity_add view_add lastn_lastn)
qed

end

section \<open>The ring buffer\<close>

type_synonym 'r ring = "'r list \<times> nat \<times> bool"

fun ring_add :: "'r \<Rightarrow> 'r ring \<Rightarrow> 'r ring" where
  "ring_add r (w, i, full) =
     (let i' = (i + 1) mod length w in (w[i := r], i', if i' = 0 then True else full))"

fun ring_view :: "'r ring \<Rightarrow> 'r list" where
  "ring_view (w, i, full) = (if full then drop i w @ take i w else take i w)"

fun ring_size :: "'r ring \<Rightarrow> nat" where
  "ring_size (w, i, full) = (if full then length w else i)"

fun ring_ok :: "'r ring \<Rightarrow> bool" where
  "ring_ok (w, i, full) \<longleftrightarrow> i < length w"

lemma length_ring_view: "ring_ok s \<Longrightarrow> length (ring_view s) = ring_size s"
  by (cases s) simp

lemma ring_view_add:
  assumes "ring_ok s"
  shows "ring_view (ring_add r s) = lastn (length (fst s)) (ring_view s @ [r])"
proof (cases s)
  case (fields w i full)
  have i: "i < length w" using assms fields by simp
  have split: "drop i w = w ! i # drop (Suc i) w" by (rule Cons_nth_drop_Suc [symmetric]) (rule i)
  have upd: "take (Suc i) (w[i := r]) = take i w @ [r]" "drop (Suc i) (w[i := r]) = drop (Suc i) w"
    using i by (simp_all add: take_Suc_conv_app_nth)
  show ?thesis
  proof (cases "Suc i = length w")
    case True
    then have "w[i := r] = take i w @ [r]" using upd(1) by simp
    then show ?thesis using True i by (auto simp: fields Let_def split lastn_def)
  next
    case False
    with i have m: "(i + 1) mod length w = Suc i" by simp
    show ?thesis
    proof (cases full)
      case True
      have "Suc (Suc (length w - Suc 0)) - length w = 1" using i by linarith
      then show ?thesis using True False i upd m by (simp add: fields Let_def split lastn_def)
    next
      case nf: False
      then show ?thesis using False i upd m by (simp add: fields Let_def lastn_def)
    qed
  qed
qed

interpretation ring: sliding_window ring_ok "\<lambda>s. length (fst s)" ring_view ring_add
proof (unfold_locales, goal_cases)
  case (1 s r)
  then show ?case by (cases s) (auto simp: Let_def intro: mod_less_divisor)
next
  case (2 s r)
  then show ?case by (cases s) (simp add: Let_def)
next
  case (3 s r)
  then show ?case by (rule ring_view_add)
qed

lemma count_slots_ring:
  assumes "ring_ok s"
  shows "count_slots P (fst s) (ring_size s) = length (filter P (ring_view s))"
proof (cases s)
  case (fields w i full)
  have "length (filter P w) = length (filter P (drop i w)) + length (filter P (take i w))"
    by (metis add.commute append_take_drop_id filter_append length_append)
  then show ?thesis
    using assms by (cases full) (simp_all add: fields count_slots_eq)
qed

end
