(* ===== verification/AdvancedBreaker.thy ===== *)
theory AdvancedBreaker
  imports Breaker RingBuffer
begin

text \<open>
  The sliding-window circuit breaker of chapter 7,
  \<^verbatim>\<open>07_error_handling_and_monitoring/ans_01/circuit_breaker_advanced.go\<close>: its ring buffer of
  results, the metrics, the state transitions, and the execution of a call.  Clock reads of
  one critical section are one instant.
\<close>

section \<open>State\<close>

datatype AdvState = AdvClosed | AdvOpen | AdvHalfOpen

record RequestResult =
  rr_Success :: bool
  rr_Duration :: duration
  rr_Timestamp :: time
  rr_IsSlowCall :: bool

record adv_metrics =
  am_TotalRequests :: int
  am_SuccessfulRequests :: int
  am_FailedRequests :: int
  am_ConsecutiveFailures :: int
  am_LastFailureTime :: time
  am_LastSuccessTime :: time
  am_AverageResponseTime :: duration
  am_TotalResponseTime :: duration
  am_SlowRequestCount :: int
  am_CircuitOpenCount :: int
  am_LastStateChange :: time

record adv_config =
  ac_FailureThreshold :: int
  ac_FailureRateThreshold :: real
  ac_SlowCallThreshold :: duration
  ac_SlowCallRateThreshold :: real
  ac_MinimumRequestCount :: int
  ac_OpenTimeout :: duration
  ac_MaxConcurrentRequests :: int
  ac_SlidingWindowSize :: nat

record adv_breaker =
  ab_config :: adv_config
  ab_state :: AdvState
  ab_metrics :: adv_metrics
  ab_stateExpiry :: time
  ab_requestWindow :: "RequestResult list"
  ab_windowIndex :: nat
  ab_windowFull :: bool
  ab_activeRequests :: int
  ab_generation :: int

datatype adv_error = ErrCircuitOpen | ErrTooManyConcurrent | ErrRequestTimeout | ErrCtx | ErrPanic | ErrRequest nat

definition zero_result :: RequestResult where
  "zero_result = \<lparr>rr_Success = False, rr_Duration = 0, rr_Timestamp = 0, rr_IsSlowCall = False\<rparr>"

definition zero_metrics :: "time \<Rightarrow> adv_metrics" where
  "zero_metrics now = \<lparr>am_TotalRequests = 0, am_SuccessfulRequests = 0, am_FailedRequests = 0,
     am_ConsecutiveFailures = 0, am_LastFailureTime = 0, am_LastSuccessTime = 0,
     am_AverageResponseTime = 0, am_TotalResponseTime = 0, am_SlowRequestCount = 0,
     am_CircuitOpenCount = 0, am_LastStateChange = now\<rparr>"

definition New_adv_breaker :: "time \<Rightarrow> adv_config \<Rightarrow> adv_breaker" where
  "New_adv_breaker now cfg0 =
    (let cfg = \<lparr>
       ac_FailureThreshold = (if ac_FailureThreshold cfg0 = 0 then 3 else ac_FailureThreshold cfg0),
       ac_FailureRateThreshold = (if ac_FailureRateThreshold cfg0 = 0 then 1/2 else ac_FailureRateThreshold cfg0),
       ac_SlowCallThreshold = (if ac_SlowCallThreshold cfg0 = 0 then 5 * Second else ac_SlowCallThreshold cfg0),
       ac_SlowCallRateThreshold = (if ac_SlowCallRateThreshold cfg0 = 0 then 1/2 else ac_SlowCallRateThreshold cfg0),
       ac_MinimumRequestCount = (if ac_MinimumRequestCount cfg0 = 0 then 10 else ac_MinimumRequestCount cfg0),
       ac_OpenTimeout = (if ac_OpenTimeout cfg0 = 0 then 30 * Second else ac_OpenTimeout cfg0),
       ac_MaxConcurrentRequests = (if ac_MaxConcurrentRequests cfg0 = 0 then 100 else ac_MaxConcurrentRequests cfg0),
       ac_SlidingWindowSize = (if ac_SlidingWindowSize cfg0 = 0 then 100 else ac_SlidingWindowSize cfg0)\<rparr>
     in \<lparr>ab_config = cfg, ab_state = AdvClosed, ab_metrics = zero_metrics now, ab_stateExpiry = 0,
         ab_requestWindow = replicate (ac_SlidingWindowSize cfg) zero_result, ab_windowIndex = 0,
         ab_windowFull = False, ab_activeRequests = 0, ab_generation = 0\<rparr>)"

section \<open>Operations\<close>

definition transitionTo :: "AdvState \<Rightarrow> time \<Rightarrow> adv_breaker \<Rightarrow> adv_breaker" where
  "transitionTo newState now b =
     (if ab_state b = newState then b
      else (let b1 = b\<lparr>ab_state := newState, ab_generation := ab_generation b + 1,
                       ab_metrics := (ab_metrics b)\<lparr>am_LastStateChange := now\<rparr>\<rparr>
            in case newState of
                 AdvOpen \<Rightarrow> b1\<lparr>ab_stateExpiry := now + ac_OpenTimeout (ab_config b1),
                   ab_metrics := (ab_metrics b1)\<lparr>am_CircuitOpenCount := am_CircuitOpenCount (ab_metrics b1) + 1\<rparr>\<rparr>
               | AdvHalfOpen \<Rightarrow> b1\<lparr>ab_stateExpiry := 0\<rparr>
               | AdvClosed \<Rightarrow> b1\<lparr>ab_stateExpiry := 0,
                   ab_metrics := (ab_metrics b1)\<lparr>am_ConsecutiveFailures := 0\<rparr>\<rparr>))"

definition updateState :: "time \<Rightarrow> adv_breaker \<Rightarrow> adv_breaker" where
  "updateState now b =
     (if ab_state b = AdvOpen \<and> ab_stateExpiry b < now then transitionTo AdvHalfOpen now b else b)"

definition adv_beforeRequest :: "time \<Rightarrow> adv_breaker \<Rightarrow> adv_breaker \<times> adv_error option" where
  "adv_beforeRequest now b0 =
    (let b = updateState now b0
     in if ab_state b = AdvOpen then (b, Some ErrCircuitOpen)
        else if ab_activeRequests b \<ge> ac_MaxConcurrentRequests (ab_config b) then (b, Some ErrTooManyConcurrent)
        else if ab_state b = AdvHalfOpen \<and> ab_activeRequests b > 0 then (b, Some ErrTooManyConcurrent)
        else (b\<lparr>ab_activeRequests := ab_activeRequests b + 1,
                ab_metrics := (ab_metrics b)\<lparr>am_TotalRequests := am_TotalRequests (ab_metrics b) + 1\<rparr>\<rparr>, None))"

text \<open>Durations are divided as Go does, towards zero.\<close>

definition updateMetrics_adv :: "bool \<Rightarrow> duration \<Rightarrow> time \<Rightarrow> adv_breaker \<Rightarrow> adv_breaker" where
  "updateMetrics_adv success duration timestamp b =
    (let m0 = ab_metrics b;
         m1 = m0\<lparr>am_TotalResponseTime := am_TotalResponseTime m0 + duration\<rparr>;
         m2 = (if success
               then m1\<lparr>am_SuccessfulRequests := am_SuccessfulRequests m1 + 1, am_ConsecutiveFailures := 0,
                       am_LastSuccessTime := timestamp\<rparr>
               else m1\<lparr>am_FailedRequests := am_FailedRequests m1 + 1,
                       am_ConsecutiveFailures := am_ConsecutiveFailures m1 + 1,
                       am_LastFailureTime := timestamp\<rparr>);
         m3 = (if duration > ac_SlowCallThreshold (ab_config b)
               then m2\<lparr>am_SlowRequestCount := am_SlowRequestCount m2 + 1\<rparr> else m2);
         n = am_TotalResponseTime m3;
         m4 = (if am_TotalRequests m3 > 0
               then m3\<lparr>am_AverageResponseTime := sgn n * (\<bar>n\<bar> div am_TotalRequests m3)\<rparr> else m3)
     in b\<lparr>ab_metrics := m4\<rparr>)"

definition addToWindow :: "RequestResult \<Rightarrow> adv_breaker \<Rightarrow> adv_breaker" where
  "addToWindow r b =
    (let w = (ab_requestWindow b)[ab_windowIndex b := r];
         i = (ab_windowIndex b + 1) mod length w
     in b\<lparr>ab_requestWindow := w, ab_windowIndex := i,
          ab_windowFull := (if i = 0 then True else ab_windowFull b)\<rparr>)"

definition getEffectiveWindowSize :: "adv_breaker \<Rightarrow> nat" where
  "getEffectiveWindowSize b = (if ab_windowFull b then length (ab_requestWindow b) else ab_windowIndex b)"

definition calculateFailureRate :: "adv_breaker \<Rightarrow> real" where
  "calculateFailureRate b =
    (let windowSize = getEffectiveWindowSize b
     in if windowSize = 0 then 0
        else real (count_slots (\<lambda>r. \<not> rr_Success r) (ab_requestWindow b) windowSize) / real windowSize)"

definition calculateSlowCallRate :: "adv_breaker \<Rightarrow> real" where
  "calculateSlowCallRate b =
    (let windowSize = getEffectiveWindowSize b
     in if windowSize = 0 then 0
        else real (count_slots rr_IsSlowCall (ab_requestWindow b) windowSize) / real windowSize)"

definition shouldTripToOpen :: "adv_breaker \<Rightarrow> bool" where
  "shouldTripToOpen b =
     (if int (getEffectiveWindowSize b) < ac_MinimumRequestCount (ab_config b) then False
      else if am_ConsecutiveFailures (ab_metrics b) \<ge> ac_FailureThreshold (ab_config b) then True
      else if calculateFailureRate b \<ge> ac_FailureRateThreshold (ab_config b) then True
      else calculateSlowCallRate b \<ge> ac_SlowCallRateThreshold (ab_config b))"

definition evaluateStateTransition :: "bool \<Rightarrow> time \<Rightarrow> adv_breaker \<Rightarrow> adv_breaker" where
  "evaluateStateTransition success now b =
     (case ab_state b of
        AdvClosed \<Rightarrow> if shouldTripToOpen b then transitionTo AdvOpen now b else b
      | AdvHalfOpen \<Rightarrow> if success then transitionTo AdvClosed now b else transitionTo AdvOpen now b
      | AdvOpen \<Rightarrow> b)"

definition adv_afterRequest :: "bool \<Rightarrow> duration \<Rightarrow> time \<Rightarrow> adv_breaker \<Rightarrow> adv_breaker" where
  "adv_afterRequest success duration now b0 =
    (let b1 = updateMetrics_adv success duration now b0;
         r = \<lparr>rr_Success = success, rr_Duration = duration, rr_Timestamp = now,
              rr_IsSlowCall = duration > ac_SlowCallThreshold (ab_config b1)\<rparr>
     in evaluateStateTransition success now (addToWindow r b1))"

definition adv_release :: "adv_breaker \<Rightarrow> adv_breaker" where
  "adv_release b = b\<lparr>ab_activeRequests := ab_activeRequests b - 1\<rparr>"

text \<open>
  \<open>others\<close> is what other goroutines do while the request runs, \<open>others'\<close> what they do between
  the completion and the release of the active slot, which is outside the lock.  The deferred
  function assigns the recovered panic to a local variable, not to the (unnamed) result.
\<close>

datatype adv_outcome = AdvReturns "adv_error option" | AdvPanics

definition adv_Execute ::
  "time \<Rightarrow> (adv_breaker \<Rightarrow> adv_breaker) \<Rightarrow> time \<Rightarrow> duration \<Rightarrow> (adv_breaker \<Rightarrow> adv_breaker) \<Rightarrow> adv_outcome \<Rightarrow>
   adv_breaker \<Rightarrow> adv_breaker \<times> adv_error option" where
  "adv_Execute now1 others now2 duration others' outcome b =
     (case adv_beforeRequest now1 b of
        (b1, Some err) \<Rightarrow> (b1, Some err)
      | (b1, None) \<Rightarrow>
          (let requestErr = (case outcome of AdvReturns err \<Rightarrow> err | AdvPanics \<Rightarrow> Some ErrPanic);
               success = (requestErr = None \<and> duration \<le> ac_SlowCallThreshold (ab_config b1))
           in (adv_release (others' (adv_afterRequest success duration now2 (others b1))),
               case outcome of AdvReturns err \<Rightarrow> err | AdvPanics \<Rightarrow> None)))"

datatype adv_wait = AdvFinished adv_outcome | AdvTimeout | AdvContextDone

definition adv_ExecuteWithTimeout ::
  "time \<Rightarrow> (adv_breaker \<Rightarrow> adv_breaker) \<Rightarrow> time \<Rightarrow> duration \<Rightarrow> (adv_breaker \<Rightarrow> adv_breaker) \<Rightarrow> adv_wait \<Rightarrow>
   adv_breaker \<Rightarrow> adv_breaker \<times> adv_error option" where
  "adv_ExecuteWithTimeout now1 others now2 duration others' outcome b =
     (case adv_beforeRequest now1 b of
        (b1, Some err) \<Rightarrow> (b1, Some err)
      | (b1, None) \<Rightarrow>
          (let err = (case outcome of AdvFinished (AdvReturns e) \<Rightarrow> e | AdvFinished AdvPanics \<Rightarrow> Some ErrPanic
                      | AdvTimeout \<Rightarrow> Some ErrRequestTimeout | AdvContextDone \<Rightarrow> Some ErrCtx);
               success = (err = None \<and> duration \<le> ac_SlowCallThreshold (ab_config b1))
           in (adv_release (others' (adv_afterRequest success duration now2 (others b1))), err)))"

definition adv_GetState :: "time \<Rightarrow> adv_breaker \<Rightarrow> adv_breaker \<times> AdvState" where
  "adv_GetState now b = (updateState now b, ab_state (updateState now b))"

definition adv_Reset :: "time \<Rightarrow> adv_breaker \<Rightarrow> adv_breaker" where
  "adv_Reset now b = b\<lparr>ab_state := AdvClosed, ab_stateExpiry := 0, ab_metrics := zero_metrics now,
     ab_requestWindow := replicate (ac_SlidingWindowSize (ab_config b)) zero_result,
     ab_windowIndex := 0, ab_windowFull := False\<rparr>"

section \<open>The ring buffer holds the last results\<close>

definition adv_ring :: "adv_breaker \<Rightarrow> RequestResult ring" where
  "adv_ring b = (ab_requestWindow b, ab_windowIndex b, ab_windowFull b)"

definition recent :: "adv_breaker \<Rightarrow> RequestResult list" where
  "recent b = ring_view (adv_ring b)"

definition window_ok :: "adv_breaker \<Rightarrow> bool" where
  "window_ok b \<longleftrightarrow> ring_ok (adv_ring b)"

lemma adv_ring_add: "adv_ring (addToWindow r b) = ring_add r (adv_ring b)"
  by (simp add: adv_ring_def addToWindow_def Let_def)

interpretation adv_window: sliding_window window_ok "\<lambda>b. length (ab_requestWindow b)" recent addToWindow
proof (unfold_locales, goal_cases)
  case (1 b r)
  then show ?case using ring.ok_add by (simp only: window_ok_def adv_ring_add)
next
  case (2 b r)
  then show ?case by (simp add: addToWindow_def Let_def)
next
  case (3 b r)
  then show ?case
    using ring.view_add [of "adv_ring b" r] by (simp add: window_ok_def recent_def adv_ring_add) (simp add: adv_ring_def)
qed

lemma effective_size: "getEffectiveWindowSize b = ring_size (adv_ring b)"
  by (simp add: getEffectiveWindowSize_def adv_ring_def)

lemma length_recent: "window_ok b \<Longrightarrow> length (recent b) = getEffectiveWindowSize b"
  by (simp add: window_ok_def recent_def effective_size length_ring_view)

lemma count_slots_recent:
  "window_ok b \<Longrightarrow>
   count_slots P (ab_requestWindow b) (getEffectiveWindowSize b) = length (filter P (recent b))"
  using count_slots_ring [of "adv_ring b" P] by (simp add: window_ok_def recent_def effective_size) (simp add: adv_ring_def)

lemma keeps_transitionTo [simp]:
  "ab_config (transitionTo s now b) = ab_config b"
  "ab_activeRequests (transitionTo s now b) = ab_activeRequests b"
  "ab_requestWindow (transitionTo s now b) = ab_requestWindow b"
  "ab_windowIndex (transitionTo s now b) = ab_windowIndex b"
  "ab_windowFull (transitionTo s now b) = ab_windowFull b"
  "ab_state (transitionTo s now b) = s"
  by (cases s; simp add: transitionTo_def Let_def)+

lemma keeps_evaluate [simp]:
  "ab_config (evaluateStateTransition ok now b) = ab_config b"
  "ab_activeRequests (evaluateStateTransition ok now b) = ab_activeRequests b"
  "ab_requestWindow (evaluateStateTransition ok now b) = ab_requestWindow b"
  "ab_windowIndex (evaluateStateTransition ok now b) = ab_windowIndex b"
  "ab_windowFull (evaluateStateTransition ok now b) = ab_windowFull b"
  by (simp_all add: evaluateStateTransition_def split: AdvState.splits)

lemma keeps_updateState [simp]:
  "ab_config (updateState now b) = ab_config b"
  "ab_activeRequests (updateState now b) = ab_activeRequests b"
  "ab_requestWindow (updateState now b) = ab_requestWindow b"
  "ab_windowIndex (updateState now b) = ab_windowIndex b"
  "ab_windowFull (updateState now b) = ab_windowFull b"
  by (simp_all add: updateState_def)

lemma keeps_updateMetrics [simp]:
  "ab_config (updateMetrics_adv ok d now b) = ab_config b"
  "ab_state (updateMetrics_adv ok d now b) = ab_state b"
  "ab_stateExpiry (updateMetrics_adv ok d now b) = ab_stateExpiry b"
  "ab_activeRequests (updateMetrics_adv ok d now b) = ab_activeRequests b"
  "ab_requestWindow (updateMetrics_adv ok d now b) = ab_requestWindow b"
  "ab_windowIndex (updateMetrics_adv ok d now b) = ab_windowIndex b"
  "ab_windowFull (updateMetrics_adv ok d now b) = ab_windowFull b"
  by (simp_all add: updateMetrics_adv_def Let_def)

lemma keeps_addToWindow [simp]:
  "ab_config (addToWindow r b) = ab_config b"
  "ab_state (addToWindow r b) = ab_state b"
  "ab_stateExpiry (addToWindow r b) = ab_stateExpiry b"
  "ab_activeRequests (addToWindow r b) = ab_activeRequests b"
  "ab_metrics (addToWindow r b) = ab_metrics b"
  by (simp_all add: addToWindow_def Let_def)

lemma keeps_afterRequest [simp]:
  "ab_config (adv_afterRequest ok d now b) = ab_config b"
  "ab_activeRequests (adv_afterRequest ok d now b) = ab_activeRequests b"
  by (simp_all add: adv_afterRequest_def Let_def)

lemma keeps_beforeRequest [simp]:
  "ab_config (fst (adv_beforeRequest now b)) = ab_config b"
  "ab_requestWindow (fst (adv_beforeRequest now b)) = ab_requestWindow b"
  "ab_windowIndex (fst (adv_beforeRequest now b)) = ab_windowIndex b"
  "ab_windowFull (fst (adv_beforeRequest now b)) = ab_windowFull b"
  by (simp_all add: adv_beforeRequest_def Let_def)

definition same_window :: "adv_breaker \<Rightarrow> adv_breaker \<Rightarrow> bool" where
  "same_window b b' \<longleftrightarrow> ab_requestWindow b' = ab_requestWindow b \<and>
     ab_windowIndex b' = ab_windowIndex b \<and> ab_windowFull b' = ab_windowFull b \<and> ab_config b' = ab_config b"

lemma same_window_eqs:
  assumes "same_window b b'"
  shows "recent b' = recent b" and "window_ok b' = window_ok b"
    and "length (ab_requestWindow b') = length (ab_requestWindow b)"
    and "getEffectiveWindowSize b' = getEffectiveWindowSize b"
    and "calculateFailureRate b' = calculateFailureRate b"
    and "calculateSlowCallRate b' = calculateSlowCallRate b"
  using assms by (simp_all add: same_window_def recent_def window_ok_def adv_ring_def getEffectiveWindowSize_def
      calculateFailureRate_def calculateSlowCallRate_def Let_def)

definition result_of :: "duration \<Rightarrow> bool \<Rightarrow> duration \<Rightarrow> time \<Rightarrow> RequestResult" where
  "result_of slow ok d now = \<lparr>rr_Success = ok, rr_Duration = d, rr_Timestamp = now, rr_IsSlowCall = d > slow\<rparr>"

lemma same_window_afterRequest:
  "same_window (addToWindow (result_of (ac_SlowCallThreshold (ab_config b)) ok d now) b)
     (adv_afterRequest ok d now b)"
  by (simp add: same_window_def adv_afterRequest_def result_of_def addToWindow_def Let_def)

text \<open>Any interleaving of admissions, completions and state queries, and the results it records.\<close>

datatype adv_event = AdvAsk time | AdvComplete bool duration time | AdvQuery time

fun adv_step :: "adv_breaker \<Rightarrow> adv_event \<Rightarrow> adv_breaker" where
  "adv_step b (AdvAsk now) = fst (adv_beforeRequest now b)"
| "adv_step b (AdvComplete ok d now) = adv_release (adv_afterRequest ok d now b)"
| "adv_step b (AdvQuery now) = fst (adv_GetState now b)"

fun results :: "duration \<Rightarrow> adv_event list \<Rightarrow> RequestResult list" where
  "results slow [] = []"
| "results slow (AdvComplete ok d now # es) = result_of slow ok d now # results slow es"
| "results slow (e # es) = results slow es"

lemma results_snoc:
  "results slow (es @ [e]) = results slow es @
     (case e of AdvComplete ok d now \<Rightarrow> [result_of slow ok d now] | _ \<Rightarrow> [])"
  by (induction es rule: results.induct) (auto split: adv_event.splits)

lemma same_window_ask: "same_window b (fst (adv_beforeRequest now b))"
  and same_window_query: "same_window b (fst (adv_GetState now b))"
  and same_window_release: "same_window b (adv_release b)"
  by (simp_all add: same_window_def adv_GetState_def adv_release_def)

lemma window_run:
  assumes "0 < ac_SlidingWindowSize (ab_config (New_adv_breaker now cfg))"
  defines "b0 \<equiv> New_adv_breaker now cfg"
  shows "recent (foldl adv_step b0 es) =
      lastn (ac_SlidingWindowSize (ab_config b0)) (results (ac_SlowCallThreshold (ab_config b0)) es) \<and>
    window_ok (foldl adv_step b0 es) \<and> ab_config (foldl adv_step b0 es) = ab_config b0 \<and>
    length (ab_requestWindow (foldl adv_step b0 es)) = ac_SlidingWindowSize (ab_config b0)"
proof (induction es rule: rev_induct)
  case Nil
  show ?case
    using assms by (simp add: New_adv_breaker_def Let_def recent_def window_ok_def adv_ring_def lastn_def)
next
  case (snoc e es)
  define b where "b = foldl adv_step b0 es"
  note ih = snoc.IH [folded b_def]
  show ?case
  proof (cases e)
    case (AdvComplete ok d t)
    define r where "r = result_of (ac_SlowCallThreshold (ab_config b0)) ok d t"
    have 1: "same_window (addToWindow r b) (adv_afterRequest ok d t b)"
      using same_window_afterRequest [of b ok d t] ih by (simp add: r_def)
    note eqs = same_window_eqs [OF 1] same_window_eqs [OF same_window_release]
    have "recent (addToWindow r b) = lastn (ac_SlidingWindowSize (ab_config b0))
        (results (ac_SlowCallThreshold (ab_config b0)) es @ [r])"
      using adv_window.view_add [of b r] ih by (simp add: lastn_lastn)
    then show ?thesis
      using eqs AdvComplete adv_window.ok_add [of b r] adv_window.capacity_add [of b r] ih
      by (simp add: results_snoc b_def [symmetric] r_def [symmetric]) (simp add: adv_release_def)
  next
    case (AdvAsk t)
    then show ?thesis
      using same_window_eqs [OF same_window_ask [of b t]] ih by (simp add: results_snoc b_def [symmetric])
  next
    case (AdvQuery t)
    then show ?thesis
      using same_window_eqs [OF same_window_query [of b t]] ih
      by (simp add: results_snoc b_def [symmetric]) (simp add: adv_GetState_def)
  qed
qed

definition fraction :: "(RequestResult \<Rightarrow> bool) \<Rightarrow> RequestResult list \<Rightarrow> real" where
  "fraction P rs = (if rs = [] then 0 else real (length (filter P rs)) / real (length rs))"

lemma rates_recent:
  assumes "window_ok b"
  shows "calculateFailureRate b = fraction (\<lambda>r. \<not> rr_Success r) (recent b)"
    and "calculateSlowCallRate b = fraction rr_IsSlowCall (recent b)"
  using length_recent [OF assms] count_slots_recent [OF assms]
  by (auto simp: calculateFailureRate_def calculateSlowCallRate_def fraction_def Let_def)

definition last_results :: "time \<Rightarrow> adv_config \<Rightarrow> adv_event list \<Rightarrow> RequestResult list" where
  "last_results now cfg es =
     lastn (ac_SlidingWindowSize (ab_config (New_adv_breaker now cfg)))
       (results (ac_SlowCallThreshold (ab_config (New_adv_breaker now cfg))) es)"

text \<open>
  The counter of failures in a row counts the unbroken run of failures at the end of all results: a
  completion extends or breaks the run, and only a success closes a half-open breaker.
\<close>

definition failures_in_row :: "RequestResult list \<Rightarrow> nat" where
  "failures_in_row rs = length (takeWhile (\<lambda>r. \<not> rr_Success r) (rev rs))"

lemma failures_in_row_snoc [simp]:
  "failures_in_row [] = 0"
  "failures_in_row (rs @ [r]) = (if rr_Success r then 0 else failures_in_row rs + 1)"
  by (simp_all add: failures_in_row_def)

abbreviation consecutive :: "adv_breaker \<Rightarrow> int" where
  "consecutive b \<equiv> am_ConsecutiveFailures (ab_metrics b)"

lemma consecutive_transition: "consecutive (transitionTo st now b) = (if st = AdvClosed \<and> ab_state b \<noteq> AdvClosed then 0 else consecutive b)"
  by (cases st) (simp_all add: transitionTo_def Let_def)

lemma consecutive_ask: "consecutive (fst (adv_beforeRequest now b)) = consecutive b"
  and consecutive_query: "consecutive (fst (adv_GetState now b)) = consecutive b"
  by (simp_all add: adv_beforeRequest_def adv_GetState_def updateState_def consecutive_transition Let_def)

lemma consecutive_after: "consecutive (adv_afterRequest ok d now b) = (if ok then 0 else consecutive b + 1)"
proof -
  define c where "c = addToWindow (result_of (ac_SlowCallThreshold (ab_config b)) ok d now) (updateMetrics_adv ok d now b)"
  have "consecutive c = (if ok then 0 else consecutive b + 1)" by (simp add: c_def updateMetrics_adv_def Let_def)
  moreover have "consecutive (evaluateStateTransition ok now c) = consecutive c" if "ok \<Longrightarrow> consecutive c = 0"
    using that by (simp add: evaluateStateTransition_def consecutive_transition split: AdvState.split)
  moreover have "adv_afterRequest ok d now b = evaluateStateTransition ok now c"
    by (simp add: adv_afterRequest_def c_def result_of_def Let_def)
  ultimately show ?thesis by simp
qed

lemma failures_run:
  "consecutive (foldl adv_step (New_adv_breaker now cfg) es) = int (failures_in_row (results slow es))"
proof (induction es rule: rev_induct)
  case Nil
  then show ?case by (simp add: New_adv_breaker_def zero_metrics_def Let_def)
next
  case (snoc e es)
  then show ?case
    by (cases e) (simp_all add: results_snoc consecutive_ask consecutive_query consecutive_after adv_release_def result_of_def)
qed

text \<open>
  C33. The ring buffer refines the list of all results: after any interleaving of admissions,
  completions and queries, the trip decision is the one made on the last \<open>SlidingWindowSize\<close>
  results: enough of them, and too large a share of failures or of slow calls among them, or too many
  failures in a row.  The last are counted over all results, so a run longer than the window counts in
  full.
\<close>

theorem adv_window_refines_history:
  "shouldTripToOpen (foldl adv_step (New_adv_breaker now cfg) es) \<longleftrightarrow>
    ac_MinimumRequestCount (ab_config (New_adv_breaker now cfg)) \<le> int (length (last_results now cfg es)) \<and>
    (ac_FailureThreshold (ab_config (New_adv_breaker now cfg)) \<le>
       int (failures_in_row (results (ac_SlowCallThreshold (ab_config (New_adv_breaker now cfg))) es)) \<or>
     ac_FailureRateThreshold (ab_config (New_adv_breaker now cfg)) \<le>
       fraction (\<lambda>r. \<not> rr_Success r) (last_results now cfg es) \<or>
     ac_SlowCallRateThreshold (ab_config (New_adv_breaker now cfg)) \<le>
       fraction rr_IsSlowCall (last_results now cfg es))"
proof -
  define b where "b = foldl adv_step (New_adv_breaker now cfg) es"
  have "0 < ac_SlidingWindowSize (ab_config (New_adv_breaker now cfg))"
    by (simp add: New_adv_breaker_def Let_def)
  from window_run [OF this, of es]
  have r: "recent b = last_results now cfg es" and w: "window_ok b"
    and c: "ab_config b = ab_config (New_adv_breaker now cfg)"
    by (simp_all add: b_def last_results_def)
  show ?thesis
    using length_recent [OF w] rates_recent [OF w] failures_run [of now cfg es, folded b_def]
    by (auto simp: shouldTripToOpen_def r c b_def [symmetric])
qed

section \<open>The interface's laws\<close>

definition adv_status :: "adv_breaker \<Rightarrow> breaker_status" where
  "adv_status b = (case ab_state b of AdvClosed \<Rightarrow> BClosed | AdvOpen \<Rightarrow> BOpen | AdvHalfOpen \<Rightarrow> BHalfOpen)"

definition adv_admit :: "time \<Rightarrow> adv_breaker \<Rightarrow> adv_breaker \<times> bool" where
  "adv_admit now b = (case adv_beforeRequest now b of (b', err) \<Rightarrow> (b', err = None))"

definition adv_inv :: "adv_breaker \<Rightarrow> bool" where
  "adv_inv b \<longleftrightarrow> 0 < ac_OpenTimeout (ab_config b) \<and> 0 < ac_MaxConcurrentRequests (ab_config b)"

lemma fst_adv_admit [simp]: "fst (adv_admit now b) = fst (adv_beforeRequest now b)"
  by (simp add: adv_admit_def split: prod.splits)

lemma adv_after_half_open:
  "ab_state b = AdvHalfOpen \<Longrightarrow>
   ab_state (adv_afterRequest ok d now b) = (if ok then AdvClosed else AdvOpen) \<and>
   (\<not> ok \<longrightarrow> ab_stateExpiry (adv_afterRequest ok d now b) = now + ac_OpenTimeout (ab_config b))"
  by (simp add: adv_afterRequest_def Let_def evaluateStateTransition_def)
    (simp add: transitionTo_def Let_def)

lemma adv_after_open:
  "ab_state b = AdvOpen \<Longrightarrow>
   ab_state (adv_afterRequest ok d now b) = AdvOpen \<and>
   ab_stateExpiry (adv_afterRequest ok d now b) = ab_stateExpiry b"
  by (simp add: adv_afterRequest_def Let_def evaluateStateTransition_def)

lemma adv_admit_open:
  "ab_state b = AdvOpen \<Longrightarrow> now \<le> ab_stateExpiry b \<Longrightarrow> adv_admit now b = (b, False)"
  by (simp add: adv_admit_def adv_beforeRequest_def updateState_def Let_def)

lemma adv_admit_probe:
  "adv_inv b \<Longrightarrow> ab_state b = AdvOpen \<Longrightarrow> ab_stateExpiry b < now \<Longrightarrow> ab_activeRequests b = 0 \<Longrightarrow>
   ab_state (fst (adv_beforeRequest now b)) = AdvHalfOpen \<and> snd (adv_admit now b)"
  by (simp add: adv_admit_def adv_beforeRequest_def updateState_def Let_def adv_inv_def)

interpretation adv: breaker adv_status adv_admit "\<lambda>now. adv_afterRequest True 0 now"
    "\<lambda>now. adv_afterRequest False 0 now" ab_stateExpiry "\<lambda>b. ac_OpenTimeout (ab_config b)"
    "\<lambda>b. ab_activeRequests b = 0" "\<lambda>_. 0" adv_inv
proof (unfold_locales, goal_cases)
  case (7 b now)
  then show ?case
    using adv_after_open [of b False 0 now] by (simp add: adv_status_def split: AdvState.splits)
qed (auto simp: adv_status_def adv_inv_def adv_after_half_open adv_admit_open adv_admit_probe
    split: AdvState.splits)

text \<open>
  When no earlier call is still running, the first call after an open breaker's deadline
  is admitted and decides: its success closes the breaker; its failure keeps every caller out
  for a whole open timeout, whatever attempts and late failures arrive.
\<close>

theorem adv_probe_decides:
  assumes "0 < ac_OpenTimeout (ab_config b)" and "0 < ac_MaxConcurrentRequests (ab_config b)"
    and "ab_state b = AdvOpen" and "ab_stateExpiry b < now" and "ab_activeRequests b = 0"
    and "events_between later (later + ac_OpenTimeout (ab_config b)) es"
  shows "snd (adv_admit now b) \<and>
    ab_state (adv_afterRequest True d later (fst (adv_admit now b))) = AdvClosed \<and>
    True \<notin> set (snd (run_open adv_admit (\<lambda>now. adv_afterRequest False 0 now)
        (adv_afterRequest False 0 later (fst (adv_admit now b))) es))"
proof -
  have inv: "adv_inv b" using assms(1,2) by (simp add: adv_inv_def)
  note probe = adv_admit_probe [OF this assms(3-5)]
  then show ?thesis
    using adv_after_half_open [of "fst (adv_beforeRequest now b)" True d later]
      adv.failed_probe_fails_fast [of "fst (adv_beforeRequest now b)" later es]
      adv.inv_admit [OF inv, of now] assms(6)
    by (auto simp: adv_status_def)
qed

definition adv_example_config :: adv_config where
  "adv_example_config = \<lparr>ac_FailureThreshold = 3, ac_FailureRateThreshold = 1/2,
     ac_SlowCallThreshold = 5, ac_SlowCallRateThreshold = 1/2, ac_MinimumRequestCount = 2,
     ac_OpenTimeout = 30, ac_MaxConcurrentRequests = 5, ac_SlidingWindowSize = 10\<rparr>"

definition adv_open_example :: adv_breaker where
  "adv_open_example = foldl adv_step (New_adv_breaker 1 adv_example_config)
     [AdvAsk 2, AdvAsk 2, AdvAsk 3, AdvComplete False 1 4, AdvComplete False 1 5]"

lemma adv_open_example_facts:
  "ac_OpenTimeout (ab_config adv_open_example) = 30"
  "ac_MaxConcurrentRequests (ab_config adv_open_example) = 5"
  "ab_state adv_open_example = AdvOpen"
  "ab_stateExpiry adv_open_example = 35"
  "ab_activeRequests adv_open_example = 1"
  by code_simp+

lemma adv_probe_decides_witness:
  "snd (adv_admit 40 (adv_release adv_open_example)) \<and>
   ab_state (adv_afterRequest True 2 42 (fst (adv_admit 40 (adv_release adv_open_example)))) = AdvClosed"
  using adv_probe_decides [of "adv_release adv_open_example" 40 42 "[Attempt 50, LateFailure 60]" 2]
  by (simp add: adv_release_def adv_open_example_facts)

section \<open>Weak spots\<close>

lemma adv_success_closed:
  assumes "ab_state b = AdvClosed" and "window_ok b"
    and "length (recent b) < length (ab_requestWindow b)"
    and "ac_MinimumRequestCount (ab_config b) \<le> int (length (recent b)) + 1"
    and "ac_FailureRateThreshold (ab_config b) \<le>
      real (length (filter (\<lambda>r. \<not> rr_Success r) (recent b))) / real (length (recent b) + 1)"
  shows "ab_state (adv_afterRequest True d now b) = AdvOpen"
proof -
  define b1 where "b1 = updateMetrics_adv True d now b"
  define r where "r = result_of (ac_SlowCallThreshold (ab_config b)) True d now"
  have same: "recent b1 = recent b" "window_ok b1" "length (ab_requestWindow b1) = length (ab_requestWindow b)"
    "ab_config b1 = ab_config b"
    using assms(2) by (simp_all add: b1_def recent_def window_ok_def adv_ring_def)
  note add = adv_window.view_add [OF same(2), of r] adv_window.ok_add [OF same(2), of r]
  have rec: "recent (addToWindow r b1) = recent b @ [r]" using add(1) same assms(3) by (simp add: lastn_all)
  have ok: "rr_Success r" by (simp add: r_def result_of_def)
  have size: "getEffectiveWindowSize (addToWindow r b1) = length (recent b) + 1"
    using length_recent [OF add(2)] rec by simp
  have rate: "calculateFailureRate (addToWindow r b1) =
      real (length (filter (\<lambda>r. \<not> rr_Success r) (recent b))) / real (length (recent b) + 1)"
    using rates_recent(1) [OF add(2)] ok by (simp add: rec fraction_def)
  have "ab_config (addToWindow r b1) = ab_config b" by (simp add: same)
  then have "shouldTripToOpen (addToWindow r b1)"
    using assms(4,5) by (simp add: shouldTripToOpen_def size rate)
  then show ?thesis
    using assms(1)
    by (simp add: adv_afterRequest_def evaluateStateTransition_def b1_def r_def result_of_def Let_def)
qed

text \<open>
  Closing does not clear the window, so a recovered breaker can be opened by a success: if
  the failures of the outage still make up the threshold share when two successes are added,
  then the probe's success closes the breaker and the very next success opens it again.
\<close>

theorem adv_success_can_retrip:
  assumes "ab_state b = AdvHalfOpen" and "window_ok b"
    and "length (recent b) + 1 < length (ab_requestWindow b)"
    and "ac_MinimumRequestCount (ab_config b) \<le> int (length (recent b)) + 2"
    and "ac_FailureRateThreshold (ab_config b) \<le>
      real (length (filter (\<lambda>r. \<not> rr_Success r) (recent b))) / real (length (recent b) + 2)"
  shows "ab_state (adv_afterRequest True d1 t1 b) = AdvClosed \<and>
    ab_state (adv_afterRequest True d2 t2 (adv_afterRequest True d1 t1 b)) = AdvOpen"
proof -
  define b1 where "b1 = adv_afterRequest True d1 t1 b"
  define r where "r = result_of (ac_SlowCallThreshold (ab_config b)) True d1 t1"
  have closed: "ab_state b1 = AdvClosed" using adv_after_half_open [OF assms(1)] by (simp add: b1_def)
  note eqs = same_window_eqs [OF same_window_afterRequest [of b True d1 t1, folded b1_def r_def]]
  note add = adv_window.view_add [OF assms(2), of r] adv_window.ok_add [OF assms(2), of r]
    adv_window.capacity_add [OF assms(2), of r]
  have rec: "recent b1 = recent b @ [r]" using eqs add assms(3) by (simp add: lastn_all)
  have "ab_state (adv_afterRequest True d2 t2 b1) = AdvOpen"
  proof (rule adv_success_closed [OF closed])
    show "window_ok b1" using eqs add by simp
    show "length (recent b1) < length (ab_requestWindow b1)" using rec eqs add assms(3) by simp
    show "ac_MinimumRequestCount (ab_config b1) \<le> int (length (recent b1)) + 1"
      using assms(4) rec by simp (simp add: b1_def)
    show "ac_FailureRateThreshold (ab_config b1) \<le>
        real (length (filter (\<lambda>r. \<not> rr_Success r) (recent b1))) / real (length (recent b1) + 1)"
    proof -
      have "rr_Success r" by (simp add: r_def result_of_def)
      moreover have "ab_config b1 = ab_config b" by (simp add: b1_def)
      ultimately show ?thesis using assms(5) by (simp add: rec add.commute)
    qed
  qed
  with closed show ?thesis by (simp add: b1_def)
qed

definition adv_probing_example :: adv_breaker where
  "adv_probing_example = fst (adv_beforeRequest 40 (adv_release adv_open_example))"

lemma adv_success_can_retrip_witness:
  "ab_state (adv_afterRequest True 1 41 adv_probing_example) = AdvClosed \<and>
   ab_state (adv_afterRequest True 1 43 (adv_afterRequest True 1 41 adv_probing_example)) = AdvOpen"
proof -
  have "ab_state adv_probing_example = AdvHalfOpen" by code_simp
  moreover have "window_ok adv_probing_example" by code_simp
  moreover have "length (recent adv_probing_example) = 2" by code_simp
  moreover have "length (filter (\<lambda>r. \<not> rr_Success r) (recent adv_probing_example)) = 2" by code_simp
  moreover have "length (ab_requestWindow adv_probing_example) = 10" by code_simp
  moreover have "ac_MinimumRequestCount (ab_config adv_probing_example) = 2" by code_simp
  moreover have "ac_FailureRateThreshold (ab_config adv_probing_example) = 1/2"
    by (simp add: adv_probing_example_def adv_open_example_def New_adv_breaker_def Let_def
        adv_release_def adv_GetState_def adv_example_config_def)
  ultimately show ?thesis
    using adv_success_can_retrip [of adv_probing_example 1 41 1 43] by simp
qed

text \<open>
  The generation counter is never compared.  While a call admitted before the opening is
  still running, a caller after the deadline is turned away (but makes the breaker half-open),
  and then the old call's success closes the breaker although no probe was ever made.
\<close>

theorem adv_stale_success_closes:
  assumes "ab_state b = AdvOpen" and "ab_stateExpiry b < now" and "0 < ab_activeRequests b"
  shows "snd (adv_beforeRequest now b) = Some ErrTooManyConcurrent \<and>
    ab_state (adv_afterRequest True d later (fst (adv_beforeRequest now b))) = AdvClosed"
proof -
  have "snd (adv_beforeRequest now b) = Some ErrTooManyConcurrent \<and>
      ab_state (fst (adv_beforeRequest now b)) = AdvHalfOpen"
    using assms by (simp add: adv_beforeRequest_def updateState_def Let_def)
  then show ?thesis using adv_after_half_open by simp
qed

lemma adv_stale_success_closes_witness:
  "ab_state (adv_afterRequest True 1 50 (fst (adv_beforeRequest 40 adv_open_example))) = AdvClosed"
  using adv_stale_success_closes [of adv_open_example 40 1 50] by (simp add: adv_open_example_facts)

text \<open>A panic of the request is recorded as a failure but reported to the caller as success.\<close>

lemma adv_panic_returns_nil:
  "snd (adv_beforeRequest now1 b) = None \<Longrightarrow>
   snd (adv_Execute now1 others now2 d others' AdvPanics b) = None"
  by (cases "adv_beforeRequest now1 b") (simp add: adv_Execute_def Let_def)

end
