(* ===== verification/TwoPhase.thy ===== *)
theory TwoPhase
  imports Prelude "HOL-Library.Multiset"
begin

text \<open>
  The two-phase commit of chapter 5,
  \<^verbatim>\<open>05_database_parallel_access_pattern/ans_02/distributed_transaction.go\<close>: the coordinator,
  its three participants, and the tables their SQL statements read and write.  A transaction is
  the list of its pending writes; committing applies them, rolling back drops them.  Whether a
  database call succeeds is the argument \<open>ok\<close>; the order in which Go ranges over the map of
  prepared transactions is the argument \<open>order\<close>.
\<close>

section \<open>Data\<close>

record order_data =
  od_OrderID :: string
  od_CustomerID :: int
  od_ItemID :: int
  od_Quantity :: int
  od_TotalAmount :: int
  od_CreatedAt :: time

datatype TransactionStatus = StatusPending | StatusPrepared | StatusCommitted | StatusAborted

record shop =
  sh_customers :: "int list"
  sh_orders :: "order_data list"
  sh_inventory :: "int \<rightharpoonup> int"
  sh_inventory_reservations :: "(int \<times> string \<times> int) list"
  sh_accounts :: "int \<rightharpoonup> int"
  sh_payment_reservations :: "(int \<times> string \<times> int) list"
  sh_payments :: "(string \<times> int \<times> int) list"
  sh_distributed :: "(string \<times> string \<times> TransactionStatus) list"

text \<open>The statements that write, with their arguments.\<close>

datatype sql_write =
  InsertOrder order_data
| InsertInventoryReservation int string int
| SubtractInventory int int
| DeleteInventoryReservation string
| InsertPaymentReservation int string int
| SubtractBalance int int
| InsertPayment string int int
| DeletePaymentReservation string

fun apply_write :: "sql_write \<Rightarrow> shop \<Rightarrow> shop" where
  "apply_write (InsertOrder d) s = s\<lparr>sh_orders := sh_orders s @ [d]\<rparr>"
| "apply_write (InsertInventoryReservation i oid q) s =
     s\<lparr>sh_inventory_reservations := sh_inventory_reservations s @ [(i, oid, q)]\<rparr>"
| "apply_write (SubtractInventory q i) s =
     s\<lparr>sh_inventory := (case sh_inventory s i of None \<Rightarrow> sh_inventory s
                         | Some n \<Rightarrow> (sh_inventory s)(i \<mapsto> n - q))\<rparr>"
| "apply_write (DeleteInventoryReservation oid) s =
     s\<lparr>sh_inventory_reservations := filter (\<lambda>(i, oid', q). oid' \<noteq> oid) (sh_inventory_reservations s)\<rparr>"
| "apply_write (InsertPaymentReservation c oid a) s =
     s\<lparr>sh_payment_reservations := sh_payment_reservations s @ [(c, oid, a)]\<rparr>"
| "apply_write (SubtractBalance a c) s =
     s\<lparr>sh_accounts := (case sh_accounts s c of None \<Rightarrow> sh_accounts s
                        | Some n \<Rightarrow> (sh_accounts s)(c \<mapsto> n - a))\<rparr>"
| "apply_write (InsertPayment oid c a) s = s\<lparr>sh_payments := sh_payments s @ [(oid, c, a)]\<rparr>"
| "apply_write (DeletePaymentReservation oid) s =
     s\<lparr>sh_payment_reservations := filter (\<lambda>(c, oid', a). oid' \<noteq> oid) (sh_payment_reservations s)\<rparr>"

text \<open>The database calls that can fail.\<close>

datatype db_call =
  RecordCall | BeginCall string | CustomerQuery | StockQuery | ReserveStockExec | BalanceQuery
| ReservePaymentExec | InsertOrderExec | SubtractStockExec | ReleaseStockExec
| SubtractBalanceExec | InsertPaymentExec | ReleasePaymentExec | CommitCall string
| StatusCall TransactionStatus

datatype tx_error =
  InvalidQuantity | InvalidTotalAmount | CustomerNotFound | ItemNotFound | InsufficientStock
| AccountNotFound | InsufficientFunds | DbFailure db_call

datatype dtx_error =
  RecordFailure_dtx
| ErrParticipantNotFound string
| BeginFailure string
| ErrPreparePhaseFailure string tx_error
| ErrCommitPhaseFailure string tx_error
| CommitFailure string

section \<open>The participants\<close>

datatype participant = OrderManager | InventoryManager | PaymentManager

definition participant_GetName :: "participant \<Rightarrow> string" where
  "participant_GetName p = (case p of OrderManager \<Rightarrow> ''order'' | InventoryManager \<Rightarrow> ''inventory''
     | PaymentManager \<Rightarrow> ''payment'')"

text \<open>\<open>Prepare\<close> returns the writes it made in its transaction.\<close>

definition order_Prepare :: "(db_call \<Rightarrow> bool) \<Rightarrow> order_data \<Rightarrow> shop \<Rightarrow> tx_error + sql_write list" where
  "order_Prepare ok d s =
     (if od_Quantity d \<le> 0 then Inl InvalidQuantity
      else if od_TotalAmount d \<le> 0 then Inl InvalidTotalAmount
      else if \<not> ok CustomerQuery then Inl (DbFailure CustomerQuery)
      else if od_CustomerID d \<notin> set (sh_customers s) then Inl CustomerNotFound
      else Inr [])"

definition inventory_Prepare :: "(db_call \<Rightarrow> bool) \<Rightarrow> order_data \<Rightarrow> shop \<Rightarrow> tx_error + sql_write list" where
  "inventory_Prepare ok d s =
     (if \<not> ok StockQuery then Inl (DbFailure StockQuery)
      else (case sh_inventory s (od_ItemID d) of
              None \<Rightarrow> Inl ItemNotFound
            | Some currentQuantity \<Rightarrow>
                (if currentQuantity < od_Quantity d then Inl InsufficientStock
                 else if \<not> ok ReserveStockExec then Inl (DbFailure ReserveStockExec)
                 else Inr [InsertInventoryReservation (od_ItemID d) (od_OrderID d) (od_Quantity d)])))"

definition payment_Prepare :: "(db_call \<Rightarrow> bool) \<Rightarrow> order_data \<Rightarrow> shop \<Rightarrow> tx_error + sql_write list" where
  "payment_Prepare ok d s =
     (if \<not> ok BalanceQuery then Inl (DbFailure BalanceQuery)
      else (case sh_accounts s (od_CustomerID d) of
              None \<Rightarrow> Inl AccountNotFound
            | Some balance \<Rightarrow>
                (if balance < od_TotalAmount d then Inl InsufficientFunds
                 else if \<not> ok ReservePaymentExec then Inl (DbFailure ReservePaymentExec)
                 else Inr [InsertPaymentReservation (od_CustomerID d) (od_OrderID d) (od_TotalAmount d)])))"

definition participant_Prepare ::
  "participant \<Rightarrow> (db_call \<Rightarrow> bool) \<Rightarrow> order_data \<Rightarrow> shop \<Rightarrow> tx_error + sql_write list" where
  "participant_Prepare p = (case p of OrderManager \<Rightarrow> order_Prepare | InventoryManager \<Rightarrow> inventory_Prepare
     | PaymentManager \<Rightarrow> payment_Prepare)"

text \<open>The statements of a \<open>Commit\<close> one after the other, up to the first that fails.\<close>

fun exec_all :: "(db_call \<Rightarrow> bool) \<Rightarrow> (db_call \<times> sql_write) list \<Rightarrow> tx_error + sql_write list" where
  "exec_all ok [] = Inr []"
| "exec_all ok ((call, w) # rest) =
     (if \<not> ok call then Inl (DbFailure call)
      else (case exec_all ok rest of Inl e \<Rightarrow> Inl e | Inr ws \<Rightarrow> Inr (w # ws)))"

definition order_Commit :: "order_data \<Rightarrow> (db_call \<times> sql_write) list" where
  "order_Commit d = [(InsertOrderExec, InsertOrder d)]"

definition inventory_Commit :: "order_data \<Rightarrow> (db_call \<times> sql_write) list" where
  "inventory_Commit d =
     [(SubtractStockExec, SubtractInventory (od_Quantity d) (od_ItemID d)),
      (ReleaseStockExec, DeleteInventoryReservation (od_OrderID d))]"

definition payment_Commit :: "order_data \<Rightarrow> (db_call \<times> sql_write) list" where
  "payment_Commit d =
     [(SubtractBalanceExec, SubtractBalance (od_TotalAmount d) (od_CustomerID d)),
      (InsertPaymentExec, InsertPayment (od_OrderID d) (od_CustomerID d) (od_TotalAmount d)),
      (ReleasePaymentExec, DeletePaymentReservation (od_OrderID d))]"

definition participant_Commit ::
  "participant \<Rightarrow> (db_call \<Rightarrow> bool) \<Rightarrow> order_data \<Rightarrow> tx_error + sql_write list" where
  "participant_Commit p ok d = exec_all ok
     (case p of OrderManager \<Rightarrow> order_Commit d | InventoryManager \<Rightarrow> inventory_Commit d
      | PaymentManager \<Rightarrow> payment_Commit d)"

text \<open>The compensating writes of a \<open>Rollback\<close>; their failure is only logged.\<close>

definition participant_Rollback :: "participant \<Rightarrow> order_data \<Rightarrow> sql_write list" where
  "participant_Rollback p d = (case p of OrderManager \<Rightarrow> []
     | InventoryManager \<Rightarrow> [DeleteInventoryReservation (od_OrderID d)]
     | PaymentManager \<Rightarrow> [DeletePaymentReservation (od_OrderID d)])"

section \<open>The coordinator\<close>

record dtx_metrics =
  dm_totalTransactions :: int
  dm_committedTx :: int
  dm_abortedTx :: int
  dm_prepareFailures :: int
  dm_commitFailures :: int
  dm_timeouts :: int

text \<open>\<open>co_txs\<close> holds the open transactions, each with its pending writes.\<close>

record coordinator =
  co_participants :: "string \<rightharpoonup> participant"
  co_shop :: shop
  co_txs :: "string \<rightharpoonup> sql_write list"
  co_metrics :: dtx_metrics

definition RegisterParticipant :: "participant \<Rightarrow> coordinator \<Rightarrow> coordinator" where
  "RegisterParticipant p c = c\<lparr>co_participants := (co_participants c)(participant_GetName p \<mapsto> p)\<rparr>"

definition NewTransactionCoordinator :: "shop \<Rightarrow> coordinator" where
  "NewTransactionCoordinator s =
     RegisterParticipant PaymentManager (RegisterParticipant InventoryManager (RegisterParticipant OrderManager
       \<lparr>co_participants = Map.empty, co_shop = s, co_txs = Map.empty,
        co_metrics = \<lparr>dm_totalTransactions = 0, dm_committedTx = 0, dm_abortedTx = 0,
          dm_prepareFailures = 0, dm_commitFailures = 0, dm_timeouts = 0\<rparr>\<rparr>))"

definition incrementPrepareFailures :: "coordinator \<Rightarrow> coordinator" where
  "incrementPrepareFailures c =
     c\<lparr>co_metrics := (co_metrics c)\<lparr>dm_prepareFailures := dm_prepareFailures (co_metrics c) + 1\<rparr>\<rparr>"

definition incrementCommitFailures :: "coordinator \<Rightarrow> coordinator" where
  "incrementCommitFailures c =
     c\<lparr>co_metrics := (co_metrics c)\<lparr>dm_commitFailures := dm_commitFailures (co_metrics c) + 1\<rparr>\<rparr>"

definition tx_exec :: "string \<Rightarrow> sql_write list \<Rightarrow> coordinator \<Rightarrow> coordinator" where
  "tx_exec name ws c = (case co_txs c name of None \<Rightarrow> c
     | Some pending \<Rightarrow> c\<lparr>co_txs := (co_txs c)(name \<mapsto> pending @ ws)\<rparr>)"

definition tx_Rollback :: "string \<Rightarrow> coordinator \<Rightarrow> coordinator" where
  "tx_Rollback name c = c\<lparr>co_txs := (co_txs c)(name := None)\<rparr>"

definition tx_Commit :: "string \<Rightarrow> coordinator \<Rightarrow> coordinator" where
  "tx_Commit name c = (case co_txs c name of None \<Rightarrow> c
     | Some pending \<Rightarrow> c\<lparr>co_shop := fold apply_write pending (co_shop c), co_txs := (co_txs c)(name := None)\<rparr>)"

fun rollbackAll :: "order_data \<Rightarrow> string list \<Rightarrow> coordinator \<Rightarrow> coordinator" where
  "rollbackAll d [] c = c"
| "rollbackAll d (name # names) c =
     (case co_participants c name of
        None \<Rightarrow> c
      | Some p \<Rightarrow> rollbackAll d names (tx_Rollback name (tx_exec name (participant_Rollback p d) c)))"

fun prepare_phase ::
  "(db_call \<Rightarrow> bool) \<Rightarrow> order_data \<Rightarrow> string list \<Rightarrow> string list \<Rightarrow> coordinator \<Rightarrow>
   coordinator \<times> (dtx_error + string list)" where
  "prepare_phase ok d [] prepared c = (c, Inr prepared)"
| "prepare_phase ok d (name # names) prepared c =
     (case co_participants c name of
        None \<Rightarrow> (rollbackAll d prepared c, Inl (ErrParticipantNotFound name))
      | Some p \<Rightarrow>
          (if \<not> ok (BeginCall name)
           then (incrementPrepareFailures (rollbackAll d prepared c), Inl (BeginFailure name))
           else (let c1 = c\<lparr>co_txs := (co_txs c)(name \<mapsto> [])\<rparr>
                 in case participant_Prepare p ok d (co_shop c1) of
                      Inl e \<Rightarrow> (incrementPrepareFailures (rollbackAll d prepared (tx_Rollback name c1)),
                               Inl (ErrPreparePhaseFailure name e))
                    | Inr ws \<Rightarrow> prepare_phase ok d names (prepared @ [name]) (tx_exec name ws c1))))"

fun commit_phase ::
  "(db_call \<Rightarrow> bool) \<Rightarrow> order_data \<Rightarrow> string list \<Rightarrow> string list \<Rightarrow> coordinator \<Rightarrow>
   coordinator \<times> dtx_error option" where
  "commit_phase ok d prepared [] c = (c, None)"
| "commit_phase ok d prepared (name # names) c =
     (case co_participants c name of
        None \<Rightarrow> (c, Some (ErrParticipantNotFound name))
      | Some p \<Rightarrow>
          (case participant_Commit p ok d of
             Inl e \<Rightarrow> (incrementCommitFailures (rollbackAll d prepared c), Some (ErrCommitPhaseFailure name e))
           | Inr ws \<Rightarrow>
               (let c1 = tx_exec name ws c
                in if \<not> ok (CommitCall name)
                   then (incrementCommitFailures (rollbackAll d prepared (tx_Rollback name c1)),
                         Some (CommitFailure name))
                   else commit_phase ok d prepared names (tx_Commit name c1))))"

definition updateTransactionStatus ::
  "(db_call \<Rightarrow> bool) \<Rightarrow> string \<Rightarrow> TransactionStatus \<Rightarrow> coordinator \<Rightarrow> coordinator" where
  "updateTransactionStatus ok txID st c =
     (if \<not> ok (StatusCall st) then c
      else c\<lparr>co_shop := (co_shop c)\<lparr>sh_distributed :=
               map (\<lambda>(i, oid, s). (i, oid, if i = txID then st else s)) (sh_distributed (co_shop c))\<rparr>\<rparr>)"

definition participantNames :: "string list" where
  "participantNames = [''order'', ''inventory'', ''payment'']"

definition executeTwoPhaseCommit ::
  "(db_call \<Rightarrow> bool) \<Rightarrow> string list \<Rightarrow> string \<Rightarrow> order_data \<Rightarrow> coordinator \<Rightarrow>
   coordinator \<times> dtx_error option" where
  "executeTwoPhaseCommit ok order txID d c =
     (case prepare_phase ok d participantNames [] c of
        (c1, Inl err) \<Rightarrow> (c1, Some err)
      | (c1, Inr prepared) \<Rightarrow>
          commit_phase ok d prepared order (updateTransactionStatus ok txID StatusPrepared c1))"

definition recordDistributedTransaction ::
  "(db_call \<Rightarrow> bool) \<Rightarrow> string \<Rightarrow> order_data \<Rightarrow> coordinator \<Rightarrow> coordinator \<times> bool" where
  "recordDistributedTransaction ok txID d c =
     (if \<not> ok RecordCall then (c, False)
      else (c\<lparr>co_shop := (co_shop c)\<lparr>sh_distributed :=
               sh_distributed (co_shop c) @ [(txID, od_OrderID d, StatusPending)]\<rparr>\<rparr>, True))"

definition ExecuteDistributedTransaction ::
  "(db_call \<Rightarrow> bool) \<Rightarrow> string list \<Rightarrow> string \<Rightarrow> order_data \<Rightarrow> coordinator \<Rightarrow>
   coordinator \<times> dtx_error option" where
  "ExecuteDistributedTransaction ok order txID d c0 =
    (let c1 = c0\<lparr>co_metrics := (co_metrics c0)\<lparr>dm_totalTransactions := dm_totalTransactions (co_metrics c0) + 1\<rparr>\<rparr>
     in case recordDistributedTransaction ok txID d c1 of
          (c2, False) \<Rightarrow> (c2, Some RecordFailure_dtx)
        | (c2, True) \<Rightarrow>
            (case executeTwoPhaseCommit ok order txID d c2 of
               (c3, Some err) \<Rightarrow>
                 (updateTransactionStatus ok txID StatusAborted
                    (c3\<lparr>co_metrics := (co_metrics c3)\<lparr>dm_abortedTx := dm_abortedTx (co_metrics c3) + 1\<rparr>\<rparr>), Some err)
             | (c3, None) \<Rightarrow>
                 (updateTransactionStatus ok txID StatusCommitted
                    (c3\<lparr>co_metrics := (co_metrics c3)\<lparr>dm_committedTx := dm_committedTx (co_metrics c3) + 1\<rparr>\<rparr>), None)))"

section \<open>The phases\<close>

definition registered :: "coordinator \<Rightarrow> bool" where
  "registered c \<longleftrightarrow> co_participants c = [''order'' \<mapsto> OrderManager, ''inventory'' \<mapsto> InventoryManager,
     ''payment'' \<mapsto> PaymentManager]"

lemma registered_new: "registered (NewTransactionCoordinator s)"
  by (simp add: registered_def NewTransactionCoordinator_def RegisterParticipant_def participant_GetName_def
      fun_upd_twist)

lemma new_coordinator [simp]:
  "co_txs (NewTransactionCoordinator s) = Map.empty" "co_shop (NewTransactionCoordinator s) = s"
  by (simp_all add: NewTransactionCoordinator_def RegisterParticipant_def)

lemma registered_some:
  "registered c \<Longrightarrow> n \<in> set participantNames \<Longrightarrow> \<exists>p. co_participants c n = Some p"
  by (auto simp: registered_def participantNames_def)

lemma frame_updates [simp]:
  "co_shop (tx_exec n ws c) = co_shop c"
  "co_participants (tx_exec n ws c) = co_participants c"
  "co_shop (tx_Rollback n c) = co_shop c"
  "co_participants (tx_Rollback n c) = co_participants c"
  "co_participants (tx_Commit n c) = co_participants c"
  "co_shop (incrementPrepareFailures c) = co_shop c"
  "co_participants (incrementPrepareFailures c) = co_participants c"
  "co_txs (incrementPrepareFailures c) = co_txs c"
  "co_shop (incrementCommitFailures c) = co_shop c"
  "co_participants (incrementCommitFailures c) = co_participants c"
  "co_txs (incrementCommitFailures c) = co_txs c"
  "co_txs (updateTransactionStatus ok i st c) = co_txs c"
  "co_participants (updateTransactionStatus ok i st c) = co_participants c"
  by (simp_all add: tx_exec_def tx_Rollback_def tx_Commit_def incrementPrepareFailures_def
      incrementCommitFailures_def updateTransactionStatus_def split: option.splits)

lemma co_txs_simps [simp]:
  "co_txs (tx_Rollback n c) = (co_txs c)(n := None)"
  "co_txs (tx_Commit n c) = (co_txs c)(n := None)"
  "dom (co_txs (tx_exec n ws c)) = dom (co_txs c)"
  by (auto simp: tx_Rollback_def tx_Commit_def tx_exec_def fun_upd_idem split: option.splits if_splits)

lemma rollbackAll_effect:
  assumes "registered c" and "set names \<subseteq> set participantNames"
  shows "co_shop (rollbackAll d names c) = co_shop c \<and>
    co_participants (rollbackAll d names c) = co_participants c \<and>
    dom (co_txs (rollbackAll d names c)) = dom (co_txs c) - set names"
  using assms
proof (induction names arbitrary: c)
  case Nil
  then show ?case by simp
next
  case (Cons n names)
  obtain p where p: "co_participants c n = Some p" using registered_some Cons.prems by fastforce
  define c1 where "c1 = tx_Rollback n (tx_exec n (participant_Rollback p d) c)"
  have "registered c1" using Cons.prems(1) by (simp add: registered_def c1_def)
  moreover have "dom (co_txs c1) = dom (co_txs c) - {n}" by (simp add: c1_def)
  ultimately show ?case
    using Cons.IH [of c1] Cons.prems p by (auto simp: c1_def [symmetric]) (auto simp: c1_def)
qed

definition commit_error :: "dtx_error \<Rightarrow> bool" where
  "commit_error e \<longleftrightarrow> (case e of ErrCommitPhaseFailure _ _ \<Rightarrow> True | CommitFailure _ \<Rightarrow> True | _ \<Rightarrow> False)"

definition prepared_as :: "(db_call \<Rightarrow> bool) \<Rightarrow> order_data \<Rightarrow> coordinator \<Rightarrow> string \<Rightarrow> bool" where
  "prepared_as ok d c n \<longleftrightarrow> (\<exists>p ws. co_participants c n = Some p \<and>
     participant_Prepare p ok d (co_shop c) = Inr ws \<and> co_txs c n = Some ws)"

lemma prepare_phase_effect:
  assumes "registered c" and "set (prepared @ names) \<subseteq> set participantNames" and "distinct (prepared @ names)"
    and "dom (co_txs c) = set prepared" and "\<forall>n \<in> set prepared. prepared_as ok d c n"
    and "prepare_phase ok d names prepared c = (c', r)"
  shows "co_shop c' = co_shop c \<and> registered c' \<and>
    (case r of Inl e \<Rightarrow> co_txs c' = Map.empty \<and> \<not> commit_error e
     | Inr all \<Rightarrow> all = prepared @ names \<and> dom (co_txs c') = set all \<and> (\<forall>n \<in> set all. prepared_as ok d c' n))"
  using assms
proof (induction names arbitrary: prepared c)
  case Nil
  then show ?case by auto
next
  case (Cons n names)
  obtain p where p: "co_participants c n = Some p" using registered_some Cons.prems(1,2) by fastforce
  have rb: "co_shop (rollbackAll d prepared c1) = co_shop c1 \<and>
      co_participants (rollbackAll d prepared c1) = co_participants c1 \<and>
      dom (co_txs (rollbackAll d prepared c1)) = dom (co_txs c1) - set prepared"
    if "registered c1" for c1
    using rollbackAll_effect [OF that] Cons.prems(2) by simp
  show ?case
  proof (cases "ok (BeginCall n)")
    case False
    then show ?thesis
      using Cons.prems p rb [of c] by (auto simp: registered_def commit_error_def)
  next
    case True
    define c1 where "c1 = c\<lparr>co_txs := (co_txs c)(n \<mapsto> [])\<rparr>"
    have c1: "registered c1" "co_shop c1 = co_shop c" "co_participants c1 = co_participants c"
      "co_txs c1 = (co_txs c)(n \<mapsto> [])"
      using Cons.prems(1) by (simp_all add: c1_def registered_def)
    show ?thesis
    proof (cases "participant_Prepare p ok d (co_shop c1)")
      case (Inl e)
      have "registered (tx_Rollback n c1)" using c1(1) by (simp add: registered_def)
      from rb [OF this] show ?thesis
        using Cons.prems p True Inl c1 by (auto simp: c1_def [symmetric] registered_def commit_error_def)
    next
      case (Inr ws)
      define c2 where "c2 = tx_exec n ws c1"
      have c2: "registered c2" "co_shop c2 = co_shop c" "co_participants c2 = co_participants c"
        "co_txs c2 = (co_txs c)(n \<mapsto> ws)"
        using c1 by (simp_all add: c2_def registered_def tx_exec_def)
      have "\<forall>m \<in> set (prepared @ [n]). prepared_as ok d c2 m"
        using Cons.prems(3,5) p Inr c1(2) by (auto simp: prepared_as_def c2)
      moreover have "dom (co_txs c2) = set (prepared @ [n])" using Cons.prems(4) by (auto simp: c2(4))
      moreover have "prepare_phase ok d names (prepared @ [n]) c2 = (c', r)"
        using Cons.prems(6) p True Inr by (simp add: c1_def [symmetric] c2_def [symmetric])
      ultimately show ?thesis
        using Cons.IH [of c2 "prepared @ [n]"] Cons.prems(2,3) c2(1,2) by (cases r) simp_all
    qed
  qed
qed

text \<open>What the transaction of one participant does to the tables when it commits.\<close>

definition commit_writes :: "participant \<Rightarrow> order_data \<Rightarrow> sql_write list" where
  "commit_writes p d = map snd (case p of OrderManager \<Rightarrow> order_Commit d
     | InventoryManager \<Rightarrow> inventory_Commit d | PaymentManager \<Rightarrow> payment_Commit d)"

lemma exec_all_writes: "exec_all ok calls = Inr ws \<Longrightarrow> ws = map snd calls"
  by (induction ok calls arbitrary: ws rule: exec_all.induct) (auto split: if_splits sum.splits)

lemma participant_Commit_writes: "participant_Commit p ok d = Inr ws \<Longrightarrow> ws = commit_writes p d"
  by (auto simp: participant_Commit_def commit_writes_def dest: exec_all_writes)

definition commit_one :: "order_data \<Rightarrow> coordinator \<Rightarrow> string \<Rightarrow> shop \<Rightarrow> shop" where
  "commit_one d c n = fold apply_write (the (co_txs c n) @ commit_writes (the (co_participants c n)) d)"

lemma commit_phase_effect:
  assumes "registered c" and "set prepared \<subseteq> set participantNames" and "distinct names"
    and "set names \<subseteq> dom (co_txs c)" and "dom (co_txs c) \<subseteq> set prepared"
    and "commit_phase ok d prepared names c = (c', r)"
  shows "registered c' \<and>
    (case r of None \<Rightarrow> co_shop c' = fold (commit_one d c) names (co_shop c) \<and>
        dom (co_txs c') = dom (co_txs c) - set names
     | Some e \<Rightarrow> commit_error e \<and> co_txs c' = Map.empty)"
  using assms
proof (induction names arbitrary: c)
  case Nil
  then show ?case by auto
next
  case (Cons n names)
  have n: "n \<in> set participantNames" "n \<in> dom (co_txs c)" using Cons.prems by auto
  obtain p where p: "co_participants c n = Some p" using registered_some [OF Cons.prems(1) n(1)] by blast
  obtain pending where pending: "co_txs c n = Some pending" using n(2) by blast
  have rb: "registered (rollbackAll d prepared c1) \<and> co_txs (rollbackAll d prepared c1) = Map.empty"
    if "registered c1" "dom (co_txs c1) \<subseteq> set prepared" for c1
  proof -
    have "dom (co_txs (rollbackAll d prepared c1)) = {}"
      using rollbackAll_effect [OF that(1) Cons.prems(2), of d] that(2) by blast
    then have "co_txs (rollbackAll d prepared c1) = Map.empty" by (simp only: dom_eq_empty_conv)
    then show ?thesis
      using rollbackAll_effect [OF that(1) Cons.prems(2), of d] that(1) by (simp add: registered_def)
  qed
  show ?case
  proof (cases "participant_Commit p ok d")
    case (Inl e)
    then show ?thesis
      using Cons.prems p rb [OF Cons.prems(1,5)] by (auto simp: registered_def commit_error_def)
  next
    case (Inr ws)
    note ws = participant_Commit_writes [OF Inr]
    define c1 where "c1 = tx_exec n ws c"
    have c1: "registered c1" "co_shop c1 = co_shop c" "co_participants c1 = co_participants c"
      "co_txs c1 = (co_txs c)(n \<mapsto> pending @ ws)"
      using Cons.prems(1) pending by (simp_all add: c1_def registered_def tx_exec_def)
    show ?thesis
    proof (cases "ok (CommitCall n)")
      case False
      have "registered (tx_Rollback n c1)" "dom (co_txs (tx_Rollback n c1)) \<subseteq> set prepared"
        using c1 Cons.prems(5) by (auto simp: registered_def)
      from rb [OF this] show ?thesis
        using Cons.prems(6) p Inr False by (auto simp: c1_def [symmetric] registered_def commit_error_def)
    next
      case True
      define c2 where "c2 = tx_Commit n c1"
      have c2: "registered c2" "co_shop c2 = commit_one d c n (co_shop c)"
        "co_txs c2 = (co_txs c)(n := None)" "co_participants c2 = co_participants c"
        using c1 pending p ws by (simp_all add: c2_def registered_def tx_Commit_def commit_one_def)
      have "fold (commit_one d c2) names sh = fold (commit_one d c) names sh" for sh
        using Cons.prems(3) by (intro fold_cong) (auto simp: commit_one_def c2)
      moreover have "dom (co_txs c2) = dom (co_txs c) - {n}" by (simp add: c2(3))
      moreover have "set names \<subseteq> dom (co_txs c2)" "dom (co_txs c2) \<subseteq> set prepared"
        using Cons.prems(3,4,5) by (auto simp: c2(3))
      moreover have "commit_phase ok d prepared names c2 = (c', r)"
        using Cons.prems(6) p Inr True by (simp add: c1_def [symmetric] c2_def [symmetric])
      ultimately show ?thesis
        using Cons.IH [of c2] Cons.prems(2,3) c2(1,2) by (cases r) auto
    qed
  qed
qed

section \<open>What the tables hold at the end\<close>

text \<open>The business tables: everything but the coordinator's own log.\<close>

definition business :: "shop \<Rightarrow> shop" where
  "business s = s\<lparr>sh_distributed := []\<rparr>"

lemma business_apply_write: "business (apply_write w s) = apply_write w (business s)"
  by (cases w) (simp_all add: business_def split: option.splits)

lemma business_fold: "business (fold apply_write ws s) = fold apply_write ws (business s)"
  by (induction ws arbitrary: s) (simp_all add: business_apply_write)

lemma business_commits: "business (fold (commit_one d c) ns s) = fold (commit_one d c) ns (business s)"
  by (induction ns arbitrary: s) (simp_all add: commit_one_def business_fold)

lemma business_status [simp]:
  "business (co_shop (updateTransactionStatus ok i st c)) = business (co_shop c)"
  by (simp add: updateTransactionStatus_def business_def)

lemma business_record:
  "recordDistributedTransaction ok i d c = (c', b) \<Longrightarrow>
   business (co_shop c') = business (co_shop c) \<and> co_txs c' = co_txs c \<and> registered c' = registered c"
  by (auto simp: recordDistributedTransaction_def business_def registered_def split: if_splits)

definition participant_effect :: "string \<Rightarrow> order_data \<Rightarrow> shop \<Rightarrow> shop" where
  "participant_effect n d s =
     (if n = ''order'' then s\<lparr>sh_orders := sh_orders s @ [d]\<rparr>
      else if n = ''inventory'' then
        s\<lparr>sh_inventory := (case sh_inventory s (od_ItemID d) of None \<Rightarrow> sh_inventory s
             | Some q \<Rightarrow> (sh_inventory s)(od_ItemID d \<mapsto> q - od_Quantity d)),
          sh_inventory_reservations :=
            filter (\<lambda>(i, oid, q). oid \<noteq> od_OrderID d) (sh_inventory_reservations s)\<rparr>
      else
        s\<lparr>sh_accounts := (case sh_accounts s (od_CustomerID d) of None \<Rightarrow> sh_accounts s
             | Some b \<Rightarrow> (sh_accounts s)(od_CustomerID d \<mapsto> b - od_TotalAmount d)),
          sh_payments := sh_payments s @ [(od_OrderID d, od_CustomerID d, od_TotalAmount d)],
          sh_payment_reservations :=
            filter (\<lambda>(c, oid, a). oid \<noteq> od_OrderID d) (sh_payment_reservations s)\<rparr>)"

lemma commit_one_effect:
  assumes "registered c" and "n \<in> set participantNames" and "prepared_as ok d c n"
  shows "commit_one d c n s = participant_effect n d s"
  using assms
  by (auto simp: participantNames_def registered_def prepared_as_def commit_one_def commit_writes_def
      order_Commit_def inventory_Commit_def payment_Commit_def participant_effect_def
      participant_Prepare_def order_Prepare_def inventory_Prepare_def payment_Prepare_def
      split: if_splits option.splits)

lemma business_effects:
  "business (fold (\<lambda>n. participant_effect n d) ns s) = fold (\<lambda>n. participant_effect n d) ns (business s)"
proof (induction ns arbitrary: s)
  case (Cons n ns)
  have "business (participant_effect n d s) = participant_effect n d (business s)"
    by (simp add: participant_effect_def business_def split: option.split)
  with Cons show ?case by simp
qed simp

definition order_valid :: "order_data \<Rightarrow> shop \<Rightarrow> bool" where
  "order_valid d s \<longleftrightarrow> 0 < od_Quantity d \<and> 0 < od_TotalAmount d \<and> od_CustomerID d \<in> set (sh_customers s) \<and>
     (case sh_inventory s (od_ItemID d) of None \<Rightarrow> False | Some q \<Rightarrow> od_Quantity d \<le> q) \<and>
     (case sh_accounts s (od_CustomerID d) of None \<Rightarrow> False | Some b \<Rightarrow> od_TotalAmount d \<le> b)"

lemma prepared_valid:
  assumes "registered c" and "\<forall>n \<in> set participantNames. prepared_as ok d c n"
  shows "order_valid d (co_shop c)"
  using assms
  by (auto simp: participantNames_def registered_def prepared_as_def order_valid_def participant_Prepare_def
      order_Prepare_def inventory_Prepare_def payment_Prepare_def split: if_splits option.splits)

lemma two_phase_cases:
  assumes "registered c" and "co_txs c = Map.empty" and "set order = set participantNames" and "distinct order"
    and "executeTwoPhaseCommit ok order txID d c = (c', r)"
  shows "co_txs c' = Map.empty \<and>
    (r = None \<longrightarrow> order_valid d (co_shop c) \<and>
       business (co_shop c') = fold (\<lambda>n. participant_effect n d) order (business (co_shop c))) \<and>
    (\<forall>e. r = Some e \<longrightarrow> \<not> commit_error e \<longrightarrow> co_shop c' = co_shop c)"
proof -
  obtain c1 p where prep: "prepare_phase ok d participantNames [] c = (c1, p)" by fastforce
  have names: "distinct participantNames" by (simp add: participantNames_def)
  note p1 = prepare_phase_effect [OF assms(1) _ _ _ _ prep]
  have 1: "co_shop c1 = co_shop c" "registered c1"
    "case p of Inl e \<Rightarrow> co_txs c1 = Map.empty \<and> \<not> commit_error e
     | Inr all \<Rightarrow> all = participantNames \<and> dom (co_txs c1) = set all \<and> (\<forall>n \<in> set all. prepared_as ok d c1 n)"
    using p1 assms(2) names by (cases p; simp)+
  show ?thesis
  proof (cases p)
    case (Inl e)
    then show ?thesis using 1 prep assms(5) by (auto simp: executeTwoPhaseCommit_def)
  next
    case (Inr all)
    define c2 where "c2 = updateTransactionStatus ok txID StatusPrepared c1"
    have all: "all = participantNames" "dom (co_txs c1) = set participantNames"
      "\<forall>n \<in> set participantNames. prepared_as ok d c1 n"
      using 1(3) Inr by simp_all
    have 2: "registered c2" "co_txs c2 = co_txs c1" "business (co_shop c2) = business (co_shop c1)"
      "co_participants c2 = co_participants c1"
      using 1(2) by (simp_all add: c2_def registered_def)
    have run: "commit_phase ok d participantNames order c2 = (c', r)"
      using assms(5) prep Inr all(1) by (simp add: executeTwoPhaseCommit_def c2_def)
    note p2 = commit_phase_effect [OF 2(1) _ assms(4) _ _ run]
    have 3: "case r of None \<Rightarrow> co_shop c' = fold (commit_one d c2) order (co_shop c2) \<and>
        dom (co_txs c') = dom (co_txs c2) - set order
      | Some e \<Rightarrow> commit_error e \<and> co_txs c' = Map.empty"
      using p2 assms(3) all(2) 2(2) by simp
    have eff: "commit_one d c2 n s = participant_effect n d s" if "n \<in> set order" for n s
    proof -
      have "commit_one d c1 n s = participant_effect n d s"
        using that all(3) assms(3) 1(2) by (intro commit_one_effect) auto
      then show ?thesis by (simp add: commit_one_def 2)
    qed
    have "fold (commit_one d c2) order s = fold (\<lambda>n. participant_effect n d) order s" for s
      using eff by (intro fold_cong) auto
    moreover have "order_valid d (co_shop c)"
      using prepared_valid [OF 1(2) all(3)] 1(1) by simp
    ultimately show ?thesis
      using 3 2 all(2) assms(3) 1(1)
      by (cases r) (auto simp: business_effects)
  qed
qed

lemma set_three:
  assumes "set xs = {a, b, c}" and "distinct xs" and "distinct [a, b, c]"
  shows "xs = [a, b, c] \<or> xs = [a, c, b] \<or> xs = [b, a, c] \<or> xs = [b, c, a] \<or> xs = [c, a, b] \<or> xs = [c, b, a]"
proof -
  have "length xs = 3" using distinct_card [OF assms(2)] assms(1,3) by simp
  then obtain x y z where xs: "xs = [x, y, z]"
    by (auto simp: numeral_3_eq_3 length_Suc_conv)
  have "x \<in> {a, b, c}" "y \<in> {a, b, c}" "z \<in> {a, b, c}"
    using assms(1) by (simp_all add: xs set_eq_iff) blast+
  moreover have "x \<noteq> y" "x \<noteq> z" "y \<noteq> z" using assms(2) by (simp_all add: xs)
  ultimately show ?thesis unfolding xs by (elim insertE emptyE) simp_all
qed

lemma effects_any_order:
  assumes "set order = set participantNames" and "distinct order"
  shows "fold (\<lambda>n. participant_effect n d) order s =
    participant_effect ''payment'' d (participant_effect ''inventory'' d (participant_effect ''order'' d s))"
proof -
  have "set order = {''order'', ''inventory'', ''payment''}" using assms(1) by (simp add: participantNames_def)
  from set_three [OF this assms(2)]
  have "order = [''order'', ''inventory'', ''payment''] \<or> order = [''order'', ''payment'', ''inventory''] \<or>
    order = [''inventory'', ''order'', ''payment''] \<or> order = [''inventory'', ''payment'', ''order''] \<or>
    order = [''payment'', ''order'', ''inventory''] \<or> order = [''payment'', ''inventory'', ''order'']"
    by simp
  then show ?thesis
    by (elim disjE) (simp_all add: participant_effect_def split: option.split)
qed

lemma execute_two_phase:
  assumes "ExecuteDistributedTransaction ok order txID d c0 = (c', r)" and "registered c0"
    and "co_txs c0 = Map.empty"
  shows "(r = Some RecordFailure_dtx \<and> business (co_shop c') = business (co_shop c0) \<and> co_txs c' = Map.empty) \<or>
    (\<exists>c2 c3. registered c2 \<and> co_txs c2 = Map.empty \<and> business (co_shop c2) = business (co_shop c0) \<and>
       executeTwoPhaseCommit ok order txID d c2 = (c3, r) \<and>
       business (co_shop c') = business (co_shop c3) \<and> co_txs c' = co_txs c3)"
proof -
  define c1 where "c1 = c0\<lparr>co_metrics := (co_metrics c0)\<lparr>dm_totalTransactions := dm_totalTransactions (co_metrics c0) + 1\<rparr>\<rparr>"
  obtain c2 b where rec: "recordDistributedTransaction ok txID d c1 = (c2, b)" by fastforce
  from business_record [OF rec] assms(2,3)
  have c2: "business (co_shop c2) = business (co_shop c0)" "co_txs c2 = Map.empty" "registered c2"
    by (simp_all add: c1_def registered_def)
  show ?thesis
  proof (cases b)
    case False
    then show ?thesis using assms(1) rec c2
      by (simp add: ExecuteDistributedTransaction_def c1_def [symmetric])
  next
    case True
    obtain c3 r3 where two: "executeTwoPhaseCommit ok order txID d c2 = (c3, r3)" by fastforce
    have "r3 = r \<and> business (co_shop c') = business (co_shop c3) \<and> co_txs c' = co_txs c3"
      using assms(1) rec True two
      by (cases r3) (auto simp: ExecuteDistributedTransaction_def c1_def [symmetric])
    then show ?thesis using two c2 by blast
  qed
qed

lemma order_valid_business: "order_valid d (business s) = order_valid d s"
  by (simp add: order_valid_def business_def)

text \<open>
  C22. A distributed transaction that reports success was valid and has, whatever the order in
  which the prepared participants were committed, exactly the effects of all three: the order
  is inserted, the stock reduced by its quantity and the balance by its amount, the payment
  recorded, and no reservation of this order is left; no transaction remains open.
\<close>

theorem two_phase_success:
  assumes "set order = set participantNames" and "distinct order"
    and "ExecuteDistributedTransaction ok order txID d (NewTransactionCoordinator s) = (c', None)"
  shows "\<exists>stock balance.
    sh_inventory s (od_ItemID d) = Some stock \<and> 0 < od_Quantity d \<and> od_Quantity d \<le> stock \<and>
    sh_accounts s (od_CustomerID d) = Some balance \<and> 0 < od_TotalAmount d \<and> od_TotalAmount d \<le> balance \<and>
    co_txs c' = Map.empty \<and>
    business (co_shop c') = (business s)
      \<lparr>sh_orders := sh_orders s @ [d],
       sh_inventory := (sh_inventory s)(od_ItemID d \<mapsto> stock - od_Quantity d),
       sh_inventory_reservations := filter (\<lambda>(i, oid, q). oid \<noteq> od_OrderID d) (sh_inventory_reservations s),
       sh_accounts := (sh_accounts s)(od_CustomerID d \<mapsto> balance - od_TotalAmount d),
       sh_payments := sh_payments s @ [(od_OrderID d, od_CustomerID d, od_TotalAmount d)],
       sh_payment_reservations := filter (\<lambda>(c, oid, a). oid \<noteq> od_OrderID d) (sh_payment_reservations s)\<rparr>"
proof -
  obtain c2 c3 where c: "registered c2" "co_txs c2 = Map.empty" "business (co_shop c2) = business s"
    "executeTwoPhaseCommit ok order txID d c2 = (c3, None)"
    "business (co_shop c') = business (co_shop c3)" "co_txs c' = co_txs c3"
    using execute_two_phase [OF assms(3) registered_new] by auto
  note two = two_phase_cases [OF c(1,2) assms(1,2) c(4)]
  have v: "order_valid d s"
    using two c(3) order_valid_business [of d "co_shop c2"] order_valid_business [of d s] by simp
  then obtain stock balance where sb: "sh_inventory s (od_ItemID d) = Some stock"
    "sh_accounts s (od_CustomerID d) = Some balance" "0 < od_Quantity d" "od_Quantity d \<le> stock"
    "0 < od_TotalAmount d" "od_TotalAmount d \<le> balance"
    by (auto simp: order_valid_def split: option.splits)
  have "business (co_shop c') =
      participant_effect ''payment'' d (participant_effect ''inventory'' d
        (participant_effect ''order'' d (business s)))"
    using two c effects_any_order [OF assms(1,2), of d "business s"] by simp
  with sb two c show ?thesis
    by (intro exI [of _ stock] exI [of _ balance]) (simp add: participant_effect_def business_def)
qed

definition example_shop :: shop where
  "example_shop = \<lparr>sh_customers = [1], sh_orders = [], sh_inventory = [1 \<mapsto> 10],
     sh_inventory_reservations = [], sh_accounts = [1 \<mapsto> 5000], sh_payment_reservations = [],
     sh_payments = [], sh_distributed = []\<rparr>"

definition example_order :: order_data where
  "example_order = \<lparr>od_OrderID = ''ORDER-2024-001'', od_CustomerID = 1, od_ItemID = 1, od_Quantity = 2,
     od_TotalAmount = 2000, od_CreatedAt = 0\<rparr>"

lemma two_phase_success_witness:
  "sh_inventory (business (co_shop (fst (ExecuteDistributedTransaction (\<lambda>_. True)
     [''payment'', ''order'', ''inventory''] ''DTX'' example_order (NewTransactionCoordinator example_shop))))) 1
   = Some 8"
proof -
  let ?run = "ExecuteDistributedTransaction (\<lambda>_. True) [''payment'', ''order'', ''inventory''] ''DTX''
    example_order (NewTransactionCoordinator example_shop)"
  have "snd ?run = None" by code_simp
  then have run: "?run = (fst ?run, None)" by (metis prod.collapse)
  have "set [''payment'', ''order'', ''inventory''] = set participantNames"
    "distinct [''payment'', ''order'', ''inventory'']"
    by (auto simp: participantNames_def)
  from two_phase_success [OF this run] obtain stock where
    "sh_inventory example_shop (od_ItemID example_order) = Some stock"
    "sh_inventory (business (co_shop (fst ?run))) =
       (sh_inventory example_shop)(od_ItemID example_order \<mapsto> stock - od_Quantity example_order)"
    by auto
  then show ?thesis by (simp add: example_shop_def example_order_def)
qed

text \<open>
  C37. A transaction that fails before its commit phase (a participant cannot begin or prepare,
  or the log entry cannot be written) changes none of the business tables.  And however the
  transaction ends, no participant's database transaction is left open.
\<close>

theorem two_phase_abort:
  assumes "set order = set participantNames" and "distinct order"
    and "ExecuteDistributedTransaction ok order txID d (NewTransactionCoordinator s) = (c', r)"
  shows "co_txs c' = Map.empty \<and>
    (r \<noteq> None \<longrightarrow> \<not> commit_error (the r) \<longrightarrow> business (co_shop c') = business s)"
proof -
  from execute_two_phase [OF assms(3) registered_new new_coordinator(1)]
  show ?thesis
  proof (elim disjE exE conjE, goal_cases)
    case 1
    then show ?case by simp
  next
    case (2 c2 c3)
    then show ?case
      using two_phase_cases [OF 2(1,2) assms(1,2) 2(4)] by auto
  qed
qed

lemma two_phase_abort_witness:
  "business (co_shop (fst (ExecuteDistributedTransaction (\<lambda>call. call \<noteq> ReservePaymentExec)
     participantNames ''DTX'' example_order (NewTransactionCoordinator example_shop)))) = business example_shop"
proof -
  let ?run = "ExecuteDistributedTransaction (\<lambda>call. call \<noteq> ReservePaymentExec)
     participantNames ''DTX'' example_order (NewTransactionCoordinator example_shop)"
  have "snd ?run = Some (ErrPreparePhaseFailure ''payment'' (DbFailure ReservePaymentExec))" by code_simp
  then have run: "?run = (fst ?run, Some (ErrPreparePhaseFailure ''payment'' (DbFailure ReservePaymentExec)))"
    by (metis prod.collapse)
  have "distinct participantNames" by (simp add: participantNames_def)
  from two_phase_abort [OF refl this run] show ?thesis by (simp add: commit_error_def)
qed

text \<open>
  The commit phase is not atomic: when every call works except the commit of the order's
  transaction and Go visits the payment first, the customer has paid for an order that does not
  exist, although the transaction is reported as failed.
\<close>

theorem two_phase_partial_commit:
  assumes "order_valid d s" and "\<forall>call. ok call \<longleftrightarrow> call \<noteq> CommitCall ''order''"
  shows "\<exists>c'. ExecuteDistributedTransaction ok [''payment'', ''order'', ''inventory''] txID d
        (NewTransactionCoordinator s) = (c', Some (CommitFailure ''order'')) \<and>
    sh_orders (co_shop c') = sh_orders s \<and> sh_inventory (co_shop c') = sh_inventory s \<and>
    sh_accounts (co_shop c') (od_CustomerID d) =
      map_option (\<lambda>b. b - od_TotalAmount d) (sh_accounts s (od_CustomerID d))"
proof -
  have ok: "ok = (\<lambda>call. call \<noteq> CommitCall ''order'')" using assms(2) by auto
  obtain q b where qb: "sh_inventory s (od_ItemID d) = Some q" "\<not> q < od_Quantity d" "\<not> od_Quantity d \<le> 0"
    "sh_accounts s (od_CustomerID d) = Some b" "\<not> b < od_TotalAmount d" "\<not> od_TotalAmount d \<le> 0"
    "od_CustomerID d \<in> set (sh_customers s)"
    using assms(1) by (auto simp: order_valid_def split: option.splits)
  show ?thesis
    using qb
    by (simp add: ok ExecuteDistributedTransaction_def recordDistributedTransaction_def
        NewTransactionCoordinator_def RegisterParticipant_def participant_GetName_def participantNames_def
        executeTwoPhaseCommit_def participant_Prepare_def order_Prepare_def inventory_Prepare_def
        payment_Prepare_def tx_exec_def updateTransactionStatus_def participant_Commit_def
        payment_Commit_def order_Commit_def inventory_Commit_def tx_Commit_def tx_Rollback_def
        participant_Rollback_def incrementCommitFailures_def)
qed

lemma two_phase_partial_commit_witness:
  "\<exists>c'. ExecuteDistributedTransaction (\<lambda>call. call \<noteq> CommitCall ''order'') [''payment'', ''order'', ''inventory'']
      ''DTX'' example_order (NewTransactionCoordinator example_shop) = (c', Some (CommitFailure ''order'')) \<and>
    sh_orders (co_shop c') = [] \<and> sh_accounts (co_shop c') 1 = Some 3000"
proof -
  have "order_valid example_order example_shop" by code_simp
  from two_phase_partial_commit [OF this, of "\<lambda>call. call \<noteq> CommitCall ''order''" "''DTX''"]
  show ?thesis by (auto simp: example_order_def example_shop_def)
qed

end
