(* ===== verification/Inventory.thy ===== *)
theory Inventory
  imports Prelude "HOL-Library.Word"
begin

text \<open>
  The inventory with optimistic locking of chapter 5,
  \<^verbatim>\<open>05_database_parallel_access_pattern/ans_01/inventory_system.go\<close>: one attempt at an order
  (read, check, versioned update, history, commit), the retry loop with its back-off and
  metrics, and any interleaving of the attempts of many clients.  Quantities are Go's 32-bit
  signed integers.  The answer of each database call is an argument.
\<close>

section \<open>Data\<close>

record InventoryItem =
  it_Name :: string
  it_Quantity :: "32 word"
  it_Version :: int

record OrderRequest =
  or_ItemID :: int
  or_Quantity :: "32 word"
  or_OrderID :: string

record order_history =
  oh_order_id :: string
  oh_item_id :: int
  oh_quantity :: "32 word"
  oh_before :: "32 word"
  oh_after :: "32 word"

record inv_db =
  ib_inventory :: "int \<rightharpoonup> InventoryItem"
  ib_history :: "order_history list"

datatype inv_error =
  ErrInsufficientStock | ErrOptimisticLockFailed | ErrMaxRetriesExceeded | ItemMissing | Deadlock | OtherDbError | CtxError

datatype inv_call = BeginTx | SelectForUpdate | UpdateVersioned | InsertHistory | CommitTx

record inv_metrics =
  im_successfulOrders :: int
  im_failedOrders :: int
  im_stockOutErrors :: int
  im_optimisticLockRetries :: int
  im_deadlockRetries :: int

section \<open>One attempt\<close>

text \<open>\<open>ans call\<close> is the error of a database call, if it has one.\<close>

definition getInventoryForUpdate :: "(inv_call \<Rightarrow> inv_error option) \<Rightarrow> int \<Rightarrow> inv_db \<Rightarrow> inv_error + InventoryItem" where
  "getInventoryForUpdate ans itemID db =
     (case ans SelectForUpdate of
        Some e \<Rightarrow> Inl e
      | None \<Rightarrow> (case ib_inventory db itemID of None \<Rightarrow> Inl ItemMissing | Some item \<Rightarrow> Inr item))"

text \<open>\<open>UPDATE ... WHERE id = $2 AND version = $3\<close>, with whether a row was affected.\<close>

definition updateInventoryWithOptimisticLock :: "int \<Rightarrow> 32 word \<Rightarrow> int \<Rightarrow> inv_db \<Rightarrow> inv_db \<times> bool" where
  "updateInventoryWithOptimisticLock itemID newQuantity expectedVersion db =
     (case ib_inventory db itemID of
        None \<Rightarrow> (db, False)
      | Some row \<Rightarrow>
          (if it_Version row = expectedVersion
           then (db\<lparr>ib_inventory := (ib_inventory db)
                      (itemID \<mapsto> row\<lparr>it_Quantity := newQuantity, it_Version := it_Version row + 1\<rparr>)\<rparr>, True)
           else (db, False)))"

definition recordOrderHistory :: "OrderRequest \<Rightarrow> 32 word \<Rightarrow> 32 word \<Rightarrow> inv_db \<Rightarrow> inv_db" where
  "recordOrderHistory req beforeQuantity afterQuantity db =
     db\<lparr>ib_history := ib_history db @
        [\<lparr>oh_order_id = or_OrderID req, oh_item_id = or_ItemID req, oh_quantity = or_Quantity req,
          oh_before = beforeQuantity, oh_after = afterQuantity\<rparr>]\<rparr>"

text \<open>
  The two halves of an attempt: what it reads and checks, and the update that it commits.  The
  deferred rollback undoes everything when a step of the second half fails.
\<close>

definition attempt_read :: "(inv_call \<Rightarrow> inv_error option) \<Rightarrow> OrderRequest \<Rightarrow> inv_db \<Rightarrow> inv_error + InventoryItem" where
  "attempt_read ans req db =
     (case ans BeginTx of
        Some e \<Rightarrow> Inl e
      | None \<Rightarrow>
          (case getInventoryForUpdate ans (or_ItemID req) db of
             Inl e \<Rightarrow> Inl e
           | Inr item \<Rightarrow>
               (if sint (it_Quantity item) < sint (or_Quantity req) then Inl ErrInsufficientStock else Inr item)))"

definition attempt_write ::
  "(inv_call \<Rightarrow> inv_error option) \<Rightarrow> OrderRequest \<Rightarrow> InventoryItem \<Rightarrow> inv_db \<Rightarrow> inv_db \<times> inv_error option" where
  "attempt_write ans req item db =
    (let newQuantity = it_Quantity item - or_Quantity req
     in case ans UpdateVersioned of
          Some e \<Rightarrow> (db, Some e)
        | None \<Rightarrow>
            (case updateInventoryWithOptimisticLock (or_ItemID req) newQuantity (it_Version item) db of
               (db1, updated) \<Rightarrow>
                 (if \<not> updated then (db, Some ErrOptimisticLockFailed)
                  else (case ans InsertHistory of
                          Some e \<Rightarrow> (db, Some e)
                        | None \<Rightarrow>
                            (let db2 = recordOrderHistory req (it_Quantity item) newQuantity db1
                             in case ans CommitTx of Some e \<Rightarrow> (db, Some e) | None \<Rightarrow> (db2, None))))))"

text \<open>\<open>others\<close> is what other sessions commit between the read and the update.\<close>

definition processOrderAttempt ::
  "(inv_call \<Rightarrow> inv_error option) \<Rightarrow> (inv_db \<Rightarrow> inv_db) \<Rightarrow> OrderRequest \<Rightarrow> inv_db \<Rightarrow> inv_db \<times> inv_error option" where
  "processOrderAttempt ans others req db =
     (case attempt_read ans req db of
        Inl e \<Rightarrow> (db, Some e)
      | Inr item \<Rightarrow> attempt_write ans req item (others db))"

section \<open>The retry loop\<close>

definition calculateBackoffDelay :: "duration \<Rightarrow> nat \<Rightarrow> duration" where
  "calculateBackoffDelay retryDelay attempt = retryDelay * 2 ^ attempt + int attempt * Millisecond"

definition isDeadlockError :: "inv_error \<Rightarrow> bool" where
  "isDeadlockError e \<longleftrightarrow> e = Deadlock"

record inv_manager =
  iv_maxRetries :: nat
  iv_retryDelay :: duration
  iv_metrics :: inv_metrics

definition NewInventoryManager :: inv_manager where
  "NewInventoryManager = \<lparr>iv_maxRetries = 5, iv_retryDelay = 10 * Millisecond,
     iv_metrics = \<lparr>im_successfulOrders = 0, im_failedOrders = 0, im_stockOutErrors = 0,
       im_optimisticLockRetries = 0, im_deadlockRetries = 0\<rparr>\<rparr>"

definition incrementSuccessfulOrders :: "inv_metrics \<Rightarrow> inv_metrics" where
  "incrementSuccessfulOrders m = m\<lparr>im_successfulOrders := im_successfulOrders m + 1\<rparr>"
definition incrementFailedOrders :: "inv_metrics \<Rightarrow> inv_metrics" where
  "incrementFailedOrders m = m\<lparr>im_failedOrders := im_failedOrders m + 1\<rparr>"
definition incrementStockOutErrors :: "inv_metrics \<Rightarrow> inv_metrics" where
  "incrementStockOutErrors m = m\<lparr>im_stockOutErrors := im_stockOutErrors m + 1\<rparr>"
definition incrementOptimisticLockRetries :: "inv_metrics \<Rightarrow> inv_metrics" where
  "incrementOptimisticLockRetries m = m\<lparr>im_optimisticLockRetries := im_optimisticLockRetries m + 1\<rparr>"
definition incrementDeadlockRetries :: "inv_metrics \<Rightarrow> inv_metrics" where
  "incrementDeadlockRetries m = m\<lparr>im_deadlockRetries := im_deadlockRetries m + 1\<rparr>"

text \<open>
  What attempt \<open>k\<close> meets: the answers of its calls, what others do while it runs and before
  it starts, and whether the context ends during the wait after it.
\<close>

record attempt_env =
  ae_ans :: "inv_call \<Rightarrow> inv_error option"
  ae_before :: "inv_db \<Rightarrow> inv_db"
  ae_during :: "inv_db \<Rightarrow> inv_db"
  ae_cancelled :: bool

fun process_loop ::
  "duration \<Rightarrow> (nat \<Rightarrow> attempt_env) \<Rightarrow> OrderRequest \<Rightarrow> nat \<Rightarrow> nat \<Rightarrow> inv_db \<times> inv_metrics \<Rightarrow>
   (inv_db \<times> inv_metrics) \<times> inv_error option \<times> duration list" where
  "process_loop delay env req 0 k (db, m) = ((db, incrementFailedOrders m), Some ErrMaxRetriesExceeded, [])"
| "process_loop delay env req (Suc n) k (db, m) =
     (case processOrderAttempt (ae_ans (env k)) (ae_during (env k)) req (ae_before (env k) db) of
        (db1, None) \<Rightarrow> ((db1, incrementSuccessfulOrders m), None, [])
      | (db1, Some e) \<Rightarrow>
          (if e = ErrOptimisticLockFailed then
             (if ae_cancelled (env k) then ((db1, incrementOptimisticLockRetries m), Some CtxError, [])
              else (case process_loop delay env req n (Suc k) (db1, incrementOptimisticLockRetries m) of
                      (s, r, waits) \<Rightarrow> (s, r, calculateBackoffDelay delay k # waits)))
           else if isDeadlockError e then
             (if ae_cancelled (env k) then ((db1, incrementDeadlockRetries m), Some CtxError, [])
              else (case process_loop delay env req n (Suc k) (db1, incrementDeadlockRetries m) of
                      (s, r, waits) \<Rightarrow> (s, r, calculateBackoffDelay delay k * 2 # waits)))
           else if e = ErrInsufficientStock then
             ((db1, incrementFailedOrders (incrementStockOutErrors m)), Some e, [])
           else ((db1, incrementFailedOrders m), Some e, [])))"

definition ProcessOrder ::
  "(nat \<Rightarrow> attempt_env) \<Rightarrow> OrderRequest \<Rightarrow> inv_db \<times> inv_manager \<Rightarrow>
   (inv_db \<times> inv_manager) \<times> inv_error option \<times> duration list" where
  "ProcessOrder env req s =
     (case process_loop (iv_retryDelay (snd s)) env req (iv_maxRetries (snd s)) 0 (fst s, iv_metrics (snd s)) of
        ((db, m), r, waits) \<Rightarrow> ((db, (snd s)\<lparr>iv_metrics := m\<rparr>), r, waits))"

section \<open>Many clients\<close>

text \<open>
  The steps of any number of clients on one database, each between its read and its write with
  the row it has read.  No lock holds between the two: what the row lock of the read adds in
  the code only removes interleavings.
\<close>

inductive inv_reachable ::
  "inv_db \<Rightarrow> inv_db \<times> (nat \<rightharpoonup> OrderRequest \<times> InventoryItem) \<Rightarrow> bool" for db0 where
  inv_start: "inv_reachable db0 (db0, Map.empty)"
| inv_reads: "inv_reachable db0 (db, reading) \<Longrightarrow> 0 \<le> sint (or_Quantity req) \<Longrightarrow>
    attempt_read ans req db = Inr item \<Longrightarrow> inv_reachable db0 (db, reading(i \<mapsto> (req, item)))"
| inv_writes: "inv_reachable db0 (db, reading) \<Longrightarrow> reading i = Some (req, item) \<Longrightarrow>
    inv_reachable db0 (fst (attempt_write ans req item db), reading(i := None))"

inductive_cases inv_readsE: "inv_reachable db0 s"

definition sold :: "int \<Rightarrow> inv_db \<Rightarrow> int" where
  "sold i db = sum_list (map (\<lambda>h. sint (oh_quantity h)) (filter (\<lambda>h. oh_item_id h = i) (ib_history db)))"

definition inv_ok :: "inv_db \<Rightarrow> inv_db \<times> (nat \<rightharpoonup> OrderRequest \<times> InventoryItem) \<Rightarrow> bool" where
  "inv_ok db0 s \<longleftrightarrow>
     (\<forall>i row. ib_inventory (fst s) i = Some row \<longrightarrow> 0 \<le> sint (it_Quantity row) \<and>
        (\<exists>row0. ib_inventory db0 i = Some row0 \<and>
           sint (it_Quantity row) + sold i (fst s) = sint (it_Quantity row0) + sold i db0 \<and>
           it_Version row - it_Version row0 =
             int (length (filter (\<lambda>h. oh_item_id h = i) (ib_history (fst s)))) -
             int (length (filter (\<lambda>h. oh_item_id h = i) (ib_history db0))))) \<and>
     (\<forall>k req item. snd s k = Some (req, item) \<longrightarrow>
        0 \<le> sint (or_Quantity req) \<and> sint (or_Quantity req) \<le> sint (it_Quantity item) \<and>
        (\<exists>row. ib_inventory (fst s) (or_ItemID req) = Some row \<and> it_Version item \<le> it_Version row \<and>
           (it_Version item = it_Version row \<longrightarrow> it_Quantity item = it_Quantity row)))"

lemma sint_diff: "0 \<le> sint b \<Longrightarrow> sint b \<le> sint a \<Longrightarrow> sint (a - b :: 32 word) = sint a - sint b"
proof -
  assume b: "0 \<le> sint b" "sint b \<le> sint a"
  have "sint a < 2 ^ 31" using sint_lt [of a] by simp
  with b have "signed_take_bit 31 (sint a - sint b) = sint a - sint b"
    by (intro signed_take_bit_int_eq_self) simp_all
  then show ?thesis by (simp add: sint_word_ariths)
qed

lemma attempt_write_cases:
  "attempt_write ans req item db = (db, snd (attempt_write ans req item db)) \<or>
   (\<exists>row. ib_inventory db (or_ItemID req) = Some row \<and> it_Version row = it_Version item \<and>
     attempt_write ans req item db =
       (recordOrderHistory req (it_Quantity item) (it_Quantity item - or_Quantity req)
          (db\<lparr>ib_inventory := (ib_inventory db)(or_ItemID req \<mapsto>
             row\<lparr>it_Quantity := it_Quantity item - or_Quantity req, it_Version := it_Version row + 1\<rparr>)\<rparr>), None))"
  by (auto simp: attempt_write_def updateInventoryWithOptimisticLock_def Let_def split: option.splits)

lemma attempt_read_row:
  "attempt_read ans req db = Inr item \<Longrightarrow>
   ib_inventory db (or_ItemID req) = Some item \<and> sint (or_Quantity req) \<le> sint (it_Quantity item)"
  by (auto simp: attempt_read_def getInventoryForUpdate_def split: option.splits if_splits)

lemma inv_ok_writes:
  assumes "inv_ok db0 (db, reading)" and "reading i = Some (req, item)"
  shows "inv_ok db0 (fst (attempt_write ans req item db), reading(i := None))"
proof (cases "attempt_write ans req item db = (db, snd (attempt_write ans req item db))")
  case True
  then have "fst (attempt_write ans req item db) = db" by (metis fst_conv)
  then show ?thesis using assms(1) by (simp add: inv_ok_def)
next
  case False
  define q where "q = it_Quantity item - or_Quantity req"
  obtain row where row: "ib_inventory db (or_ItemID req) = Some row" "it_Version row = it_Version item"
    and db': "fst (attempt_write ans req item db) = recordOrderHistory req (it_Quantity item) q
      (db\<lparr>ib_inventory := (ib_inventory db)(or_ItemID req \<mapsto>
             row\<lparr>it_Quantity := q, it_Version := it_Version row + 1\<rparr>)\<rparr>)"
    using attempt_write_cases [of ans req item db] False by (auto simp: q_def)
  have req: "0 \<le> sint (or_Quantity req)" "sint (or_Quantity req) \<le> sint (it_Quantity item)"
    and same: "it_Quantity item = it_Quantity row"
  proof -
    have "0 \<le> sint (or_Quantity req) \<and> sint (or_Quantity req) \<le> sint (it_Quantity item) \<and>
        (\<exists>row. ib_inventory db (or_ItemID req) = Some row \<and> it_Version item \<le> it_Version row \<and>
           (it_Version item = it_Version row \<longrightarrow> it_Quantity item = it_Quantity row))"
      using assms unfolding inv_ok_def fst_conv snd_conv by blast
    then show "0 \<le> sint (or_Quantity req)" "sint (or_Quantity req) \<le> sint (it_Quantity item)"
      "it_Quantity item = it_Quantity row"
      using row by auto
  qed
  have q: "sint q = sint (it_Quantity row) - sint (or_Quantity req)" "0 \<le> sint q"
    using sint_diff [OF req] req(2) same by (simp_all add: q_def)
  let ?db' = "fst (attempt_write ans req item db)"
  have sold': "sold j ?db' = sold j db + (if j = or_ItemID req then sint (or_Quantity req) else 0)"
    and count': "filter (\<lambda>h. oh_item_id h = j) (ib_history ?db') =
      filter (\<lambda>h. oh_item_id h = j) (ib_history db) @
      (if j = or_ItemID req then [last (ib_history ?db')] else [])"
    and inv': "ib_inventory ?db' = (ib_inventory db)(or_ItemID req \<mapsto>
      row\<lparr>it_Quantity := q, it_Version := it_Version row + 1\<rparr>)" for j
    by (auto simp: db' sold_def recordOrderHistory_def)
  show ?thesis
    using assms row req q
    by (auto simp: inv_ok_def sold' count' inv' split: if_splits) force+
qed

lemma inv_ok_reads:
  assumes "inv_ok db0 (db, reading)" and "0 \<le> sint (or_Quantity req)" and "attempt_read ans req db = Inr item"
  shows "inv_ok db0 (db, reading(i \<mapsto> (req, item)))"
  using assms(1,2) attempt_read_row [OF assms(3)] by (auto simp: inv_ok_def)

lemma inv_ok_reachable:
  assumes "inv_reachable db0 s" and "\<forall>row \<in> ran (ib_inventory db0). 0 \<le> sint (it_Quantity row)"
  shows "inv_ok db0 s"
  using assms(1)
proof (induction rule: inv_reachable.induct)
  case inv_start
  then show ?case using assms(2) by (auto simp: inv_ok_def ran_def)
next
  case (inv_reads db reading req ans item i)
  then show ?case by (intro inv_ok_reads)
next
  case (inv_writes db reading i req item ans)
  then show ?case by (intro inv_ok_writes)
qed

text \<open>
  C16. No lost update and no overselling: however the reads and writes of any number of clients
  with nonnegative quantities interleave, and whatever database calls fail, no stock becomes
  negative, the stock and the quantities of the recorded orders add up to the initial stock,
  and the version counts the recorded orders.
\<close>

theorem inventory_conserved:
  assumes "inv_reachable db0 (db, reading)" and "\<forall>row \<in> ran (ib_inventory db0). 0 \<le> sint (it_Quantity row)"
    and "ib_history db0 = []" and "ib_inventory db i = Some row"
  shows "\<exists>row0. ib_inventory db0 i = Some row0 \<and> 0 \<le> sint (it_Quantity row) \<and>
    sint (it_Quantity row) + sold i db = sint (it_Quantity row0) \<and>
    it_Version row = it_Version row0 + int (length (filter (\<lambda>h. oh_item_id h = i) (ib_history db)))"
proof -
  have "0 \<le> sint (it_Quantity row) \<and> (\<exists>row0. ib_inventory db0 i = Some row0 \<and>
      sint (it_Quantity row) + sold i db = sint (it_Quantity row0) + sold i db0 \<and>
      it_Version row - it_Version row0 =
        int (length (filter (\<lambda>h. oh_item_id h = i) (ib_history db))) -
        int (length (filter (\<lambda>h. oh_item_id h = i) (ib_history db0))))"
    using inv_ok_reachable [OF assms(1,2)] assms(4) unfolding inv_ok_def fst_conv by blast
  then show ?thesis using assms(3) by (auto simp: sold_def)
qed

definition inv_example :: inv_db where
  "inv_example = \<lparr>ib_inventory = [1 \<mapsto> \<lparr>it_Name = ''widget'', it_Quantity = 10, it_Version = 1\<rparr>], ib_history = []\<rparr>"

definition inv_example_req :: OrderRequest where
  "inv_example_req = \<lparr>or_ItemID = 1, or_Quantity = 7, or_OrderID = ''A''\<rparr>"

lemma inventory_conserved_witness:
  "\<exists>db reading. inv_reachable inv_example (db, reading) \<and> length (ib_history db) = 1 \<and> sold 1 db = 7 \<and>
     reading 1 = Some (inv_example_req, \<lparr>it_Name = ''widget'', it_Quantity = 10, it_Version = 1\<rparr>)"
proof -
  define item :: InventoryItem where "item = \<lparr>it_Name = ''widget'', it_Quantity = 10, it_Version = 1\<rparr>"
  have read: "attempt_read (\<lambda>_. None) inv_example_req inv_example = Inr item"
    by (simp add: attempt_read_def getInventoryForUpdate_def inv_example_def inv_example_req_def item_def)
  have "0 \<le> sint (or_Quantity inv_example_req)" by (simp add: inv_example_req_def)
  note r1 = inv_reads [OF inv_start this read, of 0]
  note r2 = inv_reads [OF r1 \<open>0 \<le> sint (or_Quantity inv_example_req)\<close> read, of 1]
  define db where "db = fst (attempt_write (\<lambda>_. None) inv_example_req item inv_example)"
  have reach: "inv_reachable inv_example (db, [0 \<mapsto> (inv_example_req, item), 1 \<mapsto> (inv_example_req, item)](0 := None :: (OrderRequest \<times> InventoryItem) option))"
    unfolding db_def by (rule inv_writes [OF r2]) simp
  have row: "ib_inventory db 1 = Some \<lparr>it_Name = ''widget'', it_Quantity = 3, it_Version = 2\<rparr>"
    "length (ib_history db) = 1"
    by (simp_all add: db_def attempt_write_def updateInventoryWithOptimisticLock_def recordOrderHistory_def
        inv_example_def inv_example_req_def item_def)
  have init: "\<forall>row \<in> ran (ib_inventory inv_example). 0 \<le> sint (it_Quantity row)" "ib_history inv_example = []"
    by (auto simp: inv_example_def ran_def split: if_splits)
  have "sold 1 db = 7"
    using inventory_conserved [OF reach init row(1)] by (auto simp: inv_example_def)
  moreover have "([0 :: nat \<mapsto> (inv_example_req, item), 1 \<mapsto> (inv_example_req, item)](0 := None)) (1 :: nat) =
      Some (inv_example_req, \<lparr>it_Name = ''widget'', it_Quantity = 10, it_Version = 1\<rparr>)"
    by (simp add: item_def)
  ultimately show ?thesis using reach row(2) by blast
qed

section \<open>The retry loop\<close>

definition order_recorded :: "OrderRequest \<Rightarrow> inv_db \<Rightarrow> inv_db \<Rightarrow> bool" where
  "order_recorded req db db' \<longleftrightarrow> (\<exists>row. ib_inventory db (or_ItemID req) = Some row \<and>
     sint (or_Quantity req) \<le> sint (it_Quantity row) \<and>
     db' = recordOrderHistory req (it_Quantity row) (it_Quantity row - or_Quantity req)
       (db\<lparr>ib_inventory := (ib_inventory db)(or_ItemID req \<mapsto>
          row\<lparr>it_Quantity := it_Quantity row - or_Quantity req, it_Version := it_Version row + 1\<rparr>)\<rparr>))"

lemma attempt_alone:
  "processOrderAttempt ans id req db = (db', r) \<Longrightarrow>
   (case r of None \<Rightarrow> order_recorded req db db' | Some e \<Rightarrow> db' = db)"
  by (auto simp: processOrderAttempt_def attempt_read_def getInventoryForUpdate_def attempt_write_def Let_def
      updateInventoryWithOptimisticLock_def order_recorded_def split: option.splits if_splits sum.splits)

lemma process_loop_alone:
  assumes "\<forall>k. ae_before (env k) = id \<and> ae_during (env k) = id"
    and "process_loop delay env req n k (db, m) = ((db', m'), r, waits)"
  shows "case r of None \<Rightarrow> order_recorded req db db' | Some e \<Rightarrow> db' = db"
  using assms(2)
proof (induction n arbitrary: k m waits)
  case 0
  then show ?case by (cases r) simp_all
next
  case (Suc n)
  obtain db1 r1 where att: "processOrderAttempt (ae_ans (env k)) id req db = (db1, r1)" by fastforce
  note alone = attempt_alone [OF att]
  show ?case
  proof (cases r1)
    case None
    then show ?thesis using Suc.prems alone att assms(1) by simp
  next
    case (Some e)
    then have "db1 = db" using alone by simp
    then show ?thesis
      using Suc.prems att assms(1) Some by (auto split: if_splits prod.splits dest: Suc.IH)
  qed
qed

text \<open>
  An order is applied exactly once: when nobody interferes, whatever calls fail in whatever
  attempts, \<open>ProcessOrder\<close> returns nil only if the stock sufficed and the order was subtracted
  and recorded once, and returns an error only if the database is unchanged.
\<close>

theorem process_order_exactly_once:
  assumes "\<forall>k. ae_before (env k) = id \<and> ae_during (env k) = id"
    and "ProcessOrder env req (db, mgr) = ((db', mgr'), r, waits)"
  shows "case r of None \<Rightarrow> order_recorded req db db' | Some e \<Rightarrow> db' = db"
  using assms process_loop_alone [OF assms(1)]
  by (auto simp: ProcessOrder_def split: prod.splits)

definition flaky_env :: "nat \<Rightarrow> attempt_env" where
  "flaky_env k = \<lparr>ae_ans = (\<lambda>call. if k < 2 \<and> call = CommitTx then Some Deadlock else None),
     ae_before = id, ae_during = id, ae_cancelled = False\<rparr>"

lemma process_order_exactly_once_witness:
  "order_recorded inv_example_req inv_example
     (fst (fst (ProcessOrder flaky_env inv_example_req (inv_example, NewInventoryManager))))"
proof -
  let ?r = "ProcessOrder flaky_env inv_example_req (inv_example, NewInventoryManager)"
  have "fst (snd ?r) = None" by code_simp
  moreover have "?r = ((fst (fst ?r), snd (fst ?r)), fst (snd ?r), snd (snd ?r))" by simp
  moreover have "\<forall>k. ae_before (flaky_env k) = id \<and> ae_during (flaky_env k) = id"
    by (simp add: flaky_env_def)
  ultimately show ?thesis
    using process_order_exactly_once [of flaky_env inv_example_req inv_example NewInventoryManager
        "fst (fst ?r)" "snd (fst ?r)" "fst (snd ?r)" "snd (snd ?r)"]
    by simp
qed

lemma process_loop_accounts:
  "process_loop delay env req n k (db, m) = ((db', m'), r, waits) \<Longrightarrow> 0 \<le> delay \<Longrightarrow>
   length waits \<le> n \<and>
   sum_list waits \<le> sum_list (map (\<lambda>j. 2 * calculateBackoffDelay delay j) [k..<k + n]) \<and>
   im_successfulOrders m' = im_successfulOrders m + (if r = None then 1 else 0) \<and>
   im_failedOrders m' \<le> im_failedOrders m + (if r = None then 0 else 1) \<and>
   (r \<notin> {None, Some CtxError} \<longrightarrow> im_failedOrders m' = im_failedOrders m + 1)"
proof (induction n arbitrary: k db m waits)
  case 0
  then show ?case by (auto simp: incrementFailedOrders_def)
next
  case (Suc n)
  obtain db1 r1 where att: "processOrderAttempt (ae_ans (env k)) (ae_during (env k)) req (ae_before (env k) db) = (db1, r1)"
    by fastforce
  define total where "total = sum_list (map (\<lambda>j. 2 * calculateBackoffDelay delay j) [Suc k..<Suc k + n])"
  have b: "0 \<le> calculateBackoffDelay delay j" for j
    using Suc.prems(2) by (simp add: calculateBackoffDelay_def Millisecond_def)
  have t: "sum_list (map (\<lambda>j. 2 * calculateBackoffDelay delay j) [k..<k + Suc n]) =
      2 * calculateBackoffDelay delay k + total"
  proof -
    have "[k..<k + Suc n] = k # [Suc k..<Suc k + n]" by (subst upt_conv_Cons) simp_all
    then show ?thesis by (simp only: total_def list.map sum_list.Cons)
  qed
  have t0: "0 \<le> total" unfolding total_def using b by (intro sum_list_nonneg) auto
  note ih = Suc.IH [where k = "Suc k", OF _ Suc.prems(2), folded total_def]
  show ?case
    using Suc.prems att b [of k] t0 unfolding t
    by (auto simp: incrementSuccessfulOrders_def incrementFailedOrders_def incrementStockOutErrors_def
        incrementOptimisticLockRetries_def incrementDeadlockRetries_def
        split: option.splits if_splits prod.splits dest!: ih)
qed

text \<open>
  Every call of \<open>ProcessOrder\<close> on a new manager waits at most five times, together at most
  640 milliseconds, and is counted as one successful order if it returns nil and otherwise, unless
  its context ended, as one failed order.
\<close>

theorem process_order_bounded:
  assumes "ProcessOrder env req (db, NewInventoryManager) = ((db', mgr'), r, waits)"
  shows "length waits \<le> 5 \<and> sum_list waits \<le> 640 * Millisecond \<and>
    im_successfulOrders (iv_metrics mgr') = (if r = None then 1 else 0) \<and>
    (r \<notin> {None, Some CtxError} \<longrightarrow> im_failedOrders (iv_metrics mgr') = 1)"
proof -
  have "sum_list (map (\<lambda>j. 2 * calculateBackoffDelay (10 * Millisecond) j) [0..<0 + 5]) = 640 * Millisecond"
    by (simp add: calculateBackoffDelay_def Millisecond_def upt_rec)
  moreover obtain m' where "process_loop (10 * Millisecond) env req 5 0 (db, iv_metrics NewInventoryManager) =
      ((db', m'), r, waits)" "iv_metrics mgr' = m'"
    using assms by (auto simp: ProcessOrder_def NewInventoryManager_def split: prod.splits)
  ultimately show ?thesis
    using process_loop_accounts [of "10 * Millisecond" env req 5 0 db "iv_metrics NewInventoryManager" db' m' r waits]
    by (auto simp: NewInventoryManager_def Millisecond_def)
qed

lemma process_order_bounded_witness:
  "sum_list (snd (snd (ProcessOrder flaky_env inv_example_req (inv_example, NewInventoryManager)))) \<le> 640 * Millisecond"
proof -
  let ?r = "ProcessOrder flaky_env inv_example_req (inv_example, NewInventoryManager)"
  have "?r = ((fst (fst ?r), snd (fst ?r)), fst (snd ?r), snd (snd ?r))" by simp
  from process_order_bounded [OF this] show ?thesis by blast
qed

text \<open>
  Quantities are not checked to be positive: an order for a negative quantity succeeds and
  adds its absolute value to the stock.
\<close>

theorem negative_order_adds_stock:
  assumes "sint (or_Quantity req) < 0" and "ib_inventory db (or_ItemID req) = Some row"
    and "0 \<le> sint (it_Quantity row)" and "sint (it_Quantity row) - sint (or_Quantity req) < 2 ^ 31"
  shows "\<exists>db' row'. processOrderAttempt (\<lambda>_. None) id req db = (db', None) \<and>
    ib_inventory db' (or_ItemID req) = Some row' \<and>
    sint (it_Quantity row') = sint (it_Quantity row) + \<bar>sint (or_Quantity req)\<bar>"
proof -
  have "sint (it_Quantity row - or_Quantity req) = sint (it_Quantity row) - sint (or_Quantity req)"
  proof -
    have "signed_take_bit 31 (sint (it_Quantity row) - sint (or_Quantity req)) =
        sint (it_Quantity row) - sint (or_Quantity req)"
      using assms by (intro signed_take_bit_int_eq_self) simp_all
    then show ?thesis by (simp add: sint_word_ariths)
  qed
  then show ?thesis
    using assms
    by (simp add: processOrderAttempt_def attempt_read_def getInventoryForUpdate_def attempt_write_def
        updateInventoryWithOptimisticLock_def recordOrderHistory_def Let_def)
qed

lemma negative_order_adds_stock_witness:
  "\<exists>db' row'. processOrderAttempt (\<lambda>_. None) id (inv_example_req\<lparr>or_Quantity := -5\<rparr>) inv_example = (db', None) \<and>
    ib_inventory db' 1 = Some row' \<and> sint (it_Quantity row') = 15"
  using negative_order_adds_stock [of "inv_example_req\<lparr>or_Quantity := -5\<rparr>" inv_example
      "\<lparr>it_Name = ''widget'', it_Quantity = 10, it_Version = 1\<rparr>"]
  by (simp add: inv_example_def inv_example_req_def)

end
