(* ===== verification/BinaryHeap.thy ===== *)
theory BinaryHeap
  imports Prelude "HOL-Library.Multiset"
begin

text \<open>
  Go's \<^verbatim>\<open>container/heap\<close> as the priority queue uses it: \<^verbatim>\<open>up\<close>, \<^verbatim>\<open>down\<close>, \<^verbatim>\<open>Push\<close> and
  \<^verbatim>\<open>Pop\<close> on a slice, over the \<^verbatim>\<open>Less\<close> of \<^verbatim>\<open>heap.Interface\<close>.  The interface's contract is
  the locale \<open>heap_interface\<close>: \<^verbatim>\<open>Less\<close> is a strict weak order.  From it follow the
  heap invariant, the preservation of the elements and the minimality of what \<^verbatim>\<open>Pop\<close> returns.
\<close>

section \<open>The algorithms\<close>

definition swap :: "'a list \<Rightarrow> nat \<Rightarrow> nat \<Rightarrow> 'a list" where
  "swap xs i j = xs[i := xs ! j, j := xs ! i]"

lemma length_swap [simp]: "length (swap xs i j) = length xs"
  by (simp add: swap_def)

function heap_up :: "('a \<Rightarrow> 'a \<Rightarrow> bool) \<Rightarrow> 'a list \<Rightarrow> nat \<Rightarrow> 'a list" where
  "heap_up before xs j =
     (let i = (j - 1) div 2
      in if i = j \<or> \<not> before (xs ! j) (xs ! i) then xs else heap_up before (swap xs i j) i)"
  by pat_completeness auto
termination
  by (relation "measure (\<lambda>(before, xs, j). j)") auto

function heap_down :: "('a \<Rightarrow> 'a \<Rightarrow> bool) \<Rightarrow> 'a list \<Rightarrow> nat \<Rightarrow> nat \<Rightarrow> 'a list" where
  "heap_down before xs i n =
     (let j1 = 2 * i + 1
      in if j1 \<ge> n then xs
         else (let j2 = j1 + 1;
                   j = (if j2 < n \<and> before (xs ! j2) (xs ! j1) then j2 else j1)
               in if \<not> before (xs ! j) (xs ! i) then xs else heap_down before (swap xs i j) j n))"
  by pat_completeness auto
termination
  by (relation "measure (\<lambda>(before, xs, i, n). n - i)") (auto simp: Let_def split: if_splits)

declare heap_up.simps [simp del] heap_down.simps [simp del]

definition heap_Push :: "('a \<Rightarrow> 'a \<Rightarrow> bool) \<Rightarrow> 'a \<Rightarrow> 'a list \<Rightarrow> 'a list" where
  "heap_Push before x xs = heap_up before (xs @ [x]) (length xs)"

definition heap_Pop :: "('a \<Rightarrow> 'a \<Rightarrow> bool) \<Rightarrow> 'a list \<Rightarrow> 'a \<times> 'a list" where
  "heap_Pop before xs =
    (let n = length xs - 1;
         ys = heap_down before (swap xs 0 n) 0 n
     in (ys ! n, take n ys))"

section \<open>The elements are preserved\<close>

lemma mset_swap [simp]: "i < length xs \<Longrightarrow> j < length xs \<Longrightarrow> mset (swap xs i j) = mset xs"
  by (simp add: swap_def mset_swap)

lemma mset_heap_up: "j < length xs \<Longrightarrow> mset (heap_up before xs j) = mset xs \<and> length (heap_up before xs j) = length xs"
proof (induction before xs j rule: heap_up.induct)
  case (1 before xs j)
  show ?case
    using 1 by (subst (1 2) heap_up.simps) (auto simp: Let_def)
qed

lemma mset_heap_down:
  "i < length xs \<Longrightarrow> n \<le> length xs \<Longrightarrow>
   mset (heap_down before xs i n) = mset xs \<and> length (heap_down before xs i n) = length xs"
proof (induction before xs i n rule: heap_down.induct)
  case (1 before xs i n)
  show ?case
    using 1 by (subst (1 2) heap_down.simps) (auto simp: Let_def)
qed

lemma heap_down_beyond: "n \<le> k \<Longrightarrow> i < n \<Longrightarrow> heap_down before xs i n ! k = xs ! k"
proof (induction before xs i n rule: heap_down.induct)
  case (1 before xs i n)
  show ?case
    using 1 by (subst heap_down.simps) (auto simp: Let_def swap_def)
qed

section \<open>The contract of the interface\<close>

locale heap_interface =
  fixes before :: "'a \<Rightarrow> 'a \<Rightarrow> bool"
  assumes asym: "before a b \<Longrightarrow> \<not> before b a"
    and neg_trans: "\<not> before a b \<Longrightarrow> \<not> before b c \<Longrightarrow> \<not> before a c"
begin

lemma irrefl [simp]: "\<not> before a a"
  using asym by blast

definition in_order :: "'a \<Rightarrow> 'a \<Rightarrow> bool" where
  "in_order a b \<longleftrightarrow> \<not> before b a"

lemma io_refl [simp]: "in_order a a"
  using asym by (auto simp: in_order_def)

lemma io_trans: "in_order a b \<Longrightarrow> in_order b c \<Longrightarrow> in_order a c"
  using neg_trans by (auto simp: in_order_def)

lemma before_io: "before a b \<Longrightarrow> in_order a b"
  using asym by (auto simp: in_order_def)

definition is_heap :: "'a list \<Rightarrow> nat \<Rightarrow> bool" where
  "is_heap xs n \<longleftrightarrow> (\<forall>k. 0 < k \<longrightarrow> k < n \<longrightarrow> in_order (xs ! ((k - 1) div 2)) (xs ! k))"

text \<open>Every element but the one at \<open>j\<close> is in order with its parent, and the parent of \<open>j\<close> with
  the children of \<open>j\<close>.\<close>

definition heap_but_up :: "'a list \<Rightarrow> nat \<Rightarrow> nat \<Rightarrow> bool" where
  "heap_but_up xs j n \<longleftrightarrow>
     (\<forall>k. 0 < k \<longrightarrow> k < n \<longrightarrow> k \<noteq> j \<longrightarrow> in_order (xs ! ((k - 1) div 2)) (xs ! k)) \<and>
     (\<forall>k. 0 < k \<longrightarrow> k < n \<longrightarrow> 0 < j \<longrightarrow> (k - 1) div 2 = j \<longrightarrow> in_order (xs ! ((j - 1) div 2)) (xs ! k))"

lemma heap_up_heap:
  "heap_but_up xs j n \<Longrightarrow> j < n \<Longrightarrow> n \<le> length xs \<Longrightarrow> is_heap (heap_up before xs j) n"
proof (induction j arbitrary: xs rule: less_induct)
  case (less j)
  define i where "i = (j - 1) div 2"
  show ?case
  proof (cases "i = j \<or> \<not> before (xs ! j) (xs ! i)")
    case True
    then have stop: "heap_up before xs j = xs" by (subst heap_up.simps) (simp add: Let_def i_def)
    have "i = j \<Longrightarrow> j = 0" by (simp add: i_def)
    then show ?thesis
      using True less.prems(1) unfolding stop
      by (auto simp: is_heap_def heap_but_up_def in_order_def i_def)
  next
    case False
    then have up: "heap_up before xs j = heap_up before (swap xs i j) i"
      by (subst heap_up.simps) (simp add: Let_def i_def)
    have ij: "i < j" "0 < j" using False by (auto simp: i_def)
    have lt: "before (xs ! j) (xs ! i)" using False by simp
    have nth: "swap xs i j ! k = (if k = j then xs ! i else if k = i then xs ! j else xs ! k)"
      if "k < n" for k
      using that ij less.prems(2,3) by (auto simp: swap_def nth_list_update)
    have "heap_but_up (swap xs i j) i n"
      unfolding heap_but_up_def
    proof (intro conjI allI impI)
      fix k
      assume k: "0 < k" "k < n" "k \<noteq> i"
      have p: "(k - 1) div 2 < n" using k by linarith
      show "in_order (swap xs i j ! ((k - 1) div 2)) (swap xs i j ! k)"
      proof (cases "k = j")
        case True
        then show ?thesis using nth [OF k(2)] nth [OF p] ij lt before_io by (simp add: i_def)
      next
        case kj: False
        have base: "in_order (xs ! ((k - 1) div 2)) (xs ! k)"
          using less.prems(1) k kj by (auto simp: heap_but_up_def)
        show ?thesis
        proof (cases "(k - 1) div 2 = j")
          case True
          then have "in_order (xs ! i) (xs ! k)"
            using less.prems(1) k ij by (auto simp: heap_but_up_def i_def)
          then show ?thesis using nth [OF k(2)] nth [OF p] True kj k(3) by simp
        next
          case False
          show ?thesis
          proof (cases "(k - 1) div 2 = i")
            case True
            then have "in_order (xs ! j) (xs ! k)" using base before_io [OF lt] io_trans by blast
            then show ?thesis using nth [OF k(2)] nth [OF p] True False kj k(3) by simp
          next
            case pi: False
            then show ?thesis using nth [OF k(2)] nth [OF p] base False kj k(3) by simp
          qed
        qed
      qed
    next
      fix k
      assume k: "0 < k" "k < n" "0 < i" "(k - 1) div 2 = i"
      define g where "g = (i - 1) div 2"
      have g: "g < i" "g < n" using k(3) ij less.prems(2) by (auto simp: g_def)
      have gi: "in_order (xs ! g) (xs ! i)"
        using less.prems(1) k(3) ij less.prems(2) by (auto simp: heap_but_up_def g_def)
      have "k \<noteq> i" using k by auto
      have "in_order (xs ! g) (swap xs i j ! k)"
      proof (cases "k = j")
        case True
        then show ?thesis using nth [OF k(2)] gi by simp
      next
        case False
        then have "in_order (xs ! i) (xs ! k)"
          using less.prems(1) k by (auto simp: heap_but_up_def)
        then show ?thesis using nth [OF k(2)] gi False \<open>k \<noteq> i\<close> io_trans by auto
      qed
      then show "in_order (swap xs i j ! ((i - 1) div 2)) (swap xs i j ! k)"
        using nth [OF g(2)] g(1) ij(1) by (simp add: g_def)
    qed
    then have "is_heap (heap_up before (swap xs i j) i) n"
      using less.prems(2,3) ij by (intro less.IH) simp_all
    then show ?thesis by (simp add: up)
  qed
qed

text \<open>Every pair is in order but those below \<open>i\<close>, whose children are in order with its parent.\<close>

definition heap_but_down :: "'a list \<Rightarrow> nat \<Rightarrow> nat \<Rightarrow> bool" where
  "heap_but_down xs i n \<longleftrightarrow>
     (\<forall>k. 0 < k \<longrightarrow> k < n \<longrightarrow> (k - 1) div 2 \<noteq> i \<longrightarrow> in_order (xs ! ((k - 1) div 2)) (xs ! k)) \<and>
     (\<forall>k. 0 < k \<longrightarrow> k < n \<longrightarrow> 0 < i \<longrightarrow> (k - 1) div 2 = i \<longrightarrow> in_order (xs ! ((i - 1) div 2)) (xs ! k))"

lemma child_cases: "0 < k \<Longrightarrow> (k - 1) div 2 = (i :: nat) \<longleftrightarrow> k = 2 * i + 1 \<or> k = 2 * i + 2"
  by auto

lemma heap_down_heap:
  "heap_but_down xs i n \<Longrightarrow> n \<le> length xs \<Longrightarrow> is_heap (heap_down before xs i n) n"
proof (induction "n - i" arbitrary: xs i rule: less_induct)
  case less
  define j1 j2 where "j1 = 2 * i + 1" and "j2 = j1 + 1"
  define j where "j = (if j2 < n \<and> before (xs ! j2) (xs ! j1) then j2 else j1)"
  have step: "heap_down before xs i n =
      (if j1 \<ge> n then xs else if \<not> before (xs ! j) (xs ! i) then xs else heap_down before (swap xs i j) j n)"
    by (subst heap_down.simps) (simp only: Let_def j_def j2_def j1_def)
  have child: "0 < k \<Longrightarrow> (k - 1) div 2 = i \<longleftrightarrow> k = j1 \<or> k = j2" for k
    using child_cases [of k i] by (simp add: j1_def j2_def)
  show ?case
  proof (cases "j1 \<ge> n")
    case True
    then have "heap_down before xs i n = xs" using step by simp
    moreover have "is_heap xs n"
      unfolding is_heap_def
    proof (intro allI impI)
      fix k assume k: "0 < k" "k < n"
      then have "(k - 1) div 2 \<noteq> i" using child [of k] True by (simp add: j2_def)
      then show "in_order (xs ! ((k - 1) div 2)) (xs ! k)"
        using less.prems(1) k by (auto simp: heap_but_down_def)
    qed
    ultimately show ?thesis by simp
  next
    case False
    have jn: "j < n" "i < j" using False by (auto simp: j_def j1_def j2_def)
    have jc: "(j - 1) div 2 = i" "0 < j" using child [of j] jn by (auto simp: j_def)
    have least: "in_order (xs ! j) (xs ! k)" if "0 < k" "k < n" "(k - 1) div 2 = i" for k
      using that child [of k] before_io [of "xs ! j2" "xs ! j1"] by (auto simp: j_def in_order_def)
    show ?thesis
    proof (cases "before (xs ! j) (xs ! i)")
      case stop: False
      then have "heap_down before xs i n = xs"
        using False step by simp
      moreover have ij: "in_order (xs ! i) (xs ! j)" using stop by (simp add: in_order_def)
      have "in_order (xs ! ((k - 1) div 2)) (xs ! k)" if k: "0 < k" "k < n" for k
      proof (cases "(k - 1) div 2 = i")
        case True
        then show ?thesis using io_trans [OF ij least [OF k True]] by simp
      next
        case False
        then show ?thesis using less.prems(1) k by (simp add: heap_but_down_def)
      qed
      then have "is_heap xs n" by (simp add: is_heap_def)
      ultimately show ?thesis by simp
    next
      case lt: True
      have down: "heap_down before xs i n = heap_down before (swap xs i j) j n"
        using False lt step by simp
      have nth: "swap xs i j ! k = (if k = j then xs ! i else if k = i then xs ! j else xs ! k)"
        if "k < n" for k
        using that jn less.prems(2) by (auto simp: swap_def nth_list_update)
      have "heap_but_down (swap xs i j) j n"
        unfolding heap_but_down_def
      proof (intro conjI allI impI)
        fix k
        assume k: "0 < k" "k < n" "(k - 1) div 2 \<noteq> j"
        define p where "p = (k - 1) div 2"
        have p: "p < n" "p < k" using k by (auto simp: p_def)
        have "in_order (swap xs i j ! p) (swap xs i j ! k)"
        proof (cases "p = i")
          case True
          have "in_order (xs ! j) (xs ! k)" using least k True by (simp add: p_def)
          then show ?thesis
            using nth [OF k(2)] nth [OF p(1)] True jn p lt before_io by auto
        next
          case pi: False
          have base: "in_order (xs ! p) (xs ! k)"
            using less.prems(1) k pi by (auto simp: heap_but_down_def p_def)
          show ?thesis
          proof (cases "k = i")
            case True
            then have "in_order (xs ! p) (xs ! j)"
              using less.prems(1) jc jn k(1) by (auto simp: heap_but_down_def p_def)
            then show ?thesis using nth [OF k(2)] nth [OF p(1)] True pi k(3) jn by (auto simp: p_def)
          next
            case ki: False
            have "k \<noteq> j" using jc pi by (auto simp: p_def)
            then show ?thesis using nth [OF k(2)] nth [OF p(1)] base pi ki k(3) by (simp add: p_def)
          qed
        qed
        then show "in_order (swap xs i j ! ((k - 1) div 2)) (swap xs i j ! k)" by (simp add: p_def)
      next
        fix k
        assume k: "0 < k" "k < n" "0 < j" "(k - 1) div 2 = j"
        have kj: "k \<noteq> j" "k \<noteq> i" using k jn by auto
        have "j \<noteq> i" using jn by simp
        then have "in_order (xs ! j) (xs ! k)" using less.prems(1) k by (auto simp: heap_but_down_def)
        moreover have "i < n" using jn by simp
        ultimately show "in_order (swap xs i j ! ((j - 1) div 2)) (swap xs i j ! k)"
          using nth [OF k(2)] nth [of i] jc kj jn by simp
      qed
      then have "is_heap (heap_down before (swap xs i j) j n) n"
        using less.prems(2) jn by (intro less.hyps) simp_all
      then show ?thesis by (simp add: down)
    qed
  qed
qed

lemma heap_root: "is_heap xs n \<Longrightarrow> k < n \<Longrightarrow> in_order (xs ! 0) (xs ! k)"
proof (induction k rule: less_induct)
  case (less k)
  show ?case
  proof (cases "k = 0")
    case False
    then have "in_order (xs ! ((k - 1) div 2)) (xs ! k)" using less.prems by (auto simp: is_heap_def)
    moreover have "in_order (xs ! 0) (xs ! ((k - 1) div 2))" using less False by simp
    ultimately show ?thesis using io_trans by blast
  qed simp
qed

definition heap_ok :: "'a list \<Rightarrow> bool" where
  "heap_ok xs \<longleftrightarrow> is_heap xs (length xs)"

lemma heap_ok_Nil [simp]: "heap_ok []"
  by (simp add: heap_ok_def is_heap_def)

lemma Push_correct:
  assumes "heap_ok xs"
  shows "heap_ok (heap_Push before x xs) \<and> mset (heap_Push before x xs) = add_mset x (mset xs)"
proof -
  have "heap_but_up (xs @ [x]) (length xs) (length xs + 1)"
    using assms by (auto simp: heap_but_up_def heap_ok_def is_heap_def nth_append)
  then have "is_heap (heap_Push before x xs) (length xs + 1)"
    by (simp add: heap_Push_def heap_up_heap)
  then show ?thesis
    using mset_heap_up [of "length xs" "xs @ [x]" before] by (simp add: heap_ok_def heap_Push_def)
qed

lemma Pop_correct:
  assumes "heap_ok xs" and "xs \<noteq> []" and "heap_Pop before xs = (x, ys)"
  shows "heap_ok ys \<and> mset xs = add_mset x (mset ys) \<and> (\<forall>y \<in> set xs. in_order x y)"
proof -
  define n where "n = length xs - 1"
  have n: "n < length xs" "length xs = Suc n" using assms(2) by (auto simp: n_def)
  define s where "s = swap xs 0 n"
  define d where "d = heap_down before s 0 n"
  have xy: "x = d ! n" "ys = take n d"
    using assms(3) by (simp_all add: heap_Pop_def Let_def d_def s_def n_def)
  have nth: "s ! k = (if k = n then xs ! 0 else if k = 0 then xs ! n else xs ! k)" if "k < length xs" for k
    using that n by (auto simp: s_def swap_def nth_list_update)
  have but: "heap_but_down s 0 n"
    using assms(1) nth n by (auto simp: heap_but_down_def heap_ok_def is_heap_def)
  then have heap: "is_heap d n" unfolding d_def using n by (intro heap_down_heap) (simp_all add: s_def)
  have keep: "mset d = mset xs" "length d = length xs"
    using mset_heap_down [of 0 s n before] n by (simp_all add: d_def s_def)
  have "d ! n = s ! n"
  proof (cases "n = 0")
    case True
    then show ?thesis by (simp add: d_def heap_down.simps [of before s 0 0])
  next
    case False
    then show ?thesis using heap_down_beyond [of n n 0] by (simp add: d_def)
  qed
  then have x: "x = xs ! 0" using xy nth n by simp
  have "d = ys @ [x]" using xy keep n by (metis hd_drop_conv_nth id_take_nth_drop append_Nil2 drop_all
        Suc_leI le_refl take_Suc_conv_app_nth take_all)
  then have "mset xs = add_mset x (mset ys)" using keep(1) by (metis mset_append add_mset_add_single mset_single_iff mset.simps)
  moreover have "heap_ok ys"
    using heap keep n by (auto simp: heap_ok_def is_heap_def xy)
  moreover have "\<forall>y \<in> set xs. in_order x y"
    using assms(1) heap_root x by (auto simp: heap_ok_def in_set_conv_nth)
  ultimately show ?thesis by blast
qed

text \<open>Popping everything gives the elements in order.\<close>

fun drain :: "nat \<Rightarrow> 'a list \<Rightarrow> 'a list" where
  "drain 0 xs = []"
| "drain (Suc n) xs = (if xs = [] then [] else (case heap_Pop before xs of (x, ys) \<Rightarrow> x # drain n ys))"

lemma drain_sorted:
  "heap_ok xs \<Longrightarrow> length xs \<le> n \<Longrightarrow> sorted_wrt in_order (drain n xs) \<and> mset (drain n xs) = mset xs"
proof (induction n arbitrary: xs)
  case 0
  then show ?case by simp
next
  case (Suc n)
  show ?case
  proof (cases "xs = []")
    case False
    obtain x ys where pop: "heap_Pop before xs = (x, ys)" by fastforce
    note p = Pop_correct [OF Suc.prems(1) False pop]
    then have len: "length xs = Suc (length ys)" by (metis size_add_mset size_mset)
    then have ih: "sorted_wrt in_order (drain n ys)" "mset (drain n ys) = mset ys"
      using Suc.IH [of ys] p Suc.prems(2) by auto
    moreover have "set (drain n ys) \<subseteq> set xs"
      using ih(2) p by (metis mset_eq_setD set_mset_mset subsetI union_single_eq_member add_mset_add_single
          set_mset_add_mset_insert insertI2)
    ultimately show ?thesis using False pop p by auto
  qed simp
qed

end

end
