(* ===== verification/PriorityPool.thy ===== *)
theory PriorityPool
  imports BinaryHeap
begin

text \<open>
  The priority worker pool of chapter 2,
  \<^verbatim>\<open>02_practical_application_of_the_worker_pool_pattern/ans_02/priority_worker_pool.go\<close>: the
  task queue on top of the binary heap, submission, the loop of a worker with its urgent tasks,
  the execution of a task and the statistics.  Each event is one step of one goroutine.
\<close>

section \<open>Tasks and the queue\<close>

record PriorityTask =
  pt_ID :: int
  pt_Priority :: int
  pt_CreatedAt :: time
  pt_Urgent :: bool

definition task_Less :: "PriorityTask \<Rightarrow> PriorityTask \<Rightarrow> bool" where
  "task_Less a b =
     (if pt_Priority a \<noteq> pt_Priority b then pt_Priority a < pt_Priority b
      else pt_CreatedAt a < pt_CreatedAt b)"

interpretation tasks: heap_interface task_Less
  by unfold_locales (auto simp: task_Less_def split: if_splits)

record PriorityTaskQueue =
  tq_tasks :: "PriorityTask list"
  tq_closed :: bool

definition NewPriorityTaskQueue :: PriorityTaskQueue where
  "NewPriorityTaskQueue = \<lparr>tq_tasks = [], tq_closed = False\<rparr>"

definition Enqueue :: "PriorityTask \<Rightarrow> PriorityTaskQueue \<Rightarrow> PriorityTaskQueue" where
  "Enqueue task q =
     (if tq_closed q then q else q\<lparr>tq_tasks := heap_Push task_Less task (tq_tasks q)\<rparr>)"

text \<open>
  What a call of \<open>Dequeue\<close> finds: it keeps waiting while the queue is empty, open and the
  context is alive.
\<close>

datatype dequeued = Waits | Dequeued PriorityTask | NoTask

definition Dequeue :: "bool \<Rightarrow> PriorityTaskQueue \<Rightarrow> PriorityTaskQueue \<times> dequeued" where
  "Dequeue cancelled q =
     (if tq_tasks q = [] \<and> \<not> tq_closed q \<and> \<not> cancelled then (q, Waits)
      else if tq_tasks q \<noteq> [] then
        (case heap_Pop task_Less (tq_tasks q) of (task, rest) \<Rightarrow> (q\<lparr>tq_tasks := rest\<rparr>, Dequeued task))
      else (q, NoTask))"

definition CloseQueue :: "PriorityTaskQueue \<Rightarrow> PriorityTaskQueue" where
  "CloseQueue q = q\<lparr>tq_closed := True\<rparr>"

definition Size_queue :: "PriorityTaskQueue \<Rightarrow> nat" where
  "Size_queue q = length (tq_tasks q)"

section \<open>The pool\<close>

datatype worker_phase = AtSelect | InDequeue | Running PriorityTask bool time | Stopped

record PriorityWorker =
  pw_phase :: worker_phase
  pw_currentTask :: "PriorityTask option"
  pw_interrupt :: bool

record PriorityResult =
  pr_TaskID :: int
  pr_Priority :: int
  pr_Success :: bool
  pr_Failed :: bool
  pr_Duration :: duration
  pr_WorkerID :: nat
  pr_Interrupted :: bool

record PriorityStats =
  ps_totalTasks :: int
  ps_completedTasks :: int
  ps_interruptedTasks :: int
  ps_tasksByPriority :: "int \<rightharpoonup> int"
  ps_averageWaitTime :: "int \<rightharpoonup> int"

text \<open>\<open>pp_requeue\<close> holds the interrupted tasks waiting to be queued again.\<close>

record priority_pool =
  pp_taskQueue :: PriorityTaskQueue
  pp_urgentQueue :: "PriorityTask list"
  pp_results :: "PriorityResult list"
  pp_workers :: "PriorityWorker list"
  pp_requeue :: "PriorityTask list"
  pp_cancelled :: bool
  pp_stats :: PriorityStats

definition NewPriorityWorkerPool :: "nat \<Rightarrow> priority_pool" where
  "NewPriorityWorkerPool workerCount =
     \<lparr>pp_taskQueue = NewPriorityTaskQueue, pp_urgentQueue = [], pp_results = [],
      pp_workers = replicate workerCount \<lparr>pw_phase = AtSelect, pw_currentTask = None, pw_interrupt = False\<rparr>,
      pp_requeue = [], pp_cancelled = False,
      pp_stats = \<lparr>ps_totalTasks = 0, ps_completedTasks = 0, ps_interruptedTasks = 0,
        ps_tasksByPriority = Map.empty, ps_averageWaitTime = Map.empty\<rparr>\<rparr>"

datatype submit_error = PoolShutDown | UrgentQueueFull

definition SubmitTask :: "time \<Rightarrow> PriorityTask \<Rightarrow> priority_pool \<Rightarrow> priority_pool \<times> submit_error option" where
  "SubmitTask now task0 p =
     (if pp_cancelled p then (p, Some PoolShutDown)
      else (let task = task0\<lparr>pt_CreatedAt := now\<rparr>;
                counted = (pp_stats p)\<lparr>ps_totalTasks := ps_totalTasks (pp_stats p) + 1\<rparr>
            in if pt_Urgent task then
                 (if length (pp_urgentQueue p) < 10
                  then (p\<lparr>pp_urgentQueue := pp_urgentQueue p @ [task], pp_stats := counted\<rparr>, None)
                  else (p, Some UrgentQueueFull))
               else (p\<lparr>pp_taskQueue := Enqueue task (pp_taskQueue p), pp_stats := counted\<rparr>, None)))"

text \<open>Go's integer division truncates towards zero.\<close>

definition updateStats :: "PriorityResult \<Rightarrow> duration \<Rightarrow> PriorityStats \<Rightarrow> PriorityStats" where
  "updateStats result waitTime s0 =
    (let s1 = (if pr_Success result then s0\<lparr>ps_completedTasks := ps_completedTasks s0 + 1\<rparr> else s0);
         s2 = (if pr_Interrupted result then s1\<lparr>ps_interruptedTasks := ps_interruptedTasks s1 + 1\<rparr> else s1);
         s3 = s2\<lparr>ps_tasksByPriority := map_incr (ps_tasksByPriority s2) (pr_Priority result)\<rparr>
     in case ps_averageWaitTime s3 (pr_Priority result) of
          Some existing \<Rightarrow>
            (let count = (case ps_tasksByPriority s3 (pr_Priority result) of Some c \<Rightarrow> c | None \<Rightarrow> 0);
                 n = existing * count + waitTime
             in s3\<lparr>ps_averageWaitTime := (ps_averageWaitTime s3)
                     (pr_Priority result \<mapsto> sgn n * (\<bar>n\<bar> div (count + 1)))\<rparr>)
        | None \<Rightarrow> s3\<lparr>ps_averageWaitTime := (ps_averageWaitTime s3)(pr_Priority result \<mapsto> waitTime)\<rparr>)"

section \<open>The steps of a worker\<close>

text \<open>Which case of a \<^verbatim>\<open>select\<close> runs is an argument when several are ready.\<close>

datatype select_case = CaseDone | CaseUrgent | CaseDefault

text \<open>The start of \<open>executeTask\<close>, called at a given instant.\<close>

definition begin_task :: "time \<Rightarrow> PriorityTask \<Rightarrow> bool \<Rightarrow> PriorityWorker \<Rightarrow> PriorityWorker" where
  "begin_task now task isUrgent w =
     w\<lparr>pw_phase := Running task isUrgent now,
       pw_currentTask := (if isUrgent then pw_currentTask w else Some task)\<rparr>"

text \<open>\<open>handleUrgentTask\<close> signals an interrupt (into a channel of capacity one) if the worker has
  a current task, then executes the urgent one.\<close>

definition handleUrgentTask :: "time \<Rightarrow> PriorityTask \<Rightarrow> PriorityWorker \<Rightarrow> PriorityWorker" where
  "handleUrgentTask now urgentTask w =
     begin_task now urgentTask True
       (if pw_currentTask w \<noteq> None then w\<lparr>pw_interrupt := True\<rparr> else w)"

definition set_worker :: "nat \<Rightarrow> PriorityWorker \<Rightarrow> priority_pool \<Rightarrow> priority_pool" where
  "set_worker i w p = p\<lparr>pp_workers := (pp_workers p)[i := w]\<rparr>"

definition worker_select :: "time \<Rightarrow> nat \<Rightarrow> select_case \<Rightarrow> priority_pool \<Rightarrow> priority_pool" where
  "worker_select now i choice p =
    (let w = pp_workers p ! i
     in if pw_phase w \<noteq> AtSelect then p
        else (case choice of
            CaseDone \<Rightarrow> if pp_cancelled p then set_worker i (w\<lparr>pw_phase := Stopped\<rparr>) p else p
          | CaseUrgent \<Rightarrow>
              (case pp_urgentQueue p of
                 [] \<Rightarrow> p
               | urgentTask # rest \<Rightarrow>
                   set_worker i (handleUrgentTask now urgentTask w) (p\<lparr>pp_urgentQueue := rest\<rparr>))
          | CaseDefault \<Rightarrow>
              (if pp_cancelled p \<or> pp_urgentQueue p \<noteq> [] then p
               else set_worker i (w\<lparr>pw_phase := InDequeue\<rparr>) p)))"

definition worker_dequeue :: "time \<Rightarrow> nat \<Rightarrow> priority_pool \<Rightarrow> priority_pool" where
  "worker_dequeue now i p =
    (let w = pp_workers p ! i
     in if pw_phase w \<noteq> InDequeue then p
        else (case Dequeue (pp_cancelled p) (pp_taskQueue p) of
            (q, Waits) \<Rightarrow> p
          | (q, NoTask) \<Rightarrow> set_worker i (w\<lparr>pw_phase := Stopped\<rparr>) p
          | (q, Dequeued task) \<Rightarrow> set_worker i (begin_task now task False w) (p\<lparr>pp_taskQueue := q\<rparr>)))"

text \<open>
  What the \<^verbatim>\<open>select\<close> of \<open>executeTask\<close> receives.  The task runs in a goroutine of its own, so a
  panic there is not recovered by the deferred function of \<open>executeTask\<close>: it ends the process.
\<close>

datatype task_end = TaskReturns bool | TaskPanics | InterruptSignal | PoolDone

datatype pool_outcome = Pool priority_pool | ProcessCrashed

definition executeTask_ends :: "time \<Rightarrow> nat \<Rightarrow> task_end \<Rightarrow> bool \<Rightarrow> priority_pool \<Rightarrow> pool_outcome" where
  "executeTask_ends now i e exits p =
    (let w = pp_workers p ! i
     in case pw_phase w of
          Running task isUrgent start \<Rightarrow>
            (if e = TaskPanics then ProcessCrashed
             else if (e = InterruptSignal \<and> \<not> pw_interrupt w) \<or> (e = PoolDone \<and> \<not> pp_cancelled p) then Pool p
             else (let result = \<lparr>pr_TaskID = pt_ID task, pr_Priority = pt_Priority task,
                         pr_Success = (e = TaskReturns True), pr_Failed = (e \<noteq> TaskReturns True),
                         pr_Duration = time_Sub now start, pr_WorkerID = i,
                         pr_Interrupted = (e = InterruptSignal)\<rparr>;
                       w1 = w\<lparr>pw_interrupt := (if e = InterruptSignal then False else pw_interrupt w),
                              pw_currentTask := (if isUrgent then pw_currentTask w else None),
                              pw_phase := (if exits \<and> pp_cancelled p \<and> \<not> isUrgent then Stopped else AtSelect)\<rparr>;
                       p1 = p\<lparr>pp_stats := updateStats result (time_Sub start (pt_CreatedAt task)) (pp_stats p),
                              pp_results := pp_results p @ [result],
                              pp_requeue := (if e = InterruptSignal \<and> \<not> isUrgent
                                             then pp_requeue p @ [task] else pp_requeue p)\<rparr>
                   in Pool (set_worker i w1 p1)))
        | _ \<Rightarrow> Pool p)"

text \<open>The goroutine that queues an interrupted task again after a second.\<close>

definition requeue_fires :: "nat \<Rightarrow> priority_pool \<Rightarrow> priority_pool" where
  "requeue_fires k p =
     (if k < length (pp_requeue p) \<and> \<not> pp_cancelled p
      then p\<lparr>pp_taskQueue := Enqueue (pp_requeue p ! k) (pp_taskQueue p),
             pp_requeue := take k (pp_requeue p) @ drop (Suc k) (pp_requeue p)\<rparr>
      else p)"

text \<open>\<open>Shutdown\<close> closes the queue and then cancels the context.\<close>

definition Shutdown_close :: "priority_pool \<Rightarrow> priority_pool" where
  "Shutdown_close p = p\<lparr>pp_taskQueue := CloseQueue (pp_taskQueue p)\<rparr>"

definition Shutdown_cancel :: "priority_pool \<Rightarrow> priority_pool" where
  "Shutdown_cancel p = p\<lparr>pp_cancelled := True\<rparr>"

datatype pool_event =
  Submits time PriorityTask | Selects time nat select_case | Dequeues time nat
| Ends time nat task_end bool | Requeues nat | Closes | Cancels

fun pool_step :: "priority_pool \<Rightarrow> pool_event \<Rightarrow> pool_outcome" where
  "pool_step p (Submits now task) = Pool (fst (SubmitTask now task p))"
| "pool_step p (Selects now i c) = Pool (if i < length (pp_workers p) then worker_select now i c p else p)"
| "pool_step p (Dequeues now i) = Pool (if i < length (pp_workers p) then worker_dequeue now i p else p)"
| "pool_step p (Ends now i e exits) =
     (if i < length (pp_workers p) then executeTask_ends now i e exits p else Pool p)"
| "pool_step p (Requeues k) = Pool (requeue_fires k p)"
| "pool_step p Closes = Pool (Shutdown_close p)"
| "pool_step p Cancels = Pool (Shutdown_cancel p)"

inductive pool_reachable :: "nat \<Rightarrow> priority_pool \<Rightarrow> bool" for n where
  pool_start: "pool_reachable n (NewPriorityWorkerPool n)"
| pool_steps: "pool_reachable n p \<Longrightarrow> pool_step p e = Pool p' \<Longrightarrow> pool_reachable n p'"

section \<open>The queue is a priority queue\<close>

definition queue_ok :: "PriorityTaskQueue \<Rightarrow> bool" where
  "queue_ok q \<longleftrightarrow> tasks.heap_ok (tq_tasks q)"

lemma Enqueue_ok:
  "queue_ok q \<Longrightarrow> queue_ok (Enqueue t q) \<and>
   (\<not> tq_closed q \<longrightarrow> mset (tq_tasks (Enqueue t q)) = add_mset t (mset (tq_tasks q)))"
  using tasks.Push_correct [of "tq_tasks q" t] by (simp add: queue_ok_def Enqueue_def)

lemma Dequeue_ok:
  assumes "queue_ok q" and "Dequeue c q = (q', r)"
  shows "queue_ok q' \<and> (case r of
      Dequeued t \<Rightarrow> mset (tq_tasks q) = add_mset t (mset (tq_tasks q')) \<and> (\<forall>u \<in> set (tq_tasks q). \<not> task_Less u t)
    | _ \<Rightarrow> q' = q \<and> tq_tasks q = [])"
proof (cases "tq_tasks q = []")
  case True
  then show ?thesis using assms by (auto simp: Dequeue_def split: if_splits)
next
  case False
  obtain t rest where pop: "heap_Pop task_Less (tq_tasks q) = (t, rest)" by fastforce
  then have "q' = q\<lparr>tq_tasks := rest\<rparr>" "r = Dequeued t"
    using assms(2) False by (auto simp: Dequeue_def)
  then show ?thesis
    using tasks.Pop_correct [OF assms(1) [unfolded queue_ok_def] False pop]
    by (simp add: queue_ok_def tasks.in_order_def)
qed

fun serve :: "nat \<Rightarrow> PriorityTaskQueue \<Rightarrow> PriorityTask list" where
  "serve 0 q = []"
| "serve (Suc n) q = (case Dequeue False q of (q', Dequeued t) \<Rightarrow> t # serve n q' | (q', _) \<Rightarrow> [])"

lemma serve_drain: "\<not> tq_closed q \<Longrightarrow> serve n q = tasks.drain n (tq_tasks q)"
proof (induction n arbitrary: q)
  case (Suc n)
  then show ?case
    by (auto simp: Dequeue_def split: prod.splits)
qed simp

lemma Enqueue_all:
  "queue_ok q \<Longrightarrow> \<not> tq_closed q \<Longrightarrow> queue_ok (fold Enqueue ts q) \<and> \<not> tq_closed (fold Enqueue ts q) \<and>
   mset (tq_tasks (fold Enqueue ts q)) = mset ts + mset (tq_tasks q)"
proof (induction ts arbitrary: q)
  case (Cons t ts)
  then have "\<not> tq_closed (Enqueue t q)" by (simp add: Enqueue_def)
  with Cons.IH [of "Enqueue t q"] Enqueue_ok [OF Cons.prems(1), of t] Cons.prems show ?case by simp
qed simp

text \<open>
  The queue is a priority queue: whatever tasks are enqueued in whatever order, dequeuing
  returns all of them, and none before one with a smaller priority number, or with the same
  priority and an earlier creation.
\<close>

theorem queue_serves_in_order:
  "mset (serve (length ts) (fold Enqueue ts NewPriorityTaskQueue)) = mset ts \<and>
   sorted_wrt (\<lambda>a b. \<not> task_Less b a) (serve (length ts) (fold Enqueue ts NewPriorityTaskQueue))"
proof -
  define q where "q = fold Enqueue ts NewPriorityTaskQueue"
  have q: "queue_ok q" "\<not> tq_closed q" "mset (tq_tasks q) = mset ts"
    using Enqueue_all [of NewPriorityTaskQueue ts]
    by (simp_all add: q_def NewPriorityTaskQueue_def queue_ok_def)
  then have "length (tq_tasks q) \<le> length ts" by (metis order_refl size_mset)
  with tasks.drain_sorted [of "tq_tasks q" "length ts"] q
  have "mset (serve (length ts) q) = mset ts" "sorted_wrt tasks.in_order (serve (length ts) q)"
    by (simp_all add: serve_drain queue_ok_def)
  moreover have "tasks.in_order = (\<lambda>a b. \<not> task_Less b a)"
    by (intro ext) (simp add: tasks.in_order_def)
  ultimately show ?thesis by (simp add: q_def)
qed

section \<open>Interrupts\<close>

definition worker_ok :: "PriorityWorker \<Rightarrow> bool" where
  "worker_ok w \<longleftrightarrow> \<not> pw_interrupt w \<and>
     (pw_currentTask w \<noteq> None \<longrightarrow> (case pw_phase w of Running t isUrgent s \<Rightarrow> \<not> isUrgent | _ \<Rightarrow> False))"

definition busy :: "PriorityWorker \<Rightarrow> int" where
  "busy w = (case pw_phase w of Running _ _ _ \<Rightarrow> 1 | _ \<Rightarrow> 0)"

definition all_busy :: "priority_pool \<Rightarrow> int" where
  "all_busy p = sum_list (map busy (pp_workers p))"

definition pool_ok :: "priority_pool \<Rightarrow> bool" where
  "pool_ok p \<longleftrightarrow> (\<forall>w \<in> set (pp_workers p). worker_ok w) \<and> (\<forall>r \<in> set (pp_results p). \<not> pr_Interrupted r) \<and>
     pp_requeue p = [] \<and> ps_interruptedTasks (pp_stats p) = 0 \<and> queue_ok (pp_taskQueue p) \<and>
     (let known = int (length (tq_tasks (pp_taskQueue p)) + length (pp_urgentQueue p) + length (pp_results p)) +
        all_busy p
      in known \<le> ps_totalTasks (pp_stats p) \<and>
         (\<not> tq_closed (pp_taskQueue p) \<longrightarrow> known = ps_totalTasks (pp_stats p)))"

lemma set_worker_fields [simp]:
  "pp_taskQueue (set_worker i w p) = pp_taskQueue p" "pp_urgentQueue (set_worker i w p) = pp_urgentQueue p"
  "pp_results (set_worker i w p) = pp_results p" "pp_requeue (set_worker i w p) = pp_requeue p"
  "pp_cancelled (set_worker i w p) = pp_cancelled p" "pp_stats (set_worker i w p) = pp_stats p"
  "pp_workers (set_worker i w p) = (pp_workers p)[i := w]"
  by (simp_all add: set_worker_def)

lemma all_busy_set:
  "i < length (pp_workers p) \<Longrightarrow> all_busy (set_worker i w p) = all_busy p + busy w - busy (pp_workers p ! i)"
  by (simp add: all_busy_def sum_list_update_int)

lemma all_busy_fields [simp]:
  "all_busy (p\<lparr>pp_taskQueue := q\<rparr>) = all_busy p" "all_busy (p\<lparr>pp_urgentQueue := u\<rparr>) = all_busy p"
  "all_busy (p\<lparr>pp_stats := st\<rparr>) = all_busy p" "all_busy (p\<lparr>pp_results := r\<rparr>) = all_busy p"
  "all_busy (p\<lparr>pp_requeue := rq\<rparr>) = all_busy p" "all_busy (p\<lparr>pp_cancelled := c\<rparr>) = all_busy p"
  by (simp_all add: all_busy_def)

lemma updateStats_fields [simp]:
  "ps_totalTasks (updateStats r w s) = ps_totalTasks s"
  "ps_interruptedTasks (updateStats r w s) = ps_interruptedTasks s + (if pr_Interrupted r then 1 else 0)"
  by (simp_all add: updateStats_def Let_def split: option.splits)

lemma pool_ok_step:
  assumes ok: "pool_ok p" and step: "pool_step p e = Pool p'"
  shows "pool_ok p'"
proof (cases e)
  case (Submits now task)
  define t where "t = task\<lparr>pt_CreatedAt := now\<rparr>"
  have len: "\<not> tq_closed (pp_taskQueue p) \<Longrightarrow>
      length (tq_tasks (Enqueue t (pp_taskQueue p))) = Suc (length (tq_tasks (pp_taskQueue p)))"
    using Enqueue_ok [of "pp_taskQueue p" t] ok by (metis pool_ok_def size_add_mset size_mset)
  have closed: "tq_closed (pp_taskQueue p) \<Longrightarrow> Enqueue t (pp_taskQueue p) = pp_taskQueue p"
    "tq_closed (Enqueue t (pp_taskQueue p)) = tq_closed (pp_taskQueue p)"
    by (simp_all add: Enqueue_def)
  show ?thesis
    using ok step Submits Enqueue_ok [of "pp_taskQueue p" t] len closed
    by (cases "tq_closed (pp_taskQueue p)")
      (auto simp: pool_ok_def SubmitTask_def Let_def t_def [symmetric] split: if_splits)
next
  case (Selects now i c)
  show ?thesis
  proof (cases "i < length (pp_workers p)")
    case i: True
    define w where "w = pp_workers p ! i"
    have w: "worker_ok w" using ok i by (simp add: pool_ok_def w_def)
    have upd: "(\<forall>v \<in> set ((pp_workers p)[i := w']). worker_ok v)" if "worker_ok w'" for w'
      using ok that by (auto simp: pool_ok_def dest!: set_update_subset_insert [THEN subsetD])
    have set: "all_busy (set_worker i w' p1) = all_busy p + busy w' - busy w"
      if "pp_workers p1 = pp_workers p" for p1 w'
      using that i all_busy_set [of i p1 w'] by (simp add: w_def) (simp add: all_busy_def)
    show ?thesis
    proof (cases "pw_phase w = AtSelect")
      case False
      then show ?thesis using ok step Selects i by (simp add: worker_select_def w_def [symmetric])
    next
      case at: True
      have idle: "pw_currentTask w = None" "\<not> pw_interrupt w" "busy w = 0"
        using w at by (auto simp: worker_ok_def busy_def)
      show ?thesis
      proof (cases "p' = p")
        case True
        with ok show ?thesis by simp
      next
        case moved: False
        show ?thesis
        proof (cases c)
          case CaseUrgent
          then obtain u us where u: "pp_urgentQueue p = u # us"
            using moved step Selects i at by (cases "pp_urgentQueue p") (auto simp: worker_select_def w_def [symmetric])
          define w' where "w' = begin_task now u True w"
          have "p' = set_worker i w' (p\<lparr>pp_urgentQueue := us\<rparr>)"
            using CaseUrgent u step Selects i at idle
            by (simp add: worker_select_def w_def [symmetric] handleUrgentTask_def w'_def Let_def)
          moreover have "worker_ok w'" "busy w' = 1"
            using idle by (simp_all add: w'_def begin_task_def worker_ok_def busy_def)
          ultimately show ?thesis
            using ok upd [of w'] set [of "p\<lparr>pp_urgentQueue := us\<rparr>" w'] idle(3) u
            by (auto simp: pool_ok_def Let_def)
        next
          case CaseDone
          then have "p' = set_worker i (w\<lparr>pw_phase := Stopped\<rparr>) p"
            using moved step Selects i at by (auto simp: worker_select_def w_def [symmetric] Let_def split: if_splits)
          moreover have "worker_ok (w\<lparr>pw_phase := Stopped\<rparr>)" using idle by (simp add: worker_ok_def)
          ultimately show ?thesis
            using ok upd set [of p] idle(3) by (simp add: pool_ok_def Let_def busy_def)
        next
          case CaseDefault
          then have "p' = set_worker i (w\<lparr>pw_phase := InDequeue\<rparr>) p"
            using moved step Selects i at by (auto simp: worker_select_def w_def [symmetric] Let_def split: if_splits)
          moreover have "worker_ok (w\<lparr>pw_phase := InDequeue\<rparr>)" using idle by (simp add: worker_ok_def)
          ultimately show ?thesis
            using ok upd set [of p] idle(3) by (simp add: pool_ok_def Let_def busy_def)
        qed
      qed
    qed
  next
    case False
    then show ?thesis using ok step Selects by auto
  qed
next
  case (Dequeues now i)
  show ?thesis
  proof (cases "i < length (pp_workers p)")
    case i: True
    define w where "w = pp_workers p ! i"
    have w: "worker_ok w" using ok i by (simp add: pool_ok_def w_def)
    have upd: "(\<forall>v \<in> set ((pp_workers p)[i := w']). worker_ok v)" if "worker_ok w'" for w'
      using ok that by (auto simp: pool_ok_def dest!: set_update_subset_insert [THEN subsetD])
    obtain q r where deq: "Dequeue (pp_cancelled p) (pp_taskQueue p) = (q, r)" by fastforce
    have q: "queue_ok q" "tq_closed q = tq_closed (pp_taskQueue p)"
      "case r of Dequeued t \<Rightarrow> length (tq_tasks (pp_taskQueue p)) = Suc (length (tq_tasks q)) | _ \<Rightarrow> q = pp_taskQueue p"
    proof -
      have "queue_ok (pp_taskQueue p)" using ok by (simp add: pool_ok_def)
      from Dequeue_ok [OF this deq] show "queue_ok q"
        "case r of Dequeued t \<Rightarrow> length (tq_tasks (pp_taskQueue p)) = Suc (length (tq_tasks q)) | _ \<Rightarrow> q = pp_taskQueue p"
        by (auto split: dequeued.splits) (metis size_add_mset size_mset)
      show "tq_closed q = tq_closed (pp_taskQueue p)" using deq by (auto simp: Dequeue_def split: if_splits prod.splits)
    qed
    show ?thesis
    proof (cases "pw_phase w = InDequeue")
      case False
      then show ?thesis using ok step Dequeues i by (simp add: worker_dequeue_def w_def [symmetric])
    next
      case True
      note eqs = all_busy_set [OF i]
      show ?thesis
      proof (cases r)
        case Waits
        then show ?thesis using ok step Dequeues i deq True by (simp add: worker_dequeue_def w_def [symmetric] Let_def)
      next
        case NoTask
        then have "p' = set_worker i (w\<lparr>pw_phase := Stopped\<rparr>) p"
          using step Dequeues i deq True by (simp add: worker_dequeue_def w_def [symmetric] Let_def)
        moreover have "worker_ok (w\<lparr>pw_phase := Stopped\<rparr>)" using w True by (auto simp: worker_ok_def)
        ultimately show ?thesis
          using ok eqs upd True by (simp add: pool_ok_def busy_def w_def [symmetric])
      next
        case (Dequeued t)
        define w' where "w' = begin_task now t False w"
        have p': "p' = set_worker i w' (p\<lparr>pp_taskQueue := q\<rparr>)"
          using step Dequeues i deq True Dequeued
          by (simp add: worker_dequeue_def w_def [symmetric] w'_def Let_def)
        have "worker_ok w'" "busy w' = 1" "busy w = 0"
          using w True by (simp_all add: w'_def begin_task_def worker_ok_def busy_def)
        then show ?thesis
          using ok upd [of w'] q Dequeued i all_busy_set [of i "p\<lparr>pp_taskQueue := q\<rparr>" w']
          by (auto simp: pool_ok_def p' Let_def w_def [symmetric])
      qed
    qed
  next
    case False
    then show ?thesis using ok step Dequeues by auto
  qed
next
  case (Ends now i te exits)
  show ?thesis
  proof (cases "i < length (pp_workers p)")
    case i: True
    define w where "w = pp_workers p ! i"
    have w: "worker_ok w" using ok i by (simp add: pool_ok_def w_def)
    have upd: "(\<forall>v \<in> set ((pp_workers p)[i := w']). worker_ok v)" if "worker_ok w'" for w'
      using ok that by (auto simp: pool_ok_def dest!: set_update_subset_insert [THEN subsetD])
    have set: "all_busy (set_worker i w' p1) = all_busy p + busy w' - busy w"
      if "pp_workers p1 = pp_workers p" for p1 w'
      using that i all_busy_set [of i p1 w'] by (simp add: w_def) (simp add: all_busy_def)
    show ?thesis
    proof (cases "p' = p")
      case True
      with ok show ?thesis by simp
    next
      case moved: False
      obtain task isUrgent start where run: "pw_phase w = Running task isUrgent start"
        using moved step Ends i by (cases "pw_phase w") (auto simp: executeTask_ends_def w_def [symmetric])
      have te: "te \<noteq> TaskPanics" "te \<noteq> InterruptSignal"
        using moved step Ends i run w
        by (auto simp: executeTask_ends_def w_def [symmetric] worker_ok_def split: if_splits)
      define w' where "w' = w\<lparr>pw_interrupt := pw_interrupt w,
        pw_currentTask := (if isUrgent then pw_currentTask w else None),
        pw_phase := (if exits \<and> pp_cancelled p \<and> \<not> isUrgent then Stopped else AtSelect)\<rparr>"
      obtain r wt where p': "p' = set_worker i w'
          (p\<lparr>pp_stats := updateStats r wt (pp_stats p), pp_results := pp_results p @ [r],
             pp_requeue := pp_requeue p\<rparr>)" and r: "\<not> pr_Interrupted r"
        using moved step Ends i run te
        by (auto simp: executeTask_ends_def w_def [symmetric] w'_def Let_def split: if_splits)
      have "worker_ok w'" "busy w' = 0" "busy w = 1"
        using w run by (auto simp: w'_def worker_ok_def busy_def)
      then show ?thesis
        using ok upd [of w'] r set [of "p\<lparr>pp_stats := updateStats r wt (pp_stats p),
            pp_results := pp_results p @ [r], pp_requeue := pp_requeue p\<rparr>" w']
        by (auto simp: pool_ok_def p' Let_def)
    qed
  next
    case False
    then show ?thesis using ok step Ends by auto
  qed
next
  case (Requeues k)
  then show ?thesis using ok step by (auto simp: requeue_fires_def pool_ok_def)
next
  case Closes
  then show ?thesis using ok step
    by (auto simp: Shutdown_close_def CloseQueue_def pool_ok_def queue_ok_def Let_def)
next
  case Cancels
  then show ?thesis using ok step by (auto simp: Shutdown_cancel_def pool_ok_def Let_def)
qed

lemma pool_ok_start: "pool_ok (NewPriorityWorkerPool n)"
  by (simp add: pool_ok_def NewPriorityWorkerPool_def NewPriorityTaskQueue_def queue_ok_def all_busy_def
      busy_def worker_ok_def sum_list_replicate Let_def)

lemma pool_ok_reachable: "pool_reachable n p \<Longrightarrow> pool_ok p"
  by (induction rule: pool_reachable.induct) (simp_all add: pool_ok_start pool_ok_step)

text \<open>
  In every reachable pool whose queue has not been closed, the accepted tasks are exactly
  the queued, the urgent, the running and the finished ones; after the queue is closed they are
  at least as many (a task submitted between the close and the cancellation is accepted but
  dropped).
\<close>

theorem priority_pool_accounting:
  assumes "pool_reachable n p"
  shows "int (length (tq_tasks (pp_taskQueue p)) + length (pp_urgentQueue p) + length (pp_results p)) + all_busy p
      \<le> ps_totalTasks (pp_stats p) \<and>
    (tq_closed (pp_taskQueue p) \<or>
     int (length (tq_tasks (pp_taskQueue p)) + length (pp_urgentQueue p) + length (pp_results p)) + all_busy p
      = ps_totalTasks (pp_stats p))"
  using pool_ok_reachable [OF assms] by (auto simp: pool_ok_def Let_def)

fun pool_run :: "priority_pool \<Rightarrow> pool_event list \<Rightarrow> pool_outcome" where
  "pool_run p [] = Pool p"
| "pool_run p (e # es) = (case pool_step p e of Pool p' \<Rightarrow> pool_run p' es | ProcessCrashed \<Rightarrow> ProcessCrashed)"

lemma pool_run_reachable: "pool_reachable n p \<Longrightarrow> pool_run p es = Pool p' \<Longrightarrow> pool_reachable n p'"
  by (induction es arbitrary: p) (auto split: pool_outcome.splits dest: pool_steps)

definition job :: "int \<Rightarrow> int \<Rightarrow> bool \<Rightarrow> PriorityTask" where
  "job i pri urgent = \<lparr>pt_ID = i, pt_Priority = pri, pt_CreatedAt = 0, pt_Urgent = urgent\<rparr>"

definition pool_after :: "nat \<Rightarrow> pool_event list \<Rightarrow> priority_pool" where
  "pool_after n es = (case pool_run (NewPriorityWorkerPool n) es of Pool p \<Rightarrow> p
     | ProcessCrashed \<Rightarrow> NewPriorityWorkerPool n)"

lemma pool_after_reachable: "pool_reachable n (pool_after n es)"
  using pool_run_reachable [OF pool_start] by (auto simp: pool_after_def intro: pool_start split: pool_outcome.splits)

definition pool_history :: "pool_event list" where
  "pool_history = [Submits 1 (job 1 5 False), Submits 2 (job 2 0 False), Submits 3 (job 3 0 True),
     Selects 4 0 CaseUrgent, Ends 5 0 (TaskReturns True) False, Selects 6 0 CaseDefault, Dequeues 7 0]"

lemma priority_pool_accounting_witness:
  "int (length (tq_tasks (pp_taskQueue (pool_after 1 pool_history))) +
      length (pp_urgentQueue (pool_after 1 pool_history)) + length (pp_results (pool_after 1 pool_history))) +
     all_busy (pool_after 1 pool_history) = 3"
proof -
  have "\<not> tq_closed (pp_taskQueue (pool_after 1 pool_history))" by code_simp
  moreover have "ps_totalTasks (pp_stats (pool_after 1 pool_history)) = 3" by code_simp
  ultimately show ?thesis
    using priority_pool_accounting [OF pool_after_reachable, of 1 pool_history] by simp
qed

text \<open>
  Urgent tasks never interrupt anything: a worker takes one only between two tasks, when it
  has no current task, so in every reachable pool no interrupt has been signalled, no result is
  marked interrupted and no task waits to be queued again.
\<close>

theorem urgent_never_interrupts:
  assumes "pool_reachable n p"
  shows "(\<forall>w \<in> set (pp_workers p). \<not> pw_interrupt w) \<and> (\<forall>r \<in> set (pp_results p). \<not> pr_Interrupted r) \<and>
    pp_requeue p = [] \<and> ps_interruptedTasks (pp_stats p) = 0"
  using pool_ok_reachable [OF assms] by (auto simp: pool_ok_def worker_ok_def)

lemma urgent_never_interrupts_witness:
  "map pr_Interrupted (pp_results (pool_after 1 pool_history)) = [False]"
proof -
  have "length (pp_results (pool_after 1 pool_history)) = 1" by code_simp
  then obtain r where r: "pp_results (pool_after 1 pool_history) = [r]"
    by (auto simp: length_Suc_conv)
  then show ?thesis using urgent_never_interrupts [OF pool_after_reachable, of 1 pool_history] by simp
qed

section \<open>Urgent tasks and idle workers\<close>

fun worker_event :: "pool_event \<Rightarrow> bool" where
  "worker_event (Submits now task) = pt_Urgent task"
| "worker_event Closes = False"
| "worker_event Cancels = False"
| "worker_event e = True"

definition all_wait :: "priority_pool \<Rightarrow> bool" where
  "all_wait p \<longleftrightarrow> (\<forall>w \<in> set (pp_workers p). pw_phase w = InDequeue \<or> pw_phase w = Stopped) \<and>
     tq_tasks (pp_taskQueue p) = [] \<and> \<not> tq_closed (pp_taskQueue p) \<and> \<not> pp_cancelled p \<and> pp_requeue p = []"

lemma all_wait_step:
  assumes "all_wait p" and "worker_event e"
  shows "\<exists>p' us. pool_step p e = Pool p' \<and> all_wait p' \<and> pp_workers p' = pp_workers p \<and>
    pp_results p' = pp_results p \<and> pp_urgentQueue p' = pp_urgentQueue p @ us"
proof -
  have phase: "pw_phase (pp_workers p ! i) = InDequeue \<or> pw_phase (pp_workers p ! i) = Stopped"
    if "i < length (pp_workers p)" for i
    using assms(1) that by (auto simp: all_wait_def)
  show ?thesis
  proof (cases e)
    case (Submits now task)
    then show ?thesis
      using assms by (auto simp: SubmitTask_def all_wait_def Let_def)
  next
    case (Selects now i c)
    then show ?thesis
      using assms(1) phase [of i] by (auto simp: worker_select_def Let_def)
  next
    case (Dequeues now i)
    then show ?thesis
      using assms(1) phase [of i] by (auto simp: worker_dequeue_def Dequeue_def Let_def all_wait_def)
  next
    case (Ends now i te exits)
    then show ?thesis
      using assms(1) phase [of i] by (auto simp: executeTask_ends_def Let_def)
  next
    case (Requeues k)
    then show ?thesis
      using assms(1) by (auto simp: requeue_fires_def all_wait_def)
  qed (use assms(2) in simp_all)
qed

text \<open>
  An idle worker waits for the normal queue only.  Once all workers wait there, no urgent
  task is ever started by anything the workers do or by further urgent submissions: it takes a
  normal task, or the end of the pool, to wake one.
\<close>

theorem urgent_waits_for_normal:
  assumes "all_wait p" and "\<forall>e \<in> set es. worker_event e"
  shows "\<exists>p' us. pool_run p es = Pool p' \<and> pp_workers p' = pp_workers p \<and> pp_results p' = pp_results p \<and>
    pp_urgentQueue p' = pp_urgentQueue p @ us"
  using assms
proof (induction es arbitrary: p)
  case Nil
  then show ?case by simp
next
  case (Cons e es)
  then obtain p1 us where p1: "pool_step p e = Pool p1" "all_wait p1" "pp_workers p1 = pp_workers p"
    "pp_results p1 = pp_results p" "pp_urgentQueue p1 = pp_urgentQueue p @ us"
    using all_wait_step [of p e] by auto
  with Cons.IH [of p1] Cons.prems show ?case by fastforce
qed

lemma urgent_waits_for_normal_witness:
  "\<exists>p' us. pool_run (pool_after 2 [Selects 1 0 CaseDefault, Selects 1 1 CaseDefault, Submits 2 (job 9 0 True)])
     [Selects 3 0 CaseUrgent, Dequeues 4 0, Dequeues 5 1] = Pool p' \<and> pp_results p' = [] \<and>
     pp_urgentQueue p' = job 9 0 True\<lparr>pt_CreatedAt := 2\<rparr> # us"
proof -
  let ?p = "pool_after 2 [Selects 1 0 CaseDefault, Selects 1 1 CaseDefault, Submits 2 (job 9 0 True)]"
  have "all_wait ?p" by code_simp
  moreover have "pp_results ?p = []" by code_simp
  moreover have "pp_urgentQueue ?p = [job 9 0 True\<lparr>pt_CreatedAt := 2\<rparr>]" by code_simp
  ultimately show ?thesis
    using urgent_waits_for_normal [of ?p "[Selects 3 0 CaseUrgent, Dequeues 4 0, Dequeues 5 1]"] by simp
qed

text \<open>A task that panics ends the process, the deferred \<^verbatim>\<open>recover\<close> notwithstanding.\<close>

lemma task_panic_crashes:
  "i < length (pp_workers p) \<Longrightarrow> pw_phase (pp_workers p ! i) = Running task isUrgent start \<Longrightarrow>
   pool_step p (Ends now i TaskPanics exits) = ProcessCrashed"
  by (simp add: executeTask_ends_def Let_def)

end
