(* ===== verification/PubSub.thy ===== *)
theory PubSub
  imports Prelude
begin

text \<open>
  The publish-subscribe system of chapter 7,
  \<^verbatim>\<open>07_error_handling_and_monitoring/ans_03/pubsub_synctest.go\<close>: topics with bounded channels,
  numbering, distribution with and without ordering, the subscribers' queues with duplicate
  elimination, retries, acknowledgements and pending messages.  A message's identifier
  \<^verbatim>\<open>msg-%d\<close> is represented by its sequence number.  Every event is one critical section or one
  channel operation of one goroutine.
\<close>

section \<open>State\<close>

record message =
  mg_Topic :: string
  mg_Payload :: string
  mg_Timestamp :: time
  mg_Sequence :: nat

record PubSubConfig =
  pc_BufferSize :: nat
  pc_MaxRetries :: int
  pc_RetryDelay :: duration
  pc_EnableDuplication :: bool
  pc_EnableOrdering :: bool
  pc_EnableDeliveryGuarantee :: bool

text \<open>\<open>sb_handled\<close> lists the messages whose handler returned no error, in that order, and
  \<open>sb_current\<close> is the message the subscriber's goroutine is handling.\<close>

record subscriber =
  sb_messageChan :: "message list"
  sb_processedMsgs :: "nat set"
  sb_ackChan :: "nat list"
  sb_pendingMessages :: "nat \<rightharpoonup> message"
  sb_current :: "message option"
  sb_handled :: "message list"

record topic =
  tp_messageChan :: "message list"
  tp_subscribers :: "string \<rightharpoonup> subscriber"

text \<open>\<open>ps_deliveries\<close> are the delivery goroutines started without ordering.\<close>

record pubsub =
  ps_config :: PubSubConfig
  ps_topics :: "string \<rightharpoonup> topic"
  ps_messageSeq :: nat
  ps_isRunning :: bool
  ps_cancelled :: bool
  ps_deliveries :: "(string \<times> string \<times> message) list"

datatype ps_error =
  ErrStopped | AlreadyRunning | NotRunning | TopicExists | TopicMissing | SubscriberExists | ChannelFull

definition NewPubSubSystem :: "PubSubConfig \<Rightarrow> pubsub" where
  "NewPubSubSystem config =
     \<lparr>ps_config = config\<lparr>
        pc_BufferSize := (if pc_BufferSize config = 0 then 1000 else pc_BufferSize config),
        pc_MaxRetries := (if pc_MaxRetries config = 0 then 3 else pc_MaxRetries config),
        pc_RetryDelay := (if pc_RetryDelay config = 0 then 100 * Millisecond else pc_RetryDelay config)\<rparr>,
      ps_topics = Map.empty, ps_messageSeq = 0, ps_isRunning = False, ps_cancelled = False,
      ps_deliveries = []\<rparr>"

section \<open>The system's operations\<close>

definition Start_pubsub :: "pubsub \<Rightarrow> pubsub \<times> ps_error option" where
  "Start_pubsub ps =
     (if ps_cancelled ps then (ps, Some ErrStopped)
      else if ps_isRunning ps then (ps, Some AlreadyRunning)
      else (ps\<lparr>ps_isRunning := True\<rparr>, None))"

definition Stop_pubsub :: "pubsub \<Rightarrow> pubsub \<times> ps_error option" where
  "Stop_pubsub ps =
     (if \<not> ps_isRunning ps then (ps, Some NotRunning)
      else (ps\<lparr>ps_isRunning := False, ps_cancelled := True\<rparr>, None))"

definition CreateTopic :: "string \<Rightarrow> pubsub \<Rightarrow> pubsub \<times> ps_error option" where
  "CreateTopic topicName ps =
     (if ps_cancelled ps then (ps, Some ErrStopped)
      else (case ps_topics ps topicName of
              Some t \<Rightarrow> (ps, Some TopicExists)
            | None \<Rightarrow> (ps\<lparr>ps_topics := (ps_topics ps)
                 (topicName \<mapsto> \<lparr>tp_messageChan = [], tp_subscribers = Map.empty\<rparr>)\<rparr>, None)))"

definition new_subscriber :: subscriber where
  "new_subscriber = \<lparr>sb_messageChan = [], sb_processedMsgs = {}, sb_ackChan = [],
     sb_pendingMessages = Map.empty, sb_current = None, sb_handled = []\<rparr>"

definition Subscribe :: "string \<Rightarrow> string \<Rightarrow> pubsub \<Rightarrow> pubsub \<times> ps_error option" where
  "Subscribe topicName subscriberID ps =
     (if ps_cancelled ps then (ps, Some ErrStopped)
      else (case ps_topics ps topicName of
              None \<Rightarrow> (ps, Some TopicMissing)
            | Some t \<Rightarrow>
                (case tp_subscribers t subscriberID of
                   Some s \<Rightarrow> (ps, Some SubscriberExists)
                 | None \<Rightarrow> (ps\<lparr>ps_topics := (ps_topics ps)(topicName \<mapsto>
                      t\<lparr>tp_subscribers := (tp_subscribers t)(subscriberID \<mapsto> new_subscriber)\<rparr>)\<rparr>, None))))"

text \<open>The number is taken before the channel is tried, so a full channel leaves a gap.\<close>

definition Publish :: "time \<Rightarrow> string \<Rightarrow> string \<Rightarrow> pubsub \<Rightarrow> pubsub \<times> ps_error option" where
  "Publish now topicName payload ps =
     (if ps_cancelled ps then (ps, Some ErrStopped)
      else (case ps_topics ps topicName of
              None \<Rightarrow> (ps, Some TopicMissing)
            | Some t \<Rightarrow>
                (let sequence = ps_messageSeq ps + 1;
                     ps1 = ps\<lparr>ps_messageSeq := sequence\<rparr>;
                     msg = \<lparr>mg_Topic = topicName, mg_Payload = payload, mg_Timestamp = now, mg_Sequence = sequence\<rparr>
                 in if length (tp_messageChan t) < pc_BufferSize (ps_config ps)
                    then (ps1\<lparr>ps_topics := (ps_topics ps)(topicName \<mapsto>
                            t\<lparr>tp_messageChan := tp_messageChan t @ [msg]\<rparr>)\<rparr>, None)
                    else (ps1, Some ChannelFull))))"

definition deliverToSubscriber :: "PubSubConfig \<Rightarrow> message \<Rightarrow> subscriber \<Rightarrow> subscriber" where
  "deliverToSubscriber cfg msg s =
     (if pc_EnableDuplication cfg \<and> mg_Sequence msg \<in> sb_processedMsgs s then s
      else (let s1 = (if pc_EnableDeliveryGuarantee cfg
                      then s\<lparr>sb_pendingMessages := (sb_pendingMessages s)(mg_Sequence msg \<mapsto> msg)\<rparr> else s)
            in if length (sb_messageChan s1) < pc_BufferSize cfg
               then s1\<lparr>sb_messageChan := sb_messageChan s1 @ [msg]\<rparr>
               else if pc_EnableDeliveryGuarantee cfg
               then s1\<lparr>sb_pendingMessages := (sb_pendingMessages s1)(mg_Sequence msg := None)\<rparr>
               else s1))"

text \<open>
  One round of the topic's goroutine: with ordering it delivers to every subscriber itself,
  otherwise it starts one goroutine each; \<open>ids\<close> lists the subscribers in the order in which Go
  visits the map.
\<close>

definition distributeMessage :: "string \<Rightarrow> string list \<Rightarrow> pubsub \<Rightarrow> pubsub" where
  "distributeMessage topicName ids ps =
     (case ps_topics ps topicName of
        None \<Rightarrow> ps
      | Some t \<Rightarrow>
          (case tp_messageChan t of
             [] \<Rightarrow> ps
           | msg # rest \<Rightarrow>
               (let t1 = t\<lparr>tp_messageChan := rest\<rparr>
                in if pc_EnableOrdering (ps_config ps)
                   then ps\<lparr>ps_topics := (ps_topics ps)(topicName \<mapsto>
                          t1\<lparr>tp_subscribers := (\<lambda>i. map_option (deliverToSubscriber (ps_config ps) msg)
                               (tp_subscribers t1 i))\<rparr>)\<rparr>
                   else ps\<lparr>ps_topics := (ps_topics ps)(topicName \<mapsto> t1),
                           ps_deliveries := ps_deliveries ps @ map (\<lambda>i. (topicName, i, msg)) ids\<rparr>)))"

definition update_subscriber :: "string \<Rightarrow> string \<Rightarrow> (subscriber \<Rightarrow> subscriber) \<Rightarrow> pubsub \<Rightarrow> pubsub" where
  "update_subscriber topicName i f ps =
     (case ps_topics ps topicName of
        None \<Rightarrow> ps
      | Some t \<Rightarrow>
          (case tp_subscribers t i of
             None \<Rightarrow> ps
           | Some s \<Rightarrow> ps\<lparr>ps_topics := (ps_topics ps)(topicName \<mapsto>
                 t\<lparr>tp_subscribers := (tp_subscribers t)(i \<mapsto> f s)\<rparr>)\<rparr>))"

definition run_delivery :: "nat \<Rightarrow> pubsub \<Rightarrow> pubsub" where
  "run_delivery k ps =
     (if k < length (ps_deliveries ps)
      then (case ps_deliveries ps ! k of (topicName, i, msg) \<Rightarrow>
              update_subscriber topicName i (deliverToSubscriber (ps_config ps) msg)
                (ps\<lparr>ps_deliveries := take k (ps_deliveries ps) @ drop (Suc k) (ps_deliveries ps)\<rparr>))
      else ps)"

section \<open>A subscriber's goroutines\<close>

text \<open>\<open>processMessages\<close> takes the next message; \<open>handleMessage\<close> marks it as processed.\<close>

definition take_message :: "subscriber \<Rightarrow> subscriber" where
  "take_message s =
     (case (sb_current s, sb_messageChan s) of
        (None, msg # rest) \<Rightarrow>
          (let s1 = s\<lparr>sb_messageChan := rest\<rparr>
           in if mg_Sequence msg \<in> sb_processedMsgs s1 then s1
              else s1\<lparr>sb_processedMsgs := insert (mg_Sequence msg) (sb_processedMsgs s1), sb_current := Some msg\<rparr>)
      | _ \<Rightarrow> s)"

text \<open>
  The attempts at the handler: \<open>handles k\<close> says whether attempt \<open>k\<close> succeeds, \<open>stopped k\<close>
  whether the context ends while waiting before attempt \<open>k\<close>.
\<close>

datatype attempts_end = HandlerSucceeded | HandlerFailed | ContextEnded

fun handle_attempts :: "(nat \<Rightarrow> bool) \<Rightarrow> (nat \<Rightarrow> bool) \<Rightarrow> nat \<Rightarrow> nat \<Rightarrow> attempts_end \<times> nat" where
  "handle_attempts handles stopped 0 k = (HandlerFailed, 0)"
| "handle_attempts handles stopped (Suc n) k =
     (if k > 0 \<and> stopped k then (ContextEnded, 0)
      else if handles k then (HandlerSucceeded, 1)
      else (case handle_attempts handles stopped n (Suc k) of (r, calls) \<Rightarrow> (r, Suc calls)))"

definition send_ack :: "PubSubConfig \<Rightarrow> message \<Rightarrow> subscriber \<Rightarrow> subscriber" where
  "send_ack cfg msg s =
     (if length (sb_ackChan s) < pc_BufferSize cfg
      then s\<lparr>sb_ackChan := sb_ackChan s @ [mg_Sequence msg]\<rparr> else s)"

text \<open>With a negative number of retries the loop does not run, no error is set and the message is
  acknowledged without having been handled.\<close>

definition finish_message ::
  "PubSubConfig \<Rightarrow> (nat \<Rightarrow> bool) \<Rightarrow> (nat \<Rightarrow> bool) \<Rightarrow> subscriber \<Rightarrow> subscriber" where
  "finish_message cfg handles stopped s =
     (case sb_current s of
        None \<Rightarrow> s
      | Some msg \<Rightarrow>
          (let s1 = s\<lparr>sb_current := None\<rparr>
           in if pc_MaxRetries cfg + 1 \<le> 0 then send_ack cfg msg s1
              else (case fst (handle_attempts handles stopped (nat (pc_MaxRetries cfg + 1)) 0) of
                HandlerSucceeded \<Rightarrow> send_ack cfg msg (s1\<lparr>sb_handled := sb_handled s1 @ [msg]\<rparr>)
              | _ \<Rightarrow> s1)))"

definition process_ack :: "subscriber \<Rightarrow> subscriber" where
  "process_ack s =
     (case sb_ackChan s of
        [] \<Rightarrow> s
      | i # rest \<Rightarrow> s\<lparr>sb_ackChan := rest, sb_pendingMessages := (sb_pendingMessages s)(i := None)\<rparr>)"

section \<open>Runs\<close>

datatype ps_event =
  EvStart | EvStop | EvTopic string | EvSubscribe string string | EvPublish time string string
| EvDistribute string "string list" | EvDeliver nat | EvTake string string
| EvFinish string string "nat \<Rightarrow> bool" "nat \<Rightarrow> bool" | EvAck string string

fun ps_step :: "pubsub \<Rightarrow> ps_event \<Rightarrow> pubsub" where
  "ps_step ps EvStart = fst (Start_pubsub ps)"
| "ps_step ps EvStop = fst (Stop_pubsub ps)"
| "ps_step ps (EvTopic n) = fst (CreateTopic n ps)"
| "ps_step ps (EvSubscribe n i) = fst (Subscribe n i ps)"
| "ps_step ps (EvPublish now n payload) = fst (Publish now n payload ps)"
| "ps_step ps (EvDistribute n ids) = distributeMessage n ids ps"
| "ps_step ps (EvDeliver k) = run_delivery k ps"
| "ps_step ps (EvTake n i) = update_subscriber n i take_message ps"
| "ps_step ps (EvFinish n i h st) = update_subscriber n i (finish_message (ps_config ps) h st) ps"
| "ps_step ps (EvAck n i) = update_subscriber n i process_ack ps"

inductive ps_reachable :: "PubSubConfig \<Rightarrow> pubsub \<Rightarrow> bool" for cfg where
  ps_init: "ps_reachable cfg (NewPubSubSystem cfg)"
| ps_steps: "ps_reachable cfg ps \<Longrightarrow> ps_reachable cfg (ps_step ps e)"

section \<open>Order and delivery\<close>

definition way :: "topic \<Rightarrow> subscriber \<Rightarrow> message list" where
  "way t s = sb_handled s @ (case sb_current s of None \<Rightarrow> [] | Some m \<Rightarrow> [m]) @ sb_messageChan s @ tp_messageChan t"

definition sub_ok :: "PubSubConfig \<Rightarrow> topic \<Rightarrow> subscriber \<Rightarrow> bool" where
  "sub_ok cfg t s \<longleftrightarrow> sorted_wrt (<) (map mg_Sequence (way t s)) \<and>
     (\<forall>i \<in> sb_processedMsgs s. \<forall>m \<in> set (sb_messageChan s @ tp_messageChan t). i < mg_Sequence m) \<and>
     (\<forall>m. sb_current s = Some m \<longrightarrow> mg_Sequence m \<in> sb_processedMsgs s) \<and>
     (0 \<le> pc_MaxRetries cfg \<longrightarrow> set (sb_ackChan s) \<subseteq> mg_Sequence ` set (sb_handled s)) \<and>
     (pc_EnableDeliveryGuarantee cfg \<longrightarrow> 0 \<le> pc_MaxRetries cfg \<longrightarrow>
        (\<forall>i \<in> mg_Sequence ` set (sb_messageChan s) \<union> sb_processedMsgs s.
           i \<in> dom (sb_pendingMessages s) \<or> i \<in> mg_Sequence ` set (sb_handled s)))"

definition topic_ok :: "PubSubConfig \<Rightarrow> nat \<Rightarrow> topic \<Rightarrow> bool" where
  "topic_ok cfg seq t \<longleftrightarrow> sorted_wrt (<) (map mg_Sequence (tp_messageChan t)) \<and>
     (\<forall>m \<in> set (tp_messageChan t). mg_Sequence m \<le> seq) \<and>
     (\<forall>i s. tp_subscribers t i = Some s \<longrightarrow> sub_ok cfg t s \<and>
        (\<forall>m \<in> set (way t s). mg_Sequence m \<le> seq) \<and> (\<forall>j \<in> sb_processedMsgs s. j \<le> seq))"

definition ps_ok :: "pubsub \<Rightarrow> bool" where
  "ps_ok ps \<longleftrightarrow> pc_EnableOrdering (ps_config ps) \<and> ps_deliveries ps = [] \<and>
     (\<forall>n t. ps_topics ps n = Some t \<longrightarrow> topic_ok (ps_config ps) (ps_messageSeq ps) t)"

lemma sub_ok_append:
  assumes "sub_ok cfg t s" and "\<forall>x \<in> set (way t s). mg_Sequence x < mg_Sequence m"
    and "\<forall>i \<in> sb_processedMsgs s. i < mg_Sequence m"
  shows "sub_ok cfg (t\<lparr>tp_messageChan := tp_messageChan t @ [m]\<rparr>) s"
  using assms by (auto simp: sub_ok_def way_def sorted_wrt_append)

lemma sub_ok_deliver:
  assumes "sub_ok cfg t s" and "tp_messageChan t = m # rest"
  shows "sub_ok cfg (t\<lparr>tp_messageChan := rest\<rparr>) (deliverToSubscriber cfg m s)"
  using assms by (auto simp: sub_ok_def way_def sorted_wrt_append deliverToSubscriber_def Let_def)

lemma sub_ok_take: "sub_ok cfg t s \<Longrightarrow> sub_ok cfg t (take_message s)"
  by (auto simp: sub_ok_def way_def sorted_wrt_append take_message_def Let_def
      split: option.splits list.splits)

lemma sub_ok_finish: "sub_ok cfg t s \<Longrightarrow> sub_ok cfg t (finish_message cfg h st s)"
  by (auto simp: sub_ok_def way_def sorted_wrt_append finish_message_def send_ack_def Let_def
      split: option.splits attempts_end.splits)

lemma sub_ok_ack: "sub_ok cfg t s \<Longrightarrow> sub_ok cfg t (process_ack s)"
  by (auto simp: sub_ok_def way_def process_ack_def split: list.splits)

lemma sub_ok_new: "sorted_wrt (<) (map mg_Sequence (tp_messageChan t)) \<Longrightarrow> sub_ok cfg t new_subscriber"
  by (simp add: sub_ok_def way_def new_subscriber_def)

lemma way_take: "set (way t (take_message s)) \<subseteq> set (way t s)"
  "sb_processedMsgs (take_message s) \<subseteq> sb_processedMsgs s \<union> mg_Sequence ` set (way t s)"
  by (auto simp: way_def take_message_def Let_def split: option.splits list.splits)

lemma way_finish: "set (way t (finish_message cfg h st s)) \<subseteq> set (way t s)"
  "sb_processedMsgs (finish_message cfg h st s) = sb_processedMsgs s"
  by (auto simp: way_def finish_message_def send_ack_def Let_def split: option.splits attempts_end.splits)

lemma way_ack: "way t (process_ack s) = way t s" "sb_processedMsgs (process_ack s) = sb_processedMsgs s"
  by (auto simp: way_def process_ack_def split: list.splits)

lemma way_deliver:
  "tp_messageChan t = m # rest \<Longrightarrow>
   set (way (t\<lparr>tp_messageChan := rest\<rparr>) (deliverToSubscriber cfg m s)) \<subseteq> set (way t s)"
  "sb_processedMsgs (deliverToSubscriber cfg m s) = sb_processedMsgs s"
  by (auto simp: way_def deliverToSubscriber_def Let_def)

lemma ps_ok_topic:
  assumes "ps_ok ps" and "topic_ok (ps_config ps) (ps_messageSeq ps) t"
  shows "ps_ok (ps\<lparr>ps_topics := (ps_topics ps)(n \<mapsto> t)\<rparr>)"
  using assms by (auto simp: ps_ok_def)

lemma ps_ok_update:
  assumes ok: "ps_ok ps" and f: "\<And>t s. sub_ok (ps_config ps) t s \<Longrightarrow> sub_ok (ps_config ps) t (f s)"
    and w: "\<And>t s. set (way t (f s)) \<subseteq> set (way t s)"
    and p: "\<And>t s. sb_processedMsgs (f s) \<subseteq> sb_processedMsgs s \<union> mg_Sequence ` set (way t s)"
  shows "ps_ok (update_subscriber n i f ps)"
proof (cases "ps_topics ps n")
  case None
  then show ?thesis using ok by (simp add: update_subscriber_def)
next
  case (Some t)
  show ?thesis
  proof (cases "tp_subscribers t i")
    case None
    then show ?thesis using ok Some by (simp add: update_subscriber_def)
  next
    case s: (Some s)
    have t: "topic_ok (ps_config ps) (ps_messageSeq ps) t" using ok Some by (simp add: ps_ok_def)
    let ?t = "t\<lparr>tp_subscribers := (tp_subscribers t)(i \<mapsto> f s)\<rparr>"
    have same: "way ?t x = way t x" "sub_ok (ps_config ps) ?t x = sub_ok (ps_config ps) t x" for x
      by (simp_all add: way_def sub_ok_def)
    have "topic_ok (ps_config ps) (ps_messageSeq ps) ?t"
      using t s f [of t s] w [of t s] p [where s = s and t = t]
      by (auto simp: topic_ok_def same)
    then show ?thesis
      using ps_ok_topic [OF ok] Some s by (simp add: update_subscriber_def)
  qed
qed

lemma ps_ok_publish:
  assumes ok: "ps_ok ps"
  shows "ps_ok (fst (Publish now n payload ps))"
proof -
  define seq where "seq = Suc (ps_messageSeq ps)"
  define m where "m = \<lparr>mg_Topic = n, mg_Payload = payload, mg_Timestamp = now, mg_Sequence = seq\<rparr>"
  have grow: "topic_ok (ps_config ps) seq t" if "topic_ok (ps_config ps) (ps_messageSeq ps) t" for t
    using that by (force simp: topic_ok_def seq_def)
  have add: "topic_ok (ps_config ps) seq (t\<lparr>tp_messageChan := tp_messageChan t @ [m]\<rparr>)"
    if t: "topic_ok (ps_config ps) (ps_messageSeq ps) t" for t
  proof -
    have lt: "x < mg_Sequence m" if "x \<le> ps_messageSeq ps" for x using that by (simp add: m_def seq_def)
    have w: "set (way (t\<lparr>tp_messageChan := tp_messageChan t @ [m]\<rparr>) s) = insert m (set (way t s))" for s
      by (auto simp: way_def)
    have "sub_ok (ps_config ps) (t\<lparr>tp_messageChan := tp_messageChan t @ [m]\<rparr>) s"
      if "tp_subscribers t i = Some s" for i s
      using t that lt by (intro sub_ok_append) (auto simp: topic_ok_def)
    moreover have "sorted_wrt (<) (map mg_Sequence (tp_messageChan t @ [m]))"
      using t lt by (auto simp: topic_ok_def sorted_wrt_append)
    ultimately show ?thesis
      using t grow [OF t] unfolding topic_ok_def
      by (auto simp: w m_def [symmetric]) (auto simp: m_def)
  qed
  show ?thesis
    using ok grow add
    by (auto simp: Publish_def ps_ok_def Let_def seq_def [symmetric] m_def [symmetric] split: option.splits)
qed

lemma ps_ok_distribute:
  assumes ok: "ps_ok ps"
  shows "ps_ok (distributeMessage n ids ps)"
proof (cases "ps_topics ps n")
  case None
  then show ?thesis using ok by (simp add: distributeMessage_def)
next
  case (Some t)
  show ?thesis
  proof (cases "tp_messageChan t")
    case Nil
    then show ?thesis using ok Some by (simp add: distributeMessage_def)
  next
    case (Cons m rest)
    define d where "d = deliverToSubscriber (ps_config ps) m"
    define t0 where "t0 = t\<lparr>tp_messageChan := rest\<rparr>"
    define t1 where "t1 = t0\<lparr>tp_subscribers := (\<lambda>i. map_option d (tp_subscribers t i))\<rparr>"
    have t: "topic_ok (ps_config ps) (ps_messageSeq ps) t" using ok Some by (simp add: ps_ok_def)
    have same: "way t1 x = way t0 x" "sub_ok (ps_config ps) t1 x = sub_ok (ps_config ps) t0 x" for x
      by (simp_all add: t1_def way_def sub_ok_def)
    have chan: "tp_messageChan t1 = rest" by (simp add: t1_def t0_def)
    have "topic_ok (ps_config ps) (ps_messageSeq ps) t1"
      unfolding topic_ok_def chan
    proof (intro conjI allI impI)
      show "sorted_wrt (<) (map mg_Sequence rest)" "\<forall>m \<in> set rest. mg_Sequence m \<le> ps_messageSeq ps"
        using t Cons by (auto simp: topic_ok_def)
    next
      fix i s
      assume "tp_subscribers t1 i = Some s"
      then obtain s0 where s0: "tp_subscribers t i = Some s0" "s = d s0" by (auto simp: t1_def)
      then have old: "sub_ok (ps_config ps) t s0" "\<forall>x \<in> set (way t s0). mg_Sequence x \<le> ps_messageSeq ps"
        "\<forall>j \<in> sb_processedMsgs s0. j \<le> ps_messageSeq ps"
        using t by (auto simp: topic_ok_def)
      show "sub_ok (ps_config ps) t1 s"
        unfolding same s0(2) t0_def d_def by (rule sub_ok_deliver [OF old(1) Cons])
      show "\<forall>x \<in> set (way t1 s). mg_Sequence x \<le> ps_messageSeq ps"
        using way_deliver(1) [OF Cons, of "ps_config ps" s0] old(2)
        unfolding same s0(2) t0_def d_def by blast
      show "\<forall>j \<in> sb_processedMsgs s. j \<le> ps_messageSeq ps"
        using old(3) unfolding s0(2) d_def way_deliver(2) .
    qed
    moreover have "distributeMessage n ids ps = ps\<lparr>ps_topics := (ps_topics ps)(n \<mapsto> t1)\<rparr>"
      using ok Some Cons by (simp add: distributeMessage_def ps_ok_def Let_def t1_def t0_def d_def)
    ultimately show ?thesis using ps_ok_topic [OF ok] by simp
  qed
qed

lemma ps_ok_step: "ps_ok ps \<Longrightarrow> ps_ok (ps_step ps e)"
proof (induction ps e rule: ps_step.induct)
  case (3 ps n)
  then show ?case
    by (auto simp: CreateTopic_def ps_ok_def topic_ok_def split: option.splits)
next
  case (4 ps n i)
  show ?case
  proof (cases "snd (Subscribe n i ps) = None")
    case True
    then obtain t where t: "ps_topics ps n = Some t" "tp_subscribers t i = None" "\<not> ps_cancelled ps"
      by (auto simp: Subscribe_def split: if_splits option.splits)
    let ?t = "t\<lparr>tp_subscribers := (tp_subscribers t)(i \<mapsto> new_subscriber)\<rparr>"
    have ok: "topic_ok (ps_config ps) (ps_messageSeq ps) t" using 4 t by (simp add: ps_ok_def)
    have same: "way ?t x = way t x" "sub_ok (ps_config ps) ?t x = sub_ok (ps_config ps) t x" for x
      by (simp_all add: way_def sub_ok_def)
    have "topic_ok (ps_config ps) (ps_messageSeq ps) ?t"
      using ok sub_ok_new [of t "ps_config ps"]
      by (auto simp: topic_ok_def same) (auto simp: way_def new_subscriber_def)
    then show ?thesis using ps_ok_topic [OF 4] t by (simp add: Subscribe_def)
  next
    case False
    then have "fst (Subscribe n i ps) = ps" by (auto simp: Subscribe_def split: option.splits)
    then show ?thesis using 4 by simp
  qed
next
  case (5 ps now n payload)
  then show ?case by (simp add: ps_ok_publish)
next
  case (6 ps n ids)
  then show ?case by (simp add: ps_ok_distribute)
next
  case (8 ps n i)
  then show ?case using way_take by (simp, intro ps_ok_update) (auto intro: sub_ok_take)
next
  case (9 ps n i h st)
  then show ?case using way_finish by (simp, intro ps_ok_update) (auto intro: sub_ok_finish)
next
  case (10 ps n i)
  then show ?case using way_ack by (simp, intro ps_ok_update) (auto intro: sub_ok_ack)
qed (simp_all add: Start_pubsub_def Stop_pubsub_def run_delivery_def ps_ok_def)

lemma ps_ok_reachable:
  assumes "pc_EnableOrdering cfg"
  shows "ps_reachable cfg ps \<Longrightarrow> ps_ok ps"
proof (induction rule: ps_reachable.induct)
  case ps_init
  then show ?case using assms by (simp add: ps_ok_def NewPubSubSystem_def)
next
  case (ps_steps ps e)
  then show ?case by (simp add: ps_ok_step)
qed

text \<open>
  C11. With ordering enabled, under any interleaving of publishers, distribution and subscribers,
  whatever handlers fail and are retried, each subscriber handles messages in strictly
  increasing sequence order, hence each message at most once; what it is handling and what is
  queued for it comes later in the sequence.
\<close>

theorem pubsub_ordered:
  assumes "pc_EnableOrdering cfg" and "ps_reachable cfg ps"
    and "ps_topics ps n = Some t" and "tp_subscribers t i = Some s"
  shows "sorted_wrt (<) (map mg_Sequence (sb_handled s @
    (case sb_current s of None \<Rightarrow> [] | Some m \<Rightarrow> [m]) @ sb_messageChan s @ tp_messageChan t))"
  using ps_ok_reachable [OF assms(1,2)] assms(3,4)
  by (auto simp: ps_ok_def topic_ok_def sub_ok_def way_def)

lemma ps_run_reachable: "ps_reachable cfg ps \<Longrightarrow> ps_reachable cfg (foldl ps_step ps es)"
  by (induction es arbitrary: ps) (simp_all add: ps_steps)

definition ps_example_config :: PubSubConfig where
  "ps_example_config = \<lparr>pc_BufferSize = 2, pc_MaxRetries = 1, pc_RetryDelay = 5, pc_EnableDuplication = True,
     pc_EnableOrdering = True, pc_EnableDeliveryGuarantee = True\<rparr>"

definition ps_example :: pubsub where
  "ps_example = foldl ps_step (NewPubSubSystem ps_example_config)
     [EvStart, EvTopic ''t'', EvSubscribe ''t'' ''s'', EvPublish 1 ''t'' ''a'', EvPublish 2 ''t'' ''b'',
      EvDistribute ''t'' [''s''], EvDistribute ''t'' [''s''], EvTake ''t'' ''s'',
      EvFinish ''t'' ''s'' (\<lambda>k. k = 1) (\<lambda>_. False), EvAck ''t'' ''s'', EvTake ''t'' ''s'',
      EvPublish 3 ''t'' ''c'', EvDistribute ''t'' [''s'']]"

definition ps_example_sub :: subscriber where
  "ps_example_sub = (case ps_topics ps_example ''t'' of None \<Rightarrow> new_subscriber
     | Some t \<Rightarrow> (case tp_subscribers t ''s'' of None \<Rightarrow> new_subscriber | Some s \<Rightarrow> s))"

lemma ps_example_exists:
  "\<exists>t. ps_topics ps_example ''t'' = Some t \<and> tp_subscribers t ''s'' = Some ps_example_sub"
proof -
  have "case ps_topics ps_example ''t'' of None \<Rightarrow> False
      | Some t \<Rightarrow> (case tp_subscribers t ''s'' of None \<Rightarrow> False | Some s \<Rightarrow> True)"
    by code_simp
  then show ?thesis by (auto simp: ps_example_sub_def split: option.splits)
qed

lemma ps_example_facts:
  "map mg_Sequence (sb_handled ps_example_sub) = [1]"
  "map_option mg_Sequence (sb_current ps_example_sub) = Some 2"
  "map mg_Sequence (sb_messageChan ps_example_sub) = [3]"
  by code_simp+

lemma pubsub_ordered_witness:
  "\<exists>t. ps_topics ps_example ''t'' = Some t \<and> map mg_Sequence (sb_handled ps_example_sub) = [1] \<and>
     sorted_wrt (<) (map mg_Sequence (sb_handled ps_example_sub @
       (case sb_current ps_example_sub of None \<Rightarrow> [] | Some m \<Rightarrow> [m]) @
       sb_messageChan ps_example_sub @ tp_messageChan t))"
proof -
  obtain t where t: "ps_topics ps_example ''t'' = Some t" "tp_subscribers t ''s'' = Some ps_example_sub"
    using ps_example_exists by blast
  have "pc_EnableOrdering ps_example_config" by (simp add: ps_example_config_def)
  moreover have "ps_reachable ps_example_config ps_example"
    unfolding ps_example_def by (rule ps_run_reachable [OF ps_init])
  ultimately show ?thesis
    by (intro exI [of _ t] conjI t(1) ps_example_facts(1) pubsub_ordered [OF _ _ t])
qed

lemma ps_config_update [simp]: "ps_config (update_subscriber n i f ps) = ps_config ps"
  by (simp add: update_subscriber_def split: option.split)

lemma ps_config_step: "ps_config (ps_step ps e) = ps_config ps"
proof (cases e)
  case (EvDistribute n ids)
  then show ?thesis by (simp add: distributeMessage_def Let_def split: option.split list.split)
next
  case (EvPublish now n payload)
  then show ?thesis by (simp add: Publish_def Let_def split: option.split)
next
  case (EvDeliver k)
  then show ?thesis by (simp add: run_delivery_def split: prod.split)
qed (simp_all add: Start_pubsub_def Stop_pubsub_def CreateTopic_def Subscribe_def split: option.split)

text \<open>
  With ordering and the delivery guarantee enabled and a nonnegative number of retries, a
  message that has entered a
  subscriber's queue is never silently lost: at any time it is still pending or its handler has
  succeeded, and what is acknowledged has been handled.
\<close>

theorem pubsub_delivery_guarantee:
  assumes "pc_EnableOrdering cfg" and "pc_EnableDeliveryGuarantee cfg" and "0 \<le> pc_MaxRetries cfg"
    and "ps_reachable cfg ps"
    and "ps_topics ps n = Some t" and "tp_subscribers t i = Some s"
  shows "(\<forall>j \<in> mg_Sequence ` set (sb_messageChan s) \<union> sb_processedMsgs s.
      j \<in> dom (sb_pendingMessages s) \<or> j \<in> mg_Sequence ` set (sb_handled s)) \<and>
    set (sb_ackChan s) \<subseteq> mg_Sequence ` set (sb_handled s)"
proof -
  have "ps_config ps = ps_config (NewPubSubSystem cfg)"
    using assms(4)
    by (induction rule: ps_reachable.induct) (simp_all only: ps_config_step)
  then have "pc_EnableDeliveryGuarantee (ps_config ps)" "0 \<le> pc_MaxRetries (ps_config ps)"
    using assms(2,3) by (simp_all add: NewPubSubSystem_def)
  moreover have "sub_ok (ps_config ps) t s"
    using ps_ok_reachable [OF assms(1,4)] assms(5,6) by (auto simp: ps_ok_def topic_ok_def)
  ultimately show ?thesis by (simp add: sub_ok_def)
qed

lemma pubsub_delivery_guarantee_witness:
  "set (sb_ackChan ps_example_sub) \<subseteq> mg_Sequence ` set (sb_handled ps_example_sub)"
proof -
  obtain t where t: "ps_topics ps_example ''t'' = Some t" "tp_subscribers t ''s'' = Some ps_example_sub"
    using ps_example_exists by blast
  have "ps_reachable ps_example_config ps_example"
    unfolding ps_example_def by (rule ps_run_reachable [OF ps_init])
  from pubsub_delivery_guarantee [OF _ _ _ this t] show ?thesis by (simp add: ps_example_config_def)
qed

text \<open>
  The guarantee ends at a full queue: a message that finds its subscriber's channel full
  leaves no trace, neither queued nor pending, although the publisher was told of success.
\<close>

theorem pubsub_full_queue_drops:
  assumes "pc_BufferSize cfg \<le> length (sb_messageChan s)" and "sb_pendingMessages s (mg_Sequence msg) = None"
  shows "deliverToSubscriber cfg msg s = s"
  using assms by (auto simp: deliverToSubscriber_def Let_def fun_upd_idem)

lemma pubsub_full_queue_drops_witness:
  "deliverToSubscriber ps_example_config \<lparr>mg_Topic = ''t'', mg_Payload = ''x'', mg_Timestamp = 0, mg_Sequence = 9\<rparr>
     (new_subscriber\<lparr>sb_messageChan := [\<lparr>mg_Topic = ''t'', mg_Payload = ''a'', mg_Timestamp = 0, mg_Sequence = 7\<rparr>,
        \<lparr>mg_Topic = ''t'', mg_Payload = ''b'', mg_Timestamp = 0, mg_Sequence = 8\<rparr>]\<rparr>) =
   new_subscriber\<lparr>sb_messageChan := [\<lparr>mg_Topic = ''t'', mg_Payload = ''a'', mg_Timestamp = 0, mg_Sequence = 7\<rparr>,
        \<lparr>mg_Topic = ''t'', mg_Payload = ''b'', mg_Timestamp = 0, mg_Sequence = 8\<rparr>]\<rparr>"
  by (rule pubsub_full_queue_drops) (simp_all add: ps_example_config_def new_subscriber_def)

end
