(* ===== verification/Fallback.thy ===== *)
theory Fallback
  imports RingBuffer
begin

text \<open>
  The fallback manager of chapter 7,
  \<^verbatim>\<open>07_error_handling_and_monitoring/ans_02/fallback_manager.go\<close>: the bound on concurrent
  calls, the three modes of execution with the cache, the sliding window of results and the
  evaluation that switches the mode.  The external service and the fallback provider are
  arguments (the answers they give), as is the random draw of the transition mode.
\<close>

section \<open>State\<close>

datatype FallbackMode = NormalMode | FallbackActive | TransitionMode

record fm_config =
  fc_ErrorRateThreshold :: real
  fc_RecoveryThreshold :: real
  fc_MinimumRequestCount :: int
  fc_SlidingWindowSize :: nat
  fc_EvaluationInterval :: duration
  fc_TransitionDuration :: duration
  fc_MaxConcurrentWorkers :: int

record fm_counters =
  fk_totalRequests :: int
  fk_normalModeRequests :: int
  fk_fallbackModeRequests :: int
  fk_successfulRequests :: int
  fk_failedRequests :: int
  fk_modeChangeCount :: int
  fk_fallbackActivations :: int
  fk_cacheHits :: int
  fk_cacheMisses :: int

record fm_result =
  fr_Success :: bool
  fr_Mode :: FallbackMode
  fr_Timestamp :: time
  fr_Duration :: duration

record CacheEntry =
  ce_Data :: string
  ce_Timestamp :: time
  ce_TTL :: duration

datatype fm_error = ErrTooManyWorkers | ErrFmStopped | ServiceError nat

record fallback_manager =
  fm_config :: fm_config
  fm_cache :: "string \<rightharpoonup> CacheEntry"
  fm_counters :: fm_counters
  fm_currentMode :: FallbackMode
  fm_lastModeChange :: time
  fm_requestWindow :: "fm_result list"
  fm_windowIndex :: nat
  fm_windowFull :: bool
  fm_activeWorkers :: int
  fm_isRunning :: bool
  fm_stopped :: bool

definition zero_counters :: fm_counters where
  "zero_counters = \<lparr>fk_totalRequests = 0, fk_normalModeRequests = 0, fk_fallbackModeRequests = 0,
     fk_successfulRequests = 0, fk_failedRequests = 0, fk_modeChangeCount = 0,
     fk_fallbackActivations = 0, fk_cacheHits = 0, fk_cacheMisses = 0\<rparr>"

definition zero_fm_result :: fm_result where
  "zero_fm_result = \<lparr>fr_Success = False, fr_Mode = NormalMode, fr_Timestamp = 0, fr_Duration = 0\<rparr>"

definition NewFallbackManager :: "time \<Rightarrow> fm_config \<Rightarrow> fallback_manager" where
  "NewFallbackManager now c =
    (let cfg = \<lparr>
       fc_ErrorRateThreshold = (if fc_ErrorRateThreshold c = 0 then 3/10 else fc_ErrorRateThreshold c),
       fc_RecoveryThreshold = (if fc_RecoveryThreshold c = 0 then 1/10 else fc_RecoveryThreshold c),
       fc_MinimumRequestCount = (if fc_MinimumRequestCount c = 0 then 20 else fc_MinimumRequestCount c),
       fc_SlidingWindowSize = (if fc_SlidingWindowSize c = 0 then 100 else fc_SlidingWindowSize c),
       fc_EvaluationInterval = (if fc_EvaluationInterval c = 0 then 10 * Second else fc_EvaluationInterval c),
       fc_TransitionDuration = (if fc_TransitionDuration c = 0 then 30 * Second else fc_TransitionDuration c),
       fc_MaxConcurrentWorkers = (if fc_MaxConcurrentWorkers c = 0 then 50 else fc_MaxConcurrentWorkers c)\<rparr>
     in \<lparr>fm_config = cfg, fm_cache = Map.empty, fm_counters = zero_counters, fm_currentMode = NormalMode,
         fm_lastModeChange = now, fm_requestWindow = replicate (fc_SlidingWindowSize cfg) zero_fm_result,
         fm_windowIndex = 0, fm_windowFull = False, fm_activeWorkers = 0, fm_isRunning = False,
         fm_stopped = False\<rparr>)"

datatype lifecycle_error = AlreadyStopped | IsRunning | IsNotRunning

definition Start_fm :: "fallback_manager \<Rightarrow> fallback_manager \<times> lifecycle_error option" where
  "Start_fm fm =
     (if fm_stopped fm then (fm, Some AlreadyStopped)
      else if fm_isRunning fm then (fm, Some IsRunning)
      else (fm\<lparr>fm_isRunning := True\<rparr>, None))"

definition Stop_fm :: "fallback_manager \<Rightarrow> fallback_manager \<times> lifecycle_error option" where
  "Stop_fm fm =
     (if \<not> fm_isRunning fm then (fm, Some IsNotRunning)
      else (fm\<lparr>fm_isRunning := False, fm_stopped := True\<rparr>, None))"

section \<open>The cache\<close>

definition generateCacheKey :: "string \<Rightarrow> string" where
  "generateCacheKey request = ''cache_'' @ request"

definition getFromCache :: "time \<Rightarrow> string \<Rightarrow> fallback_manager \<Rightarrow> fallback_manager \<times> string option" where
  "getFromCache now request fm =
    (let key = generateCacheKey request
     in case fm_cache fm key of
          None \<Rightarrow> (fm, None)
        | Some entry \<Rightarrow>
            (if time_Sub now (ce_Timestamp entry) > ce_TTL entry
             then (fm\<lparr>fm_cache := (fm_cache fm)(key := None)\<rparr>, None)
             else (fm, Some (ce_Data entry))))"

definition getFromCacheIgnoreTTL :: "string \<Rightarrow> fallback_manager \<Rightarrow> string option" where
  "getFromCacheIgnoreTTL request fm = map_option ce_Data (fm_cache fm (generateCacheKey request))"

definition saveToCache :: "time \<Rightarrow> string \<Rightarrow> string \<Rightarrow> duration \<Rightarrow> fallback_manager \<Rightarrow> fallback_manager" where
  "saveToCache now request data ttl fm =
     fm\<lparr>fm_cache := (fm_cache fm)(generateCacheKey request \<mapsto>
          \<lparr>ce_Data = data, ce_Timestamp = now, ce_TTL = ttl\<rparr>)\<rparr>"

section \<open>Execution\<close>

definition count :: "(fm_counters \<Rightarrow> fm_counters) \<Rightarrow> fallback_manager \<Rightarrow> fallback_manager" where
  "count f fm = fm\<lparr>fm_counters := f (fm_counters fm)\<rparr>"

text \<open>What the service and the provider answer to this request.\<close>

record fm_answers =
  fa_service :: "fm_error + string"
  fa_canProvide :: bool
  fa_fallback :: "fm_error + string"

definition executeNormalMode ::
  "time \<Rightarrow> time \<Rightarrow> fm_answers \<Rightarrow> string \<Rightarrow> fallback_manager \<Rightarrow>
   fallback_manager \<times> string option \<times> fm_error option \<times> bool" where
  "executeNormalMode now now2 answers request fm =
     (case getFromCache now request fm of
        (fm1, Some cached) \<Rightarrow>
          (count (\<lambda>k. k\<lparr>fk_cacheHits := fk_cacheHits k + 1\<rparr>) fm1, Some cached, None, True)
      | (fm1, None) \<Rightarrow>
          (let fm2 = count (\<lambda>k. k\<lparr>fk_cacheMisses := fk_cacheMisses k + 1\<rparr>) fm1
           in case fa_service answers of
                Inl err \<Rightarrow>
                  (if fa_canProvide answers
                   then (case fa_fallback answers of
                           Inr data \<Rightarrow> (fm2, Some data, None, False)
                         | Inl _ \<Rightarrow> (fm2, None, Some err, False))
                   else (fm2, None, Some err, False))
              | Inr result \<Rightarrow> (saveToCache now2 request result (5 * Minute) fm2, Some result, None, True)))"

definition executeFallbackMode ::
  "fm_answers \<Rightarrow> string \<Rightarrow> fallback_manager \<Rightarrow>
   fallback_manager \<times> string option \<times> fm_error option \<times> bool" where
  "executeFallbackMode answers request fm =
     (case fa_fallback answers of
        Inr result \<Rightarrow> (fm, Some result, None, True)
      | Inl err \<Rightarrow>
          (case getFromCacheIgnoreTTL request fm of
             Some cached \<Rightarrow>
               (count (\<lambda>k. k\<lparr>fk_cacheHits := fk_cacheHits k + 1\<rparr>) fm, Some cached, None, False)
           | None \<Rightarrow> (fm, None, Some err, False)))"

text \<open>\<open>coin\<close> is \<^verbatim>\<open>rand.Float64() < 0.1\<close>.\<close>

definition executeTransitionMode ::
  "bool \<Rightarrow> time \<Rightarrow> time \<Rightarrow> fm_answers \<Rightarrow> string \<Rightarrow> fallback_manager \<Rightarrow>
   fallback_manager \<times> string option \<times> fm_error option \<times> bool" where
  "executeTransitionMode coin now now2 answers request fm =
     (if coin
      then executeNormalMode now now2 answers request
             (count (\<lambda>k. k\<lparr>fk_normalModeRequests := fk_normalModeRequests k + 1\<rparr>) fm)
      else executeFallbackMode answers request
             (count (\<lambda>k. k\<lparr>fk_fallbackModeRequests := fk_fallbackModeRequests k + 1\<rparr>) fm))"

text \<open>\<open>activeWorkers.Add(1)\<close> and the comparison with the limit; then its undoing.\<close>

definition acquire :: "fallback_manager \<Rightarrow> fallback_manager \<times> bool" where
  "acquire fm =
     (fm\<lparr>fm_activeWorkers := fm_activeWorkers fm + 1\<rparr>,
      fm_activeWorkers fm + 1 \<le> fc_MaxConcurrentWorkers (fm_config fm))"

definition release :: "fallback_manager \<Rightarrow> fallback_manager" where
  "release fm = fm\<lparr>fm_activeWorkers := fm_activeWorkers fm - 1\<rparr>"

definition serve_request ::
  "bool \<Rightarrow> time \<Rightarrow> time \<Rightarrow> fm_answers \<Rightarrow> string \<Rightarrow> FallbackMode \<Rightarrow> fallback_manager \<Rightarrow>
   fallback_manager \<times> string option \<times> fm_error option \<times> bool" where
  "serve_request coin now now2 answers request currentMode fm0 =
    (let fm = count (\<lambda>k. k\<lparr>fk_totalRequests := fk_totalRequests k + 1\<rparr>) fm0
     in case currentMode of
          NormalMode \<Rightarrow>
            (case executeNormalMode now now2 answers request fm of
               (fm1, r) \<Rightarrow> (count (\<lambda>k. k\<lparr>fk_normalModeRequests := fk_normalModeRequests k + 1\<rparr>) fm1, r))
        | FallbackActive \<Rightarrow>
            (case executeFallbackMode answers request fm of
               (fm1, r) \<Rightarrow> (count (\<lambda>k. k\<lparr>fk_fallbackModeRequests := fk_fallbackModeRequests k + 1\<rparr>) fm1, r))
        | TransitionMode \<Rightarrow> executeTransitionMode coin now now2 answers request fm)"

definition recordResult :: "bool \<Rightarrow> FallbackMode \<Rightarrow> duration \<Rightarrow> time \<Rightarrow> fallback_manager \<Rightarrow> fallback_manager" where
  "recordResult success mode duration now fm0 =
    (let fm = count (\<lambda>k. if success then k\<lparr>fk_successfulRequests := fk_successfulRequests k + 1\<rparr>
                         else k\<lparr>fk_failedRequests := fk_failedRequests k + 1\<rparr>) fm0;
         w = (fm_requestWindow fm)[fm_windowIndex fm :=
               \<lparr>fr_Success = success, fr_Mode = mode, fr_Timestamp = now, fr_Duration = duration\<rparr>];
         i = (fm_windowIndex fm + 1) mod length w
     in fm\<lparr>fm_requestWindow := w, fm_windowIndex := i,
           fm_windowFull := (if i = 0 then True else fm_windowFull fm)\<rparr>)"

text \<open>\<open>others\<close> is what other calls and the evaluation loop do while the service is called.\<close>

definition Execute_fm ::
  "bool \<Rightarrow> time \<Rightarrow> time \<Rightarrow> fm_answers \<Rightarrow> (fallback_manager \<Rightarrow> fallback_manager) \<Rightarrow> string \<Rightarrow>
   fallback_manager \<Rightarrow> fallback_manager \<times> string option \<times> fm_error option" where
  "Execute_fm coin now now2 answers others request fm =
     (if fm_stopped fm then (fm, None, Some ErrFmStopped)
      else (case acquire fm of
              (fm1, False) \<Rightarrow> (release fm1, None, Some ErrTooManyWorkers)
            | (fm1, True) \<Rightarrow>
                (case serve_request coin now now2 answers request (fm_currentMode fm1) fm1 of
                   (fm2, result, err, success) \<Rightarrow>
                     (release (recordResult success (fm_currentMode fm1) (time_Sub now2 now) now2 (others fm2)),
                      result, err))))"

section \<open>Evaluation\<close>

definition getEffectiveWindowSize_fm :: "fallback_manager \<Rightarrow> nat" where
  "getEffectiveWindowSize_fm fm =
     (if fm_windowFull fm then length (fm_requestWindow fm) else fm_windowIndex fm)"

definition calculateCurrentErrorRate :: "fallback_manager \<Rightarrow> real" where
  "calculateCurrentErrorRate fm =
    (let windowSize = getEffectiveWindowSize_fm fm
     in if windowSize = 0 then 0
        else real (count_slots (\<lambda>r. \<not> fr_Success r) (fm_requestWindow fm) windowSize) / real windowSize)"

definition transitionTo_fm :: "FallbackMode \<Rightarrow> time \<Rightarrow> fallback_manager \<Rightarrow> fallback_manager" where
  "transitionTo_fm newMode now fm =
     (if fm_currentMode fm = newMode then fm
      else (let fm1 = count (\<lambda>k. k\<lparr>fk_modeChangeCount := fk_modeChangeCount k + 1\<rparr>)
                        (fm\<lparr>fm_currentMode := newMode, fm_lastModeChange := now\<rparr>)
            in if newMode = FallbackActive
               then count (\<lambda>k. k\<lparr>fk_fallbackActivations := fk_fallbackActivations k + 1\<rparr>) fm1 else fm1))"

definition evaluateMode :: "time \<Rightarrow> fallback_manager \<Rightarrow> fallback_manager" where
  "evaluateMode now fm =
    (let errorRate = calculateCurrentErrorRate fm; cfg = fm_config fm
     in if int (getEffectiveWindowSize_fm fm) < fc_MinimumRequestCount cfg then fm
        else (case fm_currentMode fm of
            NormalMode \<Rightarrow>
              if errorRate \<ge> fc_ErrorRateThreshold cfg then transitionTo_fm FallbackActive now fm else fm
          | FallbackActive \<Rightarrow>
              if errorRate \<le> fc_RecoveryThreshold cfg then transitionTo_fm TransitionMode now fm else fm
          | TransitionMode \<Rightarrow>
              if time_Sub now (fm_lastModeChange fm) \<ge> fc_TransitionDuration cfg
              then if errorRate \<le> fc_RecoveryThreshold cfg then transitionTo_fm NormalMode now fm
                   else transitionTo_fm FallbackActive now fm
              else fm))"

definition ClearCache :: "fallback_manager \<Rightarrow> fallback_manager" where
  "ClearCache fm = fm\<lparr>fm_cache := Map.empty\<rparr>"

definition Reset_fm :: "time \<Rightarrow> fallback_manager \<Rightarrow> fallback_manager" where
  "Reset_fm now fm = ClearCache
     (fm\<lparr>fm_currentMode := NormalMode, fm_lastModeChange := now, fm_counters := zero_counters,
         fm_requestWindow := replicate (fc_SlidingWindowSize (fm_config fm)) zero_fm_result,
         fm_windowIndex := 0, fm_windowFull := False\<rparr>)"

section \<open>Concurrent calls\<close>

text \<open>
  The atomic steps of any number of concurrent calls: a call adds itself, and is then inside or
  about to take itself back; a call inside serves, records and leaves.  The state counts the
  calls inside and the calls about to give up.
\<close>

record fm_system =
  fs_fm :: fallback_manager
  fs_inside :: int
  fs_rejected :: int

datatype fm_event =
  FmAcquire | FmGiveUp | FmLeave
| FmServe bool time time fm_answers string FallbackMode
| FmRecord bool FallbackMode duration time
| FmEvaluate time | FmReset time

fun fm_step :: "fm_system \<Rightarrow> fm_event \<Rightarrow> fm_system" where
  "fm_step s FmAcquire =
     (case acquire (fs_fm s) of
        (fm, True) \<Rightarrow> s\<lparr>fs_fm := fm, fs_inside := fs_inside s + 1\<rparr>
      | (fm, False) \<Rightarrow> s\<lparr>fs_fm := fm, fs_rejected := fs_rejected s + 1\<rparr>)"
| "fm_step s FmGiveUp =
     (if fs_rejected s > 0 then s\<lparr>fs_fm := release (fs_fm s), fs_rejected := fs_rejected s - 1\<rparr> else s)"
| "fm_step s FmLeave =
     (if fs_inside s > 0 then s\<lparr>fs_fm := release (fs_fm s), fs_inside := fs_inside s - 1\<rparr> else s)"
| "fm_step s (FmServe coin now now2 answers request mode) =
     s\<lparr>fs_fm := fst (serve_request coin now now2 answers request mode (fs_fm s))\<rparr>"
| "fm_step s (FmRecord ok mode d now) = s\<lparr>fs_fm := recordResult ok mode d now (fs_fm s)\<rparr>"
| "fm_step s (FmEvaluate now) = s\<lparr>fs_fm := evaluateMode now (fs_fm s)\<rparr>"
| "fm_step s (FmReset now) = s\<lparr>fs_fm := Reset_fm now (fs_fm s)\<rparr>"

definition fm_start :: "time \<Rightarrow> fm_config \<Rightarrow> fm_system" where
  "fm_start now cfg = \<lparr>fs_fm = NewFallbackManager now cfg, fs_inside = 0, fs_rejected = 0\<rparr>"

lemma count_fields [simp]:
  "fm_config (count f fm) = fm_config fm" "fm_activeWorkers (count f fm) = fm_activeWorkers fm"
  "fm_requestWindow (count f fm) = fm_requestWindow fm" "fm_windowIndex (count f fm) = fm_windowIndex fm"
  "fm_windowFull (count f fm) = fm_windowFull fm" "fm_currentMode (count f fm) = fm_currentMode fm"
  "fm_cache (count f fm) = fm_cache fm" "fm_lastModeChange (count f fm) = fm_lastModeChange fm"
  by (simp_all add: count_def)

text \<open>What serving and evaluating leave alone.\<close>

definition fm_frame :: "fallback_manager \<Rightarrow> fallback_manager \<Rightarrow> bool" where
  "fm_frame fm fm' \<longleftrightarrow> fm_config fm' = fm_config fm \<and> fm_activeWorkers fm' = fm_activeWorkers fm \<and>
     fm_requestWindow fm' = fm_requestWindow fm \<and> fm_windowIndex fm' = fm_windowIndex fm \<and>
     fm_windowFull fm' = fm_windowFull fm"

lemma frame_getFromCache: "fm_frame fm (fst (getFromCache now r fm))"
  by (simp add: fm_frame_def getFromCache_def Let_def split: option.split)

lemma frame_normal: "fm_frame fm (fst (executeNormalMode now now2 a r fm))"
  using frame_getFromCache [of fm now r]
  by (auto simp: executeNormalMode_def fm_frame_def saveToCache_def Let_def split: prod.splits option.splits sum.splits)

lemma frame_fallback: "fm_frame fm (fst (executeFallbackMode a r fm))"
  by (simp add: executeFallbackMode_def fm_frame_def split: sum.split option.split)

lemma frame_serve: "fm_frame fm (fst (serve_request coin now now2 a r mode fm))"
proof -
  have n: "fm_frame fm (fst (executeNormalMode now now2 a r (count f fm)))" for f
    using frame_normal [of "count f fm" now now2 a r] by (simp add: fm_frame_def)
  have b: "fm_frame fm (fst (executeFallbackMode a r (count f fm)))" for f
    using frame_fallback [of "count f fm" a r] by (simp add: fm_frame_def)
  have c: "fm_frame fm x \<Longrightarrow> fm_frame fm (count g x)" for g x
    by (simp add: fm_frame_def)
  have cc: "count g (count f fm) = count (\<lambda>k. g (f k)) fm" for f g
    by (simp add: count_def)
  show ?thesis
    by (cases mode) (simp_all add: serve_request_def executeTransitionMode_def Let_def cc n b c case_prod_beta)
qed

lemma frame_evaluate: "fm_frame fm (evaluateMode now fm)"
  by (simp add: evaluateMode_def transitionTo_fm_def fm_frame_def Let_def split: FallbackMode.split)

lemma record_fields [simp]:
  "fm_config (recordResult ok m d now fm) = fm_config fm"
  "fm_activeWorkers (recordResult ok m d now fm) = fm_activeWorkers fm"
  by (simp_all add: recordResult_def Let_def)

lemma reset_fields [simp]:
  "fm_config (Reset_fm now fm) = fm_config fm"
  "fm_activeWorkers (Reset_fm now fm) = fm_activeWorkers fm"
  "fm_requestWindow (Reset_fm now fm) = replicate (fc_SlidingWindowSize (fm_config fm)) zero_fm_result"
  "fm_windowIndex (Reset_fm now fm) = 0" "\<not> fm_windowFull (Reset_fm now fm)"
  by (simp_all add: Reset_fm_def ClearCache_def)

lemma worker_fields [simp]:
  "fm_config (fst (acquire fm)) = fm_config fm" "fm_config (release fm) = fm_config fm"
  "fm_requestWindow (fst (acquire fm)) = fm_requestWindow fm" "fm_requestWindow (release fm) = fm_requestWindow fm"
  "fm_windowIndex (fst (acquire fm)) = fm_windowIndex fm" "fm_windowIndex (release fm) = fm_windowIndex fm"
  "fm_windowFull (fst (acquire fm)) = fm_windowFull fm" "fm_windowFull (release fm) = fm_windowFull fm"
  by (simp_all add: acquire_def release_def)

section \<open>The bound on concurrent calls\<close>

text \<open>An admitted call of \<open>Execute\<close> is this sequence of atomic steps.\<close>

lemma Execute_as_steps:
  assumes "\<not> fm_stopped fm" and "fm_activeWorkers fm < fc_MaxConcurrentWorkers (fm_config fm)"
  shows "fst (Execute_fm coin now now2 a (\<lambda>x. x) request fm) =
    fs_fm (foldl fm_step \<lparr>fs_fm = fm, fs_inside = 0, fs_rejected = 0\<rparr>
      [FmAcquire, FmServe coin now now2 a request (fm_currentMode fm),
       FmRecord (snd (snd (snd (serve_request coin now now2 a request (fm_currentMode fm) (fst (acquire fm))))))
         (fm_currentMode fm) (time_Sub now2 now) now2,
       FmLeave])"
  using assms by (simp add: Execute_fm_def acquire_def case_prod_beta)

definition worker_inv :: "int \<Rightarrow> fm_system \<Rightarrow> bool" where
  "worker_inv limit s \<longleftrightarrow> 0 \<le> fs_inside s \<and> 0 \<le> fs_rejected s \<and> fs_inside s \<le> max 0 limit \<and>
     fm_activeWorkers (fs_fm s) = fs_inside s + fs_rejected s \<and>
     fc_MaxConcurrentWorkers (fm_config (fs_fm s)) = limit"

lemma worker_inv_step: "worker_inv limit s \<Longrightarrow> worker_inv limit (fm_step s e)"
proof (induction s e rule: fm_step.induct)
  case (1 s)
  then show ?case
    by (cases "fm_activeWorkers (fs_fm s) + 1 \<le> fc_MaxConcurrentWorkers (fm_config (fs_fm s))")
      (auto simp: worker_inv_def acquire_def)
next
  case (2 s)
  then show ?case by (auto simp: worker_inv_def release_def)
next
  case (3 s)
  then show ?case by (auto simp: worker_inv_def release_def)
qed (simp_all add: worker_inv_def frame_serve [unfolded fm_frame_def] frame_evaluate [unfolded fm_frame_def])

lemma worker_inv_run: "worker_inv limit s \<Longrightarrow> worker_inv limit (foldl fm_step s es)"
  by (induction es arbitrary: s) (simp_all add: worker_inv_step)

text \<open>
  C10. Under any interleaving of concurrent calls, evaluations and resets, no more than
  \<open>MaxConcurrentWorkers\<close> calls are being served, the counter is the number of calls served or
  about to be refused, and the next call is refused exactly when that number has reached the
  limit.
\<close>

theorem fallback_worker_limit:
  "fs_inside (foldl fm_step (fm_start now cfg) es)
     \<le> max 0 (fc_MaxConcurrentWorkers (fm_config (NewFallbackManager now cfg))) \<and>
   fm_activeWorkers (fs_fm (foldl fm_step (fm_start now cfg) es)) =
     fs_inside (foldl fm_step (fm_start now cfg) es) + fs_rejected (foldl fm_step (fm_start now cfg) es) \<and>
   snd (acquire (fs_fm (foldl fm_step (fm_start now cfg) es))) =
     (fs_inside (foldl fm_step (fm_start now cfg) es) + fs_rejected (foldl fm_step (fm_start now cfg) es)
       < fc_MaxConcurrentWorkers (fm_config (NewFallbackManager now cfg)))"
proof -
  have "worker_inv (fc_MaxConcurrentWorkers (fm_config (NewFallbackManager now cfg))) (fm_start now cfg)"
    by (simp add: worker_inv_def fm_start_def) (simp add: NewFallbackManager_def Let_def)
  from worker_inv_run [OF this, of es] show ?thesis
    by (auto simp: worker_inv_def acquire_def)
qed

section \<open>The sliding window\<close>

definition fm_ring :: "fallback_manager \<Rightarrow> fm_result ring" where
  "fm_ring fm = (fm_requestWindow fm, fm_windowIndex fm, fm_windowFull fm)"

definition fm_recent :: "fallback_manager \<Rightarrow> fm_result list" where
  "fm_recent fm = ring_view (fm_ring fm)"

definition record_one :: "fm_result \<Rightarrow> fallback_manager \<Rightarrow> fallback_manager" where
  "record_one r = recordResult (fr_Success r) (fr_Mode r) (fr_Duration r) (fr_Timestamp r)"

lemma fm_ring_record: "fm_ring (record_one r fm) = ring_add r (fm_ring fm)"
  by (cases r) (simp add: record_one_def recordResult_def fm_ring_def Let_def)

interpretation fm_window: sliding_window "\<lambda>fm. ring_ok (fm_ring fm)"
  "\<lambda>fm. length (fm_requestWindow fm)" fm_recent record_one
proof (unfold_locales, goal_cases)
  case (1 fm r)
  then show ?case using ring.ok_add by (simp only: fm_ring_record)
next
  case (2 fm r)
  then show ?case by (simp add: record_one_def recordResult_def Let_def)
next
  case (3 fm r)
  then show ?case
    using ring.view_add [of "fm_ring fm" r] by (simp add: fm_recent_def fm_ring_record) (simp add: fm_ring_def)
qed

text \<open>The results recorded since the last reset.\<close>

fun recorded :: "fm_result list \<Rightarrow> fm_event \<Rightarrow> fm_result list" where
  "recorded rs (FmRecord ok mode d now) =
     rs @ [\<lparr>fr_Success = ok, fr_Mode = mode, fr_Timestamp = now, fr_Duration = d\<rparr>]"
| "recorded rs (FmReset _) = []"
| "recorded rs _ = rs"

definition window_inv :: "fm_config \<Rightarrow> fm_result list \<Rightarrow> fallback_manager \<Rightarrow> bool" where
  "window_inv cfg rs fm \<longleftrightarrow> ring_ok (fm_ring fm) \<and> fm_config fm = cfg \<and>
     length (fm_requestWindow fm) = fc_SlidingWindowSize cfg \<and>
     fm_recent fm = lastn (fc_SlidingWindowSize cfg) rs"

lemma window_inv_frame: "window_inv cfg rs fm \<Longrightarrow> fm_frame fm fm' \<Longrightarrow> window_inv cfg rs fm'"
  by (simp add: window_inv_def fm_frame_def fm_recent_def fm_ring_def)

lemma window_inv_record:
  "window_inv cfg rs fm \<Longrightarrow>
   window_inv cfg (rs @ [\<lparr>fr_Success = ok, fr_Mode = m, fr_Timestamp = now, fr_Duration = d\<rparr>])
     (recordResult ok m d now fm)"
  using fm_window.ok_add [of fm "\<lparr>fr_Success = ok, fr_Mode = m, fr_Timestamp = now, fr_Duration = d\<rparr>"]
    fm_window.view_add [of fm "\<lparr>fr_Success = ok, fr_Mode = m, fr_Timestamp = now, fr_Duration = d\<rparr>"]
    fm_window.capacity_add [of fm "\<lparr>fr_Success = ok, fr_Mode = m, fr_Timestamp = now, fr_Duration = d\<rparr>"]
  by (simp add: window_inv_def record_one_def lastn_lastn)

lemma window_inv_empty:
  "fm_config fm = cfg \<Longrightarrow> fm_requestWindow fm = replicate (fc_SlidingWindowSize cfg) zero_fm_result \<Longrightarrow>
   0 < fc_SlidingWindowSize cfg \<Longrightarrow> fm_windowIndex fm = 0 \<Longrightarrow> \<not> fm_windowFull fm \<Longrightarrow> window_inv cfg [] fm"
  by (simp add: window_inv_def fm_recent_def fm_ring_def lastn_def)

lemma window_inv_step:
  assumes "window_inv cfg rs (fs_fm s)"
  shows "window_inv cfg (recorded rs e) (fs_fm (fm_step s e))"
proof -
  have pos: "0 < fc_SlidingWindowSize cfg"
    using assms by (auto simp: window_inv_def fm_ring_def)
  have worker: "window_inv cfg rs (fst (acquire fm))" "window_inv cfg rs (release fm)"
    if "window_inv cfg rs fm" for fm
    using that by (simp_all add: window_inv_def fm_recent_def fm_ring_def)
  show ?thesis
  proof (cases e)
    case FmAcquire
    then show ?thesis using worker(1) [OF assms] by (auto split: prod.splits bool.splits)
  next
    case FmGiveUp
    then show ?thesis using worker(2) [OF assms] assms by simp
  next
    case FmLeave
    then show ?thesis using worker(2) [OF assms] assms by simp
  next
    case (FmServe coin now now2 a r m)
    then show ?thesis using window_inv_frame [OF assms frame_serve] by simp
  next
    case (FmRecord ok m d now)
    then show ?thesis using window_inv_record [OF assms] by simp
  next
    case (FmEvaluate now)
    then show ?thesis using window_inv_frame [OF assms frame_evaluate] by simp
  next
    case (FmReset now)
    have "fm_config (fs_fm s) = cfg" using assms by (simp add: window_inv_def)
    then show ?thesis using FmReset pos by (auto intro: window_inv_empty)
  qed
qed

lemma window_inv_run:
  "window_inv cfg rs (fs_fm s) \<Longrightarrow>
   window_inv cfg (foldl recorded rs es) (fs_fm (foldl fm_step s es))"
proof (induction es arbitrary: rs s)
  case Nil
  then show ?case by simp
next
  case (Cons e es)
  then show ?case using Cons.IH [OF window_inv_step] by simp
qed

lemma window_inv_decision:
  assumes "window_inv cfg rs fm"
  shows "getEffectiveWindowSize_fm fm = length (lastn (fc_SlidingWindowSize cfg) rs)"
    and "calculateCurrentErrorRate fm =
      real (length (filter (\<lambda>r. \<not> fr_Success r) (lastn (fc_SlidingWindowSize cfg) rs))) /
      real (length (lastn (fc_SlidingWindowSize cfg) rs))"
proof -
  have w: "ring_ok (fm_ring fm)" and r: "lastn (fc_SlidingWindowSize cfg) rs = fm_recent fm"
    using assms by (simp_all add: window_inv_def)
  have s: "getEffectiveWindowSize_fm fm = ring_size (fm_ring fm)"
    by (simp add: getEffectiveWindowSize_fm_def fm_ring_def)
  show size: "getEffectiveWindowSize_fm fm = length (lastn (fc_SlidingWindowSize cfg) rs)"
    using length_ring_view [OF w] by (simp add: s r fm_recent_def)
  have "fst (fm_ring fm) = fm_requestWindow fm" by (simp add: fm_ring_def)
  with count_slots_ring [OF w, of "\<lambda>r. \<not> fr_Success r"]
  show "calculateCurrentErrorRate fm =
      real (length (filter (\<lambda>r. \<not> fr_Success r) (lastn (fc_SlidingWindowSize cfg) rs))) /
      real (length (lastn (fc_SlidingWindowSize cfg) rs))"
    using size by (simp add: calculateCurrentErrorRate_def s r Let_def fm_recent_def)
qed

text \<open>What the evaluation promises, over the most recent results.\<close>

definition mode_decision :: "fm_config \<Rightarrow> FallbackMode \<Rightarrow> duration \<Rightarrow> fm_result list \<Rightarrow> FallbackMode" where
  "mode_decision cfg mode elapsed rs =
    (let rate = real (length (filter (\<lambda>r. \<not> fr_Success r) rs)) / real (length rs);
         healthy = (rate \<le> fc_RecoveryThreshold cfg)
     in if int (length rs) < fc_MinimumRequestCount cfg then mode
        else (case mode of
            NormalMode \<Rightarrow> if rate \<ge> fc_ErrorRateThreshold cfg then FallbackActive else NormalMode
          | FallbackActive \<Rightarrow> if healthy then TransitionMode else FallbackActive
          | TransitionMode \<Rightarrow> if elapsed < fc_TransitionDuration cfg then TransitionMode
                              else if healthy then NormalMode else FallbackActive))"

text \<open>
  C9. The evaluation refines a decision on the list of results: after any interleaving of
  concurrent calls, evaluations and resets, the mode it selects is the one decided on the last
  \<open>SlidingWindowSize\<close> results recorded since the last reset.
\<close>

theorem fallback_evaluation_refines:
  "fm_currentMode (evaluateMode now (fs_fm (foldl fm_step (fm_start now0 cfg) es))) =
   mode_decision (fm_config (NewFallbackManager now0 cfg))
     (fm_currentMode (fs_fm (foldl fm_step (fm_start now0 cfg) es)))
     (time_Sub now (fm_lastModeChange (fs_fm (foldl fm_step (fm_start now0 cfg) es))))
     (lastn (fc_SlidingWindowSize (fm_config (NewFallbackManager now0 cfg))) (foldl recorded [] es))"
proof -
  define c where "c = fm_config (NewFallbackManager now0 cfg)"
  define fm where "fm = fs_fm (foldl fm_step (fm_start now0 cfg) es)"
  have "window_inv c [] (fs_fm (fm_start now0 cfg))"
    by (rule window_inv_empty) (simp_all add: c_def fm_start_def NewFallbackManager_def Let_def)
  from window_inv_run [OF this, of es] have w: "window_inv c (foldl recorded [] es) fm"
    by (simp add: fm_def)
  then have "fm_config fm = c" by (simp add: window_inv_def)
  then have "fm_currentMode (evaluateMode now fm) =
      mode_decision c (fm_currentMode fm) (time_Sub now (fm_lastModeChange fm))
        (lastn (fc_SlidingWindowSize c) (foldl recorded [] es))"
    by (cases "fm_currentMode fm")
      (simp_all add: evaluateMode_def mode_decision_def transitionTo_fm_def Let_def window_inv_decision [OF w] not_le)
  then show ?thesis by (simp add: c_def fm_def)
qed

section \<open>The cache\<close>

lemma generateCacheKey_eq [simp]: "generateCacheKey r = generateCacheKey r' \<longleftrightarrow> r = r'"
  by (simp add: generateCacheKey_def)

text \<open>The entry of a request is fresh up to the instant \<open>until\<close>.\<close>

definition fresh_entry :: "string \<Rightarrow> string \<Rightarrow> time \<Rightarrow> fallback_manager \<Rightarrow> bool" where
  "fresh_entry request data until fm \<longleftrightarrow>
     (\<exists>entry. fm_cache fm (generateCacheKey request) = Some entry \<and> ce_Data entry = data \<and>
        0 \<le> ce_TTL entry \<and> ce_TTL entry < max_int64 \<and> ce_Timestamp entry + ce_TTL entry = until)"

lemma fresh_entry_count [simp]: "fresh_entry request data until (count f fm) = fresh_entry request data until fm"
  by (simp add: fresh_entry_def)

lemma fresh_entry_get:
  "fresh_entry request data until fm \<Longrightarrow> now \<le> until \<Longrightarrow> getFromCache now request fm = (fm, Some data)"
  using time_Sub_gt_iff by (fastforce simp: fresh_entry_def getFromCache_def Let_def)

lemma fresh_entry_hit:
  assumes "fresh_entry request data until fm" and "now \<le> until"
  shows "executeNormalMode now now2 a request fm =
    (count (\<lambda>k. k\<lparr>fk_cacheHits := fk_cacheHits k + 1\<rparr>) fm, Some data, None, True)"
  by (simp add: executeNormalMode_def fresh_entry_get [OF assms])

lemma fresh_entry_normal:
  assumes "fresh_entry request data until fm" and "now \<le> until"
  shows "fresh_entry request data until (fst (executeNormalMode now now2 a r fm))"
proof (cases "r = request")
  case True
  then show ?thesis using fresh_entry_hit [OF assms] assms(1) by simp
next
  case False
  have "fm_cache (fst (executeNormalMode now now2 a r fm)) (generateCacheKey request) =
      fm_cache fm (generateCacheKey request)"
    using False
    by (simp add: executeNormalMode_def getFromCache_def saveToCache_def Let_def
        split: option.split sum.split)
  then show ?thesis using assms(1) by (simp add: fresh_entry_def)
qed

lemma fresh_entry_fallback:
  "fresh_entry request data until fm \<Longrightarrow> fresh_entry request data until (fst (executeFallbackMode a r fm))"
  by (simp add: executeFallbackMode_def split: sum.split option.split)

lemma fresh_entry_serve:
  "fresh_entry request data until fm \<Longrightarrow> now \<le> until \<Longrightarrow>
   fresh_entry request data until (fst (serve_request coin now now2 a r mode fm))"
  by (cases mode) (simp_all add: serve_request_def executeTransitionMode_def Let_def case_prod_beta
      fresh_entry_normal fresh_entry_fallback)

text \<open>Further calls, each with its coin, instants, answers, request and mode.\<close>

type_synonym fm_call = "bool \<times> time \<times> time \<times> fm_answers \<times> string \<times> FallbackMode"

fun serve_call :: "fallback_manager \<Rightarrow> fm_call \<Rightarrow> fallback_manager" where
  "serve_call fm (coin, now, now2, a, r, mode) = fst (serve_request coin now now2 a r mode fm)"

lemma fresh_entry_calls:
  "fresh_entry request data until fm \<Longrightarrow> list_all (\<lambda>(_, now, _). now \<le> until) calls \<Longrightarrow>
   fresh_entry request data until (foldl serve_call fm calls)"
  by (induction calls arbitrary: fm) (auto simp: fresh_entry_serve)

lemma fresh_entry_saved:
  assumes "fm_cache fm (generateCacheKey request) = None" and "fa_service a = Inr data"
  shows "fresh_entry request data (now2 + 5 * Minute) (fst (executeNormalMode now now2 a request fm))"
  using assms
  by (simp add: executeNormalMode_def getFromCache_def saveToCache_def fresh_entry_def Let_def Minute_def Second_def)

text \<open>
  What the service answered to a request that was not cached is what a normal-mode call for
  that request returns for the next five minutes, whatever other calls (of any request, in any
  mode, with any answers) are served in between and whatever the service would say now.
\<close>

theorem fallback_cache_roundtrip:
  assumes "fm_cache fm (generateCacheKey request) = None" and "fa_service a = Inr data"
    and "list_all (\<lambda>(_, t, _). t \<le> now2 + 5 * Minute) calls" and "later \<le> now2 + 5 * Minute"
  shows "snd (executeNormalMode later later2 a' request
      (foldl serve_call (fst (executeNormalMode now now2 a request fm)) calls)) = (Some data, None, True)"
  using fresh_entry_hit [OF fresh_entry_calls [OF fresh_entry_saved [OF assms(1,2)] assms(3)] assms(4)]
  by simp

definition sample_config :: fm_config where
  "sample_config = \<lparr>fc_ErrorRateThreshold = 0, fc_RecoveryThreshold = 0, fc_MinimumRequestCount = 0,
     fc_SlidingWindowSize = 4, fc_EvaluationInterval = 0, fc_TransitionDuration = 0,
     fc_MaxConcurrentWorkers = 0\<rparr>"

definition sample_up :: fm_answers where
  "sample_up = \<lparr>fa_service = Inr ''data'', fa_canProvide = True, fa_fallback = Inr ''stale''\<rparr>"

definition sample_down :: fm_answers where
  "sample_down = \<lparr>fa_service = Inl (ServiceError 1), fa_canProvide = True, fa_fallback = Inr ''stale''\<rparr>"

theorem fallback_cache_roundtrip_witness:
  "snd (executeNormalMode 250 251 sample_down ''q''
      (foldl serve_call (fst (executeNormalMode 100 105 sample_up ''q'' (NewFallbackManager 0 sample_config)))
        [(True, 110, 120, sample_down, ''r'', NormalMode), (False, 130, 140, sample_up, ''q'', FallbackActive)]))
    = (Some ''data'', None, True)"
  by (rule fallback_cache_roundtrip)
    (simp_all add: NewFallbackManager_def sample_up_def Let_def Minute_def Second_def)

end
