(* ===== verification/LoadBalancer.thy ===== *)
theory LoadBalancer
  imports Prelude
begin

text \<open>
  The adaptive load balancer of chapter 3,
  \<^verbatim>\<open>03_fan-out_fan-in_and_context_control/ans_02/adaptive_load_balancer.go\<close>: the nodes and
  their health, the five selection strategies, the fan-out to the selected nodes and the fan-in
  of their results, the statistics and the adaptation of strategy and fan-out factor.

  Nodes are shared by pointer: the balancer's map, the attempts in flight and the health checks
  hold addresses into the store \<open>lb_store\<close>, so that a removed node that is still working, or
  one replaced under the same identifier, is the object the code works on.  The order in which Go
  ranges over the map is the argument \<open>order\<close>; since it is arbitrary, the order in which
  \<^verbatim>\<open>slices.SortFunc\<close> leaves equal elements is too, and the stable sort below produces every
  outcome of the source's.  Random draws and the answers of the nodes are arguments.  A selection
  that panics (a draw below zero, a slice with a negative bound) is \<open>None\<close>.
\<close>

section \<open>State\<close>

datatype NodeHealth = HealthUnknown | HealthHealthy | HealthDegraded | HealthUnhealthy

datatype LoadBalancingStrategy =
  StrategyRoundRobin | StrategyWeightedRoundRobin | StrategyLeastConnections
| StrategyLeastResponseTime | StrategyAdaptive

record lb_node =
  ln_ID :: string
  ln_Weight :: int
  ln_CurrentLoad :: int
  ln_MaxCapacity :: int
  ln_Health :: NodeHealth
  ln_ResponseTime :: duration
  ln_SuccessRate :: real
  ln_LastHealthCheck :: time

record request_task =
  rt_ID :: int
  rt_Priority :: int
  rt_Timeout :: duration
  rt_RequiredNodes :: int
  rt_SubmittedAt :: time

datatype node_error = NoAvailableNodes | ProcessingError string | ContextError

record processing_result =
  qr_TaskID :: int
  qr_NodeID :: string
  qr_Success :: bool
  qr_Error :: "node_error option"
  qr_ProcessTime :: duration
  qr_QueueTime :: duration
  qr_CompletedAt :: time

record node_stats =
  ns_RequestsHandled :: int
  ns_SuccessfulReqs :: int
  ns_ErrorReqs :: int
  ns_TotalResponseTime :: duration
  ns_AvgResponseTime :: duration
  ns_CurrentLoad :: int
  ns_HealthStatus :: NodeHealth

record lb_config =
  bc_FanOutFactor :: int
  bc_QueueSize :: nat
  bc_Strategy :: LoadBalancingStrategy

type_synonym addr = nat

record balancer =
  lb_store :: "addr \<Rightarrow> lb_node"
  lb_nodes :: "string \<rightharpoonup> addr"
  lb_nodeStats :: "string \<rightharpoonup> node_stats"
  lb_strategy :: LoadBalancingStrategy
  lb_fanOutFactor :: int
  lb_queueSize :: nat
  lb_requestQueue :: "request_task list"
  lb_resultQueue :: "processing_result list"
  lb_totalRequests :: int
  lb_totalSuccessful :: int
  lb_totalErrors :: int
  lb_totalFanOutRequests :: int
  lb_averageResponseTime :: duration
  lb_isRunning :: bool
  lb_cancelled :: bool

definition NewLoadBalancerConfig :: lb_config where
  "NewLoadBalancerConfig = \<lparr>bc_FanOutFactor = 3, bc_QueueSize = 5000, bc_Strategy = StrategyAdaptive\<rparr>"

definition NewAdaptiveLoadBalancer :: "(addr \<Rightarrow> lb_node) \<Rightarrow> lb_config \<Rightarrow> balancer" where
  "NewAdaptiveLoadBalancer store config =
     \<lparr>lb_store = store, lb_nodes = Map.empty, lb_nodeStats = Map.empty, lb_strategy = bc_Strategy config,
      lb_fanOutFactor = bc_FanOutFactor config, lb_queueSize = bc_QueueSize config,
      lb_requestQueue = [], lb_resultQueue = [], lb_totalRequests = 0, lb_totalSuccessful = 0,
      lb_totalErrors = 0, lb_totalFanOutRequests = 0, lb_averageResponseTime = 0,
      lb_isRunning = False, lb_cancelled = False\<rparr>"

definition zero_node_stats :: node_stats where
  "zero_node_stats = \<lparr>ns_RequestsHandled = 0, ns_SuccessfulReqs = 0, ns_ErrorReqs = 0,
     ns_TotalResponseTime = 0, ns_AvgResponseTime = 0, ns_CurrentLoad = 0, ns_HealthStatus = HealthUnknown\<rparr>"

definition AddNode :: "addr \<Rightarrow> balancer \<Rightarrow> balancer" where
  "AddNode a b =
    (let key = ln_ID (lb_store b a)
     in b\<lparr>lb_nodes := (lb_nodes b)(key \<mapsto> a),
          lb_nodeStats := (lb_nodeStats b)(key \<mapsto> zero_node_stats\<lparr>ns_HealthStatus := HealthHealthy\<rparr>)\<rparr>)"

definition RemoveNode :: "string \<Rightarrow> balancer \<Rightarrow> balancer" where
  "RemoveNode key b =
     b\<lparr>lb_nodes := (lb_nodes b)(key := None), lb_nodeStats := (lb_nodeStats b)(key := None)\<rparr>"

definition Start_lb :: "balancer \<Rightarrow> balancer \<times> bool" where
  "Start_lb b = (if lb_isRunning b then (b, False) else (b\<lparr>lb_isRunning := True\<rparr>, True))"

text \<open>Up to the cancellation of the context; the joining of the goroutines is left out.\<close>

definition Shutdown_lb :: "balancer \<Rightarrow> balancer \<times> bool" where
  "Shutdown_lb b =
     (if \<not> lb_isRunning b then (b, False) else (b\<lparr>lb_isRunning := False, lb_cancelled := True\<rparr>, True))"

section \<open>Selection\<close>

definition calculateAdaptiveScore :: "lb_node \<Rightarrow> request_task \<Rightarrow> real" where
  "calculateAdaptiveScore node request =
    (let loadRate = of_int (ln_CurrentLoad node) / of_int (ln_MaxCapacity node);
         loadScore = 1 - loadRate;
         responseScore = 1 / (1 + of_int (ln_ResponseTime node) / of_int Second);
         successScore = ln_SuccessRate node;
         weightScore = of_int (ln_Weight node) / 10;
         healthScore = (case ln_Health node of
             HealthHealthy \<Rightarrow> 1 | HealthDegraded \<Rightarrow> 7/10 | HealthUnhealthy \<Rightarrow> 3/10 | HealthUnknown \<Rightarrow> 5/10);
         priorityMultiplier = 1 + of_int (rt_Priority request) * (1/10)
     in (loadScore * (3/10) + responseScore * (2/10) + successScore * (2/10) + weightScore * (1/10)
          + healthScore * (2/10)) * priorityMultiplier)"

definition selectRoundRobin :: "addr list \<Rightarrow> balancer \<Rightarrow> balancer \<times> addr list" where
  "selectRoundRobin nodes b =
     (if nodes = [] then (b, [])
      else (let n = lb_totalRequests b + 1
            in (b\<lparr>lb_totalRequests := n\<rparr>, [nodes ! nat (go_mod n (int (length nodes)))])))"

text \<open>The loop over the cumulative weights.\<close>

fun weighted_pick :: "(addr \<Rightarrow> int) \<Rightarrow> int \<Rightarrow> int \<Rightarrow> addr list \<Rightarrow> addr option" where
  "weighted_pick weight target cumulative [] = None"
| "weighted_pick weight target cumulative (a # as) =
     (if cumulative + weight a > target then Some a
      else weighted_pick weight target (cumulative + weight a) as)"

text \<open>\<open>draw n\<close> is \<^verbatim>\<open>rand.IntN(n)\<close>, which panics unless \<open>n\<close> is positive.\<close>

definition selectWeightedRoundRobin ::
  "(int \<Rightarrow> int) \<Rightarrow> addr list \<Rightarrow> balancer \<Rightarrow> (balancer \<times> addr list) option" where
  "selectWeightedRoundRobin draw nodes b =
     (if nodes = [] then Some (b, [])
      else (let totalWeight = sum_list (map (\<lambda>a. ln_Weight (lb_store b a)) nodes)
            in if totalWeight = 0 then Some (selectRoundRobin nodes b)
               else if totalWeight < 0 then None
               else (case weighted_pick (\<lambda>a. ln_Weight (lb_store b a)) (draw totalWeight) 0 nodes of
                       Some a \<Rightarrow> Some (b, [a])
                     | None \<Rightarrow> Some (b, [nodes ! 0]))))"

definition selectLeastConnections :: "addr list \<Rightarrow> balancer \<Rightarrow> addr list" where
  "selectLeastConnections nodes b =
     (if nodes = [] then [] else [sort_key (\<lambda>a. ln_CurrentLoad (lb_store b a)) nodes ! 0])"

definition selectLeastResponseTime :: "addr list \<Rightarrow> balancer \<Rightarrow> addr list" where
  "selectLeastResponseTime nodes b =
     (if nodes = [] then [] else [sort_key (\<lambda>a. ln_ResponseTime (lb_store b a)) nodes ! 0])"

definition selectAdaptive :: "addr list \<Rightarrow> request_task \<Rightarrow> balancer \<Rightarrow> addr list option" where
  "selectAdaptive nodes request b =
     (if nodes = [] then Some []
      else (let scores = sort_key (\<lambda>a. - calculateAdaptiveScore (lb_store b a) request) nodes;
                topCount = min (int (length scores)) (lb_fanOutFactor b)
            in if topCount < 0 then None else Some (take (nat topCount) scores)))"

definition selectByStrategy ::
  "(int \<Rightarrow> int) \<Rightarrow> addr list \<Rightarrow> request_task \<Rightarrow> balancer \<Rightarrow> (balancer \<times> addr list) option" where
  "selectByStrategy draw nodes request b =
     (case lb_strategy b of
        StrategyRoundRobin \<Rightarrow> Some (selectRoundRobin nodes b)
      | StrategyWeightedRoundRobin \<Rightarrow> selectWeightedRoundRobin draw nodes b
      | StrategyLeastConnections \<Rightarrow> Some (b, selectLeastConnections nodes b)
      | StrategyLeastResponseTime \<Rightarrow> Some (b, selectLeastResponseTime nodes b)
      | StrategyAdaptive \<Rightarrow> map_option (\<lambda>sel. (b, sel)) (selectAdaptive nodes request b))"

definition is_available :: "lb_node \<Rightarrow> bool" where
  "is_available node \<longleftrightarrow> (ln_Health node = HealthHealthy \<or> ln_Health node = HealthDegraded) \<and>
     ln_CurrentLoad node < ln_MaxCapacity node"

definition fanOutCount :: "request_task \<Rightarrow> balancer \<Rightarrow> int" where
  "fanOutCount request b =
     (if rt_RequiredNodes request > 0 \<and> rt_RequiredNodes request < lb_fanOutFactor b
      then rt_RequiredNodes request else lb_fanOutFactor b)"

definition selectNodes ::
  "addr list \<Rightarrow> (int \<Rightarrow> int) \<Rightarrow> request_task \<Rightarrow> balancer \<Rightarrow> (balancer \<times> addr list) option" where
  "selectNodes order draw request b =
    (let availableNodes = filter (\<lambda>a. is_available (lb_store b a)) order
     in if availableNodes = [] then Some (b, [])
        else (case selectByStrategy draw availableNodes request b of
                None \<Rightarrow> None
              | Some (b1, selected) \<Rightarrow>
                  (let n = fanOutCount request b1
                   in if int (length selected) > n \<and> n < 0 then None
                      else (let sel = (if int (length selected) > n then take (nat n) selected else selected)
                            in Some (b1\<lparr>lb_totalFanOutRequests := lb_totalFanOutRequests b1 + int (length sel)\<rparr>, sel)))))"

section \<open>Processing\<close>

definition upd_node :: "addr \<Rightarrow> (lb_node \<Rightarrow> lb_node) \<Rightarrow> balancer \<Rightarrow> balancer" where
  "upd_node a f b = b\<lparr>lb_store := (lb_store b)(a := f (lb_store b a))\<rparr>"

definition record_outcome :: "bool \<Rightarrow> duration \<Rightarrow> int \<Rightarrow> node_stats \<Rightarrow> node_stats" where
  "record_outcome success responseTime load st0 =
    (let handled = ns_RequestsHandled st0 + 1;
         total = ns_TotalResponseTime st0 + responseTime;
         st1 = st0\<lparr>ns_RequestsHandled := handled, ns_TotalResponseTime := total,
                   ns_AvgResponseTime := go_div total handled, ns_CurrentLoad := load\<rparr>
     in if success then st1\<lparr>ns_SuccessfulReqs := ns_SuccessfulReqs st1 + 1\<rparr>
        else st1\<lparr>ns_ErrorReqs := ns_ErrorReqs st1 + 1\<rparr>)"

definition updateNodeStats :: "string \<Rightarrow> bool \<Rightarrow> duration \<Rightarrow> balancer \<Rightarrow> balancer" where
  "updateNodeStats nodeID success responseTime b =
     (case lb_nodeStats b nodeID of
        None \<Rightarrow> b
      | Some st0 \<Rightarrow>
          (let st2 = record_outcome success responseTime (case lb_nodes b nodeID of
                       Some a \<Rightarrow> ln_CurrentLoad (lb_store b a) | None \<Rightarrow> ns_CurrentLoad st0) st0;
               b1 = b\<lparr>lb_nodeStats := (lb_nodeStats b)(nodeID \<mapsto> st2)\<rparr>
           in case lb_nodes b nodeID of
                None \<Rightarrow> b1
              | Some a \<Rightarrow>
                  upd_node a (\<lambda>n. n\<lparr>ln_SuccessRate := of_int (ns_SuccessfulReqs st2) / of_int (ns_RequestsHandled st2),
                                   ln_ResponseTime := ns_AvgResponseTime st2\<rparr>) b1))"

text \<open>The two halves of \<^verbatim>\<open>processOnNode\<close>, before and after the node's work.\<close>

definition begin_on_node :: "addr \<Rightarrow> balancer \<Rightarrow> balancer" where
  "begin_on_node a = upd_node a (\<lambda>n. n\<lparr>ln_CurrentLoad := ln_CurrentLoad n + 1\<rparr>)"

definition end_on_node :: "addr \<Rightarrow> bool \<Rightarrow> duration \<Rightarrow> balancer \<Rightarrow> balancer" where
  "end_on_node a success nodeProcessTime b =
     upd_node a (\<lambda>n. n\<lparr>ln_CurrentLoad := ln_CurrentLoad n - 1\<rparr>)
       (updateNodeStats (ln_ID (lb_store b a)) success nodeProcessTime b)"

text \<open>
  The loop over the result channel: the first success ends it; otherwise the first result that
  arrived is the answer.  A result arrives unless its sender sees the context's end instead.
\<close>

fun fan_in :: "processing_result list \<Rightarrow> processing_result list \<Rightarrow> processing_result option" where
  "fan_in results [] = (case results of [] \<Rightarrow> None | r # _ \<Rightarrow> Some r)"
| "fan_in results (r # rs) = (if qr_Success r then Some r else fan_in (results @ [r]) rs)"

definition send_result :: "processing_result \<Rightarrow> balancer \<Rightarrow> balancer" where
  "send_result r b = (if lb_cancelled b then b else b\<lparr>lb_resultQueue := lb_resultQueue b @ [r]\<rparr>)"

text \<open>
  \<^verbatim>\<open>processRequest\<close>: \<open>work\<close> is what the selected nodes and the other goroutines do until the
  last result has been received, \<open>arrivals\<close> what arrives on the result channel, in order.
\<close>

definition processRequest ::
  "addr list \<Rightarrow> (int \<Rightarrow> int) \<Rightarrow> time \<Rightarrow> (addr list \<Rightarrow> balancer \<Rightarrow> balancer) \<Rightarrow>
   (addr list \<Rightarrow> processing_result list) \<Rightarrow> request_task \<Rightarrow> balancer \<Rightarrow> balancer option" where
  "processRequest order draw now work arrivals request b =
     (case selectNodes order draw request b of
        None \<Rightarrow> None
      | Some (b1, selected) \<Rightarrow>
          (if selected = []
           then Some (send_result \<lparr>qr_TaskID = rt_ID request, qr_NodeID = [], qr_Success = False,
                  qr_Error = Some NoAvailableNodes, qr_ProcessTime = 0,
                  qr_QueueTime = time_Sub now (rt_SubmittedAt request), qr_CompletedAt = now\<rparr> b1)
           else (case fan_in [] (arrivals selected) of
                   Some r \<Rightarrow> Some (send_result r (work selected b1))
                 | None \<Rightarrow> Some (work selected b1))))"

datatype submit_error = LbNotRunning | LbShuttingDown | LbQueueFull

definition SubmitRequest :: "time \<Rightarrow> request_task \<Rightarrow> balancer \<Rightarrow> balancer \<times> submit_error option" where
  "SubmitRequest now request b =
     (if \<not> lb_isRunning b then (b, Some LbNotRunning)
      else if lb_cancelled b then (b, Some LbShuttingDown)
      else (let request = request\<lparr>rt_SubmittedAt := (if rt_SubmittedAt request = 0 then now else rt_SubmittedAt request),
                                  rt_Timeout := (if rt_Timeout request = 0 then 30 * Second else rt_Timeout request)\<rparr>
            in if length (lb_requestQueue b) < lb_queueSize b
               then (b\<lparr>lb_requestQueue := lb_requestQueue b @ [request],
                       lb_totalRequests := lb_totalRequests b + 1\<rparr>, None)
               else (b, Some LbQueueFull)))"

definition handle_result :: "processing_result \<Rightarrow> balancer \<Rightarrow> balancer" where
  "handle_result result b =
    (let b1 = (if qr_Success result then b\<lparr>lb_totalSuccessful := lb_totalSuccessful b + 1\<rparr>
               else b\<lparr>lb_totalErrors := lb_totalErrors b + 1\<rparr>);
         completed = lb_totalSuccessful b1 + lb_totalErrors b1
     in if completed > 0
        then b1\<lparr>lb_averageResponseTime :=
               go_div (lb_averageResponseTime b1 * completed + qr_ProcessTime result) (completed + 1)\<rparr>
        else b1)"

section \<open>Health and adaptation\<close>

definition next_health :: "bool \<Rightarrow> NodeHealth \<Rightarrow> NodeHealth" where
  "next_health healthy h =
     (if healthy
      then (case h of HealthUnhealthy \<Rightarrow> HealthDegraded | HealthDegraded \<Rightarrow> HealthHealthy | _ \<Rightarrow> h)
      else (case h of HealthHealthy \<Rightarrow> HealthDegraded | HealthDegraded \<Rightarrow> HealthUnhealthy | _ \<Rightarrow> h))"

definition updateNodeHealth :: "addr \<Rightarrow> bool \<Rightarrow> balancer \<Rightarrow> balancer" where
  "updateNodeHealth a healthy b0 =
    (let b = upd_node a (\<lambda>n. n\<lparr>ln_Health := next_health healthy (ln_Health n)\<rparr>) b0;
         key = ln_ID (lb_store b a)
     in case lb_nodeStats b key of
          None \<Rightarrow> b
        | Some st \<Rightarrow> b\<lparr>lb_nodeStats := (lb_nodeStats b)(key \<mapsto> st\<lparr>ns_HealthStatus := ln_Health (lb_store b a)\<rparr>)\<rparr>)"

definition checkNodeHealth :: "addr \<Rightarrow> bool \<Rightarrow> time \<Rightarrow> balancer \<Rightarrow> balancer" where
  "checkNodeHealth a healthy now b = upd_node a (\<lambda>n. n\<lparr>ln_LastHealthCheck := now\<rparr>) (updateNodeHealth a healthy b)"

definition health_count :: "NodeHealth \<Rightarrow> addr list \<Rightarrow> balancer \<Rightarrow> int" where
  "health_count h order b = int (length (filter (\<lambda>a. ln_Health (lb_store b a) = h) order))"

definition selectBetterStrategy :: "addr list \<Rightarrow> balancer \<Rightarrow> LoadBalancingStrategy" where
  "selectBetterStrategy order b =
    (let healthyNodes = health_count HealthHealthy order b;
         degradedNodes = health_count HealthDegraded order b;
         unhealthyNodes = health_count HealthUnhealthy order b;
         totalNodes = healthyNodes + degradedNodes + unhealthyNodes
     in if (of_int unhealthyNodes / of_int totalNodes :: real) > 3/10 then StrategyLeastConnections
        else if degradedNodes > healthyNodes then StrategyLeastResponseTime
        else StrategyAdaptive)"

definition adaptToSystemLoad :: "addr list \<Rightarrow> balancer \<Rightarrow> balancer" where
  "adaptToSystemLoad order b =
    (let totalCapacity = sum_list (map (\<lambda>a. ln_MaxCapacity (lb_store b a)) order);
         totalCurrentLoad = sum_list (map (\<lambda>a. ln_CurrentLoad (lb_store b a)) order);
         loadRate = (of_int totalCurrentLoad / of_int totalCapacity :: real)
     in if totalCapacity = 0 then b
        else if loadRate > 8/10
        then (if lb_fanOutFactor b > 1 then b\<lparr>lb_fanOutFactor := lb_fanOutFactor b - 1\<rparr> else b)
        else if loadRate < 3/10
        then (if lb_fanOutFactor b < 5 then b\<lparr>lb_fanOutFactor := lb_fanOutFactor b + 1\<rparr> else b)
        else b)"

definition evaluateAndAdaptStrategy :: "addr list \<Rightarrow> balancer \<Rightarrow> balancer" where
  "evaluateAndAdaptStrategy order b =
     (if lb_totalRequests b < 100 then b
      else (let errorRate = (of_int (lb_totalErrors b) / of_int (lb_totalRequests b) :: real);
                b1 = (if errorRate > 2/10 then b\<lparr>lb_strategy := selectBetterStrategy order b\<rparr> else b)
            in adaptToSystemLoad order b1))"

section \<open>What the strategies choose\<close>

text \<open>\<open>order\<close> is a range over the map of nodes; \<open>draw\<close> is a random number generator.\<close>

definition ranges :: "addr list \<Rightarrow> balancer \<Rightarrow> bool" where
  "ranges order b \<longleftrightarrow> distinct order \<and> set order = ran (lb_nodes b)"

definition draw_ok :: "(int \<Rightarrow> int) \<Rightarrow> bool" where
  "draw_ok draw \<longleftrightarrow> (\<forall>n>0. 0 \<le> draw n \<and> draw n < n)"

text \<open>The candidate whose turn it is: the one at the position of the advanced counter modulo their number.\<close>

definition in_turn :: "addr list \<Rightarrow> balancer \<Rightarrow> addr" where
  "in_turn nodes b = nodes ! nat ((lb_totalRequests b + 1) mod int (length nodes))"

definition weightless :: "addr list \<Rightarrow> balancer \<Rightarrow> bool" where
  "weightless nodes b \<longleftrightarrow> (\<forall>c \<in> set nodes. ln_Weight (lb_store b c) = 0)"

text \<open>The choice each strategy promises, out of the available nodes, and when it advances the counter.\<close>

fun chooses :: "LoadBalancingStrategy \<Rightarrow> request_task \<Rightarrow> balancer \<Rightarrow> addr list \<Rightarrow> addr list \<Rightarrow> bool" where
  "chooses StrategyRoundRobin request b nodes sel \<longleftrightarrow> sel = [in_turn nodes b]"
| "chooses StrategyWeightedRoundRobin request b nodes sel \<longleftrightarrow>
     (\<exists>a \<in> set nodes. sel = [a] \<and> (if weightless nodes b then a = in_turn nodes b else 0 < ln_Weight (lb_store b a)))"
| "chooses StrategyLeastConnections request b nodes sel \<longleftrightarrow>
     (\<exists>a \<in> set nodes. sel = [a] \<and> (\<forall>c \<in> set nodes. ln_CurrentLoad (lb_store b a) \<le> ln_CurrentLoad (lb_store b c)))"
| "chooses StrategyLeastResponseTime request b nodes sel \<longleftrightarrow>
     (\<exists>a \<in> set nodes. sel = [a] \<and> (\<forall>c \<in> set nodes. ln_ResponseTime (lb_store b a) \<le> ln_ResponseTime (lb_store b c)))"
| "chooses StrategyAdaptive request b nodes sel \<longleftrightarrow>
     int (length sel) = min (int (length nodes)) (fanOutCount request b) \<and>
     sorted (map (\<lambda>a. - calculateAdaptiveScore (lb_store b a) request) sel) \<and>
     (\<forall>a \<in> set sel. \<forall>c \<in> set nodes - set sel.
        calculateAdaptiveScore (lb_store b c) request \<le> calculateAdaptiveScore (lb_store b a) request)"

definition takes_turns :: "addr list \<Rightarrow> balancer \<Rightarrow> bool" where
  "takes_turns nodes b \<longleftrightarrow> lb_strategy b = StrategyRoundRobin \<or> lb_strategy b = StrategyWeightedRoundRobin \<and> weightless nodes b"

definition next_turn :: "addr list \<Rightarrow> balancer \<Rightarrow> int" where
  "next_turn nodes b = lb_totalRequests b + (if nodes \<noteq> [] \<and> takes_turns nodes b then 1 else 0)"

definition good_choice :: "request_task \<Rightarrow> balancer \<Rightarrow> addr list \<Rightarrow> addr list \<Rightarrow> bool" where
  "good_choice request b nodes sel \<longleftrightarrow> sel \<noteq> [] \<and> distinct sel \<and> set sel \<subseteq> set nodes \<and>
     chooses (lb_strategy b) request b nodes (take (nat (fanOutCount request b)) sel)"

lemma sort_key_head:
  fixes f :: "addr \<Rightarrow> 'k::linorder"
  assumes "nodes \<noteq> []"
  shows "sort_key f nodes ! 0 \<in> set nodes" and "c \<in> set nodes \<Longrightarrow> f (sort_key f nodes ! 0) \<le> f c"
proof -
  have ne: "sort_key f nodes \<noteq> []"
    using assms by (metis set_empty set_sort)
  then obtain a as where aa: "sort_key f nodes = a # as" by (cases "sort_key f nodes") auto
  have sorted: "sorted (map f (a # as))" using sorted_sort_key [of f nodes] by (simp add: aa)
  have set: "set nodes = set (a # as)" by (metis aa set_sort)
  show "sort_key f nodes ! 0 \<in> set nodes" by (simp add: aa set)
  show "f (sort_key f nodes ! 0) \<le> f c" if "c \<in> set nodes"
    using that sorted by (auto simp: aa set)
qed

lemma sort_key_take:
  fixes f :: "addr \<Rightarrow> 'k::linorder"
  assumes "a \<in> set (take k (sort_key f nodes))" and "c \<in> set nodes" and "c \<notin> set (take k (sort_key f nodes))"
  shows "f a \<le> f c"
proof -
  have "sorted (map f (take k (sort_key f nodes)) @ map f (drop k (sort_key f nodes)))"
    using sorted_sort_key [of f nodes] by (metis append_take_drop_id map_append)
  moreover have "c \<in> set (drop k (sort_key f nodes))"
    using assms(2,3) by (metis Un_iff append_take_drop_id set_append set_sort)
  ultimately show ?thesis using assms(1) by (simp only: sorted_append) (simp del: set_take_subset)
qed

lemma good_singleton:
  "1 \<le> fanOutCount request b \<Longrightarrow> a \<in> set nodes \<Longrightarrow> chooses (lb_strategy b) request b nodes [a] \<Longrightarrow> good_choice request b nodes [a]"
  by (simp add: good_choice_def take_Cons')

lemma round_robin_choice:
  assumes "nodes \<noteq> []" and "0 \<le> lb_totalRequests b"
  shows "selectRoundRobin nodes b = (b\<lparr>lb_totalRequests := lb_totalRequests b + 1\<rparr>, [in_turn nodes b])" and "in_turn nodes b \<in> set nodes"
proof -
  have "0 \<le> (lb_totalRequests b + 1) mod int (length nodes)"
    and "(lb_totalRequests b + 1) mod int (length nodes) < int (length nodes)"
    using assms(1) by simp_all
  then show "in_turn nodes b \<in> set nodes" unfolding in_turn_def by (intro nth_mem) (simp add: nat_less_iff)
  show "selectRoundRobin nodes b = (b\<lparr>lb_totalRequests := lb_totalRequests b + 1\<rparr>, [in_turn nodes b])"
    using assms by (simp add: selectRoundRobin_def in_turn_def Let_def go_mod_pos)
qed

lemma weighted_pick_some:
  "(\<And>a. a \<in> set nodes \<Longrightarrow> 0 \<le> w a) \<Longrightarrow> cum \<le> target \<Longrightarrow> target < cum + sum_list (map w nodes) \<Longrightarrow>
   \<exists>a \<in> set nodes. weighted_pick w target cum nodes = Some a \<and> 0 < w a"
proof (induction nodes arbitrary: cum)
  case Nil
  then show ?case by simp
next
  case (Cons x xs)
  show ?case
  proof (cases "target < cum + w x")
    case True
    then show ?thesis using Cons.prems(2) by simp
  next
    case False
    then have "cum + w x \<le> target" "target < (cum + w x) + sum_list (map w xs)"
      using Cons.prems(3) by simp_all
    from Cons.IH [OF _ this] Cons.prems(1) False show ?thesis by simp
  qed
qed

text \<open>The draws that pick a node are as many as its weight.\<close>

lemma weighted_pick_draws:
  "distinct nodes \<Longrightarrow> (\<And>a. a \<in> set nodes \<Longrightarrow> 0 \<le> w a) \<Longrightarrow> a \<in> set nodes \<Longrightarrow>
   \<exists>from. cum \<le> from \<and> {t. cum \<le> t \<and> weighted_pick w t cum nodes = Some a} = {from..<from + w a}"
proof (induction nodes arbitrary: cum)
  case Nil
  then show ?case by simp
next
  case (Cons x xs)
  have x: "0 \<le> w x" using Cons.prems(2) by simp
  show ?case
  proof (cases "a = x")
    case True
    have no: "weighted_pick w t c xs \<noteq> Some x" for t c
    proof -
      have "weighted_pick w t c ys = Some y \<Longrightarrow> y \<in> set ys" for y ys
        by (induction ys arbitrary: c) (auto split: if_splits)
      then show ?thesis using Cons.prems(1) by auto
    qed
    have "{t. cum \<le> t \<and> weighted_pick w t cum (x # xs) = Some a} = {cum..<cum + w a}"
      using no True by (auto split: if_splits)
    then show ?thesis by blast
  next
    case False
    then obtain k where k: "cum + w x \<le> k"
      "{t. cum + w x \<le> t \<and> weighted_pick w t (cum + w x) xs = Some a} = {k..<k + w a}"
      using Cons.IH [of "cum + w x"] Cons.prems by auto
    have "{t. cum \<le> t \<and> weighted_pick w t cum (x # xs) = Some a} =
        {t. cum + w x \<le> t \<and> weighted_pick w t (cum + w x) xs = Some a}"
      using False x by (auto split: if_splits)
    then show ?thesis using k x by (auto intro!: exI [of _ k])
  qed
qed

lemma weighted_choice:
  assumes "nodes \<noteq> []" and "0 \<le> lb_totalRequests b" and "draw_ok draw"
    and "\<And>a. a \<in> set nodes \<Longrightarrow> 0 \<le> ln_Weight (lb_store b a)"
  shows "\<exists>a \<in> set nodes. selectWeightedRoundRobin draw nodes b =
      Some (b\<lparr>lb_totalRequests := lb_totalRequests b + (if weightless nodes b then 1 else 0)\<rparr>, [a]) \<and>
    (if weightless nodes b then a = in_turn nodes b else 0 < ln_Weight (lb_store b a))"
proof -
  define total where "total = sum_list (map (\<lambda>a. ln_Weight (lb_store b a)) nodes)"
  have nonneg: "0 \<le> total"
    unfolding total_def using assms(4) by (intro sum_list_nonneg) auto
  have zero: "total = 0 \<longleftrightarrow> weightless nodes b"
    using sum_list_nonneg_eq_0_iff [of "map (\<lambda>a. ln_Weight (lb_store b a)) nodes"] assms(4)
    by (auto simp: total_def weightless_def)
  show ?thesis
  proof (cases "total = 0")
    case True
    then show ?thesis using round_robin_choice [OF assms(1,2)] zero assms(1)
      by (simp add: selectWeightedRoundRobin_def total_def Let_def)
  next
    case False
    with nonneg assms(3) have "0 \<le> draw total" "draw total < 0 + total" by (auto simp: draw_ok_def)
    then obtain a where a: "a \<in> set nodes" "0 < ln_Weight (lb_store b a)"
      "weighted_pick (\<lambda>a. ln_Weight (lb_store b a)) (draw total) 0 nodes = Some a"
      using weighted_pick_some [of nodes "\<lambda>a. ln_Weight (lb_store b a)" 0 "draw total"] assms(4)
      unfolding total_def by blast
    then have "selectWeightedRoundRobin draw nodes b = Some (b\<lparr>lb_totalRequests := lb_totalRequests b + 0\<rparr>, [a])"
      using False nonneg assms(1) by (simp add: selectWeightedRoundRobin_def total_def Let_def)
    then show ?thesis using a False zero by auto
  qed
qed

lemma fan_out_bounds:
  assumes "1 \<le> lb_fanOutFactor b"
  shows "1 \<le> fanOutCount request b" and "fanOutCount request b \<le> lb_fanOutFactor b"
  using assms by (simp_all add: fanOutCount_def)

lemma adaptive_choice:
  assumes "nodes \<noteq> []" and "1 \<le> lb_fanOutFactor b" and "distinct nodes" and "lb_strategy b = StrategyAdaptive"
  shows "\<exists>sel. selectAdaptive nodes request b = Some sel \<and> good_choice request b nodes sel"
proof -
  define f where "f = (\<lambda>a. - calculateAdaptiveScore (lb_store b a) request)"
  define k where "k = nat (min (int (length nodes)) (lb_fanOutFactor b))"
  define j where "j = nat (fanOutCount request b)"
  have k: "0 < k" using assms(1,2) by (cases nodes) (simp_all add: k_def)
  have sel: "selectAdaptive nodes request b = Some (take k (sort_key f nodes))"
    using assms(1,2) by (simp add: selectAdaptive_def Let_def f_def k_def length_sort)
  have ne: "take k (sort_key f nodes) \<noteq> []"
    using k assms(1) by (metis length_0_conv length_sort not_less_zero take_eq_Nil2)
  have sub: "set (take k (sort_key f nodes)) \<subseteq> set nodes"
    by (metis set_sort set_take_subset)
  have best: "calculateAdaptiveScore (lb_store b c) request \<le> calculateAdaptiveScore (lb_store b a) request"
    if "a \<in> set (take j (take k (sort_key f nodes)))" "c \<in> set nodes - set (take j (take k (sort_key f nodes)))" for a c
    using sort_key_take [of a "min j k" f nodes c] that by (simp add: f_def)
  have "sorted (map f (take j (take k (sort_key f nodes))))"
    using sorted_sort_key [of f nodes] sorted_wrt_take [of "(\<le>)" "map f (sort_key f nodes)" "min j k"] by (simp add: take_map)
  moreover have "int (length (take j (take k (sort_key f nodes)))) = min (int (length nodes)) (fanOutCount request b)"
    using fan_out_bounds [OF assms(2), of request] by (simp add: j_def k_def length_sort)
  ultimately have "chooses StrategyAdaptive request b nodes (take j (take k (sort_key f nodes)))"
    using best unfolding f_def chooses.simps by blast
  then have "good_choice request b nodes (take k (sort_key f nodes))"
    using ne sub assms(3,4) unfolding good_choice_def j_def by (simp add: distinct_sort)
  then show ?thesis using sel by blast
qed

lemma strategy_choice:
  assumes "nodes \<noteq> []" and "distinct nodes" and "1 \<le> lb_fanOutFactor b" and "0 \<le> lb_totalRequests b"
    and "draw_ok draw" and "\<And>a. a \<in> set nodes \<Longrightarrow> 0 \<le> ln_Weight (lb_store b a)"
  shows "\<exists>sel. selectByStrategy draw nodes request b = Some (b\<lparr>lb_totalRequests := next_turn nodes b\<rparr>, sel) \<and>
    good_choice request b nodes sel"
proof -
  note one = good_singleton [OF fan_out_bounds(1) [OF assms(3)]]
  have same: "b\<lparr>lb_totalRequests := lb_totalRequests b\<rparr> = b" by simp
  show ?thesis
  proof (cases "lb_strategy b")
    case StrategyRoundRobin
    then have "good_choice request b nodes [in_turn nodes b]" by (intro one) (simp_all add: round_robin_choice [OF assms(1,4)])
    then show ?thesis using StrategyRoundRobin assms(1)
      by (simp add: selectByStrategy_def round_robin_choice [OF assms(1,4)] next_turn_def takes_turns_def)
  next
    case StrategyWeightedRoundRobin
    obtain a where a: "a \<in> set nodes" "selectWeightedRoundRobin draw nodes b =
        Some (b\<lparr>lb_totalRequests := lb_totalRequests b + (if weightless nodes b then 1 else 0)\<rparr>, [a])"
      "if weightless nodes b then a = in_turn nodes b else 0 < ln_Weight (lb_store b a)"
      using weighted_choice [OF assms(1,4,5,6)] by blast
    have "good_choice request b nodes [a]"
      using a(1,3) by (intro one) (simp_all add: StrategyWeightedRoundRobin)
    then show ?thesis using a(2) StrategyWeightedRoundRobin assms(1)
      by (simp add: selectByStrategy_def next_turn_def takes_turns_def)
  next
    case StrategyLeastConnections
    define f where "f = (\<lambda>a. ln_CurrentLoad (lb_store b a))"
    have "good_choice request b nodes [sort_key f nodes ! 0]"
      by (rule one) (use sort_key_head [OF assms(1), where f = f] in \<open>auto simp: f_def StrategyLeastConnections\<close>)
    then show ?thesis using StrategyLeastConnections assms(1)
      by (simp add: selectByStrategy_def selectLeastConnections_def f_def next_turn_def takes_turns_def)
  next
    case StrategyLeastResponseTime
    define f where "f = (\<lambda>a. ln_ResponseTime (lb_store b a))"
    have "good_choice request b nodes [sort_key f nodes ! 0]"
      by (rule one) (use sort_key_head [OF assms(1), where f = f] in \<open>auto simp: f_def StrategyLeastResponseTime\<close>)
    then show ?thesis using StrategyLeastResponseTime assms(1)
      by (simp add: selectByStrategy_def selectLeastResponseTime_def f_def next_turn_def takes_turns_def)
  next
    case StrategyAdaptive
    with adaptive_choice [OF assms(1,3,2)] obtain sel
      where "selectAdaptive nodes request b = Some sel" "good_choice request b nodes sel" by blast
    then show ?thesis using StrategyAdaptive by (simp add: selectByStrategy_def next_turn_def takes_turns_def)
  qed
qed

lemma selectNodes_choice:
  assumes "ranges order b" and "1 \<le> lb_fanOutFactor b" and "0 \<le> lb_totalRequests b" and "draw_ok draw"
    and "\<And>a. a \<in> set order \<Longrightarrow> 0 \<le> ln_Weight (lb_store b a)"
    and "nodes = filter (\<lambda>a. is_available (lb_store b a)) order" and "nodes \<noteq> []"
  shows "\<exists>m sel. selectNodes order draw request b =
      Some (b\<lparr>lb_totalRequests := next_turn nodes b, lb_totalFanOutRequests := m\<rparr>, take (nat (fanOutCount request b)) sel) \<and>
    good_choice request b nodes sel"
proof -
  have d: "distinct nodes" using assms(1,6) by (simp add: ranges_def)
  have w: "\<And>a. a \<in> set nodes \<Longrightarrow> 0 \<le> ln_Weight (lb_store b a)" using assms(5,6) by simp
  define n where "n = next_turn nodes b"
  obtain sel where sel: "selectByStrategy draw nodes request b = Some (b\<lparr>lb_totalRequests := n\<rparr>, sel)"
    and good: "good_choice request b nodes sel"
    using strategy_choice [OF assms(7) d assms(2,3,4) w, where request = request] unfolding n_def by blast
  define c where "c = fanOutCount request b"
  have c: "1 \<le> c" using fan_out_bounds(1) [OF assms(2)] by (simp add: c_def)
  have same: "fanOutCount request (b\<lparr>lb_totalRequests := n\<rparr>) = c" by (simp add: c_def fanOutCount_def)
  have cut: "(if int (length sel) > c then take (nat c) sel else sel) = take (nat c) sel" by simp
  have "selectNodes order draw request b =
      Some (b\<lparr>lb_totalRequests := n,
             lb_totalFanOutRequests := lb_totalFanOutRequests b + int (length (take (nat c) sel))\<rparr>, take (nat c) sel)"
    using assms(7) c cut by (simp add: selectNodes_def Let_def assms(6) [symmetric] sel same)
  then show ?thesis using good unfolding c_def n_def by blast
qed

lemma selectNodes_returns:
  assumes "ranges order b" and "1 \<le> lb_fanOutFactor b" and "0 \<le> lb_totalRequests b" and "draw_ok draw"
    and "\<forall>a \<in> set order. 0 \<le> ln_Weight (lb_store b a)"
  shows "\<exists>b' sel. selectNodes order draw request b = Some (b', sel)"
proof (cases "filter (\<lambda>a. is_available (lb_store b a)) order = []")
  case True
  then show ?thesis by (simp add: selectNodes_def Let_def)
next
  case False
  show ?thesis using selectNodes_choice [OF assms(1-4) bspec [OF assms(5)] refl False] by blast
qed

text \<open>
  C17. Node selection, with weights that are not negative and a fan-out of at least one: it does not
  panic; it selects at most the fan-out bound, each a distinct registered node that is healthy or
  degraded and has room; it selects none only when there is none; and the choice is the strategy's.
  Round robin takes the candidate whose turn it is and advances the counter; weighted round robin
  takes a node of positive weight, and a turn when all weights are zero; the next two take a node with
  the fewest connections, or the shortest response time; the adaptive strategy takes as many as the
  fan-out allows, best score first, none left out with a better score.  The total of a negative
  weight may be below zero, and the draw then panics.
\<close>

theorem selectNodes_chooses_well:
  assumes "ranges order b" and "1 \<le> lb_fanOutFactor b" and "0 \<le> lb_totalRequests b" and "draw_ok draw"
    and "\<forall>a \<in> set order. 0 \<le> ln_Weight (lb_store b a)"
  shows "\<exists>b' sel. selectNodes order draw request b = Some (b', sel) \<and>
    lb_store b' = lb_store b \<and> distinct sel \<and> int (length sel) \<le> fanOutCount request b \<and>
    set sel \<subseteq> {a \<in> ran (lb_nodes b). is_available (lb_store b a)} \<and>
    (sel = [] \<longleftrightarrow> {a \<in> ran (lb_nodes b). is_available (lb_store b a)} = {}) \<and>
    (sel \<noteq> [] \<longrightarrow> chooses (lb_strategy b) request b (filter (\<lambda>a. is_available (lb_store b a)) order) sel) \<and>
    lb_totalRequests b' = next_turn (filter (\<lambda>a. is_available (lb_store b a)) order) b"
proof -
  define nodes where "nodes = filter (\<lambda>a. is_available (lb_store b a)) order"
  have set: "set nodes = {a \<in> ran (lb_nodes b). is_available (lb_store b a)}"
    using assms(1) by (auto simp: nodes_def ranges_def)
  show ?thesis
  proof (cases "nodes = []")
    case True
    then have "selectNodes order draw request b = Some (b, [])"
      by (simp add: selectNodes_def Let_def nodes_def)
    moreover have "1 \<le> fanOutCount request b" using assms(2) by (simp add: fanOutCount_def)
    ultimately show ?thesis using True set by (simp add: nodes_def [symmetric] next_turn_def)
  next
    case False
    let ?k = "nat (fanOutCount request b)"
    obtain m sel where r: "selectNodes order draw request b =
        Some (b\<lparr>lb_totalRequests := next_turn nodes b, lb_totalFanOutRequests := m\<rparr>, take ?k sel)"
      and good: "good_choice request b nodes sel"
      using selectNodes_choice [OF assms(1-4) bspec [OF assms(5)] nodes_def False, where request = request] by blast
    have k: "0 < ?k" using fan_out_bounds(1) [OF assms(2), of request] by simp
    have "distinct (take ?k sel)" "take ?k sel \<noteq> []" "set (take ?k sel) \<subseteq> set nodes"
      using good k set_take_subset [of ?k sel] by (auto simp: good_choice_def)
    moreover have "chooses (lb_strategy b) request b nodes (take ?k sel)" using good by (simp add: good_choice_def)
    moreover have "set nodes \<noteq> {}" using False by simp
    moreover have "int (length (take ?k sel)) \<le> fanOutCount request b" using k by simp
    ultimately show ?thesis
      unfolding set nodes_def [symmetric]
      by (intro exI [of _ "b\<lparr>lb_totalRequests := next_turn nodes b, lb_totalFanOutRequests := m\<rparr>"] exI [of _ "take ?k sel"])
        (simp add: r)
  qed
qed

text \<open>
  Weighted round robin is proportional: of the draws below the total weight, exactly as many
  pick a node as its weight says.
\<close>

theorem weighted_round_robin_proportional:
  assumes "distinct nodes" and "\<forall>a \<in> set nodes. 0 \<le> ln_Weight (lb_store b a)" and "a \<in> set nodes"
    and "0 < sum_list (map (\<lambda>a. ln_Weight (lb_store b a)) nodes)"
  shows "card {t \<in> {0..<sum_list (map (\<lambda>a. ln_Weight (lb_store b a)) nodes)}.
      selectWeightedRoundRobin (\<lambda>_. t) nodes b = Some (b, [a])} = nat (ln_Weight (lb_store b a))"
proof -
  define w where "w = (\<lambda>a. ln_Weight (lb_store b a))"
  have w: "\<And>a. a \<in> set nodes \<Longrightarrow> 0 \<le> w a" using assms(2) by (simp add: w_def)
  have ne: "nodes \<noteq> []" using assms(3) by auto
  have pick: "selectWeightedRoundRobin (\<lambda>_. t) nodes b = Some (b, [a]) \<longleftrightarrow> weighted_pick w t 0 nodes = Some a"
    if "0 \<le> t" "t < sum_list (map w nodes)" for t
    using weighted_pick_some [of nodes w 0 t] w that assms(4) ne
    by (auto simp: selectWeightedRoundRobin_def Let_def w_def)
  have none: "weighted_pick w t c ys = None" if "c + sum_list (map w ys) \<le> t" "\<forall>y \<in> set ys. 0 \<le> w y" for t c ys
    using that
  proof (induction ys arbitrary: c)
    case (Cons y ys)
    have "0 \<le> sum_list (map w ys)" using Cons.prems(2) by (intro sum_list_nonneg) auto
    then have "\<not> t < c + w y" using Cons.prems(1) by simp
    then show ?case using Cons.IH [of "c + w y"] Cons.prems by simp
  qed simp
  obtain k where k: "{t. 0 \<le> t \<and> weighted_pick w t 0 nodes = Some a} = {k..<k + w a}"
    using weighted_pick_draws [of nodes w a 0, OF assms(1) w assms(3)] by blast
  have "{t \<in> {0..<sum_list (map w nodes)}. selectWeightedRoundRobin (\<lambda>_. t) nodes b = Some (b, [a])} =
      {t. 0 \<le> t \<and> weighted_pick w t 0 nodes = Some a}"
    using pick none [of 0 nodes] w by (fastforce simp: not_less [symmetric])
  then have "{t \<in> {0..<sum_list (map w nodes)}. selectWeightedRoundRobin (\<lambda>_. t) nodes b = Some (b, [a])} =
      {k..<k + w a}" by (simp only: k)
  then show ?thesis unfolding w_def by simp
qed

definition example_node :: "string \<Rightarrow> int \<Rightarrow> int \<Rightarrow> NodeHealth \<Rightarrow> lb_node" where
  "example_node key weight load health = \<lparr>ln_ID = key, ln_Weight = weight, ln_CurrentLoad = load,
     ln_MaxCapacity = 10, ln_Health = health, ln_ResponseTime = 0, ln_SuccessRate = 0, ln_LastHealthCheck = 0\<rparr>"

definition example_store :: "addr \<Rightarrow> lb_node" where
  "example_store a = (if a = 0 then example_node ''a'' 3 4 HealthHealthy
     else if a = 1 then example_node ''b'' 1 2 HealthDegraded else example_node ''c'' 1 0 HealthUnhealthy)"

definition example_balancer :: "LoadBalancingStrategy \<Rightarrow> balancer" where
  "example_balancer strategy = AddNode 2 (AddNode 1 (AddNode 0
     (NewAdaptiveLoadBalancer example_store \<lparr>bc_FanOutFactor = 2, bc_QueueSize = 8, bc_Strategy = strategy\<rparr>)))"

definition example_task :: request_task where
  "example_task = \<lparr>rt_ID = 1, rt_Priority = 0, rt_Timeout = 0, rt_RequiredNodes = 0, rt_SubmittedAt = 0\<rparr>"

lemmas example_defs = Let_def example_balancer_def NewAdaptiveLoadBalancer_def AddNode_def example_store_def
  example_node_def example_task_def

lemma example_ranges: "ranges [0, 1, 2] (example_balancer strategy)"
  by (simp add: ranges_def example_defs insert_commute)

lemma selectNodes_chooses_well_witness:
  "\<exists>b'. selectNodes [0, 1, 2] (\<lambda>n. n - 1) example_task (example_balancer StrategyRoundRobin) = Some (b', [1]) \<and> lb_totalRequests b' = 1"
proof -
  let ?b = "example_balancer StrategyRoundRobin"
  have pre: "1 \<le> lb_fanOutFactor ?b" "0 \<le> lb_totalRequests ?b" "draw_ok (\<lambda>n. n - 1)" "\<forall>a \<in> set [0, 1, 2]. 0 \<le> ln_Weight (lb_store ?b a)"
    by (simp_all add: example_defs draw_ok_def)
  have nodes: "filter (\<lambda>a. is_available (lb_store ?b a)) [0, 1, 2] = [0, 1]" by (simp add: example_defs is_available_def)
  then have some: "0 \<in> ran (lb_nodes ?b) \<and> is_available (lb_store ?b 0)" by (simp add: example_defs is_available_def)
  obtain b' sel where r: "selectNodes [0, 1, 2] (\<lambda>n. n - 1) example_task ?b = Some (b', sel)" "sel \<noteq> []"
    "chooses (lb_strategy ?b) example_task ?b [0, 1] sel" "lb_totalRequests b' = next_turn [0, 1] ?b"
    using selectNodes_chooses_well [OF example_ranges pre, of example_task] some unfolding nodes by blast
  have "lb_strategy ?b = StrategyRoundRobin" "in_turn [0, 1] ?b = 1" "next_turn [0, 1] ?b = 1"
    by (simp_all add: example_defs in_turn_def next_turn_def takes_turns_def)
  then show ?thesis using r by simp
qed

text \<open>
  Negative weights are not refused: as soon as the available nodes' weights add up below zero, weighted
  round robin asks for a draw below a negative bound and panics.
\<close>

theorem negative_weights_panic:
  assumes "lb_strategy b = StrategyWeightedRoundRobin" and "nodes = filter (\<lambda>a. is_available (lb_store b a)) order"
    and "sum_list (map (\<lambda>a. ln_Weight (lb_store b a)) nodes) < 0"
  shows "selectNodes order draw request b = None"
proof -
  have "nodes \<noteq> []" using assms(3) by auto
  then show ?thesis using assms(1,3)
    by (simp add: selectNodes_def selectByStrategy_def selectWeightedRoundRobin_def Let_def assms(2) [symmetric])
qed

lemma negative_weights_panic_witness:
  "selectNodes [0] draw example_task (AddNode 0 (NewAdaptiveLoadBalancer (\<lambda>a. example_node ''a'' (- 1) 0 HealthHealthy)
     \<lparr>bc_FanOutFactor = 2, bc_QueueSize = 8, bc_Strategy = StrategyWeightedRoundRobin\<rparr>)) = None"
  by (rule negative_weights_panic [where nodes = "[0]"]) (simp_all add: example_defs is_available_def)

lemma weighted_round_robin_proportional_witness:
  "card {t \<in> {0..<5}. selectWeightedRoundRobin (\<lambda>_. t) [0, 1, 2] (example_balancer StrategyWeightedRoundRobin) =
     Some (example_balancer StrategyWeightedRoundRobin, [0])} = 3"
proof -
  have total: "sum_list (map (\<lambda>a. ln_Weight (lb_store (example_balancer StrategyWeightedRoundRobin) a)) [0, 1, 2]) = 5"
    by (simp add: example_defs)
  have w: "ln_Weight (lb_store (example_balancer StrategyWeightedRoundRobin) 0) = 3" by (simp add: example_defs)
  have pos: "\<forall>a \<in> set [0, 1, 2]. 0 \<le> ln_Weight (lb_store (example_balancer StrategyWeightedRoundRobin) a)"
    by (simp add: example_defs)
  show ?thesis
    using weighted_round_robin_proportional [OF _ pos, of 0] unfolding total w by simp
qed

section \<open>The running system\<close>

text \<open>
  The balancer with the attempts of all requests: those selected whose goroutine has not begun, and
  those working.  \<open>LSelect\<close> is a processor that takes the oldest request; \<open>LDeliver\<close> is the
  fan-in of a request's results.
\<close>

record lb_system =
  ls_balancer :: balancer
  ls_selected :: "addr list"
  ls_running :: "addr list"

datatype lb_event =
  LAdd addr | LRemove string | LStart | LShutdown | LSubmit time request_task
| LSelect "addr list" "int \<Rightarrow> int" | LBegin nat | LEnd nat bool duration
| LDeliver "processing_result list" | LHandle | LCheck addr bool time | LEvaluate "addr list"

definition upd_balancer :: "(balancer \<Rightarrow> balancer) \<Rightarrow> lb_system \<Rightarrow> lb_system" where
  "upd_balancer f s = s\<lparr>ls_balancer := f (ls_balancer s)\<rparr>"

fun lb_step :: "lb_system \<Rightarrow> lb_event \<Rightarrow> lb_system option" where
  "lb_step s (LAdd a) = Some (upd_balancer (AddNode a) s)"
| "lb_step s (LRemove key) = Some (upd_balancer (RemoveNode key) s)"
| "lb_step s LStart = Some (upd_balancer (fst \<circ> Start_lb) s)"
| "lb_step s LShutdown = Some (upd_balancer (fst \<circ> Shutdown_lb) s)"
| "lb_step s (LSubmit now request) = Some (upd_balancer (fst \<circ> SubmitRequest now request) s)"
| "lb_step s (LSelect order draw) =
     (case lb_requestQueue (ls_balancer s) of
        [] \<Rightarrow> Some s
      | request # rest \<Rightarrow>
          (case selectNodes order draw request ((ls_balancer s)\<lparr>lb_requestQueue := rest\<rparr>) of
             None \<Rightarrow> None
           | Some (b, sel) \<Rightarrow> Some (s\<lparr>ls_balancer := b, ls_selected := ls_selected s @ sel\<rparr>)))"
| "lb_step s (LBegin k) =
     (if k < length (ls_selected s)
      then Some (upd_balancer (begin_on_node (ls_selected s ! k))
             (s\<lparr>ls_selected := drop_at k (ls_selected s), ls_running := ls_selected s ! k # ls_running s\<rparr>))
      else Some s)"
| "lb_step s (LEnd k success d) =
     (if k < length (ls_running s)
      then Some (upd_balancer (end_on_node (ls_running s ! k) success d)
             (s\<lparr>ls_running := drop_at k (ls_running s)\<rparr>))
      else Some s)"
| "lb_step s (LDeliver arrivals) =
     (case fan_in [] arrivals of None \<Rightarrow> Some s | Some r \<Rightarrow> Some (upd_balancer (send_result r) s))"
| "lb_step s LHandle =
     (case lb_resultQueue (ls_balancer s) of
        [] \<Rightarrow> Some s
      | r # rest \<Rightarrow> Some (upd_balancer (\<lambda>b. handle_result r (b\<lparr>lb_resultQueue := rest\<rparr>)) s))"
| "lb_step s (LCheck a healthy now) = Some (upd_balancer (checkNodeHealth a healthy now) s)"
| "lb_step s (LEvaluate order) = Some (upd_balancer (evaluateAndAdaptStrategy order) s)"

text \<open>What the language and the clock guarantee of an event.\<close>

fun event_ok :: "lb_system \<Rightarrow> lb_event \<Rightarrow> bool" where
  "event_ok s (LSelect order draw) \<longleftrightarrow> ranges order (ls_balancer s) \<and> draw_ok draw"
| "event_ok s (LEvaluate order) \<longleftrightarrow> ranges order (ls_balancer s)"
| "event_ok s (LEnd k success d) \<longleftrightarrow> 0 \<le> d"
| "event_ok s e \<longleftrightarrow> True"

inductive lb_reachable :: "(addr \<Rightarrow> lb_node) \<Rightarrow> lb_config \<Rightarrow> lb_system \<Rightarrow> bool" for store config where
  lb_init: "lb_reachable store config
     \<lparr>ls_balancer = NewAdaptiveLoadBalancer store config, ls_selected = [], ls_running = []\<rparr>"
| lb_next: "lb_reachable store config s \<Longrightarrow> event_ok s e \<Longrightarrow> lb_step s e = Some s' \<Longrightarrow> lb_reachable store config s'"

text \<open>Statistics of one node, and of the registered node that carries them.\<close>

definition stats_ok :: "node_stats \<Rightarrow> bool" where
  "stats_ok st \<longleftrightarrow> 0 \<le> ns_SuccessfulReqs st \<and> 0 \<le> ns_ErrorReqs st \<and> 0 \<le> ns_TotalResponseTime st \<and>
     ns_RequestsHandled st = ns_SuccessfulReqs st + ns_ErrorReqs st \<and>
     ns_AvgResponseTime st = ns_TotalResponseTime st div ns_RequestsHandled st"

definition reflects :: "node_stats \<Rightarrow> lb_node \<Rightarrow> bool" where
  "reflects st n \<longleftrightarrow> (0 < ns_RequestsHandled st \<longrightarrow>
     ln_SuccessRate n = of_int (ns_SuccessfulReqs st) / of_int (ns_RequestsHandled st) \<and>
     ln_ResponseTime n = ns_AvgResponseTime st)"

definition nodes_ok :: "balancer \<Rightarrow> bool" where
  "nodes_ok b \<longleftrightarrow> map_all stats_ok (lb_nodeStats b) \<and>
     (\<forall>key a. lb_nodes b key = Some a \<longrightarrow> ln_ID (lb_store b a) = key \<and>
        (\<exists>st. lb_nodeStats b key = Some st \<and> reflects st (lb_store b a)))"

text \<open>What each operation leaves alone.\<close>

definition same_nodes :: "balancer \<Rightarrow> balancer \<Rightarrow> bool" where
  "same_nodes b b' \<longleftrightarrow> (\<forall>a. ln_ID (lb_store b' a) = ln_ID (lb_store b a) \<and>
     ln_Weight (lb_store b' a) = ln_Weight (lb_store b a) \<and>
     ln_CurrentLoad (lb_store b' a) = ln_CurrentLoad (lb_store b a))"

definition same_control :: "balancer \<Rightarrow> balancer \<Rightarrow> bool" where
  "same_control b b' \<longleftrightarrow> lb_fanOutFactor b' = lb_fanOutFactor b \<and> lb_totalRequests b' = lb_totalRequests b"

lemma upd_node_fields [simp]:
  "lb_nodes (upd_node a f b) = lb_nodes b" "lb_nodeStats (upd_node a f b) = lb_nodeStats b"
  "lb_fanOutFactor (upd_node a f b) = lb_fanOutFactor b" "lb_totalRequests (upd_node a f b) = lb_totalRequests b"
  "lb_store (upd_node a f b) = (lb_store b)(a := f (lb_store b a))"
  by (simp_all add: upd_node_def)

lemma updateNodeStats_frame:
  "same_nodes b (updateNodeStats key ok d b)" "same_control b (updateNodeStats key ok d b)"
  "lb_nodes (updateNodeStats key ok d b) = lb_nodes b"
  by (simp_all add: updateNodeStats_def same_nodes_def same_control_def Let_def split: option.split)

lemma updateNodeHealth_frame:
  "same_nodes b (checkNodeHealth a h now b)" "same_control b (checkNodeHealth a h now b)"
  "lb_nodes (checkNodeHealth a h now b) = lb_nodes b"
  by (simp_all add: checkNodeHealth_def updateNodeHealth_def same_nodes_def same_control_def Let_def split: option.split)

lemma adapt_cases:
  "adaptToSystemLoad order b = b \<or>
   1 < lb_fanOutFactor b \<and> adaptToSystemLoad order b = b\<lparr>lb_fanOutFactor := lb_fanOutFactor b - 1\<rparr> \<or>
   lb_fanOutFactor b < 5 \<and> adaptToSystemLoad order b = b\<lparr>lb_fanOutFactor := lb_fanOutFactor b + 1\<rparr>"
proof -
  have if_cases: "P b \<Longrightarrow> (C \<Longrightarrow> P x) \<Longrightarrow> (D \<Longrightarrow> P y) \<Longrightarrow>
      P (if A then b else if B then (if C then x else b) else if B' then (if D then y else b) else b)"
    for P and A B B' C D :: bool and x y by simp
  show ?thesis unfolding adaptToSystemLoad_def Let_def by (rule if_cases) simp_all
qed

lemma evaluate_cases:
  "evaluateAndAdaptStrategy order b = b \<or>
   (\<exists>strategy. evaluateAndAdaptStrategy order b = adaptToSystemLoad order (b\<lparr>lb_strategy := strategy\<rparr>))"
proof (cases "lb_totalRequests b < 100")
  case True
  then show ?thesis by (simp add: evaluateAndAdaptStrategy_def)
next
  case False
  define hot where "hot = ((of_int (lb_totalErrors b) / of_int (lb_totalRequests b) :: real) > 2/10)"
  define strategy where "strategy = (if hot then selectBetterStrategy order b else lb_strategy b)"
  have "evaluateAndAdaptStrategy order b =
      adaptToSystemLoad order (if hot then b\<lparr>lb_strategy := selectBetterStrategy order b\<rparr> else b)"
    using False by (simp only: evaluateAndAdaptStrategy_def Let_def hot_def if_False)
  also have "(if hot then b\<lparr>lb_strategy := selectBetterStrategy order b\<rparr> else b) = b\<lparr>lb_strategy := strategy\<rparr>"
    by (simp add: strategy_def)
  finally show ?thesis by blast
qed

lemma evaluate_frame:
  "lb_store (evaluateAndAdaptStrategy order b) = lb_store b \<and>
   lb_nodes (evaluateAndAdaptStrategy order b) = lb_nodes b \<and>
   lb_nodeStats (evaluateAndAdaptStrategy order b) = lb_nodeStats b \<and>
   lb_totalRequests (evaluateAndAdaptStrategy order b) = lb_totalRequests b \<and>
   (1 \<le> lb_fanOutFactor b \<longrightarrow> 1 \<le> lb_fanOutFactor (evaluateAndAdaptStrategy order b)) \<and>
   (lb_fanOutFactor b \<le> max 5 n \<longrightarrow> lb_fanOutFactor (evaluateAndAdaptStrategy order b) \<le> max 5 n)"
proof -
  have "lb_store (adaptToSystemLoad order c) = lb_store c \<and> lb_nodes (adaptToSystemLoad order c) = lb_nodes c \<and>
      lb_nodeStats (adaptToSystemLoad order c) = lb_nodeStats c \<and>
      lb_totalRequests (adaptToSystemLoad order c) = lb_totalRequests c \<and>
      (1 \<le> lb_fanOutFactor c \<longrightarrow> 1 \<le> lb_fanOutFactor (adaptToSystemLoad order c)) \<and>
      (lb_fanOutFactor c \<le> max 5 n \<longrightarrow> lb_fanOutFactor (adaptToSystemLoad order c) \<le> max 5 n)" for c
    using adapt_cases [of order c] by auto
  from this [of "b\<lparr>lb_strategy := strategy\<rparr>" for strategy] show ?thesis
    using evaluate_cases [of order b] by auto
qed

lemma round_robin_frame:
  "\<exists>n sel. selectRoundRobin nodes b = (b\<lparr>lb_totalRequests := n\<rparr>, sel) \<and> lb_totalRequests b \<le> n"
proof (cases "nodes = []")
  case True
  then have "selectRoundRobin nodes b = (b\<lparr>lb_totalRequests := lb_totalRequests b\<rparr>, [])"
    by (simp add: selectRoundRobin_def)
  then show ?thesis by blast
next
  case False
  then obtain sel where "selectRoundRobin nodes b = (b\<lparr>lb_totalRequests := lb_totalRequests b + 1\<rparr>, sel)"
    by (simp add: selectRoundRobin_def Let_def)
  then show ?thesis by (intro exI [of _ "lb_totalRequests b + 1"] exI [of _ sel]) simp
qed

lemma same_requests: "\<exists>n. b = b\<lparr>lb_totalRequests := n\<rparr> \<and> lb_totalRequests b \<le> n"
  by (rule exI [of _ "lb_totalRequests b"]) simp

lemma weighted_frame:
  assumes "selectWeightedRoundRobin draw nodes b = Some (b', sel)"
  shows "\<exists>n. b' = b\<lparr>lb_totalRequests := n\<rparr> \<and> lb_totalRequests b \<le> n"
proof -
  have "b' = b \<or> selectRoundRobin nodes b = (b', sel)"
    using assms by (auto simp: selectWeightedRoundRobin_def Let_def split: if_splits option.splits)
  then show ?thesis using same_requests [of b] round_robin_frame [of nodes b] by auto
qed

lemma strategy_frame:
  assumes "selectByStrategy draw nodes request b = Some (b', sel)"
  shows "\<exists>n. b' = b\<lparr>lb_totalRequests := n\<rparr> \<and> lb_totalRequests b \<le> n"
proof -
  have "b' = b \<or> selectRoundRobin nodes b = (b', sel) \<or> selectWeightedRoundRobin draw nodes b = Some (b', sel)"
    using assms by (auto simp: selectByStrategy_def split: LoadBalancingStrategy.splits)
  then show ?thesis
    using same_requests [of b] round_robin_frame [of nodes b] weighted_frame [of draw nodes b b' sel] by auto
qed

lemma selectNodes_frame:
  assumes "selectNodes order draw request b = Some (b', sel)"
  shows "lb_store b' = lb_store b \<and> lb_nodes b' = lb_nodes b \<and> lb_nodeStats b' = lb_nodeStats b \<and>
   lb_fanOutFactor b' = lb_fanOutFactor b \<and> lb_totalRequests b \<le> lb_totalRequests b'"
proof (cases "filter (\<lambda>a. is_available (lb_store b a)) order = []")
  case True
  then show ?thesis using assms by (simp add: selectNodes_def Let_def)
next
  case False
  then obtain b1 sel1 m where b1: "selectByStrategy draw (filter (\<lambda>a. is_available (lb_store b a)) order) request b = Some (b1, sel1)"
    and b': "b' = b1\<lparr>lb_totalFanOutRequests := m\<rparr>"
    using assms by (auto simp: selectNodes_def Let_def split: option.splits if_splits)
  from strategy_frame [OF b1] obtain n where "b1 = b\<lparr>lb_totalRequests := n\<rparr>" "lb_totalRequests b \<le> n" by blast
  then show ?thesis by (simp add: b')
qed

text \<open>The statistics of a node and the node follow each other.\<close>

lemma record_outcome_fields:
  "ns_RequestsHandled (record_outcome ok d l st) = ns_RequestsHandled st + 1"
  "ns_SuccessfulReqs (record_outcome ok d l st) = ns_SuccessfulReqs st + (if ok then 1 else 0)"
  "ns_ErrorReqs (record_outcome ok d l st) = ns_ErrorReqs st + (if ok then 0 else 1)"
  "ns_TotalResponseTime (record_outcome ok d l st) = ns_TotalResponseTime st + d"
  "ns_AvgResponseTime (record_outcome ok d l st) = go_div (ns_TotalResponseTime st + d) (ns_RequestsHandled st + 1)"
  by (simp_all add: record_outcome_def Let_def)

lemma stats_ok_record:
  assumes "stats_ok st" and "0 \<le> d"
  shows "stats_ok (record_outcome ok d l st)"
proof -
  have "0 \<le> ns_RequestsHandled st" using assms(1) by (simp add: stats_ok_def)
  then have "go_div (ns_TotalResponseTime st + d) (ns_RequestsHandled st + 1) =
      (ns_TotalResponseTime st + d) div (ns_RequestsHandled st + 1)"
    using assms by (intro go_div_pos) (simp_all add: stats_ok_def)
  then show ?thesis using assms by (cases ok) (simp_all only: stats_ok_def record_outcome_fields, simp_all)
qed

lemma nodes_ok_updateNodeStats:
  assumes "nodes_ok b" and "0 \<le> d"
  shows "nodes_ok (updateNodeStats key ok d b)"
proof (cases "lb_nodeStats b key")
  case None
  then show ?thesis using assms by (simp add: updateNodeStats_def)
next
  case (Some st0)
  have st0: "stats_ok st0" using assms(1) Some by (auto simp: nodes_ok_def dest: map_allD)
  define st2 where "st2 = record_outcome ok d (case lb_nodes b key of
      Some a \<Rightarrow> ln_CurrentLoad (lb_store b a) | None \<Rightarrow> ns_CurrentLoad st0) st0"
  have ok2: "stats_ok st2" unfolding st2_def by (rule stats_ok_record [OF st0 assms(2)])
  have all: "map_all stats_ok ((lb_nodeStats b)(key \<mapsto> st2))"
    using assms(1) ok2 by (simp add: nodes_ok_def map_all_upd)
  have id: "lb_nodes b k = Some a \<Longrightarrow> ln_ID (lb_store b a) = k" for k a
    using assms(1) by (simp add: nodes_ok_def)
  show ?thesis
  proof (cases "lb_nodes b key")
    case None
    then have "updateNodeStats key ok d b = b\<lparr>lb_nodeStats := (lb_nodeStats b)(key \<mapsto> st2)\<rparr>"
      using Some by (simp add: updateNodeStats_def st2_def Let_def)
    then show ?thesis using all assms(1) None by (auto simp: nodes_ok_def)
  next
    case (Some a)
    then have u: "updateNodeStats key ok d b =
        upd_node a (\<lambda>n. n\<lparr>ln_SuccessRate := of_int (ns_SuccessfulReqs st2) / of_int (ns_RequestsHandled st2),
                         ln_ResponseTime := ns_AvgResponseTime st2\<rparr>)
          (b\<lparr>lb_nodeStats := (lb_nodeStats b)(key \<mapsto> st2)\<rparr>)"
      using \<open>lb_nodeStats b key = Some st0\<close> by (simp add: updateNodeStats_def st2_def Let_def)
    have "reflects st2 ((lb_store b a)\<lparr>ln_SuccessRate := of_int (ns_SuccessfulReqs st2) / of_int (ns_RequestsHandled st2),
        ln_ResponseTime := ns_AvgResponseTime st2\<rparr>)"
      by (simp add: reflects_def)
    moreover have "lb_nodes b k = Some c \<Longrightarrow> k \<noteq> key \<Longrightarrow> c \<noteq> a" for k c
      using id [of k c] id [OF Some] by auto
    ultimately show ?thesis
      using all assms(1) Some by (auto simp: u nodes_ok_def)
  qed
qed

lemma nodes_ok_upd_node:
  assumes "nodes_ok b" and "ln_ID (f (lb_store b a)) = ln_ID (lb_store b a)"
    and "ln_SuccessRate (f (lb_store b a)) = ln_SuccessRate (lb_store b a)"
    and "ln_ResponseTime (f (lb_store b a)) = ln_ResponseTime (lb_store b a)"
  shows "nodes_ok (upd_node a f b)"
proof -
  have "reflects st (f (lb_store b a)) = reflects st (lb_store b a)" for st
    using assms(3,4) by (simp add: reflects_def)
  then show ?thesis using assms(1,2) by (auto simp: nodes_ok_def)
qed

lemma nodes_ok_health:
  assumes "nodes_ok b"
  shows "nodes_ok (checkNodeHealth a h now b)"
proof -
  define b1 where "b1 = upd_node a (\<lambda>n. n\<lparr>ln_Health := next_health h (ln_Health n)\<rparr>) b"
  have b1: "nodes_ok b1" unfolding b1_def by (rule nodes_ok_upd_node [OF assms]) simp_all
  have "nodes_ok (updateNodeHealth a h b)"
  proof (cases "lb_nodeStats b1 (ln_ID (lb_store b1 a))")
    case None
    then show ?thesis using b1 by (simp add: updateNodeHealth_def Let_def b1_def [symmetric])
  next
    case (Some st)
    define st' where "st' = st\<lparr>ns_HealthStatus := ln_Health (lb_store b1 a)\<rparr>"
    have "stats_ok st" using b1 Some by (auto simp: nodes_ok_def dest: map_allD)
    then have "map_all stats_ok ((lb_nodeStats b1)(ln_ID (lb_store b1 a) \<mapsto> st'))"
      using b1 by (intro map_all_upd) (simp_all add: nodes_ok_def stats_ok_def st'_def)
    moreover have "reflects st' n = reflects st n" for n by (simp add: reflects_def st'_def)
    moreover have "\<exists>st2. ((lb_nodeStats b1)(ln_ID (lb_store b1 a) \<mapsto> st')) key = Some st2 \<and> reflects st2 (lb_store b1 c)"
      if "lb_nodes b1 key = Some c" for key c
    proof -
      obtain st2 where "lb_nodeStats b1 key = Some st2" "reflects st2 (lb_store b1 c)"
        using b1 \<open>lb_nodes b1 key = Some c\<close> by (auto simp: nodes_ok_def)
      then show ?thesis
        using Some \<open>reflects st' (lb_store b1 c) = reflects st (lb_store b1 c)\<close>
        by (cases "key = ln_ID (lb_store b1 a)") auto
    qed
    moreover have "\<forall>key c. lb_nodes b1 key = Some c \<longrightarrow> ln_ID (lb_store b1 c) = key"
      using b1 by (simp add: nodes_ok_def)
    ultimately have "nodes_ok (b1\<lparr>lb_nodeStats := (lb_nodeStats b1)(ln_ID (lb_store b1 a) \<mapsto> st')\<rparr>)"
      unfolding nodes_ok_def by simp
    then show ?thesis using Some by (simp add: updateNodeHealth_def Let_def b1_def [symmetric] st'_def)
  qed
  then show ?thesis unfolding checkNodeHealth_def by (rule nodes_ok_upd_node) simp_all
qed

lemma nodes_ok_add:
  assumes "nodes_ok b"
  shows "nodes_ok (AddNode a b)"
  using assms
  by (auto simp: nodes_ok_def AddNode_def Let_def reflects_def stats_ok_def zero_node_stats_def map_all_def)

lemma nodes_ok_remove: "nodes_ok b \<Longrightarrow> nodes_ok (RemoveNode key b)"
  by (simp add: nodes_ok_def RemoveNode_def map_all_def)

lemma nodes_ok_cong:
  "nodes_ok b \<Longrightarrow> lb_store b' = lb_store b \<Longrightarrow> lb_nodes b' = lb_nodes b \<Longrightarrow> lb_nodeStats b' = lb_nodeStats b \<Longrightarrow>
   nodes_ok b'"
  by (simp add: nodes_ok_def)

definition lb_inv :: "(addr \<Rightarrow> lb_node) \<Rightarrow> lb_config \<Rightarrow> lb_system \<Rightarrow> bool" where
  "lb_inv store config s \<longleftrightarrow>
     (\<forall>a. ln_ID (lb_store (ls_balancer s) a) = ln_ID (store a) \<and>
          ln_Weight (lb_store (ls_balancer s) a) = ln_Weight (store a) \<and>
          ln_CurrentLoad (lb_store (ls_balancer s) a) =
            ln_CurrentLoad (store a) + int (count_list (ls_running s) a)) \<and>
     nodes_ok (ls_balancer s) \<and> 0 \<le> lb_totalRequests (ls_balancer s) \<and>
     1 \<le> lb_fanOutFactor (ls_balancer s) \<and> lb_fanOutFactor (ls_balancer s) \<le> max 5 (bc_FanOutFactor config)"

text \<open>An operation that leaves loads and control alone and keeps the statistics keeps the invariant.\<close>

lemma lb_inv_frame:
  assumes "lb_inv store config s" and "same_nodes (ls_balancer s) b" and "nodes_ok b"
    and "lb_totalRequests (ls_balancer s) \<le> lb_totalRequests b" and "1 \<le> lb_fanOutFactor b"
    and "lb_fanOutFactor b \<le> max 5 (bc_FanOutFactor config)"
  shows "lb_inv store config (s\<lparr>ls_balancer := b\<rparr>)"
  using assms by (auto simp: lb_inv_def same_nodes_def)

lemma lb_inv_same:
  assumes "lb_inv store config s" and "same_nodes (ls_balancer s) b" and "same_control (ls_balancer s) b"
    and "nodes_ok b"
  shows "lb_inv store config (s\<lparr>ls_balancer := b\<rparr>)"
  using assms by (intro lb_inv_frame) (auto simp: lb_inv_def same_control_def)

lemma lb_inv_quiet:
  assumes "lb_inv store config s" and "lb_store b = lb_store (ls_balancer s)"
    and "lb_nodes b = lb_nodes (ls_balancer s)" and "lb_nodeStats b = lb_nodeStats (ls_balancer s)"
    and "lb_fanOutFactor b = lb_fanOutFactor (ls_balancer s)"
    and "lb_totalRequests (ls_balancer s) \<le> lb_totalRequests b"
  shows "lb_inv store config (s\<lparr>ls_balancer := b\<rparr>)"
  using assms nodes_ok_cong [of "ls_balancer s" b]
  by (intro lb_inv_frame) (simp_all add: lb_inv_def same_nodes_def)

lemma lb_inv_begin:
  assumes "lb_inv store config s"
  shows "lb_inv store config (upd_balancer (begin_on_node a) (s\<lparr>ls_selected := xs, ls_running := a # ls_running s\<rparr>))"
  using assms nodes_ok_upd_node [of "ls_balancer s" "\<lambda>n. n\<lparr>ln_CurrentLoad := ln_CurrentLoad n + 1\<rparr>" a]
  by (simp add: lb_inv_def begin_on_node_def upd_balancer_def)

lemma lb_inv_end:
  assumes "lb_inv store config s" and "k < length (ls_running s)" and "0 \<le> d"
  shows "lb_inv store config (upd_balancer (end_on_node (ls_running s ! k) ok d)
     (s\<lparr>ls_running := drop_at k (ls_running s)\<rparr>))"
proof -
  define a where "a = ls_running s ! k"
  define b where "b = updateNodeStats (ln_ID (lb_store (ls_balancer s) a)) ok d (ls_balancer s)"
  have frame: "same_nodes (ls_balancer s) b" "same_control (ls_balancer s) b"
    unfolding b_def by (rule updateNodeStats_frame)+
  have "nodes_ok b"
    unfolding b_def using assms(1,3) by (intro nodes_ok_updateNodeStats) (simp_all add: lb_inv_def)
  then have ok: "nodes_ok (upd_node a (\<lambda>n. n\<lparr>ln_CurrentLoad := ln_CurrentLoad n - 1\<rparr>) b)"
    by (rule nodes_ok_upd_node) simp_all
  have "end_on_node a ok d (ls_balancer s) = upd_node a (\<lambda>n. n\<lparr>ln_CurrentLoad := ln_CurrentLoad n - 1\<rparr>) b"
    by (simp add: end_on_node_def b_def)
  then show ?thesis
    using assms(1) frame ok count_drop_at [OF assms(2)]
    by (auto simp: lb_inv_def same_nodes_def same_control_def upd_balancer_def a_def [symmetric])
qed

lemma lb_inv_step:
  assumes inv: "lb_inv store config s" and ok: "event_ok s e" and step: "lb_step s e = Some s'"
  shows "lb_inv store config s'"
proof (cases e)
  case (LAdd a)
  then show ?thesis
    using step inv nodes_ok_add [of "ls_balancer s" a]
    by (auto simp: upd_balancer_def lb_inv_def AddNode_def Let_def)
next
  case (LRemove key)
  then show ?thesis
    using step inv nodes_ok_remove [of "ls_balancer s" key]
    by (auto simp: upd_balancer_def lb_inv_def RemoveNode_def)
next
  case LStart
  have "lb_inv store config (s\<lparr>ls_balancer := fst (Start_lb (ls_balancer s))\<rparr>)"
    using inv by (rule lb_inv_quiet) (simp_all add: Start_lb_def)
  then show ?thesis using step LStart by (simp add: upd_balancer_def)
next
  case LShutdown
  have "lb_inv store config (s\<lparr>ls_balancer := fst (Shutdown_lb (ls_balancer s))\<rparr>)"
    using inv by (rule lb_inv_quiet) (simp_all add: Shutdown_lb_def)
  then show ?thesis using step LShutdown by (simp add: upd_balancer_def)
next
  case (LSubmit now request)
  have "lb_inv store config (s\<lparr>ls_balancer := fst (SubmitRequest now request (ls_balancer s))\<rparr>)"
    using inv by (rule lb_inv_quiet) (simp_all add: SubmitRequest_def Let_def)
  then show ?thesis using step LSubmit by (simp add: upd_balancer_def)
next
  case (LSelect order draw)
  show ?thesis
  proof (cases "lb_requestQueue (ls_balancer s)")
    case Nil
    then show ?thesis using step inv LSelect by simp
  next
    case (Cons request rest)
    then obtain b sel where sel: "selectNodes order draw request ((ls_balancer s)\<lparr>lb_requestQueue := rest\<rparr>) = Some (b, sel)"
      and s': "s' = s\<lparr>ls_balancer := b, ls_selected := ls_selected s @ sel\<rparr>"
      using step LSelect by (auto split: option.splits)
    have "lb_inv store config (s\<lparr>ls_balancer := b\<rparr>)"
      using inv by (rule lb_inv_quiet) (use selectNodes_frame [OF sel] in simp_all)
    then show ?thesis by (simp add: s' lb_inv_def)
  qed
next
  case (LBegin k)
  then show ?thesis using step inv lb_inv_begin [OF inv] by (auto split: if_splits)
next
  case (LEnd k success d)
  then show ?thesis using step inv ok lb_inv_end [OF inv] by (auto split: if_splits)
next
  case (LDeliver arrivals)
  have "lb_inv store config (s\<lparr>ls_balancer := send_result r (ls_balancer s)\<rparr>)" for r
    using inv by (rule lb_inv_quiet) (simp_all add: send_result_def)
  then show ?thesis using step inv LDeliver by (auto simp: upd_balancer_def split: option.splits)
next
  case LHandle
  have "lb_inv store config (s\<lparr>ls_balancer := handle_result r ((ls_balancer s)\<lparr>lb_resultQueue := rest\<rparr>)\<rparr>)" for r rest
    using inv by (rule lb_inv_quiet) (simp_all add: handle_result_def Let_def)
  then show ?thesis using step inv LHandle by (auto simp: upd_balancer_def split: list.splits)
next
  case (LCheck a healthy now)
  have "lb_inv store config (s\<lparr>ls_balancer := checkNodeHealth a healthy now (ls_balancer s)\<rparr>)"
    using inv by (intro lb_inv_same updateNodeHealth_frame nodes_ok_health) (simp_all add: lb_inv_def)
  then show ?thesis using step LCheck by (simp add: upd_balancer_def)
next
  case (LEvaluate order)
  note frame = evaluate_frame [of order "ls_balancer s" "bc_FanOutFactor config"]
  have "lb_inv store config (s\<lparr>ls_balancer := evaluateAndAdaptStrategy order (ls_balancer s)\<rparr>)"
    using inv
    by (rule lb_inv_frame)
      (use inv frame nodes_ok_cong in \<open>auto simp: lb_inv_def same_nodes_def\<close>)
  then show ?thesis using step LEvaluate by (simp add: upd_balancer_def)
qed

lemma lb_inv_reachable:
  assumes "lb_reachable store config s" and "1 \<le> bc_FanOutFactor config"
  shows "lb_inv store config s"
  using assms(1)
proof induction
  case lb_init
  show ?case using assms(2) by (simp add: lb_inv_def NewAdaptiveLoadBalancer_def nodes_ok_def)
next
  case (lb_next s e s')
  then show ?case using lb_inv_step by blast
qed

text \<open>
  C26. Under any interleaving of requests, attempts, health checks, adaptations and changes of the
  node set, the load of every node object is its initial load plus the attempts working on it
  (also of objects that have been removed or replaced), the fan-out factor stays between one and
  the larger of five and its configured value (of at least one), and with weights that are not negative no selection
  panics.
\<close>

theorem load_accounting:
  assumes "lb_reachable store config s" and "1 \<le> bc_FanOutFactor config"
    and "\<forall>a. 0 \<le> ln_Weight (store a)"
  shows "(\<forall>a. ln_CurrentLoad (lb_store (ls_balancer s) a) =
      ln_CurrentLoad (store a) + int (count_list (ls_running s) a)) \<and>
    1 \<le> lb_fanOutFactor (ls_balancer s) \<and> lb_fanOutFactor (ls_balancer s) \<le> max 5 (bc_FanOutFactor config) \<and>
    \<not> (\<exists>e. event_ok s e \<and> lb_step s e = None)"
proof -
  have inv: "lb_inv store config s" by (rule lb_inv_reachable [OF assms(1,2)])
  have "lb_step s e \<noteq> None" if "event_ok s e" for e
  proof (cases e)
    case (LSelect order draw)
    show ?thesis
    proof (cases "lb_requestQueue (ls_balancer s)")
      case (Cons request rest)
      define b where "b = (ls_balancer s)\<lparr>lb_requestQueue := rest\<rparr>"
      have "\<exists>b' sel. selectNodes order draw request b = Some (b', sel)"
        using selectNodes_returns [of order b draw request] that inv assms(3) LSelect
        by (auto simp: b_def ranges_def lb_inv_def)
      then show ?thesis using Cons LSelect by (auto simp: b_def)
    qed (simp add: LSelect)
  qed (simp_all split: option.split list.split)
  then show ?thesis using inv by (auto simp: lb_inv_def)
qed

text \<open>
  The statistics of a node follow its outcomes: in every reachable state, for each registered
  node, the handled requests are the successful and the failed ones, and once it has handled one,
  its success rate and its response time, which the strategies read, are those of its statistics.
\<close>

theorem node_statistics_reflected:
  assumes "lb_reachable store config s" and "1 \<le> bc_FanOutFactor config"
    and "lb_nodes (ls_balancer s) key = Some a" and "lb_nodeStats (ls_balancer s) key = Some st"
  shows "ns_RequestsHandled st = ns_SuccessfulReqs st + ns_ErrorReqs st \<and>
    ln_ID (lb_store (ls_balancer s) a) = key \<and>
    (ns_RequestsHandled st = 0 \<or>
     ln_SuccessRate (lb_store (ls_balancer s) a) = of_int (ns_SuccessfulReqs st) / of_int (ns_RequestsHandled st) \<and>
     ln_ResponseTime (lb_store (ls_balancer s) a) = ns_TotalResponseTime st div ns_RequestsHandled st)"
proof -
  have ok: "nodes_ok (ls_balancer s)" using lb_inv_reachable [OF assms(1,2)] by (simp add: lb_inv_def)
  then have "stats_ok st" using assms(4) by (auto simp: nodes_ok_def dest: map_allD)
  moreover obtain st' where "lb_nodeStats (ls_balancer s) key = Some st'"
    "reflects st' (lb_store (ls_balancer s) a)" "ln_ID (lb_store (ls_balancer s) a) = key"
    using ok assms(3) unfolding nodes_ok_def by blast
  ultimately have "stats_ok st" "reflects st (lb_store (ls_balancer s) a)" "ln_ID (lb_store (ls_balancer s) a) = key"
    using assms(4) by simp_all
  then show ?thesis by (auto simp: stats_ok_def reflects_def)
qed

section \<open>The average response time\<close>

lemma handle_result_average:
  assumes "0 \<le> lb_averageResponseTime b" and "0 \<le> qr_ProcessTime r"
    and "lb_totalSuccessful b + lb_totalErrors b = int n"
  shows "lb_totalSuccessful (handle_result r b) + lb_totalErrors (handle_result r b) = int (Suc n) \<and>
    lb_averageResponseTime (handle_result r b) =
      (lb_averageResponseTime b * int (Suc n) + qr_ProcessTime r) div int (Suc (Suc n))"
proof -
  have "0 \<le> lb_averageResponseTime b * int (Suc n) + qr_ProcessTime r" using assms(1,2) by simp
  then have "go_div (lb_averageResponseTime b * int (Suc n) + qr_ProcessTime r) (int (Suc n) + 1) =
      (lb_averageResponseTime b * int (Suc n) + qr_ProcessTime r) div int (Suc (Suc n))"
    by (subst go_div_pos) simp_all
  then show ?thesis using assms(3) by (cases "qr_Success r") (simp_all add: handle_result_def Let_def algebra_simps)
qed

text \<open>
  The reported average divides by one more than the number of results: after any results, the
  average times that number plus one is at most the sum of the response times, so the average is
  below the true mean (half of it after one result).
\<close>

theorem average_divides_by_one_more:
  assumes "\<forall>r \<in> set rs. 0 \<le> qr_ProcessTime r"
  shows "lb_averageResponseTime (fold handle_result rs (NewAdaptiveLoadBalancer store config)) *
      (int (length rs) + 1) \<le> sum_list (map qr_ProcessTime rs)"
proof -
  define b0 where "b0 = NewAdaptiveLoadBalancer store config"
  have "lb_totalSuccessful (fold handle_result rs b0) + lb_totalErrors (fold handle_result rs b0) = int (length rs) \<and>
    0 \<le> lb_averageResponseTime (fold handle_result rs b0) \<and>
    lb_averageResponseTime (fold handle_result rs b0) * (int (length rs) + 1) \<le> sum_list (map qr_ProcessTime rs)"
    using assms
  proof (induction rs rule: rev_induct)
    case Nil
    show ?case by (simp add: b0_def NewAdaptiveLoadBalancer_def)
  next
    case (snoc r rs)
    define b where "b = fold handle_result rs b0"
    have IH: "lb_totalSuccessful b + lb_totalErrors b = int (length rs)" "0 \<le> lb_averageResponseTime b"
      "lb_averageResponseTime b * (int (length rs) + 1) \<le> sum_list (map qr_ProcessTime rs)"
      using snoc by (simp_all add: b_def)
    have t: "0 \<le> qr_ProcessTime r" using snoc.prems by simp
    note step = handle_result_average [OF IH(2) t IH(1)]
    have floor: "x div int (Suc m) * int (Suc m) \<le> x" for x m
      using div_mult_mod_eq [of x "int (Suc m)"] pos_mod_sign [of "int (Suc m)" x] by linarith
    have "lb_averageResponseTime (handle_result r b) * int (Suc (Suc (length rs))) \<le>
        lb_averageResponseTime b * int (Suc (length rs)) + qr_ProcessTime r"
      unfolding conjunct2 [OF step] by (rule floor)
    moreover have "0 \<le> lb_averageResponseTime (handle_result r b)"
      using step IH(2) t by (simp add: pos_imp_zdiv_nonneg_iff del: of_nat_Suc)
    ultimately show ?case using IH step by (simp add: b_def [symmetric] algebra_simps)
  qed
  then show ?thesis by (simp add: b0_def)
qed

section \<open>A concrete run\<close>

fun run_ok :: "lb_system \<Rightarrow> lb_event list \<Rightarrow> bool" where
  "run_ok s [] = True"
| "run_ok s (e # es) = (event_ok s e \<and> (case lb_step s e of None \<Rightarrow> False | Some s' \<Rightarrow> run_ok s' es))"

fun lb_run :: "lb_system \<Rightarrow> lb_event list \<Rightarrow> lb_system" where
  "lb_run s [] = s"
| "lb_run s (e # es) = (case lb_step s e of None \<Rightarrow> s | Some s' \<Rightarrow> lb_run s' es)"

lemma lb_run_reachable:
  "lb_reachable store config s \<Longrightarrow> run_ok s es \<Longrightarrow> lb_reachable store config (lb_run s es)"
  by (induction es arbitrary: s) (auto split: option.splits intro: lb_next)

definition example_config :: lb_config where
  "example_config = \<lparr>bc_FanOutFactor = 2, bc_QueueSize = 8, bc_Strategy = StrategyLeastConnections\<rparr>"

definition example_events :: "lb_event list" where
  "example_events = [LAdd 0, LStart, LSubmit 5 example_task, LSubmit 6 example_task,
     LSelect [0] (\<lambda>n. n - 1), LSelect [0] (\<lambda>n. n - 1), LBegin 0, LEnd 0 True 70, LBegin 0]"

definition example_system :: lb_system where
  "example_system = lb_run
     \<lparr>ls_balancer = NewAdaptiveLoadBalancer example_store example_config, ls_selected = [], ls_running = []\<rparr>
     example_events"

lemmas run_defs = example_events_def example_config_def NewAdaptiveLoadBalancer_def AddNode_def Start_lb_def
  SubmitRequest_def selectNodes_def selectByStrategy_def selectLeastConnections_def is_available_def fanOutCount_def
  begin_on_node_def end_on_node_def updateNodeStats_def upd_node_def upd_balancer_def drop_at_def
  example_store_def example_node_def example_task_def zero_node_stats_def record_outcome_def go_div_def Let_def
  ranges_def draw_ok_def

lemma example_reachable: "lb_reachable example_store example_config example_system"
  unfolding example_system_def
  by (rule lb_run_reachable [OF lb_init]) (simp add: run_defs)

lemma example_system_facts:
  "lb_nodes (ls_balancer example_system) ''a'' = Some 0"
  "lb_nodeStats (ls_balancer example_system) ''a'' = Some \<lparr>ns_RequestsHandled = 1, ns_SuccessfulReqs = 1,
     ns_ErrorReqs = 0, ns_TotalResponseTime = 70, ns_AvgResponseTime = 70, ns_CurrentLoad = 5, ns_HealthStatus = HealthHealthy\<rparr>"
  "ls_running example_system = [0]"
  by (simp_all add: example_system_def run_defs)

lemma load_accounting_witness: "ln_CurrentLoad (lb_store (ls_balancer example_system) 0) = 4 + 1"
proof -
  have "ln_CurrentLoad (lb_store (ls_balancer example_system) 0) =
      ln_CurrentLoad (example_store 0) + int (count_list (ls_running example_system) 0)"
    using load_accounting [OF example_reachable] by (simp add: example_config_def example_store_def example_node_def)
  then show ?thesis by (simp add: example_system_facts example_store_def example_node_def)
qed

lemma node_statistics_reflected_witness:
  "ln_ResponseTime (lb_store (ls_balancer example_system) 0) = 70"
  using node_statistics_reflected [OF example_reachable _ example_system_facts(1,2)] by (simp add: example_config_def)

lemma average_divides_by_one_more_witness:
  "lb_averageResponseTime (fold handle_result
     [\<lparr>qr_TaskID = 1, qr_NodeID = ''a'', qr_Success = True, qr_Error = None, qr_ProcessTime = 70,
       qr_QueueTime = 0, qr_CompletedAt = 0\<rparr>]
     (NewAdaptiveLoadBalancer example_store example_config)) * 2 \<le> 70"
  using average_divides_by_one_more [of "[\<lparr>qr_TaskID = 1, qr_NodeID = ''a'', qr_Success = True, qr_Error = None,
     qr_ProcessTime = 70, qr_QueueTime = 0, qr_CompletedAt = 0\<rparr>]" example_store example_config] by simp

end
