(* ===== verification/ZeroDowntime.thy ===== *)
theory ZeroDowntime
  imports Prelude
begin

text \<open>
  The zero-downtime configuration system of chapter 8,
  \<^verbatim>\<open>08_performance_optimization_and_production_operations/ans_03/zero_downtime_config.go\<close>:
  validation, the versions and the audit log, the staged rollout with its traffic split, the
  health checks, the rollback triggers and the rollback, the file watcher and the HTTP handlers.

  Reading a file, encoding and decoding JSON and the SHA-256 sum are arguments (record
  \<open>environment\<close>); a configuration object is a value, since no code changes one after it has been
  published.  Reload callbacks and printed messages have no effect on the state and are left out;
  the Japanese texts of reasons and errors are short ASCII ones here.
  Each function below is one critical section, or the sequence the code runs without other writers;
  the steps at the end interleave them.
\<close>

section \<open>Configurations\<close>

datatype any_value = AInt int | AFloat real | AString string | ABool bool

record ServerConfig =
  sv_Port :: int
  sv_ReadTimeout :: duration
  sv_WriteTimeout :: duration
  sv_MaxConnections :: int
  sv_EnableTLS :: bool
  sv_TLSCertFile :: string
  sv_TLSKeyFile :: string

record DatabaseConfig =
  dc_Host :: string
  dc_Port :: int
  dc_Database :: string
  dc_Username :: string
  dc_Password :: string
  dc_MaxConnections :: int
  dc_ConnectTimeout :: duration
  dc_QueryTimeout :: duration
  dc_SSLMode :: string

record LoggingConfig =
  lg_Level :: string
  lg_Format :: string
  lg_OutputFile :: string
  lg_MaxSize :: int
  lg_MaxBackups :: int
  lg_Compress :: bool

record ApplicationConfig =
  cf_Version :: string
  cf_Timestamp :: time
  cf_Checksum :: string
  cf_Server :: "ServerConfig option"
  cf_Database :: "DatabaseConfig option"
  cf_Logging :: "LoggingConfig option"
  cf_Features :: "string \<rightharpoonup> bool"
  cf_CustomSettings :: "string \<rightharpoonup> any_value"

section \<open>Validation\<close>

datatype rule_error = PortOutOfRange int int int | ReadTimeoutTooShort duration

datatype cfg_error =
  NoServer | NoDatabase | BadServerPort int | NoDatabaseHost | BadDatabasePort int
| RuleFailed string rule_error

record ValidationRule =
  vr_Name :: string
  vr_Type :: string
  vr_Parameters :: "string \<rightharpoonup> any_value"
  vr_Required :: bool
  vr_ErrorLevel :: string

type_synonym ValidatorFunc = "ApplicationConfig \<Rightarrow> (string \<rightharpoonup> any_value) \<Rightarrow> rule_error option"

record ConfigValidator =
  vd_validationRules :: "ValidationRule list"
  vd_customValidators :: "string \<rightharpoonup> ValidatorFunc"

fun run_rules :: "(string \<rightharpoonup> ValidatorFunc) \<Rightarrow> ApplicationConfig \<Rightarrow> ValidationRule list \<Rightarrow> cfg_error option" where
  "run_rules validators config [] = None"
| "run_rules validators config (rule # rules) =
     (case validators (vr_Type rule) of
        None \<Rightarrow> run_rules validators config rules
      | Some validator \<Rightarrow>
          (case validator config (vr_Parameters rule) of
             None \<Rightarrow> run_rules validators config rules
           | Some err \<Rightarrow>
               (if vr_Required rule \<or> vr_ErrorLevel rule = ''error'' then Some (RuleFailed (vr_Name rule) err)
                else run_rules validators config rules)))"

definition validateConfig :: "ConfigValidator \<Rightarrow> ApplicationConfig \<Rightarrow> cfg_error option" where
  "validateConfig vd config =
     (case cf_Server config of
        None \<Rightarrow> Some NoServer
      | Some server \<Rightarrow>
          (case cf_Database config of
             None \<Rightarrow> Some NoDatabase
           | Some database \<Rightarrow>
               (if sv_Port server \<le> 0 \<or> sv_Port server > 65535 then Some (BadServerPort (sv_Port server))
                else if dc_Host database = [] then Some NoDatabaseHost
                else if dc_Port database \<le> 0 \<or> dc_Port database > 65535 then Some (BadDatabasePort (dc_Port database))
                else run_rules (vd_customValidators vd) config (vd_validationRules vd))))"

text \<open>The type switch of the port validator; a conversion from a float truncates.\<close>

definition int_param :: "any_value option \<Rightarrow> int \<Rightarrow> int" where
  "int_param v otherwise = (case v of
     Some (AInt n) \<Rightarrow> n
   | Some (AFloat x) \<Rightarrow> (if x \<ge> 0 then \<lfloor>x\<rfloor> else \<lceil>x\<rceil>)
   | _ \<Rightarrow> otherwise)"

definition port_validation :: ValidatorFunc where
  "port_validation config params =
    (let minPort = int_param (params ''min_port'') 1;
         maxPort = int_param (params ''max_port'') 65535;
         server = the (cf_Server config); database = the (cf_Database config)
     in if sv_Port server < minPort \<or> sv_Port server > maxPort
        then Some (PortOutOfRange (sv_Port server) minPort maxPort)
        else if dc_Port database < minPort \<or> dc_Port database > maxPort
        then Some (PortOutOfRange (dc_Port database) minPort maxPort)
        else None)"

definition timeout_validation :: ValidatorFunc where
  "timeout_validation config params =
    (let t = sv_ReadTimeout (the (cf_Server config)) in if t < 1 * Second then Some (ReadTimeoutTooShort t) else None)"

definition defaultValidator :: ConfigValidator where
  "defaultValidator = \<lparr>
     vd_validationRules = [
       \<lparr>vr_Name = ''port_range'', vr_Type = ''port_validation'',
        vr_Parameters = [''min_port'' \<mapsto> AInt 1, ''max_port'' \<mapsto> AInt 65535],
        vr_Required = True, vr_ErrorLevel = ''error''\<rparr>,
       \<lparr>vr_Name = ''timeout_values'', vr_Type = ''timeout_validation'',
        vr_Parameters = [''min_timeout'' \<mapsto> AString ''1s'', ''max_timeout'' \<mapsto> AString ''300s''],
        vr_Required = True, vr_ErrorLevel = ''warning''\<rparr>],
     vd_customValidators = [''port_validation'' \<mapsto> port_validation, ''timeout_validation'' \<mapsto> timeout_validation]\<rparr>"

section \<open>The system's state\<close>

record ConfigVersion =
  cv_Version :: string
  cv_Timestamp :: time
  cv_Config :: ApplicationConfig
  cv_ChangeReason :: string
  cv_ChangedBy :: string
  cv_RolloutStatus :: string
  cv_Checksum :: string

record SuccessCriteria =
  sc_MinSuccessRate :: real
  sc_MaxErrorRate :: real
  sc_MaxResponseTime :: duration
  sc_MinThroughput :: real

record RolloutStage =
  sg_Name :: string
  sg_TrafficPercent :: int
  sg_Duration :: duration
  sg_SuccessCriteria :: "SuccessCriteria option"
  sg_AutoPromote :: bool

record RolloutStrategy =
  sy_Name :: string
  sy_Stages :: "RolloutStage list"
  sy_MaxDuration :: duration
  sy_HealthCheckInterval :: duration

record RolloutMetrics =
  rm_TotalRequests :: int
  rm_SuccessfulRequests :: int
  rm_FailedRequests :: int
  rm_AverageResponseTime :: duration
  rm_ThroughputRPS :: real
  rm_ErrorRate :: real
  rm_LastUpdated :: time

datatype rollout_status = InProgress | Completed | RollingBack | RolloutFailed

record RolloutExecution =
  ro_ID :: int
  ro_Strategy :: RolloutStrategy
  ro_StartTime :: time
  ro_CurrentStage :: nat
  ro_Status :: rollout_status
  ro_Metrics :: RolloutMetrics

record TrafficSplitter =
  ts_currentPercent :: int
  ts_targetPercent :: int
  ts_isActive :: bool
  ts_requestCounter :: int

record AuditEntry =
  ae_Timestamp :: time
  ae_Action :: string
  ae_ConfigVersion :: string
  ae_ChangedBy :: string
  ae_ChangeReason :: string
  ae_Changes :: "(string \<times> string \<times> time) option"
  ae_Result :: string
  ae_ErrorMessage :: string

datatype trigger_type = ErrorRateTrigger | ResponseTimeTrigger | HealthTrigger | OtherTrigger

record RollbackTrigger =
  rt_Name :: string
  rt_Type :: trigger_type
  rt_Threshold :: real
  rt_Enabled :: bool

record RollbackEvent =
  re_Timestamp :: time
  re_Trigger :: string
  re_Reason :: string
  re_Success :: bool

datatype check_outcome = Healthy | Unhealthy string | Panics

type_synonym HealthCheck = "ApplicationConfig \<Rightarrow> check_outcome"

record HealthCheckResult =
  hr_Unhealthy :: bool
  hr_Error :: string
  hr_Timestamp :: time

record ConfigUpdateEvent =
  ue_Type :: string
  ue_NewConfig :: "ApplicationConfig option"
  ue_Source :: string
  ue_UserID :: string
  ue_Reason :: string

record FileWatcher =
  fw_lastModTime :: time
  fw_lastSize :: int
  fw_lastChecksum :: string

record zcs =
  z_validator :: ConfigValidator
  z_checks :: "(string \<times> HealthCheck) list"
  z_triggers :: "RollbackTrigger list"
  z_isEnabled :: bool
  z_rolloutStrategy :: RolloutStrategy
  z_maxVersions :: nat
  z_maxEntries :: nat
  z_currentConfig :: "ApplicationConfig option"
  z_pendingConfig :: "ApplicationConfig option"
  z_versions :: "ConfigVersion list"
  z_currentVersion :: string
  z_versionCounter :: int
  z_currentRollout :: "RolloutExecution option"
  z_trafficSplitter :: TrafficSplitter
  z_auditEntries :: "AuditEntry list"
  z_lastCheckResults :: "string \<rightharpoonup> HealthCheckResult"
  z_rollbackHistory :: "RollbackEvent list"
  z_updateCount :: int
  z_lastConfigUpdate :: time
  z_updateChan :: "ConfigUpdateEvent list"
  z_watcher :: FileWatcher
  z_running :: bool
  z_stopped :: bool

definition zero_metrics :: "time \<Rightarrow> RolloutMetrics" where
  "zero_metrics now = \<lparr>rm_TotalRequests = 0, rm_SuccessfulRequests = 0, rm_FailedRequests = 0,
     rm_AverageResponseTime = 0, rm_ThroughputRPS = 0, rm_ErrorRate = 0, rm_LastUpdated = now\<rparr>"

definition default_strategy :: RolloutStrategy where
  "default_strategy = \<lparr>sy_Name = ''default_strategy'', sy_Stages = [
      \<lparr>sg_Name = ''canary'', sg_TrafficPercent = 10, sg_Duration = 5 * Minute, sg_SuccessCriteria = None, sg_AutoPromote = False\<rparr>,
      \<lparr>sg_Name = ''beta'', sg_TrafficPercent = 50, sg_Duration = 10 * Minute, sg_SuccessCriteria = None, sg_AutoPromote = False\<rparr>,
      \<lparr>sg_Name = ''production'', sg_TrafficPercent = 100, sg_Duration = 0, sg_SuccessCriteria = None, sg_AutoPromote = True\<rparr>],
     sy_MaxDuration = 30 * Minute, sy_HealthCheckInterval = 30 * Second\<rparr>"

definition check_validation :: "ConfigValidator \<Rightarrow> HealthCheck" where
  "check_validation vd config = (case validateConfig vd config of None \<Rightarrow> Healthy | Some _ \<Rightarrow> Unhealthy ''config'')"

definition check_server_port :: HealthCheck where
  "check_server_port config = (case cf_Server config of None \<Rightarrow> Panics
     | Some server \<Rightarrow> if sv_Port server \<le> 0 \<or> sv_Port server > 65535 then Unhealthy ''server port'' else Healthy)"

definition check_database :: HealthCheck where
  "check_database config = (case cf_Database config of None \<Rightarrow> Panics
     | Some database \<Rightarrow> if dc_Host database = [] then Unhealthy ''database host'' else Healthy)"

definition default_triggers :: "RollbackTrigger list" where
  "default_triggers = [
     \<lparr>rt_Name = ''high_error_rate'', rt_Type = ErrorRateTrigger, rt_Threshold = 5, rt_Enabled = True\<rparr>,
     \<lparr>rt_Name = ''slow_response'', rt_Type = ResponseTimeTrigger, rt_Threshold = 1000, rt_Enabled = True\<rparr>,
     \<lparr>rt_Name = ''health_check_failures'', rt_Type = HealthTrigger, rt_Threshold = 50, rt_Enabled = True\<rparr>]"

definition NewZeroDowntimeConfigSystem :: zcs where
  "NewZeroDowntimeConfigSystem = \<lparr>z_validator = defaultValidator,
     z_checks = [(''config_validation'', check_validation defaultValidator),
       (''server_port'', check_server_port), (''database_config'', check_database)],
     z_triggers = default_triggers, z_isEnabled = True, z_rolloutStrategy = default_strategy,
     z_maxVersions = 50, z_maxEntries = 10000, z_currentConfig = None, z_pendingConfig = None, z_versions = [],
     z_currentVersion = [], z_versionCounter = 0, z_currentRollout = None,
     z_trafficSplitter = \<lparr>ts_currentPercent = 0, ts_targetPercent = 0, ts_isActive = False, ts_requestCounter = 0\<rparr>,
     z_auditEntries = [], z_lastCheckResults = Map.empty, z_rollbackHistory = [], z_updateCount = 0,
     z_lastConfigUpdate = 0, z_updateChan = [],
     z_watcher = \<lparr>fw_lastModTime = 0, fw_lastSize = 0, fw_lastChecksum = []\<rparr>,
     z_running = False, z_stopped = False\<rparr>"

section \<open>Versions and audit\<close>

definition addVersion :: "time \<Rightarrow> ApplicationConfig \<Rightarrow> string \<Rightarrow> string \<Rightarrow> zcs \<Rightarrow> zcs" where
  "addVersion now config reason changedBy z =
    (let version = \<lparr>cv_Version = cf_Version config, cv_Timestamp = now, cv_Config = config,
           cv_ChangeReason = reason, cv_ChangedBy = changedBy, cv_RolloutStatus = ''applied'',
           cv_Checksum = cf_Checksum config\<rparr>;
         versions = z_versions z @ [version]
     in z\<lparr>z_versions := (if length versions > z_maxVersions z then drop 1 versions else versions),
          z_currentVersion := cf_Version config, z_versionCounter := z_versionCounter z + 1\<rparr>)"

definition logAction ::
  "time \<Rightarrow> string \<Rightarrow> ApplicationConfig option \<Rightarrow> string \<Rightarrow> string \<Rightarrow> string \<Rightarrow> string \<Rightarrow> zcs \<Rightarrow> zcs" where
  "logAction now action config changedBy reason result errorMsg z =
    (let entry = \<lparr>ae_Timestamp = now, ae_Action = action,
           ae_ConfigVersion = (case config of None \<Rightarrow> [] | Some c \<Rightarrow> cf_Version c),
           ae_ChangedBy = changedBy, ae_ChangeReason = reason,
           ae_Changes = map_option (\<lambda>c. (cf_Version c, cf_Checksum c, cf_Timestamp c)) config,
           ae_Result = result, ae_ErrorMessage = errorMsg\<rparr>;
         entries = z_auditEntries z @ [entry]
     in z\<lparr>z_auditEntries := (if length entries > z_maxEntries z then drop 1 entries else entries)\<rparr>)"

section \<open>Loading a configuration\<close>

record environment =
  en_checksum :: "string \<Rightarrow> string"
  en_marshal :: "ApplicationConfig \<Rightarrow> string option"
  en_unmarshal :: "string \<Rightarrow> ApplicationConfig option"

datatype read_result = FileData string | FileMissing | FileError

datatype load_error = ReadFailed | ParseFailed | MarshalFailed | WriteFailed | Invalid cfg_error

definition default_config :: "time \<Rightarrow> ApplicationConfig" where
  "default_config now = \<lparr>cf_Version = ''1.0.0'', cf_Timestamp = now, cf_Checksum = [],
     cf_Server = Some \<lparr>sv_Port = 8080, sv_ReadTimeout = 30 * Second, sv_WriteTimeout = 30 * Second,
       sv_MaxConnections = 1000, sv_EnableTLS = False, sv_TLSCertFile = [], sv_TLSKeyFile = []\<rparr>,
     cf_Database = Some \<lparr>dc_Host = ''localhost'', dc_Port = 5432, dc_Database = ''app_db'', dc_Username = ''app_user'',
       dc_Password = [], dc_MaxConnections = 20, dc_ConnectTimeout = 10 * Second, dc_QueryTimeout = 30 * Second,
       dc_SSLMode = ''disable''\<rparr>,
     cf_Logging = Some \<lparr>lg_Level = ''info'', lg_Format = ''json'', lg_OutputFile = ''app.log'',
       lg_MaxSize = 100 * 1024 * 1024, lg_MaxBackups = 5, lg_Compress = True\<rparr>,
     cf_Features = [''feature_a'' \<mapsto> True, ''feature_b'' \<mapsto> False, ''feature_c'' \<mapsto> True],
     cf_CustomSettings = [''max_retry_count'' \<mapsto> AInt 3, ''batch_size'' \<mapsto> AInt 1000, ''enable_metrics'' \<mapsto> ABool True]\<rparr>"

text \<open>\<open>written\<close>: writing the default file succeeded.\<close>

definition createDefaultConfig :: "environment \<Rightarrow> bool \<Rightarrow> time \<Rightarrow> zcs \<Rightarrow> zcs \<times> load_error option" where
  "createDefaultConfig en written now z =
    (let config = default_config now
     in case en_marshal en config of
          None \<Rightarrow> (z, Some MarshalFailed)
        | Some data \<Rightarrow>
            (if \<not> written then (z, Some WriteFailed)
             else (z\<lparr>z_currentConfig := Some (config\<lparr>cf_Checksum := en_checksum en data\<rparr>)\<rparr>, None)))"

definition loadInitialConfig :: "environment \<Rightarrow> read_result \<Rightarrow> bool \<Rightarrow> time \<Rightarrow> zcs \<Rightarrow> zcs \<times> load_error option" where
  "loadInitialConfig en contents written now z =
     (case contents of
        FileMissing \<Rightarrow> createDefaultConfig en written now z
      | FileError \<Rightarrow> (z, Some ReadFailed)
      | FileData data \<Rightarrow>
          (case en_unmarshal en data of
             None \<Rightarrow> (z, Some ParseFailed)
           | Some config0 \<Rightarrow>
               (let config = config0\<lparr>cf_Checksum := en_checksum en data, cf_Timestamp := now\<rparr>
                in case validateConfig (z_validator z) config of
                     Some err \<Rightarrow> (z, Some (Invalid err))
                   | None \<Rightarrow>
                       (logAction now ''initial_load'' (Some config) ''system'' ''initial load'' ''success'' []
                          (addVersion now config ''initial_load'' ''system'' (z\<lparr>z_currentConfig := Some config\<rparr>)), None))))"

datatype start_error = SystemStopped | AlreadyStarted | InitialLoad load_error | ListenFailed

definition Start_zcs ::
  "environment \<Rightarrow> read_result \<Rightarrow> bool \<Rightarrow> bool \<Rightarrow> time \<Rightarrow> zcs \<Rightarrow> zcs \<times> start_error option" where
  "Start_zcs en contents written listening now z =
     (if z_stopped z then (z, Some SystemStopped)
      else if z_running z then (z, Some AlreadyStarted)
      else (case loadInitialConfig en contents written now z of
              (z1, Some err) \<Rightarrow> (z1, Some (InitialLoad err))
            | (z1, None) \<Rightarrow>
                (if \<not> listening then (z1, Some ListenFailed) else (z1\<lparr>z_running := True\<rparr>, None))))"

definition Stop_zcs :: "zcs \<Rightarrow> zcs" where
  "Stop_zcs z = (if \<not> z_running z then z else z\<lparr>z_running := False, z_stopped := True\<rparr>)"

definition loadConfigFromFile :: "environment \<Rightarrow> read_result \<Rightarrow> time \<Rightarrow> load_error + ApplicationConfig" where
  "loadConfigFromFile en contents now =
     (case contents of
        FileData data \<Rightarrow>
          (case en_unmarshal en data of
             None \<Rightarrow> Inl ParseFailed
           | Some config \<Rightarrow> Inr (config\<lparr>cf_Checksum := en_checksum en data, cf_Timestamp := now\<rparr>))
      | _ \<Rightarrow> Inl ReadFailed)"

section \<open>The rollout\<close>

definition set_target :: "int \<Rightarrow> zcs \<Rightarrow> zcs" where
  "set_target target z = z\<lparr>z_trafficSplitter := (z_trafficSplitter z)\<lparr>ts_targetPercent := target\<rparr>\<rparr>"

definition set_splitter :: "int \<Rightarrow> int \<Rightarrow> bool \<Rightarrow> zcs \<Rightarrow> zcs" where
  "set_splitter current target active z = z\<lparr>z_trafficSplitter := (z_trafficSplitter z)
     \<lparr>ts_currentPercent := current, ts_targetPercent := target, ts_isActive := active\<rparr>\<rparr>"

definition set_rollout :: "RolloutExecution \<Rightarrow> zcs \<Rightarrow> zcs" where
  "set_rollout r z = z\<lparr>z_currentRollout := Some r\<rparr>"

definition applyConfigPartially :: "ApplicationConfig \<Rightarrow> int \<Rightarrow> zcs \<Rightarrow> zcs" where
  "applyConfigPartially newConfig trafficPercent z =
     (if trafficPercent \<ge> 100 then z\<lparr>z_currentConfig := Some newConfig\<rparr>
      else z\<lparr>z_pendingConfig := Some newConfig\<rparr>)"

definition applyConfigGradually :: "time \<Rightarrow> ApplicationConfig \<Rightarrow> RolloutExecution \<Rightarrow> zcs \<Rightarrow> zcs" where
  "applyConfigGradually now newConfig execution z =
    (let stage = sy_Stages (ro_Strategy execution) ! ro_CurrentStage execution
     in addVersion now newConfig (''canary_rollout_'' @ sg_Name stage) ''system''
          (applyConfigPartially newConfig (sg_TrafficPercent stage) (set_target (sg_TrafficPercent stage) z)))"

text \<open>An empty list of stages is an index out of range: \<open>None\<close>.\<close>

definition startCanaryRollout :: "time \<Rightarrow> ApplicationConfig \<Rightarrow> zcs \<Rightarrow> zcs option" where
  "startCanaryRollout now newConfig z =
    (let execution = \<lparr>ro_ID = now div Second, ro_Strategy = z_rolloutStrategy z, ro_StartTime = now,
           ro_CurrentStage = 0, ro_Status = InProgress, ro_Metrics = zero_metrics now\<rparr>
     in case sy_Stages (ro_Strategy execution) of
          [] \<Rightarrow> None
        | stage # _ \<Rightarrow>
            Some (applyConfigGradually now newConfig execution
                    (set_splitter 0 (sg_TrafficPercent stage) True (set_rollout execution z))))"

datatype update_error = LoadError load_error | EncodeError | ValidationError cfg_error | RolloutPanic

definition apply_update ::
  "ConfigUpdateEvent \<Rightarrow> time \<Rightarrow> ApplicationConfig \<Rightarrow> zcs \<Rightarrow> zcs \<times> update_error option" where
  "apply_update event now newConfig z =
     (if map_option cf_Checksum (z_currentConfig z) = Some (cf_Checksum newConfig) then (z, None)
      else (case validateConfig (z_validator z) newConfig of
              Some err \<Rightarrow> (z, Some (ValidationError err))
            | None \<Rightarrow>
                (case startCanaryRollout now newConfig z of
                   None \<Rightarrow> (z, Some RolloutPanic)
                 | Some z1 \<Rightarrow>
                     (logAction now ''config_update'' (Some newConfig) (ue_UserID event) (ue_Reason event) ''success'' []
                        (z1\<lparr>z_updateCount := z_updateCount z1 + 1, z_lastConfigUpdate := now\<rparr>), None))))"

definition processConfigUpdate ::
  "environment \<Rightarrow> read_result \<Rightarrow> time \<Rightarrow> ConfigUpdateEvent \<Rightarrow> zcs \<Rightarrow> zcs \<times> update_error option" where
  "processConfigUpdate en contents now event z =
     (case ue_NewConfig event of
        Some config \<Rightarrow>
          (case en_marshal en config of
             None \<Rightarrow> (z, Some EncodeError)
           | Some data \<Rightarrow>
               apply_update event now (config\<lparr>cf_Checksum := en_checksum en data, cf_Timestamp := now\<rparr>) z)
      | None \<Rightarrow>
          (case loadConfigFromFile en contents now of
             Inl err \<Rightarrow> (z, Some (LoadError err))
           | Inr config \<Rightarrow> apply_update event now config z))"

fun update_error_text :: "update_error \<Rightarrow> string" where
  "update_error_text (LoadError _) = ''load error''"
| "update_error_text EncodeError = ''encode error''"
| "update_error_text (ValidationError _) = ''validation error''"
| "update_error_text RolloutPanic = ''index out of range''"

text \<open>One turn of \<^verbatim>\<open>configUpdateLoop\<close>; \<open>None\<close> is a panic.\<close>

definition configUpdateLoop :: "environment \<Rightarrow> read_result \<Rightarrow> time \<Rightarrow> zcs \<Rightarrow> zcs option" where
  "configUpdateLoop en contents now z =
     (case z_updateChan z of
        [] \<Rightarrow> Some z
      | event # rest \<Rightarrow>
          (case processConfigUpdate en contents now event (z\<lparr>z_updateChan := rest\<rparr>) of
             (z1, None) \<Rightarrow> Some z1
           | (z1, Some RolloutPanic) \<Rightarrow> None
           | (z1, Some err) \<Rightarrow>
               Some (logAction now ''update_failed'' None (ue_UserID event) (ue_Reason event) ''error''
                  (update_error_text err) z1)))"

definition updateRolloutMetrics :: "time \<Rightarrow> int \<Rightarrow> RolloutExecution \<Rightarrow> RolloutExecution" where
  "updateRolloutMetrics now requestCounter rollout =
    (let total = requestCounter; successful = go_div (total * 95) 100; failed = total - successful;
         m = ro_Metrics rollout
     in rollout\<lparr>ro_Metrics := m\<lparr>rm_TotalRequests := total, rm_SuccessfulRequests := successful,
          rm_FailedRequests := failed,
          rm_ErrorRate := (if total > 0 then of_int failed / of_int total * 100 else rm_ErrorRate m),
          rm_AverageResponseTime := 150 * Millisecond, rm_ThroughputRPS := 100, rm_LastUpdated := now\<rparr>\<rparr>)"

definition checkSuccessCriteria :: "RolloutExecution \<Rightarrow> bool" where
  "checkSuccessCriteria rollout =
     (case sg_SuccessCriteria (sy_Stages (ro_Strategy rollout) ! ro_CurrentStage rollout) of
        None \<Rightarrow> True
      | Some criteria \<Rightarrow>
          (let metrics = ro_Metrics rollout
           in if rm_ErrorRate metrics > sc_MaxErrorRate criteria then False
              else if rm_AverageResponseTime metrics > sc_MaxResponseTime criteria then False
              else if rm_ThroughputRPS metrics < sc_MinThroughput criteria then False
              else True))"

definition promoteToNextStage :: "RolloutExecution \<Rightarrow> zcs \<Rightarrow> zcs" where
  "promoteToNextStage rollout0 z =
    (let rollout = rollout0\<lparr>ro_CurrentStage := ro_CurrentStage rollout0 + 1\<rparr>;
         nextStage = sy_Stages (ro_Strategy rollout) ! ro_CurrentStage rollout;
         z1 = set_target (sg_TrafficPercent nextStage) (set_rollout rollout z)
     in case z_pendingConfig z1 of
          None \<Rightarrow> z1
        | Some pending \<Rightarrow> applyConfigPartially pending (sg_TrafficPercent nextStage) z1)"

definition completeRollout :: "time \<Rightarrow> RolloutExecution \<Rightarrow> zcs \<Rightarrow> zcs" where
  "completeRollout now rollout z =
    (let z1 = set_rollout (rollout\<lparr>ro_Status := Completed\<rparr>) z;
         z2 = (case z_pendingConfig z1 of
                 None \<Rightarrow> z1
               | Some pending \<Rightarrow> z1\<lparr>z_currentConfig := Some pending, z_pendingConfig := None\<rparr>);
         z3 = set_splitter 100 (ts_targetPercent (z_trafficSplitter z2)) False z2
     in logAction now ''rollout_completed'' (z_currentConfig z3) ''system'' ''rollout completed'' ''success'' [] z3)"

text \<open>The critical section of \<^verbatim>\<open>monitorRolloutProgress\<close>; the flag is \<^verbatim>\<open>timedOut\<close>.\<close>

definition monitorRolloutProgress :: "time \<Rightarrow> zcs \<Rightarrow> zcs \<times> bool" where
  "monitorRolloutProgress now z =
     (case z_currentRollout z of
        None \<Rightarrow> (z, False)
      | Some rollout0 \<Rightarrow>
          (if ro_Status rollout0 \<noteq> InProgress then (z, False)
           else (let rollout = updateRolloutMetrics now (ts_requestCounter (z_trafficSplitter z)) rollout0;
                     z0 = set_rollout rollout z;
                     z1 = (if checkSuccessCriteria rollout
                           then (if int (ro_CurrentStage rollout) < int (length (sy_Stages (ro_Strategy rollout))) - 1
                                 then promoteToNextStage rollout z0 else completeRollout now rollout z0)
                           else z0)
                 in (z1, (case z_currentRollout z1 of None \<Rightarrow> False
                          | Some r \<Rightarrow> ro_Status r = InProgress \<and>
                              time_Sub now (ro_StartTime r) > sy_MaxDuration (ro_Strategy r))))))"

section \<open>Rollback\<close>

text \<open>The parts of \<^verbatim>\<open>triggerAutoRollback\<close> and \<^verbatim>\<open>rollbackToPreviousVersion\<close>, in their order.\<close>

definition mark_rolling_back :: "zcs \<Rightarrow> zcs" where
  "mark_rolling_back z = z\<lparr>z_currentRollout := map_option (\<lambda>r. r\<lparr>ro_Status := RollingBack\<rparr>) (z_currentRollout z)\<rparr>"

definition previousVersion :: "zcs \<Rightarrow> ConfigVersion option" where
  "previousVersion z =
     (if length (z_versions z) < 2 then None else Some (z_versions z ! (length (z_versions z) - 2)))"

definition restore_version :: "time \<Rightarrow> ConfigVersion \<Rightarrow> string \<Rightarrow> string \<Rightarrow> zcs \<Rightarrow> zcs" where
  "restore_version now v trigger reason z =
     logAction now ''config_rollback'' (Some (cv_Config v)) ''system_auto_rollback''
       (''trigger: '' @ trigger @ '', reason: '' @ reason) ''success'' []
       (set_splitter 100 100 False (z\<lparr>z_currentConfig := Some (cv_Config v), z_pendingConfig := None\<rparr>))"

definition rollbackToPreviousVersion :: "time \<Rightarrow> string \<Rightarrow> string \<Rightarrow> zcs \<Rightarrow> zcs \<times> bool" where
  "rollbackToPreviousVersion now trigger reason z =
     (case previousVersion z of None \<Rightarrow> (z, False) | Some v \<Rightarrow> (restore_version now v trigger reason z, True))"

definition record_rollback :: "time \<Rightarrow> string \<Rightarrow> string \<Rightarrow> bool \<Rightarrow> zcs \<Rightarrow> zcs" where
  "record_rollback now trigger reason success z =
    (let z1 = z\<lparr>z_rollbackHistory := z_rollbackHistory z @
           [\<lparr>re_Timestamp = now, re_Trigger = trigger, re_Reason = reason, re_Success = success\<rparr>]\<rparr>
     in if success then logAction now ''auto_rollback'' (z_currentConfig z1) ''system'' reason ''success'' [] z1 else z1)"

definition triggerAutoRollback :: "time \<Rightarrow> string \<Rightarrow> string \<Rightarrow> zcs \<Rightarrow> zcs" where
  "triggerAutoRollback now trigger reason z =
     (case rollbackToPreviousVersion now trigger reason (mark_rolling_back z) of
        (z1, success) \<Rightarrow> record_rollback now trigger reason success z1)"

text \<open>\<open>order\<close> is the range over the last results.\<close>

definition evaluateRollbackTrigger :: "string list \<Rightarrow> RollbackTrigger \<Rightarrow> zcs \<Rightarrow> bool" where
  "evaluateRollbackTrigger order trigger z =
     (case rt_Type trigger of
        ErrorRateTrigger \<Rightarrow>
          (case z_currentRollout z of None \<Rightarrow> False
           | Some r \<Rightarrow> rm_ErrorRate (ro_Metrics r) > rt_Threshold trigger)
      | ResponseTimeTrigger \<Rightarrow>
          (case z_currentRollout z of None \<Rightarrow> False
           | Some r \<Rightarrow> of_int (go_div (rm_AverageResponseTime (ro_Metrics r)) Millisecond) > rt_Threshold trigger)
      | HealthTrigger \<Rightarrow>
          (let results = map (\<lambda>k. the (z_lastCheckResults z k)) order
           in if results = [] then False
              else of_nat (length (filter hr_Unhealthy results)) / of_nat (length results) * 100 > rt_Threshold trigger)
      | OtherTrigger \<Rightarrow> False)"

text \<open>The first enabled trigger that fires, if any.\<close>

fun firing_trigger :: "string list \<Rightarrow> RollbackTrigger list \<Rightarrow> zcs \<Rightarrow> RollbackTrigger option" where
  "firing_trigger order [] z = None"
| "firing_trigger order (t # ts) z =
     (if \<not> rt_Enabled t then firing_trigger order ts z
      else if evaluateRollbackTrigger order t z then Some t else firing_trigger order ts z)"

definition checkRollbackTriggers :: "string list \<Rightarrow> time \<Rightarrow> zcs \<Rightarrow> zcs" where
  "checkRollbackTriggers order now z =
     (case firing_trigger order (z_triggers z) z of
        None \<Rightarrow> z
      | Some t \<Rightarrow> triggerAutoRollback now (rt_Name t) (''trigger '' @ rt_Name t @ '' fired'') z)"

section \<open>Health checks\<close>

fun run_checks ::
  "time \<Rightarrow> ApplicationConfig \<Rightarrow> (string \<times> HealthCheck) list \<Rightarrow> (string \<times> HealthCheckResult) list option" where
  "run_checks now config [] = Some []"
| "run_checks now config ((name, check) # checks) =
     (case check config of
        Panics \<Rightarrow> None
      | outcome \<Rightarrow>
          map_option (\<lambda>rest. (name, \<lparr>hr_Unhealthy = (outcome \<noteq> Healthy),
             hr_Error = (case outcome of Unhealthy err \<Rightarrow> err | _ \<Rightarrow> []), hr_Timestamp = now\<rparr>) # rest)
            (run_checks now config checks))"

definition handleHealthCheckFailure :: "string list \<Rightarrow> time \<Rightarrow> zcs \<Rightarrow> zcs" where
  "handleHealthCheckFailure order now z =
     (case z_currentRollout z of
        None \<Rightarrow> z
      | Some r \<Rightarrow> if ro_Status r = InProgress then checkRollbackTriggers order now z else z)"

definition performHealthChecks :: "string list \<Rightarrow> time \<Rightarrow> zcs \<Rightarrow> zcs option" where
  "performHealthChecks order now z =
     (case z_currentConfig z of
        None \<Rightarrow> Some z
      | Some config \<Rightarrow>
          (case run_checks now config (z_checks z) of
             None \<Rightarrow> None
           | Some results \<Rightarrow>
               (let z1 = z\<lparr>z_lastCheckResults := z_lastCheckResults z ++ map_of results\<rparr>
                in Some (if \<exists>r \<in> set results. hr_Unhealthy (snd r) then handleHealthCheckFailure order now z1 else z1))))"

section \<open>The contents watcher and the HTTP handlers\<close>

definition checkFileChange :: "(string \<Rightarrow> string) \<Rightarrow> (time \<times> int) option \<Rightarrow> read_result \<Rightarrow> FileWatcher \<Rightarrow> FileWatcher \<times> bool" where
  "checkFileChange checksum stat contents w =
     (case stat of
        None \<Rightarrow> (w, False)
      | Some (modTime, bytes) \<Rightarrow>
          (let changed = (modTime \<noteq> fw_lastModTime w \<or> bytes \<noteq> fw_lastSize w);
               w1 = w\<lparr>fw_lastModTime := modTime, fw_lastSize := bytes\<rparr>
           in if changed
              then (case contents of
                      FileData data \<Rightarrow>
                        (if checksum data \<noteq> fw_lastChecksum w1
                         then (w1\<lparr>fw_lastChecksum := checksum data\<rparr>, True) else (w1, False))
                    | _ \<Rightarrow> (w1, False))
              else (w1, False)))"

datatype enqueue_error = QueueStopped | QueueFull

definition enqueueUpdate :: "ConfigUpdateEvent \<Rightarrow> zcs \<Rightarrow> zcs \<times> enqueue_error option" where
  "enqueueUpdate event z =
     (if z_stopped z then (z, Some QueueStopped)
      else if length (z_updateChan z) < 100 then (z\<lparr>z_updateChan := z_updateChan z @ [event]\<rparr>, None)
      else (z, Some QueueFull))"

text \<open>One tick of \<^verbatim>\<open>fileWatchLoop\<close>; its callback sends without looking at the stop channel.\<close>

definition fileWatchLoop :: "(string \<Rightarrow> string) \<Rightarrow> (time \<times> int) option \<Rightarrow> read_result \<Rightarrow> zcs \<Rightarrow> zcs" where
  "fileWatchLoop checksum stat contents z =
     (case checkFileChange checksum stat contents (z_watcher z) of
        (w, changed) \<Rightarrow>
          (let z1 = z\<lparr>z_watcher := w\<rparr>
           in if changed \<and> length (z_updateChan z1) < 100
              then z1\<lparr>z_updateChan := z_updateChan z1 @ [\<lparr>ue_Type = ''file_change'', ue_NewConfig = None,
                ue_Source = ''file_watcher'', ue_UserID = ''system'', ue_Reason = ''change detected''\<rparr>]\<rparr>
              else z1))"

text \<open>The handlers return the new state and the HTTP status.\<close>

definition configPostAPIHandler :: "ApplicationConfig option \<Rightarrow> string \<Rightarrow> string \<Rightarrow> zcs \<Rightarrow> zcs \<times> int" where
  "configPostAPIHandler body user reason z =
     (case body of
        None \<Rightarrow> (z, 400)
      | Some config \<Rightarrow>
          (case enqueueUpdate \<lparr>ue_Type = ''api_update'', ue_NewConfig = Some config, ue_Source = ''api'',
                  ue_UserID = user, ue_Reason = reason\<rparr> z of
             (z1, Some _) \<Rightarrow> (z1, 503)
           | (z1, None) \<Rightarrow> (z1, 202)))"

definition reloadAPIHandler :: "string \<Rightarrow> zcs \<Rightarrow> zcs \<times> int" where
  "reloadAPIHandler user z =
     (case enqueueUpdate \<lparr>ue_Type = ''manual_reload'', ue_NewConfig = None, ue_Source = ''api'',
             ue_UserID = user, ue_Reason = ''manual reload''\<rparr> z of
        (z1, Some _) \<Rightarrow> (z1, 503)
      | (z1, None) \<Rightarrow> (z1, 200))"

definition rollbackAPIHandler :: "time \<Rightarrow> string \<Rightarrow> zcs \<Rightarrow> zcs \<times> int" where
  "rollbackAPIHandler now reason z =
     (case rollbackToPreviousVersion now ''manual'' (if reason = [] then ''manual rollback'' else reason) z of
        (z1, True) \<Rightarrow> (z1, 200)
      | (z1, False) \<Rightarrow> (z1, 500))"

definition healthAPIHandler :: "string list \<Rightarrow> zcs \<Rightarrow> int" where
  "healthAPIHandler order z =
     (if \<exists>k \<in> set order. hr_Unhealthy (the (z_lastCheckResults z k)) then 503 else 200)"

section \<open>The invariant\<close>

abbreviation valid_config :: "ApplicationConfig \<Rightarrow> bool" where
  "valid_config config \<equiv> validateConfig defaultValidator config = None"

definition default_checks :: "(string \<times> HealthCheck) list" where
  "default_checks = [(''config_validation'', check_validation defaultValidator),
     (''server_port'', check_server_port), (''database_config'', check_database)]"

definition rollout_ok :: "RolloutExecution \<Rightarrow> bool" where
  "rollout_ok r \<longleftrightarrow> ro_Strategy r = default_strategy \<and> ro_CurrentStage r < 3 \<and>
     rm_ErrorRate (ro_Metrics r) = 0 \<and>
     (rm_AverageResponseTime (ro_Metrics r) = 0 \<or> rm_AverageResponseTime (ro_Metrics r) = 150 * Millisecond)"

definition settings_ok :: "zcs \<Rightarrow> bool" where
  "settings_ok z \<longleftrightarrow> z_validator z = defaultValidator \<and> z_checks z = default_checks \<and>
     z_triggers z = default_triggers \<and> z_rolloutStrategy z = default_strategy \<and>
     z_maxVersions z = 50 \<and> z_maxEntries z = 10000 \<and> ts_requestCounter (z_trafficSplitter z) = 0"

definition zcs_ok :: "zcs \<Rightarrow> bool" where
  "zcs_ok z \<longleftrightarrow> settings_ok z \<and> pred_option valid_config (z_currentConfig z) \<and>
     pred_option valid_config (z_pendingConfig z) \<and> list_all (valid_config \<circ> cv_Config) (z_versions z) \<and>
     pred_option rollout_ok (z_currentRollout z) \<and> map_all (\<lambda>r. \<not> hr_Unhealthy r) (z_lastCheckResults z) \<and>
     length (z_versions z) \<le> 50 \<and> length (z_auditEntries z) \<le> 10000"

lemma zcs_ok_new: "zcs_ok NewZeroDowntimeConfigSystem"
  by (simp add: zcs_ok_def settings_ok_def NewZeroDowntimeConfigSystem_def default_checks_def)

lemma ok_log: "zcs_ok z \<Longrightarrow> zcs_ok (logAction now action config user reason result err z)"
  by (auto simp: zcs_ok_def settings_ok_def logAction_def Let_def)

lemma ok_version: "zcs_ok z \<Longrightarrow> valid_config config \<Longrightarrow> zcs_ok (addVersion now config reason user z)"
  by (cases "z_versions z") (auto simp: zcs_ok_def settings_ok_def addVersion_def Let_def)

lemma ok_target: "zcs_ok z \<Longrightarrow> zcs_ok (set_target n z)"
  by (simp add: zcs_ok_def settings_ok_def set_target_def)

lemma ok_splitter: "zcs_ok z \<Longrightarrow> zcs_ok (set_splitter c n a z)"
  by (simp add: zcs_ok_def settings_ok_def set_splitter_def)

lemma ok_rollout: "zcs_ok z \<Longrightarrow> rollout_ok r \<Longrightarrow> zcs_ok (set_rollout r z)"
  by (simp add: zcs_ok_def settings_ok_def set_rollout_def)

lemma ok_partially: "zcs_ok z \<Longrightarrow> valid_config config \<Longrightarrow> zcs_ok (applyConfigPartially config n z)"
  by (simp add: zcs_ok_def settings_ok_def applyConfigPartially_def)

lemma ok_current: "zcs_ok z \<Longrightarrow> valid_config config \<Longrightarrow> zcs_ok (z\<lparr>z_currentConfig := Some config\<rparr>)"
  by (simp add: zcs_ok_def settings_ok_def)

lemma ok_restored:
  "zcs_ok z \<Longrightarrow> valid_config config \<Longrightarrow> zcs_ok (z\<lparr>z_currentConfig := Some config, z_pendingConfig := None\<rparr>)"
  by (simp add: zcs_ok_def settings_ok_def)

lemma ok_counted: "zcs_ok z \<Longrightarrow> zcs_ok (z\<lparr>z_updateCount := n, z_lastConfigUpdate := t\<rparr>)"
  by (simp add: zcs_ok_def settings_ok_def)

lemma ok_queue: "zcs_ok z \<Longrightarrow> zcs_ok (z\<lparr>z_updateChan := q\<rparr>)"
  by (simp add: zcs_ok_def settings_ok_def)

lemma ok_watcher: "zcs_ok z \<Longrightarrow> zcs_ok (z\<lparr>z_watcher := w\<rparr>)"
  by (simp add: zcs_ok_def settings_ok_def)

lemma ok_lifecycle: "zcs_ok z \<Longrightarrow> zcs_ok (z\<lparr>z_running := a\<rparr>)" "zcs_ok z \<Longrightarrow> zcs_ok (z\<lparr>z_running := a, z_stopped := b\<rparr>)"
  by (simp_all add: zcs_ok_def settings_ok_def)

lemma ok_history: "zcs_ok z \<Longrightarrow> zcs_ok (z\<lparr>z_rollbackHistory := h\<rparr>)"
  by (simp add: zcs_ok_def settings_ok_def)

lemmas ok_intros = ok_log ok_version ok_target ok_splitter ok_rollout ok_partially ok_current ok_restored
  ok_counted ok_queue ok_watcher ok_lifecycle ok_history

lemma ok_settings:
  assumes "zcs_ok z"
  shows "z_validator z = defaultValidator" "z_checks z = default_checks" "z_triggers z = default_triggers"
    "z_rolloutStrategy z = default_strategy" "ts_requestCounter (z_trafficSplitter z) = 0"
  using assms by (simp_all add: zcs_ok_def settings_ok_def)

lemma ok_values:
  "zcs_ok z \<Longrightarrow> z_currentConfig z = Some config \<Longrightarrow> valid_config config"
  "zcs_ok z \<Longrightarrow> z_pendingConfig z = Some config \<Longrightarrow> valid_config config"
  "zcs_ok z \<Longrightarrow> z_currentRollout z = Some r \<Longrightarrow> rollout_ok r"
  by (simp_all add: zcs_ok_def)

lemma default_stages: "length (sy_Stages default_strategy) = 3"
  by (simp add: default_strategy_def)

lemma validate_shape:
  assumes "valid_config config"
  shows "\<exists>server database. cf_Server config = Some server \<and> cf_Database config = Some database \<and>
    0 < sv_Port server \<and> sv_Port server \<le> 65535 \<and> dc_Host database \<noteq> []"
  using assms by (auto simp: validateConfig_def split: option.splits if_splits)

lemma valid_default: "valid_config (default_config now\<lparr>cf_Checksum := x\<rparr>)"
  by (simp add: validateConfig_def default_config_def defaultValidator_def port_validation_def timeout_validation_def
      int_param_def Let_def Second_def)

subsection \<open>Every operation keeps it\<close>

lemma ok_load:
  assumes "zcs_ok z"
  shows "zcs_ok (fst (loadInitialConfig en contents written now z))"
proof (cases contents)
  case FileMissing
  then show ?thesis
    using assms ok_current [OF assms valid_default]
    by (simp add: loadInitialConfig_def createDefaultConfig_def Let_def split: option.split)
next
  case (FileData data)
  then show ?thesis
    using assms
    by (auto simp: loadInitialConfig_def Let_def ok_settings [OF assms] intro!: ok_intros split: option.split)
qed (simp add: loadInitialConfig_def assms)

lemma ok_start: "zcs_ok z \<Longrightarrow> zcs_ok (fst (Start_zcs en contents written listening now z))"
  using ok_load [of z en contents written now]
  by (auto simp: Start_zcs_def intro!: ok_lifecycle split: prod.split option.split)

lemma ok_startCanary:
  assumes "zcs_ok z" and "valid_config config"
  shows "\<exists>z1. startCanaryRollout now config z = Some z1 \<and> zcs_ok z1"
proof -
  have "rollout_ok \<lparr>ro_ID = now div Second, ro_Strategy = default_strategy, ro_StartTime = now,
      ro_CurrentStage = 0, ro_Status = InProgress, ro_Metrics = zero_metrics now\<rparr>"
    by (simp add: rollout_ok_def zero_metrics_def)
  then show ?thesis
    using assms default_stages
    by (auto simp: startCanaryRollout_def applyConfigGradually_def Let_def ok_settings [OF assms(1)]
        intro!: ok_intros split: list.split)
qed

lemma ok_apply_update:
  assumes "zcs_ok z"
  shows "zcs_ok (fst (apply_update event now config z)) \<and> snd (apply_update event now config z) \<noteq> Some RolloutPanic"
proof (cases "validateConfig defaultValidator config")
  case None
  obtain z1 where "startCanaryRollout now config z = Some z1" "zcs_ok z1"
    using ok_startCanary [OF assms None] by blast
  then show ?thesis
    using assms None by (auto simp: apply_update_def ok_settings [OF assms] intro!: ok_log ok_counted)
next
  case (Some err)
  then show ?thesis using assms by (simp add: apply_update_def ok_settings [OF assms])
qed

lemma ok_updateLoop:
  assumes "zcs_ok z"
  shows "\<exists>z1. configUpdateLoop en contents now z = Some z1 \<and> zcs_ok z1"
proof (cases "z_updateChan z")
  case Nil
  then show ?thesis using assms by (simp add: configUpdateLoop_def)
next
  case (Cons event rest)
  have q: "zcs_ok (z\<lparr>z_updateChan := rest\<rparr>)" using assms by (rule ok_queue)
  define p where "p = processConfigUpdate en contents now event (z\<lparr>z_updateChan := rest\<rparr>)"
  have p: "zcs_ok (fst p)" "snd p \<noteq> Some RolloutPanic"
    unfolding p_def processConfigUpdate_def
    using q ok_apply_update [OF q] by (auto split: option.split sum.split)
  show ?thesis
    using p by (auto simp: configUpdateLoop_def Cons p_def [symmetric] intro!: ok_log
        split: prod.split option.split update_error.split)
qed

lemma ok_metrics:
  assumes "zcs_ok z" and "z_currentRollout z = Some r"
  shows "rollout_ok (updateRolloutMetrics now (ts_requestCounter (z_trafficSplitter z)) r)"
  using ok_values(3) [OF assms] ok_settings(5) [OF assms(1)]
  by (simp add: rollout_ok_def updateRolloutMetrics_def Let_def go_div_def)

lemma ok_promote:
  assumes "zcs_ok z" and "rollout_ok r" and "ro_CurrentStage r < 2"
  shows "zcs_ok (promoteToNextStage r z)"
proof -
  have "rollout_ok (r\<lparr>ro_CurrentStage := ro_CurrentStage r + 1\<rparr>)"
    using assms(2,3) by (simp add: rollout_ok_def)
  then have z1: "zcs_ok (set_target n (set_rollout (r\<lparr>ro_CurrentStage := ro_CurrentStage r + 1\<rparr>) z))" for n
    using assms(1) by (intro ok_target ok_rollout)
  show ?thesis
    using z1 ok_partially [OF z1 ok_values(2) [OF z1]] unfolding promoteToNextStage_def Let_def
    by (auto split: option.split)
qed

lemma ok_complete:
  assumes "zcs_ok z" and "rollout_ok r"
  shows "zcs_ok (completeRollout now r z)"
proof -
  have "rollout_ok (r\<lparr>ro_Status := Completed\<rparr>)" using assms(2) by (simp add: rollout_ok_def)
  then have z1: "zcs_ok (set_rollout (r\<lparr>ro_Status := Completed\<rparr>) z)" by (rule ok_rollout [OF assms(1)])
  show ?thesis
    using z1 ok_values(2) [OF z1]
    by (auto simp: completeRollout_def Let_def intro!: ok_log ok_splitter ok_restored split: option.split)
qed

lemma ok_monitor:
  assumes "zcs_ok z"
  shows "zcs_ok (fst (monitorRolloutProgress now z))"
proof (cases "z_currentRollout z")
  case None
  then show ?thesis using assms by (simp add: monitorRolloutProgress_def)
next
  case (Some r0)
  define r where "r = updateRolloutMetrics now (ts_requestCounter (z_trafficSplitter z)) r0"
  have r: "rollout_ok r" unfolding r_def by (rule ok_metrics [OF assms Some])
  have "length (sy_Stages (ro_Strategy r)) = 3" using r default_stages by (simp add: rollout_ok_def)
  then show ?thesis
    using assms ok_rollout [OF assms r] r
    by (auto simp: monitorRolloutProgress_def Some Let_def r_def [symmetric] intro!: ok_promote ok_complete)
qed

lemma ok_mark: "zcs_ok z \<Longrightarrow> zcs_ok (mark_rolling_back z)"
  by (cases "z_currentRollout z") (simp_all add: mark_rolling_back_def zcs_ok_def settings_ok_def rollout_ok_def)

lemma previous_valid:
  assumes "zcs_ok z" and "previousVersion z = Some v"
  shows "valid_config (cv_Config v)"
proof -
  have "v \<in> set (z_versions z)" using assms(2) by (auto simp: previousVersion_def split: if_splits)
  then show ?thesis using assms(1) by (auto simp: zcs_ok_def list_all_iff)
qed

lemma ok_restore: "zcs_ok z \<Longrightarrow> valid_config (cv_Config v) \<Longrightarrow> zcs_ok (restore_version now v trigger reason z)"
  by (simp add: restore_version_def ok_intros)

lemma ok_rollback: "zcs_ok z \<Longrightarrow> zcs_ok (fst (rollbackToPreviousVersion now trigger reason z))"
  using previous_valid [of z] by (auto simp: rollbackToPreviousVersion_def intro!: ok_restore split: option.split)

lemma ok_record: "zcs_ok z \<Longrightarrow> zcs_ok (record_rollback now trigger reason success z)"
  by (simp add: record_rollback_def Let_def ok_intros)

lemma ok_auto: "zcs_ok z \<Longrightarrow> zcs_ok (triggerAutoRollback now trigger reason z)"
  using ok_rollback [OF ok_mark, of z now trigger reason]
  by (auto simp: triggerAutoRollback_def intro!: ok_record split: prod.split)

text \<open>With the default settings no trigger ever fires.\<close>

lemma no_trigger_fires:
  assumes "zcs_ok z" and "set order \<subseteq> dom (z_lastCheckResults z)"
  shows "firing_trigger order (z_triggers z) z = None"
proof -
  have healthy: "filter hr_Unhealthy (map (\<lambda>k. the (z_lastCheckResults z k)) order) = []"
  proof -
    have "\<not> hr_Unhealthy (the (z_lastCheckResults z k))" if k: "k \<in> set order" for k
    proof -
      obtain r where "z_lastCheckResults z k = Some r" using assms(2) k by blast
      then show ?thesis using assms(1) by (auto simp: zcs_ok_def dest: map_allD)
    qed
    then show ?thesis by (simp add: filter_empty_conv)
  qed
  have ms: "go_div 0 Millisecond = 0" "go_div (150 * Millisecond) Millisecond = 150"
    by (simp_all add: go_div_def Millisecond_def)
  have "rollout_ok r" if "z_currentRollout z = Some r" for r using ok_values(3) [OF assms(1) that] .
  then show ?thesis
    using ms healthy
    by (auto simp: ok_settings [OF assms(1)] default_triggers_def evaluateRollbackTrigger_def rollout_ok_def Let_def
        split: option.split)
qed

lemma ok_check_triggers: "zcs_ok z \<Longrightarrow> zcs_ok (checkRollbackTriggers order now z)"
  by (auto simp: checkRollbackTriggers_def intro: ok_auto split: option.split)

lemma checks_healthy:
  assumes "valid_config config"
  shows "\<exists>results. run_checks now config default_checks = Some results \<and> (\<forall>r \<in> set results. \<not> hr_Unhealthy (snd r))"
proof -
  have "check_validation defaultValidator config = Healthy" "check_server_port config = Healthy"
    "check_database config = Healthy"
    using validate_shape [OF assms] assms
    by (auto simp: check_validation_def check_server_port_def check_database_def)
  then show ?thesis by (simp add: default_checks_def)
qed

lemma ok_health:
  assumes "zcs_ok z"
  shows "\<exists>z1. performHealthChecks order now z = Some z1 \<and> zcs_ok z1"
proof (cases "z_currentConfig z")
  case None
  then show ?thesis using assms by (simp add: performHealthChecks_def)
next
  case (Some config)
  obtain results where r: "run_checks now config default_checks = Some results"
    and h: "\<forall>r \<in> set results. \<not> hr_Unhealthy (snd r)"
    using checks_healthy [OF ok_values(1) [OF assms Some], of now] by blast
  have "map_all (\<lambda>r. \<not> hr_Unhealthy r) (z_lastCheckResults z ++ map_of results)"
    using assms h by (fastforce simp: zcs_ok_def map_all_def map_add_Some_iff dest: map_of_SomeD)
  then have "zcs_ok (z\<lparr>z_lastCheckResults := z_lastCheckResults z ++ map_of results\<rparr>)"
    using assms by (simp add: zcs_ok_def settings_ok_def)
  then show ?thesis
    using h by (simp add: performHealthChecks_def Some ok_settings [OF assms] r Let_def)
qed

lemma ok_post: "zcs_ok z \<Longrightarrow> zcs_ok (fst (configPostAPIHandler body user reason z))"
  by (cases body) (simp_all add: configPostAPIHandler_def enqueueUpdate_def ok_queue)

lemma ok_reload: "zcs_ok z \<Longrightarrow> zcs_ok (fst (reloadAPIHandler user z))"
  by (simp add: reloadAPIHandler_def enqueueUpdate_def ok_queue)

lemma ok_watch: "zcs_ok z \<Longrightarrow> zcs_ok (fileWatchLoop checksum stat contents z)"
  by (auto simp: fileWatchLoop_def Let_def intro!: ok_queue ok_watcher split: prod.split)

section \<open>All interleavings\<close>

text \<open>
  The goroutines' steps.  A rollback is three of them (marking the rollout, reading the previous
  version, restoring it), between which the others may run; \<open>zs_reading\<close> holds the versions read
  and not yet restored.
\<close>

record zcs_system =
  zs_zcs :: zcs
  zs_reading :: "ConfigVersion list"

datatype zcs_event =
  ZStart environment read_result bool bool time | ZStop
| ZWatch "string \<Rightarrow> string" "(time \<times> int) option" read_result
| ZPost "ApplicationConfig option" string string | ZReload string
| ZUpdate environment read_result time | ZMonitor time | ZHealth "string list" time | ZAuto "string list" time
| ZMark | ZRead | ZRestore nat time string string | ZRecord time string string bool

fun zcs_step :: "zcs_system \<Rightarrow> zcs_event \<Rightarrow> zcs_system option" where
  "zcs_step s (ZStart en contents written listening now) =
     Some (s\<lparr>zs_zcs := fst (Start_zcs en contents written listening now (zs_zcs s))\<rparr>)"
| "zcs_step s ZStop = Some (s\<lparr>zs_zcs := Stop_zcs (zs_zcs s)\<rparr>)"
| "zcs_step s (ZWatch checksum stat contents) = Some (s\<lparr>zs_zcs := fileWatchLoop checksum stat contents (zs_zcs s)\<rparr>)"
| "zcs_step s (ZPost body user reason) = Some (s\<lparr>zs_zcs := fst (configPostAPIHandler body user reason (zs_zcs s))\<rparr>)"
| "zcs_step s (ZReload user) = Some (s\<lparr>zs_zcs := fst (reloadAPIHandler user (zs_zcs s))\<rparr>)"
| "zcs_step s (ZUpdate en contents now) =
     map_option (\<lambda>z. s\<lparr>zs_zcs := z\<rparr>) (configUpdateLoop en contents now (zs_zcs s))"
| "zcs_step s (ZMonitor now) = Some (s\<lparr>zs_zcs := fst (monitorRolloutProgress now (zs_zcs s))\<rparr>)"
| "zcs_step s (ZHealth order now) = map_option (\<lambda>z. s\<lparr>zs_zcs := z\<rparr>) (performHealthChecks order now (zs_zcs s))"
| "zcs_step s (ZAuto order now) = Some (s\<lparr>zs_zcs := checkRollbackTriggers order now (zs_zcs s)\<rparr>)"
| "zcs_step s ZMark = Some (s\<lparr>zs_zcs := mark_rolling_back (zs_zcs s)\<rparr>)"
| "zcs_step s ZRead =
     (case previousVersion (zs_zcs s) of
        None \<Rightarrow> Some s | Some v \<Rightarrow> Some (s\<lparr>zs_reading := zs_reading s @ [v]\<rparr>))"
| "zcs_step s (ZRestore k now trigger reason) =
     (if k < length (zs_reading s)
      then Some (s\<lparr>zs_zcs := restore_version now (zs_reading s ! k) trigger reason (zs_zcs s)\<rparr>)
      else Some s)"
| "zcs_step s (ZRecord now trigger reason success) =
     Some (s\<lparr>zs_zcs := record_rollback now trigger reason success (zs_zcs s)\<rparr>)"

definition zcs_initial :: zcs_system where
  "zcs_initial = \<lparr>zs_zcs = NewZeroDowntimeConfigSystem, zs_reading = []\<rparr>"

inductive zcs_reachable :: "zcs_system \<Rightarrow> bool" where
  zcs_first: "zcs_reachable zcs_initial"
| zcs_next: "zcs_reachable s \<Longrightarrow> zcs_step s e = Some s' \<Longrightarrow> zcs_reachable s'"

definition system_ok :: "zcs_system \<Rightarrow> bool" where
  "system_ok s \<longleftrightarrow> zcs_ok (zs_zcs s) \<and> list_all (valid_config \<circ> cv_Config) (zs_reading s)"

lemma system_ok_step:
  assumes "system_ok s"
  shows "\<exists>s'. zcs_step s e = Some s' \<and> system_ok s'"
proof -
  have z: "zcs_ok (zs_zcs s)" and r: "list_all (valid_config \<circ> cv_Config) (zs_reading s)"
    using assms by (simp_all add: system_ok_def)
  show ?thesis
  proof (cases e)
    case (ZUpdate en contents now)
    then show ?thesis using ok_updateLoop [OF z, of en contents now] r by (auto simp: system_ok_def)
  next
    case (ZHealth order now)
    then show ?thesis using ok_health [OF z, of order now] r by (auto simp: system_ok_def)
  next
    case ZRead
    then show ?thesis using z r previous_valid [OF z] by (auto simp: system_ok_def split: option.split)
  next
    case (ZRestore k now trigger reason)
    then show ?thesis using z r by (auto simp: system_ok_def list_all_length intro!: ok_restore)
  next
    case (ZPost body user reason)
    then show ?thesis using z r ok_post [OF z] by (simp add: system_ok_def)
  next
    case (ZReload user)
    then show ?thesis using z r ok_reload [OF z] by (simp add: system_ok_def)
  qed (use z r in \<open>auto simp: system_ok_def Stop_zcs_def intro!: ok_start ok_watch ok_monitor ok_check_triggers
        ok_mark ok_record ok_lifecycle\<close>)
qed

lemma system_ok_reachable: "zcs_reachable s \<Longrightarrow> system_ok s"
proof (induction rule: zcs_reachable.induct)
  case zcs_first
  then show ?case using zcs_ok_new by (simp add: system_ok_def zcs_initial_def)
next
  case (zcs_next s e s')
  then show ?case using system_ok_step [OF zcs_next.IH, of e] by auto
qed

text \<open>
  C3. Whatever the interleaving of file changes, requests, rollouts, health checks and rollbacks,
  the configuration being served, the one waiting in a rollout and every one that a rollback could
  restore have passed validation; no step panics; and the history and the audit log keep their
  bounds.
\<close>

theorem served_configuration_valid:
  assumes "zcs_reachable s"
  shows "pred_option (\<lambda>c. validateConfig defaultValidator c = None) (z_currentConfig (zs_zcs s)) \<and>
    pred_option (\<lambda>c. validateConfig defaultValidator c = None) (z_pendingConfig (zs_zcs s)) \<and>
    list_all (\<lambda>v. validateConfig defaultValidator (cv_Config v) = None) (z_versions (zs_zcs s)) \<and>
    length (z_versions (zs_zcs s)) \<le> 50 \<and> length (z_auditEntries (zs_zcs s)) \<le> 10000 \<and>
    zcs_step s e \<noteq> None"
  using system_ok_reachable [OF assms] system_ok_step [of s e]
  by (auto simp: system_ok_def zcs_ok_def comp_def)

text \<open>
  With the default settings the rollback triggers are dead: in no reachable state does one
  fire, since no code counts the requests, the response time is a constant, and the health checks
  test the served configuration for what validation has already ensured.
\<close>

theorem default_triggers_never_fire:
  assumes "zcs_reachable s" and "set order \<subseteq> dom (z_lastCheckResults (zs_zcs s))"
  shows "checkRollbackTriggers order now (zs_zcs s) = zs_zcs s"
proof -
  have "zcs_ok (zs_zcs s)" using system_ok_reachable [OF assms(1)] by (simp add: system_ok_def)
  from no_trigger_fires [OF this assms(2)] show ?thesis by (simp add: checkRollbackTriggers_def)
qed

section \<open>The course of a rollout\<close>

definition monitor_tick :: "time \<Rightarrow> zcs \<Rightarrow> zcs" where
  "monitor_tick now z =
     (case monitorRolloutProgress now z of
        (z1, timedOut) \<Rightarrow> if timedOut then triggerAutoRollback now ''timeout'' ''rollout timed out'' z1 else z1)"

text \<open>The state of a rollout that has reached stage \<open>k\<close>.\<close>

definition at_stage ::
  "RolloutStrategy \<Rightarrow> time \<Rightarrow> ApplicationConfig \<Rightarrow> ApplicationConfig option \<Rightarrow> ConfigVersion list \<Rightarrow> nat \<Rightarrow> zcs \<Rightarrow> bool" where
  "at_stage strategy start new old versions k z \<longleftrightarrow>
     (\<exists>r. z_currentRollout z = Some r \<and> ro_Strategy r = strategy \<and> ro_StartTime r = start \<and>
        ro_Status r = InProgress \<and> ro_CurrentStage r = k) \<and>
     z_pendingConfig z = Some new \<and> z_versions z = versions \<and>
     ts_targetPercent (z_trafficSplitter z) = sg_TrafficPercent (sy_Stages strategy ! k) \<and>
     z_currentConfig z =
       (if \<exists>g \<in> set (take (Suc k) (sy_Stages strategy)). sg_TrafficPercent g \<ge> 100 then Some new else old)"

definition rolled_out :: "ApplicationConfig \<Rightarrow> ConfigVersion list \<Rightarrow> zcs \<Rightarrow> bool" where
  "rolled_out new versions z \<longleftrightarrow>
     (\<exists>r. z_currentRollout z = Some r \<and> ro_Status r = Completed) \<and>
     z_currentConfig z = Some new \<and> z_pendingConfig z = None \<and> z_versions z = versions \<and>
     ts_currentPercent (z_trafficSplitter z) = 100 \<and> \<not> ts_isActive (z_trafficSplitter z)"

lemma monitor_fields [simp]:
  "z_versions (set_target n z) = z_versions z" "z_currentConfig (set_target n z) = z_currentConfig z"
  "z_pendingConfig (set_target n z) = z_pendingConfig z" "z_currentRollout (set_target n z) = z_currentRollout z"
  "ts_targetPercent (z_trafficSplitter (set_target n z)) = n"
  "z_versions (set_rollout r z) = z_versions z" "z_currentConfig (set_rollout r z) = z_currentConfig z"
  "z_pendingConfig (set_rollout r z) = z_pendingConfig z" "z_currentRollout (set_rollout r z) = Some r"
  "z_trafficSplitter (set_rollout r z) = z_trafficSplitter z"
  "z_versions (set_splitter a b c z) = z_versions z" "z_currentConfig (set_splitter a b c z) = z_currentConfig z"
  "z_pendingConfig (set_splitter a b c z) = z_pendingConfig z" "z_currentRollout (set_splitter a b c z) = z_currentRollout z"
  "ts_currentPercent (z_trafficSplitter (set_splitter a b c z)) = a"
  "ts_targetPercent (z_trafficSplitter (set_splitter a b c z)) = b"
  "ts_isActive (z_trafficSplitter (set_splitter a b c z)) = c"
  "z_versions (logAction now act cfg user why res err z) = z_versions z"
  "z_currentConfig (logAction now act cfg user why res err z) = z_currentConfig z"
  "z_pendingConfig (logAction now act cfg user why res err z) = z_pendingConfig z"
  "z_currentRollout (logAction now act cfg user why res err z) = z_currentRollout z"
  "z_trafficSplitter (logAction now act cfg user why res err z) = z_trafficSplitter z"
  "z_rollbackHistory (logAction now act cfg user why res err z) = z_rollbackHistory z"
  by (simp_all add: set_target_def set_rollout_def set_splitter_def logAction_def Let_def)

lemma metrics_fields [simp]:
  "ro_Strategy (updateRolloutMetrics now n r) = ro_Strategy r"
  "ro_StartTime (updateRolloutMetrics now n r) = ro_StartTime r"
  "ro_Status (updateRolloutMetrics now n r) = ro_Status r"
  "ro_CurrentStage (updateRolloutMetrics now n r) = ro_CurrentStage r"
  by (simp_all add: updateRolloutMetrics_def Let_def)

lemma tick_promotes:
  assumes "at_stage strategy start new old versions k z" and "Suc k < length (sy_Stages strategy)"
    and "sg_SuccessCriteria (sy_Stages strategy ! k) = None" and "time_Sub now start \<le> sy_MaxDuration strategy"
  shows "at_stage strategy start new old versions (Suc k) (monitor_tick now z)"
proof -
  obtain r where r: "z_currentRollout z = Some r" "ro_Strategy r = strategy" "ro_StartTime r = start"
    "ro_Status r = InProgress" "ro_CurrentStage r = k"
    using assms(1) by (auto simp: at_stage_def)
  define r1 where "r1 = updateRolloutMetrics now (ts_requestCounter (z_trafficSplitter z)) r"
  define z1 where "z1 = promoteToNextStage r1 (set_rollout r1 z)"
  have r1: "ro_Strategy r1 = strategy" "ro_StartTime r1 = start" "ro_Status r1 = InProgress" "ro_CurrentStage r1 = k"
    by (simp_all add: r1_def r)
  have p: "z_pendingConfig z = Some new" using assms(1) by (simp add: at_stage_def)
  have c: "(\<exists>g \<in> set (take (Suc (Suc k)) (sy_Stages strategy)). sg_TrafficPercent g \<ge> 100) \<longleftrightarrow>
      (\<exists>g \<in> set (take (Suc k) (sy_Stages strategy)). sg_TrafficPercent g \<ge> 100) \<or>
      sg_TrafficPercent (sy_Stages strategy ! Suc k) \<ge> 100"
    using assms(2) by (auto simp: take_Suc_conv_app_nth [of "Suc k"])
  have z1: "at_stage strategy start new old versions (Suc k) z1"
    using assms(1) r1 p
    by (simp add: z1_def promoteToNextStage_def Let_def applyConfigPartially_def at_stage_def c)
  have "monitorRolloutProgress now z = (z1, False)"
    using r r1 assms(2,3,4) z1
    by (auto simp: monitorRolloutProgress_def checkSuccessCriteria_def Let_def r1_def [symmetric] z1_def [symmetric]
        at_stage_def not_less)
  then show ?thesis using z1 by (simp add: monitor_tick_def)
qed

lemma tick_completes:
  assumes "at_stage strategy start new old versions k z" and "Suc k = length (sy_Stages strategy)"
    and "sg_SuccessCriteria (sy_Stages strategy ! k) = None"
  shows "rolled_out new versions (monitor_tick now z)"
proof -
  obtain r where r: "z_currentRollout z = Some r" "ro_Strategy r = strategy" "ro_StartTime r = start"
    "ro_Status r = InProgress" "ro_CurrentStage r = k"
    using assms(1) by (auto simp: at_stage_def)
  define r1 where "r1 = updateRolloutMetrics now (ts_requestCounter (z_trafficSplitter z)) r"
  define z1 where "z1 = completeRollout now r1 (set_rollout r1 z)"
  have r1: "ro_Strategy r1 = strategy" "ro_Status r1 = InProgress" "ro_CurrentStage r1 = k"
    by (simp_all add: r1_def r)
  have pend: "z_pendingConfig z = Some new" "z_versions z = versions" using assms(1) by (simp_all add: at_stage_def)
  have z1: "rolled_out new versions z1"
    using pend by (simp add: z1_def completeRollout_def Let_def rolled_out_def)
  have "\<not> int k < int (length (sy_Stages strategy)) - 1" using assms(2) by simp
  then have "monitorRolloutProgress now z = (z1, False)"
    using r r1 assms(3) z1
    by (auto simp: monitorRolloutProgress_def checkSuccessCriteria_def Let_def r1_def [symmetric] z1_def [symmetric]
        rolled_out_def)
  then show ?thesis using z1 by (simp add: monitor_tick_def)
qed

lemma tick_idle: "rolled_out new versions z \<Longrightarrow> monitor_tick now z = z"
  by (auto simp: rolled_out_def monitor_tick_def monitorRolloutProgress_def)

text \<open>What starting a rollout records.\<close>

definition versions_after :: "ApplicationConfig \<Rightarrow> time \<Rightarrow> zcs \<Rightarrow> ConfigVersion list" where
  "versions_after new start z = z_versions (addVersion start new
     (''canary_rollout_'' @ sg_Name (hd (sy_Stages (z_rolloutStrategy z)))) ''system'' z)"

lemma start_at_stage:
  assumes "startCanaryRollout start new z = Some z0" and "sg_TrafficPercent (hd (sy_Stages (z_rolloutStrategy z))) < 100"
  shows "sy_Stages (z_rolloutStrategy z) \<noteq> [] \<and>
    at_stage (z_rolloutStrategy z) start new (z_currentConfig z) (versions_after new start z) 0 z0"
proof -
  obtain stage rest where st: "sy_Stages (z_rolloutStrategy z) = stage # rest"
    using assms(1) by (auto simp: startCanaryRollout_def Let_def split: list.splits)
  have "z0 = applyConfigGradually start new \<lparr>ro_ID = start div Second, ro_Strategy = z_rolloutStrategy z,
      ro_StartTime = start, ro_CurrentStage = 0, ro_Status = InProgress, ro_Metrics = zero_metrics start\<rparr>
      (set_splitter 0 (sg_TrafficPercent stage) True (set_rollout \<lparr>ro_ID = start div Second, ro_Strategy = z_rolloutStrategy z,
      ro_StartTime = start, ro_CurrentStage = 0, ro_Status = InProgress, ro_Metrics = zero_metrics start\<rparr> z))"
    using assms(1) st by (simp add: startCanaryRollout_def Let_def)
  then show ?thesis
    using assms(2) st
    by (simp add: at_stage_def applyConfigGradually_def applyConfigPartially_def addVersion_def versions_after_def
        set_target_def set_splitter_def set_rollout_def Let_def)
qed

lemma ticks_reach:
  assumes "at_stage strategy start new old versions 0 z0"
    and "\<forall>g \<in> set (sy_Stages strategy). sg_SuccessCriteria g = None"
    and "\<forall>t \<in> set ts. time_Sub t start \<le> sy_MaxDuration strategy" and "sy_Stages strategy \<noteq> []"
  shows "if length ts < length (sy_Stages strategy)
    then at_stage strategy start new old versions (length ts) (fold monitor_tick ts z0)
    else rolled_out new versions (fold monitor_tick ts z0)"
  using assms(3)
proof (induction ts rule: rev_induct)
  case Nil
  then show ?case using assms(1,4) by simp
next
  case (snoc t ts)
  define z where "z = fold monitor_tick ts z0"
  have IH: "if length ts < length (sy_Stages strategy)
    then at_stage strategy start new old versions (length ts) z else rolled_out new versions z"
    using snoc by (simp add: z_def)
  have t: "time_Sub t start \<le> sy_MaxDuration strategy" using snoc.prems by simp
  consider "Suc (length ts) < length (sy_Stages strategy)" | "Suc (length ts) = length (sy_Stages strategy)"
    | "length (sy_Stages strategy) \<le> length ts" by linarith
  then show ?case
  proof cases
    case 1
    then show ?thesis
      using IH tick_promotes [of strategy start new old versions "length ts" z t] t assms(2)
      by (simp add: z_def)
  next
    case 2
    then show ?thesis
      using IH tick_completes [of strategy start new old versions "length ts" z t] assms(2)
      by (simp add: z_def)
  next
    case 3
    then show ?thesis using IH tick_idle by (simp add: z_def)
  qed
qed

text \<open>
  C14. A rollout goes through its stages: without success criteria and within the maximal duration,
  every tick of the monitor promotes it by one stage; until a stage with all the traffic is
  reached the old configuration is served, from then on the new one; and the tick after the last
  stage completes it, with nothing pending and the traffic split off.
\<close>

theorem rollout_goes_through_stages:
  assumes "startCanaryRollout start new z = Some z0"
    and "sg_TrafficPercent (hd (sy_Stages (z_rolloutStrategy z))) < 100"
    and "\<forall>g \<in> set (sy_Stages (z_rolloutStrategy z)). sg_SuccessCriteria g = None"
    and "\<forall>t \<in> set ts. time_Sub t start \<le> sy_MaxDuration (z_rolloutStrategy z)"
  shows "z_currentConfig (fold monitor_tick ts z0) =
      (if length ts < length (sy_Stages (z_rolloutStrategy z)) \<and>
          \<not> (\<exists>g \<in> set (take (Suc (length ts)) (sy_Stages (z_rolloutStrategy z))). sg_TrafficPercent g \<ge> 100)
       then z_currentConfig z else Some new) \<and>
    z_pendingConfig (fold monitor_tick ts z0) =
      (if length ts < length (sy_Stages (z_rolloutStrategy z)) then Some new else None) \<and>
    map_option ro_Status (z_currentRollout (fold monitor_tick ts z0)) =
      Some (if length ts < length (sy_Stages (z_rolloutStrategy z)) then InProgress else Completed)"
proof -
  from start_at_stage [OF assms(1,2)]
  have ne: "sy_Stages (z_rolloutStrategy z) \<noteq> []"
    and at0: "at_stage (z_rolloutStrategy z) start new (z_currentConfig z) (versions_after new start z) 0 z0"
    by blast+
  from ticks_reach [OF at0 assms(3,4) ne] show ?thesis
    by (auto simp: at_stage_def rolled_out_def split: if_splits)
qed

lemma start_keeps:
  assumes "startCanaryRollout start new z = Some z0"
  shows "z_maxVersions z0 = z_maxVersions z" "z_rolloutStrategy z0 = z_rolloutStrategy z"
  using assms
  by (auto simp: startCanaryRollout_def applyConfigGradually_def applyConfigPartially_def addVersion_def
      set_target_def set_splitter_def set_rollout_def Let_def split: list.splits if_splits)

lemma rollback_keeps:
  "z_maxVersions (triggerAutoRollback now trigger reason z) = z_maxVersions z"
  "z_rolloutStrategy (triggerAutoRollback now trigger reason z) = z_rolloutStrategy z"
  by (simp_all add: triggerAutoRollback_def rollbackToPreviousVersion_def record_rollback_def restore_version_def
      mark_rolling_back_def logAction_def set_splitter_def Let_def split: option.split)

lemma fold_ticks_versions:
  assumes "startCanaryRollout start new z = Some z0"
    and "sg_TrafficPercent (hd (sy_Stages (z_rolloutStrategy z))) < 100"
    and "\<forall>g \<in> set (sy_Stages (z_rolloutStrategy z)). sg_SuccessCriteria g = None"
    and "\<forall>t \<in> set ts. time_Sub t start \<le> sy_MaxDuration (z_rolloutStrategy z)"
  shows "z_versions (fold monitor_tick ts z0) = versions_after new start z \<and>
    z_currentRollout (fold monitor_tick ts z0) \<noteq> None"
proof -
  from start_at_stage [OF assms(1,2)]
  have ne: "sy_Stages (z_rolloutStrategy z) \<noteq> []"
    and at0: "at_stage (z_rolloutStrategy z) start new (z_currentConfig z) (versions_after new start z) 0 z0"
    by blast+
  from ticks_reach [OF at0 assms(3,4) ne] show ?thesis
    by (auto simp: at_stage_def rolled_out_def split: if_splits)
qed

text \<open>The last two versions after an update, and what a rollback makes of them.\<close>

lemma versions_after_snoc:
  assumes "z_versions z = vs @ [v]" and "2 \<le> z_maxVersions z"
  shows "\<exists>ws w. versions_after new start z = ws @ [v, w] \<and> cv_Config w = new"
proof (cases "length (vs @ [v]) + 1 > z_maxVersions z")
  case True
  then obtain u us where "vs = u # us" using assms(2) by (cases vs) auto
  then show ?thesis using True assms(1) by (simp add: versions_after_def addVersion_def Let_def)
next
  case False
  then show ?thesis using assms(1) by (simp add: versions_after_def addVersion_def Let_def)
qed

lemma rollback_effect:
  assumes "z_versions z = ws @ [v, w]"
  shows "z_currentConfig (triggerAutoRollback now trigger reason z) = Some (cv_Config v)"
    and "z_pendingConfig (triggerAutoRollback now trigger reason z) = None"
    and "z_versions (triggerAutoRollback now trigger reason z) = ws @ [v, w]"
    and "\<not> ts_isActive (z_trafficSplitter (triggerAutoRollback now trigger reason z))"
    and "map_option ro_Status (z_currentRollout (triggerAutoRollback now trigger reason z)) =
      map_option (\<lambda>_. RollingBack) (z_currentRollout z)"
proof -
  have "previousVersion (mark_rolling_back z) = Some v"
    using assms by (simp add: previousVersion_def mark_rolling_back_def nth_append)
  then have r: "triggerAutoRollback now trigger reason z =
      record_rollback now trigger reason True (restore_version now v trigger reason (mark_rolling_back z))"
    by (simp add: triggerAutoRollback_def rollbackToPreviousVersion_def)
  note defs = r record_rollback_def restore_version_def mark_rolling_back_def logAction_def set_splitter_def Let_def
  show "z_currentConfig (triggerAutoRollback now trigger reason z) = Some (cv_Config v)"
    "z_pendingConfig (triggerAutoRollback now trigger reason z) = None"
    "z_versions (triggerAutoRollback now trigger reason z) = ws @ [v, w]"
    "\<not> ts_isActive (z_trafficSplitter (triggerAutoRollback now trigger reason z))"
    using assms by (simp_all add: defs)
  show "map_option ro_Status (z_currentRollout (triggerAutoRollback now trigger reason z)) =
      map_option (\<lambda>_. RollingBack) (z_currentRollout z)"
    by (cases "z_currentRollout z") (simp_all add: defs)
qed

text \<open>
  C8. Update and rollback: from a state that serves its newest version, an update that is rolled
  back after any number of monitor ticks (before, during or after its last stage) within the
  rollout's \<open>MaxDuration\<close> serves that version again, with nothing pending and the traffic split off.
\<close>

theorem rollback_undoes_update:
  assumes "z_versions z = vs @ [v]" and "z_currentConfig z = Some (cv_Config v)" and "2 \<le> z_maxVersions z"
    and "startCanaryRollout start new z = Some z0"
    and "sg_TrafficPercent (hd (sy_Stages (z_rolloutStrategy z))) < 100"
    and "\<forall>g \<in> set (sy_Stages (z_rolloutStrategy z)). sg_SuccessCriteria g = None"
    and "\<forall>t \<in> set ts. time_Sub t start \<le> sy_MaxDuration (z_rolloutStrategy z)"
  shows "z_currentConfig (triggerAutoRollback now trigger reason (fold monitor_tick ts z0)) = z_currentConfig z \<and>
    z_pendingConfig (triggerAutoRollback now trigger reason (fold monitor_tick ts z0)) = None \<and>
    \<not> ts_isActive (z_trafficSplitter (triggerAutoRollback now trigger reason (fold monitor_tick ts z0))) \<and>
    map_option ro_Status (z_currentRollout (triggerAutoRollback now trigger reason (fold monitor_tick ts z0))) =
      Some RollingBack"
proof -
  obtain ws w where "versions_after new start z = ws @ [v, w]"
    using versions_after_snoc [OF assms(1,3)] by blast
  with fold_ticks_versions [OF assms(4-7)]
  have "z_versions (fold monitor_tick ts z0) = ws @ [v, w]" "z_currentRollout (fold monitor_tick ts z0) \<noteq> None"
    by simp_all
  then show ?thesis using rollback_effect [of "fold monitor_tick ts z0" ws v w now trigger reason] assms(2) by auto
qed

text \<open>
  The rolled back version stays the newest of the history: when the next update is rolled
  back too, the configuration rejected by the first rollback is served.
\<close>

theorem second_rollback_serves_rejected:
  assumes "z_versions z = vs @ [v]" and "2 \<le> z_maxVersions z"
    and "startCanaryRollout start new z = Some z0"
    and "sg_TrafficPercent (hd (sy_Stages (z_rolloutStrategy z))) < 100"
    and "\<forall>g \<in> set (sy_Stages (z_rolloutStrategy z)). sg_SuccessCriteria g = None"
    and "startCanaryRollout start2 new2 (triggerAutoRollback now trigger reason z0) = Some z2"
  shows "z_currentConfig (triggerAutoRollback now2 trigger2 reason2 z2) = Some new"
proof -
  obtain ws w where w: "versions_after new start z = ws @ [v, w]" "cv_Config w = new"
    using versions_after_snoc [OF assms(1,2)] by blast
  with fold_ticks_versions [OF assms(3-5), of "[]"]
  have z0: "z_versions z0 = (ws @ [v]) @ [w]" by simp
  define y where "y = triggerAutoRollback now trigger reason z0"
  note keep = start_keeps [OF assms(3)]
  have y: "z_versions y = (ws @ [v]) @ [w]" "z_maxVersions y = z_maxVersions z0" "z_rolloutStrategy y = z_rolloutStrategy z0"
    using rollback_effect(3) [of z0 ws v w] z0 by (simp_all add: y_def rollback_keeps)
  obtain us u where u: "versions_after new2 start2 y = us @ [w, u]"
    using versions_after_snoc [OF y(1), of new2 start2] y(2) keep assms(2) by auto
  have "z_versions z2 = us @ [w, u]"
    using fold_ticks_versions [of start2 new2 y z2 "[]"] assms(4,5,6) y(3) keep u by (simp add: y_def)
  from rollback_effect(1) [OF this] w(2) show ?thesis by simp
qed

section \<open>A concrete run\<close>

definition sample_env :: environment where
  "sample_env = \<lparr>en_checksum = id, en_marshal = (\<lambda>_. Some ''json''), en_unmarshal = (\<lambda>_. Some (default_config 0))\<rparr>"

definition sample_loaded :: zcs where
  "sample_loaded = fst (loadInitialConfig sample_env (FileData ''d'') True 5 NewZeroDowntimeConfigSystem)"

definition sample_old :: ApplicationConfig where
  "sample_old = default_config 0\<lparr>cf_Checksum := ''d'', cf_Timestamp := 5\<rparr>"

definition sample_new :: ApplicationConfig where
  "sample_new = default_config 7\<lparr>cf_Version := ''2.0.0''\<rparr>"

lemma sample_valid: "valid_config (default_config 0\<lparr>cf_Checksum := ''d'', cf_Timestamp := 5\<rparr>)"
  by (simp add: validateConfig_def default_config_def defaultValidator_def port_validation_def timeout_validation_def
      int_param_def Let_def Second_def)

lemma sample_loaded_facts:
  "\<exists>v. z_versions sample_loaded = [] @ [v] \<and> cv_Config v = sample_old"
  "z_currentConfig sample_loaded = Some sample_old"
  "z_maxVersions sample_loaded = 50" "z_rolloutStrategy sample_loaded = default_strategy"
  using sample_valid
  by (simp_all add: sample_loaded_def loadInitialConfig_def sample_env_def sample_old_def Let_def logAction_def addVersion_def
      NewZeroDowntimeConfigSystem_def)

definition sample_rollout :: zcs where
  "sample_rollout = the (startCanaryRollout 10 sample_new sample_loaded)"

lemma sample_starts:
  "startCanaryRollout t c z = Some (the (startCanaryRollout t c z))" if "z_rolloutStrategy z = default_strategy"
  using that by (simp add: startCanaryRollout_def default_strategy_def Let_def)

lemma sample_stages:
  "sg_TrafficPercent (hd (sy_Stages default_strategy)) < 100"
  "\<forall>g \<in> set (sy_Stages default_strategy). sg_SuccessCriteria g = None"
  "time_Sub 20 10 \<le> sy_MaxDuration default_strategy"
  by (simp_all add: default_strategy_def time_Sub_def Minute_def Second_def)

lemma rollout_goes_through_stages_witness:
  "z_currentConfig (fold monitor_tick [20] sample_rollout) = Some sample_old \<and>
   z_currentConfig (fold monitor_tick [20, 20] sample_rollout) = Some sample_new \<and>
   map_option ro_Status (z_currentRollout (fold monitor_tick [20, 20, 20] sample_rollout)) = Some Completed"
proof -
  have s: "startCanaryRollout 10 sample_new sample_loaded = Some sample_rollout"
    unfolding sample_rollout_def by (rule sample_starts) (rule sample_loaded_facts)
  note run = rollout_goes_through_stages [OF s, unfolded sample_loaded_facts, OF sample_stages(1,2)]
  have ticks: "\<forall>t \<in> set ts. time_Sub t 10 \<le> sy_MaxDuration default_strategy" if "set ts = {20}" for ts
    using that sample_stages(3) by simp
  show ?thesis
    using run [OF ticks, of "[20]"] run [OF ticks, of "[20, 20]"] run [OF ticks, of "[20, 20, 20]"]
    by (simp add: default_strategy_def)
qed

lemma rollback_undoes_update_witness:
  "z_currentConfig (triggerAutoRollback 30 ''timeout'' ''late'' (fold monitor_tick [20, 20] sample_rollout)) = Some sample_old"
proof -
  obtain v where v: "z_versions sample_loaded = [] @ [v]" "cv_Config v = sample_old"
    using sample_loaded_facts(1) by blast
  have s: "startCanaryRollout 10 sample_new sample_loaded = Some sample_rollout"
    unfolding sample_rollout_def by (rule sample_starts) (rule sample_loaded_facts)
  have "\<forall>t \<in> set [20, 20]. time_Sub t 10 \<le> sy_MaxDuration (z_rolloutStrategy sample_loaded)"
    using sample_stages(3) by (simp add: sample_loaded_facts)
  from rollback_undoes_update [OF v(1) _ _ s _ _ this] show ?thesis
    using v(2) sample_stages by (simp add: sample_loaded_facts)
qed

lemma second_rollback_serves_rejected_witness:
  "z_currentConfig (triggerAutoRollback 60 ''timeout'' ''late'' (the (startCanaryRollout 50 sample_old
     (triggerAutoRollback 30 ''timeout'' ''late'' sample_rollout)))) = Some sample_new"
proof -
  obtain v where v: "z_versions sample_loaded = [] @ [v]" using sample_loaded_facts(1) by blast
  have s: "startCanaryRollout 10 sample_new sample_loaded = Some sample_rollout"
    unfolding sample_rollout_def by (rule sample_starts) (rule sample_loaded_facts)
  have "z_rolloutStrategy (triggerAutoRollback 30 ''timeout'' ''late'' sample_rollout) = default_strategy"
    using start_keeps(2) [OF s] sample_loaded_facts(4) by (simp add: rollback_keeps)
  from second_rollback_serves_rejected [OF v _ s _ _ sample_starts [OF this]] show ?thesis
    using sample_stages by (simp add: sample_loaded_facts)
qed

definition sample_system :: zcs_system where
  "sample_system = zcs_initial\<lparr>zs_zcs := fst (Start_zcs sample_env (FileData ''d'') True True 5 (zs_zcs zcs_initial))\<rparr>"

lemma sample_reachable: "zcs_reachable sample_system"
  by (rule zcs_next [OF zcs_first, of "ZStart sample_env (FileData ''d'') True True 5"]) (simp add: sample_system_def)

lemma served_configuration_valid_witness:
  "z_currentConfig (zs_zcs sample_system) = Some sample_old \<and> validateConfig defaultValidator sample_old = None"
proof -
  have "z_currentConfig (zs_zcs sample_system) = Some sample_old"
    using sample_valid
    by (simp add: sample_system_def zcs_initial_def Start_zcs_def loadInitialConfig_def sample_env_def sample_old_def
        Let_def logAction_def addVersion_def NewZeroDowntimeConfigSystem_def)
  then show ?thesis using served_configuration_valid [OF sample_reachable] by simp
qed

lemma default_triggers_never_fire_witness:
  "checkRollbackTriggers [] 9 (zs_zcs sample_system) = zs_zcs sample_system"
  by (rule default_triggers_never_fire [OF sample_reachable]) simp

end
