(* ===== verification/DistContext.thy ===== *)
theory DistContext
  imports Prelude
begin

text \<open>
  One node's manager of distributed contexts of chapter 3,
  \<^verbatim>\<open>03_fan-out_fan-in_and_context_control/ans_03/distributed_context_manager.go\<close>: creation,
  propagation, update, cancellation and expiry of contexts, the messages to and from other nodes,
  the cluster's nodes with their heartbeats, and the bounded queues between them.

  The network is not in the source (sending only sleeps and logs), so the model is one node and the
  messages it puts on its outgoing queue.  Generated identifiers, clocks and the order of ranging
  over a map are arguments.  A Go map that may be \<^verbatim>\<open>nil\<close> is an \<open>option\<close>; writing to a nil map
  panics, which is the result \<open>None\<close> of an operation.  The event handlers only log.  A message
  holds the context as it was when the message was queued (the source queues the pointer, and its
  sending would serialise it), and an operation is not interrupted by a shutdown after its check,
  except where \<open>stopped\<close> says so.
\<close>

section \<open>State\<close>

type_synonym value_list = "(string \<times> string) list"

record dist_context =
  dx_ID :: string
  dx_ParentID :: string
  dx_TraceID :: string
  dx_SpanID :: string
  dx_Values :: "(string \<rightharpoonup> string) option"
  dx_Deadline :: time
  dx_CreatedAt :: time
  dx_UpdatedAt :: time
  dx_NodeIDs :: "string list"
  dx_PropagatedTo :: "string list option"

datatype ContextEventType =
  EventContextCreated | EventContextUpdated | EventContextPropagated | EventContextCancelled
| EventContextExpired | EventNodeJoined | EventNodeLeft

record ContextEvent =
  ce_Type :: ContextEventType
  ce_ContextID :: string
  ce_NodeID :: string
  ce_When :: time

datatype NodeStatus = StatusUnknown | StatusActive | StatusInactive | StatusFailed

record ClusterNode =
  cn_ID :: string
  cn_Address :: string
  cn_Status :: NodeStatus
  cn_LastSeen :: time
  cn_JoinedAt :: time

datatype MessageType =
  MessagePropagate | MessageUpdate | MessageCancel | MessageSync | MessageHeartbeat | MessageJoin | MessageLeave

record ContextMessage =
  mx_Type :: MessageType
  mx_SourceNode :: string
  mx_TargetNode :: string
  mx_ContextID :: string
  mx_Context :: "dist_context option"
  mx_Data :: value_list
  mx_Timestamp :: time

record dcm_config =
  dg_NodeID :: string
  dg_EventQueueSize :: nat
  dg_MessageQueueSize :: nat
  dg_HeartbeatInterval :: duration
  dg_ContextTTL :: duration

record dcm =
  dm_config :: dcm_config
  dm_clusterNodes :: "string \<rightharpoonup> ClusterNode"
  dm_contexts :: "string \<rightharpoonup> dist_context"
  dm_eventQueue :: "ContextEvent list"
  dm_incoming :: "ContextMessage list"
  dm_outgoing :: "ContextMessage list"
  dm_contextsCreated :: int
  dm_contextsPropagated :: int
  dm_contextsCancelled :: int
  dm_contextsExpired :: int
  dm_messagesSent :: int
  dm_messagesReceived :: int
  dm_isRunning :: bool
  dm_cancelled :: bool

definition NewManagerConfig :: "string \<Rightarrow> dcm_config" where
  "NewManagerConfig nodeID = \<lparr>dg_NodeID = nodeID, dg_EventQueueSize = 10000, dg_MessageQueueSize = 5000,
     dg_HeartbeatInterval = 5 * Second, dg_ContextTTL = 5 * Minute\<rparr>"

definition NewDistributedContextManager :: "dcm_config \<Rightarrow> dcm" where
  "NewDistributedContextManager config = \<lparr>dm_config = config, dm_clusterNodes = Map.empty,
     dm_contexts = Map.empty, dm_eventQueue = [], dm_incoming = [], dm_outgoing = [], dm_contextsCreated = 0,
     dm_contextsPropagated = 0, dm_contextsCancelled = 0, dm_contextsExpired = 0, dm_messagesSent = 0,
     dm_messagesReceived = 0, dm_isRunning = False, dm_cancelled = False\<rparr>"

datatype dcm_error = AlreadyRunning | NotRunning | ShuttingDown | ContextNotFound string | QueueIsFull

definition Start_dcm :: "dcm \<Rightarrow> dcm \<times> dcm_error option" where
  "Start_dcm m = (if dm_isRunning m then (m, Some AlreadyRunning) else (m\<lparr>dm_isRunning := True\<rparr>, None))"

definition Shutdown_dcm :: "dcm \<Rightarrow> dcm \<times> dcm_error option" where
  "Shutdown_dcm m =
     (if \<not> dm_isRunning m then (m, Some NotRunning)
      else (m\<lparr>dm_isRunning := False, dm_cancelled := True\<rparr>, None))"

definition ensureRunning :: "dcm \<Rightarrow> dcm_error option" where
  "ensureRunning m =
     (if \<not> dm_isRunning m then Some NotRunning else if dm_cancelled m then Some ShuttingDown else None)"

section \<open>Queues\<close>

text \<open>A non-blocking send: the element is dropped when the channel is full.\<close>

definition emit :: "ContextEvent \<Rightarrow> dcm \<Rightarrow> dcm" where
  "emit ev m = (if length (dm_eventQueue m) < dg_EventQueueSize (dm_config m)
                then m\<lparr>dm_eventQueue := dm_eventQueue m @ [ev]\<rparr> else m)"

definition has_room :: "dcm \<Rightarrow> bool" where
  "has_room m \<longleftrightarrow> length (dm_outgoing m) < dg_MessageQueueSize (dm_config m)"

definition post :: "ContextMessage \<Rightarrow> dcm \<Rightarrow> dcm" where
  "post msg m = (if has_room m then m\<lparr>dm_outgoing := dm_outgoing m @ [msg]\<rparr> else m)"

definition node_event :: "ContextEventType \<Rightarrow> string \<Rightarrow> time \<Rightarrow> dcm \<Rightarrow> ContextEvent" where
  "node_event t contextID now m =
     \<lparr>ce_Type = t, ce_ContextID = contextID, ce_NodeID = dg_NodeID (dm_config m), ce_When = now\<rparr>"

section \<open>Contexts\<close>

text \<open>
  \<open>stopped\<close>: the context of the manager was cancelled after the check and the final select took
  that branch.
\<close>

definition CreateContext ::
  "string \<Rightarrow> string \<Rightarrow> string \<Rightarrow> time \<Rightarrow> bool \<Rightarrow> string \<Rightarrow> (string \<rightharpoonup> string) option \<Rightarrow> time \<Rightarrow> dcm \<Rightarrow>
   dcm \<times> (dcm_error + dist_context)" where
  "CreateContext contextID newTrace spanID now stopped parentID vals deadline0 m =
     (case ensureRunning m of
        Some err \<Rightarrow> (m, Inl err)
      | None \<Rightarrow>
          (let traceID = (if parentID \<noteq> [] then (case dm_contexts m parentID of Some p \<Rightarrow> dx_TraceID p | None \<Rightarrow> newTrace)
                          else newTrace);
               deadline = (if deadline0 = 0 then now + dg_ContextTTL (dm_config m) else deadline0);
               ctx = \<lparr>dx_ID = contextID, dx_ParentID = parentID, dx_TraceID = traceID, dx_SpanID = spanID,
                      dx_Values = vals, dx_Deadline = deadline, dx_CreatedAt = now, dx_UpdatedAt = now,
                      dx_NodeIDs = [dg_NodeID (dm_config m)], dx_PropagatedTo = Some []\<rparr>;
               m1 = m\<lparr>dm_contexts := (dm_contexts m)(contextID \<mapsto> ctx)\<rparr>
           in if stopped then (m1, Inl ShuttingDown)
              else (let m2 = emit (node_event EventContextCreated contextID now m1) m1
                    in (m2\<lparr>dm_contextsCreated := dm_contextsCreated m2 + 1\<rparr>, Inr ctx))))"

definition mark_propagated :: "string \<Rightarrow> time \<Rightarrow> dist_context \<Rightarrow> dist_context option" where
  "mark_propagated target now ctx =
     (case dx_PropagatedTo ctx of
        None \<Rightarrow> None
      | Some ts \<Rightarrow> Some (ctx\<lparr>dx_PropagatedTo := Some (if target \<in> set ts then ts else ts @ [target]), dx_UpdatedAt := now\<rparr>))"

text \<open>One turn of the loop over the targets.\<close>

definition propagate_to :: "string \<Rightarrow> dist_context \<Rightarrow> time \<Rightarrow> string \<Rightarrow> dcm \<Rightarrow> dcm option" where
  "propagate_to contextID ctx now target m =
     (if has_room m
      then (let m1 = post \<lparr>mx_Type = MessagePropagate, mx_SourceNode = dg_NodeID (dm_config m), mx_TargetNode = target,
                     mx_ContextID = contextID, mx_Context = Some ctx, mx_Data = [], mx_Timestamp = now\<rparr> m
            in case dm_contexts m1 contextID of
                 None \<Rightarrow> Some m1
               | Some c \<Rightarrow> map_option (\<lambda>c'. m1\<lparr>dm_contexts := (dm_contexts m1)(contextID \<mapsto> c')\<rparr>) (mark_propagated target now c))
      else Some m)"

fun propagate_all :: "string \<Rightarrow> dist_context \<Rightarrow> time \<Rightarrow> string list \<Rightarrow> dcm \<Rightarrow> dcm option" where
  "propagate_all contextID ctx now [] m = Some m"
| "propagate_all contextID ctx now (t # ts) m =
     (case propagate_to contextID ctx now t m of
        None \<Rightarrow> None | Some m1 \<Rightarrow> propagate_all contextID ctx now ts m1)"

text \<open>\<open>order\<close> is the range over the nodes of the cluster.\<close>

definition PropagateContext ::
  "string list \<Rightarrow> time \<Rightarrow> string \<Rightarrow> string list \<Rightarrow> dcm \<Rightarrow> (dcm \<times> dcm_error option) option" where
  "PropagateContext order now contextID targetNodes m =
     (case ensureRunning m of
        Some err \<Rightarrow> Some (m, Some err)
      | None \<Rightarrow>
          (case dm_contexts m contextID of
             None \<Rightarrow> Some (m, Some (ContextNotFound contextID))
           | Some ctx \<Rightarrow>
               (let targets = (if targetNodes = [] then filter (\<lambda>n. n \<noteq> dg_NodeID (dm_config m)) order else targetNodes)
                in case propagate_all contextID ctx now targets m of
                     None \<Rightarrow> None
                   | Some m1 \<Rightarrow>
                       (let m2 = emit (node_event EventContextPropagated contextID now m1) m1
                        in Some (m2\<lparr>dm_contextsPropagated := dm_contextsPropagated m2 + int (length targets)\<rparr>, None)))))"

fun post_all :: "MessageType \<Rightarrow> string \<Rightarrow> dist_context option \<Rightarrow> value_list \<Rightarrow> time \<Rightarrow> string list \<Rightarrow> dcm \<Rightarrow> dcm" where
  "post_all t contextID ctx data now [] m = m"
| "post_all t contextID ctx data now (target # rest) m =
     post_all t contextID ctx data now rest
       (post \<lparr>mx_Type = t, mx_SourceNode = dg_NodeID (dm_config m), mx_TargetNode = target, mx_ContextID = contextID,
              mx_Context = ctx, mx_Data = data, mx_Timestamp = now\<rparr> m)"

text \<open>\<^verbatim>\<open>maps.Copy\<close> into a map that may be nil.\<close>

definition maps_Copy :: "(string \<rightharpoonup> string) option \<Rightarrow> value_list \<Rightarrow> (string \<rightharpoonup> string) option option" where
  "maps_Copy dst src =
     (if src = [] then Some dst else (case dst of None \<Rightarrow> None | Some d \<Rightarrow> Some (Some (d ++ map_of src))))"

definition propagated :: "dist_context \<Rightarrow> string list" where
  "propagated ctx = (case dx_PropagatedTo ctx of None \<Rightarrow> [] | Some ts \<Rightarrow> ts)"

definition UpdateContext :: "time \<Rightarrow> string \<Rightarrow> value_list \<Rightarrow> dcm \<Rightarrow> (dcm \<times> dcm_error option) option" where
  "UpdateContext now contextID vals m =
     (case ensureRunning m of
        Some err \<Rightarrow> Some (m, Some err)
      | None \<Rightarrow>
          (case dm_contexts m contextID of
             None \<Rightarrow> Some (m, Some (ContextNotFound contextID))
           | Some ctx0 \<Rightarrow>
               (case maps_Copy (dx_Values ctx0) vals of
                  None \<Rightarrow> None
                | Some vals' \<Rightarrow>
                    (let ctx = ctx0\<lparr>dx_Values := vals', dx_UpdatedAt := now\<rparr>;
                         m1 = post_all MessageUpdate contextID (Some ctx) vals now (propagated ctx)
                                (m\<lparr>dm_contexts := (dm_contexts m)(contextID \<mapsto> ctx)\<rparr>)
                     in Some (emit (node_event EventContextUpdated contextID now m1) m1, None)))))"

definition CancelContext :: "time \<Rightarrow> string \<Rightarrow> dcm \<Rightarrow> dcm \<times> dcm_error option" where
  "CancelContext now contextID m =
     (case ensureRunning m of
        Some err \<Rightarrow> (m, Some err)
      | None \<Rightarrow>
          (case dm_contexts m contextID of
             None \<Rightarrow> (m, Some (ContextNotFound contextID))
           | Some ctx \<Rightarrow>
               (let m1 = post_all MessageCancel contextID None [] now (propagated ctx)
                           (m\<lparr>dm_contexts := (dm_contexts m)(contextID := None)\<rparr>);
                    m2 = emit (node_event EventContextCancelled contextID now m1) m1
                in (m2\<lparr>dm_contextsCancelled := dm_contextsCancelled m2 + 1\<rparr>, None))))"

definition GetContext :: "string \<Rightarrow> dcm \<Rightarrow> dcm_error + dist_context" where
  "GetContext contextID m =
     (case dm_contexts m contextID of None \<Rightarrow> Inl (ContextNotFound contextID) | Some ctx \<Rightarrow> Inr ctx)"

text \<open>\<open>order\<close> is the range over the contexts; the events follow the removals.\<close>

definition expired :: "time \<Rightarrow> dist_context \<Rightarrow> bool" where
  "expired now ctx \<longleftrightarrow> now > dx_Deadline ctx"

fun report_expired :: "time \<Rightarrow> string list \<Rightarrow> dcm \<Rightarrow> dcm" where
  "report_expired now [] m = m"
| "report_expired now (k # ks) m =
     report_expired now ks
       ((emit (node_event EventContextExpired k now m) m)\<lparr>dm_contextsExpired := dm_contextsExpired m + 1\<rparr>)"

definition expireContexts :: "string list \<Rightarrow> time \<Rightarrow> dcm \<Rightarrow> dcm" where
  "expireContexts order now m =
    (let gone = filter (\<lambda>k. case dm_contexts m k of None \<Rightarrow> False | Some ctx \<Rightarrow> expired now ctx) order
     in report_expired now gone (m\<lparr>dm_contexts := map_delete_if (expired now) (dm_contexts m)\<rparr>))"

section \<open>The cluster\<close>

definition JoinCluster :: "time \<Rightarrow> string \<Rightarrow> string \<Rightarrow> dcm \<Rightarrow> dcm \<times> dcm_error option" where
  "JoinCluster now nodeID address m =
     (if dm_cancelled m then (m, Some ShuttingDown)
      else (emit \<lparr>ce_Type = EventNodeJoined, ce_ContextID = [], ce_NodeID = nodeID, ce_When = now\<rparr>
              (m\<lparr>dm_clusterNodes := (dm_clusterNodes m)(nodeID \<mapsto> \<lparr>cn_ID = nodeID, cn_Address = address,
                 cn_Status = StatusActive, cn_LastSeen = now, cn_JoinedAt = now\<rparr>)\<rparr>), None))"

definition LeaveCluster :: "time \<Rightarrow> string \<Rightarrow> dcm \<Rightarrow> dcm \<times> dcm_error option" where
  "LeaveCluster now nodeID m =
     (if dm_cancelled m then (m, Some ShuttingDown)
      else (emit \<lparr>ce_Type = EventNodeLeft, ce_ContextID = [], ce_NodeID = nodeID, ce_When = now\<rparr>
              (m\<lparr>dm_clusterNodes := (dm_clusterNodes m)(nodeID := None)\<rparr>), None))"

definition sendHeartbeats :: "string list \<Rightarrow> time \<Rightarrow> dcm \<Rightarrow> dcm" where
  "sendHeartbeats order now m =
     (if dm_cancelled m then m
      else post_all MessageHeartbeat [] None [] now (filter (\<lambda>n. n \<noteq> dg_NodeID (dm_config m)) order) m)"

definition detectInactiveNodes :: "time \<Rightarrow> dcm \<Rightarrow> dcm" where
  "detectInactiveNodes now m =
    (let threshold = now - dg_HeartbeatInterval (dm_config m) * 3
     in m\<lparr>dm_clusterNodes := (\<lambda>k. map_option (\<lambda>node.
            if cn_LastSeen node < threshold \<and> cn_Status node = StatusActive
            then node\<lparr>cn_Status := StatusInactive\<rparr> else node) (dm_clusterNodes m k))\<rparr>)"

section \<open>Messages from other nodes\<close>

definition handlePropagateMessage :: "ContextMessage \<Rightarrow> dcm \<Rightarrow> dcm" where
  "handlePropagateMessage msg m =
     (case mx_Context msg of
        None \<Rightarrow> m | Some ctx \<Rightarrow> m\<lparr>dm_contexts := (dm_contexts m)(mx_ContextID msg \<mapsto> ctx)\<rparr>)"

definition handleUpdateMessage :: "time \<Rightarrow> ContextMessage \<Rightarrow> dcm \<Rightarrow> dcm option" where
  "handleUpdateMessage now msg m =
     (case dm_contexts m (mx_ContextID msg) of
        None \<Rightarrow> Some m
      | Some ctx \<Rightarrow>
          map_option (\<lambda>v. m\<lparr>dm_contexts := (dm_contexts m)(mx_ContextID msg \<mapsto> ctx\<lparr>dx_Values := v, dx_UpdatedAt := now\<rparr>)\<rparr>)
            (maps_Copy (dx_Values ctx) (mx_Data msg)))"

definition handleCancelMessage :: "ContextMessage \<Rightarrow> dcm \<Rightarrow> dcm" where
  "handleCancelMessage msg m = m\<lparr>dm_contexts := (dm_contexts m)(mx_ContextID msg := None)\<rparr>"

definition handleHeartbeatMessage :: "time \<Rightarrow> ContextMessage \<Rightarrow> dcm \<Rightarrow> dcm" where
  "handleHeartbeatMessage now msg m =
     (case dm_clusterNodes m (mx_SourceNode msg) of
        None \<Rightarrow> m
      | Some node \<Rightarrow> m\<lparr>dm_clusterNodes := (dm_clusterNodes m)(mx_SourceNode msg \<mapsto>
            node\<lparr>cn_LastSeen := now, cn_Status := StatusActive\<rparr>)\<rparr>)"

definition processIncomingMessage :: "time \<Rightarrow> ContextMessage \<Rightarrow> dcm \<Rightarrow> dcm option" where
  "processIncomingMessage now msg m =
     (case mx_Type msg of
        MessagePropagate \<Rightarrow> Some (handlePropagateMessage msg m)
      | MessageUpdate \<Rightarrow> handleUpdateMessage now msg m
      | MessageCancel \<Rightarrow> Some (handleCancelMessage msg m)
      | MessageHeartbeat \<Rightarrow> Some (handleHeartbeatMessage now msg m)
      | _ \<Rightarrow> Some m)"

definition SubmitIncomingMessage :: "ContextMessage \<Rightarrow> dcm \<Rightarrow> dcm \<times> dcm_error option" where
  "SubmitIncomingMessage msg m =
     (case ensureRunning m of
        Some err \<Rightarrow> (m, Some err)
      | None \<Rightarrow>
          (if length (dm_incoming m) < dg_MessageQueueSize (dm_config m)
           then (m\<lparr>dm_incoming := dm_incoming m @ [msg]\<rparr>, None) else (m, Some QueueIsFull)))"

text \<open>One turn of each of the loops over the queues.\<close>

definition handleIncomingMessages :: "time \<Rightarrow> dcm \<Rightarrow> dcm option" where
  "handleIncomingMessages now m =
     (case dm_incoming m of
        [] \<Rightarrow> Some m
      | msg # rest \<Rightarrow>
          map_option (\<lambda>m1. m1\<lparr>dm_messagesReceived := dm_messagesReceived m1 + 1\<rparr>)
            (processIncomingMessage now msg (m\<lparr>dm_incoming := rest\<rparr>)))"

definition handleOutgoingMessages :: "dcm \<Rightarrow> dcm" where
  "handleOutgoingMessages m =
     (case dm_outgoing m of
        [] \<Rightarrow> m | msg # rest \<Rightarrow> m\<lparr>dm_outgoing := rest, dm_messagesSent := dm_messagesSent m + 1\<rparr>)"

definition processEvents :: "dcm \<Rightarrow> dcm" where
  "processEvents m = (case dm_eventQueue m of [] \<Rightarrow> m | ev # rest \<Rightarrow> m\<lparr>dm_eventQueue := rest\<rparr>)"

section \<open>Accounting and traces\<close>

lemma emit_fields [simp]:
  "dm_contexts (emit ev m) = dm_contexts m" "dm_contextsCreated (emit ev m) = dm_contextsCreated m"
  "dm_contextsCancelled (emit ev m) = dm_contextsCancelled m" "dm_contextsExpired (emit ev m) = dm_contextsExpired m"
  "dm_outgoing (emit ev m) = dm_outgoing m" "dm_config (emit ev m) = dm_config m"
  "dm_isRunning (emit ev m) = dm_isRunning m" "dm_cancelled (emit ev m) = dm_cancelled m"
  "dm_contextsPropagated (emit ev m) = dm_contextsPropagated m"
  by (simp_all add: emit_def)

lemma post_fields [simp]:
  "dm_contexts (post msg m) = dm_contexts m" "dm_contextsCreated (post msg m) = dm_contextsCreated m"
  "dm_contextsCancelled (post msg m) = dm_contextsCancelled m" "dm_contextsExpired (post msg m) = dm_contextsExpired m"
  "dm_config (post msg m) = dm_config m" "dm_isRunning (post msg m) = dm_isRunning m"
  "dm_cancelled (post msg m) = dm_cancelled m"
  by (simp_all add: post_def)

lemma post_all_fields [simp]:
  "dm_contexts (post_all t k ctx data now ts m) = dm_contexts m"
  "dm_contextsCreated (post_all t k ctx data now ts m) = dm_contextsCreated m"
  "dm_contextsCancelled (post_all t k ctx data now ts m) = dm_contextsCancelled m"
  "dm_contextsExpired (post_all t k ctx data now ts m) = dm_contextsExpired m"
  "dm_config (post_all t k ctx data now ts m) = dm_config m"
  "dm_isRunning (post_all t k ctx data now ts m) = dm_isRunning m"
  "dm_cancelled (post_all t k ctx data now ts m) = dm_cancelled m"
  by (induction ts arbitrary: m) simp_all

lemma report_expired_fields [simp]:
  "dm_contexts (report_expired now ks m) = dm_contexts m"
  "dm_contextsCreated (report_expired now ks m) = dm_contextsCreated m"
  "dm_contextsCancelled (report_expired now ks m) = dm_contextsCancelled m"
  "dm_contextsExpired (report_expired now ks m) = dm_contextsExpired m + int (length ks)"
  by (induction ks arbitrary: m) simp_all

text \<open>
  The local operations of the manager, and the heartbeats that arrive.  The identifier of a new
  context is fresh: neither in use nor the parent of a context.
\<close>

datatype dcm_event =
  DCreate string string string time string "(string \<rightharpoonup> string) option" time
| DPropagate "string list" time string "string list" | DUpdate time string value_list | DCancel time string
| DExpire "string list" time | DJoin time string string | DLeave time string | DBeat "string list" time
| DDetect time | DHeartbeat time ContextMessage | DSend | DProcess | DStart | DShutdown

fun dcm_step :: "dcm \<Rightarrow> dcm_event \<Rightarrow> dcm option" where
  "dcm_step m (DCreate k trace sid now parent vals deadline) =
     Some (fst (CreateContext k trace sid now False parent vals deadline m))"
| "dcm_step m (DPropagate order now k targets) = map_option fst (PropagateContext order now k targets m)"
| "dcm_step m (DUpdate now k vals) = map_option fst (UpdateContext now k vals m)"
| "dcm_step m (DCancel now k) = Some (fst (CancelContext now k m))"
| "dcm_step m (DExpire order now) = Some (expireContexts order now m)"
| "dcm_step m (DJoin now n a) = Some (fst (JoinCluster now n a m))"
| "dcm_step m (DLeave now n) = Some (fst (LeaveCluster now n m))"
| "dcm_step m (DBeat order now) = Some (sendHeartbeats order now m)"
| "dcm_step m (DDetect now) = Some (detectInactiveNodes now m)"
| "dcm_step m (DHeartbeat now msg) = Some (handleHeartbeatMessage now msg m)"
| "dcm_step m DSend = Some (handleOutgoingMessages m)"
| "dcm_step m DProcess = Some (processEvents m)"
| "dcm_step m DStart = Some (fst (Start_dcm m))"
| "dcm_step m DShutdown = Some (fst (Shutdown_dcm m))"

fun dcm_event_ok :: "dcm \<Rightarrow> dcm_event \<Rightarrow> bool" where
  "dcm_event_ok m (DCreate k trace sid now parent vals deadline) \<longleftrightarrow>
     k \<noteq> [] \<and> k \<notin> dom (dm_contexts m) \<and> k \<noteq> parent \<and> (\<forall>ctx \<in> ran (dm_contexts m). dx_ParentID ctx \<noteq> k)"
| "dcm_event_ok m (DExpire order now) \<longleftrightarrow> distinct order \<and> set order = dom (dm_contexts m)"
| "dcm_event_ok m e \<longleftrightarrow> True"

inductive dcm_reachable :: "dcm_config \<Rightarrow> dcm \<Rightarrow> bool" for config where
  dcm_first: "dcm_reachable config (NewDistributedContextManager config)"
| dcm_next: "dcm_reachable config m \<Longrightarrow> dcm_event_ok m e \<Longrightarrow> dcm_step m e = Some m' \<Longrightarrow> dcm_reachable config m'"

definition accounts :: "dcm \<Rightarrow> bool" where
  "accounts m \<longleftrightarrow> finite (dom (dm_contexts m)) \<and>
     dm_contextsCreated m = int (card (dom (dm_contexts m))) + dm_contextsCancelled m + dm_contextsExpired m"

definition traces_ok :: "dcm \<Rightarrow> bool" where
  "traces_ok m \<longleftrightarrow> (\<forall>k ctx p. dm_contexts m k = Some ctx \<longrightarrow> dx_ParentID ctx \<noteq> [] \<longrightarrow>
     dm_contexts m (dx_ParentID ctx) = Some p \<longrightarrow> dx_TraceID ctx = dx_TraceID p)"

definition same_lineage :: "dist_context \<Rightarrow> dist_context \<Rightarrow> bool" where
  "same_lineage c c' \<longleftrightarrow> dx_ParentID c' = dx_ParentID c \<and> dx_TraceID c' = dx_TraceID c"

text \<open>An operation that at most changes the contents of one context.\<close>

definition quiet :: "dcm \<Rightarrow> dcm \<Rightarrow> bool" where
  "quiet m m' \<longleftrightarrow> dm_contextsCreated m' = dm_contextsCreated m \<and> dm_contextsCancelled m' = dm_contextsCancelled m \<and>
     dm_contextsExpired m' = dm_contextsExpired m \<and>
     (\<forall>k. rel_option same_lineage (dm_contexts m k) (dm_contexts m' k))"

lemma same_lineage_refl [simp]: "same_lineage c c"
  by (simp add: same_lineage_def)

lemma quiet_refl: "dm_contexts m' = dm_contexts m \<Longrightarrow> dm_contextsCreated m' = dm_contextsCreated m \<Longrightarrow>
  dm_contextsCancelled m' = dm_contextsCancelled m \<Longrightarrow> dm_contextsExpired m' = dm_contextsExpired m \<Longrightarrow> quiet m m'"
  by (auto simp: quiet_def intro: option.rel_refl)

lemma quiet_trans: "quiet a b \<Longrightarrow> quiet b c \<Longrightarrow> quiet a c"
proof -
  assume "quiet a b" "quiet b c"
  moreover from this have "rel_option same_lineage (dm_contexts a k) (dm_contexts c k)" for k
    by (cases "dm_contexts a k"; cases "dm_contexts b k"; cases "dm_contexts c k")
      (auto simp: quiet_def same_lineage_def dest!: spec [of _ k])
  ultimately show "quiet a c" by (simp add: quiet_def)
qed

lemma quiet_dom: "quiet m m' \<Longrightarrow> dom (dm_contexts m') = dom (dm_contexts m)"
proof -
  assume q: "quiet m m'"
  have "(dm_contexts m' k = None) = (dm_contexts m k = None)" for k
    using q by (cases "dm_contexts m k"; cases "dm_contexts m' k") (auto simp: quiet_def dest!: spec [of _ k])
  then show ?thesis by (auto simp: dom_def)
qed

lemma quiet_invariants:
  assumes "quiet m m'"
  shows "accounts m \<Longrightarrow> accounts m'" and "traces_ok m \<Longrightarrow> traces_ok m'"
proof -
  show "accounts m \<Longrightarrow> accounts m'" using assms quiet_dom [OF assms] by (simp add: accounts_def quiet_def)
  have old: "\<exists>c. dm_contexts m k = Some c \<and> same_lineage c c'" if "dm_contexts m' k = Some c'" for k c'
    using assms that unfolding quiet_def by (metis option_rel_Some2)
  show "traces_ok m \<Longrightarrow> traces_ok m'"
    unfolding traces_ok_def
  proof (intro allI impI)
    fix k ctx p
    assume t: "\<forall>k ctx p. dm_contexts m k = Some ctx \<longrightarrow> dx_ParentID ctx \<noteq> [] \<longrightarrow>
        dm_contexts m (dx_ParentID ctx) = Some p \<longrightarrow> dx_TraceID ctx = dx_TraceID p"
      and k: "dm_contexts m' k = Some ctx" "dx_ParentID ctx \<noteq> []" "dm_contexts m' (dx_ParentID ctx) = Some p"
    obtain c where c: "dm_contexts m k = Some c" "same_lineage c ctx" using old k(1) by blast
    obtain q where q: "dm_contexts m (dx_ParentID ctx) = Some q" "same_lineage q p" using old k(3) by blast
    show "dx_TraceID ctx = dx_TraceID p" using t c q k(2) by (auto simp: same_lineage_def)
  qed
qed

lemma quiet_upd:
  "dm_contexts m k = Some c \<Longrightarrow> same_lineage c c' \<Longrightarrow> dm_contexts m' = (dm_contexts m)(k \<mapsto> c') \<Longrightarrow>
   dm_contextsCreated m' = dm_contextsCreated m \<Longrightarrow> dm_contextsCancelled m' = dm_contextsCancelled m \<Longrightarrow>
   dm_contextsExpired m' = dm_contextsExpired m \<Longrightarrow> quiet m m'"
  by (auto simp: quiet_def intro: option.rel_refl)

lemma quiet_propagate_to:
  assumes "propagate_to k ctx now t m = Some m'"
  shows "quiet m m'"
proof -
  have lineage: "same_lineage c c'" if "mark_propagated t now c = Some c'" for c c'
    using that by (auto simp: mark_propagated_def same_lineage_def split: option.splits)
  show ?thesis
  proof (cases "dm_contexts m k")
    case None
    then show ?thesis using assms by (auto simp: propagate_to_def Let_def intro: quiet_refl split: if_splits)
  next
    case (Some c)
    show ?thesis
    proof (cases "has_room m")
      case True
      then obtain z where z: "mark_propagated t now c = Some z"
        "dm_contexts m' = (dm_contexts m)(k \<mapsto> z)" "dm_contextsCreated m' = dm_contextsCreated m"
        "dm_contextsCancelled m' = dm_contextsCancelled m" "dm_contextsExpired m' = dm_contextsExpired m"
        using assms Some by (auto simp: propagate_to_def Let_def)
      show ?thesis by (rule quiet_upd [OF Some lineage [OF z(1)] z(2-5)])
    next
      case False
      then show ?thesis using assms by (auto simp: propagate_to_def intro: quiet_refl)
    qed
  qed
qed

lemma quiet_propagate_all: "propagate_all k ctx now ts m = Some m' \<Longrightarrow> quiet m m'"
proof (induction ts arbitrary: m)
  case Nil
  then show ?case by (auto intro: quiet_refl)
next
  case (Cons t ts)
  then obtain m1 where "propagate_to k ctx now t m = Some m1" "propagate_all k ctx now ts m1 = Some m'"
    by (auto split: option.splits)
  then show ?case using quiet_propagate_to Cons.IH quiet_trans by blast
qed

lemma quiet_propagate:
  assumes "PropagateContext order now k targets m = Some (m', err)"
  shows "quiet m m'"
proof -
  have e: "quiet a b \<Longrightarrow> quiet a ((emit ev b)\<lparr>dm_contextsPropagated := n\<rparr>)" for a b ev n
    by (erule quiet_trans) (rule quiet_refl, simp_all)
  show ?thesis
    using assms quiet_propagate_all
    by (auto simp: PropagateContext_def Let_def intro: quiet_refl intro!: e split: option.splits)
qed

lemma quiet_update:
  assumes "UpdateContext now k vals m = Some (m', err)"
  shows "quiet m m'"
proof (cases "ensureRunning m")
  case (Some e)
  then show ?thesis using assms by (auto simp: UpdateContext_def intro: quiet_refl)
next
  case None
  show ?thesis
  proof (cases "dm_contexts m k")
    case c: None
    then show ?thesis using assms None by (auto simp: UpdateContext_def intro: quiet_refl)
  next
    case (Some c)
    with assms None obtain v where v: "maps_Copy (dx_Values c) vals = Some v"
      by (auto simp: UpdateContext_def split: option.splits)
    define m1 where "m1 = m\<lparr>dm_contexts := (dm_contexts m)(k \<mapsto> c\<lparr>dx_Values := v, dx_UpdatedAt := now\<rparr>)\<rparr>"
    have "quiet m m1" unfolding m1_def by (rule quiet_upd [OF Some]) (simp_all add: same_lineage_def)
    moreover have "quiet m1 m'"
      using assms None Some v by (intro quiet_refl) (auto simp: UpdateContext_def Let_def m1_def)
    ultimately show ?thesis by (rule quiet_trans)
  qed
qed

lemma heartbeat_quiet: "quiet m (handleHeartbeatMessage now msg m)"
  by (auto simp: handleHeartbeatMessage_def intro!: quiet_refl split: option.split)

lemma accounts_step:
  assumes "accounts m" and "dcm_event_ok m e" and "dcm_step m e = Some m'"
  shows "accounts m'"
proof (cases e)
  case (DCreate k trace sid now parent vals deadline)
  then have "card (insert k (dom (dm_contexts m))) = card (dom (dm_contexts m)) + 1"
    using assms(1,2) by (simp add: accounts_def)
  then show ?thesis
    using assms(1,3) DCreate by (cases "ensureRunning m") (auto simp: accounts_def CreateContext_def Let_def)
next
  case (DCancel now k)
  show ?thesis
  proof (cases "ensureRunning m = None \<and> dm_contexts m k \<noteq> None")
    case True
    then have "k \<in> dom (dm_contexts m)" by auto
    moreover have "finite (dom (dm_contexts m))" using assms(1) by (simp add: accounts_def)
    ultimately have "card (dom (dm_contexts m)) = card (dom (dm_contexts m) - {k}) + 1"
      using card_Suc_Diff1 by fastforce
    then show ?thesis using True assms DCancel by (auto simp: accounts_def CancelContext_def Let_def)
  next
    case False
    then show ?thesis using assms DCancel by (auto simp: CancelContext_def split: option.split)
  qed
next
  case (DExpire order now)
  define gone where "gone = filter (\<lambda>k. case dm_contexts m k of None \<Rightarrow> False | Some ctx \<Rightarrow> expired now ctx) order"
  have ord: "distinct order" "set order = dom (dm_contexts m)" using assms(2) DExpire by simp_all
  have fin: "finite (dom (dm_contexts m))" using assms(1) by (simp add: accounts_def)
  have d: "dom (map_delete_if (expired now) (dm_contexts m)) = dom (dm_contexts m) - set gone"
    using ord by (auto simp: gone_def map_delete_if_def dom_def split: option.splits if_splits)
  have sub: "set gone \<subseteq> dom (dm_contexts m)" using ord by (auto simp: gone_def)
  have "card (set gone) = length gone" using ord distinct_card [of gone] by (simp add: gone_def del: set_filter)
  moreover have "card (dom (dm_contexts m) - set gone) = card (dom (dm_contexts m)) - card (set gone)"
    using sub by (simp add: card_Diff_subset)
  moreover have "card (set gone) \<le> card (dom (dm_contexts m))" using sub fin by (simp add: card_mono)
  moreover have "m' = report_expired now gone (m\<lparr>dm_contexts := map_delete_if (expired now) (dm_contexts m)\<rparr>)"
    using assms(3) DExpire by (simp add: expireContexts_def gone_def)
  ultimately show ?thesis using assms(1) fin by (simp add: accounts_def d)
next
  case (DPropagate order now k targets)
  then obtain err where "PropagateContext order now k targets m = Some (m', err)" using assms(3) by auto
  then show ?thesis using quiet_invariants(1) [OF quiet_propagate] assms(1) by blast
next
  case (DUpdate now k vals)
  then obtain err where "UpdateContext now k vals m = Some (m', err)" using assms(3) by auto
  then show ?thesis using quiet_invariants(1) [OF quiet_update] assms(1) by blast
next
  case (DHeartbeat now msg)
  then show ?thesis using assms quiet_invariants(1) [OF heartbeat_quiet] by auto
qed (use assms in \<open>auto simp: accounts_def JoinCluster_def LeaveCluster_def sendHeartbeats_def detectInactiveNodes_def
      handleOutgoingMessages_def processEvents_def Start_dcm_def Shutdown_dcm_def Let_def split: list.splits\<close>)

lemma traces_step:
  assumes "traces_ok m" and "dcm_event_ok m e" and "dcm_step m e = Some m'"
  shows "traces_ok m'"
proof (cases e)
  case (DCreate k trace sid now parent vals deadline)
  have fresh: "k \<noteq> parent" "dx_ParentID c \<noteq> k" if "dm_contexts m j = Some c" for j c
    using assms(2) DCreate that by (auto simp: ran_def)
  have own: "k \<noteq> parent" using assms(2) DCreate by simp
  show ?thesis
  proof (cases "ensureRunning m")
    case (Some err)
    then show ?thesis using assms(1,3) DCreate by (simp add: CreateContext_def)
  next
    case None
    then obtain ctx where m': "dm_contexts m' = (dm_contexts m)(k \<mapsto> ctx)" "dx_ParentID ctx = parent"
      "\<And>p. parent \<noteq> [] \<Longrightarrow> dm_contexts m parent = Some p \<Longrightarrow> dx_TraceID ctx = dx_TraceID p"
      using assms(3) DCreate by (auto simp: CreateContext_def Let_def)
    show ?thesis
      using assms(1) own fresh m'(2,3) unfolding traces_ok_def m'(1) by (auto split: if_splits)
  qed
next
  case (DCancel now k)
  then have "m' = m \<or> dm_contexts m' = (dm_contexts m)(k := None)"
    using assms(3) by (auto simp: CancelContext_def Let_def split: option.splits)
  then show ?thesis using assms(1) by (auto simp: traces_ok_def split: if_splits)
next
  case (DExpire order now)
  then show ?thesis using assms by (auto simp: traces_ok_def expireContexts_def Let_def)
next
  case (DPropagate order now k targets)
  then obtain err where "PropagateContext order now k targets m = Some (m', err)" using assms(3) by auto
  then show ?thesis using quiet_invariants(2) [OF quiet_propagate] assms(1) by blast
next
  case (DUpdate now k vals)
  then obtain err where "UpdateContext now k vals m = Some (m', err)" using assms(3) by auto
  then show ?thesis using quiet_invariants(2) [OF quiet_update] assms(1) by blast
next
  case (DHeartbeat now msg)
  then show ?thesis using assms quiet_invariants(2) [OF heartbeat_quiet] by auto
qed (use assms in \<open>auto simp: traces_ok_def JoinCluster_def LeaveCluster_def sendHeartbeats_def detectInactiveNodes_def
      handleOutgoingMessages_def processEvents_def Start_dcm_def Shutdown_dcm_def Let_def split: list.splits if_splits\<close>)

lemma dcm_invariants:
  "dcm_reachable config m \<Longrightarrow> accounts m \<and> traces_ok m"
proof (induction rule: dcm_reachable.induct)
  case dcm_first
  show ?case by (simp add: accounts_def traces_ok_def NewDistributedContextManager_def)
next
  case (dcm_next m e m')
  then show ?case using accounts_step traces_step by blast
qed

text \<open>
  Under any sequence of local operations, every context ever created is still held, was
  cancelled, or has expired, each counted once; and a context whose parent is held has its
  parent's trace.
\<close>

theorem contexts_accounted:
  assumes "dcm_reachable config m"
  shows "dm_contextsCreated m =
      int (card (dom (dm_contexts m))) + dm_contextsCancelled m + dm_contextsExpired m \<and>
    (\<forall>k ctx p. dm_contexts m k = Some ctx \<and> dx_ParentID ctx \<noteq> [] \<and> dm_contexts m (dx_ParentID ctx) = Some p \<longrightarrow>
       dx_TraceID ctx = dx_TraceID p)"
  using dcm_invariants [OF assms] by (auto simp: accounts_def traces_ok_def)

lemma create_root:
  assumes "ensureRunning m = None" and "deadline \<noteq> 0"
  shows "\<exists>m' ctx. dcm_step m (DCreate k trace sid now [] vals deadline) = Some m' \<and> ensureRunning m' = None \<and>
    dm_contexts m' = (dm_contexts m)(k \<mapsto> ctx) \<and> dx_ParentID ctx = [] \<and>
    dm_contextsCreated m' = dm_contextsCreated m + 1 \<and> dm_contextsCancelled m' = dm_contextsCancelled m"
proof -
  define ctx where "ctx = \<lparr>dx_ID = k, dx_ParentID = [], dx_TraceID = trace, dx_SpanID = sid, dx_Values = vals,
      dx_Deadline = deadline, dx_CreatedAt = now, dx_UpdatedAt = now, dx_NodeIDs = [dg_NodeID (dm_config m)],
      dx_PropagatedTo = Some []\<rparr>"
  define m' where "m' = fst (CreateContext k trace sid now False [] vals deadline m)"
  have "dm_contexts m' = (dm_contexts m)(k \<mapsto> ctx)"
    using assms by (simp add: m'_def CreateContext_def Let_def ctx_def)
  moreover have "ensureRunning m' = None"
    using assms by (simp add: m'_def CreateContext_def Let_def ensureRunning_def split: if_splits)
  moreover have "dm_contextsCreated m' = dm_contextsCreated m + 1 \<and> dm_contextsCancelled m' = dm_contextsCancelled m"
    using assms by (simp add: m'_def CreateContext_def Let_def)
  moreover have "dx_ParentID ctx = []" by (simp add: ctx_def)
  moreover have "dcm_step m (DCreate k trace sid now [] vals deadline) = Some m'" by (simp add: m'_def)
  ultimately show ?thesis by blast
qed

lemma cancel_held:
  assumes "ensureRunning m = None" and "dm_contexts m k = Some ctx"
  shows "\<exists>m'. dcm_step m (DCancel now k) = Some m' \<and> dm_contexts m' = (dm_contexts m)(k := None) \<and>
    dm_contextsCreated m' = dm_contextsCreated m \<and> dm_contextsCancelled m' = dm_contextsCancelled m + 1"
  using assms by (simp add: CancelContext_def Let_def)

lemma contexts_accounted_witness:
  "\<exists>m :: dcm. dom (dm_contexts m) = {''b''} \<and> dm_contextsCreated m = 2 \<and> dm_contextsCancelled m = 1 \<and>
    dm_contextsCreated m = int (card (dom (dm_contexts m))) + dm_contextsCancelled m + dm_contextsExpired m"
proof -
  let ?c = "NewManagerConfig ''n1''"
  define m1 where "m1 = (NewDistributedContextManager ?c)\<lparr>dm_isRunning := True\<rparr>"
  have m1: "dm_contexts m1 = Map.empty" "dm_contextsCreated m1 = 0" "dm_contextsCancelled m1 = 0" "ensureRunning m1 = None"
    by (simp_all add: m1_def NewDistributedContextManager_def ensureRunning_def)
  have r1: "dcm_reachable ?c m1"
    by (rule dcm_next [OF dcm_first, of _ DStart]) (simp_all add: m1_def Start_dcm_def NewDistributedContextManager_def)
  obtain m2 a where m2: "dcm_step m1 (DCreate ''a'' ''t1'' ''s1'' 1 [] None 8) = Some m2" "ensureRunning m2 = None"
    "dm_contexts m2 = Map.empty(''a'' \<mapsto> a)" "dx_ParentID a = []" "dm_contextsCreated m2 = 1" "dm_contextsCancelled m2 = 0"
    using create_root [OF m1(4), of 8 "''a''" "''t1''" "''s1''" 1 None] unfolding m1(1-3) by auto
  have r2: "dcm_reachable ?c m2" by (rule dcm_next [OF r1 _ m2(1)]) (simp add: m1)
  obtain m3 b where m3: "dcm_step m2 (DCreate ''b'' ''t2'' ''s2'' 2 [] None 9) = Some m3" "ensureRunning m3 = None"
    "dm_contexts m3 = Map.empty(''a'' \<mapsto> a, ''b'' \<mapsto> b)" "dm_contextsCreated m3 = 2" "dm_contextsCancelled m3 = 0"
    using create_root [OF m2(2), of 9 "''b''" "''t2''" "''s2''" 2 None] unfolding m2(3,5,6) by auto
  have r3: "dcm_reachable ?c m3" by (rule dcm_next [OF r2 _ m3(1)]) (simp add: m2)
  obtain m4 where m4: "dcm_step m3 (DCancel 3 ''a'') = Some m4" "dm_contexts m4 = (dm_contexts m3)(''a'' := None)"
    "dm_contextsCreated m4 = 2" "dm_contextsCancelled m4 = 1"
    using cancel_held [OF m3(2), of "''a''" a 3] unfolding m3(3-5) by auto
  have r4: "dcm_reachable ?c m4" by (rule dcm_next [OF r3 _ m4(1)]) simp
  have "dm_contexts m4 = Map.empty(''b'' \<mapsto> b)"
    unfolding m4(2) m3(3) by (simp add: fun_upd_twist [of "''a''" "''b''"] fun_upd_upd)
  then have "dom (dm_contexts m4) = {''b''}" by simp
  moreover have "dm_contextsCreated m4 =
      int (card (dom (dm_contexts m4))) + dm_contextsCancelled m4 + dm_contextsExpired m4"
    using contexts_accounted [OF r4] by (rule conjunct1)
  ultimately show ?thesis using m4(3,4) by blast
qed

section \<open>Replicas\<close>

definition to_node :: "string \<Rightarrow> ContextMessage list \<Rightarrow> ContextMessage list" where
  "to_node target = filter (\<lambda>msg. mx_TargetNode msg = target)"

text \<open>The other node processes messages in their order.\<close>

fun replay :: "time \<Rightarrow> ContextMessage list \<Rightarrow> dcm \<Rightarrow> dcm option" where
  "replay now [] m = Some m"
| "replay now (msg # msgs) m =
     (case processIncomingMessage now msg m of None \<Rightarrow> None | Some m1 \<Rightarrow> replay now msgs m1)"

fun updates :: "string \<Rightarrow> (time \<times> value_list) list \<Rightarrow> dcm \<Rightarrow> dcm option" where
  "updates k [] m = Some m"
| "updates k ((now, vals) # us) m =
     (case UpdateContext now k vals m of None \<Rightarrow> None | Some (m1, _) \<Rightarrow> updates k us m1)"

lemma replay_append:
  "replay now (xs @ ys) m = (case replay now xs m of None \<Rightarrow> None | Some m1 \<Rightarrow> replay now ys m1)"
  by (induction xs arbitrary: m) (auto split: option.split)

lemma to_node_append: "to_node t (xs @ ys) = to_node t xs @ to_node t ys"
  by (simp add: to_node_def)

lemma post_all_outgoing:
  "length (dm_outgoing m) + length ts \<le> dg_MessageQueueSize (dm_config m) \<Longrightarrow>
   dm_outgoing (post_all t k ctx data now ts m) = dm_outgoing m @
     map (\<lambda>target. \<lparr>mx_Type = t, mx_SourceNode = dg_NodeID (dm_config m), mx_TargetNode = target, mx_ContextID = k,
       mx_Context = ctx, mx_Data = data, mx_Timestamp = now\<rparr>) ts"
  by (induction ts arbitrary: m) (simp_all add: post_def has_room_def)

lemma filter_one: "distinct ts \<Longrightarrow> t \<in> set ts \<Longrightarrow> filter (\<lambda>x. x = t) ts = [t]"
  by (induction ts) (auto simp: filter_empty_conv)

lemma update_step:
  assumes "ensureRunning a = None" and "dm_contexts a k = Some ca" and "dx_Values ca = Some va"
    and "distinct (propagated ca)" and "target \<in> set (propagated ca)"
    and "length (dm_outgoing a) + length (propagated ca) \<le> dg_MessageQueueSize (dm_config a)"
  shows "\<exists>a' ms msg. UpdateContext now k vals a = Some (a', None) \<and> ensureRunning a' = None \<and>
    dm_config a' = dm_config a \<and> dm_outgoing a' = dm_outgoing a @ ms \<and> length ms = length (propagated ca) \<and>
    to_node target ms = [msg] \<and> mx_Type msg = MessageUpdate \<and> mx_ContextID msg = k \<and> mx_Data msg = vals \<and>
    (\<exists>ca'. dm_contexts a' k = Some ca' \<and> dx_Values ca' = Some (va ++ map_of vals) \<and> propagated ca' = propagated ca)"
proof -
  define c where "c = ca\<lparr>dx_Values := Some (va ++ map_of vals), dx_UpdatedAt := now\<rparr>"
  define m1 where "m1 = post_all MessageUpdate k (Some c) vals now (propagated c)
      (a\<lparr>dm_contexts := (dm_contexts a)(k \<mapsto> c)\<rparr>)"
  define msg where "msg = \<lparr>mx_Type = MessageUpdate, mx_SourceNode = dg_NodeID (dm_config a), mx_TargetNode = target,
      mx_ContextID = k, mx_Context = Some c, mx_Data = vals, mx_Timestamp = now\<rparr>"
  define ms where "ms = map (\<lambda>t. msg\<lparr>mx_TargetNode := t\<rparr>) (propagated ca)"
  have copy: "maps_Copy (dx_Values ca) vals = Some (Some (va ++ map_of vals))"
    using assms(3) by (simp add: maps_Copy_def)
  have pc: "propagated c = propagated ca" by (simp add: c_def propagated_def)
  have u: "UpdateContext now k vals a = Some (emit (node_event EventContextUpdated k now m1) m1, None)"
    using assms(1,2) copy by (simp add: UpdateContext_def Let_def c_def m1_def)
  have out: "dm_outgoing m1 = dm_outgoing a @ ms"
    using assms(6) by (simp add: m1_def post_all_outgoing pc ms_def msg_def)
  have "to_node target ms = map (\<lambda>t. msg\<lparr>mx_TargetNode := t\<rparr>) (filter (\<lambda>t. t = target) (propagated ca))"
    by (simp add: to_node_def ms_def filter_map comp_def)
  then have one: "to_node target ms = [msg]"
    using filter_one [OF assms(4,5)] by (simp add: msg_def)
  have run: "ensureRunning (emit (node_event EventContextUpdated k now m1) m1) = None"
    using assms(1) by (simp add: ensureRunning_def m1_def split: if_splits)
  show ?thesis
  proof (intro exI conjI)
    show "UpdateContext now k vals a = Some (emit (node_event EventContextUpdated k now m1) m1, None)" by (rule u)
    show "to_node target ms = [msg]" by (rule one)
    show "dm_contexts (emit (node_event EventContextUpdated k now m1) m1) k = Some c" by (simp add: m1_def)
  qed (use run out pc in \<open>simp_all add: m1_def msg_def ms_def c_def\<close>)
qed

lemma replay_update:
  assumes "mx_Type msg = MessageUpdate" and "mx_ContextID msg = k" and "dm_contexts b k = Some cb"
    and "dx_Values cb = Some v"
  shows "\<exists>b'. replay now [msg] b = Some b' \<and>
    (\<exists>cb'. dm_contexts b' k = Some cb' \<and> dx_Values cb' = Some (v ++ map_of (mx_Data msg)))"
  using assms by (simp add: processIncomingMessage_def handleUpdateMessage_def maps_Copy_def)

text \<open>
  C28. A replica follows its origin: if another node holds a copy of a context with equal values
  and the queue has room, then after any updates at the origin, the messages queued for that node,
  processed in their order, leave its copy with the origin's values.
\<close>

theorem replica_follows:
  assumes "ensureRunning a = None" and "dm_contexts a k = Some ca" and "dx_Values ca = Some v"
    and "distinct (propagated ca)" and "target \<in> set (propagated ca)"
    and "length (dm_outgoing a) + length us * length (propagated ca) \<le> dg_MessageQueueSize (dm_config a)"
    and "dm_contexts b k = Some cb" and "dx_Values cb = dx_Values ca"
  shows "\<exists>a' msgs b'. updates k us a = Some a' \<and> dm_outgoing a' = dm_outgoing a @ msgs \<and>
    replay now (to_node target msgs) b = Some b' \<and>
    map_option dx_Values (dm_contexts b' k) = map_option dx_Values (dm_contexts a' k)"
  using assms
proof (induction us arbitrary: a b ca cb v)
  case Nil
  then show ?case by (auto simp: to_node_def)
next
  case (Cons u us)
  obtain t vals where u: "u = (t, vals)" by (cases u)
  have room: "length (dm_outgoing a) + length (propagated ca) \<le> dg_MessageQueueSize (dm_config a)"
    using Cons.prems(6) by simp
  obtain a1 ms msg ca1 where a1: "UpdateContext t k vals a = Some (a1, None)" "ensureRunning a1 = None"
    "dm_config a1 = dm_config a" "dm_outgoing a1 = dm_outgoing a @ ms" "length ms = length (propagated ca)"
    "to_node target ms = [msg]" "mx_Type msg = MessageUpdate" "mx_ContextID msg = k" "mx_Data msg = vals"
    "dm_contexts a1 k = Some ca1" "dx_Values ca1 = Some (v ++ map_of vals)" "propagated ca1 = propagated ca"
    using update_step [OF Cons.prems(1-5) room, of t vals] by blast
  obtain b1 cb1 where b1: "replay now [msg] b = Some b1" "dm_contexts b1 k = Some cb1"
    "dx_Values cb1 = Some (v ++ map_of vals)"
    using replay_update [OF a1(7,8) Cons.prems(7), of v now] Cons.prems(3,8) a1(9) by auto
  have "\<exists>a' msgs b'. updates k us a1 = Some a' \<and> dm_outgoing a' = dm_outgoing a1 @ msgs \<and>
      replay now (to_node target msgs) b1 = Some b' \<and>
      map_option dx_Values (dm_contexts b' k) = map_option dx_Values (dm_contexts a' k)"
    using Cons.prems(4,5,6) a1 b1
    by (intro Cons.IH [OF a1(2,10,11) _ _ _ b1(2)]) (simp_all add: algebra_simps)
  then obtain a' msgs b' where "updates k us a1 = Some a'" "dm_outgoing a' = dm_outgoing a1 @ msgs"
    "replay now (to_node target msgs) b1 = Some b'"
    "map_option dx_Values (dm_contexts b' k) = map_option dx_Values (dm_contexts a' k)" by blast
  moreover have "replay now (to_node target (ms @ msgs)) b = replay now (to_node target msgs) b1"
    using a1(6) b1(1) replay_append [of now "[msg]" "to_node target msgs" b] by (simp add: to_node_append)
  ultimately have "updates k (u # us) a = Some a' \<and> dm_outgoing a' = dm_outgoing a @ ms @ msgs \<and>
      replay now (to_node target (ms @ msgs)) b = Some b' \<and>
      map_option dx_Values (dm_contexts b' k) = map_option dx_Values (dm_contexts a' k)"
    using a1(1,4) by (simp add: u)
  then show ?case by blast
qed

definition origin_context :: dist_context where
  "origin_context = \<lparr>dx_ID = ''c'', dx_ParentID = [], dx_TraceID = ''t'', dx_SpanID = ''s'',
     dx_Values = Some (Map.empty(''k'' \<mapsto> ''1'')), dx_Deadline = 100, dx_CreatedAt = 0, dx_UpdatedAt = 0,
     dx_NodeIDs = [''n1''], dx_PropagatedTo = Some [''n3'', ''n2'']\<rparr>"

definition origin_node :: dcm where
  "origin_node = (NewDistributedContextManager (NewManagerConfig ''n1''))
     \<lparr>dm_contexts := Map.empty(''c'' \<mapsto> origin_context), dm_isRunning := True\<rparr>"

definition replica_node :: dcm where
  "replica_node = (NewDistributedContextManager (NewManagerConfig ''n2''))\<lparr>dm_contexts := Map.empty(''c'' \<mapsto> origin_context)\<rparr>"

lemma replica_follows_witness:
  "\<exists>a' msgs b'. updates ''c'' [(1, [(''k'', ''2'')]), (2, [(''l'', ''3'')])] origin_node = Some a' \<and>
    dm_outgoing a' = msgs \<and> replay 5 (to_node ''n2'' msgs) replica_node = Some b' \<and>
    map_option dx_Values (dm_contexts b' ''c'') = map_option dx_Values (dm_contexts a' ''c'')"
proof -
  have "\<exists>a' msgs b'. updates ''c'' [(1, [(''k'', ''2'')]), (2, [(''l'', ''3'')])] origin_node = Some a' \<and>
    dm_outgoing a' = dm_outgoing origin_node @ msgs \<and> replay 5 (to_node ''n2'' msgs) replica_node = Some b' \<and>
    map_option dx_Values (dm_contexts b' ''c'') = map_option dx_Values (dm_contexts a' ''c'')"
    by (rule replica_follows [of _ _ origin_context "Map.empty(''k'' \<mapsto> ''1'')" _ _ _ origin_context])
      (simp_all add: origin_node_def replica_node_def origin_context_def ensureRunning_def propagated_def
        NewDistributedContextManager_def NewManagerConfig_def)
  then show ?thesis by (simp add: origin_node_def NewDistributedContextManager_def)
qed

end
