(* ===== verification/AutoHealing.thy ===== *)
theory AutoHealing
  imports Prelude
begin

text \<open>
  The self-healing system of chapter 7, \<^verbatim>\<open>02_auto_healing/auto_healing.go\<close>: health checkers run
  on every tick, their unhealthy results become issues, and each issue starts a goroutine that
  tries the registered healing actions, a bounded number of times, until a re-check succeeds.

  A healing goroutine is a value of its own with a program counter; one turn of its loops is one
  step, and the steps of all goroutines interleave.  What checkers and actions answer, the clock
  and the arrival order of the results are arguments.  A panic outside the guarded checks ends the
  process, which is the result \<open>None\<close> of a step.  A round of checks with its updates, which takes
  several locks one after the other, is one step.  Alert texts are a datatype, \<^verbatim>\<open>Details\<close> are left
  out, and a callback that is started is recorded with its alert.
\<close>

section \<open>Issues and alerts\<close>

datatype Severity = SeverityLow | SeverityMedium | SeverityHigh | SeverityCritical

fun Severity_String :: "Severity \<Rightarrow> string" where
  "Severity_String SeverityLow = ''LOW''"
| "Severity_String SeverityMedium = ''MEDIUM''"
| "Severity_String SeverityHigh = ''HIGH''"
| "Severity_String SeverityCritical = ''CRITICAL''"

datatype AlertLevel = AlertLevelInfo | AlertLevelWarning | AlertLevelError | AlertLevelCritical

record HealthStatus =
  hs_Name :: string
  hs_Status :: string
  hs_Message :: string
  hs_Timestamp :: time
  hs_Score :: real

record HealthIssue =
  hi_Type :: string
  hi_Severity :: Severity
  hi_Description :: string
  hi_Timestamp :: time
  hi_Checker :: string
  hi_Predictive :: bool

datatype alert_text =
  IssueDetected string string Severity | HealingActionFailed string string | HealingActionCompleted string
| HealingFailedAfter int string | RecurringPattern string nat

record Alert =
  al_Level :: AlertLevel
  al_Message :: alert_text
  al_Timestamp :: time
  al_Source :: string

text \<open>Callbacks are named by numbers; \<open>am_started\<close> lists the goroutines that run one.\<close>

record AlertManager =
  am_alerts :: "Alert list"
  am_maxAlerts :: nat
  am_callbacks :: "nat list"
  am_started :: "(nat \<times> Alert) list"

definition NewAlertManager :: "nat \<Rightarrow> AlertManager" where
  "NewAlertManager maxAlerts = \<lparr>am_alerts = [], am_maxAlerts = maxAlerts, am_callbacks = [], am_started = []\<rparr>"

definition Send :: "time \<Rightarrow> Alert \<Rightarrow> AlertManager \<Rightarrow> AlertManager" where
  "Send now alert0 am =
    (let alert = alert0\<lparr>al_Timestamp := now\<rparr>
     in am\<lparr>am_alerts := lastn (am_maxAlerts am) (am_alerts am @ [alert]),
           am_started := am_started am @ map (\<lambda>cb. (cb, alert)) (am_callbacks am)\<rparr>)"

definition AddCallback :: "nat \<Rightarrow> AlertManager \<Rightarrow> AlertManager" where
  "AddCallback cb am = am\<lparr>am_callbacks := am_callbacks am @ [cb]\<rparr>"

text \<open>
  The library's sort is not stable; alerts with equal instants keep their order here.
\<close>

definition GetAlerts :: "int \<Rightarrow> AlertManager \<Rightarrow> Alert list" where
  "GetAlerts limit am =
    (let n = (if limit \<le> 0 \<or> int (length (am_alerts am)) < limit then length (am_alerts am) else nat limit)
     in sort_key (\<lambda>a. - al_Timestamp a) (lastn n (am_alerts am)))"

definition convertToIssue :: "HealthStatus \<Rightarrow> HealthIssue" where
  "convertToIssue st = \<lparr>hi_Type = hs_Name st,
     hi_Severity = (if hs_Status st = ''warning'' then SeverityMedium
                    else if hs_Status st = ''critical'' then SeverityCritical else SeverityLow),
     hi_Description = hs_Message st, hi_Timestamp = hs_Timestamp st, hi_Checker = hs_Name st, hi_Predictive = False\<rparr>"

section \<open>The checkers of the source\<close>

text \<open>\<open>describe\<close> is the formatted message of a check.\<close>

definition grade :: "bool \<Rightarrow> bool \<Rightarrow> string" where
  "grade over near = (if over then ''critical'' else if near then ''warning'' else ''healthy'')"

definition check_memory :: "real \<Rightarrow> (real \<Rightarrow> string) \<Rightarrow> time \<Rightarrow> nat \<Rightarrow> nat \<Rightarrow> HealthStatus" where
  "check_memory threshold describe now heapAlloc sys =
    (let usage = real heapAlloc / real sys * 100
     in \<lparr>hs_Name = ''memory_usage'', hs_Status = grade (threshold < usage) (threshold * (8/10) < usage),
         hs_Message = describe usage, hs_Timestamp = now, hs_Score = 1 - usage / 100\<rparr>)"

definition check_goroutines :: "int \<Rightarrow> (int \<Rightarrow> string) \<Rightarrow> time \<Rightarrow> int \<Rightarrow> HealthStatus" where
  "check_goroutines threshold describe now n =
     \<lparr>hs_Name = ''goroutine_count'', hs_Status = grade (threshold < n) (\<lfloor>real_of_int threshold * (8/10)\<rfloor> < n),
      hs_Message = describe n, hs_Timestamp = now, hs_Score = 1 - real_of_int n / real_of_int (threshold * 2)\<rparr>"

text \<open>The answer of the endpoint: an error, or a status code.\<close>

definition check_http :: "string \<Rightarrow> (string + int \<Rightarrow> string) \<Rightarrow> time \<Rightarrow> string + int \<Rightarrow> HealthStatus" where
  "check_http name describe now answer =
     (case answer of
        Inl err \<Rightarrow> \<lparr>hs_Name = name, hs_Status = ''critical'', hs_Message = describe answer, hs_Timestamp = now, hs_Score = 0\<rparr>
      | Inr code \<Rightarrow>
          (if 200 \<le> code \<and> code < 300
           then \<lparr>hs_Name = name, hs_Status = ''healthy'', hs_Message = describe answer, hs_Timestamp = now, hs_Score = 1\<rparr>
           else \<lparr>hs_Name = name, hs_Status = ''warning'', hs_Message = describe answer, hs_Timestamp = now, hs_Score = 5/10\<rparr>))"

section \<open>The system\<close>

record checker =
  ck_Name :: string
  ck_Critical :: bool

record heal_action =
  ha_Name :: string
  ha_CanHandle :: "string \<Rightarrow> bool"

definition GCTriggerAction :: heal_action where
  "GCTriggerAction = \<lparr>ha_Name = ''force_gc'', ha_CanHandle = (\<lambda>t. t = ''memory_usage'')\<rparr>"

record HealingActionResult =
  hr_Action :: string
  hr_Issue :: HealthIssue
  hr_Success :: bool
  hr_Error :: string
  hr_Duration :: duration
  hr_Timestamp :: time

record SystemMetrics =
  sm_MemoryUsage :: real
  sm_GoroutineCount :: int
  sm_HeapSize :: nat
  sm_LastUpdated :: time

datatype heal_error = NoHealingActions string | HealingCanceled | HealingExhausted int

text \<open>
  Where a healing goroutine stands: before its first read, in the loop over the actions that are
  left of an attempt, waiting for the next attempt, after the last attempt, or returned.
\<close>

datatype heal_pc =
  HBegin | HActing nat "heal_action list" | HWaiting nat | HExhausted | HReturned "heal_error option"

record healing =
  hl_issue :: HealthIssue
  hl_actions :: "heal_action list"
  hl_pc :: heal_pc

text \<open>
  The two loops and the healings are the goroutines of the system: two flags and a list.
\<close>

record ahs =
  ah_healthCheckers :: "checker list"
  ah_healingActions :: "string \<Rightarrow> heal_action list"
  ah_alertManager :: AlertManager
  ah_metrics :: SystemMetrics
  ah_historySize :: nat
  ah_healthHistory :: "HealthStatus list"
  ah_issueHistory :: "HealthIssue list"
  ah_actionHistory :: "HealingActionResult list"
  ah_cancelled :: bool
  ah_retryAttempts :: int
  ah_escalationDelay :: duration
  ah_isRunning :: bool
  ah_mainLoop :: bool
  ah_metricsLoop :: bool
  ah_totalChecks :: int
  ah_totalIssues :: int
  ah_totalActions :: int
  ah_totalSuccessfulActions :: int
  ah_healingInFlight :: "string set"
  ah_healings :: "healing list"

definition NewAutoHealingSystem :: "int \<Rightarrow> ahs" where
  "NewAutoHealingSystem retryAttempts = \<lparr>ah_healthCheckers = [], ah_healingActions = (\<lambda>_. []),
     ah_alertManager = NewAlertManager 100,
     ah_metrics = \<lparr>sm_MemoryUsage = 0, sm_GoroutineCount = 0, sm_HeapSize = 0, sm_LastUpdated = 0\<rparr>,
     ah_historySize = 100, ah_healthHistory = [], ah_issueHistory = [], ah_actionHistory = [], ah_cancelled = False,
     ah_retryAttempts = retryAttempts, ah_escalationDelay = 30 * Second, ah_isRunning = False, ah_mainLoop = False, ah_metricsLoop = False, ah_totalChecks = 0,
     ah_totalIssues = 0, ah_totalActions = 0, ah_totalSuccessfulActions = 0, ah_healingInFlight = {},
     ah_healings = []\<rparr>"

definition AddHealthChecker :: "checker \<Rightarrow> ahs \<Rightarrow> ahs" where
  "AddHealthChecker c s = s\<lparr>ah_healthCheckers := ah_healthCheckers s @ [c]\<rparr>"

definition AddHealingAction :: "string \<Rightarrow> heal_action \<Rightarrow> ahs \<Rightarrow> ahs" where
  "AddHealingAction t a s = s\<lparr>ah_healingActions := (ah_healingActions s)(t := ah_healingActions s t @ [a])\<rparr>"

datatype start_error = SystemStopped | SystemAlreadyRunning

definition Start_ahs :: "nat \<Rightarrow> ahs \<Rightarrow> ahs \<times> start_error option" where
  "Start_ahs logger s =
     (if ah_cancelled s then (s, Some SystemStopped)
      else if ah_isRunning s then (s, Some SystemAlreadyRunning)
      else (s\<lparr>ah_isRunning := True, ah_mainLoop := True, ah_metricsLoop := True,
                ah_alertManager := AddCallback logger (ah_alertManager s)\<rparr>, None))"

text \<open>
  \<^verbatim>\<open>Stop\<close> then waits for the loops and the healings; the wait is over when no healing is left.
\<close>

definition Stop_ahs :: "ahs \<Rightarrow> ahs" where
  "Stop_ahs s = s\<lparr>ah_cancelled := True, ah_isRunning := False\<rparr>"

definition updateSystemMetrics :: "time \<Rightarrow> int \<Rightarrow> nat \<Rightarrow> nat \<Rightarrow> ahs \<Rightarrow> ahs" where
  "updateSystemMetrics now goroutines heapAlloc sys s =
     s\<lparr>ah_metrics := \<lparr>sm_MemoryUsage = real heapAlloc / real sys * 100, sm_GoroutineCount = goroutines,
        sm_HeapSize = heapAlloc, sm_LastUpdated = now\<rparr>\<rparr>"

definition alert_ahs :: "AlertLevel \<Rightarrow> alert_text \<Rightarrow> string \<Rightarrow> time \<Rightarrow> ahs \<Rightarrow> ahs" where
  "alert_ahs level content src now s = s\<lparr>ah_alertManager :=
     Send now \<lparr>al_Level = level, al_Message = content, al_Timestamp = 0, al_Source = src\<rparr> (ah_alertManager s)\<rparr>"

definition addHealthHistory :: "HealthStatus \<Rightarrow> ahs \<Rightarrow> ahs" where
  "addHealthHistory st s = s\<lparr>ah_healthHistory := lastn (ah_historySize s) (ah_healthHistory s @ [st])\<rparr>"

definition addIssueHistory :: "HealthIssue \<Rightarrow> ahs \<Rightarrow> ahs" where
  "addIssueHistory i s = s\<lparr>ah_issueHistory := lastn (ah_historySize s) (ah_issueHistory s @ [i])\<rparr>"

definition addActionHistory :: "HealingActionResult \<Rightarrow> ahs \<Rightarrow> ahs" where
  "addActionHistory r s = s\<lparr>ah_actionHistory := lastn (ah_historySize s) (ah_actionHistory s @ [r])\<rparr>"

section \<open>Health checks\<close>

text \<open>What a checker does: panic with a value, or answer.\<close>

definition check_result :: "time \<Rightarrow> checker \<Rightarrow> string + HealthStatus \<Rightarrow> HealthStatus" where
  "check_result now c answer =
     (case answer of
        Inl panic \<Rightarrow> \<lparr>hs_Name = ck_Name c, hs_Status = ''critical'', hs_Message = ''Checker panicked: '' @ panic,
                      hs_Timestamp = now, hs_Score = 0\<rparr>
      | Inr st \<Rightarrow> st)"

definition handle_issue :: "HealthIssue \<Rightarrow> ahs \<Rightarrow> ahs" where
  "handle_issue i s =
    (let s1 = addIssueHistory i (s\<lparr>ah_totalIssues := ah_totalIssues s + 1\<rparr>)
     in if hi_Type i \<in> ah_healingInFlight s1 then s1
        else s1\<lparr>ah_healingInFlight := insert (hi_Type i) (ah_healingInFlight s1),
                ah_healings := ah_healings s1 @ [\<lparr>hl_issue = i, hl_actions = [], hl_pc = HBegin\<rparr>]\<rparr>)"

definition recent_count :: "time \<Rightarrow> string \<Rightarrow> ahs \<Rightarrow> nat" where
  "recent_count cutoff t s = length (filter (\<lambda>i. cutoff < hi_Timestamp i \<and> hi_Type i = t) (ah_issueHistory s))"

text \<open>\<open>order\<close> is the range over the map of recent issues.\<close>

definition predictiveAnalysis :: "string list \<Rightarrow> time \<Rightarrow> ahs \<Rightarrow> ahs" where
  "predictiveAnalysis order now s =
     (if length (ah_healthHistory s) < 10 then s
      else fold (\<lambda>t. alert_ahs AlertLevelWarning (RecurringPattern t (recent_count (now - Hour) t s)) ''predictive-analysis'' now)
             (filter (\<lambda>t. 3 \<le> recent_count (now - Hour) t s) order) s)"

definition processHealthResults :: "string list \<Rightarrow> time \<Rightarrow> HealthStatus list \<Rightarrow> ahs \<Rightarrow> ahs" where
  "processHealthResults order now results s =
    (let issues = map convertToIssue (filter (\<lambda>r. hs_Status r \<noteq> ''healthy'') results)
     in predictiveAnalysis order now (fold handle_issue issues (fold addHealthHistory results s)))"

text \<open>\<open>arrival\<close>: the checkers with their answers, in the order in which the results arrive.\<close>

definition performHealthCheck ::
  "string list \<Rightarrow> time \<Rightarrow> (checker \<times> (string + HealthStatus)) list \<Rightarrow> ahs \<Rightarrow> ahs" where
  "performHealthCheck order now arrival s =
     processHealthResults order now (map (\<lambda>(c, a). check_result now c a) arrival)
       (s\<lparr>ah_totalChecks := ah_totalChecks s + 1\<rparr>)"

section \<open>Healing\<close>

text \<open>
  The answers of one turn: the action's error or panic, the re-check's status or panic, whether the
  wait ended because the system stopped, and the instants before and after the action.
\<close>

record heal_answer =
  an_execute :: "string option"
  an_executePanics :: bool
  an_recheck :: "HealthStatus option"
  an_stopped :: bool
  an_start :: time
  an_end :: time

definition verifyRecovery :: "HealthIssue \<Rightarrow> HealthStatus option \<Rightarrow> ahs \<Rightarrow> bool option" where
  "verifyRecovery i recheck s =
     (if list_ex (\<lambda>c. ck_Name c = hi_Checker i) (ah_healthCheckers s)
      then map_option (\<lambda>r. hs_Status r = ''healthy'') recheck
      else Some False)"

definition next_attempt :: "nat \<Rightarrow> healing \<Rightarrow> ahs \<Rightarrow> heal_pc" where
  "next_attempt n h s = (if int n < ah_retryAttempts s then HActing n (hl_actions h) else HExhausted)"

text \<open>The body of the loop over the actions, for an action that handles the issue.\<close>

definition execute_action :: "heal_answer \<Rightarrow> heal_action \<Rightarrow> HealthIssue \<Rightarrow> ahs \<Rightarrow> ahs" where
  "execute_action ans a i s =
    (let s1 = s\<lparr>ah_totalActions := ah_totalActions s + 1\<rparr>;
         result = \<lparr>hr_Action = ha_Name a, hr_Issue = i, hr_Success = (an_execute ans = None),
                   hr_Error = (case an_execute ans of None \<Rightarrow> [] | Some e \<Rightarrow> e),
                   hr_Duration = time_Sub (an_end ans) (an_start ans), hr_Timestamp = an_start ans\<rparr>;
         s2 = (case an_execute ans of
                 Some e \<Rightarrow> alert_ahs AlertLevelError (HealingActionFailed (ha_Name a) e) ''auto-healing'' (an_end ans) s1
               | None \<Rightarrow> alert_ahs AlertLevelInfo (HealingActionCompleted (ha_Name a)) ''auto-healing'' (an_end ans)
                           (s1\<lparr>ah_totalSuccessfulActions := ah_totalSuccessfulActions s1 + 1\<rparr>))
     in addActionHistory result s2)"

definition executeHealing_step :: "heal_answer \<Rightarrow> healing \<Rightarrow> ahs \<Rightarrow> (healing \<times> ahs) option" where
  "executeHealing_step ans h s =
    (let i = hl_issue h
     in case hl_pc h of
       HBegin \<Rightarrow>
         (let actions = ah_healingActions s (hi_Type i)
          in if actions = [] then Some (h\<lparr>hl_pc := HReturned (Some (NoHealingActions (hi_Type i)))\<rparr>, s)
             else (let h1 = h\<lparr>hl_actions := actions\<rparr>
                   in Some (h1\<lparr>hl_pc := next_attempt 0 h1 s\<rparr>,
                        alert_ahs AlertLevelWarning (IssueDetected (hi_Type i) (hi_Description i) (hi_Severity i))
                          ''auto-healing'' (an_start ans) s)))
     | HActing n [] \<Rightarrow>
         Some (h\<lparr>hl_pc := (if int n < ah_retryAttempts s - 1 then HWaiting n else next_attempt (n + 1) h s)\<rparr>, s)
     | HActing n (a # rest) \<Rightarrow>
         (if \<not> ha_CanHandle a (hi_Type i) then Some (h\<lparr>hl_pc := HActing n rest\<rparr>, s)
          else if an_executePanics ans then None
          else (let s1 = execute_action ans a i s
                in if an_execute ans \<noteq> None then Some (h\<lparr>hl_pc := HActing n rest\<rparr>, s1)
                   else (case verifyRecovery i (an_recheck ans) s1 of
                           None \<Rightarrow> None
                         | Some True \<Rightarrow> Some (h\<lparr>hl_pc := HReturned None\<rparr>, s1)
                         | Some False \<Rightarrow> Some (h\<lparr>hl_pc := HActing n rest\<rparr>, s1))))
     | HWaiting n \<Rightarrow>
         (if an_stopped ans then Some (h\<lparr>hl_pc := HReturned (Some HealingCanceled)\<rparr>, s)
          else Some (h\<lparr>hl_pc := next_attempt (n + 1) h s\<rparr>, s))
     | HExhausted \<Rightarrow>
         Some (h\<lparr>hl_pc := HReturned (Some (HealingExhausted (ah_retryAttempts s)))\<rparr>,
           alert_ahs AlertLevelCritical (HealingFailedAfter (ah_retryAttempts s) (hi_Type i)) ''auto-healing'' (an_start ans) s)
     | HReturned r \<Rightarrow> Some (h, s))"

text \<open>The deferred deletion when the goroutine ends.\<close>

definition finish_healing :: "nat \<Rightarrow> ahs \<Rightarrow> ahs" where
  "finish_healing k s = s\<lparr>ah_healingInFlight := ah_healingInFlight s - {hi_Type (hl_issue (ah_healings s ! k))},
     ah_healings := take k (ah_healings s) @ drop (k + 1) (ah_healings s)\<rparr>"

definition returned :: "healing \<Rightarrow> bool" where
  "returned h = (case hl_pc h of HReturned r \<Rightarrow> True | _ \<Rightarrow> False)"

text \<open>
  The events: registrations, start and stop, the ticks of the two loops and their ends (a loop may
  still take a tick after the system was stopped), a turn of the \<open>k\<close>-th healing, and its end.
\<close>

datatype ahs_event =
  HAddChecker checker | HAddAction string heal_action | HStart nat | HStop | HMetrics time int nat nat
| HCheck "string list" time "(checker \<times> (string + HealthStatus)) list" | HMainEnds | HMetricsEnds
| HTurn nat heal_answer | HFinish nat

fun ahs_step :: "ahs \<Rightarrow> ahs_event \<Rightarrow> ahs option" where
  "ahs_step s (HAddChecker c) = Some (AddHealthChecker c s)"
| "ahs_step s (HAddAction t a) = Some (AddHealingAction t a s)"
| "ahs_step s (HStart logger) = Some (fst (Start_ahs logger s))"
| "ahs_step s HStop = Some (Stop_ahs s)"
| "ahs_step s (HMetrics now g a t) = (if ah_metricsLoop s then Some (updateSystemMetrics now g a t s) else None)"
| "ahs_step s (HCheck order now arrival) =
     (if ah_mainLoop s \<and> mset (map fst arrival) = mset (ah_healthCheckers s)
      then Some (performHealthCheck order now arrival s) else None)"
| "ahs_step s HMainEnds = (if ah_cancelled s then Some (s\<lparr>ah_mainLoop := False\<rparr>) else None)"
| "ahs_step s HMetricsEnds = (if ah_cancelled s then Some (s\<lparr>ah_metricsLoop := False\<rparr>) else None)"
| "ahs_step s (HTurn k ans) =
     (if k < length (ah_healings s)
      then map_option (\<lambda>(h, s1). s1\<lparr>ah_healings := (ah_healings s1)[k := h]\<rparr>)
             (executeHealing_step ans (ah_healings s ! k) s)
      else None)"
| "ahs_step s (HFinish k) =
     (if k < length (ah_healings s) \<and> returned (ah_healings s ! k) then Some (finish_healing k s) else None)"

section \<open>Single flight\<close>

definition alerts_ok :: "AlertManager \<Rightarrow> bool" where
  "alerts_ok am \<longleftrightarrow> am_maxAlerts am = 100 \<and> length (am_alerts am) \<le> 100"

definition books_ok :: "ahs \<Rightarrow> bool" where
  "books_ok s \<longleftrightarrow> ah_historySize s = 100 \<and> length (ah_healthHistory s) \<le> 100 \<and> length (ah_issueHistory s) \<le> 100 \<and>
     length (ah_actionHistory s) \<le> 100 \<and> alerts_ok (ah_alertManager s) \<and>
     0 \<le> ah_totalSuccessfulActions s \<and> ah_totalSuccessfulActions s \<le> ah_totalActions s"

definition types_in_flight :: "ahs \<Rightarrow> string list" where
  "types_in_flight s = map (\<lambda>h. hi_Type (hl_issue h)) (ah_healings s)"

definition single_flight :: "ahs \<Rightarrow> bool" where
  "single_flight s \<longleftrightarrow> distinct (types_in_flight s) \<and> set (types_in_flight s) = ah_healingInFlight s"

definition ahs_inv :: "int \<Rightarrow> ahs \<Rightarrow> bool" where
  "ahs_inv n s \<longleftrightarrow> ah_retryAttempts s = n \<and> books_ok s \<and> single_flight s"

text \<open>An operation that leaves the healings and the registrations alone.\<close>

definition same_healings :: "ahs \<Rightarrow> ahs \<Rightarrow> bool" where
  "same_healings s s' \<longleftrightarrow> ah_retryAttempts s' = ah_retryAttempts s \<and> ah_healings s' = ah_healings s \<and>
     ah_healingInFlight s' = ah_healingInFlight s"

lemma same_healings_refl: "same_healings s s"
  by (simp add: same_healings_def)

lemma same_healings_trans: "same_healings a b \<Longrightarrow> same_healings b c \<Longrightarrow> same_healings a c"
  by (simp add: same_healings_def)

lemma same_healings_inv: "same_healings s s' \<Longrightarrow> books_ok s' \<Longrightarrow> ahs_inv n s \<Longrightarrow> ahs_inv n s'"
  by (simp add: same_healings_def ahs_inv_def single_flight_def types_in_flight_def)

lemma alert_ahs_same: "same_healings s (alert_ahs l c src now s)"
  by (simp add: alert_ahs_def same_healings_def)

lemma alert_ahs_books: "books_ok s \<Longrightarrow> books_ok (alert_ahs l c src now s)"
  by (simp add: alert_ahs_def books_ok_def alerts_ok_def Send_def Let_def)

lemma fold_keeps: "(\<And>x s. P s \<Longrightarrow> P (f x s)) \<Longrightarrow> P s \<Longrightarrow> P (fold f xs s)"
  by (induction xs arbitrary: s) simp_all

lemma add_health_keeps: "ahs_inv n s \<Longrightarrow> ahs_inv n (addHealthHistory st s)"
  by (simp add: addHealthHistory_def ahs_inv_def books_ok_def single_flight_def types_in_flight_def)

lemma handle_issue_keeps: "ahs_inv n s \<Longrightarrow> ahs_inv n (handle_issue i s)"
  by (auto simp: handle_issue_def Let_def addIssueHistory_def ahs_inv_def books_ok_def single_flight_def
      types_in_flight_def)

lemma predictive_keeps: "ahs_inv n s \<Longrightarrow> ahs_inv n (predictiveAnalysis order now s)"
proof -
  have "ahs_inv n (alert_ahs l c src now s)" if "ahs_inv n s" for l c src s
    using same_healings_inv [OF alert_ahs_same alert_ahs_books that] that by (simp add: ahs_inv_def)
  then show "ahs_inv n s \<Longrightarrow> ahs_inv n (predictiveAnalysis order now s)"
    by (simp add: predictiveAnalysis_def fold_keeps [of "ahs_inv n"])
qed

lemma check_keeps: "ahs_inv n s \<Longrightarrow> ahs_inv n (performHealthCheck order now arrival s)"
proof -
  assume s: "ahs_inv n s"
  then have "ahs_inv n (s\<lparr>ah_totalChecks := ah_totalChecks s + 1\<rparr>)"
    by (simp add: ahs_inv_def books_ok_def single_flight_def types_in_flight_def)
  then show ?thesis
    unfolding performHealthCheck_def processHealthResults_def Let_def
    by (intro predictive_keeps fold_keeps [of "ahs_inv n"] handle_issue_keeps add_health_keeps)
qed

lemma execute_action_same: "same_healings s (execute_action ans a i s)"
  by (simp add: execute_action_def Let_def addActionHistory_def alert_ahs_def same_healings_def split: option.split)

lemma execute_action_books: "books_ok s \<Longrightarrow> books_ok (execute_action ans a i s)"
  by (simp add: execute_action_def Let_def addActionHistory_def alert_ahs_def books_ok_def alerts_ok_def Send_def
      split: option.split)

lemma executeHealing_keeps:
  assumes "executeHealing_step ans h s = Some (h', s')"
  shows "hl_issue h' = hl_issue h \<and> same_healings s s' \<and> (books_ok s \<longrightarrow> books_ok s')"
  using assms
  by (auto simp: executeHealing_step_def Let_def same_healings_refl alert_ahs_same alert_ahs_books
      execute_action_same execute_action_books split: heal_pc.splits list.splits option.splits bool.splits if_splits)

lemma turn_keeps:
  assumes "ahs_inv n s" and "k < length (ah_healings s)" and "executeHealing_step ans (ah_healings s ! k) s = Some (h, s1)"
  shows "ahs_inv n (s1\<lparr>ah_healings := (ah_healings s1)[k := h]\<rparr>)"
proof -
  have *: "hl_issue h = hl_issue (ah_healings s ! k)" "same_healings s s1" "books_ok s1"
    using executeHealing_keeps [OF assms(3)] assms(1) by (simp_all add: ahs_inv_def)
  then have "map (\<lambda>h. hi_Type (hl_issue h)) ((ah_healings s1)[k := h]) = types_in_flight s"
    using assms(2)
    by (intro nth_equalityI) (simp_all add: same_healings_def types_in_flight_def nth_list_update)
  then show ?thesis
    using assms(1) * by (simp add: ahs_inv_def same_healings_def single_flight_def types_in_flight_def books_ok_def)
qed

lemma drop_one:
  assumes "distinct (map f xs)" and "k < length xs"
  shows "distinct (map f (take k xs @ drop (Suc k) xs)) \<and>
    set (map f (take k xs @ drop (Suc k) xs)) = set (map f xs) - {f (xs ! k)}"
proof -
  have "xs = take k xs @ xs ! k # drop (Suc k) xs" using assms(2) by (rule id_take_nth_drop)
  then have "map f xs = map f (take k xs) @ f (xs ! k) # map f (drop (Suc k) xs)"
    by (metis list.simps(9) map_append)
  then show ?thesis using assms(1) by auto
qed

lemma ahs_step_keeps: "ahs_inv n s \<Longrightarrow> ahs_step s e = Some s' \<Longrightarrow> ahs_inv n s'"
proof (cases e)
  case (HTurn k ans)
  assume "ahs_inv n s" "ahs_step s e = Some s'"
  then show ?thesis using HTurn turn_keeps by (auto split: if_splits)
next
  case (HFinish k)
  assume s: "ahs_inv n s" "ahs_step s e = Some s'"
  then have k: "k < length (ah_healings s)" and s': "s' = finish_healing k s" using HFinish by (auto split: if_splits)
  show ?thesis
    using s(1) drop_one [of "\<lambda>h. hi_Type (hl_issue h)" "ah_healings s", OF _ k]
    by (simp add: s' finish_healing_def ahs_inv_def books_ok_def single_flight_def types_in_flight_def)
next
  case (HCheck order now arrival)
  assume "ahs_inv n s" "ahs_step s e = Some s'"
  then show ?thesis using HCheck check_keeps by (auto split: if_splits)
qed (auto simp: AddHealthChecker_def AddHealingAction_def Start_ahs_def Stop_ahs_def updateSystemMetrics_def AddCallback_def
      ahs_inv_def books_ok_def alerts_ok_def single_flight_def types_in_flight_def split: if_splits)

lemma ahs_start: "ahs_inv n (NewAutoHealingSystem n)"
  by (simp add: NewAutoHealingSystem_def NewAlertManager_def ahs_inv_def books_ok_def alerts_ok_def single_flight_def
      types_in_flight_def)

interpretation healing_runs: step_invariant ahs_step NewAutoHealingSystem ahs_inv "\<lambda>_. True"
  by unfold_locales (simp_all add: ahs_start ahs_step_keeps)

text \<open>
  C19. Under any interleaving of checks, healings, registrations, start and stop, at most one
  healing of each issue type is in flight and exactly those types are marked, the histories and the
  alerts stay within their hundred entries, and no more actions succeeded than were executed.
\<close>

theorem one_healing_per_issue:
  assumes "run_steps ahs_step (NewAutoHealingSystem n) es = Some s"
  shows "distinct (map (\<lambda>h. hi_Type (hl_issue h)) (ah_healings s)) \<and>
    ah_healingInFlight s = set (map (\<lambda>h. hi_Type (hl_issue h)) (ah_healings s)) \<and>
    length (ah_healthHistory s) \<le> 100 \<and> length (ah_issueHistory s) \<le> 100 \<and> length (ah_actionHistory s) \<le> 100 \<and>
    length (am_alerts (ah_alertManager s)) \<le> 100 \<and> ah_totalSuccessfulActions s \<le> ah_totalActions s"
  using healing_runs.inv_run [OF TrueI assms]
  by (simp add: ahs_inv_def books_ok_def alerts_ok_def single_flight_def types_in_flight_def)

text \<open>Two failing checks of one checker: the second finds the healing of the first in flight.\<close>

definition failing_check :: ahs_event where
  "failing_check = HCheck [] 5 [(\<lparr>ck_Name = ''db'', ck_Critical = True\<rparr>, Inl ''nil'')]"

lemmas run_check_simps = failing_check_def NewAutoHealingSystem_def AddHealthChecker_def Start_ahs_def AddCallback_def
  performHealthCheck_def processHealthResults_def predictiveAnalysis_def addHealthHistory_def check_result_def
  convertToIssue_def handle_issue_def addIssueHistory_def Let_def

lemma one_healing_per_issue_witness:
  "\<exists>s. run_steps ahs_step (NewAutoHealingSystem 3)
      [HAddChecker \<lparr>ck_Name = ''db'', ck_Critical = True\<rparr>, HStart 0, failing_check, failing_check] = Some s \<and>
    map (\<lambda>h. hi_Type (hl_issue h)) (ah_healings s) = [''db''] \<and>
    ah_healingInFlight s = set (map (\<lambda>h. hi_Type (hl_issue h)) (ah_healings s)) \<and> ah_totalIssues s = 2"
proof -
  let ?es = "[HAddChecker \<lparr>ck_Name = ''db'', ck_Critical = True\<rparr>, HStart 0, failing_check, failing_check]"
  define s where "s = the (run_steps ahs_step (NewAutoHealingSystem 3) ?es)"
  have run: "run_steps ahs_step (NewAutoHealingSystem 3) ?es = Some s"
    by (simp add: s_def run_check_simps)
  have "map (\<lambda>h. hi_Type (hl_issue h)) (ah_healings s) = [''db'']" "ah_totalIssues s = 2"
    by (simp_all add: s_def run_check_simps)
  then show ?thesis using run one_healing_per_issue [OF run] by (intro exI [of _ s]) simp
qed

section \<open>A healing ends\<close>

text \<open>
  The turns of one healing; each finds the shared state as other goroutines left it.  The second result lists
  the actions executed.
\<close>

definition tried :: "healing \<Rightarrow> heal_action list" where
  "tried h = (case hl_pc h of
     HActing n (a # rest) \<Rightarrow> (if ha_CanHandle a (hi_Type (hl_issue h)) then [a] else []) | _ \<Rightarrow> [])"

fun heal_turns :: "(heal_answer \<times> ahs) list \<Rightarrow> healing \<Rightarrow> (healing \<times> heal_action list) option" where
  "heal_turns [] h = Some (h, [])"
| "heal_turns ((ans, s) # ts) h =
     (case executeHealing_step ans h s of
        None \<Rightarrow> None
      | Some (h1, s1) \<Rightarrow> map_option (\<lambda>(h2, did). (h2, tried h @ did)) (heal_turns ts h1))"

definition applicable :: "healing \<Rightarrow> heal_action list \<Rightarrow> heal_action list" where
  "applicable h = filter (\<lambda>a. ha_CanHandle a (hi_Type (hl_issue h)))"

definition rounds :: "nat \<Rightarrow> healing \<Rightarrow> heal_action list" where
  "rounds k h = concat (replicate k (applicable h (hl_actions h)))"

text \<open>What a healing may still execute, and a bound on its turns, with \<open>n\<close> attempts.\<close>

definition remaining :: "nat \<Rightarrow> healing \<Rightarrow> heal_action list" where
  "remaining n h = (case hl_pc h of
     HActing k rest \<Rightarrow> applicable h rest @ rounds (n - k - 1) h | HWaiting k \<Rightarrow> rounds (n - k - 1) h | _ \<Rightarrow> [])"

definition later_turns :: "nat \<Rightarrow> nat \<Rightarrow> healing \<Rightarrow> nat" where
  "later_turns n k h = (n - k - 1) * (length (hl_actions h) + 2)"

definition turns_left :: "nat \<Rightarrow> healing \<Rightarrow> nat" where
  "turns_left n h = (case hl_pc h of
     HActing k rest \<Rightarrow> later_turns n k h + length rest + 3
   | HWaiting k \<Rightarrow> later_turns n k h + 2 | HExhausted \<Rightarrow> 1 | _ \<Rightarrow> 0)"

definition on_course :: "nat \<Rightarrow> healing \<Rightarrow> bool" where
  "on_course n h = (case hl_pc h of HBegin \<Rightarrow> False | HActing k rest \<Rightarrow> (k < n) | HWaiting k \<Rightarrow> (k + 1 < n) | _ \<Rightarrow> True)"

definition gave_up :: "healing \<Rightarrow> bool" where
  "gave_up h = (case hl_pc h of HReturned (Some (HealingExhausted n)) \<Rightarrow> True | _ \<Rightarrow> False)"

lemma next_attempt_on_course:
  assumes "k < n" and "nat (ah_retryAttempts s) = n"
    and "h' = h\<lparr>hl_pc := next_attempt (k + 1) h s\<rparr>"
  shows "on_course n h' \<and> turns_left n h' \<le> later_turns n k h + 1 \<and>
    remaining n h' = rounds (n - k - 1) h \<and> \<not> returned h'"
proof (cases "k + 1 < n")
  case True
  then obtain d where d: "n - k - 1 = Suc d" by (cases "n - k - 1") auto
  have "int (k + 1) < ah_retryAttempts s" using True assms(2) by linarith
  then show ?thesis using True d
    by (simp add: assms(3) next_attempt_def on_course_def turns_left_def later_turns_def remaining_def returned_def rounds_def applicable_def)
next
  case False
  then have "\<not> int (k + 1) < ah_retryAttempts s" "n - k - 1 = 0" using assms(2) by linarith+
  then show ?thesis
    by (simp add: assms(3) next_attempt_def on_course_def turns_left_def later_turns_def remaining_def returned_def rounds_def)
qed

lemma turn_progress:
  assumes "executeHealing_step ans h s = Some (h', s')" and "on_course n h" and "nat (ah_retryAttempts s) = n"
  shows "on_course n h' \<and> (returned h \<and> h' = h \<or> turns_left n h' < turns_left n h) \<and>
    (\<exists>rest. remaining n h = tried h @ rest \<and> (rest = remaining n h' \<or> returned h' \<and> \<not> gave_up h'))"
proof (cases "hl_pc h")
  case HBegin
  then show ?thesis using assms(2) by (simp add: on_course_def)
next
  case (HActing k rest)
  then have k: "k < n" using assms(2) by (simp add: on_course_def)
  show ?thesis
  proof (cases rest)
    case Nil
    show ?thesis
    proof (cases "int k < ah_retryAttempts s - 1")
      case True
      then have n: "k + 1 < n" using assms(3) by linarith
      have h': "h' = h\<lparr>hl_pc := HWaiting k\<rparr>" using assms(1) HActing Nil True by (simp add: executeHealing_step_def)
      have "turns_left n h' < turns_left n h"
        using HActing Nil by (simp add: turns_left_def later_turns_def h')
      then show ?thesis using n h' HActing Nil
        by (simp add: on_course_def remaining_def tried_def applicable_def rounds_def)
    next
      case False
      then have h': "h' = h\<lparr>hl_pc := next_attempt (k + 1) h s\<rparr>"
        using assms(1) HActing Nil False by (auto simp: executeHealing_step_def)
      have "turns_left n h = later_turns n k h + 3" "remaining n h = rounds (n - k - 1) h" "tried h = []"
        using HActing Nil by (simp_all add: turns_left_def remaining_def tried_def applicable_def)
      then show ?thesis using next_attempt_on_course [OF k assms(3) h'] by auto
    qed
  next
    case (Cons a as)
    then have "h' = h\<lparr>hl_pc := HActing k as\<rparr> \<or> h' = h\<lparr>hl_pc := HReturned None\<rparr>"
      using assms(1) HActing
      by (auto simp: executeHealing_step_def Let_def split: if_splits option.splits bool.splits)
    then show ?thesis using k HActing Cons
      by (auto simp: on_course_def turns_left_def remaining_def tried_def applicable_def rounds_def returned_def
          gave_up_def later_turns_def)
  qed
next
  case (HWaiting k)
  then have k: "k < n" using assms(2) by (simp add: on_course_def)
  show ?thesis
  proof (cases "an_stopped ans")
    case True
    then show ?thesis using assms HWaiting
      by (auto simp: executeHealing_step_def on_course_def turns_left_def remaining_def tried_def returned_def gave_up_def)
  next
    case False
    then have h': "h' = h\<lparr>hl_pc := next_attempt (k + 1) h s\<rparr>" using assms(1) HWaiting False by (auto simp: executeHealing_step_def)
    have "turns_left n h = later_turns n k h + 2" "remaining n h = rounds (n - k - 1) h" "tried h = []"
      using HWaiting by (simp_all add: turns_left_def remaining_def tried_def)
    then show ?thesis using next_attempt_on_course [OF k assms(3) h'] by auto
  qed
next
  case HExhausted
  then show ?thesis using assms
    by (auto simp: executeHealing_step_def Let_def on_course_def turns_left_def remaining_def tried_def)
next
  case (HReturned r)
  then show ?thesis using assms
    by (auto simp: executeHealing_step_def Let_def returned_def remaining_def tried_def)
qed

lemma turns_progress:
  assumes "heal_turns ts h = Some (h', did)" and "on_course n h" and "list_all (\<lambda>(_, s). nat (ah_retryAttempts s) = n) ts"
  shows "(turns_left n h \<le> length ts \<longrightarrow> returned h') \<and>
    (\<exists>rest. remaining n h = did @ rest \<and> (gave_up h' \<longrightarrow> rest = []))"
  using assms
proof (induction ts arbitrary: h did)
  case Nil
  then show ?case
    by (auto simp: turns_left_def on_course_def returned_def remaining_def gave_up_def split: heal_pc.splits option.splits)
next
  case (Cons t ts)
  obtain ans s where t: "t = (ans, s)" by (cases t)
  with Cons.prems(1) obtain h1 s1 did1 where h1: "executeHealing_step ans h s = Some (h1, s1)"
    "heal_turns ts h1 = Some (h', did1)" "did = tried h @ did1"
    by (auto split: option.splits)
  have n: "nat (ah_retryAttempts s) = n" "list_all (\<lambda>(_, s). nat (ah_retryAttempts s) = n) ts"
    using Cons.prems(3) t by simp_all
  obtain rest where p: "on_course n h1" "returned h \<and> h1 = h \<or> turns_left n h1 < turns_left n h"
    "remaining n h = tried h @ rest" "rest = remaining n h1 \<or> returned h1 \<and> \<not> gave_up h1"
    using turn_progress [OF h1(1) Cons.prems(2) n(1)] by blast
  obtain rest1 where ih: "turns_left n h1 \<le> length ts \<longrightarrow> returned h'" "remaining n h1 = did1 @ rest1"
    "gave_up h' \<longrightarrow> rest1 = []"
    using Cons.IH [OF h1(2) p(1) n(2)] by blast
  have stay: "h' = h1" if "returned h1"
    using that h1(2)
  proof (induction ts arbitrary: h1 did1)
    case Nil
    then show ?case by simp
  next
    case (Cons u us)
    then show ?case
      by (cases u) (auto simp: executeHealing_step_def Let_def returned_def split: heal_pc.splits option.splits)
  qed
  have end_turn: "turns_left n h \<le> Suc (length ts) \<longrightarrow> returned h'"
    using p(2) ih(1) stay by auto
  show ?case
  proof (cases "rest = remaining n h1")
    case True
    then show ?thesis using end_turn p(3) ih(2,3) h1(3) by auto
  next
    case False
    then have r: "returned h1" "\<not> gave_up h1" using p(4) by auto
    then have "did1 = []" using ih(2) by (simp add: returned_def remaining_def split: heal_pc.splits)
    then show ?thesis using end_turn p(3) h1(3) stay [OF r(1)] r(2) by auto
  qed
qed

lemma begin_on_course:
  assumes "executeHealing_step ans h s = Some (h', s')" and "hl_pc h = HBegin"
  defines "n \<equiv> nat (ah_retryAttempts s)" and "m \<equiv> length (ah_healingActions s (hi_Type (hl_issue h)))"
  shows "on_course n h' \<and> turns_left n h' \<le> n * (m + 2) + 1 \<and>
    remaining n h' = concat (replicate n (applicable h (ah_healingActions s (hi_Type (hl_issue h)))))"
proof (cases "ah_healingActions s (hi_Type (hl_issue h)) = []")
  case True
  then show ?thesis using assms(1,2)
    by (auto simp: executeHealing_step_def on_course_def turns_left_def remaining_def applicable_def)
next
  case False
  let ?h = "h\<lparr>hl_actions := ah_healingActions s (hi_Type (hl_issue h))\<rparr>"
  have h': "h' = ?h\<lparr>hl_pc := next_attempt 0 ?h s\<rparr>"
    using assms(1,2) False by (auto simp: executeHealing_step_def Let_def)
  show ?thesis
  proof (cases n)
    case 0
    then show ?thesis
      by (simp add: h' n_def next_attempt_def on_course_def turns_left_def remaining_def)
  next
    case (Suc k)
    then have "0 < ah_retryAttempts s" by (simp add: n_def)
    then show ?thesis using Suc
      by (simp add: h' m_def next_attempt_def on_course_def turns_left_def remaining_def later_turns_def rounds_def applicable_def)
  qed
qed

text \<open>
  C20. A healing ends: with \<open>n\<close> attempts and the \<open>m\<close> actions registered for its issue, it
  has returned (or a panic has ended the process) after \<open>n * (m + 2) + 2\<close> of its turns, whatever
  the actions answer and whatever other goroutines do between the turns.
\<close>

theorem healing_terminates:
  assumes "hl_pc h = HBegin" and "list_all (\<lambda>(_, s). ah_retryAttempts s = int n) ((ans0, s0) # ts)"
    and "n * (length (ah_healingActions s0 (hi_Type (hl_issue h))) + 2) + 1 \<le> length ts"
  shows "case heal_turns ((ans0, s0) # ts) h of None \<Rightarrow> True | Some (h', did) \<Rightarrow> returned h'"
proof (cases "heal_turns ((ans0, s0) # ts) h")
  case None
  then show ?thesis by simp
next
  case (Some r)
  then obtain h1 s1 h2 did where h1: "executeHealing_step ans0 h s0 = Some (h1, s1)" "heal_turns ts h1 = Some (h2, did)"
    "r = (h2, tried h @ did)"
    by (auto split: option.splits)
  have n: "list_all (\<lambda>(_, s). nat (ah_retryAttempts s) = n) ts"
    using assms(2) by (auto simp: list_all_iff)
  have "on_course n h1 \<and> turns_left n h1 \<le> length ts"
    using begin_on_course [OF h1(1) assms(1)] assms(2,3) by simp
  then have "returned h2" using turns_progress [OF h1(2) _ n] by blast
  then show ?thesis using Some h1(3) by simp
qed

text \<open>
  C24. A healing tries the registered actions that handle its issue, in the order of their
  registration, round after round, and gives up only after having executed all of them in each of
  its attempts.
\<close>

theorem healing_tries_in_order:
  assumes "hl_pc h = HBegin" and "list_all (\<lambda>(_, s). ah_retryAttempts s = int n) ((ans0, s0) # ts)"
    and "heal_turns ((ans0, s0) # ts) h = Some (h', did)"
  shows "\<exists>rest. concat (replicate n (filter (\<lambda>a. ha_CanHandle a (hi_Type (hl_issue h)))
      (ah_healingActions s0 (hi_Type (hl_issue h))))) = did @ rest \<and> (gave_up h' \<longrightarrow> rest = [])"
proof -
  obtain h1 s1 did1 where h1: "executeHealing_step ans0 h s0 = Some (h1, s1)" "heal_turns ts h1 = Some (h', did1)"
    "did = tried h @ did1"
    using assms(3) by (auto split: option.splits)
  have n: "list_all (\<lambda>(_, s). nat (ah_retryAttempts s) = n) ts" "nat (ah_retryAttempts s0) = n"
    using assms(2) by (auto simp: list_all_iff)
  have "did = did1" using h1(3) assms(1) by (simp add: tried_def)
  moreover have b: "on_course n h1" "remaining n h1 = concat (replicate n (applicable h (ah_healingActions s0 (hi_Type (hl_issue h)))))"
    using begin_on_course [OF h1(1) assms(1)] n(2) by simp_all
  ultimately show ?thesis using turns_progress [OF h1(2) b(1) n(1)] by (simp add: applicable_def)
qed

definition sample_action :: heal_action where
  "sample_action = \<lparr>ha_Name = ''restart'', ha_CanHandle = (\<lambda>t. t = ''db'')\<rparr>"

definition sample_ahs :: "int \<Rightarrow> ahs" where
  "sample_ahs n = AddHealingAction ''db'' sample_action (NewAutoHealingSystem n)"

definition sample_healing :: healing where
  "sample_healing = \<lparr>hl_issue = \<lparr>hi_Type = ''db'', hi_Severity = SeverityCritical, hi_Description = ''down'',
     hi_Timestamp = 1, hi_Checker = ''db'', hi_Predictive = False\<rparr>, hl_actions = [], hl_pc = HBegin\<rparr>"

definition failing_answer :: heal_answer where
  "failing_answer = \<lparr>an_execute = Some ''timeout'', an_executePanics = False, an_recheck = None, an_stopped = False,
     an_start = 2, an_end = 3\<rparr>"

lemmas sample_healing_simps = sample_healing_def sample_ahs_def sample_action_def NewAutoHealingSystem_def
  AddHealingAction_def failing_answer_def

lemma healing_terminates_witness:
  "case heal_turns (replicate 8 (failing_answer, sample_ahs 2)) sample_healing of
     None \<Rightarrow> True | Some (h', did) \<Rightarrow> returned h'"
proof -
  have "replicate 8 (failing_answer, sample_ahs 2) =
      (failing_answer, sample_ahs 2) # replicate 7 (failing_answer, sample_ahs 2)"
    by (simp add: numeral_eq_Suc)
  moreover have "case heal_turns ((failing_answer, sample_ahs 2) # replicate 7 (failing_answer, sample_ahs 2)) sample_healing of
      None \<Rightarrow> True | Some (h', did) \<Rightarrow> returned h'"
    by (rule healing_terminates [of _ 2]) (simp_all add: sample_healing_simps list_all_iff)
  ultimately show ?thesis by (simp only:)
qed

lemma sample_healing_run:
  "\<exists>h'. heal_turns [(failing_answer, sample_ahs 1), (failing_answer, sample_ahs 1), (failing_answer, sample_ahs 1),
      (failing_answer, sample_ahs 1)] sample_healing = Some (h', [sample_action]) \<and> gave_up h'"
  by (simp add: executeHealing_step_def execute_action_def next_attempt_def tried_def gave_up_def Let_def sample_healing_simps)

lemma healing_tries_in_order_witness:
  "\<exists>h' did. heal_turns [(failing_answer, sample_ahs 1), (failing_answer, sample_ahs 1), (failing_answer, sample_ahs 1),
      (failing_answer, sample_ahs 1)] sample_healing = Some (h', did) \<and> gave_up h' \<and>
    did = concat (replicate 1 (filter (\<lambda>a. ha_CanHandle a ''db'') (ah_healingActions (sample_ahs 1) ''db'')))"
proof -
  obtain h' where run: "heal_turns [(failing_answer, sample_ahs 1), (failing_answer, sample_ahs 1),
      (failing_answer, sample_ahs 1), (failing_answer, sample_ahs 1)] sample_healing = Some (h', [sample_action])"
    and up: "gave_up h'"
    using sample_healing_run by blast
  have "\<exists>rest. concat (replicate 1 (filter (\<lambda>a. ha_CanHandle a (hi_Type (hl_issue sample_healing)))
      (ah_healingActions (sample_ahs 1) (hi_Type (hl_issue sample_healing))))) = [sample_action] @ rest \<and>
      (gave_up h' \<longrightarrow> rest = [])"
    by (rule healing_tries_in_order [OF _ _ run]) (simp_all add: sample_healing_simps)
  then show ?thesis using run up by (simp add: sample_healing_def)
qed

end
