(* ===== verification/StreamAggregation.thy ===== *)
theory StreamAggregation
  imports Prelude
begin

text \<open>
  The stream aggregator of chapter 3,
  \<^verbatim>\<open>03_stream_aggregation/stream_aggregation.go\<close>: events are assigned to overlapping time
  windows, full or expired windows are handed to workers over a bounded channel, and a worker
  computes the statistics of a window.

  A window's identifier is the Unix second of its start; the model uses the second itself.  The
  smallest and largest value of a window start at the infinities, which are \<open>None\<close> here.  The
  clock and the orders of ranging over a map are arguments; where a select may also take the branch
  of the cancelled context, the argument \<open>stop\<close> says so.  \<open>sa_accepted\<close>, \<open>sa_processed\<close> and
  \<open>sa_dropped\<close> are a history kept for the statements: no operation reads them.
\<close>

section \<open>Events and windows\<close>

record StreamEvent =
  se_ID :: int
  se_EventType :: string
  se_Timestamp :: time
  se_UserID :: string
  se_Value :: real

record AggregationWindow =
  aw_WindowID :: int
  aw_StartTime :: time
  aw_EndTime :: time
  aw_WindowSize :: duration
  aw_EventCount :: int
  aw_TotalValue :: real
  aw_MinValue :: "real option"
  aw_MaxValue :: "real option"
  aw_Events :: "StreamEvent list"
  aw_UserCounts :: "string \<rightharpoonup> int"
  aw_TypeCounts :: "string \<rightharpoonup> int"

record EventTypeCount =
  et_EventType :: string
  et_Count :: int
  et_Percentage :: real

record AggregationResult =
  ar_WindowID :: int
  ar_StartTime :: time
  ar_EndTime :: time
  ar_EventCount :: int
  ar_TotalValue :: real
  ar_AverageValue :: real
  ar_MinValue :: "real option"
  ar_MaxValue :: "real option"
  ar_MedianValue :: real
  ar_StandardDev :: real
  ar_UniqueUsers :: int
  ar_TopEventTypes :: "EventTypeCount list"
  ar_ProcessingTime :: duration
  ar_WorkerID :: nat

text \<open>A worker with its statistics; \<open>wk_held\<close> is a result it waits to send.\<close>

record stream_worker =
  wk_held :: "AggregationResult option"
  wk_running :: bool
  wk_ProcessedEvents :: int
  wk_ProcessedWindows :: int
  wk_TotalProcessingTime :: int

definition AverageProcessingTime :: "stream_worker \<Rightarrow> duration" where
  "AverageProcessingTime w =
     (if wk_ProcessedWindows w = 0 then 0 else go_div (wk_TotalProcessingTime w) (wk_ProcessedWindows w))"

record sa_config =
  sc_WindowSize :: duration
  sc_SlideInterval :: duration
  sc_MaxWindowSize :: nat
  sc_WorkerCount :: nat
  sc_BufferSize :: nat

definition NewAggregationConfig :: sa_config where
  "NewAggregationConfig = \<lparr>sc_WindowSize = 30 * Second, sc_SlideInterval = 10 * Second, sc_MaxWindowSize = 10000,
     sc_WorkerCount = 4, sc_BufferSize = 5000\<rparr>"

text \<open>\<open>sa_flushing\<close>: the final flush holds the lock and has these windows before it.\<close>

record stream_aggregator =
  sa_config :: sa_config
  sa_eventChannel :: "StreamEvent list"
  sa_windowChannel :: "AggregationWindow list"
  sa_resultChannel :: "AggregationResult list"
  sa_cancelled :: bool
  sa_windows :: "int \<rightharpoonup> AggregationWindow"
  sa_workers :: "stream_worker list"
  sa_isRunning :: bool
  sa_totalEvents :: int
  sa_totalWindows :: int
  sa_totalResultsGenerated :: int
  sa_averageEventsPerWindow :: real
  sa_averageProcessingTime :: duration
  sa_stopping :: bool
  sa_flushing :: "int list option"
  sa_closed :: bool
  sa_accepted :: "StreamEvent list"
  sa_processed :: "AggregationWindow list"
  sa_dropped :: "AggregationWindow list"

definition NewStreamAggregator :: "sa_config \<Rightarrow> stream_aggregator" where
  "NewStreamAggregator config = \<lparr>sa_config = config, sa_eventChannel = [], sa_windowChannel = [],
     sa_resultChannel = [], sa_cancelled = False, sa_windows = Map.empty,
     sa_workers = replicate (sc_WorkerCount config) \<lparr>wk_held = None, wk_running = False, wk_ProcessedEvents = 0,
       wk_ProcessedWindows = 0, wk_TotalProcessingTime = 0\<rparr>,
     sa_isRunning = False, sa_totalEvents = 0, sa_totalWindows = 0, sa_totalResultsGenerated = 0,
     sa_averageEventsPerWindow = 0, sa_averageProcessingTime = 0, sa_stopping = False, sa_flushing = None,
     sa_closed = False, sa_accepted = [], sa_processed = [], sa_dropped = []\<rparr>"

datatype stream_error = AggregatorRunning | AggregatorNotRunning | AggregatorStopping | EventChannelFull

definition Start_sa :: "stream_aggregator \<Rightarrow> stream_aggregator \<times> stream_error option" where
  "Start_sa sa =
     (if sa_isRunning sa then (sa, Some AggregatorRunning)
      else (sa\<lparr>sa_isRunning := True, sa_workers := map (\<lambda>w. w\<lparr>wk_running := True\<rparr>) (sa_workers sa)\<rparr>, None))"

definition SubmitEvent :: "time \<Rightarrow> StreamEvent \<Rightarrow> stream_aggregator \<Rightarrow> stream_aggregator \<times> stream_error option" where
  "SubmitEvent now event sa =
     (if \<not> sa_isRunning sa then (sa, Some AggregatorNotRunning)
      else if sa_cancelled sa then (sa, Some AggregatorStopping)
      else if length (sa_eventChannel sa) < sc_BufferSize (sa_config sa)
      then (sa\<lparr>sa_eventChannel := sa_eventChannel sa @
                [if se_Timestamp event = 0 then event\<lparr>se_Timestamp := now\<rparr> else event]\<rparr>, None)
      else (sa, Some EventChannelFull))"

section \<open>Assignment to windows\<close>

definition time_Truncate :: "time \<Rightarrow> duration \<Rightarrow> time" where
  "time_Truncate t d = (if d \<le> 0 then t else t - t mod d)"

definition unix_second :: "time \<Rightarrow> int" where
  "unix_second t = t div Second"

definition new_window :: "duration \<Rightarrow> time \<Rightarrow> AggregationWindow" where
  "new_window windowSize start = \<lparr>aw_WindowID = unix_second start, aw_StartTime = start, aw_EndTime = start + windowSize,
     aw_WindowSize = windowSize, aw_EventCount = 0, aw_TotalValue = 0, aw_MinValue = None, aw_MaxValue = None,
     aw_Events = [], aw_UserCounts = Map.empty, aw_TypeCounts = Map.empty\<rparr>"

definition add_event :: "StreamEvent \<Rightarrow> AggregationWindow \<Rightarrow> AggregationWindow" where
  "add_event e w = w\<lparr>aw_EventCount := aw_EventCount w + 1, aw_TotalValue := aw_TotalValue w + se_Value e,
     aw_MinValue := Some (case aw_MinValue w of None \<Rightarrow> se_Value e | Some v \<Rightarrow> min v (se_Value e)),
     aw_MaxValue := Some (case aw_MaxValue w of None \<Rightarrow> se_Value e | Some v \<Rightarrow> max v (se_Value e)),
     aw_Events := aw_Events w @ [e], aw_UserCounts := map_incr (aw_UserCounts w) (se_UserID e),
     aw_TypeCounts := map_incr (aw_TypeCounts w) (se_EventType e)\<rparr>"

definition channel_room :: "stream_aggregator \<Rightarrow> bool" where
  "channel_room sa \<longleftrightarrow> length (sa_windowChannel sa) < sc_WorkerCount (sa_config sa) * 2"

text \<open>
  One turn of the loop; the second result says that the loop goes on.  \<^verbatim>\<open>copyWindow\<close> copies every
  field that the model has.
\<close>

definition assign_window ::
  "time \<Rightarrow> bool \<Rightarrow> StreamEvent \<Rightarrow> nat \<Rightarrow> stream_aggregator \<Rightarrow> stream_aggregator \<times> bool" where
  "assign_window now stop event i sa =
    (let c = sa_config sa;
         start = time_Truncate (se_Timestamp event) (sc_SlideInterval c) - int i * sc_SlideInterval c
     in if start \<le> se_Timestamp event \<and> se_Timestamp event < start + sc_WindowSize c
        then (let windowID = unix_second start;
                  window = add_event event
                    (case sa_windows sa windowID of None \<Rightarrow> new_window (sc_WindowSize c) start | Some w \<Rightarrow> w);
                  sa1 = sa\<lparr>sa_windows := (sa_windows sa)(windowID \<mapsto> window)\<rparr>
              in if sc_MaxWindowSize c \<le> length (aw_Events window) \<or> sc_WindowSize c \<le> time_Sub now (aw_StartTime window)
                 then (if sa_cancelled sa \<and> stop then (sa1, False)
                       else if channel_room sa1
                       then (sa1\<lparr>sa_windowChannel := sa_windowChannel sa1 @ [window],
                                 sa_windows := (sa_windows sa1)(windowID := None)\<rparr>, True)
                       else (sa1, \<not> sa_cancelled sa))
                 else (sa1, True))
        else (sa, True))"

fun assign_windows :: "time \<Rightarrow> bool \<Rightarrow> StreamEvent \<Rightarrow> nat list \<Rightarrow> stream_aggregator \<Rightarrow> stream_aggregator" where
  "assign_windows now stop event [] sa = sa"
| "assign_windows now stop event (i # is) sa =
     (case assign_window now stop event i sa of
        (sa1, go_on) \<Rightarrow> if go_on then assign_windows now stop event is sa1 else sa1)"

definition assignEventToWindows :: "time \<Rightarrow> bool \<Rightarrow> StreamEvent \<Rightarrow> stream_aggregator \<Rightarrow> stream_aggregator" where
  "assignEventToWindows now stop event sa =
     (assign_windows now stop event
        [0..<nat (go_div (sc_WindowSize (sa_config sa)) (sc_SlideInterval (sa_config sa)))] sa)
     \<lparr>sa_accepted := sa_accepted sa @ [event]\<rparr>"

definition distributeEvents :: "time \<Rightarrow> bool \<Rightarrow> stream_aggregator \<Rightarrow> stream_aggregator option" where
  "distributeEvents now stop sa =
     (case sa_eventChannel sa of
        [] \<Rightarrow> None
      | event # rest \<Rightarrow>
          (let sa1 = assignEventToWindows now stop event (sa\<lparr>sa_eventChannel := rest\<rparr>)
           in Some (sa1\<lparr>sa_totalEvents := sa_totalEvents sa1 + 1\<rparr>)))"

section \<open>Flushing and cleaning up\<close>

text \<open>The range over the windows: what was sent is deleted at the end, unless the loop returned.\<close>

fun flush_expired :: "time \<Rightarrow> int list \<Rightarrow> stream_aggregator \<Rightarrow> stream_aggregator \<times> int list" where
  "flush_expired now [] sa = (sa, [])"
| "flush_expired now (k # ks) sa =
     (case sa_windows sa k of
        None \<Rightarrow> flush_expired now ks sa
      | Some w \<Rightarrow>
          (if sc_WindowSize (sa_config sa) \<le> time_Sub now (aw_StartTime w) \<and> channel_room sa
           then (case flush_expired now ks (sa\<lparr>sa_windowChannel := sa_windowChannel sa @ [w]\<rparr>) of
                   (sa1, sent) \<Rightarrow> (sa1, k # sent))
           else flush_expired now ks sa))"

definition delete_windows :: "int list \<Rightarrow> (int \<rightharpoonup> AggregationWindow) \<Rightarrow> (int \<rightharpoonup> AggregationWindow)" where
  "delete_windows ks m = (\<lambda>k. if k \<in> set ks then None else m k)"

text \<open>
  \<open>stop\<close>: the context was cancelled and the select took that branch after this many windows (which
  it does at the latest when the channel is full).
\<close>

definition checkAndFlushWindows :: "int list \<Rightarrow> time \<Rightarrow> nat option \<Rightarrow> stream_aggregator \<Rightarrow> stream_aggregator" where
  "checkAndFlushWindows order now stop sa =
     (case stop of
        Some n \<Rightarrow> fst (flush_expired now (take n order) sa)
      | None \<Rightarrow>
          (case flush_expired now order sa of
             (sa1, sent) \<Rightarrow> sa1\<lparr>sa_windows := delete_windows sent (sa_windows sa1)\<rparr>))"

definition stale :: "stream_aggregator \<Rightarrow> time \<Rightarrow> AggregationWindow \<Rightarrow> bool" where
  "stale sa now w \<longleftrightarrow> sc_WindowSize (sa_config sa) * 2 < time_Sub now (aw_StartTime w)"

definition performCleanup :: "int list \<Rightarrow> time \<Rightarrow> stream_aggregator \<Rightarrow> stream_aggregator" where
  "performCleanup order now sa =
    (let toDelete = filter (\<lambda>k. case sa_windows sa k of None \<Rightarrow> False | Some w \<Rightarrow> stale sa now w) order
     in sa\<lparr>sa_windows := delete_windows toDelete (sa_windows sa),
           sa_dropped := sa_dropped sa @ map (\<lambda>k. the (sa_windows sa k)) toDelete\<rparr>)"

section \<open>Statistics of a window\<close>

definition median :: "real list \<Rightarrow> real" where
  "median vs =
    (let n = length vs in if n mod 2 = 0 then (vs ! (n div 2 - 1) + vs ! (n div 2)) / 2 else vs ! (n div 2))"

definition calculateStandardDeviation :: "real list \<Rightarrow> real \<Rightarrow> real" where
  "calculateStandardDeviation vs mean =
     (if length vs \<le> 1 then 0 else sqrt (foldl (\<lambda>s v. s + (v - mean) * (v - mean)) 0 vs / real (length vs)))"

text \<open>\<open>order\<close>: the range over the counts.  Types with equal counts keep that order here.\<close>

definition calculateTopEventTypes :: "string list \<Rightarrow> (string \<rightharpoonup> int) \<Rightarrow> int \<Rightarrow> EventTypeCount list" where
  "calculateTopEventTypes order counts totalCount =
    (let types = sort_key (\<lambda>t. - the (counts t)) order
     in map (\<lambda>t. \<lparr>et_EventType = t, et_Count = the (counts t),
               et_Percentage = real_of_int (the (counts t)) / real_of_int totalCount * 100\<rparr>) (take 5 types))"

definition window_result :: "string list \<Rightarrow> duration \<Rightarrow> nat \<Rightarrow> AggregationWindow \<Rightarrow> AggregationResult" where
  "window_result order took worker w =
    (let average = (if 0 < aw_EventCount w then aw_TotalValue w / real_of_int (aw_EventCount w) else 0);
         vs = sort (map se_Value (aw_Events w))
     in \<lparr>ar_WindowID = aw_WindowID w, ar_StartTime = aw_StartTime w, ar_EndTime = aw_EndTime w,
         ar_EventCount = aw_EventCount w, ar_TotalValue = aw_TotalValue w, ar_AverageValue = average,
         ar_MinValue = aw_MinValue w, ar_MaxValue = aw_MaxValue w,
         ar_MedianValue = (if aw_Events w = [] then 0 else median vs),
         ar_StandardDev = (if aw_Events w = [] then 0 else calculateStandardDeviation vs average),
         ar_UniqueUsers = int (card (dom (aw_UserCounts w))),
         ar_TopEventTypes = calculateTopEventTypes order (aw_TypeCounts w) (aw_EventCount w),
         ar_ProcessingTime = took, ar_WorkerID = worker\<rparr>)"

text \<open>A worker takes a window, computes, and then waits until it can send the result.\<close>

definition processWindow ::
  "string list \<Rightarrow> duration \<Rightarrow> nat \<Rightarrow> AggregationWindow \<Rightarrow> stream_worker \<Rightarrow> stream_worker" where
  "processWindow order took i w wk = wk\<lparr>wk_held := Some (window_result order took i w),
     wk_ProcessedEvents := wk_ProcessedEvents wk + aw_EventCount w,
     wk_ProcessedWindows := wk_ProcessedWindows wk + 1,
     wk_TotalProcessingTime := wk_TotalProcessingTime wk + took\<rparr>"

definition run_take :: "string list \<Rightarrow> duration \<Rightarrow> nat \<Rightarrow> stream_aggregator \<Rightarrow> stream_aggregator option" where
  "run_take order took i sa =
     (case sa_windowChannel sa of
        [] \<Rightarrow> None
      | w # rest \<Rightarrow>
          (if i < length (sa_workers sa) \<and> wk_running (sa_workers sa ! i) \<and> wk_held (sa_workers sa ! i) = None \<and>
              distinct order \<and> set order = dom (aw_TypeCounts w)
           then Some (sa\<lparr>sa_windowChannel := rest,
                         sa_workers := (sa_workers sa)[i := processWindow order took i w (sa_workers sa ! i)],
                         sa_processed := sa_processed sa @ [w]\<rparr>)
           else None))"

definition run_send :: "nat \<Rightarrow> stream_aggregator \<Rightarrow> stream_aggregator option" where
  "run_send i sa =
     (if i < length (sa_workers sa)
      then (case wk_held (sa_workers sa ! i) of
              None \<Rightarrow> None
            | Some r \<Rightarrow>
                (if length (sa_resultChannel sa) < sc_WorkerCount (sa_config sa) * 2
                 then Some (sa\<lparr>sa_resultChannel := sa_resultChannel sa @ [r],
                               sa_workers := (sa_workers sa)[i := (sa_workers sa ! i)\<lparr>wk_held := None\<rparr>]\<rparr>)
                 else None))
      else None)"

text \<open>After the cancellation a worker may return, with a result it could not send.\<close>

definition run_exit :: "nat \<Rightarrow> stream_aggregator \<Rightarrow> stream_aggregator option" where
  "run_exit i sa =
     (if sa_cancelled sa \<and> i < length (sa_workers sa)
      then Some (sa\<lparr>sa_workers := (sa_workers sa)[i := (sa_workers sa ! i)\<lparr>wk_held := None, wk_running := False\<rparr>]\<rparr>)
      else None)"

definition handleResults :: "stream_aggregator \<Rightarrow> stream_aggregator option" where
  "handleResults sa =
     (case sa_resultChannel sa of
        [] \<Rightarrow> None
      | r # rest \<Rightarrow>
          (let n = sa_totalWindows sa + 1
           in Some (sa\<lparr>sa_resultChannel := rest, sa_totalWindows := n,
                sa_totalResultsGenerated := sa_totalResultsGenerated sa + 1,
                sa_averageEventsPerWindow := (if 0 < n then real_of_int (sa_totalEvents sa) / real_of_int n
                                              else sa_averageEventsPerWindow sa),
                sa_averageProcessingTime := (if 0 < n
                   then go_div (sa_averageProcessingTime sa * n + ar_ProcessingTime r) (n + 1)
                   else ar_ProcessingTime r)\<rparr>)))"

section \<open>Shutdown\<close>

definition Shutdown_sa :: "stream_aggregator \<Rightarrow> stream_aggregator \<times> stream_error option" where
  "Shutdown_sa sa =
     (if \<not> sa_isRunning sa then (sa, Some AggregatorNotRunning)
      else (sa\<lparr>sa_isRunning := False, sa_stopping := True\<rparr>, None))"

text \<open>The final flush takes the lock, sends each window or gives it up, and forgets all of them.\<close>

definition flush_begin :: "int list \<Rightarrow> stream_aggregator \<Rightarrow> stream_aggregator option" where
  "flush_begin order sa =
     (if sa_stopping sa \<and> sa_flushing sa = None then Some (sa\<lparr>sa_flushing := Some order\<rparr>) else None)"

definition flush_window :: "bool \<Rightarrow> stream_aggregator \<Rightarrow> stream_aggregator option" where
  "flush_window timeout sa =
     (case sa_flushing sa of
        Some (k # ks) \<Rightarrow>
          (case sa_windows sa k of
             None \<Rightarrow> None
           | Some w \<Rightarrow>
               (if timeout then Some (sa\<lparr>sa_flushing := Some ks, sa_dropped := sa_dropped sa @ [w]\<rparr>)
                else if channel_room sa
                then Some (sa\<lparr>sa_flushing := Some ks, sa_windowChannel := sa_windowChannel sa @ [w]\<rparr>)
                else None))
      | _ \<Rightarrow> None)"

definition flush_end :: "stream_aggregator \<Rightarrow> stream_aggregator option" where
  "flush_end sa =
     (if sa_flushing sa = Some [] then Some (sa\<lparr>sa_flushing := None, sa_windows := Map.empty, sa_stopping := False\<rparr>)
      else None)"

definition cancel_sa :: "stream_aggregator \<Rightarrow> stream_aggregator option" where
  "cancel_sa sa =
     (if \<not> sa_isRunning sa \<and> \<not> sa_stopping sa then Some (sa\<lparr>sa_cancelled := True\<rparr>) else None)"

text \<open>Closing the channels when everything has stopped; a channel closed before panics.\<close>

definition close_channels :: "stream_aggregator \<Rightarrow> stream_aggregator option" where
  "close_channels sa =
     (if sa_closed sa \<or> \<not> sa_cancelled sa \<or> list_ex wk_running (sa_workers sa) then None
      else Some (sa\<lparr>sa_closed := True\<rparr>))"

section \<open>Interleavings\<close>

text \<open>
  The steps of the distributor, the window manager, the clean-up, the workers, the result handler
  and the callers.  The final flush holds the lock that the first three need.
\<close>

datatype sa_event =
  SStart | SSubmit time StreamEvent | SDistribute time bool | SCheck "int list" time "nat option"
| SCleanup "int list" time | SWork "string list" duration nat | SSend nat | SExit nat | SHandle
| SShutdown | SFlushBegin "int list" | SFlush bool | SFlushEnd | SCancel | SClose

definition all_windows :: "int list \<Rightarrow> stream_aggregator \<Rightarrow> bool" where
  "all_windows order sa \<longleftrightarrow> distinct order \<and> set order = dom (sa_windows sa)"

fun sa_step :: "stream_aggregator \<Rightarrow> sa_event \<Rightarrow> stream_aggregator option" where
  "sa_step sa SStart = Some (fst (Start_sa sa))"
| "sa_step sa (SSubmit now e) = Some (fst (SubmitEvent now e sa))"
| "sa_step sa (SDistribute now stop) = (if sa_flushing sa = None then distributeEvents now stop sa else None)"
| "sa_step sa (SCheck order now stop) =
     (if sa_flushing sa = None \<and> all_windows order sa \<and> (stop \<noteq> None \<longrightarrow> sa_cancelled sa)
      then Some (checkAndFlushWindows order now stop sa) else None)"
| "sa_step sa (SCleanup order now) =
     (if sa_flushing sa = None \<and> all_windows order sa then Some (performCleanup order now sa) else None)"
| "sa_step sa (SWork order took i) = run_take order took i sa"
| "sa_step sa (SSend i) = run_send i sa"
| "sa_step sa (SExit i) = run_exit i sa"
| "sa_step sa SHandle = handleResults sa"
| "sa_step sa SShutdown = Some (fst (Shutdown_sa sa))"
| "sa_step sa (SFlushBegin order) = (if all_windows order sa then flush_begin order sa else None)"
| "sa_step sa (SFlush timeout) = flush_window timeout sa"
| "sa_step sa SFlushEnd = flush_end sa"
| "sa_step sa SCancel = cancel_sa sa"
| "sa_step sa SClose = close_channels sa"

section \<open>The windows that contain an instant\<close>

definition window_starts :: "sa_config \<Rightarrow> time \<Rightarrow> time list" where
  "window_starts c t = map (\<lambda>i. time_Truncate t (sc_SlideInterval c) - int i * sc_SlideInterval c)
     [0..<nat (go_div (sc_WindowSize c) (sc_SlideInterval c))]"

definition aligned_config :: "sa_config \<Rightarrow> bool" where
  "aligned_config c \<longleftrightarrow> 0 < sc_SlideInterval c \<and> 0 < sc_WindowSize c \<and> sc_SlideInterval c dvd sc_WindowSize c"

lemma window_starts_distinct: "0 < sc_SlideInterval c \<Longrightarrow> distinct (window_starts c t)"
  by (simp add: window_starts_def distinct_map inj_on_def)

lemma window_starts_set:
  assumes "aligned_config c"
  shows "set (window_starts c t) = {s. sc_SlideInterval c dvd s \<and> s \<le> t \<and> t < s + sc_WindowSize c}"
proof -
  let ?d = "sc_SlideInterval c"
  have d: "0 < ?d" and n0: "0 < sc_WindowSize c" using assms by (simp_all add: aligned_config_def)
  obtain n where n: "sc_WindowSize c = ?d * n" using assms unfolding aligned_config_def by (blast elim: dvdE)
  have n1: "0 < n" using n0 d n by (simp add: zero_less_mult_iff)
  have q: "go_div (sc_WindowSize c) ?d = n" using d n0 by (simp add: go_div_pos n)
  define b where "b = t div ?d"
  have r: "t = b * ?d + t mod ?d" "0 \<le> t mod ?d" "t mod ?d < ?d" using d by (simp_all add: b_def)
  have b: "time_Truncate t ?d = b * ?d" using d by (simp add: time_Truncate_def b_def minus_mod_eq_div_mult)
  have "s \<in> set (window_starts c t)" if s: "?d dvd s" "s \<le> t" "t < s + ?d * n" for s
  proof -
    obtain a where "s = ?d * a" using s(1) by (rule dvdE)
    then have a: "s = a * ?d" by (simp add: mult.commute)
    have "a * ?d < (b + 1) * ?d" using s(2) a r by (simp add: algebra_simps)
    then have "a < b + 1" using d by (simp only: mult_less_cancel_right_pos)
    moreover have "b * ?d < (a + n) * ?d" using s(3) a r by (simp add: algebra_simps)
    then have "b < a + n" using d by (simp only: mult_less_cancel_right_pos)
    ultimately have "nat (b - a) < nat n" "s = b * ?d - int (nat (b - a)) * ?d"
      using a by (simp_all add: left_diff_distrib)
    then show ?thesis
      unfolding window_starts_def q b set_map by (intro image_eqI [of _ _ "nat (b - a)"]) simp_all
  qed
  moreover have "?d dvd s \<and> s \<le> t \<and> t < s + ?d * n" if "s \<in> set (window_starts c t)" for s
  proof -
    from that obtain i where "s = b * ?d - int i * ?d" "i \<in> set [0..<nat n]"
      unfolding window_starts_def q b set_map by (rule imageE)
    then have i: "i < nat n" "s = b * ?d - int i * ?d" by simp_all
    then have s: "s = (b - int i) * ?d" by (simp add: left_diff_distrib)
    have "int i + 1 \<le> n" using i(1) by linarith
    then have "(int i + 1) * ?d \<le> n * ?d" using d by (intro mult_right_mono) simp_all
    then have u: "int i * ?d + ?d \<le> ?d * n" by (simp add: algebra_simps)
    have "0 \<le> int i * ?d" using d by simp
    then have "s \<le> t" "t < s + ?d * n" using i(2) r u by linarith+
    then show ?thesis using s by simp
  qed
  ultimately show ?thesis unfolding n by blast
qed

section \<open>Well-formed windows\<close>

definition tally :: "'a list \<Rightarrow> ('a \<rightharpoonup> int)" where
  "tally xs = (\<lambda>x. if x \<in> set xs then Some (int (count_list xs x)) else None)"

lemma tally_snoc: "map_incr (tally xs) x = tally (xs @ [x])"
  by (rule ext) (auto simp: map_incr_def tally_def)

lemma tally_Nil [simp]: "tally [] = Map.empty"
  by (simp add: tally_def)

lemma dom_tally [simp]: "dom (tally xs) = set xs"
  by (auto simp: tally_def dom_def split: if_splits)

text \<open>The fields of a window are what its events say.\<close>

definition window_wf :: "sa_config \<Rightarrow> AggregationWindow \<Rightarrow> bool" where
  "window_wf c w \<longleftrightarrow> aw_WindowID w = unix_second (aw_StartTime w) \<and> sc_SlideInterval c dvd aw_StartTime w \<and>
     aw_EndTime w = aw_StartTime w + sc_WindowSize c \<and> aw_EventCount w = int (length (aw_Events w)) \<and>
     aw_TotalValue w = sum_list (map se_Value (aw_Events w)) \<and>
     aw_MinValue w = (if aw_Events w = [] then None else Some (Min (set (map se_Value (aw_Events w))))) \<and>
     aw_MaxValue w = (if aw_Events w = [] then None else Some (Max (set (map se_Value (aw_Events w))))) \<and>
     aw_UserCounts w = tally (map se_UserID (aw_Events w)) \<and> aw_TypeCounts w = tally (map se_EventType (aw_Events w)) \<and>
     (\<forall>e \<in> set (aw_Events w). aw_StartTime w \<le> se_Timestamp e \<and> se_Timestamp e < aw_EndTime w)"

lemma new_window_wf: "sc_SlideInterval c dvd start \<Longrightarrow> window_wf c (new_window (sc_WindowSize c) start)"
  by (simp add: window_wf_def new_window_def)

lemma add_event_wf:
  assumes "window_wf c w" and "aw_StartTime w \<le> se_Timestamp e" and "se_Timestamp e < aw_EndTime w"
  shows "window_wf c (add_event e w)"
  using assms by (auto simp: window_wf_def add_event_def tally_snoc min.commute max.commute)

lemma unix_second_inj:
  assumes "Second dvd d" and "d dvd s" and "d dvd s'" and "unix_second s = unix_second s'"
  shows "s = s'"
proof -
  have "Second dvd s" "Second dvd s'" using assms(1-3) dvd_trans by blast+
  then have "s = s div Second * Second" "s' = s' div Second * Second" by simp_all
  then show ?thesis using assms(4) by (simp add: unix_second_def)
qed

definition store_wf :: "stream_aggregator \<Rightarrow> bool" where
  "store_wf sa \<longleftrightarrow> finite (dom (sa_windows sa)) \<and>
     (\<forall>k w. sa_windows sa k = Some w \<longrightarrow> window_wf (sa_config sa) w \<and> aw_WindowID w = k \<and> aw_Events w \<noteq> []) \<and>
     (\<forall>w \<in> set (sa_windowChannel sa). window_wf (sa_config sa) w \<and> aw_Events w \<noteq> [])"

text \<open>Where the assigned events are: in live windows, and on the channel.\<close>

definition entries :: "AggregationWindow \<Rightarrow> (int \<times> StreamEvent) multiset" where
  "entries w = image_mset (\<lambda>e. (aw_WindowID w, e)) (mset (aw_Events w))"

definition stored :: "stream_aggregator \<Rightarrow> (int \<times> StreamEvent) multiset" where
  "stored sa = map_sum entries (sa_windows sa) + sum_list (map entries (sa_windowChannel sa))"

definition second_config :: "sa_config \<Rightarrow> bool" where
  "second_config c \<longleftrightarrow> aligned_config c \<and> Second dvd sc_SlideInterval c"

lemma entries_add: "entries (add_event e w) = add_mset (aw_WindowID w, e) (entries w)"
  by (simp add: entries_def add_event_def)

lemma entries_new [simp]: "entries (new_window d start) = {#}"
  by (simp add: entries_def new_window_def)

lemma map_None_upd [simp]: "m k = None \<Longrightarrow> m(k := None) = m"
  by auto

lemma assign_window_step:
  assumes "assign_window now stop e i sa = (sa1, go_on)" and "second_config (sa_config sa)" and "store_wf sa"
    and "start \<in> set (window_starts (sa_config sa) (se_Timestamp e))"
    and "start = time_Truncate (se_Timestamp e) (sc_SlideInterval (sa_config sa)) - int i * sc_SlideInterval (sa_config sa)"
  shows "\<exists>ws ch. sa1 = sa\<lparr>sa_windowChannel := ch, sa_windows := ws\<rparr> \<and> store_wf sa1 \<and>
    (\<not> sa_cancelled sa \<longrightarrow> go_on \<and> stored sa1 = add_mset (unix_second start, e) (stored sa))"
proof -
  let ?c = "sa_config sa" and ?k = "unix_second start"
  have c: "aligned_config ?c" "Second dvd sc_SlideInterval ?c" using assms(2) by (simp_all add: second_config_def)
  have start: "sc_SlideInterval ?c dvd start" "start \<le> se_Timestamp e" "se_Timestamp e < start + sc_WindowSize ?c"
    using assms(4) window_starts_set [OF c(1)] by auto
  define old where "old = (case sa_windows sa ?k of None \<Rightarrow> new_window (sc_WindowSize ?c) start | Some w \<Rightarrow> w)"
  define w where "w = add_event e old"
  have old: "window_wf ?c old \<and> aw_StartTime old = start \<and> aw_WindowID old = ?k"
  proof (cases "sa_windows sa ?k")
    case None
    then show ?thesis using new_window_wf [OF start(1)] by (simp add: old_def) (simp add: new_window_def)
  next
    case (Some x)
    then have x: "window_wf ?c x" "aw_WindowID x = ?k" using assms(3) by (simp_all add: store_wf_def)
    then have "sc_SlideInterval ?c dvd aw_StartTime x" "unix_second (aw_StartTime x) = ?k"
      by (simp_all add: window_wf_def)
    then have "aw_StartTime x = start" using unix_second_inj [OF c(2) _ start(1)] by blast
    then show ?thesis using Some x by (simp add: old_def)
  qed
  have "aw_EndTime old = start + sc_WindowSize ?c" using old by (simp add: window_wf_def)
  then have w: "window_wf ?c w" "aw_WindowID w = ?k" "aw_Events w \<noteq> []"
    using old start(2,3) add_event_wf [of ?c old e] by (simp_all add: w_def) (simp_all add: add_event_def)
  have fin: "finite (dom (sa_windows sa))" using assms(3) by (simp add: store_wf_def)
  have ew: "entries w = add_mset (?k, e) (case sa_windows sa ?k of None \<Rightarrow> {#} | Some x \<Rightarrow> entries x)"
    using old by (auto simp: w_def entries_add old_def split: option.split)
  have all: "map_sum entries (sa_windows sa) = (case sa_windows sa ?k of None \<Rightarrow> {#} | Some x \<Rightarrow> entries x) +
      map_sum entries ((sa_windows sa)(?k := None))"
    by (rule map_sum_at [OF fin])
  define kept where "kept = sa\<lparr>sa_windows := (sa_windows sa)(?k \<mapsto> w)\<rparr>"
  define sent where "sent = sa\<lparr>sa_windowChannel := sa_windowChannel sa @ [w], sa_windows := (sa_windows sa)(?k := None)\<rparr>"
  have k1: "store_wf kept" "stored kept = add_mset (?k, e) (stored sa)"
    using assms(3) w fin by (auto simp: kept_def store_wf_def stored_def map_sum_upd all ew)
  have s1: "store_wf sent" "stored sent = add_mset (?k, e) (stored sa)"
    using assms(3) w fin by (auto simp: sent_def store_wf_def stored_def all ew split: if_splits)
  have "assign_window now stop e i sa =
      (if sc_MaxWindowSize ?c \<le> length (aw_Events w) \<or> sc_WindowSize ?c \<le> time_Sub now (aw_StartTime w)
       then (if sa_cancelled sa \<and> stop then (kept, False) else if channel_room kept then (sent, True)
             else (kept, \<not> sa_cancelled sa))
       else (kept, True))"
    using start(2,3)
    unfolding assign_window_def Let_def assms(5) [symmetric] old_def [symmetric] w_def [symmetric] kept_def sent_def
    by simp
  then have "sa1 = kept \<and> (go_on \<or> sa_cancelled sa) \<or> sa1 = sent \<and> go_on"
    using assms(1) by (auto split: if_splits)
  moreover have "kept = sa\<lparr>sa_windowChannel := sa_windowChannel sa, sa_windows := (sa_windows sa)(?k \<mapsto> w)\<rparr>"
    by (simp add: kept_def)
  ultimately show ?thesis using k1 s1 sent_def by blast
qed

lemma assign_windows_steps:
  assumes "second_config (sa_config sa)" and "store_wf sa"
    and "\<forall>i \<in> set is. start i = time_Truncate (se_Timestamp e) (sc_SlideInterval (sa_config sa)) -
      int i * sc_SlideInterval (sa_config sa) \<and> start i \<in> set (window_starts (sa_config sa) (se_Timestamp e))"
  shows "\<exists>ws ch. assign_windows now stop e is sa = sa\<lparr>sa_windowChannel := ch, sa_windows := ws\<rparr> \<and>
    store_wf (assign_windows now stop e is sa) \<and>
    (\<not> sa_cancelled sa \<longrightarrow> stored (assign_windows now stop e is sa) =
       stored sa + image_mset (\<lambda>i. (unix_second (start i), e)) (mset is))"
  using assms
proof (induction "is" arbitrary: sa)
  case Nil
  have "sa = sa\<lparr>sa_windowChannel := sa_windowChannel sa, sa_windows := sa_windows sa\<rparr>" by simp
  then have "\<exists>ws ch. assign_windows now stop e [] sa = sa\<lparr>sa_windowChannel := ch, sa_windows := ws\<rparr>"
    unfolding assign_windows.simps by blast
  then show ?case using Nil.prems(2) by simp
next
  case (Cons i js)
  obtain sa1 go_on where a: "assign_window now stop e i sa = (sa1, go_on)" by fastforce
  obtain ws ch where sa1: "sa1 = sa\<lparr>sa_windowChannel := ch, sa_windows := ws\<rparr>" "store_wf sa1"
    "\<not> sa_cancelled sa \<longrightarrow> go_on \<and> stored sa1 = add_mset (unix_second (start i), e) (stored sa)"
  proof -
    have "start i \<in> set (window_starts (sa_config sa) (se_Timestamp e))"
      "start i = time_Truncate (se_Timestamp e) (sc_SlideInterval (sa_config sa)) - int i * sc_SlideInterval (sa_config sa)"
      using Cons.prems(3) by auto
    then show ?thesis using assign_window_step [OF a Cons.prems(1,2), of "start i"] that by blast
  qed
  show ?case
  proof (cases go_on)
    case False
    then show ?thesis using a sa1 by auto
  next
    case True
    have cfg: "sa_config sa1 = sa_config sa" "sa_cancelled sa1 = sa_cancelled sa" by (simp_all add: sa1(1))
    have "second_config (sa_config sa1)" using Cons.prems(1) by (simp add: cfg)
    moreover have "\<forall>i \<in> set js. start i = time_Truncate (se_Timestamp e) (sc_SlideInterval (sa_config sa1)) -
        int i * sc_SlideInterval (sa_config sa1) \<and> start i \<in> set (window_starts (sa_config sa1) (se_Timestamp e))"
      unfolding cfg(1) using Cons.prems(3) by (meson list.set_intros(2))
    ultimately obtain ws' ch' where ih: "assign_windows now stop e js sa1 = sa1\<lparr>sa_windowChannel := ch', sa_windows := ws'\<rparr>"
      "store_wf (assign_windows now stop e js sa1)"
      "\<not> sa_cancelled sa \<longrightarrow> stored (assign_windows now stop e js sa1) =
         stored sa1 + image_mset (\<lambda>i. (unix_second (start i), e)) (mset js)"
      using Cons.IH [OF _ sa1(2)] unfolding cfg(2) by blast
    have eq: "assign_windows now stop e (i # js) sa = assign_windows now stop e js sa1" using a True by simp
    have "assign_windows now stop e js sa1 = sa\<lparr>sa_windowChannel := ch', sa_windows := ws'\<rparr>"
      unfolding ih(1) by (simp add: sa1(1))
    then show ?thesis unfolding eq using ih(2,3) sa1(3) by auto
  qed
qed

section \<open>Conservation\<close>

definition live_windows :: "stream_aggregator \<Rightarrow> (int \<rightharpoonup> AggregationWindow)" where
  "live_windows sa = (case sa_flushing sa of None \<Rightarrow> sa_windows sa | Some ks \<Rightarrow> sa_windows sa |` set ks)"

text \<open>The events in windows anywhere, and the events that every accepted event asks for.\<close>

definition all_entries :: "stream_aggregator \<Rightarrow> (int \<times> StreamEvent) multiset" where
  "all_entries sa = map_sum entries (live_windows sa) + sum_list (map entries (sa_windowChannel sa)) +
     sum_list (map entries (sa_processed sa)) + sum_list (map entries (sa_dropped sa))"

definition window_memberships :: "sa_config \<Rightarrow> StreamEvent \<Rightarrow> (int \<times> StreamEvent) multiset" where
  "window_memberships c e = image_mset (\<lambda>s. (unix_second s, e)) (mset (window_starts c (se_Timestamp e)))"

definition flush_ok :: "stream_aggregator \<Rightarrow> bool" where
  "flush_ok sa \<longleftrightarrow> (case sa_flushing sa of None \<Rightarrow> True
     | Some ks \<Rightarrow> sa_stopping sa \<and> distinct ks \<and> set ks \<subseteq> dom (sa_windows sa))"

definition sa_inv :: "sa_config \<Rightarrow> stream_aggregator \<Rightarrow> bool" where
  "sa_inv c sa \<longleftrightarrow> sa_config sa = c \<and> store_wf sa \<and> flush_ok sa \<and> (\<forall>w \<in> set (sa_processed sa). window_wf c w \<and> aw_Events w \<noteq> []) \<and>
     (\<not> sa_cancelled sa \<longrightarrow> all_entries sa = sum_list (map (window_memberships c) (sa_accepted sa)))"

lemma distribute_keeps:
  assumes "second_config c" and "sa_inv c sa" and "sa_flushing sa = None" and "distributeEvents now stop sa = Some sa'"
  shows "sa_inv c sa'"
proof -
  obtain e rest where e: "sa_eventChannel sa = e # rest" using assms(4) by (auto simp: distributeEvents_def split: list.splits)
  define sb where "sb = sa\<lparr>sa_eventChannel := rest\<rparr>"
  let ?is = "[0..<nat (go_div (sc_WindowSize c) (sc_SlideInterval c))]"
  define start where "start i = time_Truncate (se_Timestamp e) (sc_SlideInterval c) - int i * sc_SlideInterval c" for i
  have cfg: "sa_config sb = c" "store_wf sb" "stored sb = stored sa" "sa_cancelled sb = sa_cancelled sa"
    using assms(2) by (auto simp: sb_def sa_inv_def store_wf_def stored_def)
  have "\<forall>i \<in> set ?is. start i = time_Truncate (se_Timestamp e) (sc_SlideInterval (sa_config sb)) -
      int i * sc_SlideInterval (sa_config sb) \<and> start i \<in> set (window_starts (sa_config sb) (se_Timestamp e))"
    by (auto simp: cfg(1) start_def window_starts_def)
  moreover have "second_config (sa_config sb)" using assms(1) by (simp add: cfg(1))
  ultimately obtain ws ch where
    a: "assign_windows now stop e ?is sb = sb\<lparr>sa_windowChannel := ch, sa_windows := ws\<rparr>"
    "store_wf (assign_windows now stop e ?is sb)"
    "\<not> sa_cancelled sa \<longrightarrow> stored (assign_windows now stop e ?is sb) =
       stored sa + image_mset (\<lambda>i. (unix_second (start i), e)) (mset ?is)"
    using assign_windows_steps [OF _ cfg(2), of ?is start e now stop] unfolding cfg(3,4) by blast
  have "image_mset (\<lambda>i. (unix_second (start i), e)) (mset ?is) = window_memberships c e"
    by (simp add: window_memberships_def window_starts_def start_def image_mset.compositionality comp_def)
  then have st: "\<not> sa_cancelled sa \<longrightarrow> stored (sb\<lparr>sa_windowChannel := ch, sa_windows := ws\<rparr>) = stored sa + window_memberships c e"
    using a by simp
  have sa': "sa' = sb\<lparr>sa_windowChannel := ch, sa_windows := ws, sa_accepted := sa_accepted sa @ [e],
      sa_totalEvents := sa_totalEvents sa + 1\<rparr>"
    using assms(4) e a(1) cfg(1) by (simp add: distributeEvents_def assignEventToWindows_def Let_def sb_def)
  have wf: "store_wf (sb\<lparr>sa_windowChannel := ch, sa_windows := ws\<rparr>)" using a(1,2) by simp
  have live: "all_entries sa = stored sa + sum_list (map entries (sa_processed sa)) + sum_list (map entries (sa_dropped sa))"
    using assms(3) by (simp add: all_entries_def live_windows_def stored_def)
  have "all_entries sa' = stored (sb\<lparr>sa_windowChannel := ch, sa_windows := ws\<rparr>) + sum_list (map entries (sa_processed sa)) +
      sum_list (map entries (sa_dropped sa))"
    using assms(3) by (simp add: all_entries_def live_windows_def stored_def sa' sb_def)
  then have "\<not> sa_cancelled sa \<longrightarrow> all_entries sa' = all_entries sa + window_memberships c e"
    using st unfolding live by (simp add: ac_simps)
  then have "\<not> sa_cancelled sa' \<longrightarrow> all_entries sa' = sum_list (map (window_memberships c) (sa_accepted sa'))"
    using assms(2) by (simp add: sa_inv_def sa' sb_def)
  then show ?thesis
    using assms(2,3) wf by (simp add: sa_inv_def sa' sb_def store_wf_def flush_ok_def)
qed

lemma delete_windows_restrict: "delete_windows ks m = m |` (- set ks)"
  by (rule ext) (simp add: delete_windows_def restrict_map_def)

lemma store_wf_restrict:
  assumes "store_wf sa" and "sa_windows sa' = sa_windows sa |` A" and "sa_config sa' = sa_config sa"
    and "\<forall>w \<in> set (sa_windowChannel sa'). window_wf (sa_config sa) w \<and> aw_Events w \<noteq> []"
  shows "store_wf sa'"
proof -
  have "finite (dom (sa_windows sa |` A))" using assms(1) by (simp add: store_wf_def)
  moreover have "sa_windows sa k = Some w" if "(sa_windows sa |` A) k = Some w" for k w
    using that by (simp add: restrict_map_def split: if_splits)
  ultimately show ?thesis using assms(1,4) unfolding store_wf_def assms(2,3) by blast
qed

lemma flush_expired_sends:
  assumes "flush_expired now ks sa = (sa1, sent)" and "distinct ks"
  shows "sa1 = sa\<lparr>sa_windowChannel := sa_windowChannel sa @ map (\<lambda>k. the (sa_windows sa k)) sent\<rparr> \<and>
    distinct sent \<and> set sent \<subseteq> set ks \<inter> dom (sa_windows sa)"
  using assms
proof (induction ks arbitrary: sa sent)
  case Nil
  then show ?case by simp
next
  case (Cons k ks)
  show ?case
  proof (cases "\<exists>w. sa_windows sa k = Some w \<and> sc_WindowSize (sa_config sa) \<le> time_Sub now (aw_StartTime w) \<and> channel_room sa")
    case True
    then obtain w where w: "sa_windows sa k = Some w" "sc_WindowSize (sa_config sa) \<le> time_Sub now (aw_StartTime w)"
      "channel_room sa" by blast
    let ?sb = "sa\<lparr>sa_windowChannel := sa_windowChannel sa @ [w]\<rparr>"
    obtain rest where r: "flush_expired now ks ?sb = (sa1, rest)" "sent = k # rest"
      using Cons.prems(1) w by (auto split: prod.splits)
    from Cons.IH [OF r(1)] Cons.prems(2) w(1) r(2) show ?thesis by auto
  next
    case False
    then have "flush_expired now ks sa = (sa1, sent)" using Cons.prems(1) by (auto split: option.splits)
    then show ?thesis using Cons.IH [of sa sent] Cons.prems(2) by auto
  qed
qed

lemma check_keeps_sa:
  assumes "sa_inv c sa" and "sa_flushing sa = None" and "all_windows order sa" and "stop \<noteq> None \<longrightarrow> sa_cancelled sa"
  shows "sa_inv c (checkAndFlushWindows order now stop sa)"
proof -
  have fin: "finite (dom (sa_windows sa))" and wf: "\<And>k w. sa_windows sa k = Some w \<Longrightarrow> window_wf c w \<and> aw_Events w \<noteq> []"
    using assms(1) by (auto simp: sa_inv_def store_wf_def)
  have sent_wf: "\<forall>w \<in> set (map (\<lambda>k. the (sa_windows sa k)) sent). window_wf c w \<and> aw_Events w \<noteq> []"
    if "set sent \<subseteq> dom (sa_windows sa)" for sent
    using that wf by fastforce
  show ?thesis
  proof (cases stop)
    case (Some n)
    obtain sa1 sent where f: "flush_expired now (take n order) sa = (sa1, sent)" by fastforce
    have "distinct (take n order)" using assms(3) by (simp add: all_windows_def)
    from flush_expired_sends [OF f this]
    have sa1: "sa1 = sa\<lparr>sa_windowChannel := sa_windowChannel sa @ map (\<lambda>k. the (sa_windows sa k)) sent\<rparr>"
      "set sent \<subseteq> dom (sa_windows sa)" by auto
    then show ?thesis using assms Some f sent_wf [OF sa1(2)]
      by (auto simp: checkAndFlushWindows_def sa_inv_def store_wf_def flush_ok_def)
  next
    case None
    obtain sa1 sent where f: "flush_expired now order sa = (sa1, sent)" by fastforce
    have "distinct order" using assms(3) by (simp add: all_windows_def)
    from flush_expired_sends [OF f this]
    have sa1: "sa1 = sa\<lparr>sa_windowChannel := sa_windowChannel sa @ map (\<lambda>k. the (sa_windows sa k)) sent\<rparr>"
      "distinct sent" "set sent \<subseteq> dom (sa_windows sa)" by auto
    define sa' where "sa' = checkAndFlushWindows order now stop sa"
    have sa': "sa' = sa\<lparr>sa_windowChannel := sa_windowChannel sa @ map (\<lambda>k. the (sa_windows sa k)) sent,
        sa_windows := sa_windows sa |` (- set sent)\<rparr>"
      using None f by (simp add: sa'_def checkAndFlushWindows_def sa1(1) delete_windows_restrict)
    have "all_entries sa' = all_entries sa"
      using map_sum_restrict [OF fin sa1(2,3), of entries] assms(2)
      by (simp add: all_entries_def live_windows_def sa' comp_def ac_simps)
    moreover have "store_wf sa'"
      by (rule store_wf_restrict [of sa _ "- set sent"])
        (use assms(1) sent_wf [OF sa1(3)] in \<open>auto simp: sa_inv_def sa' store_wf_def\<close>)
    ultimately have "sa_inv c sa'" using assms(1,2) by (simp add: sa_inv_def sa' flush_ok_def)
    then show ?thesis by (simp add: sa'_def)
  qed
qed

lemma cleanup_keeps:
  assumes "sa_inv c sa" and "sa_flushing sa = None" and "all_windows order sa"
  shows "sa_inv c (performCleanup order now sa)"
proof -
  define gone where "gone = filter (\<lambda>k. case sa_windows sa k of None \<Rightarrow> False | Some w \<Rightarrow> stale sa now w) order"
  have g: "distinct gone" "set gone \<subseteq> dom (sa_windows sa)"
    using assms(3) by (auto simp: gone_def all_windows_def)
  have fin: "finite (dom (sa_windows sa))" using assms(1) by (simp add: sa_inv_def store_wf_def)
  have sa': "performCleanup order now sa = sa\<lparr>sa_windows := sa_windows sa |` (- set gone),
      sa_dropped := sa_dropped sa @ map (\<lambda>k. the (sa_windows sa k)) gone\<rparr>"
    by (simp add: performCleanup_def gone_def Let_def delete_windows_restrict)
  have "all_entries (performCleanup order now sa) = all_entries sa"
    using map_sum_restrict [OF fin g, of entries] assms(2)
    by (simp add: all_entries_def live_windows_def sa' comp_def ac_simps)
  moreover have "store_wf (performCleanup order now sa)"
    by (rule store_wf_restrict [of sa _ "- set gone"]) (use assms(1) in \<open>auto simp: sa_inv_def sa' store_wf_def\<close>)
  ultimately show ?thesis using assms(1,2) by (simp add: sa_inv_def sa' flush_ok_def)
qed

lemma live_windows_same:
  "sa_windows sa' = sa_windows sa \<Longrightarrow> sa_flushing sa' = sa_flushing sa \<Longrightarrow> live_windows sa' = live_windows sa"
  by (simp add: live_windows_def cong: option.case_cong)

text \<open>A step that changes neither the windows nor what was accepted.\<close>

lemma sa_inv_frame:
  assumes "sa_inv c sa" and "sa_config sa' = sa_config sa" and "sa_windows sa' = sa_windows sa"
    and "sa_windowChannel sa' = sa_windowChannel sa" and "sa_processed sa' = sa_processed sa"
    and "sa_dropped sa' = sa_dropped sa" and "sa_accepted sa' = sa_accepted sa" and "sa_flushing sa' = sa_flushing sa"
    and "sa_stopping sa' = sa_stopping sa \<or> sa_stopping sa'" and "sa_cancelled sa \<longrightarrow> sa_cancelled sa'"
  shows "sa_inv c sa'"
proof -
  have "all_entries sa' = all_entries sa" "store_wf sa' = store_wf sa"
    using assms(2-7) live_windows_same [OF assms(3,8)] by (simp_all add: all_entries_def store_wf_def)
  moreover have "flush_ok sa'"
    using assms(1,3,8,9) by (cases "sa_flushing sa") (auto simp: sa_inv_def flush_ok_def)
  ultimately show ?thesis using assms(1,2,5,7,10) by (auto simp: sa_inv_def)
qed

lemma work_keeps:
  assumes "sa_inv c sa" and "run_take order took i sa = Some sa'"
  shows "sa_inv c sa'"
proof -
  obtain w rest wk where w: "sa_windowChannel sa = w # rest" and
    sa': "sa' = sa\<lparr>sa_windowChannel := rest, sa_workers := wk, sa_processed := sa_processed sa @ [w]\<rparr>"
    using assms(2) by (auto simp: run_take_def split: list.splits if_splits)
  have "all_entries sa' = all_entries sa"
    using live_windows_same [of sa' sa] by (simp add: all_entries_def sa' w ac_simps)
  moreover have "flush_ok sa'"
    using assms(1) by (cases "sa_flushing sa") (auto simp: sa_inv_def flush_ok_def sa')
  ultimately show ?thesis using assms(1) by (auto simp: sa_inv_def sa' store_wf_def w)
qed

lemma flush_window_keeps:
  assumes "sa_inv c sa" and "flush_window timeout sa = Some sa'"
  shows "sa_inv c sa'"
proof -
  obtain k ks w where k: "sa_flushing sa = Some (k # ks)" "sa_windows sa k = Some w" and
    sa': "sa' = sa\<lparr>sa_flushing := Some ks, sa_dropped := sa_dropped sa @ [w]\<rparr> \<or>
      sa' = sa\<lparr>sa_flushing := Some ks, sa_windowChannel := sa_windowChannel sa @ [w]\<rparr>"
    using assms(2) by (auto simp: flush_window_def split: option.splits list.splits if_splits)
  have f: "k \<notin> set ks" "distinct ks" "set ks \<subseteq> dom (sa_windows sa)" "finite (dom (sa_windows sa))"
    using assms(1) k by (auto simp: sa_inv_def flush_ok_def store_wf_def)
  have "(sa_windows sa |` set (k # ks)) k = Some w" using k by simp
  moreover have "(sa_windows sa |` set (k # ks))(k := None) = sa_windows sa |` set ks"
    using f(1) by (auto simp: restrict_map_def)
  ultimately have "map_sum entries (sa_windows sa |` set (k # ks)) = entries w + map_sum entries (sa_windows sa |` set ks)"
    using map_sum_at [of "sa_windows sa |` set (k # ks)" entries k] f(4) by simp
  then have "all_entries sa' = all_entries sa"
    using sa' k(1) by (auto simp: all_entries_def live_windows_def ac_simps)
  moreover have "window_wf c w \<and> aw_Events w \<noteq> []" using assms(1) k(2) by (auto simp: sa_inv_def store_wf_def)
  ultimately show ?thesis using assms(1) sa' k(1) by (auto simp: sa_inv_def store_wf_def flush_ok_def)
qed

lemma flush_end_keeps:
  assumes "sa_inv c sa" and "flush_end sa = Some sa'"
  shows "sa_inv c sa'"
proof -
  have f: "sa_flushing sa = Some []" and sa': "sa' = sa\<lparr>sa_flushing := None, sa_windows := Map.empty, sa_stopping := False\<rparr>"
    using assms(2) by (auto simp: flush_end_def split: if_splits)
  have "all_entries sa' = all_entries sa" by (simp add: all_entries_def live_windows_def sa' f)
  then show ?thesis using assms(1) by (auto simp: sa_inv_def store_wf_def flush_ok_def sa')
qed

lemma flush_begin_keeps:
  assumes "sa_inv c sa" and "all_windows order sa" and "flush_begin order sa = Some sa'"
  shows "sa_inv c sa'"
proof -
  have f: "sa_flushing sa = None" "sa_stopping sa" and sa': "sa' = sa\<lparr>sa_flushing := Some order\<rparr>"
    using assms(3) by (auto simp: flush_begin_def split: if_splits)
  have o: "distinct order" "set order = dom (sa_windows sa)" using assms(2) by (simp_all add: all_windows_def)
  have "sa_windows sa |` set order = sa_windows sa" unfolding o(2)
    by (rule ext) (auto simp: restrict_map_def domIff)
  then have "all_entries sa' = all_entries sa" by (simp add: all_entries_def live_windows_def sa' f)
  then show ?thesis using assms(1) f o by (auto simp: sa_inv_def store_wf_def flush_ok_def sa')
qed

lemma sa_step_keeps:
  assumes "second_config c" and "sa_inv c sa" and "sa_step sa e = Some sa'"
  shows "sa_inv c sa'"
proof (cases e)
  case (SDistribute now stop)
  then show ?thesis using assms distribute_keeps by (auto split: if_splits)
next
  case (SCheck order now stop)
  then show ?thesis using assms(2,3) check_keeps_sa by (auto split: if_splits)
next
  case (SCleanup order now)
  then show ?thesis using assms(2,3) cleanup_keeps by (auto split: if_splits)
next
  case (SWork order took i)
  then show ?thesis using assms(2,3) work_keeps by simp
next
  case (SFlushBegin order)
  then show ?thesis using assms(2,3) flush_begin_keeps by (auto split: if_splits)
next
  case (SFlush timeout)
  then show ?thesis using assms(2,3) flush_window_keeps by simp
next
  case SFlushEnd
  then show ?thesis using assms(2,3) flush_end_keeps by simp
next
  case SStart
  then show ?thesis using assms(2,3) by (intro sa_inv_frame [OF assms(2)]) (auto simp: Start_sa_def split: if_splits)
next
  case (SSubmit now ev)
  then show ?thesis using assms(2,3) by (intro sa_inv_frame [OF assms(2)]) (auto simp: SubmitEvent_def split: if_splits)
next
  case (SSend i)
  then show ?thesis using assms(2,3)
    by (intro sa_inv_frame [OF assms(2)]) (auto simp: run_send_def split: option.splits if_splits)
next
  case (SExit i)
  then show ?thesis using assms(2,3) by (intro sa_inv_frame [OF assms(2)]) (auto simp: run_exit_def split: if_splits)
next
  case SHandle
  then show ?thesis using assms(2,3)
    by (intro sa_inv_frame [OF assms(2)]) (auto simp: handleResults_def Let_def split: list.splits)
next
  case SShutdown
  then show ?thesis using assms(2,3) by (intro sa_inv_frame [OF assms(2)]) (auto simp: Shutdown_sa_def split: if_splits)
next
  case SCancel
  then show ?thesis using assms(2,3) by (intro sa_inv_frame [OF assms(2)]) (auto simp: cancel_sa_def split: if_splits)
next
  case SClose
  then show ?thesis using assms(2,3) by (intro sa_inv_frame [OF assms(2)]) (auto simp: close_channels_def split: if_splits)
qed

lemma sa_start: "sa_inv c (NewStreamAggregator c)"
  by (simp add: sa_inv_def NewStreamAggregator_def store_wf_def flush_ok_def all_entries_def live_windows_def)

interpretation stream_runs: step_invariant sa_step NewStreamAggregator sa_inv second_config
  by unfold_locales (use sa_start sa_step_keeps in blast)+

text \<open>
  C4. Events are conserved: until the shutdown cancels the context, the events held by live
  windows, on the channel, processed or given up are exactly the accepted events, each in every
  aligned window that contains its instant and in no other.
\<close>

theorem stream_events_conserved:
  assumes "second_config c" and "run_steps sa_step (NewStreamAggregator c) es = Some sa" and "\<not> sa_cancelled sa"
  shows "all_entries sa = sum_list (map (\<lambda>e. image_mset (\<lambda>s. (unix_second s, e))
    (mset_set {s. sc_SlideInterval c dvd s \<and> s \<le> se_Timestamp e \<and> se_Timestamp e < s + sc_WindowSize c})) (sa_accepted sa))"
proof -
  have a: "aligned_config c" "0 < sc_SlideInterval c" using assms(1) by (simp_all add: second_config_def aligned_config_def)
  have "mset (window_starts c t) = mset_set {s. sc_SlideInterval c dvd s \<and> s \<le> t \<and> t < s + sc_WindowSize c}" for t
    using mset_set_set [OF window_starts_distinct [OF a(2)], of t] window_starts_set [OF a(1), of t] by simp
  then have "window_memberships c = (\<lambda>e. image_mset (\<lambda>s. (unix_second s, e))
    (mset_set {s. sc_SlideInterval c dvd s \<and> s \<le> se_Timestamp e \<and> se_Timestamp e < s + sc_WindowSize c}))"
    by (intro ext) (simp add: window_memberships_def)
  then show ?thesis using stream_runs.inv_run [OF assms(1,2)] assms(3) by (simp add: sa_inv_def)
qed

text \<open>
  C21. Every window of a reachable aggregator, live, queued or processed, is well formed: its
  identifier and its end are those of its aligned start, its counts, sum, extremes and per-user and
  per-type counts are those of its events, and all its events lie inside it.
\<close>

theorem windows_well_formed:
  assumes "second_config c" and "run_steps sa_step (NewStreamAggregator c) es = Some sa"
  shows "(\<forall>k w. sa_windows sa k = Some w \<longrightarrow> window_wf c w \<and> aw_WindowID w = k) \<and>
    (\<forall>w. w \<in> set (sa_windowChannel sa @ sa_processed sa) \<longrightarrow> window_wf c w)"
  using stream_runs.inv_run [OF assms] by (auto simp: sa_inv_def store_wf_def)

section \<open>Results\<close>

definition result_in_bounds :: "AggregationResult \<Rightarrow> bool" where
  "result_in_bounds r \<longleftrightarrow>
     (case (ar_MinValue r, ar_MaxValue r) of
        (Some mn, Some mx) \<Rightarrow> mn \<le> ar_AverageValue r \<and> ar_AverageValue r \<le> mx \<and>
          mn \<le> ar_MedianValue r \<and> ar_MedianValue r \<le> mx
      | _ \<Rightarrow> False) \<and>
     0 \<le> ar_StandardDev r \<and> 1 \<le> ar_UniqueUsers r \<and> ar_UniqueUsers r \<le> ar_EventCount r \<and>
     length (ar_TopEventTypes r) \<le> 5 \<and>
     sorted_wrt (\<lambda>x y. et_Count y \<le> et_Count x) (ar_TopEventTypes r) \<and>
     sum_list (map et_Count (ar_TopEventTypes r)) \<le> ar_EventCount r"

lemma mean_between:
  fixes vs :: "real list"
  assumes "vs \<noteq> []" and "\<And>v. v \<in> set vs \<Longrightarrow> a \<le> v \<and> v \<le> b"
  shows "a \<le> sum_list vs / real (length vs) \<and> sum_list vs / real (length vs) \<le> b"
proof -
  have "a * real (length vs) \<le> sum_list vs \<and> sum_list vs \<le> b * real (length vs)"
    using assms(2)
  proof (induction vs)
    case Nil
    then show ?case by simp
  next
    case (Cons v vs)
    then have "a * real (length vs) \<le> sum_list vs \<and> sum_list vs \<le> b * real (length vs)" "a \<le> v" "v \<le> b" by auto
    then show ?case by (simp add: algebra_simps)
  qed
  then show ?thesis using assms(1) by (simp add: field_simps)
qed

lemma median_between:
  assumes "vs \<noteq> []" and "\<And>v. v \<in> set vs \<Longrightarrow> a \<le> v \<and> v \<le> b"
  shows "a \<le> median vs \<and> median vs \<le> b"
proof -
  have n: "0 < length vs" using assms(1) by simp
  then have "length vs div 2 < length vs" "length vs div 2 - 1 < length vs" by linarith+
  then have "vs ! (length vs div 2) \<in> set vs" "vs ! (length vs div 2 - 1) \<in> set vs" by (simp_all only: nth_mem)
  then have "a \<le> vs ! (length vs div 2) \<and> vs ! (length vs div 2) \<le> b"
    "a \<le> vs ! (length vs div 2 - 1) \<and> vs ! (length vs div 2 - 1) \<le> b" using assms(2) by blast+
  then show ?thesis by (auto simp: median_def Let_def)
qed

lemma top_types_sorted:
  "sorted_wrt (\<lambda>x y. et_Count y \<le> et_Count x) (calculateTopEventTypes order counts n)"
proof -
  have "sorted_wrt (\<lambda>x y. the (counts y) \<le> the (counts x)) (sort_key (\<lambda>t. - the (counts t)) order)"
    using sorted_sort_key [of "\<lambda>t. - the (counts t)" order] by (simp add: sorted_map)
  then have "sorted_wrt (\<lambda>x y. the (counts y) \<le> the (counts x)) (take 5 (sort_key (\<lambda>t. - the (counts t)) order))"
    by (rule sorted_wrt_take)
  then show ?thesis by (simp add: calculateTopEventTypes_def sorted_wrt_map)
qed

lemma top_types_sum:
  assumes "distinct order" and "set order = set xs"
  shows "sum_list (map et_Count (calculateTopEventTypes order (tally xs) n)) \<le> int (length xs)"
proof -
  let ?ts = "sort_key (\<lambda>t. - the (tally xs t)) order"
  have t: "the (tally xs t) = int (count_list xs t)" if "t \<in> set xs" for t using that by (simp add: tally_def)
  have d: "distinct (take 5 ?ts)" using assms(1) by (intro distinct_take) simp
  have sub: "set (take 5 ?ts) \<subseteq> set xs" using assms(2) set_take_subset [of 5 ?ts] by simp
  have "sum_list (map et_Count (calculateTopEventTypes order (tally xs) n)) = sum_list (map (\<lambda>t. the (tally xs t)) (take 5 ?ts))"
    by (simp add: calculateTopEventTypes_def comp_def)
  also have "\<dots> = (\<Sum>t \<in> set (take 5 ?ts). the (tally xs t))" using d by (simp add: sum_list_distinct_conv_sum_set)
  also have "\<dots> = (\<Sum>t \<in> set (take 5 ?ts). int (count_list xs t))" using sub t by (intro sum.cong) auto
  also have "\<dots> \<le> (\<Sum>t \<in> set xs. int (count_list xs t))" using sub by (intro sum_mono2) auto
  also have "\<dots> = int (length xs)" using sum_count_set [of xs "set xs"] by (simp flip: of_nat_sum)
  finally show ?thesis .
qed

lemma deviation_nonneg: "0 \<le> calculateStandardDeviation vs m"
proof -
  have "0 \<le> foldl (\<lambda>s v. s + (v - m) * (v - m)) a vs" if "0 \<le> a" for a :: real
    using that by (induction vs arbitrary: a) simp_all
  then show ?thesis by (simp add: calculateStandardDeviation_def)
qed

lemma wf_result_in_bounds:
  assumes "window_wf c w" and "aw_Events w \<noteq> []" and "distinct order" and "set order = dom (aw_TypeCounts w)"
  shows "result_in_bounds (window_result order took i w)"
proof -
  let ?vs = "map se_Value (aw_Events w)"
  have w: "aw_EventCount w = int (length (aw_Events w))" "aw_TotalValue w = sum_list ?vs"
    "aw_MinValue w = Some (Min (set ?vs))" "aw_MaxValue w = Some (Max (set ?vs))"
    "aw_UserCounts w = tally (map se_UserID (aw_Events w))" "aw_TypeCounts w = tally (map se_EventType (aw_Events w))"
    using assms(1,2) by (simp_all add: window_wf_def)
  have b: "Min (set ?vs) \<le> v \<and> v \<le> Max (set ?vs)" if "v \<in> set ?vs" for v
    using that Min_le [OF finite_set] Max_ge [OF finite_set] by blast
  have avg: "Min (set ?vs) \<le> sum_list ?vs / real (length ?vs) \<and> sum_list ?vs / real (length ?vs) \<le> Max (set ?vs)"
    using mean_between [of ?vs "Min (set ?vs)" "Max (set ?vs)"] b assms(2) by blast
  have "?vs \<noteq> []" using assms(2) by simp
  then have med: "Min (set ?vs) \<le> median (sort ?vs) \<and> median (sort ?vs) \<le> Max (set ?vs)"
    using median_between [of "sort ?vs" "Min (set ?vs)" "Max (set ?vs)"] b by (metis length_0_conv length_sort set_sort)
  have users: "1 \<le> card (set (map se_UserID (aw_Events w)))" "card (set (map se_UserID (aw_Events w))) \<le> length (aw_Events w)"
    using assms(2) card_length [of "map se_UserID (aw_Events w)"] by (simp_all add: Suc_le_eq card_gt_0_iff)
  have top: "length (calculateTopEventTypes order (aw_TypeCounts w) (aw_EventCount w)) \<le> 5"
    by (simp add: calculateTopEventTypes_def Let_def)
  show ?thesis
    using avg med users top top_types_sorted deviation_nonneg assms(2-4)
      top_types_sum [of order "map se_EventType (aw_Events w)" "aw_EventCount w"]
    by (simp add: result_in_bounds_def window_result_def w Let_def)
qed

text \<open>
  The result of every window that a worker of a reachable aggregator has processed is in
  bounds: average and median lie between the smallest and the largest value, the deviation is not
  negative, there are at least one and at most as many users as events, and the at most five top
  types are in decreasing order and count no event twice.
\<close>

theorem results_in_bounds:
  assumes "second_config c" and "run_steps sa_step (NewStreamAggregator c) es = Some sa"
    and "w \<in> set (sa_processed sa)" and "distinct order" and "set order = dom (aw_TypeCounts w)"
  shows "result_in_bounds (window_result order took i w)"
  using stream_runs.inv_run [OF assms(1,2)] assms(3) wf_result_in_bounds [OF _ _ assms(4,5)]
  by (auto simp: sa_inv_def)

section \<open>A run\<close>

definition sample_config :: sa_config where
  "sample_config = \<lparr>sc_WindowSize = 20 * Second, sc_SlideInterval = 10 * Second, sc_MaxWindowSize = 2,
     sc_WorkerCount = 1, sc_BufferSize = 8\<rparr>"

definition click :: "time \<Rightarrow> real \<Rightarrow> StreamEvent" where
  "click t v = \<lparr>se_ID = 1, se_EventType = ''click'', se_Timestamp = t, se_UserID = ''u'', se_Value = v\<rparr>"

definition sample_run :: "sa_event list" where
  "sample_run = [SStart, SSubmit 0 (click (15 * Second) 4), SDistribute (16 * Second) False,
     SSubmit 0 (click (12 * Second) 2), SDistribute (17 * Second) False, SWork [''click''] 5 0]"

lemmas run_simps = sample_config_def click_def NewStreamAggregator_def Start_sa_def SubmitEvent_def
  distributeEvents_def assignEventToWindows_def assign_window_def time_Truncate_def unix_second_def new_window_def
  add_event_def channel_room_def run_take_def processWindow_def go_div_pos Second_def time_Sub_def map_incr_def Let_def

lemma sample_second_config: "second_config sample_config"
  by (simp add: second_config_def aligned_config_def sample_config_def Second_def)

lemma sample_stream: "\<exists>sa. run_steps sa_step (NewStreamAggregator sample_config) sample_run = Some sa \<and> \<not> sa_cancelled sa \<and>
    sa_accepted sa = [click (15 * Second) 4, click (12 * Second) 2] \<and> sa_windows sa = Map.empty \<and>
    length (sa_windowChannel sa) = 1 \<and> (\<exists>w. sa_processed sa = [w] \<and> aw_StartTime w = 10 * Second \<and>
      aw_TypeCounts w = Map.empty(''click'' \<mapsto> 2))"
  by (simp add: sample_run_def run_simps upt_conv_Cons)

lemma stream_events_conserved_witness:
  "\<exists>sa. run_steps sa_step (NewStreamAggregator sample_config) sample_run = Some sa \<and> length (sa_accepted sa) = 2 \<and>
    all_entries sa = sum_list (map (\<lambda>e. image_mset (\<lambda>s. (unix_second s, e))
      (mset_set {s. sc_SlideInterval sample_config dvd s \<and> s \<le> se_Timestamp e \<and>
         se_Timestamp e < s + sc_WindowSize sample_config})) (sa_accepted sa))"
proof -
  obtain sa where sa: "run_steps sa_step (NewStreamAggregator sample_config) sample_run = Some sa" "\<not> sa_cancelled sa"
    "sa_accepted sa = [click (15 * Second) 4, click (12 * Second) 2]"
    using sample_stream by blast
  show ?thesis
    using sa(1,3) stream_events_conserved [OF sample_second_config sa(1,2)] by (intro exI [of _ sa]) simp
qed

lemma windows_well_formed_witness:
  "\<exists>sa. run_steps sa_step (NewStreamAggregator sample_config) sample_run = Some sa \<and>
    length (sa_windowChannel sa @ sa_processed sa) = 2 \<and> list_all (window_wf sample_config) (sa_windowChannel sa @ sa_processed sa)"
proof -
  obtain sa w where sa: "run_steps sa_step (NewStreamAggregator sample_config) sample_run = Some sa"
    "length (sa_windowChannel sa) = 1" "sa_processed sa = [w]"
    using sample_stream by blast
  show ?thesis
    using sa windows_well_formed [OF sample_second_config sa(1)] by (intro exI [of _ sa]) (simp add: list_all_iff)
qed

lemma results_in_bounds_witness:
  "\<exists>sa w. run_steps sa_step (NewStreamAggregator sample_config) sample_run = Some sa \<and> sa_processed sa = [w] \<and>
    result_in_bounds (window_result [''click''] 5 0 w)"
proof -
  obtain sa w where sa: "run_steps sa_step (NewStreamAggregator sample_config) sample_run = Some sa"
    "sa_processed sa = [w]" "aw_TypeCounts w = Map.empty(''click'' \<mapsto> 2)"
    using sample_stream by blast
  have "result_in_bounds (window_result [''click''] 5 0 w)"
    by (rule results_in_bounds [OF sample_second_config sa(1)]) (simp_all add: sa(2,3))
  then show ?thesis using sa by blast
qed

definition stop_events :: "sa_event list" where
  "stop_events = [SShutdown, SFlushBegin [], SFlushEnd, SCancel, SExit 0]"

text \<open>
  A second start and shutdown panics: after a shutdown the aggregator can be started again, and
  the next shutdown then closes channels that are closed.
\<close>

theorem second_shutdown_panics:
  "(\<exists>sa. run_steps sa_step (NewStreamAggregator sample_config) ((SStart # stop_events) @ [SClose] @ (SStart # stop_events)) = Some sa \<and>
     close_channels sa = None \<and> \<not> list_ex wk_running (sa_workers sa)) \<and>
   run_steps sa_step (NewStreamAggregator sample_config) ((SStart # stop_events) @ [SClose]) \<noteq> None"
  by (simp add: stop_events_def NewStreamAggregator_def sample_config_def Start_sa_def Shutdown_sa_def flush_begin_def
      flush_end_def cancel_sa_def run_exit_def close_channels_def all_windows_def)

end
