(* ===== verification/DynamicPool.thy ===== *)
theory DynamicPool
  imports Prelude
begin

text \<open>
  The worker pool with load-driven scaling of chapter 2, \<^verbatim>\<open>ans_01/dynamic_worker_pool.go\<close>.

  Every worker's goroutine is an entry of \<open>dp_goroutines\<close> with its phase; a receive, a send, a timer
  and a critical section are one step each.  What a task does (return, fail, panic), the clock, the
  measured load and the order of ranging over the workers are arguments.  \<open>dp_accepted\<close>,
  \<open>dp_handled\<close> and \<open>dp_abandoned\<close> are a history kept for the statements.
\<close>

section \<open>State\<close>

record DynamicTask =
  dt_ID :: int
  dt_CPUIntensive :: bool

record DynamicResult =
  dr_TaskID :: int
  dr_Success :: bool
  dr_Error :: "string option"
  dr_Duration :: duration
  dr_WorkerID :: int

record DynamicWorker =
  dw_lastActivity :: time
  dw_taskCount :: int

record LoadMonitor =
  lm_cpuUsage :: real
  lm_lastCPUCheck :: time
  lm_cpuHistory :: "real list"
  lm_maxHistorySize :: nat

record DynamicConfig =
  dc_CPUHighThreshold :: real
  dc_CPULowThreshold :: real
  dc_QueueHighThreshold :: real
  dc_ScaleUpCooldown :: duration
  dc_ScaleDownCooldown :: duration

datatype dw_phase = DwIdle | DwRunning DynamicTask | DwSending DynamicResult | DwLeaving

record dynamic_pool =
  dp_minWorkers :: int
  dp_maxWorkers :: int
  dp_taskQueueSize :: nat
  dp_taskQueue :: "DynamicTask list"
  dp_resultQueue :: "DynamicResult list"
  dp_workers :: "int \<rightharpoonup> DynamicWorker"
  dp_workerID :: int
  dp_goroutines :: "int \<rightharpoonup> dw_phase"
  dp_quit :: "int set"
  dp_cancelled :: bool
  dp_loadMonitor :: LoadMonitor
  dp_closed :: bool
  dp_config :: DynamicConfig
  dp_lastScaleUp :: time
  dp_lastScaleDown :: time
  dp_accepted :: nat
  dp_handled :: "DynamicResult list"
  dp_abandoned :: nat

definition NewDynamicWorkerPool :: "int \<times> int \<times> nat \<Rightarrow> dynamic_pool" where
  "NewDynamicWorkerPool = (\<lambda>(minWorkers, maxWorkers, queueSize).
     \<lparr>dp_minWorkers = minWorkers, dp_maxWorkers = maxWorkers, dp_taskQueueSize = queueSize, dp_taskQueue = [],
      dp_resultQueue = [], dp_workers = Map.empty, dp_workerID = 0, dp_goroutines = Map.empty, dp_quit = {},
      dp_cancelled = False,
      dp_loadMonitor = \<lparr>lm_cpuUsage = 0, lm_lastCPUCheck = 0, lm_cpuHistory = [], lm_maxHistorySize = 10\<rparr>,
      dp_closed = False,
      dp_config = \<lparr>dc_CPUHighThreshold = 80, dc_CPULowThreshold = 50, dc_QueueHighThreshold = 80,
        dc_ScaleUpCooldown = 30 * Second, dc_ScaleDownCooldown = 60 * Second\<rparr>,
      dp_lastScaleUp = 0, dp_lastScaleDown = 0, dp_accepted = 0, dp_handled = [], dp_abandoned = 0\<rparr>)"

definition worker_count :: "dynamic_pool \<Rightarrow> int" where
  "worker_count s = int (card (dom (dp_workers s)))"

section \<open>Workers\<close>

text \<open>The second result says that the limit was reached.\<close>

definition addWorker :: "time \<Rightarrow> dynamic_pool \<Rightarrow> dynamic_pool \<times> bool" where
  "addWorker now s =
     (if dp_maxWorkers s \<le> worker_count s then (s, False)
      else (let k = dp_workerID s + 1
            in (s\<lparr>dp_workerID := k, dp_workers := (dp_workers s)(k \<mapsto> \<lparr>dw_lastActivity = now, dw_taskCount = 0\<rparr>),
                  dp_goroutines := (dp_goroutines s)(k \<mapsto> DwIdle)\<rparr>, True)))"

fun add_workers :: "time \<Rightarrow> nat \<Rightarrow> dynamic_pool \<Rightarrow> dynamic_pool \<times> bool" where
  "add_workers now 0 s = (s, True)"
| "add_workers now (Suc n) s =
     (case addWorker now s of (s1, ok) \<Rightarrow> if ok then add_workers now n s1 else (s1, False))"

definition Start_dp :: "time \<Rightarrow> dynamic_pool \<Rightarrow> dynamic_pool \<times> bool" where
  "Start_dp now s = add_workers now (nat (dp_minWorkers s)) s"

definition removeWorker :: "int \<Rightarrow> dynamic_pool \<Rightarrow> dynamic_pool" where
  "removeWorker k s = s\<lparr>dp_workers := (dp_workers s)(k := None)\<rparr>"

datatype task_outcome = TaskReturns | TaskFails string | TaskPanics string

text \<open>
  The result of \<^verbatim>\<open>executeTask\<close> is not named, so what the deferred function stores (the duration, and
  after a panic the error) is stored in a variable that is not returned: a panic gives the zero
  value.
\<close>

definition executeTask :: "int \<Rightarrow> DynamicTask \<Rightarrow> task_outcome \<Rightarrow> DynamicResult" where
  "executeTask worker task outcome =
     (case outcome of
        TaskReturns \<Rightarrow> \<lparr>dr_TaskID = dt_ID task, dr_Success = True, dr_Error = None, dr_Duration = 0, dr_WorkerID = worker\<rparr>
      | TaskFails e \<Rightarrow> \<lparr>dr_TaskID = dt_ID task, dr_Success = False, dr_Error = Some e, dr_Duration = 0, dr_WorkerID = worker\<rparr>
      | TaskPanics p \<Rightarrow> \<lparr>dr_TaskID = 0, dr_Success = False, dr_Error = None, dr_Duration = 0, dr_WorkerID = 0\<rparr>)"

section \<open>Load and scaling\<close>

definition updateCPUUsage :: "time \<Rightarrow> nat \<Rightarrow> nat \<Rightarrow> LoadMonitor \<Rightarrow> LoadMonitor" where
  "updateCPUUsage now goroutines cpuCores lm =
    (let estimated = min (real goroutines / real cpuCores * 10) 100;
         h = lm_cpuHistory lm @ [estimated]
     in lm\<lparr>lm_cpuUsage := estimated, lm_lastCPUCheck := now,
           lm_cpuHistory := (if lm_maxHistorySize lm < length h then tl h else h)\<rparr>)"

definition getAverageCPUUsage :: "LoadMonitor \<Rightarrow> real" where
  "getAverageCPUUsage lm =
     (if lm_cpuHistory lm = [] then 0 else foldl (+) 0 (lm_cpuHistory lm) / real (length (lm_cpuHistory lm)))"

text \<open>The least recently active worker, in the order of the range.\<close>

fun oldest_worker :: "(int \<rightharpoonup> DynamicWorker) \<Rightarrow> int option \<Rightarrow> int list \<Rightarrow> int option" where
  "oldest_worker ws best [] = best"
| "oldest_worker ws best (k # ks) =
     oldest_worker ws (case best of None \<Rightarrow> Some k
       | Some b \<Rightarrow> if dw_lastActivity (the (ws k)) < dw_lastActivity (the (ws b)) then Some k else Some b) ks"

text \<open>\<open>None\<close>: the channel is already closed, or there is no worker, and the program panics.\<close>

definition scaleDown :: "int list \<Rightarrow> dynamic_pool \<Rightarrow> dynamic_pool option" where
  "scaleDown order s =
     (if worker_count s \<le> dp_minWorkers s then Some s
      else (case oldest_worker (dp_workers s) None order of
              None \<Rightarrow> None
            | Some k \<Rightarrow>
                (if k \<in> dp_quit s then None
                 else Some (s\<lparr>dp_workers := (dp_workers s)(k := None), dp_quit := insert k (dp_quit s)\<rparr>))))"

text \<open>
  \<open>queueLength\<close>, \<open>average\<close> and \<open>current\<close> were read before the decision and may be stale.
\<close>

definition evaluateScaling ::
  "int list \<Rightarrow> time \<Rightarrow> nat \<Rightarrow> real \<Rightarrow> int \<Rightarrow> dynamic_pool \<Rightarrow> dynamic_pool option" where
  "evaluateScaling order now queueLength average current s =
    (let c = dp_config s; queueUtil = real queueLength / real (dp_taskQueueSize s) * 100
     in case (if dc_CPUHighThreshold c < average \<and> dp_minWorkers s < current \<and>
                 dc_ScaleDownCooldown c < time_Sub now (dp_lastScaleDown s)
              then map_option (\<lambda>s1. s1\<lparr>dp_lastScaleDown := now\<rparr>) (scaleDown order s)
              else Some s) of
          None \<Rightarrow> None
        | Some s1 \<Rightarrow>
            Some (if dc_QueueHighThreshold c < queueUtil \<and> average < dc_CPULowThreshold c \<and>
                     current < dp_maxWorkers s1 \<and> dc_ScaleUpCooldown c < time_Sub now (dp_lastScaleUp s1)
                  then (case addWorker now s1 of (s2, ok) \<Rightarrow> if ok then s2\<lparr>dp_lastScaleUp := now\<rparr> else s2)
                  else s1))"

section \<open>Tasks\<close>

datatype pool_error = PoolShuttingDown | TaskQueueFull

definition SubmitTask :: "DynamicTask \<Rightarrow> dynamic_pool \<Rightarrow> dynamic_pool \<times> pool_error option" where
  "SubmitTask task s =
     (if dp_closed s \<or> dp_cancelled s then (s, Some PoolShuttingDown)
      else if length (dp_taskQueue s) < dp_taskQueueSize s
      then (s\<lparr>dp_taskQueue := dp_taskQueue s @ [task], dp_accepted := dp_accepted s + 1\<rparr>, None)
      else (s, Some TaskQueueFull))"

definition Shutdown_dp :: "dynamic_pool \<Rightarrow> dynamic_pool" where
  "Shutdown_dp s = s\<lparr>dp_closed := True, dp_cancelled := True\<rparr>"

text \<open>The cases of the select in a worker's loop, and its exit with the deferred removal.\<close>

definition phase_to :: "int \<Rightarrow> dw_phase \<Rightarrow> dynamic_pool \<Rightarrow> dynamic_pool" where
  "phase_to k p s = s\<lparr>dp_goroutines := (dp_goroutines s)(k \<mapsto> p)\<rparr>"

definition run_take :: "int \<Rightarrow> time \<Rightarrow> dynamic_pool \<Rightarrow> dynamic_pool option" where
  "run_take k now s =
     (case dp_taskQueue s of
        [] \<Rightarrow> None
      | task # rest \<Rightarrow>
          Some (phase_to k (DwRunning task) (s\<lparr>dp_taskQueue := rest,
            dp_workers := (case dp_workers s k of None \<Rightarrow> dp_workers s
              | Some w \<Rightarrow> (dp_workers s)(k \<mapsto> \<lparr>dw_lastActivity = now, dw_taskCount = dw_taskCount w + 1\<rparr>))\<rparr>)))"

definition run_idle :: "int \<Rightarrow> dynamic_pool \<Rightarrow> dynamic_pool" where
  "run_idle k s = (if dp_minWorkers s < worker_count s then phase_to k DwLeaving s else s)"

definition run_exit :: "int \<Rightarrow> dynamic_pool \<Rightarrow> dynamic_pool" where
  "run_exit k s = (let s1 = removeWorker k s in s1\<lparr>dp_goroutines := (dp_goroutines s1)(k := None)\<rparr>)"

datatype dp_event =
  DStart time | DSubmit DynamicTask | DTake int time | DDone int task_outcome | DSend int | DIdle int | DQuit int
| DDrained int | DStopped int | DExit int | DHandle | DMonitor time nat nat | DScale "int list" time nat real int
| DShutdown

fun dp_step :: "dynamic_pool \<Rightarrow> dp_event \<Rightarrow> dynamic_pool option" where
  "dp_step s (DStart now) = Some (fst (Start_dp now s))"
| "dp_step s (DSubmit task) = Some (fst (SubmitTask task s))"
| "dp_step s (DTake k now) = (if dp_goroutines s k = Some DwIdle then run_take k now s else None)"
| "dp_step s (DDone k outcome) =
     (case dp_goroutines s k of
        Some (DwRunning task) \<Rightarrow> Some (phase_to k (DwSending (executeTask k task outcome)) s) | _ \<Rightarrow> None)"
| "dp_step s (DSend k) =
     (case dp_goroutines s k of
        Some (DwSending r) \<Rightarrow>
          (if length (dp_resultQueue s) < dp_taskQueueSize s
           then Some (phase_to k DwIdle (s\<lparr>dp_resultQueue := dp_resultQueue s @ [r]\<rparr>)) else None)
      | _ \<Rightarrow> None)"
| "dp_step s (DIdle k) = (if dp_goroutines s k = Some DwIdle then Some (run_idle k s) else None)"
| "dp_step s (DQuit k) =
     (if dp_goroutines s k = Some DwIdle \<and> k \<in> dp_quit s then Some (phase_to k DwLeaving s) else None)"
| "dp_step s (DDrained k) =
     (if dp_goroutines s k = Some DwIdle \<and> dp_closed s \<and> dp_taskQueue s = [] then Some (phase_to k DwLeaving s) else None)"
| "dp_step s (DStopped k) =
     (if dp_cancelled s
      then (case dp_goroutines s k of
              Some DwIdle \<Rightarrow> Some (phase_to k DwLeaving s)
            | Some (DwSending r) \<Rightarrow> Some (phase_to k DwLeaving (s\<lparr>dp_abandoned := dp_abandoned s + 1\<rparr>))
            | _ \<Rightarrow> None)
      else None)"
| "dp_step s (DExit k) = (if dp_goroutines s k = Some DwLeaving then Some (run_exit k s) else None)"
| "dp_step s DHandle =
     (case dp_resultQueue s of
        [] \<Rightarrow> None | r # rest \<Rightarrow> Some (s\<lparr>dp_resultQueue := rest, dp_handled := dp_handled s @ [r]\<rparr>))"
| "dp_step s (DMonitor now g c) = Some (s\<lparr>dp_loadMonitor := updateCPUUsage now g c (dp_loadMonitor s)\<rparr>)"
| "dp_step s (DScale order now queueLength average current) =
     (if set order = dom (dp_workers s) then evaluateScaling order now queueLength average current s else None)"
| "dp_step s DShutdown = Some (Shutdown_dp s)"

section \<open>Bounds and accounting\<close>

definition busy :: "dw_phase \<Rightarrow> nat" where
  "busy p = (case p of DwRunning task \<Rightarrow> 1 | DwSending r \<Rightarrow> 1 | _ \<Rightarrow> 0)"

text \<open>Of the sets of goroutines, workers and closed quit channels, and the last identifier.\<close>

definition crew_sets :: "int set \<Rightarrow> int set \<Rightarrow> int set \<Rightarrow> int \<Rightarrow> bool" where
  "crew_sets G W Q n \<longleftrightarrow> finite G \<and> W \<subseteq> G \<and> G \<subseteq> W \<union> Q \<and> Q \<inter> W = {} \<and> (\<forall>k \<in> G \<union> Q. k \<le> n)"

definition crew_ok :: "dynamic_pool \<Rightarrow> bool" where
  "crew_ok s \<longleftrightarrow> crew_sets (dom (dp_goroutines s)) (dom (dp_workers s)) (dp_quit s) (dp_workerID s) \<and>
     (0 \<le> dp_maxWorkers s \<longrightarrow> worker_count s \<le> dp_maxWorkers s)"

definition tasks_ok :: "dynamic_pool \<Rightarrow> bool" where
  "tasks_ok s \<longleftrightarrow> dp_accepted s = length (dp_taskQueue s) + map_sum busy (dp_goroutines s) + length (dp_resultQueue s) +
     length (dp_handled s) + dp_abandoned s"

definition dp_inv :: "int \<times> int \<times> nat \<Rightarrow> dynamic_pool \<Rightarrow> bool" where
  "dp_inv c s \<longleftrightarrow> (dp_minWorkers s, dp_maxWorkers s, dp_taskQueueSize s) = c \<and> crew_ok s \<and> tasks_ok s \<and>
     length (dp_taskQueue s) \<le> dp_taskQueueSize s \<and> length (dp_resultQueue s) \<le> dp_taskQueueSize s"

lemma crew_sets_new:
  "crew_sets G W Q n \<Longrightarrow> crew_sets (insert (n + 1) G) (insert (n + 1) W) Q (n + 1) \<and> n + 1 \<notin> G \<and> n + 1 \<notin> W"
  unfolding crew_sets_def by force

lemma crew_sets_quit: "crew_sets G W Q n \<Longrightarrow> k \<in> W \<Longrightarrow> crew_sets G (W - {k}) (insert k Q) n"
  unfolding crew_sets_def by blast

lemma crew_sets_exit: "crew_sets G W Q n \<Longrightarrow> crew_sets (G - {k}) (W - {k}) Q n"
  unfolding crew_sets_def by blast

lemma crew_finite: "crew_ok s \<Longrightarrow> finite (dom (dp_workers s)) \<and> finite (dom (dp_goroutines s))"
  unfolding crew_ok_def crew_sets_def by (blast intro: finite_subset)

lemma fewer_workers: "crew_ok s \<Longrightarrow> 0 \<le> dp_maxWorkers s \<Longrightarrow> int (card (dom (dp_workers s) - {k})) \<le> dp_maxWorkers s"
  using card_Diff1_le [of "dom (dp_workers s)" k] by (simp add: crew_ok_def worker_count_def)

text \<open>Frames: what \<open>crew_ok\<close> and the books read.\<close>

lemma crew_frame:
  "crew_ok s \<Longrightarrow> dp_goroutines s' = dp_goroutines s \<Longrightarrow> dom (dp_workers s') = dom (dp_workers s) \<Longrightarrow>
   dp_quit s' = dp_quit s \<Longrightarrow> dp_workerID s' = dp_workerID s \<Longrightarrow> dp_maxWorkers s' = dp_maxWorkers s \<Longrightarrow> crew_ok s'"
  by (simp add: crew_ok_def worker_count_def)

lemma crew_phase: "crew_ok s \<Longrightarrow> dp_goroutines s k \<noteq> None \<Longrightarrow> crew_ok (phase_to k p s)"
  by (simp add: crew_ok_def phase_to_def worker_count_def insert_absorb domIff)

lemma busy_phase:
  assumes "finite (dom g)" and "g k = Some p"
  shows "map_sum busy (g(k \<mapsto> q)) + busy p = map_sum busy g + busy q"
  using map_sum_upd [OF assms(1), of busy k q] map_sum_at [OF assms(1), of busy k] assms(2) by simp

lemma busy_exit:
  assumes "finite (dom g)" and "g k = Some DwLeaving"
  shows "map_sum busy (g(k := None)) = map_sum busy g"
  using map_sum_at [OF assms(1), of busy k] assms(2) by (simp add: busy_def)

lemma busy_new:
  assumes "finite (dom g)" and "g k = None"
  shows "map_sum busy (g(k \<mapsto> DwIdle)) = map_sum busy g"
proof -
  have "g(k := None) = g" using assms(2) by auto
  then show ?thesis using map_sum_upd [OF assms(1), of busy k DwIdle] by (simp add: busy_def)
qed

lemma addWorker_inv: "dp_inv c s \<Longrightarrow> dp_inv c (fst (addWorker now s))"
proof (cases "dp_maxWorkers s \<le> worker_count s")
  case True
  assume "dp_inv c s"
  then show ?thesis using True by (simp add: addWorker_def)
next
  case False
  assume s: "dp_inv c s"
  let ?k = "dp_workerID s + 1"
  have crew: "crew_ok s" using s by (simp add: dp_inv_def)
  then have "crew_sets (dom (dp_goroutines s)) (dom (dp_workers s)) (dp_quit s) (dp_workerID s)" by (simp add: crew_ok_def)
  note new = crew_sets_new [OF this]
  have fin: "finite (dom (dp_goroutines s))" "finite (dom (dp_workers s))"
    using crew crew_finite by simp_all
  define s1 where "s1 = fst (addWorker now s)"
  have s1: "dom (dp_goroutines s1) = insert ?k (dom (dp_goroutines s))" "dom (dp_workers s1) = insert ?k (dom (dp_workers s))"
    "dp_quit s1 = dp_quit s" "dp_workerID s1 = ?k" "dp_maxWorkers s1 = dp_maxWorkers s"
    using False by (simp_all add: s1_def addWorker_def Let_def)
  have "worker_count s1 = worker_count s + 1" unfolding worker_count_def s1(2) using new fin(2) by simp
  then have "crew_ok (fst (addWorker now s))"
    using new False unfolding s1_def [symmetric] crew_ok_def s1 by simp
  moreover have "tasks_ok (fst (addWorker now s))"
    using s False busy_new [OF fin(1)] new by (simp add: addWorker_def Let_def dp_inv_def tasks_ok_def domIff)
  ultimately show ?thesis using s by (simp add: addWorker_def Let_def dp_inv_def split: if_splits)
qed

lemma add_workers_inv: "dp_inv c s \<Longrightarrow> dp_inv c (fst (add_workers now n s))"
proof (induction n arbitrary: s)
  case 0
  then show ?case by simp
next
  case (Suc n)
  then show ?case using addWorker_inv [of c s now] by (cases "addWorker now s") auto
qed

lemma oldest_in: "oldest_worker ws best ks = Some k \<Longrightarrow> best = Some k \<or> k \<in> set ks"
  by (induction ks arbitrary: best) (auto split: option.splits if_splits)

lemma oldest_some: "ks \<noteq> [] \<or> best \<noteq> None \<Longrightarrow> oldest_worker ws best ks \<noteq> None"
proof (induction ks arbitrary: best)
  case Nil
  then show ?case by simp
next
  case (Cons k ks)
  show ?case unfolding oldest_worker.simps by (rule Cons.IH) (auto split: option.split)
qed

lemma scaleDown_removes:
  assumes "crew_ok s" and "set order = dom (dp_workers s)" and "0 \<le> dp_minWorkers s"
  shows "scaleDown order s = Some s \<or> (\<exists>k. k \<in> dom (dp_workers s) \<and> k \<notin> dp_quit s \<and>
    scaleDown order s = Some (s\<lparr>dp_workers := (dp_workers s)(k := None), dp_quit := insert k (dp_quit s)\<rparr>))"
proof (cases "worker_count s \<le> dp_minWorkers s")
  case True
  then show ?thesis by (simp add: scaleDown_def)
next
  case False
  then have "order \<noteq> []" using assms(2,3) by (auto simp: worker_count_def)
  then obtain k where k: "oldest_worker (dp_workers s) None order = Some k"
    using oldest_some [of order None "dp_workers s"] by auto
  then have "k \<in> dom (dp_workers s)" using oldest_in [OF k] assms(2) by simp
  moreover from this have "k \<notin> dp_quit s" using assms(1) unfolding crew_ok_def crew_sets_def by blast
  ultimately show ?thesis using k False by (auto simp: scaleDown_def)
qed

lemma scaleDown_inv:
  assumes "dp_inv c s" and "set order = dom (dp_workers s)" and "0 \<le> dp_minWorkers s" and "scaleDown order s = Some s'"
  shows "dp_inv c s'"
proof -
  have crew: "crew_ok s" using assms(1) by (simp add: dp_inv_def)
  from scaleDown_removes [OF crew assms(2,3)] assms(4)
  consider "s' = s" | k where "k \<in> dom (dp_workers s)" "k \<notin> dp_quit s"
    "s' = s\<lparr>dp_workers := (dp_workers s)(k := None), dp_quit := insert k (dp_quit s)\<rparr>" by auto
  then show ?thesis
  proof cases
    case 1
    then show ?thesis using assms(1) by simp
  next
    case 2
    have "crew_ok s'" using 2 crew crew_sets_quit [OF _ 2(1)] fewer_workers [OF crew, of k] by (auto simp: crew_ok_def worker_count_def)
    then show ?thesis using assms(1) 2(3) by (simp add: dp_inv_def tasks_ok_def)
  qed
qed

lemma exit_inv: "dp_inv c s \<Longrightarrow> dp_goroutines s k = Some DwLeaving \<Longrightarrow> dp_inv c (run_exit k s)"
proof -
  assume s: "dp_inv c s" "dp_goroutines s k = Some DwLeaving"
  have crew: "crew_ok s" using s(1) by (simp add: dp_inv_def)
  have "crew_ok (run_exit k s)"
    using crew crew_sets_exit [of _ _ _ _ k] fewer_workers [OF crew, of k]
    by (auto simp: crew_ok_def run_exit_def removeWorker_def Let_def worker_count_def)
  moreover have "tasks_ok (run_exit k s)"
    using s busy_exit [of "dp_goroutines s" k] crew_finite [OF crew]
    by (simp add: run_exit_def removeWorker_def Let_def dp_inv_def tasks_ok_def)
  ultimately show ?thesis using s(1) by (simp add: run_exit_def removeWorker_def Let_def dp_inv_def)
qed

text \<open>A goroutine changes its phase, and the books move a task accordingly.\<close>

lemma phase_inv:
  assumes "dp_inv c s" and "dp_goroutines s k = Some p" and "dp_goroutines s1 = dp_goroutines s"
    and "dom (dp_workers s1) = dom (dp_workers s)" and "dp_quit s1 = dp_quit s" and "dp_workerID s1 = dp_workerID s"
    and "(dp_minWorkers s1, dp_maxWorkers s1, dp_taskQueueSize s1) = c"
    and "dp_accepted s1 = dp_accepted s"
    and "length (dp_taskQueue s1) \<le> dp_taskQueueSize s1" and "length (dp_resultQueue s1) \<le> dp_taskQueueSize s1"
    and "length (dp_taskQueue s1) + busy q + length (dp_resultQueue s1) + length (dp_handled s1) + dp_abandoned s1 =
      length (dp_taskQueue s) + busy p + length (dp_resultQueue s) + length (dp_handled s) + dp_abandoned s"
  shows "dp_inv c (phase_to k q s1)"
proof -
  have ok: "crew_ok s" and "(dp_minWorkers s, dp_maxWorkers s, dp_taskQueueSize s) = c" using assms(1) by (simp_all add: dp_inv_def)
  with assms(7) have "dp_maxWorkers s1 = dp_maxWorkers s" by (metis prod.inject)
  then have crew: "crew_ok s1" by (rule crew_frame [OF ok assms(3-6)])
  have "map_sum busy ((dp_goroutines s)(k \<mapsto> q)) + busy p = map_sum busy (dp_goroutines s) + busy q"
    by (rule busy_phase) (use assms(2) crew_finite [OF ok] in simp_all)
  then have "tasks_ok (phase_to k q s1)"
    using assms(1,3,8,11) by (simp add: dp_inv_def tasks_ok_def phase_to_def)
  moreover have "crew_ok (phase_to k q s1)" using crew_phase [OF crew] assms(2,3) by simp
  ultimately show ?thesis using assms(7,9,10) by (simp add: dp_inv_def phase_to_def)
qed

lemma book_inv:
  assumes "dp_inv c s" and "dp_goroutines s1 = dp_goroutines s"
    and "dom (dp_workers s1) = dom (dp_workers s)" and "dp_quit s1 = dp_quit s" and "dp_workerID s1 = dp_workerID s"
    and "(dp_minWorkers s1, dp_maxWorkers s1, dp_taskQueueSize s1) = c"
    and "length (dp_taskQueue s1) \<le> dp_taskQueueSize s1" and "length (dp_resultQueue s1) \<le> dp_taskQueueSize s1"
    and "dp_accepted s1 + length (dp_taskQueue s) + length (dp_resultQueue s) + length (dp_handled s) + dp_abandoned s =
      dp_accepted s + length (dp_taskQueue s1) + length (dp_resultQueue s1) + length (dp_handled s1) + dp_abandoned s1"
  shows "dp_inv c s1"
proof -
  have ok: "crew_ok s" and "(dp_minWorkers s, dp_maxWorkers s, dp_taskQueueSize s) = c" using assms(1) by (simp_all add: dp_inv_def)
  with assms(6) have "dp_maxWorkers s1 = dp_maxWorkers s" by (metis prod.inject)
  then have "crew_ok s1" by (rule crew_frame [OF ok assms(2-5)])
  then show ?thesis using assms(1,2,6-9) by (simp add: dp_inv_def tasks_ok_def)
qed

lemma dp_step_inv:
  assumes "0 \<le> dp_minWorkers s" and "dp_inv c s" and "dp_step s e = Some s'"
  shows "dp_inv c s'"
proof (cases e)
  case (DStart now)
  then show ?thesis using assms(2,3) add_workers_inv [of c s now] by (auto simp: Start_dp_def)
next
  case (DSubmit task)
  then show ?thesis using assms(2,3)
    by (intro book_inv [OF assms(2)]) (auto simp: SubmitTask_def dp_inv_def split: if_splits)
next
  case (DTake k now)
  then obtain task rest where t: "dp_goroutines s k = Some DwIdle" "dp_taskQueue s = task # rest"
    using assms(3) by (auto simp: run_take_def split: if_splits list.splits)
  define ws where "ws = (case dp_workers s k of None \<Rightarrow> dp_workers s
      | Some w \<Rightarrow> (dp_workers s)(k \<mapsto> \<lparr>dw_lastActivity = now, dw_taskCount = dw_taskCount w + 1\<rparr>))"
  have "dom ws = dom (dp_workers s)" by (auto simp: ws_def split: option.splits)
  moreover have s': "s' = phase_to k (DwRunning task) (s\<lparr>dp_taskQueue := rest, dp_workers := ws\<rparr>)"
    using assms(3) DTake t by (simp add: run_take_def ws_def)
  ultimately show ?thesis unfolding s'
    by (intro phase_inv [OF assms(2) t(1)]) (use assms(2) t in \<open>auto simp: busy_def dp_inv_def\<close>)
next
  case (DDone k outcome)
  then obtain task where t: "dp_goroutines s k = Some (DwRunning task)"
    "s' = phase_to k (DwSending (executeTask k task outcome)) s"
    using assms(3) by (auto split: option.splits dw_phase.splits)
  show ?thesis unfolding t(2) by (intro phase_inv [OF assms(2) t(1)]) (use assms(2) in \<open>auto simp: busy_def dp_inv_def\<close>)
next
  case (DSend k)
  then obtain r where t: "dp_goroutines s k = Some (DwSending r)" "length (dp_resultQueue s) < dp_taskQueueSize s"
    "s' = phase_to k DwIdle (s\<lparr>dp_resultQueue := dp_resultQueue s @ [r]\<rparr>)"
    using assms(3) by (auto split: option.splits dw_phase.splits if_splits)
  show ?thesis unfolding t(3) by (intro phase_inv [OF assms(2) t(1)]) (use assms(2) t(2) in \<open>auto simp: busy_def dp_inv_def\<close>)
next
  case (DIdle k)
  then have t: "dp_goroutines s k = Some DwIdle" and s': "s' = phase_to k DwLeaving s \<or> s' = s"
    using assms(3) by (auto simp: run_idle_def split: if_splits)
  have "dp_inv c (phase_to k DwLeaving s)"
    by (intro phase_inv [OF assms(2) t]) (use assms(2) in \<open>auto simp: busy_def dp_inv_def\<close>)
  then show ?thesis using s' assms(2) by auto
next
  case (DQuit k)
  then have t: "dp_goroutines s k = Some DwIdle" "s' = phase_to k DwLeaving s" using assms(3) by (auto split: if_splits)
  show ?thesis unfolding t(2) by (intro phase_inv [OF assms(2) t(1)]) (use assms(2) in \<open>auto simp: busy_def dp_inv_def\<close>)
next
  case (DDrained k)
  then have t: "dp_goroutines s k = Some DwIdle" "s' = phase_to k DwLeaving s" using assms(3) by (auto split: if_splits)
  show ?thesis unfolding t(2) by (intro phase_inv [OF assms(2) t(1)]) (use assms(2) in \<open>auto simp: busy_def dp_inv_def\<close>)
next
  case (DStopped k)
  then consider "dp_goroutines s k = Some DwIdle" "s' = phase_to k DwLeaving s"
    | r where "dp_goroutines s k = Some (DwSending r)" "s' = phase_to k DwLeaving (s\<lparr>dp_abandoned := dp_abandoned s + 1\<rparr>)"
    using assms(3) by (auto split: option.splits dw_phase.splits if_splits)
  then show ?thesis
  proof cases
    case 1
    show ?thesis unfolding 1(2) by (intro phase_inv [OF assms(2) 1(1)]) (use assms(2) in \<open>auto simp: busy_def dp_inv_def\<close>)
  next
    case 2
    show ?thesis unfolding 2(2) by (intro phase_inv [OF assms(2) 2(1)]) (use assms(2) in \<open>auto simp: busy_def dp_inv_def\<close>)
  qed
next
  case (DExit k)
  then show ?thesis using assms(3) exit_inv [OF assms(2)] by (auto split: if_splits)
next
  case DHandle
  then show ?thesis using assms(2,3) by (intro book_inv [OF assms(2)]) (auto simp: dp_inv_def split: list.splits)
next
  case (DMonitor now g m)
  then show ?thesis using assms(2,3) by (intro book_inv [OF assms(2)]) (auto simp: dp_inv_def)
next
  case (DScale order now queueLength average current)
  then have o: "set order = dom (dp_workers s)" and ev: "evaluateScaling order now queueLength average current s = Some s'"
    using assms(3) by (auto split: if_splits)
  have upd: "dp_inv c (x\<lparr>dp_lastScaleUp := now\<rparr>)" "dp_inv c (x\<lparr>dp_lastScaleDown := now\<rparr>)" if "dp_inv c x" for x
    by (intro book_inv [OF that]; use that in \<open>simp add: dp_inv_def\<close>)+
  define c' where "c' = dp_config s"
  obtain s1 where p: "(if dc_CPUHighThreshold c' < average \<and> dp_minWorkers s < current \<and>
        dc_ScaleDownCooldown c' < time_Sub now (dp_lastScaleDown s)
      then map_option (\<lambda>s1. s1\<lparr>dp_lastScaleDown := now\<rparr>) (scaleDown order s) else Some s) = Some s1"
    and q: "s' = s1 \<or> s' = fst (addWorker now s1) \<or> s' = (fst (addWorker now s1))\<lparr>dp_lastScaleUp := now\<rparr>"
    using ev unfolding evaluateScaling_def Let_def c'_def [symmetric]
    by (simp split: option.splits prod.splits) (metis fst_conv)
  have "dp_inv c s1"
    using p scaleDown_inv [OF assms(2) o assms(1)] assms(2) upd(2) by (auto split: if_splits)
  then show ?thesis using q addWorker_inv [of c s1 now] upd(1) by auto
next
  case DShutdown
  then show ?thesis using assms(2,3) by (intro book_inv [OF assms(2)]) (auto simp: Shutdown_dp_def dp_inv_def)
qed

lemma dp_start: "dp_inv c (NewDynamicWorkerPool c)"
  by (cases c) (simp add: dp_inv_def NewDynamicWorkerPool_def crew_ok_def crew_sets_def tasks_ok_def worker_count_def)

interpretation dynamic_runs: step_invariant dp_step NewDynamicWorkerPool dp_inv "\<lambda>(a, b, n). 0 \<le> a"
proof
  show "case c of (a, b, n) \<Rightarrow> 0 \<le> a \<Longrightarrow> dp_inv c (NewDynamicWorkerPool c)" for c by (rule dp_start)
  show "case c of (a, b, n) \<Rightarrow> 0 \<le> a \<Longrightarrow> dp_inv c s \<Longrightarrow> dp_step s e = Some s' \<Longrightarrow> dp_inv c s'" for c s e s'
    using dp_step_inv [of s c e s'] by (auto simp: dp_inv_def)
qed

text \<open>
  C36. Under any interleaving the pool never has more workers than its maximum, every worker has a
  running goroutine, every accepted task is queued, being executed, a result on its way, handled or
  given up at the shutdown, and scaling down never closes a channel twice.
\<close>

theorem dynamic_pool_accounting:
  assumes "0 \<le> a" and "0 \<le> b" and "run_steps dp_step (NewDynamicWorkerPool (a, b, n)) es = Some s"
  shows "worker_count s \<le> b \<and> dom (dp_workers s) \<subseteq> dom (dp_goroutines s) \<and>
    dp_accepted s = length (dp_taskQueue s) + map_sum busy (dp_goroutines s) + length (dp_resultQueue s) +
      length (dp_handled s) + dp_abandoned s \<and>
    (\<forall>order. set order = dom (dp_workers s) \<longrightarrow> scaleDown order s \<noteq> None)"
proof -
  have "dp_inv (a, b, n) s" using dynamic_runs.inv_run [OF _ assms(3)] assms(1) by simp
  then have s: "crew_ok s" "tasks_ok s" "dp_minWorkers s = a" "dp_maxWorkers s = b" by (simp_all add: dp_inv_def)
  have "scaleDown order s \<noteq> None" if "set order = dom (dp_workers s)" for order
    using scaleDown_removes [OF s(1) that] s(3) assms(1) by auto
  then show ?thesis using s assms(2) by (auto simp: crew_ok_def crew_sets_def tasks_ok_def)
qed

definition two_tasks :: "dp_event list" where
  "two_tasks = [DStart 0, DSubmit \<lparr>dt_ID = 7, dt_CPUIntensive = False\<rparr>, DTake 1 5,
     DSubmit \<lparr>dt_ID = 8, dt_CPUIntensive = True\<rparr>, DDone 1 (TaskPanics ''nil map''), DSend 1, DHandle]"

lemmas dp_run_simps = NewDynamicWorkerPool_def Start_dp_def addWorker_def worker_count_def SubmitTask_def run_take_def
  phase_to_def executeTask_def run_idle_def run_exit_def removeWorker_def Let_def

lemma dynamic_pool_accounting_witness:
  "\<exists>s. run_steps dp_step (NewDynamicWorkerPool (1, 2, 4)) two_tasks = Some s \<and> worker_count s = 1 \<and> dp_accepted s = 2 \<and>
    dp_handled s = [\<lparr>dr_TaskID = 0, dr_Success = False, dr_Error = None, dr_Duration = 0, dr_WorkerID = 0\<rparr>] \<and>
    dp_accepted s = length (dp_taskQueue s) + map_sum busy (dp_goroutines s) + length (dp_resultQueue s) +
      length (dp_handled s) + dp_abandoned s"
proof -
  obtain s where s: "run_steps dp_step (NewDynamicWorkerPool (1, 2, 4)) two_tasks = Some s" "worker_count s = 1"
    "dp_accepted s = 2"
    "dp_handled s = [\<lparr>dr_TaskID = 0, dr_Success = False, dr_Error = None, dr_Duration = 0, dr_WorkerID = 0\<rparr>]"
    by (simp add: two_tasks_def dp_run_simps)
  show ?thesis using s dynamic_pool_accounting [OF _ _ s(1)] by (intro exI [of _ s]) simp
qed

text \<open>
  The minimum is not kept: with a minimum of one, two workers whose idle timers fire together
  both see two workers and both leave, and a task accepted afterwards waits with no worker.
\<close>

theorem idle_timeouts_undercut_minimum:
  "\<exists>s. run_steps dp_step (NewDynamicWorkerPool (1, 2, 4))
      [DStart 0, DScale [1] (31 * Second) 4 0 1, DIdle 1, DIdle 2, DExit 1, DExit 2,
       DSubmit \<lparr>dt_ID = 7, dt_CPUIntensive = False\<rparr>] = Some s \<and>
    dp_minWorkers s = 1 \<and> dp_workers s = Map.empty \<and> dp_goroutines s = Map.empty \<and> length (dp_taskQueue s) = 1 \<and>
    \<not> dp_cancelled s"
  by (simp add: dp_run_simps evaluateScaling_def time_Sub_def Second_def card_insert_if)

end
