(* ===== verification/TaskQueue.thy ===== *)
theory TaskQueue
  imports Prelude
begin

text \<open>
  The bounded task queue of chapter 1, \<^verbatim>\<open>ans_02/task_queue.go\<close>, which makes room for a new task by
  dropping the oldest one.  Submitters hold a read lock only, so their channel operations interleave
  with each other and with the workers; each operation is a step.  \<open>tq_accepted\<close>, \<open>tq_taken\<close> and
  \<open>tq_rejected\<close> are a history kept for the statements.  The capacity is positive: on an unbuffered
  channel a send succeeds when a worker is waiting, which is not modelled.
\<close>

section \<open>State\<close>

record Task =
  tk_ID :: int
  tk_CreatedAt :: time

text \<open>Where a submitter stands after its first send failed.\<close>

datatype submit_phase = MakeRoom Task | SendAgain Task

text \<open>A worker's goroutine: not yet counted, waiting, executing a task, returned.\<close>

datatype tq_worker = TwStarting | TwWaiting | TwRunning Task | TwReturned

record task_queue =
  tq_tasks :: "Task list"
  tq_maxQueueSize :: nat
  tq_maxWorkers :: nat
  tq_currentWorkers :: int
  tq_processedCount :: int
  tq_droppedCount :: int
  tq_isShuttingDown :: bool
  tq_cancelled :: bool
  tq_workers :: "tq_worker list"
  tq_submitters :: "submit_phase list"
  tq_accepted :: "Task list"
  tq_taken :: "(Task \<times> bool) list"
  tq_rejected :: "Task list"

definition NewTaskQueueSystem :: "nat \<times> nat \<Rightarrow> task_queue" where
  "NewTaskQueueSystem = (\<lambda>(maxQueueSize, maxWorkers).
     \<lparr>tq_tasks = [], tq_maxQueueSize = maxQueueSize, tq_maxWorkers = maxWorkers, tq_currentWorkers = 0,
      tq_processedCount = 0, tq_droppedCount = 0, tq_isShuttingDown = False, tq_cancelled = False, tq_workers = [],
      tq_submitters = [], tq_accepted = [], tq_taken = [], tq_rejected = []\<rparr>)"

definition Start_tq :: "task_queue \<Rightarrow> task_queue" where
  "Start_tq s = s\<lparr>tq_workers := tq_workers s @ replicate (tq_maxWorkers s) TwStarting\<rparr>"

section \<open>Submission\<close>

datatype submit_result = Refused | Accepted | Pending

definition has_room :: "task_queue \<Rightarrow> bool" where
  "has_room s \<longleftrightarrow> length (tq_tasks s) < tq_maxQueueSize s"

definition put :: "Task \<Rightarrow> task_queue \<Rightarrow> task_queue" where
  "put t s = s\<lparr>tq_tasks := tq_tasks s @ [t], tq_accepted := tq_accepted s @ [t]\<rparr>"

definition SubmitTask :: "Task \<Rightarrow> task_queue \<Rightarrow> task_queue \<times> submit_result" where
  "SubmitTask t s =
     (if tq_isShuttingDown s then (s, Refused)
      else if has_room s then (put t s, Accepted)
      else (s\<lparr>tq_submitters := tq_submitters s @ [MakeRoom t]\<rparr>, Pending))"

definition leave :: "nat \<Rightarrow> task_queue \<Rightarrow> task_queue" where
  "leave i s = s\<lparr>tq_submitters := take i (tq_submitters s) @ drop (Suc i) (tq_submitters s)\<rparr>"

text \<open>The next channel operation of the \<open>i\<close>-th pending submitter.\<close>

definition submit_next :: "nat \<Rightarrow> task_queue \<Rightarrow> task_queue" where
  "submit_next i s =
     (case tq_submitters s ! i of
        MakeRoom t \<Rightarrow>
          (let s1 = (case tq_tasks s of
                       [] \<Rightarrow> s
                     | old # rest \<Rightarrow> s\<lparr>tq_tasks := rest, tq_droppedCount := tq_droppedCount s + 1,
                                       tq_taken := tq_taken s @ [(old, False)]\<rparr>)
           in s1\<lparr>tq_submitters := (tq_submitters s1)[i := SendAgain t]\<rparr>)
      | SendAgain t \<Rightarrow>
          leave i (if has_room s then put t s
                   else s\<lparr>tq_droppedCount := tq_droppedCount s + 1, tq_rejected := tq_rejected s @ [t]\<rparr>))"

text \<open>\<^verbatim>\<open>Shutdown\<close> needs the write lock, so no submitter is pending.\<close>

definition Shutdown_tq :: "task_queue \<Rightarrow> task_queue \<times> bool" where
  "Shutdown_tq s = (if tq_isShuttingDown s then (s, False) else (s\<lparr>tq_isShuttingDown := True\<rparr>, True))"

section \<open>Workers\<close>

definition worker_begin :: "nat \<Rightarrow> task_queue \<Rightarrow> task_queue" where
  "worker_begin w s = s\<lparr>tq_currentWorkers := tq_currentWorkers s + 1, tq_workers := (tq_workers s)[w := TwWaiting]\<rparr>"

definition worker_take :: "nat \<Rightarrow> task_queue \<Rightarrow> task_queue option" where
  "worker_take w s =
     (case tq_tasks s of
        [] \<Rightarrow> None
      | t # rest \<Rightarrow> Some (s\<lparr>tq_tasks := rest, tq_taken := tq_taken s @ [(t, True)],
                           tq_workers := (tq_workers s)[w := TwRunning t]\<rparr>))"

definition worker_done :: "nat \<Rightarrow> task_queue \<Rightarrow> task_queue" where
  "worker_done w s = s\<lparr>tq_processedCount := tq_processedCount s + 1, tq_workers := (tq_workers s)[w := TwWaiting]\<rparr>"

definition worker_return :: "nat \<Rightarrow> task_queue \<Rightarrow> task_queue" where
  "worker_return w s = s\<lparr>tq_currentWorkers := tq_currentWorkers s - 1, tq_workers := (tq_workers s)[w := TwReturned]\<rparr>"

datatype tq_event =
  TqStart | TqSubmit Task | TqNext nat | TqShutdown | TqCancel | TqBegin nat | TqTake nat | TqDone nat | TqReturn nat

definition worker_is :: "tq_worker \<Rightarrow> nat \<Rightarrow> task_queue \<Rightarrow> bool" where
  "worker_is p w s \<longleftrightarrow> w < length (tq_workers s) \<and> tq_workers s ! w = p"

fun tq_step :: "task_queue \<Rightarrow> tq_event \<Rightarrow> task_queue option" where
  "tq_step s TqStart = Some (Start_tq s)"
| "tq_step s (TqSubmit t) = Some (fst (SubmitTask t s))"
| "tq_step s (TqNext i) = (if i < length (tq_submitters s) then Some (submit_next i s) else None)"
| "tq_step s TqShutdown = (if tq_submitters s = [] then Some (fst (Shutdown_tq s)) else None)"
| "tq_step s TqCancel = Some (s\<lparr>tq_cancelled := True\<rparr>)"
| "tq_step s (TqBegin w) = (if worker_is TwStarting w s then Some (worker_begin w s) else None)"
| "tq_step s (TqTake w) = (if worker_is TwWaiting w s then worker_take w s else None)"
| "tq_step s (TqDone w) =
     (if w < length (tq_workers s)
      then (case tq_workers s ! w of TwRunning t \<Rightarrow> Some (worker_done w s) | _ \<Rightarrow> None) else None)"
| "tq_step s (TqReturn w) =
     (if worker_is TwWaiting w s \<and> (tq_cancelled s \<or> tq_isShuttingDown s \<and> tq_tasks s = [])
      then Some (worker_return w s) else None)"

section \<open>Order and accounting\<close>

definition running :: "tq_worker \<Rightarrow> int" where
  "running p = (case p of TwRunning t \<Rightarrow> 1 | _ \<Rightarrow> 0)"

definition active :: "tq_worker \<Rightarrow> int" where
  "active p = (case p of TwRunning t \<Rightarrow> 1 | TwWaiting \<Rightarrow> 1 | _ \<Rightarrow> 0)"

definition counted :: "('a \<Rightarrow> bool) \<Rightarrow> 'a list \<Rightarrow> int" where
  "counted p xs = int (length (filter p xs))"

lemma counted_snoc [simp]: "counted p (xs @ [x]) = counted p xs + (if p x then 1 else 0)"
  by (simp add: counted_def)

lemma counted_Nil [simp]: "counted p [] = 0"
  by (simp add: counted_def)

definition tq_inv :: "nat \<times> nat \<Rightarrow> task_queue \<Rightarrow> bool" where
  "tq_inv c s \<longleftrightarrow> (tq_maxQueueSize s, tq_maxWorkers s) = c \<and> length (tq_tasks s) \<le> tq_maxQueueSize s \<and>
     tq_accepted s = map fst (tq_taken s) @ tq_tasks s \<and>
     tq_processedCount s + sum_list (map running (tq_workers s)) = counted snd (tq_taken s) \<and>
     tq_droppedCount s = counted (\<lambda>x. \<not> snd x) (tq_taken s) + int (length (tq_rejected s)) \<and>
     tq_currentWorkers s = sum_list (map active (tq_workers s))"

lemma tq_put_inv: "tq_inv c s \<Longrightarrow> has_room s \<Longrightarrow> tq_inv c (put t s)"
  by (simp add: tq_inv_def put_def has_room_def)

lemma tq_leave_inv: "tq_inv c (leave i s) = tq_inv c s"
  by (simp add: tq_inv_def leave_def)

lemma submit_next_inv:
  assumes "tq_inv c s"
  shows "tq_inv c (submit_next i s)"
proof (cases "tq_submitters s ! i")
  case (MakeRoom t)
  then show ?thesis using assms by (auto simp: submit_next_def tq_inv_def Let_def split: list.split)
next
  case (SendAgain t)
  then show ?thesis using assms tq_put_inv [OF assms]
    by (auto simp: submit_next_def tq_leave_inv) (auto simp: tq_inv_def)
qed

lemma worker_phase_sums:
  assumes "worker_is p w s"
  shows "sum_list (map running ((tq_workers s)[w := q])) = sum_list (map running (tq_workers s)) - running p + running q"
    and "sum_list (map active ((tq_workers s)[w := q])) = sum_list (map active (tq_workers s)) - active p + active q"
  using assms by (simp_all add: worker_is_def sum_upd)

lemma tq_step_inv:
  assumes "tq_inv c s" and "tq_step s e = Some s'"
  shows "tq_inv c s'"
proof (cases e)
  case TqStart
  then show ?thesis using assms
    by (auto simp: Start_tq_def tq_inv_def running_def active_def sum_list_replicate)
next
  case (TqSubmit t)
  then show ?thesis using assms tq_put_inv [OF assms(1), of t]
    by (auto simp: SubmitTask_def split: if_splits) (simp_all add: tq_inv_def)
next
  case (TqNext i)
  then show ?thesis using assms(2) submit_next_inv [OF assms(1)] by (auto split: if_splits)
next
  case TqShutdown
  then show ?thesis using assms by (auto simp: Shutdown_tq_def tq_inv_def split: if_splits)
next
  case TqCancel
  then show ?thesis using assms by (auto simp: tq_inv_def)
next
  case (TqBegin w)
  then show ?thesis using assms worker_phase_sums [of TwStarting w s TwWaiting]
    by (auto simp: worker_begin_def tq_inv_def running_def active_def split: if_splits)
next
  case (TqTake w)
  then show ?thesis using assms worker_phase_sums [of TwWaiting w s]
    by (auto simp: worker_take_def tq_inv_def running_def active_def split: if_splits list.splits)
next
  case (TqDone w)
  then obtain t where "worker_is (TwRunning t) w s" "s' = worker_done w s"
    using assms(2) by (auto simp: worker_is_def split: if_splits tq_worker.splits)
  then show ?thesis using assms(1) worker_phase_sums [of "TwRunning t" w s TwWaiting]
    by (auto simp: worker_done_def tq_inv_def running_def active_def)
next
  case (TqReturn w)
  then show ?thesis using assms worker_phase_sums [of TwWaiting w s TwReturned]
    by (auto simp: worker_return_def tq_inv_def running_def active_def split: if_splits)
qed

lemma tq_start: "tq_inv c (NewTaskQueueSystem c)"
  by (cases c) (simp add: tq_inv_def NewTaskQueueSystem_def)

interpretation task_queue_runs: step_invariant tq_step NewTaskQueueSystem tq_inv "\<lambda>_. True"
  by unfold_locales (use tq_start tq_step_inv in blast)+

text \<open>
  Under any interleaving of submitters and workers the queue holds the most recently accepted
  tasks, in their order and never more than its capacity, and every accepted task that left it was
  started or dropped, the counters telling exactly how many.
\<close>

theorem task_queue_keeps_newest:
  assumes "0 < n" and "run_steps tq_step (NewTaskQueueSystem (n, m)) es = Some s"
  shows "tq_tasks s = lastn (length (tq_tasks s)) (tq_accepted s) \<and> length (tq_tasks s) \<le> n \<and>
    int (length (tq_accepted s)) + int (length (tq_rejected s)) = int (length (tq_tasks s)) +
      sum_list (map running (tq_workers s)) + tq_processedCount s + tq_droppedCount s"
proof -
  have s: "tq_inv (n, m) s" using task_queue_runs.inv_run [OF TrueI assms(2)] .
  have "length (tq_taken s) = length (filter snd (tq_taken s)) + length (filter (\<lambda>x. \<not> snd x) (tq_taken s))"
    by (simp add: sum_length_filter_compl)
  then show ?thesis using s by (simp add: tq_inv_def counted_def lastn_def)
qed

definition four_tasks :: "tq_event list" where
  "four_tasks = (let t = (\<lambda>i. \<lparr>tk_ID = i, tk_CreatedAt = 0\<rparr>) in
     [TqStart, TqBegin 0, TqSubmit (t 1), TqTake 0, TqSubmit (t 2), TqSubmit (t 3), TqSubmit (t 4), TqNext 0, TqNext 0])"

lemma task_queue_keeps_newest_witness:
  "\<exists>s. run_steps tq_step (NewTaskQueueSystem (2, 1)) four_tasks = Some s \<and> map tk_ID (tq_tasks s) = [3, 4] \<and>
    tq_tasks s = lastn 2 (tq_accepted s) \<and> tq_droppedCount s = 1"
proof -
  obtain s where s: "run_steps tq_step (NewTaskQueueSystem (2, 1)) four_tasks = Some s" "map tk_ID (tq_tasks s) = [3, 4]"
    "length (tq_tasks s) = 2" "tq_droppedCount s = 1"
    by (simp add: four_tasks_def NewTaskQueueSystem_def Start_tq_def worker_is_def worker_begin_def SubmitTask_def
        has_room_def put_def worker_take_def submit_next_def leave_def Let_def)
  show ?thesis using s task_queue_keeps_newest [OF _ s(1)] by (intro exI [of _ s]) simp
qed

end
