(* ===== verification/BatchProcessing.thy ===== *)
theory BatchProcessing
  imports Prelude
begin

text \<open>
  The batch processor of chapter 5, \<^verbatim>\<open>03_batch_processing/batch_processing.go\<close>: records are cut
  into chunks, each chunk is processed by a goroutine of its own in a transaction with retries, a
  semaphore bounds how many run, and the progress counts records.

  The database is not in the source: what beginning a transaction, the processing function and the
  commit answer is an argument of an attempt.  A commit that answers an error may have taken effect all
  the same (a lost connection), which is an argument too.  A chunk's goroutine is a phase in a list; the
  sections between its blocking points are steps.  \<open>bt_committed\<close> lists the chunks whose transaction
  took effect, in order, and \<open>bt_ambiguous\<close> those of them whose commit answered an error; both are
  histories kept for the statements.  A record is of any type with a validation function.
\<close>

section \<open>Records and chunks\<close>

record ProductRecord =
  pr_ID :: int
  pr_Name :: string
  pr_Price :: real
  pr_CategoryID :: int

definition Validate_product :: "ProductRecord \<Rightarrow> string option" where
  "Validate_product p =
     (if pr_Name p = [] then Some ''product name is required''
      else if pr_Price p < 0 then Some ''product price must be non-negative''
      else if pr_CategoryID p \<le> 0 then Some ''category ID must be positive''
      else None)"

text \<open>\<^verbatim>\<open>slices.Chunk\<close> panics for a size below one.\<close>

definition createChunks :: "int \<Rightarrow> 'r list \<Rightarrow> 'r list list option" where
  "createChunks chunkSize xs = (if chunkSize < 1 then None else Some (chunks_of (nat chunkSize) xs))"

section \<open>One attempt\<close>

datatype batch_error =
  BeginFailed string | ValidationFailed string | ProcessFailed string | CommitFailed string
| AttemptsExhausted int "batch_error option" | ContextEnded

datatype process_answer = Processed | ProcessError string | ProcessPanic

record attempt_answer =
  aa_begin :: "string option"
  aa_process :: process_answer
  aa_commit :: "string option"
  aa_took_effect :: bool

definition first_invalid :: "('r \<Rightarrow> string option) \<Rightarrow> 'r list \<Rightarrow> string option" where
  "first_invalid validate chunk = (case filter (\<lambda>r. validate r \<noteq> None) chunk of [] \<Rightarrow> None | r # _ \<Rightarrow> validate r)"

text \<open>
  The error, if any, and whether the transaction took effect.  \<open>None\<close>: the processing function
  panicked; the transaction is rolled back and the panic goes on.
\<close>

definition executeSingleChunk :: "('r \<Rightarrow> string option) \<Rightarrow> 'r list \<Rightarrow> attempt_answer \<Rightarrow> (batch_error option \<times> bool) option" where
  "executeSingleChunk validate chunk a =
     (case aa_begin a of
        Some e \<Rightarrow> Some (Some (BeginFailed e), False)
      | None \<Rightarrow>
          (case first_invalid validate chunk of
             Some e \<Rightarrow> Some (Some (ValidationFailed e), False)
           | None \<Rightarrow>
               (case aa_process a of
                  ProcessPanic \<Rightarrow> None
                | ProcessError e \<Rightarrow> Some (Some (ProcessFailed e), False)
                | Processed \<Rightarrow>
                    (case aa_commit a of
                       Some e \<Rightarrow> Some (Some (CommitFailed e), aa_took_effect a)
                     | None \<Rightarrow> Some (None, True)))))"

section \<open>The processor\<close>

record BatchConfig =
  bc_ChunkSize :: int
  bc_Concurrency :: nat
  bc_BatchTimeout :: duration
  bc_RetryAttempts :: int

record BatchProgress =
  bp_TotalRecords :: int
  bp_ProcessedRecords :: int
  bp_SuccessRecords :: int
  bp_FailedRecords :: int
  bp_StartTime :: time
  bp_LastUpdateTime :: time
  bp_EstimatedEndTime :: time
  bp_CurrentThroughput :: real

record BatchStats =
  bs_totalBatches :: int
  bs_completedBatches :: int
  bs_failedBatches :: int
  bs_totalRetries :: int
  bs_avgBatchTime :: duration
  bs_maxBatchTime :: duration
  bs_minBatchTime :: duration

text \<open>
  A chunk's goroutine: before the semaphore, before its next attempt, in the delay before a retry,
  with its result before the statistics, returned.
\<close>

datatype chunk_phase =
  ChunkWaits | ChunkTries nat time | ChunkDelays nat time | ChunkEnds "batch_error option" time
| ChunkReturned "batch_error option"

record 'r batch =
  bt_config :: BatchConfig
  bt_progress :: BatchProgress
  bt_stats :: BatchStats
  bt_chunks :: "'r list list"
  bt_phases :: "chunk_phase list"
  bt_cancelled :: bool
  bt_committed :: "nat list"
  bt_ambiguous :: "nat list"

definition NewBatchStats :: BatchStats where
  "NewBatchStats = \<lparr>bs_totalBatches = 0, bs_completedBatches = 0, bs_failedBatches = 0, bs_totalRetries = 0,
     bs_avgBatchTime = 0, bs_maxBatchTime = 0, bs_minBatchTime = Hour\<rparr>"

text \<open>The first part of \<^verbatim>\<open>ProcessBatch\<close>, up to the start of the goroutines.\<close>

definition ProcessBatch_begin :: "time \<Rightarrow> BatchConfig \<Rightarrow> BatchProgress \<Rightarrow> BatchStats \<Rightarrow> 'r list \<Rightarrow> 'r batch option" where
  "ProcessBatch_begin now cfg p st records =
     map_option (\<lambda>chunks. \<lparr>bt_config = cfg,
         bt_progress = p\<lparr>bp_TotalRecords := int (length records), bp_ProcessedRecords := 0, bp_SuccessRecords := 0,
           bp_FailedRecords := 0, bp_StartTime := now, bp_LastUpdateTime := now\<rparr>,
         bt_stats = st, bt_chunks = chunks, bt_phases = replicate (length chunks) ChunkWaits,
         bt_cancelled = False, bt_committed = [], bt_ambiguous = []\<rparr>)
       (createChunks (bc_ChunkSize cfg) records)"

definition go_trunc :: "real \<Rightarrow> int" where
  "go_trunc x = (if 0 \<le> x then \<lfloor>x\<rfloor> else \<lceil>x\<rceil>)"

definition updateProgress :: "time \<Rightarrow> int \<Rightarrow> int \<Rightarrow> BatchProgress \<Rightarrow> BatchProgress" where
  "updateProgress now success failed p =
    (let ok = bp_SuccessRecords p + success; bad = bp_FailedRecords p + failed; n = ok + bad;
         elapsed = real_of_int (time_Sub now (bp_StartTime p)) / real_of_int Second;
         rate = (if 0 < elapsed then real_of_int n / elapsed else bp_CurrentThroughput p)
     in p\<lparr>bp_SuccessRecords := ok, bp_FailedRecords := bad, bp_ProcessedRecords := n, bp_LastUpdateTime := now,
          bp_CurrentThroughput := rate,
          bp_EstimatedEndTime := (if 0 < rate
             then now + go_trunc (real_of_int (bp_TotalRecords p - n) / rate) * Second else bp_EstimatedEndTime p)\<rparr>)"

definition updateBatchStats :: "duration \<Rightarrow> bool \<Rightarrow> BatchStats \<Rightarrow> BatchStats" where
  "updateBatchStats elapsed success st =
     st\<lparr>bs_completedBatches := bs_completedBatches st + (if success then 1 else 0),
        bs_failedBatches := bs_failedBatches st + (if success then 0 else 1),
        bs_maxBatchTime := max (bs_maxBatchTime st) elapsed, bs_minBatchTime := min (bs_minBatchTime st) elapsed,
        bs_avgBatchTime := (if bs_totalBatches st = 1 then elapsed
           else go_div (bs_avgBatchTime st * (bs_totalBatches st - 1) + elapsed) (bs_totalBatches st))\<rparr>"

definition holds_slot :: "chunk_phase \<Rightarrow> bool" where
  "holds_slot p = (case p of ChunkWaits \<Rightarrow> False | ChunkReturned r \<Rightarrow> False | _ \<Rightarrow> True)"

definition set_phase :: "nat \<Rightarrow> chunk_phase \<Rightarrow> 'r batch \<Rightarrow> 'r batch" where
  "set_phase i p b = b\<lparr>bt_phases := (bt_phases b)[i := p]\<rparr>"

definition chunk_len :: "'r batch \<Rightarrow> nat \<Rightarrow> int" where
  "chunk_len b i = int (length (bt_chunks b ! i))"

text \<open>
  The loop of \<^verbatim>\<open>executeWithRetry\<close> at attempt \<open>k\<close>: another attempt, or the failure of all.
\<close>

definition next_try :: "time \<Rightarrow> time \<Rightarrow> nat \<Rightarrow> nat \<Rightarrow> batch_error option \<Rightarrow> 'r batch \<Rightarrow> 'r batch" where
  "next_try now started i k err b =
    (let n = bc_RetryAttempts (bt_config b) + 1
     in if int k < n
        then (if k = 0 then set_phase i (ChunkTries k started) b
              else set_phase i (ChunkDelays k started)
                     (b\<lparr>bt_stats := (bt_stats b)\<lparr>bs_totalRetries := bs_totalRetries (bt_stats b) + 1\<rparr>\<rparr>))
        else set_phase i (ChunkEnds (Some (AttemptsExhausted n err)) started)
               (b\<lparr>bt_progress := updateProgress now 0 (chunk_len b i) (bt_progress b)\<rparr>))"

text \<open>The semaphore is acquired and \<^verbatim>\<open>processChunk\<close> begins.\<close>

definition acquire :: "nat \<Rightarrow> time \<Rightarrow> 'r batch \<Rightarrow> 'r batch option" where
  "acquire i now b =
     (if length (filter holds_slot (bt_phases b)) < bc_Concurrency (bt_config b)
      then Some (next_try now now i 0 None
             (b\<lparr>bt_stats := (bt_stats b)\<lparr>bs_totalBatches := bs_totalBatches (bt_stats b) + 1\<rparr>\<rparr>))
      else None)"

definition note_commit :: "nat \<Rightarrow> batch_error option \<Rightarrow> bool \<Rightarrow> 'r batch \<Rightarrow> 'r batch" where
  "note_commit i err effect b =
     b\<lparr>bt_committed := bt_committed b @ (if effect then [i] else []),
       bt_ambiguous := bt_ambiguous b @ (if effect \<and> err \<noteq> None then [i] else [])\<rparr>"

definition try_chunk ::
  "('r \<Rightarrow> string option) \<Rightarrow> nat \<Rightarrow> time \<Rightarrow> nat \<Rightarrow> time \<Rightarrow> attempt_answer \<Rightarrow> 'r batch \<Rightarrow> 'r batch option" where
  "try_chunk validate i now k started a b =
     (case executeSingleChunk validate (bt_chunks b ! i) a of
        None \<Rightarrow> None
      | Some (err, effect) \<Rightarrow>
          (let b1 = note_commit i err effect b
           in Some (case err of
                None \<Rightarrow> set_phase i (ChunkEnds None started)
                  (b1\<lparr>bt_progress := updateProgress now (chunk_len b i) 0 (bt_progress b1)\<rparr>)
              | Some e \<Rightarrow> next_try now started i (k + 1) (Some e) b1)))"

definition finish_chunk :: "nat \<Rightarrow> time \<Rightarrow> batch_error option \<Rightarrow> time \<Rightarrow> 'r batch \<Rightarrow> 'r batch" where
  "finish_chunk i now err started b =
     set_phase i (ChunkReturned err) (b\<lparr>bt_stats := updateBatchStats (time_Sub now started) (err = None) (bt_stats b)\<rparr>)"

text \<open>The chunk's context: the caller's, with a deadline when a timeout is configured.\<close>

definition chunk_ended :: "time \<Rightarrow> time \<Rightarrow> 'r batch \<Rightarrow> bool" where
  "chunk_ended now started b \<longleftrightarrow> bt_cancelled b \<or>
     0 < bc_BatchTimeout (bt_config b) \<and> started + bc_BatchTimeout (bt_config b) \<le> now"

datatype batch_event =
  BAcquire nat time | BTry nat time attempt_answer | BElapsed nat | BStopped nat time | BFinish nat time | BCancel

fun batch_step :: "('r \<Rightarrow> string option) \<Rightarrow> 'r batch \<Rightarrow> batch_event \<Rightarrow> 'r batch option" where
  "batch_step v b (BAcquire i now) =
     (if i < length (bt_phases b) \<and> bt_phases b ! i = ChunkWaits then acquire i now b else None)"
| "batch_step v b (BTry i now a) =
     (if i < length (bt_phases b)
      then (case bt_phases b ! i of ChunkTries k started \<Rightarrow> try_chunk v i now k started a b | _ \<Rightarrow> None) else None)"
| "batch_step v b (BElapsed i) =
     (if i < length (bt_phases b)
      then (case bt_phases b ! i of ChunkDelays k started \<Rightarrow> Some (set_phase i (ChunkTries k started) b) | _ \<Rightarrow> None)
      else None)"
| "batch_step v b (BStopped i now) =
     (if i < length (bt_phases b)
      then (case bt_phases b ! i of
              ChunkDelays k started \<Rightarrow>
                (if chunk_ended now started b
                 then Some (set_phase i (ChunkEnds (Some ContextEnded) started) b) else None)
            | _ \<Rightarrow> None)
      else None)"
| "batch_step v b (BFinish i now) =
     (if i < length (bt_phases b)
      then (case bt_phases b ! i of ChunkEnds err started \<Rightarrow> Some (finish_chunk i now err started b) | _ \<Rightarrow> None) else None)"
| "batch_step v b BCancel = Some (b\<lparr>bt_cancelled := True\<rparr>)"

text \<open>The end of \<^verbatim>\<open>ProcessBatch\<close>: the errors, once every goroutine has returned.\<close>

definition ProcessBatch_end :: "'r batch \<Rightarrow> batch_error list option" where
  "ProcessBatch_end b =
     (if list_all (\<lambda>p. case p of ChunkReturned r \<Rightarrow> True | _ \<Rightarrow> False) (bt_phases b)
      then Some (concat (map (\<lambda>p. case p of ChunkReturned (Some e) \<Rightarrow> [e] | _ \<Rightarrow> []) (bt_phases b)))
      else None)"

section \<open>Bulk insert\<close>

text \<open>What the calls on the database answer, in the order of the source; the inserted rows.\<close>

record copy_answer =
  ca_begin :: "string option"
  ca_prepare :: "string option"
  ca_rows :: "string option list"
  ca_flush :: "string option"
  ca_close :: "string option"
  ca_commit :: "string option"
  ca_took_effect :: bool

fun first_error :: "string option list \<Rightarrow> string option" where
  "first_error [] = None"
| "first_error (Some e # xs) = Some e"
| "first_error (None # xs) = first_error xs"

text \<open>The error, and the rows that the transaction added to the table.\<close>

definition BulkInsertProducts :: "copy_answer \<Rightarrow> ProductRecord list \<Rightarrow> string option \<times> ProductRecord list" where
  "BulkInsertProducts a products =
     (case first_error (map Validate_product products) of
        Some e \<Rightarrow> (Some e, [])
      | None \<Rightarrow>
          (case first_error ([ca_begin a, ca_prepare a] @ take (length products) (ca_rows a) @ [ca_flush a, ca_close a]) of
             Some e \<Rightarrow> (Some e, [])
           | None \<Rightarrow>
               (case ca_commit a of
                  Some e \<Rightarrow> (Some e, if ca_took_effect a then products else [])
                | None \<Rightarrow> (None, products))))"

lemma first_error_None: "first_error es = None \<longleftrightarrow> (\<forall>e \<in> set es. e = None)"
  by (induction es rule: first_error.induct) auto

text \<open>A bulk insert adds all products or none; without an error all, and all of them are valid.\<close>

lemma bulk_insert_all_or_nothing:
  "snd (BulkInsertProducts a products) \<in> {[], products} \<and>
   (fst (BulkInsertProducts a products) = None \<longrightarrow>
      snd (BulkInsertProducts a products) = products \<and> (\<forall>p \<in> set products. Validate_product p = None))"
  using first_error_None [of "map Validate_product products"] by (auto simp: BulkInsertProducts_def split: option.splits)

section \<open>Chunks\<close>

text \<open>
  Chunking is lossless: the chunks, put together again, are the records; no chunk is empty or
  larger than the chunk size, and there are as many as the size requires.
\<close>

theorem chunking_roundtrip:
  assumes "createChunks n xs = Some chunks"
  shows "concat chunks = xs \<and> list_all (\<lambda>c. 1 \<le> length c \<and> int (length c) \<le> n) chunks \<and>
    int (length chunks) = (int (length xs) + n - 1) div n"
proof -
  have n: "0 < nat n" "chunks = chunks_of (nat n) xs" using assms by (auto simp: createChunks_def split: if_splits)
  have "int (length chunks) = int ((length xs + nat n - 1) div nat n)" using number_of_chunks [OF n(1), of xs] n(2) by simp
  also have "\<dots> = (int (length xs) + n - 1) div n" using n(1) by (simp add: zdiv_int of_nat_diff)
  finally have len: "int (length chunks) = (int (length xs) + n - 1) div n" .
  have "1 \<le> length c \<and> int (length c) \<le> n" if "c \<in> set chunks" for c
    using chunk_sizes [of c "nat n" xs] that n by (auto simp: le_nat_iff)
  then show ?thesis using n(2) concat_chunks [OF n(1), of xs] len by (simp add: list_all_iff)
qed

lemma chunking_roundtrip_witness:
  "concat [[1, 2], [3, 4], [5::nat]] = [1, 2, 3, 4, 5] \<and>
   list_all (\<lambda>c. 1 \<le> length c \<and> int (length c) \<le> 2) [[1, 2], [3, 4], [5::nat]]"
proof -
  have "createChunks 2 [1, 2, 3, 4, 5::nat] = Some [[1, 2], [3, 4], [5]]"
    by (simp add: createChunks_def chunks_of_next)
  from chunking_roundtrip [OF this] show ?thesis by simp
qed

section \<open>Accounting\<close>

definition ok_phase :: "chunk_phase \<Rightarrow> bool" where
  "ok_phase p = (case p of ChunkEnds None t \<Rightarrow> True | ChunkReturned None \<Rightarrow> True | _ \<Rightarrow> False)"

definition exhausted :: "batch_error option \<Rightarrow> bool" where
  "exhausted r = (case r of Some (AttemptsExhausted n e) \<Rightarrow> True | _ \<Rightarrow> False)"

definition bad_phase :: "chunk_phase \<Rightarrow> bool" where
  "bad_phase p = (case p of ChunkEnds r t \<Rightarrow> exhausted r | ChunkReturned r \<Rightarrow> exhausted r | _ \<Rightarrow> False)"

text \<open>The records of the chunks whose phase satisfies a predicate.\<close>

definition records_in :: "(chunk_phase \<Rightarrow> bool) \<Rightarrow> 'r batch \<Rightarrow> int" where
  "records_in q b = (\<Sum>i < length (bt_phases b). if q (bt_phases b ! i) then chunk_len b i else 0)"

text \<open>
  How often a chunk was committed: once if it succeeded, and once for every ambiguous commit, of which
  there are no more than attempts made.
\<close>

definition tries_ok :: "int \<Rightarrow> int \<Rightarrow> chunk_phase \<Rightarrow> bool" where
  "tries_ok n m p =
     (case p of ChunkWaits \<Rightarrow> m = 0 | ChunkTries k t \<Rightarrow> m \<le> int k \<and> int k < n | ChunkDelays k t \<Rightarrow> m \<le> int k \<and> int k < n
      | ChunkEnds r t \<Rightarrow> if r = None then m < n else m \<le> max 0 n
      | ChunkReturned r \<Rightarrow> if r = None then m < n else m \<le> max 0 n)"

definition commits_ok :: "BatchConfig \<Rightarrow> 'r batch \<Rightarrow> bool" where
  "commits_ok cfg b \<longleftrightarrow> (\<forall>i.
     count_list (bt_committed b) i =
       (if i < length (bt_phases b) \<and> ok_phase (bt_phases b ! i) then 1 else 0) + count_list (bt_ambiguous b) i \<and>
     (if i < length (bt_phases b) then tries_ok (bc_RetryAttempts cfg + 1) (int (count_list (bt_ambiguous b) i)) (bt_phases b ! i)
      else count_list (bt_ambiguous b) i = 0))"

definition progress_ok :: "BatchConfig \<Rightarrow> 'r list list \<Rightarrow> 'r batch \<Rightarrow> bool" where
  "progress_ok cfg chunks b \<longleftrightarrow> bt_config b = cfg \<and> bt_chunks b = chunks \<and> length (bt_phases b) = length chunks \<and>
     length (filter holds_slot (bt_phases b)) \<le> bc_Concurrency cfg \<and>
     bp_TotalRecords (bt_progress b) = int (length (concat chunks)) \<and>
     bp_SuccessRecords (bt_progress b) = records_in ok_phase b \<and> bp_FailedRecords (bt_progress b) = records_in bad_phase b \<and>
     bp_ProcessedRecords (bt_progress b) = records_in ok_phase b + records_in bad_phase b"

definition batch_inv :: "BatchConfig \<Rightarrow> 'r list list \<Rightarrow> 'r batch \<Rightarrow> bool" where
  "batch_inv cfg chunks b \<longleftrightarrow> progress_ok cfg chunks b \<and> commits_ok cfg b"

lemma records_in_update:
  assumes "i < length (bt_phases b)" and "bt_phases b' = (bt_phases b)[i := p]" and "bt_chunks b' = bt_chunks b"
  shows "records_in q b' = records_in q b - (if q (bt_phases b ! i) then chunk_len b i else 0) +
    (if q p then chunk_len b i else 0)"
proof -
  have "chunk_len b' = chunk_len b" by (simp add: fun_eq_iff chunk_len_def assms(3))
  then show ?thesis
    using sum_index_update [OF assms(1), of "\<lambda>p j. if q p then chunk_len b j else 0" p]
    unfolding records_in_def assms(2) length_list_update by (simp only:)
qed

lemma records_in_frame:
  "bt_phases b' = bt_phases b \<Longrightarrow> bt_chunks b' = bt_chunks b \<Longrightarrow> records_in q b' = records_in q b"
proof -
  assume e: "bt_phases b' = bt_phases b" "bt_chunks b' = bt_chunks b"
  then have "chunk_len b' = chunk_len b" by (simp add: fun_eq_iff chunk_len_def)
  then show ?thesis unfolding records_in_def e(1) by (simp only:)
qed

lemmas phase_simps = ok_phase_def bad_phase_def exhausted_def holds_slot_def

text \<open>One goroutine moves: the progress, and the commits.\<close>

lemma progress_move:
  assumes "progress_ok cfg chunks b" and "i < length (bt_phases b)" and "bt_phases b ! i = old"
    and "bt_phases b' = (bt_phases b)[i := p]" and "bt_config b' = bt_config b" and "bt_chunks b' = bt_chunks b"
    and "bp_TotalRecords (bt_progress b') = bp_TotalRecords (bt_progress b)"
    and "bp_SuccessRecords (bt_progress b') = bp_SuccessRecords (bt_progress b) + (if ok_phase p \<and> \<not> ok_phase old then chunk_len b i else 0)"
    and "bp_FailedRecords (bt_progress b') = bp_FailedRecords (bt_progress b) + (if bad_phase p \<and> \<not> bad_phase old then chunk_len b i else 0)"
    and "bp_ProcessedRecords (bt_progress b') = bp_SuccessRecords (bt_progress b') + bp_FailedRecords (bt_progress b')"
    and "ok_phase old \<longrightarrow> ok_phase p" and "bad_phase old \<longrightarrow> bad_phase p"
    and "holds_slot p \<and> \<not> holds_slot old \<longrightarrow> length (filter holds_slot (bt_phases b)) < bc_Concurrency cfg"
  shows "progress_ok cfg chunks b'"
proof -
  have r: "records_in ok_phase b' = records_in ok_phase b - (if ok_phase old then chunk_len b i else 0) + (if ok_phase p then chunk_len b i else 0)"
    "records_in bad_phase b' = records_in bad_phase b - (if bad_phase old then chunk_len b i else 0) + (if bad_phase p then chunk_len b i else 0)"
    using records_in_update [OF assms(2,4,6)] assms(3) by simp_all
  have "length (filter holds_slot (bt_phases b')) \<le> bc_Concurrency cfg"
    using length_filter_update [OF assms(2), of holds_slot p] assms(1,3,13) unfolding assms(4) progress_ok_def by (auto split: if_splits)
  then show ?thesis
    using assms(1,5-12) r by (auto simp: progress_ok_def assms(4))
qed

lemma commits_move:
  assumes "commits_ok cfg b" and "i < length (bt_phases b)" and "bt_phases b ! i = old"
    and "bt_phases b' = (bt_phases b)[i := p]" and "bt_committed b' = bt_committed b @ (if c then [i] else [])"
    and "bt_ambiguous b' = bt_ambiguous b @ (if d then [i] else [])"
    and "(if c then 1 else 0) + (if ok_phase old then 1 else 0) = (if ok_phase p then 1 else 0 :: nat) + (if d then 1 else 0)"
    and "tries_ok (bc_RetryAttempts cfg + 1) (int (count_list (bt_ambiguous b) i) + (if d then 1 else 0)) p"
  shows "commits_ok cfg b'"
  unfolding commits_ok_def
proof
  fix j
  note c = assms(1) [unfolded commits_ok_def, rule_format]
  show "count_list (bt_committed b') j =
      (if j < length (bt_phases b') \<and> ok_phase (bt_phases b' ! j) then 1 else 0) + count_list (bt_ambiguous b') j \<and>
    (if j < length (bt_phases b') then tries_ok (bc_RetryAttempts cfg + 1) (int (count_list (bt_ambiguous b') j)) (bt_phases b' ! j)
     else count_list (bt_ambiguous b') j = 0)"
  proof (cases "j = i")
    case True
    then show ?thesis using c [of i] assms(2-8) by (auto simp: algebra_simps split: if_splits)
  next
    case False
    then show ?thesis using c [of j] assms(4-6) by simp
  qed
qed

lemma commits_tries: "commits_ok cfg b \<Longrightarrow> i < length (bt_phases b) \<Longrightarrow>
  tries_ok (bc_RetryAttempts cfg + 1) (int (count_list (bt_ambiguous b) i)) (bt_phases b ! i)"
  by (auto simp: commits_ok_def)

lemma commits_bound:
  assumes "commits_ok cfg b"
  shows "int (count_list (bt_committed b) i) \<le> max 0 (bc_RetryAttempts cfg + 1)"
proof (cases "i < length (bt_phases b)")
  case True
  have "count_list (bt_committed b) i = (if ok_phase (bt_phases b ! i) then 1 else 0) + count_list (bt_ambiguous b) i"
    using assms True by (simp add: commits_ok_def)
  then show ?thesis using commits_tries [OF assms True] by (auto simp: tries_ok_def phase_simps split: chunk_phase.splits option.splits if_splits)
next
  case False
  then show ?thesis using assms by (simp add: commits_ok_def)
qed

text \<open>The commits are the successes and the ambiguous ones.\<close>

lemma commits_mset:
  assumes "commits_ok cfg b"
  shows "mset (bt_committed b) = mset (filter (\<lambda>i. ok_phase (bt_phases b ! i)) [0..<length (bt_phases b)]) + mset (bt_ambiguous b)"
proof (rule multiset_eqI)
  fix i
  let ?xs = "filter (\<lambda>i. ok_phase (bt_phases b ! i)) [0..<length (bt_phases b)]"
  have "count (mset ?xs) i = (if i < length (bt_phases b) \<and> ok_phase (bt_phases b ! i) then 1 else 0)"
    using distinct_count_atmost_1 [of ?xs] by (auto split: if_splits)
  then show "count (mset (bt_committed b)) i = count (mset ?xs + mset (bt_ambiguous b)) i"
    using assms by (simp add: commits_ok_def count_mset)
qed

lemma updateProgress_counts [simp]:
  "bp_TotalRecords (updateProgress now x y p) = bp_TotalRecords p"
  "bp_SuccessRecords (updateProgress now x y p) = bp_SuccessRecords p + x"
  "bp_FailedRecords (updateProgress now x y p) = bp_FailedRecords p + y"
  "bp_ProcessedRecords (updateProgress now x y p) = bp_SuccessRecords p + x + (bp_FailedRecords p + y)"
  by (simp_all add: updateProgress_def Let_def)

lemma inv_processed: "progress_ok cfg chunks b \<Longrightarrow>
  bp_ProcessedRecords (bt_progress b) = bp_SuccessRecords (bt_progress b) + bp_FailedRecords (bt_progress b)"
  by (simp add: progress_ok_def)

lemma progress_frame:
  assumes "bt_config b' = bt_config b" "bt_chunks b' = bt_chunks b" "bt_phases b' = bt_phases b" "bt_progress b' = bt_progress b"
  shows "progress_ok cfg chunks b' = progress_ok cfg chunks b"
  using assms records_in_frame [OF assms(3,2)] by (simp add: progress_ok_def)

lemma commits_frame:
  "bt_phases b' = bt_phases b \<Longrightarrow> bt_committed b' = bt_committed b \<Longrightarrow> bt_ambiguous b' = bt_ambiguous b \<Longrightarrow> commits_ok cfg b' = commits_ok cfg b"
  by (simp add: commits_ok_def)

lemma next_try_progress:
  assumes "progress_ok cfg chunks b" and "i < length (bt_phases b)"
    and "bt_phases b ! i = ChunkWaits \<and> length (filter holds_slot (bt_phases b)) < bc_Concurrency cfg \<or>
      (\<exists>k t. bt_phases b ! i = ChunkTries k t)"
  shows "progress_ok cfg chunks (next_try now started i k err b)"
proof -
  have old: "\<not> ok_phase (bt_phases b ! i)" "\<not> bad_phase (bt_phases b ! i)"
    "\<not> holds_slot (bt_phases b ! i) \<longrightarrow> length (filter holds_slot (bt_phases b)) < bc_Concurrency cfg"
    using assms(3) by (auto simp: phase_simps)
  show ?thesis
    by (rule progress_move [OF assms(1,2) refl, where p = "bt_phases (next_try now started i k err b) ! i"])
      (use assms(2) old inv_processed [OF assms(1)] in \<open>auto simp: next_try_def set_phase_def Let_def phase_simps\<close>)
qed

text \<open>A chunk goes on after its first \<open>k\<close> attempts, the last of which may have been an ambiguous commit.\<close>

lemma next_try_commits:
  assumes "commits_ok cfg b" and "i < length (bt_phases b)" and "\<not> ok_phase (bt_phases b ! i)"
    and "bt_config b1 = cfg" and "bt_phases b1 = bt_phases b" and "bt_committed b1 = bt_committed b @ (if d then [i] else [])"
    and "bt_ambiguous b1 = bt_ambiguous b @ (if d then [i] else [])"
    and "int (count_list (bt_ambiguous b) i) + (if d then 1 else 0) \<le> int k" and "int k \<le> max 0 (bc_RetryAttempts cfg + 1)"
  shows "commits_ok cfg (next_try now started i k err b1)"
proof -
  let ?b' = "next_try now started i k err b1"
  define p where "p = bt_phases ?b' ! i"
  have ps: "bt_phases ?b' = (bt_phases b)[i := p]" and cs: "bt_committed ?b' = bt_committed b1" "bt_ambiguous ?b' = bt_ambiguous b1"
    using assms(2,5) by (simp_all add: p_def next_try_def set_phase_def Let_def)
  have p: "p = (if int k < bc_RetryAttempts cfg + 1 then if k = 0 then ChunkTries k started else ChunkDelays k started
      else ChunkEnds (Some (AttemptsExhausted (bc_RetryAttempts cfg + 1) err)) started)"
    using assms(2,4,5) by (simp add: p_def next_try_def set_phase_def Let_def)
  have "\<not> ok_phase p" by (simp add: p ok_phase_def)
  moreover have "tries_ok (bc_RetryAttempts cfg + 1) (int (count_list (bt_ambiguous b) i) + (if d then 1 else 0)) p"
    using assms(8,9) by (simp add: p tries_ok_def)
  ultimately show ?thesis using assms(3,6,7)
    by (intro commits_move [OF assms(1,2) refl ps, where c = d and d = d]) (simp_all add: cs)
qed

lemma try_chunk_inv:
  assumes "batch_inv cfg chunks b" and "i < length (bt_phases b)" and "bt_phases b ! i = ChunkTries k started"
    and "try_chunk v i now k started a b = Some b'"
  shows "batch_inv cfg chunks b'"
proof -
  obtain err effect where x: "executeSingleChunk v (bt_chunks b ! i) a = Some (err, effect)"
    using assms(4) by (auto simp: try_chunk_def split: option.splits)
  have ok: "err = None \<Longrightarrow> effect"
    using x by (auto simp: executeSingleChunk_def split: option.splits process_answer.splits)
  define b1 where "b1 = note_commit i err effect b"
  have f: "bt_config b1 = bt_config b" "bt_chunks b1 = bt_chunks b" "bt_phases b1 = bt_phases b" "bt_progress b1 = bt_progress b"
    "bt_committed b1 = bt_committed b @ (if effect then [i] else [])"
    "bt_ambiguous b1 = bt_ambiguous b @ (if effect \<and> err \<noteq> None then [i] else [])"
    by (simp_all add: b1_def note_commit_def)
  have pr: "progress_ok cfg chunks b1" using assms(1) progress_frame [OF f(1-4)] by (simp add: batch_inv_def)
  have co: "commits_ok cfg b" and cfg: "bt_config b = cfg" using assms(1) by (simp_all add: batch_inv_def progress_ok_def)
  have t: "int (count_list (bt_ambiguous b) i) \<le> int k" "int k < bc_RetryAttempts cfg + 1"
    using commits_tries [OF co assms(2)] assms(3) by (simp_all add: tries_ok_def)
  show ?thesis
  proof (cases err)
    case None
    let ?p = "ChunkEnds None started"
    have e: "b' = set_phase i ?p (b1\<lparr>bt_progress := updateProgress now (chunk_len b i) 0 (bt_progress b1)\<rparr>)"
      using assms(4) x None by (simp add: try_chunk_def Let_def b1_def)
    have "progress_ok cfg chunks b'" unfolding e using assms(2,3) f
      by (intro progress_move [OF pr, of i _ _ ?p]) (auto simp: set_phase_def phase_simps chunk_len_def)
    moreover have "commits_ok cfg b'" unfolding e using assms(2,3) f ok None t
      by (intro commits_move [OF co, of i _ _ ?p True False]) (auto simp: set_phase_def phase_simps tries_ok_def)
    ultimately show ?thesis by (simp add: batch_inv_def)
  next
    case (Some er)
    then have e: "b' = next_try now started i (k + 1) (Some er) b1" using assms(4) x by (simp add: try_chunk_def Let_def b1_def)
    have "progress_ok cfg chunks b'" unfolding e using assms(2,3) f by (intro next_try_progress [OF pr]) simp_all
    moreover have "commits_ok cfg b'" unfolding e using assms(2,3) f t Some cfg
      by (intro next_try_commits [OF co, where d = effect]) (simp_all add: ok_phase_def)
    ultimately show ?thesis by (simp add: batch_inv_def)
  qed
qed

text \<open>A goroutine that moves on without an attempt: neither progress nor commits change.\<close>

lemma idle_move_inv:
  assumes "batch_inv cfg chunks b" and "i < length (bt_phases b)" and "bt_phases b' = (bt_phases b)[i := p]"
    and "bt_config b' = bt_config b" "bt_chunks b' = bt_chunks b" "bt_progress b' = bt_progress b" "bt_committed b' = bt_committed b"
      "bt_ambiguous b' = bt_ambiguous b"
    and "ok_phase p = ok_phase (bt_phases b ! i)" and "bad_phase p = bad_phase (bt_phases b ! i)"
    and "holds_slot p \<longrightarrow> holds_slot (bt_phases b ! i)" and "\<And>n m. tries_ok n m (bt_phases b ! i) \<Longrightarrow> tries_ok n m p"
  shows "batch_inv cfg chunks b'"
proof -
  have i: "progress_ok cfg chunks b" "commits_ok cfg b" using assms(1) by (simp_all add: batch_inv_def)
  have "progress_ok cfg chunks b'"
    using assms(4-6,9-11) inv_processed [OF i(1)] by (intro progress_move [OF i(1) assms(2) refl assms(3)]) auto
  moreover have "commits_ok cfg b'" using assms(7-9,12) commits_tries [OF i(2) assms(2)]
    by (intro commits_move [OF i(2) assms(2) refl assms(3), of False False]) simp_all
  ultimately show ?thesis by (simp add: batch_inv_def)
qed

lemma batch_step_inv:
  assumes "batch_inv cfg chunks b" and "batch_step v b e = Some b'"
  shows "batch_inv cfg chunks b'"
proof (cases e)
  case (BAcquire i now)
  let ?b1 = "b\<lparr>bt_stats := (bt_stats b)\<lparr>bs_totalBatches := bs_totalBatches (bt_stats b) + 1\<rparr>\<rparr>"
  have i: "i < length (bt_phases b)" "bt_phases b ! i = ChunkWaits"
    and room: "length (filter holds_slot (bt_phases b)) < bc_Concurrency (bt_config b)" and b': "b' = next_try now now i 0 None ?b1"
    using assms(2) BAcquire by (auto simp: acquire_def split: if_splits)
  have inv: "progress_ok cfg chunks b" "commits_ok cfg b" and cfg: "bt_config b = cfg"
    using assms(1) by (simp_all add: batch_inv_def progress_ok_def)
  have "progress_ok cfg chunks ?b1 = progress_ok cfg chunks b" by (rule progress_frame) simp_all
  then have "progress_ok cfg chunks b'" unfolding b' using inv(1) i room cfg by (intro next_try_progress) simp_all
  moreover have "int (count_list (bt_ambiguous b) i) = 0" using commits_tries [OF inv(2) i(1)] i(2) by (simp add: tries_ok_def)
  then have "commits_ok cfg b'" unfolding b' using inv(2) i cfg
    by (intro next_try_commits [where b = b and d = False]) (simp_all add: ok_phase_def)
  ultimately show ?thesis by (simp add: batch_inv_def)
next
  case (BTry i now a)
  then obtain k started where "i < length (bt_phases b)" "bt_phases b ! i = ChunkTries k started" "try_chunk v i now k started a b = Some b'"
    using assms(2) by (auto split: if_splits chunk_phase.splits)
  then show ?thesis using try_chunk_inv [OF assms(1)] by blast
next
  case (BElapsed i)
  then obtain k started where i: "i < length (bt_phases b)" "bt_phases b ! i = ChunkDelays k started"
    and b': "b' = set_phase i (ChunkTries k started) b"
    using assms(2) by (auto split: if_splits chunk_phase.splits)
  show ?thesis unfolding b'
    by (rule idle_move_inv [OF assms(1) i(1), where p = "ChunkTries k started"]) (simp_all add: i set_phase_def phase_simps tries_ok_def)
next
  case (BStopped i now)
  then obtain k started where i: "i < length (bt_phases b)" "bt_phases b ! i = ChunkDelays k started"
    and b': "b' = set_phase i (ChunkEnds (Some ContextEnded) started) b"
    using assms(2) by (auto split: if_splits chunk_phase.splits)
  show ?thesis unfolding b'
    by (rule idle_move_inv [OF assms(1) i(1), where p = "ChunkEnds (Some ContextEnded) started"])
      (simp_all add: i set_phase_def phase_simps tries_ok_def)
next
  case (BFinish i now)
  then obtain err started where i: "i < length (bt_phases b)" "bt_phases b ! i = ChunkEnds err started"
    and b': "b' = finish_chunk i now err started b"
    using assms(2) by (auto split: if_splits chunk_phase.splits)
  show ?thesis unfolding b'
    by (rule idle_move_inv [OF assms(1) i(1), where p = "ChunkReturned err"])
      (simp_all add: i finish_chunk_def set_phase_def phase_simps tries_ok_def)
next
  case BCancel
  then have "b' = b\<lparr>bt_cancelled := True\<rparr>" using assms(2) by simp
  then show ?thesis using assms(1) progress_frame [of b' b] commits_frame [of b' b] by (simp add: batch_inv_def)
qed

lemma batch_begin_inv:
  assumes "ProcessBatch_begin now cfg p st records = Some b"
  shows "batch_inv cfg (chunks_of (nat (bc_ChunkSize cfg)) records) b \<and> concat (bt_chunks b) = records"
proof -
  let ?cs = "chunks_of (nat (bc_ChunkSize cfg)) records"
  have n: "0 < nat (bc_ChunkSize cfg)" and b: "bt_phases b = replicate (length ?cs) ChunkWaits" "bt_chunks b = ?cs"
    "bt_config b = cfg" "bt_committed b = []" "bt_ambiguous b = []" "bp_TotalRecords (bt_progress b) = int (length records)"
    "bp_SuccessRecords (bt_progress b) = 0" "bp_FailedRecords (bt_progress b) = 0" "bp_ProcessedRecords (bt_progress b) = 0"
    using assms by (auto simp: ProcessBatch_begin_def createChunks_def split: if_splits)
  have "records_in q b = 0" if "\<not> q ChunkWaits" for q
    using that by (simp add: records_in_def b(1))
  then show ?thesis using b concat_chunks [OF n, of records]
    by (simp add: batch_inv_def progress_ok_def commits_ok_def tries_ok_def phase_simps)
qed

definition batch_init :: "time \<times> BatchConfig \<times> BatchProgress \<times> BatchStats \<times> 'r list \<Rightarrow> 'r batch" where
  "batch_init = (\<lambda>(now, cfg, p, st, records). the (ProcessBatch_begin now cfg p st records))"

definition batch_good :: "time \<times> BatchConfig \<times> BatchProgress \<times> BatchStats \<times> 'r list \<Rightarrow> bool" where
  "batch_good = (\<lambda>(now, cfg, p, st, records). 1 \<le> bc_ChunkSize cfg)"

definition batch_ok :: "time \<times> BatchConfig \<times> BatchProgress \<times> BatchStats \<times> 'r list \<Rightarrow> 'r batch \<Rightarrow> bool" where
  "batch_ok = (\<lambda>(now, cfg, p, st, records). batch_inv cfg (chunks_of (nat (bc_ChunkSize cfg)) records))"

interpretation batch_runs: step_invariant "batch_step v" batch_init batch_ok batch_good for v
proof
  fix c :: "time \<times> BatchConfig \<times> BatchProgress \<times> BatchStats \<times> 'a list"
  assume "batch_good c"
  moreover obtain now cfg p st records where c: "c = (now, cfg, p, st, records)" by (cases c)
  ultimately obtain b where b: "ProcessBatch_begin now cfg p st records = Some b"
    by (auto simp: batch_good_def ProcessBatch_begin_def createChunks_def)
  show "batch_ok c (batch_init c)" using batch_begin_inv [OF b] b by (simp add: c batch_ok_def batch_init_def)
next
  fix c :: "time \<times> BatchConfig \<times> BatchProgress \<times> BatchStats \<times> 'a list" and b b' e
  show "batch_ok c b \<Longrightarrow> batch_step v b e = Some b' \<Longrightarrow> batch_ok c b'"
    using batch_step_inv by (cases c) (fastforce simp: batch_ok_def)
qed

lemma batch_run_inv:
  assumes "ProcessBatch_begin now cfg p st records = Some b0" and "run_steps (batch_step v) b0 es = Some b"
  shows "batch_inv cfg (chunks_of (nat (bc_ChunkSize cfg)) records) b"
proof -
  have "batch_init (now, cfg, p, st, records) = b0" "batch_good (now, cfg, p, st, records)"
    using assms(1) by (auto simp: batch_init_def batch_good_def ProcessBatch_begin_def createChunks_def split: if_splits)
  then have "batch_ok (now, cfg, p, st, records) b" using batch_runs.inv_run assms(2) by blast
  then show ?thesis by (simp add: batch_ok_def)
qed

lemma records_sum:
  assumes "progress_ok cfg chunks b"
  shows "records_in ok_phase b = sum_list (map (chunk_len b) (filter (\<lambda>i. ok_phase (bt_phases b ! i)) [0..<length (bt_phases b)]))"
  by (simp add: records_in_def sum_list_map_filter' interv_sum_list_conv_sum_set_nat atLeast0LessThan)

lemma count_distinct: "(\<And>x. count_list xs x \<le> 1) \<Longrightarrow> distinct xs"
proof (induction xs)
  case (Cons y ys)
  have "count_list ys x \<le> 1" for x using Cons.prems [of x] by (simp split: if_splits)
  moreover have "count_list ys y = 0" using Cons.prems [of y] by simp
  ultimately show ?case using Cons.IH by (simp add: count_list_0_iff)
qed simp

text \<open>
  C15. Under any interleaving, with any answers of the database, a chunk is committed once for its
  success, and besides that exactly as often as a commit of it took effect although it answered an error
  (\<^verbatim>\<open>executeWithRetry\<close> runs the chunk again then), in all at most as often as attempts are allowed;
  without such commits none is committed twice.  At most \<open>Concurrency\<close> chunks are in progress.  The
  progress counts the records of the chunks that succeeded, which is what was committed less what the
  ambiguous commits added, and as failures those of the chunks whose attempts are used up.
\<close>

theorem batch_commits_accounted:
  assumes "ProcessBatch_begin now cfg p st records = Some b0" and "run_steps (batch_step v) b0 es = Some b"
  shows "(\<forall>i. count_list (bt_committed b) i =
        (if i < length (bt_phases b) \<and> ok_phase (bt_phases b ! i) then 1 else 0) + count_list (bt_ambiguous b) i \<and>
      int (count_list (bt_committed b) i) \<le> max 0 (bc_RetryAttempts cfg + 1)) \<and>
    (bt_ambiguous b = [] \<longrightarrow> distinct (bt_committed b)) \<and>
    length (filter holds_slot (bt_phases b)) \<le> bc_Concurrency cfg \<and>
    bp_SuccessRecords (bt_progress b) = records_in ok_phase b \<and>
    bp_SuccessRecords (bt_progress b) + sum_list (map (chunk_len b) (bt_ambiguous b)) = sum_list (map (chunk_len b) (bt_committed b)) \<and>
    bp_FailedRecords (bt_progress b) = records_in bad_phase b \<and>
    bp_ProcessedRecords (bt_progress b) = bp_SuccessRecords (bt_progress b) + bp_FailedRecords (bt_progress b)"
proof -
  have i: "progress_ok cfg (chunks_of (nat (bc_ChunkSize cfg)) records) b" "commits_ok cfg b"
    using batch_run_inv [OF assms] by (simp_all add: batch_inv_def)
  let ?ok = "filter (\<lambda>i. ok_phase (bt_phases b ! i)) [0..<length (bt_phases b)]"
  have "mset (map (chunk_len b) (bt_committed b)) = mset (map (chunk_len b) (?ok @ bt_ambiguous b))"
    using commits_mset [OF i(2)] by simp
  then have "sum_list (map (chunk_len b) (bt_committed b)) = sum_list (map (chunk_len b) (?ok @ bt_ambiguous b))"
    by (metis sum_mset_sum_list)
  then have s: "records_in ok_phase b + sum_list (map (chunk_len b) (bt_ambiguous b)) = sum_list (map (chunk_len b) (bt_committed b))"
    using records_sum [OF i(1)] by simp
  have c: "count_list (bt_committed b) j =
      (if j < length (bt_phases b) \<and> ok_phase (bt_phases b ! j) then 1 else 0) + count_list (bt_ambiguous b) j" for j
    using i(2) by (simp add: commits_ok_def)
  have "distinct (bt_committed b)" if "bt_ambiguous b = []" by (rule count_distinct) (simp add: c that)
  then show ?thesis using i(1) c commits_bound [OF i(2)] s by (simp add: progress_ok_def)
qed

lemma mset_concat_cong: "mset xs = mset ys \<Longrightarrow> mset (concat xs) = mset (concat ys)"
  by (metis mset_concat mset_map sum_mset_sum_list)

text \<open>
  A batch that reports no error has committed every record, each once but for the ambiguous commits, and
  counts all of them as successes.
\<close>

theorem batch_success_commits_all:
  assumes "ProcessBatch_begin now cfg p st records = Some b0" and "run_steps (batch_step v) b0 es = Some b"
    and "ProcessBatch_end b = Some []"
  shows "mset (concat (map ((!) (bt_chunks b)) (bt_committed b))) =
      mset records + mset (concat (map ((!) (bt_chunks b)) (bt_ambiguous b))) \<and>
    bp_SuccessRecords (bt_progress b) = int (length records) \<and> bp_FailedRecords (bt_progress b) = 0"
proof -
  let ?cs = "chunks_of (nat (bc_ChunkSize cfg)) records"
  have i: "progress_ok cfg ?cs b" "commits_ok cfg b" using batch_run_inv [OF assms(1,2)] by (simp_all add: batch_inv_def)
  have n: "0 < nat (bc_ChunkSize cfg)" using assms(1) by (auto simp: ProcessBatch_begin_def createChunks_def split: if_splits)
  have ret: "\<forall>p \<in> set (bt_phases b). p = ChunkReturned None"
  proof
    fix p
    assume p: "p \<in> set (bt_phases b)"
    have "list_all (\<lambda>p. case p of ChunkReturned r \<Rightarrow> True | _ \<Rightarrow> False) (bt_phases b)"
      using assms(3) by (simp add: ProcessBatch_end_def split: if_splits)
    then obtain r where r: "p = ChunkReturned r" using p by (cases p) (auto simp: list_all_iff)
    have "(case p of ChunkReturned (Some e) \<Rightarrow> [e] | _ \<Rightarrow> []) = []"
      using assms(3) p by (auto simp: ProcessBatch_end_def split: if_splits)
    then show "p = ChunkReturned None" using r by (auto split: option.splits)
  qed
  then have all: "ok_phase (bt_phases b ! j)" "\<not> bad_phase (bt_phases b ! j)" if "j < length (bt_phases b)" for j
  proof -
    have "bt_phases b ! j = ChunkReturned None" using ret nth_mem [OF that] by blast
    then show "ok_phase (bt_phases b ! j)" "\<not> bad_phase (bt_phases b ! j)" by (simp_all add: phase_simps)
  qed
  have cs: "bt_chunks b = ?cs" "length (bt_phases b) = length ?cs" using i(1) by (simp_all add: progress_ok_def)
  have "filter (\<lambda>j. ok_phase (bt_phases b ! j)) [0..<length (bt_phases b)] = [0..<length ?cs]"
    using all(1) cs(2) by (simp add: filter_id_conv)
  then have "mset (bt_committed b) = mset ([0..<length ?cs] @ bt_ambiguous b)" using commits_mset [OF i(2)] by simp
  then have "mset (map ((!) ?cs) (bt_committed b)) = mset (map ((!) ?cs) ([0..<length ?cs] @ bt_ambiguous b))" by (simp only: mset_map)
  then have "mset (concat (map ((!) ?cs) (bt_committed b))) = mset (concat (?cs @ map ((!) ?cs) (bt_ambiguous b)))"
    unfolding map_append map_nth by (rule mset_concat_cong)
  moreover have "records_in bad_phase b = 0" using all(2) by (simp add: records_in_def)
  moreover have "records_in ok_phase b = int (length (concat ?cs))"
  proof -
    have "records_in ok_phase b = (\<Sum>j < length ?cs. int (length (?cs ! j)))"
      using all(1) by (simp add: records_in_def cs chunk_len_def)
    also have "\<dots> = int (length (concat ?cs))"
      by (simp add: length_concat sum_list_sum_nth atLeast0LessThan)
    finally show ?thesis .
  qed
  ultimately show ?thesis using i(1) concat_chunks [OF n, of records] by (simp add: progress_ok_def cs(1))
qed

section \<open>A run\<close>

definition sample_product :: "int \<Rightarrow> ProductRecord" where
  "sample_product i = \<lparr>pr_ID = i, pr_Name = ''p'', pr_Price = 1, pr_CategoryID = 1\<rparr>"

definition sample_batch :: "ProductRecord batch option" where
  "sample_batch = ProcessBatch_begin 0 \<lparr>bc_ChunkSize = 2, bc_Concurrency = 1, bc_BatchTimeout = 0, bc_RetryAttempts = 1\<rparr>
     \<lparr>bp_TotalRecords = 0, bp_ProcessedRecords = 0, bp_SuccessRecords = 0, bp_FailedRecords = 0, bp_StartTime = 0,
      bp_LastUpdateTime = 0, bp_EstimatedEndTime = 0, bp_CurrentThroughput = 0\<rparr> NewBatchStats (map sample_product [1, 2, 3])"

definition good_answer :: attempt_answer where
  "good_answer = \<lparr>aa_begin = None, aa_process = Processed, aa_commit = None, aa_took_effect = False\<rparr>"

definition sample_batch_run :: "bool \<Rightarrow> batch_event list" where
  "sample_batch_run effect = [BAcquire 1 1, BTry 1 2 good_answer, BFinish 1 3, BAcquire 0 4,
     BTry 0 5 (good_answer\<lparr>aa_commit := Some ''conn'', aa_took_effect := effect\<rparr>), BElapsed 0, BTry 0 6 good_answer, BFinish 0 7]"

lemmas batch_run_simps = sample_batch_def sample_batch_run_def ProcessBatch_begin_def createChunks_def chunks_of_next
  acquire_def next_try_def set_phase_def try_chunk_def note_commit_def executeSingleChunk_def first_invalid_def Validate_product_def
  sample_product_def good_answer_def finish_chunk_def holds_slot_def NewBatchStats_def Let_def

lemma sample_batch_result:
  "\<exists>b0 b. sample_batch = Some b0 \<and> run_steps (batch_step Validate_product) b0 (sample_batch_run effect) = Some b \<and>
     ProcessBatch_end b = Some [] \<and> bt_committed b = (if effect then [1, 0, 0] else [1, 0]) \<and>
     bt_ambiguous b = (if effect then [0] else []) \<and> bs_totalRetries (bt_stats b) = 1"
  by (cases effect) (simp_all add: batch_run_simps ProcessBatch_end_def updateBatchStats_def)

lemma batch_commits_accounted_witness:
  "\<exists>b0 b. sample_batch = Some b0 \<and> run_steps (batch_step Validate_product) b0 (sample_batch_run False) = Some b \<and>
     bt_committed b = [1, 0] \<and> bp_SuccessRecords (bt_progress b) = sum_list (map (chunk_len b) (bt_committed b))"
proof -
  obtain b0 b where b: "sample_batch = Some b0" "run_steps (batch_step Validate_product) b0 (sample_batch_run False) = Some b"
    "bt_committed b = [1, 0]" "bt_ambiguous b = []"
    using sample_batch_result [of False] by auto
  have "bp_SuccessRecords (bt_progress b) + sum_list (map (chunk_len b) (bt_ambiguous b)) = sum_list (map (chunk_len b) (bt_committed b))"
    using batch_commits_accounted [OF b(1) [unfolded sample_batch_def] b(2)] by blast
  then show ?thesis using b by auto
qed

text \<open>
  A commit that took effect although it answered an error: the first chunk is committed twice, the batch
  reports no error, and its two records are counted once.
\<close>

theorem ambiguous_commit_repeats:
  "\<exists>b0 b. sample_batch = Some b0 \<and> run_steps (batch_step Validate_product) b0 (sample_batch_run True) = Some b \<and>
     bt_committed b = [1, 0, 0] \<and> ProcessBatch_end b = Some [] \<and> bp_SuccessRecords (bt_progress b) = 3"
  by (simp add: batch_run_simps ProcessBatch_end_def updateBatchStats_def chunk_len_def)

lemma batch_success_commits_all_witness:
  "\<exists>b0 b. sample_batch = Some b0 \<and> run_steps (batch_step Validate_product) b0 (sample_batch_run False) = Some b \<and>
     bp_SuccessRecords (bt_progress b) = 3"
proof -
  obtain b0 b where b: "sample_batch = Some b0" "run_steps (batch_step Validate_product) b0 (sample_batch_run False) = Some b"
    "ProcessBatch_end b = Some []"
    using sample_batch_result [of False] by blast
  show ?thesis using b batch_success_commits_all [OF b(1) [unfolded sample_batch_def] b(2,3)] by auto
qed

end
