(* ===== verification/BulkMigration.thy ===== *)
theory BulkMigration
  imports Prelude "HOL-Library.List_Lexorder" "HOL-Library.Char_ord" "HOL-Library.AList"
begin

text \<open>
  The bulk migration of chapter 5, \<^verbatim>\<open>ans_03/bulk_migration.go\<close>: the rows of a source table are copied
  to a target table in chunks of the identifier range, by goroutines behind a semaphore; a table of
  chunks records what is finished, so that a run after a crash does the rest.

  Tables are values of the model and the SQL statements of the source are functions on them; whether
  a statement fails is an argument, and so is whether a commit that answers an error took effect.
  A goroutine's \<^verbatim>\<open>processChunk\<close> is cut at its calls on the database, so that a crash, or another
  goroutine, can come between any two.  The text of the statement of \<^verbatim>\<open>buildUpsert\<close> is kept as its
  parts: columns, updated columns, placeholder numbers and arguments.
\<close>

section \<open>Tables\<close>

datatype sql_value =
  SqlNull | SqlInt64 int | SqlFloat64 real | SqlBool bool | SqlBytes string | SqlText string | SqlTime time

text \<open>A \<^verbatim>\<open>map[string]any\<close> of the source; a row of the target table.\<close>

type_synonym sql_record = "(string \<times> sql_value) list"
type_synonym target_table = "int \<rightharpoonup> (string \<rightharpoonup> sql_value)"

record source_table =
  so_columns :: "string list"
  so_rows :: "sql_value list list"

definition scan_row :: "string list \<Rightarrow> sql_value list \<Rightarrow> sql_record" where
  "scan_row columns vs = fold (\<lambda>(c, v) r. AList.update c v r) (zip columns vs) []"

definition field_of :: "sql_record \<Rightarrow> string \<Rightarrow> sql_value" where
  "field_of r c = (case map_of r c of Some v \<Rightarrow> v | None \<Rightarrow> SqlNull)"

definition record_id :: "sql_record \<Rightarrow> int option" where
  "record_id r = (case map_of r ''id'' of Some (SqlInt64 i) \<Rightarrow> Some i | _ \<Rightarrow> None)"

definition source_records :: "source_table \<Rightarrow> sql_record list" where
  "source_records src = map (scan_row (so_columns src)) (so_rows src)"

definition source_ids :: "source_table \<Rightarrow> int list" where
  "source_ids src = concat (map (\<lambda>r. case record_id r of Some i \<Rightarrow> [i] | None \<Rightarrow> []) (source_records src))"

definition select_range :: "source_table \<Rightarrow> int \<Rightarrow> int \<Rightarrow> sql_record list" where
  "select_range src a b = sort_key (\<lambda>r. the (record_id r))
     (filter (\<lambda>r. case record_id r of Some i \<Rightarrow> a \<le> i \<and> i \<le> b | None \<Rightarrow> False) (source_records src))"

section \<open>The plan\<close>

datatype ChunkStatus = ChunkPending | ChunkProcessing | ChunkCompleted | ChunkFailed

record ChunkInfo =
  ci_ID :: int
  ci_StartID :: int
  ci_EndID :: int
  ci_RecordCount :: int
  ci_Status :: ChunkStatus
  ci_StartTime :: "time option"
  ci_EndTime :: "time option"
  ci_ErrorMsg :: string

datatype mig_error = MigPanic | MigFailed string

definition new_chunk :: "int \<Rightarrow> int \<Rightarrow> int \<Rightarrow> ChunkInfo" where
  "new_chunk k a b = \<lparr>ci_ID = k, ci_StartID = a, ci_EndID = b, ci_RecordCount = 0, ci_Status = ChunkPending,
     ci_StartTime = None, ci_EndTime = None, ci_ErrorMsg = ''''\<rparr>"

text \<open>The loop over the identifier range in 64-bit arithmetic; \<open>None\<close>: it does not end.\<close>

partial_function (option) plan_from :: "int \<Rightarrow> int \<Rightarrow> int \<Rightarrow> int \<Rightarrow> ChunkInfo list option" where
  "plan_from step maxID startID chunkID =
     (if startID \<le> maxID
      then Option.bind (plan_from step maxID (wrap64 (startID + step)) (chunkID + 1))
             (\<lambda>chunks. Some (new_chunk chunkID startID (min (wrap64 (startID + step - 1)) maxID) # chunks))
      else Some [])"

definition optimized_size :: "int \<Rightarrow> int \<Rightarrow> int" where
  "optimized_size chunkSize totalRecords =
     (if 0 < totalRecords \<and> 1000 < go_div totalRecords chunkSize then go_div totalRecords 1000 else chunkSize)"

definition getIDRange :: "source_table \<Rightarrow> string option \<Rightarrow> string + int \<times> int" where
  "getIDRange src answer =
     (case answer of Some e \<Rightarrow> Inl e | None \<Rightarrow> Inr (Min (set (source_ids src)), Max (set (source_ids src))))"

definition getTotalRecordCount :: "source_table \<Rightarrow> string option \<Rightarrow> string + int" where
  "getTotalRecordCount src answer = (case answer of Some e \<Rightarrow> Inl e | None \<Rightarrow> Inr (int (length (so_rows src))))"

text \<open>A chunk size of zero divides by zero.\<close>

definition createChunkPlan ::
  "int \<Rightarrow> source_table \<Rightarrow> string option \<Rightarrow> int \<Rightarrow> (mig_error + ChunkInfo list) option" where
  "createChunkPlan chunkSize src answer totalRecords =
     (if totalRecords = 0 then Some (Inr [])
      else (case getIDRange src answer of
              Inl e \<Rightarrow> Some (Inl (MigFailed e))
            | Inr (minID, maxID) \<Rightarrow>
                (if 0 < totalRecords \<and> chunkSize = 0 then Some (Inl MigPanic)
                 else map_option Inr (plan_from (optimized_size chunkSize totalRecords) maxID minID 0))))"

section \<open>The table of chunks\<close>

definition has_chunk :: "int \<Rightarrow> ChunkInfo list \<Rightarrow> bool" where
  "has_chunk k table \<longleftrightarrow> k \<in> ci_ID ` set table"

definition insert_chunk :: "ChunkInfo \<Rightarrow> ChunkInfo list \<Rightarrow> ChunkInfo list" where
  "insert_chunk c table = (if has_chunk (ci_ID c) table then table else table @ [c])"

fun saveChunkPlan :: "ChunkInfo list \<Rightarrow> string option list \<Rightarrow> ChunkInfo list \<Rightarrow> string option \<times> ChunkInfo list" where
  "saveChunkPlan [] answers table = (None, table)"
| "saveChunkPlan (c # cs) (Some e # answers) table = (Some e, table)"
| "saveChunkPlan (c # cs) (None # answers) table = saveChunkPlan cs answers (insert_chunk c table)"
| "saveChunkPlan (c # cs) [] table = saveChunkPlan cs [] (insert_chunk c table)"

definition loaded :: "ChunkInfo \<Rightarrow> ChunkInfo" where
  "loaded c = c\<lparr>ci_RecordCount := 0, ci_StartTime := None, ci_EndTime := None\<rparr>"

definition loadChunkPlan :: "string option \<Rightarrow> ChunkInfo list \<Rightarrow> string + ChunkInfo list" where
  "loadChunkPlan answer table =
     (case answer of Some e \<Rightarrow> Inl e | None \<Rightarrow> Inr (map loaded (sort_key ci_ID table)))"

definition filterPendingChunks :: "ChunkInfo list \<Rightarrow> ChunkInfo list" where
  "filterPendingChunks chunks = filter (\<lambda>c. ci_Status c \<noteq> ChunkCompleted) chunks"

definition overwrite_chunk :: "ChunkInfo \<Rightarrow> ChunkInfo \<Rightarrow> ChunkInfo" where
  "overwrite_chunk c old = old\<lparr>ci_RecordCount := ci_RecordCount c, ci_Status := ci_Status c,
     ci_ErrorMsg := ci_ErrorMsg c, ci_StartTime := ci_StartTime c, ci_EndTime := ci_EndTime c\<rparr>"

text \<open>An error is only logged by every caller.\<close>

definition updateChunkStatus :: "string option \<Rightarrow> ChunkInfo \<Rightarrow> ChunkInfo list \<Rightarrow> ChunkInfo list" where
  "updateChunkStatus answer c table =
     (case answer of
        Some e \<Rightarrow> table
      | None \<Rightarrow> (if has_chunk (ci_ID c) table
                 then map (\<lambda>old. if ci_ID old = ci_ID c then overwrite_chunk c old else old) table
                 else table @ [c]))"

section \<open>Reading and writing rows\<close>

definition getChunkData :: "source_table \<Rightarrow> int \<Rightarrow> int \<Rightarrow> string option \<Rightarrow> string + sql_record list" where
  "getChunkData src startID endID answer =
     (case answer of Some e \<Rightarrow> Inl e | None \<Rightarrow> Inr (select_range src startID endID))"

record upsert =
  up_columns :: "string list"
  up_updates :: "string list"
  up_rows :: "nat list list"
  up_args :: "sql_value list"

fun build_row :: "string list \<Rightarrow> sql_record \<Rightarrow> sql_value list \<Rightarrow> nat list \<times> sql_value list" where
  "build_row [] r args = ([], args)"
| "build_row (c # cs) r args =
     (let args1 = args @ [field_of r c]; (ps, args2) = build_row cs r args1 in (length args1 # ps, args2))"

fun build_rows :: "string list \<Rightarrow> sql_record list \<Rightarrow> sql_value list \<Rightarrow> nat list list \<times> sql_value list" where
  "build_rows columns [] args = ([], args)"
| "build_rows columns (r # rs) args =
     (let (ps, args1) = build_row columns r args; (rows, args2) = build_rows columns rs args1 in (ps # rows, args2))"

definition buildUpsert :: "string list \<Rightarrow> sql_record list \<Rightarrow> upsert" where
  "buildUpsert columns records =
     (let (rows, args) = build_rows columns records []
      in \<lparr>up_columns = columns, up_updates = filter (\<lambda>c. c \<noteq> ''id'') columns, up_rows = rows, up_args = args\<rparr>)"

text \<open>
  What \<^verbatim>\<open>INSERT ... VALUES ... ON CONFLICT (id)\<close> does with one row: insert it, or change the updated
  columns of the row with its identifier, or leave that row when there is no other column.
\<close>

definition bound_row :: "upsert \<Rightarrow> nat list \<Rightarrow> (string \<rightharpoonup> sql_value)" where
  "bound_row u ps = map_of (zip (up_columns u) (map (\<lambda>n. up_args u ! (n - 1)) ps))"

definition upsert_row :: "string list \<Rightarrow> (string \<rightharpoonup> sql_value) \<Rightarrow> target_table \<Rightarrow> target_table" where
  "upsert_row updates r t =
     (case r ''id'' of
        Some (SqlInt64 i) \<Rightarrow>
          t(i \<mapsto> (case t i of None \<Rightarrow> r | Some old \<Rightarrow> old ++ (r |` set updates)))
      | _ \<Rightarrow> t)"

definition exec_upsert :: "upsert \<Rightarrow> target_table \<Rightarrow> target_table" where
  "exec_upsert u t = fold (\<lambda>ps. upsert_row (up_updates u) (bound_row u ps)) (up_rows u) t"

definition maxBindParams :: nat where
  "maxBindParams = 65535"

datatype migrate_answer = BeginFails string | ExecFails string | CommitFails string bool | CommitWorks

definition migrate_batches :: "string list \<Rightarrow> sql_record list \<Rightarrow> upsert list" where
  "migrate_batches columns records =
     map (buildUpsert columns) (chunks_of (maxBindParams div length columns) records)"

text \<open>\<open>None\<close>: no batch size is left for the number of columns, which panics.\<close>

definition migrateChunkData ::
  "sql_record list \<Rightarrow> migrate_answer \<Rightarrow> target_table \<Rightarrow> (string option \<times> target_table) option" where
  "migrateChunkData records answer t =
     (if records = [] then Some (None, t)
      else (case answer of
              BeginFails e \<Rightarrow> Some (Some e, t)
            | _ \<Rightarrow>
                (let columns = sort (map fst (hd records));
                     t1 = fold exec_upsert (migrate_batches columns records) t
                 in if columns = [] \<or> maxBindParams < length columns then None
                    else (case answer of
                            ExecFails e \<Rightarrow> Some (Some e, t)
                          | CommitFails e applied \<Rightarrow> Some (Some e, if applied then t1 else t)
                          | _ \<Rightarrow> Some (None, t1)))))"

section \<open>The manager\<close>

record MigrationConfig =
  mc_ChunkSize :: int
  mc_MaxConcurrency :: nat
  mc_MaxMemoryPercent :: real
  mc_MaxConnections :: int

record MigrationMetrics =
  me_totalChunks :: int
  me_processedChunks :: int
  me_failedChunks :: int
  me_avgChunkTime :: duration
  me_maxChunkTime :: duration
  me_minChunkTime :: duration
  me_resourcePauses :: int
  me_checkpointSaves :: int

definition zero_metrics :: MigrationMetrics where
  "zero_metrics = \<lparr>me_totalChunks = 0, me_processedChunks = 0, me_failedChunks = 0, me_avgChunkTime = 0,
     me_maxChunkTime = 0, me_minChunkTime = 0, me_resourcePauses = 0, me_checkpointSaves = 0\<rparr>"

definition updateChunkTiming :: "duration \<Rightarrow> MigrationMetrics \<Rightarrow> MigrationMetrics" where
  "updateChunkTiming d m =
     m\<lparr>me_maxChunkTime := max (me_maxChunkTime m) d,
       me_minChunkTime := min (if me_minChunkTime m = 0 then d else me_minChunkTime m) d,
       me_avgChunkTime := go_div (me_avgChunkTime m + d) 2\<rparr>"

text \<open>
  Where \<^verbatim>\<open>processChunk\<close> stands: before the semaphore; before the read; before the write, with the
  records; after the commit, before the chunk is marked; before the failure is recorded; returned.
\<close>

datatype mig_phase =
  JWaits | JReads | JWrites "sql_record list" | JMarks | JFails string | JReturned "string option"

record mig_job =
  jb_chunk :: ChunkInfo
  jb_phase :: mig_phase

datatype mig_stage = MigIdle | MigRunning | MigEnded "mig_error list"

record migration =
  mg_config :: MigrationConfig
  mg_chunks :: "ChunkInfo list"
  mg_target :: target_table
  mg_checkpoint :: "(int \<times> int) option"
  mg_stage :: mig_stage
  mg_queue :: "ChunkInfo list"
  mg_paused :: bool
  mg_jobs :: "mig_job list"
  mg_metrics :: MigrationMetrics
  mg_memory :: real
  mg_connections :: int
  mg_cancelled :: bool

definition NewMigrationManager :: "MigrationConfig \<Rightarrow> target_table \<Rightarrow> migration" where
  "NewMigrationManager cfg target =
     \<lparr>mg_config = cfg, mg_chunks = [], mg_target = target, mg_checkpoint = None, mg_stage = MigIdle, mg_queue = [],
      mg_paused = False, mg_jobs = [], mg_metrics = zero_metrics, mg_memory = 0, mg_connections = 0,
      mg_cancelled = False\<rparr>"

text \<open>The process dies, or panics, and a new manager is made over the same tables.\<close>

definition restarted :: "migration \<Rightarrow> migration" where
  "restarted s = (NewMigrationManager (mg_config s) (mg_target s))
     \<lparr>mg_chunks := mg_chunks s, mg_checkpoint := mg_checkpoint s\<rparr>"

record prepare_answer =
  pa_tables :: "string option"
  pa_count :: "string option"
  pa_range :: "string option"
  pa_saves :: "string option list"
  pa_load :: "string option"

definition ended :: "mig_error list \<Rightarrow> migration \<Rightarrow> migration" where
  "ended errs s = s\<lparr>mg_stage := MigEnded errs\<rparr>"

definition prepareMigration ::
  "source_table \<Rightarrow> prepare_answer \<Rightarrow> migration \<Rightarrow> (mig_error option \<times> migration) option" where
  "prepareMigration src a s =
     (case pa_tables a of
        Some e \<Rightarrow> Some (Some (MigFailed e), s)
      | None \<Rightarrow>
          (case getTotalRecordCount src (pa_count a) of
             Inl e \<Rightarrow> Some (Some (MigFailed e), s)
           | Inr n \<Rightarrow>
               map_option
                 (\<lambda>r. case r of
                    Inl e \<Rightarrow> (Some e, s)
                  | Inr chunks \<Rightarrow>
                      (let (err, table) = saveChunkPlan chunks (pa_saves a) (mg_chunks s)
                       in (map_option MigFailed err,
                           s\<lparr>mg_metrics := (mg_metrics s)\<lparr>me_totalChunks := int (length chunks)\<rparr>, mg_chunks := table\<rparr>)))
                 (createChunkPlan (mc_ChunkSize (mg_config s)) src (pa_range a) n)))"

text \<open>The beginning of \<^verbatim>\<open>executeMigration\<close>, up to the loop over the pending chunks.\<close>

definition execute_begin :: "string option \<Rightarrow> migration \<Rightarrow> migration" where
  "execute_begin answer s =
     (case loadChunkPlan answer (mg_chunks s) of
        Inl e \<Rightarrow> ended [MigFailed e] s
      | Inr chunks \<Rightarrow> s\<lparr>mg_stage := MigRunning, mg_queue := filterPendingChunks chunks, mg_jobs := [], mg_paused := False\<rparr>)"

definition StartMigration :: "source_table \<Rightarrow> prepare_answer \<Rightarrow> migration \<Rightarrow> migration option" where
  "StartMigration src a s =
     map_option (\<lambda>(err, s1). case err of
                    None \<Rightarrow> execute_begin (pa_load a) s1
                  | Some MigPanic \<Rightarrow> restarted s1
                  | Some e \<Rightarrow> ended [e] s1)
       (prepareMigration src a s)"

definition shouldPauseForResources :: "migration \<Rightarrow> bool" where
  "shouldPauseForResources s \<longleftrightarrow>
     mc_MaxMemoryPercent (mg_config s) < mg_memory s \<or> mc_MaxConnections (mg_config s) < mg_connections s"

text \<open>One turn of the loop: pause, or start the goroutine of the next chunk.\<close>

definition spawn_next :: "migration \<Rightarrow> migration" where
  "spawn_next s = s\<lparr>mg_queue := tl (mg_queue s), mg_paused := False,
     mg_jobs := mg_jobs s @ [\<lparr>jb_chunk = hd (mg_queue s), jb_phase = JWaits\<rparr>]\<rparr>"

definition next_chunk :: "migration \<Rightarrow> migration" where
  "next_chunk s =
     (if shouldPauseForResources s
      then s\<lparr>mg_paused := True,
             mg_metrics := (mg_metrics s)\<lparr>me_resourcePauses := me_resourcePauses (mg_metrics s) + 1\<rparr>\<rparr>
      else spawn_next s)"

definition waitForResourceRecovery :: "migration \<Rightarrow> migration option" where
  "waitForResourceRecovery s =
     (if mg_cancelled s \<or> \<not> shouldPauseForResources s then Some (spawn_next s) else None)"

definition in_slot :: "mig_phase \<Rightarrow> bool" where
  "in_slot p = (case p of JWaits \<Rightarrow> False | JReturned r \<Rightarrow> False | _ \<Rightarrow> True)"

definition slots_used :: "migration \<Rightarrow> nat" where
  "slots_used s = length (filter (\<lambda>j. in_slot (jb_phase j)) (mg_jobs s))"

definition set_job :: "nat \<Rightarrow> ChunkInfo \<Rightarrow> mig_phase \<Rightarrow> migration \<Rightarrow> migration" where
  "set_job k c p s = s\<lparr>mg_jobs := (mg_jobs s)[k := \<lparr>jb_chunk = c, jb_phase = p\<rparr>]\<rparr>"

definition store_chunk :: "string option \<Rightarrow> ChunkInfo \<Rightarrow> migration \<Rightarrow> migration" where
  "store_chunk answer c s = s\<lparr>mg_chunks := updateChunkStatus answer c (mg_chunks s)\<rparr>"

text \<open>The sections of \<^verbatim>\<open>processChunk\<close>.\<close>

definition chunk_begin :: "nat \<Rightarrow> time \<Rightarrow> string option \<Rightarrow> ChunkInfo \<Rightarrow> migration \<Rightarrow> migration option" where
  "chunk_begin k now answer c s =
     (if slots_used s < mc_MaxConcurrency (mg_config s)
      then (let c1 = c\<lparr>ci_Status := ChunkProcessing, ci_StartTime := Some now\<rparr>
            in Some (set_job k c1 JReads (store_chunk answer c1 s)))
      else None)"

definition chunk_read :: "source_table \<Rightarrow> nat \<Rightarrow> string option \<Rightarrow> ChunkInfo \<Rightarrow> migration \<Rightarrow> migration" where
  "chunk_read src k answer c s =
     (case getChunkData src (ci_StartID c) (ci_EndID c) answer of
        Inl e \<Rightarrow> set_job k c (JFails e) s
      | Inr records \<Rightarrow> set_job k (c\<lparr>ci_RecordCount := int (length records)\<rparr>) (JWrites records) s)"

definition chunk_write :: "nat \<Rightarrow> migrate_answer \<Rightarrow> sql_record list \<Rightarrow> ChunkInfo \<Rightarrow> migration \<Rightarrow> migration" where
  "chunk_write k answer records c s =
     (case migrateChunkData records answer (mg_target s) of
        None \<Rightarrow> restarted s
      | Some (Some e, t) \<Rightarrow> set_job k c (JFails e) (s\<lparr>mg_target := t\<rparr>)
      | Some (None, t) \<Rightarrow> set_job k c JMarks (s\<lparr>mg_target := t\<rparr>))"

definition chunk_failed :: "nat \<Rightarrow> string option \<Rightarrow> string \<Rightarrow> ChunkInfo \<Rightarrow> migration \<Rightarrow> migration" where
  "chunk_failed k answer e c s =
    (let c1 = c\<lparr>ci_Status := ChunkFailed, ci_ErrorMsg := e\<rparr>; s1 = store_chunk answer c1 s
     in set_job k c1 (JReturned (Some e))
          (s1\<lparr>mg_metrics := (mg_metrics s1)\<lparr>me_failedChunks := me_failedChunks (mg_metrics s1) + 1\<rparr>\<rparr>))"

definition chunk_completed :: "nat \<Rightarrow> time \<Rightarrow> string option \<Rightarrow> ChunkInfo \<Rightarrow> migration \<Rightarrow> migration" where
  "chunk_completed k now answer c s =
    (let c1 = c\<lparr>ci_Status := ChunkCompleted, ci_EndTime := Some now\<rparr>; s1 = store_chunk answer c1 s;
         d = (case ci_StartTime c of Some t \<Rightarrow> time_Sub now t | None \<Rightarrow> time_Sub now 0)
     in set_job k c1 (JReturned None)
          (s1\<lparr>mg_metrics := updateChunkTiming d
                ((mg_metrics s1)\<lparr>me_processedChunks := me_processedChunks (mg_metrics s1) + 1\<rparr>)\<rparr>))"

definition execute_end :: "migration \<Rightarrow> migration option" where
  "execute_end s =
     (if mg_queue s = [] \<and> list_all (\<lambda>j. case jb_phase j of JReturned r \<Rightarrow> True | _ \<Rightarrow> False) (mg_jobs s)
      then Some (ended (concat (map (\<lambda>j. case jb_phase j of JReturned (Some e) \<Rightarrow> [MigFailed e] | _ \<Rightarrow> []) (mg_jobs s))) s)
      else None)"

section \<open>Progress and checkpoints\<close>

datatype MigrationStatus = StatusRunning | StatusCompleted | StatusFailed

record MigrationProgress =
  mp_TotalRecords :: int
  mp_ProcessedRecords :: int
  mp_FailedRecords :: int
  mp_CurrentChunk :: int
  mp_Status :: MigrationStatus

definition with_status :: "ChunkStatus \<Rightarrow> ChunkInfo list \<Rightarrow> ChunkInfo list" where
  "with_status st table = filter (\<lambda>c. ci_Status c = st) table"

text \<open>When the query fails the metrics of this process stand in for the table.\<close>

definition getProgress :: "string option \<Rightarrow> migration \<Rightarrow> MigrationProgress" where
  "getProgress answer s =
    (let (chunks, completed, failed, processed) =
           (case answer of
              None \<Rightarrow> (int (length (mg_chunks s)), int (length (with_status ChunkCompleted (mg_chunks s))),
                       int (length (with_status ChunkFailed (mg_chunks s))),
                       sum_list (map ci_RecordCount (with_status ChunkCompleted (mg_chunks s))))
            | Some e \<Rightarrow> (me_totalChunks (mg_metrics s), me_processedChunks (mg_metrics s),
                         me_failedChunks (mg_metrics s), 0))
     in \<lparr>mp_TotalRecords = chunks, mp_ProcessedRecords = processed, mp_FailedRecords = failed, mp_CurrentChunk = completed,
         mp_Status = (if chunks \<le> completed \<and> 0 < chunks then StatusCompleted
                      else if 0 < failed then StatusFailed else StatusRunning)\<rparr>)"

definition saveCheckpoint :: "string option \<Rightarrow> string option \<Rightarrow> migration \<Rightarrow> migration" where
  "saveCheckpoint progress_answer answer s =
    (let p = getProgress progress_answer s
     in case answer of
          Some e \<Rightarrow> s
        | None \<Rightarrow> s\<lparr>mg_checkpoint := Some (mp_CurrentChunk p, mp_TotalRecords p),
                    mg_metrics := (mg_metrics s)\<lparr>me_checkpointSaves := me_checkpointSaves (mg_metrics s) + 1\<rparr>\<rparr>)"

section \<open>Steps\<close>

datatype mig_event =
  MStart prepare_answer | MCrash | MNext | MRecover | MBegin nat time "string option" | MRead nat "string option"
| MWrite nat migrate_answer | MFailed nat "string option" | MComplete nat time "string option" | MEnd
| MResources real int | MCheckpoint "string option" "string option" | MCancel

definition job_step :: "nat \<Rightarrow> (ChunkInfo \<Rightarrow> mig_phase \<Rightarrow> migration option) \<Rightarrow> migration \<Rightarrow> migration option" where
  "job_step k f s =
     (if k < length (mg_jobs s) \<and> mg_stage s = MigRunning
      then f (jb_chunk (mg_jobs s ! k)) (jb_phase (mg_jobs s ! k)) else None)"

fun mig_step :: "source_table \<Rightarrow> migration \<Rightarrow> mig_event \<Rightarrow> migration option" where
  "mig_step src s (MStart a) = (if mg_stage s = MigRunning then None else StartMigration src a s)"
| "mig_step src s MCrash = Some (restarted s)"
| "mig_step src s MNext =
     (if mg_stage s = MigRunning \<and> mg_queue s \<noteq> [] \<and> \<not> mg_paused s then Some (next_chunk s) else None)"
| "mig_step src s MRecover =
     (if mg_stage s = MigRunning \<and> mg_queue s \<noteq> [] \<and> mg_paused s then waitForResourceRecovery s else None)"
| "mig_step src s (MBegin k now answer) =
     job_step k (\<lambda>c p. if p = JWaits then chunk_begin k now answer c s else None) s"
| "mig_step src s (MRead k answer) =
     job_step k (\<lambda>c p. if p = JReads then Some (chunk_read src k answer c s) else None) s"
| "mig_step src s (MWrite k answer) =
     job_step k (\<lambda>c p. case p of JWrites records \<Rightarrow> Some (chunk_write k answer records c s) | _ \<Rightarrow> None) s"
| "mig_step src s (MFailed k answer) =
     job_step k (\<lambda>c p. case p of JFails e \<Rightarrow> Some (chunk_failed k answer e c s) | _ \<Rightarrow> None) s"
| "mig_step src s (MComplete k now answer) =
     job_step k (\<lambda>c p. if p = JMarks then Some (chunk_completed k now answer c s) else None) s"
| "mig_step src s MEnd = (if mg_stage s = MigRunning then execute_end s else None)"
| "mig_step src s (MResources memory connections) =
     Some (s\<lparr>mg_memory := memory, mg_connections := connections\<rparr>)"
| "mig_step src s (MCheckpoint pa answer) = Some (saveCheckpoint pa answer s)"
| "mig_step src s MCancel = Some (s\<lparr>mg_cancelled := True\<rparr>)"

section \<open>Records\<close>

definition source_ok :: "source_table \<Rightarrow> bool" where
  "source_ok src \<longleftrightarrow> distinct (so_columns src) \<and> ''id'' \<in> set (so_columns src) \<and>
     length (so_columns src) \<le> maxBindParams \<and> list_all (\<lambda>vs. length vs = length (so_columns src)) (so_rows src) \<and>
     list_all (\<lambda>r. record_id r \<noteq> None) (source_records src) \<and> distinct (source_ids src) \<and>
     list_all is_int64 (source_ids src)"

lemma scan_row_fold:
  "map_of (fold (\<lambda>(c, v) r. AList.update c v r) xs r) = map_of r ++ map_of (rev xs)"
  "distinct (map fst r) \<Longrightarrow> distinct (map fst (fold (\<lambda>(c, v) r. AList.update c v r) xs r))"
  by (induction xs arbitrary: r) (auto simp: update_conv' distinct_update)

lemma record_keys:
  assumes "source_ok src" and "r \<in> set (source_records src)"
  shows "distinct (map fst r)" and "set (map fst r) = set (so_columns src)" and "length r = length (so_columns src)"
proof -
  obtain vs where vs: "vs \<in> set (so_rows src)" "r = scan_row (so_columns src) vs"
    using assms(2) by (auto simp: source_records_def)
  have n: "length vs = length (so_columns src)" using assms(1) vs(1) by (auto simp: source_ok_def list_all_iff)
  show d: "distinct (map fst r)" using scan_row_fold(2) [of "[]" "zip (so_columns src) vs"] by (simp add: vs(2) scan_row_def)
  have "dom (map_of r) = set (so_columns src)"
    using scan_row_fold(1) [of "zip (so_columns src) vs" "[]"] n
    by (simp add: vs(2) scan_row_def dom_map_of_conv_image_fst flip: set_map)
  then show k: "set (map fst r) = set (so_columns src)" by (simp add: dom_map_of_conv_image_fst)
  have "length r = card (set (map fst r))" using distinct_card [OF d] by simp
  then show "length r = length (so_columns src)" using k assms(1) by (simp add: source_ok_def distinct_card)
qed

lemma record_has_id:
  assumes "source_ok src" and "r \<in> set (source_records src)"
  obtains i where "record_id r = Some i" "map_of r ''id'' = Some (SqlInt64 i)" "i \<in> set (source_ids src)" "is_int64 i"
proof -
  obtain i where i: "record_id r = Some i" using assms by (auto simp: source_ok_def list_all_iff)
  have m: "map_of r ''id'' = Some (SqlInt64 i)"
    using i by (auto simp: record_id_def split: option.splits sql_value.splits)
  have s: "i \<in> set (source_ids src)" using i assms(2) by (force simp: source_ids_def)
  then show ?thesis using that i m assms(1) by (auto simp: source_ok_def list_all_iff)
qed

lemma distinct_ids_inj:
  assumes "distinct (concat (map (\<lambda>r. case record_id r of Some i \<Rightarrow> [i] | None \<Rightarrow> []) rs))"
    and "r \<in> set rs" and "r' \<in> set rs" and "record_id r = Some i" and "record_id r' = Some i"
  shows "r = r'"
  using assms by (induction rs) (auto, force+)

lemma same_id_same_record:
  assumes "source_ok src" and "r \<in> set (source_records src)" and "r' \<in> set (source_records src)"
    and "record_id r = Some i" and "record_id r' = Some i"
  shows "r = r'"
  using assms distinct_ids_inj [of "source_records src"] by (auto simp: source_ok_def source_ids_def)

lemma set_select_range:
  "set (select_range src a b) = {r \<in> set (source_records src). \<exists>i. record_id r = Some i \<and> a \<le> i \<and> i \<le> b}"
  by (auto simp: select_range_def split: option.splits)

section \<open>Statements\<close>

lemma build_row_result:
  "build_row cols r args = (ps, args2) \<Longrightarrow>
   args2 = args @ map (field_of r) cols \<and> ps = map Suc [length args ..< length args2]"
proof (induction cols arbitrary: args ps)
  case Nil
  then show ?case by simp
next
  case (Cons c cs)
  obtain qs where q: "build_row cs r (args @ [field_of r c]) = (qs, args2)" "ps = (length args + 1) # qs"
    using Cons.prems by (auto simp: Let_def split: prod.splits)
  have "args2 = args @ field_of r c # map (field_of r) cs" "qs = map Suc [Suc (length args) ..< length args2]"
    using Cons.IH [OF q(1)] by (simp_all del: upt_Suc)
  then show ?case using q(2) by (simp add: upt_conv_Cons del: upt_Suc)
qed

lemma nth_suffix_range: "map (\<lambda>n. (xs @ ys @ zs) ! n) [length xs ..< length xs + length ys] = ys"
  by (rule nth_equalityI) (simp_all add: nth_append)

lemma build_rows_result:
  "build_rows cols rs args = (rows, args2) \<Longrightarrow>
   args2 = args @ concat (map (\<lambda>r. map (field_of r) cols) rs) \<and> concat rows = map Suc [length args ..< length args2] \<and>
   map (map (\<lambda>n. (args2 @ zs) ! (n - 1))) rows = map (\<lambda>r. map (field_of r) cols) rs"
proof (induction rs arbitrary: args rows)
  case Nil
  then show ?case by simp
next
  case (Cons r rs)
  obtain ps args1 qs where b: "build_row cols r args = (ps, args1)" "build_rows cols rs args1 = (qs, args2)" "rows = ps # qs"
    using Cons.prems by (auto split: prod.splits)
  have p: "args1 = args @ map (field_of r) cols" "ps = map Suc [length args ..< length args1]"
    using build_row_result [OF b(1)] by simp_all
  have q: "args2 = args1 @ concat (map (\<lambda>r. map (field_of r) cols) rs)" "concat qs = map Suc [length args1 ..< length args2]"
    "map (map (\<lambda>n. (args2 @ zs) ! (n - 1))) qs = map (\<lambda>r. map (field_of r) cols) rs"
    using Cons.IH [OF b(2)] by blast+
  have vals: "map (\<lambda>n. (args2 @ zs) ! (n - 1)) ps = map (field_of r) cols"
    using nth_suffix_range [of args "map (field_of r) cols" "concat (map (\<lambda>r. map (field_of r) cols) rs) @ zs"]
    by (simp add: p q(1) o_def)
  have numbers: "concat rows = map Suc [length args ..< length args2]"
  proof -
    have n: "length args \<le> length args1" "length args1 \<le> length args2" by (simp_all add: p q(1))
    have "[length args ..< length args2] = [length args ..< length args1] @ [length args1 ..< length args2]"
      using upt_add_eq_append [OF n(1), of "length args2 - length args1"] n by simp
    then show ?thesis by (simp only: b(3) concat.simps p(2) q(2) map_append)
  qed
  have "args2 = args @ concat (map (\<lambda>r. map (field_of r) cols) (r # rs))" by (simp add: q(1) p(1))
  moreover have "map (map (\<lambda>n. (args2 @ zs) ! (n - 1))) rows = map (\<lambda>r. map (field_of r) cols) (r # rs)"
    by (simp only: b(3) list.map vals q(3))
  ultimately show ?case using numbers by blast
qed

text \<open>What a statement does is what its records say, one after another.\<close>

definition put_record :: "string list \<Rightarrow> sql_record \<Rightarrow> target_table \<Rightarrow> target_table" where
  "put_record cols r = upsert_row (filter (\<lambda>c. c \<noteq> ''id'') cols) (map_of r)"

lemma map_of_fields: "set cols = set (map fst r) \<Longrightarrow> map_of (zip cols (map (field_of r) cols)) = map_of r"
proof (rule ext)
  fix c
  assume s: "set cols = set (map fst r)"
  show "map_of (zip cols (map (field_of r) cols)) c = map_of r c"
  proof (cases "c \<in> set cols")
    case True
    then obtain v where "map_of r c = Some v" using s by (metis map_of_eq_None_iff not_None_eq list.set_map)
    then show ?thesis using True by (simp add: map_of_zip_map field_of_def)
  next
    case False
    then have "map_of r c = None" using s by (simp add: map_of_eq_None_iff)
    then show ?thesis using False by (simp add: map_of_zip_map)
  qed
qed

lemma bound_buildUpsert:
  assumes "\<forall>r \<in> set rs. set cols = set (map fst r)"
  shows "map (bound_row (buildUpsert cols rs)) (up_rows (buildUpsert cols rs)) = map map_of rs"
proof -
  obtain rows args where b: "build_rows cols rs [] = (rows, args)" by fastforce
  have "map (map (\<lambda>n. args ! (n - 1))) rows = map (\<lambda>r. map (field_of r) cols) rs"
    using build_rows_result [OF b, of "[]"] by (metis append_Nil2)
  then have "map (\<lambda>vs. map_of (zip cols vs)) (map (map (\<lambda>n. args ! (n - 1))) rows) =
      map (\<lambda>vs. map_of (zip cols vs)) (map (\<lambda>r. map (field_of r) cols) rs)" by (simp only:)
  also have "\<dots> = map map_of rs" using assms map_of_fields by simp
  finally show ?thesis by (simp add: buildUpsert_def b bound_row_def [abs_def] o_def)
qed

lemma exec_buildUpsert:
  assumes "\<forall>r \<in> set rs. set cols = set (map fst r)"
  shows "exec_upsert (buildUpsert cols rs) t = fold (put_record cols) rs t"
proof -
  let ?u = "buildUpsert cols rs"
  have u: "up_updates ?u = filter (\<lambda>c. c \<noteq> ''id'') cols" by (simp add: buildUpsert_def split: prod.splits)
  have "exec_upsert ?u t = fold (upsert_row (up_updates ?u)) (map (bound_row ?u) (up_rows ?u)) t"
    by (simp add: exec_upsert_def fold_map o_def)
  also have "\<dots> = fold (put_record cols) rs t"
    by (simp add: bound_buildUpsert [OF assms] u fold_map o_def put_record_def [abs_def])
  finally show ?thesis .
qed

lemma fold_batches: "fold (fold f) xss t = fold f (concat xss) t"
  by (induction xss arbitrary: t) simp_all

lemma exec_batches:
  assumes "\<forall>r \<in> set rs. set cols = set (map fst r)" and "0 < maxBindParams div length cols"
  shows "fold exec_upsert (migrate_batches cols rs) t = fold (put_record cols) rs t"
proof -
  let ?cs = "chunks_of (maxBindParams div length cols) rs"
  have c: "concat ?cs = rs" by (rule concat_chunks [OF assms(2)])
  have each: "exec_upsert (buildUpsert cols ch) = fold (put_record cols) ch" if "ch \<in> set ?cs" for ch
  proof (rule ext)
    fix t
    have "set ch \<subseteq> set (concat ?cs)" using that by auto
    then have "\<forall>r \<in> set ch. set cols = set (map fst r)" using c assms(1) by auto
    then show "exec_upsert (buildUpsert cols ch) t = fold (put_record cols) ch t" by (rule exec_buildUpsert)
  qed
  have "fold exec_upsert (migrate_batches cols rs) t = fold (\<lambda>ch. exec_upsert (buildUpsert cols ch)) ?cs t"
    by (simp add: migrate_batches_def fold_map o_def)
  also have "\<dots> = fold (fold (put_record cols)) ?cs t" using each by (intro fold_cong) simp_all
  also have "\<dots> = fold (put_record cols) rs t" by (simp add: fold_batches c)
  finally show ?thesis .
qed

text \<open>
  The statements of a chunk bind every record exactly once, in order, with consecutive
  placeholders from one, and never more arguments than the protocol allows.
\<close>

theorem upsert_roundtrip:
  assumes "\<forall>r \<in> set records. set cols = set (map fst r)" and "cols \<noteq> []" and "length cols \<le> maxBindParams"
  shows "concat (map (\<lambda>u. map (bound_row u) (up_rows u)) (migrate_batches cols records)) = map map_of records \<and>
    list_all (\<lambda>u. length (up_args u) \<le> maxBindParams \<and> concat (up_rows u) = [1 ..< length (up_args u) + 1])
      (migrate_batches cols records)"
proof -
  let ?n = "maxBindParams div length cols"
  have n: "0 < ?n" "?n * length cols \<le> maxBindParams" using assms(2,3) by (simp_all add: div_greater_zero_iff)
  have ch: "set ch \<subseteq> set records" "length ch \<le> ?n" if "ch \<in> set (chunks_of ?n records)" for ch
  proof -
    have "set ch \<subseteq> set (concat (chunks_of ?n records))" using that by auto
    then show "set ch \<subseteq> set records" by (simp only: concat_chunks [OF n(1)])
    show "length ch \<le> ?n" using chunk_sizes [OF that] by simp
  qed
  have part: "length (up_args (buildUpsert cols ch)) \<le> maxBindParams"
    "concat (up_rows (buildUpsert cols ch)) = [1 ..< length (up_args (buildUpsert cols ch)) + 1]"
    if "length ch \<le> ?n" for ch
  proof -
    obtain rows args where b: "build_rows cols ch [] = (rows, args)" by fastforce
    have a: "args = concat (map (\<lambda>r. map (field_of r) cols) ch)" "concat rows = map Suc [0 ..< length args]"
      using build_rows_result [OF b] by simp_all
    have "length args = length ch * length cols" by (simp add: a(1) length_concat o_def sum_list_triv)
    also have "\<dots> \<le> ?n * length cols" using that by (rule mult_le_mono1)
    also note n(2)
    finally show "length (up_args (buildUpsert cols ch)) \<le> maxBindParams" by (simp add: buildUpsert_def b)
    show "concat (up_rows (buildUpsert cols ch)) = [1 ..< length (up_args (buildUpsert cols ch)) + 1]"
      using a(2) map_Suc_upt [of 0 "length args"] by (simp add: buildUpsert_def b del: upt_Suc)
  qed
  have "concat (map (\<lambda>u. map (bound_row u) (up_rows u)) (migrate_batches cols records)) =
      concat (map (map map_of) (chunks_of ?n records))"
    unfolding migrate_batches_def map_map o_def
    by (rule arg_cong [where f = concat], rule map_cong [OF refl]) (use bound_buildUpsert ch(1) assms(1) in blast)
  also have "\<dots> = map map_of records" by (simp only: map_concat [symmetric] concat_chunks [OF n(1)])
  finally show ?thesis using part ch(2) by (auto simp: list_all_iff migrate_batches_def)
qed

definition two_columns :: source_table where
  "two_columns = \<lparr>so_columns = [''id'', ''a''], so_rows = [[SqlInt64 3, SqlText ''x''], [SqlInt64 1, SqlNull], [SqlInt64 2, SqlText ''y'']]\<rparr>"

lemma upsert_roundtrip_witness:
  "migrate_batches [''a'', ''id''] (source_records two_columns) \<noteq> [] \<and>
   concat (map (\<lambda>u. map (bound_row u) (up_rows u)) (migrate_batches [''a'', ''id''] (source_records two_columns))) =
     map map_of (source_records two_columns)"
proof -
  have "\<forall>r \<in> set (source_records two_columns). set [''a'', ''id''] = set (map fst r)"
    by (auto simp: source_records_def two_columns_def scan_row_def)
  then have "concat (map (\<lambda>u. map (bound_row u) (up_rows u)) (migrate_batches [''a'', ''id''] (source_records two_columns))) =
      map map_of (source_records two_columns)"
    by (rule conjunct1 [OF upsert_roundtrip]) (simp_all add: maxBindParams_def)
  moreover have "source_records two_columns \<noteq> []" by (simp add: source_records_def two_columns_def)
  ultimately show ?thesis by auto
qed

section \<open>The plan\<close>

lemma plan_closed_form:
  assumes "0 < d" and "maxID + d \<le> max_int64" and "is_int64 startID" and "startID \<le> maxID + d"
  shows "plan_from d maxID startID k =
    Some (map (\<lambda>j. new_chunk (k + int j) (startID + int j * d) (min (startID + int j * d + d - 1) maxID))
      [0 ..< nat ((maxID - startID + d) div d)])"
  using assms
proof (induction "nat ((maxID - startID + d) div d)" arbitrary: startID k)
  case 0
  then have "\<not> startID \<le> maxID" by (metis add.commute add_le_same_cancel1 diff_ge_0_iff_ge nat_0_iff not_le pos_imp_zdiv_pos_iff le_add_same_cancel2)
  then show ?case using 0 by (subst plan_from.simps) simp
next
  case (Suc m)
  have le: "startID \<le> maxID"
  proof (rule ccontr)
    assume "\<not> startID \<le> maxID"
    then have "(maxID - startID + d) div d = 0" using Suc.prems by (intro div_pos_pos_trivial) simp_all
    then show False using Suc.hyps(2) by simp
  qed
  have st: "is_int64 (startID + d)" "is_int64 (startID + d - 1)" using Suc.prems le by (auto simp: is_int64_def)
  have q: "(maxID - startID + d) div d = (maxID - (startID + d) + d) div d + 1"
    using Suc.prems(1) div_add_self2 [of d "maxID - startID"] by simp
  have m: "m = nat ((maxID - (startID + d) + d) div d)" using Suc.hyps(2) q by simp
  have n: "nat ((maxID - startID + d) div d) = Suc m" using Suc.hyps(2) by simp
  have up: "[0 ..< Suc m] = 0 # map Suc [0 ..< m]" by (simp add: upt_conv_Cons map_Suc_upt del: upt_Suc)
  have ih: "plan_from d maxID (startID + d) (k + 1) =
    Some (map (\<lambda>j. new_chunk (k + 1 + int j) (startID + d + int j * d) (min (startID + d + int j * d + d - 1) maxID)) [0 ..< m])"
    using Suc.hyps(1) [OF m Suc.prems(1,2) st(1)] le m by simp
  have "plan_from d maxID startID k = Option.bind (plan_from d maxID (startID + d) (k + 1))
      (\<lambda>chunks. Some (new_chunk k startID (min (startID + d - 1) maxID) # chunks))"
    by (subst plan_from.simps) (simp add: le st)
  then show ?case unfolding n up ih by (simp add: algebra_simps o_def)
qed

text \<open>A range that reaches the last 64-bit identifier is never passed.\<close>

lemma plan_from_diverges: "plan_from d max_int64 startID k = None" if "is_int64 startID"
proof -
  have no: "\<not> (is_int64 a \<and> m = max_int64)" if "plan_from d m a k = Some cs" for d m a k cs
  proof (rule plan_from.raw_induct [where P = "\<lambda>d m a k cs. \<not> (is_int64 a \<and> m = max_int64)", OF _ that])
    fix plan d m a k y
    assume IH: "\<And>d m a k y. plan d m a k = Some y \<Longrightarrow> \<not> (is_int64 a \<and> m = max_int64)"
      and eq: "(if a \<le> m then Option.bind (plan d m (wrap64 (a + d)) (k + 1))
        (\<lambda>chunks. Some (new_chunk k a (min (wrap64 (a + d - 1)) m) # chunks)) else Some []) = Some y"
    show "\<not> (is_int64 a \<and> m = max_int64)"
    proof
      assume a: "is_int64 a \<and> m = max_int64"
      then have "a \<le> m" by (simp add: is_int64_def)
      then obtain cs where "plan d m (wrap64 (a + d)) (k + 1) = Some cs" using eq by (auto simp: bind_eq_Some_conv)
      then show False using IH a by (metis wrap64_range)
    qed
  qed
  show ?thesis using no [of d max_int64 startID k] that by (cases "plan_from d max_int64 startID k") auto
qed

definition plan_of :: "int \<Rightarrow> source_table \<Rightarrow> ChunkInfo list" where
  "plan_of chunkSize src =
     (case createChunkPlan chunkSize src None (int (length (so_rows src))) of Some (Inr cs) \<Rightarrow> cs | _ \<Rightarrow> [])"

text \<open>When the identifiers end early enough for the chunk size the plan is made.\<close>

definition plan_fits :: "int \<Rightarrow> source_table \<Rightarrow> bool" where
  "plan_fits chunkSize src \<longleftrightarrow> 0 < chunkSize \<and>
     (so_rows src \<noteq> [] \<longrightarrow>
        Max (set (source_ids src)) + optimized_size chunkSize (int (length (so_rows src))) \<le> max_int64)"

lemma optimized_size_pos: "0 < n \<Longrightarrow> 0 \<le> m \<Longrightarrow> 0 < optimized_size n m"
proof -
  assume n: "0 < n" "0 \<le> m"
  have "0 < m div 1000" if "1000 < m div n"
  proof -
    have "m div n \<le> m" using n zdiv_mono2 [of m 1 n] by simp
    then show ?thesis using that by (simp add: pos_imp_zdiv_pos_iff)
  qed
  then show ?thesis using n by (simp add: optimized_size_def go_div_pos)
qed

lemma source_ids_nonempty:
  assumes "source_ok src" and "so_rows src \<noteq> []"
  shows "source_ids src \<noteq> []"
proof -
  obtain r where r: "r \<in> set (source_records src)" using assms(2) by (cases "so_rows src") (auto simp: source_records_def)
  show ?thesis by (rule record_has_id [OF assms(1) r]) auto
qed

lemma plan_ranges:
  assumes "0 < d" and "a \<le> b" and "a \<le> i" and "i \<le> b"
  shows "\<exists>!j. j \<in> {0 ..< nat ((b - a + d) div d)} \<and> a + int j * d \<le> i \<and> i \<le> min (a + int j * d + d - 1) b"
proof (rule ex1I [of _ "nat ((i - a) div d)"])
  let ?q = "(i - a) div d"
  have q: "0 \<le> ?q" "?q * d \<le> i - a" "i - a < ?q * d + d"
    using assms by (simp_all add: pos_imp_zdiv_nonneg_iff) (use pos_mod_bound [of d "i - a"] pos_mod_sign [of d "i - a"] minus_mod_eq_div_mult [of "i - a" d] in linarith)+
  have "(b - a + d) div d = (b - a) div d + 1" using assms(1) by (simp add: div_add_self2)
  moreover have "?q \<le> (b - a) div d" using assms by (intro zdiv_mono1) simp_all
  ultimately have "?q < (b - a + d) div d" by simp
  then show "nat ?q \<in> {0 ..< nat ((b - a + d) div d)} \<and> a + int (nat ?q) * d \<le> i \<and> i \<le> min (a + int (nat ?q) * d + d - 1) b"
    using q assms(4) by (auto simp: nat_less_eq_zless)
next
  fix j
  assume j: "j \<in> {0 ..< nat ((b - a + d) div d)} \<and> a + int j * d \<le> i \<and> i \<le> min (a + int j * d + d - 1) b"
  then have "int j * d \<le> i - a" "i - a < (int j + 1) * d" by (simp_all add: algebra_simps)
  then have "(i - a) div d = int j"
    using assms(1) by (intro int_div_pos_eq [of _ _ _ "i - a - int j * d"]) (simp_all add: algebra_simps)
  then show "j = nat ((i - a) div d)" by simp
qed

text \<open>The plan of a source whose identifiers leave room for the last addition.\<close>

lemma plan_shape:
  assumes "source_ok src" and "plan_fits n src" and "so_rows src \<noteq> []"
  defines "d \<equiv> optimized_size n (int (length (so_rows src)))"
    and "a \<equiv> Min (set (source_ids src))" and "b \<equiv> Max (set (source_ids src))"
  shows "createChunkPlan n src None (int (length (so_rows src))) = Some (Inr (map (\<lambda>j. new_chunk (int j)
      (a + int j * d) (min (a + int j * d + d - 1) b)) [0 ..< nat ((b - a + d) div d)])) \<and> 0 < d \<and> a \<le> b"
proof -
  have ne: "set (source_ids src) \<noteq> {}" using source_ids_nonempty [OF assms(1,3)] by simp
  have ab: "a \<le> b" using ne Min_le [OF finite_set Max_in [OF finite_set ne]] by (simp add: a_def b_def)
  have a64: "is_int64 a" using assms(1) Min_in [OF finite_set ne] by (auto simp: a_def source_ok_def list_all_iff)
  have d: "0 < d" "b + d \<le> max_int64"
    using assms(2,3) optimized_size_pos [of n "int (length (so_rows src))"] by (auto simp: plan_fits_def d_def b_def)
  have "plan_from d b a 0 = Some (map (\<lambda>j. new_chunk (0 + int j) (a + int j * d) (min (a + int j * d + d - 1) b))
      [0 ..< nat ((b - a + d) div d)])"
    by (rule plan_closed_form [OF d a64]) (use ab d in simp)
  then show ?thesis using assms(2,3) ab d
    by (simp add: createChunkPlan_def getIDRange_def plan_fits_def flip: a_def b_def d_def)
qed

lemma plan_partition:
  assumes "source_ok src" and "plan_fits n src"
  shows "\<exists>cs. createChunkPlan n src None (int (length (so_rows src))) = Some (Inr cs) \<and>
    map ci_ID cs = map int [0 ..< length cs] \<and>
    (\<forall>i \<in> set (source_ids src). \<exists>!c. c \<in> set cs \<and> ci_StartID c \<le> i \<and> i \<le> ci_EndID c)"
proof (cases "so_rows src = []")
  case True
  then show ?thesis by (simp add: createChunkPlan_def source_ids_def source_records_def)
next
  case False
  define d where "d = optimized_size n (int (length (so_rows src)))"
  define a where "a = Min (set (source_ids src))"
  define b where "b = Max (set (source_ids src))"
  define f where "f = (\<lambda>j. new_chunk (int j) (a + int j * d) (min (a + int j * d + d - 1) b))"
  define m where "m = nat ((b - a + d) div d)"
  have shape: "createChunkPlan n src None (int (length (so_rows src))) = Some (Inr (map f [0 ..< m]))" "0 < d" "a \<le> b"
    using plan_shape [OF assms False] by (simp_all add: d_def a_def b_def f_def m_def)
  have f: "ci_ID (f j) = int j" "ci_StartID (f j) = a + int j * d" "ci_EndID (f j) = min (a + int j * d + d - 1) b" for j
    by (simp_all add: f_def new_chunk_def)
  have "\<exists>!c. c \<in> set (map f [0 ..< m]) \<and> ci_StartID c \<le> i \<and> i \<le> ci_EndID c" if i: "i \<in> set (source_ids src)" for i
  proof -
    have "\<exists>!j. j \<in> {0 ..< m} \<and> a + int j * d \<le> i \<and> i \<le> min (a + int j * d + d - 1) b"
      unfolding m_def by (rule plan_ranges [OF shape(2,3)]) (use i in \<open>simp_all add: a_def b_def\<close>)
    then obtain j where j: "j \<in> {0 ..< m}" "a + int j * d \<le> i" "i \<le> min (a + int j * d + d - 1) b"
      and u: "\<And>k. k \<in> {0 ..< m} \<and> a + int k * d \<le> i \<and> i \<le> min (a + int k * d + d - 1) b \<Longrightarrow> k = j" by blast
    show ?thesis
    proof (rule ex1I [of _ "f j"])
      show "f j \<in> set (map f [0 ..< m]) \<and> ci_StartID (f j) \<le> i \<and> i \<le> ci_EndID (f j)" using j by (simp add: f)
      fix c
      assume "c \<in> set (map f [0 ..< m]) \<and> ci_StartID c \<le> i \<and> i \<le> ci_EndID c"
      then obtain k where "c = f k" "k \<in> {0 ..< m} \<and> a + int k * d \<le> i \<and> i \<le> min (a + int k * d + d - 1) b"
        by (auto simp: f)
      then show "c = f j" using u by blast
    qed
  qed
  then show ?thesis using shape(1) by (auto simp: f o_def)
qed

text \<open>
  The loop that plans the chunks ends when the largest identifier leaves room for one more
  chunk size in 64 bits; the chunks are numbered from zero and every row of the source is in
  exactly one of them.
\<close>

theorem chunk_plan_partitions:
  assumes "source_ok src" and "plan_fits n src"
  shows "\<exists>cs. createChunkPlan n src None (int (length (so_rows src))) = Some (Inr cs) \<and>
    map ci_ID cs = map int [0 ..< length cs] \<and>
    (\<forall>i \<in> set (source_ids src). \<exists>!c. c \<in> set cs \<and> ci_StartID c \<le> i \<and> i \<le> ci_EndID c)"
  by (rule plan_partition [OF assms])

text \<open>
  A table with the largest 64-bit identifier is never migrated: for every chunk size other
  than zero the loop that plans the chunks does not end.
\<close>

theorem chunk_plan_diverges:
  assumes "source_ok src" and "max_int64 \<in> set (source_ids src)" and "n \<noteq> 0"
  shows "createChunkPlan n src None (int (length (so_rows src))) = None"
proof -
  have ne: "set (source_ids src) \<noteq> {}" and rows: "so_rows src \<noteq> []"
    using assms(2) by (auto simp: source_ids_def source_records_def)
  have r: "is_int64 i" if "i \<in> set (source_ids src)" for i using assms(1) that by (auto simp: source_ok_def list_all_iff)
  have "Max (set (source_ids src)) = max_int64" using r assms(2) by (intro Max_eqI) (auto simp: is_int64_def)
  moreover have "is_int64 (Min (set (source_ids src)))" using r Min_in [OF finite_set ne] by blast
  ultimately show ?thesis using rows assms(3)
    by (simp add: createChunkPlan_def getIDRange_def plan_from_diverges)
qed

lemma two_columns_ok: "source_ok two_columns" "plan_fits 2 two_columns"
  by (simp_all add: source_ok_def two_columns_def source_ids_def source_records_def scan_row_def record_id_def
      maxBindParams_def is_int64_def plan_fits_def optimized_size_def go_div_def)

lemma chunk_plan_partitions_witness:
  "\<exists>cs. createChunkPlan 2 two_columns None 3 = Some (Inr cs) \<and> map ci_ID cs = map int [0 ..< length cs]"
proof -
  have n: "int (length (so_rows two_columns)) = 3" by (simp add: two_columns_def)
  show ?thesis using chunk_plan_partitions [OF two_columns_ok] unfolding n by blast
qed

definition last_identifier :: source_table where
  "last_identifier = \<lparr>so_columns = [''id''], so_rows = [[SqlInt64 max_int64]]\<rparr>"

lemma chunk_plan_diverges_witness: "createChunkPlan 10000 last_identifier None 1 = None"
  using chunk_plan_diverges [of last_identifier 10000]
  by (simp add: last_identifier_def source_ok_def source_ids_def source_records_def scan_row_def record_id_def
      maxBindParams_def is_int64_def)

section \<open>What the target holds\<close>

definition target_ok :: "target_table \<Rightarrow> bool" where
  "target_ok t \<longleftrightarrow> (\<forall>i row. t i = Some row \<longrightarrow> row ''id'' = Some (SqlInt64 i))"

definition holds :: "target_table \<Rightarrow> sql_record \<Rightarrow> bool" where
  "holds t r \<longleftrightarrow> (\<exists>i row. record_id r = Some i \<and> t i = Some row \<and> map_of r \<subseteq>\<^sub>m row)"

lemma put_record_effect:
  assumes "target_ok t" and "map_of r ''id'' = Some (SqlInt64 i)" and "set cols = set (map fst r)"
  obtains row where "put_record cols r t = t(i \<mapsto> row)" "map_of r \<subseteq>\<^sub>m row" "row ''id'' = Some (SqlInt64 i)"
proof (cases "t i")
  case None
  then show ?thesis using that [of "map_of r"] assms(2) by (simp add: put_record_def upsert_row_def)
next
  case (Some old)
  let ?row = "old ++ (map_of r |` set (filter (\<lambda>c. c \<noteq> ''id'') cols))"
  have id: "old ''id'' = Some (SqlInt64 i)" using assms(1) Some by (simp add: target_ok_def)
  have "?row ''id'' = Some (SqlInt64 i)" using id by (simp add: map_add_def restrict_map_def)
  moreover have "map_of r \<subseteq>\<^sub>m ?row"
    unfolding map_le_def
  proof
    fix c
    assume c1: "c \<in> dom (map_of r)"
    then have "c \<in> set cols" using assms(3) by (simp add: dom_map_of_conv_image_fst)
    moreover have "map_of r c \<noteq> None" using c1 by blast
    ultimately have c: "c \<in> set cols" "map_of r c \<noteq> None" .
    show "map_of r c = ?row c"
    proof (cases "c = ''id''")
      case True
      then show ?thesis using assms(2) id by (simp add: map_add_def restrict_map_def)
    next
      case False
      then show ?thesis using c by (auto simp: map_add_def restrict_map_def split: option.split)
    qed
  qed
  ultimately show ?thesis using that [of ?row] Some assms(2) by (simp add: put_record_def upsert_row_def)
qed

lemma put_record_keeps:
  assumes "source_ok src" and "r \<in> set (source_records src)" and "set cols = set (so_columns src)" and "target_ok t"
  shows "target_ok (put_record cols r t)" and "holds (put_record cols r t) r"
    and "r' \<in> set (source_records src) \<Longrightarrow> holds t r' \<Longrightarrow> holds (put_record cols r t) r'"
    and "j \<notin> set (source_ids src) \<Longrightarrow> put_record cols r t j = t j"
proof -
  obtain i where i: "record_id r = Some i" "map_of r ''id'' = Some (SqlInt64 i)" "i \<in> set (source_ids src)"
    by (rule record_has_id [OF assms(1,2)])
  obtain row where row: "put_record cols r t = t(i \<mapsto> row)" "map_of r \<subseteq>\<^sub>m row" "row ''id'' = Some (SqlInt64 i)"
    by (rule put_record_effect [OF assms(4) i(2), of cols]) (use assms(3) record_keys(2) [OF assms(1,2)] in simp)
  show "target_ok (put_record cols r t)" using assms(4) row by (auto simp: target_ok_def)
  show h: "holds (put_record cols r t) r" using i(1) row by (auto simp: holds_def)
  show "holds (put_record cols r t) r'" if r': "r' \<in> set (source_records src)" "holds t r'"
  proof (cases "record_id r' = Some i")
    case True
    then show ?thesis using same_id_same_record [OF assms(1,2) r'(1) i(1)] h by simp
  next
    case False
    then show ?thesis using r'(2) row(1) by (auto simp: holds_def)
  qed
  show "put_record cols r t j = t j" if "j \<notin> set (source_ids src)" using that i(3) row(1) by auto
qed

lemma put_records_keep:
  assumes "source_ok src" and "set rs \<subseteq> set (source_records src)" and "set cols = set (so_columns src)" and "target_ok t"
  shows "target_ok (fold (put_record cols) rs t) \<and> (\<forall>r \<in> set rs. holds (fold (put_record cols) rs t) r) \<and>
    (\<forall>r \<in> set (source_records src). holds t r \<longrightarrow> holds (fold (put_record cols) rs t) r) \<and>
    (\<forall>j. j \<notin> set (source_ids src) \<longrightarrow> fold (put_record cols) rs t j = t j)"
  using assms(2,4)
proof (induction rs arbitrary: t)
  case Nil
  then show ?case by simp
next
  case (Cons r rs)
  have r: "r \<in> set (source_records src)" using Cons.prems(1) by simp
  note k = put_record_keeps [OF assms(1) r assms(3) Cons.prems(2)]
  note ih = Cons.IH [OF _ k(1)]
  show ?case using ih Cons.prems(1) k(2,3,4) by auto
qed

lemma migrate_effect:
  assumes "source_ok src" and "set rs \<subseteq> set (source_records src)" and "target_ok t"
    and "migrateChunkData rs a t = Some (err, t')"
  shows "target_ok t'" and "err = None \<Longrightarrow> r \<in> set rs \<Longrightarrow> holds t' r"
    and "r' \<in> set (source_records src) \<Longrightarrow> holds t r' \<Longrightarrow> holds t' r'"
    and "j \<notin> set (source_ids src) \<Longrightarrow> t' j = t j"
proof -
  let ?cols = "sort (map fst (hd rs))" and ?put = "fold (put_record (sort (map fst (hd rs)))) rs t"
  have *: "t' = t \<and> (err = None \<longrightarrow> rs = []) \<or> t' = ?put \<and> rs \<noteq> []"
  proof (cases "rs = []")
    case True
    then show ?thesis using assms(4) by (simp add: migrateChunkData_def)
  next
    case False
    have k: "\<forall>r \<in> set rs. set ?cols = set (map fst r)"
      using record_keys(2) [OF assms(1)] assms(2) False by (metis hd_in_set set_sort subsetD)
    have "t' = t \<and> err \<noteq> None \<or> t' = fold exec_upsert (migrate_batches ?cols rs) t \<and> ?cols \<noteq> [] \<and> length ?cols \<le> maxBindParams"
      using assms(4) False by (auto simp: migrateChunkData_def Let_def split: migrate_answer.splits if_splits)
    moreover have "fold exec_upsert (migrate_batches ?cols rs) t = ?put" if "?cols \<noteq> []" "length ?cols \<le> maxBindParams"
      using that by (intro exec_batches [OF k]) (metis div_greater_zero_iff length_greater_0_conv)
    ultimately show ?thesis using False by auto
  qed
  have "target_ok t' \<and> (err = None \<longrightarrow> (\<forall>r \<in> set rs. holds t' r)) \<and>
     (\<forall>r \<in> set (source_records src). holds t r \<longrightarrow> holds t' r) \<and> (\<forall>j. j \<notin> set (source_ids src) \<longrightarrow> t' j = t j)"
  proof (cases "t' = ?put \<and> rs \<noteq> []")
    case True
    then have "hd rs \<in> set (source_records src)" using assms(2) by (meson hd_in_set subsetD)
    then have "set ?cols = set (so_columns src)" using record_keys(2) [OF assms(1)] by simp
    then show ?thesis using put_records_keep [OF assms(1,2) _ assms(3), of ?cols] True by blast
  next
    case False
    then show ?thesis using * assms(3) by auto
  qed
  then show "target_ok t'" "err = None \<Longrightarrow> r \<in> set rs \<Longrightarrow> holds t' r"
    "r' \<in> set (source_records src) \<Longrightarrow> holds t r' \<Longrightarrow> holds t' r'" "j \<notin> set (source_ids src) \<Longrightarrow> t' j = t j" by blast+
qed

section \<open>The invariant\<close>

definition range_of :: "ChunkInfo \<Rightarrow> int \<times> int \<times> int" where
  "range_of c = (ci_ID c, ci_StartID c, ci_EndID c)"

definition covered :: "source_table \<Rightarrow> target_table \<Rightarrow> int \<times> int \<times> int \<Rightarrow> bool" where
  "covered src t rg = (\<forall>r \<in> set (select_range src (fst (snd rg)) (snd (snd rg))). holds t r)"

text \<open>The table of chunks holds chunks of the plan, and what it says is completed is in the target.\<close>

definition table_ok :: "source_table \<Rightarrow> ChunkInfo list \<Rightarrow> target_table \<Rightarrow> ChunkInfo list \<Rightarrow> bool" where
  "table_ok src plan t table \<longleftrightarrow> distinct (map ci_ID table) \<and> range_of ` set table \<subseteq> range_of ` set plan \<and>
     (\<forall>c \<in> set table. ci_Status c = ChunkCompleted \<longrightarrow> covered src t (range_of c))"

definition job_ok :: "source_table \<Rightarrow> ChunkInfo list \<Rightarrow> target_table \<Rightarrow> mig_job \<Rightarrow> bool" where
  "job_ok src plan t j \<longleftrightarrow> range_of (jb_chunk j) \<in> range_of ` set plan \<and>
     (case jb_phase j of
        JWrites rs \<Rightarrow> rs = select_range src (ci_StartID (jb_chunk j)) (ci_EndID (jb_chunk j))
      | JMarks \<Rightarrow> covered src t (range_of (jb_chunk j))
      | JReturned r \<Rightarrow> r = None \<longrightarrow> covered src t (range_of (jb_chunk j))
      | _ \<Rightarrow> True)"

text \<open>Every chunk of the plan is in the target, or still to be started, or has a goroutine.\<close>

definition accounted :: "source_table \<Rightarrow> ChunkInfo list \<Rightarrow> migration \<Rightarrow> bool" where
  "accounted src plan s \<longleftrightarrow> (\<forall>c \<in> set plan. covered src (mg_target s) (range_of c) \<or>
     range_of c \<in> range_of ` set (mg_queue s) \<or> range_of c \<in> set (map (\<lambda>j. range_of (jb_chunk j)) (mg_jobs s)))"

definition mig_inv :: "source_table \<times> MigrationConfig \<times> target_table \<Rightarrow> migration \<Rightarrow> bool" where
  "mig_inv = (\<lambda>(src, cfg, t0) s. let plan = plan_of (mc_ChunkSize cfg) src in
     mg_config s = cfg \<and> target_ok (mg_target s) \<and> (\<forall>j. j \<notin> set (source_ids src) \<longrightarrow> mg_target s j = t0 j) \<and>
     table_ok src plan (mg_target s) (mg_chunks s) \<and> range_of ` set (mg_queue s) \<subseteq> range_of ` set plan \<and>
     (\<forall>j \<in> set (mg_jobs s). job_ok src plan (mg_target s) j) \<and> slots_used s \<le> mc_MaxConcurrency cfg \<and>
     (mg_stage s = MigRunning \<longrightarrow> accounted src plan s) \<and>
     (mg_stage s = MigEnded [] \<longrightarrow> (\<forall>c \<in> set plan. covered src (mg_target s) (range_of c))))"

definition grows :: "source_table \<Rightarrow> target_table \<Rightarrow> target_table \<Rightarrow> bool" where
  "grows src t t' \<longleftrightarrow> target_ok t' \<and> (\<forall>r \<in> set (source_records src). holds t r \<longrightarrow> holds t' r) \<and>
     (\<forall>j. j \<notin> set (source_ids src) \<longrightarrow> t' j = t j)"

lemma covered_grows: "grows src t t' \<Longrightarrow> covered src t rg \<Longrightarrow> covered src t' rg"
  by (auto simp: covered_def grows_def set_select_range)

lemma table_ok_grows: "grows src t t' \<Longrightarrow> table_ok src plan t table \<Longrightarrow> table_ok src plan t' table"
  using covered_grows by (simp add: table_ok_def)

lemma job_ok_grows: "grows src t t' \<Longrightarrow> job_ok src plan t j \<Longrightarrow> job_ok src plan t' j"
  using covered_grows by (auto simp: job_ok_def split: mig_phase.splits)

lemma plan_ids:
  assumes "source_ok src" and "plan_fits n src"
  shows "distinct (map ci_ID (plan_of n src))"
    and "i \<in> set (source_ids src) \<Longrightarrow> \<exists>c \<in> set (plan_of n src). ci_StartID c \<le> i \<and> i \<le> ci_EndID c"
proof -
  obtain cs where cs: "createChunkPlan n src None (int (length (so_rows src))) = Some (Inr cs)"
    "map ci_ID cs = map int [0 ..< length cs]"
    "\<forall>i \<in> set (source_ids src). \<exists>!c. c \<in> set cs \<and> ci_StartID c \<le> i \<and> i \<le> ci_EndID c"
    using plan_partition [OF assms] by blast
  have p: "plan_of n src = cs" by (simp add: plan_of_def cs(1))
  show "distinct (map ci_ID (plan_of n src))" by (simp only: p cs(2) distinct_map) (simp add: inj_on_def)
  show "i \<in> set (source_ids src) \<Longrightarrow> \<exists>c \<in> set (plan_of n src). ci_StartID c \<le> i \<and> i \<le> ci_EndID c"
    using cs(3) p by blast
qed

lemma same_id_same_range:
  assumes "distinct (map ci_ID plan)" and "range_of c \<in> range_of ` set plan" and "range_of c' \<in> range_of ` set plan"
    and "ci_ID c = ci_ID c'"
  shows "range_of c = range_of c'"
proof -
  obtain p p' where p: "p \<in> set plan" "range_of c = range_of p" "p' \<in> set plan" "range_of c' = range_of p'"
    using assms(2,3) by auto
  then have "ci_ID p = ci_ID p'" using assms(4) by (simp add: range_of_def)
  then show ?thesis using p assms(1) by (metis distinct_map inj_onD)
qed

lemma range_overwrite [simp]: "range_of (overwrite_chunk c old) = range_of old"
  by (simp add: range_of_def overwrite_chunk_def)

lemma update_table_ok:
  assumes "distinct (map ci_ID plan)" and "table_ok src plan t table" and "range_of c \<in> range_of ` set plan"
    and "ci_Status c = ChunkCompleted \<Longrightarrow> covered src t (range_of c)"
  shows "table_ok src plan t (updateChunkStatus a c table)"
proof (cases "a = None \<and> has_chunk (ci_ID c) table")
  case True
  define f where "f = (\<lambda>old. if ci_ID old = ci_ID c then overwrite_chunk c old else old)"
  have u: "updateChunkStatus a c table = map f table" using True by (simp add: updateChunkStatus_def f_def)
  have f: "ci_ID (f old) = ci_ID old" "range_of (f old) = range_of old" for old by (simp_all add: f_def overwrite_chunk_def range_of_def)
  have "covered src t (range_of (f old))" if old: "old \<in> set table" "ci_Status (f old) = ChunkCompleted" for old
  proof (cases "ci_ID old = ci_ID c")
    case True
    moreover have "range_of old \<in> range_of ` set plan" using old(1) assms(2) by (simp add: table_ok_def image_subset_iff)
    ultimately have "range_of old = range_of c" using same_id_same_range [OF assms(1) _ assms(3)] by blast
    then show ?thesis using old(2) True assms(4) by (simp add: f(2)) (simp add: f_def overwrite_chunk_def)
  next
    case False
    then show ?thesis using old assms(2) by (simp add: f_def table_ok_def)
  qed
  moreover have "distinct (map ci_ID (map f table))" using assms(2) by (simp add: f table_ok_def o_def)
  moreover have "range_of ` set (map f table) \<subseteq> range_of ` set plan" using assms(2) by (simp add: f table_ok_def image_image)
  ultimately show ?thesis unfolding u by (auto simp: table_ok_def)
next
  case False
  then show ?thesis using assms(2-4) by (auto simp: updateChunkStatus_def has_chunk_def table_ok_def split: option.splits)
qed

section \<open>Preparation\<close>

lemma insert_table_ok:
  assumes "distinct (map ci_ID plan)" and "table_ok src plan t table" and "c \<in> set plan" and "ci_Status c = ChunkPending"
  shows "table_ok src plan t (insert_chunk c table)" and "range_of c \<in> range_of ` set (insert_chunk c table)"
    and "range_of ` set table \<subseteq> range_of ` set (insert_chunk c table)"
proof -
  show "table_ok src plan t (insert_chunk c table)"
    using assms(2-4) by (auto simp: insert_chunk_def has_chunk_def table_ok_def)
  show "range_of ` set table \<subseteq> range_of ` set (insert_chunk c table)" by (auto simp: insert_chunk_def)
  show "range_of c \<in> range_of ` set (insert_chunk c table)"
  proof (cases "has_chunk (ci_ID c) table")
    case True
    then obtain old where old: "old \<in> set table" "ci_ID old = ci_ID c" by (auto simp: has_chunk_def)
    have "range_of old \<in> range_of ` set plan" using old(1) assms(2) by (simp add: table_ok_def image_subset_iff)
    then have "range_of old = range_of c" using same_id_same_range [OF assms(1)] old(2) assms(3) by blast
    then show ?thesis using True old(1) by (metis image_eqI insert_chunk_def)
  next
    case False
    then show ?thesis by (simp add: insert_chunk_def)
  qed
qed

lemma chain_images:
  assumes "p \<and> range_of ` set table1 \<subseteq> range_of ` set table2 \<and> (e = None \<longrightarrow> range_of ` set cs \<subseteq> range_of ` set table2)"
    and "range_of c \<in> range_of ` set table1" and "range_of ` set table \<subseteq> range_of ` set table1"
  shows "p \<and> range_of ` set table \<subseteq> range_of ` set table2 \<and> (e = None \<longrightarrow> range_of ` set (c # cs) \<subseteq> range_of ` set table2)"
proof -
  have "range_of ` set table \<subseteq> range_of ` set table2" using assms(1,3) by (meson order_trans)
  moreover have "range_of c \<in> range_of ` set table2" using assms(1,2) by (meson subsetD)
  ultimately show ?thesis using assms(1) by simp
qed

lemma save_table_ok:
  assumes "distinct (map ci_ID plan)" and "set cs \<subseteq> set plan" and "\<forall>c \<in> set cs. ci_Status c = ChunkPending"
    and "table_ok src plan t table" and "saveChunkPlan cs answers table = (err, table')"
  shows "table_ok src plan t table' \<and> range_of ` set table \<subseteq> range_of ` set table' \<and>
    (err = None \<longrightarrow> range_of ` set cs \<subseteq> range_of ` set table')"
  using assms(2-5)
proof (induction cs answers table rule: saveChunkPlan.induct)
  case (3 c cs answers table)
  then have c: "c \<in> set plan" "ci_Status c = ChunkPending" "set cs \<subseteq> set plan" "\<forall>c \<in> set cs. ci_Status c = ChunkPending"
    and save: "saveChunkPlan cs answers (insert_chunk c table) = (err, table')" by simp_all
  note k = insert_table_ok [OF assms(1) 3(4) c(1,2)]
  show ?case using 3(1) [OF c(3,4) k(1) save] k(2,3) by (rule chain_images)
next
  case (4 c cs table)
  then have c: "c \<in> set plan" "ci_Status c = ChunkPending" "set cs \<subseteq> set plan" "\<forall>c \<in> set cs. ci_Status c = ChunkPending"
    and save: "saveChunkPlan cs [] (insert_chunk c table) = (err, table')" by simp_all
  note k = insert_table_ok [OF assms(1) 4(4) c(1,2)]
  show ?case using 4(1) [OF c(3,4) k(1) save] k(2,3) by (rule chain_images)
qed auto

lemma plan_pending:
  assumes "source_ok src" and "plan_fits n src" and "c \<in> set (plan_of n src)"
  shows "ci_Status c = ChunkPending"
proof (cases "so_rows src = []")
  case True
  then show ?thesis using assms(3) by (simp add: plan_of_def createChunkPlan_def)
next
  case False
  show ?thesis using conjunct1 [OF plan_shape [OF assms(1,2) False]] assms(3) by (auto simp: plan_of_def new_chunk_def)
qed

lemma created_plan:
  assumes "createChunkPlan n src a (int (length (so_rows src))) = Some (Inr cs)"
  shows "plan_of n src = cs"
proof (cases "so_rows src = [] \<or> a = None")
  case True
  then have "createChunkPlan n src None (int (length (so_rows src))) = Some (Inr cs)"
    using assms by (auto simp: createChunkPlan_def)
  then show ?thesis by (simp add: plan_of_def)
next
  case False
  then show ?thesis using assms by (auto simp: createChunkPlan_def getIDRange_def)
qed

lemma mig_inv_parts:
  assumes "mig_inv (src, cfg, t0) s"
  shows "mg_config s = cfg" and "target_ok (mg_target s)" and "j \<notin> set (source_ids src) \<Longrightarrow> mg_target s j = t0 j"
    and "table_ok src (plan_of (mc_ChunkSize cfg) src) (mg_target s) (mg_chunks s)"
    and "range_of ` set (mg_queue s) \<subseteq> range_of ` set (plan_of (mc_ChunkSize cfg) src)"
    and "job \<in> set (mg_jobs s) \<Longrightarrow> job_ok src (plan_of (mc_ChunkSize cfg) src) (mg_target s) job"
    and "slots_used s \<le> mc_MaxConcurrency cfg"
    and "mg_stage s = MigRunning \<Longrightarrow> accounted src (plan_of (mc_ChunkSize cfg) src) s"
    and "mg_stage s = MigEnded [] \<Longrightarrow> c \<in> set (plan_of (mc_ChunkSize cfg) src) \<Longrightarrow> covered src (mg_target s) (range_of c)"
  using assms by (simp_all add: mig_inv_def Let_def)

lemma mig_inv_frame:
  assumes "mig_inv c s" and "mg_config s' = mg_config s" and "mg_target s' = mg_target s" and "mg_chunks s' = mg_chunks s"
    and "mg_stage s' = mg_stage s" and "mg_queue s' = mg_queue s" and "mg_jobs s' = mg_jobs s"
  shows "mig_inv c s'"
  using assms by (cases c) (simp add: mig_inv_def accounted_def slots_used_def Let_def)

lemma mig_inv_idle:
  assumes "mig_inv (src, cfg, t0) s" and "mg_config s' = cfg" and "mg_target s' = mg_target s"
    and "table_ok src (plan_of (mc_ChunkSize cfg) src) (mg_target s) (mg_chunks s')"
    and "mg_stage s' \<noteq> MigRunning" and "mg_stage s' \<noteq> MigEnded []"
    and "mg_queue s' = [] \<and> mg_jobs s' = [] \<or> mg_queue s' = mg_queue s \<and> mg_jobs s' = mg_jobs s"
  shows "mig_inv (src, cfg, t0) s'"
  using assms by (auto simp: mig_inv_def slots_used_def Let_def)

lemma restarted_inv:
  assumes "mig_inv (src, cfg, t0) s"
  shows "mig_inv (src, cfg, t0) (restarted s)"
  by (rule mig_inv_idle [OF assms]) (use mig_inv_parts [OF assms] in \<open>simp_all add: restarted_def NewMigrationManager_def\<close>)

lemma prepare_inv:
  assumes "source_ok src" and "plan_fits (mc_ChunkSize cfg) src" and "mig_inv (src, cfg, t0) s"
    and "prepareMigration src a s = Some (err, s1)"
  shows "table_ok src (plan_of (mc_ChunkSize cfg) src) (mg_target s) (mg_chunks s1) \<and>
    (err = None \<longrightarrow> range_of ` set (plan_of (mc_ChunkSize cfg) src) \<subseteq> range_of ` set (mg_chunks s1)) \<and>
    mg_config s1 = mg_config s \<and> mg_target s1 = mg_target s \<and> mg_stage s1 = mg_stage s \<and> mg_queue s1 = mg_queue s \<and>
    mg_jobs s1 = mg_jobs s"
proof -
  let ?plan = "plan_of (mc_ChunkSize cfg) src"
  note parts = mig_inv_parts [OF assms(3)]
  show ?thesis
  proof (cases "err \<noteq> None \<and> s1 = s")
    case True
    then show ?thesis using parts(4) by auto
  next
    case False
    then obtain cs where c: "createChunkPlan (mc_ChunkSize cfg) src (pa_range a) (int (length (so_rows src))) = Some (Inr cs)"
      and r: "(let (e, table) = saveChunkPlan cs (pa_saves a) (mg_chunks s) in (map_option MigFailed e,
           s\<lparr>mg_metrics := (mg_metrics s)\<lparr>me_totalChunks := int (length cs)\<rparr>, mg_chunks := table\<rparr>)) = (err, s1)"
      using assms(4) parts(1)
      by (cases "createChunkPlan (mc_ChunkSize cfg) src (pa_range a) (int (length (so_rows src)))")
        (auto simp: prepareMigration_def getTotalRecordCount_def split: option.splits sum.splits)
    have p: "?plan = cs" by (rule created_plan [OF c])
    obtain e table where sv: "saveChunkPlan cs (pa_saves a) (mg_chunks s) = (e, table)" by fastforce
    have "table_ok src ?plan (mg_target s) table \<and> range_of ` set (mg_chunks s) \<subseteq> range_of ` set table \<and>
      (e = None \<longrightarrow> range_of ` set cs \<subseteq> range_of ` set table)"
      using save_table_ok [OF plan_ids(1) [OF assms(1,2)] _ _ parts(4) sv] plan_pending [OF assms(1,2)] p by simp
    then show ?thesis using r sv p by (cases e) auto
  qed
qed

lemma range_loaded [simp]: "range_of (loaded c) = range_of c"
  by (simp add: range_of_def loaded_def)

lemma begin_inv:
  assumes "mig_inv (src, cfg, t0) s" and "mg_config s1 = mg_config s" and "mg_target s1 = mg_target s"
    and "table_ok src (plan_of (mc_ChunkSize cfg) src) (mg_target s) (mg_chunks s1)"
    and "range_of ` set (plan_of (mc_ChunkSize cfg) src) \<subseteq> range_of ` set (mg_chunks s1)"
    and "mg_queue s1 = mg_queue s" and "mg_jobs s1 = mg_jobs s"
  shows "mig_inv (src, cfg, t0) (execute_begin a s1)"
proof (cases a)
  case (Some e)
  then show ?thesis using assms mig_inv_parts(1) [OF assms(1)]
    by (intro mig_inv_idle [OF assms(1)]) (simp_all add: execute_begin_def loadChunkPlan_def ended_def)
next
  case None
  let ?plan = "plan_of (mc_ChunkSize cfg) src" and ?q = "filterPendingChunks (map loaded (sort_key ci_ID (mg_chunks s1)))"
  have b: "execute_begin a s1 = s1\<lparr>mg_stage := MigRunning, mg_queue := ?q, mg_jobs := [], mg_paused := False\<rparr>"
    by (simp add: None execute_begin_def loadChunkPlan_def)
  have q: "range_of ` set ?q = range_of ` {c \<in> set (mg_chunks s1). ci_Status c \<noteq> ChunkCompleted}"
  proof -
    have st: "ci_Status (loaded c) = ci_Status c" for c by (simp add: loaded_def)
    have "set ?q = loaded ` {c \<in> set (mg_chunks s1). ci_Status c \<noteq> ChunkCompleted}"
      by (auto simp: filterPendingChunks_def st)
    then show ?thesis by (simp add: image_image)
  qed
  have "covered src (mg_target s) (range_of c) \<or> range_of c \<in> range_of ` set ?q" if c: "c \<in> set ?plan" for c
  proof -
    have "range_of c \<in> range_of ` set (mg_chunks s1)" using assms(5) c by blast
    then obtain d where d: "d \<in> set (mg_chunks s1)" "range_of c = range_of d" by blast
    show ?thesis
    proof (cases "ci_Status d = ChunkCompleted")
      case True
      then show ?thesis using assms(4) d by (simp add: table_ok_def)
    next
      case False
      then have "range_of d \<in> range_of ` set ?q" using d(1) unfolding q by blast
      then show ?thesis using d(2) by simp
    qed
  qed
  moreover have "range_of ` set ?q \<subseteq> range_of ` set ?plan" using assms(4) unfolding q table_ok_def by blast
  ultimately show ?thesis using mig_inv_parts(1-4) [OF assms(1)] assms(2-4)
    by (simp add: b mig_inv_def Let_def accounted_def slots_used_def)
qed

lemma start_inv:
  assumes "source_ok src" and "plan_fits (mc_ChunkSize cfg) src" and "mig_inv (src, cfg, t0) s"
    and "mg_stage s \<noteq> MigRunning" and "StartMigration src a s = Some s'"
  shows "mig_inv (src, cfg, t0) s'"
proof -
  obtain err s1 where p: "prepareMigration src a s = Some (err, s1)"
    and s': "s' = (case err of None \<Rightarrow> execute_begin (pa_load a) s1 | Some MigPanic \<Rightarrow> restarted s1 | Some e \<Rightarrow> ended [e] s1)"
    using assms(5) by (auto simp: StartMigration_def)
  note k = prepare_inv [OF assms(1-3) p]
  show ?thesis
  proof (cases err)
    case None
    then show ?thesis using begin_inv [OF assms(3)] k s' by simp
  next
    case (Some e)
    then show ?thesis using k s' assms(4) mig_inv_parts(1) [OF assms(3)]
      by (intro mig_inv_idle [OF assms(3)])
        (auto simp: restarted_def NewMigrationManager_def ended_def split: mig_error.splits)
  qed
qed

section \<open>Steps keep the invariant\<close>

lemma job_move:
  assumes "mig_inv (src, cfg, t0) s" and "mg_stage s = MigRunning" and "k < length (mg_jobs s)"
    and "grows src (mg_target s) (mg_target s')"
    and "table_ok src (plan_of (mc_ChunkSize cfg) src) (mg_target s') (mg_chunks s')"
    and "mg_jobs s' = (mg_jobs s)[k := \<lparr>jb_chunk = c, jb_phase = p\<rparr>]" and "range_of c = range_of (jb_chunk (mg_jobs s ! k))"
    and "job_ok src (plan_of (mc_ChunkSize cfg) src) (mg_target s') \<lparr>jb_chunk = c, jb_phase = p\<rparr>"
    and "in_slot p \<Longrightarrow> \<not> in_slot (jb_phase (mg_jobs s ! k)) \<Longrightarrow> slots_used s < mc_MaxConcurrency cfg"
    and "mg_config s' = mg_config s" and "mg_stage s' = mg_stage s" and "mg_queue s' = mg_queue s"
  shows "mig_inv (src, cfg, t0) s'"
proof -
  let ?plan = "plan_of (mc_ChunkSize cfg) src"
  note parts = mig_inv_parts [OF assms(1)]
  have "\<forall>j \<in> set (mg_jobs s'). job_ok src ?plan (mg_target s') j"
    unfolding assms(6) by (rule all_set_update) (use parts(6) job_ok_grows [OF assms(4)] assms(8) in auto)
  moreover have "slots_used s' \<le> mc_MaxConcurrency cfg"
    using length_filter_update [OF assms(3), of "\<lambda>j. in_slot (jb_phase j)" "\<lparr>jb_chunk = c, jb_phase = p\<rparr>"] parts(7) assms(9)
    unfolding slots_used_def assms(6) by (auto split: if_splits)
  moreover have "accounted src ?plan s'"
  proof -
    have "map (\<lambda>j. range_of (jb_chunk j)) (mg_jobs s') = map (\<lambda>j. range_of (jb_chunk j)) (mg_jobs s)"
      using assms(3,7) by (simp add: assms(6) map_update list_update_same_conv)
    then show ?thesis using parts(8) [OF assms(2)] covered_grows [OF assms(4)] unfolding accounted_def assms(12) by metis
  qed
  ultimately show ?thesis using parts(1-5) assms(2,4,5,10-12)
    by (auto simp: mig_inv_def Let_def grows_def)
qed

lemma grows_refl: "target_ok t \<Longrightarrow> grows src t t"
  by (simp add: grows_def)

lemma job_stepE:
  assumes "job_step k f s = Some s'"
  obtains "k < length (mg_jobs s)" "mg_stage s = MigRunning" "f (jb_chunk (mg_jobs s ! k)) (jb_phase (mg_jobs s ! k)) = Some s'"
  using assms by (auto simp: job_step_def split: if_splits)

lemma spawn_inv:
  assumes "mig_inv (src, cfg, t0) s" and "mg_queue s \<noteq> []" and "mg_stage s = MigRunning"
  shows "mig_inv (src, cfg, t0) (spawn_next s)"
proof -
  note parts = mig_inv_parts [OF assms(1)]
  obtain c q where q: "mg_queue s = c # q" using assms(2) by (cases "mg_queue s") auto
  have "accounted src (plan_of (mc_ChunkSize cfg) src) (spawn_next s)"
    using parts(8) assms(3) by (auto simp: accounted_def spawn_next_def q)
  moreover have "range_of ` set q \<subseteq> range_of ` set (plan_of (mc_ChunkSize cfg) src)"
    and "job_ok src (plan_of (mc_ChunkSize cfg) src) (mg_target s) \<lparr>jb_chunk = c, jb_phase = JWaits\<rparr>"
    using parts(5) q by (simp_all add: job_ok_def)
  moreover have "mg_config (spawn_next s) = mg_config s" "mg_target (spawn_next s) = mg_target s"
    "mg_chunks (spawn_next s) = mg_chunks s" "mg_queue (spawn_next s) = q" "mg_stage (spawn_next s) = MigRunning"
    "mg_jobs (spawn_next s) = mg_jobs s @ [\<lparr>jb_chunk = c, jb_phase = JWaits\<rparr>]" "slots_used (spawn_next s) = slots_used s"
    using assms(3) by (simp_all add: spawn_next_def q slots_used_def in_slot_def)
  ultimately show ?thesis using parts(1-4,6,7)
    by (simp add: mig_inv_def Let_def)
qed

lemma set_job_fields [simp]:
  "mg_config (set_job k c p s) = mg_config s" "mg_target (set_job k c p s) = mg_target s"
  "mg_chunks (set_job k c p s) = mg_chunks s" "mg_queue (set_job k c p s) = mg_queue s" "mg_stage (set_job k c p s) = mg_stage s"
  "mg_jobs (set_job k c p s) = (mg_jobs s)[k := \<lparr>jb_chunk = c, jb_phase = p\<rparr>]"
  by (simp_all add: set_job_def)

lemma store_chunk_fields [simp]:
  "mg_config (store_chunk a c s) = mg_config s" "mg_target (store_chunk a c s) = mg_target s"
  "mg_chunks (store_chunk a c s) = updateChunkStatus a c (mg_chunks s)" "mg_queue (store_chunk a c s) = mg_queue s"
  "mg_stage (store_chunk a c s) = mg_stage s" "mg_jobs (store_chunk a c s) = mg_jobs s"
  by (simp_all add: store_chunk_def)

lemma range_status [simp]:
  "range_of (c\<lparr>ci_Status := st\<rparr>) = range_of c" "range_of (c\<lparr>ci_StartTime := x\<rparr>) = range_of c"
  "range_of (c\<lparr>ci_EndTime := x\<rparr>) = range_of c" "range_of (c\<lparr>ci_RecordCount := n\<rparr>) = range_of c"
  "range_of (c\<lparr>ci_ErrorMsg := e\<rparr>) = range_of c"
  by (simp_all add: range_of_def)

lemma chunk_begin_inv:
  assumes "source_ok src" and "plan_fits (mc_ChunkSize cfg) src" and "mig_inv (src, cfg, t0) s"
    and "mg_stage s = MigRunning" and "k < length (mg_jobs s)" and "jb_phase (mg_jobs s ! k) = JWaits"
    and "chunk_begin k now a (jb_chunk (mg_jobs s ! k)) s = Some s'"
  shows "mig_inv (src, cfg, t0) s'"
proof -
  note parts = mig_inv_parts [OF assms(3)]
  define c where "c = (jb_chunk (mg_jobs s ! k))\<lparr>ci_Status := ChunkProcessing, ci_StartTime := Some now\<rparr>"
  have s': "s' = set_job k c JReads (store_chunk a c s)" and room: "slots_used s < mc_MaxConcurrency cfg"
    using assms(7) parts(1) by (simp_all add: chunk_begin_def c_def Let_def split: if_splits)
  have r: "range_of c = range_of (jb_chunk (mg_jobs s ! k))" "range_of c \<in> range_of ` set (plan_of (mc_ChunkSize cfg) src)"
    using parts(6) [OF nth_mem [OF assms(5)]] by (simp_all add: c_def job_ok_def)
  show ?thesis unfolding s'
    by (rule job_move [OF assms(3,4,5), where c = c and p = JReads])
      (use update_table_ok [OF plan_ids(1) [OF assms(1,2)] parts(4) r(2), of a] r room grows_refl parts(2) in
        \<open>simp_all add: job_ok_def c_def\<close>)
qed

lemma chunk_read_inv:
  assumes "mig_inv (src, cfg, t0) s" and "mg_stage s = MigRunning" and "k < length (mg_jobs s)"
    and "jb_phase (mg_jobs s ! k) = JReads"
  shows "mig_inv (src, cfg, t0) (chunk_read src k a (jb_chunk (mg_jobs s ! k)) s)"
proof -
  note parts = mig_inv_parts [OF assms(1)]
  let ?c = "jb_chunk (mg_jobs s ! k)"
  have r: "range_of ?c \<in> range_of ` set (plan_of (mc_ChunkSize cfg) src)"
    using parts(6) [OF nth_mem [OF assms(3)]] by (simp add: job_ok_def)
  show ?thesis
  proof (cases a)
    case None
    define c where "c = ?c\<lparr>ci_RecordCount := int (length (select_range src (ci_StartID ?c) (ci_EndID ?c)))\<rparr>"
    have "chunk_read src k a ?c s = set_job k c (JWrites (select_range src (ci_StartID ?c) (ci_EndID ?c))) s"
      by (simp add: None chunk_read_def getChunkData_def c_def)
    then show ?thesis
      by (simp only:, intro job_move [OF assms(1,2,3), where c = c])
        (use parts(2,4) grows_refl r assms(4) in \<open>auto simp: job_ok_def c_def in_slot_def\<close>)
  next
    case (Some e)
    then have "chunk_read src k a ?c s = set_job k ?c (JFails e) s" by (simp add: chunk_read_def getChunkData_def)
    then show ?thesis
      by (simp only:, intro job_move [OF assms(1,2,3), where c = ?c])
        (use parts(2,4) grows_refl r assms(4) in \<open>auto simp: job_ok_def in_slot_def\<close>)
  qed
qed

lemma chunk_write_inv:
  assumes "source_ok src" and "mig_inv (src, cfg, t0) s" and "mg_stage s = MigRunning" and "k < length (mg_jobs s)"
    and "jb_phase (mg_jobs s ! k) = JWrites rs"
  shows "mig_inv (src, cfg, t0) (chunk_write k a rs (jb_chunk (mg_jobs s ! k)) s)"
proof -
  note parts = mig_inv_parts [OF assms(2)]
  let ?c = "jb_chunk (mg_jobs s ! k)"
  have j: "range_of ?c \<in> range_of ` set (plan_of (mc_ChunkSize cfg) src)" "rs = select_range src (ci_StartID ?c) (ci_EndID ?c)"
    using parts(6) [OF nth_mem [OF assms(4)]] assms(5) by (simp_all add: job_ok_def)
  have sub: "set rs \<subseteq> set (source_records src)" by (auto simp: j(2) set_select_range)
  show ?thesis
  proof (cases "migrateChunkData rs a (mg_target s)")
    case None
    then show ?thesis using restarted_inv [OF assms(2)] by (simp add: chunk_write_def)
  next
    case (Some x)
    then obtain err t where m: "migrateChunkData rs a (mg_target s) = Some (err, t)" by (cases x) auto
    note e = migrate_effect [OF assms(1) sub parts(2) m]
    have g: "grows src (mg_target s) t" using e(1,3,4) by (auto simp: grows_def)
    have cov: "covered src t (range_of ?c)" if "err = None" using e(2) [OF that] by (auto simp: covered_def range_of_def j(2))
    have w: "chunk_write k a rs ?c s = set_job k ?c (case err of None \<Rightarrow> JMarks | Some e \<Rightarrow> JFails e) (s\<lparr>mg_target := t\<rparr>)"
      by (simp add: chunk_write_def m split: option.split)
    show ?thesis unfolding w
      by (rule job_move [OF assms(2,3,4), where c = ?c and p = "case err of None \<Rightarrow> JMarks | Some e \<Rightarrow> JFails e"])
        (use g j(1) cov table_ok_grows [OF g parts(4)] assms(5) in \<open>auto simp: job_ok_def in_slot_def split: option.splits\<close>)
  qed
qed

lemma chunk_failed_inv:
  assumes "source_ok src" and "plan_fits (mc_ChunkSize cfg) src" and "mig_inv (src, cfg, t0) s"
    and "mg_stage s = MigRunning" and "k < length (mg_jobs s)"
  shows "mig_inv (src, cfg, t0) (chunk_failed k a e (jb_chunk (mg_jobs s ! k)) s)"
proof -
  note parts = mig_inv_parts [OF assms(3)]
  define c where "c = (jb_chunk (mg_jobs s ! k))\<lparr>ci_Status := ChunkFailed, ci_ErrorMsg := e\<rparr>"
  have r: "range_of c = range_of (jb_chunk (mg_jobs s ! k))" "range_of c \<in> range_of ` set (plan_of (mc_ChunkSize cfg) src)"
    using parts(6) [OF nth_mem [OF assms(5)]] by (simp_all add: c_def job_ok_def)
  have st: "ci_Status c \<noteq> ChunkCompleted" by (simp add: c_def)
  show ?thesis
    by (rule job_move [OF assms(3,4,5), where c = c and p = "JReturned (Some e)"])
      (use update_table_ok [OF plan_ids(1) [OF assms(1,2)] parts(4) r(2), of a] r st grows_refl parts(2) in
        \<open>simp_all add: job_ok_def chunk_failed_def Let_def in_slot_def flip: c_def\<close>)
qed

lemma chunk_completed_inv:
  assumes "source_ok src" and "plan_fits (mc_ChunkSize cfg) src" and "mig_inv (src, cfg, t0) s"
    and "mg_stage s = MigRunning" and "k < length (mg_jobs s)" and "jb_phase (mg_jobs s ! k) = JMarks"
  shows "mig_inv (src, cfg, t0) (chunk_completed k now a (jb_chunk (mg_jobs s ! k)) s)"
proof -
  note parts = mig_inv_parts [OF assms(3)]
  define c where "c = (jb_chunk (mg_jobs s ! k))\<lparr>ci_Status := ChunkCompleted, ci_EndTime := Some now\<rparr>"
  have r: "range_of c = range_of (jb_chunk (mg_jobs s ! k))" "range_of c \<in> range_of ` set (plan_of (mc_ChunkSize cfg) src)"
    "covered src (mg_target s) (range_of c)"
    using parts(6) [OF nth_mem [OF assms(5)]] assms(6) by (simp_all add: c_def job_ok_def)
  show ?thesis
    by (rule job_move [OF assms(3,4,5), where c = c and p = "JReturned None"])
      (use update_table_ok [OF plan_ids(1) [OF assms(1,2)] parts(4) r(2), of a] r grows_refl parts(2) in
        \<open>simp_all add: job_ok_def chunk_completed_def Let_def in_slot_def flip: c_def\<close>)
qed

lemma execute_end_inv:
  assumes "mig_inv (src, cfg, t0) s" and "mg_stage s = MigRunning" and "execute_end s = Some s'"
  shows "mig_inv (src, cfg, t0) s'"
proof -
  note parts = mig_inv_parts [OF assms(1)]
  define errs where "errs = concat (map (\<lambda>j. case jb_phase j of JReturned (Some e) \<Rightarrow> [MigFailed e] | _ \<Rightarrow> []) (mg_jobs s))"
  have s': "s' = ended errs s" "mg_queue s = []"
    and ret: "list_all (\<lambda>j. case jb_phase j of JReturned r \<Rightarrow> True | _ \<Rightarrow> False) (mg_jobs s)"
    using assms(3) by (simp_all add: execute_end_def errs_def split: if_splits)
  have "covered src (mg_target s) (range_of c)" if c: "c \<in> set (plan_of (mc_ChunkSize cfg) src)" and e: "errs = []" for c
  proof (cases "covered src (mg_target s) (range_of c)")
    case False
    then obtain j where j: "j \<in> set (mg_jobs s)" "range_of c = range_of (jb_chunk j)"
      using parts(8) [OF assms(2)] c s'(2) by (auto simp: accounted_def)
    obtain r where r: "jb_phase j = JReturned r" using ret j(1) by (cases "jb_phase j") (auto simp: list_all_iff)
    moreover have "r = None" using e j(1) r by (auto simp: errs_def split: option.splits)
    ultimately show ?thesis using parts(6) [OF j(1)] j(2) by (simp add: job_ok_def)
  qed simp
  then show ?thesis using parts(1-7) by (auto simp: s'(1) mig_inv_def Let_def ended_def slots_used_def)
qed

lemma mig_step_inv:
  assumes "source_ok src" and "plan_fits (mc_ChunkSize cfg) src" and "mig_inv (src, cfg, t0) s" and "mig_step src s e = Some s'"
  shows "mig_inv (src, cfg, t0) s'"
proof (cases e)
  case (MStart a)
  then show ?thesis using start_inv [OF assms(1-3)] assms(4) by (simp split: if_splits)
next
  case MCrash
  then show ?thesis using restarted_inv [OF assms(3)] assms(4) by simp
next
  case MNext
  have p: "mig_inv (src, cfg, t0) (next_chunk s)" if "shouldPauseForResources s"
    by (rule mig_inv_frame [OF assms(3)]) (use that in \<open>simp_all add: next_chunk_def\<close>)
  show ?thesis using MNext assms(4) p spawn_inv [OF assms(3)]
    by (cases "shouldPauseForResources s") (simp_all add: next_chunk_def split: if_splits)
next
  case MRecover
  then show ?thesis using assms(4) spawn_inv [OF assms(3)] by (auto simp: waitForResourceRecovery_def split: if_splits)
next
  case (MBegin k now a)
  then show ?thesis using assms(4) chunk_begin_inv [OF assms(1-3)] by (auto elim!: job_stepE split: if_splits)
next
  case (MRead k a)
  then show ?thesis using assms(4) chunk_read_inv [OF assms(3)] by (auto elim!: job_stepE split: if_splits)
next
  case (MWrite k a)
  then show ?thesis using assms(4) chunk_write_inv [OF assms(1,3)] by (auto elim!: job_stepE split: mig_phase.splits)
next
  case (MFailed k a)
  then show ?thesis using assms(4) chunk_failed_inv [OF assms(1-3)] by (auto elim!: job_stepE split: mig_phase.splits)
next
  case (MComplete k now a)
  then show ?thesis using assms(4) chunk_completed_inv [OF assms(1-3)] by (auto elim!: job_stepE split: if_splits)
next
  case MEnd
  then show ?thesis using assms(4) execute_end_inv [OF assms(3)] by (simp split: if_splits)
next
  case (MResources m n)
  show ?thesis by (rule mig_inv_frame [OF assms(3)]) (use MResources assms(4) in auto)
next
  case (MCheckpoint a b)
  show ?thesis
    by (rule mig_inv_frame [OF assms(3)]) (use MCheckpoint assms(4) in \<open>auto simp: saveCheckpoint_def Let_def split: option.splits\<close>)
next
  case MCancel
  show ?thesis by (rule mig_inv_frame [OF assms(3)]) (use MCancel assms(4) in auto)
qed

definition mig_start :: "source_table \<times> MigrationConfig \<times> target_table \<Rightarrow> migration" where
  "mig_start = (\<lambda>(src, cfg, t0). NewMigrationManager cfg t0)"

definition mig_good :: "source_table \<Rightarrow> source_table \<times> MigrationConfig \<times> target_table \<Rightarrow> bool" where
  "mig_good src = (\<lambda>(src', cfg, t0). src' = src \<and> source_ok src \<and> plan_fits (mc_ChunkSize cfg) src \<and> target_ok t0)"

interpretation migration_runs: step_invariant "mig_step src" mig_start mig_inv "mig_good src" for src
proof unfold_locales
  show "mig_inv c (mig_start c)" if "mig_good src c" for c
    using that by (cases c) (simp add: mig_good_def mig_start_def NewMigrationManager_def mig_inv_def Let_def table_ok_def slots_used_def)
  show "mig_inv c s'" if "mig_good src c" "mig_inv c s" "mig_step src s e = Some s'" for c s e s'
    using that mig_step_inv by (cases c) (auto simp: mig_good_def)
qed

text \<open>
  C1. A migration that reports success has copied every row of the source, with all its columns,
  and touched no other row of the target, whatever failed, crashed or was restarted before, and in
  whatever order the chunks were processed; at most the configured number runs at once.
\<close>

theorem migration_complete:
  assumes "source_ok src" and "plan_fits (mc_ChunkSize cfg) src" and "target_ok t0"
    and "run_steps (mig_step src) (NewMigrationManager cfg t0) es = Some s"
  shows "slots_used s \<le> mc_MaxConcurrency cfg \<and> (\<forall>j. j \<notin> set (source_ids src) \<longrightarrow> mg_target s j = t0 j) \<and>
    (mg_stage s = MigEnded [] \<longrightarrow> (\<forall>r \<in> set (source_records src). holds (mg_target s) r))"
proof -
  have i: "mig_inv (src, cfg, t0) s"
    using migration_runs.inv_run [of src "(src, cfg, t0)" es s] assms by (simp add: mig_good_def mig_start_def)
  note parts = mig_inv_parts [OF i]
  have "holds (mg_target s) r" if st: "mg_stage s = MigEnded []" and r: "r \<in> set (source_records src)" for r
  proof -
    obtain k where k: "record_id r = Some k" "k \<in> set (source_ids src)" by (rule record_has_id [OF assms(1) r])
    obtain c where c: "c \<in> set (plan_of (mc_ChunkSize cfg) src)" "ci_StartID c \<le> k" "k \<le> ci_EndID c"
      using plan_ids(2) [OF assms(1,2) k(2)] by blast
    then show ?thesis using parts(9) [OF st c(1)] r k(1) by (auto simp: covered_def range_of_def set_select_range)
  qed
  then show ?thesis using parts(3,7) by blast
qed

section \<open>Runs\<close>

definition small_config :: MigrationConfig where
  "small_config = \<lparr>mc_ChunkSize = 2, mc_MaxConcurrency = 1, mc_MaxMemoryPercent = 70, mc_MaxConnections = 20\<rparr>"

definition no_failure :: prepare_answer where
  "no_failure = \<lparr>pa_tables = None, pa_count = None, pa_range = None, pa_saves = [], pa_load = None\<rparr>"

definition run_chunk :: "nat \<Rightarrow> mig_event list" where
  "run_chunk k = [MBegin k 1 None, MRead k None, MWrite k CommitWorks, MComplete k 2 None]"

text \<open>The first run dies after the commit of the first chunk, the second has a failed commit, the third succeeds.\<close>

definition three_runs :: "mig_event list" where
  "three_runs = [MStart no_failure, MNext, MBegin 0 1 None, MRead 0 None, MWrite 0 CommitWorks, MCrash,
     MStart no_failure, MNext, MNext] @ run_chunk 0 @
     [MBegin 1 3 None, MRead 1 None, MWrite 1 (CommitFails ''reset'' True), MFailed 1 None, MEnd,
     MStart no_failure, MNext] @ run_chunk 0 @ [MEnd]"

lemma plan_end [simp]: "b < a \<Longrightarrow> plan_from d b a k = Some []"
  by (subst plan_from.simps) simp

lemma plan_next [simp]: "a \<le> b \<Longrightarrow> is_int64 (a + d) \<Longrightarrow> is_int64 (a + d - 1) \<Longrightarrow>
  plan_from d b a k = Option.bind (plan_from d b (a + d) (k + 1)) (\<lambda>cs. Some (new_chunk k a (min (a + d - 1) b) # cs))"
  by (subst plan_from.simps) simp

lemmas prepare_simps = StartMigration_def prepareMigration_def no_failure_def getTotalRecordCount_def createChunkPlan_def
  getIDRange_def source_ids_def source_records_def scan_row_def record_id_def optimized_size_def go_div_def is_int64_def
  new_chunk_def insert_chunk_def has_chunk_def execute_begin_def loadChunkPlan_def filterPendingChunks_def loaded_def
  NewMigrationManager_def restarted_def small_config_def ended_def

lemmas execute_simps = next_chunk_def shouldPauseForResources_def spawn_next_def job_step_def chunk_begin_def slots_used_def
  in_slot_def set_job_def store_chunk_def updateChunkStatus_def overwrite_chunk_def chunk_read_def getChunkData_def
  select_range_def chunk_write_def chunk_failed_def chunk_completed_def execute_end_def run_chunk_def Let_def

definition written :: "sql_record list \<Rightarrow> target_table \<Rightarrow> target_table" where
  "written rs t = fold exec_upsert (migrate_batches (sort (map fst (hd rs))) rs) t"

lemma migrate_answers [simp]:
  assumes "r \<noteq> []" and "length r \<le> 65535"
  shows "migrateChunkData (r # rs) CommitWorks t = Some (None, written (r # rs) t)"
    and "migrateChunkData (r # rs) (CommitFails e b) t = Some (Some e, if b then written (r # rs) t else t)"
proof -
  have "sort (map fst r) \<noteq> []" using assms(1) by (metis length_0_conv length_map length_sort)
  then show "migrateChunkData (r # rs) CommitWorks t = Some (None, written (r # rs) t)"
    "migrateChunkData (r # rs) (CommitFails e b) t = Some (Some e, if b then written (r # rs) t else t)"
    using assms(2) by (simp_all add: migrateChunkData_def written_def maxBindParams_def)
qed

lemma three_runs_result:
  "\<exists>s. run_steps (mig_step two_columns) (NewMigrationManager small_config Map.empty) three_runs = Some s \<and>
    mg_stage s = MigEnded []"
  by (simp add: three_runs_def two_columns_def prepare_simps execute_simps)

lemma migration_complete_witness:
  "\<exists>s. run_steps (mig_step two_columns) (NewMigrationManager small_config Map.empty) three_runs = Some s \<and>
    mg_stage s = MigEnded [] \<and> (\<exists>row. mg_target s 3 = Some row \<and> row ''a'' = Some (SqlText ''x''))"
proof -
  obtain s where s: "run_steps (mig_step two_columns) (NewMigrationManager small_config Map.empty) three_runs = Some s"
    "mg_stage s = MigEnded []"
    using three_runs_result by blast
  have f: "plan_fits (mc_ChunkSize small_config) two_columns" using two_columns_ok(2) by (simp add: small_config_def)
  have r: "scan_row [''id'', ''a''] [SqlInt64 3, SqlText ''x''] \<in> set (source_records two_columns)"
    by (simp add: source_records_def two_columns_def)
  have "holds (mg_target s) (scan_row [''id'', ''a''] [SqlInt64 3, SqlText ''x''])"
    using migration_complete [OF two_columns_ok(1) f _ s(1)] s(2) r by (simp add: target_ok_def)
  then have "\<exists>row. mg_target s 3 = Some row \<and> row ''a'' = Some (SqlText ''x'')"
    by (auto simp: holds_def record_id_def scan_row_def map_le_def)
  then show ?thesis using s by (intro exI [of _ s]) simp
qed

definition grown_source :: source_table where
  "grown_source = two_columns\<lparr>so_rows := so_rows two_columns @ [[SqlInt64 4, SqlText ''z'']]\<rparr>"

definition one_run :: "mig_event list" where
  "one_run = [MStart no_failure, MNext, MNext] @ run_chunk 0 @ run_chunk 1 @ [MEnd]"

lemma one_run_result:
  "\<exists>s1 s2. run_steps (mig_step two_columns) (NewMigrationManager small_config Map.empty) one_run = Some s1 \<and>
    run_steps (mig_step grown_source) s1 [MStart no_failure, MEnd] = Some s2 \<and> mg_stage s2 = MigEnded [] \<and>
    mg_target s2 = mg_target s1"
  by (simp add: one_run_def grown_source_def two_columns_def prepare_simps execute_simps)

text \<open>
  A later run over a source that has grown reports success without the new row: the last chunk
  of the first plan keeps its old end, and the chunk of the new plan with the same number is not stored.
\<close>

theorem grown_source_loses_row:
  "\<exists>s1 s2. run_steps (mig_step two_columns) (NewMigrationManager small_config Map.empty) one_run = Some s1 \<and>
    run_steps (mig_step grown_source) s1 [MStart no_failure, MEnd] = Some s2 \<and> mg_stage s2 = MigEnded [] \<and>
    4 \<in> set (source_ids grown_source) \<and> mg_target s2 4 = None"
proof -
  obtain s1 s2 where s: "run_steps (mig_step two_columns) (NewMigrationManager small_config Map.empty) one_run = Some s1"
    "run_steps (mig_step grown_source) s1 [MStart no_failure, MEnd] = Some s2" "mg_stage s2 = MigEnded []"
    "mg_target s2 = mg_target s1"
    using one_run_result by blast
  have "mig_inv (two_columns, small_config, Map.empty) s1"
    using migration_runs.inv_run [of two_columns "(two_columns, small_config, Map.empty)" one_run s1] s(1) two_columns_ok
    by (simp add: mig_good_def mig_start_def target_ok_def small_config_def)
  moreover have "4 \<notin> set (source_ids two_columns)"
    by (simp add: two_columns_def source_ids_def source_records_def scan_row_def record_id_def)
  ultimately have "mg_target s1 4 = None" using mig_inv_parts(3) by fastforce
  moreover have "4 \<in> set (source_ids grown_source)"
    by (simp add: grown_source_def two_columns_def source_ids_def source_records_def scan_row_def record_id_def)
  ultimately show ?thesis using s by (intro exI [of _ s1] exI [of _ s2]) simp
qed

end
