(* ===== verification/MultiAuth.thy ===== *)
theory MultiAuth
  imports Prelude
begin

text \<open>
  The authentication system of chapter 4, \<^verbatim>\<open>ans_02/multi_auth_system.go\<close>: a token is checked by
  several providers at once, one of the results is chosen and cached under a shortened hash.

  SHA-256, HMAC, base64 and JSON come from Go's standard library; they are the functions of a record
  \<open>auth_library\<close>, an argument of every definition that uses them, and the theorems hold for any.  A
  request is a flight: the sections between its waits are steps, so that requests overlap in any
  order.  \<open>au_log\<close> and \<open>au_registered\<close> are histories of the
  successful authentications and of the registered providers, kept for the statements.  The values
  of custom claims are strings.
\<close>

section \<open>Results and statistics\<close>

record AuthResult =
  ar_Success :: bool
  ar_UserID :: string
  ar_Username :: string
  ar_Email :: string
  ar_Roles :: "string list"
  ar_Claims :: "string \<rightharpoonup> string"
  ar_Provider :: string
  ar_ExpiresAt :: time
  ar_IssuedAt :: time
  ar_TokenHash :: string
  ar_ResponseTime :: duration

datatype auth_error =
  InvalidTokenFormat | RequestFailed | InvalidToken | InvalidHeaderEncoding | InvalidHeaderJSON
| UnsupportedAlgorithm string | InvalidPayloadEncoding | InvalidPayloadJSON | InvalidSignatureEncoding
| InvalidSignature | TokenExpired | InvalidIssuer | InvalidAudience | KeyNotFound | KeyInactive | KeyExpired
| ProviderNotFound string

definition failed_result :: AuthResult where
  "failed_result = \<lparr>ar_Success = False, ar_UserID = [], ar_Username = [], ar_Email = [], ar_Roles = [],
     ar_Claims = Map.empty, ar_Provider = [], ar_ExpiresAt = 0, ar_IssuedAt = 0, ar_TokenHash = [], ar_ResponseTime = 0\<rparr>"

record ProviderStats =
  ps_totalRequests :: int
  ps_successCount :: int
  ps_errorCount :: int
  ps_totalLatency :: int
  ps_timeoutCount :: int
  ps_lastError :: "auth_error option"
  ps_lastErrorTime :: time

definition new_stats :: ProviderStats where
  "new_stats = \<lparr>ps_totalRequests = 0, ps_successCount = 0, ps_errorCount = 0, ps_totalLatency = 0,
     ps_timeoutCount = 0, ps_lastError = None, ps_lastErrorTime = 0\<rparr>"

definition stats_record :: "duration \<Rightarrow> bool \<Rightarrow> ProviderStats \<Rightarrow> ProviderStats" where
  "stats_record elapsed failed st =
    (let st1 = st\<lparr>ps_totalRequests := ps_totalRequests st + 1, ps_totalLatency := ps_totalLatency st + elapsed\<rparr>
     in if failed then st1\<lparr>ps_errorCount := ps_errorCount st1 + 1\<rparr>
        else st1\<lparr>ps_successCount := ps_successCount st1 + 1\<rparr>)"

definition avgLatency :: "ProviderStats \<Rightarrow> duration" where
  "avgLatency st = (if ps_totalRequests st = 0 then 0 else go_div (ps_totalLatency st) (ps_totalRequests st))"

definition calculateSuccessRate :: "ProviderStats \<Rightarrow> real" where
  "calculateSuccessRate st =
     (if ps_totalRequests st = 0 then 100
      else real_of_int (ps_successCount st) / real_of_int (ps_totalRequests st) * 100)"

section \<open>The library\<close>

record JWTHeader =
  jh_Algorithm :: string
  jh_Type :: string

record JWTPayload =
  jp_Issuer :: string
  jp_Subject :: string
  jp_Audience :: string
  jp_ExpiresAt :: int
  jp_NotBefore :: int
  jp_IssuedAt :: int
  jp_JWTID :: string
  jp_Username :: string
  jp_Email :: string
  jp_Roles :: "string list"

record auth_library =
  lb_sha256_hex :: "string \<Rightarrow> string"
  lb_hmac :: "string \<Rightarrow> string \<Rightarrow> string"
  lb_encode64 :: "string \<Rightarrow> string"
  lb_decode64 :: "string \<Rightarrow> string option"
  lb_header_json :: "JWTHeader \<Rightarrow> string"
  lb_header :: "string \<Rightarrow> JWTHeader option"
  lb_payload_json :: "JWTPayload \<Rightarrow> string"
  lb_payload :: "string \<Rightarrow> JWTPayload option"
  lb_object :: "string \<Rightarrow> (string \<rightharpoonup> string) option"
  lb_valid_url :: "string \<Rightarrow> bool"

section \<open>Providers\<close>

record OAuth2Provider =
  oa_name :: string
  oa_clientID :: string
  oa_clientSecret :: string
  oa_endpoint :: string
  oa_timeout :: duration
  oa_stats :: ProviderStats

record JWTProvider =
  jw_name :: string
  jw_secretKey :: string
  jw_issuer :: string
  jw_audience :: string
  jw_timeout :: duration
  jw_stats :: ProviderStats

record APIKeyInfo =
  ki_KeyID :: string
  ki_UserID :: string
  ki_Username :: string
  ki_Email :: string
  ki_Roles :: "string list"
  ki_CreatedAt :: time
  ki_ExpiresAt :: time
  ki_IsActive :: bool

record APIKeyProvider =
  ak_name :: string
  ak_apiKeys :: "string \<rightharpoonup> APIKeyInfo"
  ak_headerName :: string
  ak_keyPrefix :: string
  ak_timeout :: duration
  ak_stats :: ProviderStats

definition NewOAuth2Provider :: "string \<Rightarrow> string \<Rightarrow> string \<Rightarrow> string \<Rightarrow> duration \<Rightarrow> OAuth2Provider" where
  "NewOAuth2Provider name clientID clientSecret endpoint timeout =
     \<lparr>oa_name = name, oa_clientID = clientID, oa_clientSecret = clientSecret, oa_endpoint = endpoint,
      oa_timeout = timeout, oa_stats = new_stats\<rparr>"

definition NewJWTProvider :: "string \<Rightarrow> string \<Rightarrow> string \<Rightarrow> string \<Rightarrow> duration \<Rightarrow> JWTProvider" where
  "NewJWTProvider name secretKey issuer audience timeout =
     \<lparr>jw_name = name, jw_secretKey = secretKey, jw_issuer = issuer, jw_audience = audience, jw_timeout = timeout,
      jw_stats = new_stats\<rparr>"

definition NewAPIKeyProvider :: "string \<Rightarrow> string \<Rightarrow> string \<Rightarrow> duration \<Rightarrow> APIKeyProvider" where
  "NewAPIKeyProvider name headerName keyPrefix timeout =
     \<lparr>ak_name = name, ak_apiKeys = Map.empty, ak_headerName = headerName, ak_keyPrefix = keyPrefix,
      ak_timeout = timeout, ak_stats = new_stats\<rparr>"

definition short_hash :: "auth_library \<Rightarrow> string \<Rightarrow> string \<Rightarrow> string" where
  "short_hash lib prefix token = take 16 (prefix @ lb_sha256_hex lib token)"

definition OAuth2_Authenticate ::
  "auth_library \<Rightarrow> OAuth2Provider \<Rightarrow> time \<Rightarrow> string \<Rightarrow> auth_error + AuthResult" where
  "OAuth2_Authenticate lib p now token =
     (if \<not> strings_HasPrefix token ''oauth2_'' then Inl InvalidTokenFormat
      else if \<not> lb_valid_url lib (oa_endpoint p @ ''/oauth/token/info'') then Inl RequestFailed
      else if strings_Contains token ''invalid'' then Inl InvalidToken
      else Inr \<lparr>ar_Success = True, ar_UserID = ''oauth2_user_123'', ar_Username = ''oauth2_user'',
                ar_Email = ''user@oauth2.example.com'', ar_Roles = [''user''], ar_Claims = Map.empty,
                ar_Provider = oa_name p, ar_ExpiresAt = now + Hour, ar_IssuedAt = now,
                ar_TokenHash = short_hash lib ''oauth2_'' token, ar_ResponseTime = 0\<rparr>)"

definition standard_claims :: "string list" where
  "standard_claims = [''iss'', ''sub'', ''aud'', ''exp'', ''nbf'', ''iat'', ''jti'', ''username'', ''email'', ''roles'']"

text \<open>The claims and the result, once the signature has been verified.\<close>

definition jwt_claims ::
  "auth_library \<Rightarrow> JWTProvider \<Rightarrow> time \<Rightarrow> string \<Rightarrow> JWTPayload \<Rightarrow> (string \<rightharpoonup> string) \<Rightarrow> auth_error + AuthResult" where
  "jwt_claims lib j now token payload custom =
     (if 0 < jp_ExpiresAt payload \<and> jp_ExpiresAt payload < Unix now then Inl TokenExpired
      else if jw_issuer j \<noteq> [] \<and> jp_Issuer payload \<noteq> jw_issuer j then Inl InvalidIssuer
      else if jw_audience j \<noteq> [] \<and> jp_Audience payload \<noteq> jw_audience j then Inl InvalidAudience
      else Inr \<lparr>ar_Success = True, ar_UserID = jp_Subject payload, ar_Username = jp_Username payload,
                ar_Email = jp_Email payload, ar_Roles = jp_Roles payload, ar_Claims = custom, ar_Provider = jw_name j,
                ar_ExpiresAt = (if 0 < jp_ExpiresAt payload then time_Unix (jp_ExpiresAt payload) else now + Hour),
                ar_IssuedAt = time_Unix (jp_IssuedAt payload), ar_TokenHash = short_hash lib ''jwt_'' token,
                ar_ResponseTime = 0\<rparr>)"

definition generateSignature :: "auth_library \<Rightarrow> JWTProvider \<Rightarrow> string \<Rightarrow> string" where
  "generateSignature lib j message = lb_hmac lib (jw_secretKey j) message"

definition jwt_payload :: "auth_library \<Rightarrow> string \<Rightarrow> auth_error + JWTPayload \<times> (string \<rightharpoonup> string)" where
  "jwt_payload lib part =
     (case lb_decode64 lib part of
        None \<Rightarrow> Inl InvalidPayloadEncoding
      | Some bytes \<Rightarrow>
          (case (lb_payload lib bytes, lb_object lib bytes) of
             (Some payload, Some custom) \<Rightarrow> Inr (payload, custom |` (- set standard_claims))
           | _ \<Rightarrow> Inl InvalidPayloadJSON))"

definition jwt_header_ok :: "auth_library \<Rightarrow> string \<Rightarrow> auth_error option" where
  "jwt_header_ok lib part =
     (case lb_decode64 lib part of
        None \<Rightarrow> Some InvalidHeaderEncoding
      | Some bytes \<Rightarrow>
          (case lb_header lib bytes of
             None \<Rightarrow> Some InvalidHeaderJSON
           | Some header \<Rightarrow>
               (if jh_Algorithm header \<noteq> ''HS256'' then Some (UnsupportedAlgorithm (jh_Algorithm header)) else None)))"

definition JWT_Authenticate :: "auth_library \<Rightarrow> JWTProvider \<Rightarrow> time \<Rightarrow> string \<Rightarrow> auth_error + AuthResult" where
  "JWT_Authenticate lib j now token =
     (case strings_Split token CHR ''.'' of
        [h, p, s] \<Rightarrow>
          (case jwt_header_ok lib h of
             Some e \<Rightarrow> Inl e
           | None \<Rightarrow>
               (case jwt_payload lib p of
                  Inl e \<Rightarrow> Inl e
                | Inr (payload, custom) \<Rightarrow>
                    (case lb_decode64 lib s of
                       None \<Rightarrow> Inl InvalidSignatureEncoding
                     | Some actual \<Rightarrow>
                         (if actual \<noteq> generateSignature lib j (h @ ''.'' @ p) then Inl InvalidSignature
                          else jwt_claims lib j now token payload custom))))
      | _ \<Rightarrow> Inl InvalidTokenFormat)"

definition AddAPIKey ::
  "string \<Rightarrow> string \<Rightarrow> string \<Rightarrow> string \<Rightarrow> string list \<Rightarrow> time \<Rightarrow> time \<Rightarrow> APIKeyProvider \<Rightarrow> APIKeyProvider" where
  "AddAPIKey keyID userID username email roles expiresAt now a =
    (let k = strings_TrimPrefix keyID (ak_keyPrefix a)
     in a\<lparr>ak_apiKeys := (ak_apiKeys a)(k \<mapsto> \<lparr>ki_KeyID = k, ki_UserID = userID, ki_Username = username, ki_Email = email,
            ki_Roles = roles, ki_CreatedAt = now, ki_ExpiresAt = expiresAt, ki_IsActive = True\<rparr>)\<rparr>)"

definition APIKey_Authenticate ::
  "auth_library \<Rightarrow> APIKeyProvider \<Rightarrow> time \<Rightarrow> string \<Rightarrow> auth_error + AuthResult" where
  "APIKey_Authenticate lib a now token =
     (if ak_keyPrefix a \<noteq> [] \<and> \<not> strings_HasPrefix token (ak_keyPrefix a) then Inl InvalidTokenFormat
      else (case ak_apiKeys a (strings_TrimPrefix token (ak_keyPrefix a)) of
              None \<Rightarrow> Inl KeyNotFound
            | Some k \<Rightarrow>
                (if \<not> ki_IsActive k then Inl KeyInactive
                 else if ki_ExpiresAt k \<noteq> 0 \<and> ki_ExpiresAt k < now then Inl KeyExpired
                 else Inr \<lparr>ar_Success = True, ar_UserID = ki_UserID k, ar_Username = ki_Username k, ar_Email = ki_Email k,
                           ar_Roles = ki_Roles k, ar_Claims = Map.empty, ar_Provider = ak_name a,
                           ar_ExpiresAt = ki_ExpiresAt k, ar_IssuedAt = ki_CreatedAt k,
                           ar_TokenHash = short_hash lib ''apikey_'' token, ar_ResponseTime = 0\<rparr>)))"

datatype auth_provider = POAuth2 OAuth2Provider | PJWT JWTProvider | PAPIKey APIKeyProvider

definition provider_check :: "auth_library \<Rightarrow> auth_provider \<Rightarrow> time \<Rightarrow> string \<Rightarrow> auth_error + AuthResult" where
  "provider_check lib p now token =
     (case p of
        POAuth2 o2 \<Rightarrow> OAuth2_Authenticate lib o2 now token
      | PJWT j \<Rightarrow> JWT_Authenticate lib j now token
      | PAPIKey a \<Rightarrow> APIKey_Authenticate lib a now token)"

definition provider_record :: "duration \<Rightarrow> bool \<Rightarrow> auth_provider \<Rightarrow> auth_provider" where
  "provider_record elapsed failed p =
     (case p of
        POAuth2 o2 \<Rightarrow> POAuth2 (o2\<lparr>oa_stats := stats_record elapsed failed (oa_stats o2)\<rparr>)
      | PJWT j \<Rightarrow> PJWT (j\<lparr>jw_stats := stats_record elapsed failed (jw_stats j)\<rparr>)
      | PAPIKey a \<Rightarrow> PAPIKey (a\<lparr>ak_stats := stats_record elapsed failed (ak_stats a)\<rparr>))"

record ProviderInfo =
  pi_Name :: string
  pi_Type :: string
  pi_Version :: string
  pi_Endpoint :: string
  pi_IsHealthy :: bool
  pi_LastCheck :: time
  pi_AvgLatency :: duration
  pi_SuccessRate :: real

definition provider_info :: "string \<Rightarrow> string \<Rightarrow> string \<Rightarrow> string \<Rightarrow> time \<Rightarrow> ProviderStats \<Rightarrow> ProviderInfo" where
  "provider_info name type version endpoint now st =
     \<lparr>pi_Name = name, pi_Type = type, pi_Version = version, pi_Endpoint = endpoint, pi_IsHealthy = True,
      pi_LastCheck = now, pi_AvgLatency = avgLatency st, pi_SuccessRate = calculateSuccessRate st\<rparr>"

definition GetProviderInfo :: "time \<Rightarrow> auth_provider \<Rightarrow> ProviderInfo" where
  "GetProviderInfo now p =
     (case p of
        POAuth2 o2 \<Rightarrow> provider_info (oa_name o2) ''OAuth2'' ''2.0'' (oa_endpoint o2) now (oa_stats o2)
      | PJWT j \<Rightarrow> provider_info (jw_name j) ''JWT'' ''1.0'' (jw_issuer j) now (jw_stats j)
      | PAPIKey a \<Rightarrow> provider_info (ak_name a) ''API_KEY'' ''1.0'' [] now (ak_stats a))"

section \<open>The generator of test tokens\<close>

definition generated_payload :: "time \<Rightarrow> string option \<Rightarrow> string option \<Rightarrow> JWTPayload" where
  "generated_payload now username email =
     \<lparr>jp_Issuer = ''test-issuer'', jp_Subject = ''test-user'', jp_Audience = ''test-audience'',
      jp_ExpiresAt = Unix (now + Hour), jp_NotBefore = 0, jp_IssuedAt = Unix now, jp_JWTID = [],
      jp_Username = (case username of Some u \<Rightarrow> u | None \<Rightarrow> ''testuser''),
      jp_Email = (case email of Some e \<Rightarrow> e | None \<Rightarrow> ''test@example.com''), jp_Roles = [''user'', ''admin'']\<rparr>"

definition TestJWTGenerator :: "auth_library \<Rightarrow> time \<Rightarrow> string option \<Rightarrow> string option \<Rightarrow> string" where
  "TestJWTGenerator lib now username email =
    (let headerB64 = lb_encode64 lib (lb_header_json lib \<lparr>jh_Algorithm = ''HS256'', jh_Type = ''JWT''\<rparr>);
         payloadB64 = lb_encode64 lib (lb_payload_json lib (generated_payload now username email));
         message = headerB64 @ ''.'' @ payloadB64
     in message @ ''.'' @ lb_encode64 lib (lb_hmac lib ''test-secret-key'' message))"

section \<open>The system\<close>

record AuthConfig =
  ac_EnabledProviders :: "string list"
  ac_DefaultProvider :: string
  ac_CacheExpiration :: duration
  ac_MaxCacheSize :: int
  ac_RequireAllSuccess :: bool
  ac_FallbackOrder :: "string list"

record CacheEntry =
  ce_Result :: AuthResult
  ce_ExpiresAt :: time
  ce_AccessCount :: int
  ce_lastAccess :: time

record AuthMetrics =
  am_totalRequests :: int
  am_successfulAuth :: int
  am_failedAuth :: int
  am_cacheHits :: int
  am_cacheMisses :: int
  am_parallelAuth :: int
  am_providerStats :: "string \<rightharpoonup> ProviderStats"
  am_avgResponseTime :: int

record ParallelAuthResult =
  pr_Provider :: string
  pr_Result :: "AuthResult option"
  pr_Error :: "auth_error option"
  pr_Duration :: duration
  pr_TimedOut :: bool

text \<open>
  A request: before the removal of the expired entry it has found, before its providers, returned.
  The time is that of its start.
\<close>

datatype flight = FEvict string time | FPending string time | FReturned string "AuthResult option"

record auth_system =
  au_providers :: "string \<rightharpoonup> auth_provider"
  au_cache :: "string \<rightharpoonup> CacheEntry"
  au_evictions :: int
  au_config :: AuthConfig
  au_metrics :: AuthMetrics
  au_flights :: "flight list"
  au_log :: "(string \<times> AuthResult) list"
  au_registered :: "(string \<times> auth_provider) list"

definition NewMultiAuthSystem :: "AuthConfig \<Rightarrow> auth_system" where
  "NewMultiAuthSystem cfg = \<lparr>au_providers = Map.empty, au_cache = Map.empty, au_evictions = 0, au_config = cfg,
     au_metrics = \<lparr>am_totalRequests = 0, am_successfulAuth = 0, am_failedAuth = 0, am_cacheHits = 0, am_cacheMisses = 0,
       am_parallelAuth = 0, am_providerStats = Map.empty, am_avgResponseTime = 0\<rparr>, au_flights = [], au_log = [], au_registered = []\<rparr>"

definition RegisterProvider :: "string \<Rightarrow> auth_provider \<Rightarrow> auth_system \<Rightarrow> auth_system" where
  "RegisterProvider name p s = s\<lparr>au_providers := (au_providers s)(name \<mapsto> p), au_registered := au_registered s @ [(name, p)],
     au_metrics := (au_metrics s)\<lparr>am_providerStats := (am_providerStats (au_metrics s))(name \<mapsto> new_stats)\<rparr>\<rparr>"

definition getEnabledProviders :: "auth_system \<Rightarrow> string list" where
  "getEnabledProviders s = filter (\<lambda>name. au_providers s name \<noteq> None) (ac_EnabledProviders (au_config s))"

section \<open>The cache\<close>

definition hashToken :: "auth_library \<Rightarrow> string \<Rightarrow> string" where
  "hashToken lib token = take 16 (lb_sha256_hex lib token)"

datatype lookup = CacheMiss | CacheExpired | CacheHit AuthResult

definition touch :: "time \<Rightarrow> CacheEntry \<Rightarrow> CacheEntry" where
  "touch now e = e\<lparr>ce_AccessCount := ce_AccessCount e + 1, ce_lastAccess := now\<rparr>"

text \<open>\<^verbatim>\<open>checkCache\<close> up to the removal of an expired entry.\<close>

definition checkCache :: "auth_library \<Rightarrow> string \<Rightarrow> time \<Rightarrow> auth_system \<Rightarrow> lookup \<times> auth_system" where
  "checkCache lib token now s =
    (let k = hashToken lib token
     in case au_cache s k of
          None \<Rightarrow> (CacheMiss, s)
        | Some e \<Rightarrow>
            (if ce_ExpiresAt e < now then (CacheExpired, s)
             else (CacheHit (ce_Result e), s\<lparr>au_cache := (au_cache s)(k \<mapsto> touch now e)\<rparr>)))"

definition evictCacheEntry :: "string \<Rightarrow> auth_system \<Rightarrow> auth_system" where
  "evictCacheEntry k s = s\<lparr>au_cache := (au_cache s)(k := None), au_evictions := au_evictions s + 1\<rparr>"

text \<open>The range over the cache visits the keys in some order, an argument.\<close>

definition oldest_entry :: "string list \<Rightarrow> time \<Rightarrow> (string \<rightharpoonup> CacheEntry) \<Rightarrow> string \<times> time" where
  "oldest_entry keys now m =
     fold (\<lambda>k acc. case m k of Some e \<Rightarrow> (if ce_lastAccess e < snd acc then (k, ce_lastAccess e) else acc) | None \<Rightarrow> acc)
       keys ([], now)"

definition evictLeastRecentlyUsed :: "string list \<Rightarrow> time \<Rightarrow> auth_system \<Rightarrow> auth_system" where
  "evictLeastRecentlyUsed keys now s =
    (let k = fst (oldest_entry keys now (au_cache s))
     in if k \<noteq> [] then s\<lparr>au_cache := (au_cache s)(k := None), au_evictions := au_evictions s + 1\<rparr> else s)"

definition cache_deadline :: "time \<Rightarrow> AuthConfig \<Rightarrow> AuthResult \<Rightarrow> time" where
  "cache_deadline now cfg r =
    (let t = now + ac_CacheExpiration cfg in if ar_ExpiresAt r \<noteq> 0 \<and> ar_ExpiresAt r < t then ar_ExpiresAt r else t)"

definition cacheResult ::
  "auth_library \<Rightarrow> string list \<Rightarrow> string \<Rightarrow> AuthResult \<Rightarrow> time \<Rightarrow> time \<Rightarrow> auth_system \<Rightarrow> auth_system" where
  "cacheResult lib keys token r now later s =
     (if ac_CacheExpiration (au_config s) = 0 then s
      else (let s1 = (if ac_MaxCacheSize (au_config s) \<le> int (card (dom (au_cache s)))
                      then evictLeastRecentlyUsed keys later s else s)
            in s1\<lparr>au_cache := (au_cache s1)(hashToken lib token \<mapsto> \<lparr>ce_Result = r,
                 ce_ExpiresAt = cache_deadline now (au_config s) r, ce_AccessCount = 1, ce_lastAccess = now\<rparr>)\<rparr>))"

section \<open>One authentication\<close>

definition find_provider :: "AuthResult list \<Rightarrow> string \<Rightarrow> AuthResult option" where
  "find_provider rs name = find (\<lambda>r. ar_Provider r = name) rs"

fun fallback_choice :: "string list \<Rightarrow> AuthResult list \<Rightarrow> AuthResult option" where
  "fallback_choice [] rs = None"
| "fallback_choice (name # names) rs =
     (case find_provider rs name of Some r \<Rightarrow> Some r | None \<Rightarrow> fallback_choice names rs)"

definition fastest :: "AuthResult list \<Rightarrow> AuthResult" where
  "fastest rs = fold (\<lambda>r best. if ar_ResponseTime r < ar_ResponseTime best then r else best) (tl rs) (hd rs)"

definition successes :: "ParallelAuthResult list \<Rightarrow> AuthResult list" where
  "successes results = concat (map (\<lambda>p. case (pr_Error p, pr_Result p) of
     (None, Some r) \<Rightarrow> (if ar_Success r then [r] else []) | _ \<Rightarrow> []) results)"

definition selectBestResult :: "auth_system \<Rightarrow> ParallelAuthResult list \<Rightarrow> AuthResult option" where
  "selectBestResult s results =
    (let rs = successes results; cfg = au_config s
     in if rs = [] then None
        else if ac_RequireAllSuccess cfg \<and> length rs \<noteq> length (getEnabledProviders s) then None
        else (case (if ac_DefaultProvider cfg = [] then None else find_provider rs (ac_DefaultProvider cfg)) of
                Some r \<Rightarrow> Some r
              | None \<Rightarrow> (case fallback_choice (ac_FallbackOrder cfg) rs of Some r \<Rightarrow> Some r | None \<Rightarrow> Some (fastest rs))))"

text \<open>
  The answer of one provider at \<open>now\<close> after \<open>d\<close>; \<open>late\<close>: the deadline of the context has passed.
\<close>

definition authenticateWithProvider ::
  "auth_library \<Rightarrow> (string \<rightharpoonup> auth_provider) \<Rightarrow> time \<Rightarrow> duration \<Rightarrow> bool \<Rightarrow> string \<Rightarrow> string \<Rightarrow> ParallelAuthResult" where
  "authenticateWithProvider lib providers now d late token name =
     (case providers name of
        None \<Rightarrow> \<lparr>pr_Provider = name, pr_Result = None, pr_Error = Some (ProviderNotFound name), pr_Duration = d, pr_TimedOut = False\<rparr>
      | Some p \<Rightarrow>
          (case provider_check lib p now token of
             Inl e \<Rightarrow> \<lparr>pr_Provider = name, pr_Result = Some (failed_result\<lparr>ar_Provider := name, ar_ResponseTime := d\<rparr>),
                      pr_Error = Some e, pr_Duration = d, pr_TimedOut = late\<rparr>
           | Inr r \<Rightarrow> \<lparr>pr_Provider = name, pr_Result = Some (r\<lparr>ar_Provider := name, ar_ResponseTime := d\<rparr>),
                      pr_Error = None, pr_Duration = d, pr_TimedOut = False\<rparr>))"

definition updateProviderStats :: "time \<Rightarrow> ParallelAuthResult \<Rightarrow> AuthMetrics \<Rightarrow> AuthMetrics" where
  "updateProviderStats now r m =
    (let st0 = (case am_providerStats m (pr_Provider r) of Some st \<Rightarrow> st | None \<Rightarrow> new_stats);
         st1 = st0\<lparr>ps_totalRequests := ps_totalRequests st0 + 1, ps_totalLatency := ps_totalLatency st0 + pr_Duration r,
                   ps_timeoutCount := ps_timeoutCount st0 + (if pr_TimedOut r then 1 else 0)\<rparr>;
         st2 = (case pr_Error r of
                  Some e \<Rightarrow> st1\<lparr>ps_errorCount := ps_errorCount st1 + 1, ps_lastError := Some e, ps_lastErrorTime := now\<rparr>
                | None \<Rightarrow> (case pr_Result r of
                            Some a \<Rightarrow> (if ar_Success a then st1\<lparr>ps_successCount := ps_successCount st1 + 1\<rparr> else st1)
                          | None \<Rightarrow> st1))
     in m\<lparr>am_providerStats := (am_providerStats m)(pr_Provider r \<mapsto> st2)\<rparr>)"

text \<open>\<open>order\<close> is the order in which the providers answer.\<close>

definition executeParallelAuth ::
  "auth_library \<Rightarrow> string list \<Rightarrow> time \<Rightarrow> (string \<Rightarrow> duration) \<Rightarrow> bool \<Rightarrow> string \<Rightarrow> auth_system
     \<Rightarrow> ParallelAuthResult list \<times> auth_system" where
  "executeParallelAuth lib order now d late token s =
    (let results = map (\<lambda>name. authenticateWithProvider lib (au_providers s) now (d name) late token name) order
     in (results,
         s\<lparr>au_providers := fold (\<lambda>r ps. case ps (pr_Provider r) of
                None \<Rightarrow> ps
              | Some p \<Rightarrow> ps(pr_Provider r \<mapsto> provider_record (pr_Duration r) (pr_Error r \<noteq> None) p)) results (au_providers s),
           au_metrics := fold (updateProviderStats now) results (au_metrics s)\<rparr>))"

definition set_flight :: "nat \<Rightarrow> flight \<Rightarrow> auth_system \<Rightarrow> auth_system" where
  "set_flight k f s = s\<lparr>au_flights := (au_flights s)[k := f]\<rparr>"

text \<open>The deferred update of the metrics and the return.\<close>

definition auth_return :: "nat \<Rightarrow> string \<Rightarrow> AuthResult option \<Rightarrow> duration \<Rightarrow> auth_system \<Rightarrow> auth_system" where
  "auth_return k token r elapsed s =
    (let m = au_metrics s
     in set_flight k (FReturned token r) (s\<lparr>au_metrics := m\<lparr>am_avgResponseTime := am_avgResponseTime m + elapsed,
          am_totalRequests := am_totalRequests m + 1, am_parallelAuth := am_parallelAuth m + 1\<rparr>\<rparr>))"

definition count_miss :: "auth_system \<Rightarrow> auth_system" where
  "count_miss s = s\<lparr>au_metrics := (au_metrics s)\<lparr>am_cacheMisses := am_cacheMisses (au_metrics s) + 1\<rparr>\<rparr>"

definition auth_begin :: "auth_library \<Rightarrow> string \<Rightarrow> time \<Rightarrow> time \<Rightarrow> auth_system \<Rightarrow> auth_system" where
  "auth_begin lib token start now s =
    (let (found, s1) = checkCache lib token now s; k = length (au_flights s1)
     in case found of
          CacheHit r \<Rightarrow> auth_return k token (Some r) (time_Sub now start)
            (s1\<lparr>au_flights := au_flights s1 @ [FPending token start],
                au_metrics := (au_metrics s1)\<lparr>am_cacheHits := am_cacheHits (au_metrics s1) + 1\<rparr>\<rparr>)
        | CacheExpired \<Rightarrow> s1\<lparr>au_flights := au_flights s1 @ [FEvict token start]\<rparr>
        | CacheMiss \<Rightarrow> count_miss (s1\<lparr>au_flights := au_flights s1 @ [FPending token start]\<rparr>))"

definition auth_fail :: "auth_system \<Rightarrow> auth_system" where
  "auth_fail s = s\<lparr>au_metrics := (au_metrics s)\<lparr>am_failedAuth := am_failedAuth (au_metrics s) + 1\<rparr>\<rparr>"

record auth_turn =
  at_order :: "string list"
  at_now :: time
  at_durations :: "string \<Rightarrow> duration"
  at_late :: bool
  at_cached :: time
  at_later :: time
  at_keys :: "string list"
  at_end :: time

definition auth_end :: "auth_library \<Rightarrow> nat \<Rightarrow> string \<Rightarrow> time \<Rightarrow> auth_turn \<Rightarrow> auth_system \<Rightarrow> auth_system" where
  "auth_end lib k token start a s =
    (let elapsed = time_Sub (at_end a) start
     in if getEnabledProviders s = [] then auth_return k token None elapsed (auth_fail s)
        else (let (results, s1) = executeParallelAuth lib (at_order a) (at_now a) (at_durations a) (at_late a) token s
              in case selectBestResult s1 results of
                   None \<Rightarrow> auth_return k token None elapsed (auth_fail s1)
                 | Some r \<Rightarrow>
                     (let s2 = cacheResult lib (at_keys a) token r (at_cached a) (at_later a) s1
                      in auth_return k token (Some r) elapsed
                           (s2\<lparr>au_metrics := (au_metrics s2)\<lparr>am_successfulAuth := am_successfulAuth (au_metrics s2) + 1\<rparr>,
                               au_log := au_log s2 @ [(token, r)]\<rparr>))))"

datatype auth_event =
  ARegister string auth_provider | ABegin string time time | AEvict nat | AEnd nat auth_turn

fun auth_step :: "auth_library \<Rightarrow> auth_system \<Rightarrow> auth_event \<Rightarrow> auth_system option" where
  "auth_step lib s (ARegister name p) = Some (RegisterProvider name p s)"
| "auth_step lib s (ABegin token start now) = Some (auth_begin lib token start now s)"
| "auth_step lib s (AEvict k) =
     (if k < length (au_flights s)
      then (case au_flights s ! k of
              FEvict token start \<Rightarrow>
                Some (set_flight k (FPending token start) (count_miss (evictCacheEntry (hashToken lib token) s)))
            | _ \<Rightarrow> None)
      else None)"
| "auth_step lib s (AEnd k a) =
     (if k < length (au_flights s)
      then (case au_flights s ! k of
              FPending token start \<Rightarrow>
                (if mset (at_order a) = mset (getEnabledProviders s) \<and> set (at_keys a) = dom (au_cache s)
                 then Some (auth_end lib k token start a s) else None)
            | _ \<Rightarrow> None)
      else None)"

section \<open>HTTP\<close>

datatype http_answer = HeaderRequired | AuthFailed | AuthOK AuthResult

definition bearer_token :: "string \<Rightarrow> string" where
  "bearer_token header = strings_TrimPrefix header ''Bearer ''"

text \<open>The handler's answer, given what the authentication of the token returns.\<close>

definition HTTPHandler :: "string \<Rightarrow> (string \<Rightarrow> AuthResult option) \<Rightarrow> http_answer" where
  "HTTPHandler authHeader authenticate =
     (if authHeader = [] then HeaderRequired
      else (case authenticate (bearer_token authHeader) of
              None \<Rightarrow> AuthFailed
            | Some r \<Rightarrow> (if ar_Success r then AuthOK r else AuthFailed)))"

section \<open>Tokens\<close>

lemma Split_join: "strings_Split s c = x # xs \<Longrightarrow> s = x @ concat (map (\<lambda>y. c # y) xs)"
proof (induction s arbitrary: x xs)
  case Nil
  then show ?case by simp
next
  case (Cons a s)
  obtain y ys where y: "strings_Split s c = y # ys" by (cases "strings_Split s c") auto
  have "x = (if a = c then [] else a # y) \<and> xs = (if a = c then y # ys else ys)"
    using Cons.prems y by (auto split: if_splits)
  then show ?case using Cons.IH [OF y] by auto
qed

lemma Split_part: "p \<in> set (strings_Split s c) \<Longrightarrow> c \<notin> set p"
  by (induction s arbitrary: p) (auto split: if_splits list.splits)

lemma Split_free: "c \<notin> set x \<Longrightarrow> strings_Split x c = [x]"
  by (induction x) auto

lemma Split_append: "c \<notin> set x \<Longrightarrow> strings_Split (x @ c # s) c = x # strings_Split s c"
  by (induction x) (auto split: list.splits)

text \<open>
  C13. A token is accepted only when its third part is the HMAC of the first two under the
  provider's key, its algorithm is the expected one, it has not expired, and issuer and audience
  are the configured ones; the result carries the claims of the token and its expiry.
\<close>

theorem jwt_accepts_signed:
  assumes "JWT_Authenticate lib j now token = Inr r"
  shows "\<exists>h p sig bytes payload header. token = h @ ''.'' @ p @ ''.'' @ sig \<and>
    lb_decode64 lib sig = Some (lb_hmac lib (jw_secretKey j) (h @ ''.'' @ p)) \<and>
    Option.bind (lb_decode64 lib h) (lb_header lib) = Some header \<and> jh_Algorithm header = ''HS256'' \<and>
    lb_decode64 lib p = Some bytes \<and> lb_payload lib bytes = Some payload \<and>
    (0 < jp_ExpiresAt payload \<longrightarrow> Unix now \<le> jp_ExpiresAt payload \<and> ar_ExpiresAt r = time_Unix (jp_ExpiresAt payload)) \<and>
    (jw_issuer j \<noteq> [] \<longrightarrow> jp_Issuer payload = jw_issuer j) \<and> (jw_audience j \<noteq> [] \<longrightarrow> jp_Audience payload = jw_audience j) \<and>
    ar_Success r \<and> ar_UserID r = jp_Subject payload \<and> ar_Roles r = jp_Roles payload"
proof -
  obtain h p sig where parts: "strings_Split token CHR ''.'' = [h, p, sig]"
    using assms by (auto simp: JWT_Authenticate_def split: list.splits)
  obtain payload custom where ok: "jwt_header_ok lib h = None" "jwt_payload lib p = Inr (payload, custom)"
    "lb_decode64 lib sig = Some (generateSignature lib j (h @ ''.'' @ p))" "jwt_claims lib j now token payload custom = Inr r"
    using assms by (auto simp: JWT_Authenticate_def parts split: option.splits sum.splits if_splits)
  obtain header where hd: "Option.bind (lb_decode64 lib h) (lb_header lib) = Some header" "jh_Algorithm header = ''HS256''"
    using ok(1) by (auto simp: jwt_header_ok_def split: option.splits if_splits)
  obtain bytes where b: "lb_decode64 lib p = Some bytes" "lb_payload lib bytes = Some payload"
    using ok(2) by (auto simp: jwt_payload_def split: option.splits)
  have "token = h @ ''.'' @ p @ ''.'' @ sig" using Split_join [OF parts] by simp
  moreover have "(0 < jp_ExpiresAt payload \<longrightarrow> Unix now \<le> jp_ExpiresAt payload \<and> ar_ExpiresAt r = time_Unix (jp_ExpiresAt payload)) \<and>
    (jw_issuer j \<noteq> [] \<longrightarrow> jp_Issuer payload = jw_issuer j) \<and> (jw_audience j \<noteq> [] \<longrightarrow> jp_Audience payload = jw_audience j) \<and>
    ar_Success r \<and> ar_UserID r = jp_Subject payload \<and> ar_Roles r = jp_Roles payload"
    using ok(4) by (auto simp: jwt_claims_def split: if_splits)
  ultimately show ?thesis using ok(3) hd b unfolding generateSignature_def by blast
qed

lemma generated_token_ok:
  fixes lib :: auth_library
  assumes "\<And>x. lb_decode64 lib (lb_encode64 lib x) = Some x" and "\<And>x. CHR ''.'' \<notin> set (lb_encode64 lib x)"
    and "lb_header lib (lb_header_json lib \<lparr>jh_Algorithm = ''HS256'', jh_Type = ''JWT''\<rparr>) =
      Some \<lparr>jh_Algorithm = ''HS256'', jh_Type = ''JWT''\<rparr>"
    and "lb_payload lib (lb_payload_json lib (generated_payload t username email)) = Some (generated_payload t username email)"
    and "lb_object lib (lb_payload_json lib (generated_payload t username email)) \<noteq> None"
    and "t \<le> now" and "now \<le> t + Hour"
  shows "\<exists>r. JWT_Authenticate lib (NewJWTProvider name ''test-secret-key'' ''test-issuer'' ''test-audience'' timeout) now
      (TestJWTGenerator lib t username email) = Inr r \<and> ar_Success r \<and>
    ar_Username r = (case username of Some u \<Rightarrow> u | None \<Rightarrow> ''testuser'') \<and> ar_Roles r = [''user'', ''admin'']"
proof -
  let ?h = "lb_encode64 lib (lb_header_json lib \<lparr>jh_Algorithm = ''HS256'', jh_Type = ''JWT''\<rparr>)"
  let ?p = "lb_encode64 lib (lb_payload_json lib (generated_payload t username email))"
  let ?s = "lb_encode64 lib (lb_hmac lib ''test-secret-key'' (?h @ ''.'' @ ?p))"
  have token: "TestJWTGenerator lib t username email = ?h @ CHR ''.'' # ?p @ CHR ''.'' # ?s"
    by (simp add: TestJWTGenerator_def Let_def)
  have split: "strings_Split (TestJWTGenerator lib t username email) CHR ''.'' = [?h, ?p, ?s]"
    unfolding token by (simp add: Split_append Split_free assms(2))
  obtain ob where ob: "lb_object lib (lb_payload_json lib (generated_payload t username email)) = Some ob" using assms(5) by blast
  have "Unix now \<le> Unix (t + Hour)" using assms(7) by (simp add: Unix_def zdiv_mono1 Second_def)
  then show ?thesis
    by (simp add: JWT_Authenticate_def split jwt_header_ok_def jwt_payload_def assms(1,3,4) ob generateSignature_def
        jwt_claims_def NewJWTProvider_def) (simp add: generated_payload_def)
qed

text \<open>
  C34. A token from the generator is accepted by a provider with the same key, issuer and audience
  until an hour later, as the user it was made for.
\<close>

theorem generated_token_accepted:
  fixes lib :: auth_library
  assumes "\<And>x. lb_decode64 lib (lb_encode64 lib x) = Some x" and "\<And>x. CHR ''.'' \<notin> set (lb_encode64 lib x)"
    and "lb_header lib (lb_header_json lib \<lparr>jh_Algorithm = ''HS256'', jh_Type = ''JWT''\<rparr>) =
      Some \<lparr>jh_Algorithm = ''HS256'', jh_Type = ''JWT''\<rparr>"
    and "lb_payload lib (lb_payload_json lib (generated_payload t username email)) = Some (generated_payload t username email)"
    and "lb_object lib (lb_payload_json lib (generated_payload t username email)) \<noteq> None"
    and "t \<le> now" and "now \<le> t + Hour"
  shows "\<exists>r. JWT_Authenticate lib (NewJWTProvider name ''test-secret-key'' ''test-issuer'' ''test-audience'' timeout) now
      (TestJWTGenerator lib t username email) = Inr r \<and> ar_Success r \<and>
    ar_Username r = (case username of Some u \<Rightarrow> u | None \<Rightarrow> ''testuser'') \<and> ar_Roles r = [''user'', ''admin'']"
  by (rule generated_token_ok) (use assms in auto)

text \<open>
  A registered API key that carries the prefix authenticates as its user until it expires, and
  is refused afterwards; other keys answer as before.
\<close>

theorem api_key_roundtrip:
  assumes "strings_HasPrefix keyID (ak_keyPrefix a)"
    and "a' = AddAPIKey keyID userID username email roles expiresAt t a"
  shows "(expiresAt = 0 \<or> now \<le> expiresAt \<longrightarrow> (\<exists>r. APIKey_Authenticate lib a' now keyID = Inr r \<and> ar_Success r \<and>
      ar_UserID r = userID \<and> ar_Roles r = roles \<and> ar_ExpiresAt r = expiresAt)) \<and>
    (expiresAt \<noteq> 0 \<and> expiresAt < now \<longrightarrow> APIKey_Authenticate lib a' now keyID = Inl KeyExpired) \<and>
    (strings_HasPrefix other (ak_keyPrefix a) \<and> other \<noteq> keyID \<longrightarrow>
      APIKey_Authenticate lib a' now other = APIKey_Authenticate lib a now other)"
proof -
  have p: "ak_keyPrefix a' = ak_keyPrefix a" "ak_name a' = ak_name a" by (simp_all add: assms(2) AddAPIKey_def Let_def)
  have keys: "ak_apiKeys a' = (ak_apiKeys a)(strings_TrimPrefix keyID (ak_keyPrefix a) \<mapsto>
      \<lparr>ki_KeyID = strings_TrimPrefix keyID (ak_keyPrefix a), ki_UserID = userID, ki_Username = username, ki_Email = email,
       ki_Roles = roles, ki_CreatedAt = t, ki_ExpiresAt = expiresAt, ki_IsActive = True\<rparr>)"
    by (simp add: assms(2) AddAPIKey_def Let_def)
  have "strings_TrimPrefix other (ak_keyPrefix a) \<noteq> strings_TrimPrefix keyID (ak_keyPrefix a)"
    if "strings_HasPrefix other (ak_keyPrefix a)" "other \<noteq> keyID"
    using that assms(1) by (metis append_take_drop_id strings_HasPrefix_def strings_TrimPrefix_def)
  then have "strings_HasPrefix other (ak_keyPrefix a) \<and> other \<noteq> keyID \<longrightarrow>
      APIKey_Authenticate lib a' now other = APIKey_Authenticate lib a now other"
    by (simp add: APIKey_Authenticate_def p keys cong: option.case_cong if_cong)
  then show ?thesis using assms(1) by (auto simp: APIKey_Authenticate_def p keys)
qed

section \<open>The choice of a result\<close>

lemma fastest_least:
  assumes "rs \<noteq> []"
  shows "fastest rs \<in> set rs \<and> (\<forall>r \<in> set rs. ar_ResponseTime (fastest rs) \<le> ar_ResponseTime r)"
proof -
  define f :: "AuthResult \<Rightarrow> AuthResult \<Rightarrow> AuthResult"
    where "f = (\<lambda>r best. if ar_ResponseTime r < ar_ResponseTime best then r else best)"
  have "fold f xs b \<in> insert b (set xs) \<and> (\<forall>r \<in> insert b (set xs). ar_ResponseTime (fold f xs b) \<le> ar_ResponseTime r)" for xs b
  proof (induction xs arbitrary: b)
    case Nil
    then show ?case by simp
  next
    case (Cons x xs)
    have c: "f x b \<in> {x, b}" "ar_ResponseTime (f x b) \<le> ar_ResponseTime x" "ar_ResponseTime (f x b) \<le> ar_ResponseTime b"
      by (simp_all add: f_def)
    show ?case using Cons.IH [of "f x b"] c by auto
  qed
  from this [of "tl rs" "hd rs"] assms show ?thesis by (cases rs) (simp_all add: fastest_def f_def)
qed

lemma fallback_choice_some:
  "fallback_choice names rs = Some r \<Longrightarrow>
    r \<in> set rs \<and> (\<exists>before after. names = before @ ar_Provider r # after \<and> (\<forall>q \<in> set rs. ar_Provider q \<notin> set before))"
proof (induction names)
  case Nil
  then show ?case by simp
next
  case (Cons name names)
  show ?case
  proof (cases "find_provider rs name")
    case None
    then have none: "\<forall>q \<in> set rs. ar_Provider q \<noteq> name" by (auto simp: find_provider_def find_None_iff)
    obtain before after where b: "r \<in> set rs" "names = before @ ar_Provider r # after" "\<forall>q \<in> set rs. ar_Provider q \<notin> set before"
      using Cons None by auto
    then show ?thesis using none by (intro conjI exI [of _ "name # before"] exI [of _ after]) auto
  next
    case (Some q)
    then have "q = r" using Cons.prems by simp
    then have "r \<in> set rs" "ar_Provider r = name" using Some by (auto simp: find_provider_def find_Some_iff)
    then show ?thesis by (intro conjI exI [of _ "[]"] exI [of _ names]) simp_all
  qed
qed

lemma fallback_choice_none: "fallback_choice names rs = None \<Longrightarrow> q \<in> set rs \<Longrightarrow> ar_Provider q \<notin> set names"
  by (induction names) (auto simp: find_provider_def find_None_iff split: option.splits)

text \<open>
  The chosen result is a success; the default provider comes first, then the fallback order, then the
  fastest; when all providers must succeed there is none unless every enabled provider has answered.
\<close>

theorem best_result_chosen:
  assumes "selectBestResult s results = Some r"
  shows "r \<in> set (successes results) \<and> ar_Success r \<and>
    (ac_RequireAllSuccess (au_config s) \<longrightarrow> length (successes results) = length (getEnabledProviders s)) \<and>
    (ac_DefaultProvider (au_config s) \<noteq> [] \<and> ac_DefaultProvider (au_config s) \<in> ar_Provider ` set (successes results) \<longrightarrow>
      ar_Provider r = ac_DefaultProvider (au_config s)) \<and>
    (ar_Provider r = ac_DefaultProvider (au_config s) \<or>
     (\<exists>before after. ac_FallbackOrder (au_config s) = before @ ar_Provider r # after \<and>
        (\<forall>q \<in> set (successes results). ar_Provider q \<notin> set before)) \<or>
     (\<forall>q \<in> set (successes results). ar_Provider q \<notin> set (ac_FallbackOrder (au_config s)) \<and> ar_ResponseTime r \<le> ar_ResponseTime q))"
proof -
  let ?rs = "successes results" and ?d = "ac_DefaultProvider (au_config s)" and ?f = "ac_FallbackOrder (au_config s)"
  have ne: "?rs \<noteq> []" and all: "ac_RequireAllSuccess (au_config s) \<longrightarrow> length ?rs = length (getEnabledProviders s)"
    and pick: "(case (if ?d = [] then None else find_provider ?rs ?d) of Some q \<Rightarrow> Some q
      | None \<Rightarrow> (case fallback_choice ?f ?rs of Some q \<Rightarrow> Some q | None \<Rightarrow> Some (fastest ?rs))) = Some r"
    using assms by (auto simp: selectBestResult_def Let_def split: if_splits)
  have ok: "ar_Success q" if "q \<in> set ?rs" for q
    using that by (auto simp: successes_def split: option.splits if_splits)
  show ?thesis
  proof (cases "if ?d = [] then None else find_provider ?rs ?d")
    case (Some q)
    then have "q = r" using pick by simp
    then have "r \<in> set ?rs" "ar_Provider r = ?d" using Some by (auto simp: find_provider_def find_Some_iff split: if_splits)
    then show ?thesis using all ok by blast
  next
    case None
    then have d: "\<not> (?d \<noteq> [] \<and> ?d \<in> ar_Provider ` set ?rs)" by (auto simp: find_provider_def find_None_iff split: if_splits)
    show ?thesis
    proof (cases "fallback_choice ?f ?rs")
      case (Some q)
      then have "fallback_choice ?f ?rs = Some r" using pick \<open>(if ?d = [] then None else find_provider ?rs ?d) = None\<close> by simp
      then show ?thesis using fallback_choice_some [of ?f ?rs r] all ok d by blast
    next
      case none: None
      then have "r = fastest ?rs" using pick None by simp
      then show ?thesis using fastest_least [OF ne] fallback_choice_none [OF none] all ok d by blast
    qed
  qed
qed

section \<open>The cache keeps to its size\<close>

lemma oldest_entry_least:
  assumes "oldest_entry keys now m = (k, t)"
  shows "(k = [] \<and> t = now \<or> k \<in> set keys \<and> (\<exists>e. m k = Some e \<and> ce_lastAccess e = t)) \<and> t \<le> now \<and>
    (\<forall>key \<in> set keys. \<forall>e. m key = Some e \<longrightarrow> t \<le> ce_lastAccess e)"
proof -
  let ?f = "\<lambda>k acc. case m k of Some e \<Rightarrow> (if ce_lastAccess e < snd acc then (k, ce_lastAccess e) else acc) | None \<Rightarrow> acc"
  have "fold ?f ks (k0, t0) = (k1, t1) \<Longrightarrow>
    (k1 = k0 \<and> t1 = t0 \<or> k1 \<in> set ks \<and> (\<exists>e. m k1 = Some e \<and> ce_lastAccess e = t1)) \<and> t1 \<le> t0 \<and>
    (\<forall>key \<in> set ks. \<forall>e. m key = Some e \<longrightarrow> t1 \<le> ce_lastAccess e)" for ks k0 t0 k1 t1
  proof (induction ks arbitrary: k0 t0)
    case Nil
    then show ?case by simp
  next
    case (Cons x ks)
    obtain k2 t2 where f: "?f x (k0, t0) = (k2, t2)" by fastforce
    have step: "(k2 = k0 \<and> t2 = t0 \<or> k2 = x \<and> (\<exists>e. m x = Some e \<and> ce_lastAccess e = t2)) \<and> t2 \<le> t0 \<and>
      (\<forall>e. m x = Some e \<longrightarrow> t2 \<le> ce_lastAccess e)" using f by (auto split: option.splits if_splits)
    have "fold ?f ks (k2, t2) = (k1, t1)" using Cons.prems f by simp
    from Cons.IH [OF this] step show ?case by fastforce
  qed
  from this [of keys "[]" now k t] assms show ?thesis by (auto simp: oldest_entry_def)
qed

text \<open>
  Storing a result keeps the cache within its maximum, and what has to give way is an entry
  that was accessed least recently, as long as every entry was accessed before the reading of the clock.
\<close>

theorem cache_bounded:
  assumes "finite (dom (au_cache s))" and "set keys = dom (au_cache s)" and "[] \<notin> dom (au_cache s)"
    and "\<forall>e \<in> ran (au_cache s). ce_lastAccess e < later" and "1 \<le> ac_MaxCacheSize (au_config s)"
    and "int (card (dom (au_cache s))) \<le> ac_MaxCacheSize (au_config s)"
  shows "int (card (dom (au_cache (cacheResult lib keys token r now later s)))) \<le> ac_MaxCacheSize (au_config s) \<and>
    (\<forall>k e. au_cache s k = Some e \<and> au_cache (cacheResult lib keys token r now later s) k = None \<longrightarrow>
      (\<forall>e' \<in> ran (au_cache s). ce_lastAccess e \<le> ce_lastAccess e'))"
proof (cases "ac_CacheExpiration (au_config s) = 0 \<or> \<not> ac_MaxCacheSize (au_config s) \<le> int (card (dom (au_cache s)))")
  case True
  have "card (insert k (dom (au_cache s))) \<le> card (dom (au_cache s)) + 1" for k
    using assms(1) by (simp add: card_insert_if)
  then have "int (card (insert k (dom (au_cache s)))) \<le> int (card (dom (au_cache s))) + 1" for k
    by (metis of_nat_1 of_nat_add of_nat_le_iff)
  from this [of "hashToken lib token"] True assms(6) show ?thesis
    by (auto simp: cacheResult_def Let_def)
next
  case False
  then have full: "card (dom (au_cache s)) \<noteq> 0" using assms(5) by auto
  obtain k t where kt: "oldest_entry keys later (au_cache s) = (k, t)" by fastforce
  note o = oldest_entry_least [OF kt]
  obtain key e where e: "au_cache s key = Some e" using full by (metis card.empty domD equals0I)
  then have "ce_lastAccess e < later" using assms(4) by (auto simp: ran_def)
  then have "t < later" using o e assms(2) by fastforce
  then have k: "k \<in> dom (au_cache s)" "k \<noteq> []" "\<exists>e. au_cache s k = Some e \<and> ce_lastAccess e = t" using o assms(2,3) by auto
  have c: "au_cache (cacheResult lib keys token r now later s) = (au_cache s)(k := None, hashToken lib token \<mapsto> \<lparr>ce_Result = r,
      ce_ExpiresAt = cache_deadline now (au_config s) r, ce_AccessCount = 1, ce_lastAccess = now\<rparr>)"
    using False kt k(2) by (simp add: cacheResult_def evictLeastRecentlyUsed_def Let_def)
  have "card (insert x (dom (au_cache s) - {k})) \<le> card (dom (au_cache s))" for x
    using assms(1) k(1) by (metis card_Suc_Diff1 card_insert_le_m1 finite_Diff full neq0_conv diff_Suc_1 order_refl)
  from this [of "hashToken lib token"] assms(6) have "int (card (dom (au_cache (cacheResult lib keys token r now later s)))) \<le>
      ac_MaxCacheSize (au_config s)" unfolding c by simp
  moreover have "ce_lastAccess d \<le> ce_lastAccess e'" if mine: "au_cache s x = Some d"
    "au_cache (cacheResult lib keys token r now later s) x = None" "e' \<in> ran (au_cache s)" for x d e'
  proof -
    have "x = k" using mine(1,2) unfolding c by (auto split: if_splits)
    then have "ce_lastAccess d = t" using k(3) mine(1) by simp
    moreover obtain y where "au_cache s y = Some e'" "y \<in> set keys" using mine(3) assms(2) by (auto simp: ran_def)
    ultimately show ?thesis using o by auto
  qed
  ultimately show ?thesis by blast
qed

section \<open>Who vouches for a result\<close>

lemma provider_check_record [simp]: "provider_check lib (provider_record d failed p) = provider_check lib p"
  by (intro ext, cases p)
    (simp_all add: provider_check_def provider_record_def OAuth2_Authenticate_def JWT_Authenticate_def jwt_claims_def
      generateSignature_def APIKey_Authenticate_def
      cong del: if_weak_cong option.case_cong_weak sum.case_cong_weak list.case_cong_weak prod.case_cong_weak)

definition vouched :: "auth_library \<Rightarrow> auth_system \<Rightarrow> string \<Rightarrow> AuthResult \<Rightarrow> bool" where
  "vouched lib s token r \<longleftrightarrow> ar_Success r \<and> (\<exists>name p now r0. (name, p) \<in> set (au_registered s) \<and>
     name \<in> set (ac_EnabledProviders (au_config s)) \<and> provider_check lib p now token = Inr r0 \<and>
     r = r0\<lparr>ar_Provider := name, ar_ResponseTime := ar_ResponseTime r\<rparr>)"

definition providers_ok :: "auth_library \<Rightarrow> (string \<times> auth_provider) list \<Rightarrow> (string \<rightharpoonup> auth_provider) \<Rightarrow> bool" where
  "providers_ok lib registered ps \<longleftrightarrow>
     (\<forall>name q. ps name = Some q \<longrightarrow> (\<exists>p. (name, p) \<in> set registered \<and> provider_check lib q = provider_check lib p))"

definition in_log :: "auth_library \<Rightarrow> auth_system \<Rightarrow> string \<Rightarrow> AuthResult \<Rightarrow> bool" where
  "in_log lib s k r \<longleftrightarrow> (\<exists>t. (t, r) \<in> set (au_log s) \<and> hashToken lib t = k)"

definition entry_ok :: "auth_library \<Rightarrow> auth_system \<Rightarrow> string \<Rightarrow> CacheEntry \<Rightarrow> bool" where
  "entry_ok lib s k e \<longleftrightarrow> in_log lib s k (ce_Result e) \<and>
     (ar_ExpiresAt (ce_Result e) \<noteq> 0 \<longrightarrow> ce_ExpiresAt e \<le> ar_ExpiresAt (ce_Result e))"

definition sound :: "auth_library \<Rightarrow> auth_system \<Rightarrow> bool" where
  "sound lib s \<longleftrightarrow> providers_ok lib (au_registered s) (au_providers s) \<and>
     (\<forall>(t, r) \<in> set (au_log s). vouched lib s t r) \<and>
     (\<forall>k e. au_cache s k = Some e \<longrightarrow> entry_ok lib s k e) \<and>
     (\<forall>t r. FReturned t (Some r) \<in> set (au_flights s) \<longrightarrow> in_log lib s (hashToken lib t) r)"

definition evicting :: "flight \<Rightarrow> int" where
  "evicting f = (case f of FEvict t u \<Rightarrow> 1 | _ \<Rightarrow> 0)"

definition pending :: "flight \<Rightarrow> int" where
  "pending f = (case f of FPending t u \<Rightarrow> 1 | _ \<Rightarrow> 0)"

definition returned :: "flight \<Rightarrow> int" where
  "returned f = (case f of FReturned t r \<Rightarrow> 1 | _ \<Rightarrow> 0)"

definition flights_of :: "(flight \<Rightarrow> int) \<Rightarrow> auth_system \<Rightarrow> int" where
  "flights_of w s = sum_list (map w (au_flights s))"

definition counted_ok :: "auth_system \<Rightarrow> bool" where
  "counted_ok s \<longleftrightarrow> (let m = au_metrics s in
     am_totalRequests m = flights_of returned s \<and> am_parallelAuth m = am_totalRequests m \<and>
     am_cacheHits m + am_cacheMisses m = flights_of returned s + flights_of pending s \<and>
     am_cacheMisses m = am_successfulAuth m + am_failedAuth m + flights_of pending s)"

section \<open>Every step keeps the results sound\<close>

lemma count_miss_fields [simp]:
  "au_providers (count_miss s) = au_providers s" "au_cache (count_miss s) = au_cache s" "au_log (count_miss s) = au_log s"
  "au_flights (count_miss s) = au_flights s" "au_registered (count_miss s) = au_registered s" "au_config (count_miss s) = au_config s"
  "au_metrics (count_miss s) = (au_metrics s)\<lparr>am_cacheMisses := am_cacheMisses (au_metrics s) + 1\<rparr>"
  by (simp_all add: count_miss_def)

lemma auth_fail_fields [simp]:
  "au_providers (auth_fail s) = au_providers s" "au_cache (auth_fail s) = au_cache s" "au_log (auth_fail s) = au_log s"
  "au_flights (auth_fail s) = au_flights s" "au_registered (auth_fail s) = au_registered s" "au_config (auth_fail s) = au_config s"
  "au_metrics (auth_fail s) = (au_metrics s)\<lparr>am_failedAuth := am_failedAuth (au_metrics s) + 1\<rparr>"
  by (simp_all add: auth_fail_def)

lemma auth_return_fields [simp]:
  "au_providers (auth_return k t r d s) = au_providers s" "au_cache (auth_return k t r d s) = au_cache s"
  "au_log (auth_return k t r d s) = au_log s" "au_flights (auth_return k t r d s) = (au_flights s)[k := FReturned t r]"
  "au_registered (auth_return k t r d s) = au_registered s" "au_config (auth_return k t r d s) = au_config s"
  "au_metrics (auth_return k t r d s) = (au_metrics s)\<lparr>am_avgResponseTime := am_avgResponseTime (au_metrics s) + d,
     am_totalRequests := am_totalRequests (au_metrics s) + 1, am_parallelAuth := am_parallelAuth (au_metrics s) + 1\<rparr>"
  by (simp_all add: auth_return_def set_flight_def Let_def)

lemma execute_fields:
  assumes "executeParallelAuth lib order now d late token s = (results, s1)"
  shows "au_cache s1 = au_cache s" and "au_log s1 = au_log s" and "au_flights s1 = au_flights s"
    and "au_registered s1 = au_registered s" and "au_config s1 = au_config s"
    and "results = map (\<lambda>name. authenticateWithProvider lib (au_providers s) now (d name) late token name) order"
    and "au_metrics s1 = fold (updateProviderStats now) results (au_metrics s)"
    and "au_providers s1 = fold (\<lambda>r ps. case ps (pr_Provider r) of None \<Rightarrow> ps
          | Some p \<Rightarrow> ps(pr_Provider r \<mapsto> provider_record (pr_Duration r) (pr_Error r \<noteq> None) p)) results (au_providers s)"
  using assms by (auto simp: executeParallelAuth_def Let_def)

lemma providers_ok_fold:
  "providers_ok lib reg ps \<Longrightarrow> providers_ok lib reg (fold (\<lambda>r ps. case ps (pr_Provider r) of None \<Rightarrow> ps
     | Some p \<Rightarrow> ps(pr_Provider r \<mapsto> provider_record (pr_Duration r) (pr_Error r \<noteq> None) p)) results ps)"
proof (induction results arbitrary: ps)
  case Nil
  then show ?case by simp
next
  case (Cons r rs)
  have "providers_ok lib reg (case ps (pr_Provider r) of None \<Rightarrow> ps
     | Some p \<Rightarrow> ps(pr_Provider r \<mapsto> provider_record (pr_Duration r) (pr_Error r \<noteq> None) p))"
    using Cons.prems by (auto simp: providers_ok_def split: option.split)
  then show ?case using Cons.IH by simp
qed

definition same_counts :: "AuthMetrics \<Rightarrow> AuthMetrics \<Rightarrow> bool" where
  "same_counts m m' \<longleftrightarrow> am_totalRequests m' = am_totalRequests m \<and> am_successfulAuth m' = am_successfulAuth m \<and>
     am_failedAuth m' = am_failedAuth m \<and> am_cacheHits m' = am_cacheHits m \<and> am_cacheMisses m' = am_cacheMisses m \<and>
     am_parallelAuth m' = am_parallelAuth m"

lemma same_counts_stats: "same_counts m (fold (updateProviderStats now) rs m)"
proof (induction rs arbitrary: m)
  case Nil
  then show ?case by (simp add: same_counts_def)
next
  case (Cons r rs)
  then show ?case using Cons.IH [of "updateProviderStats now r m"]
    by (simp add: same_counts_def updateProviderStats_def Let_def)
qed

lemma success_vouched:
  assumes "providers_ok lib (au_registered s) (au_providers s)"
    and "r \<in> set (successes (map (\<lambda>name. authenticateWithProvider lib (au_providers s) now (d name) late token name) order))"
    and "set order \<subseteq> set (ac_EnabledProviders (au_config s))"
  shows "vouched lib s token r"
proof -
  obtain name where n: "name \<in> set order" and rr: "ar_Success r"
    "pr_Error (authenticateWithProvider lib (au_providers s) now (d name) late token name) = None"
    "pr_Result (authenticateWithProvider lib (au_providers s) now (d name) late token name) = Some r"
    using assms(2) by (auto simp: successes_def split: option.splits if_splits)
  obtain q r0 where q: "au_providers s name = Some q" "provider_check lib q now token = Inr r0"
    "r = r0\<lparr>ar_Provider := name, ar_ResponseTime := d name\<rparr>"
    using rr by (auto simp: authenticateWithProvider_def split: option.splits sum.splits)
  obtain p where p: "(name, p) \<in> set (au_registered s)" "provider_check lib q = provider_check lib p"
    using assms(1) q(1) by (auto simp: providers_ok_def)
  have "r = r0\<lparr>ar_Provider := name, ar_ResponseTime := ar_ResponseTime r\<rparr>" using q(3) by simp
  then show ?thesis using rr(1) n assms(3) p q(2) unfolding vouched_def by (metis subsetD)
qed

lemma cacheResult_fields:
  "au_providers (cacheResult lib ks t r now later s) = au_providers s" "au_log (cacheResult lib ks t r now later s) = au_log s"
  "au_flights (cacheResult lib ks t r now later s) = au_flights s" "au_metrics (cacheResult lib ks t r now later s) = au_metrics s"
  "au_registered (cacheResult lib ks t r now later s) = au_registered s" "au_config (cacheResult lib ks t r now later s) = au_config s"
  by (simp_all add: cacheResult_def evictLeastRecentlyUsed_def Let_def)

lemma cacheResult_entries:
  assumes "au_cache (cacheResult lib ks t r now later s) k = Some e"
  shows "au_cache s k = Some e \<or> k = hashToken lib t \<and> ce_Result e = r \<and> (ar_ExpiresAt r \<noteq> 0 \<longrightarrow> ce_ExpiresAt e \<le> ar_ExpiresAt r)"
  using assms by (auto simp: cacheResult_def evictLeastRecentlyUsed_def cache_deadline_def Let_def split: if_splits)

lemma in_log_mono: "in_log lib s k r \<Longrightarrow> set (au_log s) \<subseteq> set (au_log s') \<Longrightarrow> in_log lib s' k r"
  by (auto simp: in_log_def)

lemma sound_frame:
  assumes "sound lib s" and "au_config s' = au_config s" and "set (au_registered s) \<subseteq> set (au_registered s')"
    and "providers_ok lib (au_registered s') (au_providers s')" and "set (au_log s) \<subseteq> set (au_log s')"
    and "\<And>t r. (t, r) \<in> set (au_log s') \<Longrightarrow> (t, r) \<in> set (au_log s) \<or> vouched lib s' t r"
    and "\<And>k e. au_cache s' k = Some e \<Longrightarrow>
      (\<exists>e0. au_cache s k = Some e0 \<and> ce_Result e0 = ce_Result e \<and> ce_ExpiresAt e0 = ce_ExpiresAt e) \<or> entry_ok lib s' k e"
    and "\<And>t r. FReturned t (Some r) \<in> set (au_flights s') \<Longrightarrow>
      FReturned t (Some r) \<in> set (au_flights s) \<or> in_log lib s' (hashToken lib t) r"
  shows "sound lib s'"
  unfolding sound_def
proof (intro conjI allI impI)
  show "providers_ok lib (au_registered s') (au_providers s')" by (rule assms(4))
  have "vouched lib s' t r" if "vouched lib s t r" for t r
    using that assms(2,3) unfolding vouched_def by (metis subsetD)
  then show "\<forall>(t, r) \<in> set (au_log s'). vouched lib s' t r"
    using assms(1,6) unfolding sound_def by fastforce
  show "entry_ok lib s' k e" if "au_cache s' k = Some e" for k e
    using assms(7) [OF that] assms(1) in_log_mono [OF _ assms(5)] unfolding sound_def entry_ok_def by metis
  show "in_log lib s' (hashToken lib t) r" if "FReturned t (Some r) \<in> set (au_flights s')" for t r
    using assms(8) [OF that] assms(1) in_log_mono [OF _ assms(5)] unfolding sound_def by blast
qed

lemma best_is_success: "selectBestResult s results = Some r \<Longrightarrow> r \<in> set (successes results)"
proof -
  assume a: "selectBestResult s results = Some r"
  let ?rs = "successes results"
  have ne: "?rs \<noteq> []" using a by (auto simp: selectBestResult_def Let_def split: if_splits)
  have "find_provider ?rs x = Some q \<Longrightarrow> q \<in> set ?rs" for x q by (auto simp: find_provider_def find_Some_iff)
  then show ?thesis using a ne fallback_choice_some [of "ac_FallbackOrder (au_config s)" ?rs r] fastest_least [OF ne]
    by (auto simp: selectBestResult_def Let_def split: if_splits option.splits)
qed

lemma auth_end_sound:
  assumes "sound lib s" and "k < length (au_flights s)" and "mset (at_order a) = mset (getEnabledProviders s)"
  shows "sound lib (auth_end lib k token start a s)"
proof (cases "getEnabledProviders s = []")
  case True
  show ?thesis
    by (rule sound_frame [OF assms(1)])
      (use True assms(1) in \<open>auto simp: auth_end_def Let_def sound_def dest!: set_update_in\<close>)
next
  case False
  obtain results s1 where x: "executeParallelAuth lib (at_order a) (at_now a) (at_durations a) (at_late a) token s = (results, s1)"
    by fastforce
  note f = execute_fields [OF x]
  have prov: "providers_ok lib (au_registered s) (au_providers s1)"
    unfolding f(8) by (rule providers_ok_fold) (use assms(1) in \<open>simp add: sound_def\<close>)
  show ?thesis
  proof (cases "selectBestResult s1 results")
    case None
    show ?thesis
      by (rule sound_frame [OF assms(1)])
        (use False None x f prov in \<open>auto simp: auth_end_def Let_def dest!: set_update_in\<close>)
  next
    case (Some r)
    define s2 where "s2 = cacheResult lib (at_keys a) token r (at_cached a) (at_later a) s1"
    define s' where "s' = auth_end lib k token start a s"
    have e: "au_config s' = au_config s" "au_registered s' = au_registered s" "au_providers s' = au_providers s1"
      "au_log s' = au_log s @ [(token, r)]" "au_cache s' = au_cache s2" "au_flights s' = (au_flights s)[k := FReturned token (Some r)]"
      using False Some x f(1-5) by (simp_all add: s'_def auth_end_def Let_def s2_def cacheResult_fields)
    have "set (at_order a) = set (getEnabledProviders s)" using assms(3) by (metis set_mset_mset)
    then have "vouched lib s token r"
      using success_vouched [OF _ best_is_success [OF Some, unfolded f(6)]] assms(1)
      by (auto simp: sound_def getEnabledProviders_def)
    then have v: "vouched lib s' token r" by (simp add: vouched_def e)
    have new: "in_log lib s' (hashToken lib token) r" by (auto simp: in_log_def e)
    show ?thesis unfolding s'_def [symmetric]
    proof (rule sound_frame [OF assms(1)])
      show "providers_ok lib (au_registered s') (au_providers s')" using prov by (simp add: e)
      show "(t, q) \<in> set (au_log s) \<or> vouched lib s' t q" if "(t, q) \<in> set (au_log s')" for t q using that v by (auto simp: e)
      show "(\<exists>e0. au_cache s key = Some e0 \<and> ce_Result e0 = ce_Result en \<and> ce_ExpiresAt e0 = ce_ExpiresAt en) \<or> entry_ok lib s' key en"
        if "au_cache s' key = Some en" for key en
        using cacheResult_entries [of lib "at_keys a" token r "at_cached a" "at_later a" s1 key en] that new f(1)
        by (auto simp: e s2_def entry_ok_def)
      show "FReturned t (Some q) \<in> set (au_flights s) \<or> in_log lib s' (hashToken lib t) q"
        if "FReturned t (Some q) \<in> set (au_flights s')" for t q
        using set_update_in [of "FReturned t (Some q)" "au_flights s" k "FReturned token (Some r)"] that new by (auto simp: e)
    qed (auto simp: e)
  qed
qed

lemma auth_begin_sound:
  assumes "sound lib s"
  shows "sound lib (auth_begin lib token start now s)"
proof -
  have prov: "providers_ok lib (au_registered s) (au_providers s)" using assms by (simp add: sound_def)
  show ?thesis
  proof (cases "au_cache s (hashToken lib token)")
    case None
    then show ?thesis
      by (intro sound_frame [OF assms]) (use prov in \<open>auto simp: auth_begin_def checkCache_def Let_def\<close>)
  next
    case (Some e)
    have log: "in_log lib s (hashToken lib token) (ce_Result e)" using assms Some by (auto simp: sound_def entry_ok_def)
    show ?thesis
    proof (cases "ce_ExpiresAt e < now")
      case True
      then show ?thesis
        by (intro sound_frame [OF assms]) (use prov Some in \<open>auto simp: auth_begin_def checkCache_def Let_def\<close>)
    next
      case False
      then show ?thesis
        by (intro sound_frame [OF assms])
          (use prov Some log in \<open>auto simp: auth_begin_def checkCache_def Let_def touch_def in_log_def list_update_append split: if_splits\<close>)
    qed
  qed
qed

lemma auth_step_sound:
  assumes "sound lib s" and "auth_step lib s e = Some s'"
  shows "sound lib s'"
proof (cases e)
  case (ARegister name p)
  show ?thesis
  proof (rule sound_frame [OF assms(1)])
    show "providers_ok lib (au_registered s') (au_providers s')"
      unfolding providers_ok_def
    proof (intro allI impI)
      fix n q
      assume q: "au_providers s' n = Some q"
      have reg: "au_registered s' = au_registered s @ [(name, p)]" "au_providers s' = (au_providers s)(name \<mapsto> p)"
        using ARegister assms(2) by (auto simp: RegisterProvider_def)
      show "\<exists>p. (n, p) \<in> set (au_registered s') \<and> provider_check lib q = provider_check lib p"
      proof (cases "n = name")
        case True
        then show ?thesis using q reg by auto
      next
        case False
        then have "au_providers s n = Some q" using q reg(2) by simp
        then obtain p' where "(n, p') \<in> set (au_registered s)" "provider_check lib q = provider_check lib p'"
          using assms(1) unfolding sound_def providers_ok_def by blast
        then show ?thesis using reg(1) by auto
      qed
    qed
  qed (use ARegister assms in \<open>auto simp: RegisterProvider_def\<close>)
next
  case (ABegin token start now)
  then show ?thesis using auth_begin_sound [OF assms(1)] assms(2) by auto
next
  case (AEvict k)
  then obtain token start where s': "s' = set_flight k (FPending token start) (count_miss (evictCacheEntry (hashToken lib token) s))"
    using assms(2) by (auto split: if_splits flight.splits)
  have p: "providers_ok lib (au_registered s) (au_providers s)" using assms(1) by (simp add: sound_def)
  show ?thesis unfolding s'
    by (rule sound_frame [OF assms(1)])
      (use p in \<open>auto simp: set_flight_def evictCacheEntry_def split: if_splits dest!: set_update_in\<close>)
next
  case (AEnd k a)
  then obtain token start where "k < length (au_flights s)" "mset (at_order a) = mset (getEnabledProviders s)"
    "s' = auth_end lib k token start a s"
    using assms(2) by (auto split: if_splits flight.splits)
  then show ?thesis using auth_end_sound [OF assms(1)] by simp
qed

section \<open>Counters\<close>

lemma flights_of_update:
  "k < length (au_flights s) \<Longrightarrow> sum_list (map w ((au_flights s)[k := f])) = flights_of w s - w (au_flights s ! k) + w f"
  by (simp add: flights_of_def sum_list_update_int)

lemmas weights = evicting_def pending_def returned_def

lemma auth_end_counted:
  assumes "counted_ok s" and "k < length (au_flights s)" and "au_flights s ! k = FPending token start"
  shows "counted_ok (auth_end lib k token start a s)"
proof -
  have w: "sum_list (map returned ((au_flights s)[k := FReturned token r])) = flights_of returned s + 1"
    "sum_list (map pending ((au_flights s)[k := FReturned token r])) = flights_of pending s - 1" for r
    using assms(3) by (simp_all add: flights_of_update [OF assms(2)] weights)
  obtain results s1 where x: "executeParallelAuth lib (at_order a) (at_now a) (at_durations a) (at_late a) token s = (results, s1)"
    by fastforce
  note f = execute_fields [OF x]
  have m: "same_counts (au_metrics s) (au_metrics s1)" unfolding f(7) by (rule same_counts_stats)
  show ?thesis
  proof (cases "getEnabledProviders s = []")
    case True
    then show ?thesis using assms(1) w by (simp add: auth_end_def counted_ok_def Let_def flights_of_def)
  next
    case False
    then show ?thesis using assms(1) w m f(3) x
      by (cases "selectBestResult s1 results")
        (simp_all add: auth_end_def counted_ok_def Let_def flights_of_def same_counts_def cacheResult_fields)
  qed
qed

lemma auth_step_counted:
  assumes "counted_ok s" and "auth_step lib s e = Some s'"
  shows "counted_ok s'"
proof (cases e)
  case (ARegister name p)
  then show ?thesis using assms by (auto simp: RegisterProvider_def counted_ok_def Let_def flights_of_def)
next
  case (ABegin token start now)
  show ?thesis
    using assms ABegin
    by (cases "au_cache s (hashToken lib token)")
      (auto simp: auth_begin_def checkCache_def counted_ok_def Let_def flights_of_def weights list_update_append)
next
  case (AEvict k)
  then obtain token start where k: "k < length (au_flights s)" "au_flights s ! k = FEvict token start"
    and s': "s' = set_flight k (FPending token start) (count_miss (evictCacheEntry (hashToken lib token) s))"
    using assms(2) by (auto split: if_splits flight.splits)
  have "sum_list (map returned ((au_flights s)[k := FPending token start])) = flights_of returned s"
    "sum_list (map pending ((au_flights s)[k := FPending token start])) = flights_of pending s + 1"
    using k(2) by (simp_all add: flights_of_update [OF k(1)] weights)
  then show ?thesis using assms(1) by (simp add: s' counted_ok_def Let_def flights_of_def set_flight_def evictCacheEntry_def)
next
  case (AEnd k a)
  then obtain token start where "k < length (au_flights s)" "au_flights s ! k = FPending token start"
    "s' = auth_end lib k token start a s"
    using assms(2) by (auto split: if_splits flight.splits)
  then show ?thesis using auth_end_counted [OF assms(1)] by simp
qed

definition auth_inv :: "auth_library \<Rightarrow> AuthConfig \<Rightarrow> auth_system \<Rightarrow> bool" where
  "auth_inv lib cfg s \<longleftrightarrow> sound lib s \<and> counted_ok s \<and> au_config s = cfg"

lemma auth_end_config: "au_config (auth_end lib k token start a s) = au_config s"
  by (simp add: auth_end_def executeParallelAuth_def Let_def cacheResult_fields split: option.split)

lemma auth_step_config: "auth_step lib s e = Some s' \<Longrightarrow> au_config s' = au_config s"
  by (cases e)
    (auto simp: RegisterProvider_def auth_begin_def checkCache_def Let_def set_flight_def evictCacheEntry_def auth_end_config
      split: if_splits flight.splits option.splits)

interpretation auth_runs: step_invariant "auth_step lib" NewMultiAuthSystem "auth_inv lib" "\<lambda>_. True" for lib
proof unfold_locales
  show "auth_inv lib c (NewMultiAuthSystem c)" for c
    by (simp add: auth_inv_def sound_def counted_ok_def NewMultiAuthSystem_def flights_of_def providers_ok_def)
  show "auth_inv lib c s'" if "auth_inv lib c s" "auth_step lib s e = Some s'" for c s e s'
    using that auth_step_sound auth_step_counted auth_step_config by (auto simp: auth_inv_def)
qed

text \<open>
  C2. Whatever requests overlap, every result that is returned or served from the cache was the
  answer of a registered and enabled provider that accepted a token, the same one as long as their
  shortened hashes differ; a cached result is never served after its own expiry; and the counters
  account for every request.
\<close>

theorem authentication_sound:
  assumes "run_steps (auth_step lib) (NewMultiAuthSystem cfg) es = Some s"
  shows "(\<forall>token r. FReturned token (Some r) \<in> set (au_flights s) \<longrightarrow>
      (\<exists>t. hashToken lib t = hashToken lib token \<and> vouched lib s t r)) \<and>
    (\<forall>token now r s'. checkCache lib token now s = (CacheHit r, s') \<longrightarrow>
      (\<exists>t. hashToken lib t = hashToken lib token \<and> vouched lib s t r) \<and> (ar_ExpiresAt r = 0 \<or> now \<le> ar_ExpiresAt r)) \<and>
    am_totalRequests (au_metrics s) = flights_of returned s \<and>
    am_cacheHits (au_metrics s) + am_successfulAuth (au_metrics s) + am_failedAuth (au_metrics s) = am_totalRequests (au_metrics s)"
proof -
  have i: "auth_inv lib cfg s" using auth_runs.inv_run [OF TrueI assms] .
  then have v: "\<exists>t. hashToken lib t = k \<and> vouched lib s t r" if "in_log lib s k r" for k r
    using that unfolding auth_inv_def sound_def in_log_def by fastforce
  have cached: "in_log lib s (hashToken lib token) r \<and> (ar_ExpiresAt r = 0 \<or> now \<le> ar_ExpiresAt r)"
    if "checkCache lib token now s = (CacheHit r, s')" for token now r s'
    using that i by (auto simp: checkCache_def auth_inv_def sound_def entry_ok_def Let_def split: option.splits if_splits) force
  have "in_log lib s (hashToken lib token) r" if "FReturned token (Some r) \<in> set (au_flights s)" for token r
    using that i by (auto simp: auth_inv_def sound_def)
  then show ?thesis using v cached i by (auto simp: auth_inv_def counted_ok_def Let_def)
qed

section \<open>Concrete runs\<close>

text \<open>A library: every character is coded in unary, the HMAC is the key before the message.\<close>

definition unary :: "string \<Rightarrow> string" where
  "unary x = concat (map (\<lambda>c. replicate (of_char c) CHR ''a'' @ [CHR ''b'']) x)"

fun unary_decode :: "nat \<Rightarrow> string \<Rightarrow> string option" where
  "unary_decode n [] = (if n = 0 then Some [] else None)"
| "unary_decode n (x # xs) =
     (if x = CHR ''a'' then unary_decode (Suc n) xs else map_option ((#) (char_of n)) (unary_decode 0 xs))"

lemma unary_decode_char: "unary_decode n (replicate k CHR ''a'' @ CHR ''b'' # ys) = map_option ((#) (char_of (n + k))) (unary_decode 0 ys)"
  by (induction k arbitrary: n) simp_all

lemma unary_roundtrip: "unary_decode 0 (unary x) = Some x"
  by (induction x) (simp_all add: unary_def unary_decode_char)

definition unary_library :: auth_library where
  "unary_library = \<lparr>lb_sha256_hex = (\<lambda>x. x), lb_hmac = (\<lambda>k m. k @ m), lb_encode64 = unary, lb_decode64 = unary_decode 0,
     lb_header_json = (\<lambda>_. ''h''), lb_header = (\<lambda>_. Some \<lparr>jh_Algorithm = ''HS256'', jh_Type = ''JWT''\<rparr>),
     lb_payload_json = (\<lambda>_. ''p''), lb_payload = (\<lambda>_. Some (generated_payload 0 None None)),
     lb_object = (\<lambda>_. Some Map.empty), lb_valid_url = (\<lambda>_. True)\<rparr>"

definition test_provider :: JWTProvider where
  "test_provider = NewJWTProvider ''jwt'' ''test-secret-key'' ''test-issuer'' ''test-audience'' Second"

lemma unary_library_laws:
  "lb_decode64 unary_library (lb_encode64 unary_library x) = Some x" "CHR ''.'' \<notin> set (lb_encode64 unary_library x)"
  "lb_header unary_library (lb_header_json unary_library \<lparr>jh_Algorithm = ''HS256'', jh_Type = ''JWT''\<rparr>) =
     Some \<lparr>jh_Algorithm = ''HS256'', jh_Type = ''JWT''\<rparr>"
  "lb_payload unary_library (lb_payload_json unary_library (generated_payload 0 None None)) = Some (generated_payload 0 None None)"
  "lb_object unary_library (lb_payload_json unary_library (generated_payload 0 None None)) \<noteq> None"
  by (simp_all add: unary_library_def unary_roundtrip) (simp add: unary_def)

lemma generated_token_accepted_witness:
  "\<exists>r. JWT_Authenticate unary_library test_provider Minute (TestJWTGenerator unary_library 0 None None) = Inr r \<and>
     ar_Success r \<and> ar_Username r = ''testuser''"
  using generated_token_accepted [OF unary_library_laws, of Minute "''jwt''" Second]
  by (auto simp: test_provider_def Hour_def Minute_def Second_def)

lemma jwt_accepts_signed_witness:
  "\<exists>r (header :: JWTHeader). JWT_Authenticate unary_library test_provider Minute (TestJWTGenerator unary_library 0 None None) = Inr r \<and>
     jh_Algorithm header = ''HS256'' \<and> ar_Success r"
proof -
  obtain r where r: "JWT_Authenticate unary_library test_provider Minute (TestJWTGenerator unary_library 0 None None) = Inr r"
    using generated_token_ok [OF unary_library_laws, of Minute "''jwt''" Second]
    by (auto simp: test_provider_def Hour_def Minute_def Second_def)
  have "\<exists>header :: JWTHeader. jh_Algorithm header = ''HS256'' \<and> ar_Success r"
    using jwt_accepts_signed [OF r] by (elim exE conjE) (rule exI, rule conjI, assumption+)
  then show ?thesis using r by simp
qed

definition key_provider :: APIKeyProvider where
  "key_provider = AddAPIKey ''ak_test123'' ''user123'' ''testuser'' ''test@example.com'' [''user''] 100 0
     (NewAPIKeyProvider ''apikey'' ''X-API-Key'' ''ak_'' Second)"

lemma api_key_roundtrip_witness:
  "\<exists>r. APIKey_Authenticate unary_library key_provider 50 ''ak_test123'' = Inr r \<and> ar_UserID r = ''user123''"
  using api_key_roundtrip [of "''ak_test123''" "NewAPIKeyProvider ''apikey'' ''X-API-Key'' ''ak_'' Second" key_provider
      "''user123''" "''testuser''" "''test@example.com''" "[''user'']" 100 0 50 unary_library]
  by (auto simp: key_provider_def NewAPIKeyProvider_def strings_HasPrefix_def)

definition key_config :: AuthConfig where
  "key_config = \<lparr>ac_EnabledProviders = [''apikey'', ''jwt''], ac_DefaultProvider = ''jwt'', ac_CacheExpiration = 1000,
     ac_MaxCacheSize = 2, ac_RequireAllSuccess = False, ac_FallbackOrder = [''apikey'']\<rparr>"

definition key_turn :: auth_turn where
  "key_turn = \<lparr>at_order = [''jwt'', ''apikey''], at_now = 2, at_durations = (\<lambda>_. 1), at_late = False, at_cached = 3,
     at_later = 4, at_keys = [], at_end = 5\<rparr>"

definition key_run :: "auth_event list" where
  "key_run = [ARegister ''apikey'' (PAPIKey key_provider), ARegister ''jwt'' (PJWT test_provider),
     ABegin ''ak_test123'' 1 1, ABegin ''ak_test123'' 1 2, AEnd 0 key_turn, ABegin ''ak_test123'' 6 7]"

lemmas auth_run_simps = key_run_def key_config_def key_turn_def NewMultiAuthSystem_def RegisterProvider_def auth_begin_def
  checkCache_def count_miss_def auth_end_def getEnabledProviders_def executeParallelAuth_def authenticateWithProvider_def
  provider_check_def selectBestResult_def successes_def auth_return_def set_flight_def cacheResult_def cache_deadline_def
  find_provider_def hashToken_def touch_def Let_def

lemma key_answers:
  "JWT_Authenticate lib test_provider now ''ak_test123'' = Inl InvalidTokenFormat"
  "\<exists>r. APIKey_Authenticate lib key_provider 2 ''ak_test123'' = Inr r \<and> ar_Success r \<and> ar_ExpiresAt r = 100"
  by (simp_all add: JWT_Authenticate_def APIKey_Authenticate_def key_provider_def AddAPIKey_def NewAPIKeyProvider_def
      strings_HasPrefix_def strings_TrimPrefix_def Let_def)

lemma key_run_result:
  "\<exists>s r. run_steps (auth_step unary_library) (NewMultiAuthSystem key_config) key_run = Some s \<and>
     FReturned ''ak_test123'' (Some r) = au_flights s ! 2 \<and> length (au_flights s) = 3"
proof -
  obtain r where r: "APIKey_Authenticate unary_library key_provider 2 ''ak_test123'' = Inr r" "ar_Success r" "ar_ExpiresAt r = 100"
    using key_answers(2) by blast
  show ?thesis by (simp add: auth_run_simps key_answers(1) r updateProviderStats_def)
qed

lemma authentication_sound_witness:
  "\<exists>s r t. run_steps (auth_step unary_library) (NewMultiAuthSystem key_config) key_run = Some s \<and>
     FReturned ''ak_test123'' (Some r) \<in> set (au_flights s) \<and> vouched unary_library s t r"
proof -
  obtain s r where s: "run_steps (auth_step unary_library) (NewMultiAuthSystem key_config) key_run = Some s"
    "FReturned ''ak_test123'' (Some r) = au_flights s ! 2" "length (au_flights s) = 3"
    using key_run_result by blast
  have "FReturned ''ak_test123'' (Some r) \<in> set (au_flights s)" using s(2,3) by (simp add: nth_mem)
  then show ?thesis using s(1) authentication_sound [OF s(1)] by blast
qed

definition answer_of :: "string \<Rightarrow> duration \<Rightarrow> ParallelAuthResult" where
  "answer_of name d = \<lparr>pr_Provider = name, pr_Result = Some (failed_result\<lparr>ar_Success := True, ar_Provider := name, ar_ResponseTime := d\<rparr>),
     pr_Error = None, pr_Duration = d, pr_TimedOut = False\<rparr>"

lemma best_result_chosen_witness:
  "\<exists>r. selectBestResult (NewMultiAuthSystem key_config) [answer_of ''x'' 5, answer_of ''apikey'' 9] = Some r \<and>
     ar_Provider r = ''apikey'' \<and> r \<in> set (successes [answer_of ''x'' 5, answer_of ''apikey'' 9])"
proof -
  obtain r where r: "selectBestResult (NewMultiAuthSystem key_config) [answer_of ''x'' 5, answer_of ''apikey'' 9] = Some r"
    "ar_Provider r = ''apikey''"
    by (simp add: selectBestResult_def successes_def answer_of_def NewMultiAuthSystem_def key_config_def find_provider_def
        failed_result_def Let_def)
  show ?thesis using r best_result_chosen [OF r(1)] by (intro exI [of _ r]) blast
qed

definition full_cache :: auth_system where
  "full_cache = (NewMultiAuthSystem (key_config\<lparr>ac_MaxCacheSize := 1\<rparr>))
     \<lparr>au_cache := [''k'' \<mapsto> \<lparr>ce_Result = failed_result, ce_ExpiresAt = 50, ce_AccessCount = 1, ce_lastAccess = 3\<rparr>]\<rparr>"

lemma cache_bounded_witness:
  "int (card (dom (au_cache (cacheResult unary_library [''k''] ''t'' failed_result 5 6 full_cache)))) \<le> 1"
proof -
  have m: "ac_MaxCacheSize (au_config full_cache) = 1" by (simp add: full_cache_def NewMultiAuthSystem_def key_config_def)
  have "int (card (dom (au_cache (cacheResult unary_library [''k''] ''t'' failed_result 5 6 full_cache)))) \<le>
      ac_MaxCacheSize (au_config full_cache)"
    by (rule conjunct1 [OF cache_bounded]) (simp_all add: full_cache_def NewMultiAuthSystem_def key_config_def)
  then show ?thesis by (simp only: m)
qed

end
