(* ===== verification/ContextControl.thy ===== *)
theory ContextControl
  imports Prelude
begin

text \<open>
  The context controller of chapter 3, \<^verbatim>\<open>02_context_control_system/context_control_system.go\<close>: a
  bounded queue of tasks, workers that run each task under a context with a timeout of its own, a
  table through which a running task can be cancelled, and a goroutine that counts the results.

  A context is a number; \<open>cc_ended\<close> holds the error of every context that has ended.  A worker's
  goroutine is a phase; its sections between waits are steps, in any interleaving with submissions,
  cancellations, expiring timeouts and the shutdown.  \<open>cc_accepted\<close> and \<open>cc_lost\<close> are histories kept
  for the statements.  The queues have a positive capacity.  What a task carries besides its
  identifier, timeout and retries is not looked at by the code and left out.
\<close>

section \<open>Data\<close>

datatype ContextType = TypeTimeout | TypeCancel | TypeDeadline | TypeValue

datatype ctx_error = DeadlineExceeded | Canceled

datatype task_error = CtxError ctx_error | ProcessingError

record Task =
  ct_ID :: int
  ct_Timeout :: duration
  ct_Retries :: int
  ct_CreatedAt :: time

record TaskResult =
  rs_TaskID :: int
  rs_Success :: bool
  rs_Error :: "task_error option"
  rs_Duration :: duration
  rs_WorkerID :: nat
  rs_ContextType :: ContextType
  rs_RetryCount :: int

record WorkerStats =
  ws_TasksProcessed :: int
  ws_TasksSuccess :: int
  ws_TasksError :: int
  ws_TasksTimeout :: int
  ws_TasksCancelled :: int
  ws_TotalProcessTime :: int

definition AverageProcessTime :: "WorkerStats \<Rightarrow> duration" where
  "AverageProcessTime st =
     (if ws_TasksProcessed st = 0 then 0 else go_div (ws_TotalProcessTime st) (ws_TasksProcessed st))"

record ControllerStats =
  cs_totalSubmitted :: int
  cs_totalCompleted :: int
  cs_totalSuccess :: int
  cs_totalErrors :: int
  cs_totalTimeouts :: int
  cs_totalCancellations :: int
  cs_averageProcessTime :: duration

record TaskConfig =
  tc_DefaultTimeout :: duration
  tc_MaxTimeout :: duration
  tc_WorkerCount :: nat
  tc_QueueSize :: nat

definition NewTaskConfig :: TaskConfig where
  "NewTaskConfig = \<lparr>tc_DefaultTimeout = 30 * Second, tc_MaxTimeout = 5 * Minute, tc_WorkerCount = 4, tc_QueueSize = 1000\<rparr>"

text \<open>
  A worker's goroutine: waiting; with a task before its context exists; running the task under a
  context; with the result, before the task is unregistered; before the send; returned.
\<close>

datatype cc_phase =
  CWaits | CStarts Task time | CRuns Task time nat | CLeaves Task TaskResult nat | CSends TaskResult | CReturned

record cc_goroutine =
  cg_worker :: nat
  cg_phase :: cc_phase

record controller =
  cc_config :: TaskConfig
  cc_queue :: "Task list"
  cc_results :: "TaskResult list"
  cc_isRunning :: bool
  cc_rootDone :: bool
  cc_resultsClosed :: bool
  cc_goroutines :: "cc_goroutine list"
  cc_handlers :: nat
  cc_workerStats :: "nat \<Rightarrow> WorkerStats"
  cc_currentTask :: "nat \<rightharpoonup> Task"
  cc_stats :: ControllerStats
  cc_activeTimeouts :: "int \<rightharpoonup> nat"
  cc_contexts :: nat
  cc_ended :: "nat \<rightharpoonup> ctx_error"
  cc_accepted :: "Task list"
  cc_lost :: nat

definition zero_worker :: WorkerStats where
  "zero_worker = \<lparr>ws_TasksProcessed = 0, ws_TasksSuccess = 0, ws_TasksError = 0, ws_TasksTimeout = 0,
     ws_TasksCancelled = 0, ws_TotalProcessTime = 0\<rparr>"

definition NewContextControlController :: "TaskConfig \<Rightarrow> controller" where
  "NewContextControlController cfg =
     \<lparr>cc_config = cfg, cc_queue = [], cc_results = [], cc_isRunning = False, cc_rootDone = False, cc_resultsClosed = False,
      cc_goroutines = [], cc_handlers = 0, cc_workerStats = (\<lambda>_. zero_worker), cc_currentTask = Map.empty,
      cc_stats = \<lparr>cs_totalSubmitted = 0, cs_totalCompleted = 0, cs_totalSuccess = 0, cs_totalErrors = 0,
        cs_totalTimeouts = 0, cs_totalCancellations = 0, cs_averageProcessTime = 0\<rparr>,
      cc_activeTimeouts = Map.empty, cc_contexts = 0, cc_ended = Map.empty, cc_accepted = [], cc_lost = 0\<rparr>"

definition Start_cc :: "controller \<Rightarrow> controller \<times> bool" where
  "Start_cc s =
     (if cc_isRunning s then (s, False)
      else (s\<lparr>cc_isRunning := True,
              cc_goroutines := cc_goroutines s @ map (\<lambda>w. \<lparr>cg_worker = w, cg_phase = CWaits\<rparr>) [0 ..< tc_WorkerCount (cc_config s)],
              cc_handlers := cc_handlers s + 1\<rparr>, True))"

section \<open>Submission\<close>

datatype submit_answer = NotRunning | ShuttingDown | QueueFull | SubmitTimeout | Submitted

definition accept :: "Task \<Rightarrow> controller \<Rightarrow> controller" where
  "accept t s = s\<lparr>cc_queue := cc_queue s @ [t], cc_accepted := cc_accepted s @ [t],
     cc_stats := (cc_stats s)\<lparr>cs_totalSubmitted := cs_totalSubmitted (cc_stats s) + 1\<rparr>\<rparr>"

definition queue_room :: "controller \<Rightarrow> bool" where
  "queue_room s \<longleftrightarrow> length (cc_queue s) < tc_QueueSize (cc_config s)"

definition SubmitTask :: "Task \<Rightarrow> time \<Rightarrow> controller \<Rightarrow> controller \<times> submit_answer" where
  "SubmitTask t now s =
    (let t1 = t\<lparr>ct_CreatedAt := (if ct_CreatedAt t = 0 then now else ct_CreatedAt t),
                ct_Timeout := (if ct_Timeout t \<noteq> 0 then ct_Timeout t else tc_DefaultTimeout (cc_config s))\<rparr>
     in if \<not> cc_isRunning s then (s, NotRunning)
        else if cc_rootDone s then (s, ShuttingDown)
        else if queue_room s then (accept t1 s, Submitted)
        else (s, QueueFull))"

text \<open>
  \<^verbatim>\<open>SubmitTaskWithTimeout\<close>: refused at once, or its wait ends by the send, or because its timeout has
  expired or the root context has ended.  It neither asks whether the controller runs nor fills in a
  timeout.
\<close>

datatype submit_wait = Refuses | Sends | Expires | RootEnds

definition SubmitTaskWithTimeout :: "submit_wait \<Rightarrow> Task \<Rightarrow> controller \<Rightarrow> (controller \<times> submit_answer) option" where
  "SubmitTaskWithTimeout wait t s =
     (case wait of
        Refuses \<Rightarrow> (if cc_rootDone s then Some (s, ShuttingDown) else None)
      | Sends \<Rightarrow> (if queue_room s then Some (accept t s, Submitted) else None)
      | Expires \<Rightarrow> Some (s, SubmitTimeout)
      | RootEnds \<Rightarrow> (if cc_rootDone s then Some (s, SubmitTimeout) else None))"

section \<open>Workers\<close>

definition set_cc :: "nat \<Rightarrow> cc_phase \<Rightarrow> controller \<Rightarrow> controller" where
  "set_cc g p s = s\<lparr>cc_goroutines := (cc_goroutines s)[g := (cc_goroutines s ! g)\<lparr>cg_phase := p\<rparr>]\<rparr>"

definition run_take :: "nat \<Rightarrow> nat \<Rightarrow> time \<Rightarrow> controller \<Rightarrow> controller option" where
  "run_take g w now s =
     (case cc_queue s of
        [] \<Rightarrow> None
      | t # rest \<Rightarrow> Some (set_cc g (CStarts t now) (s\<lparr>cc_queue := rest, cc_currentTask := (cc_currentTask s)(w \<mapsto> t)\<rparr>)))"

definition registerTask :: "int \<Rightarrow> nat \<Rightarrow> controller \<Rightarrow> controller" where
  "registerTask k c s = s\<lparr>cc_activeTimeouts := (cc_activeTimeouts s)(k \<mapsto> c)\<rparr>"

definition unregisterTask :: "int \<Rightarrow> controller \<Rightarrow> controller" where
  "unregisterTask k s = s\<lparr>cc_activeTimeouts := (cc_activeTimeouts s)(k := None)\<rparr>"

definition end_context :: "nat \<Rightarrow> ctx_error \<Rightarrow> controller \<Rightarrow> controller" where
  "end_context c e s = (if cc_ended s c = None then s\<lparr>cc_ended := (cc_ended s)(c \<mapsto> e)\<rparr> else s)"

text \<open>The context of the task; it has already ended when the root context has.\<close>

definition run_start :: "nat \<Rightarrow> Task \<Rightarrow> time \<Rightarrow> controller \<Rightarrow> controller" where
  "run_start g t start s =
    (let c = cc_contexts s; s1 = s\<lparr>cc_contexts := c + 1\<rparr>;
         s2 = (if cc_rootDone s then end_context c Canceled s1 else s1)
     in set_cc g (CRuns t start c) (registerTask (ct_ID t) c s2))"

definition effective_timeout :: "TaskConfig \<Rightarrow> Task \<Rightarrow> duration" where
  "effective_timeout cfg t = (if ct_Timeout t \<noteq> 0 then ct_Timeout t else tc_DefaultTimeout cfg)"

text \<open>
  How \<^verbatim>\<open>executeTaskWithContext\<close> ends: with the error of the context, or with what the task yields.
\<close>

datatype run_end = ByContext | Succeeds | Fails

definition executeTaskWithContext :: "nat \<Rightarrow> run_end \<Rightarrow> controller \<Rightarrow> task_error option option" where
  "executeTaskWithContext c how s =
     (case how of
        ByContext \<Rightarrow> map_option (\<lambda>e. Some (CtxError e)) (cc_ended s c)
      | Succeeds \<Rightarrow> Some None
      | Fails \<Rightarrow> Some (Some ProcessingError))"

definition result_type :: "task_error option \<Rightarrow> ContextType" where
  "result_type err = (case err of Some (CtxError Canceled) \<Rightarrow> TypeCancel | _ \<Rightarrow> TypeTimeout)"

definition count_worker :: "task_error option \<Rightarrow> duration \<Rightarrow> WorkerStats \<Rightarrow> WorkerStats" where
  "count_worker err d st =
    (let st1 = (case err of
                  None \<Rightarrow> st\<lparr>ws_TasksSuccess := ws_TasksSuccess st + 1\<rparr>
                | Some (CtxError DeadlineExceeded) \<Rightarrow> st\<lparr>ws_TasksTimeout := ws_TasksTimeout st + 1\<rparr>
                | Some (CtxError Canceled) \<Rightarrow> st\<lparr>ws_TasksCancelled := ws_TasksCancelled st + 1\<rparr>
                | Some ProcessingError \<Rightarrow> st\<lparr>ws_TasksError := ws_TasksError st + 1\<rparr>)
     in st1\<lparr>ws_TasksProcessed := ws_TasksProcessed st + 1, ws_TotalProcessTime := ws_TotalProcessTime st + d\<rparr>)"

definition processTaskWithContext :: "nat \<Rightarrow> nat \<Rightarrow> Task \<Rightarrow> time \<Rightarrow> nat \<Rightarrow> time \<Rightarrow> task_error option \<Rightarrow> controller \<Rightarrow> controller" where
  "processTaskWithContext g w t start c now err s =
    (let d = time_Sub now start;
         r = \<lparr>rs_TaskID = ct_ID t, rs_Success = (err = None), rs_Error = err, rs_Duration = d, rs_WorkerID = w,
              rs_ContextType = result_type err, rs_RetryCount = ct_Retries t\<rparr>
     in set_cc g (CLeaves t r c) (s\<lparr>cc_workerStats := (cc_workerStats s)(w := count_worker err d (cc_workerStats s w))\<rparr>))"

text \<open>The deferred calls: the task is unregistered, its context cancelled, the current task cleared.\<close>

definition run_leave :: "nat \<Rightarrow> nat \<Rightarrow> Task \<Rightarrow> TaskResult \<Rightarrow> nat \<Rightarrow> controller \<Rightarrow> controller" where
  "run_leave g w t r c s =
    (let s1 = end_context c Canceled (unregisterTask (ct_ID t) s)
     in set_cc g (CSends r) (s1\<lparr>cc_currentTask := (cc_currentTask s1)(w := None)\<rparr>))"

definition run_send :: "nat \<Rightarrow> TaskResult \<Rightarrow> controller \<Rightarrow> controller option" where
  "run_send g r s =
     (if length (cc_results s) < tc_QueueSize (cc_config s)
      then Some (set_cc g CWaits (s\<lparr>cc_results := cc_results s @ [r]\<rparr>)) else None)"

definition run_give_up :: "nat \<Rightarrow> controller \<Rightarrow> controller option" where
  "run_give_up g s =
     (if cc_rootDone s then Some (set_cc g CReturned (s\<lparr>cc_lost := cc_lost s + 1\<rparr>)) else None)"

section \<open>Results\<close>

definition count_result :: "TaskResult \<Rightarrow> ControllerStats \<Rightarrow> ControllerStats" where
  "count_result r st =
    (let st1 = st\<lparr>cs_totalCompleted := cs_totalCompleted st + 1\<rparr>;
         st2 = (if rs_Success r then st1\<lparr>cs_totalSuccess := cs_totalSuccess st1 + 1\<rparr>
                else (case rs_ContextType r of
                        TypeTimeout \<Rightarrow> st1\<lparr>cs_totalTimeouts := cs_totalTimeouts st1 + 1\<rparr>
                      | TypeCancel \<Rightarrow> st1\<lparr>cs_totalCancellations := cs_totalCancellations st1 + 1\<rparr>
                      | _ \<Rightarrow> st1\<lparr>cs_totalErrors := cs_totalErrors st1 + 1\<rparr>));
         n = cs_totalCompleted st2
     in if 0 < n then st2\<lparr>cs_averageProcessTime := go_div (cs_averageProcessTime st2 * n + rs_Duration r) (n + 1)\<rparr> else st2)"

definition handleResults :: "controller \<Rightarrow> controller option" where
  "handleResults s =
     (case cc_results s of
        [] \<Rightarrow> None
      | r # rest \<Rightarrow> (if 0 < cc_handlers s then Some (s\<lparr>cc_results := rest, cc_stats := count_result r (cc_stats s)\<rparr>) else None))"

section \<open>Cancellation and shutdown\<close>

definition CancelTask :: "int \<Rightarrow> controller \<Rightarrow> controller \<times> bool" where
  "CancelTask k s =
     (case cc_activeTimeouts s k of
        None \<Rightarrow> (s, False)
      | Some c \<Rightarrow> (unregisterTask k (end_context c Canceled s), True))"

definition running_contexts :: "controller \<Rightarrow> nat list" where
  "running_contexts s = concat (map (\<lambda>g. case cg_phase g of CRuns t u c \<Rightarrow> [c] | CLeaves t r c \<Rightarrow> [c] | _ \<Rightarrow> []) (cc_goroutines s))"

text \<open>Cancelling the root context ends every context derived from it.\<close>

definition Shutdown_begin :: "controller \<Rightarrow> controller \<times> bool" where
  "Shutdown_begin s =
     (if \<not> cc_isRunning s then (s, False)
      else (fold (\<lambda>c. end_context c Canceled) (running_contexts s) (s\<lparr>cc_isRunning := False, cc_rootDone := True\<rparr>), True))"

text \<open>
  The end of \<^verbatim>\<open>Shutdown\<close>, once every goroutine has returned; closing the channel twice panics.
\<close>

definition Shutdown_end :: "controller \<Rightarrow> controller option option" where
  "Shutdown_end s =
     (if cc_rootDone s \<and> cc_handlers s = 0 \<and> list_all (\<lambda>g. cg_phase g = CReturned) (cc_goroutines s)
      then Some (if cc_resultsClosed s then None else Some (s\<lparr>cc_resultsClosed := True\<rparr>)) else None)"

definition GetCurrentTasks :: "controller \<Rightarrow> (nat \<rightharpoonup> Task)" where
  "GetCurrentTasks s = cc_currentTask s |` {..<tc_WorkerCount (cc_config s)}"

datatype cc_event =
  CcStart | CcSubmit Task time | CcSubmitTimeout submit_wait Task | CcTake nat time | CcBegin nat | CcExpire nat time
| CcFinish nat time run_end | CcLeave nat | CcSend nat | CcGiveUp nat | CcExit nat | CcHandle | CcHandlerExit
| CcCancel int | CcShutdown | CcClose

definition cc_go :: "nat \<Rightarrow> (nat \<Rightarrow> cc_phase \<Rightarrow> controller option) \<Rightarrow> controller \<Rightarrow> controller option" where
  "cc_go g f s =
     (if g < length (cc_goroutines s) then f (cg_worker (cc_goroutines s ! g)) (cg_phase (cc_goroutines s ! g)) else None)"

fun cc_step :: "controller \<Rightarrow> cc_event \<Rightarrow> controller option" where
  "cc_step s CcStart = Some (fst (Start_cc s))"
| "cc_step s (CcSubmit t now) = Some (fst (SubmitTask t now s))"
| "cc_step s (CcSubmitTimeout wait t) = map_option fst (SubmitTaskWithTimeout wait t s)"
| "cc_step s (CcTake g now) = cc_go g (\<lambda>w p. if p = CWaits then run_take g w now s else None) s"
| "cc_step s (CcBegin g) = cc_go g (\<lambda>w p. case p of CStarts t start \<Rightarrow> Some (run_start g t start s) | _ \<Rightarrow> None) s"
| "cc_step s (CcExpire g now) =
     cc_go g (\<lambda>w p. case p of
         CRuns t start c \<Rightarrow>
           (if start + effective_timeout (cc_config s) t \<le> now then Some (end_context c DeadlineExceeded s) else None)
       | _ \<Rightarrow> None) s"
| "cc_step s (CcFinish g now how) =
     cc_go g (\<lambda>w p. case p of
         CRuns t start c \<Rightarrow>
           map_option (\<lambda>err. processTaskWithContext g w t start c now err s) (executeTaskWithContext c how s)
       | _ \<Rightarrow> None) s"
| "cc_step s (CcLeave g) = cc_go g (\<lambda>w p. case p of CLeaves t r c \<Rightarrow> Some (run_leave g w t r c s) | _ \<Rightarrow> None) s"
| "cc_step s (CcSend g) = cc_go g (\<lambda>w p. case p of CSends r \<Rightarrow> run_send g r s | _ \<Rightarrow> None) s"
| "cc_step s (CcGiveUp g) = cc_go g (\<lambda>w p. case p of CSends r \<Rightarrow> run_give_up g s | _ \<Rightarrow> None) s"
| "cc_step s (CcExit g) = cc_go g (\<lambda>w p. if p = CWaits \<and> cc_rootDone s then Some (set_cc g CReturned s) else None) s"
| "cc_step s CcHandle = handleResults s"
| "cc_step s CcHandlerExit =
     (if cc_rootDone s \<and> 0 < cc_handlers s then Some (s\<lparr>cc_handlers := cc_handlers s - 1\<rparr>) else None)"
| "cc_step s (CcCancel k) = Some (fst (CancelTask k s))"
| "cc_step s CcShutdown = Some (fst (Shutdown_begin s))"
| "cc_step s CcClose = (case Shutdown_end s of Some (Some s1) \<Rightarrow> Some s1 | _ \<Rightarrow> None)"

section \<open>Invariant\<close>

definition in_hand :: "cc_phase \<Rightarrow> int" where
  "in_hand p = (case p of CWaits \<Rightarrow> 0 | CReturned \<Rightarrow> 0 | _ \<Rightarrow> 1)"

definition finished :: "cc_phase \<Rightarrow> int" where
  "finished p = (case p of CLeaves t r c \<Rightarrow> 1 | CSends r \<Rightarrow> 1 | _ \<Rightarrow> 0)"

definition holds_context :: "int \<Rightarrow> nat \<Rightarrow> cc_phase \<Rightarrow> bool" where
  "holds_context k c p = (case p of CRuns t u c' \<Rightarrow> ct_ID t = k \<and> c' = c | CLeaves t r c' \<Rightarrow> ct_ID t = k \<and> c' = c | _ \<Rightarrow> False)"

definition result_ok :: "TaskResult \<Rightarrow> bool" where
  "result_ok r \<longleftrightarrow> rs_ContextType r = result_type (rs_Error r) \<and> (rs_Success r \<longleftrightarrow> rs_Error r = None)"

definition phase_ok :: "cc_phase \<Rightarrow> bool" where
  "phase_ok p = (case p of CLeaves t r c \<Rightarrow> result_ok r | CSends r \<Rightarrow> result_ok r | _ \<Rightarrow> True)"

definition phases :: "controller \<Rightarrow> cc_phase list" where
  "phases s = map cg_phase (cc_goroutines s)"

definition worker_ok :: "WorkerStats \<Rightarrow> bool" where
  "worker_ok st \<longleftrightarrow> ws_TasksProcessed st = ws_TasksSuccess st + ws_TasksError st + ws_TasksTimeout st + ws_TasksCancelled st"

definition processed :: "controller \<Rightarrow> int" where
  "processed s = (\<Sum>w < tc_WorkerCount (cc_config s). ws_TasksProcessed (cc_workerStats s w))"

definition books :: "controller \<Rightarrow> bool" where
  "books s \<longleftrightarrow> (let st = cc_stats s; past = int (length (cc_results s)) + cs_totalCompleted st + int (cc_lost s) in
     cs_totalSubmitted st = int (length (cc_accepted s)) \<and>
     cs_totalSubmitted st = int (length (cc_queue s)) + sum_list (map in_hand (phases s)) + past \<and>
     processed s = sum_list (map finished (phases s)) + past \<and>
     cs_totalCompleted st = cs_totalSuccess st + cs_totalTimeouts st + cs_totalCancellations st \<and> cs_totalErrors st = 0)"

definition cc_inv :: "TaskConfig \<Rightarrow> controller \<Rightarrow> bool" where
  "cc_inv cfg s \<longleftrightarrow> cc_config s = cfg \<and> books s \<and> (\<forall>g \<in> set (cc_goroutines s). cg_worker g < tc_WorkerCount cfg) \<and>
     (\<forall>w. worker_ok (cc_workerStats s w)) \<and> (\<forall>p \<in> set (phases s). phase_ok p) \<and> (\<forall>r \<in> set (cc_results s). result_ok r) \<and>
     length (cc_queue s) \<le> tc_QueueSize cfg \<and> length (cc_results s) \<le> tc_QueueSize cfg \<and>
     (\<forall>k c. cc_activeTimeouts s k = Some c \<longrightarrow> (\<exists>p \<in> set (phases s). holds_context k c p))"

lemma cc_invD:
  assumes "cc_inv cfg s"
  shows "cc_config s = cfg" and "books s" and "g < length (cc_goroutines s) \<Longrightarrow> cg_worker (cc_goroutines s ! g) < tc_WorkerCount cfg"
    and "worker_ok (cc_workerStats s w)" and "g < length (cc_goroutines s) \<Longrightarrow> phase_ok (cg_phase (cc_goroutines s ! g))"
    and "\<forall>r \<in> set (cc_results s). result_ok r" and "length (cc_queue s) \<le> tc_QueueSize cfg"
    and "length (cc_results s) \<le> tc_QueueSize cfg"
    and "cc_activeTimeouts s k = Some c \<Longrightarrow> \<exists>p \<in> set (phases s). holds_context k c p"
  using assms by (auto simp: cc_inv_def phases_def)

lemma phases_update:
  assumes "cc_goroutines s' = (cc_goroutines s)[g := (cc_goroutines s ! g)\<lparr>cg_phase := p\<rparr>]"
  shows "phases s' = (phases s)[g := p]"
  by (simp add: phases_def assms map_update)

text \<open>A goroutine moves from one phase to another; what the books gain elsewhere they lose in the phase.\<close>

lemma cc_move:
  assumes "cc_inv cfg s" and "g < length (cc_goroutines s)" and "cg_phase (cc_goroutines s ! g) = old"
    and "cc_goroutines s' = (cc_goroutines s)[g := (cc_goroutines s ! g)\<lparr>cg_phase := p\<rparr>]"
    and "cc_config s' = cc_config s" and "cc_accepted s' = cc_accepted s" and "cc_stats s' = cc_stats s"
    and "int (length (cc_queue s')) + in_hand p + int (length (cc_results s')) + int (cc_lost s') =
      int (length (cc_queue s)) + in_hand old + int (length (cc_results s)) + int (cc_lost s)"
    and "processed s' - finished p - int (length (cc_results s')) - int (cc_lost s') =
      processed s - finished old - int (length (cc_results s)) - int (cc_lost s)"
    and "\<And>w. worker_ok (cc_workerStats s' w)" and "phase_ok p" and "\<forall>r \<in> set (cc_results s'). result_ok r"
    and "length (cc_queue s') \<le> length (cc_queue s)" and "length (cc_results s') \<le> tc_QueueSize cfg"
    and "\<And>k c. cc_activeTimeouts s' k = Some c \<Longrightarrow>
      holds_context k c p \<or> cc_activeTimeouts s k = Some c \<and> \<not> holds_context k c old"
  shows "cc_inv cfg s'"
proof -
  note d = cc_invD [OF assms(1)]
  have g: "g < length (phases s)" "phases s ! g = old" using assms(2,3) by (simp_all add: phases_def)
  have ph: "phases s' = (phases s)[g := p]" by (rule phases_update [OF assms(4)])
  have sums: "sum_list (map in_hand (phases s')) = sum_list (map in_hand (phases s)) - in_hand old + in_hand p"
    "sum_list (map finished (phases s')) = sum_list (map finished (phases s)) - finished old + finished p"
    using g by (simp_all add: ph sum_list_update_int)
  have "books s'" using d(2) assms(6-9) sums by (simp add: books_def Let_def)
  moreover have "\<forall>x \<in> set (cc_goroutines s'). cg_worker x < tc_WorkerCount cfg"
    unfolding assms(4) by (rule all_set_update) (use assms(1) d(3) assms(2) in \<open>auto simp: cc_inv_def\<close>)
  moreover have "\<forall>q \<in> set (phases s'). phase_ok q"
    unfolding ph by (rule all_set_update) (use assms(1,11) in \<open>auto simp: cc_inv_def\<close>)
  moreover have "\<exists>q \<in> set (phases s'). holds_context k c q" if a: "cc_activeTimeouts s' k = Some c" for k c
  proof (cases "holds_context k c p")
    case True
    then show ?thesis using g(1) set_update_memI [of g "phases s" p] unfolding ph by blast
  next
    case False
    then obtain q where q: "q \<in> set (phases s)" "holds_context k c q" "\<not> holds_context k c old"
      using assms(15) [OF a] d(9) by blast
    then obtain j where "j < length (phases s)" "phases s ! j = q" by (metis in_set_conv_nth)
    then have "phases s' ! j = q" "j < length (phases s')" using q(2,3) g(2) unfolding ph by (cases "j = g"; auto)+
    then show ?thesis using q(2) by (metis nth_mem)
  qed
  ultimately show ?thesis using d(1,7) assms(5,10,12-14) by (auto simp: cc_inv_def)
qed

text \<open>A step that leaves the goroutines and the table of timeouts alone.\<close>

lemma cc_quiet:
  assumes "cc_inv cfg s" and "cc_goroutines s' = cc_goroutines s" and "cc_config s' = cc_config s"
    and "cc_workerStats s' = cc_workerStats s" and "books s'" and "set (cc_results s') \<subseteq> set (cc_results s)"
    and "length (cc_results s') \<le> length (cc_results s)" and "length (cc_queue s') \<le> tc_QueueSize cfg"
    and "\<And>k c. cc_activeTimeouts s' k = Some c \<Longrightarrow> cc_activeTimeouts s k = Some c"
  shows "cc_inv cfg s'"
  using assms unfolding cc_inv_def phases_def by (auto simp: subset_iff)

lemma books_same:
  assumes "books s" and "cc_stats s' = cc_stats s" and "length (cc_results s') = length (cc_results s)" and "cc_lost s' = cc_lost s"
    and "cc_accepted s' = cc_accepted s" and "length (cc_queue s') = length (cc_queue s)" and "cc_goroutines s' = cc_goroutines s"
    and "cc_config s' = cc_config s" and "cc_workerStats s' = cc_workerStats s"
  shows "books s'"
  using assms by (simp add: books_def Let_def phases_def processed_def)

lemma end_context_fields [simp]:
  "cc_goroutines (end_context c e s) = cc_goroutines s" "cc_config (end_context c e s) = cc_config s"
  "cc_workerStats (end_context c e s) = cc_workerStats s" "cc_results (end_context c e s) = cc_results s"
  "cc_queue (end_context c e s) = cc_queue s" "cc_activeTimeouts (end_context c e s) = cc_activeTimeouts s"
  "cc_stats (end_context c e s) = cc_stats s" "cc_lost (end_context c e s) = cc_lost s"
  "cc_accepted (end_context c e s) = cc_accepted s" "cc_currentTask (end_context c e s) = cc_currentTask s"
  "cc_rootDone (end_context c e s) = cc_rootDone s" "cc_contexts (end_context c e s) = cc_contexts s"
  by (simp_all add: end_context_def)

lemma end_contexts_fields [simp]:
  "cc_goroutines (fold (\<lambda>c. end_context c e) cs s) = cc_goroutines s" "cc_config (fold (\<lambda>c. end_context c e) cs s) = cc_config s"
  "cc_workerStats (fold (\<lambda>c. end_context c e) cs s) = cc_workerStats s" "cc_results (fold (\<lambda>c. end_context c e) cs s) = cc_results s"
  "cc_queue (fold (\<lambda>c. end_context c e) cs s) = cc_queue s" "cc_activeTimeouts (fold (\<lambda>c. end_context c e) cs s) = cc_activeTimeouts s"
  "cc_stats (fold (\<lambda>c. end_context c e) cs s) = cc_stats s" "cc_lost (fold (\<lambda>c. end_context c e) cs s) = cc_lost s"
  "cc_accepted (fold (\<lambda>c. end_context c e) cs s) = cc_accepted s"
  by (induction cs arbitrary: s) simp_all

lemma end_context_inv:
  assumes "cc_inv cfg s"
  shows "cc_inv cfg (end_context c e s)"
  by (rule cc_quiet [OF assms]) (auto intro: books_same [OF cc_invD(2) [OF assms]] dest: cc_invD(7) simp: cc_invD(7) [OF assms])

lemma accept_inv:
  assumes "cc_inv cfg s" and "queue_room s"
  shows "cc_inv cfg (accept t s)"
  by (rule cc_quiet [OF assms(1)])
    (use assms cc_invD(1,2) [OF assms(1)] in \<open>auto simp: accept_def queue_room_def books_def Let_def phases_def processed_def\<close>)

lemma controller_start_inv:
  assumes "cc_inv cfg s"
  shows "cc_inv cfg (fst (Start_cc s))"
proof (cases "cc_isRunning s")
  case True
  then show ?thesis using assms by (simp add: Start_cc_def)
next
  case False
  let ?new = "map (\<lambda>w. \<lparr>cg_worker = w, cg_phase = CWaits\<rparr>) [0 ..< tc_WorkerCount cfg]"
  have s': "fst (Start_cc s) = s\<lparr>cc_isRunning := True, cc_goroutines := cc_goroutines s @ ?new, cc_handlers := cc_handlers s + 1\<rparr>"
    using False cc_invD(1) [OF assms] by (simp add: Start_cc_def)
  have ph: "phases (fst (Start_cc s)) = phases s @ replicate (tc_WorkerCount cfg) CWaits"
    by (simp add: s' phases_def o_def map_replicate_const)
  have "books (fst (Start_cc s))"
    using cc_invD(2) [OF assms] unfolding books_def ph by (simp add: s' Let_def processed_def in_hand_def finished_def sum_list_replicate)
  moreover have "\<forall>p \<in> set (phases (fst (Start_cc s))). phase_ok p"
    using assms unfolding ph by (auto simp: cc_inv_def phase_ok_def)
  moreover have "\<exists>p \<in> set (phases (fst (Start_cc s))). holds_context k c p" if "cc_activeTimeouts s k = Some c" for k c
    using cc_invD(9) [OF assms that] unfolding ph set_append bex_Un by (rule disjI1)
  ultimately show ?thesis using assms by (auto simp: cc_inv_def s')
qed

lemma set_cc_fields [simp]:
  "cc_config (set_cc g p s) = cc_config s" "cc_workerStats (set_cc g p s) = cc_workerStats s" "cc_results (set_cc g p s) = cc_results s"
  "cc_queue (set_cc g p s) = cc_queue s" "cc_activeTimeouts (set_cc g p s) = cc_activeTimeouts s"
  "cc_stats (set_cc g p s) = cc_stats s" "cc_lost (set_cc g p s) = cc_lost s" "cc_accepted (set_cc g p s) = cc_accepted s"
  "cc_goroutines (set_cc g p s) = (cc_goroutines s)[g := (cc_goroutines s ! g)\<lparr>cg_phase := p\<rparr>]"
  by (simp_all add: set_cc_def)

lemmas phase_weights = in_hand_def finished_def holds_context_def phase_ok_def

lemma run_take_inv:
  assumes "cc_inv cfg s" and "g < length (cc_goroutines s)" and "cg_phase (cc_goroutines s ! g) = CWaits"
    and "run_take g w now s = Some s'"
  shows "cc_inv cfg s'"
proof -
  obtain t rest where q: "cc_queue s = t # rest"
    and s': "s' = set_cc g (CStarts t now) (s\<lparr>cc_queue := rest, cc_currentTask := (cc_currentTask s)(w \<mapsto> t)\<rparr>)"
    using assms(4) by (auto simp: run_take_def split: list.splits)
  show ?thesis
    by (rule cc_move [OF assms(1-3), where p = "CStarts t now"])
      (use q cc_invD [OF assms(1)] in \<open>auto simp: s' phase_weights processed_def\<close>)
qed

lemma run_start_inv:
  assumes "cc_inv cfg s" and "g < length (cc_goroutines s)" and "cg_phase (cc_goroutines s ! g) = CStarts t start"
  shows "cc_inv cfg (run_start g t start s)"
  by (rule cc_move [OF assms, where p = "CRuns t start (cc_contexts s)"])
    (use cc_invD [OF assms(1)] in \<open>auto simp: run_start_def Let_def registerTask_def phase_weights processed_def split: if_splits\<close>)

lemma worker_ok_count: "worker_ok st \<Longrightarrow> worker_ok (count_worker err d st)"
  by (auto simp: worker_ok_def count_worker_def Let_def split: option.split task_error.split ctx_error.split)

lemma processed_count: "ws_TasksProcessed (count_worker err d st) = ws_TasksProcessed st + 1"
  by (simp add: count_worker_def Let_def)

lemma finish_inv:
  assumes "cc_inv cfg s" and "g < length (cc_goroutines s)" and "cg_phase (cc_goroutines s ! g) = CRuns t start c"
    and "w = cg_worker (cc_goroutines s ! g)"
  shows "cc_inv cfg (processTaskWithContext g w t start c now err s)"
proof -
  define r where "r = \<lparr>rs_TaskID = ct_ID t, rs_Success = (err = None), rs_Error = err, rs_Duration = time_Sub now start,
    rs_WorkerID = w, rs_ContextType = result_type err, rs_RetryCount = ct_Retries t\<rparr>"
  define st where "st = (cc_workerStats s)(w := count_worker err (time_Sub now start) (cc_workerStats s w))"
  have s': "processTaskWithContext g w t start c now err s = set_cc g (CLeaves t r c) (s\<lparr>cc_workerStats := st\<rparr>)"
    by (simp add: processTaskWithContext_def Let_def r_def st_def)
  have w: "w \<in> {..<tc_WorkerCount cfg}" using cc_invD(3) [OF assms(1,2)] assms(4) by simp
  have "(\<Sum>x < tc_WorkerCount cfg. ws_TasksProcessed (st x)) = (\<Sum>x < tc_WorkerCount cfg. ws_TasksProcessed (cc_workerStats s x)) + 1"
  proof -
    have "(\<Sum>x \<in> {..<tc_WorkerCount cfg} - {w}. ws_TasksProcessed (st x)) =
        (\<Sum>x \<in> {..<tc_WorkerCount cfg} - {w}. ws_TasksProcessed (cc_workerStats s x))"
      by (rule sum.cong) (auto simp: st_def)
    then show ?thesis
      using sum.remove [OF _ w, of "\<lambda>x. ws_TasksProcessed (st x)"] sum.remove [OF _ w, of "\<lambda>x. ws_TasksProcessed (cc_workerStats s x)"]
      by (simp add: st_def processed_count)
  qed
  then have p: "processed (set_cc g (CLeaves t r c) (s\<lparr>cc_workerStats := st\<rparr>)) = processed s + 1"
    using cc_invD(1) [OF assms(1)] by (simp add: processed_def)
  have ok: "worker_ok (st x)" for x using cc_invD(4) [OF assms(1)] worker_ok_count by (simp add: st_def)
  show ?thesis unfolding s'
    by (rule cc_move [OF assms(1-3), where p = "CLeaves t r c"])
      (use p ok cc_invD [OF assms(1)] in \<open>auto simp: phase_weights result_ok_def r_def\<close>)
qed

lemma run_leave_inv:
  assumes "cc_inv cfg s" and "g < length (cc_goroutines s)" and "cg_phase (cc_goroutines s ! g) = CLeaves t r c"
  shows "cc_inv cfg (run_leave g w t r c s)"
  by (rule cc_move [OF assms, where p = "CSends r"])
    (use cc_invD [OF assms(1)] cc_invD(5) [OF assms(1,2)] assms(3) in
      \<open>auto simp: run_leave_def Let_def unregisterTask_def phase_weights processed_def split: if_splits\<close>)

lemma run_send_inv:
  assumes "cc_inv cfg s" and "g < length (cc_goroutines s)" and "cg_phase (cc_goroutines s ! g) = CSends r"
    and "run_send g r s = Some s'"
  shows "cc_inv cfg s'"
  by (rule cc_move [OF assms(1-3), where p = CWaits])
    (use assms(4) cc_invD [OF assms(1)] cc_invD(5) [OF assms(1,2)] assms(3) in
      \<open>auto simp: run_send_def phase_weights processed_def split: if_splits\<close>)

lemma run_give_up_inv:
  assumes "cc_inv cfg s" and "g < length (cc_goroutines s)" and "cg_phase (cc_goroutines s ! g) = CSends r"
    and "run_give_up g s = Some s'"
  shows "cc_inv cfg s'"
  by (rule cc_move [OF assms(1-3), where p = CReturned])
    (use assms(4) cc_invD [OF assms(1)] in \<open>auto simp: run_give_up_def phase_weights processed_def split: if_splits\<close>)

lemma handle_inv:
  assumes "cc_inv cfg s" and "handleResults s = Some s'"
  shows "cc_inv cfg s'"
proof -
  obtain r rest where r: "cc_results s = r # rest" and s': "s' = s\<lparr>cc_results := rest, cc_stats := count_result r (cc_stats s)\<rparr>"
    using assms(2) by (auto simp: handleResults_def split: list.splits if_splits)
  have ok: "rs_Success r \<or> rs_ContextType r = TypeTimeout \<or> rs_ContextType r = TypeCancel"
    using cc_invD(6) [OF assms(1)] r
    by (auto simp: result_ok_def result_type_def split: option.splits task_error.splits ctx_error.splits)
  have "books s'" using cc_invD(2) [OF assms(1)] ok
    by (auto simp: s' r books_def Let_def phases_def processed_def count_result_def)
  then show ?thesis by (intro cc_quiet [OF assms(1)]) (use r cc_invD(7) [OF assms(1)] in \<open>auto simp: s'\<close>)
qed

lemma cc_goE:
  assumes "cc_go g f s = Some s'"
  obtains "g < length (cc_goroutines s)" "f (cg_worker (cc_goroutines s ! g)) (cg_phase (cc_goroutines s ! g)) = Some s'"
  using assms by (auto simp: cc_go_def split: if_splits)

lemma cc_step_inv:
  assumes "cc_inv cfg s" and "cc_step s e = Some s'"
  shows "cc_inv cfg s'"
proof (cases e)
  case CcStart
  then show ?thesis using assms controller_start_inv by auto
next
  case (CcSubmit t now)
  then show ?thesis using assms accept_inv by (auto simp: SubmitTask_def Let_def split: if_splits)
next
  case (CcSubmitTimeout wait t)
  then show ?thesis using assms accept_inv by (auto simp: SubmitTaskWithTimeout_def split: submit_wait.splits if_splits)
next
  case (CcTake g now)
  then show ?thesis using assms run_take_inv by (auto elim!: cc_goE split: if_splits)
next
  case (CcBegin g)
  then show ?thesis using assms run_start_inv by (auto elim!: cc_goE split: cc_phase.splits)
next
  case (CcExpire g now)
  then show ?thesis using assms end_context_inv by (auto elim!: cc_goE split: cc_phase.splits if_splits)
next
  case (CcFinish g now how)
  then show ?thesis using assms finish_inv by (auto elim!: cc_goE split: cc_phase.splits)
next
  case (CcLeave g)
  then show ?thesis using assms run_leave_inv by (auto elim!: cc_goE split: cc_phase.splits)
next
  case (CcSend g)
  then show ?thesis using assms run_send_inv by (auto elim!: cc_goE split: cc_phase.splits)
next
  case (CcGiveUp g)
  then show ?thesis using assms run_give_up_inv by (auto elim!: cc_goE split: cc_phase.splits)
next
  case (CcExit g)
  then obtain g: "g < length (cc_goroutines s)" "cg_phase (cc_goroutines s ! g) = CWaits" "s' = set_cc g CReturned s"
    using assms(2) by (auto elim!: cc_goE split: if_splits)
  show ?thesis
    by (rule cc_move [OF assms(1) g(1,2), where p = CReturned])
      (use g(3) cc_invD [OF assms(1)] in \<open>auto simp: phase_weights processed_def\<close>)
next
  case CcHandle
  then show ?thesis using assms handle_inv by auto
next
  case CcHandlerExit
  then show ?thesis using assms
    by (intro cc_quiet [OF assms(1)]) (auto split: if_splits intro: books_same [OF cc_invD(2) [OF assms(1)]] dest: cc_invD(7))
next
  case (CcCancel k)
  then show ?thesis using assms
    by (intro cc_quiet [OF assms(1)])
      (auto simp: CancelTask_def unregisterTask_def split: option.splits if_splits
        intro: books_same [OF cc_invD(2) [OF assms(1)]] dest: cc_invD(7))
next
  case CcShutdown
  then show ?thesis using assms
    by (intro cc_quiet [OF assms(1)])
      (auto simp: Shutdown_begin_def split: if_splits intro: books_same [OF cc_invD(2) [OF assms(1)]] dest: cc_invD(7))
next
  case CcClose
  then show ?thesis using assms
    by (intro cc_quiet [OF assms(1)])
      (auto simp: Shutdown_end_def split: if_splits intro: books_same [OF cc_invD(2) [OF assms(1)]] dest: cc_invD(7))
qed

interpretation controller_runs: step_invariant cc_step NewContextControlController cc_inv "\<lambda>_. True"
proof unfold_locales
  show "cc_inv c (NewContextControlController c)" for c
    by (simp add: cc_inv_def NewContextControlController_def books_def Let_def phases_def processed_def zero_worker_def worker_ok_def)
qed (rule cc_step_inv)

text \<open>
  Under any interleaving every submitted task is queued, with a worker, in the result queue,
  counted, or given up during the shutdown, and the workers' counters agree; but no result is ever
  counted as an error: what fails by itself is counted among the timeouts.
\<close>

theorem context_accounting:
  assumes "run_steps cc_step (NewContextControlController cfg) es = Some s"
  shows "cs_totalSubmitted (cc_stats s) = int (length (cc_queue s)) + sum_list (map in_hand (phases s)) +
      int (length (cc_results s)) + cs_totalCompleted (cc_stats s) + int (cc_lost s) \<and>
    processed s = sum_list (map finished (phases s)) + int (length (cc_results s)) + cs_totalCompleted (cc_stats s) + int (cc_lost s) \<and>
    cs_totalCompleted (cc_stats s) = cs_totalSuccess (cc_stats s) + cs_totalTimeouts (cc_stats s) + cs_totalCancellations (cc_stats s) \<and>
    cs_totalErrors (cc_stats s) = 0"
  using cc_invD(2) [OF controller_runs.inv_run [OF TrueI assms]] by (simp add: books_def Let_def)

definition one_worker :: TaskConfig where
  "one_worker = \<lparr>tc_DefaultTimeout = 5, tc_MaxTimeout = 9, tc_WorkerCount = 1, tc_QueueSize = 2\<rparr>"

definition two_workers :: TaskConfig where
  "two_workers = \<lparr>tc_DefaultTimeout = 5, tc_MaxTimeout = 9, tc_WorkerCount = 2, tc_QueueSize = 2\<rparr>"

definition task_of :: "int \<Rightarrow> Task" where
  "task_of k = \<lparr>ct_ID = k, ct_Timeout = 0, ct_Retries = 0, ct_CreatedAt = 1\<rparr>"

lemmas cc_run_simps = one_worker_def two_workers_def task_of_def NewContextControlController_def zero_worker_def Start_cc_def
  SubmitTask_def accept_def queue_room_def cc_go_def run_take_def run_start_def registerTask_def unregisterTask_def
  set_cc_def end_context_def effective_timeout_def executeTaskWithContext_def processTaskWithContext_def count_worker_def
  result_type_def run_leave_def run_send_def handleResults_def count_result_def phases_def CancelTask_def Let_def

lemma context_accounting_witness:
  "\<exists>s. run_steps cc_step (NewContextControlController one_worker)
      [CcStart, CcSubmit (task_of 7) 1, CcTake 0 2, CcBegin 0, CcFinish 0 4 Fails, CcLeave 0, CcSend 0, CcHandle] = Some s \<and>
    ws_TasksError (cc_workerStats s 0) = 1 \<and> cs_totalTimeouts (cc_stats s) = 1 \<and> cs_totalErrors (cc_stats s) = 0"
proof -
  obtain s where s: "run_steps cc_step (NewContextControlController one_worker)
      [CcStart, CcSubmit (task_of 7) 1, CcTake 0 2, CcBegin 0, CcFinish 0 4 Fails, CcLeave 0, CcSend 0, CcHandle] = Some s"
    "ws_TasksError (cc_workerStats s 0) = 1" "cs_totalTimeouts (cc_stats s) = 1"
    by (simp add: cc_run_simps)
  show ?thesis using s context_accounting [OF s(1)] by (intro exI [of _ s]) simp
qed

text \<open>
  C32. A cancellation that reports success has ended the context of a task with that identifier that a
  worker is running, unless the context had ended already, and the identifier is no longer registered.
\<close>

theorem cancel_reaches_running_task:
  assumes "run_steps cc_step (NewContextControlController cfg) es = Some s" and "CancelTask k s = (s', True)"
  shows "\<exists>c. (\<exists>p \<in> set (phases s'). holds_context k c p) \<and> cc_ended s' c \<noteq> None \<and>
    (cc_ended s c = None \<longrightarrow> cc_ended s' c = Some Canceled) \<and> CancelTask k s' = (s', False)"
proof -
  have i: "cc_inv cfg s" by (rule controller_runs.inv_run [OF TrueI assms(1)])
  obtain c where c: "cc_activeTimeouts s k = Some c" "s' = unregisterTask k (end_context c Canceled s)"
    using assms(2) by (auto simp: CancelTask_def split: option.splits)
  obtain p where "p \<in> set (phases s)" "holds_context k c p" using cc_invD(9) [OF i c(1)] by blast
  moreover have "phases s' = phases s" by (simp add: c(2) phases_def unregisterTask_def)
  ultimately show ?thesis by (intro exI [of _ c]) (auto simp: c(2) unregisterTask_def end_context_def CancelTask_def)
qed

lemma cancel_reaches_running_task_witness:
  "\<exists>s s' c. run_steps cc_step (NewContextControlController one_worker)
      [CcStart, CcSubmit (task_of 7) 1, CcTake 0 2, CcBegin 0] = Some s \<and> CancelTask 7 s = (s', True) \<and>
    cc_ended s' c = Some Canceled \<and> CancelTask 7 s' = (s', False)"
proof -
  obtain s s' where s: "run_steps cc_step (NewContextControlController one_worker)
      [CcStart, CcSubmit (task_of 7) 1, CcTake 0 2, CcBegin 0] = Some s" "CancelTask 7 s = (s', True)" "cc_ended s = Map.empty"
    by (simp add: cc_run_simps)
  show ?thesis using cancel_reaches_running_task [OF s(1,2)] s by (intro exI [of _ s] exI [of _ s']) auto
qed

text \<open>
  Two running tasks with one identifier share an entry of the table: once the first has left, the
  second can no longer be cancelled, although it still runs and its context has not ended.
\<close>

theorem twin_cannot_be_cancelled:
  "case run_steps cc_step (NewContextControlController two_workers)
      [CcStart, CcSubmit (task_of 7) 1, CcTake 0 2, CcBegin 0, CcSubmit (task_of 7) 2, CcTake 1 3, CcBegin 1,
       CcFinish 0 4 Succeeds, CcLeave 0] of
     None \<Rightarrow> False
   | Some s \<Rightarrow> cg_phase (cc_goroutines s ! 1) = CRuns ((task_of 7)\<lparr>ct_Timeout := 5\<rparr>) 3 1 \<and> cc_ended s 1 = None \<and>
       CancelTask 7 s = (s, False)"
  by (simp add: cc_run_simps)

end
