(* ===== verification/Outbox.thy ===== *)
theory Outbox
  imports Prelude "HOL-Library.AList"
begin

text \<open>
  The send queue of a connection, as the Server-Sent-Events server and the WebSocket handler of
  chapter 4 both build it: a buffered channel together with a flag that says that the channel is about
  to be closed.  Senders look at the flag under the read lock they hold while they send; the closing
  side sets it under the write lock and closes the channel afterwards.

  \<open>ob_closed\<close> is the flag, \<open>ob_sealed\<close> says that the channel itself is closed.  \<open>ob_accepted\<close> and
  \<open>ob_taken\<close> are histories kept for the statements: what the queue took and what was received from it.
\<close>

record 'm outbox =
  ob_queue :: "'m list"
  ob_closed :: bool
  ob_sealed :: bool
  ob_accepted :: "'m list"
  ob_taken :: "'m list"

definition new_outbox :: "'m outbox" where
  "new_outbox = \<lparr>ob_queue = [], ob_closed = False, ob_sealed = False, ob_accepted = [], ob_taken = []\<rparr>"

datatype put_answer = Sent | SendClosed | SendFull | SendPanics

text \<open>A send on a closed channel panics; the flag is there so that this case is never reached.\<close>

definition outbox_put :: "nat \<Rightarrow> 'm \<Rightarrow> 'm outbox \<Rightarrow> 'm outbox \<times> put_answer" where
  "outbox_put cap m b =
     (if ob_closed b then (b, SendClosed)
      else if ob_sealed b then (b, SendPanics)
      else if length (ob_queue b) < cap
      then (b\<lparr>ob_queue := ob_queue b @ [m], ob_accepted := ob_accepted b @ [m]\<rparr>, Sent)
      else (b, SendFull))"

definition outbox_mark :: "'m outbox \<Rightarrow> 'm outbox" where
  "outbox_mark b = b\<lparr>ob_closed := True\<rparr>"

text \<open>Closing the channel; the second component says that the channel was closed before, a panic.\<close>

definition outbox_seal :: "'m outbox \<Rightarrow> 'm outbox \<times> bool" where
  "outbox_seal b = (b\<lparr>ob_sealed := True\<rparr>, ob_sealed b)"

definition outbox_take :: "'m outbox \<Rightarrow> ('m \<times> 'm outbox) option" where
  "outbox_take b =
     (case ob_queue b of
        [] \<Rightarrow> None
      | m # rest \<Rightarrow> Some (m, b\<lparr>ob_queue := rest, ob_taken := ob_taken b @ [m]\<rparr>))"

definition outbox_ok :: "nat \<Rightarrow> ('m \<Rightarrow> bool) \<Rightarrow> 'm outbox \<Rightarrow> bool" where
  "outbox_ok cap p b \<longleftrightarrow> (ob_sealed b \<longrightarrow> ob_closed b) \<and> ob_taken b @ ob_queue b = ob_accepted b \<and>
     length (ob_queue b) \<le> cap \<and> (\<forall>m \<in> set (ob_accepted b). p m)"

lemma outbox_new_ok [simp]: "outbox_ok cap p new_outbox"
  by (simp add: outbox_ok_def new_outbox_def)

lemma outbox_put_ok: "outbox_ok cap p b \<Longrightarrow> p m \<Longrightarrow> outbox_ok cap p (fst (outbox_put cap m b))"
  by (auto simp: outbox_ok_def outbox_put_def)

lemma outbox_put_flags [simp]:
  "ob_closed (fst (outbox_put cap m b)) = ob_closed b" "ob_sealed (fst (outbox_put cap m b)) = ob_sealed b"
  by (simp_all add: outbox_put_def)

lemma outbox_never_panics: "outbox_ok cap p b \<Longrightarrow> snd (outbox_put cap' m b) \<noteq> SendPanics"
  by (auto simp: outbox_ok_def outbox_put_def)

lemma outbox_mark_ok: "outbox_ok cap p b \<Longrightarrow> outbox_ok cap p (outbox_mark b)"
  by (simp add: outbox_ok_def outbox_mark_def)

lemma outbox_seal_ok: "outbox_ok cap p b \<Longrightarrow> ob_closed b \<Longrightarrow> outbox_ok cap p (fst (outbox_seal b))"
  by (simp add: outbox_ok_def outbox_seal_def)

lemma outbox_take_ok: "outbox_ok cap p b \<Longrightarrow> outbox_take b = Some (m, b') \<Longrightarrow> outbox_ok cap p b'"
  by (auto simp: outbox_ok_def outbox_take_def split: list.splits)

lemma outbox_take_flags:
  "outbox_take b = Some (m, b') \<Longrightarrow> ob_closed b' = ob_closed b \<and> ob_sealed b' = ob_sealed b"
  by (auto simp: outbox_take_def split: list.splits)

text \<open>Association lists stand for the tables of connections and channels.\<close>

lemma update_fresh: "k \<notin> fst ` set al \<Longrightarrow> AList.update k v al = al @ [(k, v)]"
  by (induction al) auto

lemma set_delete: "set (AList.delete k al) \<subseteq> set al"
  by (auto simp: AList.delete_eq)

lemma set_AList_update: "q \<in> set (AList.update k v al) \<Longrightarrow> q = (k, v) \<or> q \<in> set al"
  by (induction al) (auto split: if_splits)

end
