(* ===== verification/SseServer.thy ===== *)
theory SseServer
  imports Outbox
begin

text \<open>
  The Server-Sent-Events server of chapter 4, \<^verbatim>\<open>ans_01/massive_websocket_server.go\<close>: request handlers
  that keep a connection open, a hub that registers and unregisters clients, send loops and heartbeats
  per client, channels, broadcasts, direct messages over an HTTP interface, and a cleaner.

  The request goroutines, the hub, the broadcasts and the per-client loops are steps that any run may
  interleave.  A connection is the index of its client in \<open>sv_conn\<close>; the strings
  \<^verbatim>\<open>client_<nanoseconds>_<counter>\<close> and \<^verbatim>\<open>api_<nanoseconds>\<close> that the code formats as identifiers are
  the constructors of \<open>client_id\<close>.  \<open>sc_marshal\<close> stands for the encoding/json package.  The ranges over
  the concurrent maps see the map as it is when they start.
\<close>

section \<open>Data\<close>

datatype client_id = ConnID time int | ApiID time

datatype payload =
  Welcome client_id int
| Heartbeat int
| Pong int
| ChannelMessage string client_id string int
| DirectMessage client_id string int

record ServerConfig =
  sc_MaxConnections :: int
  sc_MessageQueueSize :: nat
  sc_marshal :: "payload \<Rightarrow> string"

datatype sse_handler = HRegisters | HWelcomes | HWaits | HReturned

record SSEClient =
  cl_ID :: client_id
  cl_box :: "payload outbox"
  cl_channels :: "string list"
  cl_lastSeen :: int
  cl_bytesSent :: int
  cl_done :: bool
  cl_handler :: sse_handler
  cl_loop :: bool
  cl_heart :: bool

text \<open>What a channel's table refers to: a client of a connection, or a client made up for one HTTP call.\<close>

datatype client_ref = Live nat | Dummy client_id

record Channel =
  ch_clients :: "(client_id \<times> client_ref) list"
  ch_lastActivity :: int

record BroadcastMessage =
  bc_ChannelID :: string
  bc_Message :: payload
  bc_ExcludeClient :: client_id

text \<open>The hub: waiting, or unregistering a client before its flag is set, or before its queue is closed.\<close>

datatype hub_phase = HubWaits | HubMarks nat | HubCloses nat

record sse_server =
  sv_config :: ServerConfig
  sv_conn :: "SSEClient list"
  sv_clients :: "(client_id \<times> nat) list"
  sv_channels :: "(string \<times> Channel) list"
  sv_register :: "nat list"
  sv_unregister :: "nat list"
  sv_broadcast :: "BroadcastMessage list"
  sv_started :: "BroadcastMessage list"
  sv_sends :: "(client_ref \<times> payload) list"
  sv_stale :: "nat list"
  sv_hub :: hub_phase
  sv_activeClients :: int
  sv_totalConnections :: int
  sv_activeConnections :: int
  sv_peakConnections :: int
  sv_totalMessages :: int
  sv_broadcastMessages :: int
  sv_errorCount :: int
  sv_channelCount :: int
  sv_panicked :: bool

definition NewMassiveConnectionServer :: "ServerConfig \<Rightarrow> sse_server" where
  "NewMassiveConnectionServer cfg =
     \<lparr>sv_config = cfg, sv_conn = [], sv_clients = [], sv_channels = [], sv_register = [], sv_unregister = [],
      sv_broadcast = [], sv_started = [], sv_sends = [], sv_stale = [], sv_hub = HubWaits, sv_activeClients = 0,
      sv_totalConnections = 0, sv_activeConnections = 0, sv_peakConnections = 0, sv_totalMessages = 0,
      sv_broadcastMessages = 0, sv_errorCount = 0, sv_channelCount = 0, sv_panicked = False\<rparr>"

definition hub_room :: nat where
  "hub_room = 1000"

definition broadcast_room :: nat where
  "broadcast_room = 10000"

section \<open>Clients\<close>

definition createSSEClient :: "client_id \<Rightarrow> time \<Rightarrow> SSEClient" where
  "createSSEClient k now =
     \<lparr>cl_ID = k, cl_box = new_outbox, cl_channels = [], cl_lastSeen = Unix now, cl_bytesSent = 0, cl_done = False,
      cl_handler = HRegisters, cl_loop = True, cl_heart = False\<rparr>"

definition on_conn :: "nat \<Rightarrow> (SSEClient \<Rightarrow> SSEClient) \<Rightarrow> sse_server \<Rightarrow> sse_server" where
  "on_conn n f s = s\<lparr>sv_conn := (sv_conn s)[n := f (sv_conn s ! n)]\<rparr>"

text \<open>
  \<^verbatim>\<open>trySend\<close> to a client.  A client made up for an HTTP call has no channel: a send to a nil channel
  is never ready, so the default branch is taken.
\<close>

definition trySend :: "client_ref \<Rightarrow> payload \<Rightarrow> sse_server \<Rightarrow> sse_server \<times> put_answer" where
  "trySend r m s =
     (case r of
        Dummy k \<Rightarrow> (s, SendFull)
      | Live n \<Rightarrow>
          (let (b, a) = outbox_put (sc_MessageQueueSize (sv_config s)) m (cl_box (sv_conn s ! n))
           in ((on_conn n (\<lambda>c. c\<lparr>cl_box := b\<rparr>) s)\<lparr>sv_panicked := sv_panicked s \<or> a = SendPanics\<rparr>, a)))"

definition cancel_client :: "SSEClient \<Rightarrow> SSEClient" where
  "cancel_client c = c\<lparr>cl_done := True\<rparr>"

text \<open>A request to the event stream, until its client is created.\<close>

definition handleSSEConnection :: "time \<Rightarrow> bool \<Rightarrow> sse_server \<Rightarrow> sse_server" where
  "handleSSEConnection now flusher s =
     (if sc_MaxConnections (sv_config s) \<le> sv_activeConnections s then s\<lparr>sv_errorCount := sv_errorCount s + 1\<rparr>
      else if \<not> flusher then s
      else s\<lparr>sv_totalConnections := sv_totalConnections s + 1,
             sv_conn := sv_conn s @ [createSSEClient (ConnID now (sv_totalConnections s + 1)) now]\<rparr>)"

definition send_register :: "nat \<Rightarrow> sse_server \<Rightarrow> sse_server option" where
  "send_register n s =
     (if cl_handler (sv_conn s ! n) = HRegisters \<and> length (sv_register s) < hub_room
      then Some ((on_conn n (\<lambda>c. c\<lparr>cl_handler := HWelcomes\<rparr>) s)\<lparr>sv_register := sv_register s @ [n]\<rparr>) else None)"

definition send_welcome :: "nat \<Rightarrow> time \<Rightarrow> sse_server \<Rightarrow> sse_server option" where
  "send_welcome n now s =
     (if cl_handler (sv_conn s ! n) = HWelcomes
      then Some (on_conn n (\<lambda>c. c\<lparr>cl_handler := HWaits, cl_heart := True\<rparr>)
        (fst (trySend (Live n) (Welcome (cl_ID (sv_conn s ! n)) (Unix now)) s))) else None)"

definition leave_stream :: "nat \<Rightarrow> sse_server \<Rightarrow> sse_server option" where
  "leave_stream n s =
     (if cl_handler (sv_conn s ! n) = HWaits \<and> cl_done (sv_conn s ! n) \<and> length (sv_unregister s) < hub_room
      then Some ((on_conn n (\<lambda>c. c\<lparr>cl_handler := HReturned\<rparr>) s)\<lparr>sv_unregister := sv_unregister s @ [n]\<rparr>) else None)"

text \<open>One round of the send loop, with whether the write succeeds.\<close>

definition sendLoop :: "nat \<Rightarrow> time \<Rightarrow> bool \<Rightarrow> sse_server \<Rightarrow> sse_server option" where
  "sendLoop n now written s =
    (let c = sv_conn s ! n
     in if \<not> cl_loop c then None
        else case outbox_take (cl_box c) of
          None \<Rightarrow> None
        | Some (m, b) \<Rightarrow> Some (on_conn n (\<lambda>c. if written
             then c\<lparr>cl_box := b, cl_lastSeen := Unix now,
                    cl_bytesSent := cl_bytesSent c + int (length (sc_marshal (sv_config s) m))\<rparr>
             else cancel_client (c\<lparr>cl_box := b, cl_loop := False\<rparr>)) s))"

definition sendLoop_end :: "nat \<Rightarrow> sse_server \<Rightarrow> sse_server option" where
  "sendLoop_end n s =
    (let c = sv_conn s ! n
     in if cl_loop c \<and> (cl_done c \<or> ob_sealed (cl_box c) \<and> ob_queue (cl_box c) = [])
        then Some (on_conn n (\<lambda>c. c\<lparr>cl_loop := False\<rparr>) s) else None)"

definition heartbeat :: "nat \<Rightarrow> time \<Rightarrow> sse_server \<Rightarrow> sse_server option" where
  "heartbeat n now s =
     (if \<not> cl_heart (sv_conn s ! n) then None
      else let (s1, a) = trySend (Live n) (Heartbeat (Unix now)) s
        in Some (if a = Sent then s1 else on_conn n (\<lambda>c. cancel_client (c\<lparr>cl_heart := False\<rparr>)) s1))"

definition heartbeat_end :: "nat \<Rightarrow> sse_server \<Rightarrow> sse_server option" where
  "heartbeat_end n s =
     (if cl_heart (sv_conn s ! n) \<and> cl_done (sv_conn s ! n) then Some (on_conn n (\<lambda>c. c\<lparr>cl_heart := False\<rparr>) s) else None)"

section \<open>The hub\<close>

definition registerClient :: "nat \<Rightarrow> sse_server \<Rightarrow> sse_server" where
  "registerClient n s =
    (let active = sv_activeClients s + 1
     in s\<lparr>sv_clients := AList.update (cl_ID (sv_conn s ! n)) n (sv_clients s), sv_activeClients := active,
          sv_activeConnections := active, sv_peakConnections := max active (sv_peakConnections s)\<rparr>)"

definition unregister_begin :: "nat \<Rightarrow> sse_server \<Rightarrow> sse_server" where
  "unregister_begin n s =
    (let k = cl_ID (sv_conn s ! n)
     in if map_of (sv_clients s) k = None then s
        else s\<lparr>sv_clients := AList.delete k (sv_clients s), sv_hub := HubMarks n\<rparr>)"

definition unregister_mark :: "nat \<Rightarrow> sse_server \<Rightarrow> sse_server" where
  "unregister_mark n s = (on_conn n (\<lambda>c. c\<lparr>cl_box := outbox_mark (cl_box c)\<rparr>) s)\<lparr>sv_hub := HubCloses n\<rparr>"

definition leave_channels :: "client_id \<Rightarrow> string list \<Rightarrow> (string \<times> Channel) list \<Rightarrow> (string \<times> Channel) list" where
  "leave_channels k names chs =
     map (\<lambda>(x, ch). (x, if x \<in> set names then ch\<lparr>ch_clients := AList.delete k (ch_clients ch)\<rparr> else ch)) chs"

definition unregister_close :: "nat \<Rightarrow> sse_server \<Rightarrow> sse_server" where
  "unregister_close n s =
    (let c = sv_conn s ! n; (b, again) = outbox_seal (cl_box c); active = sv_activeClients s - 1
     in (on_conn n (\<lambda>c. cancel_client (c\<lparr>cl_box := b\<rparr>)) s)
          \<lparr>sv_hub := HubWaits, sv_panicked := sv_panicked s \<or> again,
           sv_channels := leave_channels (cl_ID c) (cl_channels c) (sv_channels s),
           sv_activeClients := active, sv_activeConnections := active\<rparr>)"

text \<open>
  A broadcast starts one sending goroutine for every client of its channel, or of the server; the
  bound on how many send at a time only delays them.
\<close>

definition broadcast_targets :: "BroadcastMessage \<Rightarrow> sse_server \<Rightarrow> client_ref list" where
  "broadcast_targets b s =
     map snd (filter (\<lambda>(k, r). k \<noteq> bc_ExcludeClient b)
       (if bc_ChannelID b \<noteq> []
        then (case map_of (sv_channels s) (bc_ChannelID b) of None \<Rightarrow> [] | Some ch \<Rightarrow> ch_clients ch)
        else map (\<lambda>(k, n). (k, Live n)) (sv_clients s)))"

definition hub_handleBroadcast :: "BroadcastMessage \<Rightarrow> sse_server \<Rightarrow> sse_server" where
  "hub_handleBroadcast b s =
     s\<lparr>sv_broadcastMessages := sv_broadcastMessages s + 1,
       sv_sends := sv_sends s @ map (\<lambda>r. (r, bc_Message b)) (broadcast_targets b s)\<rparr>"

section \<open>The HTTP interface\<close>

text \<open>
  The JSON object of a call: the fields that are strings.  A target is given as the identifier that
  it spells; a string that spells none names no client.
\<close>

record api_request =
  ar_type :: "string option"
  ar_channel :: "string option"
  ar_content :: "string option"
  ar_target :: "client_id option"

datatype api_call = WrongMethod | UnreadableBody | InvalidJSON | Call api_request

definition string_or_empty :: "string option \<Rightarrow> string" where
  "string_or_empty x = (case x of None \<Rightarrow> [] | Some v \<Rightarrow> v)"

definition handleJoinChannel :: "client_id \<Rightarrow> api_request \<Rightarrow> time \<Rightarrow> sse_server \<Rightarrow> sse_server" where
  "handleJoinChannel k m now s =
    (let name = string_or_empty (ar_channel m)
     in if name = [] then s
        else let ch = (case map_of (sv_channels s) name of Some ch \<Rightarrow> ch | None \<Rightarrow> \<lparr>ch_clients = [], ch_lastActivity = 0\<rparr>);
                 ch1 = ch\<lparr>ch_clients := AList.update k (Dummy k) (ch_clients ch), ch_lastActivity := Unix now\<rparr>;
                 chs = AList.update name ch1 (sv_channels s)
             in s\<lparr>sv_channels := chs, sv_channelCount := int (length chs)\<rparr>)"

definition handleLeaveChannel :: "client_id \<Rightarrow> api_request \<Rightarrow> time \<Rightarrow> sse_server \<Rightarrow> sse_server" where
  "handleLeaveChannel k m now s =
    (let name = string_or_empty (ar_channel m)
     in if name = [] then s
        else case map_of (sv_channels s) name of
          None \<Rightarrow> s
        | Some ch \<Rightarrow> s\<lparr>sv_channels := AList.update name
            (ch\<lparr>ch_clients := AList.delete k (ch_clients ch), ch_lastActivity := Unix now\<rparr>) (sv_channels s)\<rparr>)"

definition handleBroadcast :: "client_id \<Rightarrow> api_request \<Rightarrow> time \<Rightarrow> sse_server \<Rightarrow> sse_server" where
  "handleBroadcast k m now s =
    (let ch = string_or_empty (ar_channel m);
         b = \<lparr>bc_ChannelID = ch, bc_Message = ChannelMessage ch k (string_or_empty (ar_content m)) (Unix now), bc_ExcludeClient = k\<rparr>
     in if length (sv_broadcast s) < broadcast_room then s\<lparr>sv_broadcast := sv_broadcast s @ [b]\<rparr> else s)"

definition handleDirectMessage :: "client_id \<Rightarrow> api_request \<Rightarrow> time \<Rightarrow> sse_server \<Rightarrow> sse_server" where
  "handleDirectMessage k m now s =
     (case ar_target m of
        None \<Rightarrow> s
      | Some t \<Rightarrow> (case map_of (sv_clients s) t of
          None \<Rightarrow> s
        | Some n \<Rightarrow> fst (trySend (Live n) (DirectMessage k (string_or_empty (ar_content m)) (Unix now)) s)))"

definition handlePing :: "client_id \<Rightarrow> time \<Rightarrow> sse_server \<Rightarrow> sse_server" where
  "handlePing k now s = fst (trySend (Dummy k) (Pong (Unix now)) s)"

definition route :: "string \<Rightarrow> client_id \<Rightarrow> api_request \<Rightarrow> time \<Rightarrow> sse_server \<Rightarrow> sse_server" where
  "route name k m now s =
     (if name = ''join_channel'' then handleJoinChannel k m now s
      else if name = ''leave_channel'' then handleLeaveChannel k m now s
      else if name = ''broadcast'' then handleBroadcast k m now s
      else if name = ''direct_message'' then handleDirectMessage k m now s
      else if name = ''ping'' then handlePing k now s
      else s)"

text \<open>The answer is the status code.\<close>

definition handleSendMessage :: "api_call \<Rightarrow> time \<Rightarrow> sse_server \<Rightarrow> sse_server \<times> nat" where
  "handleSendMessage call now s =
     (case call of
        WrongMethod \<Rightarrow> (s, 405)
      | UnreadableBody \<Rightarrow> (s, 400)
      | InvalidJSON \<Rightarrow> (s, 400)
      | Call m \<Rightarrow>
          (let s1 = s\<lparr>sv_totalMessages := sv_totalMessages s + 1\<rparr>
           in case ar_type m of None \<Rightarrow> (s1, 400) | Some name \<Rightarrow> (route name (ApiID now) m now s1, 200)))"

section \<open>Cleaning up\<close>

definition stale_clients :: "time \<Rightarrow> sse_server \<Rightarrow> nat list" where
  "stale_clients now s = filter (\<lambda>n. cl_lastSeen (sv_conn s ! n) < Unix now - 300) (map snd (sv_clients s))"

definition performCleanup :: "time \<Rightarrow> sse_server \<Rightarrow> sse_server option" where
  "performCleanup now s = (if sv_stale s = [] then Some (s\<lparr>sv_stale := stale_clients now s\<rparr>) else None)"

definition cleanup_send :: "sse_server \<Rightarrow> sse_server option" where
  "cleanup_send s =
     (case sv_stale s of
        [] \<Rightarrow> None
      | n # rest \<Rightarrow> (if length (sv_unregister s) < hub_room
          then Some (s\<lparr>sv_stale := rest, sv_unregister := sv_unregister s @ [n]\<rparr>) else None))"

section \<open>Runs\<close>

datatype sse_event =
  SConnect time bool | SRegister nat | SWelcome nat time | SDisconnect nat | SLeave nat | SWrite nat time bool | SLoopEnd nat
| SHeartbeat nat time | SHeartbeatEnd nat | SHubRegister | SHubUnregister | SHubMark | SHubClose | SHubBroadcast
| SBroadcast nat | SDeliver nat | SApi api_call time | SCleanup time | SCleanupSend

text \<open>The hub takes the next request of one of its channels.\<close>

definition hub_next :: "sse_event \<Rightarrow> sse_server \<Rightarrow> sse_server option" where
  "hub_next e s =
     (case (sv_hub s, e) of
        (HubWaits, SHubRegister) \<Rightarrow> (case sv_register s of
            [] \<Rightarrow> None | n # rest \<Rightarrow> Some (registerClient n (s\<lparr>sv_register := rest\<rparr>)))
      | (HubWaits, SHubUnregister) \<Rightarrow> (case sv_unregister s of
            [] \<Rightarrow> None | n # rest \<Rightarrow> Some (unregister_begin n (s\<lparr>sv_unregister := rest\<rparr>)))
      | (HubWaits, SHubBroadcast) \<Rightarrow> (case sv_broadcast s of
            [] \<Rightarrow> None | b # rest \<Rightarrow> Some (s\<lparr>sv_broadcast := rest, sv_started := sv_started s @ [b]\<rparr>))
      | (HubMarks n, SHubMark) \<Rightarrow> Some (unregister_mark n s)
      | (HubCloses n, SHubClose) \<Rightarrow> Some (unregister_close n s)
      | _ \<Rightarrow> None)"

definition at_conn :: "nat \<Rightarrow> sse_server \<Rightarrow> sse_server option \<Rightarrow> sse_server option" where
  "at_conn n s r = (if n < length (sv_conn s) then r else None)"

fun sse_step :: "sse_server \<Rightarrow> sse_event \<Rightarrow> sse_server option" where
  "sse_step s (SConnect now flusher) = Some (handleSSEConnection now flusher s)"
| "sse_step s (SRegister n) = at_conn n s (send_register n s)"
| "sse_step s (SWelcome n now) = at_conn n s (send_welcome n now s)"
| "sse_step s (SDisconnect n) = at_conn n s (Some (on_conn n cancel_client s))"
| "sse_step s (SLeave n) = at_conn n s (leave_stream n s)"
| "sse_step s (SWrite n now ok) = at_conn n s (sendLoop n now ok s)"
| "sse_step s (SLoopEnd n) = at_conn n s (sendLoop_end n s)"
| "sse_step s (SHeartbeat n now) = at_conn n s (heartbeat n now s)"
| "sse_step s (SHeartbeatEnd n) = at_conn n s (heartbeat_end n s)"
| "sse_step s (SBroadcast i) =
     (if i < length (sv_started s)
      then Some (hub_handleBroadcast (sv_started s ! i) (s\<lparr>sv_started := drop_at i (sv_started s)\<rparr>)) else None)"
| "sse_step s (SDeliver i) =
     (if i < length (sv_sends s)
      then Some (fst (trySend (fst (sv_sends s ! i)) (snd (sv_sends s ! i)) (s\<lparr>sv_sends := drop_at i (sv_sends s)\<rparr>))) else None)"
| "sse_step s (SApi call now) = Some (fst (handleSendMessage call now s))"
| "sse_step s (SCleanup now) = performCleanup now s"
| "sse_step s SCleanupSend = cleanup_send s"
| "sse_step s e = hub_next e s"

section \<open>Invariant\<close>

text \<open>A message that is not addressed to a channel.\<close>

definition open_message :: "payload \<Rightarrow> bool" where
  "open_message m = (case m of ChannelMessage name k text t \<Rightarrow> name = [] | _ \<Rightarrow> True)"

definition client_ok :: "ServerConfig \<Rightarrow> SSEClient \<Rightarrow> bool" where
  "client_ok cfg c \<longleftrightarrow> outbox_ok (sc_MessageQueueSize cfg) open_message (cl_box c)"

text \<open>
  The stages of a connection: its handler has yet to announce it, it waits for the hub, it is in the
  table, the hub is removing it, it is closed.
\<close>

definition stages :: "sse_server \<Rightarrow> nat \<Rightarrow> nat" where
  "stages s n = of_bool (cl_handler (sv_conn s ! n) = HRegisters) + count_list (sv_register s) n +
     count_list (map snd (sv_clients s)) n + of_bool (sv_hub s = HubMarks n) + of_bool (ob_closed (cl_box (sv_conn s ! n)))"

definition conns_ok :: "ServerConfig \<Rightarrow> sse_server \<Rightarrow> bool" where
  "conns_ok cfg s \<longleftrightarrow> sv_config s = cfg \<and> \<not> sv_panicked s \<and> (\<forall>c \<in> set (sv_conn s). client_ok cfg c) \<and>
     sv_totalConnections s = int (length (sv_conn s)) \<and>
     (\<forall>n < length (sv_conn s). \<exists>t. cl_ID (sv_conn s ! n) = ConnID t (int n + 1))"

definition hub_ok :: "SSEClient list \<Rightarrow> hub_phase \<Rightarrow> bool" where
  "hub_ok conns h = (case h of
     HubWaits \<Rightarrow> True
   | HubMarks n \<Rightarrow> n < length conns
   | HubCloses n \<Rightarrow> n < length conns \<and> ob_closed (cl_box (conns ! n)) \<and> \<not> ob_sealed (cl_box (conns ! n)))"

definition table_ok :: "sse_server \<Rightarrow> bool" where
  "table_ok s \<longleftrightarrow> (\<forall>p \<in> set (sv_clients s). snd p < length (sv_conn s) \<and> fst p = cl_ID (sv_conn s ! snd p)) \<and>
     (\<forall>n \<in> set (sv_register s) \<union> set (sv_unregister s) \<union> set (sv_stale s). n < length (sv_conn s)) \<and>
     (\<forall>n < length (sv_conn s). stages s n = 1) \<and>
     hub_ok (sv_conn s) (sv_hub s)"

definition active_ok :: "sse_server \<Rightarrow> bool" where
  "active_ok s \<longleftrightarrow> sv_activeClients s = int (length (sv_clients s)) + of_bool (sv_hub s \<noteq> HubWaits) \<and>
     sv_activeConnections s = sv_activeClients s \<and> sv_activeClients s \<le> sv_peakConnections s"

definition talk_ok :: "sse_server \<Rightarrow> bool" where
  "talk_ok s \<longleftrightarrow> (\<forall>p \<in> set (sv_channels s). \<forall>q \<in> set (ch_clients (snd p)). \<exists>k. snd q = Dummy k) \<and>
     (\<forall>b \<in> set (sv_broadcast s) \<union> set (sv_started s). \<exists>k x t. bc_Message b = ChannelMessage (bc_ChannelID b) k x t) \<and>
     (\<forall>p \<in> set (sv_sends s). \<forall>n. fst p = Live n \<longrightarrow> n < length (sv_conn s) \<and> open_message (snd p))"

definition sse_inv :: "ServerConfig \<Rightarrow> sse_server \<Rightarrow> bool" where
  "sse_inv cfg s \<longleftrightarrow> conns_ok cfg s \<and> table_ok s \<and> active_ok s \<and> talk_ok s"

lemmas inv_parts = sse_inv_def conns_ok_def table_ok_def active_ok_def talk_ok_def

lemma sse_invI: "conns_ok cfg s \<Longrightarrow> table_ok s \<Longrightarrow> active_ok s \<Longrightarrow> talk_ok s \<Longrightarrow> sse_inv cfg s"
  by (simp add: sse_inv_def)

lemma on_conn_fields [simp]:
  "sv_conn (on_conn n f s) = (sv_conn s)[n := f (sv_conn s ! n)]" "sv_config (on_conn n f s) = sv_config s"
  "sv_clients (on_conn n f s) = sv_clients s" "sv_register (on_conn n f s) = sv_register s"
  "sv_unregister (on_conn n f s) = sv_unregister s" "sv_stale (on_conn n f s) = sv_stale s" "sv_hub (on_conn n f s) = sv_hub s"
  "sv_panicked (on_conn n f s) = sv_panicked s" "sv_totalConnections (on_conn n f s) = sv_totalConnections s"
  "sv_activeClients (on_conn n f s) = sv_activeClients s" "sv_activeConnections (on_conn n f s) = sv_activeConnections s"
  "sv_peakConnections (on_conn n f s) = sv_peakConnections s" "sv_channels (on_conn n f s) = sv_channels s"
  "sv_broadcast (on_conn n f s) = sv_broadcast s" "sv_started (on_conn n f s) = sv_started s"
  "sv_sends (on_conn n f s) = sv_sends s"
  by (simp_all add: on_conn_def)

lemma table_frame:
  assumes "table_ok s" and "sv_conn s' = sv_conn s" and "sv_clients s' = sv_clients s" and "sv_register s' = sv_register s"
    and "sv_hub s' = sv_hub s" and "\<forall>n \<in> set (sv_unregister s') \<union> set (sv_stale s'). n < length (sv_conn s)"
  shows "table_ok s'"
  using assms by (auto simp: table_ok_def stages_def)

text \<open>A step that leaves the connections, the table and the hub alone.\<close>

lemma server_step:
  assumes "sse_inv cfg s" and "sv_conn s' = sv_conn s" and "sv_clients s' = sv_clients s" and "sv_register s' = sv_register s"
    and "sv_hub s' = sv_hub s" and "\<forall>n \<in> set (sv_unregister s') \<union> set (sv_stale s'). n < length (sv_conn s)"
    and "sv_config s' = sv_config s" and "sv_panicked s' = sv_panicked s" and "sv_totalConnections s' = sv_totalConnections s"
    and "sv_activeClients s' = sv_activeClients s" and "sv_activeConnections s' = sv_activeConnections s"
    and "sv_peakConnections s' = sv_peakConnections s" and "talk_ok s'"
  shows "sse_inv cfg s'"
  using assms table_frame [of s s'] by (simp add: sse_inv_def conns_ok_def active_ok_def)

lemma sse_invD:
  assumes "sse_inv cfg s"
  shows "talk_ok s" and "table_ok s" and "conns_ok cfg s" and "active_ok s" and "sv_config s = cfg" and "\<not> sv_panicked s"
    and "\<forall>n \<in> set (sv_unregister s) \<union> set (sv_stale s). n < length (sv_conn s)"
    and "\<forall>n \<in> set (sv_register s). n < length (sv_conn s)"
  using assms by (simp_all add: inv_parts)

text \<open>A step of a client that neither moves it to another stage nor closes its queue.\<close>

lemma client_step:
  assumes "sse_inv cfg s" and "n < length (sv_conn s)" and "c = sv_conn s ! n" and "cl_ID (f c) = cl_ID c"
    and "cl_handler (f c) = HRegisters \<longleftrightarrow> cl_handler c = HRegisters" and "client_ok cfg (f c)"
    and "ob_closed (cl_box (f c)) = ob_closed (cl_box c)" and "ob_sealed (cl_box (f c)) = ob_sealed (cl_box c)"
  shows "sse_inv cfg (on_conn n f s)"
proof -
  have "conns_ok cfg (on_conn n f s)"
    using assms by (auto simp: inv_parts nth_list_update dest!: set_update_subset_insert [THEN subsetD])
  moreover have "stages (on_conn n f s) m = stages s m" if "m < length (sv_conn s)" for m
    using assms by (cases "m = n") (auto simp: stages_def)
  then have "table_ok (on_conn n f s)"
    using assms by (auto simp: inv_parts hub_ok_def nth_list_update split: hub_phase.splits)
  ultimately show ?thesis using assms(1) by (auto simp: inv_parts)
qed

lemma client_okD: "sse_inv cfg s \<Longrightarrow> n < length (sv_conn s) \<Longrightarrow> client_ok cfg (sv_conn s ! n)"
  by (simp add: inv_parts)

lemma trySend_inv:
  assumes "sse_inv cfg s" and "case r of Live n \<Rightarrow> n < length (sv_conn s) \<and> open_message m | Dummy k \<Rightarrow> True"
  shows "sse_inv cfg (fst (trySend r m s))"
proof (cases r)
  case (Dummy k)
  then show ?thesis using assms(1) by (simp add: trySend_def)
next
  case (Live n)
  let ?cap = "sc_MessageQueueSize (sv_config s)"
  let ?b = "outbox_put ?cap m (cl_box (sv_conn s ! n))"
  have n: "n < length (sv_conn s)" "open_message m" using assms(2) Live by simp_all
  have cap: "sv_config s = cfg" using assms(1) by (simp add: inv_parts)
  have ok: "outbox_ok ?cap open_message (cl_box (sv_conn s ! n))"
    using client_okD [OF assms(1) n(1)] by (simp add: client_ok_def cap)
  have "fst (trySend r m s) = on_conn n (\<lambda>c. c\<lparr>cl_box := fst ?b\<rparr>) s"
    using outbox_never_panics [OF ok, of ?cap m] assms(1)
    by (simp add: Live trySend_def Let_def split_beta inv_parts on_conn_def)
  moreover have "sse_inv cfg (on_conn n (\<lambda>c. c\<lparr>cl_box := fst ?b\<rparr>) s)"
    using outbox_put_ok [OF ok n(2)] by (intro client_step [OF assms(1) n(1) refl]) (simp_all add: client_ok_def cap)
  ultimately show ?thesis by simp
qed

lemma trySend_fields [simp]:
  "length (sv_conn (fst (trySend r m s))) = length (sv_conn s)"
  "cl_handler (sv_conn (fst (trySend r m s)) ! n) = cl_handler (sv_conn s ! n)"
  "cl_ID (sv_conn (fst (trySend r m s)) ! n) = cl_ID (sv_conn s ! n)"
  by (auto simp: trySend_def Let_def split_beta nth_list_update' split: client_ref.split)

text \<open>Steps of the connections' own goroutines.\<close>

lemma handle_connection_inv:
  assumes "sse_inv cfg s"
  shows "sse_inv cfg (handleSSEConnection now flusher s)"
proof (cases "sc_MaxConnections (sv_config s) \<le> sv_activeConnections s \<or> \<not> flusher")
  case True
  then have "handleSSEConnection now flusher s = s \<or> handleSSEConnection now flusher s = s\<lparr>sv_errorCount := sv_errorCount s + 1\<rparr>"
    by (auto simp: handleSSEConnection_def)
  moreover have "sse_inv cfg (s\<lparr>sv_errorCount := sv_errorCount s + 1\<rparr>)"
    by (rule server_step [OF assms]) (use sse_invD [OF assms] in \<open>simp_all add: talk_ok_def\<close>)
  ultimately show ?thesis using assms by auto
next
  case False
  let ?c = "createSSEClient (ConnID now (sv_totalConnections s + 1)) now"
  let ?s = "s\<lparr>sv_totalConnections := sv_totalConnections s + 1, sv_conn := sv_conn s @ [?c]\<rparr>"
  let ?n = "length (sv_conn s)"
  have s': "handleSSEConnection now flusher s = ?s" using False by (simp add: handleSSEConnection_def)
  have t: "table_ok s" "conns_ok cfg s" using assms by (simp_all add: sse_inv_def)
  have out: "?n \<notin> set (sv_register s)" "?n \<notin> set (map snd (sv_clients s))" "sv_hub s \<noteq> HubMarks ?n"
    using t(1) by (force simp: table_ok_def hub_ok_def split: hub_phase.splits)+
  have new: "stages ?s ?n = 1"
    using out count_notin by (auto simp: stages_def createSSEClient_def new_outbox_def)
  have "stages ?s m = stages s m" if "m < ?n" for m using that by (simp add: stages_def nth_append)
  then have "table_ok ?s" using t(1) new
    by (auto simp: table_ok_def hub_ok_def nth_append less_Suc_eq split: hub_phase.splits)
  moreover have "conns_ok cfg ?s" using t(2)
    by (auto simp: conns_ok_def nth_append less_Suc_eq createSSEClient_def client_ok_def)
  ultimately show ?thesis using assms unfolding s' by (auto simp: inv_parts)
qed

lemma send_register_inv:
  assumes "sse_inv cfg s" and "n < length (sv_conn s)" and "send_register n s = Some s'"
  shows "sse_inv cfg s'"
proof -
  have h: "cl_handler (sv_conn s ! n) = HRegisters"
    and s': "s' = (on_conn n (\<lambda>c. c\<lparr>cl_handler := HWelcomes\<rparr>) s)\<lparr>sv_register := sv_register s @ [n]\<rparr>"
    using assms(3) by (auto simp: send_register_def split: if_splits)
  have "stages s' m = stages s m" for m
    using h assms(2) by (cases "m = n") (auto simp: stages_def s')
  then have "table_ok s'" using sse_invD(2) [OF assms(1)] assms(2)
    by (auto simp: table_ok_def hub_ok_def s' nth_list_update split: hub_phase.splits)
  moreover have "conns_ok cfg s'" using sse_invD(3) [OF assms(1)] client_okD [OF assms(1,2)]
    by (auto simp: conns_ok_def s' nth_list_update' client_ok_def dest!: set_update_in)
  ultimately show ?thesis using sse_invD(1,4) [OF assms(1)] by (intro sse_invI) (auto simp: s' talk_ok_def active_ok_def)
qed

lemma send_welcome_inv:
  assumes "sse_inv cfg s" and "n < length (sv_conn s)" and "send_welcome n now s = Some s'"
  shows "sse_inv cfg s'"
proof -
  let ?s = "fst (trySend (Live n) (Welcome (cl_ID (sv_conn s ! n)) (Unix now)) s)"
  have h: "cl_handler (sv_conn s ! n) = HWelcomes" and s': "s' = on_conn n (\<lambda>c. c\<lparr>cl_handler := HWaits, cl_heart := True\<rparr>) ?s"
    using assms(3) by (auto simp: send_welcome_def split: if_splits)
  have i: "sse_inv cfg ?s" by (rule trySend_inv [OF assms(1)]) (simp add: assms(2) open_message_def)
  have n: "n < length (sv_conn ?s)" using assms(2) by simp
  show ?thesis unfolding s'
    by (rule client_step [OF i n refl]) (use h client_okD [OF i n] in \<open>simp_all add: client_ok_def\<close>)
qed

lemma client_only_inv:
  assumes "sse_inv cfg s" and "n < length (sv_conn s)" and "\<And>c. cl_ID (f c) = cl_ID c" and "\<And>c. cl_box (f c) = cl_box c"
    and "cl_handler (f (sv_conn s ! n)) = HRegisters \<longleftrightarrow> cl_handler (sv_conn s ! n) = HRegisters"
  shows "sse_inv cfg (on_conn n f s)"
  by (rule client_step [OF assms(1,2) refl]) (use assms(3-5) client_okD [OF assms(1,2)] in \<open>simp_all add: client_ok_def\<close>)

lemma leave_stream_inv:
  assumes "sse_inv cfg s" and "n < length (sv_conn s)" and "leave_stream n s = Some s'"
  shows "sse_inv cfg s'"
proof -
  have h: "cl_handler (sv_conn s ! n) = HWaits"
    and s': "s' = (on_conn n (\<lambda>c. c\<lparr>cl_handler := HReturned\<rparr>) s)\<lparr>sv_unregister := sv_unregister s @ [n]\<rparr>"
    using assms(3) by (auto simp: leave_stream_def split: if_splits)
  have i: "sse_inv cfg (on_conn n (\<lambda>c. c\<lparr>cl_handler := HReturned\<rparr>) s)" (is "sse_inv cfg ?s")
    by (rule client_only_inv [OF assms(1,2)]) (simp_all add: h)
  show ?thesis by (rule server_step [OF i]) (use assms(2) sse_invD [OF i] in \<open>simp_all add: s' talk_ok_def\<close>)
qed

lemma sendLoop_inv:
  assumes "sse_inv cfg s" and "n < length (sv_conn s)" and "sendLoop n now ok s = Some s'"
  shows "sse_inv cfg s'"
proof -
  obtain m b where t: "outbox_take (cl_box (sv_conn s ! n)) = Some (m, b)"
    and s': "s' = on_conn n (\<lambda>c. if ok
             then c\<lparr>cl_box := b, cl_lastSeen := Unix now,
                    cl_bytesSent := cl_bytesSent c + int (length (sc_marshal (sv_config s) m))\<rparr>
             else cancel_client (c\<lparr>cl_box := b, cl_loop := False\<rparr>)) s"
    using assms(3) by (auto simp: sendLoop_def Let_def split: if_splits option.splits)
  show ?thesis unfolding s'
    by (rule client_step [OF assms(1,2) refl])
      (use outbox_take_flags [OF t] outbox_take_ok [OF _ t] client_okD [OF assms(1,2)] in
        \<open>simp_all add: client_ok_def cancel_client_def\<close>)
qed

lemma heartbeat_inv:
  assumes "sse_inv cfg s" and "n < length (sv_conn s)" and "heartbeat n now s = Some s'"
  shows "sse_inv cfg s'"
proof -
  let ?s = "fst (trySend (Live n) (Heartbeat (Unix now)) s)"
  have i: "sse_inv cfg ?s" by (rule trySend_inv [OF assms(1)]) (simp add: assms(2) open_message_def)
  have "sse_inv cfg (on_conn n (\<lambda>c. cancel_client (c\<lparr>cl_heart := False\<rparr>)) ?s)"
    by (rule client_only_inv [OF i]) (simp_all add: assms(2) cancel_client_def)
  then show ?thesis using i assms(3) by (auto simp: heartbeat_def Let_def split_beta split: if_splits)
qed

text \<open>Steps of the hub.\<close>

lemma delete_counts:
  assumes "\<forall>p \<in> set al. fst p = k \<longleftrightarrow> snd p = n"
  shows "length (AList.delete k al) + count_list (map snd al) n = length al"
    and "count_list (map snd (AList.delete k al)) m = (if m = n then 0 else count_list (map snd al) m)"
  using assms by (induction al) auto

lemma key_of_client:
  assumes "sse_inv cfg s" and "n < length (sv_conn s)" and "p \<in> set (sv_clients s)"
  shows "fst p = cl_ID (sv_conn s ! n) \<longleftrightarrow> snd p = n"
proof -
  have "snd p < length (sv_conn s)" "fst p = cl_ID (sv_conn s ! snd p)" using assms(1,3) by (simp_all add: inv_parts)
  moreover have id: "\<exists>t. cl_ID (sv_conn s ! m) = ConnID t (int m + 1)" if "m < length (sv_conn s)" for m
    using sse_invD(3) [OF assms(1)] that by (simp add: conns_ok_def)
  moreover obtain t u where "cl_ID (sv_conn s ! n) = ConnID t (int n + 1)" "cl_ID (sv_conn s ! snd p) = ConnID u (int (snd p) + 1)"
    using id [OF assms(2)] id [OF calculation(1)] by blast
  ultimately show ?thesis by (cases "snd p = n") simp_all
qed

lemma one_stage: "sse_inv cfg s \<Longrightarrow> n < length (sv_conn s) \<Longrightarrow> stages s n = 1"
  by (simp add: inv_parts)

lemma hub_register_inv:
  assumes "sse_inv cfg s" and "sv_hub s = HubWaits" and "sv_register s = n # rest"
  shows "sse_inv cfg (registerClient n (s\<lparr>sv_register := rest\<rparr>))"
proof -
  let ?s = "registerClient n (s\<lparr>sv_register := rest\<rparr>)"
  have n: "n < length (sv_conn s)" using sse_invD(8) [OF assms(1)] assms(3) by simp
  have "count_list (map snd (sv_clients s)) n = 0"
    using one_stage [OF assms(1) n] assms(3) by (simp add: stages_def)
  then have "n \<notin> set (map snd (sv_clients s))" unfolding count_list_0_iff .
  then have "cl_ID (sv_conn s ! n) \<notin> fst ` set (sv_clients s)"
    using key_of_client [OF assms(1) n] by (auto simp: image_iff) fastforce
  then have c: "sv_clients ?s = sv_clients s @ [(cl_ID (sv_conn s ! n), n)]"
    by (simp add: registerClient_def update_fresh Let_def)
  have f: "sv_conn ?s = sv_conn s" "sv_register ?s = rest" "sv_hub ?s = HubWaits" "sv_unregister ?s = sv_unregister s"
    "sv_stale ?s = sv_stale s"
    by (simp_all add: registerClient_def Let_def assms(2))
  have "stages ?s m = stages s m" for m
    by (simp add: stages_def c f assms(2,3))
  then have "table_ok ?s" using sse_invD(2) [OF assms(1)] n by (auto simp: table_ok_def c f hub_ok_def assms(3))
  moreover have "active_ok ?s" using sse_invD(4) [OF assms(1)] c f(3)
    by (simp add: active_ok_def assms(2) registerClient_def Let_def)
  ultimately show ?thesis using sse_invD(1,3) [OF assms(1)]
    by (intro sse_invI) (simp_all add: conns_ok_def talk_ok_def registerClient_def Let_def)
qed

lemma hub_unregister_inv:
  assumes "sse_inv cfg s" and "sv_hub s = HubWaits" and "n < length (sv_conn s)"
  shows "sse_inv cfg (unregister_begin n s)"
proof (cases "map_of (sv_clients s) (cl_ID (sv_conn s ! n))")
  case None
  then show ?thesis using assms(1) by (simp add: unregister_begin_def)
next
  case (Some x)
  let ?s = "unregister_begin n s" and ?k = "cl_ID (sv_conn s ! n)"
  have s': "?s = s\<lparr>sv_clients := AList.delete ?k (sv_clients s), sv_hub := HubMarks n\<rparr>"
    using Some by (simp add: unregister_begin_def Let_def)
  have "\<forall>p \<in> set (sv_clients s). fst p = ?k \<longleftrightarrow> snd p = n" using key_of_client [OF assms(1,3)] by blast
  note del = delete_counts [OF this]
  have "(?k, x) \<in> set (sv_clients s)" using Some by (rule map_of_SomeD)
  then have "n \<in> set (map snd (sv_clients s))" using key_of_client [OF assms(1,3)] by force
  then have "count_list (map snd (sv_clients s)) n \<noteq> 0" by (simp add: count_list_0_iff)
  then have one: "count_list (map snd (sv_clients s)) n = 1" "count_list (sv_register s) n = 0"
    "cl_handler (sv_conn s ! n) \<noteq> HRegisters" "\<not> ob_closed (cl_box (sv_conn s ! n))"
    using one_stage [OF assms(1,3)] by (auto simp: stages_def split: if_splits)
  have "stages ?s m = stages s m" for m
    using one by (cases "m = n") (simp_all add: stages_def s' del(2) assms(2))
  then have "table_ok ?s" using sse_invD(2) [OF assms(1)] assms(3) set_delete [of ?k "sv_clients s"]
    by (auto simp: table_ok_def s' hub_ok_def)
  moreover have "active_ok ?s" using sse_invD(4) [OF assms(1)] del(1) one(1) by (simp add: active_ok_def s' assms(2))
  ultimately show ?thesis using sse_invD(1,3) [OF assms(1)]
    by (intro sse_invI) (simp_all add: conns_ok_def talk_ok_def s')
qed

lemma hub_mark_inv:
  assumes "sse_inv cfg s" and "sv_hub s = HubMarks n"
  shows "sse_inv cfg (unregister_mark n s)"
proof -
  let ?s = "unregister_mark n s"
  have n: "n < length (sv_conn s)" using sse_invD(2) [OF assms(1)] assms(2) by (simp add: table_ok_def hub_ok_def)
  have s': "?s = (on_conn n (\<lambda>c. c\<lparr>cl_box := outbox_mark (cl_box c)\<rparr>) s)\<lparr>sv_hub := HubCloses n\<rparr>"
    by (simp add: unregister_mark_def)
  have c: "\<not> ob_closed (cl_box (sv_conn s ! n))" "client_ok cfg (sv_conn s ! n)"
    using one_stage [OF assms(1) n] client_okD [OF assms(1) n] by (auto simp: stages_def assms(2) split: if_splits)
  then have sealed: "\<not> ob_sealed (cl_box (sv_conn s ! n))" by (simp add: client_ok_def outbox_ok_def)
  have "stages ?s m = stages s m" for m
    using c(1) n by (cases "m = n") (simp_all add: stages_def s' assms(2) outbox_mark_def)
  then have "table_ok ?s" using sse_invD(2) [OF assms(1)] n sealed
    by (auto simp: table_ok_def s' hub_ok_def nth_list_update' outbox_mark_def)
  moreover have "conns_ok cfg ?s" using sse_invD(3) [OF assms(1)] c(2)
    by (auto simp: conns_ok_def s' nth_list_update' client_ok_def outbox_mark_ok dest!: set_update_in)
  ultimately show ?thesis using sse_invD(1,4) [OF assms(1)]
    by (intro sse_invI) (simp_all add: active_ok_def talk_ok_def s' assms(2))
qed

lemma leave_channels_dummies:
  assumes "\<forall>p \<in> set chs. \<forall>q \<in> set (ch_clients (snd p)). \<exists>k. snd q = Dummy k"
  shows "\<forall>p \<in> set (leave_channels k names chs). \<forall>q \<in> set (ch_clients (snd p)). \<exists>k. snd q = Dummy k"
proof (intro ballI)
  fix p q
  assume "p \<in> set (leave_channels k names chs)" and q: "q \<in> set (ch_clients (snd p))"
  then obtain x ch where x: "(x, ch) \<in> set chs" "p = (x, if x \<in> set names then ch\<lparr>ch_clients := AList.delete k (ch_clients ch)\<rparr> else ch)"
    by (auto simp: leave_channels_def)
  then have "q \<in> set (ch_clients ch)" using q set_delete [of k "ch_clients ch"] by (auto split: if_splits)
  then show "\<exists>j. snd q = Dummy j" using assms x(1) by fastforce
qed

lemma hub_close_inv:
  assumes "sse_inv cfg s" and "sv_hub s = HubCloses n"
  shows "sse_inv cfg (unregister_close n s)"
proof -
  let ?s = "unregister_close n s" and ?c = "sv_conn s ! n"
  have n: "n < length (sv_conn s)" "ob_closed (cl_box ?c)" "\<not> ob_sealed (cl_box ?c)"
    using sse_invD(2) [OF assms(1)] assms(2) by (simp_all add: table_ok_def hub_ok_def)
  let ?f = "\<lambda>c. cancel_client (c\<lparr>cl_box := fst (outbox_seal (cl_box ?c))\<rparr>)"
  have s': "?s = (on_conn n ?f s)\<lparr>sv_hub := HubWaits, sv_panicked := sv_panicked s,
      sv_channels := leave_channels (cl_ID ?c) (cl_channels ?c) (sv_channels s),
      sv_activeClients := sv_activeClients s - 1, sv_activeConnections := sv_activeClients s - 1\<rparr>"
    using n(3) by (simp add: unregister_close_def Let_def outbox_seal_def)
  have c: "client_ok cfg (?f ?c)"
    using client_okD [OF assms(1) n(1)] n(2) by (simp add: client_ok_def cancel_client_def outbox_seal_ok)
  have "stages ?s m = stages s m" for m
    using n by (cases "m = n") (simp_all add: stages_def s' assms(2) outbox_seal_def cancel_client_def)
  then have "table_ok ?s" using sse_invD(2) [OF assms(1)] n
    by (auto simp: table_ok_def s' hub_ok_def nth_list_update' cancel_client_def)
  moreover have "conns_ok cfg ?s" using sse_invD(3) [OF assms(1)] c
    by (auto simp: conns_ok_def s' nth_list_update' cancel_client_def dest!: set_update_in)
  moreover have "\<forall>p \<in> set (leave_channels (cl_ID ?c) (cl_channels ?c) (sv_channels s)). \<forall>q \<in> set (ch_clients (snd p)). \<exists>k. snd q = Dummy k"
    by (rule leave_channels_dummies) (use sse_invD(1) [OF assms(1)] in \<open>simp add: talk_ok_def\<close>)
  then have "talk_ok ?s" using sse_invD(1) [OF assms(1)] by (simp add: talk_ok_def s')
  ultimately show ?thesis using sse_invD(4) [OF assms(1)]
    by (intro sse_invI) (simp_all add: active_ok_def s' assms(2))
qed

text \<open>Broadcasts, deliveries and the HTTP interface.\<close>

lemma broadcast_start_inv:
  assumes "sse_inv cfg s" and "sv_hub s = HubWaits" and "sv_broadcast s = b # rest"
  shows "sse_inv cfg (s\<lparr>sv_broadcast := rest, sv_started := sv_started s @ [b]\<rparr>)"
  by (rule server_step [OF assms(1)]) (use sse_invD [OF assms(1)] assms(3) in \<open>simp_all add: talk_ok_def\<close>)

lemma map_of_clients: "sse_inv cfg s \<Longrightarrow> map_of (sv_clients s) k = Some n \<Longrightarrow> n < length (sv_conn s)"
  by (drule map_of_SomeD) (fastforce simp: inv_parts)

lemma targets_ok:
  assumes "sse_inv cfg s" and "Live n \<in> set (broadcast_targets b s)"
  shows "bc_ChannelID b = [] \<and> n < length (sv_conn s)"
proof (cases "bc_ChannelID b = []")
  case True
  then show ?thesis using assms(2) sse_invD(2) [OF assms(1)] by (auto simp: broadcast_targets_def table_ok_def)
next
  case False
  then obtain ch k where ch: "map_of (sv_channels s) (bc_ChannelID b) = Some ch" "(k, Live n) \<in> set (ch_clients ch)"
    using assms(2) by (cases "map_of (sv_channels s) (bc_ChannelID b)") (auto simp: broadcast_targets_def)
  then have "\<exists>j. Live n = Dummy j" using sse_invD(1) [OF assms(1)] map_of_SomeD [OF ch(1)] by (fastforce simp: talk_ok_def)
  then show ?thesis by simp
qed

lemma drop_at_in: "x \<in> set (drop_at i xs) \<Longrightarrow> x \<in> set xs"
  using set_drop_at by fastforce

lemma broadcast_run_inv:
  assumes "sse_inv cfg s" and "i < length (sv_started s)"
  shows "sse_inv cfg (hub_handleBroadcast (sv_started s ! i) (s\<lparr>sv_started := drop_at i (sv_started s)\<rparr>))"
proof -
  let ?b = "sv_started s ! i" and ?s = "s\<lparr>sv_started := drop_at i (sv_started s)\<rparr>"
  have i: "sse_inv cfg ?s"
    by (rule server_step [OF assms(1)]) (use sse_invD [OF assms(1)] in \<open>auto simp: talk_ok_def dest: drop_at_in\<close>)
  have b: "\<exists>k x t. bc_Message ?b = ChannelMessage (bc_ChannelID ?b) k x t"
    using sse_invD(1) [OF assms(1)] nth_mem [OF assms(2)] by (simp add: talk_ok_def)
  have "talk_ok (hub_handleBroadcast ?b ?s)"
    using sse_invD(1) [OF i] targets_ok [OF i, of _ ?b] b by (auto simp: talk_ok_def hub_handleBroadcast_def open_message_def)
  then show ?thesis
    by (intro server_step [OF i]) (use sse_invD(7) [OF i] in \<open>simp_all add: hub_handleBroadcast_def\<close>)
qed

lemma deliver_inv:
  assumes "sse_inv cfg s" and "i < length (sv_sends s)"
  shows "sse_inv cfg (fst (trySend (fst (sv_sends s ! i)) (snd (sv_sends s ! i)) (s\<lparr>sv_sends := drop_at i (sv_sends s)\<rparr>)))"
proof (rule trySend_inv)
  show "sse_inv cfg (s\<lparr>sv_sends := drop_at i (sv_sends s)\<rparr>)"
    by (rule server_step [OF assms(1)]) (use sse_invD [OF assms(1)] in \<open>auto simp: talk_ok_def dest: drop_at_in\<close>)
qed (use sse_invD(1) [OF assms(1)] nth_mem [OF assms(2)] in \<open>auto simp: talk_ok_def split: client_ref.split\<close>)

lemma join_inv:
  assumes "sse_inv cfg s"
  shows "sse_inv cfg (handleJoinChannel k m now s)"
proof -
  have "talk_ok (handleJoinChannel k m now s)"
    using sse_invD(1) [OF assms]
    by (auto simp: talk_ok_def handleJoinChannel_def Let_def dest!: set_AList_update map_of_SomeD split: option.splits) fastforce+
  then show ?thesis
    by (intro server_step [OF assms]) (use sse_invD(7) [OF assms] in \<open>simp_all add: handleJoinChannel_def Let_def\<close>)
qed

lemma leave_inv:
  assumes "sse_inv cfg s"
  shows "sse_inv cfg (handleLeaveChannel k m now s)"
proof (cases "map_of (sv_channels s) (string_or_empty (ar_channel m))")
  case None
  then show ?thesis using assms by (simp add: handleLeaveChannel_def Let_def)
next
  case (Some ch)
  have "\<forall>q \<in> set (AList.delete k (ch_clients ch)). \<exists>j. snd q = Dummy j"
    using sse_invD(1) [OF assms] map_of_SomeD [OF Some] set_delete by (fastforce simp: talk_ok_def)
  then have "talk_ok (handleLeaveChannel k m now s)"
    using sse_invD(1) [OF assms] Some by (auto simp: talk_ok_def handleLeaveChannel_def Let_def dest!: set_AList_update)
  then show ?thesis
    by (intro server_step [OF assms]) (use Some sse_invD(7) [OF assms] in \<open>simp_all add: handleLeaveChannel_def Let_def\<close>)
qed

lemma api_broadcast_inv:
  assumes "sse_inv cfg s"
  shows "sse_inv cfg (handleBroadcast k m now s)"
  by (rule server_step [OF assms]) (use sse_invD [OF assms] in \<open>auto simp: handleBroadcast_def Let_def talk_ok_def\<close>)

lemma direct_inv:
  assumes "sse_inv cfg s"
  shows "sse_inv cfg (handleDirectMessage k m now s)"
  using assms map_of_clients [OF assms] trySend_inv [OF assms, of _ "Live _"]
  by (auto simp: handleDirectMessage_def open_message_def split: option.splits)

lemma send_message_inv:
  assumes "sse_inv cfg s"
  shows "sse_inv cfg (fst (handleSendMessage call now s))"
proof -
  have i: "sse_inv cfg (s\<lparr>sv_totalMessages := sv_totalMessages s + 1\<rparr>)"
    by (rule server_step [OF assms]) (use sse_invD [OF assms] in \<open>simp_all add: talk_ok_def\<close>)
  show ?thesis
    using assms i join_inv [OF i] leave_inv [OF i] api_broadcast_inv [OF i] direct_inv [OF i] trySend_inv [OF i]
    by (auto simp: handleSendMessage_def route_def handlePing_def Let_def split: api_call.split option.split)
qed

lemma cleanup_inv:
  assumes "sse_inv cfg s"
  shows "performCleanup now s = Some s' \<Longrightarrow> sse_inv cfg s'" and "cleanup_send s = Some s' \<Longrightarrow> sse_inv cfg s'"
proof -
  assume "performCleanup now s = Some s'"
  then have s': "s' = s\<lparr>sv_stale := stale_clients now s\<rparr>" by (auto simp: performCleanup_def split: if_splits)
  show "sse_inv cfg s'"
    by (rule server_step [OF assms])
      (use sse_invD [OF assms] in \<open>auto simp: s' talk_ok_def stale_clients_def table_ok_def\<close>)
next
  assume "cleanup_send s = Some s'"
  then obtain n rest where st: "sv_stale s = n # rest"
    and s': "s' = s\<lparr>sv_stale := rest, sv_unregister := sv_unregister s @ [n]\<rparr>"
    by (auto simp: cleanup_send_def split: list.splits if_splits)
  show "sse_inv cfg s'"
    by (rule server_step [OF assms]) (use sse_invD [OF assms] st in \<open>auto simp: s' talk_ok_def\<close>)
qed

lemma hub_next_inv:
  assumes "sse_inv cfg s" and "hub_next e s = Some s'"
  shows "sse_inv cfg s'"
proof -
  have un: "sse_inv cfg (s\<lparr>sv_unregister := rest\<rparr>)" if "sv_unregister s = n # rest" for n rest
    by (rule server_step [OF assms(1)]) (use sse_invD [OF assms(1)] that in \<open>simp_all add: talk_ok_def\<close>)
  have "sse_inv cfg (unregister_begin n (s\<lparr>sv_unregister := rest\<rparr>))"
    if "sv_unregister s = n # rest" "sv_hub s = HubWaits" for n rest
    by (rule hub_unregister_inv [OF un [OF that(1)]]) (use that sse_invD(7) [OF assms(1)] in simp_all)
  then show ?thesis
    using assms(2) hub_register_inv [OF assms(1)] broadcast_start_inv [OF assms(1)] hub_mark_inv [OF assms(1)] hub_close_inv [OF assms(1)]
    by (auto simp: hub_next_def split: hub_phase.splits sse_event.splits list.splits)
qed

lemma client_end_inv:
  assumes "sse_inv cfg s" and "n < length (sv_conn s)"
  shows "sse_inv cfg (on_conn n cancel_client s)" and "sendLoop_end n s = Some s' \<Longrightarrow> sse_inv cfg s'"
    and "heartbeat_end n s = Some s' \<Longrightarrow> sse_inv cfg s'"
  by (auto simp: sendLoop_end_def heartbeat_end_def Let_def cancel_client_def split: if_splits intro!: client_only_inv [OF assms])

lemma sse_step_inv:
  assumes "sse_inv cfg s" and "sse_step s e = Some s'"
  shows "sse_inv cfg s'"
  using assms
  by (cases e)
    (auto simp: at_conn_def split: if_splits
      intro: handle_connection_inv send_register_inv send_welcome_inv leave_stream_inv sendLoop_inv heartbeat_inv
        broadcast_run_inv deliver_inv send_message_inv cleanup_inv hub_next_inv client_end_inv)

interpretation sse_runs: step_invariant sse_step NewMassiveConnectionServer sse_inv "\<lambda>_. True"
proof unfold_locales
  show "sse_inv c (NewMassiveConnectionServer c)" for c
    by (simp add: inv_parts hub_ok_def NewMassiveConnectionServer_def)
qed (rule sse_step_inv)

section \<open>Properties\<close>

text \<open>
  C5. Under any interleaving of requests, hub, broadcasts and clean-up no send meets a closed queue
  and no queue is closed twice; each queue keeps its bound and hands out, in order, what it accepted.
\<close>

theorem sse_queues_safe:
  assumes "run_steps sse_step (NewMassiveConnectionServer cfg) es = Some s" and "n < length (sv_conn s)"
    and "b = cl_box (sv_conn s ! n)"
  shows "\<not> sv_panicked s \<and> (ob_sealed b \<longrightarrow> ob_closed b) \<and> ob_taken b @ ob_queue b = ob_accepted b \<and>
    length (ob_queue b) \<le> sc_MessageQueueSize cfg"
proof -
  have i: "sse_inv cfg s" by (rule sse_runs.inv_run [OF TrueI assms(1)])
  show ?thesis using sse_invD(6) [OF i] client_okD [OF i assms(2)] assms(3) by (simp add: client_ok_def outbox_ok_def)
qed

text \<open>
  Every connection is at exactly one stage between its creation and its end, and the connection
  counter is the number of registered clients, with the one the hub is removing; the peak bounds it.
\<close>

theorem sse_connections_counted:
  assumes "run_steps sse_step (NewMassiveConnectionServer cfg) es = Some s"
  shows "list_all (\<lambda>n. stages s n = 1) [0 ..< length (sv_conn s)] \<and> sv_totalConnections s = int (length (sv_conn s)) \<and>
    sv_activeConnections s = int (length (sv_clients s)) + of_bool (sv_hub s \<noteq> HubWaits) \<and>
    sv_activeConnections s \<le> sv_peakConnections s"
proof -
  have i: "sse_inv cfg s" by (rule sse_runs.inv_run [OF TrueI assms])
  show ?thesis using one_stage [OF i] sse_invD(3,4) [OF i] by (simp add: list_all_iff conns_ok_def active_ok_def)
qed

text \<open>
  A broadcast to the whole server is sent to every registered client but the excluded one, and a
  registered client whose queue has room accepts it.
\<close>

theorem broadcast_reaches_registered:
  assumes "run_steps sse_step (NewMassiveConnectionServer cfg) es = Some s" and "(k, n) \<in> set (sv_clients s)"
    and "bc_ChannelID b = []" and "k \<noteq> bc_ExcludeClient b"
    and "length (ob_queue (cl_box (sv_conn s ! n))) < sc_MessageQueueSize cfg"
  shows "(Live n, bc_Message b) \<in> set (sv_sends (hub_handleBroadcast b s)) \<and>
    snd (trySend (Live n) (bc_Message b) s) = Sent \<and>
    ob_accepted (cl_box (sv_conn (fst (trySend (Live n) (bc_Message b) s)) ! n)) =
      ob_accepted (cl_box (sv_conn s ! n)) @ [bc_Message b]"
proof -
  have i: "sse_inv cfg s" by (rule sse_runs.inv_run [OF TrueI assms(1)])
  have n: "n < length (sv_conn s)" using sse_invD(2) [OF i] assms(2) by (auto simp: table_ok_def)
  have "n \<in> set (map snd (sv_clients s))" using assms(2) by force
  then have "count_list (map snd (sv_clients s)) n \<noteq> 0" by (simp add: count_list_0_iff)
  then have open_box: "\<not> ob_closed (cl_box (sv_conn s ! n))"
    using one_stage [OF i n] by (auto simp: stages_def split: if_splits)
  then have sealed: "\<not> ob_sealed (cl_box (sv_conn s ! n))"
    using client_okD [OF i n] by (auto simp: client_ok_def outbox_ok_def)
  have "(k, Live n) \<in> set (filter (\<lambda>(k, r). k \<noteq> bc_ExcludeClient b) (map (\<lambda>(k, n). (k, Live n)) (sv_clients s)))"
    using assms(2,4) by force
  then have "Live n \<in> set (broadcast_targets b s)" unfolding broadcast_targets_def assms(3) by force
  then show ?thesis using open_box sealed n assms(5) sse_invD(5) [OF i]
    by (auto simp: hub_handleBroadcast_def trySend_def outbox_put_def Let_def)
qed

text \<open>
  Channels are joined only by the clients made up for HTTP calls, never by a connection: a
  broadcast to a channel has no connection among its targets, and no connection ever accepts one.
\<close>

theorem channel_messages_reach_nobody:
  assumes "run_steps sse_step (NewMassiveConnectionServer cfg) es = Some s" and "n < length (sv_conn s)"
    and "bc_ChannelID b \<noteq> []"
  shows "Live n \<notin> set (broadcast_targets b s) \<and> list_all open_message (ob_accepted (cl_box (sv_conn s ! n)))"
proof -
  have i: "sse_inv cfg s" by (rule sse_runs.inv_run [OF TrueI assms(1)])
  show ?thesis using targets_ok [OF i] assms(3) client_okD [OF i assms(2)]
    by (auto simp: client_ok_def outbox_ok_def list_all_iff)
qed

section \<open>Concrete runs\<close>

definition small_server :: ServerConfig where
  "small_server = \<lparr>sc_MaxConnections = 1, sc_MessageQueueSize = 2, sc_marshal = (\<lambda>m. ''data'')\<rparr>"

definition join_call :: api_call where
  "join_call = Call \<lparr>ar_type = Some ''join_channel'', ar_channel = Some ''news'', ar_content = None, ar_target = None\<rparr>"

definition news_call :: "string \<Rightarrow> api_call" where
  "news_call ch = Call \<lparr>ar_type = Some ''broadcast'', ar_channel = Some ch, ar_content = Some ''hello'', ar_target = None\<rparr>"

definition one_client :: "sse_event list" where
  "one_client = [SConnect 5 True, SRegister 0, SWelcome 0 6, SHubRegister]"

lemmas sse_simps = small_server_def join_call_def news_call_def one_client_def NewMassiveConnectionServer_def hub_room_def
  broadcast_room_def createSSEClient_def on_conn_def trySend_def cancel_client_def handleSSEConnection_def send_register_def
  send_welcome_def leave_stream_def sendLoop_def registerClient_def unregister_begin_def unregister_mark_def leave_channels_def
  unregister_close_def broadcast_targets_def hub_handleBroadcast_def string_or_empty_def handleJoinChannel_def handleBroadcast_def
  route_def handleSendMessage_def hub_next_def at_conn_def drop_at_def new_outbox_def outbox_put_def outbox_mark_def
  outbox_seal_def outbox_take_def Unix_def Second_def Let_def

lemma sse_queues_safe_witness:
  "\<exists>s. run_steps sse_step (NewMassiveConnectionServer small_server)
      (one_client @ [SApi (news_call []) 7, SHubBroadcast, SBroadcast 0, SDisconnect 0, SLeave 0, SHubUnregister, SHubMark,
        SHubClose, SDeliver 0]) = Some s \<and>
    sv_clients s = [] \<and> sv_sends s = [] \<and> ob_sealed (cl_box (sv_conn s ! 0)) \<and> \<not> sv_panicked s"
proof -
  obtain s where s: "run_steps sse_step (NewMassiveConnectionServer small_server)
      (one_client @ [SApi (news_call []) 7, SHubBroadcast, SBroadcast 0, SDisconnect 0, SLeave 0, SHubUnregister, SHubMark,
        SHubClose, SDeliver 0]) = Some s" "sv_clients s = []" "sv_sends s = []" "ob_sealed (cl_box (sv_conn s ! 0))"
    "length (sv_conn s) = 1"
    by (simp add: sse_simps)
  show ?thesis using s sse_queues_safe [OF s(1) _ refl, of 0] by (intro exI [of _ s]) simp
qed

lemma sse_connections_counted_witness:
  "\<exists>s. run_steps sse_step (NewMassiveConnectionServer small_server) one_client = Some s \<and> stages s 0 = 1 \<and> sv_activeConnections s = 1"
proof -
  obtain s where s: "run_steps sse_step (NewMassiveConnectionServer small_server) one_client = Some s"
    "length (sv_conn s) = 1" "sv_clients s = [(ConnID 5 1, 0)]" "sv_hub s = HubWaits"
    by (simp add: sse_simps)
  show ?thesis using s sse_connections_counted [OF s(1)] by (intro exI [of _ s]) simp
qed

lemma broadcast_reaches_registered_witness:
  "\<exists>s b. run_steps sse_step (NewMassiveConnectionServer small_server) one_client = Some s \<and>
    (Live 0, bc_Message b) \<in> set (sv_sends (hub_handleBroadcast b s)) \<and> snd (trySend (Live 0) (bc_Message b) s) = Sent"
proof -
  let ?b = "\<lparr>bc_ChannelID = [], bc_Message = Heartbeat 9, bc_ExcludeClient = ApiID 9\<rparr>"
  obtain s where s: "run_steps sse_step (NewMassiveConnectionServer small_server) one_client = Some s"
    "sv_clients s = [(ConnID 5 1, 0)]" "length (ob_queue (cl_box (sv_conn s ! 0))) = 1"
    by (simp add: sse_simps)
  show ?thesis using broadcast_reaches_registered [OF s(1), of "ConnID 5 1" 0 ?b] s
    by (intro exI [of _ s] exI [of _ ?b]) (simp add: small_server_def)
qed

lemma channel_messages_reach_nobody_witness:
  "\<exists>s b. run_steps sse_step (NewMassiveConnectionServer small_server)
      (one_client @ [SApi join_call 7, SApi (news_call ''news'') 8, SHubBroadcast]) = Some s \<and>
    sv_channelCount s = 1 \<and> sv_started s = [b] \<and> bc_ChannelID b = ''news'' \<and> Live 0 \<notin> set (broadcast_targets b s)"
proof -
  obtain s b where s: "run_steps sse_step (NewMassiveConnectionServer small_server)
      (one_client @ [SApi join_call 7, SApi (news_call ''news'') 8, SHubBroadcast]) = Some s"
    "sv_channelCount s = 1" "sv_started s = [b]" "bc_ChannelID b = ''news''" "length (sv_conn s) = 1"
    by (simp add: sse_simps)
  show ?thesis using s channel_messages_reach_nobody [OF s(1), of 0 b] by (intro exI [of _ s] exI [of _ b]) simp
qed

text \<open>
  The limit on connections is checked against a counter that only the hub moves: two requests
  that arrive before the hub has registered the first are both let in with a limit of one.
\<close>

theorem connection_limit_exceeded:
  "case run_steps sse_step (NewMassiveConnectionServer small_server)
      [SConnect 5 True, SConnect 6 True, SRegister 0, SRegister 1, SHubRegister, SHubRegister] of
     None \<Rightarrow> False
   | Some s \<Rightarrow> sc_MaxConnections small_server = 1 \<and> sv_activeConnections s = 2 \<and> sv_errorCount s = 0"
  by (simp add: sse_simps)

text \<open>
  Registration and removal travel through different channels: when the hub takes the removal
  first, it finds nothing to remove and then registers a connection whose request has returned.
\<close>

theorem ghost_connection:
  "case run_steps sse_step (NewMassiveConnectionServer small_server)
      [SConnect 5 True, SRegister 0, SWelcome 0 6, SDisconnect 0, SLeave 0, SHubUnregister, SHubRegister] of
     None \<Rightarrow> False
   | Some s \<Rightarrow> cl_handler (sv_conn s ! 0) = HReturned \<and> sv_clients s = [(ConnID 5 1, 0)] \<and> sv_activeConnections s = 1 \<and>
       sv_unregister s = []"
  by (simp add: sse_simps)

end
