(* ===== verification/WebSocketHub.thy ===== *)
theory WebSocketHub
  imports Outbox
begin

text \<open>
  The WebSocket handler of chapter 4, \<^verbatim>\<open>02_websocket_handler/websocket_handler.go\<close>: connections with a
  receiving and a sending goroutine, channels with members and a history, workers that process a queue
  of messages, a broadcaster, heartbeats, and the ways a connection is closed.

  Every goroutine takes its sections between waits as steps of its own; a send to a connection is one
  step, under the lock it holds.  A connection is an index of \<open>wh_conns\<close>, an identifier a string that
  no earlier connection had (the code draws a random number and the clock).  Message identifiers,
  times and descriptions are not looked at by the code and left out; a message that is no JSON is \<open>None\<close>.
  \<open>wc_life\<close> is the flag \<^verbatim>\<open>IsActive\<close> together with how far \<^verbatim>\<open>closeConnection\<close> has got.
\<close>

section \<open>Data\<close>

datatype MessageType = TJoin | TLeave | TChat | TBroadcast | TPrivate | THeartbeat | TError | TSystem | TOther string

record WebSocketMessage =
  wm_Type :: MessageType
  wm_channel :: "string option"
  wm_text :: string
  wm_From :: string
  wm_To :: string

datatype conn_life = Active | Removing | Leaving | Sealing | Closed

record WebSocketConnection =
  wc_ID :: string
  wc_Channels :: "string list"
  wc_box :: "WebSocketMessage outbox"
  wc_life :: conn_life
  wc_LastHeartbeat :: time
  wc_SendBuffer :: "WebSocketMessage list"
  wc_RecvBuffer :: "WebSocketMessage option list"
  wc_sender :: bool
  wc_receiver :: bool

record HandlerConfig =
  hc_WorkerCount :: nat
  hc_MessageBufferSize :: nat
  hc_SendBufferSize :: nat
  hc_ConnectionTimeout :: duration
  hc_MaxChannelHistory :: nat

definition NewHandlerConfig :: HandlerConfig where
  "NewHandlerConfig = \<lparr>hc_WorkerCount = 4, hc_MessageBufferSize = 10000, hc_SendBufferSize = 1000,
     hc_ConnectionTimeout = 60 * Second, hc_MaxChannelHistory = 100\<rparr>"

record ws_channel =
  wn_Members :: "(string \<times> nat) list"
  wn_History :: "WebSocketMessage list"

text \<open>
  A worker: waiting, with a message, or sending one to the connections still to be served, with what
  follows the last send.
\<close>

datatype after_send = AfterChat string | AfterPrivate | AfterError

datatype worker_phase = WIdle | WHas WebSocketMessage | WSends "nat list" WebSocketMessage after_send | WReturned

record MessageWorker =
  wk_phase :: worker_phase
  wk_ProcessedMessages :: int
  wk_SuccessfulMessages :: int
  wk_ErrorMessages :: int

datatype broadcaster = BWaits | BSends "nat list" WebSocketMessage | BReturned

datatype close_request = IfListed string | Direct nat

record ws_handler =
  wh_config :: HandlerConfig
  wh_running :: bool
  wh_ended :: bool
  wh_conns :: "WebSocketConnection list"
  wh_connections :: "(string \<times> nat) list"
  wh_channels :: "(string \<times> ws_channel) list"
  wh_messageQueue :: "WebSocketMessage list"
  wh_broadcastQueue :: "WebSocketMessage list"
  wh_workers :: "MessageWorker list"
  wh_broadcaster :: broadcaster
  wh_toClose :: "close_request list"
  wh_totalConnections :: int
  wh_activeConnections :: int
  wh_totalMessages :: int
  wh_broadcastMessages :: int
  wh_privateMessages :: int
  wh_errorMessages :: int
  wh_channelCount :: int
  wh_panicked :: bool

definition createChannel :: "string \<Rightarrow> ws_handler \<Rightarrow> ws_handler" where
  "createChannel name s = s\<lparr>wh_channels := AList.update name \<lparr>wn_Members = [], wn_History = []\<rparr> (wh_channels s),
     wh_channelCount := wh_channelCount s + 1\<rparr>"

definition NewWebSocketHandler :: "HandlerConfig \<Rightarrow> ws_handler" where
  "NewWebSocketHandler cfg = createChannel ''general''
     \<lparr>wh_config = cfg, wh_running = False, wh_ended = False, wh_conns = [], wh_connections = [], wh_channels = [],
      wh_messageQueue = [], wh_broadcastQueue = [],
      wh_workers = replicate (hc_WorkerCount cfg)
        \<lparr>wk_phase = WReturned, wk_ProcessedMessages = 0, wk_SuccessfulMessages = 0, wk_ErrorMessages = 0\<rparr>,
      wh_broadcaster = BReturned, wh_toClose = [], wh_totalConnections = 0, wh_activeConnections = 0, wh_totalMessages = 0,
      wh_broadcastMessages = 0, wh_privateMessages = 0, wh_errorMessages = 0, wh_channelCount = 0, wh_panicked = False\<rparr>"

text \<open>A second start of a handler that was shut down starts goroutines that end at once; it is left out.\<close>

definition Start_ws :: "ws_handler \<Rightarrow> ws_handler" where
  "Start_ws s = (if wh_running s \<or> wh_ended s then s
     else s\<lparr>wh_running := True, wh_workers := map (\<lambda>k. k\<lparr>wk_phase := WIdle\<rparr>) (wh_workers s), wh_broadcaster := BWaits\<rparr>)"

section \<open>Sending\<close>

definition on_ws :: "nat \<Rightarrow> (WebSocketConnection \<Rightarrow> WebSocketConnection) \<Rightarrow> ws_handler \<Rightarrow> ws_handler" where
  "on_ws n f s = s\<lparr>wh_conns := (wh_conns s)[n := f (wh_conns s ! n)]\<rparr>"

definition on_worker :: "nat \<Rightarrow> (MessageWorker \<Rightarrow> MessageWorker) \<Rightarrow> ws_handler \<Rightarrow> ws_handler" where
  "on_worker w f s = s\<lparr>wh_workers := (wh_workers s)[w := f (wh_workers s ! w)]\<rparr>"

definition set_phase :: "nat \<Rightarrow> worker_phase \<Rightarrow> ws_handler \<Rightarrow> ws_handler" where
  "set_phase w p s = on_worker w (\<lambda>k. k\<lparr>wk_phase := p\<rparr>) s"

definition count_success :: "nat \<Rightarrow> ws_handler \<Rightarrow> ws_handler" where
  "count_success w s = on_worker w (\<lambda>k. k\<lparr>wk_SuccessfulMessages := wk_SuccessfulMessages k + 1\<rparr>) s"

text \<open>
  \<^verbatim>\<open>trySend\<close> waits for room; \<open>gives_up\<close> says that its timeout or the end of the handler comes first.
  With no room left it can only give up.
\<close>

definition ws_trySend :: "bool \<Rightarrow> nat \<Rightarrow> WebSocketMessage \<Rightarrow> ws_handler \<Rightarrow> ws_handler \<times> put_answer" where
  "ws_trySend gives_up n m s =
    (let c = wh_conns s ! n;
         (b, a) = (if gives_up \<and> \<not> ob_closed (wc_box c) \<and> \<not> ob_sealed (wc_box c) then (wc_box c, SendFull)
                   else outbox_put (hc_SendBufferSize (wh_config s)) m (wc_box c))
     in ((on_ws n (\<lambda>c. c\<lparr>wc_box := b\<rparr>) s)\<lparr>wh_panicked := wh_panicked s \<or> a = SendPanics\<rparr>, a))"

definition message_room :: "ws_handler \<Rightarrow> bool" where
  "message_room s \<longleftrightarrow> length (wh_messageQueue s) < hc_MessageBufferSize (wh_config s)"

text \<open>
  \<^verbatim>\<open>sendMessage\<close> puts a reply into the queue the workers read from; \<open>lost\<close> says that the end of the
  handler is noticed first.
\<close>

definition sendMessage :: "bool \<Rightarrow> WebSocketMessage \<Rightarrow> ws_handler \<Rightarrow> ws_handler" where
  "sendMessage lost m s =
     (if message_room s \<and> \<not> (lost \<and> wh_ended s) then s\<lparr>wh_messageQueue := wh_messageQueue s @ [m]\<rparr> else s)"

definition reply :: "MessageType \<Rightarrow> string \<Rightarrow> string option \<Rightarrow> string \<Rightarrow> WebSocketMessage" where
  "reply ty text ch to = \<lparr>wm_Type = ty, wm_channel = ch, wm_text = text, wm_From = [], wm_To = to\<rparr>"

definition sendErrorMessage :: "nat \<Rightarrow> string \<Rightarrow> string \<Rightarrow> ws_handler \<Rightarrow> ws_handler" where
  "sendErrorMessage w to text s =
     (case map_of (wh_connections s) to of
        None \<Rightarrow> set_phase w WIdle (s\<lparr>wh_errorMessages := wh_errorMessages s + 1\<rparr>)
      | Some n \<Rightarrow> set_phase w (WSends [n] (reply TError text None to) AfterError) s)"

section \<open>Channels\<close>

definition joinChannel :: "string \<Rightarrow> string \<Rightarrow> ws_handler \<Rightarrow> ws_handler \<times> bool" where
  "joinChannel cid name s =
     (case map_of (wh_connections s) cid of
        None \<Rightarrow> (s, False)
      | Some n \<Rightarrow>
          (let s1 = (if map_of (wh_channels s) name = None then createChannel name s else s);
               ch = the (map_of (wh_channels s1) name);
               s2 = s1\<lparr>wh_channels := AList.update name (ch\<lparr>wn_Members := AList.update cid n (wn_Members ch)\<rparr>) (wh_channels s1)\<rparr>
           in (on_ws n (\<lambda>c. c\<lparr>wc_Channels := List.insert name (wc_Channels c)\<rparr>) s2, True)))"

definition leaveChannel :: "string \<Rightarrow> string \<Rightarrow> ws_handler \<Rightarrow> ws_handler \<times> bool" where
  "leaveChannel cid name s =
     (case map_of (wh_connections s) cid of
        None \<Rightarrow> (s, False)
      | Some n \<Rightarrow> (case map_of (wh_channels s) name of
          None \<Rightarrow> (s, False)
        | Some ch \<Rightarrow>
            (on_ws n (\<lambda>c. c\<lparr>wc_Channels := removeAll name (wc_Channels c)\<rparr>)
               (s\<lparr>wh_channels := AList.update name (ch\<lparr>wn_Members := AList.delete cid (wn_Members ch)\<rparr>) (wh_channels s)\<rparr>), True)))"

definition addToChannelHistory :: "string \<Rightarrow> WebSocketMessage \<Rightarrow> ws_handler \<Rightarrow> ws_handler" where
  "addToChannelHistory name m s =
     (case map_of (wh_channels s) name of
        None \<Rightarrow> s
      | Some ch \<Rightarrow>
          (let h = wn_History ch @ [m];
               h1 = (if hc_MaxChannelHistory (wh_config s) < length h then tl h else h)
           in s\<lparr>wh_channels := AList.update name (ch\<lparr>wn_History := h1\<rparr>) (wh_channels s)\<rparr>))"

section \<open>Workers\<close>

definition handleJoinMessage :: "nat \<Rightarrow> bool \<Rightarrow> WebSocketMessage \<Rightarrow> ws_handler \<Rightarrow> ws_handler" where
  "handleJoinMessage w lost m s =
     (case wm_channel m of
        None \<Rightarrow> sendErrorMessage w (wm_From m) ''Invalid channel name'' s
      | Some name \<Rightarrow>
          (let (s1, ok) = joinChannel (wm_From m) name s
           in if \<not> ok then sendErrorMessage w (wm_From m) ''Failed to join channel'' s1
              else set_phase w WIdle (count_success w
                (sendMessage lost (reply TSystem (''Joined channel: '' @ name) (Some name) (wm_From m)) s1))))"

definition handleLeaveMessage :: "nat \<Rightarrow> bool \<Rightarrow> WebSocketMessage \<Rightarrow> ws_handler \<Rightarrow> ws_handler" where
  "handleLeaveMessage w lost m s =
     (case wm_channel m of
        None \<Rightarrow> sendErrorMessage w (wm_From m) ''Invalid channel name'' s
      | Some name \<Rightarrow>
          (let (s1, ok) = leaveChannel (wm_From m) name s
           in if \<not> ok then sendErrorMessage w (wm_From m) ''Failed to leave channel'' s1
              else set_phase w WIdle (count_success w
                (sendMessage lost (reply TSystem (''Left channel: '' @ name) (Some name) (wm_From m)) s1))))"

text \<open>The members that a chat message goes to.\<close>

definition chat_targets :: "WebSocketMessage \<Rightarrow> ws_channel \<Rightarrow> nat list" where
  "chat_targets m ch = map snd (filter (\<lambda>(cid, n). cid \<noteq> wm_From m) (wn_Members ch))"

definition handleChatMessage :: "nat \<Rightarrow> WebSocketMessage \<Rightarrow> ws_handler \<Rightarrow> ws_handler" where
  "handleChatMessage w m s =
     (case wm_channel m of
        None \<Rightarrow> sendErrorMessage w (wm_From m) ''Invalid channel name'' s
      | Some name \<Rightarrow> (case map_of (wh_channels s) name of
          None \<Rightarrow> sendErrorMessage w (wm_From m) ''Failed to send message'' s
        | Some ch \<Rightarrow> set_phase w (WSends (chat_targets m ch) m (AfterChat name)) s))"

definition handleBroadcastMessage :: "nat \<Rightarrow> bool \<Rightarrow> WebSocketMessage \<Rightarrow> ws_handler \<Rightarrow> ws_handler" where
  "handleBroadcastMessage w lost m s =
     (if lost \<and> wh_ended s then set_phase w WIdle s
      else if length (wh_broadcastQueue s) < hc_MessageBufferSize (wh_config s)
      then set_phase w WIdle (count_success w
        (s\<lparr>wh_broadcastQueue := wh_broadcastQueue s @ [m], wh_broadcastMessages := wh_broadcastMessages s + 1\<rparr>))
      else sendErrorMessage w (wm_From m) ''Broadcast queue is full''
        (on_worker w (\<lambda>k. k\<lparr>wk_ErrorMessages := wk_ErrorMessages k + 1\<rparr>) s))"

definition handlePrivateMessage :: "nat \<Rightarrow> WebSocketMessage \<Rightarrow> ws_handler \<Rightarrow> ws_handler" where
  "handlePrivateMessage w m s =
     (if wm_To m = [] then sendErrorMessage w (wm_From m) ''Target connection ID required for private message'' s
      else case map_of (wh_connections s) (wm_To m) of
        None \<Rightarrow> sendErrorMessage w (wm_From m) ''Failed to send private message'' s
      | Some n \<Rightarrow> set_phase w (WSends [n] m AfterPrivate) s)"

definition handleHeartbeatMessage :: "nat \<Rightarrow> bool \<Rightarrow> time \<Rightarrow> WebSocketMessage \<Rightarrow> ws_handler \<Rightarrow> ws_handler" where
  "handleHeartbeatMessage w lost now m s =
    (let s1 = (case map_of (wh_connections s) (wm_From m) of
                 None \<Rightarrow> s
               | Some n \<Rightarrow> sendMessage lost (reply THeartbeat ''pong'' None (wm_From m))
                   (on_ws n (\<lambda>c. c\<lparr>wc_LastHeartbeat := now\<rparr>) s))
     in set_phase w WIdle (count_success w s1))"

definition handleUnknownMessage :: "nat \<Rightarrow> WebSocketMessage \<Rightarrow> ws_handler \<Rightarrow> ws_handler" where
  "handleUnknownMessage w m s =
     sendErrorMessage w (wm_From m) ''Unknown message type'' (on_worker w (\<lambda>k. k\<lparr>wk_ErrorMessages := wk_ErrorMessages k + 1\<rparr>) s)"

definition processMessage :: "nat \<Rightarrow> bool \<Rightarrow> time \<Rightarrow> WebSocketMessage \<Rightarrow> ws_handler \<Rightarrow> ws_handler" where
  "processMessage w lost now m s =
    (let s1 = on_worker w (\<lambda>k. k\<lparr>wk_ProcessedMessages := wk_ProcessedMessages k + 1\<rparr>) s
     in case wm_Type m of
          TJoin \<Rightarrow> handleJoinMessage w lost m s1
        | TLeave \<Rightarrow> handleLeaveMessage w lost m s1
        | TChat \<Rightarrow> handleChatMessage w m s1
        | TBroadcast \<Rightarrow> handleBroadcastMessage w lost m s1
        | TPrivate \<Rightarrow> handlePrivateMessage w m s1
        | THeartbeat \<Rightarrow> handleHeartbeatMessage w lost now m s1
        | _ \<Rightarrow> handleUnknownMessage w m s1)"

text \<open>
  The next send of a worker.  In a channel a failed send is logged and skipped, unless the handler has
  ended; a failed private message is reported to its sender; a failed error message is dropped.
\<close>

definition worker_send :: "nat \<Rightarrow> bool \<Rightarrow> nat \<Rightarrow> nat list \<Rightarrow> WebSocketMessage \<Rightarrow> after_send \<Rightarrow> ws_handler \<Rightarrow> ws_handler" where
  "worker_send w gives_up n rest m next s =
    (let (s1, a) = ws_trySend gives_up n m s
     in case next of
          AfterChat name \<Rightarrow>
            (if a \<noteq> Sent \<and> wh_ended s then sendErrorMessage w (wm_From m) ''Failed to send message'' s1
             else set_phase w (WSends rest m next) s1)
        | AfterPrivate \<Rightarrow>
            (if a \<noteq> Sent then sendErrorMessage w (wm_From m) ''Failed to send private message'' s1
             else set_phase w (WSends rest m next) s1)
        | AfterError \<Rightarrow> set_phase w (WSends rest m next) s1)"

definition worker_finish :: "nat \<Rightarrow> WebSocketMessage \<Rightarrow> after_send \<Rightarrow> ws_handler \<Rightarrow> ws_handler" where
  "worker_finish w m next s =
     set_phase w WIdle
       (case next of
          AfterChat name \<Rightarrow> count_success w (addToChannelHistory name m s)
        | AfterPrivate \<Rightarrow> count_success w (s\<lparr>wh_privateMessages := wh_privateMessages s + 1\<rparr>)
        | AfterError \<Rightarrow> s\<lparr>wh_errorMessages := wh_errorMessages s + 1\<rparr>)"

section \<open>Connections\<close>

definition new_ws :: "string \<Rightarrow> time \<Rightarrow> WebSocketConnection" where
  "new_ws cid now = \<lparr>wc_ID = cid, wc_Channels = [], wc_box = new_outbox, wc_life = Active, wc_LastHeartbeat = now,
     wc_SendBuffer = [], wc_RecvBuffer = [], wc_sender = True, wc_receiver = True\<rparr>"

text \<open>The identifier has not been used and is not empty; \<open>lost\<close> as in \<open>sendMessage\<close>.\<close>

definition HandleConnection :: "string \<Rightarrow> time \<Rightarrow> bool \<Rightarrow> ws_handler \<Rightarrow> ws_handler option" where
  "HandleConnection cid now lost s =
     (if cid = [] \<or> cid \<in> set (map wc_ID (wh_conns s)) then None
      else if \<not> wh_running s then Some s
      else Some (sendMessage lost (reply TSystem ''Connected successfully'' None cid)
        (s\<lparr>wh_conns := wh_conns s @ [new_ws cid now],
           wh_connections := AList.update cid (length (wh_conns s)) (wh_connections s),
           wh_totalConnections := wh_totalConnections s + 1, wh_activeConnections := wh_activeConnections s + 1\<rparr>)))"

definition close_signal :: "nat \<Rightarrow> ws_handler \<Rightarrow> bool" where
  "close_signal n s \<longleftrightarrow> wc_life (wh_conns s ! n) = Closed"

definition handleConnectionSend :: "nat \<Rightarrow> bool \<Rightarrow> ws_handler \<Rightarrow> ws_handler option" where
  "handleConnectionSend n timeout s =
    (let c = wh_conns s ! n
     in if \<not> wc_sender c then None
        else case outbox_take (wc_box c) of
          None \<Rightarrow> None
        | Some (m, b) \<Rightarrow>
            (if timeout then Some (on_ws n (\<lambda>c. c\<lparr>wc_box := b\<rparr>) s)
             else if length (wc_SendBuffer c) < hc_SendBufferSize (wh_config s)
             then Some (on_ws n (\<lambda>c. c\<lparr>wc_box := b, wc_SendBuffer := wc_SendBuffer c @ [m]\<rparr>) s) else None))"

definition sender_end :: "nat \<Rightarrow> ws_handler \<Rightarrow> ws_handler option" where
  "sender_end n s =
    (let c = wh_conns s ! n
     in if wc_sender c \<and> (wh_ended s \<or> close_signal n s \<or> ob_sealed (wc_box c) \<and> ob_queue (wc_box c) = [])
        then Some (on_ws n (\<lambda>c. c\<lparr>wc_sender := False\<rparr>) s) else None)"

text \<open>Data from the network; the sender of a message is set to the connection it came from.\<close>

definition client_data :: "nat \<Rightarrow> WebSocketMessage option \<Rightarrow> ws_handler \<Rightarrow> ws_handler" where
  "client_data n data s =
     (if length (wc_RecvBuffer (wh_conns s ! n)) < hc_SendBufferSize (wh_config s)
      then on_ws n (\<lambda>c. c\<lparr>wc_RecvBuffer := wc_RecvBuffer c @ [data]\<rparr>) s else s)"

definition handleConnectionReceive :: "nat \<Rightarrow> ws_handler \<Rightarrow> ws_handler option" where
  "handleConnectionReceive n s =
    (let c = wh_conns s ! n
     in if \<not> wc_receiver c then None
        else case wc_RecvBuffer c of
          [] \<Rightarrow> None
        | data # rest \<Rightarrow>
            (let s1 = on_ws n (\<lambda>c. c\<lparr>wc_RecvBuffer := rest\<rparr>) s
             in Some (case data of
                  None \<Rightarrow> s1
                | Some m \<Rightarrow> if message_room s1
                    then s1\<lparr>wh_messageQueue := wh_messageQueue s1 @ [m\<lparr>wm_From := wc_ID c\<rparr>], wh_totalMessages := wh_totalMessages s1 + 1\<rparr>
                    else s1)))"

section \<open>Closing\<close>

text \<open>
  \<^verbatim>\<open>closeConnection\<close>: the flags; the table; the channels; then the send queue, the mock connection and
  the counter.
\<close>

definition close_begin :: "nat \<Rightarrow> ws_handler \<Rightarrow> ws_handler" where
  "close_begin n s =
     (if wc_life (wh_conns s ! n) = Active then on_ws n (\<lambda>c. c\<lparr>wc_life := Removing, wc_box := outbox_mark (wc_box c)\<rparr>) s else s)"

definition close_remove :: "nat \<Rightarrow> ws_handler \<Rightarrow> ws_handler" where
  "close_remove n s =
     on_ws n (\<lambda>c. c\<lparr>wc_life := Leaving\<rparr>) (s\<lparr>wh_connections := AList.delete (wc_ID (wh_conns s ! n)) (wh_connections s)\<rparr>)"

definition leave_all :: "nat \<Rightarrow> ws_handler \<Rightarrow> ws_handler" where
  "leave_all n s =
    (let c = wh_conns s ! n in fold (\<lambda>name s. fst (leaveChannel (wc_ID c) name s)) (wc_Channels c) s)"

definition close_leave :: "nat \<Rightarrow> ws_handler \<Rightarrow> ws_handler" where
  "close_leave n s = on_ws n (\<lambda>c. c\<lparr>wc_life := Sealing\<rparr>) (leave_all n s)"

definition close_seal :: "nat \<Rightarrow> ws_handler \<Rightarrow> ws_handler" where
  "close_seal n s =
    (let (b, again) = outbox_seal (wc_box (wh_conns s ! n))
     in (on_ws n (\<lambda>c. c\<lparr>wc_life := Closed, wc_box := b\<rparr>) s)
          \<lparr>wh_panicked := wh_panicked s \<or> again, wh_activeConnections := wh_activeConnections s - 1\<rparr>)"

definition close_next :: "nat \<Rightarrow> ws_handler \<Rightarrow> ws_handler option" where
  "close_next n s =
     (case wc_life (wh_conns s ! n) of
        Removing \<Rightarrow> Some (close_remove n s)
      | Leaving \<Rightarrow> Some (close_leave n s)
      | Sealing \<Rightarrow> Some (close_seal n s)
      | _ \<Rightarrow> None)"

text \<open>The receiving goroutine ends when the handler or the connection has, and closes the connection.\<close>

definition receiver_end :: "nat \<Rightarrow> ws_handler \<Rightarrow> ws_handler option" where
  "receiver_end n s =
     (if wc_receiver (wh_conns s ! n) \<and> (wh_ended s \<or> close_signal n s)
      then Some (close_begin n (on_ws n (\<lambda>c. c\<lparr>wc_receiver := False\<rparr>) s)) else None)"

definition checkHeartbeats :: "time \<Rightarrow> ws_handler \<Rightarrow> ws_handler" where
  "checkHeartbeats now s = s\<lparr>wh_toClose := wh_toClose s @ map (IfListed \<circ> fst)
     (filter (\<lambda>(cid, n). hc_ConnectionTimeout (wh_config s) < time_Sub now (wc_LastHeartbeat (wh_conns s ! n))) (wh_connections s))\<rparr>"

definition Shutdown_ws :: "ws_handler \<Rightarrow> ws_handler" where
  "Shutdown_ws s =
     (if \<not> wh_running s then s
      else s\<lparr>wh_running := False, wh_ended := True, wh_toClose := wh_toClose s @ map (Direct \<circ> snd) (wh_connections s)\<rparr>)"

definition close_requested :: "ws_handler \<Rightarrow> ws_handler option" where
  "close_requested s =
     (case wh_toClose s of
        [] \<Rightarrow> None
      | r # rest \<Rightarrow>
          (let s1 = s\<lparr>wh_toClose := rest\<rparr>
           in Some (case r of
                IfListed cid \<Rightarrow> (case map_of (wh_connections s) cid of None \<Rightarrow> s1 | Some n \<Rightarrow> close_begin n s1)
              | Direct n \<Rightarrow> close_begin n s1)))"

section \<open>Broadcasts and runs\<close>

definition broadcast_receivers :: "WebSocketMessage \<Rightarrow> ws_handler \<Rightarrow> nat list" where
  "broadcast_receivers m s = map snd (filter (\<lambda>(cid, n). cid \<noteq> wm_From m) (wh_connections s))"

definition handleBroadcasts :: "bool \<Rightarrow> ws_handler \<Rightarrow> ws_handler option" where
  "handleBroadcasts gives_up s =
     (case wh_broadcaster s of
        BWaits \<Rightarrow> (case wh_broadcastQueue s of
            [] \<Rightarrow> None
          | m # rest \<Rightarrow> Some (s\<lparr>wh_broadcastQueue := rest, wh_broadcaster := BSends (broadcast_receivers m s) m\<rparr>))
      | BSends [] m \<Rightarrow> Some (s\<lparr>wh_broadcaster := BWaits\<rparr>)
      | BSends (n # rest) m \<Rightarrow>
          (let (s1, a) = ws_trySend gives_up n m s
           in Some (s1\<lparr>wh_broadcaster := (if a \<noteq> Sent \<and> wh_ended s then BReturned else BSends rest m)\<rparr>))
      | BReturned \<Rightarrow> None)"

definition SendMessage :: "WebSocketMessage \<Rightarrow> ws_handler \<Rightarrow> ws_handler" where
  "SendMessage m s = (if wh_running s \<and> message_room s then s\<lparr>wh_messageQueue := wh_messageQueue s @ [m]\<rparr> else s)"

datatype ws_event =
  WsStart | WsConnect string time bool | WsData nat "WebSocketMessage option" | WsReceive nat | WsReceiverEnd nat
| WsSend nat bool | WsSenderEnd nat | WsClose nat | WsTake nat | WsProcess nat bool time | WsWorkerSend nat bool | WsWorkerEnd nat
| WsBroadcaster bool | WsBroadcasterEnd | WsHeartbeats time | WsCloseRequested | WsSendMessage WebSocketMessage | WsShutdown

definition at_ws :: "nat \<Rightarrow> ws_handler \<Rightarrow> ws_handler option \<Rightarrow> ws_handler option" where
  "at_ws n s r = (if n < length (wh_conns s) then r else None)"

definition run_take_ws :: "nat \<Rightarrow> ws_handler \<Rightarrow> ws_handler option" where
  "run_take_ws w s =
     (case wh_messageQueue s of [] \<Rightarrow> None | m # rest \<Rightarrow> Some (set_phase w (WHas m) (s\<lparr>wh_messageQueue := rest\<rparr>)))"

text \<open>The next section of a worker, by what it is doing.\<close>

definition worker_next :: "nat \<Rightarrow> ws_event \<Rightarrow> ws_handler \<Rightarrow> ws_handler option" where
  "worker_next w e s =
     (if \<not> w < length (wh_workers s) then None
      else case (wk_phase (wh_workers s ! w), e) of
        (WIdle, WsTake _) \<Rightarrow> run_take_ws w s
      | (WIdle, WsWorkerEnd _) \<Rightarrow> (if wh_ended s then Some (set_phase w WReturned s) else None)
      | (WHas m, WsProcess _ lost now) \<Rightarrow> Some (processMessage w lost now m s)
      | (WSends [] m next, WsWorkerSend _ gives_up) \<Rightarrow> Some (worker_finish w m next s)
      | (WSends (n # rest) m next, WsWorkerSend _ gives_up) \<Rightarrow> Some (worker_send w gives_up n rest m next s)
      | _ \<Rightarrow> None)"

fun ws_step :: "ws_handler \<Rightarrow> ws_event \<Rightarrow> ws_handler option" where
  "ws_step s WsStart = Some (Start_ws s)"
| "ws_step s (WsConnect cid now lost) = HandleConnection cid now lost s"
| "ws_step s (WsData n data) = at_ws n s (Some (client_data n data s))"
| "ws_step s (WsReceive n) = at_ws n s (handleConnectionReceive n s)"
| "ws_step s (WsReceiverEnd n) = at_ws n s (receiver_end n s)"
| "ws_step s (WsSend n timeout) = at_ws n s (handleConnectionSend n timeout s)"
| "ws_step s (WsSenderEnd n) = at_ws n s (sender_end n s)"
| "ws_step s (WsClose n) = at_ws n s (close_next n s)"
| "ws_step s (WsTake w) = worker_next w (WsTake w) s"
| "ws_step s (WsProcess w lost now) = worker_next w (WsProcess w lost now) s"
| "ws_step s (WsWorkerSend w gives_up) = worker_next w (WsWorkerSend w gives_up) s"
| "ws_step s (WsWorkerEnd w) = worker_next w (WsWorkerEnd w) s"
| "ws_step s (WsBroadcaster gives_up) = handleBroadcasts gives_up s"
| "ws_step s WsBroadcasterEnd =
     (if wh_broadcaster s = BWaits \<and> wh_ended s then Some (s\<lparr>wh_broadcaster := BReturned\<rparr>) else None)"
| "ws_step s (WsHeartbeats now) = Some (checkHeartbeats now s)"
| "ws_step s WsCloseRequested = close_requested s"
| "ws_step s (WsSendMessage m) = Some (SendMessage m s)"
| "ws_step s WsShutdown = Some (Shutdown_ws s)"

section \<open>Invariant\<close>

text \<open>What a connection may be sent: no reply of the system, and no chat or broadcast of its own.\<close>

definition deliverable :: "string \<Rightarrow> WebSocketMessage \<Rightarrow> bool" where
  "deliverable cid m = (case wm_Type m of
     TChat \<Rightarrow> wm_From m \<noteq> cid | TBroadcast \<Rightarrow> wm_From m \<noteq> cid | TPrivate \<Rightarrow> True | TError \<Rightarrow> True | _ \<Rightarrow> False)"

definition ws_conn_ok :: "HandlerConfig \<Rightarrow> WebSocketConnection \<Rightarrow> bool" where
  "ws_conn_ok cfg c \<longleftrightarrow> outbox_ok (hc_SendBufferSize cfg) (deliverable (wc_ID c)) (wc_box c) \<and>
     (ob_closed (wc_box c) \<longleftrightarrow> wc_life c \<noteq> Active) \<and> (ob_sealed (wc_box c) \<longleftrightarrow> wc_life c = Closed)"

definition ws_ids :: "ws_handler \<Rightarrow> string list" where
  "ws_ids s = map wc_ID (wh_conns s)"

definition names_conn :: "string list \<Rightarrow> string \<times> nat \<Rightarrow> bool" where
  "names_conn ids p \<longleftrightarrow> snd p < length ids \<and> ids ! snd p = fst p"

definition sends_ok :: "string list \<Rightarrow> WebSocketMessage \<Rightarrow> nat list \<Rightarrow> bool" where
  "sends_ok ids m ns \<longleftrightarrow> (\<forall>n \<in> set ns. n < length ids \<and> deliverable (ids ! n) m)"

definition phase_ok :: "string list \<Rightarrow> worker_phase \<Rightarrow> bool" where
  "phase_ok ids p = (case p of WSends ns m next \<Rightarrow> sends_ok ids m ns | _ \<Rightarrow> True)"

definition caster_ok :: "string list \<Rightarrow> broadcaster \<Rightarrow> bool" where
  "caster_ok ids b = (case b of BSends ns m \<Rightarrow> sends_ok ids m ns | _ \<Rightarrow> True)"

definition channel_ok :: "HandlerConfig \<Rightarrow> string list \<Rightarrow> ws_channel \<Rightarrow> bool" where
  "channel_ok cfg ids ch \<longleftrightarrow> (\<forall>q \<in> set (wn_Members ch). names_conn ids q) \<and> length (wn_History ch) \<le> hc_MaxChannelHistory cfg"

definition ws_conns_ok :: "HandlerConfig \<Rightarrow> ws_handler \<Rightarrow> bool" where
  "ws_conns_ok cfg s \<longleftrightarrow> wh_config s = cfg \<and> \<not> wh_panicked s \<and> (\<forall>c \<in> set (wh_conns s). ws_conn_ok cfg c) \<and>
     distinct (ws_ids s) \<and> wh_totalConnections s = int (length (wh_conns s)) \<and>
     wh_activeConnections s = int (length (filter (\<lambda>c. wc_life c \<noteq> Closed) (wh_conns s)))"

definition listed :: "ws_handler \<Rightarrow> nat \<Rightarrow> bool" where
  "listed s n \<longleftrightarrow> (wc_ID (wh_conns s ! n), n) \<in> set (wh_connections s)"

definition ws_table_ok :: "ws_handler \<Rightarrow> bool" where
  "ws_table_ok s \<longleftrightarrow> (\<forall>p \<in> set (wh_connections s). names_conn (ws_ids s) p) \<and>
     (\<forall>n < length (wh_conns s). listed s n \<longleftrightarrow> wc_life (wh_conns s ! n) \<in> {Active, Removing}) \<and>
     (\<forall>r \<in> set (wh_toClose s). \<forall>n. r = Direct n \<longrightarrow> n < length (wh_conns s))"

definition ws_talk_ok :: "HandlerConfig \<Rightarrow> ws_handler \<Rightarrow> bool" where
  "ws_talk_ok cfg s \<longleftrightarrow> (\<forall>k \<in> set (wh_workers s). phase_ok (ws_ids s) (wk_phase k)) \<and>
     caster_ok (ws_ids s) (wh_broadcaster s) \<and>
     (\<forall>m \<in> set (wh_broadcastQueue s). wm_Type m = TBroadcast) \<and>
     (\<forall>p \<in> set (wh_channels s). channel_ok cfg (ws_ids s) (snd p))"

definition ws_inv :: "HandlerConfig \<Rightarrow> ws_handler \<Rightarrow> bool" where
  "ws_inv cfg s \<longleftrightarrow> ws_conns_ok cfg s \<and> ws_table_ok s \<and> ws_talk_ok cfg s"

lemma ws_invI: "ws_conns_ok cfg s \<Longrightarrow> ws_table_ok s \<Longrightarrow> ws_talk_ok cfg s \<Longrightarrow> ws_inv cfg s"
  by (simp add: ws_inv_def)

lemma ws_invD:
  assumes "ws_inv cfg s"
  shows "ws_conns_ok cfg s" and "ws_table_ok s" and "ws_talk_ok cfg s" and "wh_config s = cfg" and "\<not> wh_panicked s"
    and "n < length (wh_conns s) \<Longrightarrow> ws_conn_ok cfg (wh_conns s ! n)"
    and "map_of (wh_connections s) cid = Some n \<Longrightarrow> n < length (wh_conns s) \<and> wc_ID (wh_conns s ! n) = cid"
    and "map_of (wh_channels s) name = Some ch \<Longrightarrow> channel_ok cfg (ws_ids s) ch"
    and "w < length (wh_workers s) \<Longrightarrow> phase_ok (ws_ids s) (wk_phase (wh_workers s ! w))"
    and "\<forall>r \<in> set (wh_toClose s). \<forall>n. r = Direct n \<longrightarrow> n < length (wh_conns s)"
proof -
  show p: "ws_conns_ok cfg s" "ws_table_ok s" "ws_talk_ok cfg s" using assms by (simp_all add: ws_inv_def)
  show "wh_config s = cfg" "\<not> wh_panicked s" "n < length (wh_conns s) \<Longrightarrow> ws_conn_ok cfg (wh_conns s ! n)"
    using p(1) by (simp_all add: ws_conns_ok_def)
  show "map_of (wh_connections s) cid = Some n \<Longrightarrow> n < length (wh_conns s) \<and> wc_ID (wh_conns s ! n) = cid"
    using p(2) by (drule_tac map_of_SomeD) (fastforce simp: ws_table_ok_def names_conn_def ws_ids_def)
  show "map_of (wh_channels s) name = Some ch \<Longrightarrow> channel_ok cfg (ws_ids s) ch"
    using p(3) by (drule_tac map_of_SomeD) (fastforce simp: ws_talk_ok_def)
  show "w < length (wh_workers s) \<Longrightarrow> phase_ok (ws_ids s) (wk_phase (wh_workers s ! w))"
    using p(3) by (simp add: ws_talk_ok_def)
  show "\<forall>r \<in> set (wh_toClose s). \<forall>n. r = Direct n \<longrightarrow> n < length (wh_conns s)"
    using p(2) by (simp add: ws_table_ok_def)
qed

lemma on_ws_fields [simp]:
  "wh_conns (on_ws n f s) = (wh_conns s)[n := f (wh_conns s ! n)]" "wh_config (on_ws n f s) = wh_config s"
  "wh_connections (on_ws n f s) = wh_connections s" "wh_channels (on_ws n f s) = wh_channels s"
  "wh_messageQueue (on_ws n f s) = wh_messageQueue s" "wh_broadcastQueue (on_ws n f s) = wh_broadcastQueue s"
  "wh_workers (on_ws n f s) = wh_workers s" "wh_broadcaster (on_ws n f s) = wh_broadcaster s"
  "wh_toClose (on_ws n f s) = wh_toClose s" "wh_totalConnections (on_ws n f s) = wh_totalConnections s"
  "wh_activeConnections (on_ws n f s) = wh_activeConnections s" "wh_panicked (on_ws n f s) = wh_panicked s"
  "wh_ended (on_ws n f s) = wh_ended s"
  by (simp_all add: on_ws_def)

lemma on_worker_fields [simp]:
  "wh_conns (on_worker w g s) = wh_conns s" "wh_config (on_worker w g s) = wh_config s"
  "wh_connections (on_worker w g s) = wh_connections s" "wh_channels (on_worker w g s) = wh_channels s"
  "wh_messageQueue (on_worker w g s) = wh_messageQueue s" "wh_broadcastQueue (on_worker w g s) = wh_broadcastQueue s"
  "wh_workers (on_worker w g s) = (wh_workers s)[w := g (wh_workers s ! w)]" "wh_broadcaster (on_worker w g s) = wh_broadcaster s"
  "wh_toClose (on_worker w g s) = wh_toClose s" "wh_totalConnections (on_worker w g s) = wh_totalConnections s"
  "wh_activeConnections (on_worker w g s) = wh_activeConnections s" "wh_panicked (on_worker w g s) = wh_panicked s"
  "wh_ended (on_worker w g s) = wh_ended s"
  by (simp_all add: on_worker_def)

lemma ids_on_ws: "wc_ID (f (wh_conns s ! n)) = wc_ID (wh_conns s ! n) \<Longrightarrow> ws_ids (on_ws n f s) = ws_ids s"
  by (cases "n < length (wh_conns s)") (auto simp: ws_ids_def list_eq_iff_nth_eq nth_list_update)

text \<open>A step of a connection that keeps its place in its life.\<close>

lemma ws_client_step:
  assumes "ws_inv cfg s" and "n < length (wh_conns s)" and "c = wh_conns s ! n" and "wc_ID (f c) = wc_ID c"
    and "wc_life (f c) = wc_life c" and "ws_conn_ok cfg (f c)"
  shows "ws_inv cfg (on_ws n f s)"
proof -
  have ids: "ws_ids (on_ws n f s) = ws_ids s" using assms(3,4) by (intro ids_on_ws) simp
  have count: "length (filter (\<lambda>c. wc_life c \<noteq> Closed) ((wh_conns s)[n := f c])) =
      length (filter (\<lambda>c. wc_life c \<noteq> Closed) (wh_conns s))"
    using length_filter_update [OF assms(2), of "\<lambda>c. wc_life c \<noteq> Closed" "f c"] assms(3,5) by simp
  have "ws_conns_ok cfg (on_ws n f s)"
    using ws_invD(1) [OF assms(1)] assms(3,6) count ids by (auto simp: ws_conns_ok_def dest!: set_update_in)
  moreover have "listed (on_ws n f s) m = listed s m" for m
    using assms(3,4) by (auto simp: listed_def nth_list_update')
  then have "ws_table_ok (on_ws n f s)"
    using ws_invD(2) [OF assms(1)] assms(3,5) ids by (auto simp: ws_table_ok_def nth_list_update')
  moreover have "ws_talk_ok cfg (on_ws n f s)" using ws_invD(3) [OF assms(1)] ids by (simp add: ws_talk_ok_def)
  ultimately show ?thesis by (rule ws_invI)
qed

lemma other_client_inv:
  assumes "ws_inv cfg s" and "n < length (wh_conns s)"
    and "\<And>c. wc_ID (f c) = wc_ID c \<and> wc_box (f c) = wc_box c \<and> wc_life (f c) = wc_life c"
  shows "ws_inv cfg (on_ws n f s)"
  by (rule ws_client_step [OF assms(1,2) refl]) (use assms(3) ws_invD(6) [OF assms(1,2)] in \<open>simp_all add: ws_conn_ok_def\<close>)

text \<open>A step that leaves the connections and their table alone.\<close>

lemma ws_server_step:
  assumes "ws_inv cfg s" and "wh_conns s' = wh_conns s" and "wh_connections s' = wh_connections s" and "wh_config s' = wh_config s"
    and "wh_panicked s' = wh_panicked s" and "wh_totalConnections s' = wh_totalConnections s"
    and "wh_activeConnections s' = wh_activeConnections s"
    and "\<forall>r \<in> set (wh_toClose s'). \<forall>n. r = Direct n \<longrightarrow> n < length (wh_conns s)" and "ws_talk_ok cfg s'"
  shows "ws_inv cfg s'"
  using assms by (auto simp: ws_inv_def ws_conns_ok_def ws_table_ok_def ws_ids_def listed_def)

lemma ws_ids_cong: "wh_conns s' = wh_conns s \<Longrightarrow> ws_ids s' = ws_ids s"
  by (simp add: ws_ids_def)

lemma ws_talk_cong:
  assumes "ws_talk_ok cfg s" and "wh_conns s' = wh_conns s" and "wh_workers s' = wh_workers s"
    and "wh_broadcaster s' = wh_broadcaster s" and "wh_broadcastQueue s' = wh_broadcastQueue s" and "wh_channels s' = wh_channels s"
  shows "ws_talk_ok cfg s'"
  using assms by (simp add: ws_talk_ok_def ws_ids_def)

text \<open>Only queues, counters or requests change.\<close>

lemma ws_quiet:
  assumes "ws_inv cfg s" and "wh_conns s' = wh_conns s" and "wh_connections s' = wh_connections s" and "wh_config s' = wh_config s"
    and "wh_panicked s' = wh_panicked s" and "wh_totalConnections s' = wh_totalConnections s"
    and "wh_activeConnections s' = wh_activeConnections s" and "wh_workers s' = wh_workers s"
    and "wh_broadcaster s' = wh_broadcaster s" and "wh_broadcastQueue s' = wh_broadcastQueue s" and "wh_channels s' = wh_channels s"
    and "\<forall>r \<in> set (wh_toClose s'). \<forall>n. r = Direct n \<longrightarrow> n < length (wh_conns s)"
  shows "ws_inv cfg s'"
  by (rule ws_server_step [OF assms(1-7) assms(12) ws_talk_cong [OF ws_invD(3) [OF assms(1)] assms(2,8-11)]])

lemma sends_ok_ws:
  "sends_ok (ws_ids s) m ns \<longleftrightarrow> (\<forall>n \<in> set ns. n < length (wh_conns s) \<and> deliverable (wc_ID (wh_conns s ! n)) m)"
  by (auto simp: sends_ok_def ws_ids_def)

lemma ws_worker_step:
  assumes "ws_inv cfg s" and "w < length (wh_workers s) \<Longrightarrow> phase_ok (ws_ids s) (wk_phase (g (wh_workers s ! w)))"
  shows "ws_inv cfg (on_worker w g s)"
proof -
  have "ws_ids (on_worker w g s) = ws_ids s" by (simp add: ws_ids_def)
  moreover have "\<forall>k \<in> set ((wh_workers s)[w := g (wh_workers s ! w)]). phase_ok (ws_ids s) (wk_phase k)"
  proof (cases "w < length (wh_workers s)")
    case True
    then show ?thesis using assms(2) ws_invD(3) [OF assms(1)] by (auto simp: ws_talk_ok_def dest!: set_update_in)
  qed (use ws_invD(3) [OF assms(1)] in \<open>simp add: ws_talk_ok_def list_update_beyond\<close>)
  ultimately have "ws_talk_ok cfg (on_worker w g s)" using ws_invD(3) [OF assms(1)] by (simp add: ws_talk_ok_def)
  then show ?thesis by (intro ws_server_step [OF assms(1)]) (use ws_invD(10) [OF assms(1)] in simp_all)
qed

lemma set_phase_inv:
  assumes "ws_inv cfg s" and "phase_ok (ws_ids s) p"
  shows "ws_inv cfg (set_phase w p s)"
  unfolding set_phase_def by (rule ws_worker_step [OF assms(1)]) (simp add: assms(2))

lemma count_worker_inv:
  assumes "ws_inv cfg s" and "\<And>k. wk_phase (g k) = wk_phase k"
  shows "ws_inv cfg (on_worker w g s)"
  by (rule ws_worker_step [OF assms(1)]) (use assms(2) ws_invD(9) [OF assms(1)] in simp)

lemma ids_set_phase [simp]: "ws_ids (set_phase w p s) = ws_ids s" "ws_ids (on_worker w g s) = ws_ids s"
  by (simp_all add: set_phase_def ws_ids_def)

lemma send_error_inv:
  assumes "ws_inv cfg s"
  shows "ws_inv cfg (sendErrorMessage w to text s)"
proof (cases "map_of (wh_connections s) to")
  case None
  have "ws_inv cfg (s\<lparr>wh_errorMessages := wh_errorMessages s + 1\<rparr>)"
    by (rule ws_quiet [OF assms]) (use ws_invD(10) [OF assms] in simp_all)
  then show ?thesis using None by (simp add: sendErrorMessage_def set_phase_inv phase_ok_def)
next
  case (Some n)
  then show ?thesis using ws_invD(7) [OF assms Some]
    by (simp add: sendErrorMessage_def set_phase_inv [OF assms] phase_ok_def sends_ok_def deliverable_def reply_def ws_ids_def)
qed

lemma send_message_ws_inv:
  assumes "ws_inv cfg s"
  shows "ws_inv cfg (sendMessage lost m s)"
  by (rule ws_quiet [OF assms]) (use ws_invD(10) [OF assms] in \<open>simp_all add: sendMessage_def\<close>)

lemma try_send_ws_inv:
  assumes "ws_inv cfg s" and "n < length (wh_conns s)" and "deliverable (wc_ID (wh_conns s ! n)) m"
  shows "ws_inv cfg (fst (ws_trySend gives_up n m s))"
proof -
  let ?box = "wc_box (wh_conns s ! n)" and ?cap = "hc_SendBufferSize (wh_config s)"
  define r where "r = (if gives_up \<and> \<not> ob_closed ?box \<and> \<not> ob_sealed ?box then (?box, SendFull) else outbox_put ?cap m ?box)"
  have ok: "outbox_ok ?cap (deliverable (wc_ID (wh_conns s ! n))) ?box"
    using ws_invD(4,6) [OF assms(1)] assms(2) by (simp add: ws_conn_ok_def)
  have r: "outbox_ok ?cap (deliverable (wc_ID (wh_conns s ! n))) (fst r)" "snd r \<noteq> SendPanics"
    "ob_closed (fst r) = ob_closed ?box" "ob_sealed (fst r) = ob_sealed ?box"
    using ok outbox_put_ok [OF ok assms(3)] outbox_never_panics [OF ok] by (auto simp: r_def)
  have "fst (ws_trySend gives_up n m s) = on_ws n (\<lambda>c. c\<lparr>wc_box := fst r\<rparr>) s"
    using r(2) ws_invD(5) [OF assms(1)] by (simp add: ws_trySend_def Let_def split_beta flip: r_def)
  moreover have "ws_inv cfg (on_ws n (\<lambda>c. c\<lparr>wc_box := fst r\<rparr>) s)"
    by (rule ws_client_step [OF assms(1,2) refl])
      (use r ws_invD(4,6) [OF assms(1)] assms(2) in \<open>simp_all add: ws_conn_ok_def\<close>)
  ultimately show ?thesis by simp
qed

lemma try_send_ws_fields [simp]:
  "wh_ended (fst (ws_trySend gives_up n m s)) = wh_ended s" "ws_ids (fst (ws_trySend gives_up n m s)) = ws_ids s"
  "wh_connections (fst (ws_trySend gives_up n m s)) = wh_connections s"
  "wh_toClose (fst (ws_trySend gives_up n m s)) = wh_toClose s" "length (wh_conns (fst (ws_trySend gives_up n m s))) = length (wh_conns s)"
  by (simp_all add: ws_trySend_def Let_def split_beta ws_ids_def list_eq_iff_nth_eq nth_list_update')

text \<open>Changes of the channels.\<close>

lemma channels_inv:
  assumes "ws_inv cfg s" and "channel_ok cfg (ws_ids s) ch"
  shows "ws_inv cfg (s\<lparr>wh_channels := AList.update name ch (wh_channels s)\<rparr>)"
proof -
  have "ws_talk_ok cfg (s\<lparr>wh_channels := AList.update name ch (wh_channels s)\<rparr>)"
    using ws_invD(3) [OF assms(1)] assms(2) by (auto simp: ws_talk_ok_def ws_ids_def dest!: set_AList_update)
  then show ?thesis by (intro ws_server_step [OF assms(1)]) (use ws_invD(10) [OF assms(1)] in simp_all)
qed

lemma create_inv:
  assumes "ws_inv cfg s"
  shows "ws_inv cfg (createChannel name s)"
proof -
  let ?s = "s\<lparr>wh_channels := AList.update name \<lparr>wn_Members = [], wn_History = []\<rparr> (wh_channels s)\<rparr>"
  have i: "ws_inv cfg ?s" by (rule channels_inv [OF assms]) (simp add: channel_ok_def)
  show ?thesis by (rule ws_quiet [OF i]) (use ws_invD(10) [OF assms] in \<open>simp_all add: createChannel_def\<close>)
qed

lemma join_ws_inv:
  assumes "ws_inv cfg s"
  shows "ws_inv cfg (fst (joinChannel cid name s))"
proof (cases "map_of (wh_connections s) cid")
  case None
  then show ?thesis using assms by (simp add: joinChannel_def)
next
  case (Some n)
  define s1 where "s1 = (if map_of (wh_channels s) name = None then createChannel name s else s)"
  have s1: "ws_inv cfg s1" "wh_conns s1 = wh_conns s" "wh_connections s1 = wh_connections s"
    using assms create_inv [OF assms] by (simp_all add: s1_def createChannel_def)
  obtain ch where ch: "map_of (wh_channels s1) name = Some ch"
    by (cases "map_of (wh_channels s) name") (simp_all add: s1_def createChannel_def update_conv)
  let ?s2 = "s1\<lparr>wh_channels := AList.update name (ch\<lparr>wn_Members := AList.update cid n (wn_Members ch)\<rparr>) (wh_channels s1)\<rparr>"
  have n: "n < length (wh_conns s)" "wc_ID (wh_conns s ! n) = cid" using ws_invD(7) [OF assms Some] by simp_all
  have "ws_inv cfg ?s2"
    by (rule channels_inv [OF s1(1)])
      (use ws_invD(8) [OF s1(1) ch] n in \<open>auto simp: channel_ok_def names_conn_def ws_ids_def s1(2) dest!: set_AList_update\<close>)
  then have "ws_inv cfg (on_ws n (\<lambda>c. c\<lparr>wc_Channels := List.insert name (wc_Channels c)\<rparr>) ?s2)" by (rule other_client_inv) (simp_all add: n s1(2))
  moreover have "fst (joinChannel cid name s) = on_ws n (\<lambda>c. c\<lparr>wc_Channels := List.insert name (wc_Channels c)\<rparr>) ?s2"
    using Some ch by (simp add: joinChannel_def Let_def on_ws_def flip: s1_def)
  ultimately show ?thesis by simp
qed

lemma leave_ws_inv:
  assumes "ws_inv cfg s"
  shows "ws_inv cfg (fst (leaveChannel cid name s))"
proof (cases "map_of (wh_connections s) cid = None \<or> map_of (wh_channels s) name = None")
  case True
  then show ?thesis using assms by (auto simp: leaveChannel_def split: option.splits)
next
  case False
  then obtain n ch where f: "map_of (wh_connections s) cid = Some n" "map_of (wh_channels s) name = Some ch" by auto
  let ?s2 = "s\<lparr>wh_channels := AList.update name (ch\<lparr>wn_Members := AList.delete cid (wn_Members ch)\<rparr>) (wh_channels s)\<rparr>"
  have "ws_inv cfg ?s2"
    by (rule channels_inv [OF assms]) (use ws_invD(8) [OF assms f(2)] set_delete [of cid "wn_Members ch"] in \<open>auto simp: channel_ok_def\<close>)
  then have "ws_inv cfg (on_ws n (\<lambda>c. c\<lparr>wc_Channels := removeAll name (wc_Channels c)\<rparr>) ?s2)"
    by (rule other_client_inv) (use ws_invD(7) [OF assms f(1)] in simp_all)
  then show ?thesis using f by (simp add: leaveChannel_def on_ws_def)
qed

lemma history_inv:
  assumes "ws_inv cfg s"
  shows "ws_inv cfg (addToChannelHistory name m s)"
proof (cases "map_of (wh_channels s) name")
  case None
  then show ?thesis using assms by (simp add: addToChannelHistory_def)
next
  case (Some ch)
  define h where "h = (if hc_MaxChannelHistory (wh_config s) < length (wn_History ch @ [m]) then tl (wn_History ch @ [m])
    else wn_History ch @ [m])"
  have "length h \<le> hc_MaxChannelHistory cfg"
    using ws_invD(4) [OF assms] ws_invD(8) [OF assms Some] by (auto simp: h_def channel_ok_def)
  then have "channel_ok cfg (ws_ids s) (ch\<lparr>wn_History := h\<rparr>)" using ws_invD(8) [OF assms Some] by (simp add: channel_ok_def)
  moreover have "addToChannelHistory name m s = s\<lparr>wh_channels := AList.update name (ch\<lparr>wn_History := h\<rparr>) (wh_channels s)\<rparr>"
    using Some by (simp add: addToChannelHistory_def Let_def h_def)
  ultimately show ?thesis using channels_inv [OF assms] by simp
qed

text \<open>Workers.\<close>

lemma chat_targets_ok:
  assumes "ws_inv cfg s" and "map_of (wh_channels s) name = Some ch" and "wm_Type m = TChat"
  shows "sends_ok (ws_ids s) m (chat_targets m ch)"
  using ws_invD(8) [OF assms(1,2)] assms(3)
  by (auto simp: sends_ok_def chat_targets_def channel_ok_def names_conn_def deliverable_def)

lemma success_inv: "ws_inv cfg s \<Longrightarrow> ws_inv cfg (count_success w s)"
  unfolding count_success_def by (rule count_worker_inv) simp_all

lemma idle_inv: "ws_inv cfg s \<Longrightarrow> ws_inv cfg (set_phase w WIdle s)"
  by (rule set_phase_inv) (simp_all add: phase_ok_def)

lemmas worker_intros = send_error_inv idle_inv success_inv send_message_ws_inv count_worker_inv

lemma broadcast_queue_inv:
  assumes "ws_inv cfg s" and "wm_Type m = TBroadcast"
  shows "ws_inv cfg (s\<lparr>wh_broadcastQueue := wh_broadcastQueue s @ [m], wh_broadcastMessages := k\<rparr>)"
  by (rule ws_server_step [OF assms(1)])
    (use ws_invD(3,10) [OF assms(1)] assms(2) in \<open>auto simp: ws_talk_ok_def ws_ids_def\<close>)

lemma process_inv:
  assumes "ws_inv cfg s"
  shows "ws_inv cfg (processMessage w lost now m s)"
proof -
  define s1 where "s1 = on_worker w (\<lambda>k. k\<lparr>wk_ProcessedMessages := wk_ProcessedMessages k + 1\<rparr>) s"
  have i: "ws_inv cfg s1" unfolding s1_def by (rule count_worker_inv [OF assms]) simp
  have "ws_inv cfg (handleJoinMessage w lost m s1)"
    using join_ws_inv [OF i] send_error_inv [OF i]
    by (auto simp: handleJoinMessage_def Let_def split_beta split: option.split intro!: worker_intros)
  moreover have "ws_inv cfg (handleLeaveMessage w lost m s1)"
    using leave_ws_inv [OF i] send_error_inv [OF i]
    by (auto simp: handleLeaveMessage_def Let_def split_beta split: option.split intro!: worker_intros)
  moreover have "ws_inv cfg (handleChatMessage w m s1)" if "wm_Type m = TChat"
    using send_error_inv [OF i] chat_targets_ok [OF i _ that]
    by (auto simp: handleChatMessage_def phase_ok_def split: option.split intro!: set_phase_inv [OF i])
  moreover have "ws_inv cfg (handleBroadcastMessage w lost m s1)" if "wm_Type m = TBroadcast"
    using i broadcast_queue_inv [OF i that] by (auto simp: handleBroadcastMessage_def intro!: worker_intros)
  moreover have "ws_inv cfg (handlePrivateMessage w m s1)" if "wm_Type m = TPrivate"
    using send_error_inv [OF i] ws_invD(7) [OF i] that
    by (auto simp: handlePrivateMessage_def phase_ok_def sends_ok_def deliverable_def ws_ids_def split: option.split intro!: set_phase_inv [OF i])
  moreover have beat: "ws_inv cfg (on_ws n (\<lambda>c. c\<lparr>wc_LastHeartbeat := now\<rparr>) s1)" if "map_of (wh_connections s1) cid = Some n" for cid n
    by (rule other_client_inv [OF i]) (use ws_invD(7) [OF i] that in simp_all)
  have "ws_inv cfg (handleHeartbeatMessage w lost now m s1)"
    using i beat by (auto simp: handleHeartbeatMessage_def Let_def split: option.split intro!: worker_intros)
  moreover have "ws_inv cfg (handleUnknownMessage w m s1)"
    using i by (auto simp: handleUnknownMessage_def intro!: worker_intros)
  ultimately show ?thesis unfolding processMessage_def Let_def s1_def [symmetric] by (simp split: MessageType.split)
qed

lemma worker_send_inv:
  assumes "ws_inv cfg s" and "sends_ok (ws_ids s) m (n # rest)"
  shows "ws_inv cfg (worker_send w gives_up n rest m next s)"
proof -
  have n: "n < length (wh_conns s)" "deliverable (wc_ID (wh_conns s ! n)) m" "sends_ok (ws_ids s) m rest"
    using assms(2) by (simp_all add: sends_ok_ws)
  let ?s = "fst (ws_trySend gives_up n m s)"
  have i: "ws_inv cfg ?s" by (rule try_send_ws_inv [OF assms(1) n(1,2)])
  have "ws_inv cfg (set_phase w (WSends rest m next) ?s)" by (rule set_phase_inv [OF i]) (simp add: phase_ok_def n(3))
  then show ?thesis using send_error_inv [OF i] by (auto simp: worker_send_def Let_def split_beta split: after_send.split)
qed

lemma worker_finish_inv:
  assumes "ws_inv cfg s"
  shows "ws_inv cfg (worker_finish w m next s)"
proof -
  have p: "ws_inv cfg (s\<lparr>wh_privateMessages := x\<rparr>)" "ws_inv cfg (s\<lparr>wh_errorMessages := x\<rparr>)" for x
    by (rule ws_quiet [OF assms]; use ws_invD(10) [OF assms] in simp)+
  show ?thesis using p history_inv [OF assms] by (auto simp: worker_finish_def split: after_send.split intro!: worker_intros)
qed

lemma worker_next_inv:
  assumes "ws_inv cfg s" and "worker_next w e s = Some s'"
  shows "ws_inv cfg s'"
proof -
  have w: "w < length (wh_workers s)" using assms(2) by (auto simp: worker_next_def split: if_splits)
  have take: "ws_inv cfg (set_phase w (WHas m) (s\<lparr>wh_messageQueue := rest\<rparr>))" for m rest
    by (rule set_phase_inv, rule ws_quiet [OF assms(1)]) (use ws_invD(10) [OF assms(1)] in \<open>simp_all add: phase_ok_def\<close>)
  have done1: "ws_inv cfg (set_phase w WReturned s)" by (rule set_phase_inv [OF assms(1)]) (simp add: phase_ok_def)
  have "sends_ok (ws_ids s) m ns" if "wk_phase (wh_workers s ! w) = WSends ns m af" for ns m af
    using ws_invD(9) [OF assms(1) w] that by (simp add: phase_ok_def)
  then show ?thesis
    using assms(2) w take done1 process_inv [OF assms(1)] worker_send_inv [OF assms(1)] worker_finish_inv [OF assms(1)]
    by (auto simp: worker_next_def run_take_ws_def split: worker_phase.splits ws_event.splits list.splits if_splits)
qed

text \<open>Connections and closing.\<close>

lemma fresh_id: "ws_inv cfg s \<Longrightarrow> cid \<notin> set (map wc_ID (wh_conns s)) \<Longrightarrow> cid \<notin> fst ` set (wh_connections s)"
proof
  assume i: "ws_inv cfg s" and fresh: "cid \<notin> set (map wc_ID (wh_conns s))" and "cid \<in> fst ` set (wh_connections s)"
  then obtain p where "p \<in> set (wh_connections s)" "fst p = cid" by auto
  then have "snd p < length (ws_ids s)" "ws_ids s ! snd p = cid"
    using ws_invD(2) [OF i] by (auto simp: ws_table_ok_def names_conn_def)
  then show False using fresh nth_mem [of "snd p" "ws_ids s"] by (simp add: ws_ids_def del: set_map)
qed

lemma names_conn_append: "names_conn ids p \<Longrightarrow> names_conn (ids @ [x]) p"
  by (auto simp: names_conn_def nth_append)

lemma sends_ok_append: "sends_ok ids m ns \<Longrightarrow> sends_ok (ids @ [x]) m ns"
  by (auto simp: sends_ok_def nth_append)

lemma connect_inv:
  assumes "ws_inv cfg s" and "HandleConnection cid now lost s = Some s'"
  shows "ws_inv cfg s'"
proof (cases "wh_running s")
  case False
  then show ?thesis using assms by (auto simp: HandleConnection_def split: if_splits)
next
  case True
  let ?n = "length (wh_conns s)"
  define s1 where "s1 = s\<lparr>wh_conns := wh_conns s @ [new_ws cid now], wh_connections := AList.update cid ?n (wh_connections s),
           wh_totalConnections := wh_totalConnections s + 1, wh_activeConnections := wh_activeConnections s + 1\<rparr>"
  have cid: "cid \<notin> set (map wc_ID (wh_conns s))"
    and s': "s' = sendMessage lost (reply TSystem ''Connected successfully'' None cid) s1"
    using assms(2) True by (auto simp: HandleConnection_def s1_def split: if_splits)
  have c: "wh_connections s1 = wh_connections s @ [(cid, ?n)]" using fresh_id [OF assms(1) cid] by (simp add: s1_def update_fresh)
  have ids: "ws_ids s1 = ws_ids s @ [cid]" by (simp add: ws_ids_def s1_def new_ws_def)
  have "ws_conns_ok cfg s1"
    using ws_invD(1) [OF assms(1)] cid ids
    by (auto simp: ws_conns_ok_def s1_def ws_ids_def ws_conn_ok_def new_ws_def new_outbox_def outbox_ok_def)
  moreover have "ws_table_ok s1"
    unfolding ws_table_ok_def
  proof (intro conjI allI impI)
    show "\<forall>p \<in> set (wh_connections s1). names_conn (ws_ids s1) p"
      using ws_invD(2) [OF assms(1)] ids by (auto simp: c ws_table_ok_def names_conn_append) (simp add: names_conn_def ws_ids_def nth_append)
    show "listed s1 n \<longleftrightarrow> wc_life (wh_conns s1 ! n) \<in> {Active, Removing}" if "n < length (wh_conns s1)" for n
    proof (cases "n = ?n")
      case True
      then show ?thesis by (simp add: listed_def c) (simp add: s1_def new_ws_def)
    next
      case False
      then have n: "n < ?n" using that by (simp add: s1_def)
      then have "listed s1 n = listed s n" by (simp add: listed_def c) (simp add: s1_def nth_append)
      then show ?thesis using ws_invD(2) [OF assms(1)] n by (simp add: ws_table_ok_def) (simp add: s1_def nth_append)
    qed
    show "\<forall>r \<in> set (wh_toClose s1). \<forall>n. r = Direct n \<longrightarrow> n < length (wh_conns s1)"
      using ws_invD(10) [OF assms(1)] by (fastforce simp: s1_def)
  qed
  moreover have "ws_talk_ok cfg s1"
    using ws_invD(3) [OF assms(1)]
    unfolding ws_talk_ok_def ids
    by (auto simp: s1_def phase_ok_def caster_ok_def channel_ok_def sends_ok_append names_conn_append
        split: worker_phase.splits broadcaster.splits)
  ultimately have "ws_inv cfg s1" by (rule ws_invI)
  then show ?thesis unfolding s' by (rule send_message_ws_inv)
qed

lemma connection_io_inv:
  assumes "ws_inv cfg s" and "n < length (wh_conns s)"
  shows "ws_inv cfg (client_data n data s)" and "handleConnectionReceive n s = Some s' \<Longrightarrow> ws_inv cfg s'"
    and "sender_end n s = Some s' \<Longrightarrow> ws_inv cfg s'" and "handleConnectionSend n timeout s = Some s' \<Longrightarrow> ws_inv cfg s'"
proof -
  show "ws_inv cfg (client_data n data s)" using assms by (auto simp: client_data_def intro!: other_client_inv)
  show "sender_end n s = Some s' \<Longrightarrow> ws_inv cfg s'"
    using assms by (auto simp: sender_end_def Let_def split: if_splits intro!: other_client_inv)
next
  assume h: "handleConnectionReceive n s = Some s'"
  then obtain data rest where r: "wc_RecvBuffer (wh_conns s ! n) = data # rest"
    by (auto simp: handleConnectionReceive_def Let_def split: if_splits list.splits)
  have i: "ws_inv cfg (on_ws n (\<lambda>c. c\<lparr>wc_RecvBuffer := rest\<rparr>) s)" by (rule other_client_inv [OF assms]) simp
  have "ws_inv cfg (on_ws n (\<lambda>c. c\<lparr>wc_RecvBuffer := rest\<rparr>) s\<lparr>wh_messageQueue := q, wh_totalMessages := k\<rparr>)" for q k
    by (rule ws_quiet [OF i]) (use ws_invD(10) [OF i] in simp_all)
  then show "ws_inv cfg s'" using h r i by (auto simp: handleConnectionReceive_def Let_def split: if_splits option.splits)
next
  assume h: "handleConnectionSend n timeout s = Some s'"
  then obtain m b where t: "outbox_take (wc_box (wh_conns s ! n)) = Some (m, b)"
    by (auto simp: handleConnectionSend_def Let_def split: if_splits option.splits)
  have "ws_inv cfg (on_ws n f s)" if "\<And>c. wc_ID (f c) = wc_ID c \<and> wc_box (f c) = b \<and> wc_life (f c) = wc_life c" for f
    by (rule ws_client_step [OF assms refl])
      (use that ws_invD(6) [OF assms] outbox_take_ok [OF _ t] outbox_take_flags [OF t] in \<open>auto simp: ws_conn_ok_def\<close>)
  then show "ws_inv cfg s'" using h t by (auto simp: handleConnectionSend_def Let_def split: if_splits)
qed

text \<open>The next stage of a connection's life.\<close>

lemma life_step:
  assumes "ws_inv cfg s" and "n < length (wh_conns s)" and "c = wh_conns s ! n" and "wc_ID (f c) = wc_ID c" and "ws_conn_ok cfg (f c)"
    and "s' = (on_ws n f s)\<lparr>wh_connections := cs, wh_activeConnections := k\<rparr>"
    and "k = wh_activeConnections s + of_bool (wc_life (f c) \<noteq> Closed) - of_bool (wc_life c \<noteq> Closed)"
    and "set cs \<subseteq> set (wh_connections s)"
    and "\<And>p. p \<in> set (wh_connections s) \<Longrightarrow> snd p \<noteq> n \<Longrightarrow> p \<in> set cs"
    and "(wc_ID c, n) \<in> set cs \<longleftrightarrow> wc_life (f c) \<in> {Active, Removing}"
  shows "ws_inv cfg s'"
proof -
  have ids: "ws_ids s' = ws_ids s" using ids_on_ws [of f s n] assms(3,4) by (simp add: assms(6) ws_ids_def)
  have count: "int (length (filter (\<lambda>c. wc_life c \<noteq> Closed) ((wh_conns s)[n := f c]))) =
      int (length (filter (\<lambda>c. wc_life c \<noteq> Closed) (wh_conns s))) + of_bool (wc_life (f c) \<noteq> Closed) - of_bool (wc_life c \<noteq> Closed)"
    using length_filter_update [OF assms(2), of "\<lambda>c. wc_life c \<noteq> Closed" "f c"] assms(3) by auto
  have "ws_conns_ok cfg s'"
    using ws_invD(1) [OF assms(1)] assms(3,5,7) count ids by (auto simp: ws_conns_ok_def assms(6) dest!: set_update_in)
  moreover have "ws_table_ok s'"
    unfolding ws_table_ok_def ids
  proof (intro conjI allI impI)
    show "\<forall>p \<in> set (wh_connections s'). names_conn (ws_ids s) p"
      using ws_invD(2) [OF assms(1)] assms(8) by (auto simp: assms(6) ws_table_ok_def)
    show "listed s' m \<longleftrightarrow> wc_life (wh_conns s' ! m) \<in> {Active, Removing}" if "m < length (wh_conns s')" for m
    proof (cases "m = n")
      case True
      then show ?thesis using assms(2,3,4,10) by (simp add: listed_def assms(6))
    next
      case False
      have "listed s' m = listed s m" using False assms(8,9) by (auto simp: listed_def assms(6))
      then show ?thesis using ws_invD(2) [OF assms(1)] False that by (simp add: ws_table_ok_def assms(6))
    qed
    show "\<forall>r \<in> set (wh_toClose s'). \<forall>m. r = Direct m \<longrightarrow> m < length (wh_conns s')"
      using ws_invD(10) [OF assms(1)] by (simp add: assms(6))
  qed
  moreover have "ws_talk_ok cfg s'" using ws_invD(3) [OF assms(1)] ids by (simp add: ws_talk_ok_def assms(6))
  ultimately show ?thesis by (rule ws_invI)
qed

lemma listed_iff: "ws_inv cfg s \<Longrightarrow> n < length (wh_conns s) \<Longrightarrow> listed s n \<longleftrightarrow> wc_life (wh_conns s ! n) \<in> {Active, Removing}"
  by (simp add: ws_inv_def ws_table_ok_def)

lemma entry_of_conn:
  assumes "ws_inv cfg s" and "n < length (wh_conns s)" and "p \<in> set (wh_connections s)"
  shows "fst p = wc_ID (wh_conns s ! n) \<longleftrightarrow> snd p = n"
proof -
  have "distinct (ws_ids s)" "snd p < length (ws_ids s)" "ws_ids s ! snd p = fst p"
    using ws_invD(1,2) [OF assms(1)] assms(3) by (simp_all add: ws_conns_ok_def ws_table_ok_def names_conn_def)
  then show ?thesis using assms(2) nth_eq_iff_index_eq [of "ws_ids s" "snd p" n] by (auto simp: ws_ids_def)
qed

lemma close_begin_inv:
  assumes "ws_inv cfg s" and "n < length (wh_conns s)"
  shows "ws_inv cfg (close_begin n s)"
proof (cases "wc_life (wh_conns s ! n) = Active")
  case True
  show ?thesis
    by (rule life_step [OF assms refl, where f = "\<lambda>c. c\<lparr>wc_life := Removing, wc_box := outbox_mark (wc_box c)\<rparr>"
          and cs = "wh_connections s" and k = "wh_activeConnections s"])
      (use True listed_iff [OF assms] ws_invD(6) [OF assms] in
        \<open>simp_all add: close_begin_def on_ws_def listed_def ws_conn_ok_def outbox_mark_ok\<close>, simp_all add: outbox_mark_def)
qed (simp add: close_begin_def assms)

lemma close_remove_inv:
  assumes "ws_inv cfg s" and "n < length (wh_conns s)" and "wc_life (wh_conns s ! n) = Removing"
  shows "ws_inv cfg (close_remove n s)"
proof -
  let ?k = "wc_ID (wh_conns s ! n)"
  have e: "\<forall>p \<in> set (wh_connections s). fst p = ?k \<longleftrightarrow> snd p = n" using entry_of_conn [OF assms(1,2)] by blast
  have keep: "p \<in> set (AList.delete ?k (wh_connections s))" if "p \<in> set (wh_connections s)" "snd p \<noteq> n" for p
  proof -
    have "fst p \<noteq> ?k" using e that by blast
    then show ?thesis using that(1) by (simp add: AList.delete_eq split_beta)
  qed
  show ?thesis
  proof (rule life_step [OF assms(1,2) refl, where f = "\<lambda>c. c\<lparr>wc_life := Leaving\<rparr>"
        and cs = "AList.delete ?k (wh_connections s)" and k = "wh_activeConnections s"])
    show "set (AList.delete ?k (wh_connections s)) \<subseteq> set (wh_connections s)" by (rule set_delete)
    show "p \<in> set (AList.delete ?k (wh_connections s))" if "p \<in> set (wh_connections s)" "snd p \<noteq> n" for p
      by (rule keep [OF that])
    show "(?k, n) \<in> set (AList.delete ?k (wh_connections s)) \<longleftrightarrow>
        wc_life ((wh_conns s ! n)\<lparr>wc_life := Leaving\<rparr>) \<in> {Active, Removing}"
      by (simp add: AList.delete_eq)
  qed (use assms(3) ws_invD(6) [OF assms(1,2)] in \<open>simp_all add: close_remove_def on_ws_def ws_conn_ok_def\<close>)
qed

text \<open>A connection that has left the table cannot leave its channels: the look-up fails.\<close>

lemma not_in_table:
  assumes "ws_inv cfg s" and "n < length (wh_conns s)" and "wc_life (wh_conns s ! n) \<notin> {Active, Removing}"
  shows "map_of (wh_connections s) (wc_ID (wh_conns s ! n)) = None"
proof (rule ccontr)
  assume "map_of (wh_connections s) (wc_ID (wh_conns s ! n)) \<noteq> None"
  then obtain m where "map_of (wh_connections s) (wc_ID (wh_conns s ! n)) = Some m" by auto
  then have "(wc_ID (wh_conns s ! n), m) \<in> set (wh_connections s)" by (rule map_of_SomeD)
  then have "listed s n" using entry_of_conn [OF assms(1,2)] by (force simp: listed_def)
  then show False using listed_iff [OF assms(1,2)] assms(3) by simp
qed

lemma fold_ident: "(\<And>x. f x s = s) \<Longrightarrow> fold f xs s = s"
  by (induction xs) simp_all

lemma leave_all_nothing:
  assumes "ws_inv cfg s" and "n < length (wh_conns s)" and "wc_life (wh_conns s ! n) = Leaving"
  shows "leave_all n s = s"
  unfolding leave_all_def Let_def by (rule fold_ident) (simp add: leaveChannel_def not_in_table [OF assms(1,2)] assms(3))

lemma close_leave_inv:
  assumes "ws_inv cfg s" and "n < length (wh_conns s)" and "wc_life (wh_conns s ! n) = Leaving"
  shows "ws_inv cfg (close_leave n s)"
  by (rule life_step [OF assms(1,2) refl, where f = "\<lambda>c. c\<lparr>wc_life := Sealing\<rparr>" and cs = "wh_connections s" and k = "wh_activeConnections s"])
    (use assms(3) listed_iff [OF assms(1,2)] ws_invD(6) [OF assms(1,2)] in
      \<open>simp_all add: close_leave_def leave_all_nothing [OF assms] on_ws_def listed_def ws_conn_ok_def\<close>)

lemma close_seal_inv:
  assumes "ws_inv cfg s" and "n < length (wh_conns s)" and "wc_life (wh_conns s ! n) = Sealing"
  shows "ws_inv cfg (close_seal n s)"
proof -
  let ?c = "wh_conns s ! n"
  have ok: "ws_conn_ok cfg ?c" by (rule ws_invD(6) [OF assms(1,2)])
  then have ns: "\<not> ob_sealed (wc_box ?c)" "ob_closed (wc_box ?c)" using assms(3) by (simp_all add: ws_conn_ok_def)
  show ?thesis
    by (rule life_step [OF assms(1,2) refl, where f = "\<lambda>c. c\<lparr>wc_life := Closed, wc_box := fst (outbox_seal (wc_box ?c))\<rparr>"
          and cs = "wh_connections s" and k = "wh_activeConnections s - 1"])
      (use assms(3) ns ok listed_iff [OF assms(1,2)] ws_invD(5) [OF assms(1)] outbox_seal_ok in
        \<open>auto simp: close_seal_def on_ws_def listed_def ws_conn_ok_def Let_def split_beta outbox_seal_def\<close>)
qed

lemma close_next_inv:
  assumes "ws_inv cfg s" and "n < length (wh_conns s)" and "close_next n s = Some s'"
  shows "ws_inv cfg s'"
  using assms(3) close_remove_inv [OF assms(1,2)] close_leave_inv [OF assms(1,2)] close_seal_inv [OF assms(1,2)]
  by (auto simp: close_next_def split: conn_life.splits)

lemma receiver_end_inv:
  assumes "ws_inv cfg s" and "n < length (wh_conns s)" and "receiver_end n s = Some s'"
  shows "ws_inv cfg s'"
proof -
  have "ws_inv cfg (on_ws n (\<lambda>c. c\<lparr>wc_receiver := False\<rparr>) s)" by (rule other_client_inv [OF assms(1,2)]) simp
  then have "ws_inv cfg (close_begin n (on_ws n (\<lambda>c. c\<lparr>wc_receiver := False\<rparr>) s))" by (rule close_begin_inv) (simp add: assms(2))
  then show ?thesis using assms(3) by (auto simp: receiver_end_def split: if_splits)
qed

lemma requests_inv:
  assumes "ws_inv cfg s"
  shows "ws_inv cfg (checkHeartbeats now s)" and "ws_inv cfg (Shutdown_ws s)" and "ws_inv cfg (SendMessage m s)"
    and "close_requested s = Some s' \<Longrightarrow> ws_inv cfg s'"
proof -
  have table: "snd p < length (wh_conns s)" if "p \<in> set (wh_connections s)" for p
    using ws_invD(2) [OF assms] that by (simp add: ws_table_ok_def names_conn_def ws_ids_def)
  show "ws_inv cfg (checkHeartbeats now s)"
    by (rule ws_quiet [OF assms]) (use ws_invD(10) [OF assms] in \<open>auto simp: checkHeartbeats_def\<close>)
  show "ws_inv cfg (Shutdown_ws s)"
    by (rule ws_quiet [OF assms]) (use ws_invD(10) [OF assms] table in \<open>auto simp: Shutdown_ws_def\<close>)
  show "ws_inv cfg (SendMessage m s)"
    by (rule ws_quiet [OF assms]) (use ws_invD(10) [OF assms] in \<open>auto simp: SendMessage_def\<close>)
  assume c: "close_requested s = Some s'"
  then obtain r rest where r: "wh_toClose s = r # rest" by (auto simp: close_requested_def split: list.splits)
  have i: "ws_inv cfg (s\<lparr>wh_toClose := rest\<rparr>)" by (rule ws_quiet [OF assms]) (use ws_invD(10) [OF assms] r in simp_all)
  show "ws_inv cfg s'"
    using c r i ws_invD(7,10) [OF assms] close_begin_inv [OF i]
    by (auto simp: close_requested_def Let_def split: close_request.splits option.splits)
qed

lemma broadcasts_inv:
  assumes "ws_inv cfg s" and "handleBroadcasts gives_up s = Some s'"
  shows "ws_inv cfg s'"
proof -
  have to: "ws_inv cfg (t\<lparr>wh_broadcaster := b\<rparr>)"
    if "ws_inv cfg t" "caster_ok (ws_ids t) b" for t b
    by (rule ws_server_step [OF that(1)]) (use ws_invD(3,10) [OF that(1)] that(2) in \<open>auto simp: ws_talk_ok_def ws_ids_def\<close>)
  show ?thesis
  proof (cases "wh_broadcaster s")
    case BWaits
    then obtain m rest where q: "wh_broadcastQueue s = m # rest"
      and s': "s' = s\<lparr>wh_broadcastQueue := rest, wh_broadcaster := BSends (broadcast_receivers m s) m\<rparr>"
      using assms(2) by (auto simp: handleBroadcasts_def split: list.splits)
    have ty: "wm_Type m = TBroadcast" using ws_invD(3) [OF assms(1)] q by (simp add: ws_talk_ok_def)
    have i: "ws_inv cfg (s\<lparr>wh_broadcastQueue := rest\<rparr>)"
      by (rule ws_server_step [OF assms(1)]) (use ws_invD(3,10) [OF assms(1)] q in \<open>simp_all add: ws_talk_ok_def ws_ids_def\<close>)
    have "sends_ok (ws_ids s) m (broadcast_receivers m s)"
      using ws_invD(2) [OF assms(1)] ty
      by (auto simp: sends_ok_def broadcast_receivers_def ws_table_ok_def names_conn_def deliverable_def)
    then have "ws_inv cfg ((s\<lparr>wh_broadcastQueue := rest\<rparr>)\<lparr>wh_broadcaster := BSends (broadcast_receivers m s) m\<rparr>)"
      by (intro to [OF i]) (simp add: ws_ids_def caster_ok_def)
    then show ?thesis by (simp add: s')
  next
    case (BSends ns m)
    have ok: "sends_ok (ws_ids s) m ns" using ws_invD(3) [OF assms(1)] BSends by (simp add: ws_talk_ok_def caster_ok_def)
    show ?thesis
    proof (cases ns)
      case Nil
      then show ?thesis using assms BSends to [OF assms(1), of BWaits] by (simp add: handleBroadcasts_def caster_ok_def)
    next
      case (Cons n rest)
      have i: "ws_inv cfg (fst (ws_trySend gives_up n m s))"
        by (rule try_send_ws_inv [OF assms(1)]) (use ok Cons in \<open>simp_all add: sends_ok_ws\<close>)
      have "sends_ok (ws_ids s) m rest" using ok Cons by (simp add: sends_ok_def)
      then show ?thesis using assms(2) BSends Cons to [OF i, of BReturned] to [OF i, of "BSends rest m"]
        by (auto simp: handleBroadcasts_def caster_ok_def Let_def split_beta split: if_splits)
    qed
  qed (use assms(2) in \<open>simp add: handleBroadcasts_def\<close>)
qed

lemma start_ws_inv:
  assumes "ws_inv cfg s"
  shows "ws_inv cfg (Start_ws s)"
  by (rule ws_server_step [OF assms])
    (use ws_invD(3,10) [OF assms] in \<open>auto simp: Start_ws_def ws_talk_ok_def ws_ids_def phase_ok_def caster_ok_def\<close>)

lemma ws_step_inv:
  assumes "ws_inv cfg s" and "ws_step s e = Some s'"
  shows "ws_inv cfg s'"
proof (cases e)
  case WsBroadcasterEnd
  then have s': "s' = s\<lparr>wh_broadcaster := BReturned\<rparr>" using assms(2) by (simp split: if_splits)
  show ?thesis
    by (rule ws_server_step [OF assms(1)])
      (use ws_invD(3,10) [OF assms(1)] in \<open>simp_all add: s' ws_talk_ok_def ws_ids_def caster_ok_def\<close>)
qed (use assms in \<open>auto simp: at_ws_def split: if_splits
      intro: start_ws_inv connect_inv connection_io_inv receiver_end_inv close_next_inv worker_next_inv broadcasts_inv requests_inv\<close>)

interpretation ws_runs: step_invariant ws_step NewWebSocketHandler ws_inv "\<lambda>_. True"
proof unfold_locales
  show "ws_inv c (NewWebSocketHandler c)" for c
    unfolding NewWebSocketHandler_def
    by (rule create_inv) (simp add: ws_inv_def ws_conns_ok_def ws_table_ok_def ws_talk_ok_def ws_ids_def phase_ok_def caster_ok_def)
qed (rule ws_step_inv)

section \<open>Properties\<close>

lemma deliverable_types:
  "deliverable cid m \<Longrightarrow> wm_Type m \<in> {TChat, TBroadcast, TPrivate, TError} \<and> (wm_Type m \<in> {TChat, TBroadcast} \<longrightarrow> wm_From m \<noteq> cid)"
  by (cases "wm_Type m") (simp_all add: deliverable_def)

text \<open>
  C6. Under any interleaving no send meets a closed queue and no queue is closed twice; a queue is
  flagged exactly when its connection is no longer active, keeps its bound, and hands out in order
  what it accepted.
\<close>

theorem ws_queues_safe:
  assumes "run_steps ws_step (NewWebSocketHandler cfg) es = Some s" and "n < length (wh_conns s)"
    and "b = wc_box (wh_conns s ! n)"
  shows "\<not> wh_panicked s \<and> (ob_closed b \<longleftrightarrow> wc_life (wh_conns s ! n) \<noteq> Active) \<and>
    (ob_sealed b \<longleftrightarrow> wc_life (wh_conns s ! n) = Closed) \<and> ob_taken b @ ob_queue b = ob_accepted b \<and>
    length (ob_queue b) \<le> hc_SendBufferSize cfg"
proof -
  have i: "ws_inv cfg s" by (rule ws_runs.inv_run [OF TrueI assms(1)])
  show ?thesis using ws_invD(5) [OF i] ws_invD(6) [OF i assms(2)] assms(3) by (simp add: ws_conn_ok_def outbox_ok_def)
qed

text \<open>
  C25. The replies of the system never reach a connection: what a connection is ever sent is a chat or a
  broadcast of another sender, a private message or an error.  Welcome messages, confirmations of
  joining and leaving, and heartbeat answers go back into the workers' own queue.
\<close>

theorem replies_never_delivered:
  assumes "run_steps ws_step (NewWebSocketHandler cfg) es = Some s" and "n < length (wh_conns s)"
  shows "list_all (\<lambda>m. wm_Type m \<in> {TChat, TBroadcast, TPrivate, TError} \<and>
      (wm_Type m \<in> {TChat, TBroadcast} \<longrightarrow> wm_From m \<noteq> wc_ID (wh_conns s ! n)))
    (ob_accepted (wc_box (wh_conns s ! n)))"
proof -
  have i: "ws_inv cfg s" by (rule ws_runs.inv_run [OF TrueI assms(1)])
  show ?thesis unfolding list_all_iff
    by (intro ballI deliverable_types) (use ws_invD(6) [OF i assms(2)] in \<open>simp add: ws_conn_ok_def outbox_ok_def\<close>)
qed

text \<open>
  A connection that is being closed stays a member of its channels: it has left the table before
  it leaves them, so every attempt to leave fails and closing changes no channel.
\<close>

theorem closed_connection_stays_member:
  assumes "run_steps ws_step (NewWebSocketHandler cfg) es = Some s" and "n < length (wh_conns s)"
    and "wc_life (wh_conns s ! n) = Leaving"
  shows "leaveChannel (wc_ID (wh_conns s ! n)) name s = (s, False) \<and> leave_all n s = s \<and>
    close_next n s = Some (close_leave n s) \<and> wh_channels (close_leave n s) = wh_channels s"
proof -
  have i: "ws_inv cfg s" by (rule ws_runs.inv_run [OF TrueI assms(1)])
  have "map_of (wh_connections s) (wc_ID (wh_conns s ! n)) = None" by (rule not_in_table [OF i assms(2)]) (simp add: assms(3))
  then show ?thesis using leave_all_nothing [OF i assms(2,3)] assms(3)
    by (simp add: leaveChannel_def close_leave_def close_next_def)
qed

text \<open>
  The counter of active connections is the number of connections that are not completely closed,
  and the table holds exactly those that have not been taken out of it by closing.
\<close>

theorem ws_connections_counted:
  assumes "run_steps ws_step (NewWebSocketHandler cfg) es = Some s"
  shows "wh_activeConnections s = int (length (filter (\<lambda>c. wc_life c \<noteq> Closed) (wh_conns s))) \<and>
    wh_totalConnections s = int (length (wh_conns s)) \<and>
    list_all (\<lambda>n. listed s n = (wc_life (wh_conns s ! n) \<in> {Active, Removing})) [0 ..< length (wh_conns s)]"
proof -
  have i: "ws_inv cfg s" by (rule ws_runs.inv_run [OF TrueI assms])
  show ?thesis using ws_invD(1,2) [OF i] by (simp add: ws_conns_ok_def ws_table_ok_def list_all_iff)
qed

text \<open>
  A chat message is sent to every member of its channel but its sender, and an active member with
  room in its queue accepts it.
\<close>

theorem chat_reaches_members:
  assumes "run_steps ws_step (NewWebSocketHandler cfg) es = Some s" and "map_of (wh_channels s) name = Some ch"
    and "wm_channel m = Some name" and "(cid, n) \<in> set (wn_Members ch)" and "cid \<noteq> wm_From m"
    and "w < length (wh_workers s)" and "wc_life (wh_conns s ! n) = Active"
    and "length (ob_queue (wc_box (wh_conns s ! n))) < hc_SendBufferSize cfg"
  shows "\<exists>ns. wk_phase (wh_workers (handleChatMessage w m s) ! w) = WSends ns m (AfterChat name) \<and> n \<in> set ns \<and>
    snd (ws_trySend False n m s) = Sent \<and>
    ob_accepted (wc_box (wh_conns (fst (ws_trySend False n m s)) ! n)) = ob_accepted (wc_box (wh_conns s ! n)) @ [m]"
proof -
  have i: "ws_inv cfg s" by (rule ws_runs.inv_run [OF TrueI assms(1)])
  have n: "n < length (wh_conns s)"
    using ws_invD(8) [OF i assms(2)] assms(4) by (auto simp: channel_ok_def names_conn_def ws_ids_def)
  have "n \<in> set (chat_targets m ch)" using assms(4,5) by (force simp: chat_targets_def)
  moreover have "\<not> ob_closed (wc_box (wh_conns s ! n))" "\<not> ob_sealed (wc_box (wh_conns s ! n))"
    using ws_invD(6) [OF i n] assms(7) by (auto simp: ws_conn_ok_def)
  ultimately show ?thesis using assms(2,3,6,8) n ws_invD(4) [OF i]
    by (simp add: handleChatMessage_def set_phase_def ws_trySend_def outbox_put_def Let_def)
qed

text \<open>C99. The history of a channel never exceeds the configured number of messages.\<close>

theorem channel_history_bounded:
  assumes "run_steps ws_step (NewWebSocketHandler cfg) es = Some s" and "map_of (wh_channels s) name = Some ch"
  shows "length (wn_History ch) \<le> hc_MaxChannelHistory cfg"
proof -
  have i: "ws_inv cfg s" by (rule ws_runs.inv_run [OF TrueI assms(1)])
  show ?thesis using ws_invD(8) [OF i assms(2)] by (simp add: channel_ok_def)
qed

section \<open>Concrete runs\<close>

definition small_hub :: HandlerConfig where
  "small_hub = \<lparr>hc_WorkerCount = 1, hc_MessageBufferSize = 4, hc_SendBufferSize = 2, hc_ConnectionTimeout = 60, hc_MaxChannelHistory = 1\<rparr>"

definition from_client :: "MessageType \<Rightarrow> string \<Rightarrow> WebSocketMessage option" where
  "from_client ty text = Some \<lparr>wm_Type = ty, wm_channel = Some ''general'', wm_text = text, wm_From = [], wm_To = []\<rparr>"

text \<open>Two clients connect; the worker treats both welcome messages as unknown.\<close>

definition two_clients :: "ws_event list" where
  "two_clients = [WsStart, WsConnect ''ann'' 1 False, WsConnect ''bob'' 2 False, WsTake 0, WsProcess 0 False 3, WsTake 0, WsProcess 0 False 3]"

text \<open>A message of a client, until the worker has taken it up.\<close>

definition says :: "nat \<Rightarrow> MessageType \<Rightarrow> string \<Rightarrow> ws_event list" where
  "says n ty text = [WsData n (from_client ty text), WsReceive n, WsTake 0, WsProcess 0 False 4]"

lemmas ws_simps = small_hub_def from_client_def two_clients_def says_def NewWebSocketHandler_def createChannel_def Start_ws_def
  on_ws_def on_worker_def set_phase_def count_success_def ws_trySend_def message_room_def sendMessage_def reply_def
  sendErrorMessage_def joinChannel_def addToChannelHistory_def handleJoinMessage_def handleUnknownMessage_def
  handleChatMessage_def chat_targets_def processMessage_def worker_send_def worker_finish_def new_ws_def HandleConnection_def
  close_signal_def client_data_def handleConnectionReceive_def close_begin_def close_remove_def leave_all_def close_leave_def
  close_next_def Shutdown_ws_def close_requested_def at_ws_def run_take_ws_def worker_next_def new_outbox_def outbox_put_def
  outbox_mark_def Let_def

lemma replies_never_delivered_witness:
  "\<exists>s. run_steps ws_step (NewWebSocketHandler small_hub) (two_clients @ says 0 TJoin [] @ [WsTake 0, WsProcess 0 False 5]) = Some s \<and>
    wh_errorMessages s = 3 \<and> map_of (wh_channels s) ''general'' = Some \<lparr>wn_Members = [(''ann'', 0)], wn_History = []\<rparr> \<and>
    ob_accepted (wc_box (wh_conns s ! 0)) = []"
proof -
  obtain s where s: "run_steps ws_step (NewWebSocketHandler small_hub)
      (two_clients @ says 0 TJoin [] @ [WsTake 0, WsProcess 0 False 5]) = Some s" "wh_errorMessages s = 3"
    "map_of (wh_channels s) ''general'' = Some \<lparr>wn_Members = [(''ann'', 0)], wn_History = []\<rparr>"
    "ob_accepted (wc_box (wh_conns s ! 0)) = []" "length (wh_conns s) = 2"
    by (simp add: ws_simps)
  show ?thesis using s replies_never_delivered [OF s(1), of 0] by (intro exI [of _ s]) simp
qed

lemma ws_queues_safe_witness:
  "\<exists>s. run_steps ws_step (NewWebSocketHandler small_hub)
      (two_clients @ says 0 TJoin [] @ [WsTake 0, WsProcess 0 False 5] @ says 0 (TOther ''x'') [] @ [WsShutdown, WsCloseRequested, WsWorkerSend 0 False]) = Some s \<and>
    wc_life (wh_conns s ! 0) = Removing \<and> ob_accepted (wc_box (wh_conns s ! 0)) = [] \<and>
    ob_closed (wc_box (wh_conns s ! 0)) \<and> \<not> wh_panicked s"
proof -
  obtain s where s: "run_steps ws_step (NewWebSocketHandler small_hub)
      (two_clients @ says 0 TJoin [] @ [WsTake 0, WsProcess 0 False 5] @ says 0 (TOther ''x'') [] @ [WsShutdown, WsCloseRequested, WsWorkerSend 0 False]) = Some s"
    "wc_life (wh_conns s ! 0) = Removing" "ob_accepted (wc_box (wh_conns s ! 0)) = []" "length (wh_conns s) = 2"
    by (simp add: ws_simps)
  show ?thesis using s ws_queues_safe [OF s(1) _ refl, of 0] by (intro exI [of _ s]) simp
qed

definition leaving_run :: "ws_event list" where
  "leaving_run = two_clients @ says 1 TJoin [] @ [WsShutdown, WsCloseRequested, WsCloseRequested, WsClose 1]"

lemma closed_connection_stays_member_witness:
  "\<exists>s. run_steps ws_step (NewWebSocketHandler small_hub) leaving_run = Some s \<and>
    map_of (wh_channels (close_leave 1 s)) ''general'' = Some \<lparr>wn_Members = [(''bob'', 1)], wn_History = []\<rparr> \<and>
    leaveChannel ''bob'' ''general'' s = (s, False)"
proof -
  obtain s where s: "run_steps ws_step (NewWebSocketHandler small_hub) leaving_run = Some s"
    "map_of (wh_channels s) ''general'' = Some \<lparr>wn_Members = [(''bob'', 1)], wn_History = []\<rparr>"
    "wc_life (wh_conns s ! 1) = Leaving" "wc_ID (wh_conns s ! 1) = ''bob''" "length (wh_conns s) = 2"
    by (simp add: leaving_run_def ws_simps)
  show ?thesis using closed_connection_stays_member [OF s(1), of 1 "''general''"] s by (intro exI [of _ s]) simp
qed

lemma ws_connections_counted_witness:
  "\<exists>s. run_steps ws_step (NewWebSocketHandler small_hub) leaving_run = Some s \<and> wh_activeConnections s = 2 \<and>
    length (wh_connections s) = 1"
proof -
  obtain s where s: "run_steps ws_step (NewWebSocketHandler small_hub) leaving_run = Some s"
    "map wc_life (wh_conns s) = [Removing, Leaving]" "length (wh_connections s) = 1"
    by (simp add: leaving_run_def ws_simps)
  have "length (filter (\<lambda>c. wc_life c \<noteq> Closed) (wh_conns s)) = length (filter (\<lambda>l. l \<noteq> Closed) (map wc_life (wh_conns s)))"
    by (simp add: filter_map o_def)
  then show ?thesis using s ws_connections_counted [OF s(1)] by (intro exI [of _ s]) simp
qed

definition chat_run :: "ws_event list" where
  "chat_run = two_clients @ says 1 TJoin [] @ [WsTake 0, WsProcess 0 False 5] @ says 0 TChat ''hi'' @
     [WsWorkerSend 0 False, WsWorkerSend 0 False] @ says 0 TChat ''again'' @
     [WsWorkerSend 0 False, WsWorkerSend 0 False]"

lemma channel_history_bounded_witness:
  "\<exists>s ch. run_steps ws_step (NewWebSocketHandler small_hub) chat_run = Some s \<and>
    map_of (wh_channels s) ''general'' = Some ch \<and> map wm_text (wn_History ch) = [''again''] \<and>
    map wm_text (ob_accepted (wc_box (wh_conns s ! 1))) = [''hi'', ''again''] \<and> length (wn_History ch) \<le> 1"
proof -
  obtain s ch where s: "run_steps ws_step (NewWebSocketHandler small_hub) chat_run = Some s"
    "map_of (wh_channels s) ''general'' = Some ch" "map wm_text (wn_History ch) = [''again'']"
    "map wm_text (ob_accepted (wc_box (wh_conns s ! 1))) = [''hi'', ''again'']"
    by (simp add: chat_run_def ws_simps)
  show ?thesis using s channel_history_bounded [OF s(1,2)] by (intro exI [of _ s] exI [of _ ch]) (simp add: small_hub_def)
qed

lemma chat_reaches_members_witness:
  "\<exists>s m. run_steps ws_step (NewWebSocketHandler small_hub) (two_clients @ says 1 TJoin []) = Some s \<and>
    wk_phase (wh_workers (handleChatMessage 0 m s) ! 0) = WSends [1] m (AfterChat ''general'') \<and> snd (ws_trySend False 1 m s) = Sent"
proof -
  let ?m = "\<lparr>wm_Type = TChat, wm_channel = Some ''general'', wm_text = ''hi'', wm_From = ''ann'', wm_To = []\<rparr>"
  obtain s where s: "run_steps ws_step (NewWebSocketHandler small_hub) (two_clients @ says 1 TJoin []) = Some s"
    "map_of (wh_channels s) ''general'' = Some \<lparr>wn_Members = [(''bob'', 1)], wn_History = []\<rparr>"
    "wc_life (wh_conns s ! 1) = Active" "ob_queue (wc_box (wh_conns s ! 1)) = []" "length (wh_workers s) = 1"
    by (simp add: ws_simps)
  have "wk_phase (wh_workers (handleChatMessage 0 ?m s) ! 0) = WSends [1] ?m (AfterChat ''general'')"
    using s(2,5) by (simp add: handleChatMessage_def chat_targets_def set_phase_def on_worker_def)
  then show ?thesis using chat_reaches_members [OF s(1,2), of ?m "''bob''" 1 0] s
    by (intro exI [of _ s] exI [of _ ?m]) (simp add: small_hub_def)
qed

end
