(* ===== verification/Pipeline.thy ===== *)
theory Pipeline
  imports Prelude
begin

text \<open>
  The pipeline of chapter 3, \<^verbatim>\<open>ans_01/multi_stage_pipeline.go\<close>: stages connected by bounded channels,
  the goroutines of each stage, submission, the collector of results and a second reader of the output.

  What a stage does with an item is a function of the stage: \<open>sg_fn\<close> takes what one call observes
  (draws, clock, end of its context) and the data.  An item carries the number of its submission, which
  the code does not have; the histories \<open>ms_submitted\<close>, \<open>ms_out\<close>, \<open>ms_dropped\<close> and \<open>ms_lost\<close> are
  kept for the statements.  A start after a shutdown is left out: its goroutines find the context ended.
\<close>

section \<open>Data\<close>

datatype 'd stage_answer = Failed | NilResult | Produced 'd

record ('c, 'd) ProcessingStage =
  sg_fn :: "'c \<Rightarrow> 'd \<Rightarrow> 'd stage_answer"
  sg_WorkerCount :: nat
  sg_BufferSize :: nat

record PipelineConfig =
  pc_InputBufferSize :: nat
  pc_OutputBufferSize :: nat

definition NewPipelineConfig :: PipelineConfig where
  "NewPipelineConfig = \<lparr>pc_InputBufferSize = 1000, pc_OutputBufferSize = 1000\<rparr>"

record StageStats =
  ss_ProcessedItems :: int
  ss_SuccessItems :: int
  ss_ErrorItems :: int
  ss_TotalProcessTime :: duration
  ss_AvgProcessTime :: duration

type_synonym 'd item = "nat \<times> 'd"

datatype 'd proc_phase = PWaits | PWorks "'d item" | PSends "'d item" | PReturned

record 'd StageProcessor =
  sp_StageIndex :: nat
  sp_phase :: "'d proc_phase"
  sp_stats :: StageStats

record ('c, 'd) pipeline =
  ms_stages :: "('c, 'd) ProcessingStage list"
  ms_caps :: "nat list"
  ms_channels :: "'d item list list"
  ms_procs :: "'d StageProcessor list"
  ms_stageStats :: "StageStats list"
  ms_isRunning :: bool
  ms_ended :: bool
  ms_collector :: bool
  ms_totalInputItems :: int
  ms_totalOutputItems :: int
  ms_totalErrors :: int
  ms_submitted :: "'d list"
  ms_out :: "'d item list"
  ms_dropped :: "'d item list"
  ms_lost :: "'d item list"

definition zero_stats :: StageStats where
  "zero_stats = \<lparr>ss_ProcessedItems = 0, ss_SuccessItems = 0, ss_ErrorItems = 0, ss_TotalProcessTime = 0, ss_AvgProcessTime = 0\<rparr>"

text \<open>The capacity of a channel between stages is the buffer size of the stage before it.\<close>

definition channel_caps :: "('c, 'd) ProcessingStage list \<Rightarrow> PipelineConfig \<Rightarrow> nat list" where
  "channel_caps stages config =
     map (\<lambda>i. if i = 0 then pc_InputBufferSize config
              else if i = length stages then pc_OutputBufferSize config
              else sg_BufferSize (stages ! (i - 1))) [0 ..< length stages + 1]"

definition NewMultiStagePipeline :: "('c, 'd) ProcessingStage list \<times> PipelineConfig \<Rightarrow> ('c, 'd) pipeline" where
  "NewMultiStagePipeline sc = (case sc of (stages, config) \<Rightarrow>
     \<lparr>ms_stages = stages, ms_caps = channel_caps stages config, ms_channels = replicate (length stages + 1) [],
      ms_procs = [], ms_stageStats = replicate (length stages) zero_stats, ms_isRunning = False, ms_ended = False,
      ms_collector = False, ms_totalInputItems = 0, ms_totalOutputItems = 0, ms_totalErrors = 0,
      ms_submitted = [], ms_out = [], ms_dropped = [], ms_lost = []\<rparr>)"

definition new_procs :: "('c, 'd) ProcessingStage list \<Rightarrow> 'd StageProcessor list" where
  "new_procs stages = concat (map (\<lambda>i. replicate (sg_WorkerCount (stages ! i))
     \<lparr>sp_StageIndex = i, sp_phase = PWaits, sp_stats = zero_stats\<rparr>) [0 ..< length stages])"

definition Start_ms :: "('c, 'd) pipeline \<Rightarrow> ('c, 'd) pipeline" where
  "Start_ms s = (if ms_isRunning s \<or> ms_ended s then s
     else s\<lparr>ms_isRunning := True, ms_procs := new_procs (ms_stages s), ms_collector := True\<rparr>)"

section \<open>Operations\<close>

definition room :: "nat \<Rightarrow> ('c, 'd) pipeline \<Rightarrow> bool" where
  "room i s \<longleftrightarrow> length (ms_channels s ! i) < ms_caps s ! i"

definition push :: "nat \<Rightarrow> 'd item \<Rightarrow> ('c, 'd) pipeline \<Rightarrow> ('c, 'd) pipeline" where
  "push i x s = s\<lparr>ms_channels := (ms_channels s)[i := ms_channels s ! i @ [x]]\<rparr>"

datatype submit_answer = NotRunning | ShuttingDown | InputFull | Accepted

definition SubmitData :: "'d \<Rightarrow> ('c, 'd) pipeline \<Rightarrow> ('c, 'd) pipeline \<times> submit_answer" where
  "SubmitData d s =
     (if \<not> ms_isRunning s then (s, NotRunning)
      else if ms_ended s then (s, ShuttingDown)
      else if room 0 s
      then ((push 0 (length (ms_submitted s), d) s)
              \<lparr>ms_submitted := ms_submitted s @ [d], ms_totalInputItems := ms_totalInputItems s + 1\<rparr>, Accepted)
      else (s, InputFull))"

definition set_proc :: "nat \<Rightarrow> 'd proc_phase \<Rightarrow> ('c, 'd) pipeline \<Rightarrow> ('c, 'd) pipeline" where
  "set_proc p ph s = s\<lparr>ms_procs := (ms_procs s)[p := (ms_procs s ! p)\<lparr>sp_phase := ph\<rparr>]\<rparr>"

definition run_take_ms :: "nat \<Rightarrow> ('c, 'd) pipeline \<Rightarrow> ('c, 'd) pipeline option" where
  "run_take_ms p s =
    (let i = sp_StageIndex (ms_procs s ! p)
     in case ms_channels s ! i of
          [] \<Rightarrow> None
        | x # rest \<Rightarrow> Some (set_proc p (PWorks x) (s\<lparr>ms_channels := (ms_channels s)[i := rest]\<rparr>)))"

text \<open>A call counted in a record of statistics; the time it took is an argument.\<close>

definition count_call :: "'d stage_answer \<Rightarrow> duration \<Rightarrow> StageStats \<Rightarrow> StageStats" where
  "count_call a t st =
    (let n = ss_ProcessedItems st + 1; total = ss_TotalProcessTime st + t;
         st1 = st\<lparr>ss_ProcessedItems := n, ss_TotalProcessTime := total, ss_AvgProcessTime := go_div total n\<rparr>
     in if a = Failed then st1\<lparr>ss_ErrorItems := ss_ErrorItems st1 + 1\<rparr> else st1\<lparr>ss_SuccessItems := ss_SuccessItems st1 + 1\<rparr>)"

text \<open>A failed item, and one whose result is nil, go no further.\<close>

definition processData :: "nat \<Rightarrow> 'c \<Rightarrow> duration \<Rightarrow> 'd item \<Rightarrow> ('c, 'd) pipeline \<Rightarrow> ('c, 'd) pipeline" where
  "processData p obs t x s =
    (let i = sp_StageIndex (ms_procs s ! p);
         a = sg_fn (ms_stages s ! i) obs (snd x);
         s1 = s\<lparr>ms_procs := (ms_procs s)[p := (ms_procs s ! p)\<lparr>sp_stats := count_call a t (sp_stats (ms_procs s ! p))\<rparr>],
                ms_stageStats := (ms_stageStats s)[i := count_call a t (ms_stageStats s ! i)]\<rparr>
     in case a of
          Produced d \<Rightarrow> set_proc p (PSends (fst x, d)) s1
        | _ \<Rightarrow> set_proc p PWaits (s1\<lparr>ms_dropped := ms_dropped s @ [x]\<rparr>))"

definition run_send_ms :: "nat \<Rightarrow> 'd item \<Rightarrow> ('c, 'd) pipeline \<Rightarrow> ('c, 'd) pipeline option" where
  "run_send_ms p x s =
    (let i = sp_StageIndex (ms_procs s ! p)
     in if room (Suc i) s then Some (set_proc p PWaits (push (Suc i) x s)) else None)"

definition run_give_up_ms :: "nat \<Rightarrow> 'd item \<Rightarrow> ('c, 'd) pipeline \<Rightarrow> ('c, 'd) pipeline option" where
  "run_give_up_ms p x s =
     (if ms_ended s then Some (set_proc p PReturned (s\<lparr>ms_lost := ms_lost s @ [x]\<rparr>)) else None)"

text \<open>The next result of the output channel.\<close>

definition output_take :: "('c, 'd) pipeline \<Rightarrow> ('c, 'd) pipeline option" where
  "output_take s =
    (let n = length (ms_stages s)
     in case ms_channels s ! n of
          [] \<Rightarrow> None
        | x # rest \<Rightarrow> Some (s\<lparr>ms_channels := (ms_channels s)[n := rest], ms_out := ms_out s @ [x]\<rparr>))"

definition collectResults :: "('c, 'd) pipeline \<Rightarrow> ('c, 'd) pipeline option" where
  "collectResults s =
     (if \<not> ms_collector s then None
      else map_option (\<lambda>s1. s1\<lparr>ms_totalOutputItems := ms_totalOutputItems s1 + 1\<rparr>) (output_take s))"

text \<open>\<^verbatim>\<open>GetOutputChannel\<close> hands out the same channel, so that its reader competes with the collector.\<close>

definition GetOutputChannel :: "('c, 'd) pipeline \<Rightarrow> ('c, 'd) pipeline option" where
  "GetOutputChannel s = output_take s"

definition Shutdown_ms :: "('c, 'd) pipeline \<Rightarrow> ('c, 'd) pipeline \<times> bool" where
  "Shutdown_ms s = (if \<not> ms_isRunning s then (s, False) else (s\<lparr>ms_isRunning := False, ms_ended := True\<rparr>, True))"

datatype ('c, 'd) ms_event =
  MsStart | MsSubmit 'd | MsTake nat | MsProcess nat 'c duration | MsSend nat | MsGiveUp nat | MsExit nat
| MsCollect | MsCollectorEnd | MsRead | MsShutdown

definition at_proc :: "nat \<Rightarrow> ('c, 'd) pipeline \<Rightarrow> ('d proc_phase \<Rightarrow> ('c, 'd) pipeline option) \<Rightarrow> ('c, 'd) pipeline option" where
  "at_proc p s f = (if p < length (ms_procs s) then f (sp_phase (ms_procs s ! p)) else None)"

fun ms_step :: "('c, 'd) pipeline \<Rightarrow> ('c, 'd) ms_event \<Rightarrow> ('c, 'd) pipeline option" where
  "ms_step s MsStart = Some (Start_ms s)"
| "ms_step s (MsSubmit d) = Some (fst (SubmitData d s))"
| "ms_step s (MsTake p) = at_proc p s (\<lambda>ph. case ph of PWaits \<Rightarrow> run_take_ms p s | _ \<Rightarrow> None)"
| "ms_step s (MsProcess p obs t) = at_proc p s (\<lambda>ph. case ph of PWorks x \<Rightarrow> Some (processData p obs t x s) | _ \<Rightarrow> None)"
| "ms_step s (MsSend p) = at_proc p s (\<lambda>ph. case ph of PSends x \<Rightarrow> run_send_ms p x s | _ \<Rightarrow> None)"
| "ms_step s (MsGiveUp p) = at_proc p s (\<lambda>ph. case ph of PSends x \<Rightarrow> run_give_up_ms p x s | _ \<Rightarrow> None)"
| "ms_step s (MsExit p) = at_proc p s (\<lambda>ph. case ph of PWaits \<Rightarrow> (if ms_ended s then Some (set_proc p PReturned s) else None) | _ \<Rightarrow> None)"
| "ms_step s MsCollect = collectResults s"
| "ms_step s MsCollectorEnd = (if ms_ended s \<and> ms_collector s then Some (s\<lparr>ms_collector := False\<rparr>) else None)"
| "ms_step s MsRead = GetOutputChannel s"
| "ms_step s MsShutdown = Some (fst (Shutdown_ms s))"

section \<open>The reference: an item through the stages\<close>

text \<open>What becomes of one item that the stages handle one after the other, given what each call observes.\<close>

fun through :: "('c, 'd) ProcessingStage list \<Rightarrow> 'c list \<Rightarrow> 'd \<Rightarrow> 'd option" where
  "through [] obs d = Some d"
| "through (g # gs) [] d = None"
| "through (g # gs) (ob # obs) d = (case sg_fn g ob d of Produced d' \<Rightarrow> through gs obs d' | _ \<Rightarrow> None)"

lemma through_append:
  "length obs = length gs \<Longrightarrow> through (gs @ hs) (obs @ obs') d = Option.bind (through gs obs d) (through hs obs')"
proof (induction gs obs d rule: through.induct)
  case (3 g gs ob obs d)
  then show ?case by (simp split: stage_answer.split)
qed simp_all

text \<open>The item with this number has come through the first \<open>j\<close> stages with this value.\<close>

definition derived :: "('c, 'd) pipeline \<Rightarrow> nat \<Rightarrow> 'd item \<Rightarrow> bool" where
  "derived s j x \<longleftrightarrow> fst x < length (ms_submitted s) \<and>
     (\<exists>obs. length obs = j \<and> through (take j (ms_stages s)) obs (ms_submitted s ! fst x) = Some (snd x))"

lemma derived_next:
  assumes "derived s j x" and "j < length (ms_stages s)" and "sg_fn (ms_stages s ! j) ob (snd x) = Produced d"
  shows "derived s (Suc j) (fst x, d)"
proof -
  obtain obs where obs: "length obs = j" "through (take j (ms_stages s)) obs (ms_submitted s ! fst x) = Some (snd x)"
    using assms(1) by (auto simp: derived_def)
  have "through (take (Suc j) (ms_stages s)) (obs @ [ob]) (ms_submitted s ! fst x) = Some d"
    using obs assms(2,3) by (simp add: take_Suc_conv_app_nth through_append)
  then show ?thesis using assms(1) obs(1) by (auto simp: derived_def intro!: exI [of _ "obs @ [ob]"])
qed

section \<open>Invariant\<close>

definition held :: "'d proc_phase \<Rightarrow> 'd item list" where
  "held ph = (case ph of PWorks x \<Rightarrow> [x] | PSends x \<Rightarrow> [x] | _ \<Rightarrow> [])"

definition in_hands :: "('c, 'd) pipeline \<Rightarrow> 'd item list" where
  "in_hands s = concat (map (\<lambda>p. held (sp_phase p)) (ms_procs s))"

text \<open>Where an item can be: in a channel, with a processor, read from the output, dropped by a stage, lost at shutdown.\<close>

definition whereabouts :: "('c, 'd) pipeline \<Rightarrow> nat multiset" where
  "whereabouts s = mset (map fst (concat (ms_channels s))) + mset (map fst (in_hands s)) + mset (map fst (ms_out s)) +
     mset (map fst (ms_dropped s)) + mset (map fst (ms_lost s))"

definition proc_ok :: "('c, 'd) pipeline \<Rightarrow> 'd StageProcessor \<Rightarrow> bool" where
  "proc_ok s p \<longleftrightarrow> sp_StageIndex p < length (ms_stages s) \<and>
     (case sp_phase p of PWorks x \<Rightarrow> derived s (sp_StageIndex p) x | PSends x \<Rightarrow> derived s (Suc (sp_StageIndex p)) x | _ \<Rightarrow> True)"

definition stats_ok :: "StageStats \<Rightarrow> bool" where
  "stats_ok st \<longleftrightarrow> ss_ProcessedItems st = ss_SuccessItems st + ss_ErrorItems st"

definition ms_inv :: "('c, 'd) ProcessingStage list \<times> PipelineConfig \<Rightarrow> ('c, 'd) pipeline \<Rightarrow> bool" where
  "ms_inv sc s \<longleftrightarrow> ms_stages s = fst sc \<and> ms_caps s = channel_caps (fst sc) (snd sc) \<and>
     length (ms_channels s) = Suc (length (ms_stages s)) \<and>
     (\<forall>j < length (ms_channels s). length (ms_channels s ! j) \<le> ms_caps s ! j \<and> (\<forall>x \<in> set (ms_channels s ! j). derived s j x)) \<and>
     (\<forall>p \<in> set (ms_procs s). proc_ok s p) \<and> (\<forall>x \<in> set (ms_out s). derived s (length (ms_stages s)) x) \<and>
     whereabouts s = mset [0 ..< length (ms_submitted s)] \<and>
     ms_totalInputItems s = int (length (ms_submitted s)) \<and> ms_totalErrors s = 0 \<and>
     ms_totalOutputItems s \<le> int (length (ms_out s)) \<and> (\<forall>st \<in> set (ms_stageStats s). stats_ok st) \<and>
     (ms_procs s = [] \<or> ms_isRunning s \<or> ms_ended s)"

lemma derived_cong: "ms_stages s' = ms_stages s \<Longrightarrow> ms_submitted s' = ms_submitted s \<Longrightarrow> derived s' = derived s"
  by (simp add: derived_def fun_eq_iff)

lemma proc_ok_cong:
  assumes "ms_stages s' = ms_stages s" and "ms_submitted s' = ms_submitted s"
  shows "proc_ok s' = proc_ok s"
  by (rule ext) (simp only: proc_ok_def assms(1) derived_cong [OF assms])

lemma mset_concat_update:
  "i < length xs \<Longrightarrow> mset (map g (concat (map f (xs[i := y])))) + mset (map g (f (xs ! i))) =
     mset (map g (concat (map f xs))) + mset (map g (f y))"
proof (induction xs arbitrary: i)
  case (Cons x xs)
  then show ?case by (cases i) (auto simp: union_ac)
qed simp

lemma mset_channels_update:
  "i < length cs \<Longrightarrow> mset (map fst (concat (cs[i := c]))) + mset (map fst (cs ! i)) = mset (map fst (concat cs)) + mset (map fst c)"
  using mset_concat_update [of i cs fst "\<lambda>c. c" c] by simp

lemma mset_hands_update:
  assumes "p < length (ms_procs s)" and "ms_procs s' = (ms_procs s)[p := q]"
  shows "mset (map fst (in_hands s')) + mset (map fst (held (sp_phase (ms_procs s ! p)))) =
    mset (map fst (in_hands s)) + mset (map fst (held (sp_phase q)))"
  using mset_concat_update [OF assms(1), of fst "\<lambda>p. held (sp_phase p)" q] by (simp add: in_hands_def assms(2))

lemma ms_invD:
  assumes "ms_inv sc s"
  shows "ms_stages s = fst sc" and "length (ms_channels s) = Suc (length (ms_stages s))"
    and "j < length (ms_channels s) \<Longrightarrow> length (ms_channels s ! j) \<le> ms_caps s ! j"
    and "j < length (ms_channels s) \<Longrightarrow> x \<in> set (ms_channels s ! j) \<Longrightarrow> derived s j x"
    and "p < length (ms_procs s) \<Longrightarrow> proc_ok s (ms_procs s ! p)" and "x \<in> set (ms_out s) \<Longrightarrow> derived s (length (ms_stages s)) x"
    and "whereabouts s = mset [0 ..< length (ms_submitted s)]" and "st \<in> set (ms_stageStats s) \<Longrightarrow> stats_ok st"
    and "ms_totalInputItems s = int (length (ms_submitted s))" and "ms_totalOutputItems s \<le> int (length (ms_out s))"
    and "ms_totalErrors s = 0" and "ms_caps s = channel_caps (fst sc) (snd sc)" and "ms_procs s = [] \<or> ms_isRunning s \<or> ms_ended s"
    and "q \<in> set (ms_procs s) \<Longrightarrow> proc_ok s q"
proof -
  have all: "\<forall>j < length (ms_channels s). length (ms_channels s ! j) \<le> ms_caps s ! j \<and> (\<forall>x \<in> set (ms_channels s ! j). derived s j x)"
    "\<forall>p \<in> set (ms_procs s). proc_ok s p" "\<forall>x \<in> set (ms_out s). derived s (length (ms_stages s)) x"
    "\<forall>st \<in> set (ms_stageStats s). stats_ok st"
    using assms unfolding ms_inv_def by - (elim conjE, assumption)+
  show "j < length (ms_channels s) \<Longrightarrow> length (ms_channels s ! j) \<le> ms_caps s ! j"
    "j < length (ms_channels s) \<Longrightarrow> x \<in> set (ms_channels s ! j) \<Longrightarrow> derived s j x" using all(1) by simp_all
  show "p < length (ms_procs s) \<Longrightarrow> proc_ok s (ms_procs s ! p)" "q \<in> set (ms_procs s) \<Longrightarrow> proc_ok s q" using all(2) by simp_all
  show "x \<in> set (ms_out s) \<Longrightarrow> derived s (length (ms_stages s)) x" by (rule bspec [OF all(3)])
  show "st \<in> set (ms_stageStats s) \<Longrightarrow> stats_ok st" by (rule bspec [OF all(4)])
  show "ms_stages s = fst sc" "length (ms_channels s) = Suc (length (ms_stages s))" "whereabouts s = mset [0 ..< length (ms_submitted s)]"
    "ms_totalInputItems s = int (length (ms_submitted s))" "ms_totalOutputItems s \<le> int (length (ms_out s))" "ms_totalErrors s = 0"
    "ms_caps s = channel_caps (fst sc) (snd sc)" "ms_procs s = [] \<or> ms_isRunning s \<or> ms_ended s"
    using assms unfolding ms_inv_def by - (elim conjE, assumption)+
qed

text \<open>A step that moves items without changing what has been submitted.\<close>

lemma ms_move:
  assumes "ms_inv sc s" and "ms_stages s' = ms_stages s" and "ms_caps s' = ms_caps s" and "ms_submitted s' = ms_submitted s"
    and "ms_totalInputItems s' = ms_totalInputItems s" and "ms_totalErrors s' = ms_totalErrors s"
    and "length (ms_channels s') = length (ms_channels s)"
    and "\<And>j. j < length (ms_channels s) \<Longrightarrow> ms_channels s' ! j = ms_channels s ! j \<or>
      length (ms_channels s' ! j) \<le> ms_caps s ! j \<and> (\<forall>x \<in> set (ms_channels s' ! j). derived s j x)"
    and "\<And>q. q \<in> set (ms_procs s') \<Longrightarrow> q \<in> set (ms_procs s) \<or> proc_ok s q"
    and "\<And>x. x \<in> set (ms_out s') \<Longrightarrow> x \<in> set (ms_out s) \<or> derived s (length (ms_stages s)) x"
    and "whereabouts s' = whereabouts s" and "ms_totalOutputItems s' \<le> int (length (ms_out s'))"
    and "\<And>st. st \<in> set (ms_stageStats s') \<Longrightarrow> st \<in> set (ms_stageStats s) \<or> stats_ok st"
    and "ms_procs s' = [] \<or> ms_isRunning s' \<or> ms_ended s'"
  shows "ms_inv sc s'"
proof -
  note same = derived_cong [OF assms(2,4)] proc_ok_cong [OF assms(2,4)]
  have chan: "length (ms_channels s' ! j) \<le> ms_caps s ! j \<and> (\<forall>x \<in> set (ms_channels s' ! j). derived s j x)"
    if "j < length (ms_channels s)" for j
    using assms(8) [OF that] ms_invD(3,4) [OF assms(1) that] by auto
  have "\<forall>q \<in> set (ms_procs s'). proc_ok s q" using assms(9) ms_invD(14) [OF assms(1)] by blast
  moreover have "\<forall>x \<in> set (ms_out s'). derived s (length (ms_stages s)) x" using assms(10) ms_invD(6) [OF assms(1)] by blast
  moreover have "\<forall>st \<in> set (ms_stageStats s'). stats_ok st" using assms(13) ms_invD(8) [OF assms(1)] by blast
  ultimately show ?thesis
    using chan assms(2-7,11,12,14) ms_invD(1,2,7,9,11,12) [OF assms(1)] unfolding ms_inv_def same by simp
qed

lemma set_proc_fields [simp]:
  "ms_stages (set_proc p ph s) = ms_stages s" "ms_caps (set_proc p ph s) = ms_caps s" "ms_submitted (set_proc p ph s) = ms_submitted s"
  "ms_channels (set_proc p ph s) = ms_channels s" "ms_out (set_proc p ph s) = ms_out s" "ms_dropped (set_proc p ph s) = ms_dropped s"
  "ms_lost (set_proc p ph s) = ms_lost s" "ms_totalInputItems (set_proc p ph s) = ms_totalInputItems s"
  "ms_totalErrors (set_proc p ph s) = ms_totalErrors s" "ms_totalOutputItems (set_proc p ph s) = ms_totalOutputItems s"
  "ms_stageStats (set_proc p ph s) = ms_stageStats s" "ms_isRunning (set_proc p ph s) = ms_isRunning s"
  "ms_ended (set_proc p ph s) = ms_ended s"
  "ms_procs (set_proc p ph s) = (ms_procs s)[p := (ms_procs s ! p)\<lparr>sp_phase := ph\<rparr>]"
  by (simp_all add: set_proc_def)

lemma stage_of_proc: "ms_inv sc s \<Longrightarrow> p < length (ms_procs s) \<Longrightarrow> sp_StageIndex (ms_procs s ! p) < length (ms_stages s)"
  using ms_invD(5) by (fastforce simp: proc_ok_def)

lemma take_ms_inv:
  assumes "ms_inv sc s" and "p < length (ms_procs s)" and "sp_phase (ms_procs s ! p) = PWaits" and "run_take_ms p s = Some s'"
  shows "ms_inv sc s'"
proof -
  let ?i = "sp_StageIndex (ms_procs s ! p)"
  obtain x rest where c: "ms_channels s ! ?i = x # rest"
    and s': "s' = set_proc p (PWorks x) (s\<lparr>ms_channels := (ms_channels s)[?i := rest]\<rparr>)"
    using assms(4) by (auto simp: run_take_ms_def Let_def split: list.splits)
  have i: "?i < length (ms_stages s)" "?i < length (ms_channels s)" using stage_of_proc [OF assms(1,2)] ms_invD(2) [OF assms(1)] by simp_all
  have der: "\<forall>y \<in> set (x # rest). derived s ?i y" using ms_invD(4) [OF assms(1) i(2)] c by simp
  have w: "whereabouts s' = whereabouts s"
    using mset_channels_update [OF i(2), of rest] mset_hands_update [OF assms(2), of s'] assms(3) c
    by (simp add: s' whereabouts_def held_def)
  show ?thesis
    by (rule ms_move [OF assms(1) _ _ _ _ _ _ _ _ _ w])
      (use i der c ms_invD(3) [OF assms(1) i(2)] ms_invD(10,13) [OF assms(1)] in
        \<open>auto simp: s' nth_list_update proc_ok_def dest!: set_update_in\<close>)
qed

lemma count_call_ok: "stats_ok st \<Longrightarrow> stats_ok (count_call a t st)"
  by (simp add: stats_ok_def count_call_def Let_def)

lemma process_ms_inv:
  assumes "ms_inv sc s" and "p < length (ms_procs s)" and "sp_phase (ms_procs s ! p) = PWorks x"
  shows "ms_inv sc (processData p ob t x s)"
proof -
  let ?i = "sp_StageIndex (ms_procs s ! p)" and ?s = "processData p ob t x s"
  define a where "a = sg_fn (ms_stages s ! ?i) ob (snd x)"
  have i: "?i < length (ms_stages s)" by (rule stage_of_proc [OF assms(1,2)])
  have dx: "derived s ?i x" using ms_invD(5) [OF assms(1,2)] assms(3) by (simp add: proc_ok_def)
  have procs: "\<exists>ph. ms_procs ?s = (ms_procs s)[p := (ms_procs s ! p)\<lparr>sp_stats := count_call a t (sp_stats (ms_procs s ! p)), sp_phase := ph\<rparr>] \<and>
      (case a of Produced d \<Rightarrow> ph = PSends (fst x, d) | _ \<Rightarrow> ph = PWaits)"
    using assms(2) by (simp add: processData_def Let_def flip: a_def split: stage_answer.split)
  then obtain ph where ph: "ms_procs ?s = (ms_procs s)[p := (ms_procs s ! p)\<lparr>sp_stats := count_call a t (sp_stats (ms_procs s ! p)), sp_phase := ph\<rparr>]"
      "case a of Produced d \<Rightarrow> ph = PSends (fst x, d) | _ \<Rightarrow> ph = PWaits" by blast
  have f: "ms_stages ?s = ms_stages s" "ms_caps ?s = ms_caps s" "ms_submitted ?s = ms_submitted s" "ms_channels ?s = ms_channels s"
      "ms_out ?s = ms_out s" "ms_lost ?s = ms_lost s" "ms_totalInputItems ?s = ms_totalInputItems s" "ms_totalErrors ?s = ms_totalErrors s"
      "ms_totalOutputItems ?s = ms_totalOutputItems s" "ms_stageStats ?s = (ms_stageStats s)[?i := count_call a t (ms_stageStats s ! ?i)]"
      "ms_isRunning ?s = ms_isRunning s" "ms_ended ?s = ms_ended s" "ms_dropped ?s = ms_dropped s @ (case a of Produced d \<Rightarrow> [] | _ \<Rightarrow> [x])"
    by (simp_all add: processData_def Let_def flip: a_def split: stage_answer.split)
  have w: "whereabouts ?s = whereabouts s"
    using mset_hands_update [OF assms(2) ph(1)] assms(3) ph(2)
    by (cases a) (simp_all add: whereabouts_def f held_def)
  have "proc_ok s ((ms_procs s ! p)\<lparr>sp_stats := st, sp_phase := ph\<rparr>)" for st
    using i ph(2) derived_next [OF dx i, of ob] by (cases a) (simp_all add: proc_ok_def a_def)
  then have q: "q \<in> set (ms_procs s) \<or> proc_ok s q" if "q \<in> set (ms_procs ?s)" for q using that ph(1) by (auto dest: set_update_in)
  have st: "st \<in> set (ms_stageStats s) \<or> stats_ok st" if "st \<in> set (ms_stageStats ?s)" for st
  proof (cases "?i < length (ms_stageStats s)")
    case True
    then show ?thesis using that ms_invD(8) [OF assms(1) nth_mem [OF True]] count_call_ok by (auto simp: f dest!: set_update_in)
  qed (use that in \<open>simp add: f list_update_beyond\<close>)
  show ?thesis
    by (rule ms_move [OF assms(1) _ _ _ _ _ _ _ _ _ w]) (use q st ms_invD(10,13) [OF assms(1)] in \<open>simp_all add: f(1-9,11,12) ph(1)\<close>)
qed

lemma send_ms_inv:
  assumes "ms_inv sc s" and "p < length (ms_procs s)" and "sp_phase (ms_procs s ! p) = PSends x" and "run_send_ms p x s = Some s'"
  shows "ms_inv sc s'"
proof -
  let ?i = "sp_StageIndex (ms_procs s ! p)"
  have r: "room (Suc ?i) s" and s': "s' = set_proc p PWaits (push (Suc ?i) x s)"
    using assms(4) by (auto simp: run_send_ms_def Let_def split: if_splits)
  have i: "?i < length (ms_stages s)" "Suc ?i < length (ms_channels s)"
    using stage_of_proc [OF assms(1,2)] ms_invD(2) [OF assms(1)] by simp_all
  have der: "derived s (Suc ?i) x" using ms_invD(5) [OF assms(1,2)] assms(3) by (simp add: proc_ok_def)
  have w: "whereabouts s' = whereabouts s"
    using mset_channels_update [OF i(2), of "ms_channels s ! Suc ?i @ [x]"] mset_hands_update [OF assms(2), of s'] assms(3)
    by (simp add: s' whereabouts_def held_def push_def)
  show ?thesis
    by (rule ms_move [OF assms(1) _ _ _ _ _ _ _ _ _ w])
      (use i r der ms_invD(4) [OF assms(1) i(2)] ms_invD(10,13) [OF assms(1)] in
        \<open>auto simp: s' push_def room_def nth_list_update proc_ok_def dest!: set_update_in\<close>)
qed

lemma give_up_ms_inv:
  assumes "ms_inv sc s" and "p < length (ms_procs s)" and "sp_phase (ms_procs s ! p) = PSends x" and "run_give_up_ms p x s = Some s'"
  shows "ms_inv sc s'"
proof -
  have s': "s' = set_proc p PReturned (s\<lparr>ms_lost := ms_lost s @ [x]\<rparr>)" using assms(4) by (auto simp: run_give_up_ms_def split: if_splits)
  have w: "whereabouts s' = whereabouts s"
    using mset_hands_update [OF assms(2), of s'] assms(3) by (simp add: s' whereabouts_def held_def)
  show ?thesis
    by (rule ms_move [OF assms(1) _ _ _ _ _ _ _ _ _ w])
      (use stage_of_proc [OF assms(1,2)] ms_invD(10,13) [OF assms(1)] in \<open>auto simp: s' proc_ok_def dest!: set_update_in\<close>)
qed

lemma exit_ms_inv:
  assumes "ms_inv sc s" and "p < length (ms_procs s)" and "sp_phase (ms_procs s ! p) = PWaits"
  shows "ms_inv sc (set_proc p PReturned s)"
proof -
  have w: "whereabouts (set_proc p PReturned s) = whereabouts s"
    using mset_hands_update [OF assms(2), of "set_proc p PReturned s"] assms(3) by (simp add: whereabouts_def held_def)
  show ?thesis
    by (rule ms_move [OF assms(1) _ _ _ _ _ _ _ _ _ w])
      (use stage_of_proc [OF assms(1,2)] ms_invD(10,13) [OF assms(1)] in \<open>auto simp: proc_ok_def dest!: set_update_in\<close>)
qed

lemma output_inv:
  assumes "ms_inv sc s" and "output_take s = Some s1" and "s' = s1\<lparr>ms_totalOutputItems := ms_totalOutputItems s1 + k\<rparr>" and "k \<le> 1"
  shows "ms_inv sc s'"
proof -
  let ?n = "length (ms_stages s)"
  obtain x rest where c: "ms_channels s ! ?n = x # rest"
    and s1: "s1 = s\<lparr>ms_channels := (ms_channels s)[?n := rest], ms_out := ms_out s @ [x]\<rparr>"
    using assms(2) by (auto simp: output_take_def Let_def split: list.splits)
  have n: "?n < length (ms_channels s)" using ms_invD(2) [OF assms(1)] by simp
  have der: "\<forall>y \<in> set (x # rest). derived s ?n y" using ms_invD(4) [OF assms(1) n] c by simp
  have w: "whereabouts s' = whereabouts s"
    using mset_channels_update [OF n, of rest] c by (simp add: assms(3) s1 whereabouts_def in_hands_def)
  show ?thesis
    by (rule ms_move [OF assms(1) _ _ _ _ _ _ _ _ _ w])
      (use n der c assms(4) ms_invD(3) [OF assms(1) n] ms_invD(10,13) [OF assms(1)] in
        \<open>auto simp: assms(3) s1 nth_list_update\<close>)
qed

lemma derived_mono:
  assumes "derived s j x" and "ms_stages s' = ms_stages s" and "ms_submitted s' = ms_submitted s @ ds"
  shows "derived s' j x"
  using assms by (auto simp: derived_def nth_append)

lemma submit_ms_inv:
  assumes "ms_inv sc s"
  shows "ms_inv sc (fst (SubmitData d s))"
proof (cases "ms_isRunning s \<and> \<not> ms_ended s \<and> room 0 s")
  case False
  then show ?thesis using assms by (auto simp: SubmitData_def)
next
  case True
  let ?x = "(length (ms_submitted s), d)"
  define s' where "s' = (push 0 ?x s)\<lparr>ms_submitted := ms_submitted s @ [d], ms_totalInputItems := ms_totalInputItems s + 1\<rparr>"
  have f: "fst (SubmitData d s) = s'" using True by (simp add: SubmitData_def s'_def)
  have c: "0 < length (ms_channels s)" using ms_invD(2) [OF assms] by simp
  have mono: "derived s' j x" if "derived s j x" for j x by (rule derived_mono [OF that]) (simp_all add: s'_def push_def)
  have procs: "proc_ok s' p" if "proc_ok s p" for p
    using that mono by (auto simp: proc_ok_def s'_def push_def split: proc_phase.splits)
  have new: "derived s' 0 ?x" by (simp add: derived_def s'_def push_def)
  have "length (ms_channels s' ! j) \<le> ms_caps s' ! j \<and> (\<forall>x \<in> set (ms_channels s' ! j). derived s' j x)"
    if "j < length (ms_channels s')" for j
    using that True c ms_invD(3,4) [OF assms, of j] mono new
    by (cases "j = 0") (auto simp: s'_def push_def room_def)
  moreover have "whereabouts s' = whereabouts s + {#length (ms_submitted s)#}"
    using mset_channels_update [OF c, of "ms_channels s ! 0 @ [?x]"] by (simp add: s'_def push_def whereabouts_def in_hands_def)
  moreover have "ms_stages s' = ms_stages s" "ms_caps s' = ms_caps s" "length (ms_channels s') = length (ms_channels s)"
    "ms_procs s' = ms_procs s" "ms_out s' = ms_out s" "ms_totalErrors s' = ms_totalErrors s" "ms_stageStats s' = ms_stageStats s"
    "ms_totalOutputItems s' = ms_totalOutputItems s" "ms_submitted s' = ms_submitted s @ [d]"
    "ms_totalInputItems s' = ms_totalInputItems s + 1" "ms_isRunning s' = ms_isRunning s" "ms_ended s' = ms_ended s"
    by (simp_all add: s'_def push_def)
  moreover have "\<forall>p \<in> set (ms_procs s). proc_ok s' p" using ms_invD(14) [OF assms] procs by blast
  moreover have "\<forall>x \<in> set (ms_out s). derived s' (length (ms_stages s)) x" using ms_invD(6) [OF assms] mono by blast
  moreover have "\<forall>st \<in> set (ms_stageStats s). stats_ok st" using ms_invD(8) [OF assms] by blast
  ultimately show ?thesis unfolding f ms_inv_def using ms_invD(1,2,7,9,10,11,12,13) [OF assms] by simp
qed

lemma start_ms_inv:
  assumes "ms_inv sc s"
  shows "ms_inv sc (Start_ms s)"
proof (cases "ms_isRunning s \<or> ms_ended s")
  case False
  then have none: "in_hands s = []" using ms_invD(13) [OF assms] by (simp add: in_hands_def)
  have new: "held (sp_phase p) = []" "proc_ok s p" if "p \<in> set (new_procs (ms_stages s))" for p
    using that by (auto simp: new_procs_def held_def proc_ok_def)
  then have "in_hands (Start_ms s) = []" using False by (simp add: in_hands_def Start_ms_def)
  then have w: "whereabouts (Start_ms s) = whereabouts s" using False none by (simp add: whereabouts_def Start_ms_def)
  show ?thesis
    by (rule ms_move [OF assms _ _ _ _ _ _ _ _ _ w]) (use False new(2) ms_invD(10) [OF assms] in \<open>auto simp: Start_ms_def\<close>)
qed (simp add: Start_ms_def assms)

lemma ms_step_inv:
  assumes "ms_inv sc s" and "ms_step s e = Some s'"
  shows "ms_inv sc s'"
proof -
  have quiet: "ms_inv sc (s\<lparr>ms_collector := b\<rparr>)" "ms_inv sc (s\<lparr>ms_isRunning := False, ms_ended := True\<rparr>)" for b
    by (rule ms_move [OF assms(1)]; use ms_invD(10,13) [OF assms(1)] in \<open>simp add: whereabouts_def in_hands_def\<close>)+
  have out: "ms_inv sc s1" if "output_take s = Some s1" for s1
    by (rule output_inv [OF assms(1) that, of _ 0]) simp_all
  have collect: "ms_inv sc s1" if "collectResults s = Some s1" for s1
    using that by (auto simp: collectResults_def split: if_splits intro: output_inv [OF assms(1) _ refl, of _ 1])
  show ?thesis
    using assms(2) start_ms_inv [OF assms(1)] submit_ms_inv [OF assms(1)] take_ms_inv [OF assms(1)] process_ms_inv [OF assms(1)]
      send_ms_inv [OF assms(1)] give_up_ms_inv [OF assms(1)] exit_ms_inv [OF assms(1)] quiet out collect assms(1)
    by (cases e) (auto simp: at_proc_def GetOutputChannel_def Shutdown_ms_def split: proc_phase.splits if_splits)
qed

lemma ms_start_inv: "ms_inv sc (NewMultiStagePipeline sc)"
  by (cases sc) (simp add: ms_inv_def NewMultiStagePipeline_def whereabouts_def in_hands_def stats_ok_def zero_stats_def
      del: replicate_Suc)

interpretation pipeline_runs: step_invariant ms_step NewMultiStagePipeline ms_inv "\<lambda>_. True"
  by unfold_locales (rule ms_start_inv, rule ms_step_inv)

section \<open>Order\<close>

text \<open>
  With one worker per stage the pipeline is a queue: its segments are, from the input, a channel and the
  hand of its processor in turn.  \<open>flow\<close> lists what has been read and then the segments from the output back.
\<close>

definition flow_of :: "(nat \<Rightarrow> 'a list) \<Rightarrow> nat \<Rightarrow> 'a list" where
  "flow_of f m = concat (rev (map f [0 ..< m]))"

definition segment :: "('c, 'd) pipeline \<Rightarrow> nat \<Rightarrow> nat list" where
  "segment s k = map fst (if even k then ms_channels s ! (k div 2)
     else if k div 2 < length (ms_procs s) then held (sp_phase (ms_procs s ! (k div 2))) else [])"

definition flow :: "('c, 'd) pipeline \<Rightarrow> nat list" where
  "flow s = map fst (ms_out s) @ flow_of (segment s) (Suc (2 * length (ms_stages s)))"

lemma segment_cong: "ms_channels s' = ms_channels s \<Longrightarrow> ms_procs s' = ms_procs s \<Longrightarrow> segment s' = segment s"
  by (simp add: segment_def fun_eq_iff)

definition in_order :: "('c, 'd) pipeline \<Rightarrow> bool" where
  "in_order s \<longleftrightarrow> sorted_wrt (<) (flow s) \<and> (\<forall>k \<in> set (flow s). k < length (ms_submitted s)) \<and>
     (\<forall>p < length (ms_procs s). sp_StageIndex (ms_procs s ! p) = p)"

lemma flow_of_cong: "(\<And>k. k < m \<Longrightarrow> f k = g k) \<Longrightarrow> flow_of f m = flow_of g m"
  unfolding flow_of_def by (intro arg_cong [where f = concat] arg_cong [where f = rev] map_cong) auto

lemma flow_of_Suc: "flow_of f (Suc m) = f m @ flow_of f m"
  by (simp add: flow_of_def)

lemma flow_of_split: "k < m \<Longrightarrow> \<exists>A B. \<forall>y. flow_of (f(k := y)) m = A @ y @ B"
proof (induction m)
  case (Suc m)
  show ?case
  proof (cases "k = m")
    case True
    have same: "flow_of (f(m := y)) m = flow_of f m" for y by (rule flow_of_cong) simp
    have "\<forall>y. flow_of (f(k := y)) (Suc m) = [] @ y @ flow_of f m" unfolding flow_of_Suc True same by simp
    then show ?thesis by blast
  next
    case False
    then have "k < m" using Suc.prems by simp
    then obtain A B where ab: "\<forall>y. flow_of (f(k := y)) m = A @ y @ B" using Suc.IH by blast
    have "\<forall>y. flow_of (f(k := y)) (Suc m) = (f m @ A) @ y @ B" using False ab by (simp add: flow_of_Suc)
    then show ?thesis by blast
  qed
qed simp

text \<open>Moving the head of a segment to the end of the next one changes nothing.\<close>

lemma flow_of_move:
  "Suc k < m \<Longrightarrow> f k = x # xs \<Longrightarrow> flow_of (f(k := xs, Suc k := f (Suc k) @ [x])) m = flow_of f m"
proof (induction m)
  case (Suc m)
  let ?g = "f(k := xs, Suc k := f (Suc k) @ [x])"
  show ?case
  proof (cases "Suc k = m")
    case True
    have "flow_of ?g k = flow_of f k" by (rule flow_of_cong) simp
    then show ?thesis using Suc.prems(2) unfolding True [symmetric] flow_of_Suc by simp
  next
    case False
    then show ?thesis using Suc by (simp add: flow_of_Suc)
  qed
qed simp

lemma in_order_drop:
  assumes "in_order s" and "flow s = A @ B @ C" and "flow s' = A @ C" and "ms_submitted s' = ms_submitted s"
    and "\<And>p. p < length (ms_procs s') \<Longrightarrow> sp_StageIndex (ms_procs s' ! p) = p"
  shows "in_order s'"
  using assms by (auto simp: in_order_def sorted_wrt_append)

lemma in_order_same:
  assumes "in_order s" and "flow s' = flow s" and "ms_submitted s' = ms_submitted s"
    and "\<And>p. p < length (ms_procs s') \<Longrightarrow> sp_StageIndex (ms_procs s' ! p) = p"
  shows "in_order s'"
  using assms by (simp add: in_order_def)

text \<open>The hand of a processor gets a new content; the channels stay.\<close>

lemma flow_hand:
  assumes "p < length (ms_procs s)" and "p < length (ms_stages s)" and "ms_stages s' = ms_stages s" and "ms_out s' = ms_out s"
    and "ms_channels s' = ms_channels s" and "ms_procs s' = (ms_procs s)[p := q]"
  shows "\<exists>A C. flow s = A @ map fst (held (sp_phase (ms_procs s ! p))) @ C \<and> flow s' = A @ map fst (held (sp_phase q)) @ C"
proof -
  have "k div 2 = p \<longleftrightarrow> k = Suc (2 * p)" if "odd k" for k using that by (auto elim!: oddE)
  then have seg: "segment s' = (segment s)(Suc (2 * p) := map fst (held (sp_phase q)))"
    using assms(1) by (auto simp: segment_def assms(5,6) fun_eq_iff nth_list_update)
  have old: "segment s = (segment s)(Suc (2 * p) := map fst (held (sp_phase (ms_procs s ! p))))"
    using assms(1) by (auto simp: segment_def fun_eq_iff)
  obtain A B where ab: "\<forall>y. flow_of ((segment s)(Suc (2 * p) := y)) (Suc (2 * length (ms_stages s))) = A @ y @ B"
    using flow_of_split [of "Suc (2 * p)" "Suc (2 * length (ms_stages s))" "segment s"] assms(2) by auto
  have "flow_of (segment s) (Suc (2 * length (ms_stages s))) = A @ map fst (held (sp_phase (ms_procs s ! p))) @ B"
    using ab old by metis
  then show ?thesis using ab
    by (intro exI [of _ "map fst (ms_out s) @ A"] exI [of _ B]) (simp add: flow_def assms(3,4) seg)
qed

lemma proc_index: "in_order s \<Longrightarrow> p < length (ms_procs s) \<Longrightarrow> sp_StageIndex (ms_procs s ! p) = p"
  by (simp add: in_order_def)

lemma take_in_order:
  assumes "ms_inv sc s" and "in_order s" and "p < length (ms_procs s)" and "sp_phase (ms_procs s ! p) = PWaits"
    and "run_take_ms p s = Some s'"
  shows "in_order s'"
proof -
  have p: "sp_StageIndex (ms_procs s ! p) = p" "p < length (ms_stages s)" "p < length (ms_channels s)"
    using proc_index [OF assms(2,3)] stage_of_proc [OF assms(1,3)] ms_invD(2) [OF assms(1)] by simp_all
  obtain x rest where c: "ms_channels s ! p = x # rest" and s': "s' = set_proc p (PWorks x) (s\<lparr>ms_channels := (ms_channels s)[p := rest]\<rparr>)"
    using assms(5) p(1) by (auto simp: run_take_ms_def Let_def split: list.splits)
  have "segment s' = (segment s)(2 * p := map fst rest, Suc (2 * p) := segment s (Suc (2 * p)) @ [fst x])"
  proof
    fix k
    show "segment s' k = ((segment s)(2 * p := map fst rest, Suc (2 * p) := segment s (Suc (2 * p)) @ [fst x])) k"
      using p(3) assms(3,4) by (cases "even k") (auto simp: segment_def s' nth_list_update held_def Suc_double_not_eq_double
        double_not_eq_Suc_double elim!: evenE oddE)
  qed
  moreover have "segment s (2 * p) = fst x # map fst rest" by (simp add: segment_def c)
  ultimately have "flow s' = flow s"
    using flow_of_move [of "2 * p" "Suc (2 * length (ms_stages s))" "segment s" "fst x" "map fst rest"] p(2)
    by (simp add: flow_def s')
  then show ?thesis using proc_index [OF assms(2)] by (intro in_order_same [OF assms(2)]) (simp_all add: s' nth_list_update')
qed

lemma send_in_order:
  assumes "ms_inv sc s" and "in_order s" and "p < length (ms_procs s)" and "sp_phase (ms_procs s ! p) = PSends x"
    and "run_send_ms p x s = Some s'"
  shows "in_order s'"
proof -
  have p: "sp_StageIndex (ms_procs s ! p) = p" "p < length (ms_stages s)" "Suc p < length (ms_channels s)"
    using proc_index [OF assms(2,3)] stage_of_proc [OF assms(1,3)] ms_invD(2) [OF assms(1)] by simp_all
  have s': "s' = set_proc p PWaits (push (Suc p) x s)" using assms(5) p(1) by (auto simp: run_send_ms_def Let_def split: if_splits)
  have "segment s' = (segment s)(Suc (2 * p) := [], Suc (Suc (2 * p)) := segment s (Suc (Suc (2 * p))) @ [fst x])"
  proof
    fix k
    show "segment s' k = ((segment s)(Suc (2 * p) := [], Suc (Suc (2 * p)) := segment s (Suc (Suc (2 * p))) @ [fst x])) k"
      using p(3) assms(3,4) by (cases "even k") (auto simp: segment_def s' push_def nth_list_update held_def Suc_double_not_eq_double
        double_not_eq_Suc_double elim!: evenE oddE)
  qed
  moreover have "segment s (Suc (2 * p)) = [fst x]" using assms(3,4) by (simp add: segment_def held_def)
  ultimately have "flow s' = flow s"
    using flow_of_move [of "Suc (2 * p)" "Suc (2 * length (ms_stages s))" "segment s" "fst x" "[]"] p(2)
    by (simp add: flow_def s' push_def)
  then show ?thesis using proc_index [OF assms(2)] by (intro in_order_same [OF assms(2)]) (simp_all add: s' push_def nth_list_update')
qed

lemma hand_in_order:
  assumes "ms_inv sc s" and "in_order s" and "p < length (ms_procs s)" and "ms_stages s' = ms_stages s" and "ms_out s' = ms_out s"
    and "ms_channels s' = ms_channels s" and "ms_submitted s' = ms_submitted s" and "ms_procs s' = (ms_procs s)[p := q]"
    and "sp_StageIndex q = sp_StageIndex (ms_procs s ! p)"
    and "map fst (held (sp_phase q)) = [] \<or> map fst (held (sp_phase q)) = map fst (held (sp_phase (ms_procs s ! p)))"
  shows "in_order s'"
proof -
  have p: "sp_StageIndex (ms_procs s ! p) = p" "p < length (ms_stages s)"
    using proc_index [OF assms(2,3)] stage_of_proc [OF assms(1,3)] by simp_all
  obtain A C where f: "flow s = A @ map fst (held (sp_phase (ms_procs s ! p))) @ C" "flow s' = A @ map fst (held (sp_phase q)) @ C"
    using flow_hand [OF assms(3) p(2) assms(4-6,8)] by blast
  have idx: "sp_StageIndex (ms_procs s' ! j) = j" if "j < length (ms_procs s')" for j
    using proc_index [OF assms(2)] that assms(8,9) p(1) by (simp add: nth_list_update')
  show ?thesis
  proof (cases "map fst (held (sp_phase q)) = []")
    case True
    then show ?thesis using f(2) by (intro in_order_drop [OF assms(2) f(1) _ assms(7) idx]) simp_all
  next
    case False
    then show ?thesis using f assms(10) by (intro in_order_same [OF assms(2) _ assms(7) idx]) simp_all
  qed
qed

lemma process_in_order:
  assumes "ms_inv sc s" and "in_order s" and "p < length (ms_procs s)" and "sp_phase (ms_procs s ! p) = PWorks x"
  shows "in_order (processData p ob t x s)"
proof -
  define a where "a = sg_fn (ms_stages s ! sp_StageIndex (ms_procs s ! p)) ob (snd x)"
  define q where "q = (ms_procs s ! p)\<lparr>sp_stats := count_call a t (sp_stats (ms_procs s ! p)),
    sp_phase := (case a of Produced d \<Rightarrow> PSends (fst x, d) | _ \<Rightarrow> PWaits)\<rparr>"
  have "ms_procs (processData p ob t x s) = (ms_procs s)[p := q]"
    using assms(3) by (simp add: processData_def Let_def q_def flip: a_def split: stage_answer.split)
  then show ?thesis
    by (rule hand_in_order [OF assms(1-3), rotated 4])
      (use assms(4) in \<open>simp_all add: processData_def Let_def q_def held_def flip: a_def split: stage_answer.split\<close>)
qed

lemma output_in_order:
  assumes "ms_inv sc s" and "in_order s" and "output_take s = Some s1" and "s' = s1\<lparr>ms_totalOutputItems := k\<rparr>"
  shows "in_order s'"
proof -
  let ?n = "length (ms_stages s)"
  obtain x rest where c: "ms_channels s ! ?n = x # rest"
    and s1: "s1 = s\<lparr>ms_channels := (ms_channels s)[?n := rest], ms_out := ms_out s @ [x]\<rparr>"
    using assms(3) by (auto simp: output_take_def Let_def split: list.splits)
  have "flow_of (segment s') (2 * ?n) = flow_of (segment s) (2 * ?n)"
    by (rule flow_of_cong) (auto simp: segment_def assms(4) s1 elim!: evenE)
  moreover have "segment s (2 * ?n) = fst x # map fst rest" by (simp add: segment_def c)
  moreover have "segment s' (2 * ?n) = map fst rest" using ms_invD(2) [OF assms(1)] by (simp add: segment_def assms(4) s1)
  ultimately have "flow s' = flow s" by (simp add: flow_def flow_of_Suc assms(4) s1)
  then show ?thesis using proc_index [OF assms(2)] by (intro in_order_same [OF assms(2)]) (simp_all add: assms(4) s1)
qed

lemma submit_in_order:
  assumes "ms_inv sc s" and "in_order s"
  shows "in_order (fst (SubmitData d s))"
proof (cases "ms_isRunning s \<and> \<not> ms_ended s \<and> room 0 s")
  case False
  then show ?thesis using assms(2) by (auto simp: SubmitData_def)
next
  case True
  let ?x = "(length (ms_submitted s), d)" and ?m = "Suc (2 * length (ms_stages s))"
  define s' where "s' = (push 0 ?x s)\<lparr>ms_submitted := ms_submitted s @ [d], ms_totalInputItems := ms_totalInputItems s + 1\<rparr>"
  have f: "fst (SubmitData d s) = s'" using True by (simp add: SubmitData_def s'_def)
  have seg: "segment s' = (segment s)(0 := segment s 0 @ [fst ?x])"
    using ms_invD(2) [OF assms(1)] by (auto simp: segment_def fun_eq_iff s'_def push_def nth_list_update elim!: evenE)
  have snoc: "flow_of (g(0 := g 0 @ [y])) (Suc m) = flow_of g (Suc m) @ [y]" for g :: "nat \<Rightarrow> nat list" and y m
    by (induction m) (simp_all add: flow_of_Suc flow_of_def)
  have "flow s' = flow s @ [length (ms_submitted s)]" unfolding flow_def seg snoc by (simp add: s'_def push_def)
  then show ?thesis unfolding f using assms(2) by (auto simp: in_order_def sorted_wrt_append s'_def push_def less_Suc_eq)
qed

lemma concat_replicate_one: "(\<And>i. i \<in> set xs \<Longrightarrow> w i = 1) \<Longrightarrow> concat (map (\<lambda>i. replicate (w i) (c i)) xs) = map c xs"
  by (induction xs) auto

lemma start_in_order:
  assumes "in_order s" and "\<forall>g \<in> set (ms_stages s). sg_WorkerCount g = 1" and "ms_procs s = [] \<or> ms_isRunning s \<or> ms_ended s"
  shows "in_order (Start_ms s)"
proof (cases "ms_isRunning s \<or> ms_ended s")
  case False
  have procs: "new_procs (ms_stages s) = map (\<lambda>i. \<lparr>sp_StageIndex = i, sp_phase = PWaits, sp_stats = zero_stats\<rparr>) [0 ..< length (ms_stages s)]"
    unfolding new_procs_def by (rule concat_replicate_one) (use assms(2) in simp)
  have "segment (Start_ms s) = segment s"
    using False assms(3) by (auto simp: segment_def fun_eq_iff Start_ms_def procs held_def)
  then have "flow (Start_ms s) = flow s" using False by (simp add: flow_def Start_ms_def)
  then show ?thesis using False by (intro in_order_same [OF assms(1)]) (simp_all add: Start_ms_def procs)
qed (simp add: Start_ms_def assms(1))

definition single_inv :: "('c, 'd) ProcessingStage list \<times> PipelineConfig \<Rightarrow> ('c, 'd) pipeline \<Rightarrow> bool" where
  "single_inv sc s \<longleftrightarrow> ms_inv sc s \<and> in_order s"

lemma single_step_inv:
  assumes "\<forall>g \<in> set (fst sc). sg_WorkerCount g = 1" and "single_inv sc s" and "ms_step s e = Some s'"
  shows "single_inv sc s'"
proof -
  have i: "ms_inv sc s" "in_order s" using assms(2) by (simp_all add: single_inv_def)
  have seg: "segment (s\<lparr>ms_collector := b\<rparr>) = segment s" "segment (s\<lparr>ms_isRunning := False, ms_ended := True\<rparr>) = segment s" for b
    by (rule segment_cong; simp)+
  have quiet: "in_order (s\<lparr>ms_collector := b\<rparr>)" "in_order (s\<lparr>ms_isRunning := False, ms_ended := True\<rparr>)" for b
    by (rule in_order_same [OF i(2)]; use proc_index [OF i(2)] in \<open>simp add: flow_def seg\<close>)+
  have start: "in_order (Start_ms s)" by (rule start_in_order [OF i(2)]) (use assms(1) ms_invD(1,13) [OF i(1)] in simp_all)
  have out: "in_order s1" if "output_take s = Some s1" for s1
    by (rule output_in_order [OF i that, of _ "ms_totalOutputItems s1"]) simp
  have collect: "in_order s1" if "collectResults s = Some s1" for s1
    using that by (auto simp: collectResults_def split: if_splits intro: output_in_order [OF i _ refl])
  have up: "in_order s1" if "run_give_up_ms p x s = Some s1" "p < length (ms_procs s)" "sp_phase (ms_procs s ! p) = PSends x" for p x s1
    using that(1) by (auto simp: run_give_up_ms_def held_def split: if_splits intro: hand_in_order [OF i that(2)])
  have leave: "in_order (set_proc p PReturned s)" if "p < length (ms_procs s)" for p
    by (rule hand_in_order [OF i that, where q = "(ms_procs s ! p)\<lparr>sp_phase := PReturned\<rparr>"]) (simp_all add: held_def)
  have "in_order s'"
    using assms(3) start submit_in_order [OF i] take_in_order [OF i] process_in_order [OF i] send_in_order [OF i] up leave quiet out collect i(2)
    by (cases e) (auto simp: at_proc_def GetOutputChannel_def Shutdown_ms_def split: proc_phase.splits if_splits)
  then show ?thesis using ms_step_inv [OF i(1) assms(3)] by (simp add: single_inv_def)
qed

lemma flow_of_Nil: "(\<And>k. k < m \<Longrightarrow> f k = []) \<Longrightarrow> flow_of f m = []"
  by (simp add: flow_of_def)

interpretation single_runs: step_invariant ms_step NewMultiStagePipeline single_inv "\<lambda>sc. \<forall>g \<in> set (fst sc). sg_WorkerCount g = 1"
proof unfold_locales
  fix sc :: "('c, 'd) ProcessingStage list \<times> PipelineConfig"
  have "flow (NewMultiStagePipeline sc) = []"
    by (cases sc) (auto simp: flow_def NewMultiStagePipeline_def segment_def simp del: replicate_Suc intro!: flow_of_Nil elim!: evenE)
  then have "in_order (NewMultiStagePipeline sc)" by (cases sc) (simp add: in_order_def NewMultiStagePipeline_def)
  then show "single_inv sc (NewMultiStagePipeline sc)" by (simp add: single_inv_def ms_start_inv)
qed (rule single_step_inv)

section \<open>Properties\<close>

lemma distinct_of_upto:
  assumes "mset xs \<subseteq># mset [0 ..< n]"
  shows "distinct xs"
proof -
  obtain zs where "mset [0 ..< n] = mset xs + mset zs" using assms by (metis ex_mset mset_subset_eq_exists_conv)
  then have "mset (xs @ zs) = mset [0 ..< n]" by simp
  then have "distinct (xs @ zs)" using mset_eq_imp_distinct_iff distinct_upt by blast
  then show ?thesis by simp
qed

text \<open>
  C7. Under any interleaving of submissions, processors, readers and the shutdown, each result that has
  left the pipeline is what the stages, applied one after the other, make of a submitted item, and no
  item gives two results.
\<close>

theorem pipeline_refines_composition:
  assumes "run_steps ms_step (NewMultiStagePipeline (stages, config)) es = Some s"
  shows "list_all (\<lambda>x. fst x < length (ms_submitted s) \<and>
      (\<exists>obs. length obs = length stages \<and> through stages obs (ms_submitted s ! fst x) = Some (snd x))) (ms_out s) \<and>
    distinct (map fst (ms_out s))"
proof -
  have i: "ms_inv (stages, config) s" by (rule pipeline_runs.inv_run [OF TrueI assms])
  have "list_all (\<lambda>x. fst x < length (ms_submitted s) \<and>
      (\<exists>obs. length obs = length stages \<and> through stages obs (ms_submitted s ! fst x) = Some (snd x))) (ms_out s)"
    using ms_invD(1,6) [OF i] by (simp add: list_all_iff derived_def)
  moreover have "mset (map fst (ms_out s)) \<subseteq># whereabouts s" by (simp add: whereabouts_def)
  then have "mset (map fst (ms_out s)) \<subseteq># mset [0 ..< length (ms_submitted s)]" by (simp only: ms_invD(7) [OF i])
  then have "distinct (map fst (ms_out s))" by (rule distinct_of_upto)
  ultimately show ?thesis by blast
qed

text \<open>
  Every submitted item is in exactly one place: a channel, the hands of a processor, among the
  results, among the items a stage dropped, or lost at shutdown; channels keep their capacity, and every
  stage's processed items are its successes and errors.  The pipeline's own error counter stays zero.
\<close>

theorem pipeline_accounting:
  assumes "run_steps ms_step (NewMultiStagePipeline (stages, config)) es = Some s"
  shows "whereabouts s = mset [0 ..< length (ms_submitted s)] \<and> ms_totalInputItems s = int (length (ms_submitted s)) \<and>
    ms_totalOutputItems s \<le> int (length (ms_out s)) \<and> list_all stats_ok (ms_stageStats s) \<and> ms_totalErrors s = 0 \<and>
    list_all (\<lambda>j. length (ms_channels s ! j) \<le> channel_caps stages config ! j) [0 ..< Suc (length stages)]"
proof -
  have i: "ms_inv (stages, config) s" by (rule pipeline_runs.inv_run [OF TrueI assms])
  show ?thesis using ms_invD(1,2,3,7-12) [OF i] by (simp add: list_all_iff)
qed

text \<open>
  C29. With one worker per stage results leave the pipeline in the order in which their items were
  submitted.
\<close>

theorem single_workers_keep_order:
  assumes "\<forall>g \<in> set stages. sg_WorkerCount g = 1"
    and "run_steps ms_step (NewMultiStagePipeline (stages, config)) es = Some s"
  shows "sorted_wrt (<) (map fst (ms_out s))"
proof -
  have "single_inv (stages, config) s" by (rule single_runs.inv_run [OF _ assms(2)]) (use assms(1) in simp)
  then show ?thesis by (simp add: single_inv_def in_order_def flow_def sorted_wrt_append)
qed

section \<open>Concrete runs\<close>

text \<open>Two stages over numbers: a call that observes an error fails.\<close>

definition add_stage :: "nat \<Rightarrow> nat \<Rightarrow> (bool, nat) ProcessingStage" where
  "add_stage k w = \<lparr>sg_fn = (\<lambda>ok d. if ok then Produced (d + k) else Failed), sg_WorkerCount = w, sg_BufferSize = 2\<rparr>"

definition two_stages :: "nat \<Rightarrow> (bool, nat) ProcessingStage list \<times> PipelineConfig" where
  "two_stages w = ([add_stage 1 w, add_stage 10 1], \<lparr>pc_InputBufferSize = 3, pc_OutputBufferSize = 3\<rparr>)"

definition through_both :: "nat \<Rightarrow> (bool, nat) ms_event list" where
  "through_both p = [MsTake 0, MsProcess 0 True 1, MsSend 0, MsTake p, MsProcess p True 1, MsSend p]"

lemmas pipe_simps = two_stages_def add_stage_def through_both_def NewMultiStagePipeline_def channel_caps_def new_procs_def Start_ms_def
  room_def push_def SubmitData_def set_proc_def run_take_ms_def count_call_def processData_def run_send_ms_def output_take_def
  collectResults_def GetOutputChannel_def at_proc_def zero_stats_def go_div_def numeral_2_eq_2 Let_def

lemma pipeline_refines_composition_witness:
  "\<exists>s. run_steps ms_step (NewMultiStagePipeline (two_stages 1)) ([MsStart, MsSubmit 5] @ through_both 1 @ [MsCollect]) = Some s \<and>
    ms_out s = [(0, 16)] \<and> through (fst (two_stages 1)) [True, True] 5 = Some 16 \<and> distinct (map fst (ms_out s))"
proof -
  obtain s where s: "run_steps ms_step (NewMultiStagePipeline (two_stages 1)) ([MsStart, MsSubmit 5] @ through_both 1 @ [MsCollect]) = Some s"
    "ms_out s = [(0, 16)]"
    by (simp add: pipe_simps)
  have "through (fst (two_stages 1)) [True, True] 5 = Some 16" by (simp add: two_stages_def add_stage_def)
  then show ?thesis using s pipeline_refines_composition [of "fst (two_stages 1)" "snd (two_stages 1)", unfolded prod.collapse, OF s(1)] by (intro exI [of _ s]) simp
qed

lemma pipeline_accounting_witness:
  "\<exists>s. run_steps ms_step (NewMultiStagePipeline (two_stages 1)) [MsStart, MsSubmit 5, MsTake 0, MsProcess 0 False 1] = Some s \<and>
    map ss_ErrorItems (ms_stageStats s) = [1, 0] \<and> ms_dropped s = [(0, 5)] \<and> ms_totalErrors s = 0"
proof -
  obtain s where s: "run_steps ms_step (NewMultiStagePipeline (two_stages 1)) [MsStart, MsSubmit 5, MsTake 0, MsProcess 0 False 1] = Some s"
    "map ss_ErrorItems (ms_stageStats s) = [1, 0]" "ms_dropped s = [(0, 5)]"
    by (simp add: pipe_simps)
  show ?thesis using s pipeline_accounting [of "fst (two_stages 1)" "snd (two_stages 1)", unfolded prod.collapse, OF s(1)] by (intro exI [of _ s]) simp
qed

lemma single_workers_keep_order_witness:
  "\<exists>s. run_steps ms_step (NewMultiStagePipeline (two_stages 1))
      ([MsStart, MsSubmit 5, MsSubmit 6] @ through_both 1 @ through_both 1 @ [MsRead, MsCollect]) = Some s \<and>
    ms_out s = [(0, 16), (1, 17)] \<and> sorted_wrt (<) (map fst (ms_out s)) \<and> ms_totalOutputItems s = 1"
proof -
  obtain s where s: "run_steps ms_step (NewMultiStagePipeline (two_stages 1))
      ([MsStart, MsSubmit 5, MsSubmit 6] @ through_both 1 @ through_both 1 @ [MsRead, MsCollect]) = Some s"
    "ms_out s = [(0, 16), (1, 17)]" "ms_totalOutputItems s = 1"
    by (simp add: pipe_simps)
  show ?thesis
    using s single_workers_keep_order [of "fst (two_stages 1)" "snd (two_stages 1)", unfolded prod.collapse, OF _ s(1)]
    by (intro exI [of _ s]) (simp add: two_stages_def add_stage_def)
qed

text \<open>
  With two workers in a stage an item can overtake an earlier one.
\<close>

theorem two_workers_reorder:
  "case run_steps ms_step (NewMultiStagePipeline (two_stages 2))
      [MsStart, MsSubmit 5, MsSubmit 6, MsTake 0, MsTake 1, MsProcess 1 True 1, MsSend 1, MsProcess 0 True 9, MsSend 0,
       MsTake 2, MsProcess 2 True 1, MsSend 2, MsTake 2, MsProcess 2 True 1, MsSend 2, MsCollect, MsCollect] of
     None \<Rightarrow> False
   | Some s \<Rightarrow> ms_out s = [(1, 17), (0, 16)]"
  by (simp add: pipe_simps)

end
