(* ===== verification/ProductionMonitoring.thy ===== *)
theory ProductionMonitoring
  imports Prelude
begin

text \<open>
  The production monitoring system of chapter 8, \<^verbatim>\<open>ans_02/production_monitoring.go\<close>: metrics collected
  on a tick, anomalies found by thresholds and by a statistical model, alerts processed from a bounded
  queue, a periodic analysis, and dashboard updates.

  Each of the system's loops is a goroutine whose sections are steps, in any interleaving; detection
  creates its alerts one by one, so the processing of alerts may come between.  The runtime's
  \<^verbatim>\<open>MemStats\<close>, the number of goroutines and the clock are arguments.  The Japanese texts of alerts are left
  out, and an analysis keeps its numbers instead of formatted text.  The history of alerts and the table of
  active ones share an alert by pointer, so the table holds positions in the history.
  \<open>ps_samples\<close>, \<open>ps_collected\<close>, \<open>ps_created\<close>, \<open>ps_handled\<close> and \<open>ps_rejected\<close> are histories kept for the statements.
\<close>

section \<open>Metrics\<close>

record SystemMetrics =
  sm_Timestamp :: time
  sm_CPUUsage :: real
  sm_MemoryUsage :: "64 word"
  sm_MemoryPercent :: real
  sm_GoroutineCount :: int
  sm_GCPauseTime :: "64 word"
  sm_HeapAlloc :: "64 word"
  sm_HeapSys :: "64 word"
  sm_NumGC :: "32 word"
  sm_NetworkConnections :: int
  sm_DiskIORate :: real
  sm_LoadAverage :: real

text \<open>What \<^verbatim>\<open>runtime.ReadMemStats\<close> and the other observations of a collection answer.\<close>

record MemStats =
  rt_Alloc :: "64 word"
  rt_Sys :: "64 word"
  rt_HeapAlloc :: "64 word"
  rt_HeapSys :: "64 word"
  rt_NumGC :: "32 word"
  rt_PauseNs :: "64 word list"

record observation =
  ob_mem :: MemStats
  ob_now :: time
  ob_goroutines_cpu :: int
  ob_goroutines :: int
  ob_cpus :: int

definition newGCPauseMax :: "MemStats \<Rightarrow> 32 word \<Rightarrow> 64 word" where
  "newGCPauseMax mem lastNumGC =
     (let newGCs = min (rt_NumGC mem - lastNumGC) (of_nat (length (rt_PauseNs mem)))
      in foldl (\<lambda>pause i. max pause (rt_PauseNs mem ! unat ((rt_NumGC mem - of_nat i + 255) mod 256))) 0 [0..<unat newGCs])"

definition calculateCPUUsage :: "int \<Rightarrow> real" where
  "calculateCPUUsage goroutines = real_of_int goroutines / 100"

definition getLoadAverage :: "int \<Rightarrow> real" where
  "getLoadAverage cpus = real_of_int cpus * (7 / 10)"

definition collectSystemMetrics :: "observation \<Rightarrow> 32 word \<Rightarrow> SystemMetrics" where
  "collectSystemMetrics ob lastNumGC = (let mem = ob_mem ob in
     \<lparr>sm_Timestamp = ob_now ob, sm_CPUUsage = calculateCPUUsage (ob_goroutines_cpu ob), sm_MemoryUsage = rt_Alloc mem,
      sm_MemoryPercent = real (unat (rt_Alloc mem)) / real (unat (rt_Sys mem)) * 100,
      sm_GoroutineCount = ob_goroutines ob, sm_GCPauseTime = newGCPauseMax mem lastNumGC,
      sm_HeapAlloc = rt_HeapAlloc mem, sm_HeapSys = rt_HeapSys mem, sm_NumGC = rt_NumGC mem,
      sm_NetworkConnections = 50, sm_DiskIORate = 31 / 2, sm_LoadAverage = getLoadAverage (ob_cpus ob)\<rparr>)"

record MetricsCollector =
  mc_currentMetrics :: "SystemMetrics option"
  mc_historicalData :: "SystemMetrics list"
  mc_maxHistorySize :: nat
  mc_collectionCount :: int

definition NewMetricsCollector :: "nat \<Rightarrow> MetricsCollector" where
  "NewMetricsCollector maxHistory =
     \<lparr>mc_currentMetrics = None, mc_historicalData = [], mc_maxHistorySize = maxHistory, mc_collectionCount = 0\<rparr>"

definition AddMetrics :: "SystemMetrics \<Rightarrow> MetricsCollector \<Rightarrow> MetricsCollector" where
  "AddMetrics m mc =
     (let h = mc_historicalData mc @ [m]
      in mc\<lparr>mc_currentMetrics := Some m,
            mc_historicalData := (if length h > mc_maxHistorySize mc then drop 1 h else h),
            mc_collectionCount := mc_collectionCount mc + 1\<rparr>)"

definition GetHistoricalData :: "int \<Rightarrow> MetricsCollector \<Rightarrow> SystemMetrics list" where
  "GetHistoricalData wanted mc =
     (let n = length (mc_historicalData mc); c = (if wanted \<le> 0 \<or> wanted > int n then n else nat wanted)
      in drop (n - c) (mc_historicalData mc))"

section \<open>Anomalies\<close>

record AlertThresholds =
  th_CPUUsageWarning :: real
  th_CPUUsageCritical :: real
  th_MemoryUsageWarning :: real
  th_MemoryUsageCritical :: real
  th_GoroutineCountMax :: int
  th_GCPauseTimeMax :: "64 word"
  th_ResponseTimeMax :: duration

record StatisticalModel =
  st_CPUMean :: real
  st_CPUStdDev :: real
  st_MemoryMean :: real
  st_MemoryStdDev :: real
  st_GoroutineMean :: real
  st_GoroutineStdDev :: real
  st_SampleCount :: int
  st_LastUpdate :: time

record AnomalyDetector =
  ad_thresholds :: AlertThresholds
  ad_statisticalModel :: StatisticalModel
  ad_isLearning :: bool
  ad_learningPeriod :: duration

definition empty_model :: StatisticalModel where
  "empty_model =
     \<lparr>st_CPUMean = 0, st_CPUStdDev = 0, st_MemoryMean = 0, st_MemoryStdDev = 0, st_GoroutineMean = 0,
      st_GoroutineStdDev = 0, st_SampleCount = 0, st_LastUpdate = 0\<rparr>"

definition NewAnomalyDetector :: AnomalyDetector where
  "NewAnomalyDetector =
     \<lparr>ad_thresholds = \<lparr>th_CPUUsageWarning = 70, th_CPUUsageCritical = 90, th_MemoryUsageWarning = 80,
        th_MemoryUsageCritical = 95, th_GoroutineCountMax = 10000, th_GCPauseTimeMax = 100000000, th_ResponseTimeMax = 5 * Second\<rparr>,
      ad_statisticalModel = empty_model, ad_isLearning = True, ad_learningPeriod = 24 * Hour\<rparr>"

text \<open>An alert to create: its type and severity.\<close>

type_synonym alert_kind = "string \<times> string"

definition threshold_alerts :: "AlertThresholds \<Rightarrow> SystemMetrics \<Rightarrow> alert_kind list" where
  "threshold_alerts th m =
     (if sm_CPUUsage m > th_CPUUsageCritical th then [(''cpu_critical'', ''CRITICAL'')]
      else if sm_CPUUsage m > th_CPUUsageWarning th then [(''cpu_warning'', ''WARNING'')] else []) @
     (if sm_MemoryPercent m > th_MemoryUsageCritical th then [(''memory_critical'', ''CRITICAL'')]
      else if sm_MemoryPercent m > th_MemoryUsageWarning th then [(''memory_warning'', ''WARNING'')] else []) @
     (if sm_GoroutineCount m > th_GoroutineCountMax th then [(''goroutine_excess'', ''WARNING'')] else []) @
     (if sm_GCPauseTime m > th_GCPauseTimeMax th then [(''gc_pause_long'', ''WARNING'')] else [])"

definition zScoreExceeds :: "real \<Rightarrow> real \<Rightarrow> real \<Rightarrow> bool" where
  "zScoreExceeds v mean stdDev = (if stdDev = 0 then False else \<bar>(v - mean) / stdDev\<bar> > 3)"

definition statistical_alerts :: "StatisticalModel \<Rightarrow> SystemMetrics \<Rightarrow> alert_kind list" where
  "statistical_alerts st m =
     (if zScoreExceeds (sm_CPUUsage m) (st_CPUMean st) (st_CPUStdDev st) then [(''cpu_statistical'', ''WARNING'')] else []) @
     (if zScoreExceeds (sm_MemoryPercent m) (st_MemoryMean st) (st_MemoryStdDev st) then [(''memory_statistical'', ''WARNING'')] else []) @
     (if zScoreExceeds (real_of_int (sm_GoroutineCount m)) (st_GoroutineMean st) (st_GoroutineStdDev st)
      then [(''goroutine_statistical'', ''WARNING'')] else [])"

definition detected :: "AnomalyDetector \<Rightarrow> SystemMetrics \<Rightarrow> alert_kind list" where
  "detected ad m = threshold_alerts (ad_thresholds ad) m @
     (if ad_isLearning ad then [] else statistical_alerts (ad_statisticalModel ad) m)"

text \<open>The update of one mean and standard deviation, \<^verbatim>\<open>n\<close> samples being in the model already.\<close>

definition online_mean :: "real \<Rightarrow> real \<Rightarrow> real \<Rightarrow> real" where
  "online_mean n mean x = mean + (x - mean) / (n + 1)"

definition online_stddev :: "real \<Rightarrow> real \<Rightarrow> real \<Rightarrow> real \<Rightarrow> real" where
  "online_stddev n mean dev x =
     (let delta = x - mean; delta2 = x - online_mean n mean x
      in sqrt ((dev * dev * n + delta * delta2) / (n + 1)))"

definition update_model :: "SystemMetrics \<Rightarrow> time \<Rightarrow> StatisticalModel \<Rightarrow> StatisticalModel" where
  "update_model m now st =
     (let n = real_of_int (st_SampleCount st); g = real_of_int (sm_GoroutineCount m);
          st1 = (if n = 0
                 then st\<lparr>st_CPUMean := sm_CPUUsage m, st_MemoryMean := sm_MemoryPercent m, st_GoroutineMean := g,
                         st_CPUStdDev := 0, st_MemoryStdDev := 0, st_GoroutineStdDev := 0\<rparr>
                 else st\<lparr>st_CPUMean := online_mean n (st_CPUMean st) (sm_CPUUsage m),
                         st_CPUStdDev := online_stddev n (st_CPUMean st) (st_CPUStdDev st) (sm_CPUUsage m),
                         st_MemoryMean := online_mean n (st_MemoryMean st) (sm_MemoryPercent m),
                         st_MemoryStdDev := online_stddev n (st_MemoryMean st) (st_MemoryStdDev st) (sm_MemoryPercent m),
                         st_GoroutineMean := online_mean n (st_GoroutineMean st) g,
                         st_GoroutineStdDev := online_stddev n (st_GoroutineMean st) (st_GoroutineStdDev st) g\<rparr>)
      in st1\<lparr>st_SampleCount := st_SampleCount st + 1, st_LastUpdate := now\<rparr>)"

definition updateStatisticalModel :: "SystemMetrics \<Rightarrow> time \<Rightarrow> time \<Rightarrow> AnomalyDetector \<Rightarrow> AnomalyDetector" where
  "updateStatisticalModel m startTime now ad =
     ad\<lparr>ad_statisticalModel := update_model m now (ad_statisticalModel ad),
        ad_isLearning := ad_isLearning ad \<and> \<not> (time_Sub now startTime > ad_learningPeriod ad)\<rparr>"

section \<open>Alerts and the dashboard\<close>

record Alert =
  al_ID :: "string \<times> int"
  al_Timestamp :: time
  al_Type :: string
  al_Severity :: string
  al_Title :: string
  al_Source :: string
  al_Tags :: "string list"
  al_Metadata :: "real \<times> real \<times> int"
  al_Status :: string

definition new_alert :: "alert_kind \<Rightarrow> SystemMetrics \<Rightarrow> time \<Rightarrow> Alert" where
  "new_alert k m now =
     \<lparr>al_ID = (fst k, Unix now), al_Timestamp = now, al_Type = fst k, al_Severity = snd k,
      al_Title = ''System Alert: '' @ fst k, al_Source = ''monitoring_system'', al_Tags = [''production'', ''monitoring'', fst k],
      al_Metadata = (sm_CPUUsage m, sm_MemoryPercent m, sm_GoroutineCount m), al_Status = ''active''\<rparr>"

record AlertManager =
  am_activeAlerts :: "string \<rightharpoonup> nat"
  am_alertHistory :: "Alert list"
  am_notificationQueue :: "Alert list"
  am_notified :: "Alert list"

definition NewAlertManager :: AlertManager where
  "NewAlertManager = \<lparr>am_activeAlerts = Map.empty, am_alertHistory = [], am_notificationQueue = [], am_notified = []\<rparr>"

datatype update_data = MetricsData SystemMetrics | AlertData Alert

record DashboardUpdate =
  du_Timestamp :: time
  du_Data :: update_data

record ws_conn =
  wsc_cap :: nat
  wsc_SendChannel :: "DashboardUpdate list"

datatype recommendation = ScaleOut | MoreMemory | FewerGoroutines | TuneGC

record AnalysisResult =
  an_Timestamp :: time
  an_trend :: "real \<times> real"
  an_gc :: "real \<times> real"
  an_capacity :: "64 word \<times> int"
  an_Recommendations :: "recommendation list"
  an_data_points :: nat

datatype pm_loop = MetricsLoop | DetectionLoop | AlertLoop | AnalysisLoop | DashboardLoop | ServeLoop

text \<open>Where the detection goroutine stands: waiting, or creating the alerts of a sample.\<close>

datatype detection = DetectionIdle | Creating SystemMetrics "alert_kind list"

record monitoring =
  ps_metricsCollector :: MetricsCollector
  ps_anomalyDetector :: AnomalyDetector
  ps_alertManager :: AlertManager
  ps_analysisResults :: "AnalysisResult list"
  ps_updateChannel :: "DashboardUpdate list"
  ps_wsConnections :: "string \<rightharpoonup> ws_conn"
  ps_running :: bool
  ps_stopped :: bool
  ps_stopping :: bool
  ps_startTime :: time
  ps_lastNumGC :: "32 word"
  ps_cancelled :: bool
  ps_closes :: nat
  ps_live :: "pm_loop list"
  ps_publishing :: "SystemMetrics option"
  ps_detection :: detection
  ps_samples :: "SystemMetrics list"
  ps_collected :: "SystemMetrics list"
  ps_created :: "Alert list"
  ps_handled :: "Alert list"
  ps_rejected :: "Alert list"

definition NewProductionMonitoringSystem :: "unit \<Rightarrow> monitoring" where
  "NewProductionMonitoringSystem u =
     \<lparr>ps_metricsCollector = NewMetricsCollector 1000, ps_anomalyDetector = NewAnomalyDetector, ps_alertManager = NewAlertManager,
      ps_analysisResults = [], ps_updateChannel = [], ps_wsConnections = Map.empty, ps_running = False, ps_stopped = False,
      ps_stopping = False, ps_startTime = 0, ps_lastNumGC = 0, ps_cancelled = False, ps_closes = 0, ps_live = [],
      ps_publishing = None, ps_detection = DetectionIdle, ps_samples = [], ps_collected = [], ps_created = [], ps_handled = [],
      ps_rejected = []\<rparr>"

section \<open>Start and stop\<close>

datatype start_result = Started | ErrStopped | ErrAlreadyRunning | ErrListen

definition Start_pm :: "bool \<Rightarrow> time \<Rightarrow> monitoring \<Rightarrow> monitoring \<times> start_result" where
  "Start_pm listens now s =
     (if ps_stopped s then (s, ErrStopped)
      else if ps_running s then (s, ErrAlreadyRunning)
      else if \<not> listens then (s, ErrListen)
      else (s\<lparr>ps_running := True, ps_startTime := now,
              ps_live := [MetricsLoop, DetectionLoop, AlertLoop, AnalysisLoop, ServeLoop, DashboardLoop]\<rparr>, Started))"

text \<open>\<^verbatim>\<open>Stop\<close> holds the lock from here until every loop has returned.\<close>

definition Stop_begin :: "monitoring \<Rightarrow> monitoring" where
  "Stop_begin s =
     (if \<not> ps_running s then s
      else s\<lparr>ps_running := False, ps_stopped := True, ps_stopping := True, ps_closes := ps_closes s + 1\<rparr>)"

definition may_exit :: "pm_loop \<Rightarrow> monitoring \<Rightarrow> bool" where
  "may_exit l s \<longleftrightarrow> l \<in> set (ps_live s) \<and> (ps_cancelled s \<or> ps_stopped s \<or> l = ServeLoop) \<and>
     (l = MetricsLoop \<longrightarrow> ps_publishing s = None) \<and> (l = DetectionLoop \<longrightarrow> ps_detection s = DetectionIdle)"

section \<open>The loops\<close>

definition push_update :: "update_data \<Rightarrow> time \<Rightarrow> monitoring \<Rightarrow> monitoring" where
  "push_update d now s =
     (if length (ps_updateChannel s) < 1000
      then s\<lparr>ps_updateChannel := ps_updateChannel s @ [\<lparr>du_Timestamp = now, du_Data = d\<rparr>]\<rparr> else s)"

definition collect_tick :: "observation \<Rightarrow> monitoring \<Rightarrow> monitoring" where
  "collect_tick ob s =
     (let m = collectSystemMetrics ob (ps_lastNumGC s)
      in s\<lparr>ps_lastNumGC := rt_NumGC (ob_mem ob), ps_metricsCollector := AddMetrics m (ps_metricsCollector s),
           ps_publishing := Some m, ps_collected := ps_collected s @ [m]\<rparr>)"

definition detection_tick :: "monitoring \<Rightarrow> monitoring" where
  "detection_tick s =
     (case mc_currentMetrics (ps_metricsCollector s) of
        None \<Rightarrow> s
      | Some m \<Rightarrow> s\<lparr>ps_detection := Creating m (detected (ps_anomalyDetector s) m)\<rparr>)"

definition createAlert :: "alert_kind \<Rightarrow> SystemMetrics \<Rightarrow> time \<Rightarrow> monitoring \<Rightarrow> monitoring" where
  "createAlert k m now s =
     (let a = new_alert k m now; am = ps_alertManager s; s1 = s\<lparr>ps_created := ps_created s @ [a]\<rparr>
      in if length (am_notificationQueue am) < 100
         then s1\<lparr>ps_alertManager := am\<lparr>am_notificationQueue := am_notificationQueue am @ [a]\<rparr>\<rparr>
         else s1\<lparr>ps_rejected := ps_rejected s @ [a]\<rparr>)"

definition detection_next :: "time \<Rightarrow> monitoring \<Rightarrow> monitoring option" where
  "detection_next now s =
     (case ps_detection s of
        DetectionIdle \<Rightarrow> None
      | Creating m (k # ks) \<Rightarrow> Some ((createAlert k m now s)\<lparr>ps_detection := Creating m ks\<rparr>)
      | Creating m [] \<Rightarrow> Some (s\<lparr>ps_anomalyDetector := updateStatisticalModel m (ps_startTime s) now (ps_anomalyDetector s),
                               ps_detection := DetectionIdle, ps_samples := ps_samples s @ [m]\<rparr>))"

definition processAlert :: "Alert \<Rightarrow> time \<Rightarrow> monitoring \<Rightarrow> monitoring" where
  "processAlert a now s =
     (let am = ps_alertManager s; h = am_alertHistory am
      in case am_activeAlerts am (al_Type a) of
           Some i \<Rightarrow> s\<lparr>ps_alertManager := am\<lparr>am_alertHistory :=
                         h[i := (h ! i)\<lparr>al_Timestamp := al_Timestamp a, al_Metadata := al_Metadata a\<rparr>]\<rparr>\<rparr>
         | None \<Rightarrow> push_update (AlertData a) now
                     (s\<lparr>ps_alertManager := am\<lparr>am_activeAlerts := (am_activeAlerts am)(al_Type a \<mapsto> length h),
                                              am_alertHistory := h @ [a], am_notified := am_notified am @ [a]\<rparr>\<rparr>))"

definition alert_take :: "time \<Rightarrow> monitoring \<Rightarrow> monitoring option" where
  "alert_take now s =
     (case am_notificationQueue (ps_alertManager s) of
        [] \<Rightarrow> None
      | a # rest \<Rightarrow> Some (processAlert a now
          (s\<lparr>ps_alertManager := (ps_alertManager s)\<lparr>am_notificationQueue := rest\<rparr>, ps_handled := ps_handled s @ [a]\<rparr>)))"

definition analyzeTrends :: "SystemMetrics list \<Rightarrow> real \<times> real" where
  "analyzeTrends d = (sm_CPUUsage (last d) - sm_CPUUsage (d ! 0), sm_MemoryPercent (last d) - sm_MemoryPercent (d ! 0))"

definition analyzePerformance :: "SystemMetrics list \<Rightarrow> real \<times> real" where
  "analyzePerformance d =
     (let ps = filter (\<lambda>p. 0 < p) (map sm_GCPauseTime d)
      in (if length ps > 0 then real (unat (sum_list ps)) / real (length ps) / 1000000 else 0,
          real (unat (foldl max 0 ps)) / 1000000))"

definition analyzeCapacity :: "SystemMetrics list \<Rightarrow> 64 word \<times> int" where
  "analyzeCapacity d = (foldl max 0 (map sm_MemoryUsage d) div (1024 * 1024), foldl max 0 (map sm_GoroutineCount d))"

definition generateRecommendations :: "SystemMetrics list \<Rightarrow> recommendation list" where
  "generateRecommendations d =
     (if d = [] then []
      else (let m = last d in
        (if sm_CPUUsage m > 80 then [ScaleOut] else []) @ (if sm_MemoryPercent m > 85 then [MoreMemory] else []) @
        (if sm_GoroutineCount m > 5000 then [FewerGoroutines] else []) @ (if sm_GCPauseTime m > 50000000 then [TuneGC] else [])))"

definition performAutomaticAnalysis :: "time \<Rightarrow> monitoring \<Rightarrow> monitoring" where
  "performAutomaticAnalysis now s =
     (let d = GetHistoricalData 100 (ps_metricsCollector s)
      in if length d < 10 then s
         else s\<lparr>ps_analysisResults := ps_analysisResults s @
                 [\<lparr>an_Timestamp = now, an_trend = analyzeTrends d, an_gc = analyzePerformance d, an_capacity = analyzeCapacity d,
                   an_Recommendations = generateRecommendations d, an_data_points = length d\<rparr>]\<rparr>)"

definition offer :: "DashboardUpdate \<Rightarrow> ws_conn \<Rightarrow> ws_conn" where
  "offer u c = (if length (wsc_SendChannel c) < wsc_cap c then c\<lparr>wsc_SendChannel := wsc_SendChannel c @ [u]\<rparr> else c)"

definition broadcastUpdate :: "bool \<Rightarrow> DashboardUpdate \<Rightarrow> monitoring \<Rightarrow> monitoring" where
  "broadcastUpdate marshals u s =
     (if \<not> marshals then s else s\<lparr>ps_wsConnections := (\<lambda>k. map_option (offer u) (ps_wsConnections s k))\<rparr>)"

definition dashboard_take :: "bool \<Rightarrow> monitoring \<Rightarrow> monitoring option" where
  "dashboard_take marshals s =
     (case ps_updateChannel s of
        [] \<Rightarrow> None
      | u # rest \<Rightarrow> Some (broadcastUpdate marshals u (s\<lparr>ps_updateChannel := rest\<rparr>)))"

section \<open>The HTTP interface\<close>

definition uptime :: "time \<Rightarrow> monitoring \<Rightarrow> duration" where
  "uptime now s = (if ps_startTime s = 0 then 0 else time_Sub now (ps_startTime s))"

definition metricsAPIHandler :: "monitoring \<Rightarrow> SystemMetrics option" where
  "metricsAPIHandler s = mc_currentMetrics (ps_metricsCollector s)"

text \<open>\<open>order\<close> is the order in which the handler ranges over the active alerts.\<close>

definition alertsAPIHandler :: "string list \<Rightarrow> monitoring \<Rightarrow> Alert list" where
  "alertsAPIHandler order s =
     (let am = ps_alertManager s in map (\<lambda>k. am_alertHistory am ! the (am_activeAlerts am k)) order)"

definition analysisAPIHandler :: "monitoring \<Rightarrow> AnalysisResult option" where
  "analysisAPIHandler s = (if ps_analysisResults s = [] then None else Some (last (ps_analysisResults s)))"

section \<open>Steps\<close>

datatype pm_event =
  PmStart bool time | PmStop | PmStopped | PmCancel | PmCollect observation | PmPublish time | PmDetect | PmCreate time
| PmAlert time | PmAnalyse time | PmBroadcast bool | PmExit pm_loop

fun pm_step :: "monitoring \<Rightarrow> pm_event \<Rightarrow> monitoring option" where
  "pm_step s (PmStart listens now) = (if ps_stopping s then None else Some (fst (Start_pm listens now s)))"
| "pm_step s PmStop = (if ps_stopping s then None else Some (Stop_begin s))"
| "pm_step s PmStopped = (if ps_stopping s \<and> ps_live s = [] then Some (s\<lparr>ps_stopping := False\<rparr>) else None)"
| "pm_step s PmCancel = Some (s\<lparr>ps_cancelled := True\<rparr>)"
| "pm_step s (PmCollect ob) =
     (if MetricsLoop \<in> set (ps_live s) \<and> ps_publishing s = None then Some (collect_tick ob s) else None)"
| "pm_step s (PmPublish now) =
     (case ps_publishing s of None \<Rightarrow> None | Some m \<Rightarrow> Some ((push_update (MetricsData m) now s)\<lparr>ps_publishing := None\<rparr>))"
| "pm_step s PmDetect =
     (if DetectionLoop \<in> set (ps_live s) \<and> ps_detection s = DetectionIdle then Some (detection_tick s) else None)"
| "pm_step s (PmCreate now) = detection_next now s"
| "pm_step s (PmAlert now) = (if AlertLoop \<in> set (ps_live s) then alert_take now s else None)"
| "pm_step s (PmAnalyse now) = (if AnalysisLoop \<in> set (ps_live s) then Some (performAutomaticAnalysis now s) else None)"
| "pm_step s (PmBroadcast marshals) = (if DashboardLoop \<in> set (ps_live s) then dashboard_take marshals s else None)"
| "pm_step s (PmExit l) = (if may_exit l s then Some (s\<lparr>ps_live := remove1 l (ps_live s)\<rparr>) else None)"

section \<open>Garbage collection pauses\<close>

lemma foldl_max_image:
  "foldl (\<lambda>p i. max p (f i)) (a :: 'b :: linorder) xs = Max (insert a (f ` set xs))"
proof (induction xs rule: rev_induct)
  case Nil
  then show ?case by simp
next
  case (snoc x xs)
  have "insert a (f ` set (xs @ [x])) = insert (f x) (insert a (f ` set xs))" by auto
  then show ?case using snoc by (simp add: max.commute)
qed

lemma new_gc_count:
  assumes "l \<le> g" and "g - l < 4294967296"
  shows "unat (min (of_nat g - of_nat l :: 32 word) 256) = min (g - l) 256"
proof -
  have "(of_nat g - of_nat l :: 32 word) = of_nat (g - l)" using assms(1) by simp
  then have "unat (of_nat g - of_nat l :: 32 word) = g - l" using assms(2) by (simp add: unat_of_nat)
  then show ?thesis by (simp add: min_def word_le_nat_alt)
qed

lemma pause_index:
  assumes "i < g"
  shows "unat ((of_nat g - of_nat i + 255 :: 32 word) mod 256) = (g - 1 - i) mod 256"
proof -
  have w: "(of_nat g - of_nat i + 255 :: 32 word) = of_nat ((g - 1 - i) + 256)"
    using assms by (simp add: of_nat_diff)
  have "unat ((of_nat ((g - 1 - i) + 256) :: 32 word) mod 256) = ((g - 1 - i) + 256) mod 4294967296 mod 256"
    by (simp only: unat_mod unat_of_nat) simp
  also have "\<dots> = ((g - 1 - i) + 256) mod 256" by (rule mod_mod_cancel) simp
  finally show ?thesis by (simp add: w)
qed

text \<open>
  The runtime keeps the pauses of the last 256 collections in a ring, the \<open>k\<close>-th one at \<open>k mod 256\<close>,
  and counts collections in 32 bits.
\<close>

definition pause_ring :: "(nat \<Rightarrow> 64 word) \<Rightarrow> nat \<Rightarrow> MemStats \<Rightarrow> bool" where
  "pause_ring pauses g mem \<longleftrightarrow> length (rt_PauseNs mem) = 256 \<and> rt_NumGC mem = of_nat g \<and>
     (\<forall>k < g. g \<le> k + 256 \<longrightarrow> rt_PauseNs mem ! (k mod 256) = pauses k)"

text \<open>
  C40. The pause that a collection reports is the longest among the collections since the previous
  one, or among the last 256 when there were more, and 0 when there was none; also when the 32-bit
  counter has wrapped around.
\<close>

theorem gc_pause_is_longest_new:
  assumes "pause_ring pauses g mem" and "l \<le> g" and "g - l < 4294967296"
  shows "newGCPauseMax mem (of_nat l) = Max (insert 0 (pauses ` {max l (g - 256)..<g}))"
proof -
  let ?n = "min (g - l) 256"
  have at: "rt_PauseNs mem ! unat ((of_nat g - of_nat i + 255 :: 32 word) mod 256) = pauses (g - 1 - i)" if "i < ?n" for i
  proof -
    have "i < g" "g - 1 - i < g" "g \<le> (g - 1 - i) + 256" using that by auto
    then have "rt_PauseNs mem ! ((g - 1 - i) mod 256) = pauses (g - 1 - i)" using assms(1) unfolding pause_ring_def by blast
    then show ?thesis unfolding pause_index [OF \<open>i < g\<close>] .
  qed
  have "newGCPauseMax mem (of_nat l) =
      Max (insert 0 ((\<lambda>i. rt_PauseNs mem ! unat ((of_nat g - of_nat i + 255 :: 32 word) mod 256)) ` {0..<?n}))"
    using assms(1) new_gc_count [OF assms(2,3)] unfolding newGCPauseMax_def foldl_max_image
    by (simp add: pause_ring_def Let_def)
  also have "(\<lambda>i. rt_PauseNs mem ! unat ((of_nat g - of_nat i + 255 :: 32 word) mod 256)) ` {0..<?n} = pauses ` (\<lambda>i. g - 1 - i) ` {0..<?n}"
    unfolding image_image by (rule image_cong) (simp_all add: at)
  also have "(\<lambda>i. g - 1 - i) ` {0..<?n} = {max l (g - 256)..<g}"
  proof (intro equalityI subsetI)
    fix k assume "k \<in> {max l (g - 256)..<g}"
    then have "g - 1 - k \<in> {0..<?n}" "k = g - 1 - (g - 1 - k)" by auto
    then show "k \<in> (\<lambda>i. g - 1 - i) ` {0..<?n}" by (rule rev_image_eqI)
  qed (use assms(2) in auto)
  finally show ?thesis .
qed

text \<open>Three collections across the wrap-around of the counter.\<close>

definition wrapped_mem :: MemStats where
  "wrapped_mem =
     \<lparr>rt_Alloc = 0, rt_Sys = 1, rt_HeapAlloc = 0, rt_HeapSys = 1, rt_NumGC = 1,
      rt_PauseNs = [40] @ replicate 253 9 @ [20, 30]\<rparr>"

lemma gc_pause_is_longest_new_witness: "newGCPauseMax wrapped_mem (of_nat 4294967294) = 40"
proof -
  define pauses where "pauses = (\<lambda>k. rt_PauseNs wrapped_mem ! (k mod 256))"
  have r: "pause_ring pauses 4294967297 wrapped_mem"
    by (simp add: pause_ring_def wrapped_mem_def pauses_def)
  have "{max 4294967294 (4294967297 - 256)..<4294967297} = {4294967294, 4294967295, 4294967296 :: nat}" by auto
  moreover have "pauses 4294967294 = 20" "pauses 4294967295 = 30" "pauses 4294967296 = 40"
    by (simp_all add: pauses_def wrapped_mem_def nth_append)
  ultimately have "Max (insert 0 (pauses ` {max 4294967294 (4294967297 - 256)..<4294967297})) = 40" by simp
  then show ?thesis using gc_pause_is_longest_new [OF r, of 4294967294] by simp
qed

section \<open>The statistical model\<close>

text \<open>The reference: mean and (population) standard deviation of a list of samples.\<close>

definition mean_of :: "real list \<Rightarrow> real" where
  "mean_of xs = sum_list xs / real (length xs)"

definition stddev_of :: "real list \<Rightarrow> real" where
  "stddev_of xs = sqrt (sum_list (map (\<lambda>x. (x - mean_of xs)\<^sup>2) xs) / real (length xs))"

lemma sum_sq_dev: "sum_list (map (\<lambda>x. (x - m)\<^sup>2) xs) = sum_list (map (\<lambda>x. x\<^sup>2) xs) - 2 * m * sum_list xs + real (length xs) * m\<^sup>2"
  for m :: real
  by (induction xs) (auto simp: algebra_simps power2_eq_square)

lemma sum_sq_dev_mean:
  assumes "xs \<noteq> []"
  shows "sum_list (map (\<lambda>x. (x - mean_of xs)\<^sup>2) xs) = sum_list (map (\<lambda>x. x\<^sup>2) xs) - real (length xs) * (mean_of xs)\<^sup>2"
proof -
  have "sum_list xs = real (length xs) * mean_of xs" using assms by (simp add: mean_of_def)
  then show ?thesis unfolding sum_sq_dev by (simp add: power2_eq_square)
qed

lemma online_mean_snoc:
  assumes "xs \<noteq> []"
  shows "online_mean (real (length xs)) (mean_of xs) x = mean_of (xs @ [x])"
proof -
  let ?n = "real (length xs)"
  have n: "?n > 0" using assms by simp
  then have "sum_list xs = ?n * mean_of xs" by (simp add: mean_of_def)
  then have "mean_of (xs @ [x]) = (?n * mean_of xs + x) / (?n + 1)" by (simp add: mean_of_def add.commute)
  moreover have "online_mean ?n (mean_of xs) x = (?n * mean_of xs + x) / (?n + 1)"
    using n by (simp add: online_mean_def field_simps)
  ultimately show ?thesis by simp
qed

lemma sum_sq_nonneg: "0 \<le> sum_list (map (\<lambda>x. (x - m)\<^sup>2) xs)" for m :: real
  by (rule sum_list_nonneg) auto

lemma online_stddev_snoc:
  assumes "xs \<noteq> []"
  shows "online_stddev (real (length xs)) (mean_of xs) (stddev_of xs) x = stddev_of (xs @ [x])"
proof -
  let ?n = "real (length xs)" and ?m = "mean_of xs" and ?m' = "mean_of (xs @ [x])"
  let ?q = "\<lambda>ys. sum_list (map (\<lambda>y. (y :: real)\<^sup>2) ys)"
  have n: "?n > 0" using assms by simp
  have s: "stddev_of xs * stddev_of xs * ?n = ?q xs - ?n * ?m\<^sup>2"
    using n sum_sq_nonneg [of ?m xs] sum_sq_dev_mean [OF assms] by (simp add: stddev_of_def)
  have m': "(?n + 1) * ?m' = ?n * ?m + x"
    using n unfolding online_mean_snoc [OF assms, symmetric] by (simp add: online_mean_def field_simps)
  have "(?n + 1) * ?m'\<^sup>2 = (?n * ?m + x) * ?m'" unfolding m' [symmetric] by (simp add: power2_eq_square)
  moreover have "(x - ?m) * (x - ?m') = x\<^sup>2 + ?n * ?m\<^sup>2 - (?n * ?m + x) * ?m'"
  proof -
    have "x * ?m = ?m * ((?n + 1) * ?m' - ?n * ?m)" unfolding m' by simp
    then show ?thesis by (simp add: algebra_simps power2_eq_square)
  qed
  ultimately have "?q xs - ?n * ?m\<^sup>2 + (x - ?m) * (x - ?m') = ?q (xs @ [x]) - (?n + 1) * ?m'\<^sup>2" by simp
  then have e: "stddev_of xs * stddev_of xs * ?n + (x - ?m) * (x - ?m') = ?q (xs @ [x]) - (?n + 1) * ?m'\<^sup>2"
    unfolding s .
  have l: "real (length (xs @ [x])) = ?n + 1" by simp
  have "stddev_of (xs @ [x]) = sqrt ((?q (xs @ [x]) - (?n + 1) * ?m'\<^sup>2) / (?n + 1))"
    unfolding stddev_of_def by (subst sum_sq_dev_mean) (simp_all only: l, simp)
  then show ?thesis by (simp only: online_stddev_def online_mean_snoc [OF assms] Let_def e)
qed

text \<open>What the model holds of a list of samples of one metric.\<close>

definition holds_of :: "real list \<Rightarrow> real \<Rightarrow> real \<Rightarrow> bool" where
  "holds_of xs mean dev \<longleftrightarrow> (xs \<noteq> [] \<longrightarrow> mean = mean_of xs \<and> dev = stddev_of xs)"

lemma holds_one: "holds_of [x] x 0"
  by (simp add: holds_of_def mean_of_def stddev_of_def)

lemma holds_snoc:
  "xs \<noteq> [] \<Longrightarrow> holds_of xs mean dev \<Longrightarrow>
     holds_of (xs @ [x]) (online_mean (real (length xs)) mean x) (online_stddev (real (length xs)) mean dev x)"
  by (simp add: holds_of_def online_mean_snoc online_stddev_snoc)

definition model_of :: "SystemMetrics list \<Rightarrow> StatisticalModel \<Rightarrow> bool" where
  "model_of ms st \<longleftrightarrow> st_SampleCount st = int (length ms) \<and>
     holds_of (map sm_CPUUsage ms) (st_CPUMean st) (st_CPUStdDev st) \<and>
     holds_of (map sm_MemoryPercent ms) (st_MemoryMean st) (st_MemoryStdDev st) \<and>
     holds_of (map (\<lambda>m. real_of_int (sm_GoroutineCount m)) ms) (st_GoroutineMean st) (st_GoroutineStdDev st)"

lemma model_of_empty: "model_of [] empty_model"
  by (simp add: model_of_def empty_model_def holds_of_def)

lemma model_of_update:
  assumes "model_of ms st"
  shows "model_of (ms @ [m]) (update_model m now st)"
proof (cases "ms = []")
  case True
  then show ?thesis using assms by (simp add: model_of_def update_model_def Let_def holds_one)
next
  case False
  then have "real_of_int (int (length ms)) \<noteq> 0" by simp
  then show ?thesis using assms False
      holds_snoc [of "map sm_CPUUsage ms" "st_CPUMean st" "st_CPUStdDev st" "sm_CPUUsage m"]
      holds_snoc [of "map sm_MemoryPercent ms" "st_MemoryMean st" "st_MemoryStdDev st" "sm_MemoryPercent m"]
      holds_snoc [of "map (\<lambda>m. real_of_int (sm_GoroutineCount m)) ms" "st_GoroutineMean st" "st_GoroutineStdDev st" "real_of_int (sm_GoroutineCount m)"]
    by (simp add: model_of_def update_model_def Let_def)
qed

section \<open>What every interleaving keeps\<close>

text \<open>The collector keeps the newest thousand samples, and the model describes the analysed ones.\<close>

definition collector_ok :: "monitoring \<Rightarrow> bool" where
  "collector_ok s \<longleftrightarrow> (let mc = ps_metricsCollector s; ms = ps_collected s in
     mc_maxHistorySize mc = 1000 \<and> mc_historicalData mc = lastn 1000 ms \<and> mc_collectionCount mc = int (length ms) \<and>
     mc_currentMetrics mc = (if ms = [] then None else Some (last ms))) \<and>
     model_of (ps_samples s) (ad_statisticalModel (ps_anomalyDetector s)) \<and>
     ad_thresholds (ps_anomalyDetector s) = ad_thresholds NewAnomalyDetector"

text \<open>The table of active alerts is an index of the history by type.\<close>

definition index_ok :: "(string \<rightharpoonup> nat) \<Rightarrow> Alert list \<Rightarrow> bool" where
  "index_ok act h \<longleftrightarrow> distinct (map al_Type h) \<and>
     (\<forall>t i. act t = Some i \<longleftrightarrow> i < length h \<and> al_Type (h ! i) = t)"

definition manager_ok :: "monitoring \<Rightarrow> bool" where
  "manager_ok s \<longleftrightarrow> (let am = ps_alertManager s in
     index_ok (am_activeAlerts am) (am_alertHistory am) \<and>
     map al_Type (am_notified am) = map al_Type (am_alertHistory am) \<and>
     al_Type ` set (ps_handled s) = al_Type ` set (am_alertHistory am) \<and>
     length (am_notificationQueue am) \<le> 100 \<and>
     mset (ps_created s) = mset (ps_handled s) + mset (am_notificationQueue am) + mset (ps_rejected s))"

definition dashboard_ok :: "monitoring \<Rightarrow> bool" where
  "dashboard_ok s \<longleftrightarrow> length (ps_updateChannel s) \<le> 1000 \<and> ps_wsConnections s = Map.empty"

definition statistical :: "string set" where
  "statistical = {''cpu_statistical'', ''memory_statistical'', ''goroutine_statistical''}"

definition pending_kinds :: "monitoring \<Rightarrow> alert_kind list" where
  "pending_kinds s = (case ps_detection s of DetectionIdle \<Rightarrow> [] | Creating m ks \<Rightarrow> ks)"

definition learning_ok :: "monitoring \<Rightarrow> bool" where
  "learning_ok s \<longleftrightarrow> (ad_isLearning (ps_anomalyDetector s) \<longrightarrow>
     fst ` set (pending_kinds s) \<inter> statistical = {} \<and> al_Type ` set (ps_created s) \<inter> statistical = {})"

definition life_ok :: "monitoring \<Rightarrow> bool" where
  "life_ok s \<longleftrightarrow> ps_closes s = (if ps_stopped s then 1 else 0) \<and> (ps_running s \<longrightarrow> \<not> ps_stopped s) \<and>
     (ps_stopping s \<longrightarrow> ps_stopped s) \<and> distinct (ps_live s) \<and>
     (ps_live s \<noteq> [] \<longrightarrow> ps_running s \<or> ps_stopping s) \<and>
     (ps_publishing s \<noteq> None \<longrightarrow> MetricsLoop \<in> set (ps_live s)) \<and>
     (ps_detection s \<noteq> DetectionIdle \<longrightarrow> DetectionLoop \<in> set (ps_live s))"

definition pm_inv :: "unit \<Rightarrow> monitoring \<Rightarrow> bool" where
  "pm_inv u s \<longleftrightarrow> collector_ok s \<and> manager_ok s \<and> dashboard_ok s \<and> learning_ok s \<and> life_ok s"

lemmas pm_parts = collector_ok_def manager_ok_def dashboard_ok_def learning_ok_def life_ok_def pending_kinds_def

lemma index_empty: "index_ok Map.empty []"
  by (simp add: index_ok_def)

lemma index_new:
  assumes "index_ok act h" and "act (al_Type a) = None"
  shows "index_ok (act(al_Type a \<mapsto> length h)) (h @ [a])"
proof -
  have new: "al_Type (h ! i) \<noteq> al_Type a" if "i < length h" for i
  proof
    assume "al_Type (h ! i) = al_Type a"
    then have "act (al_Type a) = Some i" using that assms(1) by (simp add: index_ok_def)
    then show False using assms(2) by simp
  qed
  then have "al_Type a \<notin> al_Type ` set h" by (metis imageE in_set_conv_nth)
  then have d: "distinct (map al_Type (h @ [a]))" using assms(1) by (simp add: index_ok_def)
  have "(act(al_Type a \<mapsto> length h)) t = Some i \<longleftrightarrow> i < length (h @ [a]) \<and> al_Type ((h @ [a]) ! i) = t" for t i
  proof (cases "i < length h")
    case True
    then show ?thesis using new [OF True] assms(1) by (simp add: index_ok_def nth_append)
  next
    case False
    then have "act t \<noteq> Some i" using assms(1) by (simp add: index_ok_def)
    then show ?thesis using False by (auto simp: nth_append less_Suc_eq)
  qed
  then show ?thesis using d by (simp add: index_ok_def)
qed

lemma index_update:
  assumes "al_Type b = al_Type (h ! i)"
  shows "map al_Type (h[i := b]) = map al_Type h" and "index_ok act (h[i := b]) = index_ok act h"
proof -
  show m: "map al_Type (h[i := b]) = map al_Type h"
    using assms by (cases "i < length h") (simp_all add: map_update list_update_same_conv list_update_beyond)
  have "al_Type (h[i := b] ! j) = al_Type (h ! j)" if "j < length h" for j
    using arg_cong [OF m, of "\<lambda>ts. ts ! j"] that by simp
  then show "index_ok act (h[i := b]) = index_ok act h" unfolding index_ok_def m by auto
qed

lemma index_type: "index_ok act h \<Longrightarrow> act t = Some i \<Longrightarrow> i < length h \<and> al_Type (h ! i) = t"
  by (simp add: index_ok_def)

lemma index_dom:
  assumes "index_ok act h"
  shows "dom act = al_Type ` set h"
proof (rule set_eqI)
  fix t
  have "t \<in> dom act \<longleftrightarrow> (\<exists>i < length h. al_Type (h ! i) = t)" using assms by (auto simp: index_ok_def dom_def)
  also have "\<dots> \<longleftrightarrow> t \<in> al_Type ` set h" by (metis imageE image_eqI in_set_conv_nth)
  finally show "t \<in> dom act \<longleftrightarrow> t \<in> al_Type ` set h" .
qed

lemma lastn_add: "mc_historicalData mc = lastn 1000 ms \<Longrightarrow> mc_maxHistorySize mc = 1000 \<Longrightarrow>
    mc_historicalData (AddMetrics m mc) = lastn 1000 (ms @ [m])"
proof -
  assume a: "mc_historicalData mc = lastn 1000 ms" "mc_maxHistorySize mc = 1000"
  have "Suc (length ms - 1000) = length ms - 999" if "\<not> length ms < 1000" using that by linarith
  then show ?thesis using a by (cases "length ms < 1000") (auto simp: AddMetrics_def Let_def lastn_def)
qed

lemma threshold_not_statistical: "fst ` set (threshold_alerts th m) \<inter> statistical = {}"
  by (auto simp: threshold_alerts_def statistical_def)

subsection \<open>Alerts\<close>

lemma push_update_frame:
  "ps_metricsCollector (push_update d now s) = ps_metricsCollector s"
  "ps_anomalyDetector (push_update d now s) = ps_anomalyDetector s"
  "ps_alertManager (push_update d now s) = ps_alertManager s"
  "ps_wsConnections (push_update d now s) = ps_wsConnections s"
  "ps_detection (push_update d now s) = ps_detection s" "ps_publishing (push_update d now s) = ps_publishing s"
  "ps_samples (push_update d now s) = ps_samples s" "ps_collected (push_update d now s) = ps_collected s"
  "ps_created (push_update d now s) = ps_created s" "ps_handled (push_update d now s) = ps_handled s"
  "ps_rejected (push_update d now s) = ps_rejected s" "ps_live (push_update d now s) = ps_live s"
  "ps_running (push_update d now s) = ps_running s" "ps_stopped (push_update d now s) = ps_stopped s"
  "ps_stopping (push_update d now s) = ps_stopping s" "ps_closes (push_update d now s) = ps_closes s"
  by (simp_all add: push_update_def)

lemma push_update_bound: "length (ps_updateChannel s) \<le> 1000 \<Longrightarrow> length (ps_updateChannel (push_update d now s)) \<le> 1000"
  by (simp add: push_update_def)

lemma pm_push_update_inv: "pm_inv u s \<Longrightarrow> pm_inv u (push_update d now s)"
  using push_update_bound [of s d now] by (simp add: pm_inv_def pm_parts push_update_frame)

lemma pm_alert_take_inv:
  assumes "pm_inv u s" and "alert_take now s = Some s'"
  shows "pm_inv u s'"
proof -
  let ?am = "ps_alertManager s" and ?h = "am_alertHistory (ps_alertManager s)"
  obtain a rest where q: "am_notificationQueue ?am = a # rest"
    using assms(2) by (cases "am_notificationQueue ?am") (simp_all add: alert_take_def)
  have m: "manager_ok s" using assms(1) by (simp add: pm_inv_def)
  show ?thesis
  proof (cases "am_activeAlerts ?am (al_Type a)")
    case None
    have i: "index_ok ((am_activeAlerts ?am)(al_Type a \<mapsto> length ?h)) (?h @ [a])"
      using m None by (simp add: manager_ok_def Let_def index_new)
    let ?s0 = "s\<lparr>ps_alertManager := ?am\<lparr>am_notificationQueue := rest\<rparr>, ps_handled := ps_handled s @ [a]\<rparr>"
    let ?s1 = "?s0\<lparr>ps_alertManager := (ps_alertManager ?s0)\<lparr>am_activeAlerts := (am_activeAlerts (ps_alertManager ?s0))(al_Type a \<mapsto> length (am_alertHistory (ps_alertManager ?s0))),
        am_alertHistory := am_alertHistory (ps_alertManager ?s0) @ [a], am_notified := am_notified (ps_alertManager ?s0) @ [a]\<rparr>\<rparr>"
    have "pm_inv u ?s1" using assms(1) i q by (simp add: pm_inv_def pm_parts Let_def)
    moreover have "s' = push_update (AlertData a) now ?s1"
      using assms(2) q None unfolding alert_take_def processAlert_def by (simp only: list.case option.inject Let_def) simp
    ultimately show ?thesis by (simp add: pm_push_update_inv)
  next
    case (Some i)
    let ?b = "(?h ! i)\<lparr>al_Timestamp := al_Timestamp a, al_Metadata := al_Metadata a\<rparr>"
    have ix: "i < length ?h" "al_Type (?h ! i) = al_Type a"
      using index_type m Some by (auto simp: manager_ok_def Let_def)
    have t: "al_Type ?b = al_Type (?h ! i)" by simp
    have st: "al_Type ` set (?h[i := ?b]) = al_Type ` set ?h" using index_update(1) [OF t] by (metis set_map)
    have "al_Type a \<in> al_Type ` set ?h" using ix by (metis nth_mem rev_image_eqI)
    then have hs: "insert (al_Type a) (al_Type ` set ?h) = al_Type ` set ?h" by blast
    let ?s0 = "s\<lparr>ps_alertManager := ?am\<lparr>am_notificationQueue := rest\<rparr>, ps_handled := ps_handled s @ [a]\<rparr>"
    have "s' = ?s0\<lparr>ps_alertManager := (ps_alertManager ?s0)\<lparr>am_alertHistory := ?h[i := ?b]\<rparr>\<rparr>"
      using assms(2) q Some unfolding alert_take_def processAlert_def by (simp only: list.case option.inject Let_def) simp
    then show ?thesis using assms(1) q hs st index_update [OF t]
      by (simp add: pm_inv_def pm_parts Let_def)
  qed
qed

lemma pm_create_inv:
  assumes "pm_inv u s" and "detection_next now s = Some s'"
  shows "pm_inv u s'"
proof (cases "ps_detection s")
  case DetectionIdle
  then show ?thesis using assms(2) by (simp add: detection_next_def)
next
  case (Creating m ks)
  show ?thesis
  proof (cases ks)
    case Nil
    then have e: "s' = s\<lparr>ps_anomalyDetector := updateStatisticalModel m (ps_startTime s) now (ps_anomalyDetector s),
        ps_detection := DetectionIdle, ps_samples := ps_samples s @ [m]\<rparr>"
      using assms(2) Creating by (simp add: detection_next_def)
    have "collector_ok s'" using assms(1) model_of_update unfolding e
      by (simp add: pm_inv_def collector_ok_def updateStatisticalModel_def)
    moreover have "learning_ok s'" using assms(1) unfolding e
      by (simp add: pm_inv_def learning_ok_def pending_kinds_def updateStatisticalModel_def)
    ultimately show ?thesis using assms(1) unfolding e
      by (simp add: pm_inv_def manager_ok_def dashboard_ok_def life_ok_def)
  next
    case (Cons k rest)
    let ?a = "new_alert k m now"
    have t: "al_Type ?a = fst k" by (simp add: new_alert_def)
    have e: "s' = (createAlert k m now s)\<lparr>ps_detection := Creating m rest\<rparr>"
      using assms(2) Creating Cons by (simp add: detection_next_def)
    have "learning_ok s'" using assms(1) Creating Cons t unfolding e
      by (simp add: pm_inv_def learning_ok_def pending_kinds_def createAlert_def Let_def)
    moreover have "manager_ok s'" using assms(1) unfolding e
      by (simp add: pm_inv_def manager_ok_def createAlert_def Let_def)
    moreover have "life_ok s'" using assms(1) Creating unfolding e
      by (auto simp: pm_inv_def life_ok_def createAlert_def Let_def)
    ultimately show ?thesis using assms(1) unfolding e
      by (simp add: pm_inv_def collector_ok_def dashboard_ok_def createAlert_def Let_def)
  qed
qed

lemma pm_detection_tick_inv:
  assumes "pm_inv u s" and "DetectionLoop \<in> set (ps_live s)" and "ps_detection s = DetectionIdle"
  shows "pm_inv u (detection_tick s)"
proof (cases "mc_currentMetrics (ps_metricsCollector s)")
  case None
  then show ?thesis using assms(1) by (simp add: detection_tick_def)
next
  case (Some m)
  then have e: "detection_tick s = s\<lparr>ps_detection := Creating m (detected (ps_anomalyDetector s) m)\<rparr>"
    by (simp add: detection_tick_def)
  have "learning_ok (detection_tick s)" using assms(1) threshold_not_statistical unfolding e
    by (simp add: pm_inv_def learning_ok_def pending_kinds_def detected_def)
  moreover have "life_ok (detection_tick s)" using assms(1,2) unfolding e by (simp add: pm_inv_def life_ok_def)
  ultimately show ?thesis using assms(1) unfolding e
    by (simp add: pm_inv_def collector_ok_def manager_ok_def dashboard_ok_def)
qed

lemma pm_collect_inv:
  assumes "pm_inv u s" and "MetricsLoop \<in> set (ps_live s)"
  shows "pm_inv u (collect_tick ob s)"
  using assms lastn_add
  by (simp add: collect_tick_def pm_inv_def pm_parts Let_def) (simp add: AddMetrics_def Let_def)

lemma pm_exit_inv:
  assumes "pm_inv u s" and "may_exit l s"
  shows "pm_inv u (s\<lparr>ps_live := remove1 l (ps_live s)\<rparr>)"
proof -
  have "ps_live s \<noteq> []" using assms(2) by (auto simp: may_exit_def)
  then have "life_ok (s\<lparr>ps_live := remove1 l (ps_live s)\<rparr>)"
    using assms by (auto simp: pm_inv_def life_ok_def may_exit_def)
  then show ?thesis using assms(1) by (simp add: pm_inv_def collector_ok_def manager_ok_def dashboard_ok_def learning_ok_def pending_kinds_def)
qed

lemma pm_start_inv:
  assumes "pm_inv u s" and "\<not> ps_stopping s"
  shows "pm_inv u (fst (Start_pm listens now s))"
proof (cases "ps_stopped s \<or> ps_running s \<or> \<not> listens")
  case True
  then show ?thesis using assms(1) by (auto simp: Start_pm_def)
next
  case False
  then have e: "fst (Start_pm listens now s) = s\<lparr>ps_running := True, ps_startTime := now,
      ps_live := [MetricsLoop, DetectionLoop, AlertLoop, AnalysisLoop, ServeLoop, DashboardLoop]\<rparr>"
    by (simp add: Start_pm_def)
  have "life_ok (fst (Start_pm listens now s))" using assms False unfolding e by (simp add: pm_inv_def life_ok_def)
  then show ?thesis using assms(1) unfolding e
    by (simp add: pm_inv_def collector_ok_def manager_ok_def dashboard_ok_def learning_ok_def pending_kinds_def)
qed

lemma pm_stop_inv:
  assumes "pm_inv u s"
  shows "pm_inv u (Stop_begin s)"
proof (cases "ps_running s")
  case True
  then have e: "Stop_begin s = s\<lparr>ps_running := False, ps_stopped := True, ps_stopping := True, ps_closes := ps_closes s + 1\<rparr>"
    by (simp add: Stop_begin_def)
  have "life_ok (Stop_begin s)" using assms True unfolding e by (simp add: pm_inv_def life_ok_def)
  then show ?thesis using assms unfolding e
    by (simp add: pm_inv_def collector_ok_def manager_ok_def dashboard_ok_def learning_ok_def pending_kinds_def)
qed (use assms in \<open>simp add: Stop_begin_def\<close>)

lemma pm_dashboard_inv:
  assumes "pm_inv u s" and "dashboard_take marshals s = Some s'"
  shows "pm_inv u s'"
proof -
  obtain c where c: "ps_updateChannel s = c # ps_updateChannel s'" and e: "s' = s\<lparr>ps_updateChannel := ps_updateChannel s', ps_wsConnections := ps_wsConnections s'\<rparr>"
    and w: "ps_wsConnections s = Map.empty \<Longrightarrow> ps_wsConnections s' = Map.empty"
    using assms(2) by (auto simp: dashboard_take_def broadcastUpdate_def split: list.splits if_splits)
  have "dashboard_ok s'" using assms(1) c w by (simp add: pm_inv_def dashboard_ok_def)
  then show ?thesis using assms(1)
    by (subst e, subst (asm) e) (simp add: pm_inv_def collector_ok_def manager_ok_def learning_ok_def life_ok_def pending_kinds_def)
qed

lemma pm_step_inv:
  assumes "pm_inv u s" and "pm_step s e = Some s'"
  shows "pm_inv u s'"
proof (cases e)
  case (PmStart listens now)
  then show ?thesis using assms pm_start_inv by (auto split: if_splits)
next
  case PmStop
  then show ?thesis using assms pm_stop_inv by (auto split: if_splits)
next
  case PmStopped
  then have e: "s' = s\<lparr>ps_stopping := False\<rparr>" and l: "ps_live s = []" using assms(2) by (simp_all split: if_splits)
  have "life_ok s'" using assms(1) l unfolding e by (auto simp: pm_inv_def life_ok_def)
  then show ?thesis using assms(1) unfolding e
    by (simp add: pm_inv_def collector_ok_def manager_ok_def dashboard_ok_def learning_ok_def pending_kinds_def)
next
  case PmCancel
  then have e: "s' = s\<lparr>ps_cancelled := True\<rparr>" using assms(2) by simp
  show ?thesis using assms(1) unfolding e by (simp add: pm_inv_def collector_ok_def manager_ok_def dashboard_ok_def learning_ok_def life_ok_def pending_kinds_def)
next
  case (PmCollect ob)
  then show ?thesis using assms pm_collect_inv by (auto split: if_splits)
next
  case (PmPublish now)
  then obtain d where "s' = (push_update d now s)\<lparr>ps_publishing := None\<rparr>" using assms(2) by (auto split: option.splits)
  then show ?thesis using pm_push_update_inv [OF assms(1), of d now] by (simp add: pm_inv_def pm_parts)
next
  case PmDetect
  then show ?thesis using assms pm_detection_tick_inv by (auto split: if_splits)
next
  case (PmCreate now)
  then show ?thesis using assms pm_create_inv by simp
next
  case (PmAlert now)
  then show ?thesis using assms pm_alert_take_inv by (auto split: if_splits)
next
  case (PmAnalyse now)
  then have e: "s' = s\<lparr>ps_analysisResults := ps_analysisResults s'\<rparr>"
    using assms(2) by (auto simp: performAutomaticAnalysis_def Let_def split: if_splits)
  show ?thesis using assms(1) by (subst e) (simp add: pm_inv_def collector_ok_def manager_ok_def dashboard_ok_def learning_ok_def life_ok_def pending_kinds_def)
next
  case (PmBroadcast marshals)
  then show ?thesis using assms pm_dashboard_inv by (auto split: if_splits)
next
  case (PmExit l)
  then show ?thesis using assms pm_exit_inv by (auto split: if_splits)
qed

lemma pm_start: "pm_inv u (NewProductionMonitoringSystem u)"
  by (simp add: pm_inv_def pm_parts NewProductionMonitoringSystem_def NewMetricsCollector_def NewAnomalyDetector_def
      NewAlertManager_def model_of_empty index_empty lastn_def)

interpretation monitoring_runs: step_invariant pm_step NewProductionMonitoringSystem pm_inv "\<lambda>_. True"
  by unfold_locales (use pm_start pm_step_inv in blast)+

section \<open>Properties\<close>

lemma run_model: "run_steps pm_step (NewProductionMonitoringSystem ()) es = Some s \<Longrightarrow>
    model_of (ps_samples s) (ad_statisticalModel (ps_anomalyDetector s))"
  using monitoring_runs.inv_run [OF TrueI, of "()" es s] by (simp add: pm_inv_def collector_ok_def)

text \<open>
  C27. Under any interleaving the model that is updated one sample at a time holds the mean and the
  standard deviation of all analysed samples, for each of the three metrics.
\<close>

theorem statistics_are_exact:
  assumes "run_steps pm_step (NewProductionMonitoringSystem ()) es = Some s" and "ps_samples s \<noteq> []"
  shows "st_SampleCount (ad_statisticalModel (ps_anomalyDetector s)) = int (length (ps_samples s)) \<and>
    st_CPUMean (ad_statisticalModel (ps_anomalyDetector s)) = mean_of (map sm_CPUUsage (ps_samples s)) \<and>
    st_CPUStdDev (ad_statisticalModel (ps_anomalyDetector s)) = stddev_of (map sm_CPUUsage (ps_samples s)) \<and>
    st_MemoryMean (ad_statisticalModel (ps_anomalyDetector s)) = mean_of (map sm_MemoryPercent (ps_samples s)) \<and>
    st_MemoryStdDev (ad_statisticalModel (ps_anomalyDetector s)) = stddev_of (map sm_MemoryPercent (ps_samples s)) \<and>
    st_GoroutineMean (ad_statisticalModel (ps_anomalyDetector s)) = mean_of (map (\<lambda>m. real_of_int (sm_GoroutineCount m)) (ps_samples s)) \<and>
    st_GoroutineStdDev (ad_statisticalModel (ps_anomalyDetector s)) = stddev_of (map (\<lambda>m. real_of_int (sm_GoroutineCount m)) (ps_samples s))"
  using run_model [OF assms(1)] assms(2) by (simp add: model_of_def holds_of_def)

definition observe :: "int \<Rightarrow> 64 word \<Rightarrow> observation" where
  "observe g alloc =
     \<lparr>ob_mem = \<lparr>rt_Alloc = alloc, rt_Sys = 100, rt_HeapAlloc = alloc, rt_HeapSys = 100, rt_NumGC = 0, rt_PauseNs = replicate 256 0\<rparr>,
      ob_now = 5, ob_goroutines_cpu = g, ob_goroutines = g, ob_cpus = 4\<rparr>"

definition two_samples :: "pm_event list" where
  "two_samples = [PmStart True 1, PmCollect (observe 100 50), PmPublish 2, PmDetect, PmCreate 3, PmCollect (observe 300 70), PmDetect, PmCreate 4]"

lemmas pm_eval = NewProductionMonitoringSystem_def NewMetricsCollector_def NewAnomalyDetector_def NewAlertManager_def Start_pm_def
  collect_tick_def collectSystemMetrics_def newGCPauseMax_def calculateCPUUsage_def AddMetrics_def observe_def push_update_def
  detection_tick_def detected_def threshold_alerts_def detection_next_def createAlert_def new_alert_def alert_take_def processAlert_def
  updateStatisticalModel_def Stop_begin_def may_exit_def Let_def time_Sub_def Hour_def Minute_def Second_def

lemma statistics_are_exact_witness:
  "\<exists>s. run_steps pm_step (NewProductionMonitoringSystem ()) two_samples = Some s \<and> map sm_CPUUsage (ps_samples s) = [1, 3] \<and>
    st_CPUMean (ad_statisticalModel (ps_anomalyDetector s)) = 2 \<and> st_CPUStdDev (ad_statisticalModel (ps_anomalyDetector s)) = 1"
proof -
  obtain s where s: "run_steps pm_step (NewProductionMonitoringSystem ()) two_samples = Some s" "map sm_CPUUsage (ps_samples s) = [1, 3]"
    by (simp add: two_samples_def pm_eval)
  have "ps_samples s \<noteq> []" using s(2) by auto
  then show ?thesis using s statistics_are_exact [OF s(1)] by (intro exI [of _ s]) (simp add: mean_of_def stddev_of_def)
qed

text \<open>
  Once learning has ended, a sample raises a statistical alert for a metric exactly when it lies
  more than three standard deviations from the mean of all samples analysed before, provided that they
  were not all equal.
\<close>

theorem outliers_raise_alerts:
  assumes "run_steps pm_step (NewProductionMonitoringSystem ()) es = Some s" and "ps_samples s \<noteq> []"
    and "\<not> ad_isLearning (ps_anomalyDetector s)"
  shows "((''cpu_statistical'', ''WARNING'') \<in> set (detected (ps_anomalyDetector s) m)) =
      (let xs = map sm_CPUUsage (ps_samples s)
       in stddev_of xs \<noteq> 0 \<and> \<bar>sm_CPUUsage m - mean_of xs\<bar> > 3 * stddev_of xs) \<and>
    ((''memory_statistical'', ''WARNING'') \<in> set (detected (ps_anomalyDetector s) m)) =
      (let xs = map sm_MemoryPercent (ps_samples s)
       in stddev_of xs \<noteq> 0 \<and> \<bar>sm_MemoryPercent m - mean_of xs\<bar> > 3 * stddev_of xs) \<and>
    ((''goroutine_statistical'', ''WARNING'') \<in> set (detected (ps_anomalyDetector s) m)) =
      (let xs = map (\<lambda>m. real_of_int (sm_GoroutineCount m)) (ps_samples s)
       in stddev_of xs \<noteq> 0 \<and> \<bar>real_of_int (sm_GoroutineCount m) - mean_of xs\<bar> > 3 * stddev_of xs)"
proof -
  have z: "zScoreExceeds v mean (stddev_of xs) = (stddev_of xs \<noteq> 0 \<and> \<bar>v - mean\<bar> > 3 * stddev_of xs)" for v mean xs
  proof -
    have "0 \<le> stddev_of xs" using sum_sq_nonneg [of "mean_of xs" xs] by (simp add: stddev_of_def)
    then show ?thesis by (auto simp: zScoreExceeds_def abs_divide pos_less_divide_eq)
  qed
  show ?thesis using run_model [OF assms(1)] assms(2,3)
    by (simp add: model_of_def holds_of_def detected_def statistical_alerts_def threshold_alerts_def z Let_def)
qed

definition learned_samples :: "pm_event list" where
  "learned_samples = two_samples @ [PmPublish 5, PmDetect, PmCreate (25 * Hour)]"

lemma outliers_raise_alerts_witness:
  "\<exists>s m. run_steps pm_step (NewProductionMonitoringSystem ()) learned_samples = Some s \<and> sm_CPUUsage m = 60 \<and>
    (''cpu_statistical'', ''WARNING'') \<in> set (detected (ps_anomalyDetector s) m)"
proof -
  obtain s where s: "run_steps pm_step (NewProductionMonitoringSystem ()) learned_samples = Some s" "map sm_CPUUsage (ps_samples s) = [1, 3, 3]"
    "\<not> ad_isLearning (ps_anomalyDetector s)"
    by (simp add: learned_samples_def two_samples_def pm_eval)
  define m where "m = collectSystemMetrics (observe 6000 50) 0"
  have m: "sm_CPUUsage m = 60" by (simp add: m_def collectSystemMetrics_def observe_def calculateCPUUsage_def Let_def)
  have ne: "ps_samples s \<noteq> []" using s(2) by auto
  have d: "stddev_of [1, 3, 3] = sqrt (8 / 9)" by (simp add: stddev_of_def mean_of_def power2_eq_square)
  have "mean_of [1, 3, 3] = 7 / 3" by (simp add: mean_of_def)
  moreover have "sqrt (8 / 9) \<le> 1" by simp
  ultimately have "3 * sqrt (8 / 9) < \<bar>60 - mean_of [1, 3, 3]\<bar>" by linarith
  then show ?thesis using s m outliers_raise_alerts [OF s(1) ne s(3), of m] d by (intro exI [of _ s] exI [of _ m]) (simp add: Let_def)
qed

text \<open>
  Under any interleaving each type of alert is notified at most once in the life of the system:
  later alerts of the type only refresh the entry of the first one, which nothing removes.  Every
  created alert has been handled, is queued, or was lost to a full queue.
\<close>

theorem alerts_notified_once:
  assumes "run_steps pm_step (NewProductionMonitoringSystem ()) es = Some s"
  shows "distinct (map al_Type (am_notified (ps_alertManager s))) \<and>
    al_Type ` set (am_notified (ps_alertManager s)) = al_Type ` set (ps_handled s) \<and>
    dom (am_activeAlerts (ps_alertManager s)) = al_Type ` set (ps_handled s) \<and>
    mset (ps_created s) = mset (ps_handled s) + mset (am_notificationQueue (ps_alertManager s)) + mset (ps_rejected s) \<and>
    length (am_notificationQueue (ps_alertManager s)) \<le> 100 \<and> length (ps_updateChannel s) \<le> 1000"
proof -
  let ?am = "ps_alertManager s"
  have i: "manager_ok s" "dashboard_ok s" using monitoring_runs.inv_run [OF TrueI assms] by (simp_all add: pm_inv_def)
  have "al_Type ` set (am_notified ?am) = al_Type ` set (am_alertHistory ?am)"
    using i(1) by (metis (no_types, lifting) manager_ok_def set_map)
  moreover have "dom (am_activeAlerts ?am) = al_Type ` set (am_alertHistory ?am)"
    using i(1) index_dom by (simp add: manager_ok_def Let_def)
  ultimately show ?thesis using i by (simp add: manager_ok_def dashboard_ok_def index_ok_def Let_def)
qed

definition repeated_alert :: "pm_event list" where
  "repeated_alert = [PmStart True 1, PmCollect (observe 100 96), PmPublish 2, PmDetect, PmCreate 3, PmAlert 4, PmCreate 5,
     PmDetect, PmCreate 600000000000, PmAlert 600000000001]"

lemma alerts_notified_once_witness:
  "\<exists>s. run_steps pm_step (NewProductionMonitoringSystem ()) repeated_alert = Some s \<and> length (ps_handled s) = 2 \<and>
    map al_Type (am_notified (ps_alertManager s)) = [''memory_critical''] \<and> al_Type ` set (ps_handled s) = {''memory_critical''}"
proof -
  obtain s where s: "run_steps pm_step (NewProductionMonitoringSystem ()) repeated_alert = Some s" "length (ps_handled s) = 2"
    "map al_Type (am_notified (ps_alertManager s)) = [''memory_critical'']"
    by (simp add: repeated_alert_def pm_eval)
  have "al_Type ` set (am_notified (ps_alertManager s)) = {''memory_critical''}" using s(3) by (metis list.set(1,2) set_map)
  then show ?thesis using s alerts_notified_once [OF s(1)] by (intro exI [of _ s]) simp
qed

text \<open>
  However starts, stops and the loops interleave, the stop channel is closed at most once, and
  when a stop has returned no loop is left and every later start is refused.
\<close>

theorem stopped_for_good:
  assumes "run_steps pm_step (NewProductionMonitoringSystem ()) es = Some s"
  shows "ps_closes s \<le> 1 \<and> distinct (ps_live s) \<and>
    (ps_stopped s \<longrightarrow> Start_pm listens now s = (s, ErrStopped) \<and> (\<not> ps_stopping s \<longrightarrow> ps_live s = [] \<and> ps_detection s = DetectionIdle))"
proof -
  have "life_ok s" using monitoring_runs.inv_run [OF TrueI assms] by (simp add: pm_inv_def)
  then show ?thesis by (auto simp: life_ok_def Start_pm_def)
qed

definition stopped_run :: "pm_event list" where
  "stopped_run = [PmStart True 1, PmStop] @ map PmExit [ServeLoop, AlertLoop, MetricsLoop, DetectionLoop, DashboardLoop, AnalysisLoop] @ [PmStopped, PmStop]"

lemma stopped_for_good_witness:
  "\<exists>s. run_steps pm_step (NewProductionMonitoringSystem ()) stopped_run = Some s \<and> ps_closes s \<le> 1 \<and> ps_live s = [] \<and>
    snd (Start_pm True 7 s) = ErrStopped"
proof -
  obtain s where s: "run_steps pm_step (NewProductionMonitoringSystem ()) stopped_run = Some s" "ps_stopped s" "\<not> ps_stopping s"
    by (simp add: stopped_run_def pm_eval)
  then show ?thesis using stopped_for_good [OF s(1), of True 7] by (intro exI [of _ s]) simp
qed

text \<open>
  The collector answers with the newest samples, at most a thousand, whatever has been collected.
\<close>

theorem history_is_newest:
  assumes "run_steps pm_step (NewProductionMonitoringSystem ()) es = Some s" and "0 < n" and "n \<le> 1000"
  shows "GetHistoricalData (int n) (ps_metricsCollector s) = lastn n (ps_collected s) \<and>
    mc_collectionCount (ps_metricsCollector s) = int (length (ps_collected s))"
proof -
  have "collector_ok s" using monitoring_runs.inv_run [OF TrueI assms(1)] by (simp add: pm_inv_def)
  then have h: "mc_historicalData (ps_metricsCollector s) = lastn 1000 (ps_collected s)"
    "mc_collectionCount (ps_metricsCollector s) = int (length (ps_collected s))"
    by (simp_all add: collector_ok_def Let_def)
  have "GetHistoricalData (int n) (ps_metricsCollector s) = lastn n (lastn 1000 (ps_collected s))"
    using assms(2) by (auto simp: GetHistoricalData_def h Let_def lastn_def)
  also have "\<dots> = lastn n (ps_collected s)" using assms(3)
    by (cases "length (ps_collected s) \<le> 1000") (simp_all add: lastn_def)
  finally show ?thesis using h(2) by simp
qed

lemma history_is_newest_witness:
  "\<exists>s. run_steps pm_step (NewProductionMonitoringSystem ()) two_samples = Some s \<and>
    map sm_GoroutineCount (GetHistoricalData 1 (ps_metricsCollector s)) = [300]"
proof -
  obtain s where s: "run_steps pm_step (NewProductionMonitoringSystem ()) two_samples = Some s" "map sm_GoroutineCount (ps_collected s) = [100, 300]"
    by (simp add: two_samples_def pm_eval)
  have "map sm_GoroutineCount (lastn 1 (ps_collected s)) = lastn 1 (map sm_GoroutineCount (ps_collected s))"
    by (simp add: lastn_def drop_map)
  then show ?thesis using s history_is_newest [OF s(1), of 1] by (intro exI [of _ s]) (simp add: lastn_def)
qed

end
