(* ===== verification/AsyncLogging.thy ===== *)
theory AsyncLogging
  imports Prelude
begin

text \<open>
  The logging middleware of chapter 4, \<^verbatim>\<open>ans_03/async_logging_middleware.go\<close>: requests put log entries
  on a bounded queue, a processor writes them in batches with retries, and a bounded backup queue takes
  what found no room or could not be written.

  The file is a list of entries, and an attempt to write may fail after any number of them; that a
  failing write can also leave part of an entry's line is not represented.  A request
  stands between looking at the context, sending, and spilling; the processor is a value with a program
  counter; both interleave in any order.  \<open>lg_arrived\<close>, \<open>lg_queued\<close>, \<open>lg_saved\<close>, \<open>lg_spilled\<close>, \<open>lg_lost\<close>
  and \<open>lg_failures\<close> are histories kept for the statements.  The queue has a positive capacity.
\<close>

section \<open>Entries and metrics\<close>

record LogEntry =
  le_Timestamp :: time
  le_Method :: string
  le_URL :: string
  le_RemoteAddr :: string
  le_UserAgent :: string
  le_StatusCode :: int
  le_ResponseTime :: int
  le_RequestID :: "int \<times> string"
  le_ContentType :: string
  le_ResponseSize :: int

text \<open>What the wrapper of the response writer records: the calls of the handler on it.\<close>

datatype writer_call = WriteHeader int | WriteBody int

record responseWriter =
  rw_statusCode :: int
  rw_responseSize :: int

fun wrapped_call :: "responseWriter \<Rightarrow> writer_call \<Rightarrow> responseWriter" where
  "wrapped_call rw (WriteHeader code) = rw\<lparr>rw_statusCode := code\<rparr>"
| "wrapped_call rw (WriteBody written) = rw\<lparr>rw_responseSize := rw_responseSize rw + written\<rparr>"

record request =
  rq_Method :: string
  rq_URL :: string
  rq_RemoteAddr :: string
  rq_UserAgent :: string

definition make_entry :: "request \<Rightarrow> writer_call list \<Rightarrow> string \<Rightarrow> time \<Rightarrow> time \<Rightarrow> LogEntry" where
  "make_entry r calls contentType start now =
     (let w = foldl wrapped_call \<lparr>rw_statusCode = 200, rw_responseSize = 0\<rparr> calls
      in \<lparr>le_Timestamp = now, le_Method = rq_Method r, le_URL = rq_URL r, le_RemoteAddr = rq_RemoteAddr r,
          le_UserAgent = rq_UserAgent r, le_StatusCode = rw_statusCode w,
          le_ResponseTime = go_div (time_Sub now start) Millisecond, le_RequestID = (start, rq_RemoteAddr r),
          le_ContentType = contentType, le_ResponseSize = rw_responseSize w\<rparr>)"

record LogMetrics =
  lm_totalRequests :: int
  lm_processedLogs :: int
  lm_droppedLogs :: int
  lm_queueSize :: int
  lm_batchWrites :: int
  lm_failedWrites :: int
  lm_currentQueueDepth :: int

record LoggingConfig =
  lc_BatchSize :: int
  lc_MaxQueueSize :: nat
  lc_RetryAttempts :: int

text \<open>What follows a batch: the next receive, or the backup queue, on a tick or at the end.\<close>

datatype batch_origin = AfterFull | AfterTick | AfterDone

datatype processor =
  Selecting "LogEntry list"
| Draining "LogEntry list"
| Writing "LogEntry list" nat batch_origin
| BackingUp batch_origin
| ProcessorReturned

datatype sender = ToSend LogEntry | ToSpill LogEntry

record logging =
  lg_config :: LoggingConfig
  lg_logQueue :: "LogEntry list"
  lg_backupQueue :: "LogEntry list"
  lg_metrics :: LogMetrics
  lg_cancelled :: bool
  lg_file :: "LogEntry list"
  lg_processor :: processor
  lg_senders :: "sender list"
  lg_arrived :: "LogEntry list"
  lg_queued :: "LogEntry list"
  lg_saved :: "LogEntry list"
  lg_spilled :: "LogEntry list"
  lg_lost :: "LogEntry list"
  lg_failures :: nat

definition NewAsyncLoggingMiddleware :: "LoggingConfig \<Rightarrow> logging" where
  "NewAsyncLoggingMiddleware config =
     \<lparr>lg_config = config, lg_logQueue = [], lg_backupQueue = [],
      lg_metrics = \<lparr>lm_totalRequests = 0, lm_processedLogs = 0, lm_droppedLogs = 0, lm_queueSize = 0, lm_batchWrites = 0,
        lm_failedWrites = 0, lm_currentQueueDepth = 0\<rparr>,
      lg_cancelled = False, lg_file = [], lg_processor = Selecting [], lg_senders = [], lg_arrived = [], lg_queued = [],
      lg_saved = [], lg_spilled = [], lg_lost = [], lg_failures = 0\<rparr>"

section \<open>The request side\<close>

text \<open>An entry goes to the backup queue while there is room, and is lost otherwise.\<close>

definition back_up :: "LogEntry \<Rightarrow> logging \<Rightarrow> logging" where
  "back_up e s =
     (let s1 = s\<lparr>lg_spilled := lg_spilled s @ [e]\<rparr>
      in if length (lg_backupQueue s) < lc_MaxQueueSize (lg_config s)
         then s1\<lparr>lg_backupQueue := lg_backupQueue s @ [e]\<rparr> else s1\<lparr>lg_lost := lg_lost s @ [e]\<rparr>)"

text \<open>The handler has answered; the middleware looks at the context.\<close>

definition arrive :: "LogEntry \<Rightarrow> logging \<Rightarrow> logging" where
  "arrive e s =
     s\<lparr>lg_arrived := lg_arrived s @ [e],
       lg_senders := lg_senders s @ [if lg_cancelled s then ToSpill e else ToSend e]\<rparr>"

definition send_next :: "nat \<Rightarrow> logging \<Rightarrow> logging" where
  "send_next i s =
     (case lg_senders s ! i of
        ToSend e \<Rightarrow>
          (if length (lg_logQueue s) < lc_MaxQueueSize (lg_config s)
           then s\<lparr>lg_logQueue := lg_logQueue s @ [e], lg_queued := lg_queued s @ [e], lg_senders := drop_at i (lg_senders s),
                  lg_metrics := (lg_metrics s)\<lparr>lm_totalRequests := lm_totalRequests (lg_metrics s) + 1\<rparr>\<rparr>
           else s\<lparr>lg_senders := (lg_senders s)[i := ToSpill e],
                  lg_metrics := (lg_metrics s)\<lparr>lm_droppedLogs := lm_droppedLogs (lg_metrics s) + 1\<rparr>\<rparr>)
      | ToSpill e \<Rightarrow> back_up e (s\<lparr>lg_senders := drop_at i (lg_senders s)\<rparr>))"

section \<open>The processor\<close>

fun after_batch :: "batch_origin \<Rightarrow> processor" where
  "after_batch AfterFull = Selecting []"
| "after_batch AfterTick = BackingUp AfterTick"
| "after_batch AfterDone = BackingUp AfterDone"

text \<open>\<^verbatim>\<open>processBatch\<close> begins: nothing to do for an empty batch, and no attempt when the range is empty.\<close>

definition begin_batch :: "LogEntry list \<Rightarrow> batch_origin \<Rightarrow> logging \<Rightarrow> logging" where
  "begin_batch batch orig s =
     (if batch = [] then s\<lparr>lg_processor := after_batch orig\<rparr>
      else if lc_RetryAttempts (lg_config s) + 1 \<le> 0
      then s\<lparr>lg_processor := after_batch orig, lg_lost := lg_lost s @ batch\<rparr>
      else s\<lparr>lg_processor := Writing batch 0 orig\<rparr>)"

definition process_take :: "logging \<Rightarrow> logging option" where
  "process_take s =
     (case (lg_processor s, lg_logQueue s) of
        (Selecting batch, e # rest) \<Rightarrow>
          (let s1 = s\<lparr>lg_logQueue := rest, lg_processor := Selecting (batch @ [e]),
                      lg_metrics := (lg_metrics s)\<lparr>lm_queueSize := lm_queueSize (lg_metrics s) - 1\<rparr>\<rparr>
           in Some (if int (length (batch @ [e])) \<ge> lc_BatchSize (lg_config s) then begin_batch (batch @ [e]) AfterFull s1 else s1))
      | _ \<Rightarrow> None)"

definition process_tick :: "logging \<Rightarrow> logging option" where
  "process_tick s = (case lg_processor s of Selecting batch \<Rightarrow> Some (begin_batch batch AfterTick s) | _ \<Rightarrow> None)"

definition process_done :: "logging \<Rightarrow> logging option" where
  "process_done s =
     (case lg_processor s of
        Selecting batch \<Rightarrow> if lg_cancelled s then Some (s\<lparr>lg_processor := Draining batch\<rparr>) else None
      | _ \<Rightarrow> None)"

definition process_drain :: "logging \<Rightarrow> logging option" where
  "process_drain s =
     (case lg_processor s of
        Draining batch \<Rightarrow>
          Some (case lg_logQueue s of
                  e # rest \<Rightarrow> s\<lparr>lg_logQueue := rest, lg_processor := Draining (batch @ [e])\<rparr>
                | [] \<Rightarrow> begin_batch batch AfterDone s)
      | _ \<Rightarrow> None)"

text \<open>\<^verbatim>\<open>writeLogs\<close>: \<open>None\<close> writes all entries, \<open>Some n\<close> fails after \<open>n\<close> of them.\<close>

definition writeLogs :: "nat option \<Rightarrow> LogEntry list \<Rightarrow> logging \<Rightarrow> logging" where
  "writeLogs outcome logs s =
     (case outcome of
        None \<Rightarrow> s\<lparr>lg_file := lg_file s @ logs\<rparr>
      | Some n \<Rightarrow> s\<lparr>lg_file := lg_file s @ take n logs, lg_failures := lg_failures s + 1\<rparr>)"

definition count_saved :: "LogEntry list \<Rightarrow> logging \<Rightarrow> logging" where
  "count_saved logs s =
     s\<lparr>lg_metrics := (lg_metrics s)\<lparr>lm_processedLogs := lm_processedLogs (lg_metrics s) + int (length logs)\<rparr>,
       lg_saved := lg_saved s @ logs\<rparr>"

definition process_write :: "nat option \<Rightarrow> logging \<Rightarrow> logging option" where
  "process_write outcome s =
     (case lg_processor s of
        Writing batch attempt orig \<Rightarrow>
          (let s1 = writeLogs outcome batch s
           in Some (case outcome of
                None \<Rightarrow>
                  (let s2 = count_saved batch s1
                   in s2\<lparr>lg_metrics := (lg_metrics s2)\<lparr>lm_batchWrites := lm_batchWrites (lg_metrics s2) + 1\<rparr>,
                         lg_processor := after_batch orig\<rparr>)
              | Some _ \<Rightarrow>
                  if int attempt = lc_RetryAttempts (lg_config s)
                  then (foldl (\<lambda>t e. back_up e t)
                         (s1\<lparr>lg_metrics := (lg_metrics s1)\<lparr>lm_failedWrites := lm_failedWrites (lg_metrics s1) + 1\<rparr>\<rparr>) batch)
                         \<lparr>lg_processor := after_batch orig\<rparr>
                  else s1\<lparr>lg_processor := Writing batch (attempt + 1) orig\<rparr>))
      | _ \<Rightarrow> None)"

definition processBackupQueue :: "nat option \<Rightarrow> logging \<Rightarrow> logging option" where
  "processBackupQueue outcome s =
     (case lg_processor s of
        BackingUp orig \<Rightarrow>
          (let s1 = s\<lparr>lg_processor := (if orig = AfterDone then ProcessorReturned else Selecting [])\<rparr>
           in Some (if lg_backupQueue s = [] then s1
              else let s2 = writeLogs outcome (lg_backupQueue s) s1
                   in if outcome = None then (count_saved (lg_backupQueue s) s2)\<lparr>lg_backupQueue := []\<rparr> else s2))
      | _ \<Rightarrow> None)"

section \<open>Metrics, shutdown, steps\<close>

definition updateMetrics :: "logging \<Rightarrow> logging" where
  "updateMetrics s = s\<lparr>lg_metrics := (lg_metrics s)\<lparr>lm_currentQueueDepth := int (length (lg_logQueue s))\<rparr>\<rparr>"

definition GetMetrics :: "logging \<Rightarrow> LogMetrics" where
  "GetMetrics s = lg_metrics s"

datatype lg_event =
  LgArrive LogEntry | LgSend nat | LgTake | LgTick | LgDone | LgDrain | LgWrite "nat option" | LgBackup "nat option"
| LgMetrics | LgShutdown

fun lg_step :: "logging \<Rightarrow> lg_event \<Rightarrow> logging option" where
  "lg_step s (LgArrive e) = Some (arrive e s)"
| "lg_step s (LgSend i) = (if i < length (lg_senders s) then Some (send_next i s) else None)"
| "lg_step s LgTake = process_take s"
| "lg_step s LgTick = process_tick s"
| "lg_step s LgDone = process_done s"
| "lg_step s LgDrain = process_drain s"
| "lg_step s (LgWrite outcome) = process_write outcome s"
| "lg_step s (LgBackup outcome) = processBackupQueue outcome s"
| "lg_step s LgMetrics = (if lg_cancelled s then None else Some (updateMetrics s))"
| "lg_step s LgShutdown = Some (s\<lparr>lg_cancelled := True\<rparr>)"

section \<open>Every entry is accounted for\<close>

fun batch_of :: "processor \<Rightarrow> LogEntry list" where
  "batch_of (Selecting batch) = batch"
| "batch_of (Draining batch) = batch"
| "batch_of (Writing batch attempt orig) = batch"
| "batch_of (BackingUp orig) = []"
| "batch_of ProcessorReturned = []"

fun entry_of :: "sender \<Rightarrow> LogEntry" where
  "entry_of (ToSend e) = e"
| "entry_of (ToSpill e) = e"

definition places_ok :: "logging \<Rightarrow> bool" where
  "places_ok s \<longleftrightarrow>
     mset (lg_arrived s) = mset (map entry_of (lg_senders s)) + mset (lg_logQueue s) + mset (batch_of (lg_processor s)) +
       mset (lg_backupQueue s) + mset (lg_saved s) + mset (lg_lost s) \<and>
     mset (lg_saved s) \<subseteq># mset (lg_file s)"

definition bounds_ok :: "LoggingConfig \<Rightarrow> logging \<Rightarrow> bool" where
  "bounds_ok c s \<longleftrightarrow> lg_config s = c \<and> length (lg_logQueue s) \<le> lc_MaxQueueSize c \<and> length (lg_backupQueue s) \<le> lc_MaxQueueSize c \<and>
     lm_processedLogs (lg_metrics s) = int (length (lg_saved s)) \<and> lm_totalRequests (lg_metrics s) = int (length (lg_queued s)) \<and>
     lm_queueSize (lg_metrics s) \<le> 0"

definition spilling :: "sender \<Rightarrow> bool" where
  "spilling p = (case p of ToSpill e \<Rightarrow> True | ToSend e \<Rightarrow> False)"

text \<open>Entries leave the straight path only for a reason.\<close>

definition reasons_ok :: "logging \<Rightarrow> bool" where
  "reasons_ok s \<longleftrightarrow> 0 \<le> lm_droppedLogs (lg_metrics s) \<and> 0 \<le> lm_failedWrites (lg_metrics s) \<and>
     (lm_droppedLogs (lg_metrics s) = 0 \<and> lm_failedWrites (lg_metrics s) = 0 \<and> \<not> lg_cancelled s \<longrightarrow>
        lg_spilled s = [] \<and> filter spilling (lg_senders s) = []) \<and>
     (lg_spilled s = [] \<longrightarrow> lg_backupQueue s = []) \<and>
     (lg_spilled s = [] \<and> 0 \<le> lc_RetryAttempts (lg_config s) \<longrightarrow> lg_lost s = []) \<and>
     (lg_spilled s = [] \<and> 0 \<le> lc_RetryAttempts (lg_config s) \<and> lg_failures s = 0 \<longrightarrow>
        lg_queued s = lg_file s @ batch_of (lg_processor s) @ lg_logQueue s)"

definition lg_inv :: "LoggingConfig \<Rightarrow> logging \<Rightarrow> bool" where
  "lg_inv c s \<longleftrightarrow> places_ok s \<and> bounds_ok c s \<and> reasons_ok s"

lemmas lg_parts = lg_inv_def places_ok_def bounds_ok_def reasons_ok_def

lemma back_up_frame:
  "lg_config (back_up e s) = lg_config s" "lg_logQueue (back_up e s) = lg_logQueue s" "lg_metrics (back_up e s) = lg_metrics s"
  "lg_cancelled (back_up e s) = lg_cancelled s" "lg_file (back_up e s) = lg_file s" "lg_processor (back_up e s) = lg_processor s"
  "lg_senders (back_up e s) = lg_senders s" "lg_arrived (back_up e s) = lg_arrived s" "lg_queued (back_up e s) = lg_queued s"
  "lg_saved (back_up e s) = lg_saved s" "lg_failures (back_up e s) = lg_failures s"
  by (simp_all add: back_up_def Let_def)

lemma back_up_all_frame:
  "lg_config (foldl (\<lambda>t e. back_up e t) s es) = lg_config s \<and> lg_logQueue (foldl (\<lambda>t e. back_up e t) s es) = lg_logQueue s \<and>
   lg_metrics (foldl (\<lambda>t e. back_up e t) s es) = lg_metrics s \<and> lg_cancelled (foldl (\<lambda>t e. back_up e t) s es) = lg_cancelled s \<and>
   lg_file (foldl (\<lambda>t e. back_up e t) s es) = lg_file s \<and> lg_processor (foldl (\<lambda>t e. back_up e t) s es) = lg_processor s \<and>
   lg_senders (foldl (\<lambda>t e. back_up e t) s es) = lg_senders s \<and> lg_arrived (foldl (\<lambda>t e. back_up e t) s es) = lg_arrived s \<and>
   lg_queued (foldl (\<lambda>t e. back_up e t) s es) = lg_queued s \<and> lg_saved (foldl (\<lambda>t e. back_up e t) s es) = lg_saved s \<and>
   lg_failures (foldl (\<lambda>t e. back_up e t) s es) = lg_failures s"
  by (induction es arbitrary: s) (simp_all add: back_up_frame)

lemma back_up_one:
  "mset (lg_backupQueue (back_up e s)) + mset (lg_lost (back_up e s)) = add_mset e (mset (lg_backupQueue s) + mset (lg_lost s))"
  "lg_spilled (back_up e s) = lg_spilled s @ [e]"
  "length (lg_backupQueue s) \<le> lc_MaxQueueSize (lg_config s) \<Longrightarrow> length (lg_backupQueue (back_up e s)) \<le> lc_MaxQueueSize (lg_config s)"
  by (simp_all add: back_up_def Let_def)

lemma back_up_all:
  "mset (lg_backupQueue (foldl (\<lambda>t e. back_up e t) s es)) + mset (lg_lost (foldl (\<lambda>t e. back_up e t) s es)) =
     mset (lg_backupQueue s) + mset (lg_lost s) + mset es"
  "lg_spilled (foldl (\<lambda>t e. back_up e t) s es) = lg_spilled s @ es"
  "length (lg_backupQueue s) \<le> lc_MaxQueueSize (lg_config s) \<Longrightarrow>
     length (lg_backupQueue (foldl (\<lambda>t e. back_up e t) s es)) \<le> lc_MaxQueueSize (lg_config s)"
proof (induction es arbitrary: s)
  case (Cons e es)
  { case 1 show ?case using Cons.IH(1) [of "back_up e s"] back_up_one(1) [of e s] by simp }
  { case 2 show ?case using Cons.IH(2) [of "back_up e s"] back_up_one(2) [of e s] by simp }
  { case 3 then show ?case using Cons.IH(3) [of "back_up e s"] back_up_one(3) [of s e] by (simp add: back_up_frame) }
qed simp_all

lemma mset_map_drop_at: "i < length xs \<Longrightarrow> mset (map f xs) = add_mset (f (xs ! i)) (mset (map f (drop_at i xs)))"
  by (subst id_take_nth_drop [of i xs]) (simp_all add: drop_at_def)

lemma drop_at_filter: "filter p xs = [] \<Longrightarrow> filter p (drop_at i xs) = []"
  using set_drop_at [of i xs] by (auto simp: filter_empty_conv)

subsection \<open>Requests\<close>

lemma arrive_inv:
  assumes "lg_inv c s"
  shows "lg_inv c (arrive e s)"
  using assms by (auto simp: arrive_def lg_parts spilling_def)

lemma send_next_inv:
  assumes "lg_inv c s" and "i < length (lg_senders s)"
  shows "lg_inv c (send_next i s)"
proof (cases "lg_senders s ! i")
  case (ToSend e)
  show ?thesis
  proof (cases "length (lg_logQueue s) < lc_MaxQueueSize (lg_config s)")
    case True
    have m: "mset (map entry_of (lg_senders s)) = add_mset e (mset (map entry_of (drop_at i (lg_senders s))))"
      using mset_map_drop_at [OF assms(2), of entry_of] ToSend by simp
    have s': "send_next i s = s\<lparr>lg_logQueue := lg_logQueue s @ [e], lg_queued := lg_queued s @ [e], lg_senders := drop_at i (lg_senders s),
        lg_metrics := (lg_metrics s)\<lparr>lm_totalRequests := lm_totalRequests (lg_metrics s) + 1\<rparr>\<rparr>"
      using ToSend True by (simp add: send_next_def)
    have "places_ok (send_next i s)" using assms(1) m unfolding s' by (simp add: lg_inv_def places_ok_def)
    moreover have "bounds_ok c (send_next i s)" using assms(1) True unfolding s' by (auto simp: lg_inv_def bounds_ok_def)
    moreover have "reasons_ok (send_next i s)" using assms(1) drop_at_filter [of spilling "lg_senders s" i] unfolding s'
      by (simp add: lg_inv_def reasons_ok_def)
    ultimately show ?thesis by (simp add: lg_inv_def)
  next
    case False
    have u: "map entry_of ((lg_senders s)[i := ToSpill e]) = map entry_of (lg_senders s)"
      using assms(2) ToSend by (simp add: map_update list_update_same_conv)
    have s': "send_next i s = s\<lparr>lg_senders := (lg_senders s)[i := ToSpill e],
        lg_metrics := (lg_metrics s)\<lparr>lm_droppedLogs := lm_droppedLogs (lg_metrics s) + 1\<rparr>\<rparr>"
      using ToSend False by (simp add: send_next_def)
    have "places_ok (send_next i s)" using assms(1) arg_cong [OF u, of mset] unfolding s' by (simp add: lg_inv_def places_ok_def)
    moreover have "bounds_ok c (send_next i s)" using assms(1) unfolding s' by (auto simp: lg_inv_def bounds_ok_def)
    moreover have "reasons_ok (send_next i s)" using assms(1) unfolding s' by (simp add: lg_inv_def reasons_ok_def)
    ultimately show ?thesis by (simp add: lg_inv_def)
  qed
next
  case (ToSpill e)
  have m: "mset (map entry_of (lg_senders s)) = add_mset e (mset (map entry_of (drop_at i (lg_senders s))))"
    using mset_map_drop_at [OF assms(2), of entry_of] ToSpill by simp
  have "spilling (lg_senders s ! i)" using ToSpill by (simp add: spilling_def)
  then have "filter spilling (lg_senders s) \<noteq> []" using assms(2) by (metis filter_empty_conv nth_mem)
  then have spill: "\<not> (lm_droppedLogs (lg_metrics s) = 0 \<and> lm_failedWrites (lg_metrics s) = 0 \<and> \<not> lg_cancelled s)"
    using assms(1) unfolding lg_inv_def reasons_ok_def by blast
  let ?s1 = "s\<lparr>lg_senders := drop_at i (lg_senders s)\<rparr>"
  have s': "send_next i s = back_up e ?s1" using ToSpill by (simp add: send_next_def)
  have "mset (lg_arrived s) = mset (map entry_of (drop_at i (lg_senders s))) + mset (lg_logQueue s) + mset (batch_of (lg_processor s)) +
      mset (lg_saved s) + (mset (lg_backupQueue (back_up e ?s1)) + mset (lg_lost (back_up e ?s1)))"
    using assms(1) m unfolding back_up_one(1) by (simp add: lg_inv_def places_ok_def)
  then have "places_ok (send_next i s)" using assms(1) unfolding s' by (simp add: lg_inv_def places_ok_def back_up_frame)
  moreover have "bounds_ok c (send_next i s)" using assms(1) back_up_one(3) [of ?s1 e] unfolding s'
    by (simp add: lg_inv_def bounds_ok_def back_up_frame)
  moreover have "reasons_ok (send_next i s)" using assms(1) spill unfolding s'
    by (simp add: lg_inv_def reasons_ok_def back_up_frame back_up_one(2))
  ultimately show ?thesis by (simp add: lg_inv_def)
qed

subsection \<open>The processor\<close>

lemma begin_batch_inv:
  assumes "lg_inv c s" and "batch_of (lg_processor s) = batch"
  shows "lg_inv c (begin_batch batch orig s)"
proof -
  have e: "batch_of (after_batch orig) = []" by (cases orig) simp_all
  show ?thesis using assms e by (auto simp: begin_batch_def lg_parts)
qed

lemma process_take_inv:
  assumes "lg_inv c s" and "process_take s = Some s'"
  shows "lg_inv c s'"
proof -
  obtain batch e rest where p: "lg_processor s = Selecting batch" "lg_logQueue s = e # rest"
    using assms(2) by (auto simp: process_take_def split: processor.splits list.splits)
  let ?s1 = "s\<lparr>lg_logQueue := rest, lg_processor := Selecting (batch @ [e]),
      lg_metrics := (lg_metrics s)\<lparr>lm_queueSize := lm_queueSize (lg_metrics s) - 1\<rparr>\<rparr>"
  have "lg_inv c ?s1" using assms(1) p by (auto simp: lg_parts)
  moreover from this have "lg_inv c (begin_batch (batch @ [e]) AfterFull ?s1)" by (rule begin_batch_inv) simp
  ultimately show ?thesis using assms(2) p by (auto simp: process_take_def Let_def split: if_splits)
qed

lemma process_drain_inv:
  assumes "lg_inv c s" and "process_drain s = Some s'"
  shows "lg_inv c s'"
proof -
  obtain batch where p: "lg_processor s = Draining batch" using assms(2) by (auto simp: process_drain_def split: processor.splits)
  show ?thesis
  proof (cases "lg_logQueue s")
    case Nil
    then show ?thesis using assms p begin_batch_inv [OF assms(1), of batch AfterDone] by (simp add: process_drain_def)
  next
    case (Cons e rest)
    then have "s' = s\<lparr>lg_logQueue := rest, lg_processor := Draining (batch @ [e])\<rparr>"
      using assms(2) p by (simp add: process_drain_def)
    then show ?thesis using assms(1) p Cons by (auto simp: lg_parts)
  qed
qed

lemma writeLogs_inv: "lg_inv c s \<Longrightarrow> lg_inv c (writeLogs (Some n) logs s)"
  by (auto simp: writeLogs_def lg_parts subset_mset.add_increasing2)

lemma process_write_inv:
  assumes "lg_inv c s" and "process_write outcome s = Some s'"
  shows "lg_inv c s'"
proof -
  obtain batch attempt orig where p: "lg_processor s = Writing batch attempt orig"
    using assms(2) by (auto simp: process_write_def split: processor.splits)
  have e: "batch_of (after_batch orig) = []" by (cases orig) simp_all
  show ?thesis
  proof (cases outcome)
    case None
    then have s': "s' = (count_saved batch (writeLogs None batch s))\<lparr>lg_metrics := (lg_metrics (count_saved batch (writeLogs None batch s)))
        \<lparr>lm_batchWrites := lm_batchWrites (lg_metrics s) + 1\<rparr>, lg_processor := after_batch orig\<rparr>"
      using assms(2) p by (simp add: process_write_def Let_def count_saved_def writeLogs_def)
    show ?thesis using assms(1) p e unfolding s'
      by (auto simp: count_saved_def writeLogs_def lg_parts subset_mset.add_mono)
  next
    case (Some n)
    let ?s1 = "writeLogs (Some n) batch s"
    have i: "lg_inv c ?s1" by (rule writeLogs_inv [OF assms(1)])
    have p1: "lg_processor ?s1 = Writing batch attempt orig" "lg_failures ?s1 = lg_failures s + 1"
      using p by (simp_all add: writeLogs_def)
    show ?thesis
    proof (cases "int attempt = lc_RetryAttempts (lg_config s)")
      case True
      let ?s2 = "?s1\<lparr>lg_metrics := (lg_metrics ?s1)\<lparr>lm_failedWrites := lm_failedWrites (lg_metrics ?s1) + 1\<rparr>\<rparr>"
      let ?t = "foldl (\<lambda>t e. back_up e t) ?s2 batch"
      have s': "s' = ?t\<lparr>lg_processor := after_batch orig\<rparr>"
        using assms(2) p Some True by (simp add: process_write_def Let_def)
      have f: "lg_config ?t = lg_config ?s2" "lg_logQueue ?t = lg_logQueue ?s2" "lg_metrics ?t = lg_metrics ?s2"
        "lg_cancelled ?t = lg_cancelled ?s2" "lg_file ?t = lg_file ?s2" "lg_senders ?t = lg_senders ?s2"
        "lg_arrived ?t = lg_arrived ?s2" "lg_queued ?t = lg_queued ?s2" "lg_saved ?t = lg_saved ?s2" "lg_failures ?t = lg_failures ?s2"
        using back_up_all_frame [of ?s2 batch] by blast+
      have b: "mset (lg_backupQueue ?t) + mset (lg_lost ?t) = mset (lg_backupQueue ?s1) + mset (lg_lost ?s1) + mset batch"
        "lg_spilled ?t = lg_spilled ?s1 @ batch"
        using back_up_all(1,2) [of ?s2 batch] by simp_all
      have l: "length (lg_backupQueue ?t) \<le> lc_MaxQueueSize c"
        using back_up_all(3) [of ?s2 batch] i by (simp add: lg_inv_def bounds_ok_def)
      have "mset (lg_arrived ?s1) = mset (map entry_of (lg_senders ?s1)) + mset (lg_logQueue ?s1) + mset batch +
          mset (lg_backupQueue ?s1) + mset (lg_saved ?s1) + mset (lg_lost ?s1)"
        using i p1 by (simp add: lg_inv_def places_ok_def)
      then have "mset (lg_arrived ?s1) = mset (map entry_of (lg_senders ?s1)) + mset (lg_logQueue ?s1) +
          mset (lg_saved ?s1) + (mset (lg_backupQueue ?t) + mset (lg_lost ?t))"
        unfolding b by simp
      then have "places_ok s'" using i e unfolding s' by (simp add: lg_inv_def places_ok_def f)
      moreover have "bounds_ok c s'" using i l unfolding s' by (simp add: lg_inv_def bounds_ok_def f)
      moreover have "reasons_ok s'" using i p1 e unfolding s'
        by (cases "batch = []") (auto simp: lg_inv_def reasons_ok_def f b)
      ultimately show ?thesis by (simp add: lg_inv_def)
    next
      case False
      then have "s' = ?s1\<lparr>lg_processor := Writing batch (attempt + 1) orig\<rparr>"
        using assms(2) p Some by (simp add: process_write_def Let_def)
      then show ?thesis using i p1 by (auto simp: lg_parts)
    qed
  qed
qed

lemma processBackupQueue_inv:
  assumes "lg_inv c s" and "processBackupQueue outcome s = Some s'"
  shows "lg_inv c s'"
proof -
  obtain orig where p: "lg_processor s = BackingUp orig"
    using assms(2) by (auto simp: processBackupQueue_def split: processor.splits)
  let ?s1 = "s\<lparr>lg_processor := (if orig = AfterDone then ProcessorReturned else Selecting [])\<rparr>"
  have i1: "lg_inv c ?s1" using assms(1) p by (auto simp: lg_parts)
  show ?thesis
  proof (cases "lg_backupQueue s = []")
    case True
    then show ?thesis using assms(2) p i1 by (simp add: processBackupQueue_def)
  next
    case False
    then have ne: "lg_spilled s \<noteq> []" using assms(1) by (auto simp: lg_inv_def reasons_ok_def)
    show ?thesis
    proof (cases outcome)
      case (Some n)
      then have "s' = writeLogs (Some n) (lg_backupQueue s) ?s1" using assms(2) p False by (simp add: processBackupQueue_def Let_def)
      then show ?thesis using writeLogs_inv [OF i1] by simp
    next
      case None
      then have s': "s' = (count_saved (lg_backupQueue s) (writeLogs None (lg_backupQueue s) ?s1))\<lparr>lg_backupQueue := []\<rparr>"
        using assms(2) p False by (simp add: processBackupQueue_def Let_def)
      have "places_ok s'" using i1 unfolding s'
        by (simp add: lg_inv_def places_ok_def count_saved_def writeLogs_def subset_mset.add_mono)
      moreover have "bounds_ok c s'" using i1 unfolding s' by (simp add: lg_inv_def bounds_ok_def count_saved_def writeLogs_def)
      moreover have "reasons_ok s'" using i1 ne unfolding s' by (simp add: lg_inv_def reasons_ok_def count_saved_def writeLogs_def)
      ultimately show ?thesis by (simp add: lg_inv_def)
    qed
  qed
qed

lemma lg_step_inv:
  assumes "lg_inv c s" and "lg_step s e = Some s'"
  shows "lg_inv c s'"
proof (cases e)
  case (LgArrive x)
  then show ?thesis using assms arrive_inv by auto
next
  case (LgSend i)
  then show ?thesis using assms send_next_inv by (auto split: if_splits)
next
  case LgTake
  then show ?thesis using assms process_take_inv by simp
next
  case LgTick
  then obtain batch where "lg_processor s = Selecting batch" "s' = begin_batch batch AfterTick s"
    using assms(2) by (auto simp: process_tick_def split: processor.splits)
  then show ?thesis using begin_batch_inv [OF assms(1)] by simp
next
  case LgDone
  then obtain batch where p: "lg_processor s = Selecting batch" "s' = s\<lparr>lg_processor := Draining batch\<rparr>"
    using assms(2) by (auto simp: process_done_def split: processor.splits if_splits)
  then show ?thesis using assms(1) by (simp add: lg_parts)
next
  case LgDrain
  then show ?thesis using assms process_drain_inv by simp
next
  case (LgWrite outcome)
  then show ?thesis using assms process_write_inv by simp
next
  case (LgBackup outcome)
  then show ?thesis using assms processBackupQueue_inv by simp
next
  case LgMetrics
  then have "s' = updateMetrics s" using assms(2) by (simp split: if_splits)
  then show ?thesis using assms(1) by (simp add: updateMetrics_def lg_parts)
next
  case LgShutdown
  then have "s' = s\<lparr>lg_cancelled := True\<rparr>" using assms(2) by simp
  then show ?thesis using assms(1) by (simp add: lg_parts)
qed

lemma lg_start: "lg_inv c (NewAsyncLoggingMiddleware c)"
  by (simp add: NewAsyncLoggingMiddleware_def lg_parts)

interpretation logging_runs: step_invariant lg_step NewAsyncLoggingMiddleware lg_inv "\<lambda>_. True"
  by unfold_locales (use lg_start lg_step_inv in blast)+

section \<open>Properties\<close>

text \<open>
  C35. Under any interleaving of requests, writes that fail anywhere, ticks and the shutdown, every log
  entry is in exactly one place: with its request, queued, in the batch, in the backup queue, counted as
  processed, or lost.  What is counted as processed is in the file, and both queues keep their bound.
\<close>

theorem log_entries_accounted:
  assumes "run_steps lg_step (NewAsyncLoggingMiddleware c) es = Some s"
  shows "mset (lg_arrived s) = mset (map entry_of (lg_senders s)) + mset (lg_logQueue s) + mset (batch_of (lg_processor s)) +
      mset (lg_backupQueue s) + mset (lg_saved s) + mset (lg_lost s) \<and>
    mset (lg_saved s) \<subseteq># mset (lg_file s) \<and> lm_processedLogs (GetMetrics s) = int (length (lg_saved s)) \<and>
    length (lg_logQueue s) \<le> lc_MaxQueueSize c \<and> length (lg_backupQueue s) \<le> lc_MaxQueueSize c"
  using logging_runs.inv_run [OF TrueI assms] by (simp add: lg_inv_def places_ok_def bounds_ok_def GetMetrics_def)

definition entry_of_status :: "int \<Rightarrow> LogEntry" where
  "entry_of_status code =
     \<lparr>le_Timestamp = 0, le_Method = ''GET'', le_URL = ''/'', le_RemoteAddr = [], le_UserAgent = [], le_StatusCode = code,
      le_ResponseTime = 0, le_RequestID = (0, []), le_ContentType = [], le_ResponseSize = 0\<rparr>"

definition small_config :: LoggingConfig where
  "small_config = \<lparr>lc_BatchSize = 2, lc_MaxQueueSize = 1, lc_RetryAttempts = 0\<rparr>"

text \<open>Three requests, a queue of one, a write that fails halfway: two entries count as lost, one of them is in the file.\<close>

definition full_run :: "lg_event list" where
  "full_run = [LgArrive (entry_of_status 1), LgSend 0, LgArrive (entry_of_status 2), LgSend 0, LgSend 0,
     LgTake, LgArrive (entry_of_status 3), LgSend 0, LgTake, LgWrite (Some 1), LgTick, LgBackup None]"

lemmas lg_eval = NewAsyncLoggingMiddleware_def arrive_def send_next_def back_up_def drop_at_def process_take_def process_tick_def
  process_done_def process_drain_def begin_batch_def process_write_def writeLogs_def count_saved_def processBackupQueue_def Let_def

lemma log_entries_accounted_witness:
  "\<exists>s. run_steps lg_step (NewAsyncLoggingMiddleware small_config) full_run = Some s \<and>
    map le_StatusCode (lg_file s) = [1, 2] \<and> lm_processedLogs (GetMetrics s) = 1 \<and>
    mset (lg_arrived s) = mset (lg_saved s) + mset (lg_lost s)"
proof -
  obtain s where s: "run_steps lg_step (NewAsyncLoggingMiddleware small_config) full_run = Some s"
    "map le_StatusCode (lg_file s) = [1, 2]" "length (lg_saved s) = 1" "lg_senders s = []" "lg_logQueue s = []" "lg_backupQueue s = []"
    "lg_processor s = Selecting []"
    by (simp add: full_run_def small_config_def lg_eval entry_of_status_def)
  then show ?thesis using log_entries_accounted [OF s(1)] by (intro exI [of _ s]) simp
qed

text \<open>
  While no entry was dropped, no batch given up and nothing shut down, with retries not negative,
  no entry is lost; and as long as no write failed the file holds the queued entries in their order, the
  batch and the queue the rest.
\<close>

theorem log_keeps_order:
  assumes "run_steps lg_step (NewAsyncLoggingMiddleware c) es = Some s" and "0 \<le> lc_RetryAttempts c"
    and "lm_droppedLogs (GetMetrics s) = 0" and "lm_failedWrites (GetMetrics s) = 0" and "\<not> lg_cancelled s"
  shows "lg_lost s = [] \<and> lg_backupQueue s = [] \<and>
    (lg_failures s = 0 \<longrightarrow> lg_queued s = lg_file s @ batch_of (lg_processor s) @ lg_logQueue s)"
  using logging_runs.inv_run [OF TrueI assms(1)] assms(2-5)
  by (simp add: lg_inv_def bounds_ok_def reasons_ok_def GetMetrics_def)

definition calm_run :: "lg_event list" where
  "calm_run = [LgArrive (entry_of_status 1), LgSend 0, LgTake, LgArrive (entry_of_status 2), LgSend 0, LgTake, LgWrite None,
     LgArrive (entry_of_status 3), LgSend 0]"

lemma log_keeps_order_witness:
  "\<exists>s. run_steps lg_step (NewAsyncLoggingMiddleware small_config) calm_run = Some s \<and> map le_StatusCode (lg_queued s) = [1, 2, 3] \<and>
    lg_queued s = lg_file s @ batch_of (lg_processor s) @ lg_logQueue s"
proof -
  obtain s where s: "run_steps lg_step (NewAsyncLoggingMiddleware small_config) calm_run = Some s"
    "map le_StatusCode (lg_queued s) = [1, 2, 3]" "lm_droppedLogs (GetMetrics s) = 0" "lm_failedWrites (GetMetrics s) = 0"
    "\<not> lg_cancelled s" "lg_failures s = 0"
    by (simp add: calm_run_def small_config_def lg_eval entry_of_status_def GetMetrics_def)
  have "0 \<le> lc_RetryAttempts small_config" by (simp add: small_config_def)
  then show ?thesis using s log_keeps_order [OF s(1) _ s(3-5)] by (intro exI [of _ s]) simp
qed

text \<open>
  Once the processor has returned, nothing is written any more, whatever arrives: entries of requests
  that are still under way reach the queue or the backup queue and stay there.
\<close>

theorem nothing_written_after_return:
  assumes "lg_processor s = ProcessorReturned" and "run_steps lg_step s es = Some s'"
  shows "lg_file s' = lg_file s \<and> lm_processedLogs (GetMetrics s') = lm_processedLogs (GetMetrics s) \<and> lg_processor s' = ProcessorReturned"
  using assms
proof (induction es arbitrary: s)
  case Nil
  then show ?case by simp
next
  case (Cons e es)
  then obtain s1 where s1: "lg_step s e = Some s1" "run_steps lg_step s1 es = Some s'" by (auto split: option.splits)
  have "lg_file s1 = lg_file s \<and> lm_processedLogs (GetMetrics s1) = lm_processedLogs (GetMetrics s) \<and> lg_processor s1 = ProcessorReturned"
    using s1(1) Cons.prems(1)
    by (cases e) (auto simp: lg_eval GetMetrics_def process_write_def processBackupQueue_def updateMetrics_def split: if_splits sender.splits)
  then show ?case using Cons.IH [of s1] s1(2) by simp
qed

text \<open>A request that passed the check of the context before the shutdown: its entry stays in the queue.\<close>

definition late_run :: "lg_event list" where
  "late_run = [LgArrive (entry_of_status 1), LgShutdown, LgDone, LgDrain, LgBackup None]"

lemma nothing_written_after_return_witness:
  "\<exists>s s'. run_steps lg_step (NewAsyncLoggingMiddleware small_config) late_run = Some s \<and> run_steps lg_step s [LgSend 0] = Some s' \<and>
    lg_file s' = [] \<and> map le_StatusCode (lg_logQueue s') = [1] \<and> lm_droppedLogs (GetMetrics s') = 0"
proof -
  obtain s s' where s: "run_steps lg_step (NewAsyncLoggingMiddleware small_config) late_run = Some s" "run_steps lg_step s [LgSend 0] = Some s'"
    "lg_processor s = ProcessorReturned" "lg_file s = []" "map le_StatusCode (lg_logQueue s') = [1]" "lm_droppedLogs (GetMetrics s') = 0"
    by (simp add: late_run_def small_config_def lg_eval entry_of_status_def GetMetrics_def)
  then show ?thesis using nothing_written_after_return [OF s(3,2)] by (intro exI [of _ s] exI [of _ s']) simp
qed

text \<open>
  C38. An attempt that fails after some entries has written them, and the next attempt writes the whole
  batch again: those entries are in the file twice.
\<close>

theorem retry_writes_twice:
  assumes "lg_processor s = Writing batch attempt orig" and "int attempt \<noteq> lc_RetryAttempts (lg_config s)"
  shows "\<exists>s'. run_steps lg_step s [LgWrite (Some n), LgWrite None] = Some s' \<and> lg_file s' = lg_file s @ take n batch @ batch \<and>
    lm_processedLogs (GetMetrics s') = lm_processedLogs (GetMetrics s) + int (length batch) \<and>
    lm_failedWrites (GetMetrics s') = lm_failedWrites (GetMetrics s)"
  using assms by (simp add: process_write_def writeLogs_def count_saved_def GetMetrics_def Let_def)

lemma retry_writes_twice_witness:
  "\<exists>s s'. run_steps lg_step (NewAsyncLoggingMiddleware (small_config\<lparr>lc_RetryAttempts := 3, lc_BatchSize := 1\<rparr>))
      [LgArrive (entry_of_status 7), LgSend 0, LgTake] = Some s \<and>
    run_steps lg_step s [LgWrite (Some 1), LgWrite None] = Some s' \<and> map le_StatusCode (lg_file s') = [7, 7]"
proof -
  obtain s where s: "run_steps lg_step (NewAsyncLoggingMiddleware (small_config\<lparr>lc_RetryAttempts := 3, lc_BatchSize := 1\<rparr>))
      [LgArrive (entry_of_status 7), LgSend 0, LgTake] = Some s" "lg_processor s = Writing [entry_of_status 7] 0 AfterFull"
    "lc_RetryAttempts (lg_config s) = 3" "lg_file s = []"
    by (simp add: small_config_def lg_eval)
  have "int 0 \<noteq> lc_RetryAttempts (lg_config s)" using s(3) by simp
  from retry_writes_twice [OF s(2) this, of 1] obtain s' where
    "run_steps lg_step s [LgWrite (Some 1), LgWrite None] = Some s'" "lg_file s' = lg_file s @ take 1 [entry_of_status 7] @ [entry_of_status 7]"
    by blast
  then show ?thesis using s by (intro exI [of _ s] exI [of _ s']) (simp add: entry_of_status_def)
qed

text \<open>
  The reported queue size is never positive: it is decremented for every entry taken from the queue
  and incremented nowhere.
\<close>

theorem queue_size_never_positive:
  assumes "run_steps lg_step (NewAsyncLoggingMiddleware c) es = Some s"
  shows "lm_queueSize (GetMetrics s) \<le> 0"
  using logging_runs.inv_run [OF TrueI assms] by (simp add: lg_inv_def bounds_ok_def GetMetrics_def)

lemma queue_size_never_positive_witness:
  "\<exists>s. run_steps lg_step (NewAsyncLoggingMiddleware small_config) calm_run = Some s \<and> length (lg_logQueue s) = 1 \<and>
    lm_queueSize (GetMetrics s) \<le> 0"
proof -
  obtain s where s: "run_steps lg_step (NewAsyncLoggingMiddleware small_config) calm_run = Some s" "length (lg_logQueue s) = 1"
    by (simp add: calm_run_def small_config_def lg_eval)
  then show ?thesis using queue_size_never_positive [OF s(1)] by (intro exI [of _ s]) simp
qed

end
