(* ===== verification/HttpServer.thy ===== *)
theory HttpServer
  imports Prelude
begin

text \<open>
  The HTTP server of chapter 4, \<^verbatim>\<open>01_concurrent_http_server/concurrent_http_server.go\<close>: the goroutine of a
  request puts it on a bounded queue and waits, workers run the handler behind the middlewares, and a
  second queue carries the responses to the statistics.

  A request is a flight with a phase, a worker a phase too; the sections of both between waits are steps,
  in any interleaving with clients that go away, the start and the stages of the shutdown.  Handlers are
  functions of an environment (clock, draws, the JSON package, what they read of the server) and the
  request; they return a response or \<^verbatim>\<open>nil\<close>, and an error or \<^verbatim>\<open>nil\<close>, or they panic.  The goroutines of
  the workers and of the shutdown recover from nothing, so a panic of theirs ends the process
  (\<open>hs_crashed\<close>), and so does the runtime when it sees a map written while it is read: \<^verbatim>\<open>GetStats\<close> hands
  out the two maps of counts themselves, which its callers (\<^verbatim>\<open>main\<close>) read without the lock.

  The table of handlers, equal for all workers, is kept once; handlers are registered before the start, as
  \<^verbatim>\<open>RegisterHandler\<close> demands, and each call of a handler returns a response of its own.  \<open>hs_starts\<close> is a
  history kept for the statements.  The request queue has a positive capacity, and a start, or a second
  shutdown, while a shutdown is under way is left out.  Panics of the goroutine of a request are caught by
  net/http.
\<close>

section \<open>Requests and responses\<close>

record HTTPRequest =
  hq_ID :: string
  hq_Method :: string
  hq_Path :: string
  hq_Headers :: "string \<rightharpoonup> string"
  hq_Body :: string
  hq_ClientIP :: string
  hq_UserAgent :: string
  hq_Timestamp :: time

record HTTPResponse =
  hp_RequestID :: string
  hp_StatusCode :: int
  hp_Headers :: "string \<rightharpoonup> string"
  hp_Body :: "string option"
  hp_ProcessTime :: duration
  hp_HandlerName :: string
  hp_Success :: bool
  hp_Error :: "string option"
  hp_CompletedAt :: time

text \<open>What net/http hands to \<^verbatim>\<open>ServeHTTP\<close>.\<close>

record raw_request =
  raw_Method :: string
  raw_Path :: string
  raw_Header :: "string \<rightharpoonup> string list"
  raw_RemoteAddr :: string
  raw_UserAgent :: string

definition Header_Get :: "(string \<rightharpoonup> string list) \<Rightarrow> string \<Rightarrow> string" where
  "Header_Get h k = (case h k of Some (v # vs) \<Rightarrow> v | _ \<Rightarrow> [])"

definition extractHeaders :: "raw_request \<Rightarrow> (string \<rightharpoonup> string)" where
  "extractHeaders r = (\<lambda>k. case raw_Header r k of Some (v # vs) \<Rightarrow> Some v | _ \<Rightarrow> None)"

definition getClientIP :: "raw_request \<Rightarrow> string" where
  "getClientIP r =
     (let forwarded = Header_Get (raw_Header r) ''X-Forwarded-For''; realIP = Header_Get (raw_Header r) ''X-Real-Ip''
      in if forwarded \<noteq> [] then forwarded else if realIP \<noteq> [] then realIP else raw_RemoteAddr r)"

definition make_request :: "string \<Rightarrow> time \<Rightarrow> raw_request \<Rightarrow> HTTPRequest" where
  "make_request reqID now r =
     \<lparr>hq_ID = reqID, hq_Method = raw_Method r, hq_Path = raw_Path r, hq_Headers = extractHeaders r, hq_Body = [],
      hq_ClientIP = getClientIP r, hq_UserAgent = raw_UserAgent r, hq_Timestamp = now\<rparr>"

section \<open>Statistics\<close>

record ServerStats =
  ss_totalRequests :: int
  ss_activeRequests :: int
  ss_completedRequests :: int
  ss_errorRequests :: int
  ss_averageResponseTime :: duration
  ss_statusCodeCounts :: "int \<rightharpoonup> int"
  ss_pathCounts :: "string \<rightharpoonup> int"
  ss_startTime :: time

record WorkerStats =
  ws_ProcessedRequests :: int
  ws_SuccessRequests :: int
  ws_ErrorRequests :: int
  ws_TotalProcessTime :: duration

record WorkerStatsSnapshot =
  sn_ProcessedRequests :: int
  sn_SuccessRequests :: int
  sn_ErrorRequests :: int
  sn_TotalProcessTime :: duration
  sn_AverageProcessTime :: duration

definition Snapshot :: "WorkerStats \<Rightarrow> WorkerStatsSnapshot" where
  "Snapshot w =
     \<lparr>sn_ProcessedRequests = ws_ProcessedRequests w, sn_SuccessRequests = ws_SuccessRequests w, sn_ErrorRequests = ws_ErrorRequests w,
      sn_TotalProcessTime = ws_TotalProcessTime w,
      sn_AverageProcessTime = (if ws_ProcessedRequests w > 0 then go_div (ws_TotalProcessTime w) (ws_ProcessedRequests w) else 0)\<rparr>"

section \<open>Handlers\<close>

datatype json =
  JNull | JStr string | JInt int | JDur duration | JHeaders "string \<rightharpoonup> string" | JCodes "int \<rightharpoonup> int" | JPaths "string \<rightharpoonup> int"
| JArr "json list" | JObj "(string \<times> json) list"

text \<open>
  What a handler observes: the clock, the JSON package (\<open>None\<close> is an error), whether its context ends
  while it works, its draws, and what it reads of the server.
\<close>

record handler_env =
  he_now :: time
  he_marshal :: "json \<Rightarrow> string option"
  he_unmarshal :: "string \<Rightarrow> json option"
  he_ends :: bool
  he_delay :: duration
  he_iterations :: nat
  he_startTime :: time
  he_maxWorkers :: int
  he_stats :: ServerStats
  he_workers :: "WorkerStats list"
  he_requests :: int
  he_responses :: int

text \<open>A handler returns a response and an error, either of which may be missing, or it panics.\<close>

datatype handler_answer = Panics | Returns "HTTPResponse option" "string option"

type_synonym HandlerFunc = "handler_env \<Rightarrow> HTTPRequest \<Rightarrow> handler_answer"
type_synonym MiddlewareFunc = "HandlerFunc \<Rightarrow> HandlerFunc"

definition json_response :: "int \<Rightarrow> string \<Rightarrow> bool \<Rightarrow> string \<Rightarrow> HTTPResponse" where
  "json_response status body success name =
     \<lparr>hp_RequestID = [], hp_StatusCode = status, hp_Headers = [''Content-Type'' \<mapsto> ''application/json''], hp_Body = Some body,
      hp_ProcessTime = 0, hp_HandlerName = name, hp_Success = success, hp_Error = None, hp_CompletedAt = 0\<rparr>"

definition answer_json :: "handler_env \<Rightarrow> json \<Rightarrow> string \<Rightarrow> handler_answer" where
  "answer_json v j name =
     (case he_marshal v j of None \<Rightarrow> Returns None (Some ''json'') | Some body \<Rightarrow> Returns (Some (json_response 200 body True name)) None)"

definition healthCheckHandler :: HandlerFunc where
  "healthCheckHandler v rq = answer_json v
     (JObj [(''status'', JStr ''healthy''), (''timestamp'', JInt (Unix (he_now v))),
            (''uptime'', JDur (time_Sub (he_now v) (he_startTime v))), (''workers'', JInt (he_maxWorkers v))]) ''health_check''"

definition metricsHandler :: HandlerFunc where
  "metricsHandler v rq = (let st = he_stats v in answer_json v
     (JObj [(''total_requests'', JInt (ss_totalRequests st)), (''active_requests'', JInt (ss_activeRequests st)),
            (''completed_requests'', JInt (ss_completedRequests st)), (''error_requests'', JInt (ss_errorRequests st)),
            (''average_response_time'', JDur (ss_averageResponseTime st)),
            (''uptime'', JDur (time_Sub (he_now v) (ss_startTime st))),
            (''status_codes'', JCodes (ss_statusCodeCounts st)), (''path_counts'', JPaths (ss_pathCounts st))]) ''metrics'')"

definition worker_json :: "nat \<Rightarrow> WorkerStats \<Rightarrow> json" where
  "worker_json i w = (let n = Snapshot w in
     JObj [(''worker_id'', JInt (int i)), (''processed_requests'', JInt (sn_ProcessedRequests n)),
           (''success_requests'', JInt (sn_SuccessRequests n)), (''error_requests'', JInt (sn_ErrorRequests n)),
           (''average_process_time'', JDur (sn_AverageProcessTime n))])"

definition statusHandler :: HandlerFunc where
  "statusHandler v rq = answer_json v
     (JObj [(''server_status'', JStr ''running''),
            (''workers'', JArr (map (\<lambda>(i, w). worker_json i w) (enumerate 0 (he_workers v)))),
            (''queue_status'', JObj [(''request_queue_length'', JInt (he_requests v)), (''response_queue_length'', JInt (he_responses v))])])
     ''status''"

definition echoHandler :: HandlerFunc where
  "echoHandler v rq = answer_json v
     (JObj [(''method'', JStr (hq_Method rq)), (''path'', JStr (hq_Path rq)), (''headers'', JHeaders (hq_Headers rq)),
            (''body'', JStr (hq_Body rq)), (''client_ip'', JStr (hq_ClientIP rq)), (''user_agent'', JStr (hq_UserAgent rq)),
            (''timestamp'', JInt (Unix (hq_Timestamp rq)))]) ''echo''"

definition slowHandler :: HandlerFunc where
  "slowHandler v rq =
     (if he_ends v then Returns None (Some ''context'')
      else answer_json v
        (JObj [(''message'', JStr ''Slow operation completed''), (''delay'', JDur (he_delay v)), (''timestamp'', JInt (Unix (he_now v)))]) ''slow'')"

definition cpuIntensiveHandler :: HandlerFunc where
  "cpuIntensiveHandler v rq =
     (if he_ends v then Returns None (Some ''context'')
      else answer_json v
        (JObj [(''message'', JStr ''CPU intensive operation completed''), (''iterations'', JInt (int (he_iterations v))),
               (''result'', JInt (sum_list (map (\<lambda>i. int i * int i) [0..<he_iterations v]))), (''timestamp'', JInt (Unix (he_now v)))])
        ''cpu_intensive'')"

definition TestHandler :: HandlerFunc where
  "TestHandler v rq = answer_json v
     (JObj [(''message'', JStr ''Test handler response''), (''request_id'', JStr (hq_ID rq)), (''timestamp'', JInt (Unix (he_now v)))]) ''test''"

definition quoted :: "string \<Rightarrow> string" where
  "quoted s = [CHR 0x22] @ s @ [CHR 0x22]"

definition DataHandler :: HandlerFunc where
  "DataHandler v rq =
     (if hq_Body rq \<noteq> [] \<and> he_unmarshal v (hq_Body rq) = None
      then Returns (Some (json_response 400 (''{'' @ quoted ''error'' @ '': '' @ quoted ''Invalid JSON'' @ ''}'') False ''data'')) None
      else answer_json v
        (JObj [(''message'', JStr ''Data processed successfully''),
               (''received_data'', if hq_Body rq = [] then JNull else the (he_unmarshal v (hq_Body rq))),
               (''processed_at'', JInt (Unix (he_now v))), (''request_id'', JStr (hq_ID rq))]) ''data'')"

definition default_status :: "string \<Rightarrow> int" where
  "default_status method =
     (if method \<in> {''GET'', ''HEAD''} then 404
      else if method \<in> {''POST'', ''PUT'', ''PATCH'', ''DELETE''} then 405 else 501)"

definition default_message :: "string \<Rightarrow> string \<Rightarrow> string" where
  "default_message method path =
     (if default_status method = 404 then ''Resource not found: '' @ method @ '' '' @ path
      else if default_status method = 405 then ''Method '' @ method @ '' not allowed for path: '' @ path
      else ''Method '' @ method @ '' not implemented for path: '' @ path)"

definition getDefaultHandler :: "string \<Rightarrow> string \<Rightarrow> HandlerFunc" where
  "getDefaultHandler method path v rq =
     Returns (Some \<lparr>hp_RequestID = hq_ID rq, hp_StatusCode = default_status method,
            hp_Headers = [''Content-Type'' \<mapsto> ''application/json''],
            hp_Body = Some (''{'' @ quoted ''error'' @ '': '' @ quoted (default_message method path) @ '', '' @ quoted ''path'' @ '': '' @
              quoted path @ '', '' @ quoted ''method'' @ '': '' @ quoted method @ ''}''),
            hp_ProcessTime = time_Sub (he_now v) (hq_Timestamp rq), hp_HandlerName = ''default_handler'', hp_Success = False,
            hp_Error = None, hp_CompletedAt = he_now v\<rparr>) None"

section \<open>Middlewares and routing\<close>

text \<open>\<^verbatim>\<open>LoggingMiddleware\<close> only logs.\<close>

definition LoggingMiddleware :: MiddlewareFunc where
  "LoggingMiddleware nxt v rq = nxt v rq"

definition CORSMiddleware :: MiddlewareFunc where
  "CORSMiddleware nxt v rq =
     (case nxt v rq of
        Panics \<Rightarrow> Panics
      | Returns None err \<Rightarrow> Returns None err
      | Returns (Some p) err \<Rightarrow>
          Returns (Some (p\<lparr>hp_Headers := (hp_Headers p)(''Access-Control-Allow-Origin'' \<mapsto> ''*'',
              ''Access-Control-Allow-Methods'' \<mapsto> ''GET, POST, PUT, DELETE, OPTIONS'',
              ''Access-Control-Allow-Headers'' \<mapsto> ''Content-Type, Authorization'')\<rparr>)) err)"

definition apply_middlewares :: "MiddlewareFunc list \<Rightarrow> HandlerFunc \<Rightarrow> HandlerFunc" where
  "apply_middlewares ms handler = foldl (\<lambda>result m. m result) handler (rev ms)"

definition handler_key :: "string \<Rightarrow> string \<Rightarrow> string" where
  "handler_key method path = method @ '' '' @ path"

definition findHandler :: "(string \<rightharpoonup> HandlerFunc) \<Rightarrow> string \<Rightarrow> string \<Rightarrow> HandlerFunc" where
  "findHandler handlers method path =
     (case handlers (handler_key method path) of Some h \<Rightarrow> h | None \<Rightarrow> getDefaultHandler method path)"

definition registerDefaultHandlers :: "string \<rightharpoonup> HandlerFunc" where
  "registerDefaultHandlers =
     [handler_key ''GET'' ''/health'' \<mapsto> healthCheckHandler, handler_key ''GET'' ''/metrics'' \<mapsto> metricsHandler,
      handler_key ''GET'' ''/status'' \<mapsto> statusHandler, handler_key ''POST'' ''/api/echo'' \<mapsto> echoHandler,
      handler_key ''GET'' ''/api/slow'' \<mapsto> slowHandler, handler_key ''GET'' ''/api/cpu'' \<mapsto> cpuIntensiveHandler]"

definition error_response :: "string \<Rightarrow> HTTPResponse" where
  "error_response message =
     \<lparr>hp_RequestID = [], hp_StatusCode = 500, hp_Headers = [''Content-Type'' \<mapsto> ''text/plain''], hp_Body = Some message, hp_ProcessTime = 0,
      hp_HandlerName = ''error_handler'', hp_Success = False, hp_Error = Some message, hp_CompletedAt = 0\<rparr>"

section \<open>The server\<close>

text \<open>What the client gets: a status of \<^verbatim>\<open>http.Error\<close>, a worker's response, or nothing since it left.\<close>

datatype client_answer = Refusal int | FromWorker HTTPResponse | Disconnected

datatype flight_phase = ReadingBody | Selecting | Awaiting | Answered client_answer

record flight =
  fl_request :: HTTPRequest
  fl_start :: time
  fl_phase :: flight_phase
  fl_result :: "HTTPResponse option"

text \<open>A worker's goroutine: idle, running a handler, delivering a response, reporting it, returned.\<close>

datatype worker_phase =
  WkIdle | WkRunning nat time | WkSending nat "HTTPResponse option" | WkReporting nat HTTPResponse | WkReturned

record http_worker =
  hw_ID :: nat
  hw_phase :: worker_phase

text \<open>How far a shutdown has got: waiting for the HTTP server, or for the goroutines.\<close>

datatype shutdown_phase = NoShutdown | StoppingHttp | AwaitingWorkers

record http_server =
  hs_maxWorkers :: nat
  hs_requestBuffer :: nat
  hs_requestQueue :: "nat list"
  hs_responseQueue :: "HTTPResponse list"
  hs_response_closed :: bool
  hs_workerStats :: "WorkerStats list"
  hs_workers :: "http_worker list"
  hs_handlers :: "string \<rightharpoonup> HandlerFunc"
  hs_middlewares :: "MiddlewareFunc list"
  hs_stats :: ServerStats
  hs_isRunning :: bool
  hs_startTime :: time
  hs_cancelled :: bool
  hs_responders :: nat
  hs_shutdown :: shutdown_phase
  hs_flights :: "flight list"
  hs_crashed :: bool
  hs_starts :: nat
  hs_maps_out :: bool
  hs_map_readers :: nat

definition new_stats :: WorkerStats where
  "new_stats = \<lparr>ws_ProcessedRequests = 0, ws_SuccessRequests = 0, ws_ErrorRequests = 0, ws_TotalProcessTime = 0\<rparr>"

definition NewConcurrentHTTPServer :: "nat \<times> nat \<Rightarrow> http_server" where
  "NewConcurrentHTTPServer = (\<lambda>(maxWorkers, requestBuffer).
     \<lparr>hs_maxWorkers = maxWorkers, hs_requestBuffer = requestBuffer, hs_requestQueue = [], hs_responseQueue = [],
      hs_response_closed = False, hs_workerStats = replicate maxWorkers new_stats, hs_workers = [], hs_handlers = registerDefaultHandlers,
      hs_middlewares = [],
      hs_stats = \<lparr>ss_totalRequests = 0, ss_activeRequests = 0, ss_completedRequests = 0, ss_errorRequests = 0,
        ss_averageResponseTime = 0, ss_statusCodeCounts = Map.empty, ss_pathCounts = Map.empty, ss_startTime = 0\<rparr>,
      hs_isRunning = False, hs_startTime = 0, hs_cancelled = False, hs_responders = 0, hs_shutdown = NoShutdown,
      hs_flights = [], hs_crashed = False, hs_starts = 0, hs_maps_out = False, hs_map_readers = 0\<rparr>)"

definition RegisterHandler :: "string \<Rightarrow> string \<Rightarrow> HandlerFunc \<Rightarrow> http_server \<Rightarrow> http_server" where
  "RegisterHandler method path handler s = s\<lparr>hs_handlers := (hs_handlers s)(handler_key method path \<mapsto> handler)\<rparr>"

definition AddMiddleware :: "MiddlewareFunc \<Rightarrow> http_server \<Rightarrow> http_server" where
  "AddMiddleware mw s = s\<lparr>hs_middlewares := hs_middlewares s @ [mw]\<rparr>"

definition Start_http :: "time \<Rightarrow> http_server \<Rightarrow> http_server \<times> bool" where
  "Start_http now s =
     (if hs_isRunning s then (s, False)
      else (s\<lparr>hs_isRunning := True, hs_startTime := now, hs_stats := (hs_stats s)\<lparr>ss_startTime := now\<rparr>,
              hs_workers := hs_workers s @ map (\<lambda>i. \<lparr>hw_ID = i, hw_phase = WkIdle\<rparr>) [0..<hs_maxWorkers s],
              hs_responders := hs_responders s + 1,
              hs_starts := hs_starts s + 1\<rparr>, True))"

abbreviation upd_stats :: "(ServerStats \<Rightarrow> ServerStats) \<Rightarrow> http_server \<Rightarrow> http_server" where
  "upd_stats f s \<equiv> s\<lparr>hs_stats := f (hs_stats s)\<rparr>"

definition add_active :: "int \<Rightarrow> ServerStats \<Rightarrow> ServerStats" where
  "add_active n st = st\<lparr>ss_activeRequests := ss_activeRequests st + n\<rparr>"

definition set_phase :: "nat \<Rightarrow> flight_phase \<Rightarrow> http_server \<Rightarrow> http_server" where
  "set_phase f p s = s\<lparr>hs_flights := (hs_flights s)[f := (hs_flights s ! f)\<lparr>fl_phase := p\<rparr>]\<rparr>"

section \<open>The goroutine of a request\<close>

definition serve_enter :: "string \<Rightarrow> time \<Rightarrow> raw_request \<Rightarrow> http_server \<Rightarrow> http_server" where
  "serve_enter reqID now r s =
     s\<lparr>hs_flights := hs_flights s @
        [\<lparr>fl_request = make_request reqID now r, fl_start = now,
          fl_phase = (if hs_cancelled s \<or> \<not> hs_isRunning s then Answered (Refusal 503) else ReadingBody), fl_result = None\<rparr>]\<rparr>"

text \<open>The body is read (\<open>None\<close>: too large, or an error), and the request is counted.\<close>

definition serve_body :: "nat \<Rightarrow> string option \<Rightarrow> http_server \<Rightarrow> http_server" where
  "serve_body f body s =
     (case body of
        None \<Rightarrow> set_phase f (Answered (Refusal 400)) s
      | Some b \<Rightarrow>
          (let fl = hs_flights s ! f
           in upd_stats (\<lambda>st. add_active 1 (st\<lparr>ss_totalRequests := ss_totalRequests st + 1\<rparr>))
                (s\<lparr>hs_flights := (hs_flights s)[f := fl\<lparr>fl_request := (fl_request fl)\<lparr>hq_Body := b\<rparr>, fl_phase := Selecting\<rparr>]\<rparr>)))"

definition serve_select :: "nat \<Rightarrow> bool \<Rightarrow> http_server \<Rightarrow> http_server" where
  "serve_select f stop s =
     (let room = length (hs_requestQueue s) < hs_requestBuffer s
      in if room \<and> \<not> (hs_cancelled s \<and> stop) then set_phase f Awaiting (s\<lparr>hs_requestQueue := hs_requestQueue s @ [f]\<rparr>)
         else if hs_cancelled s then upd_stats (add_active (- 1)) (set_phase f (Answered (Refusal 503)) s)
         else upd_stats (\<lambda>st. add_active (- 1) (st\<lparr>ss_errorRequests := ss_errorRequests st + 1\<rparr>))
                (set_phase f (Answered (Refusal 429)) s))"

datatype await_choice = TakeResult | SeeShutdown | ClientGone

definition serve_await :: "nat \<Rightarrow> await_choice \<Rightarrow> http_server \<Rightarrow> http_server option" where
  "serve_await f c s =
     (let fl = hs_flights s ! f
      in case c of
           TakeResult \<Rightarrow> (case fl_result fl of
               None \<Rightarrow> None
             | Some p \<Rightarrow> Some (s\<lparr>hs_flights := (hs_flights s)[f := fl\<lparr>fl_phase := Answered (FromWorker p), fl_result := None\<rparr>]\<rparr>))
         | SeeShutdown \<Rightarrow> if hs_cancelled s then Some (set_phase f (Answered (Refusal 503)) s) else None
         | ClientGone \<Rightarrow> Some (set_phase f (Answered Disconnected) s))"

section \<open>Workers\<close>

definition set_worker :: "nat \<Rightarrow> worker_phase \<Rightarrow> http_server \<Rightarrow> http_server" where
  "set_worker w p s = s\<lparr>hs_workers := (hs_workers s)[w := (hs_workers s ! w)\<lparr>hw_phase := p\<rparr>]\<rparr>"

definition worker_take_req :: "nat \<Rightarrow> time \<Rightarrow> http_server \<Rightarrow> http_server option" where
  "worker_take_req w now s =
     (case hs_requestQueue s of
        [] \<Rightarrow> None
      | f # rest \<Rightarrow> Some (set_worker w (WkRunning f now) (s\<lparr>hs_requestQueue := rest\<rparr>)))"

definition count_processed :: "HTTPResponse option \<Rightarrow> duration \<Rightarrow> WorkerStats \<Rightarrow> WorkerStats" where
  "count_processed p d w =
     (let w1 = w\<lparr>ws_ProcessedRequests := ws_ProcessedRequests w + 1, ws_TotalProcessTime := ws_TotalProcessTime w + d\<rparr>
      in if (case p of Some r \<Rightarrow> hp_Success r | None \<Rightarrow> False)
         then w1\<lparr>ws_SuccessRequests := ws_SuccessRequests w + 1\<rparr>
         else w1\<lparr>ws_ErrorRequests := ws_ErrorRequests w + 1\<rparr>)"

definition processRequest :: "nat \<Rightarrow> handler_env \<Rightarrow> http_server \<Rightarrow> http_server option" where
  "processRequest w v s =
     (case hw_phase (hs_workers s ! w) of
        WkRunning f start \<Rightarrow>
          (let rq = fl_request (hs_flights s ! f); i = hw_ID (hs_workers s ! w);
               handler = apply_middlewares (hs_middlewares s) (findHandler (hs_handlers s) (hq_Method rq) (hq_Path rq))
           in Some (case handler v rq of
                Panics \<Rightarrow> s\<lparr>hs_crashed := True\<rparr>
              | Returns _ (Some err) \<Rightarrow> set_worker w (WkSending f (Some (error_response err))) s
              | Returns p None \<Rightarrow> set_worker w (WkSending f p)
                    (s\<lparr>hs_workerStats := (hs_workerStats s)[i := count_processed p (time_Sub (he_now v) start) (hs_workerStats s ! i)]\<rparr>)))
      | _ \<Rightarrow> None)"

definition count_response :: "int \<Rightarrow> string \<Rightarrow> ServerStats \<Rightarrow> ServerStats" where
  "count_response status path st =
     st\<lparr>ss_completedRequests := ss_completedRequests st + 1,
        ss_statusCodeCounts := map_incr (ss_statusCodeCounts st) status, ss_pathCounts := map_incr (ss_pathCounts st) path\<rparr>"

text \<open>The response is counted, stamped and put on the channel of its request; a nil response panics.\<close>

definition sendResponse :: "nat \<Rightarrow> time \<Rightarrow> http_server \<Rightarrow> http_server option" where
  "sendResponse w now s =
     (case hw_phase (hs_workers s ! w) of
        WkSending f None \<Rightarrow> Some (s\<lparr>hs_crashed := True\<rparr>)
      | WkSending f (Some p) \<Rightarrow>
          (let fl = hs_flights s ! f;
               p1 = p\<lparr>hp_RequestID := hq_ID (fl_request fl), hp_ProcessTime := time_Sub now (fl_start fl), hp_CompletedAt := now\<rparr>
           in Some (set_worker w (WkReporting f p1)
                (upd_stats (count_response (hp_StatusCode p) (hq_Path (fl_request fl)))
                  (s\<lparr>hs_flights := (if fl_result fl = None then (hs_flights s)[f := fl\<lparr>fl_result := Some p1\<rparr>] else hs_flights s)\<rparr>))))
      | _ \<Rightarrow> None)"

text \<open>The response goes to the statistics, unless the context has ended or there is no room.\<close>

definition report_response :: "nat \<Rightarrow> bool \<Rightarrow> http_server \<Rightarrow> http_server option" where
  "report_response w stop s =
     (case hw_phase (hs_workers s ! w) of
        WkReporting f p \<Rightarrow>
          (let done = upd_stats (add_active (- 1)) (set_worker w WkIdle s)
           in Some (if hs_cancelled s \<and> stop then done
              else if hs_response_closed s then s\<lparr>hs_crashed := True\<rparr>
              else if length (hs_responseQueue s) < hs_requestBuffer s then done\<lparr>hs_responseQueue := hs_responseQueue s @ [p]\<rparr>
              else done))
      | _ \<Rightarrow> None)"

definition worker_exit :: "nat \<Rightarrow> http_server \<Rightarrow> http_server option" where
  "worker_exit w s =
     (if hw_phase (hs_workers s ! w) = WkIdle \<and> hs_cancelled s
      then Some (set_worker w WkReturned s) else None)"

section \<open>Statistics of responses and the shutdown\<close>

definition processResponse :: "HTTPResponse \<Rightarrow> ServerStats \<Rightarrow> ServerStats" where
  "processResponse p st =
     (if ss_completedRequests st > 0
      then st\<lparr>ss_averageResponseTime :=
             go_div (ss_averageResponseTime st * ss_completedRequests st + hp_ProcessTime p) (ss_completedRequests st + 1)\<rparr>
      else st)"

definition handle_response :: "http_server \<Rightarrow> http_server option" where
  "handle_response s =
     (case hs_responseQueue s of
        [] \<Rightarrow> None
      | p # rest \<Rightarrow> Some (upd_stats (processResponse p) (s\<lparr>hs_responseQueue := rest\<rparr>)))"

definition shutdown_begin :: "http_server \<Rightarrow> http_server" where
  "shutdown_begin s = (if hs_isRunning s then s\<lparr>hs_isRunning := False, hs_shutdown := StoppingHttp\<rparr> else s)"

definition shutdown_cancel :: "http_server \<Rightarrow> http_server option" where
  "shutdown_cancel s =
     (if hs_shutdown s = StoppingHttp then Some (s\<lparr>hs_cancelled := True, hs_shutdown := AwaitingWorkers\<rparr>) else None)"

definition goroutines_done :: "http_server \<Rightarrow> bool" where
  "goroutines_done s \<longleftrightarrow> list_all (\<lambda>w. hw_phase w = WkReturned) (hs_workers s) \<and> hs_responders s = 0"

text \<open>All goroutines have returned in time (a second close panics), or the shutdown gives up.\<close>

definition shutdown_end :: "bool \<Rightarrow> http_server \<Rightarrow> http_server option" where
  "shutdown_end in_time s =
     (if hs_shutdown s \<noteq> AwaitingWorkers then None
      else if \<not> in_time then Some (s\<lparr>hs_shutdown := NoShutdown\<rparr>)
      else if \<not> goroutines_done s then None
      else if hs_response_closed s then Some (s\<lparr>hs_crashed := True\<rparr>)
      else Some (s\<lparr>hs_response_closed := True, hs_shutdown := NoShutdown\<rparr>))"

section \<open>Reading the statistics\<close>

text \<open>
  The numbers of the report are copies; the maps are the server's own.  What the caller does with them
  happens outside the lock: \<open>read_begin\<close> and \<open>read_end\<close> bracket a reader that walks over them, and
  \<open>map_clash\<close> is the runtime catching a worker that writes a count meanwhile.
\<close>

record server_report =
  rp_total_requests :: int
  rp_active_requests :: int
  rp_completed_requests :: int
  rp_error_requests :: int
  rp_average_response_time :: duration
  rp_requests_per_second :: real
  rp_uptime :: duration
  rp_worker_count :: nat
  rp_worker_stats :: "(nat \<times> WorkerStatsSnapshot) list"
  rp_status_code_counts :: "int \<rightharpoonup> int"
  rp_path_counts :: "string \<rightharpoonup> int"

definition GetStats_http :: "time \<Rightarrow> http_server \<Rightarrow> http_server \<times> server_report" where
  "GetStats_http now s =
     (let st = hs_stats s; uptime = time_Sub now (ss_startTime st)
      in (s\<lparr>hs_maps_out := True\<rparr>,
          \<lparr>rp_total_requests = ss_totalRequests st, rp_active_requests = ss_activeRequests st,
           rp_completed_requests = ss_completedRequests st, rp_error_requests = ss_errorRequests st,
           rp_average_response_time = ss_averageResponseTime st,
           rp_requests_per_second = (if uptime > 0 then real_of_int (ss_totalRequests st) / (real_of_int uptime / 10 ^ 9) else 0),
           rp_uptime = uptime, rp_worker_count = length (hs_workerStats s),
           rp_worker_stats = map (\<lambda>(i, w). (i, Snapshot w)) (enumerate 0 (hs_workerStats s)),
           rp_status_code_counts = ss_statusCodeCounts st, rp_path_counts = ss_pathCounts st\<rparr>))"

definition read_begin :: "http_server \<Rightarrow> http_server option" where
  "read_begin s = (if hs_maps_out s then Some (s\<lparr>hs_map_readers := hs_map_readers s + 1\<rparr>) else None)"

definition read_end :: "http_server \<Rightarrow> http_server option" where
  "read_end s = (if hs_map_readers s > 0 then Some (s\<lparr>hs_map_readers := hs_map_readers s - 1\<rparr>) else None)"

definition map_clash :: "nat \<Rightarrow> http_server \<Rightarrow> http_server option" where
  "map_clash w s =
     (case hw_phase (hs_workers s ! w) of
        WkSending f (Some p) \<Rightarrow> if hs_map_readers s > 0 then Some (s\<lparr>hs_crashed := True\<rparr>) else None
      | _ \<Rightarrow> None)"

section \<open>Steps\<close>

datatype http_event =
  HtRegister string string HandlerFunc | HtMiddleware MiddlewareFunc | HtStart time
| HtEnter string time raw_request | HtBody nat "string option" | HtSelect nat bool | HtAwait nat await_choice
| HtTake nat time | HtHandle nat handler_env | HtSend nat time | HtReport nat bool | HtExit nat
| HtResponse | HtResponderExit | HtShutdown | HtCancel | HtShutdownEnd bool
| HtGetStats time | HtReadBegin | HtReadEnd | HtClash nat

definition flight_in :: "flight_phase \<Rightarrow> nat \<Rightarrow> http_server \<Rightarrow> bool" where
  "flight_in p f s \<longleftrightarrow> f < length (hs_flights s) \<and> fl_phase (hs_flights s ! f) = p"

fun http_act :: "http_server \<Rightarrow> http_event \<Rightarrow> http_server option" where
  "http_act s (HtRegister method path h) = (if hs_starts s = 0 then Some (RegisterHandler method path h s) else None)"
| "http_act s (HtMiddleware mw) = Some (AddMiddleware mw s)"
| "http_act s (HtStart now) = (if hs_shutdown s = NoShutdown then Some (fst (Start_http now s)) else None)"
| "http_act s (HtEnter reqID now r) = Some (serve_enter reqID now r s)"
| "http_act s (HtBody f body) = (if flight_in ReadingBody f s then Some (serve_body f body s) else None)"
| "http_act s (HtSelect f stop) = (if flight_in Selecting f s then Some (serve_select f stop s) else None)"
| "http_act s (HtAwait f c) = (if flight_in Awaiting f s then serve_await f c s else None)"
| "http_act s (HtTake w now) =
     (if w < length (hs_workers s) \<and> hw_phase (hs_workers s ! w) = WkIdle then worker_take_req w now s else None)"
| "http_act s (HtHandle w v) = (if w < length (hs_workers s) then processRequest w v s else None)"
| "http_act s (HtSend w now) = (if w < length (hs_workers s) then sendResponse w now s else None)"
| "http_act s (HtReport w stop) = (if w < length (hs_workers s) then report_response w stop s else None)"
| "http_act s (HtExit w) = (if w < length (hs_workers s) then worker_exit w s else None)"
| "http_act s HtResponse = (if hs_responders s > 0 then handle_response s else None)"
| "http_act s HtResponderExit = (if hs_responders s > 0 \<and> hs_cancelled s then Some (s\<lparr>hs_responders := hs_responders s - 1\<rparr>) else None)"
| "http_act s HtShutdown = (if hs_shutdown s = NoShutdown then Some (shutdown_begin s) else None)"
| "http_act s HtCancel = shutdown_cancel s"
| "http_act s (HtShutdownEnd in_time) = shutdown_end in_time s"
| "http_act s (HtGetStats now) = Some (fst (GetStats_http now s))"
| "http_act s HtReadBegin = read_begin s"
| "http_act s HtReadEnd = read_end s"
| "http_act s (HtClash w) = (if w < length (hs_workers s) then map_clash w s else None)"

text \<open>Nothing happens any more in a process that has crashed.\<close>

definition http_step :: "http_server \<Rightarrow> http_event \<Rightarrow> http_server option" where
  "http_step s e = (if hs_crashed s then None else http_act s e)"

section \<open>What every interleaving keeps\<close>

definition selecting :: "flight \<Rightarrow> int" where
  "selecting fl = (if fl_phase fl = Selecting then 1 else 0)"

definition busy :: "http_worker \<Rightarrow> int" where
  "busy w = (if hw_phase w = WkIdle \<or> hw_phase w = WkReturned then 0 else 1)"

definition active_ok :: "http_server \<Rightarrow> bool" where
  "active_ok s \<longleftrightarrow> ss_activeRequests (hs_stats s) = sum_list (map selecting (hs_flights s)) + int (length (hs_requestQueue s)) +
       sum_list (map busy (hs_workers s)) \<and>
     length (hs_requestQueue s) \<le> hs_requestBuffer s \<and> length (hs_responseQueue s) \<le> hs_requestBuffer s"

text \<open>How many hold a request: the queue, and workers that have not delivered a response yet.\<close>

definition holds :: "nat \<Rightarrow> http_worker \<Rightarrow> bool" where
  "holds f w = (case hw_phase w of WkRunning g _ \<Rightarrow> g = f | WkSending g _ \<Rightarrow> g = f | _ \<Rightarrow> False)"

definition holders :: "nat \<Rightarrow> http_server \<Rightarrow> int" where
  "holders f s = int (count_list (hs_requestQueue s) f) + int (length (filter (holds f) (hs_workers s)))"

definition allowed :: "flight \<Rightarrow> int" where
  "allowed fl =
     (case fl_phase fl of ReadingBody \<Rightarrow> 0 | Selecting \<Rightarrow> 0 | Answered (FromWorker p) \<Rightarrow> 0 | _ \<Rightarrow> if fl_result fl = None then 1 else 0)"

definition stamped :: "flight \<Rightarrow> bool" where
  "stamped fl \<longleftrightarrow> (\<forall>p. fl_result fl = Some p \<longrightarrow> hp_RequestID p = hq_ID (fl_request fl)) \<and>
     (\<forall>p. fl_phase fl = Answered (FromWorker p) \<longrightarrow> hp_RequestID p = hq_ID (fl_request fl)) \<and>
     (fl_phase fl = ReadingBody \<or> fl_phase fl = Selecting \<longrightarrow> fl_result fl = None)"

definition owner_ok :: "http_server \<Rightarrow> bool" where
  "owner_ok s \<longleftrightarrow> (\<forall>f < length (hs_flights s). holders f s \<le> allowed (hs_flights s ! f) \<and> stamped (hs_flights s ! f)) \<and>
     (\<forall>f \<ge> length (hs_flights s). holders f s = 0)"

definition totals_ok :: "http_server \<Rightarrow> bool" where
  "totals_ok s \<longleftrightarrow> finite (dom (ss_statusCodeCounts (hs_stats s))) \<and> finite (dom (ss_pathCounts (hs_stats s))) \<and>
     map_sum (\<lambda>n. n) (ss_statusCodeCounts (hs_stats s)) = ss_completedRequests (hs_stats s) \<and>
     map_sum (\<lambda>n. n) (ss_pathCounts (hs_stats s)) = ss_completedRequests (hs_stats s)"

text \<open>A handler, or a middleware on such handlers, that returns, and never without both response and error.\<close>

definition proper :: "HandlerFunc \<Rightarrow> bool" where
  "proper h \<longleftrightarrow> (\<forall>v rq. h v rq \<noteq> Panics \<and> h v rq \<noteq> Returns None None)"

definition proper_mw :: "MiddlewareFunc \<Rightarrow> bool" where
  "proper_mw m \<longleftrightarrow> (\<forall>h. proper h \<longrightarrow> proper (m h))"

definition handlers_ok :: "http_server \<Rightarrow> bool" where
  "handlers_ok s \<longleftrightarrow> (\<forall>k h. hs_handlers s k = Some h \<longrightarrow> proper h) \<and> (\<forall>m \<in> set (hs_middlewares s). proper_mw m)"

definition sending_nil :: "http_worker \<Rightarrow> bool" where
  "sending_nil w = (case hw_phase w of WkSending f None \<Rightarrow> True | _ \<Rightarrow> False)"

definition nil_ok :: "http_server \<Rightarrow> bool" where
  "nil_ok s \<longleftrightarrow> (hs_starts s = 0 \<longrightarrow> hs_workers s = []) \<and> (handlers_ok s \<longrightarrow> filter sending_nil (hs_workers s) = [])"

definition channel_ok :: "http_server \<Rightarrow> bool" where
  "channel_ok s \<longleftrightarrow> (hs_isRunning s \<or> hs_shutdown s \<noteq> NoShutdown \<or> hs_cancelled s \<longrightarrow> 1 \<le> hs_starts s) \<and>
     (hs_response_closed s \<longrightarrow> hs_cancelled s) \<and> (hs_shutdown s = AwaitingWorkers \<longrightarrow> hs_cancelled s) \<and>
     (hs_starts s \<le> 1 \<longrightarrow>
        (hs_shutdown s \<noteq> NoShutdown \<or> hs_cancelled s \<longrightarrow> \<not> hs_isRunning s) \<and>
        (hs_response_closed s \<longrightarrow> hs_shutdown s = NoShutdown \<and> list_all (\<lambda>w. hw_phase w = WkReturned) (hs_workers s)))"

text \<open>What can have ended the process.\<close>

definition crash_ok :: "http_server \<Rightarrow> bool" where
  "crash_ok s \<longleftrightarrow> (hs_crashed s \<longrightarrow> 1 < hs_starts s \<or> \<not> handlers_ok s \<or> 0 < hs_map_readers s)"

definition http_inv :: "nat \<times> nat \<Rightarrow> http_server \<Rightarrow> bool" where
  "http_inv c s \<longleftrightarrow> active_ok s \<and> owner_ok s \<and> totals_ok s \<and> nil_ok s \<and> channel_ok s"

subsection \<open>Phases of flights and workers\<close>

lemma set_worker_frame:
  "hs_requestBuffer (set_worker w p s) = hs_requestBuffer s" "hs_requestQueue (set_worker w p s) = hs_requestQueue s"
  "hs_responseQueue (set_worker w p s) = hs_responseQueue s" "hs_response_closed (set_worker w p s) = hs_response_closed s"
  "hs_handlers (set_worker w p s) = hs_handlers s" "hs_middlewares (set_worker w p s) = hs_middlewares s"
  "hs_stats (set_worker w p s) = hs_stats s" "hs_isRunning (set_worker w p s) = hs_isRunning s"
  "hs_cancelled (set_worker w p s) = hs_cancelled s" "hs_shutdown (set_worker w p s) = hs_shutdown s"
  "hs_flights (set_worker w p s) = hs_flights s" "hs_crashed (set_worker w p s) = hs_crashed s" "hs_starts (set_worker w p s) = hs_starts s"
  by (simp_all add: set_worker_def)

lemma worker_sum:
  assumes "w < length (hs_workers s)"
  shows "sum_list (map busy (hs_workers (set_worker w p s))) =
    sum_list (map busy (hs_workers s)) - busy (hs_workers s ! w) + (if p = WkIdle \<or> p = WkReturned then 0 else 1)"
  using assms by (simp add: set_worker_def sum_upd) (simp add: busy_def)

lemma holders_worker:
  assumes "w < length (hs_workers s)"
  shows "holders f (set_worker w p s) = holders f s - (if holds f (hs_workers s ! w) then 1 else 0) +
    (case p of WkRunning g _ \<Rightarrow> if g = f then 1 else 0 | WkSending g _ \<Rightarrow> if g = f then 1 else 0 | _ \<Rightarrow> 0)"
proof -
  have "holds f ((hs_workers s ! w)\<lparr>hw_phase := p\<rparr>) = (case p of WkRunning g _ \<Rightarrow> g = f | WkSending g _ \<Rightarrow> g = f | _ \<Rightarrow> False)"
    by (simp add: holds_def)
  then show ?thesis using length_filter_update [OF assms, of "holds f" "(hs_workers s ! w)\<lparr>hw_phase := p\<rparr>"]
    by (simp add: holders_def set_worker_def split: worker_phase.splits)
qed

lemma holders_cong: "hs_requestQueue s' = hs_requestQueue s \<Longrightarrow> hs_workers s' = hs_workers s \<Longrightarrow> holders f s' = holders f s"
  by (simp add: holders_def)

lemma holders_nonneg: "0 \<le> holders f s"
  by (simp add: holders_def)

lemma owner_keep:
  assumes "owner_ok s" and "hs_flights s' = hs_flights s" and "\<And>f. holders f s' \<le> holders f s"
  shows "owner_ok s'"
proof -
  have "holders f s' \<le> allowed (hs_flights s ! f)" if "f < length (hs_flights s)" for f
    using assms(1) assms(3) [of f] that unfolding owner_ok_def by (meson order_trans)
  moreover have "holders f s' = 0" if "length (hs_flights s) \<le> f" for f
    using assms(1) assms(3) [of f] that holders_nonneg [of f s'] unfolding owner_ok_def by force
  ultimately show ?thesis using assms(1,2) unfolding owner_ok_def by simp
qed

lemma owner_update:
  assumes "owner_ok s" and "f < length (hs_flights s)" and "hs_flights s' = (hs_flights s)[f := fl]"
    and "\<And>g. g \<noteq> f \<Longrightarrow> holders g s' = holders g s" and "holders f s' \<le> allowed fl" and "stamped fl"
  shows "owner_ok s'"
proof -
  have "holders g s' \<le> allowed (hs_flights s' ! g) \<and> stamped (hs_flights s' ! g)" if "g < length (hs_flights s)" for g
    using assms that unfolding owner_ok_def by (cases "g = f") simp_all
  moreover have "holders g s' = 0" if "length (hs_flights s) \<le> g" for g
    using assms(1,2,4) that unfolding owner_ok_def by simp
  ultimately show ?thesis using assms(3) unfolding owner_ok_def by simp
qed

lemma owner_flight: "owner_ok s \<Longrightarrow> f < length (hs_flights s) \<Longrightarrow> holders f s \<le> allowed (hs_flights s ! f) \<and> stamped (hs_flights s ! f)"
  by (simp add: owner_ok_def)

lemma selecting_update:
  "f < length (hs_flights s) \<Longrightarrow> sum_list (map selecting ((hs_flights s)[f := fl])) =
     sum_list (map selecting (hs_flights s)) - selecting (hs_flights s ! f) + selecting fl"
  by (rule sum_list_update_int)

lemma map_sum_incr: "finite (dom m) \<Longrightarrow> map_sum (\<lambda>n. n) (map_incr m k) = map_sum (\<lambda>n. n) m + 1"
  using map_sum_upd [of m "\<lambda>n. n" k] map_sum_at [of m "\<lambda>n. n" k] by (simp add: map_incr_def split: option.splits)

lemma finite_map_incr: "finite (dom m) \<Longrightarrow> finite (dom (map_incr m k))"
  by (simp add: map_incr_def)

lemma filter_update_Nil: "filter p xs = [] \<Longrightarrow> \<not> p x \<Longrightarrow> filter p (xs[i := x]) = []"
  using set_update_in [of _ xs i x] by (auto simp: filter_empty_conv)

lemma nil_worker:
  assumes "nil_ok s" and "\<not> (\<exists>f. p = WkSending f None) \<or> \<not> handlers_ok s"
  shows "nil_ok (set_worker w p s)"
proof -
  have "handlers_ok (set_worker w p s) = handlers_ok s" by (simp add: handlers_ok_def set_worker_frame)
  moreover have "\<not> sending_nil ((hs_workers s ! w)\<lparr>hw_phase := p\<rparr>)" if "\<not> (\<exists>f. p = WkSending f None)"
    using that by (simp add: sending_nil_def split: worker_phase.splits option.splits)
  ultimately show ?thesis using assms filter_update_Nil [of sending_nil "hs_workers s"]
    by (auto simp: nil_ok_def set_worker_def)
qed

lemma channel_worker:
  assumes "channel_ok s" and "\<not> hs_crashed s" and "w < length (hs_workers s)" and "hw_phase (hs_workers s ! w) \<noteq> WkReturned"
  shows "channel_ok (set_worker w p s)"
proof -
  have "\<not> list_all (\<lambda>w. hw_phase w = WkReturned) (hs_workers s)" using assms(3,4) by (auto simp: list_all_length)
  then have "hs_response_closed s \<Longrightarrow> \<not> hs_starts s \<le> 1" using assms(1) unfolding channel_ok_def by blast
  then show ?thesis using assms(1,2) by (auto simp: channel_ok_def set_worker_frame)
qed

text \<open>A step that leaves workers, handlers and the life of the server alone keeps the last two parts.\<close>

lemma nil_keep:
  "hs_starts s' = hs_starts s \<Longrightarrow> hs_workers s' = hs_workers s \<Longrightarrow> hs_handlers s' = hs_handlers s \<Longrightarrow>
     hs_middlewares s' = hs_middlewares s \<Longrightarrow> nil_ok s' = nil_ok s"
  by (simp add: nil_ok_def handlers_ok_def)

lemma channel_keep:
  "hs_starts s' = hs_starts s \<Longrightarrow> hs_workers s' = hs_workers s \<Longrightarrow> hs_isRunning s' = hs_isRunning s \<Longrightarrow>
     hs_shutdown s' = hs_shutdown s \<Longrightarrow> hs_cancelled s' = hs_cancelled s \<Longrightarrow> hs_response_closed s' = hs_response_closed s \<Longrightarrow>
     hs_crashed s' = hs_crashed s \<Longrightarrow> channel_ok s' = channel_ok s"
  by (simp add: channel_ok_def)

lemma active_keep:
  "hs_stats s' = hs_stats s \<Longrightarrow> map selecting (hs_flights s') = map selecting (hs_flights s) \<Longrightarrow> hs_requestQueue s' = hs_requestQueue s \<Longrightarrow>
     hs_responseQueue s' = hs_responseQueue s \<Longrightarrow> hs_requestBuffer s' = hs_requestBuffer s \<Longrightarrow>
     map busy (hs_workers s') = map busy (hs_workers s) \<Longrightarrow> active_ok s' = active_ok s"
  by (simp add: active_ok_def)

lemma totals_keep: "hs_stats s' = hs_stats s \<Longrightarrow> totals_ok s' = totals_ok s"
  by (simp add: totals_ok_def)

text \<open>What is left to show for a step of a request.\<close>

lemma http_keep:
  assumes "http_inv c s" and "active_ok s'" and "owner_ok s'" and "totals_ok s'"
    and "hs_starts s' = hs_starts s" "hs_workers s' = hs_workers s" "hs_handlers s' = hs_handlers s" "hs_middlewares s' = hs_middlewares s"
    "hs_isRunning s' = hs_isRunning s" "hs_shutdown s' = hs_shutdown s" "hs_cancelled s' = hs_cancelled s"
    "hs_response_closed s' = hs_response_closed s" "hs_crashed s' = hs_crashed s"
  shows "http_inv c s'"
  using assms nil_keep [of s' s] channel_keep [of s' s] by (simp add: http_inv_def)

subsection \<open>The goroutine of a request\<close>

lemma flight_phase_inv:
  assumes "http_inv c s" and "f < length (hs_flights s)" and "fl_phase (hs_flights s ! f) = ReadingBody \<or> fl_phase (hs_flights s ! f) = Awaiting"
    and "p = Answered (Refusal n) \<or> p = Answered Disconnected"
  shows "http_inv c (set_phase f p s)"
proof -
  let ?fl = "(hs_flights s ! f)\<lparr>fl_phase := p\<rparr>"
  have o: "holders f s \<le> allowed (hs_flights s ! f)" "stamped (hs_flights s ! f)"
    using owner_flight assms(1,2) by (auto simp: http_inv_def)
  have "allowed (hs_flights s ! f) \<le> allowed ?fl" using assms(3,4) by (auto simp: allowed_def)
  moreover have "stamped ?fl" using o(2) assms(4) by (auto simp: stamped_def)
  ultimately have "owner_ok (set_phase f p s)"
    using assms(1,2) o(1) by - (rule owner_update [where s = s and f = f and fl = ?fl], auto simp: http_inv_def set_phase_def holders_def)
  moreover have "map selecting ((hs_flights s)[f := ?fl]) = map selecting (hs_flights s)"
    using assms(2-4) by (auto simp: map_update list_update_same_conv selecting_def)
  then have "active_ok (set_phase f p s) = active_ok s" by (intro active_keep) (simp_all add: set_phase_def)
  moreover have "totals_ok (set_phase f p s) = totals_ok s" by (rule totals_keep) (simp add: set_phase_def)
  ultimately show ?thesis using assms(1) by (intro http_keep [OF assms(1)]) (simp_all add: http_inv_def set_phase_def)
qed

lemma serve_enter_inv:
  assumes "http_inv c s"
  shows "http_inv c (serve_enter reqID now r s)"
proof -
  let ?s' = "serve_enter reqID now r s"
  have h: "holders f ?s' = holders f s" for f by (simp add: holders_def serve_enter_def)
  have z: "holders f s = 0" if "length (hs_flights s) \<le> f" for f using assms that by (simp add: http_inv_def owner_ok_def)
  have "holders f ?s' \<le> allowed (hs_flights ?s' ! f) \<and> stamped (hs_flights ?s' ! f)" if "f < length (hs_flights ?s')" for f
  proof (cases "f < length (hs_flights s)")
    case True
    then show ?thesis using owner_flight assms h by (auto simp: http_inv_def serve_enter_def nth_append)
  next
    case False
    then have "f = length (hs_flights s)" using that by (simp add: serve_enter_def)
    then show ?thesis using h z by (simp add: serve_enter_def allowed_def stamped_def)
  qed
  moreover have "holders f ?s' = 0" if "length (hs_flights ?s') \<le> f" for f using that h z by (simp add: serve_enter_def)
  ultimately have "owner_ok ?s'" by (simp add: owner_ok_def)
  moreover have "active_ok ?s'" using assms by (simp add: http_inv_def active_ok_def serve_enter_def selecting_def)
  moreover have "totals_ok ?s' = totals_ok s" by (rule totals_keep) (simp add: serve_enter_def)
  ultimately show ?thesis using assms by (intro http_keep [OF assms]) (simp_all add: http_inv_def serve_enter_def)
qed

lemma serve_body_inv:
  assumes "http_inv c s" and "flight_in ReadingBody f s"
  shows "http_inv c (serve_body f body s)"
proof (cases body)
  case None
  then show ?thesis using flight_phase_inv [OF assms(1), of f "Answered (Refusal 400)"] assms(2) by (simp add: serve_body_def flight_in_def)
next
  case (Some b)
  let ?fl = "(hs_flights s ! f)\<lparr>fl_request := (fl_request (hs_flights s ! f))\<lparr>hq_Body := b\<rparr>, fl_phase := Selecting\<rparr>"
  let ?s' = "serve_body f body s"
  have f: "f < length (hs_flights s)" "fl_phase (hs_flights s ! f) = ReadingBody" using assms(2) by (simp_all add: flight_in_def)
  have fl: "hs_flights ?s' = (hs_flights s)[f := ?fl]" using Some by (simp add: serve_body_def Let_def)
  have o: "holders f s \<le> 0" "stamped (hs_flights s ! f)" using owner_flight [of s f] assms(1) f by (auto simp: http_inv_def allowed_def)
  have "owner_ok ?s'" using assms(1) f fl o
    by - (rule owner_update [where s = s and f = f and fl = ?fl], auto simp: http_inv_def serve_body_def Some Let_def holders_def allowed_def stamped_def)
  moreover have "active_ok ?s'" using assms(1) f
    by (simp add: http_inv_def active_ok_def serve_body_def Some Let_def add_active_def selecting_update) (simp add: selecting_def)
  moreover have "totals_ok ?s'" using assms(1) by (simp add: http_inv_def totals_ok_def serve_body_def Some Let_def add_active_def)
  ultimately show ?thesis by (intro http_keep [OF assms(1)]) (simp_all add: serve_body_def Some Let_def)
qed

lemma serve_select_inv:
  assumes "http_inv c s" and "flight_in Selecting f s"
  shows "http_inv c (serve_select f stop s)"
proof -
  let ?s' = "serve_select f stop s"
  have f: "f < length (hs_flights s)" "fl_phase (hs_flights s ! f) = Selecting" using assms(2) by (simp_all add: flight_in_def)
  have o: "holders f s \<le> 0" "stamped (hs_flights s ! f)" using owner_flight [of s f] assms(1) f by (auto simp: http_inv_def allowed_def)
  have r: "fl_result (hs_flights s ! f) = None" using o(2) f(2) by (simp add: stamped_def)
  have a: "active_ok s" "owner_ok s" using assms(1) by (simp_all add: http_inv_def)
  show ?thesis
  proof (cases "length (hs_requestQueue s) < hs_requestBuffer s \<and> \<not> (hs_cancelled s \<and> stop)")
    case True
    let ?fl = "(hs_flights s ! f)\<lparr>fl_phase := Awaiting\<rparr>"
    have e: "?s' = set_phase f Awaiting (s\<lparr>hs_requestQueue := hs_requestQueue s @ [f]\<rparr>)" using True by (simp add: serve_select_def Let_def)
    have "owner_ok ?s'" using a f o r unfolding e
      by - (rule owner_update [where s = s and f = f and fl = ?fl], auto simp: set_phase_def holders_def allowed_def stamped_def)
    moreover have "active_ok ?s'" using a f True unfolding e
      by (simp add: active_ok_def set_phase_def selecting_update) (simp add: selecting_def)
    moreover have "totals_ok ?s' = totals_ok s" unfolding e by (rule totals_keep) (simp add: set_phase_def)
    ultimately show ?thesis using assms(1) by (intro http_keep [OF assms(1)]) (simp_all add: http_inv_def e set_phase_def)
  next
    case False
    obtain n st where e: "?s' = s\<lparr>hs_flights := (hs_flights s)[f := (hs_flights s ! f)\<lparr>fl_phase := Answered (Refusal n)\<rparr>], hs_stats := st\<rparr>"
      and st: "ss_activeRequests st = ss_activeRequests (hs_stats s) - 1" "ss_statusCodeCounts st = ss_statusCodeCounts (hs_stats s)"
        "ss_pathCounts st = ss_pathCounts (hs_stats s)" "ss_completedRequests st = ss_completedRequests (hs_stats s)"
      using False by (cases "hs_cancelled s") (auto simp: serve_select_def Let_def set_phase_def add_active_def)
    let ?fl = "(hs_flights s ! f)\<lparr>fl_phase := Answered (Refusal n)\<rparr>"
    have "owner_ok ?s'" using a f o r unfolding e
      by - (rule owner_update [where s = s and f = f and fl = ?fl], auto simp: holders_def allowed_def stamped_def)
    moreover have "active_ok ?s'" using a f st(1) unfolding e by (simp add: active_ok_def selecting_update) (simp add: selecting_def)
    moreover have "totals_ok ?s'" using assms(1) st unfolding e by (simp add: http_inv_def totals_ok_def)
    ultimately show ?thesis by (intro http_keep [OF assms(1)]) (simp_all add: e)
  qed
qed

lemma serve_await_inv:
  assumes "http_inv c s" and "flight_in Awaiting f s" and "serve_await f ch s = Some s'"
  shows "http_inv c s'"
proof -
  have f: "f < length (hs_flights s)" "fl_phase (hs_flights s ! f) = Awaiting" using assms(2) by (simp_all add: flight_in_def)
  show ?thesis
  proof (cases ch)
    case TakeResult
    then obtain p where p: "fl_result (hs_flights s ! f) = Some p"
      and e: "s' = s\<lparr>hs_flights := (hs_flights s)[f := (hs_flights s ! f)\<lparr>fl_phase := Answered (FromWorker p), fl_result := None\<rparr>]\<rparr>"
      using assms(3) by (auto simp: serve_await_def Let_def split: option.splits)
    let ?fl = "(hs_flights s ! f)\<lparr>fl_phase := Answered (FromWorker p), fl_result := None\<rparr>"
    have o: "holders f s \<le> 0" "stamped (hs_flights s ! f)"
      using owner_flight [of s f] assms(1) f p by (auto simp: http_inv_def allowed_def)
    have "owner_ok s'" using assms(1) f o p unfolding e
      by - (rule owner_update [where s = s and f = f and fl = ?fl], auto simp: http_inv_def holders_def allowed_def stamped_def)
    moreover have "map selecting ((hs_flights s)[f := ?fl]) = map selecting (hs_flights s)"
      using f by (simp add: map_update list_update_same_conv selecting_def)
    then have "active_ok s' = active_ok s" unfolding e by (intro active_keep) simp_all
    moreover have "totals_ok s' = totals_ok s" unfolding e by (rule totals_keep) simp
    ultimately show ?thesis using assms(1) by (intro http_keep [OF assms(1)]) (simp_all add: http_inv_def e)
  next
    case SeeShutdown
    then show ?thesis using assms(1,3) f flight_phase_inv [OF assms(1), of f "Answered (Refusal 503)"]
      by (auto simp: serve_await_def Let_def split: if_splits)
  next
    case ClientGone
    then show ?thesis using assms(1,3) f flight_phase_inv [OF assms(1), of f "Answered Disconnected"]
      by (auto simp: serve_await_def Let_def)
  qed
qed

subsection \<open>Workers\<close>

lemma worker_take_inv:
  assumes "http_inv c s" and "\<not> hs_crashed s" and "w < length (hs_workers s)" and "hw_phase (hs_workers s ! w) = WkIdle"
    and "worker_take_req w now s = Some s'"
  shows "http_inv c s'"
proof -
  obtain f rest where q: "hs_requestQueue s = f # rest" and e: "s' = set_worker w (WkRunning f now) (s\<lparr>hs_requestQueue := rest\<rparr>)"
    using assms(5) by (auto simp: worker_take_req_def split: list.splits)
  let ?s1 = "s\<lparr>hs_requestQueue := rest\<rparr>"
  have w: "w < length (hs_workers ?s1)" "\<not> holds g (hs_workers ?s1 ! w)" for g using assms(3,4) by (simp_all add: holds_def)
  have "holders g s' = holders g s" for g
    unfolding e holders_worker [OF w(1)] using w(2) by (simp add: holders_def q)
  then have "owner_ok s'" using assms(1) by - (rule owner_keep [of s], simp_all add: http_inv_def e set_worker_def)
  moreover have "active_ok s'" using assms(1) worker_sum [of w ?s1 "WkRunning f now"] assms(3,4) unfolding e
    by (simp add: http_inv_def active_ok_def set_worker_frame q busy_def)
  moreover have "totals_ok s'" using assms(1) by (simp add: http_inv_def totals_ok_def e set_worker_def)
  moreover have "nil_ok s'" unfolding e using assms(1) nil_keep [of ?s1 s] by (intro nil_worker) (simp_all add: http_inv_def)
  moreover have "channel_ok s'" unfolding e using assms(1-4) channel_keep [of ?s1 s] by (intro channel_worker) (simp_all add: http_inv_def)
  ultimately show ?thesis by (simp add: http_inv_def)
qed

lemma default_proper: "proper (getDefaultHandler method path)"
  by (simp add: proper_def getDefaultHandler_def)

lemma apply_proper: "proper h \<Longrightarrow> \<forall>m \<in> set ms. proper_mw m \<Longrightarrow> proper (apply_middlewares ms h)"
  by (induction ms arbitrary: h) (auto simp: apply_middlewares_def proper_mw_def)

lemma find_proper: "handlers_ok s \<Longrightarrow> proper (findHandler (hs_handlers s) method path)"
  by (simp add: findHandler_def handlers_ok_def default_proper split: option.split)

lemma worker_move:
  assumes "http_inv c s" and "\<not> hs_crashed s" and "w < length (hs_workers s)"
    and "busy (hs_workers s ! w) = 1" and "p \<noteq> WkIdle" "p \<noteq> WkReturned"
    and "\<And>g. holders g (set_worker w p s) = holders g s" and "\<not> (\<exists>f. p = WkSending f None) \<or> \<not> handlers_ok s"
  shows "http_inv c (set_worker w p s)"
proof -
  have "owner_ok (set_worker w p s)"
    using assms(1,7) by - (rule owner_keep [of s], simp_all add: http_inv_def set_worker_frame)
  moreover have "active_ok (set_worker w p s)" using assms(1) worker_sum [OF assms(3), of p] assms(4-6)
    by (simp add: http_inv_def active_ok_def set_worker_frame)
  moreover have "totals_ok (set_worker w p s)" using assms(1) by (simp add: http_inv_def totals_ok_def set_worker_frame)
  moreover have "nil_ok (set_worker w p s)" using assms(1,8) by (intro nil_worker) (simp_all add: http_inv_def)
  moreover have "channel_ok (set_worker w p s)" using assms(1-4) by (intro channel_worker) (auto simp: http_inv_def busy_def)
  ultimately show ?thesis by (simp add: http_inv_def)
qed

lemma stats_only: "http_inv c (s\<lparr>hs_workerStats := x\<rparr>) = http_inv c s"
  by (simp add: http_inv_def active_ok_def owner_ok_def holders_def totals_ok_def nil_ok_def handlers_ok_def channel_ok_def)

lemma crash_frame: "http_inv c (s\<lparr>hs_crashed := True\<rparr>) = http_inv c s"
  by (simp add: http_inv_def active_ok_def owner_ok_def holders_def totals_ok_def nil_ok_def handlers_ok_def channel_ok_def)

lemma processRequest_inv:
  assumes "http_inv c s" and "\<not> hs_crashed s" and "w < length (hs_workers s)" and "processRequest w v s = Some s'"
  shows "http_inv c s'"
proof -
  obtain f start where p: "hw_phase (hs_workers s ! w) = WkRunning f start"
    using assms(4) by (auto simp: processRequest_def split: worker_phase.splits)
  let ?rq = "fl_request (hs_flights s ! f)"
  define h where "h = apply_middlewares (hs_middlewares s) (findHandler (hs_handlers s) (hq_Method ?rq) (hq_Path ?rq))"
  have pr: "h v ?rq \<noteq> Returns None None" if "handlers_ok s"
    using apply_proper [OF find_proper [OF that]] that unfolding h_def handlers_ok_def proper_def by metis
  have b: "busy (hs_workers s ! w) = 1" "holds g (hs_workers s ! w) = (f = g)" for g using p by (auto simp: busy_def holds_def)
  have hold: "holders g (set_worker w (WkSending f x) t) = holders g s"
    if "hs_workers t = hs_workers s" "hs_requestQueue t = hs_requestQueue s" for g x t
  proof -
    have "w < length (hs_workers t)" "holds g (hs_workers t ! w) = (f = g)" using assms(3) b that by simp_all
    then show ?thesis using holders_worker [of w t g "WkSending f x"] holders_cong [of t s g] that by simp
  qed
  consider (panic) "h v ?rq = Panics" | (error) r err where "h v ?rq = Returns r (Some err)" | (answer) r where "h v ?rq = Returns r None"
    by (metis handler_answer.exhaust option.exhaust)
  then show ?thesis
  proof cases
    case panic
    then have "s' = s\<lparr>hs_crashed := True\<rparr>" using assms(4) p by (simp add: processRequest_def Let_def h_def)
    then show ?thesis using assms(1) by (simp add: crash_frame)
  next
    case (error r err)
    then have "s' = set_worker w (WkSending f (Some (error_response err))) s"
      using assms(4) p by (simp add: processRequest_def Let_def h_def)
    then show ?thesis using worker_move [OF assms(1-3) b(1)] hold by simp
  next
    case (answer r)
    let ?t = "s\<lparr>hs_workerStats := (hs_workerStats s)[hw_ID (hs_workers s ! w) :=
        count_processed r (time_Sub (he_now v) start) (hs_workerStats s ! hw_ID (hs_workers s ! w))]\<rparr>"
    have e: "s' = set_worker w (WkSending f r) ?t" using assms(4) p answer by (simp add: processRequest_def Let_def h_def)
    have "http_inv c ?t" using assms(1) stats_only by blast
    moreover have "\<not> (\<exists>g. WkSending f r = WkSending g None) \<or> \<not> handlers_ok ?t"
      using pr answer by (auto simp: handlers_ok_def)
    ultimately show ?thesis unfolding e using assms(2,3) b(1) hold [of ?t _ r] holders_cong [of ?t s]
      by (intro worker_move) simp_all
  qed
qed

lemma sendResponse_inv:
  assumes "http_inv c s" and "\<not> hs_crashed s" and "w < length (hs_workers s)" and "sendResponse w now s = Some s'"
  shows "http_inv c s'"
proof -
  obtain f r where p: "hw_phase (hs_workers s ! w) = WkSending f r"
    using assms(4) by (auto simp: sendResponse_def split: worker_phase.splits)
  show ?thesis
  proof (cases r)
    case None
    then have "s' = s\<lparr>hs_crashed := True\<rparr>" using assms(4) p by (simp add: sendResponse_def)
    then show ?thesis using assms(1) by (simp add: crash_frame)
  next
    case (Some q)
    let ?fl = "hs_flights s ! f"
    have g: "0 < holders f s"
    proof -
      have "holds f (hs_workers s ! w)" using p by (simp add: holds_def)
      then have "filter (holds f) (hs_workers s) \<noteq> []" using assms(3) by (metis filter_empty_conv nth_mem)
      then show ?thesis by (simp add: holders_def add_nonneg_pos)
    qed
    then have f: "f < length (hs_flights s)" using assms(1) by (metis http_inv_def less_irrefl not_le owner_ok_def)
    then have o: "holders f s \<le> allowed ?fl" "stamped ?fl" using owner_flight assms(1) by (auto simp: http_inv_def)
    then have one: "holders f s = 1" "fl_result ?fl = None" "allowed ?fl = 1"
      using g by (auto simp: allowed_def split: flight_phase.splits client_answer.splits if_splits)
    define p1 where "p1 = q\<lparr>hp_RequestID := hq_ID (fl_request ?fl), hp_ProcessTime := time_Sub now (fl_start ?fl), hp_CompletedAt := now\<rparr>"
    define t where "t = upd_stats (count_response (hp_StatusCode q) (hq_Path (fl_request ?fl)))
        (s\<lparr>hs_flights := (hs_flights s)[f := ?fl\<lparr>fl_result := Some p1\<rparr>]\<rparr>)"
    have e: "s' = set_worker w (WkReporting f p1) t"
      using assms(4) p Some one(2) by (simp add: sendResponse_def Let_def p1_def t_def)
    have tw: "w < length (hs_workers t)" "holds x (hs_workers t ! w) = (f = x)" for x using assms(3) p by (simp_all add: t_def holds_def)
    have h: "holders x s' = holders x s - (if f = x then 1 else 0)" for x
      unfolding e holders_worker [OF tw(1)] using tw(2) holders_cong [of t s x] by (simp add: t_def)
    have "owner_ok s'" using assms(1) f o(2) h one
      by - (rule owner_update [where s = s and f = f and fl = "?fl\<lparr>fl_result := Some p1\<rparr>"],
          auto simp: http_inv_def e t_def set_worker_frame allowed_def stamped_def p1_def split: flight_phase.splits client_answer.splits)
    moreover have "map selecting ((hs_flights s)[f := ?fl\<lparr>fl_result := Some p1\<rparr>]) = map selecting (hs_flights s)"
      using f by (simp add: map_update list_update_same_conv selecting_def)
    then have "active_ok s'" using assms(1) worker_sum [OF tw(1), of "WkReporting f p1"] p unfolding e
      by (simp add: http_inv_def active_ok_def set_worker_frame t_def count_response_def busy_def)
    moreover have "totals_ok s'" using assms(1) unfolding e
      by (simp add: http_inv_def totals_ok_def set_worker_frame t_def count_response_def map_sum_incr finite_map_incr)
    moreover have "nil_ok s'" unfolding e using assms(1) nil_keep [of t s] by (intro nil_worker) (simp_all add: http_inv_def t_def)
    moreover have "channel_ok s'" unfolding e using assms(1,2) tw(1) p channel_keep [of t s]
      by (intro channel_worker) (simp_all add: http_inv_def t_def)
    ultimately show ?thesis by (simp add: http_inv_def)
  qed
qed

lemma channel_open:
  assumes "channel_ok s" and "w < length (hs_workers s)" and "hw_phase (hs_workers s ! w) \<noteq> WkReturned" and "hs_response_closed s"
  shows "1 < hs_starts s"
proof (rule ccontr)
  assume "\<not> 1 < hs_starts s"
  then have "list_all (\<lambda>w. hw_phase w = WkReturned) (hs_workers s)" using assms(1,4) unfolding channel_ok_def by simp
  then show False using assms(2,3) by (simp add: list_all_length)
qed

lemma report_response_inv:
  assumes "http_inv c s" and "\<not> hs_crashed s" and "w < length (hs_workers s)" and "report_response w stop s = Some s'"
  shows "http_inv c s'"
proof -
  obtain f q where p: "hw_phase (hs_workers s ! w) = WkReporting f q"
    using assms(4) by (auto simp: report_response_def split: worker_phase.splits)
  let ?t = "upd_stats (add_active (- 1)) (set_worker w WkIdle s)"
  have h: "holders g (set_worker w WkIdle s) = holders g s" for g
    unfolding holders_worker [OF assms(3)] using p by (simp add: holds_def)
  have n: "nil_ok (set_worker w WkIdle s)" using assms(1) by (intro nil_worker) (simp_all add: http_inv_def)
  have ch: "channel_ok (set_worker w WkIdle s)" using assms(1-3) p by (intro channel_worker) (simp_all add: http_inv_def)
  have fits: "http_inv c (?t\<lparr>hs_responseQueue := rs\<rparr>)" if "length rs \<le> hs_requestBuffer s" for rs
  proof -
    let ?u = "?t\<lparr>hs_responseQueue := rs\<rparr>"
    have "holders g ?u = holders g s" for g using h [of g] holders_cong [of ?u "set_worker w WkIdle s" g] by simp
    then have "owner_ok ?u" using assms(1) by - (rule owner_keep [of s], simp_all add: http_inv_def set_worker_frame)
    moreover have "active_ok ?u" using assms(1) worker_sum [OF assms(3), of WkIdle] p that
      by (simp add: http_inv_def active_ok_def set_worker_frame add_active_def busy_def)
    moreover have "totals_ok ?u" using assms(1) by (simp add: http_inv_def totals_ok_def set_worker_frame add_active_def)
    moreover have "nil_ok ?u" using n nil_keep [of ?u "set_worker w WkIdle s"] by simp
    moreover have "channel_ok ?u" using ch channel_keep [of ?u "set_worker w WkIdle s"] by simp
    ultimately show ?thesis by (simp add: http_inv_def)
  qed
  have same: "?t = ?t\<lparr>hs_responseQueue := hs_responseQueue s\<rparr>" by (simp add: set_worker_def)
  have b: "length (hs_responseQueue s) \<le> hs_requestBuffer s" using assms(1) by (simp add: http_inv_def active_ok_def)
  have i: "http_inv c ?t" using fits [OF b] same by simp
  show ?thesis
  proof (cases "hs_cancelled s \<and> stop")
    case True
    then show ?thesis using assms(4) p i by (simp add: report_response_def Let_def)
  next
    case False
    then show ?thesis using assms(1,4) p i fits [of "hs_responseQueue s @ [q]"]
      by (auto simp: report_response_def Let_def crash_frame split: if_splits)
  qed
qed

subsection \<open>The life of the server\<close>

lemma life_inv:
  assumes "http_inv c s" and "channel_ok s'" and "active_ok s' = active_ok s" and "hs_flights s' = hs_flights s"
    and "hs_requestQueue s' = hs_requestQueue s" and "hs_workers s' = hs_workers s" and "hs_stats s' = hs_stats s" and "nil_ok s'"
  shows "http_inv c s'"
proof -
  have "owner_ok s' = owner_ok s" using assms(4-6) by (simp add: owner_ok_def holders_def)
  then show ?thesis using assms totals_keep [OF assms(7)] by (simp add: http_inv_def)
qed

lemma worker_exit_inv:
  assumes "http_inv c s" and "\<not> hs_crashed s" and "w < length (hs_workers s)" and "worker_exit w s = Some s'"
  shows "http_inv c s'"
proof -
  have p: "hw_phase (hs_workers s ! w) = WkIdle" and e: "s' = set_worker w WkReturned s"
    using assms(4) by (auto simp: worker_exit_def split: if_splits)
  have "holders g s' = holders g s" for g unfolding e holders_worker [OF assms(3)] using p by (simp add: holds_def)
  then have "owner_ok s'" using assms(1) by - (rule owner_keep [of s], simp_all add: http_inv_def e set_worker_frame)
  moreover have "active_ok s'" using assms(1) worker_sum [OF assms(3), of WkReturned] p unfolding e
    by (simp add: http_inv_def active_ok_def set_worker_frame busy_def)
  moreover have "totals_ok s'" using assms(1) by (simp add: http_inv_def totals_ok_def e set_worker_frame)
  moreover have "nil_ok s'" unfolding e using assms(1) by (intro nil_worker) (simp_all add: http_inv_def)
  moreover have "channel_ok s'" unfolding e using assms(1-3) p by (intro channel_worker) (simp_all add: http_inv_def)
  ultimately show ?thesis by (simp add: http_inv_def)
qed

lemma handle_response_inv:
  assumes "http_inv c s" and "handle_response s = Some s'"
  shows "http_inv c s'"
proof -
  obtain p rest where q: "hs_responseQueue s = p # rest" and e: "s' = upd_stats (processResponse p) (s\<lparr>hs_responseQueue := rest\<rparr>)"
    using assms(2) by (auto simp: handle_response_def split: list.splits)
  have st: "ss_activeRequests (processResponse p st) = ss_activeRequests st" "ss_completedRequests (processResponse p st) = ss_completedRequests st"
    "ss_statusCodeCounts (processResponse p st) = ss_statusCodeCounts st" "ss_pathCounts (processResponse p st) = ss_pathCounts st" for st
    by (simp_all add: processResponse_def)
  have "active_ok s'" "totals_ok s'" using assms(1) st q by (simp_all add: http_inv_def active_ok_def totals_ok_def e)
  moreover have "owner_ok s'" using assms(1) by (simp add: http_inv_def owner_ok_def holders_def e)
  ultimately show ?thesis by (intro http_keep [OF assms(1)]) (simp_all add: e)
qed

lemma start_http_inv:
  assumes "http_inv c s" and "\<not> hs_crashed s" and "hs_shutdown s = NoShutdown"
  shows "http_inv c (fst (Start_http now s))"
proof (cases "hs_isRunning s")
  case True
  then show ?thesis using assms(1) by (simp add: Start_http_def)
next
  case False
  let ?s' = "fst (Start_http now s)" and ?new = "map (\<lambda>i. \<lparr>hw_ID = i, hw_phase = WkIdle\<rparr>) [0..<hs_maxWorkers s]"
  have w: "hs_workers ?s' = hs_workers s @ ?new" using False by (simp add: Start_http_def)
  have z: "filter (holds f) ?new = []" "filter sending_nil ?new = []" for f
    by (auto simp: filter_empty_conv holds_def sending_nil_def)
  have b: "sum_list (map busy ?new) = 0" by (simp add: comp_def busy_def)
  have "holders f ?s' = holders f s" for f using z(1) [of f] False by (simp add: holders_def Start_http_def)
  then have "owner_ok ?s'" using assms(1) False by - (rule owner_keep [of s], simp_all add: http_inv_def Start_http_def)
  moreover have "active_ok ?s'" using assms(1) b False by (simp add: http_inv_def active_ok_def Start_http_def)
  moreover have "totals_ok ?s'" using assms(1) False by (simp add: http_inv_def totals_ok_def Start_http_def)
  moreover have "handlers_ok ?s' = handlers_ok s" using False by (simp add: handlers_ok_def Start_http_def)
  then have "nil_ok ?s'" using assms(1) z(2) False by (simp add: http_inv_def nil_ok_def Start_http_def)
  moreover have "channel_ok ?s'" using assms False by (auto simp: http_inv_def channel_ok_def Start_http_def)
  ultimately show ?thesis by (simp add: http_inv_def)
qed

lemma shutdown_end_inv:
  assumes "http_inv c s" and "\<not> hs_crashed s" and "shutdown_end in_time s = Some s'"
  shows "http_inv c s'"
proof -
  have sh: "hs_shutdown s = AwaitingWorkers" using assms(3) by (auto simp: shutdown_end_def split: if_splits)
  show ?thesis
  proof (cases "in_time \<and> hs_response_closed s")
    case True
    then show ?thesis using assms(1,3) by (auto simp: shutdown_end_def crash_frame split: if_splits)
  next
    case False
    then have e: "s' = s\<lparr>hs_response_closed := hs_response_closed s', hs_shutdown := NoShutdown\<rparr>"
      and x: "hs_response_closed s' = hs_response_closed s \<or> hs_response_closed s' \<and> goroutines_done s"
      using assms(3) by (auto simp: shutdown_end_def split: if_splits)
    have f: "hs_starts s' = hs_starts s" "hs_workers s' = hs_workers s" "hs_handlers s' = hs_handlers s" "hs_middlewares s' = hs_middlewares s"
      "hs_isRunning s' = hs_isRunning s" "hs_cancelled s' = hs_cancelled s" "hs_crashed s' = hs_crashed s" "hs_shutdown s' = NoShutdown"
      "hs_flights s' = hs_flights s" "hs_stats s' = hs_stats s" "hs_requestQueue s' = hs_requestQueue s"
      "hs_responseQueue s' = hs_responseQueue s" "hs_requestBuffer s' = hs_requestBuffer s"
      by (subst e, simp)+
    have "channel_ok s'" using assms(1) sh x by (auto simp: http_inv_def channel_ok_def goroutines_done_def f)
    moreover have "nil_ok s' = nil_ok s" "active_ok s' = active_ok s" by (rule nil_keep active_keep; simp add: f)+
    ultimately show ?thesis using assms(1) by (intro life_inv [OF assms(1)]) (simp_all add: f http_inv_def)
  qed
qed

lemma reader_frame:
  "http_inv c (s\<lparr>hs_maps_out := b\<rparr>) = http_inv c s" "http_inv c (s\<lparr>hs_map_readers := n\<rparr>) = http_inv c s"
  by (simp_all add: http_inv_def active_ok_def owner_ok_def holders_def totals_ok_def nil_ok_def handlers_ok_def channel_ok_def)

lemma http_act_inv:
  assumes "http_inv c s" and "\<not> hs_crashed s" and "http_act s e = Some s'"
  shows "http_inv c s'"
proof (cases e)
  case (HtRegister meth path h)
  then have z: "hs_starts s = 0" and e: "s' = RegisterHandler meth path h s" using assms(3) by (auto split: if_splits)
  have "nil_ok s'" using assms(1) z by (simp add: http_inv_def nil_ok_def e RegisterHandler_def)
  moreover have "channel_ok s' = channel_ok s" by (rule channel_keep) (simp_all add: e RegisterHandler_def)
  ultimately show ?thesis using assms(1) by (intro life_inv [OF assms(1)]) (simp_all add: e RegisterHandler_def active_ok_def http_inv_def)
next
  case (HtMiddleware mw)
  then have e: "s' = AddMiddleware mw s" using assms(3) by simp
  have "handlers_ok s' \<Longrightarrow> handlers_ok s" by (simp add: e AddMiddleware_def handlers_ok_def)
  then have "nil_ok s'" using assms(1) by (simp add: http_inv_def nil_ok_def e AddMiddleware_def)
  moreover have "channel_ok s' = channel_ok s" by (rule channel_keep) (simp_all add: e AddMiddleware_def)
  ultimately show ?thesis using assms(1) by (intro life_inv [OF assms(1)]) (simp_all add: e AddMiddleware_def active_ok_def http_inv_def)
next
  case (HtStart now)
  then show ?thesis using assms start_http_inv [of c s now] by (auto split: if_splits)
next
  case (HtEnter reqID now r)
  then show ?thesis using assms serve_enter_inv [of c s] by auto
next
  case (HtBody f body)
  then show ?thesis using assms serve_body_inv [of c s] by (auto split: if_splits)
next
  case (HtSelect f stop)
  then show ?thesis using assms serve_select_inv [of c s] by (auto split: if_splits)
next
  case (HtAwait f ch)
  then show ?thesis using assms serve_await_inv [of c s] by (auto split: if_splits)
next
  case (HtTake w now)
  then show ?thesis using assms worker_take_inv [of c s] by (auto split: if_splits)
next
  case (HtHandle w v)
  then show ?thesis using assms processRequest_inv [of c s] by (auto split: if_splits)
next
  case (HtSend w now)
  then show ?thesis using assms sendResponse_inv [of c s] by (auto split: if_splits)
next
  case (HtReport w stop)
  then show ?thesis using assms report_response_inv [of c s] by (auto split: if_splits)
next
  case (HtExit w)
  then show ?thesis using assms worker_exit_inv [of c s] by (auto split: if_splits)
next
  case HtResponse
  then show ?thesis using assms handle_response_inv [of c s] by (auto split: if_splits)
next
  case HtResponderExit
  then have e: "s' = s\<lparr>hs_responders := hs_responders s - 1\<rparr>" using assms(3) by (auto split: if_splits)
  have "channel_ok s' = channel_ok s" "nil_ok s' = nil_ok s" by (rule channel_keep nil_keep; simp add: e)+
  then show ?thesis using assms(1) by (intro life_inv [OF assms(1)]) (simp_all add: e active_ok_def http_inv_def)
next
  case HtShutdown
  then have e: "s' = shutdown_begin s" using assms(3) by (auto split: if_splits)
  have "nil_ok s' = nil_ok s" by (rule nil_keep) (simp_all add: e shutdown_begin_def)
  moreover have "channel_ok s'" using assms(1,2) by (auto simp: http_inv_def channel_ok_def e shutdown_begin_def)
  ultimately show ?thesis using assms(1) by (intro life_inv [OF assms(1)]) (simp_all add: e shutdown_begin_def active_ok_def http_inv_def)
next
  case HtCancel
  then have e: "s' = s\<lparr>hs_cancelled := True, hs_shutdown := AwaitingWorkers\<rparr>" and sh: "hs_shutdown s = StoppingHttp"
    using assms(3) by (auto simp: shutdown_cancel_def split: if_splits)
  have "nil_ok s' = nil_ok s" by (rule nil_keep) (simp_all add: e)
  moreover have "channel_ok s'" using assms(1,2) sh by (auto simp: http_inv_def channel_ok_def e)
  ultimately show ?thesis using assms(1) by (intro life_inv [OF assms(1)]) (simp_all add: e active_ok_def http_inv_def)
next
  case (HtShutdownEnd in_time)
  then show ?thesis using assms shutdown_end_inv by simp
next
  case (HtGetStats now)
  then show ?thesis using assms by (auto simp: GetStats_http_def Let_def reader_frame)
next
  case HtReadBegin
  then show ?thesis using assms by (auto simp: read_begin_def reader_frame split: if_splits)
next
  case HtReadEnd
  then show ?thesis using assms by (auto simp: read_end_def reader_frame split: if_splits)
next
  case (HtClash w)
  then show ?thesis using assms by (auto simp: map_clash_def crash_frame split: if_splits worker_phase.splits option.splits)
qed

text \<open>What may end the process, step by step.\<close>

lemma handler_crash:
  assumes "processRequest w v s = Some s'" and "hs_crashed s'" and "\<not> hs_crashed s"
  shows "\<not> handlers_ok s'"
proof -
  obtain f start where p: "hw_phase (hs_workers s ! w) = WkRunning f start"
    using assms(1) by (auto simp: processRequest_def split: worker_phase.splits)
  let ?rq = "fl_request (hs_flights s ! f)"
  let ?h = "apply_middlewares (hs_middlewares s) (findHandler (hs_handlers s) (hq_Method ?rq) (hq_Path ?rq))"
  have "?h v ?rq = Panics" and e: "s' = s\<lparr>hs_crashed := True\<rparr>" using assms p
    by (auto simp: processRequest_def Let_def set_worker_frame split: handler_answer.splits option.splits)
  then have "\<not> proper ?h" by (auto simp: proper_def)
  moreover have "proper ?h" if "handlers_ok s" using that apply_proper [OF find_proper [OF that]] unfolding handlers_ok_def by blast
  ultimately show ?thesis by (auto simp: e handlers_ok_def)
qed

lemma nil_crash:
  assumes "nil_ok s" and "w < length (hs_workers s)" and "hw_phase (hs_workers s ! w) = WkSending f None"
  shows "\<not> handlers_ok s"
proof -
  have "sending_nil (hs_workers s ! w)" using assms(3) by (simp add: sending_nil_def)
  then have "filter sending_nil (hs_workers s) \<noteq> []" using assms(2) by (metis filter_empty_conv nth_mem)
  then show ?thesis using assms(1) by (auto simp: nil_ok_def)
qed

lemma send_crash:
  assumes "http_inv c s" and "w < length (hs_workers s)" and "sendResponse w now s = Some s'" and "hs_crashed s'" and "\<not> hs_crashed s"
  shows "\<not> handlers_ok s'"
proof -
  have "\<exists>f. hw_phase (hs_workers s ! w) = WkSending f None" and e: "s' = s\<lparr>hs_crashed := True\<rparr>" using assms(3-5)
    by (auto simp: sendResponse_def Let_def set_worker_frame split: worker_phase.splits option.splits)
  then have "\<not> handlers_ok s" using nil_crash assms(1,2) by (auto simp: http_inv_def)
  then show ?thesis by (simp add: e handlers_ok_def)
qed

lemma report_crash:
  assumes "http_inv c s" and "w < length (hs_workers s)" and "report_response w stop s = Some s'" and "hs_crashed s'" and "\<not> hs_crashed s"
  shows "1 < hs_starts s'"
proof -
  have "hw_phase (hs_workers s ! w) \<noteq> WkReturned" "hs_response_closed s" and e: "s' = s\<lparr>hs_crashed := True\<rparr>" using assms(3-5)
    by (auto simp: report_response_def Let_def set_worker_frame split: worker_phase.splits if_splits)
  then have "1 < hs_starts s" using channel_open assms(1,2) by (auto simp: http_inv_def)
  then show ?thesis by (simp add: e)
qed

lemma close_crash:
  assumes "http_inv c s" and "shutdown_end in_time s = Some s'" and "hs_crashed s'" and "\<not> hs_crashed s"
  shows "1 < hs_starts s'"
proof -
  have "hs_shutdown s = AwaitingWorkers" "hs_response_closed s" and e: "s' = s\<lparr>hs_crashed := True\<rparr>" using assms(2-4)
    by (auto simp: shutdown_end_def split: if_splits)
  then show ?thesis using assms(1) by (auto simp: http_inv_def channel_ok_def)
qed

lemma read_crash: "map_clash w s = Some s' \<Longrightarrow> 0 < hs_map_readers s'"
  by (auto simp: map_clash_def split: worker_phase.splits option.splits if_splits)

lemma http_act_crash:
  assumes "http_inv c s" and "\<not> hs_crashed s" and "http_act s e = Some s'"
  shows "crash_ok s'"
proof (cases "hs_crashed s'")
  case False
  then show ?thesis by (simp add: crash_ok_def)
next
  case True
  have "1 < hs_starts s' \<or> \<not> handlers_ok s' \<or> 0 < hs_map_readers s'"
  proof (cases e)
    case (HtHandle w v)
    then show ?thesis using assms True handler_crash by (auto split: if_splits)
  next
    case (HtSend w now)
    then show ?thesis using assms True send_crash by (auto split: if_splits)
  next
    case (HtReport w stop)
    then show ?thesis using assms True report_crash by (auto split: if_splits)
  next
    case (HtShutdownEnd in_time)
    then show ?thesis using assms True close_crash by auto
  next
    case (HtClash w)
    then show ?thesis using assms True read_crash by (auto split: if_splits)
  next
    case (HtSelect f stop)
    then show ?thesis using assms(2,3) True by (auto simp: serve_select_def Let_def set_phase_def split: if_splits)
  next
    case (HtAwait f ch)
    then show ?thesis using assms(2,3) True
      by (auto simp: serve_await_def Let_def set_phase_def split: if_splits await_choice.splits option.splits)
  next
    case (HtTake w now)
    then show ?thesis using assms(2,3) True by (auto simp: worker_take_req_def set_worker_frame split: if_splits list.splits)
  qed (use assms(2,3) True in \<open>auto simp: RegisterHandler_def AddMiddleware_def Start_http_def serve_enter_def serve_body_def set_phase_def Let_def
      worker_exit_def set_worker_frame handle_response_def shutdown_begin_def shutdown_cancel_def GetStats_http_def read_begin_def read_end_def
      split: if_splits option.splits list.splits\<close>)
  then show ?thesis by (simp add: crash_ok_def)
qed

definition http_safe :: "nat \<times> nat \<Rightarrow> http_server \<Rightarrow> bool" where
  "http_safe c s \<longleftrightarrow> http_inv c s \<and> crash_ok s"

lemma http_step_safe: "http_safe c s \<Longrightarrow> http_step s e = Some s' \<Longrightarrow> http_safe c s'"
  using http_act_inv http_act_crash by (auto simp: http_step_def http_safe_def split: if_splits)

lemma http_start: "http_safe c (NewConcurrentHTTPServer c)"
  by (cases c) (simp add: http_safe_def crash_ok_def http_inv_def active_ok_def owner_ok_def holders_def totals_ok_def nil_ok_def
      channel_ok_def NewConcurrentHTTPServer_def)

interpretation http_runs: step_invariant http_step NewConcurrentHTTPServer http_safe "\<lambda>_. True"
  by unfold_locales (use http_start http_step_safe in blast)+

section \<open>Properties\<close>

lemma builtin_proper:
  "proper healthCheckHandler" "proper metricsHandler" "proper statusHandler" "proper echoHandler" "proper slowHandler"
  "proper cpuIntensiveHandler" "proper TestHandler" "proper DataHandler"
proof -
  have j: "answer_json v j name \<noteq> Panics" "answer_json v j name \<noteq> Returns None None" for v j name
    by (simp_all add: answer_json_def split: option.split)
  show "proper healthCheckHandler" "proper metricsHandler" "proper statusHandler" "proper echoHandler" "proper slowHandler"
    "proper cpuIntensiveHandler" "proper TestHandler" "proper DataHandler"
    using j by (simp_all add: proper_def healthCheckHandler_def metricsHandler_def statusHandler_def echoHandler_def slowHandler_def
        cpuIntensiveHandler_def TestHandler_def DataHandler_def Let_def)
qed

lemma middlewares_proper: "proper_mw LoggingMiddleware" "proper_mw CORSMiddleware"
  unfolding proper_mw_def proper_def LoggingMiddleware_def CORSMiddleware_def
  by (auto split: handler_answer.splits option.splits) (metis not_Some_eq)

lemma new_handlers_ok: "handlers_ok (NewConcurrentHTTPServer c)"
  by (cases c) (simp add: handlers_ok_def NewConcurrentHTTPServer_def registerDefaultHandlers_def builtin_proper)

text \<open>
  C12. Whatever requests, clients, workers, readers of the statistics and the shutdown do, the process of
  a server that was started at most once ends only in three ways: a handler or middleware panics, one
  returns neither response nor error, or a worker writes the maps that \<^verbatim>\<open>GetStats\<close> handed out while a
  caller reads them.  No worker sends to the closed response queue, the queue is not closed twice, and it
  is closed only when every worker has returned.  Handlers are registered before the start.
\<close>

theorem server_crash_causes:
  assumes "run_steps http_step (NewConcurrentHTTPServer c) es = Some s" and "hs_starts s \<le> 1"
  shows "(hs_crashed s \<longrightarrow> \<not> handlers_ok s \<or> 0 < hs_map_readers s) \<and> (hs_response_closed s \<longrightarrow> list_all (\<lambda>w. hw_phase w = WkReturned) (hs_workers s))"
proof -
  have "crash_ok s" "channel_ok s" using http_runs.inv_run [OF TrueI assms(1)] by (simp_all add: http_safe_def http_inv_def)
  then show ?thesis using assms(2) by (auto simp: crash_ok_def channel_ok_def)
qed

definition a_request :: raw_request where
  "a_request = \<lparr>raw_Method = ''GET'', raw_Path = ''/none'', raw_Header = Map.empty, raw_RemoteAddr = ''peer'', raw_UserAgent = []\<rparr>"

definition an_env :: handler_env where
  "an_env = \<lparr>he_now = 7, he_marshal = (\<lambda>j. Some ''json''), he_unmarshal = (\<lambda>b. None), he_ends = False, he_delay = 0, he_iterations = 0,
     he_startTime = 0, he_maxWorkers = 1,
     he_stats = \<lparr>ss_totalRequests = 0, ss_activeRequests = 0, ss_completedRequests = 0, ss_errorRequests = 0,
        ss_averageResponseTime = 0, ss_statusCodeCounts = Map.empty, ss_pathCounts = Map.empty, ss_startTime = 0\<rparr>,
     he_workers = [], he_requests = 0, he_responses = 0\<rparr>"

definition served_request :: "http_event list" where
  "served_request = [HtMiddleware CORSMiddleware, HtStart 1, HtEnter ''req_1'' 2 a_request, HtBody 0 (Some []), HtSelect 0 False, HtTake 0 3,
     HtHandle 0 an_env, HtSend 0 10, HtReport 0 False, HtAwait 0 TakeResult, HtResponse]"

definition stop_server :: "http_event list" where
  "stop_server = [HtShutdown, HtCancel, HtExit 0, HtResponderExit, HtShutdownEnd True]"

lemmas http_eval = http_step_def NewConcurrentHTTPServer_def Start_http_def serve_enter_def serve_body_def serve_select_def serve_await_def
  set_phase_def set_worker_def worker_take_req_def processRequest_def apply_middlewares_def findHandler_def handler_key_def
  registerDefaultHandlers_def getDefaultHandler_def default_status_def sendResponse_def count_response_def map_incr_def report_response_def
  add_active_def handle_response_def processResponse_def shutdown_begin_def shutdown_cancel_def worker_exit_def goroutines_done_def
  shutdown_end_def AddMiddleware_def RegisterHandler_def CORSMiddleware_def make_request_def a_request_def an_env_def flight_in_def new_stats_def
  count_processed_def time_Sub_def go_div_def GetStats_http_def read_begin_def read_end_def map_clash_def Let_def

lemma server_crash_causes_witness:
  "\<exists>s. run_steps http_step (NewConcurrentHTTPServer (1, 2)) (served_request @ stop_server) = Some s \<and> hs_response_closed s \<and>
    \<not> hs_crashed s \<and> list_all (\<lambda>w. hw_phase w = WkReturned) (hs_workers s)"
proof -
  obtain s where s: "run_steps http_step (NewConcurrentHTTPServer (1, 2)) (served_request @ stop_server) = Some s"
    "hs_starts s = 1" "hs_response_closed s" "hs_handlers s = registerDefaultHandlers" "hs_middlewares s = [CORSMiddleware]"
    "hs_map_readers s = 0"
    by (simp add: served_request_def stop_server_def http_eval)
  have "handlers_ok s" using s(4,5) middlewares_proper(2) new_handlers_ok [of "(1, 2)"]
    by (simp add: handlers_ok_def NewConcurrentHTTPServer_def)
  then show ?thesis using s server_crash_causes [OF s(1)] by (intro exI [of _ s]) simp
qed

text \<open>
  C39. Under any interleaving the number of active requests is that of the requests about to be queued,
  queued, or in the hands of a worker, and both queues keep their bound.  What a shutdown leaves in the
  queue therefore stays active for ever.
\<close>

theorem active_requests_exact:
  assumes "run_steps http_step (NewConcurrentHTTPServer c) es = Some s"
  shows "ss_activeRequests (hs_stats s) = sum_list (map selecting (hs_flights s)) + int (length (hs_requestQueue s)) +
      sum_list (map busy (hs_workers s)) \<and>
    length (hs_requestQueue s) \<le> hs_requestBuffer s \<and> length (hs_responseQueue s) \<le> hs_requestBuffer s"
  using http_runs.inv_run [OF TrueI assms] by (simp add: http_safe_def http_inv_def active_ok_def)

definition abandoned_request :: "http_event list" where
  "abandoned_request = [HtStart 1, HtEnter ''req_1'' 2 a_request, HtBody 0 (Some []), HtSelect 0 False, HtShutdown, HtCancel, HtAwait 0 SeeShutdown,
     HtExit 0, HtResponderExit, HtShutdownEnd True]"

lemma active_requests_exact_witness:
  "\<exists>s. run_steps http_step (NewConcurrentHTTPServer (1, 2)) abandoned_request = Some s \<and> hs_response_closed s \<and>
    ss_activeRequests (hs_stats s) = 1 \<and> list_all (\<lambda>w. hw_phase w = WkReturned) (hs_workers s)"
proof -
  obtain s where s: "run_steps http_step (NewConcurrentHTTPServer (1, 2)) abandoned_request = Some s" "hs_response_closed s"
    "list_all (\<lambda>w. hw_phase w = WkReturned) (hs_workers s)" "hs_requestQueue s = [0]" "sum_list (map selecting (hs_flights s)) = 0"
    "sum_list (map busy (hs_workers s)) = 0"
    by (simp add: abandoned_request_def http_eval selecting_def busy_def)
  then show ?thesis using active_requests_exact [OF s(1)] by (intro exI [of _ s]) simp
qed

text \<open>
  C23. A client that gets a worker's response gets the one to its own request, and each request is in the
  hands of at most one worker, never again after its response.
\<close>

theorem responses_match_requests:
  assumes "run_steps http_step (NewConcurrentHTTPServer c) es = Some s" and "f < length (hs_flights s)"
  shows "(fl_phase (hs_flights s ! f) = Answered (FromWorker p) \<longrightarrow> hp_RequestID p = hq_ID (fl_request (hs_flights s ! f))) \<and>
    holders f s \<le> 1 \<and> (fl_result (hs_flights s ! f) \<noteq> None \<or> fl_phase (hs_flights s ! f) = Answered (FromWorker p) \<longrightarrow> holders f s = 0)"
proof -
  have "owner_ok s" using http_runs.inv_run [OF TrueI assms(1)] by (simp add: http_safe_def http_inv_def)
  then have o: "holders f s \<le> allowed (hs_flights s ! f)" "stamped (hs_flights s ! f)" using assms(2) by (simp_all add: owner_flight)
  have "allowed (hs_flights s ! f) \<le> 1" by (simp add: allowed_def split: flight_phase.splits client_answer.splits)
  moreover have "allowed (hs_flights s ! f) = 0"
    if "fl_result (hs_flights s ! f) \<noteq> None \<or> fl_phase (hs_flights s ! f) = Answered (FromWorker p)"
    using that by (auto simp: allowed_def split: flight_phase.splits client_answer.splits)
  ultimately show ?thesis using o holders_nonneg [of f s] by (fastforce simp: stamped_def)
qed

lemma responses_match_requests_witness:
  "\<exists>s p. run_steps http_step (NewConcurrentHTTPServer (1, 2)) served_request = Some s \<and>
    fl_phase (hs_flights s ! 0) = Answered (FromWorker p) \<and> hp_RequestID p = ''req_1'' \<and> hp_StatusCode p = 404"
proof -
  obtain s p where s: "run_steps http_step (NewConcurrentHTTPServer (1, 2)) served_request = Some s" "length (hs_flights s) = 1"
    "fl_phase (hs_flights s ! 0) = Answered (FromWorker p)" "hq_ID (fl_request (hs_flights s ! 0)) = ''req_1''" "hp_StatusCode p = 404"
    by (simp add: served_request_def http_eval)
  have "0 < length (hs_flights s)" using s(2) by simp
  then show ?thesis using s responses_match_requests [OF s(1), of 0 p] by (intro exI [of _ s] exI [of _ p]) simp
qed

text \<open>
  The number of completed requests is the sum of the counts by status and of those by path.
\<close>

theorem completed_requests_add_up:
  assumes "run_steps http_step (NewConcurrentHTTPServer c) es = Some s"
  shows "map_sum (\<lambda>n. n) (ss_statusCodeCounts (hs_stats s)) = ss_completedRequests (hs_stats s) \<and>
    map_sum (\<lambda>n. n) (ss_pathCounts (hs_stats s)) = ss_completedRequests (hs_stats s)"
  using http_runs.inv_run [OF TrueI assms] by (simp add: http_safe_def http_inv_def totals_ok_def)

lemma completed_requests_add_up_witness:
  "\<exists>s. run_steps http_step (NewConcurrentHTTPServer (1, 2)) served_request = Some s \<and> ss_completedRequests (hs_stats s) = 1 \<and>
    map_sum (\<lambda>n. n) (ss_statusCodeCounts (hs_stats s)) = 1"
proof -
  obtain s where s: "run_steps http_step (NewConcurrentHTTPServer (1, 2)) served_request = Some s" "ss_completedRequests (hs_stats s) = 1"
    by (simp add: served_request_def http_eval)
  then show ?thesis using completed_requests_add_up [OF s(1)] by (intro exI [of _ s]) simp
qed

text \<open>
  Middlewares are applied like nested calls, the first one outermost; behind \<^verbatim>\<open>main\<close>'s two every
  response that a handler returns without an error is marked for other origins.
\<close>

theorem middlewares_nest:
  "apply_middlewares ms h = foldr (\<lambda>m. m) ms h \<and>
   (\<forall>p. apply_middlewares [LoggingMiddleware, CORSMiddleware] h v rq = Returns (Some p) None \<longrightarrow>
      hp_Headers p ''Access-Control-Allow-Origin'' = Some ''*'')"
proof
  show "apply_middlewares ms h = foldr (\<lambda>m. m) ms h" by (simp add: apply_middlewares_def foldr_conv_foldl)
  show "\<forall>p. apply_middlewares [LoggingMiddleware, CORSMiddleware] h v rq = Returns (Some p) None \<longrightarrow>
      hp_Headers p ''Access-Control-Allow-Origin'' = Some ''*''"
    by (auto simp: apply_middlewares_def LoggingMiddleware_def CORSMiddleware_def split: handler_answer.splits option.splits)
qed

lemma middlewares_nest_witness:
  "\<exists>p. apply_middlewares [LoggingMiddleware, CORSMiddleware] healthCheckHandler an_env (make_request ''r'' 0 a_request) = Returns (Some p) None \<and>
    hp_Headers p ''Access-Control-Allow-Origin'' = Some ''*''"
proof -
  obtain p where p: "apply_middlewares [LoggingMiddleware, CORSMiddleware] healthCheckHandler an_env (make_request ''r'' 0 a_request) = Returns (Some p) None"
    by (simp add: apply_middlewares_def LoggingMiddleware_def CORSMiddleware_def healthCheckHandler_def answer_json_def an_env_def)
  then show ?thesis using middlewares_nest [of _ healthCheckHandler an_env "make_request ''r'' 0 a_request"] by simp
qed

text \<open>
  A handler that returns neither response nor error ends the process: the worker reads the status of
  a response that is not there.
\<close>

theorem nil_response_crashes:
  assumes "w < length (hs_workers s)" and "\<not> hs_crashed s" and "hw_phase (hs_workers s ! w) = WkRunning f start"
    and "findHandler (hs_handlers s) (hq_Method (fl_request (hs_flights s ! f))) (hq_Path (fl_request (hs_flights s ! f))) v
      (fl_request (hs_flights s ! f)) = Returns None None" and "hs_middlewares s = []"
  shows "\<exists>s'. run_steps http_step s [HtHandle w v, HtSend w now] = Some s' \<and> hs_crashed s'"
  using assms by (simp add: http_step_def processRequest_def apply_middlewares_def sendResponse_def set_worker_def Let_def)

definition silent_handler :: HandlerFunc where
  "silent_handler v rq = Returns None None"

lemma nil_response_crashes_witness:
  "\<exists>s s'. run_steps http_step (NewConcurrentHTTPServer (1, 2)) [HtRegister ''GET'' ''/none'' silent_handler, HtStart 1,
      HtEnter ''req_1'' 2 a_request, HtBody 0 (Some []), HtSelect 0 False, HtTake 0 3] = Some s \<and>
    run_steps http_step s [HtHandle 0 an_env, HtSend 0 4] = Some s' \<and> hs_crashed s'"
proof -
  obtain s where s: "run_steps http_step (NewConcurrentHTTPServer (1, 2)) [HtRegister ''GET'' ''/none'' silent_handler, HtStart 1,
      HtEnter ''req_1'' 2 a_request, HtBody 0 (Some []), HtSelect 0 False, HtTake 0 3] = Some s"
    "0 < length (hs_workers s)" "\<not> hs_crashed s" "hw_phase (hs_workers s ! 0) = WkRunning 0 3"
    "findHandler (hs_handlers s) (hq_Method (fl_request (hs_flights s ! 0))) (hq_Path (fl_request (hs_flights s ! 0))) an_env
      (fl_request (hs_flights s ! 0)) = Returns None None" "hs_middlewares s = []"
    by (simp add: http_eval silent_handler_def)
  show ?thesis using s(1) nil_response_crashes [OF s(2-6), of 4] by blast
qed

text \<open>
  The three ways to end the process are real.  A handler that panics ends it on the spot.
\<close>

definition panicking_handler :: HandlerFunc where
  "panicking_handler v rq = Panics"

theorem handler_panic_crashes:
  "\<exists>s. run_steps http_step (NewConcurrentHTTPServer (1, 2)) [HtRegister ''GET'' ''/none'' panicking_handler, HtStart 1,
      HtEnter ''req_1'' 2 a_request, HtBody 0 (Some []), HtSelect 0 False, HtTake 0 3, HtHandle 0 an_env] = Some s \<and> hs_crashed s"
  by (simp add: http_eval panicking_handler_def)

text \<open>
  Once \<^verbatim>\<open>GetStats\<close> was called, a caller that reads its maps ends the process when it meets the write of a
  worker, in a server whose handlers are all in order: \<^verbatim>\<open>main\<close> prints them while the server still serves.
\<close>

theorem stats_reader_crashes:
  "\<exists>s. run_steps http_step (NewConcurrentHTTPServer (1, 2)) [HtStart 1, HtEnter ''req_1'' 2 a_request, HtBody 0 (Some []), HtSelect 0 False,
      HtTake 0 3, HtHandle 0 an_env, HtGetStats 9, HtReadBegin, HtClash 0] = Some s \<and> hs_crashed s \<and> handlers_ok s \<and> hs_starts s = 1"
proof -
  obtain s where s: "run_steps http_step (NewConcurrentHTTPServer (1, 2)) [HtStart 1, HtEnter ''req_1'' 2 a_request, HtBody 0 (Some []),
      HtSelect 0 False, HtTake 0 3, HtHandle 0 an_env, HtGetStats 9, HtReadBegin, HtClash 0] = Some s"
    "hs_crashed s" "hs_handlers s = registerDefaultHandlers" "hs_middlewares s = []" "hs_starts s = 1"
    by (simp add: http_eval)
  then show ?thesis using new_handlers_ok [of "(1, 2)"] by (simp add: handlers_ok_def NewConcurrentHTTPServer_def)
qed

text \<open>
  A server can be started again after a shutdown; the next shutdown then closes the response queue a
  second time and ends the process.
\<close>

theorem second_shutdown_crashes:
  "\<exists>s. run_steps http_step (NewConcurrentHTTPServer (1, 2))
      ([HtStart 1] @ stop_server @ [HtStart 2, HtShutdown, HtCancel, HtExit 1, HtResponderExit, HtShutdownEnd True]) = Some s \<and> hs_crashed s"
  by (simp add: stop_server_def http_eval)

text \<open>
  The first response halves the average: the number it is weighted with counts the response already.
\<close>

theorem first_average_halved:
  assumes "ss_completedRequests st = 1" and "ss_averageResponseTime st = 0" and "0 \<le> hp_ProcessTime p"
  shows "ss_averageResponseTime (processResponse p st) = hp_ProcessTime p div 2"
  using assms by (simp add: processResponse_def go_div_pos)

lemma first_average_halved_witness:
  "\<exists>s. run_steps http_step (NewConcurrentHTTPServer (1, 2)) (butlast served_request) = Some s \<and>
    map hp_ProcessTime (hs_responseQueue s) = [8] \<and>
    ss_averageResponseTime (processResponse (hd (hs_responseQueue s)) (hs_stats s)) = 4"
proof -
  obtain s where s: "run_steps http_step (NewConcurrentHTTPServer (1, 2)) (butlast served_request) = Some s"
    "map hp_ProcessTime (hs_responseQueue s) = [8]" "ss_completedRequests (hs_stats s) = 1" "ss_averageResponseTime (hs_stats s) = 0"
    by (simp add: served_request_def http_eval)
  have "hp_ProcessTime (hd (hs_responseQueue s)) = 8" using s(2) by auto
  then show ?thesis using s first_average_halved [OF s(3,4), of "hd (hs_responseQueue s)"] by (intro exI [of _ s]) simp
qed

end
