(* ===== verification/MonitoringDashboard.thy ===== *)
theory MonitoringDashboard
  imports Prelude "HOL-Library.List_Lexorder" "HOL-Library.Char_ord"
begin

text \<open>
  The monitoring dashboard of chapter 7, \<^verbatim>\<open>03_monitoring_dashboard/monitoring.go\<close>: collectors deliver
  metrics, a store keeps bounded time series of them, alert rules look at the newest value.

  A tag map is a list of distinct keys, or \<open>None\<close> for nil; metadata is left out.  \<^verbatim>\<open>slices.SortFunc\<close>
  leaves the order of equal timestamps open: it is a parameter \<open>srt\<close>, and \<open>sorts srt\<close> says what is documented
  of it.  The order of ranging over the series is an argument.  Values are never NaN.  The number of
  points of a series is not negative.  The collection and the evaluation of rules are goroutines whose sections
  are steps; \<open>db_fired\<close> is a history of the alerts, kept for the statements.
\<close>

section \<open>Time series\<close>

type_synonym tags = "(string \<times> string) list option"
type_synonym point = "time \<times> real"

record Metric =
  me_Name :: string
  me_Value :: real
  me_Timestamp :: time
  me_Tags :: tags

record TimeSeries =
  ts_Name :: string
  ts_Points :: "point list"
  ts_Tags :: tags
  ts_LastUpdate :: time

record TimeSeriesStore =
  tss_series :: "string \<rightharpoonup> TimeSeries"
  tss_maxDataPoints :: nat
  tss_retentionPeriod :: duration

definition NewTimeSeriesStore :: "nat \<Rightarrow> duration \<Rightarrow> TimeSeriesStore" where
  "NewTimeSeriesStore maxDataPoints retentionPeriod =
     \<lparr>tss_series = Map.empty, tss_maxDataPoints = maxDataPoints, tss_retentionPeriod = retentionPeriod\<rparr>"

definition getSeriesKey :: "string \<Rightarrow> tags \<Rightarrow> string" where
  "getSeriesKey name tags =
     name @ (case tags of None \<Rightarrow> [] | Some kvs \<Rightarrow> concat (map (\<lambda>pair. ''|'' @ pair) (sort (map (\<lambda>(k, v). k @ ''='' @ v) kvs))))"

definition metric_key :: "Metric \<Rightarrow> string" where
  "metric_key m = getSeriesKey (me_Name m) (me_Tags m)"

definition point_of :: "Metric \<Rightarrow> point" where
  "point_of m = (me_Timestamp m, me_Value m)"

text \<open>The points of one series after its new metrics: appended, sorted, the newest kept.\<close>

definition add_points :: "(point list \<Rightarrow> point list) \<Rightarrow> nat \<Rightarrow> point list \<Rightarrow> Metric list \<Rightarrow> point list" where
  "add_points srt maxDataPoints points ms =
     (let sorted_points = srt (points @ map point_of ms)
      in if length sorted_points > maxDataPoints then drop (length sorted_points - maxDataPoints) sorted_points else sorted_points)"

definition cleanupOldData :: "time \<Rightarrow> TimeSeriesStore \<Rightarrow> TimeSeriesStore" where
  "cleanupOldData now s =
     s\<lparr>tss_series := (\<lambda>k. map_option (\<lambda>x. x\<lparr>ts_Points := filter (\<lambda>p. now - tss_retentionPeriod s < fst p) (ts_Points x)\<rparr>)
         (tss_series s k))\<rparr>"

definition Store_metrics :: "(point list \<Rightarrow> point list) \<Rightarrow> Metric list \<Rightarrow> time \<Rightarrow> TimeSeriesStore \<Rightarrow> TimeSeriesStore" where
  "Store_metrics srt metrics now s =
     cleanupOldData now (s\<lparr>tss_series := (\<lambda>k.
       (case filter (\<lambda>m. metric_key m = k) metrics of
          [] \<Rightarrow> tss_series s k
        | m # ms \<Rightarrow>
            (let x = (case tss_series s k of
                        None \<Rightarrow> \<lparr>ts_Name = me_Name m, ts_Points = [], ts_Tags = me_Tags m, ts_LastUpdate = 0\<rparr>
                      | Some x \<Rightarrow> x)
             in Some (x\<lparr>ts_Points := add_points srt (tss_maxDataPoints s) (ts_Points x) (m # ms), ts_LastUpdate := now\<rparr>))))\<rparr>)"

section \<open>Queries\<close>

definition tag_value :: "tags \<Rightarrow> string \<Rightarrow> string" where
  "tag_value tags k = (case tags of None \<Rightarrow> [] | Some kvs \<Rightarrow> (case map_of kvs k of None \<Rightarrow> [] | Some v \<Rightarrow> v))"

definition matchTags :: "tags \<Rightarrow> tags \<Rightarrow> bool" where
  "matchTags seriesTags queryTags =
     (case queryTags of None \<Rightarrow> True | Some kvs \<Rightarrow> list_all (\<lambda>(k, v). tag_value seriesTags k = v) kvs)"

definition in_range :: "time \<Rightarrow> time \<Rightarrow> point \<Rightarrow> bool" where
  "in_range start stop p \<longleftrightarrow> (fst p > start \<or> fst p = start) \<and> (fst p < stop \<or> fst p = stop)"

definition query_one :: "string \<Rightarrow> tags \<Rightarrow> time \<Rightarrow> time \<Rightarrow> TimeSeries \<Rightarrow> TimeSeries list" where
  "query_one name tags start stop x =
     (if ts_Name x \<noteq> name then []
      else if \<not> matchTags (ts_Tags x) tags then []
      else (let ps = filter (in_range start stop) (ts_Points x) in if ps \<noteq> [] then [x\<lparr>ts_Points := ps\<rparr>] else []))"

text \<open>\<open>order\<close> lists the keys of the series in the order of the range.\<close>

definition Query_series :: "string list \<Rightarrow> string \<Rightarrow> tags \<Rightarrow> time \<Rightarrow> time \<Rightarrow> TimeSeriesStore \<Rightarrow> TimeSeries list" where
  "Query_series order name tags start stop s =
     concat (map (\<lambda>k. query_one name tags start stop (the (tss_series s k))) order)"

definition GetAllMetrics :: "string list \<Rightarrow> TimeSeriesStore \<Rightarrow> string list" where
  "GetAllMetrics order s = sort (remdups (map (\<lambda>k. ts_Name (the (tss_series s k))) order))"

definition ranges_over :: "string list \<Rightarrow> TimeSeriesStore \<Rightarrow> bool" where
  "ranges_over order s \<longleftrightarrow> distinct order \<and> set order = dom (tss_series s)"

section \<open>Alert rules\<close>

record AlertRule =
  ar_Name :: string
  ar_MetricName :: string
  ar_Condition :: string
  ar_Threshold :: real
  ar_Duration :: duration
  ar_Severity :: string
  ar_Enabled :: bool

definition checkCondition :: "string \<Rightarrow> real \<Rightarrow> real \<Rightarrow> bool" where
  "checkCondition condition v threshold =
     (if condition = ''gt'' then v > threshold
      else if condition = ''gte'' then v \<ge> threshold
      else if condition = ''lt'' then v < threshold
      else if condition = ''lte'' then v \<le> threshold
      else if condition = ''eq'' then v = threshold else False)"

definition latest_step :: "point \<Rightarrow> point \<Rightarrow> point" where
  "latest_step best p = (if fst p > fst best then p else best)"

definition getLatestValue :: "TimeSeries list \<Rightarrow> real option" where
  "getLatestValue series =
     (if series = [] then None else Some (snd (foldl latest_step (0, 0) (concat (map ts_Points series)))))"

record dashboard =
  db_collectors :: "string list"
  db_alertRules :: "AlertRule list"
  db_dataStore :: TimeSeriesStore
  db_cancelled :: bool
  db_isRunning :: bool
  db_totalCollections :: int
  db_totalMetrics :: int
  db_totalAlerts :: int
  db_activeAlerts :: "string \<rightharpoonup> time"
  db_startedAt :: time
  db_stopping :: bool
  db_live :: "bool \<times> bool \<times> bool"
  db_collecting :: bool
  db_rules :: "AlertRule list"
  db_fired :: "(string \<times> time) list"

definition NewMonitoringDashboard :: "duration \<times> nat \<Rightarrow> dashboard" where
  "NewMonitoringDashboard = (\<lambda>(retentionPeriod, maxDataPoints).
     \<lparr>db_collectors = [], db_alertRules = [], db_dataStore = NewTimeSeriesStore maxDataPoints retentionPeriod,
      db_cancelled = False, db_isRunning = False, db_totalCollections = 0, db_totalMetrics = 0, db_totalAlerts = 0,
      db_activeAlerts = Map.empty, db_startedAt = 0, db_stopping = False, db_live = (False, False, False), db_collecting = False,
      db_rules = [], db_fired = []\<rparr>)"

definition AddCollector :: "string \<Rightarrow> dashboard \<Rightarrow> dashboard" where
  "AddCollector name d = d\<lparr>db_collectors := List.insert name (db_collectors d)\<rparr>"

definition AddAlertRule :: "AlertRule \<Rightarrow> dashboard \<Rightarrow> dashboard" where
  "AddAlertRule rule d = d\<lparr>db_alertRules := db_alertRules d @ [rule]\<rparr>"

definition alert_key :: "AlertRule \<Rightarrow> string" where
  "alert_key rule = ar_Name rule @ ''_'' @ ar_MetricName rule"

definition fireAlert :: "AlertRule \<Rightarrow> time \<Rightarrow> dashboard \<Rightarrow> dashboard" where
  "fireAlert rule now d =
     (let k = alert_key rule
      in if (case db_activeAlerts d k of Some lastFired \<Rightarrow> time_Sub now lastFired < 5 * Minute | None \<Rightarrow> False) then d
         else d\<lparr>db_activeAlerts := (db_activeAlerts d)(k \<mapsto> now), db_totalAlerts := db_totalAlerts d + 1,
                db_fired := db_fired d @ [(k, now)]\<rparr>)"

definition evaluateRule :: "string list \<Rightarrow> AlertRule \<Rightarrow> time \<Rightarrow> dashboard \<Rightarrow> dashboard" where
  "evaluateRule order rule now d =
     (case getLatestValue (Query_series order (ar_MetricName rule) None (now - ar_Duration rule) now (db_dataStore d)) of
        None \<Rightarrow> d
      | Some v \<Rightarrow> if checkCondition (ar_Condition rule) v (ar_Threshold rule) then fireAlert rule now d else d)"

section \<open>Collection, start and stop\<close>

text \<open>\<open>answers\<close>: what the collectors without error or panic delivered, in the order of arrival.\<close>

definition aggregateAndStore :: "(point list \<Rightarrow> point list) \<Rightarrow> Metric list list \<Rightarrow> time \<Rightarrow> dashboard \<Rightarrow> dashboard" where
  "aggregateAndStore srt answers now d =
     (let allMetrics = concat answers
      in if length allMetrics > 0
         then d\<lparr>db_totalMetrics := db_totalMetrics d + int (length allMetrics),
                db_dataStore := Store_metrics srt allMetrics now (db_dataStore d)\<rparr> else d)"

datatype start_answer = Started_md | AlreadyStopped | AlreadyRunning

definition Start_md :: "time \<Rightarrow> dashboard \<Rightarrow> dashboard \<times> start_answer" where
  "Start_md now d =
     (if db_cancelled d then (d, AlreadyStopped)
      else if db_isRunning d then (d, AlreadyRunning)
      else (d\<lparr>db_isRunning := True, db_startedAt := now, db_live := (True, True, True)\<rparr>, Started_md))"

text \<open>\<^verbatim>\<open>Stop\<close> holds the lock of the life cycle until the goroutines have returned.\<close>

definition Stop_md :: "dashboard \<Rightarrow> dashboard \<times> bool" where
  "Stop_md d = (if \<not> db_isRunning d then (d, False) else (d\<lparr>db_isRunning := False, db_cancelled := True, db_stopping := True\<rparr>, True))"

definition handleStats_uptime :: "time \<Rightarrow> dashboard \<Rightarrow> duration" where
  "handleStats_uptime now d = (if db_startedAt d = 0 then 0 else time_Sub now (db_startedAt d))"

datatype md_event =
  MdAddCollector string | MdAddRule AlertRule | MdStart time | MdStop | MdStopped
| MdCollect | MdStore "Metric list list" time | MdEvaluate | MdRule "string list" time | MdExit nat

definition exit_loop :: "nat \<Rightarrow> dashboard \<Rightarrow> dashboard option" where
  "exit_loop i d = (case db_live d of (a, b, c) \<Rightarrow>
     if \<not> db_cancelled d then None
     else if i = 0 \<and> \<not> db_collecting d then Some (d\<lparr>db_live := (False, b, c)\<rparr>)
     else if i = 1 \<and> db_rules d = [] then Some (d\<lparr>db_live := (a, False, c)\<rparr>)
     else if i = 2 then Some (d\<lparr>db_live := (a, b, False)\<rparr>) else None)"

fun md_step :: "(point list \<Rightarrow> point list) \<Rightarrow> dashboard \<Rightarrow> md_event \<Rightarrow> dashboard option" where
  "md_step srt d (MdAddCollector name) = Some (AddCollector name d)"
| "md_step srt d (MdAddRule rule) = Some (AddAlertRule rule d)"
| "md_step srt d (MdStart now) = (if db_stopping d then None else Some (fst (Start_md now d)))"
| "md_step srt d MdStop = (if db_stopping d then None else Some (fst (Stop_md d)))"
| "md_step srt d MdStopped = (if db_stopping d \<and> db_live d = (False, False, False) then Some (d\<lparr>db_stopping := False\<rparr>) else None)"
| "md_step srt d MdCollect =
     (if fst (db_live d) \<and> \<not> db_collecting d
      then Some (d\<lparr>db_totalCollections := db_totalCollections d + 1, db_collecting := True\<rparr>) else None)"
| "md_step srt d (MdStore answers now) =
     (if db_collecting d then Some ((aggregateAndStore srt answers now d)\<lparr>db_collecting := False\<rparr>) else None)"
| "md_step srt d MdEvaluate =
     (if fst (snd (db_live d)) \<and> db_rules d = [] then Some (d\<lparr>db_rules := filter ar_Enabled (db_alertRules d)\<rparr>) else None)"
| "md_step srt d (MdRule order now) =
     (case db_rules d of
        [] \<Rightarrow> None
      | rule # rest \<Rightarrow> if ranges_over order (db_dataStore d) then Some ((evaluateRule order rule now d)\<lparr>db_rules := rest\<rparr>) else None)"
| "md_step srt d (MdExit i) = exit_loop i d"

section \<open>What a series keeps\<close>

text \<open>What is documented of \<^verbatim>\<open>slices.SortFunc\<close> by timestamp.\<close>

definition sorts :: "(point list \<Rightarrow> point list) \<Rightarrow> bool" where
  "sorts srt \<longleftrightarrow> (\<forall>ps. mset (srt ps) = mset ps \<and> sorted (map fst (srt ps)))"

lemma sorts_sort_key: "sorts (sort_key fst)"
  by (simp add: sorts_def)

text \<open>
  The points \<open>ps\<close> of a series that has received \<open>all_points\<close>: sorted, at most \<open>n\<close>, and every other
  point is too old or not newer than any of a full series.
\<close>

definition keeps_newest :: "nat \<Rightarrow> time \<Rightarrow> point set \<Rightarrow> point list \<Rightarrow> bool" where
  "keeps_newest n cutoff all_points ps \<longleftrightarrow> sorted (map fst ps) \<and> length ps \<le> n \<and> set ps \<subseteq> all_points \<and>
     (\<forall>q \<in> all_points. q \<in> set ps \<or> fst q \<le> cutoff \<or> length ps = n \<and> (\<forall>p \<in> set ps. fst q \<le> fst p))"

lemma keeps_empty: "keeps_newest n c {} []"
  by (simp add: keeps_newest_def)

lemma add_points_lastn: "add_points srt n ps ms = lastn n (srt (ps @ map point_of ms))"
  by (simp add: add_points_def lastn_def Let_def)

lemma lastn_split: "xs = take (length xs - n) xs @ lastn n xs"
  by (simp add: lastn_def)

lemma sorted_split:
  assumes "sorted (map fst xs)" and "q \<in> set (take (length xs - n) xs)" and "p \<in> set (lastn n xs)"
  shows "fst q \<le> fst p"
proof -
  have "sorted (map fst (take (length xs - n) xs @ lastn n xs))" using assms(1) lastn_split [of xs n] by simp
  then show ?thesis using assms(2,3) by (auto simp: sorted_append)
qed

lemma newest_above:
  assumes "sorted (map fst xs)" and "n \<le> length (filter (\<lambda>p. t \<le> fst p) xs)" and "p \<in> set (lastn n xs)"
  shows "t \<le> fst p"
proof (rule ccontr)
  assume lt: "\<not> t \<le> fst p"
  let ?A = "take (length xs - n) xs" and ?R = "lastn n xs" and ?f = "\<lambda>p. t \<le> fst p"
  have "\<not> ?f q" if "q \<in> set ?A" for q using sorted_split [OF assms(1) that assms(3)] lt by simp
  then have "filter ?f ?A = []" by (simp add: filter_empty_conv)
  then have "filter ?f xs = filter ?f ?R" using arg_cong [OF lastn_split [of xs n], of "filter ?f"] by simp
  moreover have "length (filter ?f ?R) < length ?R" using assms(3) lt by (rule length_filter_less)
  ultimately show False using assms(2) by simp
qed

lemma keeps_add:
  assumes "sorts srt" and "keeps_newest n c pts ps"
  shows "keeps_newest n c (pts \<union> set (map point_of ms)) (add_points srt n ps ms)"
proof -
  define xs where "xs = srt (ps @ map point_of ms)"
  have m: "mset xs = mset ps + mset (map point_of ms)" and srt: "sorted (map fst xs)"
    using assms(1) by (simp_all add: xs_def sorts_def)
  have set_xs: "set xs = set ps \<union> set (map point_of ms)" using m by (metis set_mset_mset set_mset_union)
  have a: "add_points srt n ps ms = lastn n xs" by (simp add: add_points_lastn xs_def)
  have "sorted (map fst (lastn n xs))" unfolding lastn_def drop_map [symmetric] using srt by (rule sorted_wrt_drop)
  moreover have "set (lastn n xs) \<subseteq> pts \<union> set (map point_of ms)"
    using set_lastn [of n xs] set_xs assms(2) by (auto simp: keeps_newest_def)
  moreover have "q \<in> set (lastn n xs) \<or> fst q \<le> c \<or> length (lastn n xs) = n \<and> (\<forall>p \<in> set (lastn n xs). fst q \<le> fst p)"
    if q: "q \<in> pts \<union> set (map point_of ms)" for q
  proof (cases "q \<in> set xs")
    case True
    then have "q \<in> set (take (length xs - n) xs) \<or> q \<in> set (lastn n xs)" by (metis UnE lastn_split set_append)
    then show ?thesis
    proof
      assume t: "q \<in> set (take (length xs - n) xs)"
      then have "n < length xs" by (cases "length xs \<le> n") simp_all
      then show ?thesis using sorted_split [OF srt t] by simp
    qed simp
  next
    case False
    then have "q \<in> pts" "q \<notin> set ps" using q set_xs by auto
    then consider "fst q \<le> c" | "length ps = n" "\<forall>p \<in> set ps. fst q \<le> fst p" using assms(2) unfolding keeps_newest_def by blast
    then show ?thesis
    proof cases
      case 2
      then have "filter_mset (\<lambda>p. fst q \<le> fst p) (mset ps) = mset ps" by (simp add: filter_mset_eq_conv)
      then have "size (filter_mset (\<lambda>p. fst q \<le> fst p) (mset xs)) \<ge> n" using 2(1) by (simp add: m)
      then have "n \<le> length (filter (\<lambda>p. fst q \<le> fst p) xs)" by (metis mset_filter size_mset)
      from newest_above [OF srt this] have "\<forall>p \<in> set (lastn n xs). fst q \<le> fst p" by blast
      moreover have "n \<le> length xs" using arg_cong [OF m, of size] 2(1) by simp
      ultimately show ?thesis by simp
    qed simp
  qed
  ultimately show ?thesis unfolding a keeps_newest_def by simp
qed

lemma keeps_clean:
  assumes "keeps_newest n c pts ps" and "c \<le> c'"
  shows "keeps_newest n c' pts (filter (\<lambda>p. c' < fst p) ps)"
proof -
  let ?f = "filter (\<lambda>p. c' < fst p) ps"
  have "q \<in> set ?f \<or> fst q \<le> c' \<or> length ?f = n \<and> (\<forall>p \<in> set ?f. fst q \<le> fst p)" if "q \<in> pts" for q
  proof (cases "\<forall>p \<in> set ps. c' < fst p")
    case True
    then have "?f = ps" by simp
    then show ?thesis using assms that by (auto simp: keeps_newest_def)
  next
    case False
    then show ?thesis using assms that unfolding keeps_newest_def by fastforce
  qed
  then show ?thesis using assms(1) by (auto simp: keeps_newest_def sorted_filter intro: le_trans [OF length_filter_le])
qed

section \<open>The store\<close>

definition points_at :: "string \<Rightarrow> TimeSeriesStore \<Rightarrow> point list" where
  "points_at k s = (case tss_series s k of None \<Rightarrow> [] | Some x \<Rightarrow> ts_Points x)"

lemma points_at_store:
  "points_at k (Store_metrics srt ms now s) = filter (\<lambda>p. now - tss_retentionPeriod s < fst p)
     (let g = filter (\<lambda>m. metric_key m = k) ms in if g = [] then points_at k s else add_points srt (tss_maxDataPoints s) (points_at k s) g)"
  by (auto simp: points_at_def Store_metrics_def cleanupOldData_def Let_def split: list.splits option.splits)

lemma store_frame:
  "tss_maxDataPoints (Store_metrics srt ms now s) = tss_maxDataPoints s"
  "tss_retentionPeriod (Store_metrics srt ms now s) = tss_retentionPeriod s"
  by (simp_all add: Store_metrics_def cleanupOldData_def)

definition store_all :: "(point list \<Rightarrow> point list) \<Rightarrow> (time \<times> Metric list) list \<Rightarrow> TimeSeriesStore \<Rightarrow> TimeSeriesStore" where
  "store_all srt calls s = foldl (\<lambda>s (now, ms). Store_metrics srt ms now s) s calls"

definition received :: "string \<Rightarrow> (time \<times> Metric list) list \<Rightarrow> point set" where
  "received k calls = {point_of m | m now ms. (now, ms) \<in> set calls \<and> m \<in> set ms \<and> metric_key m = k}"

lemma store_all_frame:
  "tss_maxDataPoints (store_all srt calls s) = tss_maxDataPoints s" "tss_retentionPeriod (store_all srt calls s) = tss_retentionPeriod s"
  by (induction calls arbitrary: s) (auto simp: store_all_def store_frame)

lemma received_snoc:
  "received k (calls @ [(now, ms)]) = received k calls \<union> set (map point_of (filter (\<lambda>m. metric_key m = k) ms))"
  by (auto simp: received_def)

lemma store_step_keeps:
  assumes "sorts srt" and "keeps_newest n c pts (points_at k s)" and "tss_maxDataPoints s = n" and "c \<le> now - tss_retentionPeriod s"
  shows "keeps_newest n (now - tss_retentionPeriod s) (pts \<union> set (map point_of (filter (\<lambda>m. metric_key m = k) ms)))
    (points_at k (Store_metrics srt ms now s))"
proof -
  define g where "g = filter (\<lambda>m. metric_key m = k) ms"
  define ps where "ps = (if g = [] then points_at k s else add_points srt n (points_at k s) g)"
  have "keeps_newest n c (pts \<union> set (map point_of g)) ps"
    using keeps_add [OF assms(1,2), of g] assms(2) by (cases "g = []") (simp_all add: ps_def)
  moreover have "points_at k (Store_metrics srt ms now s) = filter (\<lambda>p. now - tss_retentionPeriod s < fst p) ps"
    by (simp add: points_at_store Let_def ps_def g_def assms(3))
  ultimately show ?thesis unfolding g_def by (simp only: keeps_clean [OF _ assms(4)])
qed

text \<open>
  C18. However metrics are stored, under a clock that does not go back, each series is sorted and bounded,
  holds nothing older than the retention period, and every point it has received and does not hold is older
  than that, or not newer than any point of a full series.
\<close>

theorem series_keep_newest:
  assumes "sorts srt" and "calls \<noteq> []" and "sorted (map fst calls)"
  shows "keeps_newest n (fst (last calls) - ret) (received k calls) (points_at k (store_all srt calls (NewTimeSeriesStore n ret))) \<and>
    (\<forall>p \<in> set (points_at k (store_all srt calls (NewTimeSeriesStore n ret))). fst (last calls) - ret < fst p)"
  using assms(2,3)
proof (induction calls rule: rev_induct)
  case Nil
  then show ?case by simp
next
  case (snoc call calls)
  obtain now ms where c: "call = (now, ms)" by (cases call)
  let ?s = "store_all srt calls (NewTimeSeriesStore n ret)"
  have f: "tss_maxDataPoints ?s = n" "tss_retentionPeriod ?s = ret" by (simp_all add: store_all_frame NewTimeSeriesStore_def)
  have e: "store_all srt (calls @ [call]) (NewTimeSeriesStore n ret) = Store_metrics srt ms now ?s" by (simp add: c store_all_def)
  obtain c0 where k: "keeps_newest n c0 (received k calls) (points_at k ?s)" and le: "c0 \<le> now - ret"
  proof (cases "calls = []")
    case True
    then have "keeps_newest n (now - ret) (received k calls) (points_at k ?s)"
      by (simp add: received_def points_at_def store_all_def NewTimeSeriesStore_def keeps_empty)
    then show thesis using that by simp
  next
    case False
    then have "fst (last calls) \<le> now" using snoc.prems(2) by (simp add: c sorted_append)
    moreover have "sorted (map fst calls)" using snoc.prems(2) by (simp add: sorted_append)
    ultimately show thesis using that snoc.IH False by auto
  qed
  have "keeps_newest n (now - ret) (received k (calls @ [call])) (points_at k (Store_metrics srt ms now ?s))"
    using store_step_keeps [OF assms(1) k f(1)] le f(2) by (simp add: c received_snoc)
  moreover have "\<forall>p \<in> set (points_at k (Store_metrics srt ms now ?s)). now - ret < fst p"
    by (simp add: points_at_store f(2))
  ultimately show ?case unfolding e by (simp add: c)
qed

definition metric_at :: "time \<Rightarrow> real \<Rightarrow> Metric" where
  "metric_at t v = \<lparr>me_Name = ''m'', me_Value = v, me_Timestamp = t, me_Tags = None\<rparr>"

lemma series_keep_newest_witness:
  "keeps_newest 2 (20 - 100) (received ''m'' [(10, [metric_at 5 1, metric_at 3 2]), (20, [metric_at 4 3])])
     (points_at ''m'' (store_all (sort_key fst) [(10, [metric_at 5 1, metric_at 3 2]), (20, [metric_at 4 3])] (NewTimeSeriesStore 2 100))) \<and>
   points_at ''m'' (store_all (sort_key fst) [(10, [metric_at 5 1, metric_at 3 2]), (20, [metric_at 4 3])] (NewTimeSeriesStore 2 100)) = [(4, 3), (5, 1)]"
proof -
  have "points_at ''m'' (store_all (sort_key fst) [(10, [metric_at 5 1, metric_at 3 2]), (20, [metric_at 4 3])] (NewTimeSeriesStore 2 100)) = [(4, 3), (5, 1)]"
    by (simp add: store_all_def Store_metrics_def cleanupOldData_def NewTimeSeriesStore_def points_at_def metric_key_def getSeriesKey_def
        metric_at_def add_points_def point_of_def Let_def)
  then show ?thesis
    using series_keep_newest [OF sorts_sort_key, of "[(10, [metric_at 5 1, metric_at 3 2]), (20, [metric_at 4 3])]" 2 100 "''m''"] by simp
qed

section \<open>Keys and queries\<close>

text \<open>
  The key of a series does not depend on the order in which Go ranges over the tags; but tags whose
  values contain the separators share a key, so that two different series are stored as one.
\<close>

theorem series_key_of_tags:
  "(mset kvs = mset kvs' \<longrightarrow> getSeriesKey name (Some kvs) = getSeriesKey name (Some kvs')) \<and>
   getSeriesKey name (Some [(''a'', ''1|b=2'')]) = getSeriesKey name (Some [(''a'', ''1''), (''b'', ''2'')])"
proof
  show "mset kvs = mset kvs' \<longrightarrow> getSeriesKey name (Some kvs) = getSeriesKey name (Some kvs')"
  proof
    assume "mset kvs = mset kvs'"
    then have "mset (map (\<lambda>(k, v). k @ ''='' @ v) kvs) = mset (map (\<lambda>(k, v). k @ ''='' @ v) kvs')" by simp
    then have "sort (map (\<lambda>(k, v). k @ ''='' @ v) kvs) = sort (map (\<lambda>(k, v). k @ ''='' @ v) kvs')"
      by (intro properties_for_sort) simp_all
    then show "getSeriesKey name (Some kvs) = getSeriesKey name (Some kvs')" by (simp add: getSeriesKey_def)
  qed
  have "sort [''a=1'', ''b=2''] = [''a=1'', ''b=2'']" by code_simp
  then show "getSeriesKey name (Some [(''a'', ''1|b=2'')]) = getSeriesKey name (Some [(''a'', ''1''), (''b'', ''2'')])"
    by (simp add: getSeriesKey_def)
qed

lemma series_key_of_tags_witness:
  "getSeriesKey ''m'' (Some [(''x'', ''1''), (''y'', ''2'')]) = getSeriesKey ''m'' (Some [(''y'', ''2''), (''x'', ''1'')])"
  using series_key_of_tags [of "[(''x'', ''1''), (''y'', ''2'')]" "[(''y'', ''2''), (''x'', ''1'')]" "''m''"] by simp

text \<open>The points that an alert rule looks at.\<close>

definition window_points :: "string \<Rightarrow> time \<Rightarrow> time \<Rightarrow> TimeSeriesStore \<Rightarrow> point set" where
  "window_points name start stop s =
     {p | p k x. tss_series s k = Some x \<and> ts_Name x = name \<and> p \<in> set (ts_Points x) \<and> start \<le> fst p \<and> fst p \<le> stop}"

lemma query_one_cases:
  "query_one name None start stop x = (if ts_Name x = name \<and> filter (in_range start stop) (ts_Points x) \<noteq> []
     then [x\<lparr>ts_Points := filter (in_range start stop) (ts_Points x)\<rparr>] else [])"
  by (simp add: query_one_def matchTags_def Let_def)

lemma in_range_iff: "in_range start stop p \<longleftrightarrow> start \<le> fst p \<and> fst p \<le> stop"
  unfolding in_range_def by linarith

lemma query_one_points: "set (concat (map ts_Points (query_one name None start stop x))) =
    (if ts_Name x = name then {p \<in> set (ts_Points x). start \<le> fst p \<and> fst p \<le> stop} else {})"
proof -
  have "{p \<in> set (ts_Points x). start \<le> fst p \<and> fst p \<le> stop} = set (filter (in_range start stop) (ts_Points x))"
    by (simp add: in_range_iff)
  note f = this
  show ?thesis
  proof (cases "ts_Name x = name \<and> filter (in_range start stop) (ts_Points x) \<noteq> []")
    case True
    then have "query_one name None start stop x = [x\<lparr>ts_Points := filter (in_range start stop) (ts_Points x)\<rparr>]"
      unfolding query_one_cases by (rule if_P)
    then show ?thesis using True f by simp
  next
    case False
    then have "query_one name None start stop x = []" unfolding query_one_cases by (rule if_not_P)
    then show ?thesis using False f by (cases "ts_Name x = name") simp_all
  qed
qed

lemma query_one_nonempty: "x' \<in> set (query_one name None start stop x) \<Longrightarrow> ts_Points x' \<noteq> []"
proof -
  assume x': "x' \<in> set (query_one name None start stop x)"
  show ?thesis
  proof (cases "ts_Name x = name \<and> filter (in_range start stop) (ts_Points x) \<noteq> []")
    case True
    then have "query_one name None start stop x = [x\<lparr>ts_Points := filter (in_range start stop) (ts_Points x)\<rparr>]"
      unfolding query_one_cases by (rule if_P)
    with x' have "x' = x\<lparr>ts_Points := filter (in_range start stop) (ts_Points x)\<rparr>" by simp
    with True show ?thesis by simp
  next
    case False
    then have "query_one name None start stop x = []" unfolding query_one_cases by (rule if_not_P)
    with x' show ?thesis by simp
  qed
qed

lemma query_points:
  assumes "ranges_over order s"
  shows "set (concat (map ts_Points (Query_series order name None start stop s))) = window_points name start stop s"
proof -
  have k: "k \<in> set order \<longleftrightarrow> (\<exists>x. tss_series s k = Some x)" for k using assms by (auto simp: ranges_over_def)
  have "set (concat (map ts_Points (Query_series order name None start stop s))) =
      (\<Union>k \<in> set order. set (concat (map ts_Points (query_one name None start stop (the (tss_series s k))))))"
    by (simp add: Query_series_def)
  also have "\<dots> = window_points name start stop s"
  proof (rule set_eqI)
    fix p
    have "p \<in> (\<Union>k \<in> set order. set (concat (map ts_Points (query_one name None start stop (the (tss_series s k)))))) \<longleftrightarrow>
        (\<exists>k \<in> set order. ts_Name (the (tss_series s k)) = name \<and> p \<in> set (ts_Points (the (tss_series s k))) \<and> start \<le> fst p \<and> fst p \<le> stop)"
      unfolding query_one_points UN_iff by (intro bex_cong) simp_all
    also have "\<dots> \<longleftrightarrow> p \<in> window_points name start stop s"
    proof
      assume "\<exists>k \<in> set order. ts_Name (the (tss_series s k)) = name \<and> p \<in> set (ts_Points (the (tss_series s k))) \<and> start \<le> fst p \<and> fst p \<le> stop"
      then obtain i x where "tss_series s i = Some x" "ts_Name x = name" "p \<in> set (ts_Points x)" "start \<le> fst p" "fst p \<le> stop"
        using k by (metis option.sel)
      then show "p \<in> window_points name start stop s" unfolding window_points_def by blast
    next
      assume "p \<in> window_points name start stop s"
      then obtain i x where x: "tss_series s i = Some x" "ts_Name x = name" "p \<in> set (ts_Points x)" "start \<le> fst p" "fst p \<le> stop"
        unfolding window_points_def by blast
      then have "i \<in> set order" using k by blast
      then show "\<exists>k \<in> set order. ts_Name (the (tss_series s k)) = name \<and> p \<in> set (ts_Points (the (tss_series s k))) \<and> start \<le> fst p \<and> fst p \<le> stop"
        using x by (intro bexI [of _ i]) simp_all
    qed
    finally show "p \<in> (\<Union>k \<in> set order. set (concat (map ts_Points (query_one name None start stop (the (tss_series s k)))))) \<longleftrightarrow>
        p \<in> window_points name start stop s" .
  qed
  finally show ?thesis .
qed

lemma query_empty:
  assumes "ranges_over order s"
  shows "Query_series order name None start stop s = [] \<longleftrightarrow> window_points name start stop s = {}"
proof
  assume "Query_series order name None start stop s = []"
  then show "window_points name start stop s = {}" using query_points [OF assms, of name start stop] by simp
next
  assume w: "window_points name start stop s = {}"
  show "Query_series order name None start stop s = []"
  proof (rule ccontr)
    assume "Query_series order name None start stop s \<noteq> []"
    then obtain x where x: "x \<in> set (Query_series order name None start stop s)" using list.set_sel(1) by blast
    then obtain k where "x \<in> set (query_one name None start stop (the (tss_series s k)))" by (auto simp: Query_series_def)
    then have "hd (ts_Points x) \<in> set (ts_Points x)" using query_one_nonempty by simp
    then have "hd (ts_Points x) \<in> set (concat (map ts_Points (Query_series order name None start stop s)))" using x by auto
    then show False unfolding query_points [OF assms] w by simp
  qed
qed

lemma latest_newest:
  "p \<in> set ps \<or> b = p \<Longrightarrow> \<forall>q \<in> set ps. q = p \<or> fst q < fst p \<Longrightarrow> b = p \<or> fst b < fst p \<Longrightarrow> foldl latest_step b ps = p"
proof (induction ps arbitrary: b)
  case Nil
  then show ?case by simp
next
  case (Cons q ps)
  have "p \<in> set ps \<or> latest_step b q = p" using Cons.prems by (auto simp: latest_step_def)
  moreover have "latest_step b q = p \<or> fst (latest_step b q) < fst p" using Cons.prems by (auto simp: latest_step_def)
  ultimately show ?case using Cons by simp
qed

text \<open>
  A rule fires exactly when the newest point of its metric in the window satisfies the condition and
  the alert did not fire in the last five minutes; the other points of the window play no part.
\<close>

theorem rule_judges_newest_point:
  assumes "ranges_over order (db_dataStore d)" and "p \<in> window_points (ar_MetricName rule) (now - ar_Duration rule) now (db_dataStore d)"
    and "\<forall>q \<in> window_points (ar_MetricName rule) (now - ar_Duration rule) now (db_dataStore d). q = p \<or> fst q < fst p" and "0 < fst p"
  shows "(db_totalAlerts (evaluateRule order rule now d) = db_totalAlerts d + 1) =
      (checkCondition (ar_Condition rule) (snd p) (ar_Threshold rule) \<and>
       (\<forall>t. db_activeAlerts d (alert_key rule) = Some t \<longrightarrow> 5 * Minute \<le> time_Sub now t))"
proof -
  let ?q = "Query_series order (ar_MetricName rule) None (now - ar_Duration rule) now (db_dataStore d)"
  have w: "set (concat (map ts_Points ?q)) = window_points (ar_MetricName rule) (now - ar_Duration rule) now (db_dataStore d)"
    by (rule query_points [OF assms(1)])
  have "?q \<noteq> []" using query_empty [OF assms(1)] assms(2) by blast
  moreover have "foldl latest_step (0, 0) (concat (map ts_Points ?q)) = p"
    using assms(2-4) unfolding w [symmetric] by (intro latest_newest) auto
  ultimately have "getLatestValue ?q = Some (snd p)" by (simp add: getLatestValue_def)
  then show ?thesis by (auto simp: evaluateRule_def fireAlert_def Let_def split: option.splits)
qed

definition sample_rule :: AlertRule where
  "sample_rule = \<lparr>ar_Name = ''r'', ar_MetricName = ''m'', ar_Condition = ''gt'', ar_Threshold = 1, ar_Duration = 50, ar_Severity = ''warning'',
     ar_Enabled = True\<rparr>"

definition one_point :: dashboard where
  "one_point = aggregateAndStore (sort_key fst) [[metric_at 5 2]] 6 (NewMonitoringDashboard (100, 10))"

lemma rule_judges_newest_point_witness:
  "window_points ''m'' (7 - 50) 7 (db_dataStore one_point) = {(5, 2)} \<and> db_totalAlerts (evaluateRule [''m''] sample_rule 7 one_point) = 1"
proof -
  have s: "tss_series (db_dataStore one_point) = [''m'' \<mapsto> \<lparr>ts_Name = ''m'', ts_Points = [(5, 2)], ts_Tags = None, ts_LastUpdate = 6\<rparr>]"
    by (auto simp: one_point_def aggregateAndStore_def Store_metrics_def cleanupOldData_def NewMonitoringDashboard_def NewTimeSeriesStore_def
        metric_key_def getSeriesKey_def metric_at_def add_points_def point_of_def Let_def)
  then have w: "window_points ''m'' (7 - 50) 7 (db_dataStore one_point) = {(5, 2)}" by (auto simp: window_points_def split: if_splits)
  have r: "ranges_over [''m''] (db_dataStore one_point)" using s by (simp add: ranges_over_def)
  have a: "db_activeAlerts one_point = Map.empty" "db_totalAlerts one_point = 0"
    by (simp_all add: one_point_def aggregateAndStore_def NewMonitoringDashboard_def)
  show ?thesis using w a rule_judges_newest_point [OF r, of "(5, 2)" sample_rule 7]
    by (simp add: sample_rule_def checkCondition_def)
qed

section \<open>Every interleaving\<close>

text \<open>Alerts of one key are spaced by five minutes at least.\<close>

definition spaced :: "(string \<times> time) list \<Rightarrow> bool" where
  "spaced fired \<longleftrightarrow> (\<forall>j < length fired. \<forall>i < j. fst (fired ! i) = fst (fired ! j) \<longrightarrow> snd (fired ! i) + 5 * Minute \<le> snd (fired ! j))"

definition md_inv :: "duration \<times> nat \<Rightarrow> dashboard \<Rightarrow> bool" where
  "md_inv c d \<longleftrightarrow> spaced (db_fired d) \<and> db_totalAlerts d = int (length (db_fired d)) \<and>
     (\<forall>k t. (k, t) \<in> set (db_fired d) \<longrightarrow> (\<exists>u. db_activeAlerts d k = Some u \<and> t \<le> u)) \<and>
     (db_isRunning d \<longrightarrow> \<not> db_cancelled d) \<and> (db_stopping d \<longrightarrow> db_cancelled d \<and> \<not> db_isRunning d) \<and>
     (db_live d \<noteq> (False, False, False) \<longrightarrow> db_isRunning d \<or> db_stopping d) \<and>
     (db_collecting d \<longrightarrow> fst (db_live d)) \<and> (db_rules d \<noteq> [] \<longrightarrow> fst (snd (db_live d)))"

lemma fireAlert_inv:
  assumes "md_inv c d"
  shows "md_inv c (fireAlert rule now d)"
proof -
  let ?k = "alert_key rule"
  show ?thesis
  proof (cases "case db_activeAlerts d ?k of Some lastFired \<Rightarrow> time_Sub now lastFired < 5 * Minute | None \<Rightarrow> False")
    case True
    then show ?thesis using assms by (simp add: fireAlert_def Let_def)
  next
    case False
    then have e: "fireAlert rule now d = d\<lparr>db_activeAlerts := (db_activeAlerts d)(?k \<mapsto> now), db_totalAlerts := db_totalAlerts d + 1,
        db_fired := db_fired d @ [(?k, now)]\<rparr>"
      by (simp only: fireAlert_def Let_def if_False)
    have old: "t + 5 * Minute \<le> now" if "(?k, t) \<in> set (db_fired d)" for t
    proof -
      have "\<forall>k t. (k, t) \<in> set (db_fired d) \<longrightarrow> (\<exists>u. db_activeAlerts d k = Some u \<and> t \<le> u)" using assms by (simp add: md_inv_def)
      with that obtain u where u: "db_activeAlerts d ?k = Some u" "t \<le> u" by blast
      then have "5 * Minute \<le> time_Sub now u" using False by simp
      then have "u + 5 * Minute \<le> now" by (subst (asm) time_Sub_ge_iff) (simp_all add: is_duration_def Minute_def Second_def)
      then show ?thesis using u(2) by simp
    qed
    have "spaced (db_fired d @ [(?k, now)])"
      unfolding spaced_def
    proof (intro allI impI)
      fix j i
      assume j: "j < length (db_fired d @ [(?k, now)])" "i < j" "fst ((db_fired d @ [(?k, now)]) ! i) = fst ((db_fired d @ [(?k, now)]) ! j)"
      show "snd ((db_fired d @ [(?k, now)]) ! i) + 5 * Minute \<le> snd ((db_fired d @ [(?k, now)]) ! j)"
      proof (cases "j < length (db_fired d)")
        case True
        then show ?thesis using assms j by (simp add: md_inv_def spaced_def nth_append)
      next
        case False
        then have "j = length (db_fired d)" "i < length (db_fired d)" using j by simp_all
        moreover from this have "(?k, snd (db_fired d ! i)) \<in> set (db_fired d)"
          using j(3) by (metis fst_conv nth_append nth_append_length nth_mem prod.collapse)
        ultimately show ?thesis using old by (simp add: nth_append)
      qed
    qed
    moreover have "0 \<le> 5 * Minute" by (simp add: Minute_def Second_def)
    moreover have "\<exists>u. ((db_activeAlerts d)(?k \<mapsto> now)) k = Some u \<and> t \<le> u" if "(k, t) \<in> set (db_fired d @ [(?k, now)])" for k t
    proof (cases "k = ?k")
      case True
      have "t \<le> now"
      proof (cases "(?k, t) \<in> set (db_fired d)")
        case True
        then show ?thesis using old [of t] \<open>0 \<le> 5 * Minute\<close> by linarith
      next
        case False
        then show ?thesis using that True by simp
      qed
      then show ?thesis using True by simp
    next
      case False
      then have "(k, t) \<in> set (db_fired d)" using that by simp
      then show ?thesis using assms False by (simp add: md_inv_def)
    qed
    ultimately show ?thesis using assms unfolding e by (simp add: md_inv_def)
  qed
qed

lemma md_step_inv:
  assumes "md_inv c d" and "md_step srt d e = Some d'"
  shows "md_inv c d'"
proof (cases e)
  case (MdStore answers now)
  then have "db_collecting d" "d' = (aggregateAndStore srt answers now d)\<lparr>db_collecting := False\<rparr>" using assms(2) by (auto split: if_splits)
  then show ?thesis using assms(1) by (simp add: md_inv_def aggregateAndStore_def Let_def)
next
  case (MdRule order now)
  then obtain rule rest where r: "db_rules d = rule # rest" and e: "d' = (evaluateRule order rule now d)\<lparr>db_rules := rest\<rparr>"
    using assms(2) by (auto split: list.splits if_splits)
  have "evaluateRule order rule now d = d \<or> evaluateRule order rule now d = fireAlert rule now d"
    by (simp add: evaluateRule_def split: option.split)
  then have i: "md_inv c (evaluateRule order rule now d)" using assms(1) fireAlert_inv by metis
  have "fst (snd (db_live d))" using assms(1) r by (simp add: md_inv_def)
  moreover have "db_live (evaluateRule order rule now d) = db_live d"
    by (simp add: evaluateRule_def fireAlert_def Let_def split: option.split)
  ultimately show ?thesis using i unfolding e by (simp add: md_inv_def)
next
  case (MdExit i)
  obtain x y z where l: "db_live d = (x, y, z)" by (cases "db_live d")
  have "exit_loop i d = Some d'" using assms(2) MdExit by simp
  then obtain x' y' z' where e: "d' = d\<lparr>db_live := (x', y', z')\<rparr>" and le: "x' \<longrightarrow> x" "y' \<longrightarrow> y" "z' \<longrightarrow> z"
    and h: "db_collecting d \<longrightarrow> x' = x" "db_rules d \<noteq> [] \<longrightarrow> y' = y"
    by (simp add: exit_loop_def l split: if_splits) blast+
  show ?thesis using assms(1) l le h unfolding e by (simp add: md_inv_def)
next
  case (MdAddCollector name)
  then have e: "d' = AddCollector name d" using assms(2) by simp
  show ?thesis using assms(1) unfolding e by (simp add: AddCollector_def md_inv_def)
next
  case (MdAddRule rule)
  then have e: "d' = AddAlertRule rule d" using assms(2) by simp
  show ?thesis using assms(1) unfolding e by (simp add: AddAlertRule_def md_inv_def)
next
  case (MdStart now)
  then have e: "d' = fst (Start_md now d)" using assms(2) by (simp split: if_splits)
  show ?thesis using assms(1) MdStart assms(2) unfolding e by (auto simp: Start_md_def md_inv_def)
next
  case MdStop
  then have e: "d' = fst (Stop_md d)" using assms(2) by (simp split: if_splits)
  show ?thesis using assms(1) unfolding e by (auto simp: Stop_md_def md_inv_def)
next
  case MdStopped
  then have e: "d' = d\<lparr>db_stopping := False\<rparr>" "db_live d = (False, False, False)" using assms(2) by (simp_all split: if_splits)
  show ?thesis using assms(1) e(2) unfolding e(1) by (simp add: md_inv_def)
next
  case MdCollect
  then have e: "d' = d\<lparr>db_totalCollections := db_totalCollections d + 1, db_collecting := True\<rparr>" "fst (db_live d)"
    using assms(2) by (simp_all split: if_splits)
  show ?thesis using assms(1) e(2) unfolding e(1) by (simp add: md_inv_def)
next
  case MdEvaluate
  then have e: "d' = d\<lparr>db_rules := filter ar_Enabled (db_alertRules d)\<rparr>" "fst (snd (db_live d))" using assms(2) by (simp_all split: if_splits)
  show ?thesis using assms(1) e(2) unfolding e(1) by (simp add: md_inv_def)
qed

lemma md_start: "md_inv c (NewMonitoringDashboard c)"
  by (cases c) (simp add: md_inv_def NewMonitoringDashboard_def spaced_def)

interpretation dashboard_runs: step_invariant "md_step srt" NewMonitoringDashboard md_inv "\<lambda>_. True" for srt
  by unfold_locales (use md_start md_step_inv in blast)+

text \<open>
  Under any interleaving of collections, evaluations, new rules, starts and stops, two alerts of one
  rule and metric are at least five minutes apart, the total counts the alerts, and a stopped dashboard
  has no goroutine left and is never started again.
\<close>

theorem dashboard_alerts_spaced:
  assumes "run_steps (md_step srt) (NewMonitoringDashboard c) es = Some d"
  shows "spaced (db_fired d) \<and> db_totalAlerts d = int (length (db_fired d)) \<and>
    (db_cancelled d \<and> \<not> db_stopping d \<longrightarrow> db_live d = (False, False, False) \<and> Start_md now d = (d, AlreadyStopped))"
  using dashboard_runs.inv_run [OF TrueI assms] by (auto simp: md_inv_def Start_md_def)

definition two_evaluations :: "md_event list" where
  "two_evaluations = [MdAddRule (sample_rule\<lparr>ar_Duration := 10 * Minute\<rparr>), MdStart 1, MdCollect, MdStore [[metric_at 5 2]] 6, MdEvaluate, MdRule [''m''] 7,
     MdEvaluate, MdRule [''m''] (5 * Minute), MdEvaluate, MdRule [''m''] (6 * Minute), MdStop, MdExit 0, MdExit 1, MdExit 2, MdStopped]"

lemma dashboard_alerts_spaced_witness:
  "\<exists>d. run_steps (md_step (sort_key fst)) (NewMonitoringDashboard (60 * Minute, 10)) two_evaluations = Some d \<and>
    db_fired d = [(''r_m'', 7), (''r_m'', 6 * Minute)] \<and> db_totalAlerts d = 2 \<and> snd (Start_md 9 d) = AlreadyStopped"
proof -
  obtain d where d: "run_steps (md_step (sort_key fst)) (NewMonitoringDashboard (60 * Minute, 10)) two_evaluations = Some d"
    "db_fired d = [(''r_m'', 7), (''r_m'', 6 * Minute)]" "db_cancelled d" "\<not> db_stopping d"
    by (simp add: two_evaluations_def NewMonitoringDashboard_def NewTimeSeriesStore_def AddAlertRule_def Start_md_def aggregateAndStore_def
        Store_metrics_def cleanupOldData_def metric_key_def getSeriesKey_def metric_at_def add_points_def point_of_def sample_rule_def
        evaluateRule_def Query_series_def query_one_def matchTags_def in_range_def getLatestValue_def latest_step_def checkCondition_def
        fireAlert_def alert_key_def ranges_over_def dom_def Stop_md_def exit_loop_def time_Sub_def Minute_def Second_def Let_def)
  then show ?thesis using dashboard_alerts_spaced [OF d(1), of 9] by (intro exI [of _ d]) simp
qed

end
