(* ===== verification/Spec2Isabelle.thy ===== *)
theory Spec2Isabelle
  imports RateLimiterProps PoolBreaker GrpcClient GenBreaker AdvancedBreaker TwoPhase Inventory PriorityPool PubSub Fallback LoadBalancer ZeroDowntime DistContext AutoHealing StreamAggregation DynamicPool TaskQueue BatchProcessing BulkMigration MultiAuth ContextControl SseServer WebSocketHub Pipeline ProductionMonitoring AsyncLogging HttpServer MonitoringDashboard
begin

text \<open>
  A verification library for the Go programs of this repository: a tutorial on concurrent design
  in eight chapters, each a set of independent programs.  The library models the programs whose
  own logic carries a contract (rate limiting, circuit breakers, retries, transactions, queues and
  pools, message delivery, connections, rollouts, migration, authentication) and proves what makes
  each of them correct.

  \<^bold>\<open>The parts and how they interact.\<close>  The programs do not call each other; inside each, a few
  components share state under a mutex, or pass values over channels.

  Chapter 1, \<^verbatim>\<open>01_practical_foundations_of_concurrent_programming\<close>:
  \<^item> \<^verbatim>\<open>ans_02/task_queue.go\<close>, theory \<open>TaskQueue\<close>: submitters drop the oldest task to make room, workers
    take tasks.

  Chapter 2, \<^verbatim>\<open>02_practical_application_of_the_worker_pool_pattern\<close>:
  \<^item> \<^verbatim>\<open>ans_01/dynamic_worker_pool.go\<close>, theory \<open>DynamicPool\<close>: the workers, the monitor that scales their
    number with the load, shutdown.
  \<^item> \<^verbatim>\<open>ans_02/priority_worker_pool.go\<close>, theory \<open>PriorityPool\<close>, on \<open>BinaryHeap\<close>, the algorithms of Go's
    \<^verbatim>\<open>container/heap\<close>.
  \<^item> \<^verbatim>\<open>ans_03/circuit_breaker_pool.go\<close>, theory \<open>PoolBreaker\<close>: a circuit breaker, the retry schedule and
    its back-off.

  Chapter 3, \<^verbatim>\<open>03_fan-out_fan-in_and_context_control\<close>:
  \<^item> \<^verbatim>\<open>02_context_control_system/context_control_system.go\<close>, theory \<open>ContextControl\<close>: tasks with timeouts
    and cancellation.
  \<^item> \<^verbatim>\<open>03_stream_aggregation/stream_aggregation.go\<close>, theory \<open>StreamAggregation\<close>: overlapping time windows
    and their statistics.
  \<^item> \<^verbatim>\<open>ans_01/multi_stage_pipeline.go\<close>, theory \<open>Pipeline\<close>: stages of workers over bounded channels.
  \<^item> \<^verbatim>\<open>ans_02/adaptive_load_balancer.go\<close>, theory \<open>LoadBalancer\<close>: node selection, fan-out and fan-in,
    adaptation.
  \<^item> \<^verbatim>\<open>ans_03/distributed_context_manager.go\<close>, theory \<open>DistContext\<close>: one node's contexts and its messages.

  Chapter 4, \<^verbatim>\<open>04_concurrent_programming_for_web_processing\<close>:
  \<^item> \<^verbatim>\<open>02_websocket_handler/websocket_handler.go\<close>, theory \<open>WebSocketHub\<close>, and
    \<^verbatim>\<open>ans_01/massive_websocket_server.go\<close>, theory \<open>SseServer\<close>: connections, channels, broadcasts,
    clean-up.  Both build their connections' send queues as in theory \<open>Outbox\<close>.
  \<^item> \<^verbatim>\<open>01_concurrent_http_server/concurrent_http_server.go\<close>, theory \<open>HttpServer\<close>: routing, middlewares,
    handlers, the workers behind the request queue, start and shutdown.
  \<^item> \<^verbatim>\<open>03_api_rate_limiter/api_rate_limiter.go\<close>: \<^verbatim>\<open>CheckRequest\<close> picks a rule, finds the client's bucket,
    decides (\<^verbatim>\<open>checkRateLimit\<close>) and counts; a queue, its workers, a clean-up goroutine and an HTTP
    middleware stand around it.  Theories \<open>RateLimiter\<close> (the definitions), \<open>FixedWindow\<close> (the interface
    of a window) and \<open>RateLimiterProps\<close> (what holds).
  \<^item> \<^verbatim>\<open>ans_02/multi_auth_system.go\<close>, theory \<open>MultiAuth\<close>: several providers, the choice of a result, the
    cache, token generation and checking.
  \<^item> \<^verbatim>\<open>ans_03/async_logging_middleware.go\<close>, theory \<open>AsyncLogging\<close>: log entries in batches, retries, the
    backup queue.

  Chapter 5, \<^verbatim>\<open>05_database_parallel_access_pattern\<close>:
  \<^item> \<^verbatim>\<open>03_batch_processing/batch_processing.go\<close>, theory \<open>BatchProcessing\<close>: chunks in transactions, retries.
  \<^item> \<^verbatim>\<open>ans_01/inventory_system.go\<close>, theory \<open>Inventory\<close>: optimistic locking, retries.
  \<^item> \<^verbatim>\<open>ans_02/distributed_transaction.go\<close>, theory \<open>TwoPhase\<close>: coordinator, participants, tables.
  \<^item> \<^verbatim>\<open>ans_03/bulk_migration.go\<close>, theory \<open>BulkMigration\<close>: plan, copying, restart after a crash.

  Chapter 6, \<^verbatim>\<open>06_grpc_concurrent_programming/client/client.go\<close>, theory \<open>GrpcClient\<close>: circuit breaker,
  retry loop, connection pool.

  Chapter 7, \<^verbatim>\<open>07_error_handling_and_monitoring\<close>:
  \<^item> \<^verbatim>\<open>01_circuit_breaker/circuit_breaker.go\<close>, theory \<open>GenBreaker\<close> (generations, panics, the HTTP
    wrapper); \<^verbatim>\<open>ans_01/circuit_breaker_advanced.go\<close>, theory \<open>AdvancedBreaker\<close> (sliding window).
  \<^item> \<^verbatim>\<open>02_auto_healing/auto_healing.go\<close>, theory \<open>AutoHealing\<close>: health checks, issues, healing actions.
  \<^item> \<^verbatim>\<open>03_monitoring_dashboard/monitoring.go\<close>, theory \<open>MonitoringDashboard\<close>: time series, queries, alert
    rules.
  \<^item> \<^verbatim>\<open>ans_02/fallback_manager.go\<close>, theory \<open>Fallback\<close> (worker limit, cache, modes).  Its window of results
    and that of \<open>AdvancedBreaker\<close> are the ring buffer of \<open>RingBuffer\<close>.
  \<^item> \<^verbatim>\<open>ans_03/pubsub_synctest.go\<close>, theory \<open>PubSub\<close>: topics, subscribers, acknowledgement.

  Chapter 8, \<^verbatim>\<open>08_performance_optimization_and_production_operations\<close>:
  \<^item> \<^verbatim>\<open>ans_02/production_monitoring.go\<close>, theory \<open>ProductionMonitoring\<close>: metrics, anomaly detection, alerts.
  \<^item> \<^verbatim>\<open>ans_03/zero_downtime_config.go\<close>, theory \<open>ZeroDowntime\<close>: validation, versions, staged rollout,
    rollback, the file watcher, HTTP.

  \<^bold>\<open>How the code is read.\<close>  A struct is a \<open>record\<close> whose fields keep the source's names behind a
  short prefix, an enumeration a \<open>datatype\<close>, a method a function that returns the new state, an
  error result an \<open>option\<close> or a sum.  A critical section, or a channel operation, of one goroutine
  is one step; concurrency is a sequence of steps in any order (inductive \<open>reachable\<close> predicates,
  \<open>foldl\<close> over events, or \<open>run_steps\<close> of the prelude, where a step that the state does not allow,
  or that would panic, is \<open>None\<close>).  Where it matters, a goroutine is a value with a program counter,
  so that steps of others come between any two of its sections; what other goroutines do while a
  call is outside its critical sections is elsewhere an argument \<open>others\<close>.  The clock is an argument,
  read once per critical section.  The answers of databases, HTTP servers, the gRPC library, request
  functions and handlers are arguments, as are random draws and the order in which Go ranges over a
  map: every theorem holds for all of them.  So do the parameters for libraries: the cryptographic
  functions of \<open>MultiAuth\<close>, the encoder of \<open>SseServer\<close>, the environment of \<open>ZeroDowntime\<close>, the stage
  functions of \<open>Pipeline\<close>.  Several states carry histories (what was accepted, handled, given up) that
  no operation reads: they are kept so that a statement can speak of the past, and each theory names
  its own.  Nodes of \<open>LoadBalancer\<close> live in a store, since the code shares them by pointer.

  A \<open>float64\<close> is a \<open>real\<close>; counters are unbounded \<open>int\<close>; widths are kept where they matter (the
  back-off in 64-bit nanoseconds of \<open>PoolBreaker\<close>, the 64-bit round-robin counter of \<open>GrpcClient\<close>,
  the 32-bit quantities of \<open>Inventory\<close>, the runtime statistics of
  \<open>ProductionMonitoring\<close>, the 64-bit chunk bounds of \<open>BulkMigration\<close>).  Logging and
  metric reporters only read and are left out.

  \<^bold>\<open>Interfaces.\<close>  Five locales state what several components promise, and their clients' results are
  proved once.
  \<^item> \<open>fixed_window\<close>: a window restarts when it has expired, only admissions count, an admission needs
    room.  Client: at most the limit in one window, at most twice the limit in any interval of that
    length.  Interpreted on the request window and on the burst window of \<^verbatim>\<open>checkRateLimit\<close>.
  \<^item> \<open>breaker\<close>: admission and completion over closed, open and half-open.  Client: an open breaker
    fails fast up to its deadline whatever happens, and recovers by successes alone.  Interpreted on
    all four circuit breakers.
  \<^item> \<open>sliding_window\<close>: adding a result keeps the most recent ones.  Interpreted on the ring buffer,
    and through it on the windows of \<open>AdvancedBreaker\<close> and \<open>Fallback\<close>.
  \<^item> \<open>heap_interface\<close>: \<^verbatim>\<open>Less\<close> is a strict weak order.  Client: \<^verbatim>\<open>Push\<close> and \<^verbatim>\<open>Pop\<close> keep the heap and
    its elements, \<^verbatim>\<open>Pop\<close> returns a least one.  Interpreted on the task order of \<open>PriorityPool\<close>.
  \<^item> \<open>step_invariant\<close>: an invariant that the constructor establishes and every step keeps.  Client: it
    holds after any run.  Interpreted on each component whose steps are run by \<open>run_steps\<close>.

  \<^bold>\<open>What the lemmas show.\<close>
  \<^item> Rate limiter: the bounds on admissions; \<^verbatim>\<open>RetryAfter\<close> is exactly the wait after which a request
    is admitted; deleting idle buckets is invisible; the highest-priority matching rule decides; the
    counters of every reachable limiter add up.
  \<^item> Circuit breakers: fail-fast while open, bounded probes, which completions decide the half-open
    state, the trip decision as a function of the last results; retries are scheduled exactly on
    server errors with budget left; the result of the retry loop on every branch.
  \<^item> Fallback manager: the evaluation decides on the last recorded results, the worker limit, and the
    round trip through the cache.
  \<^item> Two-phase commit: a successful run has moved stock, money and shipment together; an aborted run
    leaves every table as it was; which failures leave a partial commit.
  \<^item> Inventory: stock plus the quantities sold is conserved under any interleaving, a processed order
    is applied exactly once, and attempts are bounded.
  \<^item> Batch processing and migration: a chunk is committed again only after a commit that took effect but
    answered an error, and progress counts what succeeded; a migration that reports success has copied every row and no other, whatever failed, crashed or was
    restarted; the plan partitions the identifiers, or never ends near the end of the 64-bit range.
  \<^item> Queues and pools: the priority queue serves all tasks in the order of priority and age; every
    submitted task is queued, running, counted or given up; workers stay within the maximum; a dropped
    task is the oldest one at that moment.
  \<^item> Publish-subscribe: messages are handled in order and at most once; a queued message is pending
    until handled; what a full queue loses.
  \<^item> Contexts: every task is accounted for and a reported cancellation has ended a running task; a
    replica that handles the queued updates follows its origin; contexts created are held, cancelled or
    expired.
  \<^item> Stream aggregation: accepted events are in exactly the aligned windows until the context is
    cancelled, and the statistics are those of the events.
  \<^item> Pipeline: what comes out is the stages applied one after the other to submitted items; with one
    worker per stage the order of submission is kept; two workers can reorder.
  \<^item> Load balancer: with weights that are not negative no selection panics, and each chooses as its
    strategy says, round robin included; a node's load is the number of attempts working on it.
  \<^item> Connections: no send meets a closed queue and no queue is closed twice under any interleaving of
    sends, closes and clean-ups; who is sent what; replies that are never delivered.
  \<^item> HTTP server: what alone can end the process of a server started once (a handler that panics or
    returns neither response nor error, a reader of the statistics' live maps); responses reach their own requests; the active requests are exactly counted.
  \<^item> Logging: every log entry is in one place, written, queued, backed up or lost, and lost only for a
    stated reason; what a retry writes twice.
  \<^item> Monitoring: the model that is updated one sample at a time holds the exact mean and deviation; the
    reported pause is the longest new one, across the wrap-around of the runtime's 32-bit counter; an
    alert is notified once.  The dashboard's series keep the newest points, sorted and bounded; a rule
    judges the newest point of its window.
  \<^item> Authentication: a cached or returned result is a provider's own answer; what an accepted token
    must have; a generated token is accepted by its provider.
  \<^item> Auto healing: at most one healing per issue type; actions are tried in order; a healing ends.
  \<^item> Zero-downtime configuration: only validated configurations are served; a rollout goes through its
    stages; a rollback restores what was served.
  Theorems about behaviour that departs from what a comment says, or from what was surely meant, are
  stated as the code behaves, with a concrete run.

  \<^bold>\<open>Loops.\<close>  Recursions are structural or have a measure: retry loops recurse on the number of
  attempts left, the heap's \<^verbatim>\<open>up\<close> and \<^verbatim>\<open>down\<close> on the index, the cutting into chunks and the drain of a
  queue on the length.  The planning loop of \<open>BulkMigration\<close> may run for ever, when a 64-bit bound wraps:
  it is a partial function, with a theorem that says when it ends and one that says when it does not.
  No fuel is used.

  \<^bold>\<open>Not modelled.\<close>
  \<^item> Demonstrations and mocks (\<^verbatim>\<open>main\<close> functions, load generators, benchmarks, report printers) and
    introductory samples that only start goroutines and print.
  \<^item> Thin layers over libraries that are not in the repository: the SQL adapters and the manager over
    them, connection pool and transaction helpers, the gRPC server and its generated code, TLS set-up,
    HTML scraping, the image library's pixel loops, \<^verbatim>\<open>pprof\<close> and runtime statistics.
  \<^item> The production manager of chapter 8: what is its own beside input and output (health checks against
    the system, a configuration file) is of the kinds above.
  Each of these is listed with the program's components.
\<close>

end
